(* ===== verification/Async_Prelude.thy ===== *)
theory Async_Prelude
  imports Main "HOL-Library.Word"
begin

text \<open>
  Shared vocabulary of the development: C result codes, the machine integer types the
  sources use, and the generic facts on words, lists and option values that the component
  theories rest on.  The collections declared here (\<open>buf_simps\<close>, \<open>queue_laws\<close>,
  \<open>step_inv\<close>) are filled by the component theories.
\<close>

unbundle bit_operations_syntax

named_theorems buf_simps \<open>index arithmetic of the ring buffer\<close>
named_theorems step_inv \<open>one-step preservation of component invariants\<close>

subsection \<open>C types\<close>

type_synonym size_t = "64 word"
type_synonym uint32 = "32 word"
type_synonym uint64 = "64 word"

datatype zend_result = SUCCESS | FAILURE

subsection \<open>Powers of two and masks\<close>

text \<open>The test \<^verbatim>\<open>(n & (n - 1)) == 0\<close> the sources use for powers of two.\<close>

definition pow2_test :: "size_t \<Rightarrow> bool" where
  "pow2_test n \<longleftrightarrow> n AND (n - 1) = 0"

definition is_pow2 :: "size_t \<Rightarrow> bool" where
  "is_pow2 n \<longleftrightarrow> n \<noteq> 0 \<and> pow2_test n"

lemma nat_and_pred_zero_pow2:
  fixes n :: nat
  assumes "0 < n" and "n AND (n - 1) = 0"
  shows "\<exists>k. n = 2 ^ k"
  using assms
proof (induction n rule: less_induct)
  case (less n)
  show ?case
  proof (cases "even n")
    case True
    then obtain m where m: "n = 2 * m" by (elim evenE)
    with less.prems have "0 < m" by simp
    have "n - 1 = 2 * (m - 1) + 1" using m \<open>0 < m\<close> by simp
    then have "n AND (n - 1) = 2 * (m AND (m - 1))"
      using m by (simp add: and_nat_rec [of "2 * m"])
    with less.prems have "m AND (m - 1) = 0" by simp
    moreover have "m < n" using m \<open>0 < m\<close> by simp
    ultimately obtain k where "m = 2 ^ k" using less.IH \<open>0 < m\<close> by blast
    with m have "n = 2 ^ Suc k" by simp
    then show ?thesis by blast
  next
    case False
    then obtain m where m: "n = 2 * m + 1" by (elim oddE)
    then have "n AND (n - 1) = 2 * m" by (simp add: and_nat_rec [of "Suc (2 * m)"])
    with less.prems m have "n = 2 ^ 0" by simp
    then show ?thesis by blast
  qed
qed

lemma unat_and: "unat (a AND b) = unat a AND unat (b :: size_t)"
  by (simp add: unsigned_and_eq)

lemma unat_less_size: "unat (a :: size_t) < 2 ^ 64"
  using unsigned_less [where ?'a = nat and w = a] by simp

lemma is_pow2_unat:
  assumes "is_pow2 n"
  shows "\<exists>k<64. unat n = 2 ^ k"
proof -
  from assms have pos: "0 < unat n" by (simp add: is_pow2_def unat_gt_0)
  from assms have "unat n AND unat (n - 1) = 0"
    by (simp add: is_pow2_def pow2_test_def flip: unat_and)
  moreover have "unat (n - 1) = unat n - 1"
    using assms by (simp add: is_pow2_def unat_minus_one)
  ultimately obtain k where k: "unat n = 2 ^ k"
    using nat_and_pred_zero_pow2 [OF pos] by auto
  have "(2::nat) ^ k < 2 ^ 64" using unat_less_size [of n] k by simp
  then have "k < 64" by (rule power_less_imp_less_exp [rotated]) simp
  with k show ?thesis by blast
qed

lemma is_pow2E:
  assumes "is_pow2 n"
  obtains k where "k < 64" and "unat n = 2 ^ k"
  using is_pow2_unat [OF assms] by blast

lemma nat_pow2_and_pred: "(2::nat) ^ k AND (2 ^ k - 1) = 0"
proof -
  have "(2::nat) ^ k AND mask k = take_bit k (2 ^ k)" by (simp add: take_bit_eq_mask)
  then show ?thesis by (simp add: mask_eq_exp_minus_1)
qed

lemma is_pow2I:
  assumes "unat n = 2 ^ k"
  shows "is_pow2 n"
proof -
  have nz: "n \<noteq> 0" using assms by (auto simp flip: unat_gt_0)
  have "unat (n AND (n - 1)) = 2 ^ k AND (2 ^ k - 1)"
    using assms nz by (simp add: unat_and unat_minus_one)
  then have "unat (n AND (n - 1)) = 0" by (simp only: nat_pow2_and_pred)
  then have "n AND (n - 1) = 0" by (simp only: unat_eq_0)
  with nz show ?thesis by (simp add: is_pow2_def pow2_test_def)
qed

text \<open>Masking with \<^verbatim>\<open>capacity - 1\<close> is reduction modulo a power-of-two capacity.\<close>

lemma unat_and_pred:
  assumes "is_pow2 c"
  shows "unat (x AND (c - 1)) = unat x mod unat c"
proof -
  obtain k where k: "k < 64" "unat c = 2 ^ k" using assms by (rule is_pow2E)
  have "unat (c - 1) = mask k"
    using assms k by (simp add: is_pow2_def unat_minus_one mask_eq_exp_minus_1)
  then have "unat (x AND (c - 1)) = unat x AND mask k" by (simp add: unat_and)
  then show ?thesis using k by (simp add: take_bit_eq_mod flip: take_bit_eq_mask)
qed

lemma unat_add_small: "unat a + unat b < 2 ^ 64 \<Longrightarrow> unat (a + b :: size_t) = unat a + unat b"
  by (simp add: unat_word_ariths)

subsection \<open>Lists\<close>

lemma list_all_update_Some: "list_all P xs \<Longrightarrow> P x \<Longrightarrow> list_all P (xs[i := x])"
  by (auto simp: list_all_iff dest: subsetD [OF set_update_subset_insert])

lemma map_upt_append: "i \<le> j \<Longrightarrow> map f [0..<j] = map f [0..<i] @ map (\<lambda>k. f (i + k)) [0..<j - i]"
  by (induction j) (auto simp: Suc_diff_le le_Suc_eq)

end
