(* ===== verification/Ring_Lists.thy ===== *)
theory Ring_Lists
  imports Async_Prelude
begin

text \<open>
  Reading \<open>n\<close> consecutive cells of an array, starting at index \<open>t\<close> and wrapping round at
  its end.  The facts below are what every index manipulation of the ring buffer comes
  down to: writing after the last cell, before the first one, dropping the first one,
  and the two memory layouts (contiguous and wrapped) that a reallocation copies.
\<close>

definition ring :: "'a list \<Rightarrow> nat \<Rightarrow> nat \<Rightarrow> 'a list" where
  "ring xs t n = map (\<lambda>i. xs ! ((t + i) mod length xs)) [0..<n]"

lemma length_ring [simp]: "length (ring xs t n) = n"
  by (simp add: ring_def)

lemma ring_0 [simp]: "ring xs t 0 = []"
  by (simp add: ring_def)

lemma ring_nth: "i < n \<Longrightarrow> ring xs t n ! i = xs ! ((t + i) mod length xs)"
  by (simp add: ring_def)

lemma ring_mod: "ring xs (t mod length xs) n = ring xs t n"
  by (simp add: ring_def mod_add_left_eq)

lemma ring_Suc: "ring xs t (Suc n) = xs ! (t mod length xs) # ring xs (Suc t) n"
proof -
  have "[0..<Suc n] = 0 # map Suc [0..<n]" by (simp add: map_Suc_upt upt_conv_Cons del: upt_Suc)
  then show ?thesis by (simp add: ring_def del: upt_Suc)
qed

lemma mod_neq_same_period:
  fixes t :: nat
  assumes "i < j" and "j < i + m"
  shows "(t + i) mod m \<noteq> (t + j) mod m"
proof
  assume "(t + i) mod m = (t + j) mod m"
  then have "m dvd (t + j) - (t + i)" using assms(1) by (metis mod_eq_dvd_iff_nat less_imp_le nat_add_left_cancel_le)
  then have "m dvd j - i" by simp
  with assms show False by (auto dest!: dvd_imp_le)
qed

lemma ring_update_other:
  assumes "n \<le> j" and "j < length xs"
  shows "ring (xs[(t + j) mod length xs := v]) t n = ring xs t n"
proof -
  have "(t + j) mod length xs \<noteq> (t + i) mod length xs" if "i < n" for i
    using mod_neq_same_period [of i j "length xs" t] assms that by fastforce
  then show ?thesis by (simp add: ring_def)
qed

lemma ring_snoc:
  assumes "n < length xs"
  shows "ring (xs[(t + n) mod length xs := v]) t (Suc n) = ring xs t n @ [v]"
proof -
  let ?ys = "xs[(t + n) mod length xs := v]"
  have "(t + n) mod length xs < length xs" using assms by (intro mod_less_divisor) linarith
  then have "?ys ! ((t + n) mod length ?ys) = v" by simp
  then have "ring ?ys t (Suc n) = ring ?ys t n @ [v]" by (simp add: ring_def)
  with assms show ?thesis by (simp add: ring_update_other)
qed

lemma ring_cons_front:
  assumes "n < length xs" and "t < length xs"
    and "t' = (if t = 0 then length xs - 1 else t - 1)"
  shows "ring (xs[t' := v]) t' (Suc n) = v # ring xs t n"
proof -
  have t': "t' < length xs" "Suc t' mod length xs = t" using assms by (auto simp: mod_Suc)
  have eq: "ring (xs[t' := v]) (Suc t') n = ring (xs[t' := v]) t n"
    using ring_mod [of "xs[t' := v]" "Suc t'" n] t' by simp
  have "t' = (t + (length xs - 1)) mod length xs"
  proof (cases "t = 0")
    case False
    then have "t + (length xs - 1) = (t - 1) + length xs" using assms(2) by simp
    then have "(t + (length xs - 1)) mod length xs = t - 1" using assms(2) by (metis less_imp_diff_less mod_add_self2 mod_less)
    then show ?thesis using False assms(3) by simp
  qed (use assms in simp)
  moreover have "n \<le> length xs - 1" using assms(1) by simp
  moreover have "length xs - 1 < length xs" using assms(1) by simp
  ultimately have "ring (xs[t' := v]) t n = ring xs t n" by (simp only: ring_update_other)
  moreover have "ring (xs[t' := v]) t' (Suc n) = v # ring (xs[t' := v]) (Suc t') n"
    using t' by (simp add: ring_Suc)
  ultimately show ?thesis using eq by simp
qed

lemma ring_linear: "t + n \<le> length xs \<Longrightarrow> ring xs t n = take n (drop t xs)"
  by (rule nth_equalityI) (auto simp: ring_nth)

lemma ring_wrapped:
  assumes "t < length xs" and "length xs \<le> t + n" and "n \<le> length xs"
  shows "ring xs t n = drop t xs @ take (t + n - length xs) xs"
proof (rule nth_equalityI)
  show "length (ring xs t n) = length (drop t xs @ take (t + n - length xs) xs)"
    using assms by simp
  fix i
  assume "i < length (ring xs t n)"
  then have i: "i < n" by simp
  show "ring xs t n ! i = (drop t xs @ take (t + n - length xs) xs) ! i"
  proof (cases "t + i < length xs")
    case True
    with i show ?thesis by (auto simp: ring_nth nth_append)
  next
    case False
    with i assms have "(t + i) mod length xs = t + i - length xs"
      by (simp add: mod_if)
    moreover have "\<not> i < length xs - t" using False by simp
    ultimately show ?thesis using False i assms by (simp add: ring_nth nth_append add.commute)
  qed
qed

lemma ring_from_0: "n \<le> length xs \<Longrightarrow> ring xs 0 n = take n xs"
  by (simp add: ring_linear)

lemma ring_append_linear: "t + n \<le> length xs \<Longrightarrow> ring (xs @ ys) t n = ring xs t n"
  by (simp add: ring_linear)

text \<open>Exchanging two cells of the window exchanges the two elements read.\<close>

lemma ring_swap:
  fixes t :: nat
  assumes "i < n" and "j < n" and "n \<le> length xs"
  defines "a \<equiv> (t + i) mod length xs" and "b \<equiv> (t + j) mod length xs"
  shows "ring (xs[a := xs ! b, b := xs ! a]) t n =
    (ring xs t n)[i := ring xs t n ! j, j := ring xs t n ! i]"
proof (rule nth_equalityI)
  fix k
  assume "k < length (ring (xs[a := xs ! b, b := xs ! a]) t n)"
  then have k: "k < n" by simp
  have lt: "a < length xs" "b < length xs" using assms by (auto intro: mod_less_divisor)
  have same: "(t + k) mod length xs = (t + m) mod length xs \<longleftrightarrow> k = m" if "m < n" for m
    using mod_neq_same_period [of k m "length xs" t] mod_neq_same_period [of m k "length xs" t]
      k that assms(3) by (cases k m rule: linorder_cases) auto
  show "ring (xs[a := xs ! b, b := xs ! a]) t n ! k =
      (ring xs t n)[i := ring xs t n ! j, j := ring xs t n ! i] ! k"
    using k lt same [OF assms(1)] same [OF assms(2)] assms(1,2)
    by (auto simp: ring_nth nth_list_update a_def b_def)
qed simp

end
