(* ===== verification/Circular_Buffer.thy ===== *)
theory Circular_Buffer
  imports Ring_Lists
begin

text \<open>
  The ring buffer of \<^verbatim>\<open>src/internal/circular_buffer.{c,h}\<close>, which holds the values of a
  channel, the idle resources of a pool and the scheduler's ready queues.

  A \<^verbatim>\<open>size_t\<close> is a 64-bit word, so index arithmetic wraps exactly as in C.  One item of
  \<^verbatim>\<open>item_size\<close> bytes is one value of the element type, a \<^verbatim>\<open>memcpy\<close> of an item copies
  the value; the memory block is a list with one cell per item, \<open>None\<close> for a cell nothing
  was stored in since it was allocated, and the empty list for the NULL pointer.
  The allocator is outside the model: each operation that allocates takes the outcome of
  its one allocation as its first argument (\<open>False\<close> is a NULL return).  A result
  \<open>None\<close> of type \<open>option\<close> means that the C loop never returns.
\<close>

record 'a circular_buffer =
  cb_item_size :: size_t
  cb_min_size :: size_t
  cb_capacity :: size_t
  cb_auto_optimize :: bool
  cb_decrease_t :: size_t
  cb_data :: "'a option list"
  cb_head :: size_t
  cb_tail :: size_t

definition MINIMUM_COUNT :: size_t where
  "MINIMUM_COUNT = 4"

text \<open>The loop of \<open>round_up_to_power_of_2\<close>: \<^verbatim>\<open>while (power < n) power <<= 1\<close>.\<close>

partial_function (option) round_up_loop :: "size_t \<Rightarrow> size_t \<Rightarrow> size_t option" where
  "round_up_loop pow n = (if pow < n then round_up_loop (push_bit 1 pow) n else Some pow)"

declare round_up_loop.simps [code]

definition round_up_to_power_of_2 :: "size_t \<Rightarrow> size_t option" where
  "round_up_to_power_of_2 n =
     (if n = 0 then Some 1 else if pow2_test n then Some n else round_up_loop 1 n)"

definition next_index :: "size_t \<Rightarrow> size_t \<Rightarrow> size_t" where
  "next_index index capacity = (index + 1) AND (capacity - 1)"

definition circular_buffer_is_empty :: "'a circular_buffer \<Rightarrow> bool" where
  "circular_buffer_is_empty b \<longleftrightarrow> cb_head b = cb_tail b"

definition circular_buffer_is_not_empty :: "'a circular_buffer \<Rightarrow> bool" where
  "circular_buffer_is_not_empty b \<longleftrightarrow> cb_head b \<noteq> cb_tail b"

definition circular_buffer_is_full :: "'a circular_buffer \<Rightarrow> bool" where
  "circular_buffer_is_full b \<longleftrightarrow> next_index (cb_head b) (cb_capacity b) = cb_tail b"

definition circular_buffer_count :: "'a circular_buffer \<Rightarrow> size_t" where
  "circular_buffer_count b =
     (if cb_capacity b = 0 then 0
      else if cb_tail b \<le> cb_head b then cb_head b - cb_tail b
      else cb_capacity b - cb_tail b + cb_head b)"

definition circular_buffer_capacity :: "'a circular_buffer \<Rightarrow> size_t" where
  "circular_buffer_capacity b = cb_capacity b - 1"

definition circular_buffer_clean :: "'a circular_buffer \<Rightarrow> 'a circular_buffer" where
  "circular_buffer_clean b = b\<lparr>cb_head := cb_tail b\<rparr>"

definition should_decrease :: "'a circular_buffer \<Rightarrow> bool" where
  "should_decrease b \<longleftrightarrow> cb_auto_optimize b \<and> \<not> circular_buffer_is_empty b
     \<and> circular_buffer_count b < cb_decrease_t b"

definition recalc_decrease_threshold :: "'a circular_buffer \<Rightarrow> size_t \<Rightarrow> 'a circular_buffer" where
  "recalc_decrease_threshold b new_count =
     b\<lparr>cb_decrease_t := (if new_count \<le> cb_min_size b then 0
                          else new_count div 2 - new_count div 4)\<rparr>"

subsection \<open>Construction and destruction\<close>

definition circular_buffer_ctor ::
  "bool \<Rightarrow> 'a circular_buffer \<Rightarrow> size_t \<Rightarrow> size_t \<Rightarrow> ('a circular_buffer \<times> zend_result) option" where
  "circular_buffer_ctor alloc_ok b count item_size =
     (case round_up_to_power_of_2 (if count \<le> 0 then MINIMUM_COUNT else count) of
        None \<Rightarrow> None
      | Some c \<Rightarrow>
          Some (if \<not> alloc_ok then (b, FAILURE)
                else (b\<lparr>cb_item_size := item_size, cb_min_size := c, cb_capacity := c,
                        cb_auto_optimize := True,
                        cb_decrease_t := (if MINIMUM_COUNT < c then c div 2 - c div 4 else 0),
                        cb_data := replicate (unat c) None,
                        cb_head := 0, cb_tail := 0\<rparr>, SUCCESS)))"

text \<open>The structure as \<^verbatim>\<open>calloc\<close> leaves it: every field zero.\<close>

definition zeroed_buffer :: "'a circular_buffer" where
  "zeroed_buffer = \<lparr>cb_item_size = 0, cb_min_size = 0, cb_capacity = 0, cb_auto_optimize = False,
     cb_decrease_t = 0, cb_data = [], cb_head = 0, cb_tail = 0\<rparr>"

text \<open>
  The inner option of the result is the returned pointer (\<open>None\<close> is NULL); the first two
  arguments are the outcomes of the two allocations.
\<close>

definition circular_buffer_new ::
  "bool \<Rightarrow> bool \<Rightarrow> size_t \<Rightarrow> size_t \<Rightarrow> 'a circular_buffer option option" where
  "circular_buffer_new struct_ok data_ok count item_size =
     (if item_size \<le> 0 then Some None
      else case round_up_to_power_of_2 (if count \<le> 0 then MINIMUM_COUNT else count) of
        None \<Rightarrow> None
      | Some c \<Rightarrow>
          if \<not> struct_ok then Some None
          else case circular_buffer_ctor data_ok zeroed_buffer c item_size of
            None \<Rightarrow> None
          | Some (b, r) \<Rightarrow> Some (if r = FAILURE then None else Some b))"

definition circular_buffer_dtor :: "'a circular_buffer \<Rightarrow> 'a circular_buffer" where
  "circular_buffer_dtor b = (if cb_data b \<noteq> [] then b\<lparr>cb_data := []\<rparr> else b)"

subsection \<open>Reallocation\<close>

text \<open>
  The body of \<open>circular_buffer_realloc\<close> once the new capacity is known: the three memory
  layouts of the source (empty, contiguous, wrapped).  Every branch performs one
  allocation and returns \<open>FAILURE\<close> with the buffer untouched when it fails.
\<close>

definition fill_block :: "'a option list \<Rightarrow> size_t \<Rightarrow> 'a option list" where
  "fill_block items new_count = items @ replicate (unat new_count - length items) None"

definition realloc_move ::
  "bool \<Rightarrow> 'a circular_buffer \<Rightarrow> size_t \<Rightarrow> 'a circular_buffer \<times> zend_result" where
  "realloc_move alloc_ok b new_count =
     (if \<not> alloc_ok then (b, FAILURE)
      else if circular_buffer_is_empty b then
        (recalc_decrease_threshold
           (b\<lparr>cb_data := fill_block [] new_count, cb_capacity := new_count,
              cb_tail := 0, cb_head := 0\<rparr>) new_count, SUCCESS)
      else
        let count = circular_buffer_count b in
        (if cb_tail b \<le> cb_head b then
           if cb_capacity b < new_count then
             (recalc_decrease_threshold
                (b\<lparr>cb_data := fill_block (cb_data b) new_count, cb_capacity := new_count\<rparr>)
                new_count, SUCCESS)
           else
             (recalc_decrease_threshold
                (b\<lparr>cb_data := fill_block (take (unat count) (drop (unat (cb_tail b)) (cb_data b))) new_count,
                   cb_capacity := new_count, cb_tail := 0, cb_head := count\<rparr>)
                new_count, SUCCESS)
         else
           let first_part_count = cb_capacity b - cb_tail b in
           (recalc_decrease_threshold
              (b\<lparr>cb_data := fill_block
                   (take (unat first_part_count) (drop (unat (cb_tail b)) (cb_data b))
                    @ take (unat (cb_head b)) (cb_data b)) new_count,
                 cb_capacity := new_count, cb_tail := 0, cb_head := count\<rparr>)
              new_count, SUCCESS)))"

text \<open>The branch \<^verbatim>\<open>new_count <= 0\<close>: the buffer chooses its new capacity.\<close>

definition circular_buffer_realloc_auto ::
  "bool \<Rightarrow> 'a circular_buffer \<Rightarrow> 'a circular_buffer \<times> zend_result" where
  "circular_buffer_realloc_auto alloc_ok b =
     (if circular_buffer_is_full b then realloc_move alloc_ok b (cb_capacity b * 2)
      else if should_decrease b then
        (let new_count = cb_capacity b div 2 in
         realloc_move alloc_ok b (if new_count < cb_min_size b then cb_min_size b else new_count))
      else (b, SUCCESS))"

definition circular_buffer_realloc ::
  "bool \<Rightarrow> 'a circular_buffer \<Rightarrow> size_t \<Rightarrow> ('a circular_buffer \<times> zend_result) option" where
  "circular_buffer_realloc alloc_ok b new_count =
     (if new_count \<le> 0 then Some (circular_buffer_realloc_auto alloc_ok b)
      else case round_up_to_power_of_2 new_count of
        None \<Rightarrow> None
      | Some c \<Rightarrow> Some (realloc_move alloc_ok b c))"

subsection \<open>Push and pop\<close>

definition store_at_head :: "'a circular_buffer \<Rightarrow> 'a \<Rightarrow> 'a circular_buffer" where
  "store_at_head b v =
     b\<lparr>cb_data := (cb_data b)[unat (cb_head b) := Some v],
       cb_head := next_index (cb_head b) (cb_capacity b)\<rparr>"

definition resize_if_needed ::
  "bool \<Rightarrow> 'a circular_buffer \<Rightarrow> 'a circular_buffer \<times> zend_result" where
  "resize_if_needed alloc_ok b =
     (let need_increase = circular_buffer_is_full b;
          need_decrease = (\<not> need_increase \<and> should_decrease b)
      in if need_increase \<or> need_decrease then circular_buffer_realloc_auto alloc_ok b
         else (b, SUCCESS))"

definition circular_buffer_push ::
  "bool \<Rightarrow> 'a circular_buffer \<Rightarrow> 'a \<Rightarrow> bool \<Rightarrow> 'a circular_buffer \<times> zend_result" where
  "circular_buffer_push alloc_ok b v should_resize =
     (if should_resize then
        (case resize_if_needed alloc_ok b of
           (b', FAILURE) \<Rightarrow> (b', FAILURE)
         | (b', SUCCESS) \<Rightarrow> (store_at_head b' v, SUCCESS))
      else if circular_buffer_is_full b then (b, FAILURE)
      else (store_at_head b v, SUCCESS))"

definition store_before_tail :: "'a circular_buffer \<Rightarrow> 'a \<Rightarrow> 'a circular_buffer" where
  "store_before_tail b v =
     (let t = (if cb_tail b = 0 then cb_capacity b - 1 else cb_tail b - 1) in
      b\<lparr>cb_tail := t, cb_data := (cb_data b)[unat t := Some v]\<rparr>)"

definition circular_buffer_push_front ::
  "bool \<Rightarrow> 'a circular_buffer \<Rightarrow> 'a \<Rightarrow> bool \<Rightarrow> 'a circular_buffer \<times> zend_result" where
  "circular_buffer_push_front alloc_ok b v should_resize =
     (case (if should_resize then resize_if_needed alloc_ok b else (b, SUCCESS)) of
        (b', FAILURE) \<Rightarrow> (b', FAILURE)
      | (b', SUCCESS) \<Rightarrow>
          if circular_buffer_is_full b' then
            (if should_resize then (b', FAILURE) else circular_buffer_push alloc_ok b' v False)
          else (store_before_tail b' v, SUCCESS))"

text \<open>The third component is what is stored through the \<^verbatim>\<open>value\<close> pointer, if anything.\<close>

definition circular_buffer_pop ::
  "'a circular_buffer \<Rightarrow> 'a circular_buffer \<times> zend_result \<times> 'a option" where
  "circular_buffer_pop b =
     (if circular_buffer_is_empty b then (b, FAILURE, None)
      else (b\<lparr>cb_tail := next_index (cb_tail b) (cb_capacity b)\<rparr>, SUCCESS,
            cb_data b ! unat (cb_tail b)))"

subsection \<open>The pointer-sized variants of the header\<close>

definition circular_buffer_push_ptr ::
  "'a circular_buffer \<Rightarrow> 'a \<Rightarrow> 'a circular_buffer \<times> zend_result" where
  "circular_buffer_push_ptr b p =
     (if (cb_head b + 1) AND (cb_capacity b - 1) \<noteq> cb_tail b
      then (b\<lparr>cb_data := (cb_data b)[unat (cb_head b) := Some p],
              cb_head := (cb_head b + 1) AND (cb_capacity b - 1)\<rparr>, SUCCESS)
      else (b, FAILURE))"

definition circular_buffer_pop_ptr ::
  "'a circular_buffer \<Rightarrow> 'a circular_buffer \<times> zend_result \<times> 'a option" where
  "circular_buffer_pop_ptr b =
     (if cb_head b \<noteq> cb_tail b
      then (b\<lparr>cb_tail := (cb_tail b + 1) AND (cb_capacity b - 1)\<rparr>, SUCCESS,
            cb_data b ! unat (cb_tail b))
      else (b, FAILURE, None))"

definition circular_buffer_swap_ptr_at ::
  "'a circular_buffer \<Rightarrow> size_t \<Rightarrow> size_t \<Rightarrow> 'a circular_buffer" where
  "circular_buffer_swap_ptr_at b i j =
     (if i = j then b
      else let mask = cb_capacity b - 1;
               si = unat ((cb_tail b + i) AND mask);
               sj = unat ((cb_tail b + j) AND mask);
               tmp = cb_data b ! si
           in b\<lparr>cb_data := (cb_data b)[si := cb_data b ! sj, sj := tmp]\<rparr>)"

definition circular_buffer_push_ptr_with_resize ::
  "bool \<Rightarrow> 'a circular_buffer \<Rightarrow> 'a \<Rightarrow> 'a circular_buffer \<times> zend_result" where
  "circular_buffer_push_ptr_with_resize alloc_ok b p =
     (case circular_buffer_push_ptr b p of
        (b', SUCCESS) \<Rightarrow> (b', SUCCESS)
      | (b', FAILURE) \<Rightarrow> circular_buffer_push alloc_ok b' p True)"

subsection \<open>Rounding up to a power of two\<close>

text \<open>
  The shift loses the top bit, so above \<open>2 ^ 63\<close> the loop reaches 0 and never stops;
  below, it stops at the least power of two that is large enough.
\<close>

lemma unat_dbl: "unat ((p :: size_t) * 2) = (2 * unat p) mod 2 ^ 64"
  by (simp add: unat_word_ariths mult.commute)

lemma round_up_loop_pow2_or_0:
  assumes "round_up_loop p n = Some r" and "is_pow2 p \<or> p = 0"
  shows "n \<le> r \<and> (is_pow2 r \<or> r = 0)"
proof -
  have "(is_pow2 p \<or> p = 0) \<longrightarrow> n \<le> r \<and> (is_pow2 r \<or> r = 0)"
  proof (rule round_up_loop.raw_induct
      [where P = "\<lambda>p n r. (is_pow2 p \<or> p = 0) \<longrightarrow> n \<le> r \<and> (is_pow2 r \<or> r = 0)", OF _ assms(1)])
    fix f :: "size_t \<Rightarrow> size_t \<Rightarrow> size_t option" and p n r
    assume IH: "\<And>p n r. f p n = Some r \<Longrightarrow> (is_pow2 p \<or> p = 0) \<longrightarrow> n \<le> r \<and> (is_pow2 r \<or> r = 0)"
      and eq: "(if p < n then f (push_bit 1 p) n else Some p) = Some r"
    have "is_pow2 (push_bit 1 p) \<or> push_bit 1 p = 0" if "is_pow2 p \<or> p = 0"
    proof (cases "p = 0")
      case False
      with that obtain k where k: "k < 64" "unat p = 2 ^ k" by (auto elim: is_pow2E)
      show ?thesis
      proof (cases "k = 63")
        case True
        with k have "unat (push_bit 1 p) = 0" by (simp add: unat_dbl)
        then have "push_bit 1 p = 0" by (simp only: unat_eq_0)
        then show ?thesis ..
      next
        case False
        with k have "(2::nat) ^ Suc k < 2 ^ 64" by (intro power_strict_increasing) auto
        with k have "unat (push_bit 1 p) = 2 ^ Suc k" by (simp add: unat_dbl)
        then show ?thesis by (blast intro: is_pow2I)
      qed
    qed simp
    with IH eq show "(is_pow2 p \<or> p = 0) \<longrightarrow> n \<le> r \<and> (is_pow2 r \<or> r = 0)"
      by (auto simp: word_gt_0 split: if_splits)
  qed
  with assms(2) show ?thesis by blast
qed

lemma round_up_loop_returns:
  assumes "unat p = 2 ^ k" and "unat n \<le> 2 ^ m" and "k \<le> m" and "m < 64"
    and "k = 0 \<or> 2 ^ k < 2 * unat n"
  shows "\<exists>r j. round_up_loop p n = Some r \<and> unat r = 2 ^ j \<and> unat n \<le> 2 ^ j \<and> (j = 0 \<or> 2 ^ j < 2 * unat n)"
  using assms
proof (induction "m - k" arbitrary: p k)
  case 0
  then have "\<not> p < n" by (simp add: word_less_nat_alt)
  with 0 show ?case by (subst round_up_loop.simps) auto
next
  case (Suc d)
  show ?case
  proof (cases "p < n")
    case True
    have "(2::nat) ^ Suc k < 2 ^ 64" using Suc by (intro power_strict_increasing) auto
    then have "unat (push_bit 1 p) = 2 ^ Suc k" using Suc.prems by (simp add: unat_dbl)
    moreover have "2 ^ Suc k < 2 * unat n" using True Suc.prems by (simp add: word_less_nat_alt)
    moreover have "d = m - Suc k" "Suc k \<le> m" using Suc.hyps(2) by linarith+
    ultimately obtain r j where "round_up_loop (push_bit 1 p) n = Some r" "unat r = 2 ^ j"
        "unat n \<le> 2 ^ j" "j = 0 \<or> 2 ^ j < 2 * unat n"
      using Suc.hyps(1) [of "Suc k" "push_bit 1 p"] Suc.prems by auto
    with True show ?thesis by (subst round_up_loop.simps) auto
  next
    case False
    with Suc.prems show ?thesis
      by (subst round_up_loop.simps) (auto simp: word_less_nat_alt)
  qed
qed

lemma round_up_small:
  assumes "unat n \<le> 2 ^ 63" and "0 < n"
  shows "\<exists>r. round_up_to_power_of_2 n = Some r \<and> is_pow2 r \<and> n \<le> r \<and> unat r < 2 * unat n"
proof (cases "pow2_test n")
  case True
  with assms show ?thesis
    by (auto simp: round_up_to_power_of_2_def is_pow2_def unat_gt_0)
next
  case False
  obtain r j where r: "round_up_loop 1 n = Some r" "unat r = 2 ^ j" "unat n \<le> 2 ^ j"
      "j = 0 \<or> 2 ^ j < 2 * unat n"
    using round_up_loop_returns [of 1 0 n 63] assms by auto
  have "0 < unat n" using assms by (simp add: unat_gt_0)
  with r have "unat r < 2 * unat n" by auto
  moreover have "is_pow2 r" using r(2) by (rule is_pow2I)
  moreover have "n \<le> r" using r by (simp add: word_le_nat_alt)
  ultimately show ?thesis using False assms r(1) by (auto simp: round_up_to_power_of_2_def)
qed

lemma is_pow2_le_half: "is_pow2 r \<Longrightarrow> unat r \<le> 2 ^ 63"
  by (elim is_pow2E) (auto intro: power_increasing [of _ 63 "2::nat", simplified])

lemma round_up_large:
  assumes "2 ^ 63 < unat n"
  shows "round_up_to_power_of_2 n = None"
proof (rule ccontr)
  assume "round_up_to_power_of_2 n \<noteq> None"
  moreover have "n \<noteq> 0" using assms by auto
  moreover have "\<not> pow2_test n"
    using assms is_pow2_le_half [of n] \<open>n \<noteq> 0\<close> by (auto simp: is_pow2_def)
  ultimately obtain r where "round_up_loop 1 n = Some r"
    by (auto simp: round_up_to_power_of_2_def)
  moreover have "is_pow2 1" by (rule is_pow2I [of _ 0]) simp
  ultimately have "n \<le> r" "is_pow2 r \<or> r = 0"
    using round_up_loop_pow2_or_0 by blast+
  with assms \<open>n \<noteq> 0\<close> show False
    using is_pow2_le_half [of r] by (auto simp: word_le_nat_alt)
qed

text \<open>
  \<open>round_up_to_power_of_2\<close> returns exactly for arguments up to \<open>2 ^ 63\<close> (above that
  the shift overflows to 0 and the loop does not terminate), and then the result is a
  power of two, at least the argument and less than twice it.
\<close>

theorem round_up_to_power_of_2_correct:
  "(round_up_to_power_of_2 n = None \<longleftrightarrow> 2 ^ 63 < unat n) \<and>
   (case round_up_to_power_of_2 n of None \<Rightarrow> True
    | Some r \<Rightarrow> is_pow2 r \<and> n \<le> r \<and> (if n = 0 then r = 1 else unat r < 2 * unat n))"
proof (cases "n = 0")
  case True
  then show ?thesis by (simp add: round_up_to_power_of_2_def is_pow2_def pow2_test_def)
next
  case False
  then have pos: "0 < n" by (simp add: word_gt_0)
  show ?thesis
  proof (cases "unat n \<le> 2 ^ 63")
    case True
    with pos obtain r where "round_up_to_power_of_2 n = Some r" "is_pow2 r" "n \<le> r"
        "unat r < 2 * unat n"
      using round_up_small by blast
    with True False show ?thesis by auto
  next
    case big: False
    then have "round_up_to_power_of_2 n = None" by (intro round_up_large) simp
    with big show ?thesis by simp
  qed
qed

end
