(* ===== verification/Fifo_Interface.thy ===== *)
theory Fifo_Interface
  imports Async_Prelude
begin

text \<open>
  The contract of a bounded first-in first-out buffer: what its clients (channels, pools,
  the scheduler) rely on.  \<open>buffer_run\<close> is a client that performs any sequence of
  pushes and pops and records what was accepted and what came out.
\<close>

datatype 'a buffer_op = Push 'a | Pop

fun buffer_run ::
  "('b \<Rightarrow> 'a \<Rightarrow> 'b \<times> zend_result) \<Rightarrow> ('b \<Rightarrow> 'b \<times> zend_result \<times> 'a option) \<Rightarrow>
   'b \<Rightarrow> 'a buffer_op list \<Rightarrow> 'b \<times> 'a list \<times> 'a option list" where
  "buffer_run push pop b [] = (b, [], [])"
| "buffer_run push pop b (Push v # ops) =
     (case push b v of (b', r) \<Rightarrow>
        case buffer_run push pop b' ops of (b'', accepted, popped) \<Rightarrow>
          (b'', (if r = SUCCESS then v # accepted else accepted), popped))"
| "buffer_run push pop b (Pop # ops) =
     (case pop b of (b', r, x) \<Rightarrow>
        case buffer_run push pop b' ops of (b'', accepted, popped) \<Rightarrow>
          (b'', accepted, (if r = SUCCESS then x # popped else popped)))"

locale fifo_buffer =
  fixes invar :: "'b \<Rightarrow> bool"
    and contents :: "'b \<Rightarrow> 'a list"
    and push :: "'b \<Rightarrow> 'a \<Rightarrow> 'b \<times> zend_result"
    and pop :: "'b \<Rightarrow> 'b \<times> zend_result \<times> 'a option"
  assumes push_success: "invar b \<Longrightarrow> push b v = (b', SUCCESS) \<Longrightarrow> invar b' \<and> contents b' = contents b @ [v]"
    and push_failure: "invar b \<Longrightarrow> push b v = (b', FAILURE) \<Longrightarrow> invar b' \<and> contents b' = contents b"
    and pop_success: "invar b \<Longrightarrow> pop b = (b', SUCCESS, x) \<Longrightarrow>
      invar b' \<and> x \<noteq> None \<and> contents b = the x # contents b'"
    and pop_failure: "invar b \<Longrightarrow> pop b = (b', FAILURE, x) \<Longrightarrow> invar b' \<and> contents b' = contents b"
    and pop_empty: "invar b \<Longrightarrow> fst (snd (pop b)) = FAILURE \<longleftrightarrow> contents b = []"
begin

text \<open>
  Whatever the sequence of operations, what is in the buffer followed by what is accepted
  is what comes out followed by what stays in: nothing is lost, duplicated or reordered.
\<close>

lemma run_fifo:
  assumes "invar b" and "buffer_run push pop b ops = (b', accepted, popped)"
  shows "invar b' \<and> None \<notin> set popped \<and> contents b @ accepted = map the popped @ contents b'"
  using assms
proof (induction ops arbitrary: b b' accepted popped)
  case (Cons op ops)
  show ?case
  proof (cases op)
    case (Push v)
    obtain b1 r where p: "push b v = (b1, r)" by force
    obtain acc where run: "buffer_run push pop b1 ops = (b', acc, popped)"
      and acc: "accepted = (if r = SUCCESS then v # acc else acc)"
      using Cons.prems(2) Push p by (auto split: prod.splits)
    have "invar b1 \<and> contents b1 = contents b @ (if r = SUCCESS then [v] else [])"
      using push_success [OF Cons.prems(1), of v b1] push_failure [OF Cons.prems(1), of v b1] p
      by (cases r) simp_all
    with Cons.IH [OF _ run] acc show ?thesis by (auto split: if_splits)
  next
    case Pop
    obtain b1 r x where p: "pop b = (b1, r, x)" by (metis prod_cases3)
    obtain out where run: "buffer_run push pop b1 ops = (b', accepted, out)"
      and out: "popped = (if r = SUCCESS then x # out else out)"
      using Cons.prems(2) Pop p by (auto split: prod.splits)
    have "invar b1 \<and> contents b = (if r = SUCCESS then [the x] else []) @ contents b1
        \<and> (r = SUCCESS \<longrightarrow> x \<noteq> None)"
      using pop_success [OF Cons.prems(1), of b1 x] pop_failure [OF Cons.prems(1), of b1 x] p
      by (cases r) simp_all
    with Cons.IH [OF _ run] out show ?thesis by (auto split: if_splits)
  qed
qed simp

lemma run_length:
  assumes "invar b" and "buffer_run push pop b ops = (b', accepted, popped)"
  shows "length (contents b) + length accepted = length popped + length (contents b')"
  using run_fifo [OF assms] by (metis length_append length_map)

end

end
