(* ===== verification/Circular_Buffer_Refinement.thy ===== *)
theory Circular_Buffer_Refinement
  imports Circular_Buffer Fifo_Interface
begin

text \<open>
  The ring buffer implements a list.  \<open>cb_wf\<close> is the representation invariant the
  \<^verbatim>\<open>ZEND_ASSERT\<close>s of the source state piecewise, \<open>cb_items\<close> the list of items from
  the next one to be popped to the last one pushed.
\<close>

definition cb_slots :: "'a circular_buffer \<Rightarrow> 'a option list" where
  "cb_slots b = ring (cb_data b) (unat (cb_tail b)) (unat (circular_buffer_count b))"

definition cb_items :: "'a circular_buffer \<Rightarrow> 'a list" where
  "cb_items b = map the (cb_slots b)"

definition cb_wf :: "'a circular_buffer \<Rightarrow> bool" where
  "cb_wf b \<longleftrightarrow>
     is_pow2 (cb_capacity b) \<and> is_pow2 (cb_min_size b) \<and> cb_min_size b \<le> cb_capacity b
     \<and> cb_head b < cb_capacity b \<and> cb_tail b < cb_capacity b
     \<and> length (cb_data b) = unat (cb_capacity b)
     \<and> list_all (\<lambda>x. x \<noteq> None) (cb_slots b)
     \<and> unat (cb_decrease_t b) \<le> unat (cb_capacity b) div 2 - unat (cb_capacity b) div 4"

subsection \<open>Index arithmetic\<close>

lemma cb_wf_nat:
  assumes "cb_wf b"
  shows "unat (cb_head b) < unat (cb_capacity b)" "unat (cb_tail b) < unat (cb_capacity b)"
    "length (cb_data b) = unat (cb_capacity b)" "is_pow2 (cb_capacity b)"
    "0 < unat (cb_capacity b)" "unat (cb_capacity b) \<le> 2 ^ 63"
    "cb_capacity b \<noteq> 0"
  using assms is_pow2_le_half [of "cb_capacity b"]
  by (auto simp: cb_wf_def word_less_nat_alt is_pow2_def unat_gt_0)

lemma cb_wf_static:
  assumes "cb_wf b"
  shows "is_pow2 (cb_min_size b)" "cb_min_size b \<le> cb_capacity b"
    "unat (cb_decrease_t b) \<le> unat (cb_capacity b) div 2 - unat (cb_capacity b) div 4"
  using assms by (simp_all add: cb_wf_def)

lemma unat_next_index [buf_simps]:
  assumes "is_pow2 c" and "unat i < unat c"
  shows "unat (next_index i c) = Suc (unat i) mod unat c"
proof -
  have "unat c < 2 ^ 64" using is_pow2_le_half [OF assms(1)] by simp
  with assms(2) have "unat (i + 1) = Suc (unat i)" by (subst unat_add_small) auto
  with assms(1) show ?thesis by (simp add: next_index_def unat_and_pred)
qed

lemma unat_sub_le: "(b :: size_t) \<le> a \<Longrightarrow> unat (a - b) = unat a - unat b"
  by (simp add: unat_sub)

lemma unat_count:
  assumes "unat (cb_head b) < unat (cb_capacity b)" "unat (cb_tail b) < unat (cb_capacity b)"
    and "is_pow2 (cb_capacity b)"
  shows "unat (circular_buffer_count b) =
    (unat (cb_head b) + unat (cb_capacity b) - unat (cb_tail b)) mod unat (cb_capacity b)"
proof (cases "cb_tail b \<le> cb_head b")
  case True
  with assms have "unat (circular_buffer_count b) = unat (cb_head b) - unat (cb_tail b)"
    by (simp add: circular_buffer_count_def is_pow2_def unat_sub_le)
  with True assms show ?thesis by (simp add: word_le_nat_alt mod_if)
next
  case False
  have cap: "unat (cb_capacity b) \<le> 2 ^ 63" using assms(3) by (rule is_pow2_le_half)
  have d: "unat (cb_capacity b - cb_tail b) = unat (cb_capacity b) - unat (cb_tail b)"
    using assms(2) by (intro unat_sub_le) (simp add: word_le_nat_alt)
  have "unat (cb_capacity b - cb_tail b + cb_head b) =
      unat (cb_capacity b) - unat (cb_tail b) + unat (cb_head b)"
    using assms(1) cap by (subst unat_add_small) (auto simp: d)
  with False assms show ?thesis
    by (simp add: circular_buffer_count_def is_pow2_def word_le_nat_alt)
qed

lemma count_of_head:
  fixes c h t n :: nat
  assumes "h < c" "t < c" "n = (h + c - t) mod c"
  shows "n < c" "h = (t + n) mod c" "(h = t) = (n = 0)" "(Suc h mod c = t) = (Suc n = c)"
    "t \<le> h \<Longrightarrow> n = h - t" "\<not> t \<le> h \<Longrightarrow> n = c - t + h"
  using assms by (auto simp: mod_if mod_Suc)

lemmas cb_index_laws =
  count_of_head [OF cb_wf_nat(1,2) unat_count [OF cb_wf_nat(1,2,4)]]

lemma cb_full_iff:
  assumes "cb_wf b"
  shows "circular_buffer_is_full b \<longleftrightarrow>
    Suc (unat (circular_buffer_count b)) = unat (cb_capacity b)"
proof -
  have "circular_buffer_is_full b \<longleftrightarrow>
      unat (next_index (cb_head b) (cb_capacity b)) = unat (cb_tail b)"
    by (simp add: circular_buffer_is_full_def word_unat_eq_iff)
  with assms show ?thesis
    by (simp add: buf_simps cb_wf_nat cb_index_laws(4) [OF assms assms assms assms assms])
qed

lemma cb_empty_iff:
  assumes "cb_wf b"
  shows "circular_buffer_is_empty b \<longleftrightarrow> circular_buffer_count b = 0"
  using cb_index_laws(3) [OF assms assms assms assms assms]
  by (simp add: circular_buffer_is_empty_def word_unat_eq_iff)

lemma length_cb_items [simp]: "length (cb_items b) = unat (circular_buffer_count b)"
  by (simp add: cb_items_def cb_slots_def)

lemma cb_not_empty_iff:
  assumes "cb_wf b"
  shows "circular_buffer_is_not_empty b \<longleftrightarrow> cb_items b \<noteq> []"
proof -
  have "circular_buffer_count b = 0 \<longleftrightarrow> length (cb_items b) = 0" by (simp add: unat_eq_zero)
  then have "circular_buffer_is_empty b \<longleftrightarrow> cb_items b = []"
    using cb_empty_iff [OF assms] length_0_conv [of "cb_items b"] by blast
  then show ?thesis by (simp add: circular_buffer_is_not_empty_def circular_buffer_is_empty_def)
qed

lemma cb_slots_eq_items:
  assumes "cb_wf b"
  shows "cb_slots b = map Some (cb_items b)"
  using assms by (auto simp: cb_wf_def cb_items_def list_all_iff intro!: map_idI [symmetric])

lemma window_count:
  fixes c t n :: nat
  assumes "t < c" and "n < c"
  shows "((t + n) mod c + c - t) mod c = n"
proof (cases "t + n < c")
  case False
  with assms have "(t + n) mod c = t + n - c" by (simp add: mod_if)
  with False assms show ?thesis by simp
qed (use assms in simp)

text \<open>
  How a new state is recognised: its window over the data reads the given items.
\<close>

lemma cb_wfI:
  assumes "is_pow2 (cb_capacity b)" "is_pow2 (cb_min_size b)" "cb_min_size b \<le> cb_capacity b"
    and "unat (cb_tail b) < unat (cb_capacity b)" "length (cb_data b) = unat (cb_capacity b)"
    and "unat (cb_decrease_t b) \<le> unat (cb_capacity b) div 2 - unat (cb_capacity b) div 4"
    and head: "unat (cb_head b) = (unat (cb_tail b) + length items) mod unat (cb_capacity b)"
    and len: "length items < unat (cb_capacity b)"
    and ring: "ring (cb_data b) (unat (cb_tail b)) (length items) = map Some items"
  shows "cb_wf b \<and> cb_items b = items"
proof -
  have h: "unat (cb_head b) < unat (cb_capacity b)" using head len by simp
  have "unat (circular_buffer_count b) = length items"
    using unat_count [OF h assms(4,1)] head window_count [OF assms(4) len] by simp
  then have "cb_slots b = map Some items" using ring by (simp add: cb_slots_def)
  with assms h show ?thesis
    by (simp add: cb_wf_def cb_items_def word_less_nat_alt list_all_iff comp_def)
qed

subsection \<open>Push at the head, push before the tail, pop\<close>

lemma store_at_head_refines:
  assumes "cb_wf b" and "\<not> circular_buffer_is_full b"
  shows "cb_wf (store_at_head b v) \<and> cb_items (store_at_head b v) = cb_items b @ [v]"
proof -
  let ?n = "unat (circular_buffer_count b)"
  note laws = cb_index_laws [OF assms(1) assms(1) assms(1) assms(1) assms(1)]
  have n: "Suc ?n < unat (cb_capacity b)"
    using assms laws(1) by (auto simp: cb_full_iff)
  have "ring (cb_data (store_at_head b v)) (unat (cb_tail b)) (Suc ?n) =
      ring (cb_data b) (unat (cb_tail b)) ?n @ [Some v]"
    using ring_snoc [of ?n "cb_data b" "unat (cb_tail b)" "Some v"] n laws(2) cb_wf_nat(3) [OF assms(1)]
    by (simp add: store_at_head_def)
  also have "\<dots> = map Some (cb_items b @ [v])"
    using cb_slots_eq_items [OF assms(1)] by (simp add: cb_slots_def)
  finally have r: "ring (cb_data (store_at_head b v)) (unat (cb_tail b)) (Suc ?n) =
      map Some (cb_items b @ [v])" .
  have "Suc (unat (cb_head b)) mod unat (cb_capacity b) =
      (unat (cb_tail b) + Suc ?n) mod unat (cb_capacity b)"
    using laws(2) by (metis add_Suc_right mod_Suc_eq)
  then have h: "unat (cb_head (store_at_head b v)) =
      (unat (cb_tail b) + length (cb_items b @ [v])) mod unat (cb_capacity b)"
    using cb_wf_nat [OF assms(1)] by (simp add: store_at_head_def buf_simps)
  show ?thesis
    using cb_wf_nat [OF assms(1)] cb_wf_static [OF assms(1)] h r n
    by (intro cb_wfI) (simp_all add: store_at_head_def)
qed

lemma store_before_tail_refines:
  assumes "cb_wf b" and "\<not> circular_buffer_is_full b"
  shows "cb_wf (store_before_tail b v) \<and> cb_items (store_before_tail b v) = v # cb_items b"
proof -
  let ?n = "unat (circular_buffer_count b)"
  let ?c = "unat (cb_capacity b)"
  let ?t = "if unat (cb_tail b) = 0 then length (cb_data b) - 1 else unat (cb_tail b) - 1"
  note laws = cb_index_laws [OF assms(1) assms(1) assms(1) assms(1) assms(1)]
  note nat = cb_wf_nat [OF assms(1)]
  have n: "Suc ?n < ?c" using assms laws(1) by (auto simp: cb_full_iff)
  have t: "unat (cb_tail (store_before_tail b v)) = ?t"
    using nat by (auto simp: store_before_tail_def Let_def unat_minus_one unat_eq_0)
  have "ring (cb_data (store_before_tail b v)) ?t (Suc ?n) = Some v # ring (cb_data b) (unat (cb_tail b)) ?n"
    using ring_cons_front [of ?n "cb_data b" "unat (cb_tail b)" ?t "Some v"] n nat t
    by (simp add: store_before_tail_def Let_def del: length_greater_0_conv split del: if_split)
  then have r: "ring (cb_data (store_before_tail b v)) (unat (cb_tail (store_before_tail b v)))
      (length (v # cb_items b)) = map Some (v # cb_items b)"
    using cb_slots_eq_items [OF assms(1)] t by (simp add: cb_slots_def split del: if_split)
  have h: "unat (cb_head b) = (?t + Suc ?n) mod ?c"
  proof (cases "unat (cb_tail b) = 0")
    case True
    then have "?t + Suc ?n = ?n + ?c" using nat by simp
    then have "(?t + Suc ?n) mod ?c = ?n mod ?c" by (simp only: mod_add_self2)
    then show ?thesis using laws(2) True by simp
  next
    case False
    then have "?t + Suc ?n = unat (cb_tail b) + ?n" by simp
    then show ?thesis using laws(2) by simp
  qed
  have "unat (cb_tail (store_before_tail b v)) < ?c" using t nat by auto
  with assms(1) r n h t show ?thesis
    by (intro cb_wfI) (auto simp: store_before_tail_def Let_def cb_wf_def)
qed

lemma pop_refines:
  assumes "cb_wf b" and "\<not> circular_buffer_is_empty b"
  defines "b' \<equiv> b\<lparr>cb_tail := next_index (cb_tail b) (cb_capacity b)\<rparr>"
  shows "cb_wf b' \<and> cb_items b = the (cb_data b ! unat (cb_tail b)) # cb_items b'
    \<and> cb_data b ! unat (cb_tail b) \<noteq> None"
proof -
  note laws = cb_index_laws [OF assms(1) assms(1) assms(1) assms(1) assms(1)]
  note nat = cb_wf_nat [OF assms(1)]
  obtain n where n: "unat (circular_buffer_count b) = Suc n"
    using assms(2) cb_empty_iff [OF assms(1)] by (metis not0_implies_Suc unat_eq_0)
  have split: "cb_slots b = cb_data b ! unat (cb_tail b) # ring (cb_data b) (Suc (unat (cb_tail b))) n"
    using n nat by (simp add: cb_slots_def ring_Suc)
  have t: "unat (cb_tail b') = Suc (unat (cb_tail b)) mod unat (cb_capacity b)"
    using nat by (simp add: b'_def buf_simps)
  have slots: "ring (cb_data b') (unat (cb_tail b')) n = tl (cb_slots b)"
    using split t nat ring_mod [of "cb_data b" "Suc (unat (cb_tail b))" n] by (simp add: b'_def)
  have some: "cb_slots b = map Some (cb_items b)" by (rule cb_slots_eq_items [OF assms(1)])
  have len: "length (tl (cb_items b)) = n" using n by simp
  have h: "unat (cb_head b') = (unat (cb_tail b') + n) mod unat (cb_capacity b')"
    using laws(2) n t by (simp add: b'_def mod_add_left_eq)
  have "cb_wf b' \<and> cb_items b' = tl (cb_items b)"
    using assms(1) nat t h slots some len n laws(1)
    by (intro cb_wfI) (auto simp: b'_def cb_wf_def map_tl)
  moreover have "cb_items b = the (cb_data b ! unat (cb_tail b)) # tl (cb_items b)"
    using split by (simp add: cb_items_def)
  moreover have "cb_data b ! unat (cb_tail b) \<noteq> None"
    using assms(1) split by (simp add: cb_wf_def)
  ultimately show ?thesis by simp
qed

subsection \<open>Reallocation keeps the items and their order\<close>

lemma count_in_layouts:
  assumes "cb_wf b"
  shows "cb_tail b \<le> cb_head b \<Longrightarrow> unat (cb_tail b) + unat (circular_buffer_count b) = unat (cb_head b)"
    and "\<not> cb_tail b \<le> cb_head b \<Longrightarrow>
      unat (cb_tail b) + unat (circular_buffer_count b) = unat (cb_capacity b) + unat (cb_head b)"
  using cb_index_laws(5,6) [OF assms assms assms assms assms] cb_wf_nat(2) [OF assms]
  by (auto simp: word_le_nat_alt)

lemma unat_threshold: "unat (c div 2 - c div (4 :: size_t)) = unat c div 2 - unat c div 4"
proof -
  have "unat (c div 2) = unat c div 2" "unat (c div 4) = unat c div 4"
    by (simp_all add: unat_div)
  moreover have "unat c div 4 \<le> unat c div 2" by simp
  ultimately show ?thesis by (subst unat_sub) (simp_all add: word_le_nat_alt)
qed

lemma recalc_simps [simp]:
  "cb_capacity (recalc_decrease_threshold b n) = cb_capacity b"
  "cb_min_size (recalc_decrease_threshold b n) = cb_min_size b"
  "cb_head (recalc_decrease_threshold b n) = cb_head b"
  "cb_tail (recalc_decrease_threshold b n) = cb_tail b"
  "cb_data (recalc_decrease_threshold b n) = cb_data b"
  "unat (cb_decrease_t (recalc_decrease_threshold b n)) \<le> unat n div 2 - unat n div 4"
  by (simp_all add: recalc_decrease_threshold_def unat_threshold)

lemma realloc_move_refines:
  assumes wf: "cb_wf b" and new: "is_pow2 new_count" "cb_min_size b \<le> new_count"
    and fits: "unat (circular_buffer_count b) < unat new_count"
    and res: "realloc_move True b new_count = (b', r)"
  shows "r = SUCCESS \<and> cb_wf b' \<and> cb_items b' = cb_items b \<and> cb_capacity b' = new_count
    \<and> cb_min_size b' = cb_min_size b"
proof -
  note nat = cb_wf_nat [OF wf] and stat = cb_wf_static [OF wf]
  note laws = cb_index_laws [OF wf wf wf wf wf]
  let ?n = "unat (circular_buffer_count b)"
  have slots: "ring (cb_data b) (unat (cb_tail b)) ?n = map Some (cb_items b)"
    using cb_slots_eq_items [OF wf] by (simp add: cb_slots_def)
  have front: "cb_wf b1 \<and> cb_items b1 = cb_items b"
    if "b1 = recalc_decrease_threshold (b\<lparr>cb_data := fill_block xs new_count,
          cb_capacity := new_count, cb_tail := 0, cb_head := circular_buffer_count b\<rparr>) new_count"
      and "xs = map Some (cb_items b)" for b1 xs
    using that new fits stat
    by (intro cb_wfI) (simp_all add: fill_block_def ring_from_0 word_less_nat_alt)
  consider (empty) "circular_buffer_is_empty b"
    | (grow) "\<not> circular_buffer_is_empty b" "cb_tail b \<le> cb_head b" "cb_capacity b < new_count"
    | (linear) "\<not> circular_buffer_is_empty b" "cb_tail b \<le> cb_head b" "\<not> cb_capacity b < new_count"
    | (wrapped) "\<not> circular_buffer_is_empty b" "\<not> cb_tail b \<le> cb_head b"
    by blast
  then show ?thesis
  proof cases
    case empty
    then have c: "circular_buffer_count b = 0" using cb_empty_iff [OF wf] by simp
    then have "cb_items b = []" by (metis length_0_conv length_cb_items unat_0)
    with front [of b' "[]"] res empty c show ?thesis by (auto simp: realloc_move_def)
  next
    case grow
    have le: "unat (cb_tail b) + ?n \<le> length (cb_data b)"
      using count_in_layouts(1) [OF wf grow(2)] nat by simp
    have b': "b' = recalc_decrease_threshold
        (b\<lparr>cb_data := fill_block (cb_data b) new_count, cb_capacity := new_count\<rparr>) new_count"
      and r: "r = SUCCESS"
      using grow res by (auto simp: realloc_move_def Let_def)
    have "unat (cb_capacity b) < unat new_count" using grow(3) by (simp add: word_less_nat_alt)
    then have "cb_wf b' \<and> cb_items b' = cb_items b"
      using new nat stat slots le fits count_in_layouts(1) [OF wf grow(2)]
      by (intro cb_wfI) (simp_all add: b' fill_block_def ring_append_linear)
    with b' r show ?thesis by simp
  next
    case linear
    have "take ?n (drop (unat (cb_tail b)) (cb_data b)) = map Some (cb_items b)"
      using slots ring_linear [of "unat (cb_tail b)" ?n "cb_data b"]
        count_in_layouts(1) [OF wf linear(2)] nat by simp
    with front [of b'] linear res show ?thesis by (auto simp: realloc_move_def Let_def)
  next
    case wrapped
    have "ring (cb_data b) (unat (cb_tail b)) ?n =
        drop (unat (cb_tail b)) (cb_data b) @ take (unat (cb_head b)) (cb_data b)"
      using ring_wrapped [of "unat (cb_tail b)" "cb_data b" ?n]
        count_in_layouts(2) [OF wf wrapped(2)] nat laws(1) by simp
    moreover have "unat (cb_capacity b - cb_tail b) = unat (cb_capacity b) - unat (cb_tail b)"
      using nat by (intro unat_sub_le) (simp add: word_le_nat_alt)
    ultimately have "take (unat (cb_capacity b - cb_tail b)) (drop (unat (cb_tail b)) (cb_data b))
        @ take (unat (cb_head b)) (cb_data b) = map Some (cb_items b)"
      using slots nat by simp
    with front [of b'] wrapped res show ?thesis by (auto simp: realloc_move_def Let_def)
  qed
qed

lemma realloc_failure_unchanged [simp]: "realloc_move False b n = (b, FAILURE)"
  by (simp add: realloc_move_def)

lemma is_pow2_double:
  assumes "is_pow2 c" and "unat c < 2 ^ 63"
  shows "is_pow2 (c * 2) \<and> unat (c * 2) = 2 * unat c"
proof -
  obtain k where "unat c = 2 ^ k" using assms(1) by (rule is_pow2E)
  moreover have "unat (c * 2) = 2 * unat c" using assms(2) by (simp add: unat_dbl)
  ultimately show ?thesis using is_pow2I [of "c * 2" "Suc k"] by simp
qed

lemma is_pow2_half:
  assumes "is_pow2 c" and "2 \<le> unat c"
  shows "is_pow2 (c div 2) \<and> unat (c div 2) = unat c div 2"
proof -
  obtain k where k: "unat c = 2 ^ k" using assms(1) by (rule is_pow2E)
  with assms(2) obtain j where "k = Suc j" by (cases k) auto
  moreover have "unat (c div 2) = unat c div 2" by (simp add: unat_div)
  ultimately show ?thesis using k is_pow2I [of "c div 2" j] by simp
qed

text \<open>
  Automatic reallocation: after it the buffer holds the same items, and a full buffer
  whose allocation succeeded has room.
\<close>

lemma realloc_auto_refines:
  assumes wf: "cb_wf b" and cap: "unat (cb_capacity b) < 2 ^ 63"
    and res: "circular_buffer_realloc_auto ok b = (b', r)"
  shows "cb_wf b' \<and> cb_items b' = cb_items b \<and> cb_min_size b' = cb_min_size b
    \<and> (r = FAILURE \<longrightarrow> b' = b \<and> \<not> ok) \<and> (r = SUCCESS \<longrightarrow> \<not> circular_buffer_is_full b')"
proof (cases ok)
  case False
  with res wf show ?thesis
    by (auto simp: circular_buffer_realloc_auto_def Let_def split: if_splits)
next
  case True
  note nat = cb_wf_nat [OF wf] and stat = cb_wf_static [OF wf]
  note laws = cb_index_laws [OF wf wf wf wf wf]
  let ?n = "unat (circular_buffer_count b)"
  have room: "cb_wf b' \<and> cb_items b' = cb_items b \<and> cb_min_size b' = cb_min_size b \<and> r = SUCCESS
      \<and> \<not> circular_buffer_is_full b'"
    if "is_pow2 c" "cb_min_size b \<le> c" "Suc ?n < unat c" "realloc_move ok b c = (b', r)" for c
  proof -
    have *: "r = SUCCESS \<and> cb_wf b' \<and> cb_items b' = cb_items b \<and> cb_capacity b' = c
        \<and> cb_min_size b' = cb_min_size b"
      using that True wf by (intro realloc_move_refines) auto
    then have "unat (circular_buffer_count b') = ?n" by (metis length_cb_items)
    with * that(3) show ?thesis by (simp add: cb_full_iff)
  qed
  consider (full) "circular_buffer_is_full b"
    | (shrink) "\<not> circular_buffer_is_full b" "should_decrease b"
    | (keep) "\<not> circular_buffer_is_full b" "\<not> should_decrease b" by blast
  then show ?thesis
  proof cases
    case full
    then have "Suc ?n = unat (cb_capacity b)" using wf by (simp add: cb_full_iff)
    with room [of "cb_capacity b * 2"] is_pow2_double [OF nat(4) cap] nat stat full res
    show ?thesis by (auto simp: circular_buffer_realloc_auto_def word_le_nat_alt)
  next
    case shrink
    let ?c = "if cb_capacity b div 2 < cb_min_size b then cb_min_size b else cb_capacity b div 2"
    have n: "0 < ?n" "Suc ?n \<le> unat (cb_capacity b) div 2 - unat (cb_capacity b) div 4"
      using shrink stat(3) cb_empty_iff [OF wf]
      by (auto simp: should_decrease_def word_less_nat_alt unat_gt_0)
    then have half: "is_pow2 (cb_capacity b div 2)" "unat (cb_capacity b div 2) = unat (cb_capacity b) div 2"
      using is_pow2_half [OF nat(4)] by auto
    have lt: "Suc ?n < unat (cb_capacity b) div 2" using n by linarith
    have "is_pow2 ?c" "cb_min_size b \<le> ?c" using half stat by auto
    moreover have "Suc ?n < unat ?c"
      using lt half(2) by (auto simp: word_less_nat_alt)
    ultimately show ?thesis using room [of ?c] shrink res
      by (auto simp: circular_buffer_realloc_auto_def Let_def)
  next
    case keep
    with res wf show ?thesis by (auto simp: circular_buffer_realloc_auto_def)
  qed
qed

lemma resize_if_needed_refines:
  assumes wf: "cb_wf b" and cap: "unat (cb_capacity b) < 2 ^ 63"
    and res: "resize_if_needed ok b = (b', r)"
  shows "cb_wf b' \<and> cb_items b' = cb_items b
    \<and> (r = FAILURE \<longrightarrow> b' = b \<and> \<not> ok) \<and> (r = SUCCESS \<longrightarrow> \<not> circular_buffer_is_full b')"
  using realloc_auto_refines [OF wf cap] wf res
  by (auto simp: resize_if_needed_def Let_def split: if_splits)

lemma push_resize_cases:
  assumes "cb_wf b" and "unat (cb_capacity b) < 2 ^ 63"
    and "circular_buffer_push ok b v True = (b', r)"
  shows "case r of
      SUCCESS \<Rightarrow> cb_wf b' \<and> cb_items b' = cb_items b @ [v]
    | FAILURE \<Rightarrow> b' = b \<and> \<not> ok"
proof -
  obtain b1 r1 where r1: "resize_if_needed ok b = (b1, r1)" by force
  have *: "cb_wf b1 \<and> cb_items b1 = cb_items b
      \<and> (r1 = FAILURE \<longrightarrow> b1 = b \<and> \<not> ok) \<and> (r1 = SUCCESS \<longrightarrow> \<not> circular_buffer_is_full b1)"
    using resize_if_needed_refines [OF assms(1,2) r1] .
  show ?thesis
    using * store_at_head_refines [of b1 v] assms(3) r1
    by (cases r1) (auto simp: circular_buffer_push_def)
qed

lemma push_fixed_cases:
  assumes "cb_wf b" and "circular_buffer_push ok b v False = (b', r)"
  shows "case r of
      SUCCESS \<Rightarrow> cb_wf b' \<and> cb_items b' = cb_items b @ [v]
    | FAILURE \<Rightarrow> b' = b \<and> circular_buffer_is_full b"
  using assms store_at_head_refines [of b v]
  by (auto simp: circular_buffer_push_def split: if_splits)

lemma pop_cases:
  assumes "cb_wf b" and "circular_buffer_pop b = (b', r, x)"
  shows "case r of
      SUCCESS \<Rightarrow> cb_wf b' \<and> x \<noteq> None \<and> cb_items b = the x # cb_items b'
    | FAILURE \<Rightarrow> b' = b \<and> x = None \<and> cb_items b = []"
proof (cases "circular_buffer_is_empty b")
  case True
  then have "cb_items b = []" using assms(1) by (metis cb_empty_iff length_0_conv length_cb_items unat_0)
  with True assms(2) show ?thesis by (auto simp: circular_buffer_pop_def)
next
  case False
  with assms(2) pop_refines [OF assms(1)] show ?thesis by (auto simp: circular_buffer_pop_def)
qed

lemma pop_fails_iff_empty:
  assumes "cb_wf b"
  shows "fst (snd (circular_buffer_pop b)) = FAILURE \<longleftrightarrow> cb_items b = []"
proof -
  obtain b' r x where p: "circular_buffer_pop b = (b', r, x)" by (metis prod_cases3)
  show ?thesis using pop_cases [OF assms p] p by (cases r) auto
qed

text \<open>The pointer-sized fast paths compute what the general operations compute.\<close>

lemma push_ptr_eq_push: "circular_buffer_push_ptr b p = circular_buffer_push ok b p False"
  by (simp add: circular_buffer_push_ptr_def circular_buffer_push_def store_at_head_def
      circular_buffer_is_full_def next_index_def)

lemma pop_ptr_eq_pop: "circular_buffer_pop_ptr b = circular_buffer_pop b"
  by (simp add: circular_buffer_pop_ptr_def circular_buffer_pop_def
      circular_buffer_is_empty_def next_index_def)

lemma cb_wf_below_2_64: "cb_wf b \<Longrightarrow> unat (cb_capacity b) \<le> 2 ^ 63"
  by (rule cb_wf_nat)

subsection \<open>The buffer satisfies the FIFO contract\<close>

text \<open>
  A push that may grow the buffer in a memory where blocks of at most \<open>limit\<close> items
  (and never more than \<open>2 ^ 63\<close>) can be allocated.
\<close>

definition push_within :: "nat \<Rightarrow> 'a circular_buffer \<Rightarrow> 'a \<Rightarrow> 'a circular_buffer \<times> zend_result" where
  "push_within limit b v =
     circular_buffer_push (2 * unat (cb_capacity b) \<le> min limit (2 ^ 63)) b v True"

lemma push_within_cases:
  assumes "cb_wf b" and "push_within limit b v = (b', r)"
  shows "cb_wf b' \<and> cb_items b' = (if r = SUCCESS then cb_items b @ [v] else cb_items b)"
proof (cases "unat (cb_capacity b) < 2 ^ 63")
  case True
  with assms push_resize_cases [of b _ v b' r] show ?thesis
    unfolding push_within_def by (cases r) fastforce+
next
  case False
  then have no: "(2 * unat (cb_capacity b) \<le> min limit (2 ^ 63)) = False" by auto
  show ?thesis
  proof (cases "circular_buffer_is_full b \<or> should_decrease b")
    case True
    then have "resize_if_needed False b = (b, FAILURE)"
      by (auto simp: resize_if_needed_def circular_buffer_realloc_auto_def Let_def)
    then have "push_within limit b v = (b, FAILURE)"
      unfolding push_within_def no by (simp add: circular_buffer_push_def)
    with assms show ?thesis by simp
  next
    case False
    with assms store_at_head_refines [of b v] show ?thesis
      by (auto simp: push_within_def circular_buffer_push_def resize_if_needed_def Let_def)
  qed
qed

interpretation fixed: fifo_buffer cb_wf cb_items
  "\<lambda>b v. circular_buffer_push ok b v False" circular_buffer_pop for ok
  using push_fixed_cases pop_cases pop_fails_iff_empty
  by unfold_locales fastforce+

interpretation growing: fifo_buffer cb_wf cb_items "push_within limit" circular_buffer_pop for limit
  using push_within_cases pop_cases pop_fails_iff_empty
  by unfold_locales fastforce+

interpretation ptr: fifo_buffer cb_wf cb_items circular_buffer_push_ptr circular_buffer_pop_ptr
  unfolding push_ptr_eq_push [where ok = True, abs_def] pop_ptr_eq_pop [abs_def]
  by (rule fixed.fifo_buffer_axioms)

lemma swap_count: "circular_buffer_count (circular_buffer_swap_ptr_at b i j) = circular_buffer_count b"
  by (simp add: circular_buffer_swap_ptr_at_def circular_buffer_count_def Let_def)

subsection \<open>Properties\<close>

lemma unat_size_of_int: "0 \<le> k \<Longrightarrow> k < 2 ^ 64 \<Longrightarrow> unat (word_of_int k :: size_t) = nat k"
  by (simp add: unsigned_of_int take_bit_int_eq_self)

lemma ctor_ok:
  assumes "0 < n" and "unat n \<le> 2 ^ 63"
  shows "\<exists>b. circular_buffer_ctor True z n sz = Some (b, SUCCESS) \<and> cb_wf b \<and> cb_items b = [] \<and> n \<le> cb_capacity b
    \<and> unat (cb_capacity b) < 2 * unat n"
proof -
  obtain c where c: "round_up_to_power_of_2 n = Some c" "is_pow2 c" "n \<le> c" "unat c < 2 * unat n"
    using round_up_small [OF assms(2,1)] by blast
  moreover have "c \<noteq> 0" using c(2) by (simp add: is_pow2_def)
  ultimately show ?thesis using assms(1)
    by (auto simp: circular_buffer_ctor_def MINIMUM_COUNT_def
        cb_wf_def cb_items_def cb_slots_def circular_buffer_count_def unat_threshold word_gt_0)
qed

text \<open>
  \<open>circular_buffer_push\<close> with resizing, for a well-formed buffer below \<open>2 ^ 63\<close> cells:
  it fails only when the allocation it needed failed, and then leaves the buffer as it
  was; otherwise the buffer is well formed and the value is appended after all items, even
  when the ring was doubled or halved on the way.
\<close>

theorem circular_buffer_push_refines_snoc:
  assumes "cb_wf b" and "unat (cb_capacity b) < 2 ^ 63"
  shows "case circular_buffer_push ok b v True of
      (b', SUCCESS) \<Rightarrow> cb_wf b' \<and> cb_items b' = cb_items b @ [v]
    | (b', FAILURE) \<Rightarrow> b' = b \<and> \<not> ok"
  using push_resize_cases [OF assms] by (auto split: prod.split zend_result.split)

definition demo_ring :: "nat circular_buffer" where
  "demo_ring = \<lparr>cb_item_size = 8, cb_min_size = 4, cb_capacity = 4, cb_auto_optimize = True,
     cb_decrease_t = 0, cb_data = [Some 12, Some 13, None, Some 11], cb_head = 2, cb_tail = 3\<rparr>"

lemma demo_ring_wf: "cb_wf demo_ring" "cb_items demo_ring = [11, 12, 13]"
  by (simp_all add: cb_wf_def cb_slots_def cb_items_def ring_def demo_ring_def is_pow2_def
      pow2_test_def circular_buffer_count_def upt_rec)

text \<open>A full, wrapped buffer of four cells grows and keeps its order.\<close>

theorem circular_buffer_push_witness:
  "case circular_buffer_push True demo_ring 14 True of
      (b', SUCCESS) \<Rightarrow> cb_wf b' \<and> cb_items b' = [11, 12, 13, 14]
    | (b', FAILURE) \<Rightarrow> b' = demo_ring \<and> \<not> True"
proof -
  have "unat (cb_capacity demo_ring) < 2 ^ 63" by (simp add: demo_ring_def)
  from circular_buffer_push_refines_snoc [OF demo_ring_wf(1) this, where ok = True and v = 14]
  show ?thesis by (auto simp: demo_ring_wf(2) split: prod.splits zend_result.splits)
qed

text \<open>
  C7.  Any interleaving of growing pushes and pops, whatever the memory limit, is first-in
  first-out: the old contents followed by the accepted values are the popped values
  followed by the new contents, and a successful pop always delivers a stored value.
\<close>

theorem circular_buffer_fifo:
  assumes "cb_wf b"
    and "buffer_run (push_within limit) circular_buffer_pop b ops = (b', accepted, popped)"
  shows "cb_wf b' \<and> None \<notin> set popped \<and> cb_items b @ accepted = map the popped @ cb_items b'"
  by (rule growing.run_fifo [OF assms])

theorem circular_buffer_fifo_witness:
  "\<exists>b' accepted popped.
     buffer_run (push_within 8) circular_buffer_pop demo_ring [Push 14, Pop, Push 15, Pop]
       = (b', accepted, popped)
     \<and> cb_wf b' \<and> None \<notin> set popped \<and> cb_items demo_ring @ accepted = map the popped @ cb_items b'"
proof -
  obtain b' accepted popped where r:
    "buffer_run (push_within 8) circular_buffer_pop demo_ring [Push 14, Pop, Push 15, Pop]
       = (b', accepted, popped)" by (metis prod_cases3)
  with circular_buffer_fifo [OF demo_ring_wf(1) r] show ?thesis by blast
qed

text \<open>
  The pointer-sized push and pop of the header are the general push (without
  resizing) and pop, and the push with resize fallback is the general growing push on
  every buffer that does not shrink.
\<close>

lemma ptr_variants_equivalent:
  "circular_buffer_push_ptr b p = circular_buffer_push ok b p False \<and>
   circular_buffer_pop_ptr b = circular_buffer_pop b \<and>
   (should_decrease b \<or> circular_buffer_push_ptr_with_resize ok b p = circular_buffer_push ok b p True)"
proof -
  have "circular_buffer_push_ptr_with_resize ok b p = circular_buffer_push ok b p True"
    if "\<not> should_decrease b"
    using that
    by (simp add: circular_buffer_push_ptr_with_resize_def push_ptr_eq_push [of b p ok]
        circular_buffer_push_def resize_if_needed_def Let_def)
  then show ?thesis by (auto simp: push_ptr_eq_push [of b p ok] pop_ptr_eq_pop)
qed

text \<open>
  \<open>circular_buffer_push_front\<close> without resizing puts the value before all items, or,
  on a full buffer, fails and changes nothing.
\<close>

theorem circular_buffer_push_front_refines_cons:
  assumes "cb_wf b"
  shows "case circular_buffer_push_front ok b v False of
      (b', SUCCESS) \<Rightarrow> cb_wf b' \<and> cb_items b' = v # cb_items b \<and> \<not> circular_buffer_is_full b
    | (b', FAILURE) \<Rightarrow> b' = b \<and> circular_buffer_is_full b"
  using store_before_tail_refines [OF assms, of v]
  by (auto simp: circular_buffer_push_front_def circular_buffer_push_def)

theorem circular_buffer_push_front_witness:
  "case circular_buffer_push_front True (fst (the (circular_buffer_ctor True zeroed_buffer 4 8))) (7 :: nat) False of
      (b', SUCCESS) \<Rightarrow> cb_wf b' \<and> cb_items b' = [7]
    | (b', FAILURE) \<Rightarrow> False"
proof -
  let ?b = "fst (the (circular_buffer_ctor True zeroed_buffer 4 8)) :: nat circular_buffer"
  have four: "replicate 4 (None :: nat option) = [None, None, None, None]"
    by (simp add: eval_nat_numeral)
  have b: "?b = \<lparr>cb_item_size = 8, cb_min_size = 4, cb_capacity = 4, cb_auto_optimize = True,
     cb_decrease_t = 0, cb_data = [None, None, None, None], cb_head = 0, cb_tail = 0\<rparr>"
    using four by (simp add: circular_buffer_ctor_def round_up_to_power_of_2_def pow2_test_def
        MINIMUM_COUNT_def zeroed_buffer_def)
  have wf: "cb_wf ?b" "cb_items ?b = []" "\<not> circular_buffer_is_full ?b"
    unfolding b by (simp_all add: cb_wf_def cb_items_def cb_slots_def circular_buffer_count_def
        is_pow2_def pow2_test_def circular_buffer_is_full_def next_index_def)
  show ?thesis
    using circular_buffer_push_front_refines_cons [OF wf(1), where ok = True and v = 7] wf(2,3)
    by (auto split: prod.splits zend_result.splits)
qed

text \<open>
  Constructing a buffer for \<open>count\<close> items never returns when \<open>count\<close> exceeds
  \<open>2 ^ 63\<close>; otherwise, when the allocations succeed and the item size is positive, the
  result is well formed and empty, and its capacity is the least power of two that is at
  least \<open>count\<close> (4 for a count of 0).
\<close>

lemma circular_buffer_new_correct:
  assumes "0 < item_size"
  shows "case circular_buffer_new True True count item_size of
      None \<Rightarrow> 2 ^ 63 < unat count
    | Some None \<Rightarrow> False
    | Some (Some b) \<Rightarrow> unat count \<le> 2 ^ 63 \<and> cb_wf b \<and> cb_items b = [] \<and>
        round_up_to_power_of_2 (if count = 0 then 4 else count) = Some (cb_capacity b)"
proof -
  let ?n = "if count = 0 then 4 else count"
  have n: "0 < ?n" by (simp add: word_gt_0)
  show ?thesis
  proof (cases "unat ?n \<le> 2 ^ 63")
    case True
    with n obtain c where c: "round_up_to_power_of_2 ?n = Some c" "is_pow2 c"
      using round_up_small by blast
    then have "round_up_to_power_of_2 c = Some c" "c \<noteq> 0"
      by (auto simp: round_up_to_power_of_2_def is_pow2_def)
    moreover have "list_all (\<lambda>x. x \<noteq> None) [] " by simp
    ultimately show ?thesis using assms c True
      by (auto simp: circular_buffer_new_def circular_buffer_ctor_def MINIMUM_COUNT_def
          cb_wf_def cb_items_def cb_slots_def circular_buffer_count_def unat_threshold word_gt_0
          split: if_splits)
  next
    case False
    then have "round_up_to_power_of_2 ?n = None" by (intro round_up_large) simp
    with False assms show ?thesis
      by (auto simp: circular_buffer_new_def MINIMUM_COUNT_def word_gt_0 split: if_splits)
  qed
qed

lemma circular_buffer_new_witness:
  "(0 :: size_t) < 8 \<and> (case circular_buffer_new True True 5 8 :: nat circular_buffer option option of
      None \<Rightarrow> 2 ^ 63 < unat (5 :: size_t)
    | Some None \<Rightarrow> False
    | Some (Some b) \<Rightarrow> unat (5 :: size_t) \<le> 2 ^ 63 \<and> cb_wf b \<and> cb_items b = [] \<and>
        round_up_to_power_of_2 (if (5 :: size_t) = 0 then 4 else 5) = Some (cb_capacity b))"
proof -
  have h: "(0 :: size_t) < 8" by simp
  show ?thesis using h circular_buffer_new_correct [OF h, of 5] by blast
qed

text \<open>
  Exchanging two occupied slots with \<open>circular_buffer_swap_ptr_at\<close> (the scheduler's
  reordering hook) exchanges the two items and nothing else.
\<close>

lemma swap_refines:
  assumes "cb_wf b" and "i < circular_buffer_count b" and "j < circular_buffer_count b"
  shows "cb_wf (circular_buffer_swap_ptr_at b i j) \<and>
    cb_items (circular_buffer_swap_ptr_at b i j) =
      (cb_items b)[unat i := cb_items b ! unat j, unat j := cb_items b ! unat i]"
proof (cases "i = j")
  case True
  with assms show ?thesis by (simp add: circular_buffer_swap_ptr_at_def word_less_nat_alt)
next
  case False
  note nat = cb_wf_nat [OF assms(1)] and laws = cb_index_laws [OF assms(1) assms(1) assms(1) assms(1) assms(1)]
  let ?b = "circular_buffer_swap_ptr_at b i j"
  let ?n = "unat (circular_buffer_count b)"
  have ij: "unat i < ?n" "unat j < ?n" using assms(2,3) by (simp_all add: word_less_nat_alt)
  have idx: "unat ((cb_tail b + k) AND (cb_capacity b - 1)) = (unat (cb_tail b) + unat k) mod length (cb_data b)"
    if "unat k < ?n" for k
  proof -
    have "unat (cb_tail b + k) = unat (cb_tail b) + unat k"
      using that laws(1) nat(2,6) by (intro unat_add_small) simp
    with nat show ?thesis by (simp add: unat_and_pred)
  qed
  have "cb_slots ?b = (cb_slots b)[unat i := cb_slots b ! unat j, unat j := cb_slots b ! unat i]"
    using ring_swap [OF ij, of "cb_data b" "unat (cb_tail b)"] laws(1) nat False idx ij
    by (simp add: cb_slots_def swap_count) (simp add: circular_buffer_swap_ptr_at_def Let_def)
  moreover have "cb_slots b = map Some (cb_items b)" by (rule cb_slots_eq_items [OF assms(1)])
  ultimately have s: "cb_slots ?b =
      map Some ((cb_items b)[unat i := cb_items b ! unat j, unat j := cb_items b ! unat i])"
    using ij by (simp add: map_update)
  then have "list_all (\<lambda>x. x \<noteq> None) (cb_slots ?b)" by (simp add: list_all_iff)
  with assms(1) have "cb_wf ?b" by (simp add: cb_wf_def circular_buffer_swap_ptr_at_def Let_def)
  with s show ?thesis by (simp add: cb_items_def comp_def)
qed

end
