(* ===== verification/Channel.thy ===== *)
theory Channel
  imports Circular_Buffer_Refinement
begin

text \<open>
  The CSP channel of \<^verbatim>\<open>src/channel.{c,h}\<close>: buffered (a ring buffer) or rendezvous (a single
  slot), with a queue of waiting receivers and a queue of waiting senders.

  A waiter object is named by a number (its address), its fields live in the store
  \<open>ch_waiters\<close>, and the queues hold addresses, so that the flag \<open>reserved\<close> set
  through a queue is seen by the coroutine that parked.  A coroutine suspended inside
  \<open>channel_wait_for\<close> is a parked frame: \<open>ch_parked_receivers\<close> and
  \<open>ch_parked_senders\<close> hold the waiters of the frames of each side.  The blocking methods
  are split at \<^verbatim>\<open>ZEND_ASYNC_SUSPEND\<close> into the part before it and the part after it, so that any
  other operation can run in between.

  What leaves the channel (a resumed coroutine, a failed one, a completed or rejected
  future, a notified subscriber) is appended to \<open>ch_log\<close>.  Outcomes of the reactor's
  timer calls are read from \<open>ch_timer_env\<close>, one per attempt.  Reference counts, value
  destruction and the growth of the queue vectors are not modelled.  The counts of reservations are
  natural numbers where the source has 32 bits; they never exceed the lengths of the queues.
  The subscribers of the channel's own event are its waiters; subscribers from outside, such as a
  coroutine that awaits the channel object, are not modelled.
\<close>

datatype channel_close_reason =
    CHANNEL_CLOSE_EXPLICIT
  | CHANNEL_CLOSE_DISPOSED
  | CHANNEL_CLOSE_NO_PRODUCERS
  | CHANNEL_CLOSE_NO_CONSUMERS
  | CHANNEL_CLOSE_DEADLOCK
  | CHANNEL_CLOSE_SCOPE_DISPOSED

record channel_exception =
  ex_message :: string
  ex_reason :: string

fun channel_close_reason_case :: "channel_close_reason \<Rightarrow> string" where
  "channel_close_reason_case CHANNEL_CLOSE_EXPLICIT = ''EXPLICIT''"
| "channel_close_reason_case CHANNEL_CLOSE_DISPOSED = ''DISPOSED''"
| "channel_close_reason_case CHANNEL_CLOSE_NO_PRODUCERS = ''NO_PRODUCERS''"
| "channel_close_reason_case CHANNEL_CLOSE_NO_CONSUMERS = ''NO_CONSUMERS''"
| "channel_close_reason_case CHANNEL_CLOSE_DEADLOCK = ''DEADLOCK''"
| "channel_close_reason_case CHANNEL_CLOSE_SCOPE_DISPOSED = ''SCOPE_DISPOSED''"

fun channel_exception_message :: "channel_close_reason \<Rightarrow> string" where
  "channel_exception_message CHANNEL_CLOSE_EXPLICIT = ''Channel is closed''"
| "channel_exception_message CHANNEL_CLOSE_DISPOSED = ''Channel disposed''"
| "channel_exception_message CHANNEL_CLOSE_NO_PRODUCERS = ''Channel deadlock: no producers''"
| "channel_exception_message CHANNEL_CLOSE_NO_CONSUMERS = ''Channel deadlock: no consumers''"
| "channel_exception_message CHANNEL_CLOSE_DEADLOCK = ''Channel deadlock''"
| "channel_exception_message CHANNEL_CLOSE_SCOPE_DISPOSED = ''Channel closed: owner scope disposed''"

definition make_channel_exception :: "channel_close_reason \<Rightarrow> channel_exception" where
  "make_channel_exception reason =
     \<lparr>ex_message = channel_exception_message reason, ex_reason = channel_close_reason_case reason\<rparr>"

subsection \<open>Waiters, effects and the channel's state\<close>

record channel_waiter =
  w_future :: "nat option"
  w_reserved :: bool
  w_delivering :: bool

datatype 'v channel_effect =
    Resumed nat
  | Failed nat channel_exception
  | Future_Completed nat "'v option"
  | Future_Rejected nat channel_exception
  | Notified nat channel_exception

datatype timer_outcome = Timer_Started | Timer_Not_Created | Timer_Not_Started

record 'v channel =
  ch_capacity :: int
  ch_buffer :: "'v circular_buffer"
  ch_rendezvous_value :: "'v option"
  ch_rendezvous_has_value :: bool
  ch_rendezvous_committed :: bool
  ch_waiting_receivers :: "nat list"
  ch_waiting_senders :: "nat list"
  ch_reserved_receivers :: nat
  ch_reserved_senders :: nat
  ch_no_producer_timeout_ms :: int
  ch_no_consumer_timeout_ms :: int
  ch_hard_timeouts :: bool
  ch_deadlock_timer :: bool
  ch_pending_timeout_reason :: channel_close_reason
  ch_close_reason :: channel_close_reason
  ch_scope_event :: "nat option"
  ch_closed :: bool
  ch_callbacks :: "nat list"
  ch_waiters :: "nat \<Rightarrow> channel_waiter"
  ch_next_waiter :: nat
  ch_parked_receivers :: "nat list"
  ch_parked_senders :: "nat list"
  ch_in_deadlock_channels :: bool
  ch_timer_env :: "timer_outcome list"
  ch_log :: "'v channel_effect list"

abbreviation log_effect :: "'v channel_effect \<Rightarrow> 'v channel \<Rightarrow> 'v channel" where
  "log_effect e ch \<equiv> ch\<lparr>ch_log := ch_log ch @ [e]\<rparr>"

subsection \<open>Helpers\<close>

definition channel_is_buffered :: "'v channel \<Rightarrow> bool" where
  "channel_is_buffered ch \<longleftrightarrow> ch_capacity ch > 0"

definition channel_is_empty :: "'v channel \<Rightarrow> bool" where
  "channel_is_empty ch \<longleftrightarrow>
     (if channel_is_buffered ch then circular_buffer_is_empty (ch_buffer ch)
      else \<not> ch_rendezvous_has_value ch)"

definition channel_is_full :: "'v channel \<Rightarrow> bool" where
  "channel_is_full ch \<longleftrightarrow>
     (if channel_is_buffered ch
      then circular_buffer_count (ch_buffer ch) \<ge> word_of_int (ch_capacity ch)
      else ch_rendezvous_has_value ch)"

definition channel_count :: "'v channel \<Rightarrow> size_t" where
  "channel_count ch =
     (if channel_is_buffered ch then circular_buffer_count (ch_buffer ch)
      else if ch_rendezvous_has_value ch then 1 else 0)"

definition channel_free_space :: "'v channel \<Rightarrow> size_t" where
  "channel_free_space ch =
     (if channel_is_buffered ch
      then word_of_int (ch_capacity ch) - circular_buffer_count (ch_buffer ch)
      else if ch_rendezvous_has_value ch then 0 else 1)"

definition channel_has_free_value :: "'v channel \<Rightarrow> bool" where
  "channel_has_free_value ch \<longleftrightarrow> unat (channel_count ch) > ch_reserved_receivers ch"

definition channel_has_free_slot :: "'v channel \<Rightarrow> bool" where
  "channel_has_free_slot ch \<longleftrightarrow> unat (channel_free_space ch) > ch_reserved_senders ch"

text \<open>The second component is the value stored through the result pointer.\<close>

definition channel_take_value :: "'v channel \<Rightarrow> 'v channel \<times> 'v option" where
  "channel_take_value ch =
     (if channel_is_buffered ch then
        (case circular_buffer_pop (ch_buffer ch) of
           (b, _, v) \<Rightarrow> (ch\<lparr>ch_buffer := b\<rparr>, v))
      else (ch\<lparr>ch_rendezvous_value := None, ch_rendezvous_has_value := False,
              ch_rendezvous_committed := False\<rparr>, ch_rendezvous_value ch))"

subsection \<open>Queue operations\<close>

definition channel_queue_push :: "nat list \<Rightarrow> nat \<Rightarrow> nat list" where
  "channel_queue_push queue waiter = queue @ [waiter]"

definition channel_queue_remove_at :: "nat list \<Rightarrow> nat \<Rightarrow> nat list" where
  "channel_queue_remove_at queue index = take index queue @ drop (Suc index) queue"

fun channel_queue_first_unreserved :: "(nat \<Rightarrow> channel_waiter) \<Rightarrow> nat list \<Rightarrow> nat option" where
  "channel_queue_first_unreserved ws [] = None"
| "channel_queue_first_unreserved ws (w # queue) =
     (if \<not> w_reserved (ws w) \<and> \<not> w_delivering (ws w) then Some w
      else channel_queue_first_unreserved ws queue)"

fun channel_queue_delivering :: "(nat \<Rightarrow> channel_waiter) \<Rightarrow> nat list \<Rightarrow> nat option" where
  "channel_queue_delivering ws [] = None"
| "channel_queue_delivering ws (w # queue) =
     (if w_delivering (ws w) then Some w else channel_queue_delivering ws queue)"

fun channel_queue_remove :: "nat list \<Rightarrow> nat \<Rightarrow> nat list \<times> bool" where
  "channel_queue_remove [] w = ([], False)"
| "channel_queue_remove (x # queue) w =
     (if x = w then (queue, True)
      else case channel_queue_remove queue w of (queue', found) \<Rightarrow> (x # queue', found))"

definition channel_del_callback :: "'v channel \<Rightarrow> nat \<Rightarrow> 'v channel" where
  "channel_del_callback ch w = ch\<lparr>ch_callbacks := remove1 w (ch_callbacks ch)\<rparr>"

definition channel_add_callback :: "'v channel \<Rightarrow> nat \<Rightarrow> 'v channel" where
  "channel_add_callback ch w = ch\<lparr>ch_callbacks := ch_callbacks ch @ [w]\<rparr>"

subsection \<open>Deadlock timer\<close>

definition channel_disarm_deadlock_timer :: "'v channel \<Rightarrow> 'v channel" where
  "channel_disarm_deadlock_timer ch =
     (if \<not> ch_deadlock_timer ch then ch
      else ch\<lparr>ch_deadlock_timer := False, ch_in_deadlock_channels := False\<rparr>)"

text \<open>
  The next outcome of the environment decides whether the timer event could be created
  and started; with none left the calls succeed.
\<close>

definition next_timer_outcome :: "'v channel \<Rightarrow> timer_outcome \<times> 'v channel" where
  "next_timer_outcome ch =
     (case ch_timer_env ch of
        [] \<Rightarrow> (Timer_Started, ch)
      | t # ts \<Rightarrow> (t, ch\<lparr>ch_timer_env := ts\<rparr>))"

definition channel_arm_deadlock_timer ::
  "'v channel \<Rightarrow> channel_close_reason \<Rightarrow> int \<Rightarrow> 'v channel" where
  "channel_arm_deadlock_timer ch reason timeout_ms =
     (if timeout_ms \<le> 0 \<or> ch_deadlock_timer ch \<or> ch_closed ch then ch
      else case next_timer_outcome ch of
        (Timer_Not_Created, ch) \<Rightarrow> ch
      | (outcome, ch) \<Rightarrow>
          let ch = (if \<not> ch_hard_timeouts ch then ch\<lparr>ch_in_deadlock_channels := True\<rparr> else ch)
          in if outcome = Timer_Not_Started then ch
             else ch\<lparr>ch_deadlock_timer := True, ch_pending_timeout_reason := reason\<rparr>)"

definition channel_refresh_deadlock_timer :: "'v channel \<Rightarrow> 'v channel" where
  "channel_refresh_deadlock_timer ch =
     (let has_recv = length (ch_waiting_receivers ch) > ch_reserved_receivers ch;
          has_send = length (ch_waiting_senders ch) > ch_reserved_senders ch
      in if \<not> has_recv \<and> \<not> has_send then channel_disarm_deadlock_timer ch
         else
           let reason = (if has_recv then CHANNEL_CLOSE_NO_PRODUCERS else CHANNEL_CLOSE_NO_CONSUMERS);
               timeout = (if has_recv then ch_no_producer_timeout_ms ch else ch_no_consumer_timeout_ms ch)
           in if ch_deadlock_timer ch then
                (if ch_pending_timeout_reason ch = reason then ch
                 else channel_arm_deadlock_timer (channel_disarm_deadlock_timer ch) reason timeout)
              else channel_arm_deadlock_timer ch reason timeout)"

subsection \<open>Wake operations\<close>

definition set_reserved :: "'v channel \<Rightarrow> nat \<Rightarrow> 'v channel" where
  "set_reserved ch w = ch\<lparr>ch_waiters := (ch_waiters ch)(w := (ch_waiters ch w)\<lparr>w_reserved := True\<rparr>)\<rparr>"

definition channel_wake_delivered_sender :: "'v channel \<Rightarrow> 'v channel" where
  "channel_wake_delivered_sender ch =
     (if channel_is_buffered ch \<or> ch_rendezvous_has_value ch then ch
      else case channel_queue_delivering (ch_waiters ch) (ch_waiting_senders ch) of
        None \<Rightarrow> ch
      | Some w \<Rightarrow>
          let ch = ch\<lparr>ch_waiting_senders := fst (channel_queue_remove (ch_waiting_senders ch) w)\<rparr>;
              ch = channel_del_callback ch w;
              ch = log_effect (Resumed w) ch
          in channel_refresh_deadlock_timer ch)"

definition channel_wake_sender :: "'v channel \<Rightarrow> 'v channel" where
  "channel_wake_sender ch =
     (let ch = channel_wake_delivered_sender ch in
      if \<not> channel_has_free_slot ch then ch
      else case channel_queue_first_unreserved (ch_waiters ch) (ch_waiting_senders ch) of
        None \<Rightarrow> ch
      | Some w \<Rightarrow>
          let ch = channel_del_callback ch w;
              ch = set_reserved ch w;
              ch = ch\<lparr>ch_reserved_senders := ch_reserved_senders ch + 1\<rparr>;
              ch = log_effect (Resumed w) ch
          in channel_refresh_deadlock_timer ch)"

definition channel_wake_receiver :: "'v channel \<Rightarrow> 'v channel \<times> bool" where
  "channel_wake_receiver ch =
     (if \<not> channel_has_free_value ch then (ch, False)
      else case channel_queue_first_unreserved (ch_waiters ch) (ch_waiting_receivers ch) of
        None \<Rightarrow> (ch, False)
      | Some w \<Rightarrow>
          (case w_future (ch_waiters ch w) of
             Some f \<Rightarrow>
               let ch = ch\<lparr>ch_waiting_receivers := fst (channel_queue_remove (ch_waiting_receivers ch) w)\<rparr>;
                   ch = channel_del_callback ch w;
                   (ch, value) = channel_take_value ch;
                   ch = log_effect (Future_Completed f value) ch;
                   ch = channel_wake_sender ch
               in (channel_refresh_deadlock_timer ch, True)
           | None \<Rightarrow>
               let ch = channel_del_callback ch w;
                   ch = set_reserved ch w;
                   ch = ch\<lparr>ch_reserved_receivers := ch_reserved_receivers ch + 1\<rparr>;
                   ch = log_effect (Resumed w) ch
               in (channel_refresh_deadlock_timer ch, True)))"

text \<open>The two loops of \<open>channel_wake_all\<close>, from the tail of each queue to its front.\<close>

fun wake_all_receivers :: "channel_exception \<Rightarrow> nat \<Rightarrow> 'v channel \<Rightarrow> 'v channel" where
  "wake_all_receivers ex 0 ch = ch"
| "wake_all_receivers ex (Suc index) ch =
     (let w = ch_waiting_receivers ch ! index in
      if w_reserved (ch_waiters ch w) then wake_all_receivers ex index ch
      else
        let ch = ch\<lparr>ch_waiting_receivers := channel_queue_remove_at (ch_waiting_receivers ch) index\<rparr>;
            ch = channel_del_callback ch w;
            ch = (case w_future (ch_waiters ch w) of
                    Some f \<Rightarrow> log_effect (Future_Rejected f ex) ch
                  | None \<Rightarrow> log_effect (Failed w ex) ch)
        in wake_all_receivers ex index ch)"

fun wake_all_senders :: "channel_exception \<Rightarrow> nat \<Rightarrow> 'v channel \<Rightarrow> 'v channel" where
  "wake_all_senders ex 0 ch = ch"
| "wake_all_senders ex (Suc index) ch =
     (let w = ch_waiting_senders ch ! index;
          ch = ch\<lparr>ch_waiting_senders := channel_queue_remove_at (ch_waiting_senders ch) index\<rparr>;
          ch = channel_del_callback ch w;
          ch = log_effect (Failed w ex) ch
      in wake_all_senders ex index ch)"

definition channel_wake_all :: "'v channel \<Rightarrow> channel_exception \<Rightarrow> 'v channel" where
  "channel_wake_all ch ex =
     (let ch = wake_all_receivers ex (length (ch_waiting_receivers ch)) ch;
          ch = wake_all_senders ex (length (ch_waiting_senders ch)) ch
      in ch\<lparr>ch_log := ch_log ch @ map (\<lambda>w. Notified w ex) (ch_callbacks ch)\<rparr>)"

definition drop_uncommitted :: "'v channel \<Rightarrow> 'v channel" where
  "drop_uncommitted ch =
     (if ch_rendezvous_has_value ch \<and> \<not> ch_rendezvous_committed ch
      then ch\<lparr>ch_rendezvous_value := None, ch_rendezvous_has_value := False\<rparr> else ch)"

definition channel_close :: "'v channel \<Rightarrow> channel_close_reason \<Rightarrow> 'v channel" where
  "channel_close ch reason =
     (if ch_closed ch then ch
      else
        let ch = ch\<lparr>ch_close_reason := reason, ch_closed := True\<rparr>;
            ch = channel_disarm_deadlock_timer ch;
            ch = channel_wake_all ch (make_channel_exception reason)
        in drop_uncommitted ch)"

definition channel_deadlock_fire :: "'v channel \<Rightarrow> 'v channel" where
  "channel_deadlock_fire ch =
     (if ch_closed ch then ch else channel_close ch (ch_pending_timeout_reason ch))"

subsection \<open>Owner scope binding\<close>

definition channel_scope_close_fire :: "'v channel \<Rightarrow> 'v channel" where
  "channel_scope_close_fire ch = channel_close ch CHANNEL_CLOSE_SCOPE_DISPOSED"

definition channel_scope_close_dispose :: "'v channel \<Rightarrow> 'v channel" where
  "channel_scope_close_dispose ch = ch\<lparr>ch_scope_event := None\<rparr>"

text \<open>
  A scope is given by its event and whether that event is closed; \<open>None\<close> is a NULL
  pointer.  The result is the channel and the scope event it was added to, if any.
\<close>

definition channel_bind_to_owner_scope ::
  "(nat \<times> bool) option \<Rightarrow> (nat \<times> bool) option \<Rightarrow> 'v channel \<Rightarrow> 'v channel" where
  "channel_bind_to_owner_scope current main ch =
     (case (case current of None \<Rightarrow> main | Some s \<Rightarrow> Some s) of
        None \<Rightarrow> ch
      | Some (scope_event, closed) \<Rightarrow> if closed then ch else ch\<lparr>ch_scope_event := Some scope_event\<rparr>)"

definition channel_unbind_from_owner_scope :: "'v channel \<Rightarrow> 'v channel" where
  "channel_unbind_from_owner_scope ch = ch\<lparr>ch_scope_event := None\<rparr>"

text \<open>
  The global deadlock resolver over all channels of the process; the registry
  \<^verbatim>\<open>ASYNC_G(deadlock_channels)\<close> is the sub-list of those that are registered.
\<close>

fun close_registered :: "'v channel list \<Rightarrow> 'v channel list \<times> bool" where
  "close_registered [] = ([], False)"
| "close_registered (ch # chs) =
     (case close_registered chs of (chs', resolved) \<Rightarrow>
        if ch_in_deadlock_channels ch \<and> \<not> ch_closed ch
        then (channel_close ch CHANNEL_CLOSE_DEADLOCK # chs', True)
        else (ch # chs', resolved))"

definition async_channel_resolve_deadlocks :: "'v channel list \<Rightarrow> 'v channel list \<times> bool" where
  "async_channel_resolve_deadlocks chs =
     (if filter ch_in_deadlock_channels chs = [] then (chs, False) else close_registered chs)"

subsection \<open>Wait operations\<close>

text \<open>
  \<open>channel_wait_for\<close> up to \<^verbatim>\<open>ZEND_ASYNC_SUSPEND\<close>: the new waiter's address is
  \<open>ch_next_waiter\<close>.  The check of the cancellation token is the caller's argument
  \<open>token_fired\<close> of the methods below.
\<close>

definition channel_wait_begin :: "bool \<Rightarrow> bool \<Rightarrow> 'v channel \<Rightarrow> 'v channel \<times> nat" where
  "channel_wait_begin is_receiver delivering ch =
     (let w = ch_next_waiter ch;
          ch = ch\<lparr>ch_next_waiter := Suc w,
                  ch_waiters := (ch_waiters ch)(w := \<lparr>w_future = None, w_reserved = False,
                                                       w_delivering = delivering\<rparr>)\<rparr>;
          ch = (if is_receiver
                then ch\<lparr>ch_waiting_receivers := channel_queue_push (ch_waiting_receivers ch) w,
                        ch_parked_receivers := ch_parked_receivers ch @ [w]\<rparr>
                else ch\<lparr>ch_waiting_senders := channel_queue_push (ch_waiting_senders ch) w,
                        ch_parked_senders := ch_parked_senders ch @ [w]\<rparr>);
          ch = channel_refresh_deadlock_timer ch;
          ch = channel_add_callback ch w
      in (ch, w))"

text \<open>
  The part after the suspension; \<open>exception\<close> is \<^verbatim>\<open>EG(exception) != NULL\<close>.  On resumption the
  scheduler has taken the waker's callbacks off the channel's event.  The boolean result
  says that the caller came back holding a reservation.
\<close>

definition channel_wait_end ::
  "bool \<Rightarrow> nat \<Rightarrow> bool \<Rightarrow> 'v channel \<Rightarrow> 'v channel \<times> bool" where
  "channel_wait_end is_receiver w exception ch =
     (let ch = channel_del_callback ch w;
          had_reservation = w_reserved (ch_waiters ch w);
          delivering = w_delivering (ch_waiters ch w);
          (ch, was_queued) =
            (if is_receiver then
               (case channel_queue_remove (ch_waiting_receivers ch) w of
                  (q, found) \<Rightarrow> (ch\<lparr>ch_waiting_receivers := q,
                                     ch_parked_receivers := remove1 w (ch_parked_receivers ch)\<rparr>, found))
             else
               (case channel_queue_remove (ch_waiting_senders ch) w of
                  (q, found) \<Rightarrow> (ch\<lparr>ch_waiting_senders := q,
                                     ch_parked_senders := remove1 w (ch_parked_senders ch)\<rparr>, found)));
          ch = (if delivering \<and> exception \<and> was_queued then drop_uncommitted ch else ch);
          ch = (if had_reservation then
                  (if is_receiver then ch\<lparr>ch_reserved_receivers := ch_reserved_receivers ch - 1\<rparr>
                   else ch\<lparr>ch_reserved_senders := ch_reserved_senders ch - 1\<rparr>)
                else ch);
          spent = (had_reservation \<and> \<not> exception);
          ch = (if ((delivering \<and> was_queued) \<or> (had_reservation \<and> \<not> spent)) \<and> \<not> ch_closed ch then
                  (if is_receiver then fst (channel_wake_receiver ch) else channel_wake_sender ch)
                else ch)
      in (channel_refresh_deadlock_timer ch, spent))"

subsection \<open>Methods\<close>

datatype 'v channel_result =
    Returned
  | Returned_Bool bool
  | Returned_Value "'v option"
  | Threw channel_exception
  | Threw_Pending
  | Parked nat

text \<open>
  \<open>Threw_Pending\<close> propagates the exception the coroutine already carries (a
  cancellation, or the one its waiter was failed with); \<open>Parked w\<close> is a suspension with
  waiter \<open>w\<close>.  The body of \<open>send\<close> from its label \<^verbatim>\<open>retry\<close>:
\<close>

definition store_rendezvous :: "'v channel \<Rightarrow> 'v \<Rightarrow> 'v channel" where
  "store_rendezvous ch v =
     ch\<lparr>ch_rendezvous_value := Some v, ch_rendezvous_has_value := True,
        ch_rendezvous_committed := False\<rparr>"

definition push_value :: "'v channel \<Rightarrow> 'v \<Rightarrow> 'v channel" where
  "push_value ch v = ch\<lparr>ch_buffer := fst (circular_buffer_push True (ch_buffer ch) v False)\<rparr>"

definition channel_send_retry ::
  "bool \<Rightarrow> 'v \<Rightarrow> bool \<Rightarrow> 'v channel \<Rightarrow> 'v channel \<times> 'v channel_result" where
  "channel_send_retry token_fired v has_reservation ch =
     (if ch_closed ch then (ch, Threw (make_channel_exception (ch_close_reason ch)))
      else if has_reservation \<or> channel_has_free_slot ch then
        if channel_is_buffered ch then (fst (channel_wake_receiver (push_value ch v)), Returned)
        else
          (case channel_wake_receiver (store_rendezvous ch v) of
             (ch, True) \<Rightarrow> (ch\<lparr>ch_rendezvous_committed := ch_rendezvous_has_value ch\<rparr>, Returned)
           | (ch, False) \<Rightarrow>
               if token_fired then (ch, Threw_Pending)
               else case channel_wait_begin False True ch of (ch, w) \<Rightarrow> (ch, Parked w))
      else if token_fired then (ch, Threw_Pending)
      else case channel_wait_begin False False ch of (ch, w) \<Rightarrow> (ch, Parked w))"

definition channel_send :: "bool \<Rightarrow> 'v \<Rightarrow> 'v channel \<Rightarrow> 'v channel \<times> 'v channel_result" where
  "channel_send token_fired v ch =
     (if token_fired then (ch, Threw_Pending) else channel_send_retry token_fired v False ch)"

text \<open>A sender parked for space, and one parked for the delivery of its value, run again.\<close>

definition channel_send_resume_space ::
  "bool \<Rightarrow> 'v \<Rightarrow> nat \<Rightarrow> bool \<Rightarrow> 'v channel \<Rightarrow> 'v channel \<times> 'v channel_result" where
  "channel_send_resume_space token_fired v w exception ch =
     (case channel_wait_end False w exception ch of (ch, has_reservation) \<Rightarrow>
        if exception then (ch, Threw_Pending) else channel_send_retry token_fired v has_reservation ch)"

definition channel_send_resume_delivery ::
  "nat \<Rightarrow> bool \<Rightarrow> 'v channel \<Rightarrow> 'v channel \<times> 'v channel_result" where
  "channel_send_resume_delivery w exception ch =
     (case channel_wait_end False w exception ch of (ch, _) \<Rightarrow>
        (ch, if exception then Threw_Pending else Returned))"

definition channel_sendAsync :: "'v \<Rightarrow> 'v channel \<Rightarrow> 'v channel \<times> 'v channel_result" where
  "channel_sendAsync v ch =
     (if ch_closed ch then (ch, Returned_Bool False)
      else if \<not> channel_has_free_slot ch then (ch, Returned_Bool False)
      else if channel_is_buffered ch then
        (fst (channel_wake_receiver (push_value ch v)), Returned_Bool True)
      else
        (case channel_wake_receiver (store_rendezvous ch v) of
           (ch, True) \<Rightarrow> (ch\<lparr>ch_rendezvous_committed := ch_rendezvous_has_value ch\<rparr>, Returned_Bool True)
         | (ch, False) \<Rightarrow> (ch, Returned_Bool True)))"

definition channel_recv_retry ::
  "bool \<Rightarrow> bool \<Rightarrow> 'v channel \<Rightarrow> 'v channel \<times> 'v channel_result" where
  "channel_recv_retry token_fired has_reservation ch =
     (if has_reservation \<or> channel_has_free_value ch then
        (case channel_take_value ch of (ch, v) \<Rightarrow> (channel_wake_sender ch, Returned_Value v))
      else if ch_closed ch then (ch, Threw (make_channel_exception (ch_close_reason ch)))
      else if token_fired then (ch, Threw_Pending)
      else case channel_wait_begin True False ch of (ch, w) \<Rightarrow> (ch, Parked w))"

definition channel_recv :: "bool \<Rightarrow> 'v channel \<Rightarrow> 'v channel \<times> 'v channel_result" where
  "channel_recv token_fired ch =
     (if token_fired then (ch, Threw_Pending) else channel_recv_retry token_fired False ch)"

definition channel_recv_resume ::
  "bool \<Rightarrow> nat \<Rightarrow> bool \<Rightarrow> 'v channel \<Rightarrow> 'v channel \<times> 'v channel_result" where
  "channel_recv_resume token_fired w exception ch =
     (case channel_wait_end True w exception ch of (ch, has_reservation) \<Rightarrow>
        if exception then (ch, Threw_Pending) else channel_recv_retry token_fired has_reservation ch)"

text \<open>\<open>recvAsync\<close> on a new future \<open>f\<close>; a queued future's waiter is the second result.\<close>

definition channel_recvAsync :: "nat \<Rightarrow> 'v channel \<Rightarrow> 'v channel \<times> nat option" where
  "channel_recvAsync f ch =
     (if channel_has_free_value ch then
        (case channel_take_value ch of (ch, v) \<Rightarrow>
           (log_effect (Future_Completed f v) (channel_wake_sender ch), None))
      else if ch_closed ch then
        (log_effect (Future_Rejected f (make_channel_exception (ch_close_reason ch))) ch, None)
      else
        let w = ch_next_waiter ch in
        (ch\<lparr>ch_next_waiter := Suc w,
            ch_waiters := (ch_waiters ch)(w := \<lparr>w_future = Some f, w_reserved = False, w_delivering = False\<rparr>),
            ch_waiting_receivers := channel_queue_push (ch_waiting_receivers ch) w\<rparr>, Some w))"

text \<open>
  The dispose handler of that future: \<open>future_closed\<close> says it was already completed or
  rejected, \<open>waiter\<close> is the waiter it still points to.
\<close>

definition channel_recv_future_dispose ::
  "bool \<Rightarrow> nat option \<Rightarrow> 'v channel \<Rightarrow> 'v channel" where
  "channel_recv_future_dispose future_closed waiter ch =
     (case waiter of
        None \<Rightarrow> ch
      | Some w \<Rightarrow>
          if future_closed then ch
          else case channel_queue_remove (ch_waiting_receivers ch) w of
            (q, True) \<Rightarrow> channel_del_callback (ch\<lparr>ch_waiting_receivers := q\<rparr>) w
          | (q, False) \<Rightarrow> ch)"

definition channel_close_method :: "'v channel \<Rightarrow> 'v channel" where
  "channel_close_method ch = channel_close ch CHANNEL_CLOSE_EXPLICIT"

subsection \<open>The foreach iterator\<close>

text \<open>
  \<open>channel_iterator_move_forward\<close> between suspensions.  The result is the new
  \<^verbatim>\<open>current\<close> with \<^verbatim>\<open>valid = true\<close>, the end of the iteration (\<open>Iter_End pending\<close>, with or
  without a pending exception), or a suspension.
\<close>

datatype 'v iterator_result = Iter_Current "'v option" | Iter_End bool | Iter_Parked nat

definition channel_iterator_retry :: "bool \<Rightarrow> 'v channel \<Rightarrow> 'v channel \<times> 'v iterator_result" where
  "channel_iterator_retry has_reservation ch =
     (if has_reservation \<or> channel_has_free_value ch then
        (case channel_take_value ch of (ch, v) \<Rightarrow> (channel_wake_sender ch, Iter_Current v))
      else if ch_closed ch then (ch, Iter_End False)
      else case channel_wait_begin True False ch of (ch, w) \<Rightarrow> (ch, Iter_Parked w))"

definition channel_iterator_move_forward :: "'v channel \<Rightarrow> 'v channel \<times> 'v iterator_result" where
  "channel_iterator_move_forward ch = channel_iterator_retry False ch"

text \<open>\<open>channel_exception\<close> says that the pending exception is a \<^verbatim>\<open>ChannelException\<close>.\<close>

definition channel_iterator_resume ::
  "nat \<Rightarrow> bool \<Rightarrow> bool \<Rightarrow> 'v channel \<Rightarrow> 'v channel \<times> 'v iterator_result" where
  "channel_iterator_resume w exception channel_exception ch =
     (case channel_wait_end True w exception ch of (ch, has_reservation) \<Rightarrow>
        if exception then
          (ch, Iter_End (\<not> (channel_exception \<and> ch_close_reason ch = CHANNEL_CLOSE_EXPLICIT)))
        else channel_iterator_retry has_reservation ch)"

subsection \<open>Object lifetime\<close>

definition INT32_MAX :: int where
  "INT32_MAX = 2147483647"

definition async_channel_create_object :: "timer_outcome list \<Rightarrow> 'v channel" where
  "async_channel_create_object env =
     \<lparr>ch_capacity = 0, ch_buffer = zeroed_buffer, ch_rendezvous_value = None,
      ch_rendezvous_has_value = False, ch_rendezvous_committed = False,
      ch_waiting_receivers = [], ch_waiting_senders = [],
      ch_reserved_receivers = 0, ch_reserved_senders = 0,
      ch_no_producer_timeout_ms = 0, ch_no_consumer_timeout_ms = 0, ch_hard_timeouts = False,
      ch_deadlock_timer = False, ch_pending_timeout_reason = CHANNEL_CLOSE_EXPLICIT,
      ch_close_reason = CHANNEL_CLOSE_EXPLICIT, ch_scope_event = None, ch_closed = False,
      ch_callbacks = [],
      ch_waiters = (\<lambda>_. \<lparr>w_future = None, w_reserved = False, w_delivering = False\<rparr>),
      ch_next_waiter = 0, ch_parked_receivers = [], ch_parked_senders = [],
      ch_in_deadlock_channels = False, ch_timer_env = env, ch_log = []\<rparr>"

datatype construct_error = Value_Error nat | Buffer_Error | Never_Returns

text \<open>\<open>Value_Error n\<close> rejects argument \<open>n\<close>.  \<^verbatim>\<open>sizeof(zval)\<close> is 16.\<close>

definition channel_construct ::
  "bool \<Rightarrow> (nat \<times> bool) option \<Rightarrow> (nat \<times> bool) option \<Rightarrow> int \<Rightarrow> int \<Rightarrow> int \<Rightarrow> bool \<Rightarrow>
   'v channel \<Rightarrow> construct_error + 'v channel" where
  "channel_construct alloc_ok current main capacity no_producer_timeout no_consumer_timeout hard_timeouts ch =
     (if capacity < 0 \<or> capacity > INT32_MAX then Inl (Value_Error 1)
      else if no_producer_timeout < 0 \<or> no_producer_timeout > INT32_MAX then Inl (Value_Error 2)
      else if no_consumer_timeout < 0 \<or> no_consumer_timeout > INT32_MAX then Inl (Value_Error 3)
      else
        let ch = ch\<lparr>ch_capacity := capacity, ch_no_producer_timeout_ms := no_producer_timeout,
                    ch_no_consumer_timeout_ms := no_consumer_timeout, ch_hard_timeouts := hard_timeouts\<rparr>
        in if capacity > 0 then
             (case circular_buffer_ctor alloc_ok (ch_buffer ch) (word_of_int (capacity + 1)) 16 of
                None \<Rightarrow> Inl Never_Returns
              | Some (b, FAILURE) \<Rightarrow> Inl Buffer_Error
              | Some (b, SUCCESS) \<Rightarrow> Inr (channel_bind_to_owner_scope current main (ch\<lparr>ch_buffer := b\<rparr>)))
           else Inr (channel_bind_to_owner_scope current main ch))"

definition async_channel_dtor_object :: "'v channel \<Rightarrow> 'v channel" where
  "async_channel_dtor_object ch = channel_close ch CHANNEL_CLOSE_DISPOSED"

text \<open>
  The loop of \<open>async_channel_get_gc\<close> over the raw buffer, with a fuel of one step per
  cell, and the values it reports.
\<close>

fun gc_scan :: "nat \<Rightarrow> 'v circular_buffer \<Rightarrow> size_t \<Rightarrow> 'v option list option" where
  "gc_scan 0 cb idx = (if idx = cb_head cb then Some [] else None)"
| "gc_scan (Suc fuel) cb idx =
     (if idx = cb_head cb then Some []
      else map_option ((#) (cb_data cb ! unat idx))
             (gc_scan fuel cb ((idx + 1) AND (cb_capacity cb - 1))))"

definition async_channel_get_gc :: "'v channel \<Rightarrow> 'v option list option" where
  "async_channel_get_gc ch =
     (if channel_is_buffered ch then
        gc_scan (unat (cb_capacity (ch_buffer ch))) (ch_buffer ch) (cb_tail (ch_buffer ch))
      else Some (if ch_rendezvous_has_value ch then [ch_rendezvous_value ch] else []))"

text \<open>
  \<open>async_channel_free_object\<close>: the values drained from the buffer are destroyed, so the
  result is the dead channel and the list of values destroyed.
\<close>

fun drain_buffer :: "nat \<Rightarrow> 'v circular_buffer \<Rightarrow> 'v circular_buffer \<times> 'v option list" where
  "drain_buffer 0 b = (b, [])"
| "drain_buffer (Suc fuel) b =
     (if circular_buffer_is_empty b then (b, [])
      else case circular_buffer_pop b of
        (b', SUCCESS, v) \<Rightarrow> (case drain_buffer fuel b' of (b'', vs) \<Rightarrow> (b'', v # vs))
      | (b', FAILURE, v) \<Rightarrow> (b', []))"

definition async_channel_free_object :: "'v channel \<Rightarrow> 'v channel \<times> 'v option list" where
  "async_channel_free_object ch =
     (let ch = channel_unbind_from_owner_scope ch;
          ch = channel_disarm_deadlock_timer ch;
          ch = ch\<lparr>ch_callbacks := [], ch_waiting_receivers := [], ch_waiting_senders := []\<rparr>
      in if channel_is_buffered ch then
           (case drain_buffer (unat (cb_capacity (ch_buffer ch))) (ch_buffer ch) of
              (b, vs) \<Rightarrow> (ch\<lparr>ch_buffer := circular_buffer_dtor b\<rparr>, vs))
         else if ch_rendezvous_has_value ch then (ch, [ch_rendezvous_value ch])
         else (ch, []))"

end
