(* ===== verification/Channel_Invariant.thy ===== *)
theory Channel_Invariant
  imports Channel
begin

text \<open>
  The invariant of a channel and its preservation by every operation.  It has five parts:
  the storage agrees with the capacity, the reservation counters count the reserved parked
  waiters and never exceed the values and slots there are, the queues and parked frames
  agree, a delivering sender sits on its own uncommitted value, and a closed channel has
  nobody left to wake.  \<open>recv_bal k\<close> and \<open>send_bal k\<close> bound by \<open>k\<close> the values (slots)
  that are free while somebody waits for one; with \<open>k = 0\<close> nobody is stranded.
\<close>

subsection \<open>Queues\<close>

lemma channel_queue_remove_eq: "channel_queue_remove q w = (remove1 w q, w \<in> set q)"
  by (induction q) (auto split: prod.splits)

lemma first_unreserved_Some:
  "channel_queue_first_unreserved ws q = Some w \<Longrightarrow>
   w \<in> set q \<and> \<not> w_reserved (ws w) \<and> \<not> w_delivering (ws w)"
  by (induction q) (auto split: if_splits)

lemma first_unreserved_None:
  "channel_queue_first_unreserved ws q = None \<longleftrightarrow> (\<forall>w\<in>set q. w_reserved (ws w) \<or> w_delivering (ws w))"
  by (induction q) auto

lemma queue_delivering_Some:
  "channel_queue_delivering ws q = Some w \<Longrightarrow> w \<in> set q \<and> w_delivering (ws w)"
  by (induction q) (auto split: if_splits)

lemma queue_delivering_None:
  "channel_queue_delivering ws q = None \<longleftrightarrow> (\<forall>w\<in>set q. \<not> w_delivering (ws w))"
  by (induction q) auto

text \<open>How many waiters of a list hold a reservation.\<close>

definition resv :: "(nat \<Rightarrow> channel_waiter) \<Rightarrow> nat list \<Rightarrow> nat" where
  "resv ws q = length (filter (\<lambda>w. w_reserved (ws w)) q)"

lemma resv_Nil [simp]: "resv ws [] = 0"
  by (simp add: resv_def)

lemma resv_append [simp]: "resv ws (q @ q') = resv ws q + resv ws q'"
  by (simp add: resv_def)

lemma resv_fresh: "w \<notin> set q \<Longrightarrow> resv (ws(w := x)) q = resv ws q"
  by (auto simp: resv_def intro!: arg_cong [where f = length] filter_cong)

lemma resv_set_reserved:
  assumes "distinct q" and "w \<in> set q" and "\<not> w_reserved (ws w)"
  shows "resv (ws(w := (ws w)\<lparr>w_reserved := True\<rparr>)) q = Suc (resv ws q)"
  using assms
proof (induction q)
  case (Cons x q)
  show ?case
  proof (cases "x = w")
    case True
    with Cons.prems have "resv (ws(w := (ws w)\<lparr>w_reserved := True\<rparr>)) q = resv ws q"
      by (intro resv_fresh) auto
    with True Cons.prems show ?thesis by (simp add: resv_def)
  next
    case False
    with Cons show ?thesis by (simp add: resv_def)
  qed
qed simp

lemma resv_remove1:
  assumes "w \<in> set q"
  shows "resv ws q = resv ws (remove1 w q) + (if w_reserved (ws w) then 1 else 0)"
  using assms by (induction q) (auto simp: resv_def)

lemma resv_pos: "w \<in> set q \<Longrightarrow> w_reserved (ws w) \<Longrightarrow> 0 < resv ws q"
  by (induction q) (auto simp: resv_def)

subsection \<open>Operations that do not touch the contract's fields\<close>

text \<open>The channel without its deadlock timer, which the rest of the contract does not mention.\<close>

definition ch_core :: "'v channel \<Rightarrow> 'v channel" where
  "ch_core ch = ch\<lparr>ch_deadlock_timer := False, ch_pending_timeout_reason := CHANNEL_CLOSE_EXPLICIT,
     ch_in_deadlock_channels := False, ch_timer_env := []\<rparr>"

lemma core_disarm: "ch_core (channel_disarm_deadlock_timer ch) = ch_core ch"
  by (simp add: channel_disarm_deadlock_timer_def ch_core_def)

lemma core_next: "ch_core (snd (next_timer_outcome ch)) = ch_core ch"
  "ch_closed (snd (next_timer_outcome ch)) = ch_closed ch"
  by (simp_all add: next_timer_outcome_def ch_core_def split: list.split)

lemma core_arm: "ch_core (channel_arm_deadlock_timer ch reason ms) = ch_core ch"
proof -
  obtain o' ch' where n: "next_timer_outcome ch = (o', ch')" by force
  then have "ch_core ch' = ch_core ch" using core_next(1) [of ch] by simp
  then show ?thesis
    by (auto simp: channel_arm_deadlock_timer_def n Let_def ch_core_def split: timer_outcome.split)
qed

lemma core_refresh: "ch_core (channel_refresh_deadlock_timer ch) = ch_core ch"
  by (simp add: channel_refresh_deadlock_timer_def Let_def core_arm core_disarm)

lemma core_fields:
  assumes "ch_core x = ch_core y"
  shows "ch_capacity x = ch_capacity y" "ch_buffer x = ch_buffer y"
    "ch_rendezvous_value x = ch_rendezvous_value y"
    "ch_rendezvous_has_value x = ch_rendezvous_has_value y"
    "ch_rendezvous_committed x = ch_rendezvous_committed y"
    "ch_waiting_receivers x = ch_waiting_receivers y" "ch_waiting_senders x = ch_waiting_senders y"
    "ch_reserved_receivers x = ch_reserved_receivers y" "ch_reserved_senders x = ch_reserved_senders y"
    "ch_closed x = ch_closed y" "ch_close_reason x = ch_close_reason y"
    "ch_callbacks x = ch_callbacks y" "ch_waiters x = ch_waiters y"
    "ch_next_waiter x = ch_next_waiter y" "ch_parked_receivers x = ch_parked_receivers y"
    "ch_parked_senders x = ch_parked_senders y" "ch_log x = ch_log y"
    "ch_hard_timeouts x = ch_hard_timeouts y"
proof -
  have *: "\<And>f. f (ch_core x) = f (ch_core y)" using assms by simp
  show "ch_capacity x = ch_capacity y" "ch_buffer x = ch_buffer y"
    "ch_rendezvous_value x = ch_rendezvous_value y"
    "ch_rendezvous_has_value x = ch_rendezvous_has_value y"
    "ch_rendezvous_committed x = ch_rendezvous_committed y"
    "ch_waiting_receivers x = ch_waiting_receivers y" "ch_waiting_senders x = ch_waiting_senders y"
    "ch_reserved_receivers x = ch_reserved_receivers y" "ch_reserved_senders x = ch_reserved_senders y"
    "ch_closed x = ch_closed y" "ch_close_reason x = ch_close_reason y"
    "ch_callbacks x = ch_callbacks y" "ch_waiters x = ch_waiters y"
    "ch_next_waiter x = ch_next_waiter y" "ch_parked_receivers x = ch_parked_receivers y"
    "ch_parked_senders x = ch_parked_senders y" "ch_log x = ch_log y"
    "ch_hard_timeouts x = ch_hard_timeouts y"
    using * [of ch_capacity] * [of ch_buffer] * [of ch_rendezvous_value] * [of ch_rendezvous_has_value]
      * [of ch_rendezvous_committed] * [of ch_waiting_receivers] * [of ch_waiting_senders]
      * [of ch_reserved_receivers] * [of ch_reserved_senders] * [of ch_closed] * [of ch_close_reason]
      * [of ch_callbacks] * [of ch_waiters] * [of ch_next_waiter] * [of ch_parked_receivers]
      * [of ch_parked_senders] * [of ch_log] * [of ch_hard_timeouts]
    by (simp_all add: ch_core_def)
qed

lemmas refresh_frame [simp] = core_fields [OF core_refresh]
lemmas disarm_frame [simp] = core_fields [OF core_disarm]
lemmas arm_frame [simp] = core_fields [OF core_arm]

lemma disarm_no_timer [simp]: "\<not> ch_deadlock_timer (channel_disarm_deadlock_timer ch)"
  by (simp add: channel_disarm_deadlock_timer_def)

lemma refresh_closed_no_timer:
  "ch_closed ch \<Longrightarrow> \<not> ch_deadlock_timer ch \<Longrightarrow> \<not> ch_deadlock_timer (channel_refresh_deadlock_timer ch)"
  by (simp add: channel_refresh_deadlock_timer_def Let_def channel_arm_deadlock_timer_def)

subsection \<open>Storage\<close>

definition channel_contents :: "'v channel \<Rightarrow> 'v list" where
  "channel_contents ch =
     (if channel_is_buffered ch then cb_items (ch_buffer ch)
      else case ch_rendezvous_value ch of None \<Rightarrow> [] | Some v \<Rightarrow> [v])"

definition slots :: "'v channel \<Rightarrow> nat" where
  "slots ch = (if channel_is_buffered ch then nat (ch_capacity ch) else 1)"

definition storage_ok :: "'v channel \<Rightarrow> bool" where
  "storage_ok ch \<longleftrightarrow> 0 \<le> ch_capacity ch \<and> ch_capacity ch \<le> INT32_MAX \<and>
     (ch_rendezvous_committed ch \<longrightarrow> ch_rendezvous_has_value ch) \<and>
     (ch_rendezvous_has_value ch \<longleftrightarrow> ch_rendezvous_value ch \<noteq> None) \<and>
     (channel_is_buffered ch \<longrightarrow> \<not> ch_rendezvous_has_value ch \<and> cb_wf (ch_buffer ch)
        \<and> nat (ch_capacity ch) < unat (cb_capacity (ch_buffer ch))
        \<and> length (cb_items (ch_buffer ch)) \<le> nat (ch_capacity ch))"

abbreviation cnt :: "'v channel \<Rightarrow> nat" where
  "cnt ch \<equiv> unat (channel_count ch)"

abbreviation room :: "'v channel \<Rightarrow> nat" where
  "room ch \<equiv> unat (channel_free_space ch)"

lemma cnt_contents:
  assumes "storage_ok ch"
  shows "cnt ch = length (channel_contents ch)"
  using assms by (auto simp: storage_ok_def channel_count_def channel_contents_def split: option.split)

lemma room_slots:
  assumes "storage_ok ch"
  shows "cnt ch + room ch = slots ch"
proof (cases "channel_is_buffered ch")
  case True
  let ?c = "word_of_int (ch_capacity ch) :: size_t"
  have c: "unat ?c = nat (ch_capacity ch)"
    using assms by (simp add: storage_ok_def INT32_MAX_def unsigned_of_int take_bit_int_eq_self)
  have le: "circular_buffer_count (ch_buffer ch) \<le> ?c"
    using assms True c by (simp add: word_le_nat_alt storage_ok_def)
  with True c show ?thesis
    by (simp add: channel_count_def channel_free_space_def slots_def unat_sub word_le_nat_alt)
next
  case False
  then show ?thesis by (simp add: channel_count_def channel_free_space_def slots_def)
qed

text \<open>Operations on the storage leave the rest of the channel alone.\<close>

lemma take_frame [simp]:
  "ch_capacity (fst (channel_take_value ch)) = ch_capacity ch"
  "ch_waiting_receivers (fst (channel_take_value ch)) = ch_waiting_receivers ch"
  "ch_waiting_senders (fst (channel_take_value ch)) = ch_waiting_senders ch"
  "ch_reserved_receivers (fst (channel_take_value ch)) = ch_reserved_receivers ch"
  "ch_reserved_senders (fst (channel_take_value ch)) = ch_reserved_senders ch"
  "ch_closed (fst (channel_take_value ch)) = ch_closed ch"
  "ch_deadlock_timer (fst (channel_take_value ch)) = ch_deadlock_timer ch"
  "ch_close_reason (fst (channel_take_value ch)) = ch_close_reason ch"
  "ch_waiters (fst (channel_take_value ch)) = ch_waiters ch"
  "ch_next_waiter (fst (channel_take_value ch)) = ch_next_waiter ch"
  "ch_parked_receivers (fst (channel_take_value ch)) = ch_parked_receivers ch"
  "ch_parked_senders (fst (channel_take_value ch)) = ch_parked_senders ch"
  "ch_log (fst (channel_take_value ch)) = ch_log ch"
  "channel_is_buffered (fst (channel_take_value ch)) = channel_is_buffered ch"
  "slots (fst (channel_take_value ch)) = slots ch"
  by (simp_all add: channel_take_value_def slots_def channel_is_buffered_def split: prod.split)

lemma take_value_spec:
  assumes "storage_ok ch" and "0 < cnt ch"
  shows "storage_ok (fst (channel_take_value ch)) \<and> snd (channel_take_value ch) \<noteq> None \<and>
    channel_contents ch = the (snd (channel_take_value ch)) # channel_contents (fst (channel_take_value ch)) \<and>
    \<not> ch_rendezvous_has_value (fst (channel_take_value ch)) \<and>
    \<not> ch_rendezvous_committed (fst (channel_take_value ch))"
proof (cases "channel_is_buffered ch")
  case True
  obtain b r v where p: "circular_buffer_pop (ch_buffer ch) = (b, r, v)" by (metis prod_cases3)
  have wf: "cb_wf (ch_buffer ch)" using assms True by (simp add: storage_ok_def)
  have ne: "cb_items (ch_buffer ch) \<noteq> []"
    using assms(2) cnt_contents [OF assms(1)] True
    by (auto simp: channel_contents_def simp del: length_cb_items)
  have keep: "cb_capacity b = cb_capacity (ch_buffer ch)"
    using p by (auto simp: circular_buffer_pop_def split: if_splits)
  have "cb_wf b \<and> v \<noteq> None \<and> cb_items (ch_buffer ch) = the v # cb_items b"
    using pop_cases [OF wf p] ne by (cases r) auto
  moreover from this have "length (cb_items (ch_buffer ch)) = Suc (length (cb_items b))" by simp
  ultimately show ?thesis using assms True p keep
    by (auto simp: channel_take_value_def storage_ok_def channel_contents_def channel_is_buffered_def)
next
  case False
  with assms show ?thesis
    by (auto simp: channel_take_value_def storage_ok_def channel_contents_def channel_is_buffered_def
        channel_count_def split: if_splits)
qed

lemma take_value_counts:
  assumes "storage_ok ch" and "0 < cnt ch"
  shows "cnt ch = Suc (cnt (fst (channel_take_value ch)))"
    and "room (fst (channel_take_value ch)) = Suc (room ch)"
proof -
  note spec = take_value_spec [OF assms]
  show c: "cnt ch = Suc (cnt (fst (channel_take_value ch)))"
    using spec assms(1) by (simp add: cnt_contents)
  show "room (fst (channel_take_value ch)) = Suc (room ch)"
    using room_slots [of ch] room_slots [of "fst (channel_take_value ch)"] spec assms(1) c by simp
qed

lemma push_frame [simp]:
  "ch_capacity (push_value ch v) = ch_capacity ch"
  "ch_waiting_receivers (push_value ch v) = ch_waiting_receivers ch"
  "ch_waiting_senders (push_value ch v) = ch_waiting_senders ch"
  "ch_reserved_receivers (push_value ch v) = ch_reserved_receivers ch"
  "ch_reserved_senders (push_value ch v) = ch_reserved_senders ch"
  "ch_closed (push_value ch v) = ch_closed ch"
  "ch_deadlock_timer (push_value ch v) = ch_deadlock_timer ch"
  "ch_waiters (push_value ch v) = ch_waiters ch"
  "ch_next_waiter (push_value ch v) = ch_next_waiter ch"
  "ch_parked_receivers (push_value ch v) = ch_parked_receivers ch"
  "ch_parked_senders (push_value ch v) = ch_parked_senders ch"
  "ch_rendezvous_has_value (push_value ch v) = ch_rendezvous_has_value ch"
  "ch_rendezvous_value (push_value ch v) = ch_rendezvous_value ch"
  "ch_rendezvous_committed (push_value ch v) = ch_rendezvous_committed ch"
  "channel_is_buffered (push_value ch v) = channel_is_buffered ch"
  "slots (push_value ch v) = slots ch"
  by (simp_all add: push_value_def slots_def channel_is_buffered_def)

lemma store_frame [simp]:
  "ch_capacity (store_rendezvous ch v) = ch_capacity ch"
  "ch_waiting_receivers (store_rendezvous ch v) = ch_waiting_receivers ch"
  "ch_waiting_senders (store_rendezvous ch v) = ch_waiting_senders ch"
  "ch_reserved_receivers (store_rendezvous ch v) = ch_reserved_receivers ch"
  "ch_reserved_senders (store_rendezvous ch v) = ch_reserved_senders ch"
  "ch_closed (store_rendezvous ch v) = ch_closed ch"
  "ch_deadlock_timer (store_rendezvous ch v) = ch_deadlock_timer ch"
  "ch_waiters (store_rendezvous ch v) = ch_waiters ch"
  "ch_next_waiter (store_rendezvous ch v) = ch_next_waiter ch"
  "ch_parked_receivers (store_rendezvous ch v) = ch_parked_receivers ch"
  "ch_parked_senders (store_rendezvous ch v) = ch_parked_senders ch"
  "ch_rendezvous_has_value (store_rendezvous ch v)"
  "\<not> ch_rendezvous_committed (store_rendezvous ch v)"
  "channel_is_buffered (store_rendezvous ch v) = channel_is_buffered ch"
  "slots (store_rendezvous ch v) = slots ch"
  by (simp_all add: store_rendezvous_def slots_def channel_is_buffered_def)

lemma push_value_spec:
  assumes "storage_ok ch" and "channel_is_buffered ch" and "0 < room ch"
  shows "storage_ok (push_value ch v) \<and> channel_contents (push_value ch v) = channel_contents ch @ [v]"
proof -
  have wf: "cb_wf (ch_buffer ch)" using assms by (simp add: storage_ok_def)
  obtain b r where p: "circular_buffer_push True (ch_buffer ch) v False = (b, r)" by force
  have "Suc (length (cb_items (ch_buffer ch))) \<le> nat (ch_capacity ch)"
    using room_slots [OF assms(1)] cnt_contents [OF assms(1)] assms(2,3)
    by (simp add: slots_def channel_contents_def)
  moreover from this have nf: "\<not> circular_buffer_is_full (ch_buffer ch)"
    using assms(1,2) wf by (simp add: cb_full_iff storage_ok_def)
  moreover have "cb_capacity b = cb_capacity (ch_buffer ch)"
    using p nf by (auto simp: circular_buffer_push_def store_at_head_def)
  moreover have "cb_wf b \<and> cb_items b = cb_items (ch_buffer ch) @ [v]"
    using push_fixed_cases [OF wf p] nf by (cases r) auto
  moreover from this have "length (cb_items b) = Suc (length (cb_items (ch_buffer ch)))" by simp
  ultimately show ?thesis using assms p
    by (auto simp: push_value_def storage_ok_def channel_contents_def channel_is_buffered_def)
qed

lemma store_rendezvous_spec:
  assumes "storage_ok ch" and "\<not> channel_is_buffered ch" and "0 < room ch"
  shows "storage_ok (store_rendezvous ch v) \<and> channel_contents ch = []
    \<and> channel_contents (store_rendezvous ch v) = [v]"
  using assms
  by (auto simp: store_rendezvous_def storage_ok_def channel_contents_def channel_is_buffered_def
      channel_free_space_def split: if_splits)

lemma added_value_counts:
  assumes "storage_ok ch" and "storage_ok ch'" and "slots ch' = slots ch"
    and "channel_contents ch' = channel_contents ch @ [v]"
  shows "cnt ch' = Suc (cnt ch)" and "room ch = Suc (room ch')"
proof -
  show c: "cnt ch' = Suc (cnt ch)" using assms by (simp add: cnt_contents)
  show "room ch = Suc (room ch')"
    using room_slots [OF assms(1)] room_slots [OF assms(2)] assms(3) c by simp
qed

subsection \<open>The invariant\<close>

definition reserve_ok :: "'v channel \<Rightarrow> bool" where
  "reserve_ok ch \<longleftrightarrow>
     ch_reserved_receivers ch = resv (ch_waiters ch) (ch_parked_receivers ch)
     \<and> ch_reserved_senders ch = resv (ch_waiters ch) (ch_parked_senders ch)
     \<and> ch_reserved_receivers ch \<le> cnt ch \<and> ch_reserved_senders ch \<le> room ch"

definition receivers_ok :: "'v channel \<Rightarrow> bool" where
  "receivers_ok ch \<longleftrightarrow> distinct (ch_waiting_receivers ch)
     \<and> (\<forall>w\<in>set (ch_waiting_receivers ch). w < ch_next_waiter ch
          \<and> \<not> w_delivering (ch_waiters ch w) \<and> w \<notin> set (ch_parked_senders ch)
          \<and> (w_future (ch_waiters ch w) = None \<longleftrightarrow> w \<in> set (ch_parked_receivers ch))
          \<and> (w_reserved (ch_waiters ch w) \<longrightarrow> w \<in> set (ch_parked_receivers ch)))"

definition senders_ok :: "'v channel \<Rightarrow> bool" where
  "senders_ok ch \<longleftrightarrow> distinct (ch_waiting_senders ch)
     \<and> (\<forall>w\<in>set (ch_waiting_senders ch). w \<in> set (ch_parked_senders ch))"

definition parked_ok :: "'v channel \<Rightarrow> bool" where
  "parked_ok ch \<longleftrightarrow>
     distinct (ch_parked_receivers ch) \<and> distinct (ch_parked_senders ch)
     \<and> (\<forall>w\<in>set (ch_parked_receivers ch). w < ch_next_waiter ch \<and> w \<notin> set (ch_parked_senders ch)
          \<and> \<not> w_delivering (ch_waiters ch w)
          \<and> (w_reserved (ch_waiters ch w) \<longrightarrow> w \<in> set (ch_waiting_receivers ch)))
     \<and> (\<forall>w\<in>set (ch_parked_senders ch). w < ch_next_waiter ch
          \<and> (w_delivering (ch_waiters ch w) \<longrightarrow> \<not> w_reserved (ch_waiters ch w)))"

definition queue_ok :: "'v channel \<Rightarrow> bool" where
  "queue_ok ch \<longleftrightarrow> receivers_ok ch \<and> senders_ok ch \<and> parked_ok ch"

lemmas queue_defs = queue_ok_def receivers_ok_def senders_ok_def parked_ok_def

definition deliver_weak :: "'v channel \<Rightarrow> bool" where
  "deliver_weak ch \<longleftrightarrow>
     (\<forall>w\<in>set (ch_waiting_senders ch). w_delivering (ch_waiters ch w) \<longrightarrow>
        \<not> channel_is_buffered ch \<and> \<not> ch_rendezvous_committed ch
        \<and> (\<forall>w'\<in>set (ch_waiting_senders ch). w_delivering (ch_waiters ch w') \<longrightarrow> w' = w))"

definition deliver_ok :: "'v channel \<Rightarrow> bool" where
  "deliver_ok ch \<longleftrightarrow> deliver_weak ch \<and>
     (\<forall>w\<in>set (ch_waiting_senders ch). w_delivering (ch_waiters ch w) \<longrightarrow> ch_rendezvous_has_value ch)"

definition closed_ok :: "'v channel \<Rightarrow> bool" where
  "closed_ok ch \<longleftrightarrow> (ch_closed ch \<longrightarrow>
     (\<forall>w\<in>set (ch_waiting_receivers ch). w_reserved (ch_waiters ch w))
     \<and> ch_waiting_senders ch = [] \<and> \<not> ch_deadlock_timer ch
     \<and> (ch_rendezvous_has_value ch \<longrightarrow> ch_rendezvous_committed ch))"

definition recv_bal :: "nat \<Rightarrow> 'v channel \<Rightarrow> bool" where
  "recv_bal k ch \<longleftrightarrow>
     (\<forall>w\<in>set (ch_waiting_receivers ch). w_reserved (ch_waiters ch w))
     \<or> cnt ch \<le> ch_reserved_receivers ch + k"

definition send_bal :: "nat \<Rightarrow> 'v channel \<Rightarrow> bool" where
  "send_bal k ch \<longleftrightarrow>
     (\<forall>w\<in>set (ch_waiting_senders ch). w_reserved (ch_waiters ch w) \<or> w_delivering (ch_waiters ch w))
     \<or> room ch \<le> ch_reserved_senders ch + k"

definition channel_core_ok :: "'v channel \<Rightarrow> bool" where
  "channel_core_ok ch \<longleftrightarrow> storage_ok ch \<and> reserve_ok ch \<and> queue_ok ch \<and> closed_ok ch"

definition channel_inv :: "'v channel \<Rightarrow> bool" where
  "channel_inv ch \<longleftrightarrow> channel_core_ok ch \<and> deliver_ok ch \<and> recv_bal 0 ch \<and> send_bal 0 ch"

lemmas inv_defs = channel_inv_def channel_core_ok_def
lemmas counts_defs = channel_count_def channel_free_space_def channel_is_buffered_def

text \<open>The storage predicates look at the storage fields only.\<close>

lemma storage_cong:
  assumes "ch_capacity ch' = ch_capacity ch" "ch_buffer ch' = ch_buffer ch"
    "ch_rendezvous_value ch' = ch_rendezvous_value ch"
    "ch_rendezvous_has_value ch' = ch_rendezvous_has_value ch"
    "ch_rendezvous_committed ch' = ch_rendezvous_committed ch"
  shows "storage_ok ch' = storage_ok ch" "channel_count ch' = channel_count ch"
    "channel_free_space ch' = channel_free_space ch" "channel_is_buffered ch' = channel_is_buffered ch"
    "channel_contents ch' = channel_contents ch" "slots ch' = slots ch"
  using assms by (simp_all add: storage_ok_def counts_defs channel_contents_def slots_def)

lemma refresh_storage [simp]:
  "storage_ok (channel_refresh_deadlock_timer ch) = storage_ok ch"
  "channel_count (channel_refresh_deadlock_timer ch) = channel_count ch"
  "channel_free_space (channel_refresh_deadlock_timer ch) = channel_free_space ch"
  "channel_is_buffered (channel_refresh_deadlock_timer ch) = channel_is_buffered ch"
  "channel_contents (channel_refresh_deadlock_timer ch) = channel_contents ch"
  by (rule storage_cong; simp)+

lemma refresh_preds [simp]:
  "reserve_ok (channel_refresh_deadlock_timer ch) = reserve_ok ch"
  "queue_ok (channel_refresh_deadlock_timer ch) = queue_ok ch"
  "deliver_weak (channel_refresh_deadlock_timer ch) = deliver_weak ch"
  "deliver_ok (channel_refresh_deadlock_timer ch) = deliver_ok ch"
  "recv_bal k (channel_refresh_deadlock_timer ch) = recv_bal k ch"
  "send_bal k (channel_refresh_deadlock_timer ch) = send_bal k ch"
  by (simp_all add: reserve_ok_def queue_defs deliver_weak_def deliver_ok_def recv_bal_def send_bal_def)

lemma refresh_closed_ok: "closed_ok ch \<Longrightarrow> closed_ok (channel_refresh_deadlock_timer ch)"
  by (simp add: closed_ok_def refresh_closed_no_timer)

lemma refresh_core_ok: "channel_core_ok ch \<Longrightarrow> channel_core_ok (channel_refresh_deadlock_timer ch)"
  by (simp add: channel_core_ok_def refresh_closed_ok)

lemma refresh_inv [step_inv]: "channel_inv ch \<Longrightarrow> channel_inv (channel_refresh_deadlock_timer ch)"
  by (simp add: channel_inv_def refresh_core_ok)

text \<open>Callbacks and the log do not matter to the invariant.\<close>

lemma irrelevant_preds [simp]:
  "storage_ok (ch\<lparr>ch_callbacks := x\<rparr>) = storage_ok ch" "storage_ok (ch\<lparr>ch_log := l\<rparr>) = storage_ok ch"
  "reserve_ok (ch\<lparr>ch_callbacks := x\<rparr>) = reserve_ok ch" "reserve_ok (ch\<lparr>ch_log := l\<rparr>) = reserve_ok ch"
  "queue_ok (ch\<lparr>ch_callbacks := x\<rparr>) = queue_ok ch" "queue_ok (ch\<lparr>ch_log := l\<rparr>) = queue_ok ch"
  "closed_ok (ch\<lparr>ch_callbacks := x\<rparr>) = closed_ok ch" "closed_ok (ch\<lparr>ch_log := l\<rparr>) = closed_ok ch"
  "deliver_weak (ch\<lparr>ch_callbacks := x\<rparr>) = deliver_weak ch" "deliver_weak (ch\<lparr>ch_log := l\<rparr>) = deliver_weak ch"
  "deliver_ok (ch\<lparr>ch_callbacks := x\<rparr>) = deliver_ok ch" "deliver_ok (ch\<lparr>ch_log := l\<rparr>) = deliver_ok ch"
  "recv_bal k (ch\<lparr>ch_callbacks := x\<rparr>) = recv_bal k ch" "recv_bal k (ch\<lparr>ch_log := l\<rparr>) = recv_bal k ch"
  "send_bal k (ch\<lparr>ch_callbacks := x\<rparr>) = send_bal k ch" "send_bal k (ch\<lparr>ch_log := l\<rparr>) = send_bal k ch"
  "channel_contents (ch\<lparr>ch_callbacks := x\<rparr>) = channel_contents ch"
  "channel_contents (ch\<lparr>ch_log := l\<rparr>) = channel_contents ch"
  by (simp_all add: storage_ok_def reserve_ok_def queue_defs closed_ok_def deliver_weak_def
      deliver_ok_def recv_bal_def send_bal_def counts_defs channel_contents_def)

lemma irrelevant_core [simp]:
  "channel_core_ok (ch\<lparr>ch_callbacks := x\<rparr>) = channel_core_ok ch"
  "channel_core_ok (ch\<lparr>ch_log := l\<rparr>) = channel_core_ok ch"
  "channel_inv (ch\<lparr>ch_callbacks := x\<rparr>) = channel_inv ch"
  "channel_inv (ch\<lparr>ch_log := l\<rparr>) = channel_inv ch"
  by (simp_all add: inv_defs)

lemma del_frame:
  "channel_core_ok (channel_del_callback ch w) = channel_core_ok ch"
  "deliver_ok (channel_del_callback ch w) = deliver_ok ch"
  "deliver_weak (channel_del_callback ch w) = deliver_weak ch"
  "recv_bal k (channel_del_callback ch w) = recv_bal k ch"
  "send_bal k (channel_del_callback ch w) = send_bal k ch"
  "channel_contents (channel_del_callback ch w) = channel_contents ch"
  "channel_has_free_slot (channel_del_callback ch w) = channel_has_free_slot ch"
  "channel_has_free_value (channel_del_callback ch w) = channel_has_free_value ch"
  "ch_waiting_senders (channel_del_callback ch w) = ch_waiting_senders ch"
  "ch_waiting_receivers (channel_del_callback ch w) = ch_waiting_receivers ch"
  "ch_parked_senders (channel_del_callback ch w) = ch_parked_senders ch"
  "ch_parked_receivers (channel_del_callback ch w) = ch_parked_receivers ch"
  "ch_waiters (channel_del_callback ch w) = ch_waiters ch"
  "ch_closed (channel_del_callback ch w) = ch_closed ch"
  "ch_log (channel_del_callback ch w) = ch_log ch"
  "channel_count (channel_del_callback ch w) = channel_count ch"
  "channel_free_space (channel_del_callback ch w) = channel_free_space ch"
  "channel_is_buffered (channel_del_callback ch w) = channel_is_buffered ch"
  "ch_reserved_receivers (channel_del_callback ch w) = ch_reserved_receivers ch"
  "ch_reserved_senders (channel_del_callback ch w) = ch_reserved_senders ch"
  by (simp_all add: channel_del_callback_def channel_has_free_slot_def channel_has_free_value_def counts_defs)

subsection \<open>Waking a sender\<close>

lemma queue_ok_drop_sender:
  assumes "queue_ok ch"
  shows "queue_ok (ch\<lparr>ch_waiting_senders := remove1 w (ch_waiting_senders ch)\<rparr>)"
proof -
  have "senders_ok (ch\<lparr>ch_waiting_senders := remove1 w (ch_waiting_senders ch)\<rparr>)"
    using assms by (simp add: queue_ok_def senders_ok_def)
  with assms show ?thesis by (simp add: queue_ok_def receivers_ok_def parked_ok_def)
qed

lemma wake_delivered_sender_ok:
  assumes "channel_core_ok ch" and "deliver_weak ch"
  shows "channel_core_ok (channel_wake_delivered_sender ch) \<and> deliver_ok (channel_wake_delivered_sender ch)
    \<and> (recv_bal k ch \<longrightarrow> recv_bal k (channel_wake_delivered_sender ch))
    \<and> (send_bal k' ch \<longrightarrow> send_bal k' (channel_wake_delivered_sender ch))
    \<and> channel_contents (channel_wake_delivered_sender ch) = channel_contents ch
    \<and> ch_closed (channel_wake_delivered_sender ch) = ch_closed ch"
proof (cases "channel_is_buffered ch \<or> ch_rendezvous_has_value ch")
  case True
  then have "channel_wake_delivered_sender ch = ch" by (simp add: channel_wake_delivered_sender_def)
  with True assms show ?thesis by (auto simp: deliver_ok_def deliver_weak_def)
next
  case False
  show ?thesis
  proof (cases "channel_queue_delivering (ch_waiters ch) (ch_waiting_senders ch)")
    case None
    with False have "channel_wake_delivered_sender ch = ch" by (simp add: channel_wake_delivered_sender_def)
    with None assms show ?thesis by (auto simp: deliver_ok_def queue_delivering_None)
  next
    case (Some w)
    let ?ch = "ch\<lparr>ch_waiting_senders := remove1 w (ch_waiting_senders ch)\<rparr>"
    have w: "w \<in> set (ch_waiting_senders ch)" "w_delivering (ch_waiters ch w)"
      using queue_delivering_Some [OF Some] by auto
    have eq: "channel_wake_delivered_sender ch = channel_refresh_deadlock_timer
        (log_effect (Resumed w) (channel_del_callback ?ch w))"
      using False Some by (simp add: channel_wake_delivered_sender_def channel_queue_remove_eq Let_def)
    have d: "distinct (ch_waiting_senders ch)" using assms(1) by (simp add: channel_core_ok_def queue_ok_def senders_ok_def)
    have st: "storage_ok ?ch = storage_ok ch" "channel_count ?ch = channel_count ch"
      "channel_free_space ?ch = channel_free_space ch" "channel_is_buffered ?ch = channel_is_buffered ch"
      "channel_contents ?ch = channel_contents ch"
      by (rule storage_cong; simp)+
    have "reserve_ok ?ch" using assms(1) by (simp add: channel_core_ok_def reserve_ok_def st)
    moreover have "closed_ok ?ch" using assms(1) by (simp add: channel_core_ok_def closed_ok_def)
    ultimately have core: "channel_core_ok ?ch"
      using assms(1) queue_ok_drop_sender [of ch w] by (simp add: channel_core_ok_def st)
    have del: "deliver_ok ?ch"
      using assms(2) w d by (auto simp: deliver_ok_def deliver_weak_def st)
    have bal: "recv_bal k ch \<longrightarrow> recv_bal k ?ch" "send_bal k' ch \<longrightarrow> send_bal k' ?ch"
      using w d by (auto simp: recv_bal_def send_bal_def st)
    show ?thesis
      using refresh_core_ok [of "log_effect (Resumed w) (channel_del_callback ?ch w)"] core del bal st
      by (simp add: eq channel_del_callback_def)
  qed
qed

lemma set_reserved_frame [simp]:
  "ch_waiters (set_reserved ch w) = (ch_waiters ch)(w := (ch_waiters ch w)\<lparr>w_reserved := True\<rparr>)"
  "ch_waiting_receivers (set_reserved ch w) = ch_waiting_receivers ch"
  "ch_waiting_senders (set_reserved ch w) = ch_waiting_senders ch"
  "ch_reserved_receivers (set_reserved ch w) = ch_reserved_receivers ch"
  "ch_reserved_senders (set_reserved ch w) = ch_reserved_senders ch"
  "ch_parked_receivers (set_reserved ch w) = ch_parked_receivers ch"
  "ch_parked_senders (set_reserved ch w) = ch_parked_senders ch"
  "ch_next_waiter (set_reserved ch w) = ch_next_waiter ch"
  "ch_closed (set_reserved ch w) = ch_closed ch"
  "ch_log (set_reserved ch w) = ch_log ch"
  "ch_close_reason (set_reserved ch w) = ch_close_reason ch"
  "ch_deadlock_timer (set_reserved ch w) = ch_deadlock_timer ch"
  "ch_rendezvous_has_value (set_reserved ch w) = ch_rendezvous_has_value ch"
  "ch_rendezvous_committed (set_reserved ch w) = ch_rendezvous_committed ch"
  by (simp_all add: set_reserved_def)

lemma set_reserved_storage [simp]:
  "storage_ok (set_reserved ch w) = storage_ok ch" "channel_count (set_reserved ch w) = channel_count ch"
  "channel_free_space (set_reserved ch w) = channel_free_space ch"
  "channel_is_buffered (set_reserved ch w) = channel_is_buffered ch"
  "channel_contents (set_reserved ch w) = channel_contents ch"
  by (rule storage_cong; simp add: set_reserved_def)+

lemma counter_storage [simp]:
  "storage_ok (ch\<lparr>ch_reserved_senders := n\<rparr>) = storage_ok ch"
  "channel_count (ch\<lparr>ch_reserved_senders := n\<rparr>) = channel_count ch"
  "channel_free_space (ch\<lparr>ch_reserved_senders := n\<rparr>) = channel_free_space ch"
  "channel_is_buffered (ch\<lparr>ch_reserved_senders := n\<rparr>) = channel_is_buffered ch"
  "channel_contents (ch\<lparr>ch_reserved_senders := n\<rparr>) = channel_contents ch"
  "storage_ok (ch\<lparr>ch_reserved_receivers := n\<rparr>) = storage_ok ch"
  "channel_count (ch\<lparr>ch_reserved_receivers := n\<rparr>) = channel_count ch"
  "channel_free_space (ch\<lparr>ch_reserved_receivers := n\<rparr>) = channel_free_space ch"
  "channel_is_buffered (ch\<lparr>ch_reserved_receivers := n\<rparr>) = channel_is_buffered ch"
  "channel_contents (ch\<lparr>ch_reserved_receivers := n\<rparr>) = channel_contents ch"
  by (rule storage_cong; simp)+

lemma set_reserved_preds:
  assumes "queue_ok ch" and "\<not> w_delivering (ch_waiters ch w)"
    and "w \<in> set (ch_waiting_senders ch) \<or> w \<in> set (ch_waiting_receivers ch) \<and> w_future (ch_waiters ch w) = None"
  shows "queue_ok (set_reserved ch w)" "deliver_ok (set_reserved ch w) = deliver_ok ch"
    "closed_ok ch \<Longrightarrow> closed_ok (set_reserved ch w)"
proof -
  have h1: "w \<in> set (ch_waiting_receivers ch) \<longrightarrow> w \<in> set (ch_parked_receivers ch)"
    and h2: "w \<in> set (ch_parked_receivers ch) \<longrightarrow> w \<in> set (ch_waiting_receivers ch)"
    using assms(1,3) unfolding queue_defs by blast+
  have "receivers_ok ch" "parked_ok ch" using assms(1) by (simp_all add: queue_ok_def)
  then have "receivers_ok (set_reserved ch w)"
    using h1 by (simp add: receivers_ok_def)
  moreover have "parked_ok (set_reserved ch w)"
    using \<open>parked_ok ch\<close> h2 assms(2) by (simp add: parked_ok_def)
  ultimately show "queue_ok (set_reserved ch w)"
    using assms(1) by (simp add: queue_ok_def senders_ok_def)
  have "w_delivering (((ch_waiters ch)(w := (ch_waiters ch w)\<lparr>w_reserved := True\<rparr>)) x) = w_delivering (ch_waiters ch x)" for x
    by simp
  then show "deliver_ok (set_reserved ch w) = deliver_ok ch"
    unfolding deliver_ok_def deliver_weak_def set_reserved_frame set_reserved_storage by presburger
  show "closed_ok (set_reserved ch w)" if "closed_ok ch"
    using that by (auto simp: closed_ok_def)
qed

definition grant_sender :: "'v channel \<Rightarrow> nat \<Rightarrow> 'v channel" where
  "grant_sender ch w = (set_reserved ch w)\<lparr>ch_reserved_senders := ch_reserved_senders ch + 1\<rparr>"

definition grant_receiver :: "'v channel \<Rightarrow> nat \<Rightarrow> 'v channel" where
  "grant_receiver ch w = (set_reserved ch w)\<lparr>ch_reserved_receivers := ch_reserved_receivers ch + 1\<rparr>"

lemma counter_preds [simp]:
  "queue_ok (ch\<lparr>ch_reserved_senders := n\<rparr>) = queue_ok ch" "closed_ok (ch\<lparr>ch_reserved_senders := n\<rparr>) = closed_ok ch"
  "deliver_ok (ch\<lparr>ch_reserved_senders := n\<rparr>) = deliver_ok ch" "recv_bal k (ch\<lparr>ch_reserved_senders := n\<rparr>) = recv_bal k ch"
  "queue_ok (ch\<lparr>ch_reserved_receivers := n\<rparr>) = queue_ok ch" "closed_ok (ch\<lparr>ch_reserved_receivers := n\<rparr>) = closed_ok ch"
  "deliver_ok (ch\<lparr>ch_reserved_receivers := n\<rparr>) = deliver_ok ch" "send_bal k (ch\<lparr>ch_reserved_receivers := n\<rparr>) = send_bal k ch"
  by (simp_all add: queue_defs closed_ok_def deliver_ok_def deliver_weak_def recv_bal_def send_bal_def)

lemma grant_sender_ok:
  assumes "channel_core_ok ch" and w: "w \<in> set (ch_waiting_senders ch)"
    "\<not> w_reserved (ch_waiters ch w)" "\<not> w_delivering (ch_waiters ch w)"
    and "channel_has_free_slot ch"
  shows "channel_core_ok (grant_sender ch w) \<and> deliver_ok (grant_sender ch w) = deliver_ok ch
    \<and> (recv_bal k ch \<longrightarrow> recv_bal k (grant_sender ch w))
    \<and> (send_bal (Suc k') ch \<longrightarrow> send_bal k' (grant_sender ch w))
    \<and> channel_contents (grant_sender ch w) = channel_contents ch"
proof -
  have q: "queue_ok ch" using assms(1) by (simp add: channel_core_ok_def)
  have p: "w \<in> set (ch_parked_senders ch)" "distinct (ch_parked_senders ch)"
      "w \<notin> set (ch_parked_receivers ch)" "w \<notin> set (ch_waiting_receivers ch)"
    using q w(1) by (auto simp: queue_defs)
  have "reserve_ok (grant_sender ch w)"
    using assms(1,5) resv_set_reserved [OF p(2,1), of "ch_waiters ch"] w(2) resv_fresh [OF p(3)]
    by (simp add: channel_core_ok_def reserve_ok_def grant_sender_def channel_has_free_slot_def)
  moreover have "recv_bal k ch \<longrightarrow> recv_bal k (grant_sender ch w)"
    by (auto simp: recv_bal_def grant_sender_def)
  moreover have "send_bal (Suc k') ch \<longrightarrow> send_bal k' (grant_sender ch w)"
    using w by (auto simp: send_bal_def grant_sender_def)
  ultimately show ?thesis
    using assms(1) set_reserved_preds [OF q w(3)] w(1)
    by (simp add: channel_core_ok_def grant_sender_def)
qed

lemma grant_receiver_ok:
  assumes "channel_core_ok ch" and w: "w \<in> set (ch_waiting_receivers ch)"
    "\<not> w_reserved (ch_waiters ch w)" "w_future (ch_waiters ch w) = None"
    and "channel_has_free_value ch"
  shows "channel_core_ok (grant_receiver ch w) \<and> deliver_ok (grant_receiver ch w) = deliver_ok ch
    \<and> (recv_bal (Suc k) ch \<longrightarrow> recv_bal k (grant_receiver ch w))
    \<and> (send_bal k' ch \<longrightarrow> send_bal k' (grant_receiver ch w))
    \<and> channel_contents (grant_receiver ch w) = channel_contents ch"
proof -
  have q: "queue_ok ch" using assms(1) by (simp add: channel_core_ok_def)
  have p: "w \<in> set (ch_parked_receivers ch)" "distinct (ch_parked_receivers ch)"
      "w \<notin> set (ch_parked_senders ch)" "w \<notin> set (ch_waiting_senders ch)" "\<not> w_delivering (ch_waiters ch w)"
    using q w(1,3) by (auto simp: queue_defs)
  have "reserve_ok (grant_receiver ch w)"
    using assms(1,5) resv_set_reserved [OF p(2,1), of "ch_waiters ch"] w(2) resv_fresh [OF p(3)]
    by (simp add: channel_core_ok_def reserve_ok_def grant_receiver_def channel_has_free_value_def)
  moreover have "send_bal k' ch \<longrightarrow> send_bal k' (grant_receiver ch w)"
    by (auto simp: send_bal_def grant_receiver_def)
  moreover have "recv_bal (Suc k) ch \<longrightarrow> recv_bal k (grant_receiver ch w)"
    using w by (auto simp: recv_bal_def grant_receiver_def)
  ultimately show ?thesis
    using assms(1) set_reserved_preds [OF q p(5)] w(1,3)
    by (simp add: channel_core_ok_def grant_receiver_def)
qed

lemma wake_sender_ok:
  assumes "channel_core_ok ch" and "deliver_weak ch" and "send_bal (Suc k') ch"
  shows "channel_core_ok (channel_wake_sender ch) \<and> deliver_ok (channel_wake_sender ch)
    \<and> (recv_bal k ch \<longrightarrow> recv_bal k (channel_wake_sender ch)) \<and> send_bal k' (channel_wake_sender ch)
    \<and> channel_contents (channel_wake_sender ch) = channel_contents ch"
proof -
  let ?c = "channel_wake_delivered_sender ch"
  note wd = wake_delivered_sender_ok [OF assms(1,2), of k "Suc k'"]
  have c: "channel_core_ok ?c" "deliver_ok ?c" "recv_bal k ch \<longrightarrow> recv_bal k ?c" "send_bal (Suc k') ?c"
      "channel_contents ?c = channel_contents ch"
    using wd assms(3) by blast+
  consider (none) "\<not> channel_has_free_slot ?c"
    | (empty) "channel_has_free_slot ?c" "channel_queue_first_unreserved (ch_waiters ?c) (ch_waiting_senders ?c) = None"
    | (some) w where "channel_has_free_slot ?c"
        "channel_queue_first_unreserved (ch_waiters ?c) (ch_waiting_senders ?c) = Some w"
    by blast
  then show ?thesis
  proof cases
    case none
    then have eq: "channel_wake_sender ch = ?c" by (simp add: channel_wake_sender_def Let_def)
    have "send_bal k' ?c" using none by (auto simp: send_bal_def channel_has_free_slot_def)
    with eq c show ?thesis by simp
  next
    case empty
    then have eq: "channel_wake_sender ch = ?c" by (simp add: channel_wake_sender_def Let_def)
    have "send_bal k' ?c" using empty by (auto simp: send_bal_def first_unreserved_None)
    with eq c show ?thesis by simp
  next
    case some
    have w: "w \<in> set (ch_waiting_senders ?c)" "\<not> w_reserved (ch_waiters ?c w)" "\<not> w_delivering (ch_waiters ?c w)"
      using first_unreserved_Some [OF some(2)] by auto
    let ?d = "channel_del_callback ?c w"
    have eq: "channel_wake_sender ch = channel_refresh_deadlock_timer (log_effect (Resumed w) (grant_sender ?d w))"
      using some by (simp add: channel_wake_sender_def Let_def grant_sender_def)
    have "channel_core_ok ?d" "w \<in> set (ch_waiting_senders ?d)" "\<not> w_reserved (ch_waiters ?d w)"
        "\<not> w_delivering (ch_waiters ?d w)" "channel_has_free_slot ?d"
      using c(1) w some(1) by (simp_all add: del_frame)
    from grant_sender_ok [OF this, of k k'] show ?thesis
      using c refresh_core_ok [of "log_effect (Resumed w) (grant_sender ?d w)"]
      by (simp add: eq del_frame)
  qed
qed

subsection \<open>Taking a value and waking a receiver\<close>

lemma bal_mono:
  "recv_bal k ch \<Longrightarrow> k \<le> k' \<Longrightarrow> recv_bal k' ch" "send_bal k ch \<Longrightarrow> k \<le> k' \<Longrightarrow> send_bal k' ch"
  by (auto simp: recv_bal_def send_bal_def)

lemma take_ok:
  assumes "channel_core_ok ch" and "deliver_ok ch" and "ch_reserved_receivers ch < cnt ch"
  defines "ch' \<equiv> fst (channel_take_value ch)"
  shows "channel_core_ok ch' \<and> deliver_weak ch' \<and> (recv_bal (Suc k) ch \<longrightarrow> recv_bal k ch')
    \<and> (send_bal k' ch \<longrightarrow> send_bal (Suc k') ch')
    \<and> channel_contents ch = the (snd (channel_take_value ch)) # channel_contents ch'
    \<and> snd (channel_take_value ch) \<noteq> None"
proof -
  have st: "storage_ok ch" "0 < cnt ch" using assms by (auto simp: channel_core_ok_def)
  note spec = take_value_spec [OF st] and counts = take_value_counts [OF st]
  have "queue_ok ch'" using assms(1) by (simp add: ch'_def channel_core_ok_def queue_defs)
  moreover have "reserve_ok ch'"
    using assms(1,3) counts by (simp add: ch'_def channel_core_ok_def reserve_ok_def)
  moreover have "closed_ok ch'" using assms(1) spec by (simp add: ch'_def channel_core_ok_def closed_ok_def)
  moreover have "deliver_weak ch'"
    using assms(2) spec by (simp add: ch'_def deliver_ok_def deliver_weak_def)
  moreover have "recv_bal (Suc k) ch \<longrightarrow> recv_bal k ch'"
    using counts by (auto simp: ch'_def recv_bal_def)
  moreover have "send_bal k' ch \<longrightarrow> send_bal (Suc k') ch'"
    using counts by (auto simp: ch'_def send_bal_def)
  ultimately show ?thesis using spec by (simp add: ch'_def channel_core_ok_def)
qed

text \<open>The body shared by \<open>recv\<close>, \<open>recvAsync\<close> and the iterator.\<close>

lemma take_and_wake_ok:
  assumes "channel_core_ok ch" and "deliver_ok ch" and "ch_reserved_receivers ch < cnt ch"
    and "recv_bal (Suc k) ch" and "send_bal 0 ch"
  defines "ch' \<equiv> channel_wake_sender (fst (channel_take_value ch))"
  shows "channel_core_ok ch' \<and> deliver_ok ch' \<and> recv_bal k ch' \<and> send_bal 0 ch'
    \<and> channel_contents ch = the (snd (channel_take_value ch)) # channel_contents ch'
    \<and> snd (channel_take_value ch) \<noteq> None"
proof -
  note t = take_ok [OF assms(1,2,3), of k 0]
  show ?thesis
    using t assms(4,5) wake_sender_ok [of "fst (channel_take_value ch)" 0 k] by (simp add: ch'_def)
qed

definition drop_receiver :: "'v channel \<Rightarrow> nat \<Rightarrow> 'v channel" where
  "drop_receiver ch w = ch\<lparr>ch_waiting_receivers := remove1 w (ch_waiting_receivers ch)\<rparr>"

lemma drop_receiver_storage [simp]:
  "storage_ok (drop_receiver ch w) = storage_ok ch" "channel_count (drop_receiver ch w) = channel_count ch"
  "channel_free_space (drop_receiver ch w) = channel_free_space ch"
  "channel_is_buffered (drop_receiver ch w) = channel_is_buffered ch"
  "channel_contents (drop_receiver ch w) = channel_contents ch"
  by (rule storage_cong; simp add: drop_receiver_def)+

lemma drop_receiver_ok:
  assumes "channel_core_ok ch" and "w \<notin> set (ch_parked_receivers ch)"
  shows "channel_core_ok (drop_receiver ch w)" "deliver_ok (drop_receiver ch w) = deliver_ok ch"
    "deliver_weak (drop_receiver ch w) = deliver_weak ch"
    "recv_bal k ch \<Longrightarrow> recv_bal k (drop_receiver ch w)" "send_bal k' (drop_receiver ch w) = send_bal k' ch"
proof -
  have r: "receivers_ok ch" "parked_ok ch" "senders_ok ch"
    using assms(1) by (simp_all add: channel_core_ok_def queue_ok_def)
  then have "receivers_ok (drop_receiver ch w)" by (simp add: receivers_ok_def drop_receiver_def)
  moreover have "parked_ok (drop_receiver ch w)"
    using r(1,2) assms(2) by (auto simp: parked_ok_def receivers_ok_def drop_receiver_def)
  moreover have "reserve_ok (drop_receiver ch w)"
    using assms(1) by (simp add: channel_core_ok_def reserve_ok_def) (simp add: drop_receiver_def)
  moreover have "closed_ok (drop_receiver ch w)"
    using assms(1) r(1) by (simp add: channel_core_ok_def closed_ok_def drop_receiver_def receivers_ok_def)
  moreover have "senders_ok (drop_receiver ch w)" using r(3) by (simp add: senders_ok_def drop_receiver_def)
  ultimately show "channel_core_ok (drop_receiver ch w)"
    using assms(1) by (simp add: channel_core_ok_def queue_ok_def)
  show "deliver_ok (drop_receiver ch w) = deliver_ok ch" "deliver_weak (drop_receiver ch w) = deliver_weak ch"
    by (simp_all add: deliver_ok_def deliver_weak_def) (simp_all add: drop_receiver_def)
  show "recv_bal k ch \<Longrightarrow> recv_bal k (drop_receiver ch w)"
    using set_remove1_subset [of w "ch_waiting_receivers ch"]
    by (auto simp: recv_bal_def) (auto simp: drop_receiver_def)
  show "send_bal k' (drop_receiver ch w) = send_bal k' ch"
    by (simp add: send_bal_def) (simp add: drop_receiver_def)
qed

lemma wake_receiver_ok:
  assumes "channel_core_ok ch" and "deliver_ok ch" and "recv_bal (Suc k) ch" and "send_bal 0 ch"
    and res: "channel_wake_receiver ch = (ch', served)"
  shows "channel_core_ok ch' \<and> deliver_ok ch' \<and> recv_bal k ch' \<and> send_bal 0 ch' \<and> (\<not> served \<longrightarrow> ch' = ch)"
proof -
  consider (none) "\<not> channel_has_free_value ch"
    | (empty) "channel_has_free_value ch" "channel_queue_first_unreserved (ch_waiters ch) (ch_waiting_receivers ch) = None"
    | (future) w f where "channel_has_free_value ch" "w_future (ch_waiters ch w) = Some f"
        "channel_queue_first_unreserved (ch_waiters ch) (ch_waiting_receivers ch) = Some w"
    | (coroutine) w where "channel_has_free_value ch" "w_future (ch_waiters ch w) = None"
        "channel_queue_first_unreserved (ch_waiters ch) (ch_waiting_receivers ch) = Some w"
    by (metis not_None_eq)
  then show ?thesis
  proof cases
    case none
    with res have "ch' = ch" "\<not> served" by (simp_all add: channel_wake_receiver_def)
    with none assms show ?thesis by (auto simp: recv_bal_def channel_has_free_value_def)
  next
    case empty
    with res have "ch' = ch" "\<not> served" by (simp_all add: channel_wake_receiver_def)
    moreover have "\<forall>w\<in>set (ch_waiting_receivers ch). \<not> w_delivering (ch_waiters ch w)"
      using assms(1) by (simp add: channel_core_ok_def queue_defs)
    ultimately show ?thesis using empty assms by (auto simp: recv_bal_def first_unreserved_None)
  next
    case future
    let ?d = "channel_del_callback (drop_receiver ch w) w"
    have w: "w \<in> set (ch_waiting_receivers ch)" using first_unreserved_Some [OF future(3)] by simp
    then have np: "w \<notin> set (ch_parked_receivers ch)"
      using assms(1) future(2) by (auto simp: channel_core_ok_def queue_defs)
    note d = drop_receiver_ok [OF assms(1) np]
    have eq: "ch' = channel_refresh_deadlock_timer (channel_wake_sender
        (log_effect (Future_Completed f (snd (channel_take_value ?d))) (fst (channel_take_value ?d))))" "served"
      using res future
      by (auto simp: channel_wake_receiver_def channel_queue_remove_eq drop_receiver_def case_prod_unfold Let_def
          simp del: take_frame)
    have "channel_core_ok ?d" "deliver_ok ?d" "ch_reserved_receivers ?d < cnt ?d"
        "recv_bal (Suc k) ?d" "send_bal 0 ?d"
      using d assms future(1)
      by (simp_all add: del_frame channel_has_free_value_def) (simp add: drop_receiver_def)
    with take_ok [of ?d k 0] have "channel_core_ok (fst (channel_take_value ?d))"
        "deliver_weak (fst (channel_take_value ?d))" "recv_bal k (fst (channel_take_value ?d))"
        "send_bal (Suc 0) (fst (channel_take_value ?d))" by auto
    then show ?thesis
      using wake_sender_ok [of "log_effect (Future_Completed f (snd (channel_take_value ?d))) (fst (channel_take_value ?d))" 0 k]
      by (simp add: eq refresh_core_ok)
  next
    case coroutine
    let ?d = "channel_del_callback ch w"
    have eq: "ch' = channel_refresh_deadlock_timer (log_effect (Resumed w) (grant_receiver ?d w))" "served"
      using res coroutine by (simp_all add: channel_wake_receiver_def Let_def grant_receiver_def)
    have "channel_core_ok ?d" "w \<in> set (ch_waiting_receivers ?d)" "\<not> w_reserved (ch_waiters ?d w)"
        "w_future (ch_waiters ?d w) = None" "channel_has_free_value ?d"
      using assms(1) first_unreserved_Some [OF coroutine(3)] coroutine by (simp_all add: del_frame)
    from grant_receiver_ok [OF this, of k 0] show ?thesis
      using assms by (simp add: eq del_frame refresh_core_ok)
  qed
qed

end
