(* ===== verification/Channel_Steps.thy ===== *)
theory Channel_Steps
  imports Channel_Invariant
begin

text \<open>
  Every channel operation preserves the invariant: the step relation of a channel used by
  any number of coroutines, its reachable states, and what holds in all of them.
\<close>

definition commit_ok :: "'v channel \<Rightarrow> bool" where
  "commit_ok ch \<longleftrightarrow> (\<not> channel_is_buffered ch \<longrightarrow> 0 < ch_reserved_receivers ch \<longrightarrow> ch_rendezvous_committed ch)"

definition channel_wf :: "'v channel \<Rightarrow> bool" where
  "channel_wf ch \<longleftrightarrow> channel_inv ch \<and> commit_ok ch"

lemmas wf_defs = channel_wf_def channel_inv_def

lemma channel_wfI:
  "channel_core_ok ch \<Longrightarrow> deliver_ok ch \<Longrightarrow> recv_bal 0 ch \<Longrightarrow> send_bal 0 ch \<Longrightarrow> commit_ok ch \<Longrightarrow> channel_wf ch"
  by (simp add: wf_defs)

lemma channel_wfD:
  assumes "channel_wf ch"
  shows "channel_core_ok ch" "deliver_ok ch" "recv_bal 0 ch" "send_bal 0 ch" "commit_ok ch"
    "storage_ok ch" "reserve_ok ch" "queue_ok ch" "closed_ok ch"
  using assms by (simp_all add: wf_defs channel_core_ok_def)

lemma commit_frame [simp]:
  "commit_ok (channel_refresh_deadlock_timer ch) = commit_ok ch"
  "commit_ok (ch\<lparr>ch_callbacks := x\<rparr>) = commit_ok ch" "commit_ok (ch\<lparr>ch_log := l\<rparr>) = commit_ok ch"
  by (simp_all add: commit_ok_def channel_is_buffered_def)

subsection \<open>What waking changes\<close>

lemma update_storage [simp]:
  fixes ch :: "'v channel"
  shows
  "storage_ok (ch\<lparr>ch_next_waiter := x0\<rparr>) = storage_ok ch" "channel_count (ch\<lparr>ch_next_waiter := x0\<rparr>) = channel_count ch"
  "channel_free_space (ch\<lparr>ch_next_waiter := x0\<rparr>) = channel_free_space ch" "channel_is_buffered (ch\<lparr>ch_next_waiter := x0\<rparr>) = channel_is_buffered ch"
  "channel_contents (ch\<lparr>ch_next_waiter := x0\<rparr>) = channel_contents ch"
  "storage_ok (ch\<lparr>ch_waiters := x1\<rparr>) = storage_ok ch" "channel_count (ch\<lparr>ch_waiters := x1\<rparr>) = channel_count ch"
  "channel_free_space (ch\<lparr>ch_waiters := x1\<rparr>) = channel_free_space ch" "channel_is_buffered (ch\<lparr>ch_waiters := x1\<rparr>) = channel_is_buffered ch"
  "channel_contents (ch\<lparr>ch_waiters := x1\<rparr>) = channel_contents ch"
  "storage_ok (ch\<lparr>ch_waiting_receivers := x2\<rparr>) = storage_ok ch" "channel_count (ch\<lparr>ch_waiting_receivers := x2\<rparr>) = channel_count ch"
  "channel_free_space (ch\<lparr>ch_waiting_receivers := x2\<rparr>) = channel_free_space ch" "channel_is_buffered (ch\<lparr>ch_waiting_receivers := x2\<rparr>) = channel_is_buffered ch"
  "channel_contents (ch\<lparr>ch_waiting_receivers := x2\<rparr>) = channel_contents ch"
  "storage_ok (ch\<lparr>ch_waiting_senders := x3\<rparr>) = storage_ok ch" "channel_count (ch\<lparr>ch_waiting_senders := x3\<rparr>) = channel_count ch"
  "channel_free_space (ch\<lparr>ch_waiting_senders := x3\<rparr>) = channel_free_space ch" "channel_is_buffered (ch\<lparr>ch_waiting_senders := x3\<rparr>) = channel_is_buffered ch"
  "channel_contents (ch\<lparr>ch_waiting_senders := x3\<rparr>) = channel_contents ch"
  "storage_ok (ch\<lparr>ch_parked_receivers := x4\<rparr>) = storage_ok ch" "channel_count (ch\<lparr>ch_parked_receivers := x4\<rparr>) = channel_count ch"
  "channel_free_space (ch\<lparr>ch_parked_receivers := x4\<rparr>) = channel_free_space ch" "channel_is_buffered (ch\<lparr>ch_parked_receivers := x4\<rparr>) = channel_is_buffered ch"
  "channel_contents (ch\<lparr>ch_parked_receivers := x4\<rparr>) = channel_contents ch"
  "storage_ok (ch\<lparr>ch_parked_senders := x5\<rparr>) = storage_ok ch" "channel_count (ch\<lparr>ch_parked_senders := x5\<rparr>) = channel_count ch"
  "channel_free_space (ch\<lparr>ch_parked_senders := x5\<rparr>) = channel_free_space ch" "channel_is_buffered (ch\<lparr>ch_parked_senders := x5\<rparr>) = channel_is_buffered ch"
  "channel_contents (ch\<lparr>ch_parked_senders := x5\<rparr>) = channel_contents ch"
  "storage_ok (ch\<lparr>ch_close_reason := x6\<rparr>) = storage_ok ch" "channel_count (ch\<lparr>ch_close_reason := x6\<rparr>) = channel_count ch"
  "channel_free_space (ch\<lparr>ch_close_reason := x6\<rparr>) = channel_free_space ch" "channel_is_buffered (ch\<lparr>ch_close_reason := x6\<rparr>) = channel_is_buffered ch"
  "channel_contents (ch\<lparr>ch_close_reason := x6\<rparr>) = channel_contents ch"
  "storage_ok (ch\<lparr>ch_closed := x7\<rparr>) = storage_ok ch" "channel_count (ch\<lparr>ch_closed := x7\<rparr>) = channel_count ch"
  "channel_free_space (ch\<lparr>ch_closed := x7\<rparr>) = channel_free_space ch" "channel_is_buffered (ch\<lparr>ch_closed := x7\<rparr>) = channel_is_buffered ch"
  "channel_contents (ch\<lparr>ch_closed := x7\<rparr>) = channel_contents ch"
  "storage_ok (ch\<lparr>ch_scope_event := x8\<rparr>) = storage_ok ch" "channel_count (ch\<lparr>ch_scope_event := x8\<rparr>) = channel_count ch"
  "channel_free_space (ch\<lparr>ch_scope_event := x8\<rparr>) = channel_free_space ch" "channel_is_buffered (ch\<lparr>ch_scope_event := x8\<rparr>) = channel_is_buffered ch"
  "channel_contents (ch\<lparr>ch_scope_event := x8\<rparr>) = channel_contents ch"
  by (rule storage_cong; simp)+

lemma committed_storage [simp]:
  "channel_count (ch\<lparr>ch_rendezvous_committed := b\<rparr>) = channel_count ch"
  "channel_free_space (ch\<lparr>ch_rendezvous_committed := b\<rparr>) = channel_free_space ch"
  "channel_is_buffered (ch\<lparr>ch_rendezvous_committed := b\<rparr>) = channel_is_buffered ch"
  "channel_contents (ch\<lparr>ch_rendezvous_committed := b\<rparr>) = channel_contents ch"
  by (simp_all add: counts_defs channel_contents_def)

lemma wake_delivered_frame [simp]:
  "ch_capacity (channel_wake_delivered_sender ch) = ch_capacity ch"
  "ch_buffer (channel_wake_delivered_sender ch) = ch_buffer ch"
  "ch_rendezvous_value (channel_wake_delivered_sender ch) = ch_rendezvous_value ch"
  "ch_rendezvous_has_value (channel_wake_delivered_sender ch) = ch_rendezvous_has_value ch"
  "ch_rendezvous_committed (channel_wake_delivered_sender ch) = ch_rendezvous_committed ch"
  "ch_waiting_receivers (channel_wake_delivered_sender ch) = ch_waiting_receivers ch"
  "ch_reserved_receivers (channel_wake_delivered_sender ch) = ch_reserved_receivers ch"
  "ch_reserved_senders (channel_wake_delivered_sender ch) = ch_reserved_senders ch"
  "ch_closed (channel_wake_delivered_sender ch) = ch_closed ch"
  "ch_close_reason (channel_wake_delivered_sender ch) = ch_close_reason ch"
  "ch_parked_receivers (channel_wake_delivered_sender ch) = ch_parked_receivers ch"
  "ch_parked_senders (channel_wake_delivered_sender ch) = ch_parked_senders ch"
  "ch_next_waiter (channel_wake_delivered_sender ch) = ch_next_waiter ch"
  "ch_waiters (channel_wake_delivered_sender ch) = ch_waiters ch"
  by (simp_all add: channel_wake_delivered_sender_def channel_del_callback_def Let_def split: option.split)

lemma wake_sender_frame [simp]:
  "ch_capacity (channel_wake_sender ch) = ch_capacity ch"
  "ch_buffer (channel_wake_sender ch) = ch_buffer ch"
  "ch_rendezvous_value (channel_wake_sender ch) = ch_rendezvous_value ch"
  "ch_rendezvous_has_value (channel_wake_sender ch) = ch_rendezvous_has_value ch"
  "ch_rendezvous_committed (channel_wake_sender ch) = ch_rendezvous_committed ch"
  "ch_waiting_receivers (channel_wake_sender ch) = ch_waiting_receivers ch"
  "ch_reserved_receivers (channel_wake_sender ch) = ch_reserved_receivers ch"
  "ch_closed (channel_wake_sender ch) = ch_closed ch"
  "ch_close_reason (channel_wake_sender ch) = ch_close_reason ch"
  "ch_parked_receivers (channel_wake_sender ch) = ch_parked_receivers ch"
  "ch_parked_senders (channel_wake_sender ch) = ch_parked_senders ch"
  "ch_next_waiter (channel_wake_sender ch) = ch_next_waiter ch"
  by (simp_all add: channel_wake_sender_def channel_del_callback_def set_reserved_def Let_def split: option.split)

lemma wake_sender_buffered [simp]: "channel_is_buffered (channel_wake_sender ch) = channel_is_buffered ch"
  by (simp add: channel_is_buffered_def)

lemma wake_receiver_frame [simp]:
  "ch_capacity (fst (channel_wake_receiver ch)) = ch_capacity ch"
  "ch_closed (fst (channel_wake_receiver ch)) = ch_closed ch"
  "ch_close_reason (fst (channel_wake_receiver ch)) = ch_close_reason ch"
  "ch_parked_receivers (fst (channel_wake_receiver ch)) = ch_parked_receivers ch"
  "ch_parked_senders (fst (channel_wake_receiver ch)) = ch_parked_senders ch"
  "ch_next_waiter (fst (channel_wake_receiver ch)) = ch_next_waiter ch"
  by (simp_all add: channel_wake_receiver_def channel_del_callback_def set_reserved_def Let_def
      case_prod_unfold split: option.split)

lemma wake_receiver_buffered [simp]:
  "channel_is_buffered (fst (channel_wake_receiver ch)) = channel_is_buffered ch"
  by (simp add: channel_is_buffered_def)

text \<open>No sender is parked on a value of its own.\<close>

definition no_delivering :: "'v channel \<Rightarrow> bool" where
  "no_delivering ch \<longleftrightarrow> (\<forall>w\<in>set (ch_waiting_senders ch). \<not> w_delivering (ch_waiters ch w))"

lemma no_delivering_deliver_ok: "no_delivering ch \<Longrightarrow> deliver_ok ch"
  by (simp add: no_delivering_def deliver_ok_def deliver_weak_def)

lemma deliver_ok_no_delivering:
  "deliver_ok ch \<Longrightarrow> channel_is_buffered ch \<or> \<not> ch_rendezvous_has_value ch \<or> ch_rendezvous_committed ch
   \<Longrightarrow> no_delivering ch"
  by (auto simp: no_delivering_def deliver_ok_def deliver_weak_def)

text \<open>
  After a receiver was served: a future got the value (the slot is empty again), or a
  coroutine holds a reservation; no delivering sender appears.
\<close>

lemma wake_receiver_served:
  assumes ok: "channel_core_ok ch" "deliver_ok ch" "recv_bal (Suc k) ch" "send_bal 0 ch"
    and nd: "no_delivering ch"
    and res: "channel_wake_receiver ch = (ch', True)"
  shows "no_delivering ch' \<and> (channel_is_buffered ch \<or> ch_rendezvous_has_value ch' \<or> ch_reserved_receivers ch' = 0)"
proof -
  obtain w where fv: "channel_has_free_value ch"
    and w: "channel_queue_first_unreserved (ch_waiters ch) (ch_waiting_receivers ch) = Some w"
    using res by (auto simp: channel_wake_receiver_def split: if_splits option.splits)
  show ?thesis
  proof (cases "w_future (ch_waiters ch w)")
    case (Some f)
    let ?d = "channel_del_callback (ch\<lparr>ch_waiting_receivers := remove1 w (ch_waiting_receivers ch)\<rparr>) w"
    have "ch' = channel_refresh_deadlock_timer (channel_wake_sender
        (log_effect (Future_Completed f (snd (channel_take_value ?d))) (fst (channel_take_value ?d))))"
      using res fv w Some
      by (auto simp: channel_wake_receiver_def channel_queue_remove_eq case_prod_unfold Let_def simp del: take_frame)
    then have r: "ch_reserved_receivers ch' = ch_reserved_receivers ch"
      and h: "\<not> channel_is_buffered ch \<longrightarrow> \<not> ch_rendezvous_has_value ch'"
      by (simp_all add: channel_del_callback_def)
        (simp add: channel_take_value_def channel_is_buffered_def)
    have "\<not> channel_is_buffered ch \<longrightarrow> ch_reserved_receivers ch' = 0"
      using fv r by (auto simp: channel_has_free_value_def channel_count_def split: if_splits)
    moreover have "deliver_ok ch'" using wake_receiver_ok [OF ok res] by blast
    then have "no_delivering ch'"
      using h wake_receiver_buffered [of ch] res by (intro deliver_ok_no_delivering) auto
    ultimately show ?thesis by auto
  next
    case None
    then have eq: "ch' = channel_refresh_deadlock_timer (log_effect (Resumed w) (grant_receiver (channel_del_callback ch w) w))"
      using res fv w by (auto simp: channel_wake_receiver_def grant_receiver_def Let_def)
    have "channel_is_buffered ch \<or> ch_rendezvous_has_value ch"
      using fv by (auto simp: channel_has_free_value_def channel_count_def split: if_splits)
    with nd show ?thesis by (auto simp: eq no_delivering_def grant_receiver_def channel_del_callback_def)
  qed
qed

lemma counts_cong:
  assumes "ch_capacity ch' = ch_capacity ch" "ch_buffer ch' = ch_buffer ch"
    "ch_rendezvous_has_value ch' = ch_rendezvous_has_value ch"
  shows "channel_count ch' = channel_count ch" "channel_free_space ch' = channel_free_space ch"
    "channel_is_buffered ch' = channel_is_buffered ch"
  using assms by (simp_all add: counts_defs)

subsection \<open>Adding a value\<close>

text \<open>
  \<open>ch'\<close> is \<open>ch\<close> with one more value in its storage, put there by a sender that found
  a free slot or held a reservation for one.
\<close>

lemma put_ok:
  assumes ok: "channel_core_ok ch" "deliver_ok ch" "recv_bal 0 ch" "send_bal (Suc k) ch" "\<not> ch_closed ch"
    and slot: "ch_reserved_senders ch < room ch"
    and new: "ch' = (if channel_is_buffered ch then push_value ch v else store_rendezvous ch v)"
  shows "channel_core_ok ch' \<and> no_delivering ch' \<and> recv_bal (Suc 0) ch' \<and> send_bal k ch'
    \<and> channel_contents ch' = channel_contents ch @ [v]"
proof -
  have st: "storage_ok ch" using ok by (simp add: channel_core_ok_def)
  have c: "storage_ok ch' \<and> channel_contents ch' = channel_contents ch @ [v] \<and> slots ch' = slots ch"
    using new push_value_spec [OF st, of v] store_rendezvous_spec [OF st, of v] slot by auto
  note counts = added_value_counts [OF st, of ch' v]
  have counts: "cnt ch' = Suc (cnt ch)" "room ch = Suc (room ch')"
    using counts c by simp_all
  have frame: "ch_waiters ch' = ch_waiters ch" "ch_waiting_receivers ch' = ch_waiting_receivers ch"
    "ch_waiting_senders ch' = ch_waiting_senders ch" "ch_parked_receivers ch' = ch_parked_receivers ch"
    "ch_parked_senders ch' = ch_parked_senders ch" "ch_reserved_receivers ch' = ch_reserved_receivers ch"
    "ch_reserved_senders ch' = ch_reserved_senders ch" "ch_closed ch' = ch_closed ch"
    "ch_next_waiter ch' = ch_next_waiter ch"
    using new by simp_all
  have "\<not> channel_is_buffered ch \<longrightarrow> \<not> ch_rendezvous_has_value ch"
    using slot by (simp add: channel_free_space_def split: if_splits)
  then have "no_delivering ch" using ok(2) by (intro deliver_ok_no_delivering) auto
  then have "no_delivering ch'" by (simp add: no_delivering_def frame)
  moreover have "reserve_ok ch'"
    using ok(1) slot counts by (simp add: channel_core_ok_def reserve_ok_def frame)
  moreover have "queue_ok ch'" using ok(1) by (simp add: channel_core_ok_def queue_defs frame)
  moreover have "closed_ok ch'" using ok(5) by (simp add: closed_ok_def frame)
  moreover have "recv_bal (Suc 0) ch'" using ok(3) counts by (auto simp: recv_bal_def frame)
  moreover have "send_bal k ch'" using ok(4) counts by (auto simp: send_bal_def frame)
  ultimately show ?thesis using c by (simp add: channel_core_ok_def)
qed

lemma commit_value_ok:
  assumes "channel_core_ok ch" and "no_delivering ch" and "recv_bal 0 ch" and "send_bal 0 ch"
    and "channel_is_buffered ch \<or> ch_rendezvous_has_value ch \<or> ch_reserved_receivers ch = 0"
  shows "channel_wf (ch\<lparr>ch_rendezvous_committed := ch_rendezvous_has_value ch\<rparr>)"
proof -
  let ?c = "ch\<lparr>ch_rendezvous_committed := ch_rendezvous_has_value ch\<rparr>"
  have "storage_ok ?c" using assms(1) by (auto simp: channel_core_ok_def storage_ok_def)
  moreover have "reserve_ok ?c" using assms(1) by (simp add: channel_core_ok_def reserve_ok_def)
  moreover have "queue_ok ?c" using assms(1) by (simp add: channel_core_ok_def queue_defs)
  moreover have "closed_ok ?c" using assms(1) by (simp add: channel_core_ok_def closed_ok_def)
  moreover have "deliver_ok ?c"
    using assms(2) by (intro no_delivering_deliver_ok) (simp add: no_delivering_def)
  moreover have "recv_bal 0 ?c" using assms(3) by (simp add: recv_bal_def)
  moreover have "send_bal 0 ?c" using assms(4) by (simp add: send_bal_def)
  moreover have "commit_ok ?c" using assms(5) by (auto simp: commit_ok_def)
  ultimately show ?thesis by (intro channel_wfI) (simp_all add: channel_core_ok_def)
qed

subsection \<open>Parking\<close>

lemma wait_begin_receiver_ok:
  assumes "channel_wf ch" and "\<not> ch_closed ch" and "\<not> channel_has_free_value ch"
    and "channel_wait_begin True False ch = (ch', w)"
  shows "channel_wf ch'"
proof -
  let ?w = "ch_next_waiter ch"
  let ?c = "ch\<lparr>ch_next_waiter := Suc ?w,
      ch_waiters := (ch_waiters ch)(?w := \<lparr>w_future = None, w_reserved = False, w_delivering = False\<rparr>),
      ch_waiting_receivers := ch_waiting_receivers ch @ [?w],
      ch_parked_receivers := ch_parked_receivers ch @ [?w]\<rparr>"
  note wf = channel_wfD [OF assms(1)]
  have eq: "ch' = channel_add_callback (channel_refresh_deadlock_timer ?c) ?w"
    using assms(4) by (auto simp: channel_wait_begin_def Let_def channel_queue_push_def)
  have fresh: "?w \<notin> set (ch_waiting_receivers ch)" "?w \<notin> set (ch_waiting_senders ch)"
    "?w \<notin> set (ch_parked_receivers ch)" "?w \<notin> set (ch_parked_senders ch)"
    using wf(8) by (auto simp: queue_defs)
  have "receivers_ok ?c"
    using wf(8) fresh by (auto simp: queue_ok_def receivers_ok_def less_SucI)
  moreover have "senders_ok ?c" using wf(8) by (simp add: queue_ok_def senders_ok_def)
  moreover have "parked_ok ?c"
    using wf(8) fresh by (auto simp: queue_ok_def parked_ok_def less_SucI)
  moreover have "storage_ok ?c" using wf(6) by simp
  moreover have "reserve_ok ?c"
    using wf(7) fresh by (simp add: reserve_ok_def resv_fresh) (simp add: resv_def)
  moreover have "closed_ok ?c" using assms(2) by (simp add: closed_ok_def)
  moreover have "deliver_ok ?c"
    using wf(2) fresh by (auto simp: deliver_ok_def deliver_weak_def)
  moreover have "recv_bal 0 ?c"
    using assms(3) by (simp add: recv_bal_def channel_has_free_value_def)
  moreover have "send_bal 0 ?c"
    using wf(4) fresh by (auto simp: send_bal_def)
  moreover have "commit_ok ?c" using wf(5) by (simp add: commit_ok_def)
  ultimately have "channel_wf ?c" by (intro channel_wfI) (simp_all add: channel_core_ok_def queue_ok_def)
  then show ?thesis
    by (simp add: eq wf_defs channel_add_callback_def refresh_core_ok)
qed

lemma wait_begin_sender_ok:
  assumes ok: "channel_core_ok ch" "recv_bal 0 ch" "commit_ok ch" "\<not> ch_closed ch"
    and plain: "\<not> delivering \<Longrightarrow> deliver_ok ch \<and> \<not> channel_has_free_slot ch"
    and deliv: "delivering \<Longrightarrow> no_delivering ch \<and> \<not> channel_is_buffered ch \<and> ch_rendezvous_has_value ch
      \<and> \<not> ch_rendezvous_committed ch \<and> send_bal 0 ch"
    and "channel_wait_begin False delivering ch = (ch', w)"
  shows "channel_wf ch'"
proof -
  let ?w = "ch_next_waiter ch"
  let ?c = "ch\<lparr>ch_next_waiter := Suc ?w,
      ch_waiters := (ch_waiters ch)(?w := \<lparr>w_future = None, w_reserved = False, w_delivering = delivering\<rparr>),
      ch_waiting_senders := ch_waiting_senders ch @ [?w],
      ch_parked_senders := ch_parked_senders ch @ [?w]\<rparr>"
  have wf: "storage_ok ch" "reserve_ok ch" "queue_ok ch" using ok(1) by (simp_all add: channel_core_ok_def)
  have eq: "ch' = channel_add_callback (channel_refresh_deadlock_timer ?c) ?w"
    using assms(7) by (auto simp: channel_wait_begin_def Let_def channel_queue_push_def)
  have fresh: "?w \<notin> set (ch_waiting_receivers ch)" "?w \<notin> set (ch_waiting_senders ch)"
    "?w \<notin> set (ch_parked_receivers ch)" "?w \<notin> set (ch_parked_senders ch)"
    using wf(3) by (auto simp: queue_defs)
  have "receivers_ok ?c"
    using wf(3) fresh by (auto simp: queue_ok_def receivers_ok_def less_SucI)
  moreover have "senders_ok ?c" using wf(3) fresh by (auto simp: queue_ok_def senders_ok_def)
  moreover have "parked_ok ?c"
    using wf(3) fresh by (auto simp: queue_ok_def parked_ok_def less_SucI)
  moreover have "storage_ok ?c" using wf(1) by simp
  moreover have "reserve_ok ?c"
    using wf(2) fresh by (simp add: reserve_ok_def resv_fresh) (simp add: resv_def)
  moreover have "closed_ok ?c" using ok(4) by (simp add: closed_ok_def)
  moreover have "deliver_ok ?c"
  proof (cases delivering)
    case True
    with deliv fresh show ?thesis
      by (auto simp: deliver_ok_def deliver_weak_def no_delivering_def)
  next
    case False
    with plain fresh show ?thesis by (auto simp: deliver_ok_def deliver_weak_def)
  qed
  moreover have "recv_bal 0 ?c" using ok(2) fresh by (auto simp: recv_bal_def)
  moreover have "send_bal 0 ?c"
  proof (cases delivering)
    case True
    with deliv fresh show ?thesis by (auto simp: send_bal_def)
  next
    case False
    with plain show ?thesis by (simp add: send_bal_def channel_has_free_slot_def)
  qed
  moreover have "commit_ok ?c" using ok(3) by (simp add: commit_ok_def)
  ultimately have "channel_wf ?c" by (intro channel_wfI) (simp_all add: channel_core_ok_def queue_ok_def)
  then show ?thesis
    by (simp add: eq wf_defs channel_add_callback_def refresh_core_ok)
qed

subsection \<open>Running again after the suspension\<close>

text \<open>The frame of a parked receiver leaves the channel: queue, parked frames and counter.\<close>

definition leave_receiver :: "'v channel \<Rightarrow> nat \<Rightarrow> 'v channel" where
  "leave_receiver ch w =
     (let c = ch\<lparr>ch_waiting_receivers := remove1 w (ch_waiting_receivers ch),
                 ch_parked_receivers := remove1 w (ch_parked_receivers ch)\<rparr>
      in if w_reserved (ch_waiters ch w) then c\<lparr>ch_reserved_receivers := ch_reserved_receivers ch - 1\<rparr> else c)"

definition leave_sender :: "'v channel \<Rightarrow> nat \<Rightarrow> 'v channel" where
  "leave_sender ch w =
     (let c = ch\<lparr>ch_waiting_senders := remove1 w (ch_waiting_senders ch),
                 ch_parked_senders := remove1 w (ch_parked_senders ch)\<rparr>
      in if w_reserved (ch_waiters ch w) then c\<lparr>ch_reserved_senders := ch_reserved_senders ch - 1\<rparr> else c)"

lemma leave_fields [simp]:
  "ch_waiting_receivers (leave_receiver ch w) = remove1 w (ch_waiting_receivers ch)"
  "ch_parked_receivers (leave_receiver ch w) = remove1 w (ch_parked_receivers ch)"
  "ch_reserved_receivers (leave_receiver ch w) =
     (if w_reserved (ch_waiters ch w) then ch_reserved_receivers ch - 1 else ch_reserved_receivers ch)"
  "ch_waiting_senders (leave_receiver ch w) = ch_waiting_senders ch"
  "ch_parked_senders (leave_receiver ch w) = ch_parked_senders ch"
  "ch_reserved_senders (leave_receiver ch w) = ch_reserved_senders ch"
  "ch_waiters (leave_receiver ch w) = ch_waiters ch" "ch_closed (leave_receiver ch w) = ch_closed ch"
  "ch_next_waiter (leave_receiver ch w) = ch_next_waiter ch"
  "ch_deadlock_timer (leave_receiver ch w) = ch_deadlock_timer ch"
  "ch_rendezvous_has_value (leave_receiver ch w) = ch_rendezvous_has_value ch"
  "ch_rendezvous_committed (leave_receiver ch w) = ch_rendezvous_committed ch"
  "ch_waiting_senders (leave_sender ch w) = remove1 w (ch_waiting_senders ch)"
  "ch_parked_senders (leave_sender ch w) = remove1 w (ch_parked_senders ch)"
  "ch_reserved_senders (leave_sender ch w) =
     (if w_reserved (ch_waiters ch w) then ch_reserved_senders ch - 1 else ch_reserved_senders ch)"
  "ch_waiting_receivers (leave_sender ch w) = ch_waiting_receivers ch"
  "ch_parked_receivers (leave_sender ch w) = ch_parked_receivers ch"
  "ch_reserved_receivers (leave_sender ch w) = ch_reserved_receivers ch"
  "ch_waiters (leave_sender ch w) = ch_waiters ch" "ch_closed (leave_sender ch w) = ch_closed ch"
  "ch_next_waiter (leave_sender ch w) = ch_next_waiter ch"
  "ch_deadlock_timer (leave_sender ch w) = ch_deadlock_timer ch"
  "ch_rendezvous_has_value (leave_sender ch w) = ch_rendezvous_has_value ch"
  "ch_rendezvous_committed (leave_sender ch w) = ch_rendezvous_committed ch"
  by (simp_all add: leave_receiver_def leave_sender_def Let_def)

lemma leave_storage [simp]:
  "storage_ok (leave_receiver ch w) = storage_ok ch" "channel_count (leave_receiver ch w) = channel_count ch"
  "channel_free_space (leave_receiver ch w) = channel_free_space ch"
  "channel_is_buffered (leave_receiver ch w) = channel_is_buffered ch"
  "channel_contents (leave_receiver ch w) = channel_contents ch"
  "storage_ok (leave_sender ch w) = storage_ok ch" "channel_count (leave_sender ch w) = channel_count ch"
  "channel_free_space (leave_sender ch w) = channel_free_space ch"
  "channel_is_buffered (leave_sender ch w) = channel_is_buffered ch"
  "channel_contents (leave_sender ch w) = channel_contents ch"
  by (rule storage_cong; simp add: leave_receiver_def leave_sender_def Let_def)+

lemma leave_receiver_ok:
  assumes "channel_wf ch" and w: "w \<in> set (ch_parked_receivers ch)"
  defines "c \<equiv> leave_receiver ch w"
  shows "channel_core_ok c \<and> deliver_ok c \<and> send_bal 0 c
    \<and> (if w_reserved (ch_waiters ch w)
       then recv_bal (Suc 0) c \<and> ch_reserved_receivers c < cnt c \<and> (channel_is_buffered c \<or> ch_rendezvous_committed c)
       else recv_bal 0 c \<and> commit_ok c)
    \<and> (ch_closed c \<longrightarrow> recv_bal 0 c)"
proof -
  note wf = channel_wfD [OF assms(1)]
  have q: "receivers_ok ch" "senders_ok ch" "parked_ok ch" using wf(8) by (simp_all add: queue_ok_def)
  have "receivers_ok c"
    using q(1,3) w by (auto simp: c_def receivers_ok_def parked_ok_def)
  moreover have "senders_ok c" using q(2) by (simp add: c_def senders_ok_def)
  moreover have "parked_ok c"
    using q(1,3) w by (auto simp: c_def parked_ok_def receivers_ok_def)
  moreover have "reserve_ok c"
    using wf(7) resv_remove1 [OF w, of "ch_waiters ch"]
    by (simp add: c_def reserve_ok_def)
  moreover have sub: "set (ch_waiting_receivers c) \<subseteq> set (ch_waiting_receivers ch)"
    by (simp add: c_def set_remove1_subset)
  then have "closed_ok c" using wf(9) by (auto simp: closed_ok_def c_def)
  moreover have "deliver_ok c" using wf(2)
    by (simp add: c_def deliver_ok_def deliver_weak_def)
  moreover have "send_bal 0 c" using wf(4) by (simp add: c_def send_bal_def)
  moreover have "recv_bal (if w_reserved (ch_waiters ch w) then Suc 0 else 0) c"
    using wf(3) sub by (auto simp: recv_bal_def c_def)
  moreover have "w_reserved (ch_waiters ch w) \<longrightarrow> ch_reserved_receivers c < cnt c"
    using wf(7) resv_pos [OF w, of "ch_waiters ch"]
    by (auto simp: reserve_ok_def c_def)
  moreover have "w_reserved (ch_waiters ch w) \<longrightarrow> channel_is_buffered c \<or> ch_rendezvous_committed c"
    using wf(5,7) resv_pos [OF w, of "ch_waiters ch"]
    by (auto simp: commit_ok_def reserve_ok_def c_def)
  moreover have "\<not> w_reserved (ch_waiters ch w) \<longrightarrow> commit_ok c"
    using wf(5) by (simp add: commit_ok_def c_def)
  moreover have "ch_closed c \<longrightarrow> recv_bal 0 c"
    using \<open>closed_ok c\<close> by (simp add: recv_bal_def closed_ok_def)
  ultimately show ?thesis using wf(6) by (auto simp: channel_core_ok_def queue_ok_def c_def)
qed

lemma wait_end_receiver_eq:
  assumes "channel_wait_end True w exc ch = (ch', spent)" and "\<not> w_delivering (ch_waiters ch w)"
  defines "c \<equiv> leave_receiver (channel_del_callback ch w) w"
  shows "spent = (w_reserved (ch_waiters ch w) \<and> \<not> exc)"
    and "ch' = channel_refresh_deadlock_timer
      (if w_reserved (ch_waiters ch w) \<and> exc \<and> \<not> ch_closed ch then fst (channel_wake_receiver c) else c)"
  using assms(1,2)
  by (auto simp: channel_wait_end_def c_def leave_receiver_def Let_def channel_queue_remove_eq del_frame)

lemma wake_receiver_keeps_commit:
  assumes "channel_is_buffered ch \<or> ch_rendezvous_committed ch"
  shows "commit_ok (fst (channel_wake_receiver ch))"
proof (cases "channel_is_buffered ch")
  case False
  then have "ch_rendezvous_committed (fst (channel_wake_receiver ch))
      \<or> ch_reserved_receivers (fst (channel_wake_receiver ch)) = 0"
    using assms
    by (auto simp: channel_wake_receiver_def Let_def case_prod_unfold del_frame channel_has_free_value_def
        channel_count_def channel_del_callback_def set_reserved_def split: option.splits if_splits)
  then show ?thesis by (auto simp: commit_ok_def)
qed (simp add: commit_ok_def)

lemma wait_end_receiver_ok:
  assumes "channel_wf ch" and w: "w \<in> set (ch_parked_receivers ch)"
    and res: "channel_wait_end True w exc ch = (ch', spent)"
  shows "spent = (w_reserved (ch_waiters ch w) \<and> \<not> exc) \<and>
    (if spent then channel_core_ok ch' \<and> deliver_ok ch' \<and> send_bal 0 ch' \<and> recv_bal (Suc 0) ch'
       \<and> ch_reserved_receivers ch' < cnt ch'
     else channel_wf ch')"
proof -
  let ?d = "channel_del_callback ch w"
  let ?c = "leave_receiver ?d w"
  have nd: "\<not> w_delivering (ch_waiters ch w)"
    using channel_wfD(8) [OF assms(1)] w by (auto simp: queue_defs)
  note eq = wait_end_receiver_eq [OF res nd]
  have "channel_wf ?d"
    using assms(1) by (simp add: wf_defs channel_del_callback_def)
  from leave_receiver_ok [OF this, of w] w
  have c: "channel_core_ok ?c" "deliver_ok ?c" "send_bal 0 ?c" "ch_closed ?c \<longrightarrow> recv_bal 0 ?c"
    and res': "w_reserved (ch_waiters ch w) \<longrightarrow> recv_bal (Suc 0) ?c \<and> ch_reserved_receivers ?c < cnt ?c
       \<and> (channel_is_buffered ?c \<or> ch_rendezvous_committed ?c)"
    and plain: "\<not> w_reserved (ch_waiters ch w) \<longrightarrow> recv_bal 0 ?c \<and> commit_ok ?c"
    by (simp_all add: del_frame split: if_splits)
  have cl: "ch_closed ?c = ch_closed ch" by (simp add: del_frame)
  have commit: "commit_ok ?c"
    using res' plain by (auto simp: commit_ok_def)
  show ?thesis
  proof (cases "w_reserved (ch_waiters ch w) \<and> exc \<and> \<not> ch_closed ch")
    case True
    obtain c' r where r: "channel_wake_receiver ?c = (c', r)" by force
    have "channel_core_ok c' \<and> deliver_ok c' \<and> recv_bal 0 c' \<and> send_bal 0 c'"
      using wake_receiver_ok [OF c(1,2) _ c(3) r, of 0] res' True by blast
    moreover have "commit_ok c'" using wake_receiver_keeps_commit [of ?c] res' True r by auto
    moreover have "ch' = channel_refresh_deadlock_timer c'" using eq(2) True r by simp
    ultimately have "channel_wf ch'" by (simp add: wf_defs refresh_core_ok)
    with True eq(1) show ?thesis by simp
  next
    case False
    then have ch': "ch' = channel_refresh_deadlock_timer ?c" using eq(2) by auto
    show ?thesis
    proof (cases spent)
      case True
      with eq(1) res' c ch' show ?thesis by (simp add: refresh_core_ok)
    next
      case ns: False
      have "recv_bal 0 ?c" using False ns eq(1) plain c(4) cl by blast
      with c commit ch' have "channel_wf ch'" by (simp add: wf_defs refresh_core_ok)
      with ns eq(1) show ?thesis by auto
    qed
  qed
qed

lemma leave_sender_ok:
  assumes "channel_wf ch" and w: "w \<in> set (ch_parked_senders ch)"
  defines "c \<equiv> leave_sender ch w"
  shows "channel_core_ok c \<and> deliver_ok c \<and> recv_bal 0 c \<and> commit_ok c
    \<and> (if w_reserved (ch_waiters ch w) then send_bal (Suc 0) c \<and> ch_reserved_senders c < room c else send_bal 0 c)
    \<and> (w_delivering (ch_waiters ch w) \<longrightarrow> w \<in> set (ch_waiting_senders ch) \<longrightarrow> no_delivering c)
    \<and> (ch_closed c \<longrightarrow> send_bal 0 c)"
proof -
  note wf = channel_wfD [OF assms(1)]
  have q: "receivers_ok ch" "senders_ok ch" "parked_ok ch" using wf(8) by (simp_all add: queue_ok_def)
  have d: "distinct (ch_waiting_senders ch)" using q(2) by (simp add: senders_ok_def)
  have "receivers_ok c"
    using q(1) by (auto simp: c_def receivers_ok_def dest: notin_set_remove1)
  moreover have "senders_ok c" using q(2,3) by (auto simp: c_def senders_ok_def parked_ok_def)
  moreover have "parked_ok c"
    using q(3) by (auto simp: c_def parked_ok_def dest: notin_set_remove1)
  moreover have "reserve_ok c"
    using wf(7) resv_remove1 [OF w, of "ch_waiters ch"] by (simp add: c_def reserve_ok_def)
  moreover have sub: "set (ch_waiting_senders c) \<subseteq> set (ch_waiting_senders ch)"
    by (simp add: c_def set_remove1_subset)
  then have "closed_ok c" using wf(9) by (auto simp: closed_ok_def c_def)
  moreover have "deliver_ok c" using wf(2) sub
    by (auto simp: c_def deliver_ok_def deliver_weak_def)
  moreover have "recv_bal 0 c" using wf(3) by (simp add: c_def recv_bal_def)
  moreover have "send_bal (if w_reserved (ch_waiters ch w) then Suc 0 else 0) c"
    using wf(4) sub by (auto simp: send_bal_def c_def)
  moreover have "w_reserved (ch_waiters ch w) \<longrightarrow> ch_reserved_senders c < room c"
    using wf(7) resv_pos [OF w, of "ch_waiters ch"] by (auto simp: reserve_ok_def c_def)
  moreover have "commit_ok c" using wf(5) by (simp add: commit_ok_def c_def)
  moreover have "ch_closed c \<longrightarrow> send_bal 0 c"
    using \<open>closed_ok c\<close> by (simp add: send_bal_def closed_ok_def)
  moreover have "w_delivering (ch_waiters ch w) \<longrightarrow> w \<in> set (ch_waiting_senders ch) \<longrightarrow> no_delivering c"
    using wf(2) d by (auto simp: no_delivering_def deliver_ok_def deliver_weak_def c_def)
  ultimately show ?thesis using wf(6) by (auto simp: channel_core_ok_def queue_ok_def c_def)
qed

text \<open>The value a cancelled delivering sender takes back.\<close>

lemma drop_uncommitted_frame [simp]:
  "ch_capacity (drop_uncommitted ch) = ch_capacity ch" "ch_buffer (drop_uncommitted ch) = ch_buffer ch"
  "ch_waiting_receivers (drop_uncommitted ch) = ch_waiting_receivers ch"
  "ch_waiting_senders (drop_uncommitted ch) = ch_waiting_senders ch"
  "ch_reserved_receivers (drop_uncommitted ch) = ch_reserved_receivers ch"
  "ch_reserved_senders (drop_uncommitted ch) = ch_reserved_senders ch"
  "ch_closed (drop_uncommitted ch) = ch_closed ch" "ch_waiters (drop_uncommitted ch) = ch_waiters ch"
  "ch_deadlock_timer (drop_uncommitted ch) = ch_deadlock_timer ch"
  "ch_next_waiter (drop_uncommitted ch) = ch_next_waiter ch"
  "ch_parked_receivers (drop_uncommitted ch) = ch_parked_receivers ch"
  "ch_parked_senders (drop_uncommitted ch) = ch_parked_senders ch"
  "ch_close_reason (drop_uncommitted ch) = ch_close_reason ch"
  "ch_callbacks (drop_uncommitted ch) = ch_callbacks ch" "ch_log (drop_uncommitted ch) = ch_log ch"
  "channel_is_buffered (drop_uncommitted ch) = channel_is_buffered ch"
  by (simp_all add: drop_uncommitted_def channel_is_buffered_def)

lemma drop_uncommitted_parts:
  assumes "storage_ok ch" and "reserve_ok ch" and "commit_ok ch"
  shows "storage_ok (drop_uncommitted ch)" "reserve_ok (drop_uncommitted ch)" "commit_ok (drop_uncommitted ch)"
    "ch_rendezvous_has_value (drop_uncommitted ch) \<longrightarrow> ch_rendezvous_committed (drop_uncommitted ch)"
    "cnt (drop_uncommitted ch) \<le> cnt ch" "room (drop_uncommitted ch) \<le> Suc (room ch)"
proof -
  let ?c = "drop_uncommitted ch"
  have "storage_ok ?c \<and> reserve_ok ?c \<and> commit_ok ?c \<and> (ch_rendezvous_has_value ?c \<longrightarrow> ch_rendezvous_committed ?c)
    \<and> cnt ?c \<le> cnt ch \<and> room ?c \<le> Suc (room ch)"
  proof (cases "ch_rendezvous_has_value ch \<and> \<not> ch_rendezvous_committed ch")
    case False
    with assms show ?thesis by (auto simp: drop_uncommitted_def)
  next
    case True
    have nb: "\<not> channel_is_buffered ch" using assms(1) True by (auto simp: storage_ok_def)
    have r0: "ch_reserved_receivers ch = 0" using assms(3) nb True by (auto simp: commit_ok_def)
    have c: "?c = ch\<lparr>ch_rendezvous_value := None, ch_rendezvous_has_value := False\<rparr>"
      using True by (simp add: drop_uncommitted_def)
    have n: "channel_count ?c = 0" "channel_free_space ?c = 1" "channel_free_space ch = 0"
      using nb True by (simp_all add: c channel_count_def channel_free_space_def channel_is_buffered_def)
    have "storage_ok ?c" using assms(1) nb True by (simp add: c storage_ok_def channel_is_buffered_def)
    moreover have "reserve_ok ?c" using assms(2) r0 n by (simp add: reserve_ok_def)
    moreover have "commit_ok ?c" using r0 by (simp add: commit_ok_def)
    moreover have "\<not> ch_rendezvous_has_value ?c" by (simp add: c)
    ultimately show ?thesis by (simp add: n)
  qed
  then show "storage_ok ?c" "reserve_ok ?c" "commit_ok ?c"
    "ch_rendezvous_has_value ?c \<longrightarrow> ch_rendezvous_committed ?c" "cnt ?c \<le> cnt ch" "room ?c \<le> Suc (room ch)"
    by auto
qed

lemma drop_uncommitted_ok:
  assumes "channel_core_ok ch" and "no_delivering ch" and "commit_ok ch"
    and "recv_bal 0 ch" and "send_bal 0 ch"
  defines "c \<equiv> drop_uncommitted ch"
  shows "channel_core_ok c \<and> no_delivering c \<and> commit_ok c \<and> recv_bal 0 c \<and> send_bal (Suc 0) c"
proof -
  have st: "storage_ok ch" "reserve_ok ch" "queue_ok ch" "closed_ok ch"
    using assms(1) by (simp_all add: channel_core_ok_def)
  note parts = drop_uncommitted_parts [OF st(1,2) assms(3)]
  have "queue_ok c" using st(3) by (simp add: c_def queue_defs)
  moreover have "closed_ok c" using st(4) parts(4) by (simp add: c_def closed_ok_def)
  moreover have "no_delivering c" using assms(2) by (simp add: c_def no_delivering_def)
  moreover have "recv_bal 0 c" using assms(4) parts(5) by (auto simp: c_def recv_bal_def)
  moreover have "send_bal (Suc 0) c" using assms(5) parts(6) by (auto simp: c_def send_bal_def)
  ultimately show ?thesis using parts by (simp add: channel_core_ok_def c_def)
qed

lemma commit_wake_sender [simp]: "commit_ok (channel_wake_sender ch) = commit_ok ch"
  by (simp add: commit_ok_def)

lemma drop_uncommitted_counter:
  "drop_uncommitted (ch\<lparr>ch_reserved_senders := n\<rparr>) = (drop_uncommitted ch)\<lparr>ch_reserved_senders := n\<rparr>"
  by (simp add: drop_uncommitted_def)

lemma wait_end_sender_eq:
  fixes ch :: "'v channel" and w :: nat
  defines "c \<equiv> leave_sender (channel_del_callback ch w) w"
    and "deliv \<equiv> w_delivering (ch_waiters ch w) \<and> w \<in> set (ch_waiting_senders ch)"
  shows "channel_wait_end False w exc ch =
    (channel_refresh_deadlock_timer
      (if (deliv \<or> w_reserved (ch_waiters ch w) \<and> exc) \<and> \<not> ch_closed ch
       then channel_wake_sender (if deliv \<and> exc then drop_uncommitted c else c)
       else (if deliv \<and> exc then drop_uncommitted c else c)),
     w_reserved (ch_waiters ch w) \<and> \<not> exc)"
proof -
  show ?thesis
    by (cases "w_reserved (ch_waiters ch w)"; cases "w_delivering (ch_waiters ch w)";
        cases "w \<in> set (ch_waiting_senders ch)"; cases exc)
      (simp_all add: channel_wait_end_def c_def deliv_def leave_sender_def channel_queue_remove_eq del_frame
        drop_uncommitted_counter Let_def)
qed

lemma wait_end_sender_ok:
  assumes "channel_wf ch" and w: "w \<in> set (ch_parked_senders ch)"
    and res: "channel_wait_end False w exc ch = (ch', spent)"
  shows "spent = (w_reserved (ch_waiters ch w) \<and> \<not> exc) \<and>
    (if spent then channel_core_ok ch' \<and> deliver_ok ch' \<and> recv_bal 0 ch' \<and> send_bal (Suc 0) ch'
       \<and> commit_ok ch' \<and> ch_reserved_senders ch' < room ch' \<and> (ch_closed ch' \<longrightarrow> channel_wf ch')
     else channel_wf ch')"
proof -
  let ?d = "channel_del_callback ch w"
  let ?c = "leave_sender ?d w"
  let ?deliv = "w_delivering (ch_waiters ch w) \<and> w \<in> set (ch_waiting_senders ch)"
  let ?e = "if ?deliv \<and> exc then drop_uncommitted ?c else ?c"
  have eq: "spent = (w_reserved (ch_waiters ch w) \<and> \<not> exc)"
    "ch' = channel_refresh_deadlock_timer
      (if (?deliv \<or> w_reserved (ch_waiters ch w) \<and> exc) \<and> \<not> ch_closed ch then channel_wake_sender ?e else ?e)"
    using res unfolding wait_end_sender_eq by simp_all
  have "channel_wf ?d"
    using assms(1) by (simp add: wf_defs channel_del_callback_def)
  from leave_sender_ok [OF this, of w] w
  have c: "channel_core_ok ?c" "deliver_ok ?c" "recv_bal 0 ?c" "commit_ok ?c" "ch_closed ?c \<longrightarrow> send_bal 0 ?c"
    and r: "w_reserved (ch_waiters ch w) \<longrightarrow> send_bal (Suc 0) ?c \<and> ch_reserved_senders ?c < room ?c"
    and nr: "\<not> w_reserved (ch_waiters ch w) \<longrightarrow> send_bal 0 ?c"
    and nd: "?deliv \<longrightarrow> no_delivering ?c"
    by (simp_all add: del_frame split: if_splits)
  have cl: "ch_closed ?c = ch_closed ch" by (simp add: del_frame)
  have ex: "?deliv \<longrightarrow> \<not> w_reserved (ch_waiters ch w) \<and> \<not> ch_closed ch"
    using channel_wfD(8,9) [OF assms(1)] w by (auto simp: queue_ok_def parked_ok_def closed_ok_def)
  have e: "channel_core_ok ?e \<and> deliver_ok ?e \<and> recv_bal 0 ?e \<and> commit_ok ?e \<and> send_bal (Suc 0) ?e"
  proof (cases "?deliv \<and> exc")
    case True
    with drop_uncommitted_ok [OF c(1) _ c(4,3)] nd nr ex show ?thesis
      by (auto intro: no_delivering_deliver_ok)
  next
    case False
    with c r nr show ?thesis by (auto intro: bal_mono)
  qed
  show ?thesis
  proof (cases "(?deliv \<or> w_reserved (ch_waiters ch w) \<and> exc) \<and> \<not> ch_closed ch")
    case True
    then have "ch' = channel_refresh_deadlock_timer (channel_wake_sender ?e)" "\<not> spent" using eq ex by auto
    moreover have "deliver_weak ?e" using e by (simp only: deliver_ok_def)
    then have "channel_wf (channel_wake_sender ?e)"
      using wake_sender_ok [of ?e 0 0] e by (intro channel_wfI) (simp_all only: commit_wake_sender)
    then have "channel_wf (channel_refresh_deadlock_timer (channel_wake_sender ?e))"
      by (simp add: wf_defs refresh_core_ok)
    ultimately show ?thesis using eq(1) by metis
  next
    case False
    then have ch': "ch' = channel_refresh_deadlock_timer ?c" and nd': "\<not> (?deliv \<and> exc)"
      using eq(2) ex by auto
    have closed: "ch_closed ch' \<longrightarrow> channel_wf ch'"
      using c cl by (simp add: ch' wf_defs refresh_core_ok)
    show ?thesis
    proof (cases spent)
      case True
      with eq(1) r c ch' closed show ?thesis by (simp add: refresh_core_ok)
    next
      case ns: False
      have "send_bal 0 ?c" using False ns eq(1) nr c(5) cl by blast
      with c ch' have "channel_wf ch'" by (simp add: wf_defs refresh_core_ok)
      with ns eq(1) show ?thesis by auto
    qed
  qed
qed

subsection \<open>Closing\<close>

text \<open>What a waiter of a channel being closed is told.\<close>

definition failure_of :: "'v channel \<Rightarrow> channel_exception \<Rightarrow> nat \<Rightarrow> 'v channel_effect" where
  "failure_of ch ex w =
     (case w_future (ch_waiters ch w) of Some f \<Rightarrow> Future_Rejected f ex | None \<Rightarrow> Failed w ex)"

lemma wake_all_receivers_changes:
  "\<exists>q cb l. wake_all_receivers ex n ch = ch\<lparr>ch_waiting_receivers := q, ch_callbacks := cb, ch_log := l\<rparr>"
proof (induction n arbitrary: ch)
  case 0
  show ?case
    by (rule exI [of _ "ch_waiting_receivers ch"], rule exI [of _ "ch_callbacks ch"], rule exI [of _ "ch_log ch"]) simp
next
  case (Suc n)
  show ?case
  proof (cases "w_reserved (ch_waiters ch (ch_waiting_receivers ch ! n))")
    case True
    with Suc.IH [of ch] show ?thesis by simp
  next
    case False
    define c where "c = (case w_future (ch_waiters ch (ch_waiting_receivers ch ! n)) of
        Some f \<Rightarrow> log_effect (Future_Rejected f ex) (channel_del_callback (ch\<lparr>ch_waiting_receivers :=
          channel_queue_remove_at (ch_waiting_receivers ch) n\<rparr>) (ch_waiting_receivers ch ! n))
      | None \<Rightarrow> log_effect (Failed (ch_waiting_receivers ch ! n) ex) (channel_del_callback (ch\<lparr>ch_waiting_receivers :=
          channel_queue_remove_at (ch_waiting_receivers ch) n\<rparr>) (ch_waiting_receivers ch ! n)))"
    have eq: "wake_all_receivers ex (Suc n) ch = wake_all_receivers ex n c"
      using False by (simp add: c_def Let_def del_frame)
    have "\<exists>q cb l. c = ch\<lparr>ch_waiting_receivers := q, ch_callbacks := cb, ch_log := l\<rparr>"
      by (auto simp: c_def channel_del_callback_def split: option.split)
    then obtain q cb l where "c = ch\<lparr>ch_waiting_receivers := q, ch_callbacks := cb, ch_log := l\<rparr>" by blast
    with Suc.IH [of c] eq show ?thesis by auto
  qed
qed

lemma wake_all_senders_changes:
  "\<exists>q cb l. wake_all_senders ex n ch = ch\<lparr>ch_waiting_senders := q, ch_callbacks := cb, ch_log := l\<rparr>"
proof (induction n arbitrary: ch)
  case 0
  show ?case
    by (rule exI [of _ "ch_waiting_senders ch"], rule exI [of _ "ch_callbacks ch"], rule exI [of _ "ch_log ch"]) simp
next
  case (Suc n)
  define c where "c = log_effect (Failed (ch_waiting_senders ch ! n) ex) (channel_del_callback (ch\<lparr>ch_waiting_senders :=
      channel_queue_remove_at (ch_waiting_senders ch) n\<rparr>) (ch_waiting_senders ch ! n))"
  have eq: "wake_all_senders ex (Suc n) ch = wake_all_senders ex n c" by (simp add: c_def Let_def)
  have "\<exists>q cb l. c = ch\<lparr>ch_waiting_senders := q, ch_callbacks := cb, ch_log := l\<rparr>"
    by (auto simp: c_def channel_del_callback_def)
  then obtain q cb l where "c = ch\<lparr>ch_waiting_senders := q, ch_callbacks := cb, ch_log := l\<rparr>" by blast
  with Suc.IH [of c] eq show ?case by auto
qed

lemma wake_all_receivers_frame [simp]:
  "ch_capacity (wake_all_receivers ex n ch) = ch_capacity ch"
  "ch_buffer (wake_all_receivers ex n ch) = ch_buffer ch"
  "ch_rendezvous_value (wake_all_receivers ex n ch) = ch_rendezvous_value ch"
  "ch_rendezvous_has_value (wake_all_receivers ex n ch) = ch_rendezvous_has_value ch"
  "ch_rendezvous_committed (wake_all_receivers ex n ch) = ch_rendezvous_committed ch"
  "ch_waiting_senders (wake_all_receivers ex n ch) = ch_waiting_senders ch"
  "ch_reserved_receivers (wake_all_receivers ex n ch) = ch_reserved_receivers ch"
  "ch_reserved_senders (wake_all_receivers ex n ch) = ch_reserved_senders ch"
  "ch_closed (wake_all_receivers ex n ch) = ch_closed ch"
  "ch_close_reason (wake_all_receivers ex n ch) = ch_close_reason ch"
  "ch_deadlock_timer (wake_all_receivers ex n ch) = ch_deadlock_timer ch"
  "ch_parked_receivers (wake_all_receivers ex n ch) = ch_parked_receivers ch"
  "ch_parked_senders (wake_all_receivers ex n ch) = ch_parked_senders ch"
  "ch_next_waiter (wake_all_receivers ex n ch) = ch_next_waiter ch"
  "ch_waiters (wake_all_receivers ex n ch) = ch_waiters ch"
  using wake_all_receivers_changes [of ex n ch] by auto

lemma wake_all_senders_frame [simp]:
  "ch_capacity (wake_all_senders ex n ch) = ch_capacity ch"
  "ch_buffer (wake_all_senders ex n ch) = ch_buffer ch"
  "ch_rendezvous_value (wake_all_senders ex n ch) = ch_rendezvous_value ch"
  "ch_rendezvous_has_value (wake_all_senders ex n ch) = ch_rendezvous_has_value ch"
  "ch_rendezvous_committed (wake_all_senders ex n ch) = ch_rendezvous_committed ch"
  "ch_waiting_receivers (wake_all_senders ex n ch) = ch_waiting_receivers ch"
  "ch_reserved_receivers (wake_all_senders ex n ch) = ch_reserved_receivers ch"
  "ch_reserved_senders (wake_all_senders ex n ch) = ch_reserved_senders ch"
  "ch_closed (wake_all_senders ex n ch) = ch_closed ch"
  "ch_close_reason (wake_all_senders ex n ch) = ch_close_reason ch"
  "ch_deadlock_timer (wake_all_senders ex n ch) = ch_deadlock_timer ch"
  "ch_parked_receivers (wake_all_senders ex n ch) = ch_parked_receivers ch"
  "ch_parked_senders (wake_all_senders ex n ch) = ch_parked_senders ch"
  "ch_next_waiter (wake_all_senders ex n ch) = ch_next_waiter ch"
  "ch_waiters (wake_all_senders ex n ch) = ch_waiters ch"
  using wake_all_senders_changes [of ex n ch] by auto

lemma take_remove_at: "n < length q \<Longrightarrow> take n (channel_queue_remove_at q n) = take n q"
  "n < length q \<Longrightarrow> drop n (channel_queue_remove_at q n) = drop (Suc n) q"
  by (simp_all add: channel_queue_remove_at_def)

lemma wake_all_receivers_spec:
  assumes "n \<le> length (ch_waiting_receivers ch)"
  defines "q \<equiv> ch_waiting_receivers ch" and "r \<equiv> (\<lambda>w. w_reserved (ch_waiters ch w))"
  shows "ch_waiting_receivers (wake_all_receivers ex n ch) = filter r (take n q) @ drop n q
    \<and> ch_log (wake_all_receivers ex n ch) = ch_log ch @ map (failure_of ch ex) (rev (filter (\<lambda>w. \<not> r w) (take n q)))"
  using assms(1) unfolding q_def r_def
proof (induction n arbitrary: ch)
  case (Suc n)
  let ?q = "ch_waiting_receivers ch" and ?w = "ch_waiting_receivers ch ! n"
  have n: "n < length ?q" "take (Suc n) ?q = take n ?q @ [?w]" "drop n ?q = ?w # drop (Suc n) ?q"
    using Suc.prems by (simp_all add: take_Suc_conv_app_nth Cons_nth_drop_Suc)
  show ?case
  proof (cases "w_reserved (ch_waiters ch ?w)")
    case True
    with Suc.IH [of ch] n show ?thesis by simp
  next
    case False
    let ?c = "case w_future (ch_waiters ch ?w) of
        Some f \<Rightarrow> log_effect (Future_Rejected f ex)
          (channel_del_callback (ch\<lparr>ch_waiting_receivers := channel_queue_remove_at ?q n\<rparr>) ?w)
      | None \<Rightarrow> log_effect (Failed ?w ex)
          (channel_del_callback (ch\<lparr>ch_waiting_receivers := channel_queue_remove_at ?q n\<rparr>) ?w)"
    have c: "ch_waiting_receivers ?c = channel_queue_remove_at ?q n" "ch_waiters ?c = ch_waiters ch"
      "ch_log ?c = ch_log ch @ [failure_of ch ex ?w]"
      by (simp_all add: del_frame failure_of_def split: option.split)
    have "wake_all_receivers ex (Suc n) ch = wake_all_receivers ex n ?c"
      using False by (simp add: Let_def del_frame)
    moreover have "failure_of ?c ex = failure_of ch ex" by (rule ext) (simp only: failure_of_def c)
    moreover have "n \<le> length (channel_queue_remove_at ?q n)" using n(1) by (simp add: channel_queue_remove_at_def)
    ultimately show ?thesis
      using Suc.IH [of ?c] c n False by (simp add: take_remove_at)
  qed
qed simp

lemma wake_all_senders_spec:
  assumes "n \<le> length (ch_waiting_senders ch)"
  shows "ch_waiting_senders (wake_all_senders ex n ch) = drop n (ch_waiting_senders ch)
    \<and> ch_log (wake_all_senders ex n ch) =
        ch_log ch @ map (\<lambda>w. Failed w ex) (rev (take n (ch_waiting_senders ch)))"
  using assms
proof (induction n arbitrary: ch)
  case (Suc n)
  let ?q = "ch_waiting_senders ch" and ?w = "ch_waiting_senders ch ! n"
  let ?c = "log_effect (Failed ?w ex)
      (channel_del_callback (ch\<lparr>ch_waiting_senders := channel_queue_remove_at ?q n\<rparr>) ?w)"
  have n: "n < length ?q" "take (Suc n) ?q = take n ?q @ [?w]"
    using Suc.prems by (simp_all add: take_Suc_conv_app_nth)
  have "wake_all_senders ex (Suc n) ch = wake_all_senders ex n ?c" by (simp add: Let_def)
  moreover have "n \<le> length (channel_queue_remove_at ?q n)" using n(1) by (simp add: channel_queue_remove_at_def)
  ultimately show ?case
    using Suc.IH [of ?c] n by (simp add: take_remove_at del_frame)
qed simp

text \<open>The channel that \<open>channel_close\<close> leaves, field by field.\<close>

lemma close_spec:
  fixes ch :: "'v channel" and reason :: channel_close_reason
  assumes "\<not> ch_closed ch"
  defines "c \<equiv> channel_close ch reason" and "q \<equiv> ch_waiting_receivers ch"
    and "r \<equiv> (\<lambda>w. w_reserved (ch_waiters ch w))" and "ex \<equiv> make_channel_exception reason"
  shows "ch_closed c" "ch_close_reason c = reason" "\<not> ch_deadlock_timer c"
    "ch_waiting_receivers c = filter r q" "ch_waiting_senders c = []"
    "ch_waiters c = ch_waiters ch" "ch_next_waiter c = ch_next_waiter ch"
    "ch_parked_receivers c = ch_parked_receivers ch" "ch_parked_senders c = ch_parked_senders ch"
    "ch_reserved_receivers c = ch_reserved_receivers ch" "ch_reserved_senders c = ch_reserved_senders ch"
    "ch_capacity c = ch_capacity ch"
    "ch_log c = ch_log ch @ map (failure_of ch ex) (rev (filter (\<lambda>w. \<not> r w) q))
       @ map (\<lambda>w. Failed w ex) (rev (ch_waiting_senders ch)) @ map (\<lambda>w. Notified w ex) (ch_callbacks c)"
    "ch_buffer c = ch_buffer (drop_uncommitted ch)"
    "ch_rendezvous_value c = ch_rendezvous_value (drop_uncommitted ch)"
    "ch_rendezvous_has_value c = ch_rendezvous_has_value (drop_uncommitted ch)"
    "ch_rendezvous_committed c = ch_rendezvous_committed (drop_uncommitted ch)"
proof -
  let ?o = "channel_disarm_deadlock_timer (ch\<lparr>ch_close_reason := reason, ch_closed := True\<rparr>)"
  let ?r = "wake_all_receivers ex (length (ch_waiting_receivers ?o)) ?o"
  let ?s = "wake_all_senders ex (length (ch_waiting_senders ?r)) ?r"
  have c: "c = drop_uncommitted (?s\<lparr>ch_log := ch_log ?s @ map (\<lambda>w. Notified w ex) (ch_callbacks ?s)\<rparr>)"
    using assms(1) by (simp add: c_def ex_def channel_close_def channel_wake_all_def Let_def)
  have f: "failure_of ?o ex = failure_of ch ex" by (rule ext) (simp add: failure_of_def)
  note r = wake_all_receivers_spec [of "length (ch_waiting_receivers ?o)" ?o ex, simplified]
  note s = wake_all_senders_spec [of "length (ch_waiting_senders ?r)" ?r ex, simplified]
  show "ch_closed c" "ch_close_reason c = reason" "\<not> ch_deadlock_timer c"
    "ch_waiting_receivers c = filter r q" "ch_waiting_senders c = []"
    "ch_waiters c = ch_waiters ch" "ch_next_waiter c = ch_next_waiter ch"
    "ch_parked_receivers c = ch_parked_receivers ch" "ch_parked_senders c = ch_parked_senders ch"
    "ch_reserved_receivers c = ch_reserved_receivers ch" "ch_reserved_senders c = ch_reserved_senders ch"
    "ch_capacity c = ch_capacity ch" "ch_buffer c = ch_buffer (drop_uncommitted ch)"
    using r s by (simp_all add: c q_def r_def)
  have "ch_callbacks c = ch_callbacks ?s" by (simp add: c drop_uncommitted_def)
  then show "ch_log c = ch_log ch @ map (failure_of ch ex) (rev (filter (\<lambda>w. \<not> r w) q))
       @ map (\<lambda>w. Failed w ex) (rev (ch_waiting_senders ch)) @ map (\<lambda>w. Notified w ex) (ch_callbacks c)"
    using r s f by (simp add: c q_def r_def)
  show "ch_rendezvous_value c = ch_rendezvous_value (drop_uncommitted ch)"
    "ch_rendezvous_has_value c = ch_rendezvous_has_value (drop_uncommitted ch)"
    "ch_rendezvous_committed c = ch_rendezvous_committed (drop_uncommitted ch)"
    by (simp_all add: c drop_uncommitted_def)
qed

lemma close_ok [step_inv]:
  assumes "channel_wf ch"
  shows "channel_wf (channel_close ch reason)"
proof (cases "ch_closed ch")
  case True
  with assms show ?thesis by (simp add: channel_close_def)
next
  case False
  let ?c = "channel_close ch reason" and ?d = "drop_uncommitted ch"
  note wf = channel_wfD [OF assms] and sp = close_spec [OF False, of reason]
  note parts = drop_uncommitted_parts [OF wf(6,7,5)]
  have st: "storage_ok ?c = storage_ok ?d" "channel_count ?c = channel_count ?d"
    "channel_free_space ?c = channel_free_space ?d" "channel_is_buffered ?c = channel_is_buffered ?d"
    by (rule storage_cong; simp add: sp)+
  have "reserve_ok ?c" using parts(2) by (simp add: reserve_ok_def st) (simp add: sp)
  moreover have "receivers_ok ?c" using wf(8) by (simp add: queue_ok_def receivers_ok_def sp)
  moreover have "senders_ok ?c" by (simp add: senders_ok_def sp)
  moreover have "parked_ok ?c" using wf(8) by (simp add: queue_ok_def parked_ok_def sp)
  moreover have "closed_ok ?c" using parts(4) by (simp add: closed_ok_def sp)
  moreover have "deliver_ok ?c" by (simp add: deliver_ok_def deliver_weak_def sp)
  moreover have "recv_bal 0 ?c" "send_bal 0 ?c" by (simp_all add: recv_bal_def send_bal_def sp)
  moreover have "commit_ok ?c" using parts(3) by (simp add: commit_ok_def st) (simp add: sp)
  ultimately show ?thesis
    using parts(1) by (intro channel_wfI) (simp_all add: channel_core_ok_def queue_ok_def st)
qed

end
