(* ===== verification/Channel_Operations.thy ===== *)
theory Channel_Operations
  imports Channel_Steps
begin

text \<open>
  The methods of a channel preserve its invariant, and they conserve values: what a
  method adds to the storage and what leaves it account for the whole change of the
  contents.  Values that complete futures are read from the log.
\<close>

subsection \<open>Values that left through a future\<close>

fun completed :: "'v channel_effect list \<Rightarrow> 'v list" where
  "completed [] = []"
| "completed (Future_Completed f (Some v) # es) = v # completed es"
| "completed (e # es) = completed es"

lemma completed_append [simp]: "completed (es @ es') = completed es @ completed es'"
  by (induction es rule: completed.induct) auto

lemma completed_failures [simp]:
  "completed (map (failure_of ch ex) ws) = []" "completed (map (\<lambda>w. Failed w ex) ws) = []"
  "completed (map (\<lambda>w. Notified w ex) ws) = []"
  by (induction ws) (simp_all add: failure_of_def split: option.split)

definition fulfilled :: "'v channel \<Rightarrow> 'v channel \<Rightarrow> 'v list" where
  "fulfilled ch ch' = drop (length (completed (ch_log ch))) (completed (ch_log ch'))"

lemma fulfilledI: "completed (ch_log ch') = completed (ch_log ch) @ xs \<Longrightarrow> fulfilled ch ch' = xs"
  by (simp add: fulfilled_def)

lemma wake_delivered_completed [simp]:
  "completed (ch_log (channel_wake_delivered_sender ch)) = completed (ch_log ch)"
  by (simp add: channel_wake_delivered_sender_def Let_def del_frame split: option.split)

lemma wake_sender_completed [simp]: "completed (ch_log (channel_wake_sender ch)) = completed (ch_log ch)"
  by (simp add: channel_wake_sender_def Let_def del_frame split: option.split)

lemma push_log [simp]: "ch_log (push_value ch v) = ch_log ch" "ch_log (store_rendezvous ch v) = ch_log ch"
  by (simp_all add: push_value_def store_rendezvous_def)

text \<open>Serving a future takes the oldest value; waking a coroutine takes none.\<close>

lemma wake_receiver_conserves:
  assumes "channel_core_ok ch" and "deliver_ok ch" and "send_bal 0 ch"
    and res: "channel_wake_receiver ch = (ch', served)"
  shows "\<exists>xs. completed (ch_log ch') = completed (ch_log ch) @ xs
    \<and> channel_contents ch = xs @ channel_contents ch'"
proof -
  consider (none) "ch' = ch"
    | (future) w f where "channel_has_free_value ch" "w_future (ch_waiters ch w) = Some f"
        "channel_queue_first_unreserved (ch_waiters ch) (ch_waiting_receivers ch) = Some w"
    | (coroutine) w where "channel_has_free_value ch" "w_future (ch_waiters ch w) = None"
        "channel_queue_first_unreserved (ch_waiters ch) (ch_waiting_receivers ch) = Some w"
    using res unfolding channel_wake_receiver_def by (fastforce split: if_splits option.splits)
  then show ?thesis
  proof cases
    case none
    then show ?thesis by simp
  next
    case coroutine
    then have "ch' = channel_refresh_deadlock_timer
        (log_effect (Resumed w) (grant_receiver (channel_del_callback ch w) w))"
      using res by (auto simp: channel_wake_receiver_def Let_def grant_receiver_def)
    then show ?thesis by (simp add: grant_receiver_def del_frame)
  next
    case future
    let ?d = "channel_del_callback (drop_receiver ch w) w"
    let ?t = "channel_take_value ?d"
    have w: "w \<in> set (ch_waiting_receivers ch)" using first_unreserved_Some [OF future(3)] by simp
    then have np: "w \<notin> set (ch_parked_receivers ch)"
      using assms(1) future(2) by (auto simp: channel_core_ok_def queue_defs)
    have eq: "ch' = channel_refresh_deadlock_timer (channel_wake_sender
        (log_effect (Future_Completed f (snd ?t)) (fst ?t)))"
      using res future
      by (auto simp: channel_wake_receiver_def channel_queue_remove_eq drop_receiver_def case_prod_unfold Let_def
          simp del: take_frame)
    have d: "channel_core_ok ?d" "deliver_ok ?d" "ch_reserved_receivers ?d < cnt ?d" "send_bal 0 ?d"
      using drop_receiver_ok [OF assms(1) np] assms(2,3) future(1)
      by (simp_all add: del_frame channel_has_free_value_def) (simp add: drop_receiver_def)
    have t: "channel_core_ok (fst ?t)" "deliver_weak (fst ?t)" "send_bal (Suc 0) (fst ?t)"
        "channel_contents ch = the (snd ?t) # channel_contents (fst ?t)" "snd ?t \<noteq> None"
      using take_ok [OF d(1-3), of 0 0] d(4) by (auto simp: del_frame)
    then have "channel_contents ch' = channel_contents (fst ?t)"
      using wake_sender_ok [of "log_effect (Future_Completed f (snd ?t)) (fst ?t)" 0 0] by (simp add: eq)
    moreover have "completed (ch_log ch') = completed (ch_log ch) @ [the (snd ?t)]"
      using t(5) by (auto simp: eq del_frame drop_receiver_def)
    ultimately show ?thesis using t(4) by auto
  qed
qed

subsection \<open>Putting a value in and serving a receiver\<close>

lemma put_wake_ok:
  assumes ok: "channel_core_ok ch" "deliver_ok ch" "recv_bal 0 ch" "send_bal (Suc 0) ch" "\<not> ch_closed ch"
    and slot: "ch_reserved_senders ch < room ch"
    and res: "channel_wake_receiver (if channel_is_buffered ch then push_value ch v else store_rendezvous ch v)
      = (ch', served)"
  defines "ch'' \<equiv> (if channel_is_buffered ch \<or> \<not> served then ch'
      else ch'\<lparr>ch_rendezvous_committed := ch_rendezvous_has_value ch'\<rparr>)"
  shows "channel_wf ch''"
    and "\<not> served \<Longrightarrow> no_delivering ch' \<and> \<not> ch_closed ch' \<and> channel_is_buffered ch' = channel_is_buffered ch
      \<and> (\<not> channel_is_buffered ch \<longrightarrow> ch_rendezvous_has_value ch' \<and> \<not> ch_rendezvous_committed ch')"
    and "\<exists>xs. completed (ch_log ch'') = completed (ch_log ch) @ xs
      \<and> channel_contents ch @ [v] = xs @ channel_contents ch''"
proof -
  let ?p = "if channel_is_buffered ch then push_value ch v else store_rendezvous ch v"
  have p: "channel_core_ok ?p" "no_delivering ?p" "recv_bal (Suc 0) ?p" "send_bal 0 ?p"
      "channel_contents ?p = channel_contents ch @ [v]"
    using put_ok [OF ok slot refl] by blast+
  note dp = no_delivering_deliver_ok [OF p(2)]
  have w: "channel_core_ok ch'" "deliver_ok ch'" "recv_bal 0 ch'" "send_bal 0 ch'" "\<not> served \<longrightarrow> ch' = ?p"
    using wake_receiver_ok [OF p(1) dp p(3,4) res] by blast+
  have b: "channel_is_buffered ch' = channel_is_buffered ch"
    using wake_receiver_buffered [of ?p] res by (simp split: if_splits)
  have r0: "\<not> channel_is_buffered ch \<longrightarrow> ch_reserved_receivers ch = 0"
    using ok(1) slot
    by (auto simp: channel_core_ok_def reserve_ok_def channel_count_def channel_free_space_def split: if_splits)
  show "channel_wf ch''"
  proof (cases "\<not> channel_is_buffered ch \<and> served")
    case True
    then have "no_delivering ch' \<and> (channel_is_buffered ch' \<or> ch_rendezvous_has_value ch' \<or> ch_reserved_receivers ch' = 0)"
      using wake_receiver_served [OF p(1) dp p(3,4,2), of ch'] res by simp
    with w True show ?thesis by (simp add: ch''_def commit_value_ok)
  next
    case False
    have "commit_ok ch'" using False w(5) b r0 by (auto simp: commit_ok_def)
    with False w show ?thesis by (auto simp: ch''_def intro: channel_wfI)
  qed
  show "no_delivering ch' \<and> \<not> ch_closed ch' \<and> channel_is_buffered ch' = channel_is_buffered ch
      \<and> (\<not> channel_is_buffered ch \<longrightarrow> ch_rendezvous_has_value ch' \<and> \<not> ch_rendezvous_committed ch')"
    if "\<not> served"
    using that w(5) p(2) ok(5) by simp
  have "channel_contents ch'' = channel_contents ch'" "ch_log ch'' = ch_log ch'"
    by (simp_all add: ch''_def)
  then show "\<exists>xs. completed (ch_log ch'') = completed (ch_log ch) @ xs
      \<and> channel_contents ch @ [v] = xs @ channel_contents ch''"
    using wake_receiver_conserves [OF p(1) dp p(4) res] p(5) by (simp split: if_splits)
qed

subsection \<open>Sending\<close>

text \<open>The value that a send which came this far stores, as a list.\<close>

definition accepted :: "bool \<Rightarrow> 'v \<Rightarrow> 'v channel \<Rightarrow> 'v list" where
  "accepted has_reservation v ch =
     (if \<not> ch_closed ch \<and> (has_reservation \<or> channel_has_free_slot ch) then [v] else [])"

text \<open>A channel a sender comes back to: holding a slot it was granted, or as any caller finds it.\<close>

definition sender_entry :: "bool \<Rightarrow> 'v channel \<Rightarrow> bool" where
  "sender_entry has_reservation ch \<longleftrightarrow>
     (if has_reservation
      then channel_core_ok ch \<and> deliver_ok ch \<and> recv_bal 0 ch \<and> send_bal (Suc 0) ch \<and> commit_ok ch
        \<and> ch_reserved_senders ch < room ch \<and> (ch_closed ch \<longrightarrow> channel_wf ch)
      else channel_wf ch)"

lemma sender_entry_slot:
  assumes "sender_entry r ch" and "r \<or> channel_has_free_slot ch"
  shows "channel_core_ok ch" "deliver_ok ch" "recv_bal 0 ch" "send_bal (Suc 0) ch" "ch_reserved_senders ch < room ch"
proof -
  have "channel_core_ok ch \<and> deliver_ok ch \<and> recv_bal 0 ch \<and> send_bal (Suc 0) ch \<and> ch_reserved_senders ch < room ch"
  proof (cases r)
    case False
    with assms have wf: "channel_wf ch" and "channel_has_free_slot ch" by (simp_all add: sender_entry_def)
    then show ?thesis
      using channel_wfD(1-3) [OF wf] bal_mono(2) [OF channel_wfD(4) [OF wf], of "Suc 0"]
      by (simp add: channel_has_free_slot_def)
  qed (use assms in \<open>simp add: sender_entry_def\<close>)
  then show "channel_core_ok ch" "deliver_ok ch" "recv_bal 0 ch" "send_bal (Suc 0) ch" "ch_reserved_senders ch < room ch"
    by simp_all
qed

lemma wait_begin_log [simp]:
  "ch_log (fst (channel_wait_begin is_receiver d ch)) = ch_log ch"
  "channel_contents (fst (channel_wait_begin is_receiver d ch)) = channel_contents ch"
  by (simp_all add: channel_wait_begin_def Let_def channel_add_callback_def)

lemma send_retry_ok:
  assumes entry: "sender_entry r ch" and res: "channel_send_retry t v r ch = (ch', result)"
  shows "channel_wf ch'"
    and "\<exists>xs. completed (ch_log ch') = completed (ch_log ch) @ xs
      \<and> channel_contents ch @ accepted r v ch = xs @ channel_contents ch'"
proof -
  have "channel_wf ch' \<and> (\<exists>xs. completed (ch_log ch') = completed (ch_log ch) @ xs
      \<and> channel_contents ch @ accepted r v ch = xs @ channel_contents ch')"
  proof (cases "ch_closed ch \<or> \<not> (r \<or> channel_has_free_slot ch)")
    case True
    then have acc: "accepted r v ch = []" by (auto simp: accepted_def)
    show ?thesis
    proof (cases "ch_closed ch \<or> t")
      case stay: True
      then have "ch' = ch" using True res by (auto simp: channel_send_retry_def split: if_splits)
      moreover have "channel_wf ch" using entry True by (auto simp: sender_entry_def split: if_splits)
      ultimately show ?thesis using acc by simp
    next
      case False
      with True obtain w where eq: "channel_wait_begin False False ch = (ch', w)"
        using res by (auto simp: channel_send_retry_def split: prod.splits)
      have wf: "channel_wf ch" "\<not> channel_has_free_slot ch" "\<not> ch_closed ch"
        using True False entry by (auto simp: sender_entry_def)
      have "channel_wf ch'"
        by (rule wait_begin_sender_ok [OF channel_wfD(1,3,5) [OF wf(1)] wf(3) _ _ eq])
          (use wf channel_wfD(2) [OF wf(1)] in simp_all)
      then show ?thesis
        using wait_begin_log [of False False ch] acc by (simp add: eq)
    qed
  next
    case False
    then have r: "r \<or> channel_has_free_slot ch" and o: "\<not> ch_closed ch" by auto
    let ?p = "if channel_is_buffered ch then push_value ch v else store_rendezvous ch v"
    obtain c served where w: "channel_wake_receiver ?p = (c, served)" by force
    note put = put_wake_ok [OF sender_entry_slot(1-4) [OF entry r] o sender_entry_slot(5) [OF entry r] w]
    have acc: "accepted r v ch = [v]" using False by (auto simp: accepted_def)
    show ?thesis
    proof (cases "channel_is_buffered ch \<or> served \<or> t")
      case True
      then have "ch' = (if channel_is_buffered ch \<or> \<not> served then c
          else c\<lparr>ch_rendezvous_committed := ch_rendezvous_has_value c\<rparr>)"
        using res w o r by (cases served) (auto simp: channel_send_retry_def split: if_splits)
      with put(1,3) acc show ?thesis by simp
    next
      case park: False
      then obtain p where eq: "channel_wait_begin False True c = (ch', p)"
        using res w o r by (auto simp: channel_send_retry_def split: prod.splits)
      have c: "channel_wf c" "no_delivering c" "\<not> ch_closed c" "\<not> channel_is_buffered c"
          "ch_rendezvous_has_value c" "\<not> ch_rendezvous_committed c"
        using put park by auto
      have "channel_wf ch'"
        by (rule wait_begin_sender_ok [OF channel_wfD(1,3,5) [OF c(1)] c(3) _ _ eq])
          (use c channel_wfD(4) [OF c(1)] in simp_all)
      moreover have "ch_log ch' = ch_log c" "channel_contents ch' = channel_contents c"
        using wait_begin_log [of False True c] by (simp_all add: eq)
      ultimately show ?thesis using put(3) park acc by auto
    qed
  qed
  then show "channel_wf ch'" "\<exists>xs. completed (ch_log ch') = completed (ch_log ch) @ xs
      \<and> channel_contents ch @ accepted r v ch = xs @ channel_contents ch'" by blast+
qed

lemma sendAsync_ok:
  assumes "channel_wf ch" and res: "channel_sendAsync v ch = (ch', result)"
  shows "channel_wf ch'"
    and "\<exists>xs. completed (ch_log ch') = completed (ch_log ch) @ xs
      \<and> channel_contents ch @ accepted False v ch = xs @ channel_contents ch'"
    and "result = Returned_Bool (accepted False v ch = [v])"
proof -
  have entry: "sender_entry False ch" using assms(1) by (simp add: sender_entry_def)
  have "channel_wf ch' \<and> (\<exists>xs. completed (ch_log ch') = completed (ch_log ch) @ xs
      \<and> channel_contents ch @ accepted False v ch = xs @ channel_contents ch')
      \<and> result = Returned_Bool (accepted False v ch = [v])"
  proof (cases "accepted False v ch = [v]")
    case False
    then have "ch' = ch" "accepted False v ch = []" "result = Returned_Bool False"
      using res by (auto simp: accepted_def channel_sendAsync_def split: if_splits)
    with assms(1) False show ?thesis by simp
  next
    case True
    then have o: "\<not> ch_closed ch" and r: "False \<or> channel_has_free_slot ch"
      by (auto simp: accepted_def split: if_splits)
    let ?p = "if channel_is_buffered ch then push_value ch v else store_rendezvous ch v"
    obtain c served where w: "channel_wake_receiver ?p = (c, served)" by force
    note put = put_wake_ok [OF sender_entry_slot(1-4) [OF entry r] o sender_entry_slot(5) [OF entry r] w]
    have "ch' = (if channel_is_buffered ch \<or> \<not> served then c
        else c\<lparr>ch_rendezvous_committed := ch_rendezvous_has_value c\<rparr>)" "result = Returned_Bool True"
      using res w o r by (cases served; auto simp: channel_sendAsync_def split: if_splits)+
    with put(1,3) True show ?thesis by simp
  qed
  then show "channel_wf ch'" "\<exists>xs. completed (ch_log ch') = completed (ch_log ch) @ xs
      \<and> channel_contents ch @ accepted False v ch = xs @ channel_contents ch'"
    "result = Returned_Bool (accepted False v ch = [v])" by blast+
qed

subsection \<open>Receiving\<close>

definition receiver_entry :: "bool \<Rightarrow> 'v channel \<Rightarrow> bool" where
  "receiver_entry has_reservation ch \<longleftrightarrow>
     (if has_reservation
      then channel_core_ok ch \<and> deliver_ok ch \<and> send_bal 0 ch \<and> recv_bal (Suc 0) ch
        \<and> ch_reserved_receivers ch < cnt ch
      else channel_wf ch)"

text \<open>Taking the oldest value and waking a sender, the body of every receiving method.\<close>

lemma receive_ok:
  assumes "receiver_entry r ch" and "r \<or> channel_has_free_value ch"
    and take: "channel_take_value ch = (c, v)"
  shows "channel_wf (channel_wake_sender c)"
    and "completed (ch_log (channel_wake_sender c)) = completed (ch_log ch)"
    and "\<exists>x. v = Some x \<and> channel_contents ch = x # channel_contents (channel_wake_sender c)"
proof -
  have ok: "channel_core_ok ch" "deliver_ok ch" "ch_reserved_receivers ch < cnt ch"
      "recv_bal (Suc 0) ch" "send_bal 0 ch"
  proof -
    have "channel_core_ok ch \<and> deliver_ok ch \<and> ch_reserved_receivers ch < cnt ch
        \<and> recv_bal (Suc 0) ch \<and> send_bal 0 ch"
    proof (cases r)
      case False
      with assms have wf: "channel_wf ch" and "channel_has_free_value ch" by (simp_all add: receiver_entry_def)
      then show ?thesis
        using channel_wfD(1,2,4) [OF wf] bal_mono(1) [OF channel_wfD(3) [OF wf], of "Suc 0"]
        by (simp add: channel_has_free_value_def)
    qed (use assms(1) in \<open>simp add: receiver_entry_def\<close>)
    then show "channel_core_ok ch" "deliver_ok ch" "ch_reserved_receivers ch < cnt ch"
      "recv_bal (Suc 0) ch" "send_bal 0 ch" by simp_all
  qed
  note t = take_and_wake_ok [OF ok]
  have c: "c = fst (channel_take_value ch)" "v = snd (channel_take_value ch)" using take by simp_all
  have "\<not> channel_is_buffered ch \<longrightarrow> ch_reserved_receivers ch = 0"
    using ok(3) by (auto simp: channel_count_def split: if_splits)
  then have "commit_ok c" by (simp add: commit_ok_def c)
  with t show "channel_wf (channel_wake_sender c)" by (auto simp: c intro: channel_wfI)
  show "completed (ch_log (channel_wake_sender c)) = completed (ch_log ch)" by (simp add: c)
  show "\<exists>x. v = Some x \<and> channel_contents ch = x # channel_contents (channel_wake_sender c)"
    using t by (auto simp: c)
qed

definition returned :: "'v channel_result \<Rightarrow> 'v list" where
  "returned r = (case r of Returned_Value (Some v) \<Rightarrow> [v] | _ \<Rightarrow> [])"

lemma recv_retry_ok:
  assumes entry: "receiver_entry r ch" and res: "channel_recv_retry t r ch = (ch', result)"
  shows "channel_wf ch' \<and> completed (ch_log ch') = completed (ch_log ch)
    \<and> channel_contents ch = returned result @ channel_contents ch'"
proof (cases "r \<or> channel_has_free_value ch")
  case True
  obtain c v where t: "channel_take_value ch = (c, v)" by force
  then have "ch' = channel_wake_sender c" "result = Returned_Value v"
    using True res by (auto simp: channel_recv_retry_def)
  with receive_ok [OF entry True t] show ?thesis by (auto simp: returned_def)
next
  case False
  then have wf: "channel_wf ch" using entry by (simp add: receiver_entry_def)
  show ?thesis
  proof (cases "ch_closed ch \<or> t")
    case True
    then have "ch' = ch" "returned result = []"
      using False res by (auto simp: channel_recv_retry_def returned_def split: if_splits)
    with wf show ?thesis by simp
  next
    case open': False
    then obtain w where eq: "channel_wait_begin True False ch = (ch', w)" and "returned result = []"
      using False res by (auto simp: channel_recv_retry_def returned_def split: prod.splits)
    moreover from this have "channel_wf ch'"
      using wait_begin_receiver_ok [OF wf _ _ eq] False open' by simp
    ultimately show ?thesis using wait_begin_log [of True False ch] by simp
  qed
qed

definition current :: "'v iterator_result \<Rightarrow> 'v list" where
  "current r = (case r of Iter_Current (Some v) \<Rightarrow> [v] | _ \<Rightarrow> [])"

lemma iterator_retry_ok:
  assumes entry: "receiver_entry r ch" and res: "channel_iterator_retry r ch = (ch', result)"
  shows "channel_wf ch' \<and> completed (ch_log ch') = completed (ch_log ch)
    \<and> channel_contents ch = current result @ channel_contents ch'"
proof (cases "r \<or> channel_has_free_value ch")
  case True
  obtain c v where t: "channel_take_value ch = (c, v)" by force
  then have "ch' = channel_wake_sender c" "result = Iter_Current v"
    using True res by (auto simp: channel_iterator_retry_def)
  with receive_ok [OF entry True t] show ?thesis by (auto simp: current_def)
next
  case False
  then have wf: "channel_wf ch" using entry by (simp add: receiver_entry_def)
  show ?thesis
  proof (cases "ch_closed ch")
    case True
    then have "ch' = ch" "current result = []"
      using False res by (auto simp: channel_iterator_retry_def current_def)
    with wf show ?thesis by simp
  next
    case open': False
    then obtain w where eq: "channel_wait_begin True False ch = (ch', w)" and "current result = []"
      using False res by (auto simp: channel_iterator_retry_def current_def split: prod.splits)
    moreover from this have "channel_wf ch'"
      using wait_begin_receiver_ok [OF wf _ _ eq] False open' by simp
    ultimately show ?thesis using wait_begin_log [of True False ch] by simp
  qed
qed

lemma queue_future_ok:
  fixes f :: nat
  assumes "channel_wf ch" and "\<not> ch_closed ch" and "\<not> channel_has_free_value ch"
  defines "w \<equiv> ch_next_waiter ch"
  defines "c \<equiv> ch\<lparr>ch_next_waiter := Suc w,
      ch_waiters := (ch_waiters ch)(w := \<lparr>w_future = Some f, w_reserved = False, w_delivering = False\<rparr>),
      ch_waiting_receivers := ch_waiting_receivers ch @ [w]\<rparr>"
  shows "channel_wf c"
proof -
  note wf = channel_wfD [OF assms(1)]
  have q: "receivers_ok ch" "senders_ok ch" "parked_ok ch" using wf(8) by (simp_all add: queue_ok_def)
  have fresh: "w \<notin> set (ch_waiting_receivers ch)" "w \<notin> set (ch_waiting_senders ch)"
    "w \<notin> set (ch_parked_receivers ch)" "w \<notin> set (ch_parked_senders ch)"
    using wf(8) by (auto simp: w_def queue_defs)
  have "receivers_ok c"
    using q(1) fresh by (auto simp: c_def w_def receivers_ok_def less_SucI)
  moreover have "senders_ok c" using q(2) by (simp add: c_def senders_ok_def)
  moreover have "parked_ok c"
    using q(3) fresh by (auto simp: c_def w_def parked_ok_def less_SucI)
  moreover have "storage_ok c" using wf(6) by (simp add: c_def)
  moreover have "reserve_ok c" using wf(7) fresh by (simp add: c_def reserve_ok_def resv_fresh)
  moreover have "closed_ok c" using assms(2) by (simp add: c_def closed_ok_def)
  moreover have "deliver_ok c"
    using wf(2) fresh by (auto simp: c_def deliver_ok_def deliver_weak_def)
  moreover have "recv_bal 0 c" using assms(3) by (simp add: c_def recv_bal_def channel_has_free_value_def)
  moreover have "send_bal 0 c" using wf(4) fresh by (auto simp: c_def send_bal_def)
  moreover have "commit_ok c" using wf(5) by (simp add: c_def commit_ok_def)
  ultimately show ?thesis by (intro channel_wfI) (simp_all add: channel_core_ok_def queue_ok_def)
qed

lemma recvAsync_ok:
  assumes wf: "channel_wf ch" and res: "channel_recvAsync f ch = (ch', queued)"
  shows "channel_wf ch' \<and> (\<exists>xs. completed (ch_log ch') = completed (ch_log ch) @ xs
    \<and> channel_contents ch = xs @ channel_contents ch')"
proof (cases "channel_has_free_value ch")
  case True
  obtain c v where t: "channel_take_value ch = (c, v)" by force
  then have "ch' = log_effect (Future_Completed f v) (channel_wake_sender c)"
    using True res by (auto simp: channel_recvAsync_def)
  moreover have "receiver_entry False ch" using wf by (simp add: receiver_entry_def)
  ultimately show ?thesis using receive_ok [OF _ _ t, of False] True by (auto simp: wf_defs)
next
  case False
  show ?thesis
  proof (cases "ch_closed ch")
    case True
    then have "ch' = log_effect (Future_Rejected f (make_channel_exception (ch_close_reason ch))) ch"
      using False res by (simp add: channel_recvAsync_def)
    with wf show ?thesis by (simp add: wf_defs)
  next
    case open': False
    show ?thesis
      using res False open' queue_future_ok [OF wf open' False, of f]
      by (auto simp: channel_recvAsync_def Let_def channel_queue_push_def)
  qed
qed

text \<open>Dropping a pending \<open>recvAsync\<close> future takes its waiter out of the queue.\<close>

definition future_waiter :: "'v channel \<Rightarrow> nat \<Rightarrow> bool" where
  "future_waiter ch w \<longleftrightarrow> w_future (ch_waiters ch w) \<noteq> None"

lemma future_dispose_eq:
  "channel_recv_future_dispose future_closed (Some w) ch =
     (if \<not> future_closed \<and> w \<in> set (ch_waiting_receivers ch)
      then channel_del_callback (drop_receiver ch w) w else ch)"
  by (cases "w \<in> set (ch_waiting_receivers ch)")
    (simp_all add: channel_recv_future_dispose_def channel_queue_remove_eq drop_receiver_def)

lemma future_dispose_ok:
  assumes wf: "channel_wf ch" and "\<And>w. waiter = Some w \<Longrightarrow> future_waiter ch w"
  shows "channel_wf (channel_recv_future_dispose future_closed waiter ch)"
    and "completed (ch_log (channel_recv_future_dispose future_closed waiter ch)) = completed (ch_log ch)"
    and "channel_contents (channel_recv_future_dispose future_closed waiter ch) = channel_contents ch"
proof -
  let ?c = "channel_recv_future_dispose future_closed waiter ch"
  consider (same) "?c = ch"
    | (drop) w where "waiter = Some w" "w \<in> set (ch_waiting_receivers ch)"
        "?c = channel_del_callback (drop_receiver ch w) w"
  proof (cases waiter)
    case None
    then have "?c = ch" by (simp add: channel_recv_future_dispose_def)
    then show ?thesis by (rule that(1))
  next
    case (Some w)
    then show ?thesis using that by (cases "w \<in> set (ch_waiting_receivers ch)"; cases future_closed) (auto simp: future_dispose_eq)
  qed
  then have "channel_wf ?c \<and> completed (ch_log ?c) = completed (ch_log ch) \<and> channel_contents ?c = channel_contents ch"
  proof cases
    case same
    with wf show ?thesis by simp
  next
    case drop
    have "w \<notin> set (ch_parked_receivers ch)"
      using channel_wfD(8) [OF wf] drop(2) assms(2) [OF drop(1)] by (auto simp: queue_defs future_waiter_def)
    note d = drop_receiver_ok [OF channel_wfD(1) [OF wf] this]
    have "commit_ok (drop_receiver ch w)"
      using channel_wfD(5) [OF wf] by (simp add: commit_ok_def) (simp add: drop_receiver_def)
    then have "channel_wf (drop_receiver ch w)"
      using d channel_wfD(2-4) [OF wf] by (intro channel_wfI) simp_all
    then have "channel_wf ?c" by (simp add: drop(3) wf_defs channel_del_callback_def)
    then show ?thesis by (simp add: drop(3) del_frame) (simp add: drop_receiver_def)
  qed
  then show "channel_wf ?c" "completed (ch_log ?c) = completed (ch_log ch)" "channel_contents ?c = channel_contents ch"
    by simp_all
qed

subsection \<open>Resumed coroutines and closing\<close>

text \<open>
  The value that closing the channel or cancelling a delivering sender removes: an
  uncommitted value of the slot.
\<close>

definition uncommitted :: "'v channel \<Rightarrow> 'v list" where
  "uncommitted ch =
     (if ch_rendezvous_has_value ch \<and> \<not> ch_rendezvous_committed ch
      then (case ch_rendezvous_value ch of None \<Rightarrow> [] | Some v \<Rightarrow> [v]) else [])"

lemma drop_uncommitted_contents:
  assumes "storage_ok ch"
  shows "channel_contents ch = uncommitted ch @ channel_contents (drop_uncommitted ch)"
  using assms
  by (auto simp: storage_ok_def uncommitted_def drop_uncommitted_def channel_contents_def channel_is_buffered_def)

lemma close_conserves:
  assumes "channel_wf ch" and "\<not> ch_closed ch"
  shows "completed (ch_log (channel_close ch reason)) = completed (ch_log ch)"
    and "channel_contents ch = uncommitted ch @ channel_contents (channel_close ch reason)"
proof -
  note sp = close_spec [OF assms(2), of reason]
  show "completed (ch_log (channel_close ch reason)) = completed (ch_log ch)" using sp(13) by auto
  have "channel_contents (channel_close ch reason) = channel_contents (drop_uncommitted ch)"
    by (rule storage_cong) (simp_all add: sp)
  then show "channel_contents ch = uncommitted ch @ channel_contents (channel_close ch reason)"
    using drop_uncommitted_contents [OF channel_wfD(6) [OF assms(1)]] by simp
qed

lemma wait_end_receiver_conserves:
  assumes wf: "channel_wf ch" and w: "w \<in> set (ch_parked_receivers ch)"
    and res: "channel_wait_end True w exc ch = (ch', spent)"
  shows "\<exists>xs. completed (ch_log ch') = completed (ch_log ch) @ xs
    \<and> channel_contents ch = xs @ channel_contents ch'"
    and "\<not> exc \<Longrightarrow> completed (ch_log ch') = completed (ch_log ch) \<and> channel_contents ch' = channel_contents ch"
    and "receiver_entry spent ch'"
proof -
  have nd: "\<not> w_delivering (ch_waiters ch w)"
    using channel_wfD(8) [OF wf] w by (auto simp: queue_defs)
  let ?d = "channel_del_callback ch w"
  let ?c = "leave_receiver ?d w"
  note eq = wait_end_receiver_eq [OF res nd]
  have keep: "ch_log ?c = ch_log ch" "channel_contents ?c = channel_contents ch"
    by (simp_all add: del_frame) (simp add: leave_receiver_def Let_def del_frame)
  show "completed (ch_log ch') = completed (ch_log ch) \<and> channel_contents ch' = channel_contents ch" if "\<not> exc"
    using eq(2) that keep by simp
  have "channel_wf ?d" using wf by (simp add: wf_defs channel_del_callback_def)
  from leave_receiver_ok [OF this, of w] w
  have c: "channel_core_ok ?c" "deliver_ok ?c" "send_bal 0 ?c" by (simp_all add: del_frame)
  show "\<exists>xs. completed (ch_log ch') = completed (ch_log ch) @ xs \<and> channel_contents ch = xs @ channel_contents ch'"
  proof (cases "w_reserved (ch_waiters ch w) \<and> exc \<and> \<not> ch_closed ch")
    case True
    obtain c' r where r: "channel_wake_receiver ?c = (c', r)" by force
    from wake_receiver_conserves [OF c r] show ?thesis using eq(2) True r keep by simp
  next
    case False
    with eq(2) keep show ?thesis by auto
  qed
  show "receiver_entry spent ch'"
    using wait_end_receiver_ok [OF wf w res] by (simp add: receiver_entry_def split: if_splits)
qed

lemma wait_end_sender_conserves:
  assumes wf: "channel_wf ch" and w: "w \<in> set (ch_parked_senders ch)"
    and res: "channel_wait_end False w exc ch = (ch', spent)"
  defines "gone \<equiv> (if exc \<and> w_delivering (ch_waiters ch w) \<and> w \<in> set (ch_waiting_senders ch) then uncommitted ch else [])"
  shows "completed (ch_log ch') = completed (ch_log ch)"
    and "channel_contents ch = gone @ channel_contents ch'"
    and "sender_entry spent ch'"
proof -
  let ?c = "leave_sender (channel_del_callback ch w) w"
  let ?deliv = "w_delivering (ch_waiters ch w) \<and> w \<in> set (ch_waiting_senders ch)"
  let ?e = "if ?deliv \<and> exc then drop_uncommitted ?c else ?c"
  have ch': "ch' = channel_refresh_deadlock_timer
      (if (?deliv \<or> w_reserved (ch_waiters ch w) \<and> exc) \<and> \<not> ch_closed ch then channel_wake_sender ?e else ?e)"
    using res unfolding wait_end_sender_eq by simp
  have log: "ch_log ?c = ch_log ch" by (simp add: leave_sender_def Let_def del_frame)
  then show "completed (ch_log ch') = completed (ch_log ch)" by (simp add: ch')
  have st: "storage_ok ?c" using channel_wfD(6) [OF wf] by (simp add: channel_del_callback_def)
  have "uncommitted ?c = uncommitted ch"
    by (auto simp: uncommitted_def leave_sender_def Let_def channel_del_callback_def)
  then have e: "channel_contents ch = gone @ channel_contents ?e"
    using drop_uncommitted_contents [OF st] by (simp add: gone_def del_frame)
  have "channel_contents (channel_wake_sender ?e) = channel_contents ?e"
    by (rule storage_cong) simp_all
  then show "channel_contents ch = gone @ channel_contents ch'" using e by (simp add: ch')
  show "sender_entry spent ch'"
    using wait_end_sender_ok [OF wf w res] by (simp add: sender_entry_def split: if_splits)
qed

end
