(* ===== verification/Channel_Reachable.thy ===== *)
theory Channel_Reachable
  imports Channel_Operations
begin

text \<open>
  Channels under concurrent use.  \<open>channel_step ch ins outs ch'\<close> is one uninterrupted
  piece of a coroutine's or the scheduler's work on a channel: a method call up to its
  suspension, a resumption, a timer or scope callback.  \<open>ins\<close> are the values it put into
  the storage and \<open>outs\<close> the values that left it.  Since the coroutines of one thread
  interleave only at suspensions, every schedule of the program is a \<open>channel_run\<close>.
\<close>

datatype 'v departure = Received 'v | Dropped 'v

fun departed :: "'v departure \<Rightarrow> 'v" where
  "departed (Received v) = v"
| "departed (Dropped v) = v"

lemma departed_comp [simp]: "departed \<circ> Received = (\<lambda>v. v)" "departed \<circ> Dropped = (\<lambda>v. v)"
  by (simp_all add: fun_eq_iff)

inductive channel_step :: "'v channel \<Rightarrow> 'v list \<Rightarrow> 'v departure list \<Rightarrow> 'v channel \<Rightarrow> bool" where
  step_send: "channel_send t v ch = (ch', r) \<Longrightarrow>
    channel_step ch (if t then [] else accepted False v ch) (map Received (fulfilled ch ch')) ch'"
| step_send_space: "w \<in> set (ch_parked_senders ch) \<Longrightarrow> \<not> w_delivering (ch_waiters ch w) \<Longrightarrow>
    channel_wait_end False w exc ch = (c, res) \<Longrightarrow>
    channel_send_resume_space t v w exc ch = (ch', r) \<Longrightarrow>
    channel_step ch (if exc then [] else accepted res v c) (map Received (fulfilled ch ch')) ch'"
| step_send_delivery: "w \<in> set (ch_parked_senders ch) \<Longrightarrow> w_delivering (ch_waiters ch w) \<Longrightarrow>
    channel_send_resume_delivery w exc ch = (ch', r) \<Longrightarrow>
    channel_step ch [] (if exc \<and> w \<in> set (ch_waiting_senders ch) then map Dropped (uncommitted ch) else []) ch'"
| step_sendAsync: "channel_sendAsync v ch = (ch', r) \<Longrightarrow>
    channel_step ch (accepted False v ch) (map Received (fulfilled ch ch')) ch'"
| step_recv: "channel_recv t ch = (ch', r) \<Longrightarrow> channel_step ch [] (map Received (returned r)) ch'"
| step_recv_resume: "w \<in> set (ch_parked_receivers ch) \<Longrightarrow> channel_recv_resume t w exc ch = (ch', r) \<Longrightarrow>
    channel_step ch [] (map Received (fulfilled ch ch' @ returned r)) ch'"
| step_recvAsync: "channel_recvAsync f ch = (ch', q) \<Longrightarrow>
    channel_step ch [] (map Received (fulfilled ch ch')) ch'"
| step_future_dispose: "future_waiter ch w \<Longrightarrow>
    channel_step ch [] [] (channel_recv_future_dispose future_closed (Some w) ch)"
| step_iterate: "channel_iterator_move_forward ch = (ch', i) \<Longrightarrow>
    channel_step ch [] (map Received (current i)) ch'"
| step_iterate_resume: "w \<in> set (ch_parked_receivers ch) \<Longrightarrow>
    channel_iterator_resume w exc channel_exc ch = (ch', i) \<Longrightarrow>
    channel_step ch [] (map Received (fulfilled ch ch' @ current i)) ch'"
| step_close: "channel_step ch [] (if ch_closed ch then [] else map Dropped (uncommitted ch)) (channel_close_method ch)"
| step_deadlock_timer: "ch_deadlock_timer ch \<Longrightarrow>
    channel_step ch [] (if ch_closed ch then [] else map Dropped (uncommitted ch)) (channel_deadlock_fire ch)"
| step_deadlock_resolved: "ch_in_deadlock_channels ch \<Longrightarrow> \<not> ch_closed ch \<Longrightarrow>
    channel_step ch [] (map Dropped (uncommitted ch)) (channel_close ch CHANNEL_CLOSE_DEADLOCK)"
| step_scope_close: "channel_step ch [] (if ch_closed ch then [] else map Dropped (uncommitted ch))
    (channel_scope_close_fire ch)"
| step_scope_dispose: "channel_step ch [] [] (channel_scope_close_dispose ch)"
| step_dtor: "channel_step ch [] (if ch_closed ch then [] else map Dropped (uncommitted ch))
    (async_channel_dtor_object ch)"

inductive channel_run :: "'v channel \<Rightarrow> 'v list \<Rightarrow> 'v departure list \<Rightarrow> 'v channel \<Rightarrow> bool" where
  run_start: "channel_run ch [] [] ch"
| run_step: "channel_run ch ins outs ch' \<Longrightarrow> channel_step ch' ins' outs' ch'' \<Longrightarrow>
    channel_run ch (ins @ ins') (outs @ outs') ch''"

subsection \<open>Each step keeps the invariant and conserves values\<close>

definition step_good :: "'v channel \<Rightarrow> 'v list \<Rightarrow> 'v departure list \<Rightarrow> 'v channel \<Rightarrow> bool" where
  "step_good ch ins outs ch' \<longleftrightarrow> channel_wf ch' \<and> channel_contents ch @ ins = map departed outs @ channel_contents ch'"

lemma close_step:
  "channel_wf ch \<Longrightarrow> step_good ch [] (if ch_closed ch then [] else map Dropped (uncommitted ch)) (channel_close ch reason)"
  using close_ok [of ch reason] close_conserves [of ch reason]
  by (cases "ch_closed ch") (simp_all add: step_good_def, simp add: channel_close_def)

lemma scope_event_preds [simp]:
  "reserve_ok (ch\<lparr>ch_scope_event := x\<rparr>) = reserve_ok ch" "queue_ok (ch\<lparr>ch_scope_event := x\<rparr>) = queue_ok ch"
  "closed_ok (ch\<lparr>ch_scope_event := x\<rparr>) = closed_ok ch" "deliver_ok (ch\<lparr>ch_scope_event := x\<rparr>) = deliver_ok ch"
  "recv_bal k (ch\<lparr>ch_scope_event := x\<rparr>) = recv_bal k ch" "send_bal k (ch\<lparr>ch_scope_event := x\<rparr>) = send_bal k ch"
  "commit_ok (ch\<lparr>ch_scope_event := x\<rparr>) = commit_ok ch"
  by (simp_all add: reserve_ok_def queue_defs closed_ok_def deliver_ok_def deliver_weak_def recv_bal_def
      send_bal_def commit_ok_def)

lemma scope_event_wf [simp]: "channel_wf (ch\<lparr>ch_scope_event := x\<rparr>) = channel_wf ch"
  by (simp add: wf_defs channel_core_ok_def)

lemma send_step:
  assumes "sender_entry r ch" and "channel_send_retry t v r ch = (ch', result)"
  shows "step_good ch (accepted r v ch) (map Received (fulfilled ch ch')) ch'"
  using send_retry_ok [OF assms] fulfilledI by (force simp: step_good_def)

lemma send_space_step:
  assumes wf: "channel_wf ch" and w: "w \<in> set (ch_parked_senders ch)" "\<not> w_delivering (ch_waiters ch w)"
    and e: "channel_wait_end False w exc ch = (c, res)" and r: "channel_send_resume_space t v w exc ch = (ch', r)"
  shows "step_good ch (if exc then [] else accepted res v c) (map Received (fulfilled ch ch')) ch'"
proof -
  note k = wait_end_sender_conserves [OF wf w(1) e]
  have keep: "completed (ch_log c) = completed (ch_log ch)" "channel_contents c = channel_contents ch"
    using k w(2) by simp_all
  show ?thesis
  proof (cases exc)
    case True
    then have "ch' = c" "\<not> res" using r e wait_end_sender_ok [OF wf w(1) e] by (auto simp: channel_send_resume_space_def)
    with True k(3) keep show ?thesis by (simp add: step_good_def sender_entry_def fulfilled_def)
  next
    case False
    then have "channel_send_retry t v res c = (ch', r)" using r e by (simp add: channel_send_resume_space_def)
    from send_step [OF k(3) this] False keep show ?thesis by (simp add: step_good_def fulfilled_def)
  qed
qed

lemma send_delivery_step:
  assumes wf: "channel_wf ch" and w: "w \<in> set (ch_parked_senders ch)" "w_delivering (ch_waiters ch w)"
    and r: "channel_send_resume_delivery w exc ch = (ch', r)"
  shows "step_good ch [] (if exc \<and> w \<in> set (ch_waiting_senders ch) then map Dropped (uncommitted ch) else []) ch'"
proof -
  obtain spent where e: "channel_wait_end False w exc ch = (ch', spent)"
    using r by (auto simp: channel_send_resume_delivery_def split: prod.splits)
  have "\<not> spent"
    using wait_end_sender_ok [OF wf w(1) e] channel_wfD(8) [OF wf] w by (auto simp: queue_ok_def parked_ok_def)
  with wait_end_sender_conserves [OF wf w(1) e] w(2) show ?thesis
    by (simp add: step_good_def sender_entry_def)
qed

lemma recv_resume_step:
  assumes wf: "channel_wf ch" and w: "w \<in> set (ch_parked_receivers ch)"
    and r: "channel_recv_resume t w exc ch = (ch', r)"
  shows "step_good ch [] (map Received (fulfilled ch ch' @ returned r)) ch'"
proof -
  obtain c res where e: "channel_wait_end True w exc ch = (c, res)" by force
  note k = wait_end_receiver_conserves [OF wf w e]
  show ?thesis
  proof (cases exc)
    case True
    then have "ch' = c" "returned r = []" "\<not> res"
      using r e wait_end_receiver_ok [OF wf w e] by (auto simp: channel_recv_resume_def returned_def)
    with k(1,3) show ?thesis by (auto simp: step_good_def receiver_entry_def dest: fulfilledI)
  next
    case False
    then have "channel_recv_retry t res c = (ch', r)" using r e by (simp add: channel_recv_resume_def)
    from recv_retry_ok [OF k(3) this] k(2) False show ?thesis by (simp add: step_good_def fulfilled_def)
  qed
qed

lemma iterate_resume_step:
  assumes wf: "channel_wf ch" and w: "w \<in> set (ch_parked_receivers ch)"
    and r: "channel_iterator_resume w exc channel_exc ch = (ch', i)"
  shows "step_good ch [] (map Received (fulfilled ch ch' @ current i)) ch'"
proof -
  obtain c res where e: "channel_wait_end True w exc ch = (c, res)" by force
  note k = wait_end_receiver_conserves [OF wf w e]
  show ?thesis
  proof (cases exc)
    case True
    then have "ch' = c" "current i = []" "\<not> res"
      using r e wait_end_receiver_ok [OF wf w e] by (auto simp: channel_iterator_resume_def current_def)
    with k(1,3) show ?thesis by (auto simp: step_good_def receiver_entry_def dest: fulfilledI)
  next
    case False
    then have "channel_iterator_retry res c = (ch', i)" using r e by (simp add: channel_iterator_resume_def)
    from iterator_retry_ok [OF k(3) this] k(2) False show ?thesis by (simp add: step_good_def fulfilled_def)
  qed
qed

lemma channel_step_good:
  assumes "channel_step ch ins outs ch'" and "channel_wf ch"
  shows "step_good ch ins outs ch'"
  using assms
proof (cases rule: channel_step.cases)
  case (step_send t v r)
  then show ?thesis
    using assms(2) send_step [of False ch t v ch' r]
    by (auto simp: channel_send_def sender_entry_def step_good_def fulfilled_def split: if_splits)
next
  case (step_send_space w exc c res t v r)
  then show ?thesis using send_space_step [OF assms(2) step_send_space(3-6)] by simp
next
  case (step_send_delivery w exc r)
  then show ?thesis using send_delivery_step [OF assms(2) step_send_delivery(3-5)] by simp
next
  case (step_sendAsync v r)
  from sendAsync_ok(1,2) [OF assms(2) step_sendAsync(3)] show ?thesis
    by (auto simp: step_good_def step_sendAsync(1,2) dest!: fulfilledI)
next
  case (step_recv t r)
  then show ?thesis
    using assms(2) recv_retry_ok [of False ch t ch' r]
    by (auto simp: channel_recv_def receiver_entry_def step_good_def returned_def split: if_splits)
next
  case (step_recv_resume w t exc r)
  then show ?thesis using recv_resume_step [OF assms(2) step_recv_resume(3,4)] by simp
next
  case (step_recvAsync f q)
  from recvAsync_ok [OF assms(2) step_recvAsync(3)] show ?thesis
    by (auto simp: step_good_def step_recvAsync(1,2) dest!: fulfilledI)
next
  case (step_future_dispose w future_closed)
  then show ?thesis using future_dispose_ok [OF assms(2), of "Some w"] by (simp add: step_good_def)
next
  case (step_iterate i)
  then show ?thesis
    using assms(2) iterator_retry_ok [of False ch ch' i]
    by (simp add: channel_iterator_move_forward_def receiver_entry_def step_good_def)
next
  case (step_iterate_resume w exc channel_exc i)
  then show ?thesis using iterate_resume_step [OF assms(2) step_iterate_resume(3,4)] by simp
next
  case step_close
  then show ?thesis using close_step [OF assms(2)] by (simp add: channel_close_method_def)
next
  case step_deadlock_timer
  then show ?thesis
    using close_step [OF assms(2), of "ch_pending_timeout_reason ch"] assms(2)
    by (auto simp: channel_deadlock_fire_def step_good_def)
next
  case step_deadlock_resolved
  then show ?thesis using close_step [OF assms(2), of CHANNEL_CLOSE_DEADLOCK] by simp
next
  case step_scope_close
  then show ?thesis using close_step [OF assms(2)] by (simp add: channel_scope_close_fire_def)
next
  case step_scope_dispose
  then show ?thesis
    using assms(2) by (simp add: step_good_def channel_scope_close_dispose_def)
next
  case step_dtor
  then show ?thesis using close_step [OF assms(2)] by (simp add: async_channel_dtor_object_def)
qed

lemma channel_run_good:
  assumes "channel_run ch ins outs ch'" and "channel_wf ch" and "channel_contents ch = []"
  shows "channel_wf ch' \<and> ins = map departed outs @ channel_contents ch'"
  using assms
proof (induction rule: channel_run.induct)
  case (run_step ch ins outs ch' ins' outs' ch'')
  then have "channel_wf ch'" "ins = map departed outs @ channel_contents ch'" by simp_all
  with channel_step_good [OF run_step.hyps(2)] show ?case by (simp add: step_good_def)
qed simp

subsection \<open>The capacity never changes\<close>

lemma wait_frame_capacity [simp]:
  "ch_capacity (fst (channel_wait_begin r d ch)) = ch_capacity ch"
  "ch_capacity (fst (channel_wait_end r w exc ch)) = ch_capacity ch"
  by (simp_all add: channel_wait_begin_def channel_wait_end_def Let_def channel_add_callback_def
      channel_del_callback_def case_prod_unfold)

lemma retry_capacity [simp]:
  "ch_capacity (fst (channel_send_retry t v r ch)) = ch_capacity ch"
  "ch_capacity (fst (channel_recv_retry t r ch)) = ch_capacity ch"
  "ch_capacity (fst (channel_iterator_retry r ch)) = ch_capacity ch"
  by (simp_all add: channel_send_retry_def channel_recv_retry_def channel_iterator_retry_def case_prod_unfold
      split: bool.split)

lemma close_capacity [simp]: "ch_capacity (channel_close ch reason) = ch_capacity ch"
  using close_spec(12) [of ch reason] by (cases "ch_closed ch") (simp_all add: channel_close_def)

lemma step_capacity: "channel_step ch ins outs ch' \<Longrightarrow> ch_capacity ch' = ch_capacity ch"
proof (induction rule: channel_step.induct)
  case (step_send t v ch ch' r)
  then show ?case by (auto simp: channel_send_def dest!: arg_cong [where f = fst])
next
  case (step_send_space w ch exc c res t v ch' r)
  then show ?case
    by (auto simp: channel_send_resume_space_def case_prod_unfold dest!: arg_cong [where f = fst])
next
  case (step_send_delivery w ch exc ch' r)
  then show ?case
    by (auto simp: channel_send_resume_delivery_def case_prod_unfold dest!: arg_cong [where f = fst])
next
  case (step_sendAsync v ch ch' r)
  then show ?case
    by (auto simp: channel_sendAsync_def case_prod_unfold dest!: arg_cong [where f = fst] split: bool.splits)
next
  case (step_recv t ch ch' r)
  then show ?case by (auto simp: channel_recv_def dest!: arg_cong [where f = fst])
next
  case (step_recv_resume w ch t exc ch' r)
  then show ?case by (auto simp: channel_recv_resume_def case_prod_unfold dest!: arg_cong [where f = fst])
next
  case (step_recvAsync f ch ch' q)
  then show ?case
    by (auto simp: channel_recvAsync_def case_prod_unfold Let_def dest!: arg_cong [where f = fst])
next
  case (step_future_dispose ch w future_closed)
  then show ?case by (simp add: future_dispose_eq channel_del_callback_def drop_receiver_def)
next
  case (step_iterate ch ch' i)
  then show ?case by (auto simp: channel_iterator_move_forward_def dest!: arg_cong [where f = fst])
next
  case (step_iterate_resume w ch exc channel_exc ch' i)
  then show ?case by (auto simp: channel_iterator_resume_def case_prod_unfold dest!: arg_cong [where f = fst])
qed (simp_all add: channel_close_method_def channel_deadlock_fire_def channel_scope_close_fire_def
    channel_scope_close_dispose_def async_channel_dtor_object_def)

lemma run_capacity: "channel_run ch ins outs ch' \<Longrightarrow> ch_capacity ch' = ch_capacity ch"
  by (induction rule: channel_run.induct) (simp_all add: step_capacity)

lemma buffered_uncommitted: "channel_wf ch \<Longrightarrow> 0 < ch_capacity ch \<Longrightarrow> uncommitted ch = []"
  using channel_wfD(6) [of ch] by (auto simp: storage_ok_def uncommitted_def channel_is_buffered_def)

lemma step_no_drop:
  "channel_step ch ins outs ch' \<Longrightarrow> channel_wf ch \<Longrightarrow> 0 < ch_capacity ch \<Longrightarrow> \<exists>vs. outs = map Received vs"
  by (erule channel_step.cases) (auto simp: buffered_uncommitted simp flip: map_append)

lemma run_no_drop:
  assumes "channel_run ch ins outs ch'" and "channel_wf ch" and "channel_contents ch = []" and "0 < ch_capacity ch"
  shows "\<exists>vs. outs = map Received vs"
  using assms
proof (induction rule: channel_run.induct)
  case (run_step ch ins outs ch' ins' outs' ch'')
  then have "channel_wf ch'" "0 < ch_capacity ch'"
    using channel_run_good run_capacity by force+
  then obtain vs' where "outs' = map Received vs'" using step_no_drop [OF run_step.hyps(2)] by blast
  with run_step show ?case by (metis map_append)
qed simp

subsection \<open>Construction\<close>

lemma bind_frame:
  "\<exists>x. channel_bind_to_owner_scope cur main ch = ch\<lparr>ch_scope_event := x\<rparr>"
proof -
  have "\<exists>x. ch = ch\<lparr>ch_scope_event := x\<rparr>" by (rule exI [of _ "ch_scope_event ch"]) simp
  then show ?thesis by (auto simp: channel_bind_to_owner_scope_def split: option.split prod.split)
qed

lemma fresh_wf:
  fixes env :: "timer_outcome list" and np nc :: int and hard :: bool
  assumes "0 \<le> capacity" "capacity \<le> INT32_MAX"
    and "0 < capacity \<Longrightarrow> cb_wf b \<and> cb_items b = [] \<and> nat capacity < unat (cb_capacity b)"
  defines "ch \<equiv> (async_channel_create_object env)\<lparr>ch_capacity := capacity, ch_no_producer_timeout_ms := np,
      ch_no_consumer_timeout_ms := nc, ch_hard_timeouts := hard, ch_buffer := b\<rparr>"
  shows "channel_wf ch" "channel_contents ch = []"
proof -
  have "storage_ok ch"
    using assms by (auto simp: ch_def storage_ok_def async_channel_create_object_def channel_is_buffered_def
        simp del: length_cb_items)
  then show "channel_wf ch"
    by (intro channel_wfI)
      (simp_all add: ch_def async_channel_create_object_def channel_core_ok_def reserve_ok_def queue_defs
        closed_ok_def deliver_ok_def deliver_weak_def recv_bal_def send_bal_def commit_ok_def)
  show "channel_contents ch = []"
    using assms(3) by (auto simp: ch_def channel_contents_def async_channel_create_object_def channel_is_buffered_def)
qed

lemma construct_ok:
  assumes "channel_construct ok cur main capacity np nc hard (async_channel_create_object env) = Inr ch"
  shows "channel_wf ch" "channel_contents ch = []" "ch_capacity ch = capacity"
proof -
  let ?o = "async_channel_create_object env :: 'a channel"
  have range: "0 \<le> capacity" "capacity \<le> INT32_MAX"
    using assms by (auto simp: channel_construct_def split: if_splits)
  have "\<exists>b x. ch = (?o\<lparr>ch_capacity := capacity, ch_no_producer_timeout_ms := np,
      ch_no_consumer_timeout_ms := nc, ch_hard_timeouts := hard, ch_buffer := b\<rparr>)\<lparr>ch_scope_event := x\<rparr>
      \<and> (0 < capacity \<longrightarrow> cb_wf b \<and> cb_items b = [] \<and> nat capacity < unat (cb_capacity b))"
  proof (cases "0 < capacity")
    case False
    let ?c = "?o\<lparr>ch_capacity := capacity, ch_no_producer_timeout_ms := np,
      ch_no_consumer_timeout_ms := nc, ch_hard_timeouts := hard\<rparr>"
    have "ch = channel_bind_to_owner_scope cur main ?c"
      using assms False by (auto simp: channel_construct_def split: if_splits)
    then obtain x where "ch = ?c\<lparr>ch_scope_event := x\<rparr>" using bind_frame [of cur main ?c] by blast
    with False show ?thesis by (intro exI [of _ "ch_buffer ?o"] exI [of _ x]) simp
  next
    case True
    let ?n = "word_of_int (capacity + 1) :: size_t"
    have n: "unat ?n = Suc (nat capacity)"
      using unat_size_of_int [of "capacity + 1"] range True by (simp add: INT32_MAX_def nat_add_distrib)
    have alloc: ok using assms True
      by (cases ok) (auto simp: channel_construct_def circular_buffer_ctor_def Let_def split: if_splits option.splits)
    have "0 < ?n" "unat ?n \<le> 2 ^ 63" using n range by (auto simp: word_gt_0 unat_gt_0 INT32_MAX_def simp flip: unat_gt_0)
    then obtain b where b: "circular_buffer_ctor True (ch_buffer ?o) ?n 16 = Some (b, SUCCESS)" "cb_wf b" "cb_items b = []" "?n \<le> cb_capacity b"
      using ctor_ok by blast
    let ?c = "?o\<lparr>ch_capacity := capacity, ch_no_producer_timeout_ms := np,
      ch_no_consumer_timeout_ms := nc, ch_hard_timeouts := hard, ch_buffer := b\<rparr>"
    have "ch = channel_bind_to_owner_scope cur main ?c"
      using assms True b(1) alloc by (auto simp: channel_construct_def Let_def split: if_splits)
    then obtain x where "ch = ?c\<lparr>ch_scope_event := x\<rparr>" using bind_frame [of cur main ?c] by blast
    moreover have "nat capacity < unat (cb_capacity b)" using b(4) n by (simp add: word_le_nat_alt)
    ultimately show ?thesis using b(2,3) by blast
  qed
  then obtain b x where ch: "ch = (?o\<lparr>ch_capacity := capacity, ch_no_producer_timeout_ms := np,
      ch_no_consumer_timeout_ms := nc, ch_hard_timeouts := hard, ch_buffer := b\<rparr>)\<lparr>ch_scope_event := x\<rparr>"
    and b: "0 < capacity \<Longrightarrow> cb_wf b \<and> cb_items b = [] \<and> nat capacity < unat (cb_capacity b)" by blast
  from fresh_wf [OF range b, where env = env and np = np and nc = nc and hard = hard] show "channel_wf ch" "channel_contents ch = []"
    unfolding ch by simp_all
  show "ch_capacity ch = capacity" by (simp add: ch)
qed

text \<open>A channel the constructor built and any schedule of operations led to.\<close>

definition reachable_from :: "int \<Rightarrow> 'v list \<Rightarrow> 'v departure list \<Rightarrow> 'v channel \<Rightarrow> bool" where
  "reachable_from capacity ins outs ch \<longleftrightarrow>
     (\<exists>ok cur main np nc hard env ch0.
        channel_construct ok cur main capacity np nc hard (async_channel_create_object env) = Inr ch0
        \<and> channel_run ch0 ins outs ch)"

lemma reachable_ok:
  assumes "reachable_from capacity ins outs ch"
  shows "channel_wf ch" "ins = map departed outs @ channel_contents ch" "ch_capacity ch = capacity"
    "0 < capacity \<Longrightarrow> \<exists>vs. outs = map Received vs"
  using assms construct_ok channel_run_good run_no_drop run_capacity unfolding reachable_from_def by metis+

subsection \<open>Executable evidence\<close>

text \<open>
  A rendezvous channel on which one coroutine waits in \<open>recv\<close> and another has sent 7 to
  it: the value is committed and the receiver holds its reservation.
\<close>

definition demo_rendezvous :: "int channel" where
  "demo_rendezvous = async_channel_create_object []"

definition demo_handoff :: "int channel" where
  "demo_handoff = fst (channel_send False 7 (fst (channel_recv False demo_rendezvous)))"

lemma demo_construct:
  "channel_construct True None None 0 0 0 False (async_channel_create_object []) = Inr demo_rendezvous"
  by (simp add: channel_construct_def INT32_MAX_def demo_rendezvous_def async_channel_create_object_def
      channel_bind_to_owner_scope_def)

lemma reachable_start: "reachable_from 0 [] [] demo_rendezvous"
  unfolding reachable_from_def using demo_construct run_start by blast

lemma reachable_step:
  assumes "reachable_from capacity ins outs ch" and "channel_step ch ins' outs' ch'"
  shows "reachable_from capacity (ins @ ins') (outs @ outs') ch'"
  using assms run_step unfolding reachable_from_def by blast

lemmas step_functions =
  step_send [OF surjective_pairing] step_sendAsync [OF surjective_pairing] step_recv [OF surjective_pairing]

lemma demo_handoff_state:
  "ch_parked_receivers demo_handoff = [0]" "ch_reserved_receivers demo_handoff = 1"
  "w_reserved (ch_waiters demo_handoff 0)" "\<not> ch_closed demo_handoff" "channel_contents demo_handoff = [7]"
  by code_simp+

lemma demo_reachable: "reachable_from 0 [7] [] demo_handoff"
proof -
  let ?r = "channel_recv False demo_rendezvous"
  have l: "returned (snd ?r) = []" "accepted False 7 (fst ?r) = [7]"
    "fulfilled (fst ?r) demo_handoff = []"
    by code_simp+
  have "reachable_from 0 [] [] (fst ?r)"
    using reachable_step [OF reachable_start step_functions(3) [where t = False]] l(1) by simp
  from reachable_step [OF this step_functions(1) [where t = False and v = 7]] l(2,3) show ?thesis
    by (simp add: demo_handoff_def)
qed

text \<open>
  A rendezvous channel whose slot was filled by \<open>sendAsync(1)\<close>, where a \<open>send()\<close> parked for
  space and was granted the slot that a \<open>recv()\<close> freed.
\<close>

definition demo_full :: "int channel" where
  "demo_full = fst (channel_send False 2 (fst (channel_sendAsync 1 demo_rendezvous)))"

definition demo_granted :: "int channel" where
  "demo_granted = fst (channel_recv False demo_full)"

lemma demo_granted_state:
  "ch_parked_senders demo_granted = [0]" "w_reserved (ch_waiters demo_granted 0)" "\<not> ch_closed demo_granted"
  by code_simp+

lemma demo_full_reachable: "reachable_from 0 [1] [] demo_full"
proof -
  let ?s = "channel_sendAsync 1 demo_rendezvous"
  have l: "accepted False 1 demo_rendezvous = [1]" "fulfilled demo_rendezvous (fst ?s) = []"
    "accepted False 2 (fst ?s) = []" "fulfilled (fst ?s) demo_full = []"
    by code_simp+
  have "reachable_from 0 [1] [] (fst ?s)"
    using reachable_step [OF reachable_start step_functions(2) [where v = 1]] l(1,2) by simp
  from reachable_step [OF this step_functions(1) [where t = False and v = 2]] l(3,4) show ?thesis
    by (simp add: demo_full_def)
qed

lemma demo_granted_reachable: "reachable_from 0 [1] [Received 1] demo_granted"
proof -
  have "returned (snd (channel_recv False demo_full)) = [1]" by code_simp
  with reachable_step [OF demo_full_reachable step_functions(3) [where t = False]] show ?thesis
    by (simp add: demo_granted_def)
qed

end
