(* ===== verification/Channel_Subscribers.thy ===== *)
theory Channel_Subscribers
  imports Channel_Reachable
begin

text \<open>
  The subscriptions of a channel's event.  \<open>channel_wait_for\<close> is the only code of
  \<^verbatim>\<open>channel.c\<close> that adds a callback to it, and every path that takes a waiter off its
  queue, or grants it a reservation, removes that waiter's callback first.  So a callback
  on the event always belongs to a waiter that is still queued and holds no reservation,
  and closing the channel, which fails exactly those, leaves the final
  \<^verbatim>\<open>ZEND_ASYNC_CALLBACKS_NOTIFY\<close> nobody to notify a second time.  A callback that other
  code subscribes through the event's \<^verbatim>\<open>add_callback\<close> is not part of the model.
\<close>

definition subscribers_ok :: "'v channel \<Rightarrow> bool" where
  "subscribers_ok ch \<longleftrightarrow> distinct (ch_callbacks ch)
     \<and> (\<forall>w\<in>set (ch_callbacks ch). w < ch_next_waiter ch \<and> \<not> w_reserved (ch_waiters ch w)
          \<and> w \<in> set (ch_waiting_receivers ch) \<union> set (ch_waiting_senders ch))"

text \<open>The fields the invariant reads.\<close>

lemma subscribers_cong:
  assumes "ch_callbacks x = ch_callbacks y" "ch_next_waiter x = ch_next_waiter y" "ch_waiters x = ch_waiters y"
    "ch_waiting_receivers x = ch_waiting_receivers y" "ch_waiting_senders x = ch_waiting_senders y"
  shows "subscribers_ok x = subscribers_ok y"
  using assms by (simp add: subscribers_ok_def)

lemma store_callbacks [simp]:
  "ch_callbacks (push_value ch v) = ch_callbacks ch" "ch_callbacks (store_rendezvous ch v) = ch_callbacks ch"
  "ch_callbacks (fst (channel_take_value ch)) = ch_callbacks ch"
  "ch_callbacks (drop_uncommitted ch) = ch_callbacks ch"
  by (simp_all add: push_value_def store_rendezvous_def channel_take_value_def drop_uncommitted_def
      split: prod.split)

lemma subscribers_frame [simp]:
  "subscribers_ok (channel_refresh_deadlock_timer ch) = subscribers_ok ch"
  "subscribers_ok (channel_disarm_deadlock_timer ch) = subscribers_ok ch"
  "subscribers_ok (ch\<lparr>ch_log := l\<rparr>) = subscribers_ok ch"
  "subscribers_ok (ch\<lparr>ch_reserved_receivers := n\<rparr>) = subscribers_ok ch"
  "subscribers_ok (ch\<lparr>ch_reserved_senders := n\<rparr>) = subscribers_ok ch"
  "subscribers_ok (ch\<lparr>ch_rendezvous_committed := b\<rparr>) = subscribers_ok ch"
  "subscribers_ok (ch\<lparr>ch_scope_event := e\<rparr>) = subscribers_ok ch"
  "subscribers_ok (ch\<lparr>ch_close_reason := r, ch_closed := True\<rparr>) = subscribers_ok ch"
  "subscribers_ok (push_value ch v) = subscribers_ok ch"
  "subscribers_ok (store_rendezvous ch v) = subscribers_ok ch"
  "subscribers_ok (fst (channel_take_value ch)) = subscribers_ok ch"
  "subscribers_ok (drop_uncommitted ch) = subscribers_ok ch"
  by (rule subscribers_cong; simp)+

subsection \<open>Every operation keeps the subscriptions\<close>

text \<open>The three ways a waiter's subscription ends: granted, taken off one queue, or the other.\<close>

lemma subscribers_grant:
  "subscribers_ok ch \<Longrightarrow> subscribers_ok (set_reserved (channel_del_callback ch w) w)"
  by (auto simp: subscribers_ok_def channel_del_callback_def set_reserved_def)

lemma subscribers_leave_receivers:
  "subscribers_ok ch \<Longrightarrow> (\<And>x. x \<in> set (ch_waiting_receivers ch) \<Longrightarrow> x \<noteq> w \<Longrightarrow> x \<in> set q) \<Longrightarrow>
    subscribers_ok (channel_del_callback (ch\<lparr>ch_waiting_receivers := q\<rparr>) w)"
  by (auto simp: subscribers_ok_def channel_del_callback_def)

lemma subscribers_leave_senders:
  "subscribers_ok ch \<Longrightarrow> (\<And>x. x \<in> set (ch_waiting_senders ch) \<Longrightarrow> x \<noteq> w \<Longrightarrow> x \<in> set q) \<Longrightarrow>
    subscribers_ok (channel_del_callback (ch\<lparr>ch_waiting_senders := q\<rparr>) w)"
  by (auto simp: subscribers_ok_def channel_del_callback_def)

lemma kept_in_queue:
  "x \<in> set q \<Longrightarrow> x \<noteq> w \<Longrightarrow> x \<in> set (fst (channel_queue_remove q w))"
  "n < length q \<Longrightarrow> x \<in> set q \<Longrightarrow> x \<noteq> q ! n \<Longrightarrow> x \<in> set (channel_queue_remove_at q n)"
proof -
  show "x \<in> set q \<Longrightarrow> x \<noteq> w \<Longrightarrow> x \<in> set (fst (channel_queue_remove q w))"
    by (simp add: channel_queue_remove_eq)
  assume n: "n < length q" "x \<in> set q" "x \<noteq> q ! n"
  then have "x \<in> set (take n q @ q ! n # drop (Suc n) q)" by (simp flip: id_take_nth_drop)
  with n(3) show "x \<in> set (channel_queue_remove_at q n)" by (auto simp: channel_queue_remove_at_def)
qed

lemma subscribers_wake_sender [step_inv]:
  assumes "subscribers_ok ch"
  shows "subscribers_ok (channel_wake_sender ch)"
proof -
  have "subscribers_ok (channel_wake_delivered_sender ch)"
    using assms subscribers_leave_senders [OF assms kept_in_queue(1)]
    by (auto simp: channel_wake_delivered_sender_def Let_def split: option.split)
  then show ?thesis
    using subscribers_grant [of "channel_wake_delivered_sender ch"]
    by (auto simp: channel_wake_sender_def Let_def split: option.split)
qed

lemma subscribers_wake_receiver [step_inv]:
  assumes "subscribers_ok ch"
  shows "subscribers_ok (fst (channel_wake_receiver ch))"
proof -
  have "subscribers_ok (channel_wake_sender (ch'\<lparr>ch_log := l\<rparr>))"
    if "ch' = fst (channel_take_value (channel_del_callback
          (ch\<lparr>ch_waiting_receivers := fst (channel_queue_remove (ch_waiting_receivers ch) w)\<rparr>) w))" for ch' l w
    using subscribers_leave_receivers [OF assms kept_in_queue(1)] that by (intro subscribers_wake_sender) simp
  then show ?thesis
    using assms subscribers_grant [OF assms]
    by (auto simp: channel_wake_receiver_def Let_def split: option.split prod.split) (metis fst_conv)
qed

lemma subscribers_wake_all_receivers:
  assumes "subscribers_ok ch" "n \<le> length (ch_waiting_receivers ch)"
  shows "subscribers_ok (wake_all_receivers ex n ch)"
  using assms
proof (induction n arbitrary: ch)
  case (Suc n)
  let ?q = "channel_queue_remove_at (ch_waiting_receivers ch) n"
  let ?d = "channel_del_callback (ch\<lparr>ch_waiting_receivers := ?q\<rparr>) (ch_waiting_receivers ch ! n)"
  have "subscribers_ok ?d"
    using Suc.prems by (intro subscribers_leave_receivers kept_in_queue(2)) simp_all
  moreover have "n \<le> length ?q" using Suc.prems by (simp add: channel_queue_remove_at_def)
  ultimately show ?case
    using Suc.IH [of ch] Suc.IH [of "?d\<lparr>ch_log := l\<rparr>" for l] Suc.prems
    by (auto simp: Let_def del_frame split: option.split)
qed simp

lemma subscribers_wake_all_senders:
  assumes "subscribers_ok ch" "n \<le> length (ch_waiting_senders ch)"
  shows "subscribers_ok (wake_all_senders ex n ch)"
  using assms
proof (induction n arbitrary: ch)
  case (Suc n)
  let ?q = "channel_queue_remove_at (ch_waiting_senders ch) n"
  let ?d = "channel_del_callback (ch\<lparr>ch_waiting_senders := ?q\<rparr>) (ch_waiting_senders ch ! n)"
  have "subscribers_ok ?d"
    using Suc.prems by (intro subscribers_leave_senders kept_in_queue(2)) simp_all
  moreover have "n \<le> length ?q" using Suc.prems by (simp add: channel_queue_remove_at_def)
  ultimately show ?case
    using Suc.IH [of "?d\<lparr>ch_log := l\<rparr>" for l] by (simp add: Let_def del_frame)
qed simp

text \<open>
  Closing: once every unreserved receiver and every sender has been failed and taken off
  its queue, no callback is left, so the log is the list of those failures and nothing else.
\<close>

lemma close_notifies_nobody:
  fixes ch :: "'v channel" and reason :: channel_close_reason
  assumes sub: "subscribers_ok ch" and "\<not> ch_closed ch"
  defines "c \<equiv> channel_close ch reason" and "ex \<equiv> make_channel_exception reason"
    and "q \<equiv> filter (\<lambda>w. \<not> w_reserved (ch_waiters ch w)) (ch_waiting_receivers ch)"
  shows "ch_callbacks c = []"
    "ch_log c = ch_log ch @ map (failure_of ch ex) (rev q) @ map (\<lambda>w. Failed w ex) (rev (ch_waiting_senders ch))"
proof -
  let ?o = "channel_disarm_deadlock_timer (ch\<lparr>ch_close_reason := reason, ch_closed := True\<rparr>)"
  let ?r = "wake_all_receivers ex (length (ch_waiting_receivers ?o)) ?o"
  let ?s = "wake_all_senders ex (length (ch_waiting_senders ?r)) ?r"
  note sp = close_spec [OF assms(2), of reason, folded c_def ex_def]
  have c: "c = drop_uncommitted (?s\<lparr>ch_log := ch_log ?s @ map (\<lambda>w. Notified w ex) (ch_callbacks ?s)\<rparr>)"
    using assms(2) by (simp add: c_def ex_def channel_close_def channel_wake_all_def Let_def)
  have "subscribers_ok ?s"
    using sub by (intro subscribers_wake_all_senders subscribers_wake_all_receivers) simp_all
  then have "subscribers_ok c" by (simp only: c subscribers_frame)
  then have "w \<notin> set (ch_callbacks c)" for w by (auto simp: subscribers_ok_def sp(4-6))
  then show "ch_callbacks c = []" by (cases "ch_callbacks c") auto
  with sp(13) show "ch_log c = ch_log ch @ map (failure_of ch ex) (rev q)
      @ map (\<lambda>w. Failed w ex) (rev (ch_waiting_senders ch))"
    by (simp add: q_def)
qed

lemma subscribers_close [step_inv]:
  assumes "subscribers_ok ch"
  shows "subscribers_ok (channel_close ch reason)"
proof (cases "ch_closed ch")
  case True
  with assms show ?thesis by (simp add: channel_close_def)
next
  case False
  then show ?thesis using close_notifies_nobody(1) [OF assms False] by (simp add: subscribers_ok_def)
qed

lemma subscribers_wait_begin [step_inv]:
  "subscribers_ok ch \<Longrightarrow> subscribers_ok (fst (channel_wait_begin is_receiver delivering ch))"
  by (auto simp: channel_wait_begin_def Let_def subscribers_ok_def channel_add_callback_def channel_queue_push_def)

lemma subscribers_wait_end [step_inv]:
  assumes "subscribers_ok ch"
  shows "subscribers_ok (fst (channel_wait_end is_receiver w exception ch))"
proof -
  have r: "subscribers_ok ((channel_del_callback ch w)\<lparr>ch_waiting_receivers := remove1 w (ch_waiting_receivers ch),
      ch_parked_receivers := x\<rparr>)" for x
    using assms by (auto simp: subscribers_ok_def channel_del_callback_def)
  have s: "subscribers_ok ((channel_del_callback ch w)\<lparr>ch_waiting_senders := remove1 w (ch_waiting_senders ch),
      ch_parked_senders := x\<rparr>)" for x
    using assms by (auto simp: subscribers_ok_def channel_del_callback_def)
  show ?thesis
    by (cases is_receiver)
      (simp_all add: channel_wait_end_def Let_def channel_queue_remove_eq del_frame r s
        subscribers_wake_receiver subscribers_wake_sender split: prod.split)
qed

lemma subscribers_retry [step_inv]:
  assumes "subscribers_ok ch"
  shows "subscribers_ok (fst (channel_send_retry t v res ch))" "subscribers_ok (fst (channel_recv_retry t res ch))"
    "subscribers_ok (fst (channel_iterator_retry res ch))"
proof -
  have b: "subscribers_ok c" if "channel_wait_begin r d x = (c, w)" "subscribers_ok x" for r d w and x c :: "'a channel"
    using subscribers_wait_begin [OF that(2), of r d] that(1) by simp
  have t: "subscribers_ok (channel_wake_sender c)" if "channel_take_value ch = (c, x)" for c x
    using subscribers_frame(11) [of ch] assms that by (intro subscribers_wake_sender) simp
  have w: "subscribers_ok c" if "channel_wake_receiver (store_rendezvous ch v) = (c, x)" for c x
    using subscribers_wake_receiver [of "store_rendezvous ch v"] assms that by simp
  show "subscribers_ok (fst (channel_send_retry t v res ch))"
    using assms by (auto simp: channel_send_retry_def subscribers_wake_receiver intro: b w split: prod.split bool.split)
  show "subscribers_ok (fst (channel_recv_retry t res ch))" "subscribers_ok (fst (channel_iterator_retry res ch))"
    using assms by (auto simp: channel_recv_retry_def channel_iterator_retry_def intro: b t split: prod.split)
qed

lemma subscribers_async [step_inv]:
  assumes "subscribers_ok ch"
  shows "subscribers_ok (fst (channel_sendAsync v ch))" "subscribers_ok (fst (channel_recvAsync f ch))"
    "subscribers_ok (channel_recv_future_dispose closed waiter ch)"
proof -
  have w: "subscribers_ok c" if "channel_wake_receiver (store_rendezvous ch v) = (c, x)" for c x
    using subscribers_wake_receiver [of "store_rendezvous ch v"] assms that by simp
  have t: "subscribers_ok (channel_wake_sender c)" if "channel_take_value ch = (c, x)" for c x
    using subscribers_frame(11) [of ch] assms that by (intro subscribers_wake_sender) simp
  show "subscribers_ok (fst (channel_sendAsync v ch))"
    using assms by (auto simp: channel_sendAsync_def subscribers_wake_receiver intro: w split: prod.split bool.split)
  show "subscribers_ok (fst (channel_recvAsync f ch))"
  proof -
    have "subscribers_ok (ch\<lparr>ch_next_waiter := Suc (ch_next_waiter ch),
        ch_waiters := (ch_waiters ch)(ch_next_waiter ch := x),
        ch_waiting_receivers := channel_queue_push (ch_waiting_receivers ch) (ch_next_waiter ch)\<rparr>)" for x
      using assms by (auto simp: subscribers_ok_def channel_queue_push_def)
    then show ?thesis using assms t by (simp add: channel_recvAsync_def Let_def split: prod.split)
  qed
  show "subscribers_ok (channel_recv_future_dispose closed waiter ch)"
    using assms by (auto simp: channel_recv_future_dispose_def channel_queue_remove_eq
        intro!: subscribers_leave_receivers split: option.split prod.split bool.split)
qed

subsection \<open>Every reachable channel\<close>

lemma subscribers_step:
  assumes "channel_step ch ins outs ch'" and sub: "subscribers_ok ch"
  shows "subscribers_ok ch'"
proof -
  have e: "subscribers_ok c" if "channel_wait_end r w exc ch = (c, res)" for r w exc c res
    using subscribers_wait_end [OF sub, of r w exc] that by simp
  show ?thesis
    using assms(1)
  proof cases
    case (step_send t v r)
    then show ?thesis using sub subscribers_retry(1) [OF sub, of t v False] by (simp add: channel_send_def split: if_splits)
  next
    case (step_send_space w exc c res t v r)
    then show ?thesis using e subscribers_retry(1) [of c t v res]
      by (auto simp: channel_send_resume_space_def split: if_splits)
  next
    case (step_send_delivery w exc r)
    then show ?thesis using e by (auto simp: channel_send_resume_delivery_def split: prod.splits)
  next
    case (step_sendAsync v r)
    then show ?thesis using subscribers_async(1) [OF sub, of v] by simp
  next
    case (step_recv t r)
    then show ?thesis using sub subscribers_retry(2) [OF sub, of t False] by (simp add: channel_recv_def split: if_splits)
  next
    case (step_recv_resume w t exc r)
    obtain c res where c: "channel_wait_end True w exc ch = (c, res)" by force
    then show ?thesis using step_recv_resume e [OF c] subscribers_retry(2) [of c t res]
      by (auto simp: channel_recv_resume_def split: if_splits)
  next
    case (step_recvAsync f q)
    then show ?thesis using subscribers_async(2) [OF sub, of f] by simp
  next
    case (step_iterate i)
    then show ?thesis using subscribers_retry(3) [OF sub, of False] by (simp add: channel_iterator_move_forward_def)
  next
    case (step_iterate_resume w exc channel_exc i)
    obtain c res where c: "channel_wait_end True w exc ch = (c, res)" by force
    then show ?thesis using step_iterate_resume e [OF c] subscribers_retry(3) [of c res]
      by (auto simp: channel_iterator_resume_def split: if_splits)
  qed (use sub in \<open>simp_all add: subscribers_async(3) subscribers_close channel_close_method_def channel_deadlock_fire_def
    channel_scope_close_fire_def channel_scope_close_dispose_def async_channel_dtor_object_def\<close>)
qed

lemma subscribers_run: "channel_run ch ins outs ch' \<Longrightarrow> subscribers_ok ch \<Longrightarrow> subscribers_ok ch'"
  by (induction rule: channel_run.induct) (auto dest: subscribers_step)

lemma subscribers_construct:
  assumes "channel_construct ok cur main capacity np nc hard (async_channel_create_object env) = Inr ch"
  shows "subscribers_ok ch"
proof -
  have "ch_callbacks (channel_bind_to_owner_scope cur main c) = ch_callbacks c" for c :: "'a channel"
    using bind_frame [of cur main c] by auto
  then have "ch_callbacks ch = []"
    using assms by (auto simp: channel_construct_def async_channel_create_object_def Let_def
        split: if_splits option.splits prod.splits zend_result.splits)
  then show ?thesis by (simp add: subscribers_ok_def)
qed

lemma reachable_subscribers: "reachable_from capacity ins outs ch \<Longrightarrow> subscribers_ok ch"
  unfolding reachable_from_def using subscribers_construct subscribers_run by metis

text \<open>The waiters a close fails are pairwise different.\<close>

lemma waiters_distinct:
  assumes "channel_wf ch"
  shows "distinct (ch_waiting_receivers ch @ ch_waiting_senders ch)"
  using channel_wfD(8) [OF assms] by (auto simp: queue_defs)

end
