(* ===== verification/Channel_Properties.thy ===== *)
theory Channel_Properties
  imports Channel_Subscribers
begin

text \<open>
  What a program that uses channels can rely on, in every schedule.
\<close>

subsection \<open>Reservations and waiters\<close>

text \<open>
  C1.  In every reachable state of a channel the reservations handed to woken receivers
  are covered by stored values and those of woken senders by free slots, the storage holds
  exactly the capacity (one slot for a rendezvous channel), and no waiter is stranded: when
  a value is free every queued receiver already holds a reservation, and when a slot is
  free every queued sender holds one or waits for its own value to be taken.
\<close>

theorem channel_waiters_never_stranded:
  assumes "reachable_from capacity ins outs ch"
  shows "ch_reserved_receivers ch \<le> unat (channel_count ch)
    \<and> ch_reserved_senders ch \<le> unat (channel_free_space ch)
    \<and> unat (channel_count ch) + unat (channel_free_space ch) = nat (max 1 capacity)
    \<and> (channel_has_free_value ch \<longrightarrow> (\<forall>w\<in>set (ch_waiting_receivers ch). w_reserved (ch_waiters ch w)))
    \<and> (channel_has_free_slot ch \<longrightarrow>
        (\<forall>w\<in>set (ch_waiting_senders ch). w_reserved (ch_waiters ch w) \<or> w_delivering (ch_waiters ch w)))"
proof -
  note wf = channel_wfD [OF reachable_ok(1) [OF assms]]
  have "cnt ch + room ch = nat (max 1 capacity)"
    using room_slots [OF wf(6)] wf(6) reachable_ok(3) [OF assms]
    by (auto simp: slots_def channel_is_buffered_def storage_ok_def max_def)
  with wf show ?thesis
    by (auto simp: reserve_ok_def recv_bal_def send_bal_def channel_has_free_value_def channel_has_free_slot_def)
qed

theorem channel_waiters_never_stranded_witness:
  "ch_reserved_receivers demo_handoff = 1 \<and> unat (channel_count demo_handoff) = 1
    \<and> unat (channel_free_space demo_handoff) = 0"
proof -
  have "unat (channel_count demo_handoff) = 1" by code_simp
  with channel_waiters_never_stranded [OF demo_reachable] demo_handoff_state(2) show ?thesis by simp
qed

text \<open>
  C2.  Exactly once and in order: the values put into a channel, in the order in which
  they were accepted, are the values that left it, in the order in which they left,
  followed by the values still stored; at most the capacity is stored.  From a buffered
  channel values leave only to a receiver; a rendezvous channel may also drop the value of
  its slot (closed, or its sender cancelled, before a receiver was promised it).
\<close>

theorem channel_fifo_exactly_once:
  assumes "reachable_from capacity ins outs ch"
  shows "ins = map departed outs @ channel_contents ch
    \<and> length (channel_contents ch) \<le> nat (max 1 capacity)
    \<and> (0 < capacity \<longrightarrow> (\<exists>vs. outs = map Received vs))"
proof -
  note wf = channel_wfD(6) [OF reachable_ok(1) [OF assms]]
  have "length (channel_contents ch) \<le> slots ch"
    using cnt_contents [OF wf] room_slots [OF wf] by simp
  then have "length (channel_contents ch) \<le> nat (max 1 capacity)"
    using wf reachable_ok(3) [OF assms]
    by (auto simp: slots_def channel_is_buffered_def storage_ok_def max_def split: if_splits)
  with reachable_ok(2,4) [OF assms] show ?thesis by blast
qed

theorem channel_fifo_exactly_once_witness: "channel_contents demo_handoff = [7]"
  using channel_fifo_exactly_once [OF demo_reachable] by simp

text \<open>
  A receiver that was woken with a reservation gets a value: whatever ran between
  its wake-up and its resumption, \<open>recv()\<close> neither parks again nor throws, and it takes
  the oldest value of the channel.
\<close>

theorem reserved_receiver_is_served:
  assumes "reachable_from capacity ins outs ch"
    and "w \<in> set (ch_parked_receivers ch)" and "w_reserved (ch_waiters ch w)"
  shows "\<exists>v ch'. channel_recv_resume t w False ch = (ch', Returned_Value (Some v))
    \<and> channel_contents ch = v # channel_contents ch'"
proof -
  note wf = reachable_ok(1) [OF assms(1)]
  obtain c res where e: "channel_wait_end True w False ch = (c, res)" by force
  have res: res using wait_end_receiver_ok [OF wf assms(2) e] assms(3) by simp
  note k = wait_end_receiver_conserves [OF wf assms(2) e]
  obtain d v where t: "channel_take_value c = (d, v)" by force
  have "channel_recv_resume t w False ch = (channel_wake_sender d, Returned_Value v)"
    using e res t by (simp add: channel_recv_resume_def channel_recv_retry_def)
  with receive_ok(3) [OF k(3) _ t] res k(2) show ?thesis by auto
qed

theorem reserved_receiver_is_served_witness:
  "\<exists>ch'. channel_recv_resume False 0 False demo_handoff = (ch', Returned_Value (Some 7))"
  using reserved_receiver_is_served [OF demo_reachable, of 0 False] demo_handoff_state by auto

text \<open>
  A sender woken for space while the channel stays open stores its value: on a
  buffered channel \<open>send()\<close> returns; on a rendezvous channel it returns, or parks
  once more as the delivering sender of its own value.
\<close>

theorem reserved_sender_is_served:
  assumes "reachable_from capacity ins outs ch" and "w \<in> set (ch_parked_senders ch)"
    and "w_reserved (ch_waiters ch w)" and "\<not> ch_closed ch"
    and "channel_send_resume_space False v w False ch = (ch', r)"
  shows "channel_contents ch @ [v] = fulfilled ch ch' @ channel_contents ch'
    \<and> (r = Returned \<or> \<not> channel_is_buffered ch \<and> (\<exists>w'. r = Parked w' \<and> w_delivering (ch_waiters ch' w')))"
proof -
  note wf = reachable_ok(1) [OF assms(1)]
  obtain c res where e: "channel_wait_end False w False ch = (c, res)" by force
  have res: res using wait_end_sender_ok [OF wf assms(2) e] assms(3) by simp
  have nd: "\<not> w_delivering (ch_waiters ch w)"
    using channel_wfD(8) [OF wf] assms(2,3) by (auto simp: queue_ok_def parked_ok_def)
  note k = wait_end_sender_conserves [OF wf assms(2) e]
  have cl: "\<not> ch_closed c" "channel_is_buffered c = channel_is_buffered ch"
  proof -
    have "c = fst (channel_wait_end False w False ch)" using e by simp
    then show "\<not> ch_closed c" "channel_is_buffered c = channel_is_buffered ch"
      using assms(4) by (simp_all add: wait_end_sender_eq del_frame)
  qed
  have s: "channel_send_retry False v res c = (ch', r)" using assms(5) e by (simp add: channel_send_resume_space_def)
  have "r = Returned \<or> \<not> channel_is_buffered ch \<and> (\<exists>w'. r = Parked w' \<and> w_delivering (ch_waiters ch' w'))"
    using s res cl by (auto simp: channel_send_retry_def channel_wait_begin_def Let_def channel_add_callback_def
        split: if_splits prod.splits bool.splits)
  moreover have "channel_contents ch @ [v] = fulfilled ch ch' @ channel_contents ch'"
    using send_space_step [OF wf assms(2) nd e assms(5)] cl res by (simp add: step_good_def accepted_def)
  ultimately show ?thesis by blast
qed

theorem reserved_sender_is_served_witness:
  "channel_contents demo_granted @ [2] = fulfilled demo_granted (fst (channel_send_resume_space False 2 0 False demo_granted))
     @ channel_contents (fst (channel_send_resume_space False 2 0 False demo_granted))"
  using reserved_sender_is_served [OF demo_granted_reachable _ _ _ surjective_pairing, of 0 2]
    demo_granted_state by simp

subsection \<open>Closing\<close>

text \<open>
  C10.  Closing an open channel fails every waiter exactly once.  The log of effects grows
  by one failure for each queued receiver without a reservation (a \<open>recvAsync\<close> future is
  rejected, a coroutine resumed with the channel's exception) and one for each queued
  sender, all of different waiters, and by nothing else: no callback is left on the
  channel's event, so the notification that ends the close tells nobody a second time.
  Receivers that were already granted a value keep it, nothing else stays queued, and only
  an uncommitted rendezvous value is lost.
\<close>

theorem channel_close_fails_all_waiters:
  fixes reason :: channel_close_reason and ch :: "'v channel"
  assumes "reachable_from capacity ins outs ch" and "\<not> ch_closed ch"
  defines "c \<equiv> channel_close ch reason" and "ex \<equiv> make_channel_exception reason"
    and "unserved \<equiv> filter (\<lambda>w. \<not> w_reserved (ch_waiters ch w)) (ch_waiting_receivers ch)"
  shows "ch_closed c \<and> ch_close_reason c = reason \<and> \<not> ch_deadlock_timer c \<and> ch_waiting_senders c = []
    \<and> ch_waiting_receivers c = filter (\<lambda>w. w_reserved (ch_waiters ch w)) (ch_waiting_receivers ch)
    \<and> channel_contents ch = uncommitted ch @ channel_contents c
    \<and> ch_log c = ch_log ch @ map (failure_of ch ex) (rev unserved)
        @ map (\<lambda>w. Failed w ex) (rev (ch_waiting_senders ch))
    \<and> distinct (unserved @ ch_waiting_senders ch) \<and> ch_callbacks c = []"
proof -
  note wf = reachable_ok(1) [OF assms(1)]
  have "distinct (unserved @ ch_waiting_senders ch)"
    using waiters_distinct [OF wf] by (auto simp: unserved_def)
  then show ?thesis
    using close_spec(1-5) [OF assms(2), of reason] close_conserves(2) [OF wf assms(2), of reason]
      close_notifies_nobody [OF reachable_subscribers [OF assms(1)] assms(2), of reason]
    by (simp add: c_def ex_def unserved_def)
qed

theorem channel_close_fails_all_waiters_witness:
  "ch_log (channel_close demo_full CHANNEL_CLOSE_EXPLICIT)
       = ch_log demo_full @ [Failed 0 (make_channel_exception CHANNEL_CLOSE_EXPLICIT)]
    \<and> ch_callbacks demo_full = [0] \<and> ch_callbacks (channel_close demo_full CHANNEL_CLOSE_EXPLICIT) = []
    \<and> channel_contents demo_full = [1] @ channel_contents (channel_close demo_full CHANNEL_CLOSE_EXPLICIT)"
proof -
  have "\<not> ch_closed demo_full" "uncommitted demo_full = [1]" "ch_waiting_receivers demo_full = []"
    "ch_waiting_senders demo_full = [0]" "ch_callbacks demo_full = [0]" by code_simp+
  with channel_close_fails_all_waiters [OF demo_full_reachable, of CHANNEL_CLOSE_EXPLICIT] show ?thesis by simp
qed

text \<open>
  A closed channel still hands out what it stores.  With no value promised to another
  receiver, \<open>recv()\<close> returns the oldest value and leaves the rest; once the channel is
  empty it throws the exception of the close reason.  \<open>send()\<close> always throws it and
  \<open>sendAsync()\<close> always returns false.
\<close>

theorem closed_channel_drains:
  assumes "reachable_from capacity ins outs ch" and "ch_closed ch" and "ch_reserved_receivers ch = 0"
  shows "(case channel_contents ch of
      [] \<Rightarrow> channel_recv False ch = (ch, Threw (make_channel_exception (ch_close_reason ch)))
    | v # vs \<Rightarrow> snd (channel_recv False ch) = Returned_Value (Some v)
        \<and> channel_contents (fst (channel_recv False ch)) = vs \<and> ch_closed (fst (channel_recv False ch)))
    \<and> channel_send False x ch = (ch, Threw (make_channel_exception (ch_close_reason ch)))
    \<and> channel_sendAsync x ch = (ch, Returned_Bool False)"
proof -
  note wf = reachable_ok(1) [OF assms(1)]
  have fv: "channel_has_free_value ch \<longleftrightarrow> channel_contents ch \<noteq> []"
    using cnt_contents [OF channel_wfD(6) [OF wf]] assms(3) by (auto simp: channel_has_free_value_def)
  have "case channel_contents ch of
      [] \<Rightarrow> channel_recv False ch = (ch, Threw (make_channel_exception (ch_close_reason ch)))
    | v # vs \<Rightarrow> snd (channel_recv False ch) = Returned_Value (Some v)
        \<and> channel_contents (fst (channel_recv False ch)) = vs \<and> ch_closed (fst (channel_recv False ch))"
  proof (cases "channel_contents ch")
    case Nil
    with fv assms(2) show ?thesis by (simp add: channel_recv_def channel_recv_retry_def)
  next
    case (Cons v vs)
    obtain d x where t: "channel_take_value ch = (d, x)" by force
    have "d = fst (channel_take_value ch)" using t by simp
    then have "ch_closed d" using assms(2) by simp
    moreover have "channel_recv False ch = (channel_wake_sender d, Returned_Value x)"
      using fv Cons t by (simp add: channel_recv_def channel_recv_retry_def)
    ultimately show ?thesis
      using receive_ok(3) [of False, OF _ _ t] fv Cons wf by (auto simp: receiver_entry_def)
  qed
  moreover have "channel_send False x ch = (ch, Threw (make_channel_exception (ch_close_reason ch)))"
    "channel_sendAsync x ch = (ch, Returned_Bool False)"
    using assms(2) by (simp_all add: channel_send_def channel_send_retry_def channel_sendAsync_def)
  ultimately show ?thesis by blast
qed

lemma demo_closed_reachable:
  "reachable_from 0 [1] [Dropped 1] (channel_close_method demo_full)"
proof -
  have "ch_closed demo_full = False" "uncommitted demo_full = [1]" by code_simp+
  with reachable_step [OF demo_full_reachable step_close] show ?thesis by simp
qed

theorem closed_channel_drains_witness:
  "channel_sendAsync 3 (channel_close_method demo_full) = (channel_close_method demo_full, Returned_Bool False)"
proof -
  have "ch_closed (channel_close_method demo_full)" "ch_reserved_receivers (channel_close_method demo_full) = 0"
    by code_simp+
  from closed_channel_drains [OF demo_closed_reachable this] show ?thesis by blast
qed

subsection \<open>Lifetime\<close>

lemma gc_scan_from:
  assumes wf: "cb_wf b" and "k \<le> unat (circular_buffer_count b)"
    and "unat (circular_buffer_count b) - k \<le> fuel"
    and "unat idx = (unat (cb_tail b) + k) mod unat (cb_capacity b)"
  shows "gc_scan fuel b idx = Some (drop k (cb_slots b))"
  using assms(2-4)
proof (induction fuel arbitrary: k idx)
  let ?c = "unat (cb_capacity b)" and ?t = "unat (cb_tail b)" and ?n = "unat (circular_buffer_count b)"
  note law = cb_index_laws [OF wf wf wf wf wf]
  have head: "idx = cb_head b \<longleftrightarrow> k = ?n" if "k \<le> ?n" "unat idx = (?t + k) mod ?c" for idx k
    using law(1,2) that mod_neq_same_period [of k ?n ?c ?t] by (cases "k = ?n") (auto simp: word_unat_eq_iff)
  {
    case 0
    then show ?case using head [of k idx] by (simp add: cb_slots_def)
  next
    case (Suc fuel)
    show ?case
    proof (cases "k = ?n")
      case True
      with Suc.prems head [of k idx] show ?thesis by (simp add: cb_slots_def)
    next
      case False
      let ?i = "(idx + 1) AND (cb_capacity b - 1)"
      have "unat idx < ?c" using Suc.prems(3) cb_wf_nat(5) [OF wf] by simp
      then have "unat ?i = Suc (unat idx) mod ?c"
        using unat_next_index [OF cb_wf_nat(4) [OF wf]] by (simp add: next_index_def)
      then have "unat ?i = (?t + Suc k) mod ?c" using Suc.prems(3) by (simp add: mod_Suc_eq)
      then have "gc_scan fuel b ?i = Some (drop (Suc k) (cb_slots b))"
        using Suc.prems False by (intro Suc.IH) auto
      moreover have "drop k (cb_slots b) = cb_data b ! unat idx # drop (Suc k) (cb_slots b)"
      proof -
        have "k < length (cb_slots b)" using Suc.prems False by (simp add: cb_slots_def)
        then have "drop k (cb_slots b) = cb_slots b ! k # drop (Suc k) (cb_slots b)"
          by (rule Cons_nth_drop_Suc [symmetric])
        moreover have "cb_slots b ! k = cb_data b ! unat idx"
          using Suc.prems False cb_wf_nat(3) [OF wf] by (simp add: cb_slots_def ring_nth)
        ultimately show ?thesis by simp
      qed
      ultimately show ?thesis using head [of k idx] Suc.prems False by simp
    qed
  }
qed

text \<open>
  The garbage collector sees every stored value of a channel and nothing else, in
  order: its walk from the tail to the head of the raw buffer ends and reports exactly the
  contents.
\<close>

theorem get_gc_reports_contents:
  assumes "reachable_from capacity ins outs ch"
  shows "async_channel_get_gc ch = Some (map Some (channel_contents ch))"
proof (cases "channel_is_buffered ch")
  case True
  have st: "storage_ok ch" using reachable_ok(1) [OF assms] by (rule channel_wfD(6))
  let ?b = "ch_buffer ch"
  have wf: "cb_wf ?b" using st True by (simp add: storage_ok_def)
  have "gc_scan (unat (cb_capacity ?b)) ?b (cb_tail ?b) = Some (drop 0 (cb_slots ?b))"
    using cb_index_laws(1) [OF wf wf wf wf wf] cb_wf_nat(2) [OF wf] by (intro gc_scan_from [OF wf]) auto
  with True cb_slots_eq_items [OF wf] show ?thesis by (simp add: async_channel_get_gc_def channel_contents_def)
next
  case False
  have "storage_ok ch" using reachable_ok(1) [OF assms] by (rule channel_wfD(6))
  with False show ?thesis
    by (auto simp: storage_ok_def async_channel_get_gc_def channel_contents_def)
qed

theorem get_gc_reports_contents_witness: "async_channel_get_gc demo_handoff = Some [Some 7]"
  using get_gc_reports_contents [OF demo_reachable] demo_handoff_state(5) by simp

lemma drain_buffer_all:
  "cb_wf b \<Longrightarrow> unat (circular_buffer_count b) \<le> fuel \<Longrightarrow> snd (drain_buffer fuel b) = map Some (cb_items b)"
proof (induction fuel arbitrary: b)
  case 0
  then have "cb_items b = []" by (metis length_0_conv length_cb_items le_zero_eq)
  then show ?case by simp
next
  case (Suc fuel)
  obtain b' r v where p: "circular_buffer_pop b = (b', r, v)" by (metis prod_cases3)
  show ?case
  proof (cases "circular_buffer_is_empty b")
    case True
    then have "cb_items b = []" using cb_empty_iff [OF Suc.prems(1)] by (metis length_0_conv length_cb_items unat_0)
    with True show ?thesis by simp
  next
    case False
    then have "circular_buffer_count b \<noteq> 0" using cb_empty_iff [OF Suc.prems(1)] by simp
    then have ne: "cb_items b \<noteq> []" by (metis length_cb_items list.size(3) unat_eq_zero)
    have b': "r = SUCCESS \<and> cb_wf b' \<and> v \<noteq> None \<and> cb_items b = the v # cb_items b'"
      using pop_cases [OF Suc.prems(1) p] ne by (cases r) auto
    then have "length (cb_items b) = Suc (length (cb_items b'))" by (metis length_Cons)
    then have "unat (circular_buffer_count b') \<le> fuel" using Suc.prems(2) by simp
    then have "snd (drain_buffer fuel b') = map Some (cb_items b')"
      using b' by (intro Suc.IH) simp_all
    with False p b' show ?thesis by (auto split: prod.splits)
  qed
qed

text \<open>
  Freeing a channel destroys every value it still stores, once each.
\<close>

theorem free_object_destroys_contents:
  assumes "reachable_from capacity ins outs ch"
  shows "snd (async_channel_free_object ch) = map Some (channel_contents ch)"
proof -
  have st: "storage_ok ch" using reachable_ok(1) [OF assms] by (rule channel_wfD(6))
  let ?c = "(channel_disarm_deadlock_timer (channel_unbind_from_owner_scope ch))
      \<lparr>ch_callbacks := [], ch_waiting_receivers := [], ch_waiting_senders := []\<rparr>"
  have same: "channel_is_buffered ?c = channel_is_buffered ch" "ch_buffer ?c = ch_buffer ch"
    "ch_rendezvous_has_value ?c = ch_rendezvous_has_value ch" "ch_rendezvous_value ?c = ch_rendezvous_value ch"
    by (simp_all add: channel_is_buffered_def channel_unbind_from_owner_scope_def)
  show ?thesis
  proof (cases "channel_is_buffered ch")
    case True
    then have wf: "cb_wf (ch_buffer ch)" using st by (simp add: storage_ok_def)
    have "unat (circular_buffer_count (ch_buffer ch)) \<le> unat (cb_capacity (ch_buffer ch))"
      using cb_index_laws(1) [OF wf wf wf wf wf] by simp
    from drain_buffer_all [OF wf this] True same show ?thesis
      by (simp add: async_channel_free_object_def Let_def case_prod_unfold channel_contents_def)
  next
    case False
    with st same show ?thesis
      by (auto simp: async_channel_free_object_def Let_def channel_contents_def storage_ok_def)
  qed
qed

theorem free_object_destroys_contents_witness: "snd (async_channel_free_object demo_full) = [Some 1]"
proof -
  have "channel_contents demo_full = [1]" by code_simp
  with free_object_destroys_contents [OF demo_full_reachable] show ?thesis by simp
qed

text \<open>
  The constructor rejects the first argument out of range, fails when the buffer
  cannot be allocated, and otherwise gives an empty open channel of the requested
  capacity; its buffer size computation always ends.
\<close>

theorem channel_construct_outcomes:
  "case channel_construct alloc_ok cur main capacity np nc hard (async_channel_create_object env) of
     Inl (Value_Error n) \<Rightarrow>
       n = (if capacity < 0 \<or> capacity > INT32_MAX then 1 else if np < 0 \<or> np > INT32_MAX then 2 else 3)
       \<and> \<not> (0 \<le> capacity \<and> capacity \<le> INT32_MAX \<and> 0 \<le> np \<and> np \<le> INT32_MAX \<and> 0 \<le> nc \<and> nc \<le> INT32_MAX)
   | Inl Buffer_Error \<Rightarrow> 0 < capacity \<and> \<not> alloc_ok
   | Inl Never_Returns \<Rightarrow> False
   | Inr ch \<Rightarrow> channel_wf ch \<and> channel_contents ch = [] \<and> \<not> ch_closed ch \<and> ch_capacity ch = capacity
       \<and> 0 \<le> np \<and> np \<le> INT32_MAX \<and> 0 \<le> nc \<and> nc \<le> INT32_MAX"
proof (cases "channel_construct alloc_ok cur main capacity np nc hard (async_channel_create_object env :: 'a channel)")
  case (Inr ch)
  have "\<not> ch_closed ch"
  proof -
    have "\<not> ch_closed (channel_bind_to_owner_scope cur main c)" if "\<not> ch_closed c" for c :: "'a channel"
      using bind_frame [of cur main c] that by auto
    then show ?thesis using Inr
      by (auto simp: channel_construct_def Let_def async_channel_create_object_def split: if_splits option.splits zend_result.splits)
  qed
  moreover have "0 \<le> np \<and> np \<le> INT32_MAX \<and> 0 \<le> nc \<and> nc \<le> INT32_MAX"
    using Inr by (auto simp: channel_construct_def split: if_splits)
  ultimately show ?thesis using Inr construct_ok [OF Inr] by simp
next
  case (Inl e)
  show ?thesis
  proof (cases e)
    case (Value_Error n)
    with Inl show ?thesis
      by (auto simp: channel_construct_def Let_def split: if_splits option.splits zend_result.splits)
  next
    case Buffer_Error
    with Inl show ?thesis
      by (auto simp: channel_construct_def circular_buffer_ctor_def Let_def split: if_splits option.splits zend_result.splits)
  next
    case Never_Returns
    have range: "0 < capacity" "capacity \<le> INT32_MAX"
      using Inl Never_Returns by (auto simp: channel_construct_def Let_def split: if_splits option.splits zend_result.splits)
    have "unat (word_of_int (capacity + 1) :: size_t) = nat (capacity + 1)"
      using range by (intro unat_size_of_int) (simp_all add: INT32_MAX_def)
    moreover have "nat (capacity + 1) \<le> 2 ^ 63" using range by (simp add: INT32_MAX_def)
    moreover have "(0 :: size_t) < word_of_int (capacity + 1)"
      using range calculation(1) by (simp add: word_less_nat_alt)
    ultimately have "\<exists>r. round_up_to_power_of_2 (word_of_int (capacity + 1)) = Some r"
      using round_up_small [of "word_of_int (capacity + 1)"] by auto
    with \<open>(0 :: size_t) < word_of_int (capacity + 1)\<close> Inl Never_Returns range show ?thesis
      by (auto simp: channel_construct_def circular_buffer_ctor_def Let_def
          split: if_splits option.splits zend_result.splits)
  qed
qed

text \<open>
  The deadlock resolver closes every registered channel that is still open, with
  the reason DEADLOCK, touches no other channel, and reports whether it closed any.
\<close>

lemma resolve_deadlocks_closes_registered:
  "async_channel_resolve_deadlocks chs =
     (map (\<lambda>ch. if ch_in_deadlock_channels ch \<and> \<not> ch_closed ch then channel_close ch CHANNEL_CLOSE_DEADLOCK else ch) chs,
      \<exists>ch\<in>set chs. ch_in_deadlock_channels ch \<and> \<not> ch_closed ch)"
proof -
  have "close_registered chs =
     (map (\<lambda>ch. if ch_in_deadlock_channels ch \<and> \<not> ch_closed ch then channel_close ch CHANNEL_CLOSE_DEADLOCK else ch) chs,
      \<exists>ch\<in>set chs. ch_in_deadlock_channels ch \<and> \<not> ch_closed ch)"
    by (induction chs) auto
  moreover have "filter ch_in_deadlock_channels chs = [] \<Longrightarrow> ?thesis"
    by (auto simp: async_channel_resolve_deadlocks_def filter_empty_conv intro!: map_idI [symmetric])
  ultimately show ?thesis by (auto simp: async_channel_resolve_deadlocks_def)
qed

end
