(* ===== verification/Thread_Channel.thy ===== *)
theory Thread_Channel
  imports Circular_Buffer_Refinement
begin

text \<open>
  The channel between threads of \<^verbatim>\<open>src/thread_channel.{c,h}\<close>: a bounded ring buffer behind a
  mutex, and two tables of triggers, one for receivers and one for senders, that wake the
  coroutines of other threads.

  Each definition below is one critical section (the code between locking and unlocking
  the mutex, with the decisions taken on what it read), so that threads interleave exactly
  between definitions.  A trigger is named by a number; \<open>tc_fired t\<close> says that it was fired
  and its coroutine has not run since.  \<open>tc_wait_only t\<close> records for a parked receiver that
  it was called without a result pointer.  Moving a value into persistent memory and back
  is the caller's business: the values here are the transferred ones.
\<close>

record 'v thread_channel =
  tc_buffer :: "'v circular_buffer"
  tc_capacity :: int
  tc_closed :: bool
  tc_receiver_triggers :: "nat list"
  tc_sender_triggers :: "nat list"
  tc_fired :: "nat \<Rightarrow> bool"
  tc_wait_only :: "nat \<Rightarrow> bool"
  tc_ref_count :: int

datatype thread_channel_outcome = TC_Done | TC_Closed | TC_Wait | TC_Retry | TC_False

text \<open>The trigger tables are keyed by the trigger's address.\<close>

definition trigger_update :: "nat list \<Rightarrow> nat \<Rightarrow> nat list" where
  "trigger_update triggers t = (if t \<in> set triggers then triggers else triggers @ [t])"

definition unregister_trigger :: "nat list \<Rightarrow> nat \<Rightarrow> nat list" where
  "unregister_trigger triggers t = removeAll t triggers"

definition fire_all_triggers :: "nat list \<Rightarrow> 'v thread_channel \<Rightarrow> 'v thread_channel" where
  "fire_all_triggers triggers ch = ch\<lparr>tc_fired := (\<lambda>t. t \<in> set triggers \<or> tc_fired ch t)\<rparr>"

definition tc_is_full :: "'v thread_channel \<Rightarrow> bool" where
  "tc_is_full ch \<longleftrightarrow> circular_buffer_count (tc_buffer ch) \<ge> word_of_int (tc_capacity ch)"

text \<open>
  \<open>thread_channel_send_ex\<close> from the label \<^verbatim>\<open>retry\<close> to the suspension: the channel is
  closed, the value is stored, or the trigger \<open>t\<close> is registered.
\<close>

definition thread_channel_send_enter ::
  "'v \<Rightarrow> nat \<Rightarrow> 'v thread_channel \<Rightarrow> 'v thread_channel \<times> thread_channel_outcome" where
  "thread_channel_send_enter v t ch =
     (if tc_closed ch then (ch, TC_Closed)
      else if circular_buffer_count (tc_buffer ch) < word_of_int (tc_capacity ch) then
        (let ch = ch\<lparr>tc_buffer := fst (circular_buffer_push True (tc_buffer ch) v False)\<rparr>
         in (fire_all_triggers (tc_receiver_triggers ch) ch, TC_Done))
      else (ch\<lparr>tc_sender_triggers := trigger_update (tc_sender_triggers ch) t\<rparr>, TC_Wait))"

text \<open>
  A cancellation event that is already closed, and a bailout through the suspension, take
  the trigger out again and give up.
\<close>

definition thread_channel_send_abandon :: "nat \<Rightarrow> 'v thread_channel \<Rightarrow> 'v thread_channel" where
  "thread_channel_send_abandon t ch =
     ch\<lparr>tc_sender_triggers := unregister_trigger (tc_sender_triggers ch) t\<rparr>"

text \<open>After the suspension; \<open>cancelled\<close> says that the cancellation event is closed.\<close>

definition thread_channel_send_wake ::
  "nat \<Rightarrow> bool \<Rightarrow> bool \<Rightarrow> 'v thread_channel \<Rightarrow> 'v thread_channel \<times> thread_channel_outcome" where
  "thread_channel_send_wake t exception cancelled ch =
     (let closed = tc_closed ch; still_full = tc_is_full ch;
          ch = ch\<lparr>tc_sender_triggers := unregister_trigger (tc_sender_triggers ch) t,
                  tc_fired := (tc_fired ch)(t := False)\<rparr>
      in if exception then (ch, TC_False)
         else if cancelled \<and> \<not> closed \<and> still_full then (ch, TC_False)
         else (ch, TC_Retry))"

definition thread_channel_receive_enter ::
  "bool \<Rightarrow> nat \<Rightarrow> 'v thread_channel \<Rightarrow> 'v thread_channel \<times> thread_channel_outcome \<times> 'v option" where
  "thread_channel_receive_enter wait_only t ch =
     (if \<not> wait_only \<and> circular_buffer_is_not_empty (tc_buffer ch) then
        (case circular_buffer_pop (tc_buffer ch) of
           (b, _, v) \<Rightarrow> (fire_all_triggers (tc_sender_triggers ch) (ch\<lparr>tc_buffer := b\<rparr>), TC_Done, v))
      else if tc_closed ch then (ch, if wait_only then TC_False else TC_Closed, None)
      else (ch\<lparr>tc_receiver_triggers := trigger_update (tc_receiver_triggers ch) t,
               tc_wait_only := (tc_wait_only ch)(t := wait_only)\<rparr>, TC_Wait, None))"

definition thread_channel_receive_abandon :: "nat \<Rightarrow> 'v thread_channel \<Rightarrow> 'v thread_channel" where
  "thread_channel_receive_abandon t ch =
     ch\<lparr>tc_receiver_triggers := unregister_trigger (tc_receiver_triggers ch) t\<rparr>"

text \<open>
  After the suspension: the section that removes the trigger and reads \<^verbatim>\<open>closed\<close>, and the
  decision, whose check of the buffer is a section of its own (\<open>later\<close> is the channel at
  that moment).
\<close>

definition thread_channel_receive_wake :: "nat \<Rightarrow> 'v thread_channel \<Rightarrow> 'v thread_channel \<times> bool" where
  "thread_channel_receive_wake t ch =
     (ch\<lparr>tc_receiver_triggers := unregister_trigger (tc_receiver_triggers ch) t,
         tc_fired := (tc_fired ch)(t := False)\<rparr>, tc_closed ch)"

definition thread_channel_receive_decide ::
  "bool \<Rightarrow> bool \<Rightarrow> bool \<Rightarrow> bool \<Rightarrow> 'v thread_channel \<Rightarrow> thread_channel_outcome" where
  "thread_channel_receive_decide wait_only exception cancelled closed later =
     (if exception then TC_False
      else if wait_only then (if closed then TC_False else TC_Done)
      else if cancelled \<and> \<not> closed \<and> \<not> circular_buffer_is_not_empty (tc_buffer later) then TC_False
      else TC_Retry)"

definition async_thread_channel_close :: "'v thread_channel \<Rightarrow> 'v thread_channel" where
  "async_thread_channel_close ch =
     (if tc_closed ch then ch
      else
        let ch = ch\<lparr>tc_closed := True\<rparr>;
            ch = fire_all_triggers (tc_receiver_triggers ch) ch
        in fire_all_triggers (tc_sender_triggers ch) ch)"

definition async_thread_channel_addref :: "'v thread_channel \<Rightarrow> 'v thread_channel" where
  "async_thread_channel_addref ch = ch\<lparr>tc_ref_count := tc_ref_count ch + 1\<rparr>"

text \<open>
  \<open>async_thread_channel_create\<close>: the creating wrapper holds one reference and the
  thread's registry another; \<open>None\<close> when the buffer could not be set up.
\<close>

definition async_thread_channel_create :: "int \<Rightarrow> 'v thread_channel option" where
  "async_thread_channel_create capacity =
     (case circular_buffer_ctor True zeroed_buffer (word_of_int (capacity + 1)) 16 of
        Some (b, SUCCESS) \<Rightarrow>
          Some (async_thread_channel_addref
            \<lparr>tc_buffer = b, tc_capacity = capacity, tc_closed = False,
             tc_receiver_triggers = [], tc_sender_triggers = [],
             tc_fired = (\<lambda>_. False), tc_wait_only = (\<lambda>_. False), tc_ref_count = 1\<rparr>)
      | _ \<Rightarrow> None)"

text \<open>\<open>Inl 1\<close> is the value error for argument 1 of the constructor.\<close>

definition thread_channel_construct :: "int \<Rightarrow> nat + 'v thread_channel option" where
  "thread_channel_construct capacity =
     (if capacity < 1 \<or> capacity > 2147483647 then Inl 1 else Inr (async_thread_channel_create capacity))"

fun release_all :: "nat \<Rightarrow> 'v circular_buffer \<Rightarrow> 'v circular_buffer \<times> 'v option list" where
  "release_all 0 b = (b, [])"
| "release_all (Suc fuel) b =
     (if circular_buffer_is_not_empty b then
        (case circular_buffer_pop b of
           (b', SUCCESS, v) \<Rightarrow> (case release_all fuel b' of (b'', vs) \<Rightarrow> (b'', v # vs))
         | (b', FAILURE, v) \<Rightarrow> (b', []))
      else (b, []))"

definition thread_channel_destroy :: "'v thread_channel \<Rightarrow> 'v thread_channel \<times> 'v option list" where
  "thread_channel_destroy ch =
     (let ch = (if tc_closed ch then ch
                else
                  let ch = ch\<lparr>tc_closed := True\<rparr>;
                      ch = fire_all_triggers (tc_receiver_triggers ch) ch
                  in fire_all_triggers (tc_sender_triggers ch) ch);
          (b, vs) = release_all (unat (cb_capacity (tc_buffer ch))) (tc_buffer ch)
      in (ch\<lparr>tc_buffer := circular_buffer_dtor b, tc_receiver_triggers := [], tc_sender_triggers := []\<rparr>, vs))"

text \<open>
  Dropping a reference; the second result is the list of values released, present exactly
  when the channel was destroyed.
\<close>

definition thread_channel_event_dispose ::
  "'v thread_channel \<Rightarrow> 'v thread_channel \<times> 'v option list option" where
  "thread_channel_event_dispose ch =
     (let old = tc_ref_count ch;
          ch = ch\<lparr>tc_ref_count := old - 1\<rparr>
      in if old = 1 then (case thread_channel_destroy ch of (ch, vs) \<Rightarrow> (ch, Some vs)) else (ch, None))"

text \<open>
  Shutdown of the owning thread: every registered channel is closed and loses the
  registry's reference.
\<close>

definition async_thread_channel_close_owned ::
  "'v thread_channel list \<Rightarrow> ('v thread_channel \<times> 'v option list option) list" where
  "async_thread_channel_close_owned chs =
     map (\<lambda>ch. thread_channel_event_dispose (async_thread_channel_close ch)) chs"

subsection \<open>The invariant\<close>

definition tc_contents :: "'v thread_channel \<Rightarrow> 'v list" where
  "tc_contents ch = cb_items (tc_buffer ch)"

definition tc_storage_ok :: "'v thread_channel \<Rightarrow> bool" where
  "tc_storage_ok ch \<longleftrightarrow> 1 \<le> tc_capacity ch \<and> tc_capacity ch \<le> 2147483647 \<and> cb_wf (tc_buffer ch)
     \<and> nat (tc_capacity ch) < unat (cb_capacity (tc_buffer ch))
     \<and> length (tc_contents ch) \<le> nat (tc_capacity ch)"

text \<open>A registered trigger that was not fired still waits for what its owner waits for.\<close>

definition tc_no_lost_wakeup :: "'v thread_channel \<Rightarrow> bool" where
  "tc_no_lost_wakeup ch \<longleftrightarrow>
     (\<forall>t\<in>set (tc_sender_triggers ch). tc_fired ch t \<or> \<not> tc_closed ch \<and> length (tc_contents ch) = nat (tc_capacity ch))
     \<and> (\<forall>t\<in>set (tc_receiver_triggers ch). tc_fired ch t \<or> \<not> tc_closed ch \<and> (tc_wait_only ch t \<or> tc_contents ch = []))"

definition tc_inv :: "'v thread_channel \<Rightarrow> bool" where
  "tc_inv ch \<longleftrightarrow> tc_storage_ok ch \<and> tc_no_lost_wakeup ch"

lemma trigger_sets [simp]:
  "set (trigger_update ts t) = insert t (set ts)" "set (unregister_trigger ts t) = set ts - {t}"
  by (auto simp: trigger_update_def unregister_trigger_def)

lemma fire_frame [simp]:
  "tc_buffer (fire_all_triggers ts ch) = tc_buffer ch" "tc_capacity (fire_all_triggers ts ch) = tc_capacity ch"
  "tc_closed (fire_all_triggers ts ch) = tc_closed ch" "tc_contents (fire_all_triggers ts ch) = tc_contents ch"
  "tc_receiver_triggers (fire_all_triggers ts ch) = tc_receiver_triggers ch"
  "tc_sender_triggers (fire_all_triggers ts ch) = tc_sender_triggers ch"
  "tc_wait_only (fire_all_triggers ts ch) = tc_wait_only ch"
  "tc_fired (fire_all_triggers ts ch) t \<longleftrightarrow> t \<in> set ts \<or> tc_fired ch t"
  "tc_storage_ok (fire_all_triggers ts ch) = tc_storage_ok ch"
  by (simp_all add: fire_all_triggers_def tc_contents_def tc_storage_ok_def)

lemma tc_full_iff:
  assumes "tc_storage_ok ch"
  shows "tc_is_full ch \<longleftrightarrow> length (tc_contents ch) = nat (tc_capacity ch)"
    and "circular_buffer_count (tc_buffer ch) < word_of_int (tc_capacity ch)
      \<longleftrightarrow> length (tc_contents ch) < nat (tc_capacity ch)"
proof -
  have "unat (word_of_int (tc_capacity ch) :: size_t) = nat (tc_capacity ch)"
    using assms by (simp add: tc_storage_ok_def unsigned_of_int take_bit_int_eq_self)
  with assms show "tc_is_full ch \<longleftrightarrow> length (tc_contents ch) = nat (tc_capacity ch)"
    "circular_buffer_count (tc_buffer ch) < word_of_int (tc_capacity ch)
      \<longleftrightarrow> length (tc_contents ch) < nat (tc_capacity ch)"
    by (auto simp: tc_is_full_def tc_storage_ok_def tc_contents_def word_le_nat_alt word_less_nat_alt)
qed

lemma tc_empty_iff:
  "tc_storage_ok ch \<Longrightarrow> circular_buffer_is_not_empty (tc_buffer ch) \<longleftrightarrow> tc_contents ch \<noteq> []"
  by (simp add: tc_storage_ok_def tc_contents_def cb_not_empty_iff)

lemma tc_push:
  fixes ch :: "'v thread_channel" and v :: 'v
  assumes "tc_storage_ok ch" and "length (tc_contents ch) < nat (tc_capacity ch)"
  defines "c \<equiv> ch\<lparr>tc_buffer := fst (circular_buffer_push True (tc_buffer ch) v False)\<rparr>"
  shows "tc_storage_ok c \<and> tc_contents c = tc_contents ch @ [v]"
proof -
  have wf: "cb_wf (tc_buffer ch)" using assms(1) by (simp add: tc_storage_ok_def)
  obtain b r where p: "circular_buffer_push True (tc_buffer ch) v False = (b, r)" by force
  have nf: "\<not> circular_buffer_is_full (tc_buffer ch)"
    using assms wf by (simp add: cb_full_iff tc_storage_ok_def tc_contents_def)
  have "cb_capacity b = cb_capacity (tc_buffer ch)"
    using p nf by (auto simp: circular_buffer_push_def store_at_head_def)
  moreover have i: "cb_wf b \<and> cb_items b = cb_items (tc_buffer ch) @ [v]"
    using push_fixed_cases [OF wf p] nf by (cases r) auto
  moreover have "length (cb_items b) = Suc (length (cb_items (tc_buffer ch)))" using i by simp
  ultimately show ?thesis
    using assms(1,2) p by (simp add: c_def tc_storage_ok_def tc_contents_def)
qed

lemma tc_pop:
  fixes ch :: "'v thread_channel"
  assumes "tc_storage_ok ch" and "tc_contents ch \<noteq> []" and p: "circular_buffer_pop (tc_buffer ch) = (b, r, v)"
  defines "c \<equiv> ch\<lparr>tc_buffer := b\<rparr>"
  shows "tc_storage_ok c \<and> v \<noteq> None \<and> tc_contents ch = the v # tc_contents c"
proof -
  have wf: "cb_wf (tc_buffer ch)" using assms(1) by (simp add: tc_storage_ok_def)
  have "cb_capacity b = cb_capacity (tc_buffer ch)"
    using p by (auto simp: circular_buffer_pop_def split: if_splits)
  moreover have i: "cb_wf b \<and> v \<noteq> None \<and> cb_items (tc_buffer ch) = the v # cb_items b"
    using pop_cases [OF wf p] assms(2) by (cases r) (auto simp: tc_contents_def)
  moreover have "length (cb_items (tc_buffer ch)) = Suc (length (cb_items b))" using i by (metis length_Cons)
  ultimately show ?thesis
    using assms(1) by (simp add: c_def tc_storage_ok_def tc_contents_def)
qed

subsection \<open>Threads interleaving on the critical sections\<close>

text \<open>
  \<open>ins\<close> and \<open>outs\<close> are the values the section stored and took.  A trigger belongs to one
  call, so it is never in both tables.
\<close>

inductive tc_step :: "'v thread_channel \<Rightarrow> 'v list \<Rightarrow> 'v list \<Rightarrow> 'v thread_channel \<Rightarrow> bool" where
  tc_send: "t \<notin> set (tc_receiver_triggers ch) \<Longrightarrow> thread_channel_send_enter v t ch = (ch', r) \<Longrightarrow>
    tc_step ch (if r = TC_Done then [v] else []) [] ch'"
| tc_send_abandon: "tc_step ch [] [] (thread_channel_send_abandon t ch)"
| tc_send_wake: "t \<notin> set (tc_receiver_triggers ch) \<Longrightarrow>
    tc_step ch [] [] (fst (thread_channel_send_wake t exc cancelled ch))"
| tc_receive: "t \<notin> set (tc_sender_triggers ch) \<Longrightarrow> thread_channel_receive_enter wait_only t ch = (ch', r, v) \<Longrightarrow>
    tc_step ch [] (case v of None \<Rightarrow> [] | Some x \<Rightarrow> [x]) ch'"
| tc_receive_abandon: "tc_step ch [] [] (thread_channel_receive_abandon t ch)"
| tc_receive_wake: "t \<notin> set (tc_sender_triggers ch) \<Longrightarrow> tc_step ch [] [] (fst (thread_channel_receive_wake t ch))"
| tc_close: "tc_step ch [] [] (async_thread_channel_close ch)"
| tc_addref: "tc_step ch [] [] (async_thread_channel_addref ch)"
| tc_dispose: "1 < tc_ref_count ch \<Longrightarrow> tc_step ch [] [] (fst (thread_channel_event_dispose ch))"

inductive tc_run :: "'v thread_channel \<Rightarrow> 'v list \<Rightarrow> 'v list \<Rightarrow> 'v thread_channel \<Rightarrow> bool" where
  tc_run_start: "tc_run ch [] [] ch"
| tc_run_step: "tc_run ch ins outs ch' \<Longrightarrow> tc_step ch' ins' outs' ch'' \<Longrightarrow>
    tc_run ch (ins @ ins') (outs @ outs') ch''"

lemma tc_storage_cong [simp]:
  "tc_storage_ok (ch\<lparr>tc_sender_triggers := x\<rparr>) = tc_storage_ok ch"
  "tc_storage_ok (ch\<lparr>tc_receiver_triggers := x\<rparr>) = tc_storage_ok ch"
  "tc_storage_ok (ch\<lparr>tc_fired := f\<rparr>) = tc_storage_ok ch" "tc_storage_ok (ch\<lparr>tc_wait_only := f\<rparr>) = tc_storage_ok ch"
  "tc_storage_ok (ch\<lparr>tc_closed := c\<rparr>) = tc_storage_ok ch" "tc_storage_ok (ch\<lparr>tc_ref_count := n\<rparr>) = tc_storage_ok ch"
  "tc_contents (ch\<lparr>tc_sender_triggers := x\<rparr>) = tc_contents ch"
  "tc_contents (ch\<lparr>tc_receiver_triggers := x\<rparr>) = tc_contents ch"
  "tc_contents (ch\<lparr>tc_fired := f\<rparr>) = tc_contents ch" "tc_contents (ch\<lparr>tc_wait_only := f\<rparr>) = tc_contents ch"
  "tc_contents (ch\<lparr>tc_closed := c\<rparr>) = tc_contents ch" "tc_contents (ch\<lparr>tc_ref_count := n\<rparr>) = tc_contents ch"
  by (simp_all add: tc_storage_ok_def tc_contents_def)

definition tc_good :: "'v thread_channel \<Rightarrow> 'v list \<Rightarrow> 'v list \<Rightarrow> 'v thread_channel \<Rightarrow> bool" where
  "tc_good ch ins outs ch' \<longleftrightarrow> tc_inv ch' \<and> tc_contents ch @ ins = outs @ tc_contents ch'"

lemma send_enter_good:
  assumes inv: "tc_inv ch" and t: "t \<notin> set (tc_receiver_triggers ch)"
    and res: "thread_channel_send_enter v t ch = (ch', r)"
  shows "tc_good ch (if r = TC_Done then [v] else []) [] ch'"
proof -
  have st: "tc_storage_ok ch" and nl: "tc_no_lost_wakeup ch" using inv by (simp_all add: tc_inv_def)
  note full = tc_full_iff [OF st]
  consider (closed) "tc_closed ch" | (space) "\<not> tc_closed ch" "length (tc_contents ch) < nat (tc_capacity ch)"
    | (wait) "\<not> tc_closed ch" "length (tc_contents ch) = nat (tc_capacity ch)"
    using st by (fastforce simp: tc_storage_ok_def)
  then show ?thesis
  proof cases
    case closed
    with res inv show ?thesis by (auto simp: thread_channel_send_enter_def tc_good_def)
  next
    case space
    let ?c = "ch\<lparr>tc_buffer := fst (circular_buffer_push True (tc_buffer ch) v False)\<rparr>"
    have eq: "ch' = fire_all_triggers (tc_receiver_triggers ?c) ?c" "r = TC_Done"
      using res space full by (simp_all add: thread_channel_send_enter_def)
    have p: "tc_storage_ok ?c" "tc_contents ?c = tc_contents ch @ [v]" using tc_push [OF st space(2), of v] by simp_all
    moreover have "tc_no_lost_wakeup ch'"
      using nl space by (auto simp: eq tc_no_lost_wakeup_def)
    ultimately show ?thesis by (simp add: eq tc_good_def tc_inv_def)
  next
    case wait
    then have "ch' = ch\<lparr>tc_sender_triggers := trigger_update (tc_sender_triggers ch) t\<rparr>" "r = TC_Wait"
      using res full by (auto simp: thread_channel_send_enter_def)
    with inv wait show ?thesis by (auto simp: tc_good_def tc_inv_def tc_no_lost_wakeup_def)
  qed
qed

lemma receive_enter_good:
  assumes inv: "tc_inv ch" and t: "t \<notin> set (tc_sender_triggers ch)"
    and res: "thread_channel_receive_enter wait_only t ch = (ch', r, v)"
  shows "tc_good ch [] (case v of None \<Rightarrow> [] | Some x \<Rightarrow> [x]) ch'"
proof -
  have st: "tc_storage_ok ch" and nl: "tc_no_lost_wakeup ch" using inv by (simp_all add: tc_inv_def)
  note empty = tc_empty_iff [OF st]
  consider (take) "\<not> wait_only" "tc_contents ch \<noteq> []" | (closed) "wait_only \<or> tc_contents ch = []" "tc_closed ch"
    | (wait) "wait_only \<or> tc_contents ch = []" "\<not> tc_closed ch" by blast
  then show ?thesis
  proof cases
    case take
    obtain b q x where p: "circular_buffer_pop (tc_buffer ch) = (b, q, x)" by (metis prod_cases3)
    then have eq: "ch' = fire_all_triggers (tc_sender_triggers ch) (ch\<lparr>tc_buffer := b\<rparr>)" "v = x"
      using res take empty by (simp_all add: thread_channel_receive_enter_def)
    note pop = tc_pop [OF st take(2) p]
    then have "tc_no_lost_wakeup ch'" using nl take by (auto simp: eq tc_no_lost_wakeup_def)
    with pop show ?thesis by (auto simp: eq tc_good_def tc_inv_def)
  next
    case closed
    with res empty inv show ?thesis by (auto simp: thread_channel_receive_enter_def tc_good_def split: if_splits)
  next
    case wait
    then have eq: "ch' = ch\<lparr>tc_receiver_triggers := trigger_update (tc_receiver_triggers ch) t,
               tc_wait_only := (tc_wait_only ch)(t := wait_only)\<rparr>" "v = None"
      using res empty by (auto simp: thread_channel_receive_enter_def split: if_splits)
    have "tc_no_lost_wakeup ch'" using nl wait by (auto simp: eq tc_no_lost_wakeup_def)
    with st show ?thesis by (simp add: eq tc_good_def tc_inv_def)
  qed
qed

lemma tc_step_good:
  assumes "tc_step ch ins outs ch'" and inv: "tc_inv ch"
  shows "tc_good ch ins outs ch'"
  using assms(1)
proof (cases rule: tc_step.cases)
  case (tc_send t v r)
  with send_enter_good [OF inv] show ?thesis by blast
next
  case (tc_receive t wait_only r v)
  with receive_enter_good [OF inv] show ?thesis by blast
next
  case (tc_send_wake t exc cancelled)
  then show ?thesis using inv
    by (auto simp: tc_good_def tc_inv_def tc_no_lost_wakeup_def thread_channel_send_wake_def Let_def)
next
  case (tc_receive_wake t)
  then show ?thesis using inv
    by (auto simp: tc_good_def tc_inv_def tc_no_lost_wakeup_def thread_channel_receive_wake_def)
qed (use inv in \<open>auto simp: tc_good_def tc_inv_def tc_no_lost_wakeup_def thread_channel_send_abandon_def
      thread_channel_receive_abandon_def async_thread_channel_close_def async_thread_channel_addref_def
      thread_channel_event_dispose_def Let_def\<close>)

lemma tc_run_good:
  assumes "tc_run ch ins outs ch'" and "tc_inv ch" and "tc_contents ch = []"
  shows "tc_inv ch' \<and> ins = outs @ tc_contents ch'"
  using assms
proof (induction rule: tc_run.induct)
  case (tc_run_step ch ins outs ch' ins' outs' ch'')
  then have "tc_inv ch'" "ins = outs @ tc_contents ch'" by simp_all
  with tc_step_good [OF tc_run_step.hyps(2)] show ?case by (simp add: tc_good_def)
qed simp

lemma create_ok:
  assumes "1 \<le> capacity" and "capacity \<le> 2147483647"
  shows "\<exists>ch :: 'v thread_channel. async_thread_channel_create capacity = Some ch \<and> tc_inv ch \<and> tc_contents ch = []
    \<and> tc_capacity ch = capacity \<and> \<not> tc_closed ch \<and> tc_ref_count ch = 2"
proof -
  let ?n = "word_of_int (capacity + 1) :: size_t"
  have n: "unat ?n = Suc (nat capacity)"
    using unat_size_of_int [of "capacity + 1"] assms by (simp add: nat_add_distrib)
  have "0 < ?n" "unat ?n \<le> 2 ^ 63" using n assms by (auto simp: word_gt_0 simp flip: unat_gt_0)
  then obtain b :: "'v circular_buffer" where b: "circular_buffer_ctor True zeroed_buffer ?n 16 = Some (b, SUCCESS)" "cb_wf b"
      "cb_items b = []" "?n \<le> cb_capacity b"
    using ctor_ok by blast
  moreover have "nat capacity < unat (cb_capacity b)" using b(4) n by (simp add: word_le_nat_alt)
  ultimately show ?thesis using assms
    by (simp add: async_thread_channel_create_def async_thread_channel_addref_def tc_inv_def tc_storage_ok_def
        tc_no_lost_wakeup_def tc_contents_def del: length_cb_items)
qed

definition tc_reachable :: "int \<Rightarrow> 'v list \<Rightarrow> 'v list \<Rightarrow> 'v thread_channel \<Rightarrow> bool" where
  "tc_reachable capacity ins outs ch \<longleftrightarrow>
     (\<exists>ch0. thread_channel_construct capacity = Inr (Some ch0) \<and> tc_run ch0 ins outs ch)"

lemma tc_reachable_ok:
  assumes "tc_reachable capacity ins outs ch"
  shows "tc_inv ch" "ins = outs @ tc_contents ch"
proof -
  obtain ch0 where c: "thread_channel_construct capacity = Inr (Some ch0)" and r: "tc_run ch0 ins outs ch"
    using assms by (auto simp: tc_reachable_def)
  have "1 \<le> capacity" "capacity \<le> 2147483647" using c by (auto simp: thread_channel_construct_def split: if_splits)
  then have "tc_inv ch0 \<and> tc_contents ch0 = []"
    using create_ok [of capacity, where 'v = 'a] c by (auto simp: thread_channel_construct_def split: if_splits)
  with tc_run_good [OF r] show "tc_inv ch" "ins = outs @ tc_contents ch" by simp_all
qed

lemma tc_reachable_step:
  "tc_reachable capacity ins outs ch \<Longrightarrow> tc_step ch ins' outs' ch' \<Longrightarrow>
   tc_reachable capacity (ins @ ins') (outs @ outs') ch'"
  unfolding tc_reachable_def using tc_run_step by blast

text \<open>A channel of capacity one in use by two threads, for the concrete instances below.\<close>

lemma tc_demo:
  "\<exists>ch :: int thread_channel. tc_reachable 1 [5] [] ch \<and> 9 \<in> set (tc_sender_triggers ch) \<and> \<not> tc_closed ch"
proof -
  obtain ch0 :: "int thread_channel" where c0: "async_thread_channel_create 1 = Some ch0" "tc_inv ch0"
      "tc_contents ch0 = []" "tc_capacity ch0 = 1" "\<not> tc_closed ch0"
    using create_ok [of 1, where 'v = int] by auto
  have r0: "tc_reachable 1 [] [] ch0"
    unfolding tc_reachable_def thread_channel_construct_def using c0(1) tc_run_start by fastforce
  have e0: "tc_receiver_triggers ch0 = []"
    using c0(1) by (auto simp: async_thread_channel_create_def async_thread_channel_addref_def
        split: option.splits zend_result.splits)
  define ch1 where "ch1 = fst (thread_channel_send_enter 5 8 ch0)"
  have st0: "tc_storage_ok ch0" using c0(2) by (simp add: tc_inv_def)
  have s1: "thread_channel_send_enter 5 8 ch0 = (ch1, TC_Done)" and k1: "\<not> tc_closed ch1" "tc_receiver_triggers ch1 = []"
    using c0 e0 tc_full_iff(2) [OF st0] by (simp_all add: ch1_def thread_channel_send_enter_def Let_def)
  have r1: "tc_reachable 1 [5] [] ch1"
    using tc_reachable_step [OF r0 tc_step.tc_send [OF _ s1]] e0 by simp
  have st1: "tc_storage_ok ch1" and n1: "tc_contents ch1 = [5]"
    using tc_reachable_ok [OF r1] by (simp_all add: tc_inv_def)
  have cap: "tc_capacity ch1 = 1" using c0(4) s1 by (auto simp: thread_channel_send_enter_def Let_def split: if_splits)
  define ch2 where "ch2 = fst (thread_channel_send_enter 6 9 ch1)"
  have s2: "thread_channel_send_enter 6 9 ch1 = (ch2, TC_Wait)" and k2: "\<not> tc_closed ch2" "9 \<in> set (tc_sender_triggers ch2)"
    using k1 tc_full_iff(2) [OF st1] n1 cap by (simp_all add: ch2_def thread_channel_send_enter_def)
  have "tc_reachable 1 [5] [] ch2"
    using tc_reachable_step [OF r1 tc_step.tc_send [OF _ s2]] k1 by simp
  with k2 show ?thesis by blast
qed

subsection \<open>What threads can rely on\<close>

text \<open>
  C11.  No wakeup is lost between threads.  In every interleaving of the critical sections
  of any number of threads, a registered sender whose trigger has not been fired faces a
  channel that is open and full, and a registered receiver one that is open and (unless it
  only waits for the next event) empty; the buffer never exceeds the capacity.
\<close>

theorem thread_channel_no_lost_wakeup:
  assumes "tc_reachable capacity ins outs ch"
  shows "(\<forall>t\<in>set (tc_sender_triggers ch). tc_fired ch t \<or> \<not> tc_closed ch \<and> tc_is_full ch)
    \<and> (\<forall>t\<in>set (tc_receiver_triggers ch). tc_fired ch t
        \<or> \<not> tc_closed ch \<and> (tc_wait_only ch t \<or> \<not> circular_buffer_is_not_empty (tc_buffer ch)))
    \<and> length (tc_contents ch) \<le> nat (tc_capacity ch)"
proof -
  have inv: "tc_storage_ok ch" "tc_no_lost_wakeup ch" using tc_reachable_ok(1) [OF assms] by (simp_all add: tc_inv_def)
  show ?thesis
    using inv(2) tc_full_iff(1) [OF inv(1)] tc_empty_iff [OF inv(1)] inv(1)
    unfolding tc_no_lost_wakeup_def tc_storage_ok_def by blast
qed

theorem thread_channel_no_lost_wakeup_witness:
  "\<exists>ch :: int thread_channel. 9 \<in> set (tc_sender_triggers ch) \<and> (tc_fired ch 9 \<or> tc_is_full ch)"
proof -
  obtain ch :: "int thread_channel" where "tc_reachable 1 [5] [] ch" "9 \<in> set (tc_sender_triggers ch)"
    using tc_demo by blast
  with thread_channel_no_lost_wakeup [of 1 "[5]" "[]" ch] show ?thesis by blast
qed

text \<open>
  Between threads too, every value that a send stored is received exactly once and in
  order: the stored values are the received ones followed by those still in the buffer.
\<close>

theorem thread_channel_fifo:
  assumes "tc_reachable capacity ins outs ch"
  shows "ins = outs @ tc_contents ch"
  using tc_reachable_ok(2) [OF assms] .

theorem thread_channel_fifo_witness: "\<exists>ch :: int thread_channel. [5] = [] @ tc_contents ch"
proof -
  obtain ch :: "int thread_channel" where "tc_reachable 1 [5] [] ch" using tc_demo by blast
  from thread_channel_fifo [OF this] show ?thesis by blast
qed

text \<open>
  C12.  Closing a channel fires the trigger of every parked coroutine of both sides; a
  sender that then runs again retries into the closed-channel error, and a receiver drains
  the buffer before it gets that error.
\<close>

theorem thread_channel_close_releases_everyone:
  assumes "tc_reachable capacity ins outs ch"
  defines "c \<equiv> async_thread_channel_close ch"
  shows "tc_closed c \<and> tc_contents c = tc_contents ch
    \<and> (\<forall>t\<in>set (tc_sender_triggers ch) \<union> set (tc_receiver_triggers ch). tc_fired c t)
    \<and> snd (thread_channel_send_wake t False cancelled c) = TC_Retry
    \<and> snd (thread_channel_send_enter v t c) = TC_Closed
    \<and> (case tc_contents c of
         [] \<Rightarrow> snd (thread_channel_receive_enter False t c) = (TC_Closed, None)
       | x # xs \<Rightarrow> snd (thread_channel_receive_enter False t c) = (TC_Done, Some x))"
proof -
  have inv: "tc_storage_ok ch" "tc_no_lost_wakeup ch" using tc_reachable_ok(1) [OF assms(1)] by (simp_all add: tc_inv_def)
  have c: "tc_closed c" "tc_contents c = tc_contents ch" "tc_buffer c = tc_buffer ch" "tc_storage_ok c"
    using inv(1) by (simp_all add: c_def async_thread_channel_close_def Let_def)
  have f: "\<forall>t\<in>set (tc_sender_triggers ch) \<union> set (tc_receiver_triggers ch). tc_fired c t"
    using inv(2) by (auto simp: c_def async_thread_channel_close_def Let_def tc_no_lost_wakeup_def)
  have r: "case tc_contents c of
         [] \<Rightarrow> snd (thread_channel_receive_enter False t c) = (TC_Closed, None)
       | x # xs \<Rightarrow> snd (thread_channel_receive_enter False t c) = (TC_Done, Some x)"
  proof (cases "tc_contents c")
    case Nil
    with c(1) tc_empty_iff [OF c(4)] show ?thesis by (simp add: thread_channel_receive_enter_def)
  next
    case (Cons x xs)
    obtain b q v where p: "circular_buffer_pop (tc_buffer c) = (b, q, v)" by (metis prod_cases3)
    from tc_pop [OF c(4) _ p] Cons tc_empty_iff [OF c(4)] p show ?thesis
      by (auto simp: thread_channel_receive_enter_def)
  qed
  show ?thesis
    using c f r by (simp add: thread_channel_send_wake_def thread_channel_send_enter_def Let_def)
qed

theorem thread_channel_close_releases_everyone_witness:
  "\<exists>ch :: int thread_channel. 9 \<in> set (tc_sender_triggers ch) \<and> tc_fired (async_thread_channel_close ch) 9
    \<and> snd (thread_channel_receive_enter False 3 (async_thread_channel_close ch)) = (TC_Done, Some 5)"
proof -
  obtain ch :: "int thread_channel" where r: "tc_reachable 1 [5] [] ch" "9 \<in> set (tc_sender_triggers ch)"
    using tc_demo by blast
  have "tc_contents ch = [5]" using tc_reachable_ok(2) [OF r(1)] by simp
  with thread_channel_close_releases_everyone [OF r(1), where t = 3 and cancelled = False and v = 0] r(2)
  show ?thesis by auto
qed

lemma release_all_items:
  "cb_wf b \<Longrightarrow> unat (circular_buffer_count b) \<le> fuel \<Longrightarrow> snd (release_all fuel b) = map Some (cb_items b)"
proof (induction fuel arbitrary: b)
  case 0
  then have "cb_items b = []" by (metis length_0_conv length_cb_items le_zero_eq)
  then show ?case by simp
next
  case (Suc fuel)
  obtain b' r v where p: "circular_buffer_pop b = (b', r, v)" by (metis prod_cases3)
  note e = cb_not_empty_iff [OF Suc.prems(1)]
  show ?case
  proof (cases "cb_items b")
    case Nil
    with e show ?thesis by simp
  next
    case (Cons x xs)
    have b': "r = SUCCESS \<and> cb_wf b' \<and> v \<noteq> None \<and> cb_items b = the v # cb_items b'"
      using pop_cases [OF Suc.prems(1) p] Cons by (cases r) auto
    then have "length (cb_items b) = Suc (length (cb_items b'))" by (metis length_Cons)
    then have "unat (circular_buffer_count b') \<le> fuel" using Suc.prems(2) by simp
    with Suc.IH [of b'] b' have "snd (release_all fuel b') = map Some (cb_items b')" by blast
    with b' e p Cons show ?thesis by (auto split: prod.splits)
  qed
qed

text \<open>
  The channel is destroyed exactly when its last reference is dropped, and it then
  releases every value that is still in the buffer.
\<close>

theorem thread_channel_dispose_last_reference:
  assumes "tc_reachable capacity ins outs ch"
  shows "snd (thread_channel_event_dispose ch) =
    (if tc_ref_count ch = 1 then Some (map Some (tc_contents ch)) else None)"
proof -
  have wf: "cb_wf (tc_buffer ch)" using tc_reachable_ok(1) [OF assms] by (simp add: tc_inv_def tc_storage_ok_def)
  have "unat (circular_buffer_count (tc_buffer ch)) \<le> unat (cb_capacity (tc_buffer ch))"
    using cb_index_laws(1) [OF wf wf wf wf wf] by simp
  from release_all_items [OF wf this] show ?thesis
    by (simp add: thread_channel_event_dispose_def thread_channel_destroy_def Let_def case_prod_unfold tc_contents_def)
qed

theorem thread_channel_dispose_witness:
  "\<exists>ch :: int thread_channel. snd (thread_channel_event_dispose (fst (thread_channel_event_dispose ch))) = Some []
    \<and> snd (thread_channel_event_dispose ch) = None"
proof -
  obtain ch :: "int thread_channel" where c: "async_thread_channel_create 1 = Some ch" "tc_ref_count ch = 2"
      "tc_contents ch = []"
    using create_ok [of 1, where 'v = int] by auto
  have r: "tc_reachable 1 [] [] ch"
    unfolding tc_reachable_def thread_channel_construct_def using c(1) tc_run_start by fastforce
  let ?d = "fst (thread_channel_event_dispose ch)"
  have d: "?d = ch\<lparr>tc_ref_count := 1\<rparr>" using c(2) by (simp add: thread_channel_event_dispose_def Let_def)
  have "tc_reachable 1 [] [] ?d" using tc_reachable_step [OF r tc_step.tc_dispose] c(2) by simp
  from thread_channel_dispose_last_reference [OF r] thread_channel_dispose_last_reference [OF this]
  have "snd (thread_channel_event_dispose ch) = None \<and> snd (thread_channel_event_dispose ?d) = Some []"
    using c(2,3) by (simp add: d)
  then show ?thesis by blast
qed

end
