(* ===== verification/Pool.thy ===== *)
theory Pool
  imports Circular_Buffer_Refinement
begin

text \<open>
  The resource pool of \<^verbatim>\<open>src/pool.{c,h}\<close>: idle resources in a ring buffer, a count of the
  resources in use, a queue of coroutines waiting for a place, and a circuit breaker.

  The pool calls code it does not own.  Its factory and its beforeAcquire and
  beforeRelease hooks may suspend, so \<open>acquire\<close>, \<open>tryAcquire\<close> and \<open>release\<close> are split at
  these calls and at \<^verbatim>\<open>ZEND_ASYNC_SUSPEND\<close>: each definition is the work between two such
  points, and what the call answered is an argument of the next one.  \<open>pl_calls\<close> holds the
  calls in progress.  Effects on the outside (resumed and failed coroutines, destroyed
  resources, reports to the circuit breaker's strategy) are appended to \<open>pl_log\<close>.
  Counters are 32-bit words and wrap as in C.  Reference counts are not modelled.
\<close>

datatype circuit_state = CIRCUIT_ACTIVE | CIRCUIT_INACTIVE | CIRCUIT_RECOVERING

text \<open>A resource is an object, known by its handle, or some other value.\<close>

datatype resource = Res_Object nat | Res_Other int

text \<open>
  What a PHP callback did: it returned false, anything else, threw an exception, or threw
  one that ends the calling coroutine (a cancellation, \<^verbatim>\<open>exit()\<close>).
\<close>

datatype callback_result = Cb_False | Cb_Other | Cb_Threw | Cb_Ended

datatype factory_result = Fac_Created resource | Fac_Failed | Fac_Threw

datatype pool_call = In_Before_Acquire resource | In_Factory | In_Before_Release resource

datatype pool_effect =
    Pool_Resumed nat
  | Pool_Failed nat
  | Pool_Destroyed resource
  | Pool_Report_Success
  | Pool_Report_Failure

record pool =
  pl_min_size :: uint32
  pl_max_size :: uint32
  pl_idle :: "resource circular_buffer"
  pl_active_count :: uint32
  pl_checked_out :: "nat list"
  pl_reserved_count :: uint32
  pl_waiters :: "nat list"
  pl_reserved :: "nat \<Rightarrow> bool"
  pl_next_waiter :: nat
  pl_parked :: "nat list"
  pl_closed :: bool
  pl_circuit_state :: circuit_state
  pl_strategy :: bool
  pl_has_healthcheck :: bool
  pl_healthcheck_interval_ms :: uint32
  pl_healthcheck_timer :: bool
  pl_calls :: "pool_call list"
  pl_log :: "pool_effect list"

abbreviation pool_effect :: "pool_effect \<Rightarrow> pool \<Rightarrow> pool" where
  "pool_effect e p \<equiv> p\<lparr>pl_log := pl_log p @ [e]\<rparr>"

definition ASYNC_POOL_TOTAL :: "pool \<Rightarrow> size_t" where
  "ASYNC_POOL_TOTAL p = circular_buffer_count (pl_idle p) + ucast (pl_active_count p)"

definition ASYNC_POOL_UNRESERVED :: "pool \<Rightarrow> uint32" where
  "ASYNC_POOL_UNRESERVED p = pl_max_size p - pl_active_count p - pl_reserved_count p"

subsection \<open>Queue operations\<close>

definition pool_queue_push :: "nat list \<Rightarrow> nat \<Rightarrow> nat list" where
  "pool_queue_push queue waiter = queue @ [waiter]"

fun pool_queue_remove :: "nat list \<Rightarrow> nat \<Rightarrow> nat list \<times> bool" where
  "pool_queue_remove [] w = ([], False)"
| "pool_queue_remove (x # queue) w =
     (if x = w then (queue, True)
      else case pool_queue_remove queue w of (queue', found) \<Rightarrow> (x # queue', found))"

definition pool_queue_pop_last :: "nat list \<Rightarrow> (nat list \<times> nat) option" where
  "pool_queue_pop_last queue = (if queue = [] then None else Some (butlast queue, last queue))"

fun pool_queue_first_unreserved :: "(nat \<Rightarrow> bool) \<Rightarrow> nat list \<Rightarrow> nat option" where
  "pool_queue_first_unreserved reserved [] = None"
| "pool_queue_first_unreserved reserved (w # queue) =
     (if \<not> reserved w then Some w else pool_queue_first_unreserved reserved queue)"

subsection \<open>Resources and callbacks\<close>

definition pool_destroy_resource :: "pool \<Rightarrow> resource \<Rightarrow> pool" where
  "pool_destroy_resource p r = pool_effect (Pool_Destroyed r) p"

definition pool_check_out :: "pool \<Rightarrow> resource \<Rightarrow> pool" where
  "pool_check_out p r =
     (case r of
        Res_Object h \<Rightarrow> p\<lparr>pl_checked_out := List.insert h (pl_checked_out p)\<rparr>
      | Res_Other _ \<Rightarrow> p)"

definition pool_check_in :: "pool \<Rightarrow> resource \<Rightarrow> pool \<times> bool" where
  "pool_check_in p r =
     (if pl_active_count p = 0 then (p, False)
      else case r of
        Res_Object h \<Rightarrow> (p\<lparr>pl_checked_out := remove1 h (pl_checked_out p)\<rparr>, h \<in> set (pl_checked_out p))
      | Res_Other _ \<Rightarrow> (p, True))"

text \<open>
  The verdict of a hook: whether the resource is good, and whether an exception is left
  pending.  \<open>None\<close> is a hook that is not set.
\<close>

definition pool_exception_ends_coroutine :: "callback_result \<Rightarrow> bool" where
  "pool_exception_ends_coroutine r \<longleftrightarrow> r = Cb_Ended"

definition pool_call_before_acquire :: "callback_result option \<Rightarrow> bool \<times> bool" where
  "pool_call_before_acquire hook =
     (case hook of
        None \<Rightarrow> (True, False)
      | Some r \<Rightarrow> if r = Cb_Threw \<or> r = Cb_Ended then (False, pool_exception_ends_coroutine r)
                  else (r \<noteq> Cb_False, False))"

definition pool_call_before_release :: "callback_result option \<Rightarrow> bool \<times> bool" where
  "pool_call_before_release hook =
     (case hook of
        None \<Rightarrow> (True, False)
      | Some r \<Rightarrow> if r = Cb_Threw \<or> r = Cb_Ended then (False, pool_exception_ends_coroutine r)
                  else (r \<noteq> Cb_False, False))"

definition pool_call_healthcheck :: "callback_result \<Rightarrow> bool" where
  "pool_call_healthcheck r = (r = Cb_Other)"

definition pool_strategy_report_success :: "pool \<Rightarrow> pool" where
  "pool_strategy_report_success p = (if pl_strategy p then pool_effect Pool_Report_Success p else p)"

definition pool_strategy_report_failure :: "pool \<Rightarrow> pool" where
  "pool_strategy_report_failure p = (if pl_strategy p then pool_effect Pool_Report_Failure p else p)"

subsection \<open>Waiting and waking\<close>

definition pool_wake_waiter :: "pool \<Rightarrow> pool \<times> bool" where
  "pool_wake_waiter p =
     (case pool_queue_first_unreserved (pl_reserved p) (pl_waiters p) of
        None \<Rightarrow> (p, False)
      | Some w \<Rightarrow>
          (pool_effect (Pool_Resumed w)
             (p\<lparr>pl_reserved := (pl_reserved p)(w := True),
                pl_reserved_count := pl_reserved_count p + 1\<rparr>), True))"

text \<open>\<open>pool_wait_for_resource\<close> up to the suspension, and after it.\<close>

definition pool_wait_begin :: "pool \<Rightarrow> pool \<times> nat" where
  "pool_wait_begin p =
     (let w = pl_next_waiter p in
      (p\<lparr>pl_next_waiter := Suc w, pl_reserved := (pl_reserved p)(w := False),
         pl_waiters := pool_queue_push (pl_waiters p) w, pl_parked := pl_parked p @ [w]\<rparr>, w))"

definition pool_wait_end :: "nat \<Rightarrow> bool \<Rightarrow> pool \<Rightarrow> pool \<times> bool" where
  "pool_wait_end w exception p =
     (let had_reservation = pl_reserved p w;
          p = p\<lparr>pl_waiters := fst (pool_queue_remove (pl_waiters p) w), pl_parked := remove1 w (pl_parked p)\<rparr>;
          p = (if had_reservation then p\<lparr>pl_reserved_count := pl_reserved_count p - 1\<rparr> else p);
          p = (if had_reservation \<and> exception \<and> \<not> pl_closed p then fst (pool_wake_waiter p) else p)
      in (p, had_reservation))"

fun wake_all_loop :: "nat \<Rightarrow> pool \<Rightarrow> pool" where
  "wake_all_loop 0 p = p"
| "wake_all_loop (Suc n) p =
     (case pool_queue_pop_last (pl_waiters p) of
        None \<Rightarrow> p
      | Some (queue, w) \<Rightarrow> wake_all_loop n (pool_effect (Pool_Failed w) (p\<lparr>pl_waiters := queue\<rparr>)))"

definition pool_wake_all_with_exception :: "pool \<Rightarrow> pool" where
  "pool_wake_all_with_exception p = wake_all_loop (length (pl_waiters p)) p"

subsection \<open>Idle buffer\<close>

definition pool_push_idle :: "pool \<Rightarrow> resource \<Rightarrow> pool" where
  "pool_push_idle p r = p\<lparr>pl_idle := fst (circular_buffer_push True (pl_idle p) r True)\<rparr>"

definition pool_pop_idle :: "pool \<Rightarrow> pool \<times> zend_result \<times> resource option" where
  "pool_pop_idle p = (case circular_buffer_pop (pl_idle p) of (b, res, r) \<Rightarrow> (p\<lparr>pl_idle := b\<rparr>, res, r))"

subsection \<open>Closing\<close>

fun destroy_idle :: "nat \<Rightarrow> pool \<Rightarrow> pool" where
  "destroy_idle 0 p = p"
| "destroy_idle (Suc n) p =
     (if circular_buffer_is_empty (pl_idle p) then p
      else case pool_pop_idle p of
        (p', SUCCESS, Some r) \<Rightarrow> destroy_idle n (pool_destroy_resource p' r)
      | (p', _, _) \<Rightarrow> destroy_idle n p')"

text \<open>
  \<open>exception_available\<close>: \<^verbatim>\<open>async_new_exception\<close> answers NULL once the engine is shutting
  down, and then the waiters are left alone.
\<close>

definition zend_async_pool_close :: "bool \<Rightarrow> pool \<Rightarrow> pool" where
  "zend_async_pool_close exception_available p =
     (if pl_closed p then p
      else
        let p = p\<lparr>pl_closed := True, pl_healthcheck_timer := False\<rparr>;
            p = (if exception_available then pool_wake_all_with_exception p else p)
        in destroy_idle (unat (cb_capacity (pl_idle p))) p)"

definition zend_async_pool_destroy :: "bool \<Rightarrow> pool \<Rightarrow> pool" where
  "zend_async_pool_destroy exception_available p =
     (let p = (if \<not> pl_closed p then zend_async_pool_close exception_available p else p)
      in p\<lparr>pl_waiters := [], pl_idle := circular_buffer_dtor (pl_idle p), pl_checked_out := []\<rparr>)"

subsection \<open>Acquire\<close>

datatype acquire_result =
    Acq_Returned resource
  | Acq_Closed
  | Acq_Unavailable
  | Acq_Create_Failed
  | Acq_Pending
  | Acq_None
  | Acq_Before_Acquire resource
  | Acq_Factory
  | Acq_Parked nat

text \<open>
  \<open>Acq_Pending\<close> returns false with an exception that is already pending, \<open>Acq_None\<close> returns
  false without one (\<open>tryAcquire\<close>).  \<open>Acq_Before_Acquire\<close> and \<open>Acq_Factory\<close> enter the hook
  and the factory.
\<close>

definition pool_give_up :: "bool \<Rightarrow> pool \<Rightarrow> pool" where
  "pool_give_up has_reservation p = (if has_reservation then fst (pool_wake_waiter p) else p)"

text \<open>The two ways of taking a place, after the checks: an idle resource, or a new one.\<close>

definition take_idle :: "pool \<Rightarrow> pool \<times> acquire_result" where
  "take_idle p =
     (case pool_pop_idle p of (p, _, r) \<Rightarrow>
        (p\<lparr>pl_active_count := pl_active_count p + 1, pl_calls := pl_calls p @ [In_Before_Acquire (the r)]\<rparr>,
         Acq_Before_Acquire (the r)))"

definition take_capacity :: "pool \<Rightarrow> pool \<times> acquire_result" where
  "take_capacity p =
     (p\<lparr>pl_active_count := pl_active_count p + 1, pl_calls := pl_calls p @ [In_Factory]\<rparr>, Acq_Factory)"

definition pool_acquire_retry :: "bool \<Rightarrow> pool \<Rightarrow> pool \<times> acquire_result" where
  "pool_acquire_retry has_reservation p =
     (if pl_closed p then (pool_give_up has_reservation p, Acq_Closed)
      else if pl_circuit_state p = CIRCUIT_INACTIVE then (pool_give_up has_reservation p, Acq_Unavailable)
      else
        let may_serve_self = (has_reservation \<or> ASYNC_POOL_UNRESERVED p > 0);
            total = ucast (ASYNC_POOL_TOTAL p) :: uint32
        in if \<not> circular_buffer_is_empty (pl_idle p) \<and> may_serve_self then take_idle p
           else if total < pl_max_size p \<and> may_serve_self then take_capacity p
           else case pool_wait_begin p of (p, w) \<Rightarrow> (p, Acq_Parked w))"

definition zend_async_pool_acquire :: "pool \<Rightarrow> pool \<times> acquire_result" where
  "zend_async_pool_acquire p = pool_acquire_retry False p"

definition end_call :: "pool_call \<Rightarrow> pool \<Rightarrow> pool" where
  "end_call c p = p\<lparr>pl_calls := remove1 c (pl_calls p)\<rparr>"

text \<open>
  The beforeAcquire hook of resource \<open>r\<close> answered; \<open>destructor_threw\<close> is what destroying a
  rejected resource did.  \<open>again\<close> is the loop's \<^verbatim>\<open>goto retry\<close>.
\<close>

definition pool_acquire_checked ::
  "(pool \<Rightarrow> pool \<times> acquire_result) \<Rightarrow> resource \<Rightarrow> callback_result option \<Rightarrow> bool \<Rightarrow>
   pool \<Rightarrow> pool \<times> acquire_result" where
  "pool_acquire_checked again r hook destructor_threw p =
     (let p = end_call (In_Before_Acquire r) p;
          (ok, exception) = pool_call_before_acquire hook
      in if ok then (pool_check_out p r, Acq_Returned r)
         else
           let p = p\<lparr>pl_active_count := pl_active_count p - 1\<rparr>;
               p = pool_destroy_resource p r
           in if exception \<or> destructor_threw then (fst (pool_wake_waiter p), Acq_Pending)
              else again p)"

definition pool_acquire_created :: "factory_result \<Rightarrow> pool \<Rightarrow> pool \<times> acquire_result" where
  "pool_acquire_created fr p =
     (let p = end_call In_Factory p in
      case fr of
        Fac_Created r \<Rightarrow> (pool_check_out p r, Acq_Returned r)
      | Fac_Threw \<Rightarrow> (fst (pool_wake_waiter (p\<lparr>pl_active_count := pl_active_count p - 1\<rparr>)), Acq_Pending)
      | Fac_Failed \<Rightarrow> (fst (pool_wake_waiter (p\<lparr>pl_active_count := pl_active_count p - 1\<rparr>)), Acq_Create_Failed))"

definition pool_acquire_resumed :: "nat \<Rightarrow> bool \<Rightarrow> pool \<Rightarrow> pool \<times> acquire_result" where
  "pool_acquire_resumed w exception p =
     (case pool_wait_end w exception p of (p, has_reservation) \<Rightarrow>
        if exception then (p, Acq_Pending) else pool_acquire_retry has_reservation p)"

definition zend_async_pool_try_acquire :: "pool \<Rightarrow> pool \<times> acquire_result" where
  "zend_async_pool_try_acquire p =
     (if pl_closed p \<or> pl_circuit_state p = CIRCUIT_INACTIVE then (p, Acq_None)
      else
        let may_serve_self = (ASYNC_POOL_UNRESERVED p > 0);
            total = ucast (ASYNC_POOL_TOTAL p) :: uint32
        in if \<not> circular_buffer_is_empty (pl_idle p) \<and> may_serve_self then take_idle p
           else if total < pl_max_size p \<and> may_serve_self then take_capacity p
           else (p, Acq_None))"

definition pool_try_acquire_created :: "factory_result \<Rightarrow> pool \<Rightarrow> pool \<times> acquire_result" where
  "pool_try_acquire_created fr p =
     (case pool_acquire_created fr p of
        (p, Acq_Create_Failed) \<Rightarrow> (p, Acq_None)
      | res \<Rightarrow> res)"

subsection \<open>Release\<close>

datatype release_result = Rel_Refused | Rel_Before_Release | Rel_Report bool | Rel_Done

definition zend_async_pool_release :: "resource \<Rightarrow> pool \<Rightarrow> pool \<times> release_result" where
  "zend_async_pool_release r p =
     (case pool_check_in p r of
        (p, False) \<Rightarrow> (p, Rel_Refused)
      | (p, True) \<Rightarrow> (p\<lparr>pl_calls := pl_calls p @ [In_Before_Release r]\<rparr>, Rel_Before_Release))"

text \<open>
  The hook answered; up to the report to the strategy, which is PHP code as well.  The
  flag of \<open>Rel_Report\<close> says whether the resource is reusable.
\<close>

definition pool_release_hooked :: "resource \<Rightarrow> callback_result option \<Rightarrow> pool \<Rightarrow> pool \<times> release_result" where
  "pool_release_hooked r hook p =
     (let (reusable, exception) = pool_call_before_release hook;
          p = end_call (In_Before_Release r) p;
          p = p\<lparr>pl_active_count := pl_active_count p - 1\<rparr>
      in if \<not> reusable then
           (if \<not> exception then pool_strategy_report_failure p else p, Rel_Report False)
         else (pool_strategy_report_success p, Rel_Report True))"

definition pool_release_finish :: "resource \<Rightarrow> bool \<Rightarrow> pool \<Rightarrow> pool" where
  "pool_release_finish r reusable p =
     (if \<not> reusable then fst (pool_wake_waiter (pool_destroy_resource p r))
      else if pl_closed p then pool_destroy_resource p r
      else fst (pool_wake_waiter (pool_push_idle p r)))"

text \<open>Both parts, when the strategy does not suspend.\<close>

definition pool_release_rest :: "resource \<Rightarrow> callback_result option \<Rightarrow> pool \<Rightarrow> pool" where
  "pool_release_rest r hook p =
     (case pool_release_hooked r hook p of
        (p, Rel_Report reusable) \<Rightarrow> pool_release_finish r reusable p
      | (p, _) \<Rightarrow> p)"

subsection \<open>Healthcheck\<close>

text \<open>
  What the hook, the destructor and the factory do for one idle resource; \<open>hc_closes\<close>: the
  hook closed the pool.
\<close>

record health_outcome =
  hc_result :: callback_result
  hc_closes :: bool
  hc_destructor_threw :: bool
  hc_factory :: factory_result

fun healthcheck_loop :: "nat \<Rightarrow> (nat \<Rightarrow> health_outcome) \<Rightarrow> pool \<Rightarrow> pool" where
  "healthcheck_loop 0 env p = p"
| "healthcheck_loop (Suc n) env p =
     (case pool_pop_idle p of
        (p, SUCCESS, Some r) \<Rightarrow>
          let out = env n;
              p = p\<lparr>pl_active_count := pl_active_count p + 1\<rparr>;
              p = (if hc_closes out then zend_async_pool_close True p else p);
              is_healthy = pool_call_healthcheck (hc_result out);
              p = p\<lparr>pl_active_count := pl_active_count p - 1\<rparr>
          in if is_healthy then
               (if pl_closed p then pool_destroy_resource p r
                else healthcheck_loop n env (pool_push_idle p r))
             else
               let p = pool_destroy_resource p r in
               if hc_destructor_threw out then p
               else if (ucast (ASYNC_POOL_TOTAL p) :: uint32) < pl_min_size p then
                 (case hc_factory out of
                    Fac_Created r' \<Rightarrow> healthcheck_loop n env (pool_push_idle p r')
                  | Fac_Threw \<Rightarrow> p
                  | Fac_Failed \<Rightarrow> healthcheck_loop n env p)
               else healthcheck_loop n env p
      | (p, _, _) \<Rightarrow> p)"

definition pool_healthcheck_timer_callback :: "(nat \<Rightarrow> health_outcome) \<Rightarrow> pool \<Rightarrow> pool" where
  "pool_healthcheck_timer_callback env p =
     (if pl_closed p then p
      else if \<not> pl_has_healthcheck p then p
      else fst (pool_wake_waiter (healthcheck_loop (unat (circular_buffer_count (pl_idle p))) env p)))"

definition pool_start_healthcheck_timer :: "bool \<Rightarrow> pool \<Rightarrow> pool" where
  "pool_start_healthcheck_timer timer_created p =
     (if pl_healthcheck_interval_ms p = 0 then p
      else if \<not> pl_has_healthcheck p then p
      else p\<lparr>pl_healthcheck_timer := timer_created\<rparr>)"

subsection \<open>Creation\<close>

fun prewarm :: "nat \<Rightarrow> (nat \<Rightarrow> factory_result) \<Rightarrow> pool \<Rightarrow> pool \<times> bool" where
  "prewarm 0 factory p = (p, False)"
| "prewarm (Suc n) factory p =
     (case factory n of
        Fac_Created r \<Rightarrow> prewarm n factory (pool_push_idle p r)
      | Fac_Threw \<Rightarrow> (p, True)
      | Fac_Failed \<Rightarrow> prewarm n factory p)"

text \<open>The flag of the result: an exception of the factory is pending.\<close>

definition zend_async_pool_create ::
  "(nat \<Rightarrow> factory_result) \<Rightarrow> bool \<Rightarrow> bool \<Rightarrow> uint32 \<Rightarrow> uint32 \<Rightarrow> uint32 \<Rightarrow> (pool \<times> bool) option" where
  "zend_async_pool_create factory has_healthcheck timer_created min_size max_size interval =
     (case circular_buffer_ctor True zeroed_buffer (if min_size > 0 then ucast min_size else 4) 16 of
        None \<Rightarrow> None
      | Some (idle, _) \<Rightarrow>
          let p = \<lparr>pl_min_size = min_size, pl_max_size = max_size, pl_idle = idle, pl_active_count = 0,
                   pl_checked_out = [], pl_reserved_count = 0, pl_waiters = [], pl_reserved = (\<lambda>_. False),
                   pl_next_waiter = 0, pl_parked = [], pl_closed = False, pl_circuit_state = CIRCUIT_ACTIVE,
                   pl_strategy = False, pl_has_healthcheck = has_healthcheck,
                   pl_healthcheck_interval_ms = interval, pl_healthcheck_timer = False,
                   pl_calls = [], pl_log = []\<rparr>;
              (p, threw) = prewarm (unat min_size) factory p
          in Some (pool_start_healthcheck_timer timer_created p, threw))"

datatype pool_construct_error = Pool_Already_Initialized | Pool_Value_Error nat | Pool_Factory_Threw pool | Pool_Hangs

text \<open>
  \<open>Pool_Value_Error n\<close> rejects argument \<open>n\<close>; when the factory threw, the object keeps the
  pool and the constructor throws.
\<close>

definition pool_construct ::
  "bool \<Rightarrow> (nat \<Rightarrow> factory_result) \<Rightarrow> bool \<Rightarrow> bool \<Rightarrow> int \<Rightarrow> int \<Rightarrow> int \<Rightarrow> pool_construct_error + pool" where
  "pool_construct initialized factory has_healthcheck timer_created minimum maximum interval =
     (if initialized then Inl Pool_Already_Initialized
      else if minimum < 0 then Inl (Pool_Value_Error 6)
      else if maximum < 1 then Inl (Pool_Value_Error 7)
      else if minimum > maximum then Inl (Pool_Value_Error 6)
      else if interval < 0 then Inl (Pool_Value_Error 8)
      else case zend_async_pool_create factory has_healthcheck timer_created
             (word_of_int minimum) (word_of_int maximum) (word_of_int interval) of
        None \<Rightarrow> Inl Pool_Hangs
      | Some (p, threw) \<Rightarrow> if threw then Inl (Pool_Factory_Threw p) else Inr p)"

subsection \<open>Statistics and circuit breaker\<close>

definition zend_async_pool_count :: "pool \<Rightarrow> uint32" where
  "zend_async_pool_count p = ucast (ASYNC_POOL_TOTAL p)"

definition zend_async_pool_idle_count :: "pool \<Rightarrow> uint32" where
  "zend_async_pool_idle_count p = ucast (circular_buffer_count (pl_idle p))"

definition zend_async_pool_active_count :: "pool \<Rightarrow> uint32" where
  "zend_async_pool_active_count p = pl_active_count p"

definition pool_setCircuitBreakerStrategy :: "bool \<Rightarrow> pool \<Rightarrow> pool" where
  "pool_setCircuitBreakerStrategy strategy p = p\<lparr>pl_strategy := strategy\<rparr>"

fun pool_getState :: "circuit_state \<Rightarrow> string" where
  "pool_getState CIRCUIT_ACTIVE = ''ACTIVE''"
| "pool_getState CIRCUIT_INACTIVE = ''INACTIVE''"
| "pool_getState CIRCUIT_RECOVERING = ''RECOVERING''"

definition pool_activate :: "pool \<Rightarrow> pool" where
  "pool_activate p = p\<lparr>pl_circuit_state := CIRCUIT_ACTIVE\<rparr>"

definition pool_deactivate :: "pool \<Rightarrow> pool" where
  "pool_deactivate p = p\<lparr>pl_circuit_state := CIRCUIT_INACTIVE\<rparr>"

definition pool_recover :: "pool \<Rightarrow> pool" where
  "pool_recover p = p\<lparr>pl_circuit_state := CIRCUIT_RECOVERING\<rparr>"

end
