(* ===== verification/Pool_Invariant.thy ===== *)
theory Pool_Invariant
  imports Pool
begin

text \<open>
  The accounting invariant of the pool: resources never exceed the maximum, every
  reservation is backed by a place, and nobody waits while a place is free.  This theory
  shows it for acquire, tryAcquire, release and close, each taken up to the PHP code it
  calls; the strategy and the destructor do not suspend.
\<close>

subsection \<open>The idle buffer\<close>

abbreviation idle_items :: "pool \<Rightarrow> resource list" where
  "idle_items p \<equiv> cb_items (pl_idle p)"

abbreviation nidle :: "pool \<Rightarrow> nat" where
  "nidle p \<equiv> length (cb_items (pl_idle p))"

abbreviation nact :: "pool \<Rightarrow> nat" where
  "nact p \<equiv> unat (pl_active_count p)"

abbreviation nres :: "pool \<Rightarrow> nat" where
  "nres p \<equiv> unat (pl_reserved_count p)"

abbreviation nmax :: "pool \<Rightarrow> nat" where
  "nmax p \<equiv> unat (pl_max_size p)"

definition idle_ok :: "pool \<Rightarrow> bool" where
  "idle_ok p \<longleftrightarrow> cb_wf (pl_idle p) \<and> unat (cb_capacity (pl_idle p)) \<le> 2 ^ 40 \<and> nidle p + nact p \<le> nmax p"

lemma unat_u32: "unat (x :: uint32) < 2 ^ 32"
  using unsigned_less [of x] by simp

lemma realloc_move_capacity:
  "cb_capacity (fst (realloc_move ok b c)) = (if ok then c else cb_capacity b)"
  by (simp add: realloc_move_def recalc_decrease_threshold_def Let_def)

lemma resize_capacity:
  assumes "cb_wf b" and "unat (cb_capacity b) < 2 ^ 63"
  shows "unat (cb_capacity (fst (resize_if_needed True b)))
    \<le> max (unat (cb_capacity b)) (2 * Suc (unat (circular_buffer_count b)))"
proof -
  note nat = cb_wf_nat [OF assms(1)] and stat = cb_wf_static [OF assms(1)]
  have "unat (cb_capacity b div 2) \<le> unat (cb_capacity b)" by (simp add: unat_div)
  then show ?thesis
    using cb_full_iff [OF assms(1)] is_pow2_double [OF nat(4) assms(2)] stat(2)
    by (auto simp: resize_if_needed_def circular_buffer_realloc_auto_def realloc_move_capacity Let_def
        word_le_nat_alt)
qed

lemma push_idle_spec:
  fixes b :: "'a circular_buffer" and r :: 'a
  assumes "cb_wf b" and "unat (cb_capacity b) \<le> 2 ^ 40" and "unat (circular_buffer_count b) < 2 ^ 32"
  defines "b' \<equiv> fst (circular_buffer_push True b r True)"
  shows "cb_wf b' \<and> unat (cb_capacity b') \<le> 2 ^ 40 \<and> cb_items b' = cb_items b @ [r]"
proof -
  obtain c s where p: "circular_buffer_push True b r True = (c, s)" by force
  obtain d q where z: "resize_if_needed True b = (d, q)" by force
  have cap: "unat (cb_capacity b) < 2 ^ 63" using assms(2) by simp
  have "q = SUCCESS" using resize_if_needed_refines [OF assms(1) cap z] by (cases q) auto
  then have "cb_capacity c = cb_capacity d"
    using p z by (auto simp: circular_buffer_push_def store_at_head_def)
  moreover have "unat (cb_capacity d) \<le> 2 ^ 40"
    using resize_capacity [OF assms(1) cap] z assms(2,3) by (simp add: max_def split: if_splits)
  moreover have "cb_wf c \<and> cb_items c = cb_items b @ [r]"
    using push_resize_cases [OF assms(1) cap p] by (cases s) auto
  ultimately show ?thesis using p by (simp add: b'_def)
qed

lemma pool_push_idle_ok:
  assumes "cb_wf (pl_idle p)" and "unat (cb_capacity (pl_idle p)) \<le> 2 ^ 40" and "nidle p + nact p < nmax p"
  shows "idle_ok (pool_push_idle p r)" "idle_items (pool_push_idle p r) = idle_items p @ [r]"
proof -
  have "unat (circular_buffer_count (pl_idle p)) < 2 ^ 32"
    using assms(3) unat_u32 [of "pl_max_size p"] by simp
  note spec = push_idle_spec [OF assms(1,2) this, of r]
  then show items: "idle_items (pool_push_idle p r) = idle_items p @ [r]" by (simp add: pool_push_idle_def)
  have "length (idle_items (pool_push_idle p r)) = Suc (nidle p)" by (simp only: items length_append) simp
  moreover have "nact (pool_push_idle p r) = nact p" "nmax (pool_push_idle p r) = nmax p"
    by (simp_all add: pool_push_idle_def)
  moreover have "cb_wf (pl_idle (pool_push_idle p r))" "unat (cb_capacity (pl_idle (pool_push_idle p r))) \<le> 2 ^ 40"
    using spec by (simp_all add: pool_push_idle_def)
  ultimately show "idle_ok (pool_push_idle p r)" using assms(3) unfolding idle_ok_def by linarith
qed

lemma push_idle_frame [simp]:
  "pl_active_count (pool_push_idle p r) = pl_active_count p" "pl_max_size (pool_push_idle p r) = pl_max_size p"
  "pl_reserved_count (pool_push_idle p r) = pl_reserved_count p" "pl_waiters (pool_push_idle p r) = pl_waiters p"
  "pl_reserved (pool_push_idle p r) = pl_reserved p" "pl_next_waiter (pool_push_idle p r) = pl_next_waiter p"
  "pl_parked (pool_push_idle p r) = pl_parked p" "pl_closed (pool_push_idle p r) = pl_closed p"
  "pl_circuit_state (pool_push_idle p r) = pl_circuit_state p" "pl_calls (pool_push_idle p r) = pl_calls p"
  "pl_checked_out (pool_push_idle p r) = pl_checked_out p" "pl_log (pool_push_idle p r) = pl_log p"
  "pl_min_size (pool_push_idle p r) = pl_min_size p" "pl_has_healthcheck (pool_push_idle p r) = pl_has_healthcheck p"
  by (simp_all add: pool_push_idle_def)

lemma pool_pop_idle_ok:
  assumes wf: "cb_wf (pl_idle p)" and ne: "idle_items p \<noteq> []"
  shows "\<exists>b r. pool_pop_idle p = (p\<lparr>pl_idle := b\<rparr>, SUCCESS, Some r) \<and> cb_wf b
    \<and> cb_capacity b = cb_capacity (pl_idle p) \<and> idle_items p = r # cb_items b"
proof -
  obtain b q v where c: "circular_buffer_pop (pl_idle p) = (b, q, v)" by (metis prod_cases3)
  have "cb_capacity b = cb_capacity (pl_idle p)"
    using c by (auto simp: circular_buffer_pop_def split: if_splits)
  then show ?thesis using pop_cases [OF wf c] ne c by (cases q) (auto simp: pool_pop_idle_def)
qed

lemma idle_empty_iff: "cb_wf (pl_idle p) \<Longrightarrow> circular_buffer_is_empty (pl_idle p) \<longleftrightarrow> idle_items p = []"
  using cb_not_empty_iff [of "pl_idle p"] by (simp add: circular_buffer_is_not_empty_def circular_buffer_is_empty_def)

subsection \<open>Counters\<close>

definition nresv :: "pool \<Rightarrow> nat" where
  "nresv p = length (filter (pl_reserved p) (pl_parked p))"

definition waiters_ok :: "pool \<Rightarrow> bool" where
  "waiters_ok p \<longleftrightarrow> distinct (pl_parked p) \<and> distinct (pl_waiters p) \<and> set (pl_waiters p) \<subseteq> set (pl_parked p)
     \<and> (\<forall>w\<in>set (pl_parked p). w < pl_next_waiter p) \<and> nres p = nresv p \<and> (pl_closed p \<longrightarrow> pl_waiters p = [])"

definition calls_ok :: "pool \<Rightarrow> bool" where
  "calls_ok p \<longleftrightarrow> distinct (pl_checked_out p) \<and> length (pl_checked_out p) + length (pl_calls p) \<le> nact p"

text \<open>At most \<open>k\<close> places are free while somebody waits without a reservation.\<close>

definition place_bal :: "nat \<Rightarrow> pool \<Rightarrow> bool" where
  "place_bal k p \<longleftrightarrow> nact p + nres p \<le> nmax p
     \<and> ((\<forall>w\<in>set (pl_waiters p). pl_reserved p w) \<or> nmax p \<le> nact p + nres p + k)"

definition pool_core :: "pool \<Rightarrow> bool" where
  "pool_core p \<longleftrightarrow> idle_ok p \<and> waiters_ok p \<and> calls_ok p \<and> 0 < nmax p"

definition pool_inv :: "pool \<Rightarrow> bool" where
  "pool_inv p \<longleftrightarrow> pool_core p \<and> place_bal 0 p"

lemma pool_queue_remove_eq: "pool_queue_remove q w = (remove1 w q, w \<in> set q)"
  by (induction q) (auto split: prod.splits)

lemma pool_first_Some: "pool_queue_first_unreserved f q = Some w \<Longrightarrow> w \<in> set q \<and> \<not> f w"
  by (induction q) (auto split: if_splits)

lemma pool_first_None: "pool_queue_first_unreserved f q = None \<longleftrightarrow> (\<forall>w\<in>set q. f w)"
  by (induction q) auto

lemma u32_inc: "unat (x :: uint32) < unat (y :: uint32) \<Longrightarrow> unat (x + 1) = Suc (unat x)"
  using unat_u32 [of y] by (simp add: unat_word_ariths)

lemma u32_dec: "0 < unat (x :: uint32) \<Longrightarrow> unat (x - 1) = unat x - 1"
  by (simp add: unat_sub word_le_nat_alt)

lemma nresv_grant:
  assumes "distinct q" and "w \<in> set q" and "\<not> f w"
  shows "length (filter (f(w := True)) q) = Suc (length (filter f q))"
proof -
  have "filter (f(w := True)) xs = filter f xs" if "w \<notin> set xs" for xs
    by (rule filter_cong) (use that in auto)
  then show ?thesis using assms by (induction q) auto
qed

lemma nresv_remove1:
  "w \<in> set q \<Longrightarrow> length (filter f q) = length (filter f (remove1 w q)) + (if f w then 1 else 0)"
  by (induction q) auto

lemma idle_ok_cong [simp]:
  "idle_ok (p\<lparr>pl_waiters := a\<rparr>) = idle_ok p" "idle_ok (p\<lparr>pl_reserved := b\<rparr>) = idle_ok p"
  "idle_ok (p\<lparr>pl_reserved_count := c\<rparr>) = idle_ok p" "idle_ok (p\<lparr>pl_parked := a\<rparr>) = idle_ok p"
  "idle_ok (p\<lparr>pl_log := l\<rparr>) = idle_ok p" "idle_ok (p\<lparr>pl_next_waiter := n\<rparr>) = idle_ok p"
  "idle_ok (p\<lparr>pl_calls := cs\<rparr>) = idle_ok p" "idle_ok (p\<lparr>pl_checked_out := a\<rparr>) = idle_ok p"
  "idle_ok (p\<lparr>pl_closed := d\<rparr>) = idle_ok p" "idle_ok (p\<lparr>pl_healthcheck_timer := d\<rparr>) = idle_ok p"
  by (simp_all add: idle_ok_def)

lemma waiters_ok_cong [simp]:
  "waiters_ok (p\<lparr>pl_log := l\<rparr>) = waiters_ok p" "waiters_ok (p\<lparr>pl_calls := cs\<rparr>) = waiters_ok p"
  "waiters_ok (p\<lparr>pl_checked_out := a\<rparr>) = waiters_ok p" "waiters_ok (p\<lparr>pl_active_count := n\<rparr>) = waiters_ok p"
  "waiters_ok (p\<lparr>pl_idle := b\<rparr>) = waiters_ok p"
  by (simp_all add: waiters_ok_def nresv_def)

lemma calls_ok_cong [simp]:
  "calls_ok (p\<lparr>pl_waiters := a\<rparr>) = calls_ok p" "calls_ok (p\<lparr>pl_reserved := b\<rparr>) = calls_ok p"
  "calls_ok (p\<lparr>pl_reserved_count := c\<rparr>) = calls_ok p" "calls_ok (p\<lparr>pl_parked := a\<rparr>) = calls_ok p"
  "calls_ok (p\<lparr>pl_log := l\<rparr>) = calls_ok p" "calls_ok (p\<lparr>pl_next_waiter := n\<rparr>) = calls_ok p"
  "calls_ok (p\<lparr>pl_closed := d\<rparr>) = calls_ok p" "calls_ok (p\<lparr>pl_idle := i\<rparr>) = calls_ok p"
  by (simp_all add: calls_ok_def)

lemma place_bal_cong [simp]:
  "place_bal k (p\<lparr>pl_log := l\<rparr>) = place_bal k p" "place_bal k (p\<lparr>pl_calls := cs\<rparr>) = place_bal k p"
  "place_bal k (p\<lparr>pl_checked_out := a\<rparr>) = place_bal k p" "place_bal k (p\<lparr>pl_idle := i\<rparr>) = place_bal k p"
  by (simp_all add: place_bal_def)

lemma settings_cong [simp]:
  "pool_inv (p\<lparr>pl_healthcheck_timer := b\<rparr>) = pool_inv p" "pool_inv (p\<lparr>pl_circuit_state := c\<rparr>) = pool_inv p"
  "pool_inv (p\<lparr>pl_strategy := b\<rparr>) = pool_inv p"
  by (simp_all add: pool_inv_def pool_core_def idle_ok_def waiters_ok_def calls_ok_def place_bal_def nresv_def)

lemma push_preds [simp]:
  "waiters_ok (pool_push_idle p r) = waiters_ok p" "calls_ok (pool_push_idle p r) = calls_ok p"
  "place_bal k (pool_push_idle p r) = place_bal k p"
  by (simp_all add: waiters_ok_def calls_ok_def place_bal_def nresv_def)

text \<open>Waking gives a free place to the oldest waiter that has none.\<close>

lemma pool_wake_waiter_ok:
  assumes "pool_core p" and "place_bal (Suc k) p"
    and free: "nact p + nres p < nmax p"
  shows "pool_core (fst (pool_wake_waiter p)) \<and> place_bal k (fst (pool_wake_waiter p))"
proof (cases "pool_queue_first_unreserved (pl_reserved p) (pl_waiters p)")
  case None
  then have "fst (pool_wake_waiter p) = p" by (simp add: pool_wake_waiter_def)
  with None assms show ?thesis by (simp add: place_bal_def pool_first_None)
next
  case (Some w)
  let ?q = "p\<lparr>pl_reserved := (pl_reserved p)(w := True), pl_reserved_count := pl_reserved_count p + 1\<rparr>"
  have w: "w \<in> set (pl_waiters p)" "\<not> pl_reserved p w" using pool_first_Some [OF Some] by auto
  have eq: "fst (pool_wake_waiter p) = pool_effect (Pool_Resumed w) ?q"
    using Some by (simp add: pool_wake_waiter_def)
  have wo: "waiters_ok p" using assms(1) by (simp add: pool_core_def)
  have n: "unat (pl_reserved_count p + 1) = Suc (nres p)"
    using u32_inc [of "pl_reserved_count p" "pl_max_size p"] free by simp
  have "w \<in> set (pl_parked p)" using wo w by (auto simp: waiters_ok_def)
  then have "waiters_ok ?q"
    using wo nresv_grant [of "pl_parked p" w "pl_reserved p"] w(2) n
    by (simp add: waiters_ok_def nresv_def)
  moreover have "place_bal k ?q" using assms(2) free w n by (auto simp: place_bal_def)
  ultimately show ?thesis using assms(1) by (simp add: eq pool_core_def)
qed

subsection \<open>Acquiring\<close>

abbreviation free_place :: "pool \<Rightarrow> bool" where
  "free_place p \<equiv> nact p + nres p < nmax p"

lemma unreserved_iff:
  assumes "place_bal k p"
  shows "unat (ASYNC_POOL_UNRESERVED p) = nmax p - nact p - nres p"
    and "ASYNC_POOL_UNRESERVED p > 0 \<longleftrightarrow> free_place p"
proof -
  have le: "nact p + nres p \<le> nmax p" using assms by (simp add: place_bal_def)
  then have 1: "unat (pl_max_size p - pl_active_count p) = nmax p - nact p"
    by (simp add: unat_sub word_le_nat_alt)
  then have "unat (pl_max_size p - pl_active_count p - pl_reserved_count p) = nmax p - nact p - nres p"
    using le by (simp add: unat_sub word_le_nat_alt)
  then show u: "unat (ASYNC_POOL_UNRESERVED p) = nmax p - nact p - nres p" by (simp add: ASYNC_POOL_UNRESERVED_def)
  show "ASYNC_POOL_UNRESERVED p > 0 \<longleftrightarrow> free_place p"
    using u by (simp add: word_less_nat_alt less_diff_conv)
qed

lemma total_iff:
  assumes "idle_ok p"
  shows "unat (ucast (ASYNC_POOL_TOTAL p) :: uint32) = nidle p + nact p"
proof -
  have le: "nidle p + nact p < 2 ^ 32" using assms unat_u32 [of "pl_max_size p"] by (simp add: idle_ok_def)
  have a: "unat (ucast (pl_active_count p) :: size_t) = nact p" 
    using unat_u32 [of "pl_active_count p"] by (simp add: unsigned_ucast_eq take_bit_nat_eq_self)
  have "unat (ASYNC_POOL_TOTAL p) = nidle p + nact p"
    unfolding ASYNC_POOL_TOTAL_def using le a by (subst unat_add_small) simp_all
  then show ?thesis using le by (simp add: unsigned_ucast_eq take_bit_nat_eq_self)
qed

lemma inc_active:
  assumes "pool_core p" and "place_bal (Suc k) p" and "free_place p" and "nidle p + nact p < nmax p"
  shows "pool_core (p\<lparr>pl_active_count := pl_active_count p + 1, pl_calls := pl_calls p @ [c]\<rparr>)
    \<and> place_bal k (p\<lparr>pl_active_count := pl_active_count p + 1, pl_calls := pl_calls p @ [c]\<rparr>)"
proof -
  have "unat (pl_active_count p + 1) = Suc (nact p)" using assms(3) u32_inc [of "pl_active_count p" "pl_max_size p"] by simp
  with assms show ?thesis
    by (auto simp: pool_core_def idle_ok_def calls_ok_def place_bal_def)
qed

lemma take_idle_ok:
  assumes core: "pool_core p" and "place_bal (Suc k) p" and "free_place p" and ne: "idle_items p \<noteq> []"
  shows "pool_core (fst (take_idle p)) \<and> place_bal k (fst (take_idle p)) \<and> (\<exists>r. snd (take_idle p) = Acq_Before_Acquire r)"
proof -
  have io: "idle_ok p" using core by (simp add: pool_core_def)
  obtain b r where pop: "pool_pop_idle p = (p\<lparr>pl_idle := b\<rparr>, SUCCESS, Some r)" "cb_wf b"
      "cb_capacity b = cb_capacity (pl_idle p)" "idle_items p = r # cb_items b"
    using pool_pop_idle_ok [of p] io ne by (auto simp: idle_ok_def)
  let ?q = "p\<lparr>pl_idle := b\<rparr>"
  have "nidle p = Suc (length (cb_items b))" by (simp only: pop(4) length_Cons)
  then have "idle_ok ?q" "nidle ?q + nact ?q < nmax ?q"
    using io pop(2,3) unfolding idle_ok_def by simp_all
  then have "pool_core ?q" "place_bal (Suc k) ?q" "free_place ?q" "nidle ?q + nact ?q < nmax ?q"
    using core assms(2,3) by (simp_all add: pool_core_def)
  from inc_active [OF this] show ?thesis by (simp add: take_idle_def pop(1))
qed

lemma take_capacity_ok:
  assumes "pool_core p" and "place_bal (Suc k) p" and "free_place p" and "nidle p + nact p < nmax p"
  shows "pool_core (fst (take_capacity p)) \<and> place_bal k (fst (take_capacity p))"
  using inc_active [OF assms] by (simp add: take_capacity_def)

lemma wait_begin_ok:
  assumes "pool_core p" and "\<not> pl_closed p" and "place_bal (Suc k) p" and "\<not> free_place p"
  shows "pool_core (fst (pool_wait_begin p)) \<and> place_bal 0 (fst (pool_wait_begin p))"
proof -
  let ?w = "pl_next_waiter p"
  let ?q = "p\<lparr>pl_next_waiter := Suc ?w, pl_reserved := (pl_reserved p)(?w := False),
         pl_waiters := pl_waiters p @ [?w], pl_parked := pl_parked p @ [?w]\<rparr>"
  have wo: "waiters_ok p" using assms(1) by (simp add: pool_core_def)
  have fresh: "?w \<notin> set (pl_parked p)" "?w \<notin> set (pl_waiters p)" using wo by (auto simp: waiters_ok_def)
  have "filter ((pl_reserved p)(?w := False)) (pl_parked p) = filter (pl_reserved p) (pl_parked p)"
    by (rule filter_cong) (use fresh in auto)
  then have "waiters_ok ?q"
    using wo fresh assms(2) by (auto simp: waiters_ok_def nresv_def less_SucI)
  moreover have "place_bal 0 ?q" using assms(3,4) by (auto simp: place_bal_def)
  ultimately show ?thesis using assms(1) by (simp add: pool_wait_begin_def pool_queue_push_def Let_def pool_core_def)
qed

text \<open>
  The body of \<open>acquire\<close>: from a state with at most one unclaimed free place, the caller
  takes a place if there is one and parks otherwise.
\<close>

lemma pool_give_up_closed:
  "waiters_ok p \<Longrightarrow> pl_closed p \<Longrightarrow> pool_give_up r p = p"
  by (simp add: pool_give_up_def pool_wake_waiter_def waiters_ok_def)

lemma retry_ok:
  assumes core: "pool_core p" and bal: "place_bal (Suc 0) p" and r: "r \<longrightarrow> free_place p"
    and circuit: "pl_circuit_state p \<noteq> CIRCUIT_INACTIVE"
  shows "pool_inv (fst (pool_acquire_retry r p))"
    and "\<not> pl_closed p \<Longrightarrow> free_place p \<Longrightarrow>
      snd (pool_acquire_retry r p) = Acq_Factory \<or> (\<exists>x. snd (pool_acquire_retry r p) = Acq_Before_Acquire x)"
proof -
  have io: "idle_ok p" and wo: "waiters_ok p" using core by (simp_all add: pool_core_def)
  note may = unreserved_iff(2) [OF bal]
  have tot: "(ucast (ASYNC_POOL_TOTAL p) :: uint32) < pl_max_size p \<longleftrightarrow> nidle p + nact p < nmax p"
    using total_iff [OF io] by (simp add: word_less_nat_alt)
  have em: "circular_buffer_is_empty (pl_idle p) \<longleftrightarrow> idle_items p = []"
    using idle_empty_iff [of p] io by (simp add: idle_ok_def)
  consider (closed) "pl_closed p" | (idle) "\<not> pl_closed p" "free_place p" "idle_items p \<noteq> []"
    | (create) "\<not> pl_closed p" "free_place p" "idle_items p = []" | (park) "\<not> pl_closed p" "\<not> free_place p"
    by blast
  then have "pool_inv (fst (pool_acquire_retry r p)) \<and> (\<not> pl_closed p \<longrightarrow> free_place p \<longrightarrow>
      snd (pool_acquire_retry r p) = Acq_Factory \<or> (\<exists>x. snd (pool_acquire_retry r p) = Acq_Before_Acquire x))"
  proof cases
    case closed
    then have "fst (pool_acquire_retry r p) = p"
      using pool_give_up_closed [OF wo] by (simp add: pool_acquire_retry_def)
    moreover have "place_bal 0 p" using closed wo bal by (simp add: place_bal_def waiters_ok_def)
    ultimately show ?thesis using closed core by (simp add: pool_inv_def)
  next
    case idle
    then have "pool_acquire_retry r p = take_idle p"
      using circuit may em by (simp add: pool_acquire_retry_def Let_def)
    with take_idle_ok [OF core bal idle(2,3)] show ?thesis by (auto simp: pool_inv_def)
  next
    case create
    have lt: "nidle p + nact p < nmax p" using create by (simp del: length_cb_items)
    then have "pool_acquire_retry r p = take_capacity p"
      using create circuit may em tot by (simp add: pool_acquire_retry_def Let_def)
    with take_capacity_ok [OF core bal create(2) lt] show ?thesis by (simp add: pool_inv_def take_capacity_def)
  next
    case park
    then have "\<not> r" using r by blast
    then have "fst (pool_acquire_retry r p) = fst (pool_wait_begin p)"
      using park circuit may by (simp add: pool_acquire_retry_def Let_def case_prod_unfold)
    with wait_begin_ok [OF core park(1) bal park(2)] park show ?thesis by (simp add: pool_inv_def)
  qed
  then show "pool_inv (fst (pool_acquire_retry r p))"
    "\<not> pl_closed p \<Longrightarrow> free_place p \<Longrightarrow>
      snd (pool_acquire_retry r p) = Acq_Factory \<or> (\<exists>x. snd (pool_acquire_retry r p) = Acq_Before_Acquire x)"
    by blast+
qed

text \<open>With the circuit breaker open a caller leaves and hands back a reservation it holds.\<close>

lemma retry_inactive_ok:
  assumes core: "pool_core p" and bal: "place_bal (if r then Suc 0 else 0) p" and r: "r \<longrightarrow> free_place p"
    and circuit: "pl_circuit_state p = CIRCUIT_INACTIVE"
  shows "pool_inv (fst (pool_acquire_retry r p))" "pl_calls (fst (pool_acquire_retry r p)) = pl_calls p"
proof -
  have eq: "fst (pool_acquire_retry r p) = pool_give_up r p" using circuit by (simp add: pool_acquire_retry_def)
  show "pl_calls (fst (pool_acquire_retry r p)) = pl_calls p"
    by (simp add: eq pool_give_up_def pool_wake_waiter_def split: option.split)
  show "pool_inv (fst (pool_acquire_retry r p))"
    unfolding eq using pool_wake_waiter_ok [OF core, of 0] assms
    by (cases r) (simp_all add: pool_give_up_def pool_inv_def)
qed

lemma try_acquire_ok:
  assumes core: "pool_core p" and bal: "place_bal (Suc 0) p"
    and circuit: "pl_circuit_state p \<noteq> CIRCUIT_INACTIVE"
  shows "pool_inv (fst (zend_async_pool_try_acquire p))"
proof -
  have io: "idle_ok p" and wo: "waiters_ok p" using core by (simp_all add: pool_core_def)
  note may = unreserved_iff(2) [OF bal]
  have tot: "(ucast (ASYNC_POOL_TOTAL p) :: uint32) < pl_max_size p \<longleftrightarrow> nidle p + nact p < nmax p"
    using total_iff [OF io] by (simp add: word_less_nat_alt)
  have em: "circular_buffer_is_empty (pl_idle p) \<longleftrightarrow> idle_items p = []"
    using idle_empty_iff [of p] io by (simp add: idle_ok_def)
  consider (none) "pl_closed p \<or> \<not> free_place p" | (idle) "\<not> pl_closed p" "free_place p" "idle_items p \<noteq> []"
    | (create) "\<not> pl_closed p" "free_place p" "idle_items p = []" by blast
  then show ?thesis
  proof cases
    case none
    then have "fst (zend_async_pool_try_acquire p) = p"
      using may circuit by (auto simp: zend_async_pool_try_acquire_def Let_def)
    moreover have "place_bal 0 p" using none wo bal by (auto simp: place_bal_def waiters_ok_def)
    ultimately show ?thesis using core by (simp add: pool_inv_def)
  next
    case idle
    then have "zend_async_pool_try_acquire p = take_idle p"
      using circuit may em by (simp add: zend_async_pool_try_acquire_def Let_def)
    with take_idle_ok [OF core bal idle(2,3)] show ?thesis by (auto simp: pool_inv_def)
  next
    case create
    have lt: "nidle p + nact p < nmax p" using create by (simp del: length_cb_items)
    then have "zend_async_pool_try_acquire p = take_capacity p"
      using create circuit may em tot by (simp add: zend_async_pool_try_acquire_def Let_def)
    with take_capacity_ok [OF core bal create(2) lt] show ?thesis by (simp add: pool_inv_def)
  qed
qed

subsection \<open>Coming back from a call\<close>

lemma end_call_frame [simp]:
  "pl_active_count (end_call c p) = pl_active_count p" "pl_max_size (end_call c p) = pl_max_size p"
  "pl_reserved_count (end_call c p) = pl_reserved_count p" "pl_waiters (end_call c p) = pl_waiters p"
  "pl_reserved (end_call c p) = pl_reserved p" "pl_closed (end_call c p) = pl_closed p"
  "pl_circuit_state (end_call c p) = pl_circuit_state p" "pl_idle (end_call c p) = pl_idle p"
  "pl_checked_out (end_call c p) = pl_checked_out p" "pl_calls (end_call c p) = remove1 c (pl_calls p)"
  "pl_strategy (end_call c p) = pl_strategy p"
  by (simp_all add: end_call_def)

text \<open>A call in progress is counted as active, so the counter can be decremented.\<close>

lemma end_call_ok:
  assumes inv: "pool_inv p" and c: "c \<in> set (pl_calls p)"
  defines "q \<equiv> end_call c p"
  shows "pool_inv q" "length (pl_checked_out q) + length (pl_calls q) < nact q"
    and "pool_core (q\<lparr>pl_active_count := pl_active_count q - 1\<rparr>)"
    and "place_bal (Suc 0) (q\<lparr>pl_active_count := pl_active_count q - 1\<rparr>)"
    and "free_place (q\<lparr>pl_active_count := pl_active_count q - 1\<rparr>)"
    and "nidle (q\<lparr>pl_active_count := pl_active_count q - 1\<rparr>) + nact (q\<lparr>pl_active_count := pl_active_count q - 1\<rparr>) < nmax q"
proof -
  have len: "length (pl_calls p) = Suc (length (remove1 c (pl_calls p)))"
    using c length_pos_if_in_set [OF c] by (simp add: length_remove1)
  have co: "calls_ok p" using inv by (simp add: pool_inv_def pool_core_def)
  then show lt: "length (pl_checked_out q) + length (pl_calls q) < nact q"
    using len by (simp add: q_def calls_ok_def)
  have cq: "calls_ok q" using co len by (simp add: q_def calls_ok_def)
  then show "pool_inv q" using inv by (simp add: q_def pool_inv_def pool_core_def) (simp add: end_call_def)
  have dec: "unat (pl_active_count q - 1) = nact q - 1" "0 < nact q"
    using lt u32_dec [of "pl_active_count q"] by auto
  have io: "idle_ok q" and bal: "place_bal 0 q" and wo: "waiters_ok q" and mx: "0 < nmax q"
    using \<open>pool_inv q\<close> by (simp_all add: pool_inv_def pool_core_def)
  show "pool_core (q\<lparr>pl_active_count := pl_active_count q - 1\<rparr>)"
    using io wo lt cq dec mx by (auto simp: pool_core_def idle_ok_def calls_ok_def)
  show "place_bal (Suc 0) (q\<lparr>pl_active_count := pl_active_count q - 1\<rparr>)"
    using bal dec by (auto simp: place_bal_def)
  show "free_place (q\<lparr>pl_active_count := pl_active_count q - 1\<rparr>)"
    using bal dec by (auto simp: place_bal_def)
  show "nidle (q\<lparr>pl_active_count := pl_active_count q - 1\<rparr>) + nact (q\<lparr>pl_active_count := pl_active_count q - 1\<rparr>) < nmax q"
    using io dec by (auto simp: idle_ok_def)
qed

lemma check_out_ok:
  assumes "pool_inv q" and "length (pl_checked_out q) + length (pl_calls q) < nact q"
  shows "pool_inv (pool_check_out q r)"
proof (cases r)
  case (Res_Object h)
  have "length (List.insert h (pl_checked_out q)) \<le> Suc (length (pl_checked_out q))" by (simp add: List.insert_def)
  with assms Res_Object show ?thesis
    by (auto simp: pool_check_out_def pool_inv_def pool_core_def calls_ok_def)
qed (use assms in \<open>simp add: pool_check_out_def\<close>)

lemma log_inv [simp]: "pool_core (p\<lparr>pl_log := l\<rparr>) = pool_core p" "pool_inv (p\<lparr>pl_log := l\<rparr>) = pool_inv p"
  by (simp_all add: pool_core_def pool_inv_def)

lemma wake_after:
  assumes "pool_core p" and "place_bal (Suc 0) p" and "free_place p"
  shows "pool_inv (fst (pool_wake_waiter p))"
  using pool_wake_waiter_ok [OF assms] by (simp add: pool_inv_def)

lemma acquire_checked_ok:
  assumes inv: "pool_inv p" and c: "In_Before_Acquire r \<in> set (pl_calls p)"
    and circuit: "pl_circuit_state p \<noteq> CIRCUIT_INACTIVE"
    and again: "again = pool_acquire_retry False \<or> again = zend_async_pool_try_acquire"
  shows "pool_inv (fst (pool_acquire_checked again r hook threw p))"
proof -
  let ?q = "end_call (In_Before_Acquire r) p"
  let ?d = "pool_destroy_resource (?q\<lparr>pl_active_count := pl_active_count ?q - 1\<rparr>) r"
  note e = end_call_ok [OF inv c]
  have d: "pool_core ?d" "place_bal (Suc 0) ?d" "free_place ?d" "pl_circuit_state ?d \<noteq> CIRCUIT_INACTIVE"
    using e(3-5) circuit by (simp_all add: pool_destroy_resource_def)
  have "pool_inv (fst (again ?d))"
    using again retry_ok(1) [OF d(1,2) _ d(4)] try_acquire_ok [OF d(1,2,4)] d(3) by auto
  then show ?thesis
    using check_out_ok [OF e(1,2)] wake_after [OF d(1-3)]
    by (auto simp: pool_acquire_checked_def Let_def split: prod.split)
qed

lemma acquire_created_ok:
  assumes inv: "pool_inv p" and c: "In_Factory \<in> set (pl_calls p)"
  shows "pool_inv (fst (pool_acquire_created fr p))"
  using check_out_ok [OF end_call_ok(1,2) [OF inv c]] wake_after [OF end_call_ok(3-5) [OF inv c]]
  by (cases fr) (simp_all add: pool_acquire_created_def)

lemma try_created_fst: "fst (pool_try_acquire_created fr p) = fst (pool_acquire_created fr p)"
  by (cases "pool_acquire_created fr p"; cases "snd (pool_acquire_created fr p)") (simp_all add: pool_try_acquire_created_def)

subsection \<open>Waiting\<close>

lemma wait_end_ok:
  assumes inv: "pool_inv p" and w: "w \<in> set (pl_parked p)"
    and res: "pool_wait_end w exc p = (q, had)"
  shows "pool_core q" "place_bal (Suc 0) q" "had = pl_reserved p w" "had \<and> \<not> exc \<longrightarrow> free_place q"
    "\<not> (had \<and> \<not> exc) \<longrightarrow> place_bal 0 q" "\<not> exc \<Longrightarrow> pl_closed q = pl_closed p"
    "\<not> exc \<Longrightarrow> pl_circuit_state q = pl_circuit_state p"
proof -
  let ?a = "p\<lparr>pl_waiters := remove1 w (pl_waiters p), pl_parked := remove1 w (pl_parked p)\<rparr>"
  let ?b = "if pl_reserved p w then ?a\<lparr>pl_reserved_count := pl_reserved_count p - 1\<rparr> else ?a"
  have eq: "had = pl_reserved p w"
    "q = (if pl_reserved p w \<and> exc \<and> \<not> pl_closed p then fst (pool_wake_waiter ?b) else ?b)"
    using res by (auto simp: pool_wait_end_def Let_def pool_queue_remove_eq split: if_splits)
  have core: "pool_core p" and bal: "place_bal 0 p" and wo: "waiters_ok p"
    using inv by (simp_all add: pool_inv_def pool_core_def)
  note rm = nresv_remove1 [OF w, of "pl_reserved p"]
  have dec: "pl_reserved p w \<Longrightarrow> unat (pl_reserved_count p - 1) = nres p - 1 \<and> 0 < nres p"
    using wo rm u32_dec [of "pl_reserved_count p"] by (auto simp: waiters_ok_def nresv_def)
  have "distinct (remove1 w (pl_parked p))" "distinct (remove1 w (pl_waiters p))"
      "set (remove1 w (pl_waiters p)) \<subseteq> set (remove1 w (pl_parked p))"
    using wo by (auto simp: waiters_ok_def)
  then have "waiters_ok ?b" using wo rm dec by (auto simp: waiters_ok_def nresv_def)
  then have b: "pool_core ?b" using core by (auto simp: pool_core_def)
  have sub: "set (remove1 w (pl_waiters p)) \<subseteq> set (pl_waiters p)" by (rule set_remove1_subset)
  have b1: "place_bal (Suc 0) ?b" using bal dec sub by (auto simp: place_bal_def)
  have b0: "\<not> pl_reserved p w \<Longrightarrow> place_bal 0 ?b" using bal sub by (auto simp: place_bal_def)
  have bf: "pl_reserved p w \<Longrightarrow> free_place ?b" using bal dec by (auto simp: place_bal_def)
  have bc: "pl_closed p \<Longrightarrow> place_bal 0 ?b" using wo bal dec by (auto simp: place_bal_def waiters_ok_def)
  show "had = pl_reserved p w" by (rule eq(1))
  show "\<not> exc \<Longrightarrow> pl_closed q = pl_closed p" "\<not> exc \<Longrightarrow> pl_circuit_state q = pl_circuit_state p" using eq(2) by auto
  have "pool_core q \<and> place_bal (Suc 0) q \<and> (had \<and> \<not> exc \<longrightarrow> free_place q) \<and> (\<not> (had \<and> \<not> exc) \<longrightarrow> place_bal 0 q)"
  proof (cases "pl_reserved p w \<and> exc \<and> \<not> pl_closed p")
    case True
    then have q: "q = fst (pool_wake_waiter ?b)" using eq(2) by presburger
    have "pool_inv q" unfolding q by (rule wake_after [OF b b1 bf]) (use True in simp)
    then show ?thesis using eq(1) True by (auto simp: pool_inv_def place_bal_def)
  next
    case False
    then have q: "q = ?b" using eq(2) by presburger
    show ?thesis unfolding q eq(1) using b b1 b0 bf bc False by blast
  qed
  then show "pool_core q" "place_bal (Suc 0) q" "had \<and> \<not> exc \<longrightarrow> free_place q" "\<not> (had \<and> \<not> exc) \<longrightarrow> place_bal 0 q"
    by blast+
qed

lemma acquire_resumed_ok:
  assumes inv: "pool_inv p" and w: "w \<in> set (pl_parked p)" and circuit: "pl_circuit_state p \<noteq> CIRCUIT_INACTIVE"
  shows "pool_inv (fst (pool_acquire_resumed w exc p))"
proof -
  obtain q had where e: "pool_wait_end w exc p = (q, had)" by force
  note k = wait_end_ok [OF inv w e]
  show ?thesis
  proof (cases exc)
    case True
    with e k show ?thesis by (simp add: pool_acquire_resumed_def pool_inv_def)
  next
    case False
    then have "fst (pool_acquire_resumed w exc p) = fst (pool_acquire_retry had q)"
      using e by (simp add: pool_acquire_resumed_def)
    then show ?thesis using retry_ok(1) [OF k(1,2), of had] k(4,7) False circuit by simp
  qed
qed

lemma acquire_resumed_inactive_ok:
  assumes inv: "pool_inv p" and w: "w \<in> set (pl_parked p)" and circuit: "pl_circuit_state p = CIRCUIT_INACTIVE"
  shows "pool_inv (fst (pool_acquire_resumed w exc p))" "pl_calls (fst (pool_acquire_resumed w exc p)) = pl_calls p"
proof -
  obtain q had where e: "pool_wait_end w exc p = (q, had)" by force
  note k = wait_end_ok [OF inv w e]
  have "q = fst (pool_wait_end w exc p)" using e by simp
  then have c: "pl_calls q = pl_calls p"
    by (simp add: pool_wait_end_def pool_wake_waiter_def Let_def split: option.split)
  have "pool_inv (fst (pool_acquire_resumed w exc p)) \<and> pl_calls (fst (pool_acquire_resumed w exc p)) = pl_calls p"
  proof (cases exc)
    case True
    with e k c show ?thesis by (simp add: pool_acquire_resumed_def pool_inv_def)
  next
    case False
    then have r: "fst (pool_acquire_resumed w exc p) = fst (pool_acquire_retry had q)"
      using e by (simp add: pool_acquire_resumed_def)
    show ?thesis unfolding r c [symmetric]
      using retry_inactive_ok [OF k(1), of had] k(2,4,5,7) False circuit by (cases had) simp_all
  qed
  then show "pool_inv (fst (pool_acquire_resumed w exc p))" "pl_calls (fst (pool_acquire_resumed w exc p)) = pl_calls p"
    by blast+
qed

subsection \<open>Releasing and closing\<close>

lemma release_ok:
  assumes inv: "pool_inv p"
  shows "pool_inv (fst (zend_async_pool_release (Res_Object h) p))"
proof (cases "h \<in> set (pl_checked_out p)")
  case True
  have co: "calls_ok p" using inv by (simp add: pool_inv_def pool_core_def)
  have len: "length (pl_checked_out p) = Suc (length (remove1 h (pl_checked_out p)))"
    using True length_pos_if_in_set [OF True] by (simp add: length_remove1)
  then have "pl_active_count p \<noteq> 0" using co by (auto simp: calls_ok_def)
  then have "fst (zend_async_pool_release (Res_Object h) p) =
      p\<lparr>pl_checked_out := remove1 h (pl_checked_out p), pl_calls := pl_calls p @ [In_Before_Release (Res_Object h)]\<rparr>"
    using True by (simp add: zend_async_pool_release_def pool_check_in_def)
  with inv len show ?thesis by (auto simp: pool_inv_def pool_core_def calls_ok_def)
next
  case False
  then have "fst (zend_async_pool_release (Res_Object h) p) = p"
    by (simp add: zend_async_pool_release_def pool_check_in_def remove1_idem split: if_splits)
  with inv show ?thesis by simp
qed

text \<open>
  A scalar carries no identity, so the pool takes any; here one is released only while one
  is out, which the places in use beyond the checked-out objects and the calls in progress
  count.
\<close>

lemma release_scalar_ok:
  assumes inv: "pool_inv p" and out: "length (pl_checked_out p) + length (pl_calls p) < nact p"
  shows "pool_inv (fst (zend_async_pool_release (Res_Other k) p))"
proof -
  have "pl_active_count p \<noteq> 0" using out by auto
  then have "fst (zend_async_pool_release (Res_Other k) p) = p\<lparr>pl_calls := pl_calls p @ [In_Before_Release (Res_Other k)]\<rparr>"
    by (simp add: zend_async_pool_release_def pool_check_in_def)
  with inv out show ?thesis by (simp add: pool_inv_def pool_core_def calls_ok_def)
qed

lemma report_frame [simp]:
  "pool_core (pool_strategy_report_success p) = pool_core p" "pool_core (pool_strategy_report_failure p) = pool_core p"
  "place_bal k (pool_strategy_report_success p) = place_bal k p" "place_bal k (pool_strategy_report_failure p) = place_bal k p"
  "pl_active_count (pool_strategy_report_success p) = pl_active_count p"
  "pl_active_count (pool_strategy_report_failure p) = pl_active_count p"
  "pl_reserved_count (pool_strategy_report_success p) = pl_reserved_count p"
  "pl_reserved_count (pool_strategy_report_failure p) = pl_reserved_count p"
  "pl_max_size (pool_strategy_report_success p) = pl_max_size p" "pl_max_size (pool_strategy_report_failure p) = pl_max_size p"
  "pl_idle (pool_strategy_report_success p) = pl_idle p" "pl_idle (pool_strategy_report_failure p) = pl_idle p"
  "pl_closed (pool_strategy_report_success p) = pl_closed p" "pl_closed (pool_strategy_report_failure p) = pl_closed p"
  "pl_waiters (pool_strategy_report_success p) = pl_waiters p"
  "pl_circuit_state (pool_strategy_report_success p) = pl_circuit_state p"
  "pl_circuit_state (pool_strategy_report_failure p) = pl_circuit_state p"
  by (simp_all add: pool_strategy_report_success_def pool_strategy_report_failure_def)

lemma release_finish_ok:
  assumes "pool_core p" and "place_bal (Suc 0) p" and "free_place p" and "nidle p + nact p < nmax p"
  shows "pool_inv (pool_release_finish r reusable p)"
proof -
  have wake: "pool_inv (fst (pool_wake_waiter (pool_destroy_resource p r)))"
    using assms(1-3) by (intro wake_after) (simp_all add: pool_destroy_resource_def)
  have closed: "pl_closed p \<Longrightarrow> pool_inv (pool_destroy_resource p r)"
    using assms(1,2) by (auto simp: pool_destroy_resource_def pool_inv_def pool_core_def place_bal_def waiters_ok_def [of p])
  have "idle_ok (pool_push_idle p r)"
    using pool_push_idle_ok(1) [of p r] assms(1,4) by (simp add: pool_core_def idle_ok_def)
  then have "pool_core (pool_push_idle p r)"
    using assms(1) by (simp add: pool_core_def waiters_ok_def calls_ok_def nresv_def)
  moreover have "place_bal (Suc 0) (pool_push_idle p r)" using assms(2) by (simp add: place_bal_def)
  ultimately have "pool_inv (fst (pool_wake_waiter (pool_push_idle p r)))" using assms(3) by (intro wake_after) simp_all
  with wake closed show ?thesis by (simp add: pool_release_finish_def)
qed

lemma release_rest_ok:
  assumes inv: "pool_inv p" and c: "In_Before_Release r \<in> set (pl_calls p)"
  shows "pool_inv (pool_release_rest r hook p)"
proof -
  let ?q = "end_call (In_Before_Release r) p"
  let ?d = "?q\<lparr>pl_active_count := pl_active_count ?q - 1\<rparr>"
  note e = end_call_ok(3-6) [OF inv c]
  have "pool_inv (pool_release_finish r b ?d)" "pool_inv (pool_release_finish r b (pool_strategy_report_success ?d))"
    "pool_inv (pool_release_finish r b (pool_strategy_report_failure ?d))" for b
    using e by (intro release_finish_ok; simp)+
  then show ?thesis
    by (simp add: pool_release_rest_def pool_release_hooked_def Let_def split: prod.split)
qed

lemma wake_all_loop_spec:
  "length (pl_waiters p) \<le> n \<Longrightarrow>
   wake_all_loop n p = p\<lparr>pl_waiters := [], pl_log := pl_log p @ map Pool_Failed (rev (pl_waiters p))\<rparr>"
proof (induction n arbitrary: p)
  case 0
  then show ?case by simp
next
  case (Suc n)
  show ?case
  proof (cases "pl_waiters p" rule: rev_cases)
    case Nil
    then show ?thesis by (simp add: pool_queue_pop_last_def)
  next
    case (snoc ws w)
    let ?q = "pool_effect (Pool_Failed w) (p\<lparr>pl_waiters := ws\<rparr>)"
    have "wake_all_loop n ?q = ?q\<lparr>pl_waiters := [], pl_log := pl_log ?q @ map Pool_Failed (rev (pl_waiters ?q))\<rparr>"
      using Suc.prems snoc by (intro Suc.IH) simp
    with snoc show ?thesis by (simp add: pool_queue_pop_last_def)
  qed
qed

lemma destroy_idle_spec:
  assumes "cb_wf (pl_idle p)" and "nidle p \<le> n"
  shows "\<exists>b. destroy_idle n p = p\<lparr>pl_idle := b, pl_log := pl_log p @ map Pool_Destroyed (idle_items p)\<rparr>
    \<and> cb_wf b \<and> cb_capacity b = cb_capacity (pl_idle p) \<and> cb_items b = []"
  using assms
proof (induction n arbitrary: p)
  case 0
  then have e: "idle_items p = []" by (simp del: length_cb_items)
  have "p = p\<lparr>pl_idle := pl_idle p, pl_log := pl_log p @ map Pool_Destroyed (idle_items p)\<rparr>" by (simp add: e)
  with 0 e show ?case by (metis destroy_idle.simps(1))
next
  case (Suc n)
  show ?case
  proof (cases "idle_items p")
    case Nil
    then have "destroy_idle (Suc n) p = p" using idle_empty_iff [OF Suc.prems(1)] by simp
    moreover have "p = p\<lparr>pl_idle := pl_idle p, pl_log := pl_log p @ map Pool_Destroyed (idle_items p)\<rparr>" by (simp add: Nil)
    ultimately show ?thesis using Suc.prems(1) Nil by metis
  next
    case (Cons x xs)
    then obtain b r where pop: "pool_pop_idle p = (p\<lparr>pl_idle := b\<rparr>, SUCCESS, Some r)" "cb_wf b"
        "cb_capacity b = cb_capacity (pl_idle p)" "idle_items p = r # cb_items b"
      using pool_pop_idle_ok [OF Suc.prems(1)] by auto
    let ?q = "pool_destroy_resource (p\<lparr>pl_idle := b\<rparr>) r"
    have step: "destroy_idle (Suc n) p = destroy_idle n ?q"
      using pop(1) idle_empty_iff [OF Suc.prems(1)] Cons by simp
    have "nidle p = Suc (length (cb_items b))" by (simp only: pop(4) length_Cons)
    then have "nidle ?q \<le> n" using Suc.prems(2) by (simp add: pool_destroy_resource_def)
    then obtain b' where "destroy_idle n ?q = ?q\<lparr>pl_idle := b', pl_log := pl_log ?q @ map Pool_Destroyed (idle_items ?q)\<rparr>
        \<and> cb_wf b' \<and> cb_capacity b' = cb_capacity (pl_idle ?q) \<and> cb_items b' = []"
      using Suc.IH [of ?q] pop(2) by (auto simp: pool_destroy_resource_def)
    then show ?thesis using step pop(3,4) by (auto simp: pool_destroy_resource_def)
  qed
qed

lemma close_pool_spec:
  assumes "cb_wf (pl_idle p)" and "\<not> pl_closed p"
  shows "\<exists>b. zend_async_pool_close True p =
      p\<lparr>pl_closed := True, pl_healthcheck_timer := False, pl_waiters := [], pl_idle := b,
        pl_log := pl_log p @ map Pool_Failed (rev (pl_waiters p)) @ map Pool_Destroyed (idle_items p)\<rparr>
    \<and> cb_wf b \<and> cb_capacity b = cb_capacity (pl_idle p) \<and> cb_items b = []"
proof -
  let ?q = "p\<lparr>pl_closed := True, pl_healthcheck_timer := False, pl_waiters := [],
      pl_log := pl_log p @ map Pool_Failed (rev (pl_waiters p))\<rparr>"
  have "nidle p \<le> unat (cb_capacity (pl_idle p))"
    using cb_index_laws(1) [OF assms(1,1,1,1,1)] by simp
  then obtain b where "destroy_idle (unat (cb_capacity (pl_idle p))) ?q =
        ?q\<lparr>pl_idle := b, pl_log := pl_log ?q @ map Pool_Destroyed (idle_items ?q)\<rparr>
      \<and> cb_wf b \<and> cb_capacity b = cb_capacity (pl_idle p) \<and> cb_items b = []"
    using destroy_idle_spec [of ?q] assms(1) by auto
  moreover have "zend_async_pool_close True p = destroy_idle (unat (cb_capacity (pl_idle p))) ?q"
    using assms(2) by (simp add: zend_async_pool_close_def pool_wake_all_with_exception_def Let_def wake_all_loop_spec)
  ultimately show ?thesis by auto
qed

lemma close_pool_ok:
  assumes inv: "pool_inv p"
  shows "pool_inv (zend_async_pool_close True p)"
proof (cases "pl_closed p")
  case True
  with inv show ?thesis by (simp add: zend_async_pool_close_def)
next
  case False
  have io: "idle_ok p" and wo: "waiters_ok p" and co: "calls_ok p" and bal: "place_bal 0 p" and mx: "0 < nmax p"
    using inv by (simp_all add: pool_inv_def pool_core_def)
  obtain b where b: "zend_async_pool_close True p =
      p\<lparr>pl_closed := True, pl_healthcheck_timer := False, pl_waiters := [], pl_idle := b,
        pl_log := pl_log p @ map Pool_Failed (rev (pl_waiters p)) @ map Pool_Destroyed (idle_items p)\<rparr>"
    "cb_wf b" "cb_capacity b = cb_capacity (pl_idle p)" "cb_items b = []"
    using close_pool_spec [OF _ False] io by (auto simp: idle_ok_def)
  let ?q = "zend_async_pool_close True p"
  have "idle_ok ?q" using io b by (simp add: idle_ok_def del: length_cb_items)
  moreover have "waiters_ok ?q" using wo by (simp add: b(1) waiters_ok_def nresv_def)
  moreover have "calls_ok ?q" using co by (simp add: b(1) calls_ok_def)
  moreover have "place_bal 0 ?q" using bal by (simp add: b(1) place_bal_def)
  ultimately show ?thesis using mx by (simp add: pool_inv_def pool_core_def b(1))
qed

end
