(* ===== verification/Pool_Health.thy ===== *)
theory Pool_Health
  imports Pool_Invariant
begin

text \<open>
  The healthcheck tick of a pool (\<open>pool_healthcheck_timer_callback\<close>).  Its loop checks the
  idle resources one by one; it keeps the resources within the maximum and touches neither
  the places in use nor the reservations.  Whether the tick keeps the accounting is decided
  by the wake-up after the loop.
\<close>

text \<open>What the loop keeps, also when a hook closes the pool.\<close>

definition checked_over :: "pool \<Rightarrow> pool \<Rightarrow> bool" where
  "checked_over p q \<longleftrightarrow> idle_ok q \<and> pl_max_size q = pl_max_size p \<and> pl_active_count q = pl_active_count p
     \<and> pl_checked_out q = pl_checked_out p \<and> pl_reserved_count q = pl_reserved_count p
     \<and> pl_reserved q = pl_reserved p \<and> pl_next_waiter q = pl_next_waiter p \<and> pl_parked q = pl_parked p
     \<and> pl_circuit_state q = pl_circuit_state p \<and> pl_calls q = pl_calls p
     \<and> (pl_closed q = pl_closed p \<and> pl_waiters q = pl_waiters p \<or> pl_closed q \<and> pl_waiters q = [])"

lemma checked_over_refl: "idle_ok p \<Longrightarrow> checked_over p p"
  by (simp add: checked_over_def)

lemma checked_over_trans: "checked_over p q \<Longrightarrow> checked_over q r \<Longrightarrow> checked_over p r"
  unfolding checked_over_def by auto

lemma checked_over_inv: "pool_inv p \<Longrightarrow> checked_over p q \<Longrightarrow> pool_inv q"
  by (auto simp: checked_over_def pool_inv_def pool_core_def waiters_ok_def calls_ok_def place_bal_def nresv_def)

text \<open>The resource under check is out of the buffer, and its hook may close the pool.\<close>

definition hooked :: "health_outcome \<Rightarrow> pool \<Rightarrow> pool" where
  "hooked out p = (let p = p\<lparr>pl_active_count := pl_active_count p + 1\<rparr>;
       p = (if hc_closes out then zend_async_pool_close True p else p)
     in p\<lparr>pl_active_count := pl_active_count p - 1\<rparr>)"

lemma hooked_ok:
  assumes "idle_ok p" and "nidle p + nact p < nmax p"
  shows "checked_over p (hooked out p)" "nidle (hooked out p) + nact (hooked out p) < nmax (hooked out p)"
    "\<not> hc_closes out \<Longrightarrow> hooked out p = p"
proof -
  let ?a = "p\<lparr>pl_active_count := pl_active_count p + 1\<rparr>"
  show same: "\<not> hc_closes out \<Longrightarrow> hooked out p = p" by (simp add: hooked_def Let_def)
  have "checked_over p (hooked out p) \<and> nidle (hooked out p) + nact (hooked out p) < nmax (hooked out p)"
  proof (cases "hc_closes out \<and> \<not> pl_closed p")
    case True
    then obtain b where b: "zend_async_pool_close True ?a =
        ?a\<lparr>pl_closed := True, pl_healthcheck_timer := False, pl_waiters := [], pl_idle := b,
          pl_log := pl_log ?a @ map Pool_Failed (rev (pl_waiters ?a)) @ map Pool_Destroyed (idle_items ?a)\<rparr>"
        "cb_wf b" "cb_capacity b = cb_capacity (pl_idle ?a)" "cb_items b = []"
      using close_pool_spec [of ?a] assms(1) by (auto simp: idle_ok_def)
    then show ?thesis
      using True assms by (simp add: hooked_def checked_over_def idle_ok_def del: length_cb_items)
  next
    case False
    then have "hooked out p = p" by (auto simp: hooked_def Let_def zend_async_pool_close_def)
    with assms show ?thesis by (simp add: checked_over_refl)
  qed
  then show "checked_over p (hooked out p)" "nidle (hooked out p) + nact (hooked out p) < nmax (hooked out p)"
    by blast+
qed

lemma push_checked:
  assumes "idle_ok p" and "nidle p + nact p < nmax p"
  shows "checked_over p (pool_push_idle p r)"
  using pool_push_idle_ok(1) [of p r] assms by (simp add: checked_over_def idle_ok_def)

lemma destroy_checked:
  "checked_over p (pool_destroy_resource q r) = checked_over p q"
  "nidle (pool_destroy_resource p r) + nact (pool_destroy_resource p r) < nmax (pool_destroy_resource p r)
    \<longleftrightarrow> nidle p + nact p < nmax p"
  by (simp_all add: checked_over_def pool_destroy_resource_def)

text \<open>One round of the loop, given what the rest of it keeps.\<close>

lemma loop_round:
  assumes ok: "idle_ok p" and rest: "\<And>q. idle_ok q \<Longrightarrow> checked_over q (healthcheck_loop n env q)"
  shows "checked_over p (healthcheck_loop (Suc n) env p)"
proof (cases "idle_items p = []")
  case True
  have "circular_buffer_pop (pl_idle p) = (pl_idle p, FAILURE, None)"
    using True idle_empty_iff [of p] ok by (simp add: idle_ok_def circular_buffer_pop_def)
  then show ?thesis using ok by (simp add: pool_pop_idle_def checked_over_refl)
next
  case False
  obtain b r where pop: "pool_pop_idle p = (p\<lparr>pl_idle := b\<rparr>, SUCCESS, Some r)" "cb_wf b"
      "cb_capacity b = cb_capacity (pl_idle p)" "idle_items p = r # cb_items b"
    using pool_pop_idle_ok [of p] ok False by (auto simp: idle_ok_def)
  let ?p = "p\<lparr>pl_idle := b\<rparr>" and ?out = "env n"
  let ?h = "hooked ?out ?p" and ?d = "pool_destroy_resource (hooked ?out ?p) r"
  have "nidle p = Suc (length (cb_items b))" by (simp only: pop(4) length_Cons)
  then have "idle_ok ?p" "nidle ?p + nact ?p < nmax ?p" using ok pop(2,3) unfolding idle_ok_def by simp_all
  note h = hooked_ok(1,2) [OF this, of ?out]
  have p: "checked_over p ?p" using ok \<open>idle_ok ?p\<close> by (simp add: checked_over_def)
  have hk: "idle_ok ?h" "checked_over p ?h" using h(1) checked_over_trans [OF p h(1)] by (simp_all add: checked_over_def)
  have dk: "idle_ok ?d" "checked_over p ?d" "nidle ?d + nact ?d < nmax ?d"
    using hk h(2) by (simp_all only: destroy_checked) (simp add: pool_destroy_resource_def)
  have again: "checked_over p (healthcheck_loop n env q)" if "idle_ok q" "checked_over p q" for q
    using checked_over_trans [OF that(2) rest [OF that(1)]] .
  have push: "idle_ok (pool_push_idle q x) \<and> checked_over p (pool_push_idle q x)"
    if "idle_ok q" "nidle q + nact q < nmax q" "checked_over p q" for q x
  proof -
    have k: "checked_over q (pool_push_idle q x)" by (rule push_checked [OF that(1,2)])
    show ?thesis using checked_over_trans [OF that(3) k] by (simp add: checked_over_def)
  qed
  have "healthcheck_loop (Suc n) env p =
      (if pool_call_healthcheck (hc_result ?out) then
         (if pl_closed ?h then ?d else healthcheck_loop n env (pool_push_idle ?h r))
       else if hc_destructor_threw ?out then ?d
       else if (ucast (ASYNC_POOL_TOTAL ?d) :: uint32) < pl_min_size ?d then
         (case hc_factory ?out of
            Fac_Created r' \<Rightarrow> healthcheck_loop n env (pool_push_idle ?d r')
          | Fac_Threw \<Rightarrow> ?d
          | Fac_Failed \<Rightarrow> healthcheck_loop n env ?d)
       else healthcheck_loop n env ?d)"
    unfolding healthcheck_loop.simps(2) pop(1) hooked_def Let_def by simp
  then show ?thesis
    using again push hk dk h(2) by (simp split: factory_result.split)
qed

lemma healthcheck_loop_ok:
  "idle_ok p \<Longrightarrow> checked_over p (healthcheck_loop n env p)"
proof (induction n arbitrary: p)
  case (Suc n)
  show ?case by (rule loop_round [OF Suc.prems Suc.IH])
qed (simp add: checked_over_refl)

subsection \<open>The wake-up after the loop\<close>

text \<open>With every queued waiter already provided for, the wake-up finds nobody.\<close>

lemma tick_ok:
  assumes inv: "pool_inv p" and "\<forall>w\<in>set (pl_waiters p). pl_reserved p w"
  shows "pool_inv (pool_healthcheck_timer_callback env p)"
    "pl_circuit_state (pool_healthcheck_timer_callback env p) = pl_circuit_state p"
    "pl_calls (pool_healthcheck_timer_callback env p) = pl_calls p"
proof -
  let ?q = "healthcheck_loop (unat (circular_buffer_count (pl_idle p))) env p"
  have k: "checked_over p ?q" using healthcheck_loop_ok inv by (simp add: pool_inv_def pool_core_def)
  have "\<forall>w\<in>set (pl_waiters ?q). pl_reserved ?q w" using k assms(2) by (auto simp: checked_over_def)
  then have "fst (pool_wake_waiter ?q) = ?q" by (simp add: pool_wake_waiter_def flip: pool_first_None)
  moreover have "pool_inv ?q" by (rule checked_over_inv [OF inv k])
  moreover have "pl_circuit_state ?q = pl_circuit_state p" "pl_calls ?q = pl_calls p" using k by (simp_all add: checked_over_def)
  ultimately show "pool_inv (pool_healthcheck_timer_callback env p)"
    "pl_circuit_state (pool_healthcheck_timer_callback env p) = pl_circuit_state p"
    "pl_calls (pool_healthcheck_timer_callback env p) = pl_calls p"
    using inv by (simp_all add: pool_healthcheck_timer_callback_def)
qed

lemma pop_idle_closed [simp]: "pl_closed (fst (pool_pop_idle p)) = pl_closed p"
  by (simp add: pool_pop_idle_def split: prod.split)

lemma loop_stays_open:
  assumes "\<And>i. \<not> hc_closes (env i)"
  shows "pl_closed (healthcheck_loop n env p) = pl_closed p"
proof (induction n arbitrary: p)
  case (Suc n)
  obtain q s x where pop: "pool_pop_idle p = (q, s, x)" by (metis prod_cases3)
  then have "pl_closed q = pl_closed p" using pop_idle_closed [of p] by simp
  then show ?case
    using assms Suc.IH
    by (simp add: pop Let_def pool_destroy_resource_def split: zend_result.split option.split factory_result.split)
qed simp

text \<open>
  With a waiter in the queue that holds no reservation the wake-up promises it a place, and
  by the invariant there is none left to promise.
\<close>

lemma tick_over_reserves:
  assumes inv: "pool_inv p" and op: "\<not> pl_closed p" "pl_has_healthcheck p" and env: "\<And>i. \<not> hc_closes (env i)"
    and w: "w \<in> set (pl_waiters p)" "\<not> pl_reserved p w"
  defines "q \<equiv> pool_healthcheck_timer_callback env p"
  shows "nact q + nresv q = Suc (nmax q)" "ASYNC_POOL_UNRESERVED q = - 1" "pl_circuit_state q = pl_circuit_state p"
    "\<not> pl_closed q" "idle_ok q" "pl_waiters q = pl_waiters p" "pl_parked q = pl_parked p"
    "\<exists>x\<in>set (pl_waiters p). \<not> pl_reserved p x \<and> pl_reserved q x \<and> last (pl_log q) = Pool_Resumed x"
proof -
  let ?l = "healthcheck_loop (unat (circular_buffer_count (pl_idle p))) env p"
  have k: "checked_over p ?l" using healthcheck_loop_ok inv by (simp add: pool_inv_def pool_core_def)
  have l: "pl_closed ?l = pl_closed p" "pl_waiters ?l = pl_waiters p"
    using loop_stays_open [of env, OF env] k op(1) by (auto simp: checked_over_def)
  note lf = k [unfolded checked_over_def]
  have "pool_queue_first_unreserved (pl_reserved p) (pl_waiters p) \<noteq> None" using w by (auto simp: pool_first_None)
  then obtain x where x: "pool_queue_first_unreserved (pl_reserved p) (pl_waiters p) = Some x" by blast
  have q: "q = pool_effect (Pool_Resumed x)
      (?l\<lparr>pl_reserved := (pl_reserved ?l)(x := True), pl_reserved_count := pl_reserved_count ?l + 1\<rparr>)"
    using op x lf l by (simp add: q_def pool_healthcheck_timer_callback_def pool_wake_waiter_def)
  have xs: "x \<in> set (pl_waiters p)" "\<not> pl_reserved p x" using pool_first_Some [OF x] by auto
  have wo: "waiters_ok p" and bal: "place_bal 0 p" using inv by (simp_all add: pool_inv_def pool_core_def)
  have full: "nact p + nres p = nmax p" using bal w by (auto simp: place_bal_def)
  have "x \<in> set (pl_parked p)" using wo xs by (auto simp: waiters_ok_def)
  then have "nresv q = Suc (nresv p)"
    using nresv_grant [of "pl_parked p" x "pl_reserved p"] wo xs lf by (simp add: q nresv_def waiters_ok_def)
  then show "nact q + nresv q = Suc (nmax q)" using wo full lf by (simp add: q waiters_ok_def)
  have "unat (ASYNC_POOL_UNRESERVED p) = 0" using unreserved_iff(1) [OF bal] full by simp
  then have "ASYNC_POOL_UNRESERVED p = 0" by (simp add: unat_eq_0)
  moreover have "ASYNC_POOL_UNRESERVED q = ASYNC_POOL_UNRESERVED p - 1" using lf by (simp add: q ASYNC_POOL_UNRESERVED_def)
  ultimately show "ASYNC_POOL_UNRESERVED q = - 1" by simp
  show "pl_circuit_state q = pl_circuit_state p" "\<not> pl_closed q" "idle_ok q" "pl_waiters q = pl_waiters p" "pl_parked q = pl_parked p"
    using lf l op by (simp_all add: q)
  show "\<exists>x\<in>set (pl_waiters p). \<not> pl_reserved p x \<and> pl_reserved q x \<and> last (pl_log q) = Pool_Resumed x"
    using xs by (auto simp: q)
qed

end
