(* ===== verification/Step_Interface.thy ===== *)
theory Step_Interface
  imports Main
begin

text \<open>
  The interface of a component whose states change by steps: what its constructor promises and
  what every step keeps.  From these laws the states of every run are good.  Components state
  their step relation and discharge the laws once.
\<close>

locale step_system =
  fixes start :: "'s \<Rightarrow> bool" and step :: "'s \<Rightarrow> 's \<Rightarrow> bool" and good :: "'s \<Rightarrow> bool"
  assumes start_good: "start s \<Longrightarrow> good s"
    and step_good: "good s \<Longrightarrow> step s s' \<Longrightarrow> good s'"
begin

lemma run_keeps_good: "step\<^sup>*\<^sup>* s s' \<Longrightarrow> good s \<Longrightarrow> good s'"
  by (induction rule: rtranclp_induct) (auto intro: step_good)

lemma run_good: "start s \<Longrightarrow> step\<^sup>*\<^sup>* s s' \<Longrightarrow> good s'"
  by (blast intro: start_good run_keeps_good)

end

end
