(* ===== verification/Pool_Properties.thy ===== *)
theory Pool_Properties
  imports Pool_Health Step_Interface
begin

text \<open>
  Pools under concurrent use: the step relation, its reachable states, what holds in all
  of them, and the situations outside of it in which the pool's accounting fails.

  A step is one uninterrupted piece of work on the pool: a method up to the PHP code it
  calls or the suspension, the rest of it, a tick of the healthcheck timer.  The relation
  leaves out exactly these: a tick that finds a waiter without a reservation, a
  \<open>deactivate()\<close> while a beforeAcquire hook is running, the release of a scalar resource
  while none is out, and a strategy or destructor that suspends.  The last section shows
  what the first two and the last one break; a scalar carries no identity the pool could
  check.
\<close>

inductive pool_step :: "pool \<Rightarrow> pool \<Rightarrow> bool" where
  pool_acquire: "pool_step p (fst (zend_async_pool_acquire p))"
| pool_try_acquire: "pool_step p (fst (zend_async_pool_try_acquire p))"
| pool_checked: "In_Before_Acquire r \<in> set (pl_calls p) \<Longrightarrow>
    pool_step p (fst (pool_acquire_checked (pool_acquire_retry False) r hook threw p))"
| pool_try_checked: "In_Before_Acquire r \<in> set (pl_calls p) \<Longrightarrow>
    pool_step p (fst (pool_acquire_checked zend_async_pool_try_acquire r hook threw p))"
| pool_created: "In_Factory \<in> set (pl_calls p) \<Longrightarrow> pool_step p (fst (pool_acquire_created fr p))"
| pool_try_created: "In_Factory \<in> set (pl_calls p) \<Longrightarrow> pool_step p (fst (pool_try_acquire_created fr p))"
| pool_resumed: "w \<in> set (pl_parked p) \<Longrightarrow> pool_step p (fst (pool_acquire_resumed w exc p))"
| pool_release: "pool_step p (fst (zend_async_pool_release (Res_Object h) p))"
| pool_released: "In_Before_Release r \<in> set (pl_calls p) \<Longrightarrow> pool_step p (pool_release_rest r hook p)"
| pool_release_scalar: "length (pl_checked_out p) + length (pl_calls p) < unat (pl_active_count p) \<Longrightarrow>
    pool_step p (fst (zend_async_pool_release (Res_Other k) p))"
| pool_close: "pool_step p (zend_async_pool_close True p)"
| pool_step_activate: "pool_step p (pool_activate p)"
| pool_step_recover: "pool_step p (pool_recover p)"
| pool_step_strategy: "pool_step p (pool_setCircuitBreakerStrategy s p)"
| pool_step_deactivate: "(\<And>r. In_Before_Acquire r \<notin> set (pl_calls p)) \<Longrightarrow> pool_step p (pool_deactivate p)"
| pool_tick: "(\<And>w. w \<in> set (pl_waiters p) \<Longrightarrow> pl_reserved p w) \<Longrightarrow>
    pool_step p (pool_healthcheck_timer_callback env p)"

definition pool_reachable :: "pool \<Rightarrow> bool" where
  "pool_reachable p \<longleftrightarrow>
     (\<exists>initialized factory hc timer minimum maximum interval p0.
        maximum < 2 ^ 32 \<and> pool_construct initialized factory hc timer minimum maximum interval = Inr p0
        \<and> pool_step\<^sup>*\<^sup>* p0 p)"

subsection \<open>The circuit breaker\<close>

lemma wake_circuit [simp]: "pl_circuit_state (fst (pool_wake_waiter p)) = pl_circuit_state p"
  by (simp add: pool_wake_waiter_def split: option.split)

lemma pop_circuit [simp]: "pl_circuit_state (fst (pool_pop_idle p)) = pl_circuit_state p"
  by (simp add: pool_pop_idle_def split: prod.split)

lemma acquire_circuit [simp]:
  "pl_circuit_state (fst (pool_acquire_retry r p)) = pl_circuit_state p"
  "pl_circuit_state (fst (zend_async_pool_try_acquire p)) = pl_circuit_state p"
  by (simp_all add: pool_acquire_retry_def zend_async_pool_try_acquire_def take_idle_def take_capacity_def
      pool_wait_begin_def pool_give_up_def Let_def case_prod_unfold)

lemma created_circuit [simp]: "pl_circuit_state (fst (pool_acquire_created fr p)) = pl_circuit_state p"
  by (cases fr) (simp_all add: pool_acquire_created_def pool_check_out_def Let_def split: resource.split)

lemma checked_circuit [simp]:
  "(\<And>q. pl_circuit_state (fst (again q)) = pl_circuit_state q) \<Longrightarrow>
   pl_circuit_state (fst (pool_acquire_checked again r hook threw p)) = pl_circuit_state p"
  by (simp add: pool_acquire_checked_def pool_check_out_def pool_destroy_resource_def Let_def case_prod_unfold
      split: resource.split)

lemma resumed_circuit [simp]: "pl_circuit_state (fst (pool_acquire_resumed w exc p)) = pl_circuit_state p"
  by (simp add: pool_acquire_resumed_def pool_wait_end_def Let_def case_prod_unfold)

lemma release_circuit [simp]:
  "pl_circuit_state (fst (zend_async_pool_release r p)) = pl_circuit_state p"
  "pl_circuit_state (pool_release_finish r b p) = pl_circuit_state p"
  "pl_circuit_state (pool_release_rest r hook p) = pl_circuit_state p"
proof -
  show "pl_circuit_state (fst (zend_async_pool_release r p)) = pl_circuit_state p"
    by (cases r) (simp_all add: zend_async_pool_release_def pool_check_in_def split: bool.split)
  show fin: "pl_circuit_state (pool_release_finish r b p) = pl_circuit_state p" for b p
    by (simp add: pool_release_finish_def pool_destroy_resource_def)
  show "pl_circuit_state (pool_release_rest r hook p) = pl_circuit_state p"
    by (simp add: pool_release_rest_def pool_release_hooked_def fin Let_def case_prod_unfold)
qed

text \<open>
  What no step touches of the calls in progress while the breaker is open: nobody starts to
  check a resource, so no rejected one can leave its place behind.
\<close>

definition pool_good :: "pool \<Rightarrow> bool" where
  "pool_good p \<longleftrightarrow> pool_inv p \<and> (pl_circuit_state p = CIRCUIT_INACTIVE \<longrightarrow> (\<forall>r. In_Before_Acquire r \<notin> set (pl_calls p)))"

lemma wake_calls [simp]: "pl_calls (fst (pool_wake_waiter p)) = pl_calls p"
  by (simp add: pool_wake_waiter_def split: option.split)

lemma created_calls: "set (pl_calls (fst (pool_acquire_created fr p))) \<subseteq> set (pl_calls p)"
  using set_remove1_subset [of In_Factory "pl_calls p"]
  by (cases fr) (simp_all add: pool_acquire_created_def pool_check_out_def Let_def split: resource.split)

lemma release_calls:
  "set (pl_calls (fst (zend_async_pool_release r p))) \<subseteq> insert (In_Before_Release r) (set (pl_calls p))"
  by (cases r) (auto simp: zend_async_pool_release_def pool_check_in_def split: bool.split)

lemma rest_calls: "set (pl_calls (pool_release_rest r hook p)) \<subseteq> set (pl_calls p)"
proof -
  have fin: "pl_calls (pool_release_finish r b q) = pl_calls q" for b q
    by (simp add: pool_release_finish_def pool_destroy_resource_def)
  show ?thesis
    using set_remove1_subset [of "In_Before_Release r" "pl_calls p"]
    by (simp add: pool_release_rest_def pool_release_hooked_def fin Let_def case_prod_unfold
        pool_strategy_report_failure_def pool_strategy_report_success_def)
qed

lemma close_frame:
  assumes "pool_inv p"
  shows "pl_circuit_state (zend_async_pool_close True p) = pl_circuit_state p"
    "pl_calls (zend_async_pool_close True p) = pl_calls p"
proof -
  have "pl_circuit_state (zend_async_pool_close True p) = pl_circuit_state p
      \<and> pl_calls (zend_async_pool_close True p) = pl_calls p"
    using close_pool_spec [of p] assms
    by (cases "pl_closed p") (auto simp: pool_inv_def pool_core_def idle_ok_def zend_async_pool_close_def)
  then show "pl_circuit_state (zend_async_pool_close True p) = pl_circuit_state p"
    "pl_calls (zend_async_pool_close True p) = pl_calls p" by blast+
qed

text \<open>A step with the breaker not open, and one with it open.\<close>

lemma pool_step_active:
  assumes "pool_step p q" and inv: "pool_inv p" and act: "pl_circuit_state p \<noteq> CIRCUIT_INACTIVE"
  shows "pool_good q"
proof -
  have core: "pool_core p" and bal: "place_bal (Suc 0) p"
    using inv by (auto simp: pool_inv_def place_bal_def)
  have retry: "pool_inv (fst (pool_acquire_retry False p))" "pool_inv (fst (zend_async_pool_try_acquire p))"
    using retry_ok(1) [OF core bal _ act] try_acquire_ok [OF core bal act] by simp_all
  show ?thesis
    using assms(1)
  proof (cases rule: pool_step.cases)
    case (pool_checked r hook threw)
    then show ?thesis using acquire_checked_ok [OF inv _ act] act by (simp add: pool_good_def)
  next
    case (pool_try_checked r hook threw)
    then show ?thesis using acquire_checked_ok [OF inv _ act] act by (simp add: pool_good_def)
  next
    case (pool_try_created fr)
    then show ?thesis using acquire_created_ok [OF inv] act by (simp add: try_created_fst pool_good_def)
  next
    case pool_close
    then show ?thesis using close_pool_ok [OF inv] close_frame [OF inv] act by (simp add: pool_good_def)
  next
    case pool_step_deactivate
    then show ?thesis using inv by (simp add: pool_good_def pool_deactivate_def)
  next
    case (pool_tick env)
    then show ?thesis using tick_ok [OF inv] act by (simp add: pool_good_def)
  qed (use inv act retry in \<open>simp_all add: pool_good_def zend_async_pool_acquire_def acquire_created_ok
        acquire_resumed_ok release_ok release_scalar_ok release_rest_ok pool_activate_def pool_recover_def
        pool_setCircuitBreakerStrategy_def\<close>)
qed

lemma pool_step_inactive:
  assumes "pool_step p q" and inv: "pool_inv p" and ina: "pl_circuit_state p = CIRCUIT_INACTIVE"
    and none: "\<And>r. In_Before_Acquire r \<notin> set (pl_calls p)"
  shows "pool_good q"
proof -
  have quiet: "pool_good x" if "pool_inv x" "set (pl_calls x) \<subseteq> insert (In_Before_Release r) (set (pl_calls p))" for x r
    using that none by (auto simp: pool_good_def)
  have core: "pool_core p" and bal: "place_bal (if False then Suc 0 else 0) p"
    using inv by (simp_all add: pool_inv_def)
  note r = retry_inactive_ok [of p False, OF core bal _ ina]
  show ?thesis
    using assms(1)
  proof (cases rule: pool_step.cases)
    case pool_acquire
    then show ?thesis using r none by (simp add: zend_async_pool_acquire_def pool_good_def)
  next
    case pool_try_acquire
    then show ?thesis using inv ina none by (simp add: zend_async_pool_try_acquire_def pool_good_def)
  next
    case (pool_created fr)
    then show ?thesis using acquire_created_ok [OF inv] created_calls [of fr p] quiet by blast
  next
    case (pool_try_created fr)
    then show ?thesis using acquire_created_ok [OF inv] created_calls [of fr p] quiet by (fastforce simp: try_created_fst)
  next
    case (pool_resumed w exc)
    then show ?thesis using acquire_resumed_inactive_ok [OF inv _ ina] none by (simp add: pool_good_def)
  next
    case (pool_release h)
    then show ?thesis using release_ok [OF inv] release_calls quiet by blast
  next
    case (pool_release_scalar k)
    then show ?thesis using release_scalar_ok [OF inv] release_calls quiet by blast
  next
    case (pool_released x hook)
    then show ?thesis using release_rest_ok [OF inv] rest_calls [of x hook p] quiet by blast
  next
    case pool_close
    then show ?thesis using close_pool_ok [OF inv] close_frame [OF inv] none by (simp add: pool_good_def)
  next
    case (pool_tick env)
    then show ?thesis using tick_ok [OF inv] none by (simp add: pool_good_def)
  qed (use inv none in \<open>simp_all add: pool_good_def pool_activate_def pool_recover_def pool_deactivate_def
        pool_setCircuitBreakerStrategy_def\<close>)
qed

lemma pool_step_ok: "pool_step p q \<Longrightarrow> pool_good p \<Longrightarrow> pool_good q"
  using pool_step_active pool_step_inactive unfolding pool_good_def [of p] by blast

subsection \<open>Creation\<close>

lemma prewarm_ok:
  assumes "pool_inv p" and "pl_waiters p = []" and "pl_active_count p = 0" and "nidle p + n \<le> nmax p"
    and "prewarm n factory p = (q, threw)"
  shows "pool_inv q \<and> pl_circuit_state q = pl_circuit_state p"
  using assms
proof (induction n arbitrary: p)
  case (Suc n)
  show ?case
  proof (cases "factory n")
    case (Fac_Created r)
    let ?p = "pool_push_idle p r"
    have io: "cb_wf (pl_idle p)" "unat (cb_capacity (pl_idle p)) \<le> 2 ^ 40" "nidle p + nact p < nmax p"
      using Suc.prems by (simp_all add: pool_inv_def pool_core_def idle_ok_def)
    note push = pool_push_idle_ok [OF io]
    have len: "nidle ?p = Suc (nidle p)" by (simp only: push(2) length_append) simp
    have "pool_inv ?p"
      using Suc.prems(1) push(1) by (simp add: pool_inv_def pool_core_def)
    moreover have "nidle ?p + n \<le> nmax ?p" unfolding len using Suc.prems(4) by simp
    moreover have "prewarm n factory ?p = (q, threw)" using Suc.prems(5) Fac_Created by simp
    ultimately show ?thesis using Suc.IH [of ?p] Suc.prems(2,3) by simp
  next
    case Fac_Failed
    with Suc show ?thesis by simp
  next
    case Fac_Threw
    with Suc.prems show ?thesis by simp
  qed
qed simp

lemma pool_create_ok:
  assumes "min_size \<le> max_size" and "0 < max_size"
    and "zend_async_pool_create factory hc timer min_size max_size interval = Some (p, threw)"
  shows "pool_inv p \<and> pl_circuit_state p = CIRCUIT_ACTIVE"
proof -
  let ?n = "if min_size > 0 then ucast min_size else 4 :: size_t"
  have n: "0 < unat ?n" "unat ?n \<le> 2 ^ 32"
  proof -
    have "unat (ucast min_size :: size_t) = unat min_size"
      using unat_u32 [of min_size] by (simp add: unsigned_ucast_eq take_bit_nat_eq_self)
    then show "0 < unat ?n" "unat ?n \<le> 2 ^ 32"
      using unat_u32 [of min_size] by (simp_all add: word_less_nat_alt)
  qed
  then have n': "0 < ?n" "unat ?n \<le> 2 ^ 63" by (auto simp: unat_gt_0 word_gt_0)
  obtain b :: "resource circular_buffer" where b: "circular_buffer_ctor True zeroed_buffer ?n 16 = Some (b, SUCCESS)" "cb_wf b"
      "cb_items b = []" "unat (cb_capacity b) < 2 * unat ?n"
    using ctor_ok [OF n'] by blast
  define p0 where "p0 = \<lparr>pl_min_size = min_size, pl_max_size = max_size, pl_idle = b, pl_active_count = 0,
                   pl_checked_out = [], pl_reserved_count = 0, pl_waiters = [], pl_reserved = (\<lambda>_. False),
                   pl_next_waiter = 0, pl_parked = [], pl_closed = False, pl_circuit_state = CIRCUIT_ACTIVE,
                   pl_strategy = False, pl_has_healthcheck = hc,
                   pl_healthcheck_interval_ms = interval, pl_healthcheck_timer = False,
                   pl_calls = [], pl_log = []\<rparr>"
  obtain q t where pre: "prewarm (unat min_size) factory p0 = (q, t)" by force
  have p: "p = pool_start_healthcheck_timer timer q"
    using assms(3) b(1) pre by (simp add: zend_async_pool_create_def p0_def Let_def)
  have "unat (cb_capacity b) \<le> 2 ^ 40" using b(4) n(2) by simp
  then have "pool_inv p0"
    using b(2,3) assms(2)
    by (simp add: p0_def pool_inv_def pool_core_def idle_ok_def waiters_ok_def calls_ok_def place_bal_def nresv_def
        word_less_nat_alt del: length_cb_items)
  moreover have "nidle p0 + unat min_size \<le> nmax p0"
    using assms(1) b(3) by (simp add: p0_def word_le_nat_alt del: length_cb_items)
  ultimately have "pool_inv q \<and> pl_circuit_state q = CIRCUIT_ACTIVE"
    using prewarm_ok [OF _ _ _ _ pre] by (simp add: p0_def)
  then show ?thesis
    by (simp add: p pool_start_healthcheck_timer_def)
qed

lemma pool_construct_ok:
  assumes "pool_construct initialized factory hc timer minimum maximum interval = Inr p" and "maximum < 2 ^ 32"
  shows "pool_inv p \<and> pl_circuit_state p = CIRCUIT_ACTIVE"
proof -
  have r: "0 \<le> minimum" "1 \<le> maximum" "minimum \<le> maximum"
    using assms(1) by (auto simp: pool_construct_def split: if_splits)
  have u: "unat (word_of_int x :: uint32) = nat x" if "0 \<le> x" "x < 2 ^ 32" for x
    using that by (simp add: unsigned_of_int take_bit_int_eq_self)
  have "(word_of_int minimum :: uint32) \<le> word_of_int maximum" "(0 :: uint32) < word_of_int maximum"
    using r assms(2) u [of minimum] u [of maximum] by (simp_all add: word_le_nat_alt word_less_nat_alt)
  moreover obtain threw where "zend_async_pool_create factory hc timer
      (word_of_int minimum) (word_of_int maximum) (word_of_int interval) = Some (p, threw)"
    using assms(1) by (auto simp: pool_construct_def split: if_splits option.splits)
  ultimately show ?thesis using pool_create_ok by blast
qed

definition pool_start :: "pool \<Rightarrow> bool" where
  "pool_start p \<longleftrightarrow>
     (\<exists>initialized factory hc timer minimum maximum interval.
        maximum < 2 ^ 32 \<and> pool_construct initialized factory hc timer minimum maximum interval = Inr p)"

interpretation pool_runs: step_system pool_start pool_step pool_good
proof unfold_locales
  fix p assume "pool_start p"
  then show "pool_good p"
    using pool_construct_ok unfolding pool_start_def pool_good_def by (metis circuit_state.distinct(1))
qed (auto dest: pool_step_ok)

lemma pool_reachable_ok:
  assumes "pool_reachable p"
  shows "pool_inv p"
proof -
  obtain p0 where "pool_start p0" "pool_step\<^sup>*\<^sup>* p0 p"
    using assms unfolding pool_reachable_def pool_start_def by metis
  then show "pool_inv p" using pool_runs.run_good pool_good_def by blast
qed

lemma pool_reachable_step: "pool_reachable p \<Longrightarrow> pool_step p q \<Longrightarrow> pool_reachable q"
  unfolding pool_reachable_def by (metis rtranclp.rtrancl_into_rtrancl)

subsection \<open>Concrete pools\<close>

text \<open>A pool with a maximum of \<open>m\<close> and a healthcheck, all of whose resources are handed out.\<close>

definition demo_pool :: "int \<Rightarrow> pool" where
  "demo_pool m = projr (pool_construct False (\<lambda>_. Fac_Failed) True True 0 m 1000)"

definition demo_acquire :: "nat \<Rightarrow> pool \<Rightarrow> pool" where
  "demo_acquire h p = fst (pool_acquire_created (Fac_Created (Res_Object h)) (fst (zend_async_pool_acquire p)))"

definition demo_parked :: pool where
  "demo_parked = fst (zend_async_pool_acquire (demo_acquire 7 (demo_pool 1)))"

definition demo_granted_pool :: pool where
  "demo_granted_pool = pool_release_rest (Res_Object 7) None (fst (zend_async_pool_release (Res_Object 7) demo_parked))"

lemma demo_pool_construct:
  assumes "1 \<le> m"
  shows "pool_construct False (\<lambda>_. Fac_Failed) True True 0 m 1000 = Inr (demo_pool m)"
proof -
  have "round_up_to_power_of_2 4 = Some 4" by (simp add: round_up_to_power_of_2_def pow2_test_def)
  with assms show ?thesis
    by (simp add: demo_pool_def pool_construct_def zend_async_pool_create_def circular_buffer_ctor_def
        MINIMUM_COUNT_def Let_def)
qed

lemma demo_parked_state:
  "In_Factory \<in> set (pl_calls (fst (zend_async_pool_acquire (demo_pool 1))))"
  "pl_checked_out demo_parked = [7]" "pl_waiters demo_parked = [0]" "\<not> pl_reserved demo_parked 0" "\<not> pl_closed demo_parked"
  by code_simp+

lemma demo_pool_reachable: "1 \<le> m \<Longrightarrow> m < 2 ^ 32 \<Longrightarrow> pool_reachable (demo_pool m)"
  unfolding pool_reachable_def using demo_pool_construct by (metis rtranclp.rtrancl_refl)

lemma demo_parked_reachable: "pool_reachable demo_parked"
proof -
  have "pool_reachable (demo_pool 1)" by (rule demo_pool_reachable) simp_all
  then have "pool_reachable (demo_acquire 7 (demo_pool 1))"
    unfolding demo_acquire_def
    using pool_reachable_step [OF _ pool_created [OF demo_parked_state(1)]] pool_reachable_step [OF _ pool_acquire]
    by blast
  then show ?thesis unfolding demo_parked_def using pool_reachable_step [OF _ pool_acquire] by blast
qed

lemma demo_granted_pool_state:
  "In_Before_Release (Res_Object 7) \<in> set (pl_calls (fst (zend_async_pool_release (Res_Object 7) demo_parked)))"
  "pl_parked demo_granted_pool = [0]" "pl_reserved demo_granted_pool 0" "\<not> pl_closed demo_granted_pool"
  by code_simp+

lemma demo_granted_pool_reachable: "pool_reachable demo_granted_pool"
  unfolding demo_granted_pool_def
  using pool_reachable_step [OF pool_reachable_step [OF demo_parked_reachable pool_release]
      pool_released [OF demo_granted_pool_state(1)]] .

subsection \<open>What users of a pool can rely on\<close>

text \<open>
  C13.  Accounting.  In every state a run of the pool's operations leads to, the resources
  (idle and in use) do not exceed the maximum, and neither do the resources in use together
  with the places reserved for woken waiters; so \<open>ASYNC_POOL_UNRESERVED\<close> is the number of
  free places and does not wrap round.  Nobody waits without a reservation while a place is
  free.  A run is a sequence of \<open>pool_step\<close>s: healthcheck ticks are among them only where
  every queued waiter holds a reservation, \<open>deactivate()\<close> only where no beforeAcquire hook
  is running, and a scalar resource is released only while one is out.
\<close>

theorem pool_accounting:
  assumes "pool_reachable p"
  shows "unat (circular_buffer_count (pl_idle p)) + unat (pl_active_count p) \<le> unat (pl_max_size p)
    \<and> unat (ASYNC_POOL_UNRESERVED p) + unat (pl_active_count p) + unat (pl_reserved_count p) = unat (pl_max_size p)
    \<and> unat (zend_async_pool_count p) = unat (circular_buffer_count (pl_idle p)) + unat (pl_active_count p)
    \<and> (0 < ASYNC_POOL_UNRESERVED p \<longrightarrow> (\<forall>w\<in>set (pl_waiters p). pl_reserved p w))"
proof -
  have inv: "idle_ok p" "place_bal 0 p" using pool_reachable_ok [OF assms] by (simp_all add: pool_inv_def pool_core_def)
  have "nact p + nres p \<le> nmax p" using inv(2) by (simp add: place_bal_def)
  moreover have "free_place p \<longrightarrow> (\<forall>w\<in>set (pl_waiters p). pl_reserved p w)" using inv(2) by (auto simp: place_bal_def)
  ultimately show ?thesis
    using inv(1) unreserved_iff [OF inv(2)] total_iff [OF inv(1)]
    by (auto simp: idle_ok_def zend_async_pool_count_def)
qed

theorem pool_accounting_witness: "unat (ASYNC_POOL_UNRESERVED demo_parked) = 0"
proof -
  have "pl_max_size demo_parked = 1" "pl_active_count demo_parked = 1" by code_simp+
  with pool_accounting [OF demo_parked_reachable] show ?thesis by simp
qed

text \<open>
  C14.  A waiter that was woken with a reservation gets its place: after any run of the
  pool's operations (the \<open>pool_step\<close>s, so with no healthcheck tick that found a waiter
  without a reservation) it goes on to check an idle resource or to create a new one, and
  neither parks again nor fails, as long as the pool is not closed and its circuit breaker
  not open when it is resumed.
\<close>

theorem pool_reserved_waiter_served:
  assumes "pool_reachable p" and "w \<in> set (pl_parked p)" and "pl_reserved p w" and "\<not> pl_closed p"
    and "pl_circuit_state p \<noteq> CIRCUIT_INACTIVE"
  shows "snd (pool_acquire_resumed w False p) = Acq_Factory
    \<or> (\<exists>r. snd (pool_acquire_resumed w False p) = Acq_Before_Acquire r)"
proof -
  obtain q had where e: "pool_wait_end w False p = (q, had)" by force
  note k = wait_end_ok [OF pool_reachable_ok [OF assms(1)] assms(2) e]
  have "free_place q" "pl_circuit_state q \<noteq> CIRCUIT_INACTIVE" "\<not> pl_closed q"
    using k(3,4,6,7) assms(3-5) by simp_all
  with retry_ok(2) [OF k(1,2), of had] e show ?thesis by (simp add: pool_acquire_resumed_def)
qed

theorem pool_reserved_waiter_served_witness:
  "snd (pool_acquire_resumed 0 False demo_granted_pool) = Acq_Factory
    \<or> (\<exists>r. snd (pool_acquire_resumed 0 False demo_granted_pool) = Acq_Before_Acquire r)"
proof -
  have "pl_circuit_state demo_granted_pool \<noteq> CIRCUIT_INACTIVE" by code_simp
  then show ?thesis
    using pool_reserved_waiter_served [OF demo_granted_pool_reachable, of 0] demo_granted_pool_state by simp
qed

text \<open>
  C15.  An object is released at most once per acquisition.  A handle that is not checked
  out is refused and the pool unchanged; a checked-out one is accepted, and from then on
  refused until it is handed out again, even while the beforeRelease hook is running.
\<close>

theorem pool_release_once:
  assumes "pool_reachable p"
  shows "(if h \<in> set (pl_checked_out p)
     then snd (zend_async_pool_release (Res_Object h) p) = Rel_Before_Release
       \<and> h \<notin> set (pl_checked_out (fst (zend_async_pool_release (Res_Object h) p)))
       \<and> snd (zend_async_pool_release (Res_Object h) (fst (zend_async_pool_release (Res_Object h) p))) = Rel_Refused
     else zend_async_pool_release (Res_Object h) p = (p, Rel_Refused))"
proof (cases "h \<in> set (pl_checked_out p)")
  case True
  have co: "distinct (pl_checked_out p)" "length (pl_checked_out p) \<le> nact p"
    using pool_reachable_ok [OF assms] by (auto simp: pool_inv_def pool_core_def calls_ok_def)
  have "0 < length (pl_checked_out p)" using True by (rule length_pos_if_in_set)
  then have "pl_active_count p \<noteq> 0" using co(2) by auto
  with True co(1) show ?thesis by (simp add: zend_async_pool_release_def pool_check_in_def)
next
  case False
  then show ?thesis by (simp add: zend_async_pool_release_def pool_check_in_def remove1_idem)
qed

theorem pool_release_once_witness:
  "snd (zend_async_pool_release (Res_Object 7) (fst (zend_async_pool_release (Res_Object 7) demo_parked))) = Rel_Refused"
  using pool_release_once [OF demo_parked_reachable, of 7] demo_parked_state(2) by simp

text \<open>
  Closing an open pool fails every queued waiter and destroys every idle resource,
  once each, and leaves both empty; closing it again does nothing.
\<close>

theorem pool_close_releases_everything:
  assumes "pool_reachable p" and "\<not> pl_closed p"
  defines "q \<equiv> zend_async_pool_close True p"
  shows "pl_closed q \<and> pl_waiters q = [] \<and> circular_buffer_is_empty (pl_idle q)
    \<and> pl_log q = pl_log p @ map Pool_Failed (rev (pl_waiters p)) @ map Pool_Destroyed (cb_items (pl_idle p))
    \<and> zend_async_pool_close True q = q"
proof -
  have "cb_wf (pl_idle p)" using pool_reachable_ok [OF assms(1)] by (simp add: pool_inv_def pool_core_def idle_ok_def)
  then obtain b where b: "q = p\<lparr>pl_closed := True, pl_healthcheck_timer := False, pl_waiters := [], pl_idle := b,
        pl_log := pl_log p @ map Pool_Failed (rev (pl_waiters p)) @ map Pool_Destroyed (idle_items p)\<rparr>"
      "cb_wf b" "cb_items b = []"
    using close_pool_spec [OF _ assms(2)] unfolding q_def by blast
  then have "pl_closed q" "circular_buffer_is_empty (pl_idle q)" using idle_empty_iff [of q] by simp_all
  then show ?thesis using b by (simp add: zend_async_pool_close_def)
qed

theorem pool_close_releases_everything_witness:
  "pl_log (zend_async_pool_close True demo_parked) = pl_log demo_parked @ [Pool_Failed 0]"
proof -
  have "cb_items (pl_idle demo_parked) = []" by code_simp
  with pool_close_releases_everything [OF demo_parked_reachable demo_parked_state(5)] demo_parked_state(3)
  show ?thesis by simp
qed

subsection \<open>Where the accounting fails\<close>







definition demo_returned :: pool where
  "demo_returned = pool_release_rest (Res_Object 7) None
     (fst (zend_async_pool_release (Res_Object 7) (demo_acquire 7 (demo_pool 1))))"

definition demo_checking :: pool where
  "demo_checking = fst (zend_async_pool_acquire (fst (zend_async_pool_acquire demo_returned)))"

lemma demo_checking_state:
  "In_Before_Release (Res_Object 7) \<in> set (pl_calls (fst (zend_async_pool_release (Res_Object 7) (demo_acquire 7 (demo_pool 1)))))"
  "In_Before_Acquire (Res_Object 7) \<in> set (pl_calls demo_checking)" "\<not> pl_closed demo_checking"
  "pl_waiters demo_checking = [0]" "\<not> pl_reserved demo_checking 0"
  by code_simp+

lemma demo_checking_reachable: "pool_reachable demo_checking"
proof -
  have "pool_reachable (demo_pool 1)" by (rule demo_pool_reachable) simp_all
  then have "pool_reachable (demo_acquire 7 (demo_pool 1))"
    unfolding demo_acquire_def
    using pool_reachable_step [OF _ pool_created [OF demo_parked_state(1)]] pool_reachable_step [OF _ pool_acquire]
    by blast
  then have "pool_reachable demo_returned"
    unfolding demo_returned_def
    using pool_reachable_step [OF _ pool_released [OF demo_checking_state(1)]] pool_reachable_step [OF _ pool_release]
    by blast
  then show ?thesis unfolding demo_checking_def using pool_reachable_step [OF _ pool_acquire] by blast
qed

text \<open>
  C17.  A rejected resource strands a waiter when the pool is deactivated while the hook runs.
  Take any pool a run led to, with a beforeAcquire hook in progress and a waiter that holds
  no reservation.  If the pool is deactivated and the hook then answers false, \<open>acquire()\<close>
  gives the place back and leaves with the exception for an unavailable service without
  waking anybody: a place is free, the waiter is still queued without a reservation, and
  activating the pool again does not wake it either.
\<close>

theorem deactivation_strands_waiter:
  assumes "pool_reachable p" and "In_Before_Acquire r \<in> set (pl_calls p)" and "\<not> pl_closed p"
    and "w \<in> set (pl_waiters p)" and "\<not> pl_reserved p w"
  defines "q \<equiv> fst (pool_acquire_checked (pool_acquire_retry False) r (Some Cb_False) False (pool_deactivate p))"
  shows "snd (pool_acquire_checked (pool_acquire_retry False) r (Some Cb_False) False (pool_deactivate p)) = Acq_Unavailable
    \<and> ASYNC_POOL_UNRESERVED p = 0 \<and> ASYNC_POOL_UNRESERVED q = 1
    \<and> pl_waiters q = pl_waiters p \<and> \<not> pl_reserved q w \<and> pl_log q = pl_log p @ [Pool_Destroyed r]
    \<and> pl_waiters (pool_activate q) = pl_waiters p \<and> \<not> pl_reserved (pool_activate q) w
    \<and> ASYNC_POOL_UNRESERVED (pool_activate q) = 1"
proof -
  note inv = pool_reachable_ok [OF assms(1)]
  have bal: "place_bal 0 p" using inv by (simp add: pool_inv_def)
  have "\<not> free_place p" using bal assms(4,5) by (auto simp: place_bal_def)
  then have z: "pl_max_size p - pl_active_count p - pl_reserved_count p = 0"
    using unreserved_iff(2) [OF bal] by (simp add: word_gt_0 ASYNC_POOL_UNRESERVED_def)
  have "pl_max_size p - (pl_active_count p - 1) - pl_reserved_count p
      = pl_max_size p - pl_active_count p - pl_reserved_count p + 1" by simp
  with z have "pl_max_size p - (pl_active_count p - 1) - pl_reserved_count p = 1" by simp
  with z assms(3,5) show ?thesis
    by (simp add: q_def pool_acquire_checked_def pool_call_before_acquire_def pool_exception_ends_coroutine_def
        pool_acquire_retry_def pool_give_up_def pool_deactivate_def pool_activate_def end_call_def
        pool_destroy_resource_def ASYNC_POOL_UNRESERVED_def Let_def)
qed

theorem deactivation_strands_waiter_witness:
  "snd (pool_acquire_checked (pool_acquire_retry False) (Res_Object 7) (Some Cb_False) False
      (pool_deactivate demo_checking)) = Acq_Unavailable
    \<and> ASYNC_POOL_UNRESERVED (fst (pool_acquire_checked (pool_acquire_retry False) (Res_Object 7) (Some Cb_False) False
      (pool_deactivate demo_checking))) = 1"
  using deactivation_strands_waiter [OF demo_checking_reachable demo_checking_state(2,3), of 0]
    demo_checking_state(4,5) by simp

text \<open>
  A strategy that suspends breaks the maximum.  While its \<open>reportSuccess\<close> runs, the
  released resource is counted neither as idle nor as in use; another coroutine can create
  a new one in the meantime, and the pool of at most one resource ends up with two.
\<close>

theorem suspended_strategy_exceeds_maximum:
  "let p = fst (pool_release_hooked (Res_Object 7) None
             (fst (zend_async_pool_release (Res_Object 7) (demo_acquire 7 (demo_pool 1)))));
       q = pool_release_finish (Res_Object 7) True (demo_acquire 8 p)
   in pl_max_size q = 1 \<and> zend_async_pool_idle_count q = 1 \<and> zend_async_pool_active_count q = 1
     \<and> zend_async_pool_count q = 2"
  by code_simp

text \<open>
  The constructor accepts a maximum that does not fit into 32 bits and truncates it: a
  pool for \<open>2 ^ 32\<close> resources has the maximum 0, and its first \<open>acquire()\<close> parks for ever.
\<close>

theorem construct_truncates_maximum:
  "case pool_construct False (\<lambda>_. Fac_Failed) False False 0 4294967296 0 of
     Inl _ \<Rightarrow> False
   | Inr p \<Rightarrow> pl_max_size p = 0 \<and> snd (zend_async_pool_acquire p) = Acq_Parked 0"
  by code_simp

end
