(* ===== verification/Context.thy ===== *)
theory Context
  imports Async_Prelude "HOL-Library.AList"
begin

text \<open>
  Contexts (\<^verbatim>\<open>src/context.c\<close>): key-value stores owned by scopes and coroutines.  The heap
  below keeps the context objects, the links of the scope tree that lookups follow, and the
  context pointers of coroutines.  Pointers are natural numbers that are never reused; a
  pointer outside the heap is a dangling one and the operations say so.
\<close>

subsection \<open>Values, keys and the hash tables\<close>

datatype zval =
    Z_NULL
  | Z_BOOL bool
  | Z_LONG int
  | Z_STRING string
  | Z_OBJECT nat string \<comment> \<open>object handle and class name\<close>

fun zend_zval_type_name :: "zval \<Rightarrow> string" where
  "zend_zval_type_name Z_NULL = ''null''"
| "zend_zval_type_name (Z_BOOL b) = ''bool''"
| "zend_zval_type_name (Z_LONG i) = ''int''"
| "zend_zval_type_name (Z_STRING s) = ''string''"
| "zend_zval_type_name (Z_OBJECT h c) = c"

text \<open>A bucket of \<^verbatim>\<open>context->values\<close> is addressed by a string or by an object handle.\<close>

datatype hash_key = Str_key string | Index_key nat

text \<open>
  The tables keep insertion order, as \<^verbatim>\<open>HashTable\<close> does: an update of a present key keeps its
  position, a new key is appended.  \<open>ctx_refcount\<close> is the object's reference count.
\<close>

record async_context =
  ctx_values :: "(hash_key \<times> zval) list"
  ctx_keys :: "(nat \<times> zval) list"
  ctx_scope :: "nat option"
  ctx_refcount :: nat

text \<open>The fields of \<^verbatim>\<open>zend_async_scope_t\<close> a lookup reads.\<close>

record scope_link =
  parent_scope :: "nat option"
  scope_context :: "nat option"

record context_heap =
  scopes :: "nat \<Rightarrow> scope_link option"
  contexts :: "nat \<Rightarrow> async_context option"
  coroutine_contexts :: "nat \<Rightarrow> nat option"
  next_scope :: nat
  next_context :: nat

text \<open>
  The exceptions: the type error of \<^verbatim>\<open>VALIDATE_CONTEXT_KEY\<close>, the error the C functions throw
  for a key that is neither string nor object, the refusal of \<^verbatim>\<open>set()\<close> and the
  \<^verbatim>\<open>ContextException\<close> of \<^verbatim>\<open>get()\<close>.
\<close>

datatype context_error =
    Argument_type string
  | Key_not_string_or_object
  | Key_already_exists
  | Missing_key string
  | Missing_key_of_type string

datatype method_result =
    Returns zval
  | Returns_this
  | Throws context_error
  | Undefined_behaviour

subsection \<open>Operations on one context\<close>

definition async_context_find_local :: "async_context \<Rightarrow> zval \<Rightarrow> bool \<times> zval \<times> context_error list" where
  "async_context_find_local context key =
     (let hit = (\<lambda>found. case found of Some v \<Rightarrow> (True, v, []) | None \<Rightarrow> (False, Z_NULL, [])) in
      case key of
        Z_STRING s \<Rightarrow> hit (map_of (ctx_values context) (Str_key s))
      | Z_OBJECT h cls \<Rightarrow> hit (map_of (ctx_values context) (Index_key h))
      | _ \<Rightarrow> (False, Z_NULL, [Key_not_string_or_object]))"

definition async_context_has_local :: "async_context \<Rightarrow> zval \<Rightarrow> bool \<times> context_error list" where
  "async_context_has_local context key =
     (case key of
        Z_STRING s \<Rightarrow> (map_of (ctx_values context) (Str_key s) \<noteq> None, [])
      | Z_OBJECT h cls \<Rightarrow> (map_of (ctx_values context) (Index_key h) \<noteq> None, [])
      | _ \<Rightarrow> (False, [Key_not_string_or_object]))"

definition async_context_set :: "async_context \<Rightarrow> zval \<Rightarrow> zval \<Rightarrow> async_context \<times> context_error list" where
  "async_context_set context key value =
     (case key of
        Z_STRING s \<Rightarrow> (context\<lparr>ctx_values := AList.update (Str_key s) value (ctx_values context)\<rparr>, [])
      | Z_OBJECT h cls \<Rightarrow>
          (context\<lparr>ctx_values := AList.update (Index_key h) value (ctx_values context),
                  ctx_keys := AList.update h key (ctx_keys context)\<rparr>, [])
      | _ \<Rightarrow> (context, [Key_not_string_or_object]))"

definition async_context_unset :: "async_context \<Rightarrow> zval \<Rightarrow> async_context \<times> bool \<times> context_error list" where
  "async_context_unset context key =
     (case key of
        Z_STRING s \<Rightarrow>
          (context\<lparr>ctx_values := AList.delete (Str_key s) (ctx_values context)\<rparr>,
           map_of (ctx_values context) (Str_key s) \<noteq> None, [])
      | Z_OBJECT h cls \<Rightarrow>
          (let deleted = map_of (ctx_values context) (Index_key h) \<noteq> None;
               context' = context\<lparr>ctx_values := AList.delete (Index_key h) (ctx_values context)\<rparr>
           in (if deleted then context'\<lparr>ctx_keys := AList.delete h (ctx_keys context')\<rparr> else context',
               deleted, []))
      | _ \<Rightarrow> (context, False, [Key_not_string_or_object]))"

definition async_context_new :: async_context where
  "async_context_new = \<lparr>ctx_values = [], ctx_keys = [], ctx_scope = None, ctx_refcount = 1\<rparr>"

definition context_get_gc :: "async_context \<Rightarrow> zval list" where
  "context_get_gc context = map snd (ctx_values context) @ map snd (ctx_keys context)"

subsection \<open>Lookup along the scope chain\<close>

datatype find_outcome = Find_done bool zval "context_error list" | Find_dangling

text \<open>
  The \<^verbatim>\<open>while\<close> loop of \<^verbatim>\<open>async_context_find\<close> over \<^verbatim>\<open>scope->parent_scope\<close>; it would not return on
  a cyclic chain, which is the value \<open>None\<close> here.
\<close>

partial_function (option) find_in_parents ::
  "context_heap \<Rightarrow> nat option \<Rightarrow> zval \<Rightarrow> context_error list \<Rightarrow> find_outcome option" where
  "find_in_parents h scope key errs =
     (case scope of
        None \<Rightarrow> Some (Find_done False Z_NULL errs)
      | Some s \<Rightarrow>
          (case scopes h s of
             None \<Rightarrow> Some Find_dangling
           | Some sl \<Rightarrow>
               (case scope_context sl of
                  None \<Rightarrow> find_in_parents h (parent_scope sl) key errs
                | Some c \<Rightarrow>
                    (case contexts h c of
                       None \<Rightarrow> Some Find_dangling
                     | Some context \<Rightarrow>
                         (case async_context_find_local context key of (found, v, es) \<Rightarrow>
                            if found then Some (Find_done True v (errs @ es))
                            else find_in_parents h (parent_scope sl) key (errs @ es))))))"

declare find_in_parents.simps [code]

definition async_context_find ::
  "context_heap \<Rightarrow> async_context \<Rightarrow> zval \<Rightarrow> bool \<Rightarrow> find_outcome option" where
  "async_context_find h context key include_parent =
     (case async_context_find_local context key of (found, v, es) \<Rightarrow>
        if found then Some (Find_done True v es)
        else if \<not> include_parent then Some (Find_done False Z_NULL es)
        else (case ctx_scope context of
                None \<Rightarrow> Some (Find_done False Z_NULL es)
              | Some s \<Rightarrow>
                  (case scopes h s of
                     None \<Rightarrow> Some Find_dangling
                   | Some sl \<Rightarrow> find_in_parents h (parent_scope sl) key es)))"

definition async_context_has :: "context_heap \<Rightarrow> async_context \<Rightarrow> zval \<Rightarrow> bool \<Rightarrow> find_outcome option" where
  "async_context_has h context key include_parent = async_context_find h context key include_parent"

subsection \<open>The methods of \<^verbatim>\<open>Async\\Context\<close>\<close>

fun valid_key :: "zval \<Rightarrow> bool" where
  "valid_key (Z_STRING s) = True"
| "valid_key (Z_OBJECT h cls) = True"
| "valid_key _ = False"

fun context_throw_missing_key :: "zval \<Rightarrow> context_error" where
  "context_throw_missing_key (Z_STRING s) = Missing_key s"
| "context_throw_missing_key (Z_OBJECT h cls) = Missing_key_of_type cls"
| "context_throw_missing_key key = Missing_key_of_type (zend_zval_type_name key)"

text \<open>
  \<^verbatim>\<open>THIS_CONTEXT\<close> and \<^verbatim>\<open>VALIDATE_CONTEXT_KEY\<close>, shared by all methods; the continuation is the
  body of the method.
\<close>

definition with_context ::
  "context_heap \<Rightarrow> nat \<Rightarrow> zval \<Rightarrow> (async_context \<Rightarrow> method_result option) \<Rightarrow> method_result option" where
  "with_context h c key body =
     (case contexts h c of
        None \<Rightarrow> Some Undefined_behaviour
      | Some context \<Rightarrow>
          if valid_key key then body context else Some (Throws (Argument_type (zend_zval_type_name key))))"

text \<open>What a method answers for the outcome of a lookup.\<close>

fun answer_find :: "method_result \<Rightarrow> find_outcome option \<Rightarrow> method_result option" where
  "answer_find missing None = None"
| "answer_find missing (Some Find_dangling) = Some Undefined_behaviour"
| "answer_find missing (Some (Find_done found v (e # es))) = Some (Throws e)"
| "answer_find missing (Some (Find_done found v [])) = Some (if found then Returns v else missing)"

definition context_find :: "context_heap \<Rightarrow> nat \<Rightarrow> zval \<Rightarrow> method_result option" where
  "context_find h c key = with_context h c key (\<lambda>context.
     answer_find (Returns Z_NULL) (async_context_find h context key True))"

definition context_get :: "context_heap \<Rightarrow> nat \<Rightarrow> zval \<Rightarrow> method_result option" where
  "context_get h c key = with_context h c key (\<lambda>context.
     answer_find (Throws (context_throw_missing_key key)) (async_context_find h context key True))"

definition context_has :: "context_heap \<Rightarrow> nat \<Rightarrow> zval \<Rightarrow> method_result option" where
  "context_has h c key = with_context h c key (\<lambda>context.
     map_option (\<lambda>r. case r of
         Find_dangling \<Rightarrow> Undefined_behaviour
       | Find_done found v es \<Rightarrow> (case es of [] \<Rightarrow> Returns (Z_BOOL found) | e # _ \<Rightarrow> Throws e))
       (async_context_find h context key True))"

definition context_findLocal :: "context_heap \<Rightarrow> nat \<Rightarrow> zval \<Rightarrow> method_result option" where
  "context_findLocal h c key = with_context h c key (\<lambda>context.
     case async_context_find_local context key of (found, v, es) \<Rightarrow>
       answer_find (Returns Z_NULL) (Some (Find_done found v es)))"

definition context_getLocal :: "context_heap \<Rightarrow> nat \<Rightarrow> zval \<Rightarrow> method_result option" where
  "context_getLocal h c key = with_context h c key (\<lambda>context.
     case async_context_find_local context key of (found, v, es) \<Rightarrow>
       answer_find (Throws (context_throw_missing_key key)) (Some (Find_done found v es)))"

definition context_hasLocal :: "context_heap \<Rightarrow> nat \<Rightarrow> zval \<Rightarrow> method_result option" where
  "context_hasLocal h c key = with_context h c key (\<lambda>context.
     case async_context_has_local context key of
       (found, []) \<Rightarrow> Some (Returns (Z_BOOL found)) | (found, e # es) \<Rightarrow> Some (Throws e))"

definition put_context :: "context_heap \<Rightarrow> nat \<Rightarrow> async_context \<Rightarrow> context_heap" where
  "put_context h c context = h\<lparr>contexts := (contexts h)(c \<mapsto> context)\<rparr>"

text \<open>\<^verbatim>\<open>RETURN_OBJ_COPY\<close> hands the object out with one more reference.\<close>

definition obj_copy :: "async_context \<Rightarrow> async_context" where
  "obj_copy context = context\<lparr>ctx_refcount := ctx_refcount context + 1\<rparr>"

definition context_set :: "context_heap \<Rightarrow> nat \<Rightarrow> zval \<Rightarrow> zval \<Rightarrow> bool \<Rightarrow> context_heap \<times> method_result" where
  "context_set h c key value replace =
     (case contexts h c of
        None \<Rightarrow> (h, Undefined_behaviour)
      | Some context \<Rightarrow>
          if \<not> valid_key key then (h, Throws (Argument_type (zend_zval_type_name key)))
          else if \<not> replace \<and> fst (async_context_has_local context key) then (h, Throws Key_already_exists)
          else (put_context h c (obj_copy (fst (async_context_set context key value))), Returns_this))"

definition context_unset :: "context_heap \<Rightarrow> nat \<Rightarrow> zval \<Rightarrow> context_heap \<times> method_result" where
  "context_unset h c key =
     (case contexts h c of
        None \<Rightarrow> (h, Undefined_behaviour)
      | Some context \<Rightarrow>
          if \<not> valid_key key then (h, Throws (Argument_type (zend_zval_type_name key)))
          else (put_context h c (obj_copy (fst (async_context_unset context key))), Returns_this))"

subsection \<open>Owners: scopes, coroutines and the program\<close>

text \<open>
  \<^verbatim>\<open>OBJ_RELEASE\<close>; with the last reference \<^verbatim>\<open>context_free\<close> destroys both tables and the object is
  gone.
\<close>

definition async_context_dispose :: "context_heap \<Rightarrow> nat \<Rightarrow> context_heap" where
  "async_context_dispose h c =
     (case contexts h c of
        None \<Rightarrow> h
      | Some context \<Rightarrow>
          if ctx_refcount context \<le> 1 then h\<lparr>contexts := (contexts h)(c := None)\<rparr>
          else put_context h c (context\<lparr>ctx_refcount := ctx_refcount context - 1\<rparr>))"

definition context_object_create :: "context_heap \<Rightarrow> context_heap \<times> nat" where
  "context_object_create h =
     (let c = next_context h
      in ((put_context h c async_context_new)\<lparr>next_context := Suc c\<rparr>, c))"

text \<open>
  \<^verbatim>\<open>current_context()\<close>, \<^verbatim>\<open>root_context()\<close> and \<^verbatim>\<open>request_context()\<close> differ only in the scope they
  read; the scope gets its context on the first call.
\<close>

definition scope_get_context :: "context_heap \<Rightarrow> nat \<Rightarrow> context_heap \<times> nat option" where
  "scope_get_context h s =
     (case scopes h s of
        None \<Rightarrow> (h, None)
      | Some sl \<Rightarrow>
          (case scope_context sl of
             None \<Rightarrow>
               (let c = next_context h;
                    context = async_context_new\<lparr>ctx_scope := Some s\<rparr>;
                    h' = (put_context h c (obj_copy context))\<lparr>next_context := Suc c\<rparr>
                in (h'\<lparr>scopes := (scopes h')(s \<mapsto> sl\<lparr>scope_context := Some c\<rparr>)\<rparr>, Some c))
           | Some c \<Rightarrow>
               (case contexts h c of
                  None \<Rightarrow> (h, None)
                | Some context \<Rightarrow> (put_context h c (obj_copy context), Some c))))"

text \<open>\<^verbatim>\<open>coroutine_context()\<close> and \<^verbatim>\<open>Coroutine::getContext()\<close>: the context has no scope.\<close>

definition coroutine_get_context :: "context_heap \<Rightarrow> nat \<Rightarrow> context_heap \<times> nat option" where
  "coroutine_get_context h k =
     (case coroutine_contexts h k of
        None \<Rightarrow>
          (let c = next_context h;
               h' = (put_context h c (obj_copy async_context_new))\<lparr>next_context := Suc c\<rparr>
           in (h'\<lparr>coroutine_contexts := (coroutine_contexts h')(k \<mapsto> c)\<rparr>, Some c))
      | Some c \<Rightarrow>
          (case contexts h c of
             None \<Rightarrow> (h, None)
           | Some context \<Rightarrow> (put_context h c (obj_copy context), Some c)))"

text \<open>The part of the coroutine's destruction that gives its context back.\<close>

definition coroutine_release_context :: "context_heap \<Rightarrow> nat \<Rightarrow> context_heap" where
  "coroutine_release_context h k =
     (case coroutine_contexts h k of
        None \<Rightarrow> h
      | Some c \<Rightarrow> async_context_dispose (h\<lparr>coroutine_contexts := (coroutine_contexts h)(k := None)\<rparr>) c)"

definition async_coroutine_context_set :: "context_heap \<Rightarrow> nat \<Rightarrow> zval \<Rightarrow> zval \<Rightarrow> context_heap \<times> bool" where
  "async_coroutine_context_set h k key value =
     (case coroutine_contexts h k of
        None \<Rightarrow> (h, False)
      | Some c \<Rightarrow>
          (case contexts h c of
             None \<Rightarrow> (h, False)
           | Some context \<Rightarrow> (put_context h c (fst (async_context_set context key value)), True)))"

definition async_coroutine_context_get :: "context_heap \<Rightarrow> nat \<Rightarrow> zval \<Rightarrow> find_outcome option" where
  "async_coroutine_context_get h k key =
     (case coroutine_contexts h k of
        None \<Rightarrow> Some (Find_done False Z_NULL [])
      | Some c \<Rightarrow>
          (case contexts h c of
             None \<Rightarrow> Some Find_dangling
           | Some context \<Rightarrow> async_context_find h context key False))"

definition async_coroutine_context_delete :: "context_heap \<Rightarrow> nat \<Rightarrow> zval \<Rightarrow> context_heap \<times> bool" where
  "async_coroutine_context_delete h k key =
     (case coroutine_contexts h k of
        None \<Rightarrow> (h, False)
      | Some c \<Rightarrow>
          (case contexts h c of
             None \<Rightarrow> (h, False)
           | Some context \<Rightarrow>
               (put_context h c (fst (async_context_unset context key)),
                fst (snd (async_context_unset context key)))))"

subsection \<open>The scope tree as lookups see it\<close>

text \<open>The links \<^verbatim>\<open>async_new_scope\<close> sets.\<close>

definition new_scope_link :: "context_heap \<Rightarrow> nat option \<Rightarrow> context_heap" where
  "new_scope_link h parent =
     h\<lparr>scopes := (scopes h)(next_scope h \<mapsto> \<lparr>parent_scope = parent, scope_context = None\<rparr>),
       next_scope := Suc (next_scope h)\<rparr>"

text \<open>
  The loop of \<^verbatim>\<open>scope_dispose\<close> that breaks the link of every child, also reached on the paths
  that keep the scope alive afterwards.
\<close>

definition scope_detach_children :: "context_heap \<Rightarrow> nat \<Rightarrow> context_heap" where
  "scope_detach_children h s =
     h\<lparr>scopes := (\<lambda>t. map_option
         (\<lambda>sl. if parent_scope sl = Some s then sl\<lparr>parent_scope := None\<rparr> else sl) (scopes h t))\<rparr>"

text \<open>The final part of \<^verbatim>\<open>scope_dispose\<close>: the context is told that its scope is gone.\<close>

definition scope_free_link :: "context_heap \<Rightarrow> nat \<Rightarrow> context_heap" where
  "scope_free_link h s =
     (case scopes h s of
        None \<Rightarrow> h
      | Some sl \<Rightarrow>
          (let h' = h\<lparr>scopes := (scopes h)(s := None)\<rparr> in
           case scope_context sl of
             None \<Rightarrow> h'
           | Some c \<Rightarrow>
               (case contexts h c of
                  None \<Rightarrow> h'
                | Some context \<Rightarrow>
                    async_context_dispose (put_context h' c (context\<lparr>ctx_scope := None\<rparr>)) c)))"

definition scope_dispose_link :: "context_heap \<Rightarrow> nat \<Rightarrow> context_heap" where
  "scope_dispose_link h s = scope_free_link (scope_detach_children h s) s"

end
