(* ===== verification/Context_Properties.thy ===== *)
theory Context_Properties
  imports Context
begin

text \<open>
  Properties of contexts: what the operations do to one context, the invariant of the heap of
  scopes and contexts under every sequence of operations, that a lookup always returns, and that
  it returns the nearest binding on the way up the scope tree.
\<close>

subsection \<open>One context\<close>

text \<open>The bucket a valid key addresses, and what a context binds there.\<close>

fun bucket :: "zval \<Rightarrow> hash_key" where
  "bucket (Z_OBJECT h cls) = Index_key h"
| "bucket (Z_STRING s) = Str_key s"
| "bucket _ = Str_key []"

definition local_binding :: "async_context \<Rightarrow> zval \<Rightarrow> zval option" where
  "local_binding context key = map_of (ctx_values context) (bucket key)"

lemma find_local_binding:
  "valid_key key \<Longrightarrow> async_context_find_local context key =
     (case local_binding context key of Some v \<Rightarrow> (True, v, []) | None \<Rightarrow> (False, Z_NULL, []))"
  by (cases key) (simp_all add: async_context_find_local_def local_binding_def Let_def)

lemma has_local_binding:
  "valid_key key \<Longrightarrow> async_context_has_local context key = (local_binding context key \<noteq> None, [])"
  by (cases key) (simp_all add: async_context_has_local_def local_binding_def)

lemma set_binding:
  "valid_key key \<Longrightarrow> local_binding (fst (async_context_set context key v)) key' =
     (if bucket key' = bucket key then Some v else local_binding context key')"
  by (cases key) (simp_all add: async_context_set_def local_binding_def update_conv')

lemma unset_binding:
  "valid_key key \<Longrightarrow> local_binding (fst (async_context_unset context key)) key' =
     (if bucket key' = bucket key then None else local_binding context key')"
  by (cases key) (simp_all add: async_context_unset_def local_binding_def Let_def delete_conv')

lemma set_keeps [simp]:
  "ctx_scope (fst (async_context_set context key v)) = ctx_scope context"
  "ctx_refcount (fst (async_context_set context key v)) = ctx_refcount context"
  by (simp_all add: async_context_set_def split: zval.split)

lemma unset_keeps [simp]:
  "ctx_scope (fst (async_context_unset context key)) = ctx_scope context"
  "ctx_refcount (fst (async_context_unset context key)) = ctx_refcount context"
  by (simp_all add: async_context_unset_def Let_def split: zval.split)

lemma obj_copy_keeps [simp]:
  "ctx_scope (obj_copy context) = ctx_scope context"
  "ctx_values (obj_copy context) = ctx_values context"
  "ctx_keys (obj_copy context) = ctx_keys context"
  "ctx_refcount (obj_copy context) = Suc (ctx_refcount context)"
  "local_binding (obj_copy context) key = local_binding context key"
  by (simp_all add: obj_copy_def local_binding_def)

text \<open>
  The table of key objects holds exactly the objects whose handles address a value, so that no
  such object can die and pass its handle on while a value is stored under it.
\<close>

definition keys_alive :: "async_context \<Rightarrow> bool" where
  "keys_alive context \<longleftrightarrow>
     (\<forall>h. map_of (ctx_keys context) h \<noteq> None \<longleftrightarrow> map_of (ctx_values context) (Index_key h) \<noteq> None) \<and>
     (\<forall>h z. map_of (ctx_keys context) h = Some z \<longrightarrow> (\<exists>cls. z = Z_OBJECT h cls))"

lemma keys_alive_set: "keys_alive context \<Longrightarrow> keys_alive (fst (async_context_set context key v))"
  by (cases key) (auto simp: keys_alive_def async_context_set_def update_conv')

lemma keys_alive_unset: "keys_alive context \<Longrightarrow> keys_alive (fst (async_context_unset context key))"
  by (cases key) (auto simp: keys_alive_def async_context_unset_def Let_def delete_conv')

lemma keys_alive_simps [simp]:
  "keys_alive (obj_copy context) \<longleftrightarrow> keys_alive context"
  "keys_alive (context\<lparr>ctx_scope := s\<rparr>) \<longleftrightarrow> keys_alive context"
  "keys_alive (context\<lparr>ctx_refcount := n\<rparr>) \<longleftrightarrow> keys_alive context"
  "keys_alive async_context_new"
  by (simp_all add: keys_alive_def async_context_new_def)

subsection \<open>Sequences of operations\<close>

text \<open>
  \<open>held c\<close> counts the references the program keeps to the context \<open>c\<close>.  A method can only be
  called through such a reference.
\<close>

type_synonym context_state = "context_heap \<times> (nat \<Rightarrow> nat)"

definition hold :: "(nat \<Rightarrow> nat) \<Rightarrow> nat \<Rightarrow> (nat \<Rightarrow> nat)" where
  "hold held c = held(c := Suc (held c))"

inductive context_step :: "context_state \<Rightarrow> context_state \<Rightarrow> bool" where
  New_scope: "(\<forall>p. parent = Some p \<longrightarrow> scopes h p \<noteq> None) \<Longrightarrow>
    context_step (h, held) (new_scope_link h parent, held)"
| Detach: "context_step (h, held) (scope_detach_children h s, held)"
| Dispose_scope: "context_step (h, held) (scope_dispose_link h s, held)"
| New_context: "context_object_create h = (h', c) \<Longrightarrow> context_step (h, held) (h', hold held c)"
| Scope_context: "scope_get_context h s = (h', Some c) \<Longrightarrow> context_step (h, held) (h', hold held c)"
| Coroutine_context: "coroutine_get_context h k = (h', Some c) \<Longrightarrow>
    context_step (h, held) (h', hold held c)"
| Coroutine_end: "context_step (h, held) (coroutine_release_context h k, held)"
| Coroutine_set: "async_coroutine_context_set h k key v = (h', r) \<Longrightarrow> context_step (h, held) (h', held)"
| Coroutine_delete: "async_coroutine_context_delete h k key = (h', r) \<Longrightarrow>
    context_step (h, held) (h', held)"
| Set_method: "0 < held c \<Longrightarrow> context_set h c key v replace = (h', r) \<Longrightarrow>
    context_step (h, held) (h', if r = Returns_this then hold held c else held)"
| Unset_method: "0 < held c \<Longrightarrow> context_unset h c key = (h', r) \<Longrightarrow>
    context_step (h, held) (h', if r = Returns_this then hold held c else held)"
| Drop: "0 < held c \<Longrightarrow>
    context_step (h, held) (async_context_dispose h c, held(c := held c - 1))"

definition empty_heap :: context_heap where
  "empty_heap = \<lparr>scopes = \<lambda>_. None, contexts = \<lambda>_. None, coroutine_contexts = \<lambda>_. None,
     next_scope = 0, next_context = 0\<rparr>"

inductive context_reachable :: "context_state \<Rightarrow> bool" where
  Start: "context_reachable (empty_heap, \<lambda>_. 0)"
| Step: "context_reachable st \<Longrightarrow> context_step st st' \<Longrightarrow> context_reachable st'"

subsection \<open>The heap invariant\<close>

text \<open>
  Parents are older than their children; the pointers between a scope and its context agree in
  both directions; a coroutine's context is its own; reference counts are exact.
\<close>

definition scope_ok :: "context_heap \<Rightarrow> nat \<Rightarrow> scope_link \<Rightarrow> bool" where
  "scope_ok h s sl \<longleftrightarrow> s < next_scope h \<and>
     (\<forall>p. parent_scope sl = Some p \<longrightarrow> p < s \<and> scopes h p \<noteq> None) \<and>
     (\<forall>c. scope_context sl = Some c \<longrightarrow> (\<exists>x. contexts h c = Some x \<and> ctx_scope x = Some s))"

definition owner_refs :: "context_heap \<Rightarrow> nat \<Rightarrow> async_context \<Rightarrow> nat" where
  "owner_refs h c x = (if ctx_scope x \<noteq> None then 1 else 0) +
     (if \<exists>k. coroutine_contexts h k = Some c then 1 else 0)"

definition context_ok :: "context_heap \<Rightarrow> (nat \<Rightarrow> nat) \<Rightarrow> nat \<Rightarrow> async_context \<Rightarrow> bool" where
  "context_ok h held c x \<longleftrightarrow> c < next_context h \<and> keys_alive x \<and>
     (\<forall>s. ctx_scope x = Some s \<longrightarrow> (\<exists>sl. scopes h s = Some sl \<and> scope_context sl = Some c)) \<and>
     ctx_refcount x = held c + owner_refs h c x \<and> 0 < held c + owner_refs h c x"

definition heap_ok :: "context_state \<Rightarrow> bool" where
  "heap_ok = (\<lambda>(h, held).
     (\<forall>s sl. scopes h s = Some sl \<longrightarrow> scope_ok h s sl) \<and>
     (\<forall>c x. contexts h c = Some x \<longrightarrow> context_ok h held c x) \<and>
     (\<forall>c. contexts h c = None \<longrightarrow> held c = 0) \<and>
     (\<forall>k c. coroutine_contexts h k = Some c \<longrightarrow> (\<exists>x. contexts h c = Some x \<and> ctx_scope x = None)) \<and>
     (\<forall>k k' c. coroutine_contexts h k = Some c \<longrightarrow> coroutine_contexts h k' = Some c \<longrightarrow> k = k'))"

lemma heap_okI:
  assumes "\<And>s sl. scopes h s = Some sl \<Longrightarrow> scope_ok h s sl"
    and "\<And>c x. contexts h c = Some x \<Longrightarrow> context_ok h held c x"
    and "\<And>c. contexts h c = None \<Longrightarrow> held c = 0"
    and "\<And>k c. coroutine_contexts h k = Some c \<Longrightarrow> \<exists>x. contexts h c = Some x \<and> ctx_scope x = None"
    and "\<And>k k' c. coroutine_contexts h k = Some c \<Longrightarrow> coroutine_contexts h k' = Some c \<Longrightarrow> k = k'"
  shows "heap_ok (h, held)"
  using assms unfolding heap_ok_def prod.case by meson

lemma heap_okD:
  assumes "heap_ok (h, held)"
  shows "scopes h s = Some sl \<Longrightarrow> scope_ok h s sl"
    and "contexts h c = Some x \<Longrightarrow> context_ok h held c x"
    and "contexts h c = None \<Longrightarrow> held c = 0"
    and "coroutine_contexts h k = Some c \<Longrightarrow> \<exists>x. contexts h c = Some x \<and> ctx_scope x = None"
    and "coroutine_contexts h k = Some c \<Longrightarrow> coroutine_contexts h k' = Some c \<Longrightarrow> k = k'"
  using assms unfolding heap_ok_def prod.case by meson+

lemma scope_okD:
  assumes "scope_ok h s sl"
  shows "s < next_scope h"
    and "parent_scope sl = Some p \<Longrightarrow> p < s \<and> (\<exists>y. scopes h p = Some y)"
    and "scope_context sl = Some c \<Longrightarrow> \<exists>x. contexts h c = Some x \<and> ctx_scope x = Some s"
  using assms by (auto simp: scope_ok_def)

lemma context_okD:
  assumes "context_ok h held c x"
  shows "c < next_context h" "keys_alive x" "ctx_refcount x = held c + owner_refs h c x" "0 < ctx_refcount x"
    and "ctx_scope x = Some s \<Longrightarrow> \<exists>sl. scopes h s = Some sl \<and> scope_context sl = Some c"
  using assms unfolding context_ok_def by (blast, blast, blast, linarith, blast)

lemma put_context_fields [simp]:
  "scopes (put_context h c x) = scopes h"
  "coroutine_contexts (put_context h c x) = coroutine_contexts h"
  "contexts (put_context h c x) = (contexts h)(c \<mapsto> x)"
  "next_scope (put_context h c x) = next_scope h"
  "next_context (put_context h c x) = next_context h"
  by (simp_all add: put_context_def)

text \<open>A context may be replaced by one with the same owner and an exact count.\<close>

lemma put_live_ok:
  assumes ok: "heap_ok (h, held)" and x: "contexts h c = Some x" and scope: "ctx_scope y = ctx_scope x"
    and y: "keys_alive y" "ctx_refcount y = n + owner_refs h c x" "0 < ctx_refcount y"
  shows "heap_ok (put_context h c y, held(c := n))"
proof (rule heap_okI)
  fix s sl assume "scopes (put_context h c y) s = Some sl"
  then have "scope_ok h s sl" using heap_okD(1) [OF ok] by simp
  then show "scope_ok (put_context h c y) s sl"
    using x scope by (auto simp: scope_ok_def)
next
  fix d z assume d: "contexts (put_context h c y) d = Some z"
  have "owner_refs (put_context h c y) d z = owner_refs h d z" for d z
    by (simp add: owner_refs_def)
  moreover have "owner_refs h c y = owner_refs h c x"
    using scope by (simp add: owner_refs_def)
  ultimately show "context_ok (put_context h c y) (held(c := n)) d z"
    using d y scope heap_okD(2) [OF ok, of d] heap_okD(2) [OF ok x] unfolding context_ok_def
    by (cases "d = c") simp_all
next
  fix d assume "contexts (put_context h c y) d = None"
  then show "(held(c := n)) d = 0"
    using heap_okD(3) [OF ok, of d] by (simp split: if_splits)
next
  fix k d assume "coroutine_contexts (put_context h c y) k = Some d"
  then show "\<exists>z. contexts (put_context h c y) d = Some z \<and> ctx_scope z = None"
    using heap_okD(4) [OF ok, of k d] x scope by (cases "d = c") auto
next
  fix k k' d
  assume "coroutine_contexts (put_context h c y) k = Some d" "coroutine_contexts (put_context h c y) k' = Some d"
  then show "k = k'" using heap_okD(5) [OF ok] by simp
qed

lemma hold_ok:
  assumes "heap_ok (h, held)" and "contexts h c = Some x" and "ctx_scope y = ctx_scope x"
    and "keys_alive y" and "ctx_refcount y = Suc (ctx_refcount x)"
  shows "heap_ok (put_context h c y, hold held c)"
  unfolding hold_def using assms context_okD(3) [OF heap_okD(2) [OF assms(1,2)]]
  by (intro put_live_ok) simp_all

lemma replace_ok:
  assumes "heap_ok (h, held)" and "contexts h c = Some x" and "ctx_scope y = ctx_scope x"
    and "keys_alive y" and "ctx_refcount y = ctx_refcount x"
  shows "heap_ok (put_context h c y, held)"
proof -
  have "heap_ok (put_context h c y, held(c := held c))"
    using assms context_okD(3,4) [OF heap_okD(2) [OF assms(1,2)]] by (intro put_live_ok) simp_all
  then show ?thesis by simp
qed

text \<open>A reference is dropped; the last one frees an object nobody points to.\<close>

lemma free_ok:
  assumes ok: "heap_ok (h, held)" and x: "contexts h c = Some x"
    and one: "held c = 1" and none: "owner_refs h c x = 0"
  shows "heap_ok (h\<lparr>contexts := (contexts h)(c := None)\<rparr>, held(c := 0))" (is "heap_ok (?h, ?held)")
proof (rule heap_okI)
  fix s sl assume s: "scopes ?h s = Some sl"
  have "ctx_scope x = None" using none by (simp add: owner_refs_def split: if_splits)
  with s x show "scope_ok ?h s sl"
    using heap_okD(1) [OF ok, of s sl] by (fastforce simp: scope_ok_def)
next
  fix d z assume d: "contexts ?h d = Some z"
  have "owner_refs ?h d z = owner_refs h d z" by (simp add: owner_refs_def)
  with d show "context_ok ?h ?held d z"
    using heap_okD(2) [OF ok, of d z] by (simp add: context_ok_def split: if_splits)
next
  fix k d assume k: "coroutine_contexts ?h k = Some d"
  then have "d \<noteq> c" using none by (auto simp: owner_refs_def split: if_splits)
  with k show "\<exists>z. contexts ?h d = Some z \<and> ctx_scope z = None"
    using heap_okD(4) [OF ok, of k d] by simp
qed (use heap_okD(3,5) [OF ok] in \<open>simp_all split: if_splits\<close>)

lemma drop_ok:
  assumes ok: "heap_ok (h, held)" and held: "0 < held c"
  shows "heap_ok (async_context_dispose h c, held(c := held c - 1))"
proof -
  obtain x where x: "contexts h c = Some x"
    using heap_okD(3) [OF ok, of c] held by (cases "contexts h c") simp_all
  note live = context_okD [OF heap_okD(2) [OF ok x]]
  show ?thesis
  proof (cases "ctx_refcount x \<le> 1")
    case True
    with live(3) held have "held c = 1" "owner_refs h c x = 0" by linarith+
    then show ?thesis
      using free_ok [OF ok x] x True by (simp add: async_context_dispose_def)
  next
    case False
    then have "heap_ok (put_context h c (x\<lparr>ctx_refcount := ctx_refcount x - 1\<rparr>), held(c := held c - 1))"
      using ok x live held by (intro put_live_ok) auto
    then show ?thesis
      using x False by (simp add: async_context_dispose_def)
  qed
qed


lemma owner_refs_cong:
  "coroutine_contexts h' = coroutine_contexts h \<Longrightarrow> ctx_scope y = ctx_scope x \<Longrightarrow>
   owner_refs h' c y = owner_refs h c x"
  by (simp add: owner_refs_def)

lemma fresh_context:
  assumes ok: "heap_ok (h, held)"
  shows "contexts h (next_context h) = None" "held (next_context h) = 0"
    "coroutine_contexts h k \<noteq> Some (next_context h)"
    "scopes h s = Some sl \<Longrightarrow> scope_context sl \<noteq> Some (next_context h)"
proof -
  show fresh: "contexts h (next_context h) = None"
    using context_okD(1) [OF heap_okD(2) [OF ok]] by (cases "contexts h (next_context h)") blast+
  then show "held (next_context h) = 0" by (rule heap_okD(3) [OF ok])
  show "coroutine_contexts h k \<noteq> Some (next_context h)"
    using heap_okD(4) [OF ok, of k "next_context h"] fresh by auto
  show "scopes h s = Some sl \<Longrightarrow> scope_context sl \<noteq> Some (next_context h)"
    using scope_okD(3) [OF heap_okD(1) [OF ok]] fresh by fastforce
qed

text \<open>A new object owned by the program alone.\<close>

lemma new_context_ok:
  assumes ok: "heap_ok (h, held)" and create: "context_object_create h = (h', c)"
  shows "heap_ok (h', hold held c)"
proof -
  note fresh = fresh_context [OF ok]
  have h': "h' = (put_context h c async_context_new)\<lparr>next_context := Suc c\<rparr>" and c: "c = next_context h"
    using create by (auto simp: context_object_create_def Let_def)
  show ?thesis
  proof (rule heap_okI)
    fix s sl assume "scopes h' s = Some sl"
    then show "scope_ok h' s sl"
      using heap_okD(1) [OF ok, of s sl] fresh(4) [of s sl] by (auto simp: scope_ok_def h' c)
  next
    fix d z assume d: "contexts h' d = Some z"
    have "owner_refs h' d z = owner_refs h d z" by (simp add: owner_refs_def h')
    moreover have "owner_refs h c async_context_new = 0"
      using fresh(3) by (simp add: owner_refs_def async_context_new_def c)
    ultimately show "context_ok h' (hold held c) d z"
      using d fresh(2) heap_okD(2) [OF ok, of d z]
      by (auto simp: context_ok_def h' c hold_def async_context_new_def keys_alive_def split: if_splits)
  next
    fix k d assume "coroutine_contexts h' k = Some d"
    then show "\<exists>z. contexts h' d = Some z \<and> ctx_scope z = None"
      using heap_okD(4) [OF ok, of k d] fresh(3) [of k] by (auto simp: h' c)
  qed (use heap_okD(3,5) [OF ok] in \<open>simp_all add: h' c hold_def split: if_splits\<close>)
qed


text \<open>An object gains an owner: a scope or a coroutine.\<close>

definition attach_scope :: "context_heap \<Rightarrow> nat \<Rightarrow> nat \<Rightarrow> context_heap" where
  "attach_scope h s c =
     (let h' = put_context h c (obj_copy (the (contexts h c)\<lparr>ctx_scope := Some s\<rparr>))
      in h'\<lparr>scopes := (scopes h')(s \<mapsto> the (scopes h s)\<lparr>scope_context := Some c\<rparr>)\<rparr>)"

definition attach_coroutine :: "context_heap \<Rightarrow> nat \<Rightarrow> nat \<Rightarrow> context_heap" where
  "attach_coroutine h k c =
     (let h' = put_context h c (obj_copy (the (contexts h c)))
      in h'\<lparr>coroutine_contexts := (coroutine_contexts h')(k \<mapsto> c)\<rparr>)"

lemma attach_scope_ok:
  assumes ok: "heap_ok (h, held)" and x: "contexts h c = Some x" and nos: "ctx_scope x = None"
    and nok: "\<And>k. coroutine_contexts h k \<noteq> Some c"
    and s: "scopes h s = Some sl" and noc: "scope_context sl = None"
  shows "heap_ok (attach_scope h s c, held)" (is "heap_ok (?h, held)")
proof (rule heap_okI)
  fix t tl assume t: "scopes ?h t = Some tl"
  show "scope_ok ?h t tl"
  proof (cases "t = s")
    case True
    with t s x show ?thesis
      using heap_okD(1) [OF ok s] by (auto simp: scope_ok_def attach_scope_def Let_def)
  next
    case False
    with t have "scopes h t = Some tl" by (simp add: attach_scope_def Let_def)
    from heap_okD(1) [OF ok this] x nos show ?thesis
      by (auto simp: scope_ok_def attach_scope_def Let_def)
  qed
next
  fix d z assume d: "contexts ?h d = Some z"
  show "context_ok ?h held d z"
  proof (cases "d = c")
    case True
    with d x have "z = obj_copy (x\<lparr>ctx_scope := Some s\<rparr>)" by (simp add: attach_scope_def Let_def)
    moreover have "owner_refs h c x = 0" "owner_refs ?h c (obj_copy (x\<lparr>ctx_scope := Some s\<rparr>)) = 1"
      using nos nok by (simp_all add: owner_refs_def attach_scope_def Let_def)
    ultimately show ?thesis
      using True heap_okD(2) [OF ok x] s by (simp add: context_ok_def attach_scope_def Let_def)
  next
    case False
    with d have z: "contexts h d = Some z" by (simp add: attach_scope_def Let_def)
    moreover have "owner_refs ?h d z = owner_refs h d z"
      by (simp add: owner_refs_def attach_scope_def Let_def)
    ultimately show ?thesis
      using False heap_okD(2) [OF ok z] s noc by (fastforce simp: context_ok_def attach_scope_def Let_def)
  qed
next
  fix k d assume "coroutine_contexts ?h k = Some d"
  then show "\<exists>z. contexts ?h d = Some z \<and> ctx_scope z = None"
    using heap_okD(4) [OF ok, of k d] nok [of k] by (auto simp: attach_scope_def Let_def)
qed (use heap_okD(3,5) [OF ok] in \<open>simp_all add: attach_scope_def Let_def split: if_splits\<close>)

lemma attach_coroutine_ok:
  assumes ok: "heap_ok (h, held)" and x: "contexts h c = Some x" and nos: "ctx_scope x = None"
    and nok: "\<And>k. coroutine_contexts h k \<noteq> Some c" and k: "coroutine_contexts h k = None"
  shows "heap_ok (attach_coroutine h k c, held)" (is "heap_ok (?h, held)")
proof (rule heap_okI)
  fix t tl assume "scopes ?h t = Some tl"
  then show "scope_ok ?h t tl"
    using heap_okD(1) [OF ok, of t tl] x nos by (auto simp: scope_ok_def attach_coroutine_def Let_def)
next
  fix d z assume d: "contexts ?h d = Some z"
  show "context_ok ?h held d z"
  proof (cases "d = c")
    case True
    with d x have "z = obj_copy x" by (simp add: attach_coroutine_def Let_def)
    moreover have "owner_refs h c x = 0" "owner_refs ?h c (obj_copy x) = 1"
      using nos nok by (simp_all add: owner_refs_def attach_coroutine_def Let_def)
    ultimately show ?thesis
      using True heap_okD(2) [OF ok x] nos by (simp add: context_ok_def attach_coroutine_def Let_def)
  next
    case False
    with d have z: "contexts h d = Some z" by (simp add: attach_coroutine_def Let_def)
    moreover have "(\<exists>j. coroutine_contexts ?h j = Some d) \<longleftrightarrow> (\<exists>j. coroutine_contexts h j = Some d)"
      using False k by (auto simp: attach_coroutine_def Let_def) (metis option.distinct(1))
    then have "owner_refs ?h d z = owner_refs h d z"
      by (simp only: owner_refs_def)
    ultimately show ?thesis
      using False heap_okD(2) [OF ok z] by (simp add: context_ok_def attach_coroutine_def Let_def)
  qed
next
  fix j d assume "coroutine_contexts ?h j = Some d"
  then show "\<exists>z. contexts ?h d = Some z \<and> ctx_scope z = None"
    using heap_okD(4) [OF ok, of j d] x nos by (auto simp: attach_coroutine_def Let_def split: if_splits)
next
  fix j j' d assume "coroutine_contexts ?h j = Some d" "coroutine_contexts ?h j' = Some d"
  then show "j = j'"
    using heap_okD(5) [OF ok, of j d j'] nok by (auto simp: attach_coroutine_def Let_def split: if_splits)
qed (use heap_okD(3) [OF ok] in \<open>simp_all add: attach_coroutine_def Let_def split: if_splits\<close>)

text \<open>An owner gives its reference up, to be released at once.\<close>

lemma abandon_scope_ok:
  assumes ok: "heap_ok (h, held)" and s: "scopes h s = Some sl" and c: "scope_context sl = Some c"
    and x: "contexts h c = Some x" and leaf: "\<And>t tl. scopes h t = Some tl \<Longrightarrow> parent_scope tl \<noteq> Some s"
  shows "heap_ok (put_context (h\<lparr>scopes := (scopes h)(s := None)\<rparr>) c (x\<lparr>ctx_scope := None\<rparr>), hold held c)"
    (is "heap_ok (?h, ?held)")
proof (rule heap_okI)
  have xs: "ctx_scope x = Some s" using scope_okD(3) [OF heap_okD(1) [OF ok s] c] x by auto
  {
    fix t tl assume "scopes ?h t = Some tl"
    then show "scope_ok ?h t tl"
      using heap_okD(1) [OF ok, of t tl] leaf [of t tl] x xs by (auto simp: scope_ok_def split: if_splits)
  next
    fix d z assume d: "contexts ?h d = Some z"
    show "context_ok ?h ?held d z"
    proof (cases "d = c")
      case True
      with d x have z: "z = x\<lparr>ctx_scope := None\<rparr>" by simp
      have "owner_refs h c x = Suc (owner_refs ?h c z)"
        using xs z by (simp add: owner_refs_def)
      then show ?thesis
        using True z heap_okD(2) [OF ok x] by (simp add: context_ok_def hold_def)
    next
      case False
      with d have z: "contexts h d = Some z" by simp
      moreover have "owner_refs ?h d z = owner_refs h d z" by (simp add: owner_refs_def)
      ultimately show ?thesis
        using False heap_okD(2) [OF ok z] s c by (auto simp: context_ok_def hold_def)
    qed
  next
    fix k d assume "coroutine_contexts ?h k = Some d"
    then show "\<exists>z. contexts ?h d = Some z \<and> ctx_scope z = None"
      using heap_okD(4) [OF ok, of k d] x by (cases "d = c") auto
  }
qed (use heap_okD(3,5) [OF ok] in \<open>simp_all add: hold_def split: if_splits\<close>)

lemma abandon_coroutine_ok:
  assumes ok: "heap_ok (h, held)" and k: "coroutine_contexts h k = Some c"
  shows "heap_ok (h\<lparr>coroutine_contexts := (coroutine_contexts h)(k := None)\<rparr>, hold held c)"
    (is "heap_ok (?h, ?held)")
proof (rule heap_okI)
  fix t tl assume "scopes ?h t = Some tl"
  then show "scope_ok ?h t tl" using heap_okD(1) [OF ok, of t tl] by (simp add: scope_ok_def)
next
  fix d z assume d: "contexts ?h d = Some z"
  then have z: "contexts h d = Some z" by simp
  have "owner_refs h d z = owner_refs ?h d z + (if d = c then 1 else 0)"
  proof (cases "d = c")
    case True
    then have "\<not> (\<exists>j. coroutine_contexts ?h j = Some d)"
      using heap_okD(5) [OF ok k] by auto
    moreover have "\<exists>j. coroutine_contexts h j = Some d" using k True by blast
    ultimately show ?thesis using True by (simp only: owner_refs_def) simp
  next
    case False
    then have "(\<exists>j. coroutine_contexts ?h j = Some d) \<longleftrightarrow> (\<exists>j. coroutine_contexts h j = Some d)"
      using k by (auto simp: fun_upd_def) (metis option.inject)
    with False show ?thesis by (simp only: owner_refs_def) simp
  qed
  then show "context_ok ?h ?held d z"
    using heap_okD(2) [OF ok z] by (auto simp: context_ok_def hold_def split: if_splits)
next
  fix d assume "contexts ?h d = None"
  then show "?held d = 0"
    using heap_okD(3) [OF ok, of d] heap_okD(4) [OF ok k] by (auto simp: hold_def)
next
  fix j d assume "coroutine_contexts ?h j = Some d"
  then show "\<exists>z. contexts ?h d = Some z \<and> ctx_scope z = None"
    using heap_okD(4) [OF ok, of j d] by (simp split: if_splits)
next
  fix j j' d assume "coroutine_contexts ?h j = Some d" "coroutine_contexts ?h j' = Some d"
  then show "j = j'" using heap_okD(5) [OF ok, of j d j'] by (simp split: if_splits)
qed


subsection \<open>Every operation keeps the invariant\<close>

lemma new_scope_ok:
  assumes ok: "heap_ok (h, held)" and parent: "\<forall>p. parent = Some p \<longrightarrow> scopes h p \<noteq> None"
  shows "heap_ok (new_scope_link h parent, held)" (is "heap_ok (?h, held)")
proof (rule heap_okI)
  note old = scope_okD(1) [OF heap_okD(1) [OF ok]]
  {
    fix t tl assume t: "scopes ?h t = Some tl"
    show "scope_ok ?h t tl"
    proof (cases "t = next_scope h")
      case True
      with t have "tl = \<lparr>parent_scope = parent, scope_context = None\<rparr>" by (simp add: new_scope_link_def)
      with True parent old show ?thesis by (auto simp: scope_ok_def new_scope_link_def)
    next
      case False
      with t have "scopes h t = Some tl" by (simp add: new_scope_link_def)
      from heap_okD(1) [OF ok this] show ?thesis by (auto simp: scope_ok_def new_scope_link_def)
    qed
  next
    fix d z assume "contexts ?h d = Some z"
    then have z: "contexts h d = Some z" by (simp add: new_scope_link_def)
    have "owner_refs ?h d z = owner_refs h d z" by (simp add: owner_refs_def new_scope_link_def)
    then show "context_ok ?h held d z"
      using heap_okD(2) [OF ok z] old by (fastforce simp: context_ok_def new_scope_link_def)
  }
qed (use heap_okD(3,4,5) [OF ok] in \<open>simp_all add: new_scope_link_def\<close>)

lemma detach_ok:
  assumes ok: "heap_ok (h, held)"
  shows "heap_ok (scope_detach_children h s, held)" (is "heap_ok (?h, held)")
proof (rule heap_okI)
  fix t tl assume "scopes ?h t = Some tl"
  then obtain sl where sl: "scopes h t = Some sl"
    and tl: "tl = (if parent_scope sl = Some s then sl\<lparr>parent_scope := None\<rparr> else sl)"
    by (auto simp: scope_detach_children_def)
  from heap_okD(1) [OF ok sl] tl show "scope_ok ?h t tl"
    by (auto simp: scope_ok_def scope_detach_children_def)
next
  fix d z assume "contexts ?h d = Some z"
  then have z: "contexts h d = Some z" by (simp add: scope_detach_children_def)
  have "owner_refs ?h d z = owner_refs h d z" by (simp add: owner_refs_def scope_detach_children_def)
  moreover have "\<exists>tl. scopes ?h t = Some tl \<and> scope_context tl = scope_context sl" if "scopes h t = Some sl" for t sl
    using that by (simp add: scope_detach_children_def)
  moreover have "next_context ?h = next_context h" by (simp add: scope_detach_children_def)
  ultimately show "context_ok ?h held d z"
    using heap_okD(2) [OF ok z] unfolding context_ok_def by (metis (no_types, lifting))
qed (use heap_okD(3,4,5) [OF ok] in \<open>simp_all add: scope_detach_children_def\<close>)

lemma detached_leaf: "scopes (scope_detach_children h s) t = Some sl \<Longrightarrow> parent_scope sl \<noteq> Some s"
  by (cases "scopes h t"; cases "parent_scope (the (scopes h t)) = Some s")
     (auto simp: scope_detach_children_def)

lemma hold_drop [simp]: "(hold held c)(c := hold held c c - 1) = held"
  by (simp add: hold_def)

lemma drop_held_ok:
  "heap_ok (h, hold held c) \<Longrightarrow> heap_ok (async_context_dispose h c, held)"
  using drop_ok [of h "hold held c" c] by (simp add: hold_def)

lemma free_scope_ok:
  assumes ok: "heap_ok (h, held)" and leaf: "\<And>t tl. scopes h t = Some tl \<Longrightarrow> parent_scope tl \<noteq> Some s"
  shows "heap_ok (scope_free_link h s, held)"
proof (cases "scopes h s")
  case None
  with ok show ?thesis by (simp add: scope_free_link_def)
next
  case s: (Some sl)
  show ?thesis
  proof (cases "scope_context sl")
    case None
    let ?h = "h\<lparr>scopes := (scopes h)(s := None)\<rparr>"
    have "heap_ok (?h, held)"
    proof (rule heap_okI)
      fix t tl assume "scopes ?h t = Some tl"
      then show "scope_ok ?h t tl"
        using heap_okD(1) [OF ok, of t tl] leaf [of t tl] by (auto simp: scope_ok_def split: if_splits)
    next
      fix d z assume "contexts ?h d = Some z"
      then have z: "contexts h d = Some z" by simp
      have "owner_refs ?h d z = owner_refs h d z" by (simp add: owner_refs_def)
      then show "context_ok ?h held d z"
        using heap_okD(2) [OF ok z] s None by (fastforce simp: context_ok_def)
    qed (use heap_okD(3,4,5) [OF ok] in simp_all)
    with s None show ?thesis by (simp add: scope_free_link_def)
  next
    case (Some c)
    then obtain x where x: "contexts h c = Some x"
      using scope_okD(3) [OF heap_okD(1) [OF ok s]] by blast
    with s Some drop_held_ok [OF abandon_scope_ok [OF ok s Some x leaf]] show ?thesis
      by (simp add: scope_free_link_def)
  qed
qed

lemma scope_context_ok:
  assumes ok: "heap_ok (h, held)" and get: "scope_get_context h s = (h', Some c)"
  shows "heap_ok (h', hold held c)"
proof -
  obtain sl where s: "scopes h s = Some sl"
    using get by (cases "scopes h s") (simp_all add: scope_get_context_def)
  show ?thesis
  proof (cases "scope_context sl")
    case None
    obtain h1 d where create: "context_object_create h = (h1, d)" by force
    then have d: "d = next_context h"
      and h1: "h1 = (put_context h d async_context_new)\<lparr>next_context := Suc d\<rparr>"
      by (auto simp: context_object_create_def Let_def)
    have "heap_ok (attach_scope h1 s d, hold held d)"
      using fresh_context(3) [OF ok] s None
      by (intro attach_scope_ok [OF new_context_ok [OF ok create], where sl = sl])
         (auto simp: h1 d async_context_new_def)
    moreover have "h' = attach_scope h1 s d" "c = d"
      using get s None by (auto simp: scope_get_context_def attach_scope_def Let_def h1 d put_context_def)
    ultimately show ?thesis by simp
  next
    case (Some e)
    then obtain x where x: "contexts h e = Some x"
      using scope_okD(3) [OF heap_okD(1) [OF ok s]] by blast
    with get s Some have "h' = put_context h e (obj_copy x)" "c = e"
      by (auto simp: scope_get_context_def)
    then show ?thesis
      using hold_ok [OF ok x, of "obj_copy x"] context_okD(2) [OF heap_okD(2) [OF ok x]] by simp
  qed
qed

lemma coroutine_context_ok:
  assumes ok: "heap_ok (h, held)" and get: "coroutine_get_context h k = (h', Some c)"
  shows "heap_ok (h', hold held c)"
proof (cases "coroutine_contexts h k")
  case None
  obtain h1 d where create: "context_object_create h = (h1, d)" by force
  then have d: "d = next_context h"
    and h1: "h1 = (put_context h d async_context_new)\<lparr>next_context := Suc d\<rparr>"
    by (auto simp: context_object_create_def Let_def)
  have "heap_ok (attach_coroutine h1 k d, hold held d)"
    using fresh_context(3) [OF ok] None
    by (intro attach_coroutine_ok [OF new_context_ok [OF ok create]])
       (auto simp: h1 d async_context_new_def)
  moreover have "h' = attach_coroutine h1 k d" "c = d"
    using get None by (auto simp: coroutine_get_context_def attach_coroutine_def Let_def h1 d put_context_def)
  ultimately show ?thesis by simp
next
  case (Some e)
  then obtain x where x: "contexts h e = Some x"
    using heap_okD(4) [OF ok] by blast
  with get Some have "h' = put_context h e (obj_copy x)" "c = e"
    by (auto simp: coroutine_get_context_def)
  then show ?thesis
    using hold_ok [OF ok x, of "obj_copy x"] context_okD(2) [OF heap_okD(2) [OF ok x]] by simp
qed

text \<open>Changes of the tables of a live context.\<close>

lemma set_ok:
  assumes ok: "heap_ok (h, held)" and x: "contexts h c = Some x"
  shows "heap_ok (put_context h c (fst (async_context_set x key v)), held)"
    and "heap_ok (put_context h c (obj_copy (fst (async_context_set x key v))), hold held c)"
  using replace_ok [OF ok x] hold_ok [OF ok x] keys_alive_set [OF context_okD(2) [OF heap_okD(2) [OF ok x]]]
  by simp_all

lemma unset_ok:
  assumes ok: "heap_ok (h, held)" and x: "contexts h c = Some x"
  shows "heap_ok (put_context h c (fst (async_context_unset x key)), held)"
    and "heap_ok (put_context h c (obj_copy (fst (async_context_unset x key))), hold held c)"
  using replace_ok [OF ok x] hold_ok [OF ok x] keys_alive_unset [OF context_okD(2) [OF heap_okD(2) [OF ok x]]]
  by simp_all

lemma context_step_ok:
  assumes "context_step st st'" and "heap_ok st"
  shows "heap_ok st'"
  using assms
proof (induction rule: context_step.induct)
  case (Dispose_scope h held s)
  then show ?case
    unfolding scope_dispose_link_def by (intro free_scope_ok detach_ok) (auto dest: detached_leaf)
next
  case (Coroutine_end h held k)
  show ?case
  proof (cases "coroutine_contexts h k")
    case (Some c)
    with drop_held_ok [OF abandon_coroutine_ok [OF Coroutine_end Some]] show ?thesis
      by (simp add: coroutine_release_context_def)
  qed (simp add: coroutine_release_context_def Coroutine_end)
next
  case (Coroutine_set h k key v h' r held)
  then show ?case
    by (auto simp: async_coroutine_context_set_def set_ok split: option.splits)
next
  case (Coroutine_delete h k key h' r held)
  then show ?case
    by (auto simp: async_coroutine_context_delete_def unset_ok split: option.splits)
next
  case (Set_method held c h key v replace h' r)
  then show ?case
    by (auto simp: context_set_def set_ok split: option.splits if_splits)
next
  case (Unset_method held c h key h' r)
  then show ?case
    by (auto simp: context_unset_def unset_ok split: option.splits if_splits)
next
  case (Drop held c h)
  then show ?case by (intro drop_ok)
qed (simp_all add: new_scope_ok detach_ok new_context_ok scope_context_ok coroutine_context_ok)

lemma empty_heap_ok: "heap_ok (empty_heap, \<lambda>_. 0)"
  by (simp add: heap_ok_def empty_heap_def)

lemma context_reachable_ok: "context_reachable st \<Longrightarrow> heap_ok st"
  by (induction rule: context_reachable.induct) (simp_all only: empty_heap_ok context_step_ok)


subsection \<open>Nearest binding\<close>

text \<open>
  The specification of a lookup: the binding of the n-th level, where level 0 is the context
  itself and level n the context, if any, of the n-th scope above the context's own.
\<close>

fun nth_scope :: "context_heap \<Rightarrow> nat option \<Rightarrow> nat \<Rightarrow> nat option" where
  "nth_scope h None n = None"
| "nth_scope h (Some s) 0 = Some s"
| "nth_scope h (Some s) (Suc n) = (case scopes h s of None \<Rightarrow> None | Some sl \<Rightarrow> nth_scope h (parent_scope sl) n)"

definition scope_binding :: "context_heap \<Rightarrow> zval \<Rightarrow> nat \<Rightarrow> zval option" where
  "scope_binding h key s =
     (case scopes h s of
        None \<Rightarrow> None
      | Some sl \<Rightarrow>
          (case scope_context sl of
             None \<Rightarrow> None
           | Some c \<Rightarrow> (case contexts h c of None \<Rightarrow> None | Some x \<Rightarrow> local_binding x key)))"

definition chain_binding :: "context_heap \<Rightarrow> zval \<Rightarrow> nat option \<Rightarrow> nat \<Rightarrow> zval option" where
  "chain_binding h key sp n = (case nth_scope h sp n of None \<Rightarrow> None | Some s \<Rightarrow> scope_binding h key s)"

definition level_binding :: "context_heap \<Rightarrow> nat \<Rightarrow> zval \<Rightarrow> nat \<Rightarrow> zval option" where
  "level_binding h c key n =
     (case contexts h c of
        None \<Rightarrow> None
      | Some x \<Rightarrow> (if n = 0 then local_binding x key else chain_binding h key (ctx_scope x) n))"

text \<open>A result is right when it is the first binding of a sequence of levels, or there is none.\<close>

definition first_binding :: "(nat \<Rightarrow> zval option) \<Rightarrow> zval option \<Rightarrow> bool" where
  "first_binding f r \<longleftrightarrow>
     (case r of
        None \<Rightarrow> (\<forall>n. f n = None)
      | Some v \<Rightarrow> (\<exists>n. f n = Some v \<and> (\<forall>m<n. f m = None)))"

lemma first_binding_here: "f 0 = Some v \<Longrightarrow> first_binding f (Some v)"
  by (auto simp: first_binding_def)

lemma first_binding_later:
  assumes "f 0 = None" and "first_binding (\<lambda>n. f (Suc n)) r"
  shows "first_binding f r"
proof (cases r)
  case None
  with assms have "f n = None" for n by (cases n) (simp_all add: first_binding_def)
  with None show ?thesis by (simp add: first_binding_def)
next
  case (Some v)
  with assms(2) obtain n where n: "f (Suc n) = Some v" "\<forall>m<n. f (Suc m) = None"
    by (auto simp: first_binding_def)
  with assms(1) have "\<forall>m<Suc n. f m = None" by (simp add: All_less_Suc2)
  with n Some show ?thesis by (auto simp: first_binding_def)
qed

lemma first_binding_unique: "first_binding f r \<Longrightarrow> first_binding f r' \<Longrightarrow> r = r'"
  by (cases r; cases r') (auto simp: first_binding_def, metis linorder_neqE_nat option.distinct(1) option.inject)

text \<open>The outcome of a lookup that found \<open>r\<close>.\<close>

definition outcome_of :: "zval option \<Rightarrow> find_outcome" where
  "outcome_of r = (case r of None \<Rightarrow> Find_done False Z_NULL [] | Some v \<Rightarrow> Find_done True v [])"

lemma find_in_parents_nearest:
  assumes ok: "heap_ok (h, held)" and key: "valid_key key"
    and live: "\<forall>s. sp = Some s \<longrightarrow> scopes h s \<noteq> None"
  shows "\<exists>r. find_in_parents h sp key [] = Some (outcome_of r) \<and> first_binding (chain_binding h key sp) r"
proof (cases sp)
  case None
  then have "find_in_parents h sp key [] = Some (outcome_of None)"
    by (subst find_in_parents.simps) (simp add: outcome_of_def)
  moreover have "first_binding (chain_binding h key sp) None"
    using None by (simp add: first_binding_def chain_binding_def)
  ultimately show ?thesis by blast
next
  case (Some s)
  with live have "scopes h s \<noteq> None" by simp
  then have "\<exists>r. find_in_parents h (Some s) key [] = Some (outcome_of r) \<and>
    first_binding (chain_binding h key (Some s)) r"
  proof (induction s rule: less_induct)
    case (less s)
    then obtain sl where s: "scopes h s = Some sl" by blast
    note scope = heap_okD(1) [OF ok s]
    have shift: "(\<lambda>n. chain_binding h key (Some s) (Suc n)) = chain_binding h key (parent_scope sl)"
      by (simp add: fun_eq_iff chain_binding_def s)
    have zero: "chain_binding h key (Some s) 0 = scope_binding h key s"
      by (simp add: chain_binding_def)
    have up: "\<exists>r. find_in_parents h (parent_scope sl) key [] = Some (outcome_of r) \<and>
      first_binding (chain_binding h key (parent_scope sl)) r"
    proof (cases "parent_scope sl")
      case None
      then show ?thesis
        by (intro exI [of _ None], subst find_in_parents.simps)
           (simp add: outcome_of_def first_binding_def chain_binding_def)
    next
      case (Some p)
      with scope_okD(2) [OF scope Some] less.IH [of p] show ?thesis by auto
    qed
    show ?case
    proof (cases "scope_binding h key s")
      case None
      then have "find_in_parents h (Some s) key [] = find_in_parents h (parent_scope sl) key []"
        using scope_okD(3) [OF scope] s
        by (subst find_in_parents.simps)
           (auto simp: scope_binding_def find_local_binding [OF key] split: option.splits)
      with up None first_binding_later [of "chain_binding h key (Some s)"] show ?thesis
        unfolding shift zero by metis
    next
      case (Some v)
      then have "find_in_parents h (Some s) key [] = Some (outcome_of (Some v))"
        using s by (subst find_in_parents.simps)
          (auto simp: scope_binding_def find_local_binding [OF key] outcome_of_def split: option.splits)
      then show ?thesis
        using Some first_binding_here [of "chain_binding h key (Some s)" v] unfolding zero by blast
    qed
  qed
  with Some show ?thesis by simp
qed

lemma async_context_find_nearest:
  assumes ok: "heap_ok (h, held)" and key: "valid_key key" and x: "contexts h c = Some x"
  shows "\<exists>r. async_context_find h x key True = Some (outcome_of r) \<and> first_binding (level_binding h c key) r"
proof (cases "local_binding x key")
  case (Some v)
  then have "first_binding (level_binding h c key) (Some v)"
    using x by (intro first_binding_here) (simp add: level_binding_def)
  with Some show ?thesis
    by (intro exI [of _ "Some v"]) (simp add: async_context_find_def find_local_binding [OF key] outcome_of_def)
next
  case local: None
  have zero: "level_binding h c key 0 = None" using local x by (simp add: level_binding_def)
  show ?thesis
  proof (cases "ctx_scope x")
    case None
    then have "level_binding h c key n = None" for n
      using local x by (simp add: level_binding_def chain_binding_def)
    with None local show ?thesis
      by (intro exI [of _ None])
         (simp add: async_context_find_def find_local_binding [OF key] outcome_of_def first_binding_def)
  next
    case (Some s)
    then obtain sl where s: "scopes h s = Some sl"
      using context_okD(5) [OF heap_okD(2) [OF ok x]] by blast
    have "(\<lambda>n. level_binding h c key (Suc n)) = chain_binding h key (parent_scope sl)"
      using x Some s by (simp add: level_binding_def chain_binding_def fun_eq_iff)
    moreover have "\<forall>p. parent_scope sl = Some p \<longrightarrow> scopes h p \<noteq> None"
      using scope_okD(2) [OF heap_okD(1) [OF ok s]] by fastforce
    moreover have "async_context_find h x key True = find_in_parents h (parent_scope sl) key []"
      using local Some s by (simp add: async_context_find_def find_local_binding [OF key])
    ultimately show ?thesis
      using find_in_parents_nearest [OF ok key] first_binding_later [of "level_binding h c key", OF zero] by metis
  qed
qed


subsection \<open>Properties\<close>

lemma answer_outcome [simp]:
  "answer_find missing (Some (outcome_of r)) = Some (case r of None \<Rightarrow> missing | Some v \<Rightarrow> Returns v)"
  by (cases r) (simp_all add: outcome_of_def)

lemma findLocal_binding:
  "contexts h c = Some x \<Longrightarrow> valid_key key \<Longrightarrow>
   context_findLocal h c key = Some (Returns (case local_binding x key of None \<Rightarrow> Z_NULL | Some v \<Rightarrow> v))"
  by (simp add: context_findLocal_def with_context_def find_local_binding split: option.split)

text \<open>
  C18. In every reachable heap \<^verbatim>\<open>find()\<close>, \<^verbatim>\<open>get()\<close> and \<^verbatim>\<open>has()\<close> return and agree: they answer for the
  nearest level that binds the key, the context itself first and then the contexts of the
  scopes above, passing over scopes without a context.  With no binding at any level \<^verbatim>\<open>find()\<close>
  answers null, \<^verbatim>\<open>has()\<close> false and \<^verbatim>\<open>get()\<close> throws the exception that names the key.
\<close>

theorem context_lookup_nearest:
  assumes "context_reachable (h, held)" and "contexts h c \<noteq> None" and "valid_key key"
  shows "\<exists>r. first_binding (level_binding h c key) r \<and>
    context_find h c key = Some (Returns (case r of None \<Rightarrow> Z_NULL | Some v \<Rightarrow> v)) \<and>
    context_get h c key = Some (case r of None \<Rightarrow> Throws (context_throw_missing_key key) | Some v \<Rightarrow> Returns v) \<and>
    context_has h c key = Some (Returns (Z_BOOL (r \<noteq> None)))"
proof -
  obtain x where x: "contexts h c = Some x" using assms(2) by blast
  obtain r where r: "async_context_find h x key True = Some (outcome_of r)"
      "first_binding (level_binding h c key) r"
    using async_context_find_nearest [OF context_reachable_ok [OF assms(1)] assms(3) x] by blast
  show ?thesis
    using r(2) by (intro exI [of _ r])
      (simp add: context_find_def context_get_def context_has_def with_context_def x assms(3) r(1),
       simp add: outcome_of_def split: option.split)
qed

text \<open>
  \<^verbatim>\<open>set()\<close> refuses a key the context itself holds unless asked to replace it, and then
  changes nothing.  Otherwise the key reads back the value, every other key of the context and
  every other context are as before, and \<^verbatim>\<open>unset()\<close> removes exactly that key.
\<close>

theorem context_set_unset_roundtrip:
  assumes x: "contexts h c = Some x" and key: "valid_key key"
  shows "if \<not> replace \<and> local_binding x key \<noteq> None
    then context_set h c key v replace = (h, Throws Key_already_exists)
    else \<exists>h' h''. context_set h c key v replace = (h', Returns_this) \<and>
      context_findLocal h' c key = Some (Returns v) \<and>
      context_unset h' c key = (h'', Returns_this) \<and>
      context_getLocal h'' c key = Some (Throws (context_throw_missing_key key)) \<and>
      (\<forall>key'. valid_key key' \<and> bucket key' \<noteq> bucket key \<longrightarrow>
         context_findLocal h' c key' = context_findLocal h c key' \<and>
         context_findLocal h'' c key' = context_findLocal h c key') \<and>
      (\<forall>d. d \<noteq> c \<longrightarrow> contexts h' d = contexts h d \<and> contexts h'' d = contexts h d) \<and>
      scopes h'' = scopes h"
proof (cases "\<not> replace \<and> local_binding x key \<noteq> None")
  case True
  with x key show ?thesis by (simp add: context_set_def has_local_binding)
next
  case False
  define y where "y = obj_copy (fst (async_context_set x key v))"
  define z where "z = obj_copy (fst (async_context_unset y key))"
  have set: "context_set h c key v replace = (put_context h c y, Returns_this)"
    using False x key by (auto simp: context_set_def has_local_binding y_def)
  have unset: "context_unset (put_context h c y) c key = (put_context (put_context h c y) c z, Returns_this)"
    using key by (simp add: context_unset_def z_def)
  have y: "local_binding y key' = (if bucket key' = bucket key then Some v else local_binding x key')" for key'
    using key by (simp add: y_def set_binding)
  have z: "local_binding z key' = (if bucket key' = bucket key then None else local_binding x key')" for key'
    using key by (simp add: z_def unset_binding y)
  show ?thesis
    using False key x
    by (subst if_not_P) (auto simp: set unset findLocal_binding y z context_getLocal_def with_context_def
        find_local_binding)
qed

text \<open>
  C20. In every reachable heap the table of key objects of a context holds exactly the objects
  whose handles address a value, so such a handle cannot pass to another object, and the garbage
  collector is shown every stored value and every key object.
\<close>

theorem context_key_objects_alive:
  assumes "context_reachable (h, held)" and "contexts h c = Some x"
  shows "(\<forall>hd. (\<exists>cls. map_of (ctx_keys x) hd = Some (Z_OBJECT hd cls)) \<longleftrightarrow>
            map_of (ctx_values x) (Index_key hd) \<noteq> None) \<and>
    (\<forall>hd z. map_of (ctx_keys x) hd = Some z \<longrightarrow> z \<in> set (context_get_gc x)) \<and>
    (\<forall>k z. map_of (ctx_values x) k = Some z \<longrightarrow> z \<in> set (context_get_gc x))"
proof -
  have "keys_alive x"
    using context_okD(2) [OF heap_okD(2) [OF context_reachable_ok [OF assms(1)] assms(2)]] .
  then have iff: "map_of (ctx_keys x) hd \<noteq> None \<longleftrightarrow> map_of (ctx_values x) (Index_key hd) \<noteq> None"
    and object: "map_of (ctx_keys x) hd = Some z \<Longrightarrow> \<exists>cls. z = Z_OBJECT hd cls" for hd z
    unfolding keys_alive_def by blast+
  have gc: "map_of (ctx_keys x) hd = Some z \<Longrightarrow> z \<in> set (context_get_gc x)"
    "map_of (ctx_values x) k = Some z \<Longrightarrow> z \<in> set (context_get_gc x)" for hd k z
    by (force simp: context_get_gc_def dest: map_of_SomeD)+
  have "(\<exists>cls. map_of (ctx_keys x) hd = Some (Z_OBJECT hd cls)) \<longleftrightarrow> map_of (ctx_keys x) hd \<noteq> None" for hd
    using object [of hd] by (cases "map_of (ctx_keys x) hd") auto
  with iff gc show ?thesis by blast
qed

text \<open>
  C19. No pointer between scopes, coroutines and contexts dangles in a reachable heap: the context
  of a live scope is live and points back to it, a context that names a scope is that scope's
  context, a coroutine's context is live and names no scope, and a reference count is the number
  of the program's references plus one for the owner.
\<close>

theorem context_pointers_valid:
  assumes "context_reachable (h, held)"
  shows "(\<forall>s sl c. scopes h s = Some sl \<and> scope_context sl = Some c \<longrightarrow>
           (\<exists>x. contexts h c = Some x \<and> ctx_scope x = Some s)) \<and>
    (\<forall>c x s. contexts h c = Some x \<and> ctx_scope x = Some s \<longrightarrow>
           (\<exists>sl. scopes h s = Some sl \<and> scope_context sl = Some c)) \<and>
    (\<forall>k c. coroutine_contexts h k = Some c \<longrightarrow> (\<exists>x. contexts h c = Some x \<and> ctx_scope x = None)) \<and>
    (\<forall>c x. contexts h c = Some x \<longrightarrow> ctx_refcount x = held c +
           (if ctx_scope x \<noteq> None \<or> (\<exists>k. coroutine_contexts h k = Some c) then 1 else 0)) \<and>
    (\<forall>c. 0 < held c \<longrightarrow> contexts h c \<noteq> None)"
proof -
  note ok = context_reachable_ok [OF assms]
  have refs: "ctx_refcount x = held c +
      (if ctx_scope x \<noteq> None \<or> (\<exists>k. coroutine_contexts h k = Some c) then 1 else 0)"
    if c: "contexts h c = Some x" for c x
  proof -
    have "ctx_scope x = None" if "coroutine_contexts h k = Some c" for k
      using heap_okD(4) [OF ok that] c by simp
    then have "owner_refs h c x = (if ctx_scope x \<noteq> None \<or> (\<exists>k. coroutine_contexts h k = Some c) then 1 else 0)"
      by (auto simp: owner_refs_def)
    then show ?thesis using context_okD(3) [OF heap_okD(2) [OF ok c]] by simp
  qed
  show ?thesis
    using scope_okD(3) [OF heap_okD(1) [OF ok]] context_okD(5) [OF heap_okD(2) [OF ok]]
      heap_okD(4) [OF ok] heap_okD(3) [OF ok] refs
    by (intro conjI allI impI) (blast, blast, blast, blast, fastforce)
qed

text \<open>
  The context of a coroutine belongs to the coroutine alone: its lookups read that context
  only, whatever the scopes hold, through the methods and through the C interface, and no scope's
  lookup ever reaches it.
\<close>

lemma coroutine_context_private:
  assumes "context_reachable (h, held)" and "coroutine_contexts h k = Some c" and "valid_key key"
  shows "context_find h c key = context_findLocal h c key \<and>
    async_coroutine_context_get h k key = Some (outcome_of (level_binding h c key 0)) \<and>
    (\<forall>s sl. scopes h s = Some sl \<longrightarrow> scope_context sl \<noteq> Some c)"
proof -
  note ok = context_reachable_ok [OF assms(1)]
  obtain x where x: "contexts h c = Some x" "ctx_scope x = None"
    using heap_okD(4) [OF ok assms(2)] by blast
  then have "\<forall>s sl. scopes h s = Some sl \<longrightarrow> scope_context sl \<noteq> Some c"
    using scope_okD(3) [OF heap_okD(1) [OF ok]] by fastforce
  with x assms(2,3) show ?thesis
    by (auto simp: context_find_def context_findLocal_def with_context_def async_context_find_def
        find_local_binding async_coroutine_context_get_def level_binding_def outcome_of_def split: option.split)
qed

subsection \<open>Witnesses\<close>

text \<open>
  Three nested scopes; the outermost binds a name, the middle one has no context, and the
  innermost has an empty one.  A coroutine has a context of its own.
\<close>

definition demo_scopes :: context_heap where
  "demo_scopes = new_scope_link (new_scope_link (new_scope_link empty_heap None) (Some 0)) (Some 1)"

definition demo_bound :: context_heap where
  "demo_bound = fst (context_set (fst (scope_get_context demo_scopes 0)) 0 (Z_STRING ''user'') (Z_LONG 7) False)"

definition demo_heap :: context_heap where
  "demo_heap = fst (coroutine_get_context (fst (scope_get_context demo_bound 2)) 5)"

definition demo_held :: "nat \<Rightarrow> nat" where
  "demo_held = hold (hold (hold (hold (\<lambda>_. 0) 0) 0) 1) 2"

lemmas demo_defs = demo_scopes_def demo_bound_def demo_heap_def empty_heap_def new_scope_link_def
  scope_get_context_def coroutine_get_context_def context_set_def async_context_set_def
  async_context_has_local_def async_context_new_def obj_copy_def put_context_def Let_def

lemma demo_heap_reachable: "context_reachable (demo_heap, demo_held)"
proof -
  have "context_reachable (demo_scopes, \<lambda>_. 0)"
    unfolding demo_scopes_def
    by (rule Step [OF Step [OF Step [OF Start New_scope] New_scope] New_scope])
       (simp_all add: new_scope_link_def empty_heap_def)
  then have "context_reachable (fst (scope_get_context demo_scopes 0), hold (\<lambda>_. 0) 0)"
    by (rule Step) (rule Scope_context [where s = 0], simp add: demo_defs)
  then have "context_reachable (demo_bound, if Returns_this = Returns_this
      then hold (hold (\<lambda>_. 0) 0) 0 else hold (\<lambda>_. 0) 0)"
    by (rule Step)
       (rule Set_method [where key = "Z_STRING ''user''" and v = "Z_LONG 7" and replace = False],
        simp_all add: demo_defs hold_def)
  then have "context_reachable (demo_bound, hold (hold (\<lambda>_. 0) 0) 0)" by simp
  then have "context_reachable (fst (scope_get_context demo_bound 2), hold (hold (hold (\<lambda>_. 0) 0) 0) 1)"
    by (rule Step) (rule Scope_context [where s = 2], simp add: demo_defs)
  then show ?thesis
    unfolding demo_heap_def demo_held_def
    by (rule Step) (rule Coroutine_context [where k = 5], simp add: demo_defs)
qed

lemma demo_contexts:
  "contexts demo_heap 0 = Some \<lparr>ctx_values = [(Str_key ''user'', Z_LONG 7)], ctx_keys = [], ctx_scope = Some 0, ctx_refcount = 3\<rparr>"
  "contexts demo_heap 1 = Some \<lparr>ctx_values = [], ctx_keys = [], ctx_scope = Some 2, ctx_refcount = 2\<rparr>"
  "coroutine_contexts demo_heap 5 = Some 2"
  "scopes demo_heap 0 = Some \<lparr>parent_scope = None, scope_context = Some 0\<rparr>"
  "scopes demo_heap 1 = Some \<lparr>parent_scope = Some 0, scope_context = None\<rparr>"
  "scopes demo_heap 2 = Some \<lparr>parent_scope = Some 1, scope_context = Some 1\<rparr>"
  by (simp_all add: demo_defs)


theorem context_lookup_nearest_witness:
  "\<exists>r. first_binding (level_binding demo_heap 1 (Z_STRING ''user'')) r \<and> r = Some (Z_LONG 7) \<and>
     context_get demo_heap 1 (Z_STRING ''user'') = Some (Returns (Z_LONG 7))"
proof -
  have "nth_scope demo_heap (Some 2) (Suc 0) = Some 1" "nth_scope demo_heap (Some 2) (Suc (Suc 0)) = Some 0"
    by (simp_all add: demo_contexts del: One_nat_def)
  then have "level_binding demo_heap 1 (Z_STRING ''user'') 0 = None"
      "level_binding demo_heap 1 (Z_STRING ''user'') (Suc 0) = None"
      "level_binding demo_heap 1 (Z_STRING ''user'') (Suc (Suc 0)) = Some (Z_LONG 7)"
    by (simp_all add: level_binding_def chain_binding_def scope_binding_def local_binding_def demo_contexts
        del: One_nat_def)
  then have level: "level_binding demo_heap 1 (Z_STRING ''user'') 2 = Some (Z_LONG 7)"
      "\<forall>m<2. level_binding demo_heap 1 (Z_STRING ''user'') m = None"
    by (simp_all only: numeral_2_eq_2 All_less_Suc) simp
  have first: "first_binding (level_binding demo_heap 1 (Z_STRING ''user'')) (Some (Z_LONG 7))"
    unfolding first_binding_def option.case using level by blast
  have live: "contexts demo_heap 1 \<noteq> None" and key: "valid_key (Z_STRING ''user'')"
    using demo_contexts(2) by simp_all
  obtain r where r: "first_binding (level_binding demo_heap 1 (Z_STRING ''user'')) r"
      "context_get demo_heap 1 (Z_STRING ''user'') =
       Some (case r of None \<Rightarrow> Throws (context_throw_missing_key (Z_STRING ''user'')) | Some v \<Rightarrow> Returns v)"
    using context_lookup_nearest [OF demo_heap_reachable live key] by blast
  then have "r = Some (Z_LONG 7)" using first first_binding_unique by blast
  with r show ?thesis by simp
qed

theorem context_set_unset_roundtrip_witness:
  "context_set demo_heap 0 (Z_STRING ''user'') (Z_LONG 8) False = (demo_heap, Throws Key_already_exists) \<and>
   (\<exists>h'. context_set demo_heap 1 (Z_OBJECT 4 ''Foo'') (Z_LONG 8) False = (h', Returns_this) \<and>
     context_findLocal h' 1 (Z_OBJECT 4 ''Foo'') = Some (Returns (Z_LONG 8)))"
  using context_set_unset_roundtrip [OF demo_contexts(1), of "Z_STRING ''user''" False "Z_LONG 8"]
    context_set_unset_roundtrip [OF demo_contexts(2), of "Z_OBJECT 4 ''Foo''" False "Z_LONG 8"]
  by (auto simp: local_binding_def)

theorem context_key_objects_alive_witness:
  "(\<exists>cls. map_of (ctx_keys (the (contexts demo_heap 0))) 4 = Some (Z_OBJECT 4 cls)) \<longleftrightarrow>
   map_of (ctx_values (the (contexts demo_heap 0))) (Index_key 4) \<noteq> None"
  using context_key_objects_alive [OF demo_heap_reachable demo_contexts(1)] by (simp add: demo_contexts(1))

theorem context_pointers_valid_witness:
  "\<exists>x. contexts demo_heap 1 = Some x \<and> ctx_scope x = Some 2 \<and> ctx_refcount x = demo_held 1 + 1"
  using context_pointers_valid [OF demo_heap_reachable] demo_contexts(2,6) by fastforce

lemma coroutine_context_private_witness:
  "context_find demo_heap 2 (Z_STRING ''user'') = context_findLocal demo_heap 2 (Z_STRING ''user'') \<and>
   scope_context (the (scopes demo_heap 2)) \<noteq> Some 2"
  using coroutine_context_private [OF demo_heap_reachable demo_contexts(3), of "Z_STRING ''user''"] demo_contexts(6)
  by simp

end
