(* ===== verification/Fuzz.thy ===== *)
theory Fuzz
  imports Async_Prelude
begin

text \<open>
  The schedule fuzzer (\<^verbatim>\<open>src/internal/fuzz.c\<close>, \<^verbatim>\<open>src/internal/fuzz.h\<close>): the SplitMix64 generator,
  the choice of the next ready coroutine, and the configuration read from the environment.
  Properties: the choice stays inside the queue, and a seed taken from the log gives the same
  schedule again.
\<close>

subsection \<open>State\<close>

datatype async_fuzz_mode = ASYNC_FUZZ_MODE_FIFO | ASYNC_FUZZ_MODE_RANDOM | ASYNC_FUZZ_MODE_PCT

record async_fuzz_state =
  fz_mode :: async_fuzz_mode
  fz_seed :: uint64
  fz_rng_state :: uint64
  fz_pct_k :: uint32

subsection \<open>Random numbers\<close>

definition async_fuzz_next_u64 :: "async_fuzz_state \<Rightarrow> async_fuzz_state \<times> uint64" where
  "async_fuzz_next_u64 state =
     (let s = fz_rng_state state + 0x9E3779B97F4A7C15;
          z = s;
          z = (z XOR drop_bit 30 z) * 0xBF58476D1CE4E5B9;
          z = (z XOR drop_bit 27 z) * 0x94D049BB133111EB
      in (state\<lparr>fz_rng_state := s\<rparr>, z XOR drop_bit 31 z))"

definition async_fuzz_next_u32_below :: "async_fuzz_state \<Rightarrow> uint32 \<Rightarrow> async_fuzz_state \<times> uint32" where
  "async_fuzz_next_u32_below state bound =
     (if bound \<le> 1 then (state, 0)
      else case async_fuzz_next_u64 state of (state', r) \<Rightarrow> (state', ucast (r mod ucast bound)))"

definition async_fuzz_scheduler_pick :: "async_fuzz_state \<Rightarrow> uint32 \<Rightarrow> async_fuzz_state \<times> uint32" where
  "async_fuzz_scheduler_pick state count =
     (if fz_mode state = ASYNC_FUZZ_MODE_FIFO \<or> count \<le> 1 then (state, 0)
      else if fz_mode state = ASYNC_FUZZ_MODE_RANDOM
      then (case async_fuzz_next_u64 state of (state', r) \<Rightarrow>
              if r AND 1 = 0 then (state', 0) else async_fuzz_next_u32_below state' count)
      else (state, 0))"

subsection \<open>Configuration\<close>

text \<open>
  \<^verbatim>\<open>strtoull\<close> for the bases 10 and 16: leading blanks, a sign, for base 16 an optional prefix,
  then the longest run of digits.  The value saturates, a minus sign negates it modulo
  \<^verbatim>\<open>2^64\<close>, and no digits means that nothing was converted.
\<close>

definition digit_value :: "nat \<Rightarrow> char \<Rightarrow> nat option" where
  "digit_value base c =
     (let n = of_char c :: nat;
          d = (if 48 \<le> n \<and> n \<le> 57 then n - 48
               else if 97 \<le> n \<and> n \<le> 122 then n - 87
               else if 65 \<le> n \<and> n \<le> 90 then n - 55 else base)
      in if d < base then Some d else None)"

definition is_blank :: "char \<Rightarrow> bool" where
  "is_blank c \<longleftrightarrow> c = CHR '' '' \<or> (9 \<le> (of_char c :: nat) \<and> (of_char c :: nat) \<le> 13)"

fun split_sign :: "string \<Rightarrow> bool \<times> string" where
  "split_sign [] = (False, [])"
| "split_sign (c # s) = (if c = CHR ''-'' then (True, s) else if c = CHR ''+'' then (False, s) else (False, c # s))"

fun hex_marked :: "string \<Rightarrow> bool" where
  "hex_marked (z # x # s) \<longleftrightarrow> z = CHR ''0'' \<and> (x = CHR ''x'' \<or> x = CHR ''X'')"
| "hex_marked _ \<longleftrightarrow> False"

definition skip_prefix :: "nat \<Rightarrow> string \<Rightarrow> string" where
  "skip_prefix base s =
     (if base = 16 \<and> hex_marked s \<and> drop 2 s \<noteq> [] \<and> digit_value 16 (hd (drop 2 s)) \<noteq> None
      then drop 2 s else s)"

definition digits_value :: "nat \<Rightarrow> string \<Rightarrow> nat" where
  "digits_value base s = foldl (\<lambda>acc c. acc * base + the (digit_value base c)) 0 s"

definition strtoull :: "nat \<Rightarrow> string \<Rightarrow> uint64 option" where
  "strtoull base s =
     (case split_sign (dropWhile is_blank s) of (neg, s') \<Rightarrow>
        let ds = takeWhile (\<lambda>c. digit_value base c \<noteq> None) (skip_prefix base s');
            v = digits_value base ds
        in if ds = [] then None
           else if 2 ^ 64 \<le> v then Some (- 1)
           else Some (if neg then - of_nat v else of_nat v))"

definition parse_u64 :: "string option \<Rightarrow> uint64 \<Rightarrow> uint64" where
  "parse_u64 s fallback =
     (case s of
        None \<Rightarrow> fallback
      | Some t \<Rightarrow>
          if t = [] then fallback
          else (case strtoull (if hex_marked t then 16 else 10) t of None \<Rightarrow> fallback | Some v \<Rightarrow> v))"

text \<open>\<^verbatim>\<open>strncmp(s, p, strlen(p)) == 0\<close> and \<^verbatim>\<open>strchr(s, ':')\<close>, the latter with the colon removed.\<close>

definition starts_with :: "string \<Rightarrow> string \<Rightarrow> bool" where
  "starts_with p s \<longleftrightarrow> take (length p) s = p"

fun after_colon :: "string \<Rightarrow> string option" where
  "after_colon [] = None"
| "after_colon (c # s) = (if c = CHR '':'' then Some s else after_colon s)"

text \<open>What \<^verbatim>\<open>TRUE_ASYNC_FUZZ_VERBOSE\<close> sends to the error stream.\<close>

datatype fuzz_log = Log_random uint64 | Log_pct uint64 uint32 | Log_unknown string

definition scramble :: "uint64 \<Rightarrow> uint64" where
  "scramble seed = seed XOR 0xA5A5A5A5DEADBEEF"

definition async_fuzz_init :: "(string \<Rightarrow> string option) \<Rightarrow> async_fuzz_state \<times> fuzz_log list" where
  "async_fuzz_init getenv =
     (let log = (\<lambda>l. if getenv ''TRUE_ASYNC_FUZZ_VERBOSE'' \<noteq> None then [l] else []);
          seed = parse_u64 (getenv ''TRUE_ASYNC_FUZZ_SEED'') 0;
          state = \<lparr>fz_mode = ASYNC_FUZZ_MODE_FIFO, fz_seed = seed, fz_rng_state = scramble seed, fz_pct_k = 0\<rparr>
      in case getenv ''TRUE_ASYNC_SCHED'' of
           None \<Rightarrow> (state, [])
         | Some sched \<Rightarrow>
             if sched = [] \<or> starts_with ''fifo'' sched then (state, [])
             else if starts_with ''random'' sched
             then (let s = (case after_colon sched of None \<Rightarrow> seed | Some t \<Rightarrow> parse_u64 (Some t) seed)
                   in (state\<lparr>fz_mode := ASYNC_FUZZ_MODE_RANDOM, fz_seed := s, fz_rng_state := scramble s\<rparr>,
                       log (Log_random s)))
             else if starts_with ''pct'' sched
             then (let s = (case after_colon sched of None \<Rightarrow> seed | Some t \<Rightarrow> parse_u64 (Some t) seed);
                       k = (case after_colon sched of None \<Rightarrow> 0
                            | Some t \<Rightarrow> (case after_colon t of None \<Rightarrow> 0
                                         | Some t' \<Rightarrow> ucast (parse_u64 (Some t') 3)))
                   in (state\<lparr>fz_mode := ASYNC_FUZZ_MODE_PCT, fz_seed := s, fz_rng_state := scramble s, fz_pct_k := k\<rparr>,
                       log (Log_pct s k)))
             else (state, log (Log_unknown sched)))"

subsection \<open>The choice stays in the queue\<close>

lemma next_u32_below_bound:
  assumes "1 < bound"
  shows "snd (async_fuzz_next_u32_below state bound) < bound"
proof -
  obtain state' r where r: "async_fuzz_next_u64 state = (state', r)" by force
  have b: "unat (ucast bound :: uint64) = unat bound"
    by (simp add: unsigned_ucast_eq take_bit_nat_eq_self unsigned_less order_less_le_trans
        [OF unsigned_less [where 'a = nat and w = bound]])
  then have less: "unat (r mod ucast bound) < unat bound"
    using assms by (simp add: unat_mod_distrib word_less_nat_alt)
  then have "unat (ucast (r mod ucast bound) :: uint32) = unat (r mod ucast bound)"
    using order_less_trans [OF less unsigned_less [where 'a = nat and w = bound]]
    by (simp add: unsigned_ucast_eq take_bit_nat_eq_self)
  with less assms r show ?thesis
    by (simp add: async_fuzz_next_u32_below_def word_less_nat_alt)
qed

lemma pick_in_range:
  "0 < count \<Longrightarrow> snd (async_fuzz_scheduler_pick state count) < count"
  using next_u32_below_bound [of count]
  by (auto simp: async_fuzz_scheduler_pick_def word_neq_0_conv split: prod.split)

lemma pick_fifo: "fz_mode state \<noteq> ASYNC_FUZZ_MODE_RANDOM \<Longrightarrow> async_fuzz_scheduler_pick state count = (state, 0)"
  by (simp add: async_fuzz_scheduler_pick_def)


subsection \<open>A logged seed can be replayed\<close>

text \<open>The log prints the seed as \<^verbatim>\<open>0x%llx\<close>: lower case digits without leading zeros.\<close>

definition hex_char :: "nat \<Rightarrow> char" where
  "hex_char d = char_of (if d < 10 then d + 48 else d + 87)"

fun hex_string :: "nat \<Rightarrow> string" where
  "hex_string n = (if n < 16 then [hex_char n] else hex_string (n div 16) @ [hex_char (n mod 16)])"

declare hex_string.simps [simp del]

lemma digit_value_hex_char: "d < 16 \<Longrightarrow> digit_value 16 (hex_char d) = Some d"
  by (auto simp: digit_value_def hex_char_def Let_def of_char_of)

lemma hex_string_value:
  "digits_value 16 (hex_string n) = n \<and> (\<forall>c\<in>set (hex_string n). digit_value 16 c \<noteq> None)"
proof (induction n rule: hex_string.induct)
  case (1 n)
  then show ?case
    by (cases "n < 16")
       (simp_all add: hex_string.simps [of n] digits_value_def digit_value_hex_char)
qed

lemma hex_string_nonempty: "hex_string n \<noteq> []"
  by (simp add: hex_string.simps [of n])

lemma strtoull_hex:
  assumes "n < 2 ^ 64"
  shows "strtoull 16 (''0x'' @ hex_string n) = Some (of_nat n)"
proof -
  obtain c s where h: "hex_string n = c # s" using hex_string_nonempty [of n] by (cases "hex_string n") auto
  have digits: "takeWhile (\<lambda>c. digit_value 16 c \<noteq> None) (hex_string n) = hex_string n"
    using hex_string_value [of n] by (simp add: takeWhile_eq_all_conv)
  have skip: "skip_prefix 16 (''0x'' @ hex_string n) = hex_string n"
    using hex_string_value [of n] h by (simp add: skip_prefix_def)
  have split: "split_sign (dropWhile is_blank (''0x'' @ hex_string n)) = (False, ''0x'' @ hex_string n)"
    by (simp add: is_blank_def of_char_def)
  show ?thesis
    unfolding strtoull_def split prod.case skip digits Let_def
    using assms hex_string_value [of n] hex_string_nonempty [of n] by simp
qed

lemma parse_logged_seed: "parse_u64 (Some (''0x'' @ hex_string (unat w))) fallback = w"
proof -
  have "hex_marked (''0x'' @ hex_string (unat w))" by simp
  then show ?thesis
    using strtoull_hex [of "unat w"] unsigned_less [where 'a = nat and w = w]
    by (simp only: parse_u64_def option.case) simp
qed

text \<open>
  A fuzzing run can be replayed: the seed that the initialisation logs, written back as
  \<^verbatim>\<open>TRUE_ASYNC_SCHED=random:0x...\<close> in any environment, gives the generator the same state and so
  the same schedule, whichever variable the first run took its seed from.
\<close>

theorem fuzz_logged_seed_replays:
  assumes "async_fuzz_init env = (state, [Log_random seed])"
    and "env' ''TRUE_ASYNC_SCHED'' = Some (''random:0x'' @ hex_string (unat seed))"
  shows "fst (async_fuzz_init env') = state"
proof -
  have "state = \<lparr>fz_mode = ASYNC_FUZZ_MODE_RANDOM, fz_seed = seed, fz_rng_state = scramble seed, fz_pct_k = 0\<rparr>"
    using assms(1)
    by (auto simp: async_fuzz_init_def Let_def split: option.splits if_splits)
  moreover have "after_colon (''random:0x'' @ hex_string (unat seed)) = Some (''0x'' @ hex_string (unat seed))"
    by simp
  ultimately show ?thesis
    using assms(2) parse_logged_seed [of seed]
    by (simp add: async_fuzz_init_def Let_def starts_with_def)
qed

theorem fuzz_logged_seed_replays_witness:
  "fst (async_fuzz_init [''TRUE_ASYNC_SCHED'' \<mapsto> ''random:0x'' @ hex_string 42]) =
   fst (async_fuzz_init [''TRUE_ASYNC_SCHED'' \<mapsto> ''random:42'', ''TRUE_ASYNC_FUZZ_VERBOSE'' \<mapsto> ''1''])"
proof -
  have "strtoull 10 ''42'' = Some 42"
    by (simp add: strtoull_def is_blank_def of_char_def digit_value_def skip_prefix_def digits_value_def)
  then have "async_fuzz_init [''TRUE_ASYNC_SCHED'' \<mapsto> ''random:42'', ''TRUE_ASYNC_FUZZ_VERBOSE'' \<mapsto> ''1''] =
      (fst (async_fuzz_init [''TRUE_ASYNC_SCHED'' \<mapsto> ''random:42'', ''TRUE_ASYNC_FUZZ_VERBOSE'' \<mapsto> ''1'']),
       [Log_random 42])"
    by (simp add: async_fuzz_init_def Let_def starts_with_def parse_u64_def)
  from fuzz_logged_seed_replays [OF this, of "[''TRUE_ASYNC_SCHED'' \<mapsto> ''random:0x'' @ hex_string 42]"]
  show ?thesis by simp
qed

end
