(* ===== verification/Ready_Queue.thy ===== *)
theory Ready_Queue
  imports Circular_Buffer_Refinement Fuzz "HOL-Library.Multiset"
begin

text \<open>
  The scheduler's queues (\<^verbatim>\<open>src/scheduler.c\<close>): the choice of the next coroutine from the ready
  queue, with or without the fuzzer, and the pool of idle fibers.  Both rest on the ring buffer.
\<close>

subsection \<open>The next coroutine\<close>

text \<open>\<open>fuzz_build\<close> says whether the extension is compiled with \<^verbatim>\<open>ZEND_ASYNC_FUZZ\<close>.\<close>

definition next_coroutine ::
  "bool \<Rightarrow> async_fuzz_state \<Rightarrow> 'c circular_buffer \<Rightarrow> async_fuzz_state \<times> 'c circular_buffer \<times> 'c option" where
  "next_coroutine fuzz_build fuzz queue =
     (let (fuzz', queue') =
        (let q_count = circular_buffer_count queue in
         if fuzz_build \<and> 1 < q_count
         then (case async_fuzz_scheduler_pick fuzz (ucast q_count) of (fuzz', j) \<Rightarrow>
                 (fuzz', if j \<noteq> 0 then circular_buffer_swap_ptr_at queue 0 (ucast j) else queue))
         else (fuzz, queue))
      in case circular_buffer_pop_ptr queue' of
           (queue'', SUCCESS, coroutine) \<Rightarrow> (fuzz', queue'', coroutine)
         | (queue'', FAILURE, coroutine) \<Rightarrow> (fuzz', queue'', None))"

subsection \<open>The fiber pool\<close>

definition ASYNC_FIBER_POOL_SIZE :: size_t where
  "ASYNC_FIBER_POOL_SIZE = 4"

text \<open>
  A finished fiber is kept while the pool is below its minimum or below the demand of the ready
  queue.  \<open>alloc_ok\<close> is the answer of the allocator should the pool have to grow.
\<close>

definition return_fiber_to_pool ::
  "bool \<Rightarrow> 'f circular_buffer \<Rightarrow> 'c circular_buffer \<Rightarrow> 'f \<Rightarrow> 'f circular_buffer \<times> bool" where
  "return_fiber_to_pool alloc_ok pool queue fiber =
     (if cb_capacity pool = 0 then (pool, False)
      else let pool_count = circular_buffer_count pool;
               queue_count = circular_buffer_count queue;
               push = (case circular_buffer_push_ptr_with_resize alloc_ok pool fiber of
                         (pool', r) \<Rightarrow> (pool', r = SUCCESS))
           in if pool_count < ASYNC_FIBER_POOL_SIZE then push
              else if pool_count < queue_count then push
              else (pool, False))"

subsection \<open>Lemmas\<close>

lemma pop_ptr_refines:
  assumes "cb_wf b" and "cb_items b = x # xs"
  shows "\<exists>b'. circular_buffer_pop_ptr b = (b', SUCCESS, Some x) \<and> cb_wf b' \<and> cb_items b' = xs"
proof -
  obtain b' r y where p: "circular_buffer_pop b = (b', r, y)" by (metis prod_cases3)
  show ?thesis
    using pop_cases [OF assms(1) p] assms(2) p by (cases r) (auto simp: pop_ptr_eq_pop)
qed

lemma pop_ptr_empty:
  assumes "cb_wf b" and "cb_items b = []"
  shows "circular_buffer_pop_ptr b = (b, FAILURE, None)"
proof -
  obtain b' r y where p: "circular_buffer_pop b = (b', r, y)" by (metis prod_cases3)
  show ?thesis
    using pop_cases [OF assms(1) p] assms(2) p by (cases r) (auto simp: pop_ptr_eq_pop)
qed

lemma push_ptr_with_resize_cases:
  assumes "cb_wf b" and "circular_buffer_push_ptr_with_resize ok b v = (b', r)"
    and small: "unat (cb_capacity b) < 2 ^ 63"
  shows "cb_wf b' \<and> cb_items b' = cb_items b @ (if r = SUCCESS then [v] else [])"
proof -
  obtain b1 r1 where one: "circular_buffer_push ok b v False = (b1, r1)" by force
  obtain b2 r2 where two: "circular_buffer_push ok b v True = (b2, r2)" by force
  have "cb_wf b2 \<and> cb_items b2 = cb_items b @ (if r2 = SUCCESS then [v] else [])"
    using push_resize_cases [OF assms(1) small two] assms(1) by (cases r2) (auto split: zend_result.splits)
  with assms push_fixed_cases [OF assms(1) one] one two show ?thesis
    by (cases r1) (auto simp: circular_buffer_push_ptr_with_resize_def push_ptr_eq_push [where ok = ok])
qed

text \<open>The 32-bit index the fuzzer picks is an index of the queue, also when the count was cut.\<close>

lemma unat_ucast_le: "unat (ucast (n :: size_t) :: uint32) \<le> unat n"
  by (simp add: unsigned_ucast_eq)

lemma unat_ucast_up: "unat (ucast (j :: uint32) :: size_t) = unat j"
  using unsigned_less [where 'a = nat and w = j] by (simp add: unsigned_ucast_eq take_bit_nat_eq_self)

lemma pick_index:
  assumes "async_fuzz_scheduler_pick fuzz (ucast n) = (fuzz', j)" and "j \<noteq> 0"
  shows "(ucast j :: size_t) < n"
proof -
  have "(ucast n :: uint32) \<noteq> 0" using assms by (auto simp: async_fuzz_scheduler_pick_def)
  then have "j < ucast n" using pick_in_range [of "ucast n" fuzz] assms(1) by (simp add: word_neq_0_conv)
  then show ?thesis
    using unat_ucast_le [of n] unat_ucast_up [of j] by (simp add: word_less_nat_alt)
qed

lemma mset_swap_head:
  assumes "xs \<noteq> []" and "0 < i" and "i < length xs"
  shows "add_mset (xs ! i) (mset ((tl xs)[i - 1 := hd xs])) = mset xs"
proof -
  obtain y ys where xs: "xs = y # ys" using assms(1) by (cases xs) auto
  then have "mset (ys[i - 1 := y]) = add_mset y (mset ys - {#ys ! (i - 1)#})"
    using assms by (intro mset_update) auto
  moreover have "ys ! (i - 1) \<in># mset ys" using assms xs by (auto simp: nth_mem)
  ultimately show ?thesis using assms xs by (simp add: nth_Cons')
qed

subsection \<open>Properties\<close>

text \<open>
  C21. Scheduling takes exactly one coroutine off a non-empty ready queue, whatever the fuzzer
  decides: the coroutine at some position of the queue, the first one unless a fuzzing build runs
  in random mode; the former head takes its place and nothing else moves, is lost or is
  duplicated.  On an empty queue nothing happens.
\<close>

theorem next_coroutine_takes_one:
  assumes wf: "cb_wf queue"
  shows "if cb_items queue = []
    then next_coroutine fuzz_build fuzz queue = (fuzz, queue, None)
    else \<exists>fuzz' queue' i. next_coroutine fuzz_build fuzz queue = (fuzz', queue', Some (cb_items queue ! i)) \<and>
      cb_wf queue' \<and> i < length (cb_items queue) \<and>
      (fz_mode fuzz \<noteq> ASYNC_FUZZ_MODE_RANDOM \<or> \<not> fuzz_build \<longrightarrow> i = 0) \<and>
      cb_items queue' = (if i = 0 then tl (cb_items queue) else (tl (cb_items queue))[i - 1 := hd (cb_items queue)]) \<and>
      add_mset (cb_items queue ! i) (mset (cb_items queue')) = mset (cb_items queue)"
proof (cases "cb_items queue")
  case Nil
  then have "circular_buffer_count queue = 0"
    using length_cb_items [of queue] by (simp add: unat_eq_zero)
  with Nil pop_ptr_empty [OF wf Nil] show ?thesis by (simp add: next_coroutine_def Let_def)
next
  case (Cons x xs)
  let ?n = "circular_buffer_count queue"
  show ?thesis
  proof (cases "fuzz_build \<and> 1 < ?n \<and> snd (async_fuzz_scheduler_pick fuzz (ucast ?n)) \<noteq> 0")
    case False
    then have "\<exists>fuzz'. next_coroutine fuzz_build fuzz queue =
      (case circular_buffer_pop_ptr queue of
           (queue'', SUCCESS, coroutine) \<Rightarrow> (fuzz', queue'', coroutine)
         | (queue'', FAILURE, coroutine) \<Rightarrow> (fuzz', queue'', None))"
      by (cases "async_fuzz_scheduler_pick fuzz (ucast ?n)") (auto simp: next_coroutine_def Let_def)
    with pop_ptr_refines [OF wf Cons] obtain fuzz' queue'
      where "next_coroutine fuzz_build fuzz queue = (fuzz', queue', Some x)" "cb_wf queue'" "cb_items queue' = xs"
      by auto
    with Cons show ?thesis
      by (intro iffD2 [OF if_not_P] exI [of _ fuzz'] exI [of _ queue'] exI [of _ 0]) auto
  next
    case True
    then obtain fuzz' j where pick: "async_fuzz_scheduler_pick fuzz (ucast ?n) = (fuzz', j)" and j: "j \<noteq> 0"
      by (metis prod.collapse)
    let ?q = "circular_buffer_swap_ptr_at queue 0 (ucast j)"
    have lt: "(ucast j :: size_t) < ?n" by (rule pick_index [OF pick j])
    have zero: "(0 :: size_t) < ?n" using True by (simp add: word_less_nat_alt)
    have i: "0 < unat j" "unat j < length (cb_items queue)"
      using j lt unat_ucast_up [of j] by (simp_all add: unat_gt_0 word_less_nat_alt)
    have swap: "cb_wf ?q" "cb_items ?q = (cb_items queue)[0 := cb_items queue ! unat j, unat j := cb_items queue ! 0]"
      using swap_refines [OF wf zero lt] unat_ucast_up [of j] by simp_all
    then have items: "cb_items ?q = (cb_items queue ! unat j) # xs[unat j - 1 := x]"
      using i Cons by (cases "unat j") simp_all
    from pop_ptr_refines [OF swap(1) items] obtain queue' where q':
        "circular_buffer_pop_ptr ?q = (queue', SUCCESS, Some (cb_items queue ! unat j))"
        "cb_wf queue'" "cb_items queue' = xs[unat j - 1 := x]" by blast
    have "next_coroutine fuzz_build fuzz queue = (fuzz', queue', Some (cb_items queue ! unat j))"
      using True pick j q'(1) by (simp add: next_coroutine_def Let_def)
    moreover have "fuzz_build" "fz_mode fuzz = ASYNC_FUZZ_MODE_RANDOM"
      using True pick_fifo [of fuzz "ucast ?n"] by fastforce+
    ultimately show ?thesis
      using q' i Cons mset_swap_head [of "cb_items queue" "unat j"]
      by (subst if_not_P, simp)
         (intro exI [of _ fuzz'] exI [of _ queue'] exI [of _ "unat j"], simp)
  qed
qed

theorem next_coroutine_takes_one_witness:
  "\<exists>fuzz' queue'. next_coroutine True \<lparr>fz_mode = ASYNC_FUZZ_MODE_PCT, fz_seed = 1, fz_rng_state = 1, fz_pct_k = 3\<rparr>
     demo_ring = (fuzz', queue', Some 11) \<and> cb_items queue' = [12, 13]"
  using next_coroutine_takes_one [OF demo_ring_wf(1), of True
      "\<lparr>fz_mode = ASYNC_FUZZ_MODE_PCT, fz_seed = 1, fz_rng_state = 1, fz_pct_k = 3\<rparr>"]
  by (auto simp: demo_ring_wf(2))

text \<open>
  The fiber pool: a kept fiber is appended, and the pool never exceeds the larger of its minimum
  and the demand of the ready queue.
\<close>

lemma return_fiber_bounded:
  assumes wf: "cb_wf pool" and ret: "return_fiber_to_pool ok pool queue fiber = (pool', kept)"
    and small: "unat (cb_capacity pool) < 2 ^ 63"
  shows "cb_wf pool' \<and> cb_items pool' = cb_items pool @ (if kept then [fiber] else []) \<and>
    (kept \<longrightarrow> unat (circular_buffer_count pool') \<le> max 4 (unat (circular_buffer_count queue)))"
proof -
  obtain p r where push: "circular_buffer_push_ptr_with_resize ok pool fiber = (p, r)" by force
  note cases = push_ptr_with_resize_cases [OF wf push small]
  have "unat (circular_buffer_count p) = length (cb_items p)" by simp
  with cases ret push wf show ?thesis
    by (auto simp: return_fiber_to_pool_def ASYNC_FIBER_POOL_SIZE_def word_less_nat_alt Let_def split: if_splits)
qed

end
