(* ===== verification/Runtime.thy ===== *)
theory Runtime
  imports Async_Prelude
begin

text \<open>
  The runtime: coroutines (\<^verbatim>\<open>src/coroutine.c\<close>), the ready queue and the registry of coroutines
  (\<^verbatim>\<open>src/scheduler.c\<close>, \<^verbatim>\<open>spawn\<close> in \<^verbatim>\<open>src/async_API.c\<close>) and the tree of scopes (\<^verbatim>\<open>src/scope.c\<close>), as
  one state, because cancelling a scope cancels coroutines and a finished coroutine completes
  scopes.  Objects are numbered and numbers are not reused.  What listeners and PHP handlers do
  is recorded in a log or answered by the environment.
\<close>

subsection \<open>Data\<close>

text \<open>An exception: whether its class is a cancellation class, and its identity.\<close>

record throwable =
  th_cancellation :: bool
  th_id :: nat

datatype waker_status =
    ZEND_ASYNC_WAKER_NO_STATUS
  | ZEND_ASYNC_WAKER_WAITING
  | ZEND_ASYNC_WAKER_QUEUED
  | ZEND_ASYNC_WAKER_IGNORED
  | ZEND_ASYNC_WAKER_RESULT

text \<open>
  \<^verbatim>\<open>async_coroutine_t\<close> with its embedded waker; \<open>co_waker_status\<close> and \<open>co_waker_error\<close> are the
  waker's fields.  The waker exists as long as the object does.
\<close>

record coroutine =
  co_scope :: "nat option"
  co_waker_status :: waker_status
  co_waker_error :: "throwable option"
  co_started :: bool
  co_finished :: bool
  co_cancelled :: bool
  co_zombie :: bool
  co_protected :: bool
  co_exception :: "throwable option"
  co_deferred_cancellation :: "throwable option"
  co_finally_handlers :: "nat list"
  co_bailout :: bool

record async_scope =
  sc_parent :: "nat option"
  sc_children :: "nat list"
  sc_coroutines :: "nat list"
  sc_capacity :: nat
  sc_active :: nat
  sc_zombies :: nat
  sc_closed :: bool
  sc_cancelled :: bool
  sc_disposing :: bool
  sc_dispose_safely :: bool
  sc_owner_pinned :: bool
  sc_bailout :: bool
  sc_has_object :: bool
  sc_refcount :: nat
  sc_exception_handler :: bool
  sc_child_exception_handler :: bool
  sc_finally_handlers :: "nat list"

datatype runtime_effect =
    Scope_notified nat "throwable option"
  | Finally_called nat "nat list"
  | Runtime_error string

text \<open>
  \<open>rt_queue\<close>, \<open>rt_resumed\<close> and \<open>rt_coroutine_list\<close> are \<^verbatim>\<open>ASYNC_G(coroutine_queue)\<close>,
  \<^verbatim>\<open>ASYNC_G(resumed_coroutines)\<close> and \<^verbatim>\<open>ASYNC_G(coroutines)\<close>; \<open>rt_coroutine_count\<close> counts
  \<^verbatim>\<open>ZEND_ASYNC_INCREASE_COROUTINE_COUNT\<close> against \<^verbatim>\<open>ZEND_ASYNC_DECREASE_COROUTINE_COUNT\<close>.
\<close>

record runtime =
  rt_scopes :: "nat \<Rightarrow> async_scope option"
  rt_coroutines :: "nat \<Rightarrow> coroutine option"
  rt_queue :: "nat list"
  rt_resumed :: "nat list"
  rt_coroutine_list :: "nat list"
  rt_coroutine_count :: int
  rt_current :: "nat option"
  rt_scheduler_context :: bool
  rt_next_scope :: nat
  rt_next_coroutine :: nat
  rt_log :: "runtime_effect list"

text \<open>
  What the source takes from the engine's \<^verbatim>\<open>zend_async_API.h\<close>: the predicate
  \<^verbatim>\<open>ZEND_ASYNC_WAKER_IN_QUEUE\<close>, the error left by \<^verbatim>\<open>ZEND_ASYNC_WAKER_APPLY_CANCELLATION\<close>, the
  removal of a child from a vector of scopes, \<^verbatim>\<open>zend_async_scope_remove_child\<close>,
  \<^verbatim>\<open>ZEND_ASYNC_DECREASE_COROUTINE_COUNT\<close>, and the arguments with which \<^verbatim>\<open>ZEND_ASYNC_SCOPE_IS_COMPLETELY_DONE\<close> and
  \<^verbatim>\<open>ZEND_ASYNC_SCOPE_CAN_BE_DISPOSED\<close> call the scope's \<^verbatim>\<open>can_be_disposed\<close>.
\<close>

record zend_core =
  zc_in_queue :: "waker_status \<Rightarrow> bool"
  zc_apply_cancellation :: "throwable option \<Rightarrow> throwable \<Rightarrow> throwable"
  zc_remove_child :: "nat list \<Rightarrow> nat \<Rightarrow> nat list"
  zc_completely_done :: "bool \<times> bool"
  zc_can_be_disposed :: "bool \<times> bool"
  zc_completed :: "bool \<times> bool"
  zc_decrease_count :: "int \<Rightarrow> int"

text \<open>
  The documented behaviour: a coroutine is in the queue when its waker is queued or ignored; a
  cancellation replaces any error but an earlier cancellation; removing a child removes it from
  the vector and keeps the others; a scope is completely done when it can be disposed with its
  zombies counted, completed when it can be disposed without counting them, and disposable when
  moreover nobody holds on to it; the counter of coroutines is decreased while it is positive.
\<close>

definition core_ok :: "zend_core \<Rightarrow> bool" where
  "core_ok core \<longleftrightarrow>
     (\<forall>st. zc_in_queue core st \<longleftrightarrow> st = ZEND_ASYNC_WAKER_QUEUED \<or> st = ZEND_ASYNC_WAKER_IGNORED) \<and>
     (\<forall>old e. zc_apply_cancellation core old e =
        (case old of Some x \<Rightarrow> if th_cancellation x then x else e | None \<Rightarrow> e)) \<and>
     (\<forall>xs c. set (zc_remove_child core xs c) \<subseteq> set xs \<and>
        (distinct xs \<longrightarrow> distinct (zc_remove_child core xs c) \<and> set (zc_remove_child core xs c) = set xs - {c})) \<and>
     zc_completely_done core = (True, False) \<and> zc_can_be_disposed core = (True, True) \<and>
     zc_completed core = (False, False) \<and>
     (\<forall>k. if 0 < k then zc_decrease_count core k = k - 1 else zc_decrease_count core k \<le> 0)"

text \<open>The answers of PHP code: handlers of a scope, and listeners of a scope's event.\<close>

record runtime_env =
  env_handler_ok :: "nat \<Rightarrow> bool"
  env_child_handler_ok :: "nat \<Rightarrow> bool"
  env_listeners_absorb :: "nat \<Rightarrow> bool"
  env_listeners_throw :: "nat \<Rightarrow> bool"
  env_finally_runs :: "nat \<Rightarrow> bool"

definition mod_scope :: "nat \<Rightarrow> (async_scope \<Rightarrow> async_scope) \<Rightarrow> runtime \<Rightarrow> runtime" where
  "mod_scope s f rt =
     (case rt_scopes rt s of None \<Rightarrow> rt | Some x \<Rightarrow> rt\<lparr>rt_scopes := (rt_scopes rt)(s \<mapsto> f x)\<rparr>)"

definition mod_coroutine :: "nat \<Rightarrow> (coroutine \<Rightarrow> coroutine) \<Rightarrow> runtime \<Rightarrow> runtime" where
  "mod_coroutine c f rt =
     (case rt_coroutines rt c of None \<Rightarrow> rt | Some x \<Rightarrow> rt\<lparr>rt_coroutines := (rt_coroutines rt)(c \<mapsto> f x)\<rparr>)"

definition rt_effect :: "runtime_effect \<Rightarrow> runtime \<Rightarrow> runtime" where
  "rt_effect e rt = rt\<lparr>rt_log := rt_log rt @ [e]\<rparr>"

text \<open>Freshly created cancellation exceptions, told apart by their messages.\<close>

definition coroutine_cancelled :: throwable where
  "coroutine_cancelled = \<lparr>th_cancellation = True, th_id = 0\<rparr>"

definition scope_was_cancelled :: throwable where
  "scope_was_cancelled = \<lparr>th_cancellation = True, th_id = 1\<rparr>"

subsection \<open>The coroutines of a scope\<close>

definition async_scope_add_coroutine :: "nat \<Rightarrow> nat \<Rightarrow> runtime \<Rightarrow> runtime" where
  "async_scope_add_coroutine s c rt =
     (let zombie = (case rt_coroutines rt c of Some x \<Rightarrow> co_zombie x | None \<Rightarrow> False);
          rt = mod_scope s (\<lambda>x.
            let cap = (if sc_capacity x = 0 then 4 else sc_capacity x);
                cap = (if length (sc_coroutines x) = cap then cap * 2 else cap)
            in x\<lparr>sc_capacity := cap, sc_coroutines := sc_coroutines x @ [c],
                 sc_zombies := (if zombie then sc_zombies x + 1 else sc_zombies x),
                 sc_active := (if zombie then sc_active x else sc_active x + 1)\<rparr>) rt
      in mod_coroutine c (\<lambda>x. x\<lparr>co_scope := Some s\<rparr>) rt)"

text \<open>The slot of the removed coroutine takes the last one.\<close>

fun vector_index :: "nat list \<Rightarrow> nat \<Rightarrow> nat option" where
  "vector_index [] c = None"
| "vector_index (x # xs) c = (if x = c then Some 0 else map_option Suc (vector_index xs c))"

definition vector_remove :: "'a list \<Rightarrow> nat \<Rightarrow> 'a list" where
  "vector_remove xs i = butlast (xs[i := last xs])"

definition async_scope_remove_coroutine :: "nat \<Rightarrow> nat \<Rightarrow> runtime \<Rightarrow> runtime" where
  "async_scope_remove_coroutine s c rt =
     (let zombie = (case rt_coroutines rt c of Some x \<Rightarrow> co_zombie x | None \<Rightarrow> False) in
      mod_scope s (\<lambda>x.
        case vector_index (sc_coroutines x) c of
          None \<Rightarrow> x
        | Some i \<Rightarrow>
            (let x = (if \<not> zombie \<and> 0 < sc_active x then x\<lparr>sc_active := sc_active x - 1\<rparr>
                      else if 0 < sc_zombies x then x\<lparr>sc_zombies := sc_zombies x - 1\<rparr>
                      else x)
             in x\<lparr>sc_coroutines := vector_remove (sc_coroutines x) i\<rparr>)) rt)"

subsection \<open>Completion\<close>

text \<open>
  The recursion follows the children; the first argument bounds its depth and \<open>None\<close> means that
  the bound was reached.
\<close>

primrec all_children :: "('a \<Rightarrow> bool option) \<Rightarrow> 'a list \<Rightarrow> bool option" where
  "all_children f [] = Some True"
| "all_children f (x # xs) =
     (case f x of None \<Rightarrow> None | Some b \<Rightarrow> if b then all_children f xs else Some False)"

primrec scope_can_be_disposed :: "nat \<Rightarrow> runtime \<Rightarrow> bool \<Rightarrow> bool \<Rightarrow> nat \<Rightarrow> bool option" where
  "scope_can_be_disposed 0 rt with_zombies can_be_disposed s = None"
| "scope_can_be_disposed (Suc n) rt with_zombies can_be_disposed s =
     (case rt_scopes rt s of
        None \<Rightarrow> Some True
      | Some x \<Rightarrow>
          if \<not> can_be_disposed \<and> (sc_closed x \<or> sc_cancelled x) then Some True
          else if 0 < (if with_zombies then sc_active x + sc_zombies x else sc_active x) then Some False
          else if can_be_disposed \<and> sc_owner_pinned x then Some False
          else if can_be_disposed \<and> \<not> (sc_cancelled x \<or> \<not> sc_has_object x) then Some False
          else all_children (scope_can_be_disposed n rt with_zombies can_be_disposed) (sc_children x))"

text \<open>\<^verbatim>\<open>ZEND_ASYNC_CALLBACKS_NOTIFY\<close> on the event of a scope.\<close>

definition notify_scope :: "nat \<Rightarrow> throwable option \<Rightarrow> runtime \<Rightarrow> runtime" where
  "notify_scope s e rt = rt_effect (Scope_notified s e) rt"

primrec scope_check_completion_and_notify ::
  "nat \<Rightarrow> bool \<Rightarrow> nat \<Rightarrow> runtime \<Rightarrow> runtime option" where
  "scope_check_completion_and_notify 0 with_zombies s rt = None"
| "scope_check_completion_and_notify (Suc n) with_zombies s rt =
     (case scope_can_be_disposed (Suc n) rt with_zombies False s of
        None \<Rightarrow> None
      | Some False \<Rightarrow> Some rt
      | Some True \<Rightarrow>
          (let rt' = notify_scope s None rt in
           case rt_scopes rt s of
             None \<Rightarrow> Some rt'
           | Some x \<Rightarrow>
               (case sc_parent x of
                  None \<Rightarrow> Some rt'
                | Some p \<Rightarrow> scope_check_completion_and_notify n with_zombies p rt')))"

definition async_scope_mark_coroutine_zombie :: "nat \<Rightarrow> nat \<Rightarrow> runtime \<Rightarrow> runtime option" where
  "async_scope_mark_coroutine_zombie n c rt =
     (case rt_coroutines rt c of
        None \<Rightarrow> Some rt
      | Some x \<Rightarrow>
          if co_zombie x then Some rt
          else
            (let rt = mod_coroutine c (\<lambda>x. x\<lparr>co_zombie := True\<rparr>) rt in
             case co_scope x of
               None \<Rightarrow> Some rt
             | Some s \<Rightarrow>
                 scope_check_completion_and_notify n False s
                   (mod_scope s (\<lambda>x. if 0 < sc_active x
                      then x\<lparr>sc_active := sc_active x - 1, sc_zombies := sc_zombies x + 1\<rparr> else x) rt)))"

text \<open>
  Does the coroutine run in the scope or below it?  The source limits the depth, so the recursion
  is on what is left of it.  The result carries whether the limit raised an error.
\<close>

definition ASYNC_SCOPE_MAX_RECURSION_DEPTH :: nat where
  "ASYNC_SCOPE_MAX_RECURSION_DEPTH = 64"

primrec any_child :: "('a \<Rightarrow> bool \<times> bool) \<Rightarrow> 'a list \<Rightarrow> bool \<times> bool" where
  "any_child f [] = (False, False)"
| "any_child f (x # xs) =
     (case f x of (True, err) \<Rightarrow> (True, err)
      | (False, err) \<Rightarrow> (case any_child f xs of (b, err') \<Rightarrow> (b, err \<or> err')))"

definition scope_is_empty :: "runtime \<Rightarrow> nat \<Rightarrow> bool" where
  "scope_is_empty rt s =
     (case rt_scopes rt s of None \<Rightarrow> True | Some x \<Rightarrow> sc_coroutines x = [] \<and> sc_children x = [])"

primrec contains_within :: "nat \<Rightarrow> runtime \<Rightarrow> nat \<Rightarrow> nat \<Rightarrow> bool \<times> bool" where
  "contains_within 0 rt c s = (False, True)"
| "contains_within (Suc left) rt c s =
     (case rt_scopes rt s of
        None \<Rightarrow> (False, False)
      | Some x \<Rightarrow>
          if c \<in> set (sc_coroutines x) then (True, False)
          else any_child (contains_within left rt c) (filter (\<lambda>t. \<not> scope_is_empty rt t) (sc_children x)))"

definition async_scope_contains_coroutine :: "runtime \<Rightarrow> nat \<Rightarrow> nat \<Rightarrow> nat \<Rightarrow> bool \<times> bool" where
  "async_scope_contains_coroutine rt s c depth =
     contains_within (Suc ASYNC_SCOPE_MAX_RECURSION_DEPTH - depth) rt c s"


subsection \<open>Coroutines and the ready queue\<close>

definition fresh_coroutine :: coroutine where
  "fresh_coroutine =
     \<lparr>co_scope = None, co_waker_status = ZEND_ASYNC_WAKER_NO_STATUS, co_waker_error = None,
      co_started = False, co_finished = False, co_cancelled = False, co_zombie = False,
      co_protected = False, co_exception = None, co_deferred_cancellation = None,
      co_finally_handlers = [], co_bailout = False\<rparr>"

text \<open>The object joins the scope through the scope's \<^verbatim>\<open>before_coroutine_enqueue\<close>.\<close>

definition async_new_coroutine :: "nat option \<Rightarrow> runtime \<Rightarrow> runtime \<times> nat" where
  "async_new_coroutine scope rt =
     (let c = rt_next_coroutine rt;
          rt = rt\<lparr>rt_coroutines := (rt_coroutines rt)(c \<mapsto> fresh_coroutine), rt_next_coroutine := Suc c\<rparr>
      in (case scope of None \<Rightarrow> rt | Some s \<Rightarrow> async_scope_add_coroutine s c rt, c))"

definition set_status :: "nat \<Rightarrow> waker_status \<Rightarrow> runtime \<Rightarrow> runtime" where
  "set_status c st rt = mod_coroutine c (\<lambda>x. x\<lparr>co_waker_status := st\<rparr>) rt"

text \<open>
  \<^verbatim>\<open>spawn\<close> from the point where the scope is known; \<open>scheduler_scope\<close> is the one of the scheduler's
  own coroutine.  \<open>priority\<close> is positive for the front of the
  queue; \<open>strategy\<close> holds the outcomes of the two calls of a \<^verbatim>\<open>SpawnStrategy\<close> that was given.  A
  coroutine whose first call fails is dropped again, which takes it out of its scope.
\<close>

definition async_scope_notify_coroutine_finished ::
  "(nat \<Rightarrow> runtime \<Rightarrow> runtime option) \<Rightarrow> nat \<Rightarrow> nat \<Rightarrow> runtime \<Rightarrow> runtime option" where
  "async_scope_notify_coroutine_finished try_to_dispose n c rt =
     (case rt_coroutines rt c of
        None \<Rightarrow> Some rt
      | Some x \<Rightarrow>
          (case co_scope x of
             None \<Rightarrow> Some rt
           | Some s \<Rightarrow>
               (case scope_check_completion_and_notify n True s (async_scope_remove_coroutine s c rt) of
                  None \<Rightarrow> None
                | Some rt' \<Rightarrow> try_to_dispose s rt')))"

text \<open>\<^verbatim>\<open>coroutine_object_destroy\<close> as far as scopes see it, and the end of the object.\<close>

definition coroutine_object_destroy ::
  "(nat \<Rightarrow> runtime \<Rightarrow> runtime option) \<Rightarrow> nat \<Rightarrow> nat \<Rightarrow> runtime \<Rightarrow> runtime option" where
  "coroutine_object_destroy try_to_dispose n c rt =
     map_option (\<lambda>rt. rt\<lparr>rt_coroutines := (rt_coroutines rt)(c := None)\<rparr>)
       (async_scope_notify_coroutine_finished try_to_dispose n c rt)"

definition enqueue_new :: "int \<Rightarrow> nat \<Rightarrow> runtime \<Rightarrow> runtime" where
  "enqueue_new priority c rt =
     (let rt = set_status c ZEND_ASYNC_WAKER_QUEUED rt;
          rt = (if 0 < priority then rt\<lparr>rt_queue := c # rt_queue rt\<rparr> else rt\<lparr>rt_queue := rt_queue rt @ [c]\<rparr>)
      in rt\<lparr>rt_coroutine_list := rt_coroutine_list rt @ [c], rt_coroutine_count := rt_coroutine_count rt + 1\<rparr>)"

definition spawn ::
  "(nat \<Rightarrow> runtime \<Rightarrow> runtime option) \<Rightarrow> nat \<Rightarrow> nat option \<Rightarrow> nat option \<Rightarrow> (bool \<times> bool) option \<Rightarrow> int \<Rightarrow>
   runtime \<Rightarrow> (runtime \<times> nat option) option" where
  "spawn try_to_dispose n scheduler_scope scope strategy priority rt =
     (case scope of
        None \<Rightarrow> Some (rt_effect (Runtime_error ''Cannot spawn a coroutine without a scope'') rt, None)
      | Some s \<Rightarrow>
          (case rt_scopes rt s of
             None \<Rightarrow> Some (rt_effect (Runtime_error ''Cannot spawn a coroutine without a scope'') rt, None)
           | Some x \<Rightarrow>
               if sc_closed x
               then Some (rt_effect (Runtime_error ''Cannot spawn a coroutine in a closed scope'') rt, None)
               else if scheduler_scope = Some s
               then Some (rt_effect (Runtime_error ''You cannot use the Scheduler scope to create coroutines'') rt, None)
               else
                 (case async_new_coroutine (Some s) rt of (rt, c) \<Rightarrow>
                    if strategy \<noteq> None \<and> \<not> fst (the strategy)
                    then map_option (\<lambda>rt. (rt, None)) (coroutine_object_destroy try_to_dispose n c rt)
                    else
                      let rt = enqueue_new priority c rt in
                      if strategy \<noteq> None \<and> \<not> snd (the strategy)
                      then Some (set_status c ZEND_ASYNC_WAKER_IGNORED rt, None)
                      else Some (rt, Some c))))"

text \<open>
  The queue as the scheduler sees it is a list here; that the ring buffer implements it is the
  subject of the buffer theories.  A failing allocation of the buffer is not an outcome: the
  engine's allocator ends the request instead.
\<close>

definition push_queue :: "nat \<Rightarrow> runtime \<Rightarrow> runtime" where
  "push_queue c rt = rt\<lparr>rt_queue := rt_queue rt @ [c]\<rparr>"

definition push_resumed :: "nat \<Rightarrow> runtime \<Rightarrow> runtime" where
  "push_resumed c rt = (if rt_scheduler_context rt then rt\<lparr>rt_resumed := rt_resumed rt @ [c]\<rparr> else rt)"

definition async_scheduler_coroutine_enqueue :: "zend_core \<Rightarrow> nat \<Rightarrow> runtime \<Rightarrow> runtime \<times> bool" where
  "async_scheduler_coroutine_enqueue core c rt =
     (case rt_coroutines rt c of
        None \<Rightarrow> (rt, False)
      | Some x \<Rightarrow>
          if zc_in_queue core (co_waker_status x) then (rt, True)
          else
            let rt = set_status c ZEND_ASYNC_WAKER_QUEUED (push_queue c rt) in
            if \<not> co_started x \<and> c \<notin> set (rt_coroutine_list rt)
            then (if co_scope x = None
                  then (rt_effect (Runtime_error ''The coroutine has no scope assigned'')
                          (set_status c ZEND_ASYNC_WAKER_NO_STATUS rt), False)
                  else (push_resumed c (rt\<lparr>rt_coroutine_list := rt_coroutine_list rt @ [c],
                                           rt_coroutine_count := rt_coroutine_count rt + 1\<rparr>), True))
            else (push_resumed c rt, True))"

text \<open>An error that meets another one replaces it unless it is a mere cancellation.\<close>

definition merge_waker_error :: "throwable option \<Rightarrow> throwable option \<Rightarrow> throwable option" where
  "merge_waker_error old new =
     (case new of
        None \<Rightarrow> old
      | Some e \<Rightarrow> (case old of None \<Rightarrow> Some e | Some x \<Rightarrow> if th_cancellation e then Some x else Some e))"

definition async_coroutine_resume :: "nat \<Rightarrow> throwable option \<Rightarrow> runtime \<Rightarrow> runtime \<times> bool" where
  "async_coroutine_resume c error rt =
     (case rt_coroutines rt c of
        None \<Rightarrow> (rt, False)
      | Some x \<Rightarrow>
          if co_waker_status x = ZEND_ASYNC_WAKER_NO_STATUS \<and> \<not> rt_scheduler_context rt
          then (rt_effect (Runtime_error ''Cannot resume a coroutine that has not been suspended'') rt, False)
          else
            let rt = mod_coroutine c (\<lambda>x. x\<lparr>co_waker_error := merge_waker_error (co_waker_error x) error\<rparr>) rt in
            if co_waker_status x = ZEND_ASYNC_WAKER_QUEUED then (rt, True)
            else if rt_scheduler_context rt \<and> rt_current rt = Some c
            then (set_status c ZEND_ASYNC_WAKER_RESULT rt, True)
            else (push_resumed c (set_status c ZEND_ASYNC_WAKER_QUEUED (push_queue c rt)), True))"

definition async_coroutine_cancel ::
  "zend_core \<Rightarrow> nat \<Rightarrow> nat \<Rightarrow> throwable option \<Rightarrow> bool \<Rightarrow> runtime \<Rightarrow> (runtime \<times> bool) option" where
  "async_coroutine_cancel core n c error is_safely rt =
     (case rt_coroutines rt c of
        None \<Rightarrow> Some (rt, False)
      | Some x \<Rightarrow>
          if co_finished x then Some (rt, True)
          else if rt_current rt = Some c \<and> co_waker_status x \<noteq> ZEND_ASYNC_WAKER_WAITING
          then Some (mod_coroutine c (\<lambda>x. x\<lparr>co_cancelled := True,
                 co_exception := (case co_exception x of Some e \<Rightarrow> Some e
                   | None \<Rightarrow> Some (case error of Some e \<Rightarrow> e | None \<Rightarrow> coroutine_cancelled))\<rparr>) rt, True)
          else
            let e = (case error of Some e \<Rightarrow> e | None \<Rightarrow> coroutine_cancelled) in
            if co_protected x
            then Some (mod_coroutine c (\<lambda>x. x\<lparr>co_deferred_cancellation :=
                   (case co_deferred_cancellation x of Some d \<Rightarrow> Some d | None \<Rightarrow> Some e)\<rparr>) rt, True)
            else
              let rt = mod_coroutine c (\<lambda>x. x\<lparr>co_cancelled := True\<rparr>) rt;
                  apply_error = mod_coroutine c (\<lambda>x. x\<lparr>co_waker_error :=
                    Some (zc_apply_cancellation core (co_waker_error x) e)\<rparr>)
              in
              if \<not> co_started x
              then
                let rt = (if zc_in_queue core (co_waker_status x) then rt
                          else fst (async_scheduler_coroutine_enqueue core c rt));
                    rt = apply_error (set_status c ZEND_ASYNC_WAKER_IGNORED rt)
                in Some (async_scheduler_coroutine_enqueue core c rt)
              else if is_safely
              then map_option (\<lambda>rt. (rt\<lparr>rt_coroutine_count := zc_decrease_count core (rt_coroutine_count rt)\<rparr>, True))
                     (async_scope_mark_coroutine_zombie n c rt)
              else
                let rt = (if co_cancelled x \<and> (case co_waker_error x of Some w \<Rightarrow> th_cancellation w | None \<Rightarrow> False)
                          then rt else apply_error rt)
                in Some (async_scheduler_coroutine_enqueue core c rt))"

subsection \<open>Running, suspending\<close>

text \<open>
  The scheduler takes a coroutine off the queue and gives it the processor: its waker goes to the
  result state, in \<^verbatim>\<open>async_coroutine_execute\<close> on the first run and at the end of
  \<^verbatim>\<open>async_scheduler_coroutine_suspend\<close> later, and the stored error becomes the pending exception.
\<close>

definition coroutine_enter :: "nat \<Rightarrow> runtime \<Rightarrow> runtime \<times> throwable option" where
  "coroutine_enter c rt =
     (let rt' = mod_coroutine c (\<lambda>x. x\<lparr>co_waker_status := ZEND_ASYNC_WAKER_RESULT, co_waker_error := None,
            co_started := True\<rparr>) rt
      in (rt'\<lparr>rt_current := Some c\<rparr>,
          case rt_coroutines rt c of None \<Rightarrow> None | Some x \<Rightarrow> co_waker_error x))"

text \<open>
  \<^verbatim>\<open>async_scheduler_coroutine_suspend\<close> up to the switch, called by the current coroutine: with nothing
  to wait for the waker is destroyed and the coroutine goes on.  The coroutine stays the current
  one until the scheduler switches to another.  The answer says whether it waits.
\<close>

definition coroutine_suspend :: "zend_core \<Rightarrow> bool \<Rightarrow> nat \<Rightarrow> runtime \<Rightarrow> runtime \<times> bool" where
  "coroutine_suspend core has_events c rt =
     (if rt_scheduler_context rt
      then (rt_effect (Runtime_error ''A coroutine cannot be stopped from the Scheduler context'') rt, False)
      else
        (case rt_coroutines rt c of
           None \<Rightarrow> (rt, False)
         | Some x \<Rightarrow>
             if \<not> has_events \<and> \<not> zc_in_queue core (co_waker_status x)
             then (mod_coroutine c (\<lambda>x. x\<lparr>co_waker_status := ZEND_ASYNC_WAKER_NO_STATUS, co_waker_error := None\<rparr>) rt, False)
             else if zc_in_queue core (co_waker_status x) then (rt, True)
             else (set_status c ZEND_ASYNC_WAKER_WAITING rt, True)))"

end
