(* ===== verification/Scope.thy ===== *)
theory Scope
  imports Runtime
begin

text \<open>
  Scopes (\<^verbatim>\<open>src/scope.c\<close>): creation, cancellation and propagation of exceptions through the tree,
  disposal, finally handlers, the methods of \<^verbatim>\<open>Async\\Scope\<close>, and the end of a coroutine, which
  depends on them.  Recursive functions take a bound on the depth; \<open>None\<close> means that it was
  reached.
\<close>

subsection \<open>Loops\<close>

primrec loop :: "('s \<Rightarrow> 'a \<Rightarrow> 's option) \<Rightarrow> 's \<Rightarrow> 'a list \<Rightarrow> 's option" where
  "loop f s [] = Some s"
| "loop f s (x # xs) = (case f s x of None \<Rightarrow> None | Some s' \<Rightarrow> loop f s' xs)"

text \<open>If every body keeps \<open>P\<close> and returns, so does the loop.\<close>

lemma loop_inv:
  assumes "P s" and "\<And>s x s'. x \<in> set xs \<Longrightarrow> P s \<Longrightarrow> f s x = Some s' \<Longrightarrow> P s'"
    and "loop f s xs = Some s'"
  shows "P s'"
  using assms by (induction xs arbitrary: s) (auto split: option.splits)

lemma loop_returns:
  assumes "P s" and "\<And>s x. x \<in> set xs \<Longrightarrow> P s \<Longrightarrow> \<exists>s'. f s x = Some s' \<and> P s'"
  shows "\<exists>s'. loop f s xs = Some s' \<and> P s'"
  using assms
proof (induction xs arbitrary: s)
  case (Cons x xs)
  then obtain s' where "f s x = Some s'" "P s'" by (metis list.set_intros(1))
  with Cons show ?case by simp
qed simp

subsection \<open>Creation\<close>

definition async_new_scope :: "nat option \<Rightarrow> bool \<Rightarrow> runtime \<Rightarrow> runtime \<times> nat" where
  "async_new_scope parent with_zend_object rt =
     (let s = rt_next_scope rt;
          safely = (case parent of
              None \<Rightarrow> \<not> with_zend_object
            | Some p \<Rightarrow> (case rt_scopes rt p of None \<Rightarrow> False | Some x \<Rightarrow> sc_dispose_safely x));
          scope = \<lparr>sc_parent = parent, sc_children = [], sc_coroutines = [], sc_capacity = 0,
                   sc_active = 0, sc_zombies = 0, sc_closed = False, sc_cancelled = False,
                   sc_disposing = False, sc_dispose_safely = safely, sc_owner_pinned = False,
                   sc_bailout = False, sc_has_object = with_zend_object, sc_refcount = 1,
                   sc_exception_handler = False, sc_child_exception_handler = False,
                   sc_finally_handlers = []\<rparr>;
          rt = rt\<lparr>rt_scopes := (rt_scopes rt)(s \<mapsto> scope), rt_next_scope := Suc s\<rparr>;
          rt = (case parent of None \<Rightarrow> rt
                | Some p \<Rightarrow> mod_scope p (\<lambda>x. x\<lparr>sc_children := sc_children x @ [s]\<rparr>) rt)
      in (rt, s))"

subsection \<open>Finally handlers\<close>

text \<open>
  The handlers run in a coroutine of their own in a new child scope, put at the front of the
  queue; the scope is held until they are done.
\<close>

definition async_call_finally_handlers :: "nat \<Rightarrow> runtime \<Rightarrow> runtime" where
  "async_call_finally_handlers s rt =
     (case async_new_scope (Some s) False rt of (rt, child) \<Rightarrow>
        case async_new_coroutine (Some child) rt of (rt, c) \<Rightarrow>
          mod_scope s (\<lambda>x. x\<lparr>sc_refcount := sc_refcount x + 1\<rparr>) (enqueue_new 1 c rt))"

definition async_scope_call_finally_handlers :: "runtime_env \<Rightarrow> nat \<Rightarrow> runtime \<Rightarrow> runtime \<times> bool" where
  "async_scope_call_finally_handlers env s rt =
     (case rt_scopes rt s of
        None \<Rightarrow> (rt, False)
      | Some x \<Rightarrow>
          if sc_finally_handlers x = [] then (rt, False)
          else
            let rt = mod_scope s (\<lambda>x. x\<lparr>sc_finally_handlers := []\<rparr>) rt in
            if sc_bailout x then (rt, False)
            else if env_finally_runs env s
            then (async_call_finally_handlers s (rt_effect (Finally_called s (sc_finally_handlers x)) rt), True)
            else (rt, False))"

subsection \<open>Exceptions and cancellation\<close>

text \<open>
  \<^verbatim>\<open>async_spawn_and_throw\<close>: a coroutine that throws the exception, in a new child scope when the
  scope no longer takes coroutines.
\<close>

definition async_spawn_and_throw :: "int \<Rightarrow> nat \<Rightarrow> runtime \<Rightarrow> runtime" where
  "async_spawn_and_throw priority s rt =
     (let (rt, target) = (case rt_scopes rt s of
            None \<Rightarrow> (rt, s)
          | Some x \<Rightarrow> if sc_cancelled x \<or> sc_closed x then async_new_scope (Some s) False rt else (rt, s))
      in case async_new_coroutine (Some target) rt of (rt, c) \<Rightarrow> enqueue_new priority c rt)"

definition try_to_handle_exception ::
  "runtime_env \<Rightarrow> async_scope \<Rightarrow> nat \<Rightarrow> nat option \<Rightarrow> nat option \<Rightarrow> runtime \<Rightarrow> runtime \<times> bool" where
  "try_to_handle_exception env x s from_scope coroutine rt =
     (if \<not> sc_exception_handler x \<and> \<not> sc_child_exception_handler x then (rt, False)
      else if sc_bailout x then (rt, False)
      else if rt_scheduler_context rt \<or> coroutine = None
      then (async_spawn_and_throw 1 (case from_scope of Some f \<Rightarrow> f | None \<Rightarrow> s) rt, True)
      else if from_scope \<noteq> None \<and> sc_child_exception_handler x \<and> env_child_handler_ok env s then (rt, True)
      else if sc_exception_handler x \<and> env_handler_ok env s then (rt, True)
      else (rt, False))"

text \<open>
  The answer of \<^verbatim>\<open>catch_or_cancel\<close>: true, false, or false with an exception of a listener pending.
  Exceptions of the listeners of child scopes are held back and thrown at the end.
\<close>

datatype catch_result = Exception_taken | Exception_not_taken | Listener_threw

primrec scope_catch_or_cancel ::
  "nat \<Rightarrow> zend_core \<Rightarrow> runtime_env \<Rightarrow> nat \<Rightarrow> nat option \<Rightarrow> nat option \<Rightarrow> throwable option \<Rightarrow> bool \<Rightarrow> bool \<Rightarrow>
   runtime \<Rightarrow> (runtime \<times> catch_result) option" where
  "scope_catch_or_cancel 0 core env s coroutine from_scope exception is_safely is_cancellation rt = None"
| "scope_catch_or_cancel (Suc n) core env s coroutine from_scope exception is_safely is_cancellation rt =
     (case rt_scopes rt s of
        None \<Rightarrow> Some (rt, Exception_not_taken)
      | Some x \<Rightarrow>
          if is_cancellation \<and> sc_closed x then Some (rt, Exception_taken)
          else
            (case (if is_cancellation
                   then scope_can_be_disposed (Suc n) rt (fst (zc_completely_done core)) (snd (zc_completely_done core)) s
                   else Some False) of
               None \<Rightarrow> None
             | Some True \<Rightarrow>
                 Some (fst (async_scope_call_finally_handlers env s (mod_scope s (\<lambda>x. x\<lparr>sc_closed := True\<rparr>) rt)), Exception_taken)
             | Some False \<Rightarrow>
                 (case (if is_cancellation \<and> exception = None then Some scope_was_cancelled else exception) of
                    None \<Rightarrow> Some (rt, Exception_taken)
                  | Some e \<Rightarrow>
                      if \<not> is_cancellation \<and> snd (try_to_handle_exception env x s from_scope coroutine rt)
                      then Some (fst (try_to_handle_exception env x s from_scope coroutine rt), Exception_taken)
                      else
                        let passed = (if is_cancellation then Some e else None);
                            rt = mod_scope s (\<lambda>x. x\<lparr>sc_cancelled := True\<rparr>) rt
                        in
                        (case loop (\<lambda>(rt, threw) child. map_option (\<lambda>(rt, r). (rt, threw \<or> r = Listener_threw))
                                (scope_catch_or_cancel n core env child coroutine (Some s) passed is_safely True rt))
                              (rt, False) (sc_children x) of
                           None \<Rightarrow> None
                         | Some (rt, threw) \<Rightarrow>
                             (case loop (\<lambda>rt c. map_option fst (async_coroutine_cancel core n c passed is_safely rt))
                                   rt (sc_coroutines x) of
                                None \<Rightarrow> None
                              | Some rt \<Rightarrow>
                                  (let rt = notify_scope s (Some e) rt in
                                   if threw \<or> env_listeners_throw env s then Some (rt, Listener_threw)
                                   else if env_listeners_absorb env s then Some (rt, Exception_taken)
                                   else if \<not> is_cancellation \<and> sc_parent x \<noteq> None
                                   then scope_catch_or_cancel n core env (the (sc_parent x)) coroutine (Some s) (Some e)
                                          is_safely False rt
                                   else Some (rt, Exception_not_taken)))))))"

subsection \<open>Disposal\<close>

text \<open>
  A loop over the children by index, as the source writes it: the vector is read again at every
  turn, its length included.  The body answers whether an exception is pending, which ends the loop.
  The number of turns is bounded by the number of children at the start, where the source has no
  such bound; the lemma \<open>disposal_turns_suffice\<close> shows that more turns would change nothing, since no
  child is added to a scope while it is being disposed of.  Handlers and listeners of PHP code are
  answers fixed per scope (\<open>runtime_env\<close>): they do not call back into the scope while the loop runs.
\<close>

primrec children_loop ::
  "(nat \<Rightarrow> runtime \<Rightarrow> (runtime \<times> bool) option) \<Rightarrow> nat \<Rightarrow> nat \<Rightarrow> nat \<Rightarrow> runtime \<Rightarrow> (runtime \<times> bool) option" where
  "children_loop body s 0 i rt = Some (rt, False)"
| "children_loop body s (Suc k) i rt =
     (case rt_scopes rt s of
        None \<Rightarrow> Some (rt, False)
      | Some x \<Rightarrow>
          if length (sc_children x) \<le> i then Some (rt, False)
          else
            (case body (sc_children x ! i) rt of
               None \<Rightarrow> None
             | Some (rt', threw) \<Rightarrow> if threw then Some (rt', True) else children_loop body s k (Suc i) rt'))"

text \<open>
  \<^verbatim>\<open>scope_dispose\<close>: the second component says whether an exception is pending at the end.
\<close>

primrec scope_dispose ::
  "nat \<Rightarrow> zend_core \<Rightarrow> runtime_env \<Rightarrow> nat \<Rightarrow> runtime \<Rightarrow> (runtime \<times> bool) option" where
  "scope_dispose 0 core env s rt = None"
| "scope_dispose (Suc n) core env s rt =
     (case rt_scopes rt s of
        None \<Rightarrow> Some (rt, False)
      | Some x \<Rightarrow>
          if sc_disposing x then Some (rt, False)
          else if 1 < sc_refcount x
          then Some (notify_scope s None (mod_scope s (\<lambda>x. x\<lparr>sc_refcount := sc_refcount x - 1\<rparr>) rt),
                     env_listeners_throw env s)
          else
            (let rt = mod_scope s (\<lambda>x. x\<lparr>sc_refcount := 1, sc_disposing := True\<rparr>) rt in
             case children_loop
                    (\<lambda>child rt. scope_dispose n core env child (mod_scope child (\<lambda>y. y\<lparr>sc_parent := None\<rparr>) rt))
                    s (length (sc_children x)) 0 rt of
               None \<Rightarrow> None
             | Some (rt, threw) \<Rightarrow>
                 if threw then Some (mod_scope s (\<lambda>x. x\<lparr>sc_disposing := False\<rparr>) rt, True)
                 else
                   (case async_scope_call_finally_handlers env s (notify_scope s None rt) of
                      (rt, True) \<Rightarrow>
                        (let rt = (if env_listeners_throw env s then async_spawn_and_throw 0 s rt else rt)
                         in Some (mod_scope s (\<lambda>x. x\<lparr>sc_disposing := False\<rparr>) rt, False))
                    | (rt, False) \<Rightarrow>
                        (let rt = mod_scope s (\<lambda>x. x\<lparr>sc_refcount := sc_refcount x - 1\<rparr>) rt in
                         if (case rt_scopes rt s of None \<Rightarrow> False | Some x \<Rightarrow> 0 < sc_refcount x)
                         then Some (mod_scope s (\<lambda>x. x\<lparr>sc_disposing := False\<rparr>) rt, False)
                         else
                           let rt = (case sc_parent x of None \<Rightarrow> rt
                                     | Some p \<Rightarrow> mod_scope p (\<lambda>y. y\<lparr>sc_children := zc_remove_child core (sc_children y) s\<rparr>) rt)
                           in Some (rt\<lparr>rt_scopes := (rt_scopes rt)(s := None)\<rparr>, env_listeners_throw env s)))))"

definition scope_try_to_dispose ::
  "nat \<Rightarrow> zend_core \<Rightarrow> runtime_env \<Rightarrow> nat \<Rightarrow> runtime \<Rightarrow> (runtime \<times> bool) option" where
  "scope_try_to_dispose n core env s rt =
     (case rt_scopes rt s of
        None \<Rightarrow> Some (rt, True)
      | Some x \<Rightarrow>
          if sc_disposing x then Some (rt, True)
          else
            (case scope_can_be_disposed n rt (fst (zc_can_be_disposed core)) (snd (zc_can_be_disposed core)) s of
               None \<Rightarrow> None
             | Some False \<Rightarrow> Some (rt, False)
             | Some True \<Rightarrow>
                 (case children_loop (scope_dispose n core env) s (length (sc_children x)) 0
                         (mod_scope s (\<lambda>x. x\<lparr>sc_disposing := True\<rparr>) rt) of
                    None \<Rightarrow> None
                  | Some (rt, threw) \<Rightarrow>
                      (let rt = mod_scope s (\<lambda>x. x\<lparr>sc_disposing := False\<rparr>) rt in
                       if threw then Some (rt, False)
                       else map_option (\<lambda>(rt, _). (rt, True)) (scope_dispose n core env s rt)))))"

text \<open>\<^verbatim>\<open>try_to_dispose\<close> as the other components call it, without its answer.\<close>

definition dispose_if_possible :: "nat \<Rightarrow> zend_core \<Rightarrow> runtime_env \<Rightarrow> nat \<Rightarrow> runtime \<Rightarrow> runtime option" where
  "dispose_if_possible n core env s rt = map_option fst (scope_try_to_dispose n core env s rt)"


subsection \<open>The end of a coroutine\<close>

definition coroutine_call_finally_handlers :: "nat \<Rightarrow> runtime \<Rightarrow> runtime" where
  "coroutine_call_finally_handlers c rt =
     (case rt_coroutines rt c of
        None \<Rightarrow> rt
      | Some x \<Rightarrow>
          let rt = mod_coroutine c (\<lambda>x. x\<lparr>co_finally_handlers := []\<rparr>) rt in
          (case co_scope x of
             None \<Rightarrow> rt
           | Some s \<Rightarrow>
               if co_bailout x \<or> (case rt_scopes rt s of None \<Rightarrow> False | Some y \<Rightarrow> sc_bailout y) then rt
               else async_call_finally_handlers s rt))"

text \<open>
  \<^verbatim>\<open>async_coroutine_finalize\<close>.  \<open>pending\<close> is the exception the body ended with, unless it asks to exit;
  \<open>handled\<close> says whether a listener of the coroutine took it; \<open>unobserved\<close> whether nobody else can
  ever ask for it.  The result carries the exception that is thrown on.
\<close>

definition finalize_exception :: "throwable option \<Rightarrow> coroutine \<Rightarrow> coroutine" where
  "finalize_exception pending x =
     (case pending of
        None \<Rightarrow> x
      | Some e \<Rightarrow>
          (case co_exception x of
             None \<Rightarrow> x\<lparr>co_exception := Some e\<rparr>
           | Some old \<Rightarrow> if th_cancellation e then x else x\<lparr>co_exception := Some e\<rparr>))"

definition coroutine_leave :: "zend_core \<Rightarrow> nat \<Rightarrow> runtime \<Rightarrow> runtime" where
  "coroutine_leave core c rt =
     (let zombie = (case rt_coroutines rt c of Some x \<Rightarrow> co_zombie x | None \<Rightarrow> False)
      in rt\<lparr>rt_coroutine_list := remove1 c (rt_coroutine_list rt),
            rt_coroutine_count := (if zombie then rt_coroutine_count rt else zc_decrease_count core (rt_coroutine_count rt))\<rparr>)"

definition async_coroutine_finalize ::
  "nat \<Rightarrow> zend_core \<Rightarrow> runtime_env \<Rightarrow> nat \<Rightarrow> throwable option \<Rightarrow> bool \<Rightarrow> bool \<Rightarrow> runtime \<Rightarrow>
   (runtime \<times> throwable option) option" where
  "async_coroutine_finalize n core env c pending handled unobserved rt =
     (case rt_coroutines rt c of
        None \<Rightarrow> Some (rt, None)
      | Some x \<Rightarrow>
          let exception = (case pending of Some e \<Rightarrow> Some e | None \<Rightarrow> co_exception x);
              rt = mod_coroutine c (\<lambda>x. finalize_exception pending (x\<lparr>co_finished := True\<rparr>)) rt;
              rt = (if co_finally_handlers x = [] then rt else coroutine_call_finally_handlers c rt);
              rt = mod_coroutine c (\<lambda>x. x\<lparr>co_waker_status := ZEND_ASYNC_WAKER_NO_STATUS, co_waker_error := None\<rparr>) rt;
              exception = (case exception of None \<Rightarrow> None
                           | Some e \<Rightarrow> if handled \<or> th_cancellation e then None else Some e)
          in
          (case (case (exception, co_scope x) of
                   (Some e, Some s) \<Rightarrow>
                     scope_catch_or_cancel n core env s (Some c) None (Some e)
                       (case rt_scopes rt s of None \<Rightarrow> False | Some y \<Rightarrow> sc_dispose_safely y) False rt
                 | _ \<Rightarrow> Some (rt, Exception_not_taken)) of
             None \<Rightarrow> None
           | Some (rt, caught) \<Rightarrow>
               (case async_scope_notify_coroutine_finished (dispose_if_possible n core env) n c rt of
                  None \<Rightarrow> None
                | Some rt \<Rightarrow>
                    let rt = coroutine_leave core c (mod_coroutine c (\<lambda>x. x\<lparr>co_scope := None\<rparr>) rt)
                    in Some (rt, if caught = Exception_taken \<or> \<not> unobserved then None else exception))))"

text \<open>
  The branch of \<^verbatim>\<open>async_coroutine_execute\<close> for a coroutine whose waker is ignored: it never runs.
  A cancelled one is finalised with the error of its waker; then its object is released, and
  \<open>last_ref\<close> says whether that was the last reference.
\<close>

definition coroutine_execute_ignored ::
  "nat \<Rightarrow> zend_core \<Rightarrow> runtime_env \<Rightarrow> nat \<Rightarrow> bool \<Rightarrow> bool \<Rightarrow> runtime \<Rightarrow> (runtime \<times> throwable option) option" where
  "coroutine_execute_ignored n core env c handled last_ref rt =
     (case rt_coroutines rt c of
        None \<Rightarrow> Some (rt, None)
      | Some x \<Rightarrow>
          (case (if co_cancelled x
                 then async_coroutine_finalize n core env c (co_waker_error x) handled last_ref
                        (mod_coroutine c (\<lambda>x. x\<lparr>co_waker_status := ZEND_ASYNC_WAKER_RESULT, co_waker_error := None\<rparr>) rt)
                 else Some (rt, None)) of
             None \<Rightarrow> None
           | Some (rt, thrown) \<Rightarrow>
               (if last_ref
                then map_option (\<lambda>rt. (rt, thrown)) (coroutine_object_destroy (dispose_if_possible n core env) n c rt)
                else Some (rt, thrown))))"

subsection \<open>The methods of \<^verbatim>\<open>Async\\Scope\<close>\<close>

text \<open>
  \<open>None\<close> for the scope is an object whose scope was disposed.  \<^verbatim>\<open>ZEND_ASYNC_SCOPE_CANCEL\<close> and
  \<^verbatim>\<open>ZEND_ASYNC_SCOPE_CLOSE\<close> call \<^verbatim>\<open>catch_or_cancel\<close> in cancellation mode, the latter without an
  exception.
\<close>

definition scope_cancel_method ::
  "nat \<Rightarrow> zend_core \<Rightarrow> runtime_env \<Rightarrow> nat option \<Rightarrow> throwable option \<Rightarrow> runtime \<Rightarrow> runtime option" where
  "scope_cancel_method n core env this cancellation rt =
     (case this of
        None \<Rightarrow> Some rt
      | Some s \<Rightarrow> map_option fst (scope_catch_or_cancel n core env s None None cancellation
          (case rt_scopes rt s of None \<Rightarrow> False | Some x \<Rightarrow> sc_dispose_safely x) True rt))"

definition scope_dispose_method ::
  "nat \<Rightarrow> zend_core \<Rightarrow> runtime_env \<Rightarrow> nat option \<Rightarrow> runtime \<Rightarrow> runtime option" where
  "scope_dispose_method n core env this rt =
     (case this of
        None \<Rightarrow> Some rt
      | Some s \<Rightarrow> map_option fst (scope_catch_or_cancel n core env s None None None
          (case rt_scopes rt s of None \<Rightarrow> False | Some x \<Rightarrow> sc_dispose_safely x) True rt))"

definition scope_disposeSafely_method ::
  "nat \<Rightarrow> zend_core \<Rightarrow> runtime_env \<Rightarrow> nat option \<Rightarrow> runtime \<Rightarrow> runtime option" where
  "scope_disposeSafely_method n core env this rt =
     (case this of
        None \<Rightarrow> Some rt
      | Some s \<Rightarrow> map_option fst (scope_catch_or_cancel n core env s None None None True True rt))"

definition scope_inherit ::
  "nat option option \<Rightarrow> nat option \<Rightarrow> nat option \<Rightarrow> runtime \<Rightarrow> runtime \<times> nat option" where
  "scope_inherit parent_object current_scope main_scope rt =
     (case parent_object of
        Some None \<Rightarrow>
          (rt_effect (Runtime_error ''Cannot inherit a Scope from a parent Scope that has already been disposed.'') rt, None)
      | Some (Some p) \<Rightarrow> (case async_new_scope (Some p) True rt of (rt, s) \<Rightarrow> (rt, Some s))
      | None \<Rightarrow>
          (let parent = (case current_scope of Some p \<Rightarrow> Some p | None \<Rightarrow> main_scope)
           in case async_new_scope parent True rt of (rt, s) \<Rightarrow>
                (if parent = None then mod_scope s (\<lambda>x. x\<lparr>sc_dispose_safely := True\<rparr>) rt else rt, Some s)))"

definition scope_asNotSafely :: "nat option \<Rightarrow> runtime \<Rightarrow> runtime" where
  "scope_asNotSafely this rt =
     (case this of
        None \<Rightarrow> rt_effect (Runtime_error ''Scope object has been disposed'') rt
      | Some s \<Rightarrow> mod_scope s (\<lambda>x. x\<lparr>sc_dispose_safely := False\<rparr>) rt)"

definition scope_allowZombies :: "nat option \<Rightarrow> runtime \<Rightarrow> runtime" where
  "scope_allowZombies this rt =
     (case this of
        None \<Rightarrow> rt_effect (Runtime_error ''Scope object has been disposed'') rt
      | Some s \<Rightarrow> mod_scope s (\<lambda>x. x\<lparr>sc_dispose_safely := True\<rparr>) rt)"

definition scope_isFinished :: "nat \<Rightarrow> zend_core \<Rightarrow> nat option \<Rightarrow> runtime \<Rightarrow> bool option" where
  "scope_isFinished n core this rt =
     (case this of
        None \<Rightarrow> Some True
      | Some s \<Rightarrow> scope_can_be_disposed n rt (fst (zc_completed core)) (snd (zc_completed core)) s)"

definition scope_isClosed :: "nat option \<Rightarrow> runtime \<Rightarrow> bool" where
  "scope_isClosed this rt =
     (case this of None \<Rightarrow> True | Some s \<Rightarrow> (case rt_scopes rt s of None \<Rightarrow> True | Some x \<Rightarrow> sc_closed x))"

definition scope_setExceptionHandler :: "nat option \<Rightarrow> runtime \<Rightarrow> runtime" where
  "scope_setExceptionHandler this rt =
     (case this of
        None \<Rightarrow> rt_effect (Runtime_error ''Scope object has been disposed'') rt
      | Some s \<Rightarrow> mod_scope s (\<lambda>x. x\<lparr>sc_exception_handler := True\<rparr>) rt)"

definition scope_setChildScopeExceptionHandler :: "nat option \<Rightarrow> runtime \<Rightarrow> runtime" where
  "scope_setChildScopeExceptionHandler this rt =
     (case this of
        None \<Rightarrow> rt_effect (Runtime_error ''Scope object has been disposed'') rt
      | Some s \<Rightarrow> mod_scope s (\<lambda>x. x\<lparr>sc_child_exception_handler := True\<rparr>) rt)"

definition scope_finally :: "nat option \<Rightarrow> nat \<Rightarrow> runtime \<Rightarrow> runtime" where
  "scope_finally this handler rt =
     (case this of
        None \<Rightarrow> rt_effect (Finally_called 0 [handler]) rt
      | Some s \<Rightarrow> mod_scope s (\<lambda>x. x\<lparr>sc_finally_handlers := sc_finally_handlers x @ [handler]\<rparr>) rt)"

text \<open>
  \<^verbatim>\<open>awaitCompletion()\<close> up to the suspension, and what it decides: return at once, throw, or wait for
  the event of the scope.
\<close>

datatype await_decision = Await_returns | Await_throws string | Await_suspends

definition scope_awaitCompletion :: "nat option \<Rightarrow> nat option \<Rightarrow> runtime \<Rightarrow> await_decision" where
  "scope_awaitCompletion this current rt =
     (case current of
        None \<Rightarrow> Await_returns
      | Some c \<Rightarrow>
          (case this of
             None \<Rightarrow> Await_returns
           | Some s \<Rightarrow>
               (case rt_scopes rt s of
                  None \<Rightarrow> Await_returns
                | Some x \<Rightarrow>
                    if sc_closed x then Await_returns
                    else if sc_cancelled x then Await_throws ''The scope has been cancelled''
                    else
                      (case async_scope_contains_coroutine rt s c 0 of (inside, too_deep) \<Rightarrow>
                         if inside
                         then Await_throws ''Cannot await completion of scope from a coroutine that belongs to the same scope or its children''
                         else if too_deep
                         then Await_throws ''Maximum recursion depth exceeded while checking coroutine containment''
                         else if sc_active x = 0 \<and> sc_children x = [] then Await_returns
                         else Await_suspends))))"

text \<open>The destructor of the PHP object: dispose the scope, or cancel what still runs in it.\<close>

definition scope_object_destroyed ::
  "nat \<Rightarrow> zend_core \<Rightarrow> runtime_env \<Rightarrow> nat \<Rightarrow> runtime \<Rightarrow> runtime option" where
  "scope_object_destroyed n core env s rt =
     (let rt = mod_scope s (\<lambda>x. x\<lparr>sc_has_object := False\<rparr>) rt in
      case scope_try_to_dispose n core env s rt of
        None \<Rightarrow> None
      | Some (rt, True) \<Rightarrow> Some rt
      | Some (rt, False) \<Rightarrow>
          map_option fst (scope_catch_or_cancel n core env s None None (Some \<lparr>th_cancellation = True, th_id = 2\<rparr>)
            (case rt_scopes rt s of None \<Rightarrow> False | Some x \<Rightarrow> sc_dispose_safely x) True rt))"

end
