(* ===== verification/Runtime_Invariant.thy ===== *)
theory Runtime_Invariant
  imports Scope
begin

text \<open>
  The invariant of the runtime and that its operations keep it: the ready queue holds exactly the
  coroutines whose wakers say so, each once; the counters of a scope are the numbers of its active
  and zombie coroutines; every coroutine that runs or is queued is registered; and parents are
  older than their children.
\<close>

subsection \<open>Definition\<close>

definition queued :: "coroutine \<Rightarrow> bool" where
  "queued x \<longleftrightarrow> co_waker_status x = ZEND_ASYNC_WAKER_QUEUED \<or> co_waker_status x = ZEND_ASYNC_WAKER_IGNORED"

definition zombie :: "runtime \<Rightarrow> nat \<Rightarrow> bool" where
  "zombie rt c = (case rt_coroutines rt c of Some x \<Rightarrow> co_zombie x | None \<Rightarrow> False)"

definition coroutine_inv :: "runtime \<Rightarrow> nat \<Rightarrow> coroutine \<Rightarrow> bool" where
  "coroutine_inv rt c x \<longleftrightarrow>
     c < rt_next_coroutine rt \<and>
     (queued x \<longleftrightarrow> c \<in> set (rt_queue rt)) \<and>
     (\<not> co_finished x \<and> (co_started x \<or> queued x) \<longrightarrow> c \<in> set (rt_coroutine_list rt)) \<and>
     (co_zombie x \<longrightarrow> co_started x) \<and>
     (co_finished x \<longrightarrow> \<not> queued x) \<and>
     (\<not> co_finished x \<longrightarrow> co_scope x \<noteq> None) \<and>
     (\<forall>s. co_scope x = Some s \<longrightarrow> s < rt_next_scope rt) \<and>
     (\<forall>s y. \<not> co_finished x \<and> co_scope x = Some s \<and> rt_scopes rt s = Some y \<longrightarrow> c \<in> set (sc_coroutines y))"

definition scope_inv :: "runtime \<Rightarrow> nat \<Rightarrow> async_scope \<Rightarrow> bool" where
  "scope_inv rt s x \<longleftrightarrow>
     s < rt_next_scope rt \<and>
     distinct (sc_coroutines x) \<and>
     (\<forall>c\<in>set (sc_coroutines x). \<exists>y. rt_coroutines rt c = Some y \<and> co_scope y = Some s) \<and>
     sc_active x = length (filter (\<lambda>c. \<not> zombie rt c) (sc_coroutines x)) \<and>
     sc_zombies x = length (filter (zombie rt) (sc_coroutines x)) \<and>
     length (sc_coroutines x) \<le> sc_capacity x \<and>
     (\<forall>t\<in>set (sc_children x). s < t \<and> t < rt_next_scope rt) \<and>
     (\<forall>p. sc_parent x = Some p \<longrightarrow> p < s)"

definition lists_inv :: "runtime \<Rightarrow> bool" where
  "lists_inv rt \<longleftrightarrow>
     distinct (rt_queue rt) \<and> distinct (rt_coroutine_list rt) \<and>
     (\<forall>c\<in>set (rt_queue rt) \<union> set (rt_coroutine_list rt). rt_coroutines rt c \<noteq> None) \<and>
     rt_coroutine_count rt \<le> int (length (filter (\<lambda>c. \<not> zombie rt c) (rt_coroutine_list rt)))"

definition runtime_inv :: "runtime \<Rightarrow> bool" where
  "runtime_inv rt \<longleftrightarrow>
     (\<forall>c x. rt_coroutines rt c = Some x \<longrightarrow> coroutine_inv rt c x) \<and>
     (\<forall>s x. rt_scopes rt s = Some x \<longrightarrow> scope_inv rt s x) \<and>
     lists_inv rt"

lemma runtime_invI:
  assumes "\<And>c x. rt_coroutines rt c = Some x \<Longrightarrow> coroutine_inv rt c x"
    and "\<And>s x. rt_scopes rt s = Some x \<Longrightarrow> scope_inv rt s x"
    and "lists_inv rt"
  shows "runtime_inv rt"
  using assms by (simp add: runtime_inv_def)

lemma runtime_invD:
  assumes "runtime_inv rt"
  shows "rt_coroutines rt c = Some x \<Longrightarrow> coroutine_inv rt c x"
    and "rt_scopes rt s = Some y \<Longrightarrow> scope_inv rt s y"
    and "lists_inv rt"
  using assms by (simp_all add: runtime_inv_def)

subsection \<open>Fields kept by the helpers\<close>

lemma mod_coroutine_fields [simp]:
  "rt_scopes (mod_coroutine c f rt) = rt_scopes rt"
  "rt_queue (mod_coroutine c f rt) = rt_queue rt"
  "rt_resumed (mod_coroutine c f rt) = rt_resumed rt"
  "rt_coroutine_list (mod_coroutine c f rt) = rt_coroutine_list rt"
  "rt_coroutine_count (mod_coroutine c f rt) = rt_coroutine_count rt"
  "rt_current (mod_coroutine c f rt) = rt_current rt"
  "rt_scheduler_context (mod_coroutine c f rt) = rt_scheduler_context rt"
  "rt_next_scope (mod_coroutine c f rt) = rt_next_scope rt"
  "rt_next_coroutine (mod_coroutine c f rt) = rt_next_coroutine rt"
  "rt_log (mod_coroutine c f rt) = rt_log rt"
  "rt_coroutines (mod_coroutine c f rt) d =
     (if d = c then map_option f (rt_coroutines rt c) else rt_coroutines rt d)"
  by (auto simp: mod_coroutine_def split: option.split)

lemma mod_scope_fields [simp]:
  "rt_coroutines (mod_scope s f rt) = rt_coroutines rt"
  "rt_queue (mod_scope s f rt) = rt_queue rt"
  "rt_resumed (mod_scope s f rt) = rt_resumed rt"
  "rt_coroutine_list (mod_scope s f rt) = rt_coroutine_list rt"
  "rt_coroutine_count (mod_scope s f rt) = rt_coroutine_count rt"
  "rt_current (mod_scope s f rt) = rt_current rt"
  "rt_scheduler_context (mod_scope s f rt) = rt_scheduler_context rt"
  "rt_next_scope (mod_scope s f rt) = rt_next_scope rt"
  "rt_next_coroutine (mod_scope s f rt) = rt_next_coroutine rt"
  "rt_log (mod_scope s f rt) = rt_log rt"
  "rt_scopes (mod_scope s f rt) t = (if t = s then map_option f (rt_scopes rt s) else rt_scopes rt t)"
  by (auto simp: mod_scope_def split: option.split)

lemma rt_effect_fields [simp]:
  "rt_coroutines (rt_effect e rt) = rt_coroutines rt"
  "rt_scopes (rt_effect e rt) = rt_scopes rt"
  "rt_queue (rt_effect e rt) = rt_queue rt"
  "rt_resumed (rt_effect e rt) = rt_resumed rt"
  "rt_coroutine_list (rt_effect e rt) = rt_coroutine_list rt"
  "rt_coroutine_count (rt_effect e rt) = rt_coroutine_count rt"
  "rt_current (rt_effect e rt) = rt_current rt"
  "rt_scheduler_context (rt_effect e rt) = rt_scheduler_context rt"
  "rt_next_scope (rt_effect e rt) = rt_next_scope rt"
  "rt_next_coroutine (rt_effect e rt) = rt_next_coroutine rt"
  "rt_log (rt_effect e rt) = rt_log rt @ [e]"
  by (simp_all add: rt_effect_def)

subsection \<open>Changes that do not matter\<close>

text \<open>The invariant reads only these fields.\<close>

lemma runtime_inv_cong:
  assumes "rt_coroutines rt' = rt_coroutines rt" and "rt_scopes rt' = rt_scopes rt"
    and "rt_queue rt' = rt_queue rt" and "rt_coroutine_list rt' = rt_coroutine_list rt"
    and "rt_coroutine_count rt' = rt_coroutine_count rt"
    and "rt_next_scope rt' = rt_next_scope rt" and "rt_next_coroutine rt' = rt_next_coroutine rt"
  shows "runtime_inv rt' \<longleftrightarrow> runtime_inv rt"
proof -
  have "zombie rt' = zombie rt" using assms(1) by (simp add: zombie_def fun_eq_iff)
  then show ?thesis
    using assms by (simp add: runtime_inv_def coroutine_inv_def scope_inv_def lists_inv_def)
qed

lemma effect_inv [simp]: "runtime_inv (rt_effect e rt) \<longleftrightarrow> runtime_inv rt"
  by (rule runtime_inv_cong) simp_all

lemma notify_inv [simp]: "runtime_inv (notify_scope s e rt) \<longleftrightarrow> runtime_inv rt"
  by (simp add: notify_scope_def)

lemma push_resumed_inv [simp]: "runtime_inv (push_resumed c rt) \<longleftrightarrow> runtime_inv rt"
  by (rule runtime_inv_cong) (simp_all add: push_resumed_def)

lemma current_inv [simp]: "runtime_inv (rt\<lparr>rt_current := c\<rparr>) \<longleftrightarrow> runtime_inv rt"
  by (rule runtime_inv_cong) simp_all

lemma context_inv [simp]: "runtime_inv (rt\<lparr>rt_scheduler_context := b\<rparr>) \<longleftrightarrow> runtime_inv rt"
  by (rule runtime_inv_cong) simp_all

text \<open>A change of a coroutine that keeps what the invariant reads of it.\<close>

definition coroutine_same :: "coroutine \<Rightarrow> coroutine \<Rightarrow> bool" where
  "coroutine_same x y \<longleftrightarrow> co_scope y = co_scope x \<and> co_zombie y = co_zombie x \<and> co_started y = co_started x \<and>
     co_finished y = co_finished x \<and> queued y = queued x"

lemma coroutine_same_refl [simp]: "coroutine_same x x"
  by (simp add: coroutine_same_def)

lemma coroutine_inv_cong:
  assumes "coroutine_inv rt c x" and "coroutine_same x y"
    and "rt_next_coroutine rt \<le> rt_next_coroutine rt'"
    and "c \<in> set (rt_queue rt') \<longleftrightarrow> c \<in> set (rt_queue rt)"
    and "c \<in> set (rt_coroutine_list rt') \<longleftrightarrow> c \<in> set (rt_coroutine_list rt)"
    and "\<And>s z'. co_scope x = Some s \<Longrightarrow> rt_scopes rt' s = Some z' \<Longrightarrow>
      \<exists>z. rt_scopes rt s = Some z \<and> (c \<in> set (sc_coroutines z) \<longrightarrow> c \<in> set (sc_coroutines z'))"
    and "rt_next_scope rt \<le> rt_next_scope rt'"
  shows "coroutine_inv rt' c y"
proof -
  have "c \<in> set (sc_coroutines z')" if "\<not> co_finished x" "co_scope x = Some s" "rt_scopes rt' s = Some z'" for s z'
    using assms(6) [OF that(2,3)] assms(1) that(1,2) unfolding coroutine_inv_def by blast
  with assms(1-5,7) show ?thesis
    unfolding coroutine_inv_def coroutine_same_def by (metis order_less_le_trans)
qed

lemma mod_coroutine_inv:
  assumes inv: "runtime_inv rt" and same: "\<And>x. rt_coroutines rt c = Some x \<Longrightarrow> coroutine_same x (f x)"
  shows "runtime_inv (mod_coroutine c f rt)"
proof -
  have z: "zombie (mod_coroutine c f rt) = zombie rt"
    using same by (auto simp: zombie_def coroutine_same_def fun_eq_iff split: option.split)
  show ?thesis
  proof (rule runtime_invI)
    fix d x assume d: "rt_coroutines (mod_coroutine c f rt) d = Some x"
    show "coroutine_inv (mod_coroutine c f rt) d x"
    proof (cases "d = c")
      case True
      with d obtain y where y: "rt_coroutines rt c = Some y" "x = f y" by auto
      with True show ?thesis
        by (auto intro: coroutine_inv_cong [OF runtime_invD(1) [OF inv y(1)] same [OF y(1)]])
    next
      case False
      with d have "rt_coroutines rt d = Some x" by simp
      from runtime_invD(1) [OF inv this] show ?thesis by (auto intro: coroutine_inv_cong)
    qed
  next
    fix s x assume "rt_scopes (mod_coroutine c f rt) s = Some x"
    then show "scope_inv (mod_coroutine c f rt) s x"
      using runtime_invD(2) [OF inv, of s x] same
      by (auto simp: scope_inv_def z coroutine_same_def)
  next
    show "lists_inv (mod_coroutine c f rt)"
      using runtime_invD(3) [OF inv] by (auto simp: lists_inv_def z)
  qed
qed

text \<open>The same for a scope: its coroutines and counters stay, and it stays a tree.\<close>

definition scope_same :: "runtime \<Rightarrow> nat \<Rightarrow> async_scope \<Rightarrow> async_scope \<Rightarrow> bool" where
  "scope_same rt s x y \<longleftrightarrow> sc_coroutines y = sc_coroutines x \<and> sc_active y = sc_active x \<and>
     sc_zombies y = sc_zombies x \<and> sc_capacity y = sc_capacity x \<and>
     (\<forall>t\<in>set (sc_children y). t \<in> set (sc_children x) \<or> s < t \<and> t < rt_next_scope rt) \<and>
     (sc_parent y = sc_parent x \<or> sc_parent y = None)"

lemma mod_scope_inv:
  assumes inv: "runtime_inv rt" and same: "\<And>x. rt_scopes rt s = Some x \<Longrightarrow> scope_same rt s x (f x)"
  shows "runtime_inv (mod_scope s f rt)"
proof -
  have z: "zombie (mod_scope s f rt) = zombie rt" by (simp add: zombie_def fun_eq_iff)
  show ?thesis
  proof (rule runtime_invI)
    fix d x assume "rt_coroutines (mod_scope s f rt) d = Some x"
    then show "coroutine_inv (mod_scope s f rt) d x"
      using same by (auto simp: scope_same_def intro!: coroutine_inv_cong [OF runtime_invD(1) [OF inv, of d x]]
          split: if_splits)
  next
    fix t x assume t: "rt_scopes (mod_scope s f rt) t = Some x"
    show "scope_inv (mod_scope s f rt) t x"
    proof (cases "t = s")
      case True
      with t obtain y where y: "rt_scopes rt s = Some y" "x = f y" by auto
      with same [OF y(1)] runtime_invD(2) [OF inv y(1)] True show ?thesis
        by (auto simp: scope_inv_def z scope_same_def)
    next
      case False
      with t runtime_invD(2) [OF inv, of t x] show ?thesis by (simp add: scope_inv_def z)
    qed
  next
    show "lists_inv (mod_scope s f rt)"
      using runtime_invD(3) [OF inv] by (simp add: lists_inv_def z)
  qed
qed

text \<open>Freeing a scope.\<close>

lemma free_scope_inv:
  assumes inv: "runtime_inv rt"
  shows "runtime_inv (rt\<lparr>rt_scopes := (rt_scopes rt)(s := None)\<rparr>)" (is "runtime_inv ?rt")
proof -
  have z: "zombie ?rt = zombie rt" by (simp add: zombie_def fun_eq_iff)
  show ?thesis
  proof (rule runtime_invI)
    fix d x assume "rt_coroutines ?rt d = Some x"
    then show "coroutine_inv ?rt d x"
      by (auto intro!: coroutine_inv_cong [OF runtime_invD(1) [OF inv, of d x]] split: if_splits)
  next
    fix t x assume "rt_scopes ?rt t = Some x"
    then show "scope_inv ?rt t x"
      using runtime_invD(2) [OF inv, of t x] by (simp add: scope_inv_def z split: if_splits)
  next
    show "lists_inv ?rt" using runtime_invD(3) [OF inv] by (simp add: lists_inv_def z)
  qed
qed


subsection \<open>The queue\<close>

lemma set_status_fields [simp]:
  "rt_scopes (set_status c st rt) = rt_scopes rt"
  "rt_queue (set_status c st rt) = rt_queue rt"
  "rt_coroutine_list (set_status c st rt) = rt_coroutine_list rt"
  "rt_coroutine_count (set_status c st rt) = rt_coroutine_count rt"
  "rt_current (set_status c st rt) = rt_current rt"
  "rt_scheduler_context (set_status c st rt) = rt_scheduler_context rt"
  "rt_next_scope (set_status c st rt) = rt_next_scope rt"
  "rt_next_coroutine (set_status c st rt) = rt_next_coroutine rt"
  "rt_coroutines (set_status c st rt) d =
     (if d = c then map_option (\<lambda>x. x\<lparr>co_waker_status := st\<rparr>) (rt_coroutines rt c) else rt_coroutines rt d)"
  by (simp_all add: set_status_def)

lemma zombie_fields [simp]:
  "zombie (set_status c st rt) = zombie rt"
  "zombie (mod_scope s f rt) = zombie rt"
  "zombie (rt_effect e rt) = zombie rt"
  "zombie (rt\<lparr>rt_queue := q\<rparr>) = zombie rt"
  "zombie (rt\<lparr>rt_coroutine_list := l\<rparr>) = zombie rt"
  "zombie (rt\<lparr>rt_coroutine_count := n\<rparr>) = zombie rt"
  by (auto simp: zombie_def fun_eq_iff split: option.split)

text \<open>A change of the waker's state together with the matching change of the queue.\<close>

lemma requeue_inv:
  assumes inv: "runtime_inv rt" and c: "rt_coroutines rt c = Some x"
    and q: "distinct q" "set q = (if queued (x\<lparr>co_waker_status := st\<rparr>) then insert c (set (rt_queue rt)) else set (rt_queue rt) - {c})"
    and reg: "queued (x\<lparr>co_waker_status := st\<rparr>) \<Longrightarrow> \<not> co_finished x \<and> c \<in> set (rt_coroutine_list rt)"
  shows "runtime_inv (set_status c st (rt\<lparr>rt_queue := q\<rparr>))" (is "runtime_inv ?rt")
proof (rule runtime_invI)
  fix d y assume d: "rt_coroutines ?rt d = Some y"
  show "coroutine_inv ?rt d y"
  proof (cases "d = c")
    case True
    with d c have y: "y = x\<lparr>co_waker_status := st\<rparr>" by simp
    then have "c \<in> set q \<longleftrightarrow> queued y" using q(2) by auto
    with True y reg show ?thesis
      using runtime_invD(1) [OF inv c] by (auto simp: coroutine_inv_def)
  next
    case False
    with d have "rt_coroutines rt d = Some y" by simp
    moreover have "d \<in> set q \<longleftrightarrow> d \<in> set (rt_queue rt)" using False q(2) by auto
    ultimately show ?thesis by (auto intro: coroutine_inv_cong [OF runtime_invD(1) [OF inv]])
  qed
next
  fix s y assume "rt_scopes ?rt s = Some y"
  then have y: "scope_inv rt s y" using runtime_invD(2) [OF inv] by simp
  have "\<exists>z. rt_coroutines ?rt d = Some z \<and> co_scope z = Some s" if "d \<in> set (sc_coroutines y)" for d
    using y that by (auto simp: scope_inv_def)
  with y show "scope_inv ?rt s y" by (simp add: scope_inv_def)
next
  have "rt_coroutines rt c \<noteq> None" using c by simp
  with q runtime_invD(3) [OF inv] show "lists_inv ?rt"
    by (auto simp: lists_inv_def split: if_splits)
qed


definition register_coroutine :: "nat \<Rightarrow> runtime \<Rightarrow> runtime" where
  "register_coroutine c rt =
     rt\<lparr>rt_coroutine_list := rt_coroutine_list rt @ [c], rt_coroutine_count := rt_coroutine_count rt + 1\<rparr>"

lemma zombie_register [simp]: "zombie (register_coroutine c rt) = zombie rt"
  by (simp add: zombie_def fun_eq_iff register_coroutine_def)

lemma register_inv:
  assumes inv: "runtime_inv rt" and c: "rt_coroutines rt c = Some x"
    and new: "c \<notin> set (rt_coroutine_list rt)" and x: "\<not> co_finished x" "\<not> co_started x"
  shows "runtime_inv (register_coroutine c rt)"
proof (rule runtime_invI)
  fix d y assume "rt_coroutines (register_coroutine c rt) d = Some y"
  then have d: "rt_coroutines rt d = Some y" by (simp add: register_coroutine_def)
  show "coroutine_inv (register_coroutine c rt) d y"
    using runtime_invD(1) [OF inv d] c d x by (auto simp: coroutine_inv_def register_coroutine_def)
next
  fix s y assume "rt_scopes (register_coroutine c rt) s = Some y"
  then show "scope_inv (register_coroutine c rt) s y"
    using runtime_invD(2) [OF inv, of s y] by (simp add: scope_inv_def) (simp add: register_coroutine_def)
next
  have "\<not> zombie rt c" using runtime_invD(1) [OF inv c] x c by (auto simp: coroutine_inv_def zombie_def)
  then show "lists_inv (register_coroutine c rt)"
    using runtime_invD(3) [OF inv] new c by (auto simp: lists_inv_def register_coroutine_def)
qed

lemma queued_iff:
  assumes "runtime_inv rt" and "rt_coroutines rt c = Some x"
  shows "c \<in> set (rt_queue rt) \<longleftrightarrow> queued x"
  using runtime_invD(1) [OF assms] by (simp add: coroutine_inv_def)

lemma core_in_queue: "core_ok core \<Longrightarrow> zc_in_queue core (co_waker_status x) \<longleftrightarrow> queued x"
  by (simp add: core_ok_def queued_def)

lemma push_queued_inv:
  assumes inv: "runtime_inv rt" and c: "rt_coroutines rt c = Some x" and x: "\<not> queued x" "\<not> co_finished x"
    and reg: "c \<in> set (rt_coroutine_list rt)"
  shows "runtime_inv (set_status c ZEND_ASYNC_WAKER_QUEUED (push_queue c rt))"
  unfolding push_queue_def
  using assms runtime_invD(3) [OF inv] queued_iff [OF inv c]
  by (intro requeue_inv [OF inv c]) (auto simp: queued_def lists_inv_def)

lemma enqueue_inv:
  assumes core: "core_ok core" and inv: "runtime_inv rt" and c: "rt_coroutines rt c = Some x"
    and x: "\<not> co_finished x"
  shows "runtime_inv (fst (async_scheduler_coroutine_enqueue core c rt))"
proof (cases "queued x")
  case True
  with core c inv show ?thesis by (simp add: async_scheduler_coroutine_enqueue_def core_in_queue)
next
  case new: False
  have scope: "co_scope x \<noteq> None" using runtime_invD(1) [OF inv c] x by (auto simp: coroutine_inv_def)
  show ?thesis
  proof (cases "\<not> co_started x \<and> c \<notin> set (rt_coroutine_list rt)")
    case True
    then have "runtime_inv (register_coroutine c rt)"
      using register_inv [OF inv c] x by simp
    then have "runtime_inv (set_status c ZEND_ASYNC_WAKER_QUEUED (push_queue c (register_coroutine c rt)))"
      using c new x by (intro push_queued_inv) (auto simp: register_coroutine_def)
    moreover have "set_status c ZEND_ASYNC_WAKER_QUEUED (push_queue c (register_coroutine c rt)) =
        register_coroutine c (set_status c ZEND_ASYNC_WAKER_QUEUED (push_queue c rt))"
      using c by (simp add: register_coroutine_def push_queue_def set_status_def mod_coroutine_def)
    moreover have "fst (async_scheduler_coroutine_enqueue core c rt) =
        push_resumed c (register_coroutine c (set_status c ZEND_ASYNC_WAKER_QUEUED (push_queue c rt)))"
      using True new scope c core
      by (auto simp: async_scheduler_coroutine_enqueue_def core_in_queue Let_def register_coroutine_def
          push_queue_def)
    ultimately show ?thesis by simp
  next
    case False
    then have reg: "c \<in> set (rt_coroutine_list rt)"
      using runtime_invD(1) [OF inv c] x by (auto simp: coroutine_inv_def)
    from push_queued_inv [OF inv c new x reg] False new c core show ?thesis
      by (auto simp: async_scheduler_coroutine_enqueue_def core_in_queue Let_def push_queue_def)
  qed
qed

lemma set_result_inv:
  assumes inv: "runtime_inv rt" and c: "rt_coroutines rt c = Some x" and x: "\<not> queued x"
    and st: "\<not> queued (x\<lparr>co_waker_status := st\<rparr>)"
  shows "runtime_inv (set_status c st rt)"
  unfolding set_status_def
  using runtime_invD(1) [OF inv c] c x st by (intro mod_coroutine_inv [OF inv]) (simp add: coroutine_same_def)

lemma waker_error_inv:
  assumes "runtime_inv rt"
  shows "runtime_inv (mod_coroutine c (\<lambda>x. x\<lparr>co_waker_error := f x\<rparr>) rt)"
  using assms by (rule mod_coroutine_inv) (simp add: coroutine_same_def queued_def)

lemma resume_inv:
  assumes inv: "runtime_inv rt" and c: "rt_coroutines rt c = Some x"
    and x: "\<not> co_finished x" "co_started x" "co_waker_status x \<noteq> ZEND_ASYNC_WAKER_IGNORED"
  shows "runtime_inv (fst (async_coroutine_resume c error rt))"
proof -
  let ?rt = "mod_coroutine c (\<lambda>x. x\<lparr>co_waker_error := merge_waker_error (co_waker_error x) error\<rparr>) rt"
  let ?x = "x\<lparr>co_waker_error := merge_waker_error (co_waker_error x) error\<rparr>"
  have inv': "runtime_inv ?rt" by (rule waker_error_inv [OF inv])
  have c': "rt_coroutines ?rt c = Some ?x" using c by simp
  have reg: "c \<in> set (rt_coroutine_list ?rt)"
    using runtime_invD(1) [OF inv c] x by (auto simp: coroutine_inv_def)
  show ?thesis
  proof (cases "co_waker_status x = ZEND_ASYNC_WAKER_QUEUED")
    case True
    with c inv inv' show ?thesis by (simp add: async_coroutine_resume_def Let_def)
  next
    case False
    with x(3) have new: "\<not> queued ?x" by (simp add: queued_def)
    have "runtime_inv (set_status c ZEND_ASYNC_WAKER_RESULT ?rt)"
      by (rule set_result_inv [OF inv' c' new]) (simp add: queued_def)
    moreover have "runtime_inv (set_status c ZEND_ASYNC_WAKER_QUEUED (push_queue c ?rt))"
      using push_queued_inv [OF inv' c' new _ reg] x by simp
    ultimately show ?thesis
      using c inv False by (simp add: async_coroutine_resume_def Let_def)
  qed
qed


subsection \<open>Zombies and cancellation\<close>

lemma filter_insert_length:
  assumes "distinct xs" and "c \<in> set xs" and "\<not> P c" and "\<And>d. d \<noteq> c \<Longrightarrow> Q d = P d" and "Q c"
  shows "length (filter Q xs) = Suc (length (filter P xs))"
    and "Suc (length (filter (\<lambda>d. \<not> Q d) xs)) = length (filter (\<lambda>d. \<not> P d) xs)"
proof -
  have other: "filter Q ys = filter P ys" "filter (\<lambda>d. \<not> Q d) ys = filter (\<lambda>d. \<not> P d) ys"
    if "c \<notin> set ys" for ys
    using that assms(4) by (induction ys) auto
  obtain ys zs where "xs = ys @ c # zs" "c \<notin> set ys" "c \<notin> set zs"
    using assms(1,2) by (metis distinct.simps(2) distinct_append not_distinct_conv_prefix split_list_first)
  with other assms(3,5) show "length (filter Q xs) = Suc (length (filter P xs))"
    "Suc (length (filter (\<lambda>d. \<not> Q d) xs)) = length (filter (\<lambda>d. \<not> P d) xs)" by simp_all
qed

lemma filter_outside:
  assumes "c \<notin> set xs" and "\<And>d. d \<noteq> c \<Longrightarrow> Q d = P d"
  shows "filter Q xs = filter P xs"
  using assms by (induction xs) auto

definition become_zombie :: "nat \<Rightarrow> nat \<Rightarrow> runtime \<Rightarrow> runtime" where
  "become_zombie c s rt =
     mod_scope s (\<lambda>x. if 0 < sc_active x
       then x\<lparr>sc_active := sc_active x - 1, sc_zombies := sc_zombies x + 1\<rparr> else x)
       (mod_coroutine c (\<lambda>x. x\<lparr>co_zombie := True\<rparr>) rt)"

lemma zombie_become:
  assumes "rt_coroutines rt c = Some x"
  shows "zombie (become_zombie c s rt) = (\<lambda>d. d = c \<or> zombie rt d)"
  using assms by (auto simp: zombie_def become_zombie_def fun_eq_iff split: option.split)

lemma become_zombie_scope:
  assumes inv: "runtime_inv rt" and c: "rt_coroutines rt c = Some x"
    and x: "\<not> co_zombie x" "co_scope x = Some s" "\<not> co_finished x" and t: "rt_scopes (become_zombie c s rt) t = Some y"
  shows "scope_inv (become_zombie c s rt) t y"
proof -
  note z = zombie_become [OF c, of s]
  have nz: "\<not> zombie rt c" using c x by (simp add: zombie_def)
  have live: "\<exists>y. rt_coroutines (become_zombie c s rt) d = Some y \<and> co_scope y = Some t"
    if "\<exists>y. rt_coroutines rt d = Some y \<and> co_scope y = Some t" for d
    using that by (auto simp: become_zombie_def)
  have next_eq: "rt_next_scope (become_zombie c s rt) = rt_next_scope rt" by (simp add: become_zombie_def)
  show ?thesis
  proof (cases "t = s")
    case True
    then obtain w where w: "rt_scopes rt s = Some w" using t by (auto simp: become_zombie_def)
    note wi = runtime_invD(2) [OF inv w]
    have mem: "c \<in> set (sc_coroutines w)"
      using runtime_invD(1) [OF inv c] w x(2,3) by (auto simp: coroutine_inv_def)
    have "length (filter (\<lambda>d. d = c \<or> zombie rt d) (sc_coroutines w)) = Suc (sc_zombies w)"
      "Suc (length (filter (\<lambda>d. \<not> (d = c \<or> zombie rt d)) (sc_coroutines w))) = sc_active w"
      using filter_insert_length [of "sc_coroutines w" c "zombie rt" "\<lambda>d. d = c \<or> zombie rt d"] wi mem nz
      by (simp_all add: scope_inv_def)
    moreover from this have "y = w\<lparr>sc_active := sc_active w - 1, sc_zombies := sc_zombies w + 1\<rparr>"
      using t w True by (simp add: become_zombie_def split: if_splits)
    ultimately show ?thesis
      using wi True live unfolding scope_inv_def z next_eq by auto
  next
    case False
    then have y: "rt_scopes rt t = Some y" using t by (simp add: become_zombie_def)
    note yi = runtime_invD(2) [OF inv y]
    have "c \<notin> set (sc_coroutines y)" using yi c x(2) False by (auto simp: scope_inv_def)
    then have "filter (\<lambda>d. d = c \<or> zombie rt d) (sc_coroutines y) = filter (zombie rt) (sc_coroutines y)"
      "filter (\<lambda>d. \<not> (d = c \<or> zombie rt d)) (sc_coroutines y) = filter (\<lambda>d. \<not> zombie rt d) (sc_coroutines y)"
      by (auto intro!: filter_outside)
    with yi live show ?thesis unfolding scope_inv_def z next_eq by auto
  qed
qed

lemma decrease_count: "core_ok core \<Longrightarrow> if 0 < k then zc_decrease_count core k = k - 1 else zc_decrease_count core k \<le> 0"
  by (simp add: core_ok_def)

lemma become_zombie_inv:
  assumes core: "core_ok core" and inv: "runtime_inv rt" and c: "rt_coroutines rt c = Some x"
    and x: "\<not> co_finished x" "co_started x" "\<not> co_zombie x" "co_scope x = Some s"
  shows "runtime_inv ((become_zombie c s rt)\<lparr>rt_coroutine_count := zc_decrease_count core (rt_coroutine_count rt)\<rparr>)"
    (is "runtime_inv ?rt")
proof (rule runtime_invI)
  have z: "zombie ?rt = (\<lambda>d. d = c \<or> zombie rt d)" using zombie_become [OF c, of s] by simp
  {
    fix d y assume d: "rt_coroutines ?rt d = Some y"
    then obtain y0 where y0: "rt_coroutines rt d = Some y0" "y = (if d = c then y0\<lparr>co_zombie := True\<rparr> else y0)"
      by (auto simp: become_zombie_def split: if_splits)
    have same: "rt_next_coroutine ?rt = rt_next_coroutine rt" "rt_queue ?rt = rt_queue rt"
        "rt_coroutine_list ?rt = rt_coroutine_list rt" "rt_next_scope ?rt = rt_next_scope rt"
      by (simp_all add: become_zombie_def)
    have vec: "\<exists>v. rt_scopes rt t = Some v \<and> (e \<in> set (sc_coroutines v) \<longrightarrow> e \<in> set (sc_coroutines v'))"
      if "rt_scopes ?rt t = Some v'" for t v' e
      using that by (auto simp: become_zombie_def split: if_splits)
    show "coroutine_inv ?rt d y"
    proof (cases "d = c")
      case True
      have "coroutine_inv ?rt d y0"
        using vec by (intro coroutine_inv_cong [OF runtime_invD(1) [OF inv y0(1)] coroutine_same_refl]) (simp_all add: same)
      moreover have "co_started y0" using True y0(1) c x by simp
      ultimately show ?thesis using True y0(2) by (simp add: coroutine_inv_def queued_def) blast
    next
      case False
      then show ?thesis using vec y0
        by (intro coroutine_inv_cong [OF runtime_invD(1) [OF inv y0(1)]]) (simp_all add: same)
    qed
  next
    fix t y assume t: "rt_scopes ?rt t = Some y"
    then have "scope_inv (become_zombie c s rt) t y"
      using become_zombie_scope [OF inv c x(3,4,1)] by simp
    then show "scope_inv ?rt t y" by (simp add: scope_inv_def)
  next
    have reg: "c \<in> set (rt_coroutine_list rt)" "distinct (rt_coroutine_list rt)" "\<not> zombie rt c"
      using runtime_invD(1) [OF inv c] runtime_invD(3) [OF inv] x c
      by (auto simp: coroutine_inv_def lists_inv_def zombie_def)
    then have "Suc (length (filter (\<lambda>d. \<not> (d = c \<or> zombie rt d)) (rt_coroutine_list rt))) =
        length (filter (\<lambda>d. \<not> zombie rt d) (rt_coroutine_list rt))"
      by (intro filter_insert_length(2)) auto
    then show "lists_inv ?rt"
      using runtime_invD(3) [OF inv] decrease_count [OF core, of "rt_coroutine_count rt"]
      unfolding lists_inv_def z by (auto simp: become_zombie_def split: if_splits)
  }
qed

text \<open>The completion check only writes to the log.\<close>

lemma check_completion_log:
  "scope_check_completion_and_notify n wz s rt = Some rt' \<Longrightarrow> \<exists>l. rt' = rt\<lparr>rt_log := l\<rparr>"
proof (induction n arbitrary: s rt)
  case (Suc n)
  have "\<exists>l. notify_scope s None rt = rt\<lparr>rt_log := l\<rparr>" by (auto simp: notify_scope_def rt_effect_def)
  then obtain l where l: "notify_scope s None rt = rt\<lparr>rt_log := l\<rparr>" by blast
  show ?case
  proof (cases "scope_can_be_disposed (Suc n) rt wz False s")
    case None
    with Suc.prems show ?thesis by (simp del: scope_can_be_disposed.simps)
  next
    case (Some b)
    then show ?thesis
    proof (cases b)
      case False
      with Some Suc.prems show ?thesis
        by (intro exI [of _ "rt_log rt"]) (simp del: scope_can_be_disposed.simps)
    next
      case True
      show ?thesis
      proof (cases "Option.bind (rt_scopes rt s) sc_parent")
        case None
        with True Some Suc.prems have "rt' = notify_scope s None rt"
          by (auto simp: Let_def bind_eq_None_conv simp del: scope_can_be_disposed.simps split: option.splits)
        with l show ?thesis by blast
      next
        case (Some p)
        then have "scope_check_completion_and_notify n wz p (rt\<lparr>rt_log := l\<rparr>) = Some rt'"
          using True \<open>scope_can_be_disposed (Suc n) rt wz False s = Some b\<close> Suc.prems l
          by (auto simp: Let_def bind_eq_Some_conv simp del: scope_can_be_disposed.simps)
        with Suc.IH show ?thesis by fastforce
      qed
    qed
  qed
qed simp

lemma runtime_log_inv [simp]: "runtime_inv (rt\<lparr>rt_log := l\<rparr>) \<longleftrightarrow> runtime_inv rt"
  by (rule runtime_inv_cong) simp_all

lemma decrement_inv:
  assumes core: "core_ok core" and inv: "runtime_inv rt"
  shows "runtime_inv (rt\<lparr>rt_coroutine_count := zc_decrease_count core (rt_coroutine_count rt)\<rparr>)" (is "runtime_inv ?rt")
proof (rule runtime_invI)
  fix d y assume "rt_coroutines ?rt d = Some y"
  then show "coroutine_inv ?rt d y"
    by (auto intro!: coroutine_inv_cong [OF runtime_invD(1) [OF inv]])
next
  fix t y assume "rt_scopes ?rt t = Some y"
  then show "scope_inv ?rt t y" using runtime_invD(2) [OF inv, of t y] by (simp add: scope_inv_def)
next
  show "lists_inv ?rt"
    using runtime_invD(3) [OF inv] decrease_count [OF core, of "rt_coroutine_count rt"]
    by (auto simp: lists_inv_def split: if_splits)
qed

lemma mark_zombie_inv:
  assumes core: "core_ok core" and inv: "runtime_inv rt" and c: "rt_coroutines rt c = Some x"
    and x: "\<not> co_finished x" "co_started x" and mark: "async_scope_mark_coroutine_zombie n c rt = Some rt'"
  shows "runtime_inv (rt'\<lparr>rt_coroutine_count := zc_decrease_count core (rt_coroutine_count rt')\<rparr>)"
proof (cases "co_zombie x")
  case True
  with c mark decrement_inv [OF core inv] show ?thesis by (simp add: async_scope_mark_coroutine_zombie_def)
next
  case False
  obtain s where s: "co_scope x = Some s"
    using runtime_invD(1) [OF inv c] x by (auto simp: coroutine_inv_def)
  then obtain l where "rt' = (become_zombie c s rt)\<lparr>rt_log := l\<rparr>"
    using mark c False check_completion_log
    by (fastforce simp: async_scope_mark_coroutine_zombie_def become_zombie_def Let_def)
  moreover have "rt_coroutine_count (become_zombie c s rt) = rt_coroutine_count rt"
    by (simp add: become_zombie_def)
  moreover have "runtime_inv ((become_zombie c s rt)\<lparr>rt_log := l, rt_coroutine_count := zc_decrease_count core (rt_coroutine_count rt)\<rparr>)"
    using become_zombie_inv [OF core inv c x False s] by (subst runtime_inv_cong) simp_all
  ultimately show ?thesis by simp
qed


lemma cancelled_flag_inv:
  assumes "runtime_inv rt"
  shows "runtime_inv (mod_coroutine c (\<lambda>x. x\<lparr>co_cancelled := b\<rparr>) rt)"
  using assms by (rule mod_coroutine_inv) (simp add: coroutine_same_def queued_def)

lemma enqueue_status:
  assumes "core_ok core" and "rt_coroutines rt c = Some x" and "co_scope x \<noteq> None"
  shows "rt_coroutines (fst (async_scheduler_coroutine_enqueue core c rt)) c =
    Some (if queued x then x else x\<lparr>co_waker_status := ZEND_ASYNC_WAKER_QUEUED\<rparr>)"
  using assms by (auto simp: async_scheduler_coroutine_enqueue_def core_in_queue Let_def push_resumed_def push_queue_def)

lemma enqueue_queued:
  "core_ok core \<Longrightarrow> rt_coroutines rt c = Some y \<Longrightarrow> queued y \<Longrightarrow>
   async_scheduler_coroutine_enqueue core c rt = (rt, True)"
  by (simp add: async_scheduler_coroutine_enqueue_def core_in_queue)

lemma ignore_inv:
  assumes core: "core_ok core" and inv: "runtime_inv rt" and c: "rt_coroutines rt c = Some x"
    and x: "\<not> co_finished x"
  shows "runtime_inv (set_status c ZEND_ASYNC_WAKER_IGNORED
    (if zc_in_queue core (co_waker_status x) then rt else fst (async_scheduler_coroutine_enqueue core c rt)))"
    (is "runtime_inv (set_status c _ ?rt)")
proof -
  have scope: "co_scope x \<noteq> None" using runtime_invD(1) [OF inv c] x by (auto simp: coroutine_inv_def)
  have inv': "runtime_inv ?rt" using inv enqueue_inv [OF core inv c x] by simp
  obtain x' where x': "rt_coroutines ?rt c = Some x'" "queued x'"
  proof (cases "queued x")
    case True
    with c core that show ?thesis by (simp add: core_in_queue)
  next
    case False
    with enqueue_status [OF core c scope] core that show ?thesis by (simp add: core_in_queue queued_def)
  qed
  then show ?thesis
    unfolding set_status_def by (intro mod_coroutine_inv [OF inv']) (auto simp: coroutine_same_def queued_def)
qed

lemma cancel_inv:
  assumes core: "core_ok core" and inv: "runtime_inv rt"
    and cancel: "async_coroutine_cancel core n c error is_safely rt = Some (rt', r)"
  shows "runtime_inv rt'"
proof (cases "rt_coroutines rt c")
  case None
  with inv cancel show ?thesis by (simp add: async_coroutine_cancel_def)
next
  case c: (Some x)
  let ?flagged = "mod_coroutine c (\<lambda>x. x\<lparr>co_cancelled := True\<rparr>) rt"
  let ?x = "x\<lparr>co_cancelled := True\<rparr>"
  let ?e = "case error of Some e \<Rightarrow> e | None \<Rightarrow> coroutine_cancelled"
  let ?apply = "mod_coroutine c (\<lambda>x. x\<lparr>co_waker_error := Some (zc_apply_cancellation core (co_waker_error x) ?e)\<rparr>)"
  have inv1: "runtime_inv ?flagged" by (rule cancelled_flag_inv [OF inv])
  have c1: "rt_coroutines ?flagged c = Some ?x" using c by simp
  consider (finished) "co_finished x"
    | (running) "\<not> co_finished x" "rt_current rt = Some c" "co_waker_status x \<noteq> ZEND_ASYNC_WAKER_WAITING"
    | (protected) "\<not> co_finished x" "\<not> (rt_current rt = Some c \<and> co_waker_status x \<noteq> ZEND_ASYNC_WAKER_WAITING)"
        "co_protected x"
    | (waiting) "\<not> co_finished x" "\<not> (rt_current rt = Some c \<and> co_waker_status x \<noteq> ZEND_ASYNC_WAKER_WAITING)"
        "\<not> co_protected x"
    by blast
  then show ?thesis
  proof cases
    case finished
    with inv c cancel show ?thesis by (simp add: async_coroutine_cancel_def)
  next
    case running
    with c cancel have "rt' = mod_coroutine c (\<lambda>x. x\<lparr>co_cancelled := True,
        co_exception := (case co_exception x of Some e \<Rightarrow> Some e | None \<Rightarrow> Some ?e)\<rparr>) rt"
      by (simp add: async_coroutine_cancel_def)
    then show ?thesis
      using inv by (auto intro!: mod_coroutine_inv simp: coroutine_same_def queued_def)
  next
    case protected
    with c cancel have "rt' = mod_coroutine c (\<lambda>x. x\<lparr>co_deferred_cancellation :=
        (case co_deferred_cancellation x of Some d \<Rightarrow> Some d | None \<Rightarrow> Some ?e)\<rparr>) rt"
      by (auto simp: async_coroutine_cancel_def Let_def)
    then show ?thesis
      using inv by (auto intro!: mod_coroutine_inv simp: coroutine_same_def queued_def)
  next
    case waiting
    let ?ignored = "?apply (set_status c ZEND_ASYNC_WAKER_IGNORED
      (if zc_in_queue core (co_waker_status x) then ?flagged else fst (async_scheduler_coroutine_enqueue core c ?flagged)))"
    consider (new) "\<not> co_started x" | (safe) "co_started x" "is_safely" | (hard) "co_started x" "\<not> is_safely"
      by blast
    then show ?thesis
    proof cases
      case new
      have ign: "runtime_inv ?ignored"
        using ignore_inv [OF core inv1 c1] waiting(1) by (intro waker_error_inv) simp
      have "rt' = fst (async_scheduler_coroutine_enqueue core c ?ignored)"
        using waiting new c cancel by (auto simp: async_coroutine_cancel_def Let_def)
      moreover obtain y where y: "rt_coroutines ?ignored c = Some y" "queued y"
      proof -
        have "co_scope ?x \<noteq> None" using runtime_invD(1) [OF inv1 c1] waiting(1) by (auto simp: coroutine_inv_def)
        then show ?thesis
          using enqueue_status [OF core c1] c1 that by (auto simp: queued_def split: if_splits)
      qed
      ultimately have "rt' = ?ignored"
        using enqueue_queued [OF core y] by (simp only: fst_conv)
      with ign show ?thesis by simp
    next
      case safe
      then obtain rt1 where "async_scope_mark_coroutine_zombie n c ?flagged = Some rt1"
          "rt' = rt1\<lparr>rt_coroutine_count := zc_decrease_count core (rt_coroutine_count rt1)\<rparr>"
        using waiting c cancel by (auto simp: async_coroutine_cancel_def Let_def)
      with mark_zombie_inv [OF core inv1 c1] waiting(1) safe show ?thesis by simp
    next
      case hard
      have inv2: "runtime_inv (?apply ?flagged)" by (rule waker_error_inv [OF inv1])
      have c2: "\<exists>y. rt_coroutines (?apply ?flagged) c = Some y \<and> \<not> co_finished y"
        using c waiting(1) by simp
      have "rt' = fst (async_scheduler_coroutine_enqueue core c ?flagged) \<or>
          rt' = fst (async_scheduler_coroutine_enqueue core c (?apply ?flagged))"
        using waiting hard c cancel by (auto simp: async_coroutine_cancel_def Let_def split: if_splits)
      then show ?thesis
        using enqueue_inv [OF core inv1 c1] enqueue_inv [OF core inv2] c2 waiting(1) by auto
    qed
  qed
qed


subsection \<open>New coroutines and scopes\<close>

lemma fresh_coroutine_id:
  assumes inv: "runtime_inv rt"
  shows "rt_coroutines rt (rt_next_coroutine rt) = None"
    and "rt_next_coroutine rt \<notin> set (rt_queue rt)"
    and "rt_next_coroutine rt \<notin> set (rt_coroutine_list rt)"
    and "rt_scopes rt s = Some x \<Longrightarrow> rt_next_coroutine rt \<notin> set (sc_coroutines x)"
proof -
  show none: "rt_coroutines rt (rt_next_coroutine rt) = None"
    using runtime_invD(1) [OF inv, of "rt_next_coroutine rt"]
    by (cases "rt_coroutines rt (rt_next_coroutine rt)") (auto simp: coroutine_inv_def)
  show "rt_next_coroutine rt \<notin> set (rt_queue rt)" "rt_next_coroutine rt \<notin> set (rt_coroutine_list rt)"
    using runtime_invD(3) [OF inv] none unfolding lists_inv_def by blast+
  show "rt_scopes rt s = Some x \<Longrightarrow> rt_next_coroutine rt \<notin> set (sc_coroutines x)"
    using runtime_invD(2) [OF inv, of s x] none by (auto simp: scope_inv_def)
qed

text \<open>The new coroutine with its scope already set, which is what the two steps amount to.\<close>

lemma new_coroutine_eq:
  assumes "runtime_inv rt" and "async_new_coroutine (Some s) rt = (rt', c)"
  shows "c = rt_next_coroutine rt"
    and "rt_coroutines rt' = (rt_coroutines rt)(c \<mapsto> fresh_coroutine\<lparr>co_scope := Some s\<rparr>)"
    and "rt_scopes rt' t = (if t = s then map_option (\<lambda>x. x\<lparr>sc_coroutines := sc_coroutines x @ [c],
       sc_active := sc_active x + 1,
       sc_capacity := (let cap = (if sc_capacity x = 0 then 4 else sc_capacity x)
         in if length (sc_coroutines x) = cap then cap * 2 else cap)\<rparr>) (rt_scopes rt s) else rt_scopes rt t)"
    and "rt_queue rt' = rt_queue rt" "rt_coroutine_list rt' = rt_coroutine_list rt"
      "rt_coroutine_count rt' = rt_coroutine_count rt" "rt_next_scope rt' = rt_next_scope rt"
      "rt_next_coroutine rt' = Suc c" "rt_log rt' = rt_log rt"
  using assms(2)
  by (auto simp: async_new_coroutine_def async_scope_add_coroutine_def Let_def fresh_coroutine_def fun_eq_iff
      intro!: map_option_cong)

lemma new_coroutine_inv:
  assumes inv: "runtime_inv rt" and new: "async_new_coroutine (Some s) rt = (rt', c)"
    and s: "s < rt_next_scope rt"
  shows "runtime_inv rt'"
proof -
  note eq = new_coroutine_eq [OF inv new] and fresh = fresh_coroutine_id [OF inv]
  have z: "zombie rt' = zombie rt"
    using fresh(1) by (auto simp: zombie_def eq(1,2) fun_eq_iff fresh_coroutine_def split: option.split)
  have nz: "\<not> zombie rt c" using fresh(1) by (simp add: zombie_def eq(1))
  show ?thesis
  proof (rule runtime_invI)
    fix d x assume d: "rt_coroutines rt' d = Some x"
    show "coroutine_inv rt' d x"
    proof (cases "d = c")
      case True
      with d have x: "x = fresh_coroutine\<lparr>co_scope := Some s\<rparr>" by (simp add: eq(2))
      have "c \<in> set (sc_coroutines y)" if "rt_scopes rt' s = Some y" for y
        using that by (auto simp: eq(3))
      with True x fresh(2,3) s show ?thesis
        by (simp add: coroutine_inv_def eq(1,4-9) fresh_coroutine_def queued_def)
    next
      case False
      with d have "rt_coroutines rt d = Some x" by (simp add: eq(2))
      note y = runtime_invD(1) [OF inv this]
      show ?thesis
      proof (rule coroutine_inv_cong [OF y coroutine_same_refl])
        fix t z' assume "rt_scopes rt' t = Some z'"
        then show "\<exists>z. rt_scopes rt t = Some z \<and> (d \<in> set (sc_coroutines z) \<longrightarrow> d \<in> set (sc_coroutines z'))"
          by (auto simp: eq(3) split: if_splits)
      qed (simp_all add: eq(1,4-9))
    qed
  next
    fix t x assume t: "rt_scopes rt' t = Some x"
    show "scope_inv rt' t x"
    proof (cases "t = s")
      case True
      with t obtain y where y: "rt_scopes rt s = Some y" by (auto simp: eq(3))
      note yi = runtime_invD(2) [OF inv y]
      have "c \<notin> set (sc_coroutines y)" using fresh(4) [OF y] by (simp add: eq(1))
      with t True y yi nz show ?thesis
        by (auto simp: scope_inv_def eq(2-8) z Let_def split: if_splits)
    next
      case False
      with t have y: "rt_scopes rt t = Some x" by (simp add: eq(3))
      with runtime_invD(2) [OF inv y] fresh(4) [OF y] show ?thesis
        by (auto simp: scope_inv_def eq(2-8) z) (use eq(1) in auto)
    qed
  next
    show "lists_inv rt'"
      using runtime_invD(3) [OF inv] by (auto simp: lists_inv_def eq(2-8) z)
  qed
qed

end
