(* ===== verification/Scope_Invariant.thy ===== *)
theory Scope_Invariant
  imports Runtime_Invariant
begin

text \<open>
  The operations of \<^verbatim>\<open>src/scope.c\<close> and the end of a coroutine keep the invariant of the runtime, and
  the recursions over the tree of scopes come to an end: with a bound on the depth that is a
  multiple of the number of scopes they always return.  While a recursion runs, handlers may add
  scopes; those are leaves without handlers, which is what the bound rests on.
\<close>

subsection \<open>New coroutines and scopes\<close>

lemma enqueue_new_inv:
  assumes inv: "runtime_inv rt" and c: "rt_coroutines rt c = Some x"
    and x: "\<not> co_finished x" "\<not> co_started x" "\<not> queued x" and new: "c \<notin> set (rt_coroutine_list rt)"
  shows "runtime_inv (enqueue_new priority c rt)"
proof -
  let ?q = "if 0 < priority then c # rt_queue rt else rt_queue rt @ [c]"
  let ?r = "register_coroutine c rt"
  have r: "runtime_inv ?r" by (rule register_inv [OF inv c new x(1,2)])
  have cr: "rt_coroutines ?r c = Some x" "rt_queue ?r = rt_queue rt" "c \<in> set (rt_coroutine_list ?r)"
    using c by (simp_all add: register_coroutine_def)
  have "distinct (rt_queue rt)" "c \<notin> set (rt_queue rt)"
    using runtime_invD(3) [OF inv] queued_iff [OF inv c] x(3) by (auto simp: lists_inv_def)
  then have "runtime_inv (set_status c ZEND_ASYNC_WAKER_QUEUED (?r\<lparr>rt_queue := ?q\<rparr>))"
    using x(1) by (intro requeue_inv [OF r cr(1)]) (auto simp: queued_def cr(2,3))
  moreover have "set_status c ZEND_ASYNC_WAKER_QUEUED (?r\<lparr>rt_queue := ?q\<rparr>) = enqueue_new priority c rt"
    using c by (simp add: enqueue_new_def register_coroutine_def set_status_def mod_coroutine_def)
  ultimately show ?thesis by simp
qed

lemma enqueue_new_fields [simp]:
  "rt_scopes (enqueue_new p c rt) = rt_scopes rt"
  "rt_next_scope (enqueue_new p c rt) = rt_next_scope rt"
  "rt_next_coroutine (enqueue_new p c rt) = rt_next_coroutine rt"
  "rt_current (enqueue_new p c rt) = rt_current rt"
  "rt_scheduler_context (enqueue_new p c rt) = rt_scheduler_context rt"
  by (simp_all add: enqueue_new_def Let_def)

lemma started_inv:
  assumes inv: "runtime_inv rt" and new: "async_new_coroutine (Some s) rt = (rt', c)"
    and s: "s < rt_next_scope rt"
  shows "runtime_inv (enqueue_new p c rt')"
proof -
  note eq = new_coroutine_eq [OF inv new]
  show ?thesis
    by (rule enqueue_new_inv [OF new_coroutine_inv [OF inv new s]])
      (use fresh_coroutine_id [OF inv] in \<open>auto simp: eq fresh_coroutine_def queued_def\<close>)
qed

lemma fresh_scope_id: "runtime_inv rt \<Longrightarrow> rt_scopes rt (rt_next_scope rt) = None"
  using runtime_invD(2) [of rt "rt_next_scope rt"] by (cases "rt_scopes rt (rt_next_scope rt)") (auto simp: scope_inv_def)

lemma scope_id_bound: "runtime_inv rt \<Longrightarrow> rt_scopes rt s = Some x \<Longrightarrow> s < rt_next_scope rt"
  using runtime_invD(2) [of rt s x] by (simp add: scope_inv_def)

lemma insert_scope_inv:
  assumes inv: "runtime_inv rt" and x: "sc_coroutines x = []" "sc_children x = []" "sc_active x = 0" "sc_zombies x = 0"
    and p: "\<And>p. sc_parent x = Some p \<Longrightarrow> p < rt_next_scope rt"
  shows "runtime_inv (rt\<lparr>rt_scopes := (rt_scopes rt)(rt_next_scope rt \<mapsto> x), rt_next_scope := Suc (rt_next_scope rt)\<rparr>)"
    (is "runtime_inv ?rt")
proof (rule runtime_invI)
  have z: "zombie ?rt = zombie rt" by (simp add: zombie_def fun_eq_iff)
  {
    fix c y assume "rt_coroutines ?rt c = Some y"
    then have y: "coroutine_inv rt c y" using runtime_invD(1) [OF inv] by simp
    show "coroutine_inv ?rt c y"
    proof (rule coroutine_inv_cong [OF y coroutine_same_refl])
      fix s z' assume s: "co_scope y = Some s" "rt_scopes ?rt s = Some z'"
      have "s \<noteq> rt_next_scope rt" using y s(1) by (auto simp: coroutine_inv_def)
      with s(2) show "\<exists>z. rt_scopes rt s = Some z \<and> (c \<in> set (sc_coroutines z) \<longrightarrow> c \<in> set (sc_coroutines z'))"
        by simp
    qed simp_all
  next
    fix s y assume "rt_scopes ?rt s = Some y"
    then consider "s = rt_next_scope rt" "y = x" | "rt_scopes rt s = Some y"
      by (cases "s = rt_next_scope rt") simp_all
    then show "scope_inv ?rt s y"
    proof cases
      case 1
      with x p show ?thesis by (simp add: scope_inv_def)
    next
      case 2
      from runtime_invD(2) [OF inv this] show ?thesis by (auto simp: scope_inv_def z)
    qed
  next
    show "lists_inv ?rt" using runtime_invD(3) [OF inv] by (simp add: lists_inv_def z)
  }
qed

lemma new_scope_eq:
  assumes "async_new_scope parent obj rt = (rt', s)" and "parent \<noteq> Some s"
  shows "s = rt_next_scope rt" and "rt_next_scope rt' = Suc s"
    and "rt_coroutines rt' = rt_coroutines rt" and "rt_current rt' = rt_current rt"
    and "\<exists>x. rt_scopes rt' s = Some x \<and> sc_children x = [] \<and> sc_finally_handlers x = [] \<and> sc_coroutines x = [] \<and>
       sc_parent x = parent"
    and "t \<noteq> s \<Longrightarrow> rt_scopes rt' t = (if parent = Some t
      then map_option (\<lambda>x. x\<lparr>sc_children := sc_children x @ [s]\<rparr>) (rt_scopes rt t) else rt_scopes rt t)"
  using assms by (auto simp: async_new_scope_def Let_def split: option.splits)

lemma new_scope_inv:
  assumes inv: "runtime_inv rt" and new: "async_new_scope parent obj rt = (rt', s)"
    and p: "\<And>p. parent = Some p \<Longrightarrow> p < rt_next_scope rt"
  shows "runtime_inv rt'"
proof -
  define x where "x = \<lparr>sc_parent = parent, sc_children = [], sc_coroutines = [], sc_capacity = 0,
     sc_active = 0, sc_zombies = 0, sc_closed = False, sc_cancelled = False, sc_disposing = False,
     sc_dispose_safely = (case parent of None \<Rightarrow> \<not> obj
       | Some p \<Rightarrow> (case rt_scopes rt p of None \<Rightarrow> False | Some x \<Rightarrow> sc_dispose_safely x)), sc_owner_pinned = False,
     sc_bailout = False, sc_has_object = obj, sc_refcount = 1, sc_exception_handler = False,
     sc_child_exception_handler = False, sc_finally_handlers = []\<rparr>"
  let ?rt = "rt\<lparr>rt_scopes := (rt_scopes rt)(rt_next_scope rt \<mapsto> x), rt_next_scope := Suc (rt_next_scope rt)\<rparr>"
  have rt: "runtime_inv ?rt" using p by (intro insert_scope_inv [OF inv]) (simp_all add: x_def)
  have eq: "rt' = (case parent of None \<Rightarrow> ?rt
      | Some p \<Rightarrow> mod_scope p (\<lambda>x. x\<lparr>sc_children := sc_children x @ [rt_next_scope rt]\<rparr>) ?rt)"
    using new by (cases parent) (auto simp: async_new_scope_def Let_def x_def)
  show ?thesis
  proof (cases parent)
    case None
    with eq rt show ?thesis by simp
  next
    case (Some q)
    have "runtime_inv (mod_scope q (\<lambda>x. x\<lparr>sc_children := sc_children x @ [rt_next_scope rt]\<rparr>) ?rt)"
      using p [OF Some] by (intro mod_scope_inv [OF rt]) (simp add: scope_same_def)
    with Some eq show ?thesis by simp
  qed
qed


subsection \<open>States in which a recursion runs\<close>

text \<open>Scopes from \<open>B\<close> on were added meanwhile and are leaves without handlers.\<close>

definition late_scope :: "nat \<Rightarrow> async_scope \<Rightarrow> bool" where
  "late_scope B x \<longleftrightarrow> sc_children x = [] \<and> sc_finally_handlers x = [] \<and> (\<forall>p. sc_parent x = Some p \<longrightarrow> p < B)"

definition settled :: "nat \<Rightarrow> runtime \<Rightarrow> bool" where
  "settled B rt \<longleftrightarrow> runtime_inv rt \<and> B \<le> rt_next_scope rt \<and>
     (\<forall>t x. B \<le> t \<and> rt_scopes rt t = Some x \<longrightarrow> late_scope B x)"

lemma settledI:
  assumes "runtime_inv rt" and "B \<le> rt_next_scope rt"
    and "\<And>t x. B \<le> t \<Longrightarrow> rt_scopes rt t = Some x \<Longrightarrow> late_scope B x"
  shows "settled B rt"
  using assms by (auto simp: settled_def)

lemma settledD:
  assumes "settled B rt"
  shows "runtime_inv rt" and "B \<le> rt_next_scope rt"
    and "B \<le> t \<Longrightarrow> rt_scopes rt t = Some x \<Longrightarrow> late_scope B x"
  using assms by (auto simp: settled_def)

lemma settled_parent:
  assumes "settled B rt" and "rt_scopes rt s = Some x" and "sc_parent x = Some p"
  shows "p < s" and "p < B"
  using runtime_invD(2) [OF settledD(1) [OF assms(1)] assms(2)] settledD(3) [OF assms(1), of s x] assms(2,3)
  by (auto simp: scope_inv_def late_scope_def) (meson leI order.strict_trans)

lemma settled_child:
  assumes "settled B rt" and "rt_scopes rt s = Some x" and "t \<in> set (sc_children x)"
  shows "s < t" and "s < B"
  using runtime_invD(2) [OF settledD(1) [OF assms(1)] assms(2)] settledD(3) [OF assms(1), of s x] assms(2,3)
  by (auto simp: scope_inv_def late_scope_def) (metis empty_iff list.set(1) not_le)

lemma settled_start: "runtime_inv rt \<Longrightarrow> settled (rt_next_scope rt) rt"
  using scope_id_bound by (fastforce simp: settled_def)

lemma settled_cong:
  assumes "settled B rt" and "runtime_inv rt'" and "rt_scopes rt' = rt_scopes rt" and "rt_next_scope rt' = rt_next_scope rt"
  shows "settled B rt'"
  using assms by (simp add: settled_def)

lemma settled_effect [simp]: "settled B (rt_effect e rt) \<longleftrightarrow> settled B rt"
  by (simp add: settled_def)

lemma settled_notify [simp]: "settled B (notify_scope s e rt) \<longleftrightarrow> settled B rt"
  by (simp add: notify_scope_def)

lemma settled_log [simp]: "settled B (rt\<lparr>rt_log := l\<rparr>) \<longleftrightarrow> settled B rt"
  by (simp add: settled_def)

lemma settled_mod_scope:
  assumes "settled B rt"
    and "\<And>x. rt_scopes rt s = Some x \<Longrightarrow> scope_same rt s x (f x)"
    and "\<And>x. rt_scopes rt s = Some x \<Longrightarrow> late_scope B x \<Longrightarrow> late_scope B (f x)"
  shows "settled B (mod_scope s f rt)"
  using assms mod_scope_inv [OF settledD(1) [OF assms(1)] assms(2)] unfolding settled_def by auto

lemma settled_keep:
  assumes rt: "settled B rt" and "\<And>x. sc_coroutines (f x) = sc_coroutines x" "\<And>x. sc_children (f x) = sc_children x"
    and "\<And>x. sc_active (f x) = sc_active x" "\<And>x. sc_zombies (f x) = sc_zombies x"
    and "\<And>x. sc_capacity (f x) = sc_capacity x"
    and "\<And>x. sc_parent (f x) = sc_parent x \<or> sc_parent (f x) = None"
    and hs: "\<And>x. sc_finally_handlers (f x) = sc_finally_handlers x \<or> sc_finally_handlers (f x) = []"
  shows "settled B (mod_scope s f rt)"
proof (rule settled_mod_scope [OF rt])
  show "scope_same rt s x (f x)" for x using assms(2-7) by (simp add: scope_same_def)
  show "late_scope B (f x)" if "late_scope B x" for x
    using that assms(3,7) [of x] hs [of x] by (auto simp: late_scope_def)
qed

text \<open>Changes of a scope that touch neither its members nor its place in the tree.\<close>

lemma settled_flags [intro]:
  assumes "settled B rt"
  shows "settled B (mod_scope s (\<lambda>x. x\<lparr>sc_closed := b\<rparr>) rt)"
    and "settled B (mod_scope s (\<lambda>x. x\<lparr>sc_cancelled := b\<rparr>) rt)"
    and "settled B (mod_scope s (\<lambda>x. x\<lparr>sc_disposing := b\<rparr>) rt)"
    and "settled B (mod_scope s (\<lambda>x. x\<lparr>sc_has_object := b\<rparr>) rt)"
    and "settled B (mod_scope s (\<lambda>x. x\<lparr>sc_dispose_safely := b\<rparr>) rt)"
    and "settled B (mod_scope s (\<lambda>x. x\<lparr>sc_refcount := n x, sc_disposing := b\<rparr>) rt)"
    and "settled B (mod_scope s (\<lambda>x. x\<lparr>sc_refcount := n x\<rparr>) rt)"
    and "settled B (mod_scope s (\<lambda>x. x\<lparr>sc_parent := None\<rparr>) rt)"
    and "settled B (mod_scope s (\<lambda>x. x\<lparr>sc_finally_handlers := []\<rparr>) rt)"
  by (rule settled_keep [OF assms]; simp)+

lemma settled_new_coroutine:
  assumes "settled B rt" and "async_new_coroutine (Some s) rt = (rt', c)" and "s < rt_next_scope rt"
  shows "settled B (enqueue_new p c rt')"
proof -
  note eq = new_coroutine_eq [OF settledD(1) [OF assms(1)] assms(2)]
  show ?thesis
  proof (rule settledI)
    show "runtime_inv (enqueue_new p c rt')" by (rule started_inv [OF settledD(1) [OF assms(1)] assms(2,3)])
    show "B \<le> rt_next_scope (enqueue_new p c rt')" using settledD(2) [OF assms(1)] by (simp add: eq(7))
    fix t x assume t: "B \<le> t" "rt_scopes (enqueue_new p c rt') t = Some x"
    then obtain y where "rt_scopes rt t = Some y" "sc_children x = sc_children y"
        "sc_finally_handlers x = sc_finally_handlers y" "sc_parent x = sc_parent y"
      by (cases "t = s") (auto simp: eq(3))
    with settledD(3) [OF assms(1) t(1)] show "late_scope B x" by (simp add: late_scope_def)
  qed
qed

lemma settled_new_scope:
  assumes "settled B rt" and "async_new_scope (Some s) obj rt = (rt', t)" and "s < B"
  shows "settled B rt'" and "t < rt_next_scope rt'"
proof -
  have s: "s < rt_next_scope rt" using assms(3) settledD(2) [OF assms(1)] by simp
  then have new: "s \<noteq> t" using assms(2) by (auto simp: async_new_scope_def Let_def)
  note eq = new_scope_eq [OF assms(2)]
  show "settled B rt'"
  proof (rule settledI)
    show "runtime_inv rt'" using new_scope_inv [OF settledD(1) [OF assms(1)] assms(2)] s by simp
    show "B \<le> rt_next_scope rt'" using eq(1,2) new settledD(2) [OF assms(1)] by simp
    fix u x assume u: "B \<le> u" "rt_scopes rt' u = Some x"
    show "late_scope B x"
    proof (cases "u = t")
      case True
      with u eq(5) new assms(3) show ?thesis by (auto simp: late_scope_def)
    next
      case False
      with u eq(6) [of u] new assms(3) settledD(3) [OF assms(1) u(1)] show ?thesis by auto
    qed
  qed
  show "t < rt_next_scope rt'" using eq(2) new by simp
qed

subsection \<open>What stays of a coroutine\<close>

text \<open>A coroutine that needs no further cancellation.\<close>

definition told :: "coroutine \<Rightarrow> bool" where
  "told x \<longleftrightarrow> co_finished x \<or> co_cancelled x \<or> co_deferred_cancellation x \<noteq> None"

definition coroutine_frame :: "coroutine \<Rightarrow> coroutine \<Rightarrow> bool" where
  "coroutine_frame x y \<longleftrightarrow> co_finished y = co_finished x \<and> co_scope y = co_scope x \<and> (told x \<longrightarrow> told y)"

definition frame :: "runtime \<Rightarrow> runtime \<Rightarrow> bool" where
  "frame rt rt' \<longleftrightarrow>
     (\<forall>c x. rt_coroutines rt c = Some x \<longrightarrow> (\<exists>y. rt_coroutines rt' c = Some y \<and> coroutine_frame x y)) \<and>
     (\<forall>c s y. rt_coroutines rt c \<noteq> None \<and> rt_scopes rt' s = Some y \<and> c \<in> set (sc_coroutines y) \<longrightarrow>
        (\<exists>z. rt_scopes rt s = Some z \<and> c \<in> set (sc_coroutines z)))"

lemma frameI:
  assumes "\<And>c x. rt_coroutines rt c = Some x \<Longrightarrow> \<exists>y. rt_coroutines rt' c = Some y \<and> coroutine_frame x y"
    and "\<And>c s x y. rt_coroutines rt c = Some x \<Longrightarrow> rt_scopes rt' s = Some y \<Longrightarrow> c \<in> set (sc_coroutines y) \<Longrightarrow>
       \<exists>z. rt_scopes rt s = Some z \<and> c \<in> set (sc_coroutines z)"
  shows "frame rt rt'"
  using assms unfolding frame_def by blast

lemma frameD:
  assumes "frame rt rt'" and "rt_coroutines rt c = Some x"
  shows "\<exists>y. rt_coroutines rt' c = Some y \<and> coroutine_frame x y"
    and "rt_scopes rt' s = Some y \<Longrightarrow> c \<in> set (sc_coroutines y) \<Longrightarrow> \<exists>z. rt_scopes rt s = Some z \<and> c \<in> set (sc_coroutines z)"
  using assms unfolding frame_def by blast+

lemma coroutine_frame_refl [simp]: "coroutine_frame x x"
  by (simp add: coroutine_frame_def)

lemma coroutine_frame_trans: "coroutine_frame x y \<Longrightarrow> coroutine_frame y z \<Longrightarrow> coroutine_frame x z"
  by (simp add: coroutine_frame_def)

lemma frame_refl [simp]: "frame rt rt"
  by (rule frameI) auto

lemma frame_trans [trans]:
  assumes "frame a b" and "frame b c"
  shows "frame a c"
proof (rule frameI)
  fix k x assume k: "rt_coroutines a k = Some x"
  then obtain y where y: "rt_coroutines b k = Some y" "coroutine_frame x y" using frameD(1) [OF assms(1)] by blast
  with frameD(1) [OF assms(2) y(1)] coroutine_frame_trans
  show "\<exists>y. rt_coroutines c k = Some y \<and> coroutine_frame x y" by blast
  fix s z assume "rt_scopes c s = Some z" "k \<in> set (sc_coroutines z)"
  with frameD(2) [OF assms(2) y(1)] frameD(2) [OF assms(1) k]
  show "\<exists>z. rt_scopes a s = Some z \<and> k \<in> set (sc_coroutines z)" by blast
qed

lemma frame_same:
  assumes "rt_coroutines rt' = rt_coroutines rt"
    and "\<And>s y. rt_scopes rt' s = Some y \<Longrightarrow> sc_coroutines y = [] \<or> (\<exists>z. rt_scopes rt s = Some z \<and> sc_coroutines y = sc_coroutines z)"
  shows "frame rt rt'"
  using assms by (intro frameI) fastforce+

lemma frame_effect [simp]: "frame rt (rt_effect e rt)"
  by (rule frame_same) simp_all

lemma frame_notify [simp]: "frame rt (notify_scope s e rt)"
  by (simp add: notify_scope_def)

lemma frame_log [simp]: "frame rt (rt\<lparr>rt_log := l\<rparr>)"
  by (rule frame_same) simp_all

lemma frame_mod_scope:
  assumes "\<And>x. sc_coroutines (f x) = sc_coroutines x"
  shows "frame rt (mod_scope s f rt)"
  using assms by (intro frame_same) (auto split: if_splits)

lemma frame_mod_coroutine:
  assumes "\<And>x. rt_coroutines rt c = Some x \<Longrightarrow> coroutine_frame x (f x)"
  shows "frame rt (mod_coroutine c f rt)"
  using assms by (intro frameI) auto

lemma frame_free_scope: "frame rt (rt\<lparr>rt_scopes := (rt_scopes rt)(s := None)\<rparr>)"
  by (rule frame_same) (auto split: if_splits)

lemma frame_new_coroutine:
  assumes inv: "runtime_inv rt" and new: "async_new_coroutine (Some s) rt = (rt', c)"
  shows "frame rt (enqueue_new p c rt')"
proof (rule frameI)
  note eq = new_coroutine_eq [OF inv new] and fresh = fresh_coroutine_id [OF inv]
  fix d x assume d: "rt_coroutines rt d = Some x"
  then have dc: "d \<noteq> c" using fresh(1) by (auto simp: eq(1))
  with d show "\<exists>y. rt_coroutines (enqueue_new p c rt') d = Some y \<and> coroutine_frame x y"
    by (simp add: enqueue_new_def Let_def eq(2))
  fix t y assume "rt_scopes (enqueue_new p c rt') t = Some y" "d \<in> set (sc_coroutines y)"
  with dc show "\<exists>z. rt_scopes rt t = Some z \<and> d \<in> set (sc_coroutines z)"
    by (cases "t = s") (auto simp: eq(3))
qed

lemma frame_new_scope:
  assumes "async_new_scope (Some p) obj rt = (rt', s)" and "p < rt_next_scope rt"
  shows "frame rt rt'"
proof (rule frame_same)
  have "p \<noteq> s" using assms by (auto simp: async_new_scope_def Let_def)
  note eq = new_scope_eq [OF assms(1)]
  show "rt_coroutines rt' = rt_coroutines rt" using eq(3) \<open>p \<noteq> s\<close> by simp
  fix t y assume t: "rt_scopes rt' t = Some y"
  show "sc_coroutines y = [] \<or> (\<exists>z. rt_scopes rt t = Some z \<and> sc_coroutines y = sc_coroutines z)"
  proof (cases "t = s")
    case True
    with eq(5) t \<open>p \<noteq> s\<close> show ?thesis by auto
  next
    case False
    with eq(6) [of t] t \<open>p \<noteq> s\<close> show ?thesis by (cases "rt_scopes rt t") (auto split: if_splits)
  qed
qed


text \<open>A part of a recursion: it keeps the state settled and what stays of the coroutines.\<close>

definition grows :: "nat \<Rightarrow> runtime \<Rightarrow> runtime \<Rightarrow> bool" where
  "grows B rt rt' \<longleftrightarrow> settled B rt' \<and> frame rt rt'"

lemma growsD: "grows B rt rt' \<Longrightarrow> settled B rt'" "grows B rt rt' \<Longrightarrow> frame rt rt'"
  by (simp_all add: grows_def)

lemma grows_refl: "settled B rt \<Longrightarrow> grows B rt rt"
  by (simp add: grows_def)

lemma grows_trans [trans]: "grows B a b \<Longrightarrow> grows B b c \<Longrightarrow> grows B a c"
  using frame_trans by (auto simp: grows_def)

lemma grows_notify: "settled B rt \<Longrightarrow> grows B rt (notify_scope s e rt)"
  by (simp add: grows_def)

lemma grows_flags:
  assumes "settled B rt"
  shows "grows B rt (mod_scope s (\<lambda>x. x\<lparr>sc_closed := b\<rparr>) rt)"
    and "grows B rt (mod_scope s (\<lambda>x. x\<lparr>sc_cancelled := b\<rparr>) rt)"
    and "grows B rt (mod_scope s (\<lambda>x. x\<lparr>sc_disposing := b\<rparr>) rt)"
    and "grows B rt (mod_scope s (\<lambda>x. x\<lparr>sc_has_object := b\<rparr>) rt)"
    and "grows B rt (mod_scope s (\<lambda>x. x\<lparr>sc_dispose_safely := b\<rparr>) rt)"
    and "grows B rt (mod_scope s (\<lambda>x. x\<lparr>sc_refcount := n x, sc_disposing := b\<rparr>) rt)"
    and "grows B rt (mod_scope s (\<lambda>x. x\<lparr>sc_refcount := n x\<rparr>) rt)"
    and "grows B rt (mod_scope s (\<lambda>x. x\<lparr>sc_parent := None\<rparr>) rt)"
    and "grows B rt (mod_scope s (\<lambda>x. x\<lparr>sc_finally_handlers := []\<rparr>) rt)"
  by (simp_all add: grows_def settled_flags [OF assms] frame_mod_scope)

lemma grows_new_coroutine:
  assumes "settled B rt" and "async_new_coroutine (Some s) rt = (rt', c)" and "s < rt_next_scope rt"
  shows "grows B rt (enqueue_new p c rt')"
  using settled_new_coroutine [OF assms] frame_new_coroutine [OF settledD(1) [OF assms(1)] assms(2)]
  by (simp add: grows_def)

lemma grows_new_scope:
  assumes "settled B rt" and "async_new_scope (Some s) obj rt = (rt', t)" and "s < B"
  shows "grows B rt rt'" and "t < rt_next_scope rt'"
  using settled_new_scope [OF assms] frame_new_scope [OF assms(2)] settledD(2) [OF assms(1)] assms(3)
  by (simp_all add: grows_def)

lemma grows_call_finally:
  assumes "settled B rt" and "s < B"
  shows "grows B rt (async_call_finally_handlers s rt)"
proof -
  obtain rt1 t where new: "async_new_scope (Some s) False rt = (rt1, t)" by fastforce
  obtain rt2 c where co: "async_new_coroutine (Some t) rt1 = (rt2, c)" by fastforce
  note 1 = grows_new_scope [OF assms(1) new assms(2)]
  note 2 = grows_new_coroutine [OF growsD(1) [OF 1(1)] co 1(2), of 1]
  note 3 = grows_flags(7) [OF growsD(1) [OF 2], of s "\<lambda>x. sc_refcount x + 1"]
  from grows_trans [OF 1(1) grows_trans [OF 2 3]] show ?thesis
    using new co by (simp add: async_call_finally_handlers_def)
qed

lemma grows_scope_finally:
  assumes "settled B rt"
  shows "grows B rt (fst (async_scope_call_finally_handlers env s rt))"
    and "snd (async_scope_call_finally_handlers env s rt) \<Longrightarrow> s < B"
proof -
  consider "rt_scopes rt s = None \<or> (\<exists>x. rt_scopes rt s = Some x \<and> sc_finally_handlers x = [])"
    | x where "rt_scopes rt s = Some x" "sc_finally_handlers x \<noteq> []"
    by (cases "rt_scopes rt s") auto
  then have "grows B rt (fst (async_scope_call_finally_handlers env s rt)) \<and>
      (snd (async_scope_call_finally_handlers env s rt) \<longrightarrow> s < B)"
  proof cases
    case 1
    with grows_refl [OF assms] show ?thesis by (auto simp: async_scope_call_finally_handlers_def)
  next
    case (2 x)
    then have s: "s < B"
      using settledD(3) [OF assms, of s x] by (auto simp: late_scope_def intro: leI)
    let ?rt = "mod_scope s (\<lambda>x. x\<lparr>sc_finally_handlers := []\<rparr>) rt"
    let ?rt' = "rt_effect (Finally_called s (sc_finally_handlers x)) ?rt"
    note 1 = grows_flags(9) [OF assms, of s]
    have eff: "grows B ?rt ?rt'" using growsD(1) [OF 1] by (simp add: grows_def)
    note fin = grows_trans [OF 1 grows_trans [OF eff grows_call_finally [OF growsD(1) [OF eff] s]]]
    with 1 s 2 show ?thesis by (simp add: async_scope_call_finally_handlers_def Let_def)
  qed
  then show "grows B rt (fst (async_scope_call_finally_handlers env s rt))"
    "snd (async_scope_call_finally_handlers env s rt) \<Longrightarrow> s < B" by auto
qed

lemma grows_spawn_and_throw:
  assumes "settled B rt" and "s < B"
  shows "grows B rt (async_spawn_and_throw p s rt)"
proof -
  define r where "r = (case rt_scopes rt s of None \<Rightarrow> (rt, s)
    | Some x \<Rightarrow> if sc_cancelled x \<or> sc_closed x then async_new_scope (Some s) False rt else (rt, s))"
  obtain rt1 t where rt1: "r = (rt1, t)" by fastforce
  have 1: "grows B rt rt1 \<and> t < rt_next_scope rt1"
    using rt1 assms settledD(2) [OF assms(1)] grows_new_scope [OF assms(1) _ assms(2)] grows_refl [OF assms(1)]
    by (auto simp: r_def split: option.splits if_splits)
  obtain rt2 c where co: "async_new_coroutine (Some t) rt1 = (rt2, c)" by fastforce
  from grows_new_coroutine [OF growsD(1) co, of B rt p] 1 have "grows B rt1 (enqueue_new p c rt2)" by blast
  with 1 have "grows B rt (enqueue_new p c rt2)" using grows_trans by blast
  then show ?thesis using rt1 co by (simp add: async_spawn_and_throw_def r_def [symmetric])
qed

lemma grows_try_to_handle:
  assumes "settled B rt" and "s < B" and "\<And>f. from_scope = Some f \<Longrightarrow> f < B"
  shows "grows B rt (fst (try_to_handle_exception env x s from_scope co rt))"
  using assms grows_refl [OF assms(1)] grows_spawn_and_throw [OF assms(1)]
  by (auto simp: try_to_handle_exception_def split: option.splits)


subsection \<open>Cancelling a coroutine\<close>

text \<open>A scope without its counters: cancelling a coroutine changes nothing else of the tree.\<close>

definition shape :: "async_scope \<Rightarrow> async_scope" where
  "shape x = x\<lparr>sc_active := 0, sc_zombies := 0\<rparr>"

definition same_tree :: "runtime \<Rightarrow> runtime \<Rightarrow> bool" where
  "same_tree rt rt' \<longleftrightarrow> rt_next_scope rt' = rt_next_scope rt \<and>
     (\<forall>t. map_option shape (rt_scopes rt' t) = map_option shape (rt_scopes rt t))"

lemma same_tree_refl [simp]: "same_tree rt rt"
  by (simp add: same_tree_def)

lemma same_tree_trans: "same_tree a b \<Longrightarrow> same_tree b c \<Longrightarrow> same_tree a c"
  by (simp add: same_tree_def)

lemma same_tree_fields: "rt_scopes rt' = rt_scopes rt \<Longrightarrow> rt_next_scope rt' = rt_next_scope rt \<Longrightarrow> same_tree rt rt'"
  by (simp add: same_tree_def)

lemma shape_eqD:
  assumes "shape x = shape y"
  shows "sc_children x = sc_children y" "sc_parent x = sc_parent y" "sc_finally_handlers x = sc_finally_handlers y"
    "sc_coroutines x = sc_coroutines y" "sc_closed x = sc_closed y" "sc_cancelled x = sc_cancelled y"
    "sc_dispose_safely x = sc_dispose_safely y"
  using arg_cong [OF assms, of sc_children] arg_cong [OF assms, of sc_parent]
    arg_cong [OF assms, of sc_finally_handlers] arg_cong [OF assms, of sc_coroutines]
    arg_cong [OF assms, of sc_closed] arg_cong [OF assms, of sc_cancelled] arg_cong [OF assms, of sc_dispose_safely]
  by (simp_all add: shape_def)

lemma same_treeD:
  assumes "same_tree rt rt'" and "rt_scopes rt' t = Some x"
  shows "\<exists>y. rt_scopes rt t = Some y \<and> shape x = shape y"
proof -
  have "map_option shape (rt_scopes rt' t) = map_option shape (rt_scopes rt t)"
    using assms(1) unfolding same_tree_def by blast
  with assms(2) show ?thesis by (cases "rt_scopes rt t") auto
qed

lemma same_treeD2:
  assumes "same_tree rt rt'" and "rt_scopes rt t = Some x"
  shows "\<exists>y. rt_scopes rt' t = Some y \<and> shape y = shape x"
proof -
  have "map_option shape (rt_scopes rt' t) = map_option shape (rt_scopes rt t)"
    using assms(1) unfolding same_tree_def by blast
  with assms(2) show ?thesis by (cases "rt_scopes rt' t") auto
qed

lemma settled_same_tree:
  assumes "settled B rt" and "runtime_inv rt'" and "same_tree rt rt'"
  shows "settled B rt'"
proof (rule settledI [OF assms(2)])
  show "B \<le> rt_next_scope rt'" using assms(3) settledD(2) [OF assms(1)] by (simp add: same_tree_def)
  fix t x assume t: "B \<le> t" "rt_scopes rt' t = Some x"
  then obtain y where "rt_scopes rt t = Some y" "shape x = shape y" using same_treeD [OF assms(3)] by blast
  with settledD(3) [OF assms(1) t(1)] show "late_scope B x" by (auto simp: late_scope_def dest: shape_eqD)
qed

lemma frame_same_tree:
  assumes "\<And>d x. rt_coroutines rt d = Some x \<Longrightarrow> \<exists>y. rt_coroutines rt' d = Some y \<and> coroutine_frame x y"
    and "same_tree rt rt'"
  shows "frame rt rt'"
proof (rule frameI [OF assms(1)])
  fix d s y assume "rt_scopes rt' s = Some y" "d \<in> set (sc_coroutines y)"
  with same_treeD [OF assms(2)] show "\<exists>z. rt_scopes rt s = Some z \<and> d \<in> set (sc_coroutines z)"
    by (metis shape_eqD(4))
qed

lemma enqueue_fields [simp]:
  "rt_scopes (fst (async_scheduler_coroutine_enqueue core c rt)) = rt_scopes rt"
  "rt_next_scope (fst (async_scheduler_coroutine_enqueue core c rt)) = rt_next_scope rt"
  "d \<noteq> c \<Longrightarrow> rt_coroutines (fst (async_scheduler_coroutine_enqueue core c rt)) d = rt_coroutines rt d"
  by (auto simp: async_scheduler_coroutine_enqueue_def Let_def push_resumed_def push_queue_def split: option.split)

lemma enqueue_self:
  "rt_coroutines rt c = Some x \<Longrightarrow>
   \<exists>st. rt_coroutines (fst (async_scheduler_coroutine_enqueue core c rt)) c = Some (x\<lparr>co_waker_status := st\<rparr>)"
  by (auto simp: async_scheduler_coroutine_enqueue_def Let_def push_resumed_def push_queue_def
      intro: exI [of _ "co_waker_status x"])

lemma same_tree_become_zombie: "same_tree rt (become_zombie c s rt)"
  by (auto simp: become_zombie_def same_tree_def shape_def option.map_comp intro!: option.map_cong0)

lemma mark_zombie_effect:
  assumes "async_scope_mark_coroutine_zombie n c rt = Some rt'" and c: "rt_coroutines rt c = Some x"
  shows "same_tree rt rt' \<and> (\<forall>d. d \<noteq> c \<longrightarrow> rt_coroutines rt' d = rt_coroutines rt d) \<and>
    (\<exists>b. rt_coroutines rt' c = Some (x\<lparr>co_zombie := b\<rparr>))"
proof (cases "co_zombie x")
  case True
  then have "rt' = rt" using assms by (simp add: async_scope_mark_coroutine_zombie_def)
  with c show ?thesis by (auto intro: exI [of _ "co_zombie x"])
next
  case False
  show ?thesis
  proof (cases "co_scope x")
    case None
    then have "rt' = mod_coroutine c (\<lambda>x. x\<lparr>co_zombie := True\<rparr>) rt"
      using assms False by (simp add: async_scope_mark_coroutine_zombie_def)
    with c show ?thesis by (auto intro: same_tree_fields)
  next
    case (Some s)
    then have "scope_check_completion_and_notify n False s (become_zombie c s rt) = Some rt'"
      using assms False by (simp add: async_scope_mark_coroutine_zombie_def become_zombie_def)
    then obtain l where "rt' = (become_zombie c s rt)\<lparr>rt_log := l\<rparr>" using check_completion_log by blast
    moreover have "same_tree (become_zombie c s rt) ((become_zombie c s rt)\<lparr>rt_log := l\<rparr>)"
      by (simp add: same_tree_def)
    ultimately show ?thesis
      using c same_tree_trans [OF same_tree_become_zombie] by (auto simp: become_zombie_def)
  qed
qed


text \<open>The recursions over the tree return when the bound exceeds the depth.\<close>

definition tree_bound :: "nat \<Rightarrow> runtime \<Rightarrow> bool" where
  "tree_bound B rt \<longleftrightarrow> (\<forall>s x. rt_scopes rt s = Some x \<longrightarrow>
     (\<forall>t\<in>set (sc_children x). s < t \<and> s < B) \<and> (\<forall>p. sc_parent x = Some p \<longrightarrow> p < s \<and> p < B))"

lemma tree_boundD:
  assumes "tree_bound B rt" and "rt_scopes rt s = Some x"
  shows "t \<in> set (sc_children x) \<Longrightarrow> s < t \<and> s < B" and "sc_parent x = Some p \<Longrightarrow> p < s \<and> p < B"
  using assms by (auto simp: tree_bound_def)

lemma settled_tree_bound:
  assumes "settled B rt"
  shows "tree_bound B rt"
  unfolding tree_bound_def
  by (intro allI impI conjI ballI) (simp_all add: settled_parent [OF assms] settled_child [OF assms])

lemma tree_bound_same:
  assumes "tree_bound B rt" and "same_tree rt rt'"
  shows "tree_bound B rt'"
  unfolding tree_bound_def
proof (intro allI impI)
  fix s x assume "rt_scopes rt' s = Some x"
  then obtain y where y: "rt_scopes rt s = Some y" "shape x = shape y" using same_treeD [OF assms(2)] by blast
  with assms(1) have "(\<forall>t\<in>set (sc_children y). s < t \<and> s < B) \<and> (\<forall>p. sc_parent y = Some p \<longrightarrow> p < s \<and> p < B)"
    unfolding tree_bound_def by blast
  then show "(\<forall>t\<in>set (sc_children x). s < t \<and> s < B) \<and> (\<forall>p. sc_parent x = Some p \<longrightarrow> p < s \<and> p < B)"
    using shape_eqD(1,2) [OF y(2)] by simp
qed

lemma all_children_returns: "(\<And>x. x \<in> set xs \<Longrightarrow> f x \<noteq> None) \<Longrightarrow> all_children f xs \<noteq> None"
  by (induction xs) (auto split: option.split)

lemma can_be_disposed_returns:
  assumes "tree_bound B rt" and "B - s < n"
  shows "scope_can_be_disposed n rt wz cd s \<noteq> None"
  using assms(2)
proof (induction n arbitrary: s)
  case (Suc n)
  show ?case
  proof (cases "rt_scopes rt s")
    case (Some x)
    have "scope_can_be_disposed n rt wz cd t \<noteq> None" if "t \<in> set (sc_children x)" for t
      using Suc.IH [of t] Suc.prems tree_boundD(1) [OF assms(1) Some that] by auto
    then have "all_children (scope_can_be_disposed n rt wz cd) (sc_children x) \<noteq> None"
      by (rule all_children_returns)
    with Some show ?thesis by (cases wz; cases cd; simp del: not_None_eq)
  qed simp
qed simp

lemma tree_bound_notify [simp]: "tree_bound B (notify_scope s e rt) \<longleftrightarrow> tree_bound B rt"
  by (simp add: tree_bound_def notify_scope_def)

lemma check_completion_returns:
  assumes "tree_bound B rt" and "B + min s B < n"
  shows "scope_check_completion_and_notify n wz s rt \<noteq> None"
  using assms
proof (induction n arbitrary: s rt)
  case (Suc n)
  have "B - s < Suc n" using Suc.prems(2) by auto
  then obtain b where b: "scope_can_be_disposed (Suc n) rt wz False s = Some b"
    using can_be_disposed_returns [OF Suc.prems(1)] by blast
  have up: "scope_check_completion_and_notify n wz p (notify_scope s None rt) \<noteq> None"
    if "rt_scopes rt s = Some x" "sc_parent x = Some p" for x p
    using Suc.IH [of "notify_scope s None rt" p] Suc.prems tree_boundD(2) [OF Suc.prems(1) that] by auto
  show ?case
    using b up by (cases b) (simp_all add: Let_def del: scope_can_be_disposed.simps split: option.split)
qed simp

lemma mark_zombie_returns:
  assumes "settled B rt" and "2 * B < n"
  shows "async_scope_mark_coroutine_zombie n c rt \<noteq> None"
proof -
  have "scope_check_completion_and_notify n False s (become_zombie c s rt) \<noteq> None" for s
    using tree_bound_same [OF settled_tree_bound [OF assms(1)] same_tree_become_zombie] assms(2)
    by (intro check_completion_returns) auto
  then show ?thesis
    by (simp add: async_scope_mark_coroutine_zombie_def become_zombie_def Let_def del: not_None_eq split: option.split)
qed

lemma cancel_effect:
  assumes cancel: "async_coroutine_cancel core n c e safely rt = Some (rt', r)" and c: "rt_coroutines rt c = Some x"
  shows "same_tree rt rt' \<and> (\<forall>d. d \<noteq> c \<longrightarrow> rt_coroutines rt' d = rt_coroutines rt d) \<and>
    (\<exists>y. rt_coroutines rt' c = Some y \<and> coroutine_frame x y \<and> told y)"
proof -
  let ?flagged = "mod_coroutine c (\<lambda>x. x\<lparr>co_cancelled := True\<rparr>) rt"
  let ?e = "case e of Some e \<Rightarrow> e | None \<Rightarrow> coroutine_cancelled"
  let ?apply = "mod_coroutine c (\<lambda>x. x\<lparr>co_waker_error := Some (zc_apply_cancellation core (co_waker_error x) ?e)\<rparr>)"
  have tf: "same_tree rt ?flagged" by (simp add: same_tree_def)
  have enq: ?thesis
    if eq: "rt' = fst (async_scheduler_coroutine_enqueue core c rt1)" and rt1: "rt_scopes rt1 = rt_scopes rt"
      "rt_next_scope rt1 = rt_next_scope rt" "\<forall>d. d \<noteq> c \<longrightarrow> rt_coroutines rt1 d = rt_coroutines rt d"
      "\<exists>y. rt_coroutines rt1 c = Some y \<and> coroutine_frame x y \<and> told y" for rt1
  proof -
    from rt1(4) obtain y where y: "rt_coroutines rt1 c = Some y" "coroutine_frame x y" "told y" by blast
    then obtain st where "rt_coroutines rt' c = Some (y\<lparr>co_waker_status := st\<rparr>)"
      using enqueue_self [OF y(1)] eq by blast
    with eq rt1 y show ?thesis by (auto simp: same_tree_def coroutine_frame_def told_def)
  qed
  consider (simple) f where "rt' = mod_coroutine c f rt" "coroutine_frame x (f x)" "told (f x)"
    | (new) "rt' = fst (async_scheduler_coroutine_enqueue core c (?apply (set_status c ZEND_ASYNC_WAKER_IGNORED
        (if zc_in_queue core (co_waker_status x) then ?flagged else fst (async_scheduler_coroutine_enqueue core c ?flagged)))))"
    | (safe) rt1 where "async_scope_mark_coroutine_zombie n c ?flagged = Some rt1"
        "rt' = rt1\<lparr>rt_coroutine_count := zc_decrease_count core (rt_coroutine_count rt1)\<rparr>"
    | (hard) "rt' = fst (async_scheduler_coroutine_enqueue core c ?flagged) \<or>
        rt' = fst (async_scheduler_coroutine_enqueue core c (?apply ?flagged))"
  proof (cases "co_finished x \<or> rt_current rt = Some c \<and> co_waker_status x \<noteq> ZEND_ASYNC_WAKER_WAITING \<or> co_protected x")
    case True
    then consider "co_finished x" | "\<not> co_finished x" "rt_current rt = Some c" "co_waker_status x \<noteq> ZEND_ASYNC_WAKER_WAITING"
      | "\<not> co_finished x" "\<not> (rt_current rt = Some c \<and> co_waker_status x \<noteq> ZEND_ASYNC_WAKER_WAITING)" "co_protected x"
      by blast
    then show thesis
    proof cases
      case 1
      with cancel c have "rt' = mod_coroutine c id rt"
        by (simp add: async_coroutine_cancel_def mod_coroutine_def fun_upd_idem)
      with 1 show thesis by (intro simple [of id]) (simp_all add: told_def)
    next
      case 2
      let ?f = "\<lambda>x. x\<lparr>co_cancelled := True,
        co_exception := (case co_exception x of Some e \<Rightarrow> Some e | None \<Rightarrow> Some ?e)\<rparr>"
      have "rt' = mod_coroutine c ?f rt" using 2 c cancel by (simp add: async_coroutine_cancel_def)
      then show thesis by (rule simple [of ?f]) (simp_all add: coroutine_frame_def told_def)
    next
      case 3
      let ?f = "\<lambda>x. x\<lparr>co_deferred_cancellation :=
        (case co_deferred_cancellation x of Some d \<Rightarrow> Some d | None \<Rightarrow> Some ?e)\<rparr>"
      have "rt' = mod_coroutine c ?f rt" using 3 c cancel by (auto simp: async_coroutine_cancel_def Let_def)
      then show thesis
        by (rule simple [of ?f]) (simp_all add: coroutine_frame_def told_def split: option.split)
    qed
  next
    case False
    consider "\<not> co_started x" | "co_started x" "safely" | "co_started x" "\<not> safely" by blast
    then show thesis
    proof cases
      case 1
      with False c cancel show thesis by (intro new) (auto simp: async_coroutine_cancel_def Let_def)
    next
      case 2
      with False c cancel show thesis by (auto simp: async_coroutine_cancel_def Let_def intro: safe)
    next
      case 3
      with False c cancel show thesis
        by (intro hard) (auto simp: async_coroutine_cancel_def Let_def split: if_splits)
    qed
  qed
  then show ?thesis
  proof cases
    case simple
    with c show ?thesis by (simp add: same_tree_def)
  next
    case new
    show ?thesis
    proof (rule enq [OF new])
      have "rt_coroutines ?flagged c = Some (x\<lparr>co_cancelled := True\<rparr>)" using c by simp
      from enqueue_self [OF this, of core] obtain st where
        "rt_coroutines (fst (async_scheduler_coroutine_enqueue core c ?flagged)) c =
           Some (x\<lparr>co_cancelled := True, co_waker_status := st\<rparr>)" by auto
      then show "\<exists>y. rt_coroutines (?apply (set_status c ZEND_ASYNC_WAKER_IGNORED
        (if zc_in_queue core (co_waker_status x) then ?flagged else fst (async_scheduler_coroutine_enqueue core c ?flagged)))) c =
          Some y \<and> coroutine_frame x y \<and> told y"
        using c by (simp add: coroutine_frame_def told_def)
    qed simp_all
  next
    case safe
    have "rt_coroutines ?flagged c = Some (x\<lparr>co_cancelled := True\<rparr>)" using c by simp
    from mark_zombie_effect [OF safe(1) this] same_tree_trans [OF tf] safe(2)
    show ?thesis by (auto simp: coroutine_frame_def told_def same_tree_def)
  next
    case hard
    then show ?thesis
    proof
      assume "rt' = fst (async_scheduler_coroutine_enqueue core c ?flagged)"
      then show ?thesis by (rule enq) (use c in \<open>auto simp: coroutine_frame_def told_def\<close>)
    next
      assume "rt' = fst (async_scheduler_coroutine_enqueue core c (?apply ?flagged))"
      then show ?thesis by (rule enq) (use c in \<open>auto simp: coroutine_frame_def told_def\<close>)
    qed
  qed
qed

lemma cancel_returns:
  assumes rt: "settled B rt" and n: "2 * B < n"
  shows "async_coroutine_cancel core n c e safely rt \<noteq> None"
proof -
  let ?flagged = "mod_coroutine c (\<lambda>x. x\<lparr>co_cancelled := True\<rparr>) rt"
  have "settled B ?flagged"
    by (rule settled_same_tree [OF rt cancelled_flag_inv [OF settledD(1) [OF rt]]]) (simp add: same_tree_def)
  from mark_zombie_returns [OF this n, of c] show ?thesis
    by (simp add: async_coroutine_cancel_def Let_def del: not_None_eq split: option.split)
qed

lemma grows_cancel:
  assumes core: "core_ok core" and rt: "settled B rt" and n: "2 * B < n"
  shows "\<exists>rt' r. async_coroutine_cancel core n c e safely rt = Some (rt', r) \<and> grows B rt rt'"
proof -
  obtain rt' r where cancel: "async_coroutine_cancel core n c e safely rt = Some (rt', r)"
    using cancel_returns [OF rt n] by fastforce
  have inv: "runtime_inv rt'" by (rule cancel_inv [OF core settledD(1) [OF rt] cancel])
  have "grows B rt rt'"
  proof (cases "rt_coroutines rt c")
    case None
    with cancel rt show ?thesis by (simp add: async_coroutine_cancel_def grows_refl)
  next
    case (Some x)
    note eff = cancel_effect [OF cancel Some]
    have "frame rt rt'"
    proof (rule frame_same_tree)
      fix d y assume "rt_coroutines rt d = Some y"
      with eff Some show "\<exists>z. rt_coroutines rt' d = Some z \<and> coroutine_frame y z" by (cases "d = c") auto
    qed (use eff in blast)
    moreover have "settled B rt'" using settled_same_tree [OF rt inv] eff by blast
    ultimately show ?thesis by (simp add: grows_def)
  qed
  with cancel show ?thesis by blast
qed


subsection \<open>Cancelling a scope\<close>

lemma flagged_loop_grows:
  fixes b0 :: 'c
  assumes "settled B rt" and "\<And>rt x. x \<in> set xs \<Longrightarrow> settled B rt \<Longrightarrow> \<exists>rt' r. f rt x = Some (rt', r) \<and> grows B rt rt'"
  shows "\<exists>rt' b. loop (\<lambda>(rt, b) x. map_option (\<lambda>(rt, r). (rt, g b r)) (f rt x)) (rt, b0) xs = Some (rt', b) \<and> grows B rt rt'"
proof -
  let ?body = "\<lambda>(rt, b) x. map_option (\<lambda>(rt, r). (rt, g b r)) (f rt x)"
  have "\<exists>st'. loop ?body (rt, b0) xs = Some st' \<and> grows B rt (fst st')"
  proof (rule loop_returns)
    show "grows B rt (fst (rt, b0))" using grows_refl [OF assms(1)] by simp
    fix st :: "runtime \<times> 'c" and x assume x: "x \<in> set xs" and st: "grows B rt (fst st)"
    from assms(2) [OF x growsD(1) [OF st]] grows_trans [OF st]
    show "\<exists>st'. ?body st x = Some st' \<and> grows B rt (fst st')" by (cases st) fastforce
  qed
  then show ?thesis by auto
qed

lemma loop_grows:
  assumes "settled B rt" and "\<And>rt x. x \<in> set xs \<Longrightarrow> settled B rt \<Longrightarrow> \<exists>rt' r. f rt x = Some (rt', r) \<and> grows B rt rt'"
  shows "\<exists>rt'. loop (\<lambda>rt x. map_option fst (f rt x)) rt xs = Some rt' \<and> grows B rt rt'"
proof -
  have step: "\<exists>rt''. map_option fst (f rt' x) = Some rt'' \<and> grows B rt rt''"
    if "x \<in> set xs" "grows B rt rt'" for x rt'
    using assms(2) [OF that(1) growsD(1) [OF that(2)]] grows_trans [OF that(2)] by fastforce
  show ?thesis by (rule loop_returns [of "grows B rt", OF grows_refl [OF assms(1)]]) (rule step)
qed

text \<open>The two loops that tell the child scopes and the coroutines of a scope.\<close>

definition cancel_children ::
  "nat \<Rightarrow> zend_core \<Rightarrow> runtime_env \<Rightarrow> nat \<Rightarrow> nat option \<Rightarrow> throwable option \<Rightarrow> bool \<Rightarrow> nat list \<Rightarrow> runtime \<Rightarrow>
   (runtime \<times> bool) option" where
  "cancel_children n core env s co passed safely children rt =
     loop (\<lambda>(rt, threw) child. map_option (\<lambda>(rt, r). (rt, threw \<or> r = Listener_threw))
       (scope_catch_or_cancel n core env child co (Some s) passed safely True rt)) (rt, False) children"

definition cancel_coroutines ::
  "nat \<Rightarrow> zend_core \<Rightarrow> throwable option \<Rightarrow> bool \<Rightarrow> nat list \<Rightarrow> runtime \<Rightarrow> runtime option" where
  "cancel_coroutines n core passed safely cs rt =
     loop (\<lambda>rt c. map_option fst (async_coroutine_cancel core n c passed safely rt)) rt cs"

text \<open>Cancellation mode, with the loops named.\<close>

lemma cancel_mode_eq:
  "scope_catch_or_cancel (Suc n) core env s co src e safely True rt =
     (case rt_scopes rt s of
        None \<Rightarrow> Some (rt, Exception_not_taken)
      | Some x \<Rightarrow>
          if sc_closed x then Some (rt, Exception_taken)
          else
            (case scope_can_be_disposed (Suc n) rt (fst (zc_completely_done core)) (snd (zc_completely_done core)) s of
               None \<Rightarrow> None
             | Some True \<Rightarrow>
                 Some (fst (async_scope_call_finally_handlers env s (mod_scope s (\<lambda>x. x\<lparr>sc_closed := True\<rparr>) rt)), Exception_taken)
             | Some False \<Rightarrow>
                 (let passed = Some (case e of None \<Rightarrow> scope_was_cancelled | Some e \<Rightarrow> e) in
                  case cancel_children n core env s co passed safely (sc_children x)
                         (mod_scope s (\<lambda>x. x\<lparr>sc_cancelled := True\<rparr>) rt) of
                    None \<Rightarrow> None
                  | Some (rt, threw) \<Rightarrow>
                      (case cancel_coroutines n core passed safely (sc_coroutines x) rt of
                         None \<Rightarrow> None
                       | Some rt \<Rightarrow> Some (notify_scope s passed rt,
                           if threw \<or> env_listeners_throw env s then Listener_threw
                           else if env_listeners_absorb env s then Exception_taken else Exception_not_taken)))))"
  unfolding cancel_children_def cancel_coroutines_def
  by (cases e) (auto simp: Let_def simp del: scope_can_be_disposed.simps split: option.split bool.split prod.split)


lemma cancel_coroutines_returns:
  assumes "core_ok core" and "settled B rt" and "2 * B < n"
  shows "\<exists>rt'. cancel_coroutines n core passed safely cs rt = Some rt' \<and> grows B rt rt'"
  unfolding cancel_coroutines_def
  by (rule loop_grows [OF assms(2)]) (rule grows_cancel [OF assms(1) _ assms(3)])

lemma core_done: "core_ok core \<Longrightarrow> fst (zc_completely_done core) \<and> \<not> snd (zc_completely_done core)"
  by (simp add: core_ok_def)

lemma cancel_mode_returns:
  assumes core: "core_ok core"
  shows "settled B rt \<Longrightarrow> 2 * B + (B - s) + 1 < n \<Longrightarrow>
    \<exists>rt' r. scope_catch_or_cancel n core env s co src e safely True rt = Some (rt', r) \<and> grows B rt rt'"
proof (induction n arbitrary: s src e rt)
  case (Suc n)
  note rt = Suc.prems(1)
  show ?case
  proof (cases "rt_scopes rt s")
    case None
    with grows_refl [OF rt] show ?thesis by (simp add: cancel_mode_eq)
  next
    case (Some x)
    obtain fin where fin: "scope_can_be_disposed (Suc n) rt (fst (zc_completely_done core)) (snd (zc_completely_done core)) s = Some fin"
      using can_be_disposed_returns [OF settled_tree_bound [OF rt], of s "Suc n"] Suc.prems(2) by fastforce
    let ?e = "Some (case e of None \<Rightarrow> scope_was_cancelled | Some e \<Rightarrow> e)"
    let ?rt = "mod_scope s (\<lambda>x. x\<lparr>sc_cancelled := True\<rparr>) rt"
    note flag = grows_flags(2) [OF rt, of s True]
    have "\<exists>rt' b. cancel_children n core env s co ?e safely (sc_children x) ?rt = Some (rt', b) \<and> grows B ?rt rt'"
      unfolding cancel_children_def
    proof (rule flagged_loop_grows [OF growsD(1) [OF flag]])
      fix rt1 t assume t: "t \<in> set (sc_children x)" and rt1: "settled B rt1"
      have "2 * B + (B - t) + 1 < n" using Suc.prems(2) settled_child [OF rt Some t] by linarith
      then show "\<exists>rt' r. scope_catch_or_cancel n core env t co (Some s) ?e safely True rt1 = Some (rt', r) \<and> grows B rt1 rt'"
        by (rule Suc.IH [OF rt1])
    qed
    then obtain rt1 threw where rt1: "cancel_children n core env s co ?e safely (sc_children x) ?rt = Some (rt1, threw)"
      "grows B rt rt1" using grows_trans [OF flag] by blast
    have "2 * B < n" using Suc.prems(2) by linarith
    from cancel_coroutines_returns [OF core growsD(1) [OF rt1(2)] this, of ?e safely "sc_coroutines x"]
    obtain rt2 where rt2: "cancel_coroutines n core ?e safely (sc_coroutines x) rt1 = Some rt2" "grows B rt rt2"
      using grows_trans [OF rt1(2)] by blast
    note rt3 = grows_trans [OF rt2(2) grows_notify [OF growsD(1) [OF rt2(2)], of s ?e]]
    have closed: "grows B rt (fst (async_scope_call_finally_handlers env s (mod_scope s (\<lambda>x. x\<lparr>sc_closed := True\<rparr>) rt)))"
      using grows_trans [OF grows_flags(1) [OF rt] grows_scope_finally(1) [OF growsD(1) [OF grows_flags(1) [OF rt]]]] .
    let ?r = "scope_catch_or_cancel (Suc n) core env s co src e safely True rt"
    consider "?r = Some (rt, Exception_taken)"
      | "?r = Some (fst (async_scope_call_finally_handlers env s (mod_scope s (\<lambda>x. x\<lparr>sc_closed := True\<rparr>) rt)), Exception_taken)"
      | "?r = Some (notify_scope s ?e rt2, if threw \<or> env_listeners_throw env s then Listener_threw
          else if env_listeners_absorb env s then Exception_taken else Exception_not_taken)"
      unfolding cancel_mode_eq Some option.case fin Let_def rt1(1) prod.case rt2(1) by (cases "sc_closed x"; cases fin; simp)
    then show ?thesis using grows_refl [OF rt] closed rt3 by cases blast+
  qed
qed simp

text \<open>The other mode: an exception goes up the tree until something takes it.\<close>

lemma catch_mode_eq:
  "scope_catch_or_cancel (Suc n) core env s co src e safely False rt =
     (case (rt_scopes rt s, e) of
        (None, _) \<Rightarrow> Some (rt, Exception_not_taken)
      | (Some x, None) \<Rightarrow> Some (rt, Exception_taken)
      | (Some x, Some ex) \<Rightarrow>
          if snd (try_to_handle_exception env x s src co rt)
          then Some (fst (try_to_handle_exception env x s src co rt), Exception_taken)
          else
            (case cancel_children n core env s co None safely (sc_children x)
                    (mod_scope s (\<lambda>x. x\<lparr>sc_cancelled := True\<rparr>) rt) of
               None \<Rightarrow> None
             | Some (rt, threw) \<Rightarrow>
                 (case cancel_coroutines n core None safely (sc_coroutines x) rt of
                    None \<Rightarrow> None
                  | Some rt \<Rightarrow>
                      if threw \<or> env_listeners_throw env s then Some (notify_scope s e rt, Listener_threw)
                      else if env_listeners_absorb env s then Some (notify_scope s e rt, Exception_taken)
                      else if sc_parent x \<noteq> None
                      then scope_catch_or_cancel n core env (the (sc_parent x)) co (Some s) e safely False (notify_scope s e rt)
                      else Some (notify_scope s e rt, Exception_not_taken))))"
  unfolding cancel_children_def cancel_coroutines_def
  by (cases e) (auto simp: Let_def split: option.split prod.split)

lemma catch_mode_returns:
  assumes core: "core_ok core"
  shows "settled B rt \<Longrightarrow> s < B \<Longrightarrow> (\<And>f. src = Some f \<Longrightarrow> f < B) \<Longrightarrow> 3 * B + s + 2 < n \<Longrightarrow>
    \<exists>rt' r. scope_catch_or_cancel n core env s co src e safely False rt = Some (rt', r) \<and> grows B rt rt'"
proof (induction n arbitrary: s src e rt)
  case (Suc n)
  note rt = Suc.prems(1)
  show ?case
  proof (cases "\<exists>x ex. rt_scopes rt s = Some x \<and> e = Some ex")
    case False
    then have "scope_catch_or_cancel (Suc n) core env s co src e safely False rt =
        Some (rt, if rt_scopes rt s = None then Exception_not_taken else Exception_taken)"
      unfolding catch_mode_eq by (cases "rt_scopes rt s"; cases e; simp)
    with grows_refl [OF rt] show ?thesis by blast
  next
    case True
    then obtain x ex where x: "rt_scopes rt s = Some x" and ex: "e = Some ex" by blast
    let ?rt = "mod_scope s (\<lambda>x. x\<lparr>sc_cancelled := True\<rparr>) rt"
    note flag = grows_flags(2) [OF rt, of s True]
    have "\<exists>rt' b. cancel_children n core env s co None safely (sc_children x) ?rt = Some (rt', b) \<and> grows B ?rt rt'"
      unfolding cancel_children_def
    proof (rule flagged_loop_grows [OF growsD(1) [OF flag]])
      fix rt1 t assume rt1: "settled B rt1"
      have "2 * B + (B - t) + 1 < n" using Suc.prems(4) by linarith
      then show "\<exists>rt' r. scope_catch_or_cancel n core env t co (Some s) None safely True rt1 = Some (rt', r) \<and> grows B rt1 rt'"
        by (rule cancel_mode_returns [OF core rt1])
    qed
    then obtain rt1 threw where rt1: "cancel_children n core env s co None safely (sc_children x) ?rt = Some (rt1, threw)"
      "grows B rt rt1" using grows_trans [OF flag] by blast
    have "2 * B < n" using Suc.prems(4) by linarith
    from cancel_coroutines_returns [OF core growsD(1) [OF rt1(2)] this, of None safely "sc_coroutines x"]
    obtain rt2 where rt2: "cancel_coroutines n core None safely (sc_coroutines x) rt1 = Some rt2" "grows B rt rt2"
      using grows_trans [OF rt1(2)] by blast
    note rt3 = grows_trans [OF rt2(2) grows_notify [OF growsD(1) [OF rt2(2)], of s e]]
    have up: "\<exists>rt' r. scope_catch_or_cancel n core env p co (Some s) e safely False (notify_scope s e rt2) = Some (rt', r) \<and> grows B rt rt'"
      if p: "sc_parent x = Some p" for p
    proof -
      have "3 * B + p + 2 < n" using settled_parent [OF rt x p] Suc.prems(4) by linarith
      with Suc.IH [OF growsD(1) [OF rt3], of p "Some s" e] settled_parent [OF rt x p] Suc.prems(2) grows_trans [OF rt3]
      show ?thesis by blast
    qed
    have handled: "grows B rt (fst (try_to_handle_exception env x s src co rt))"
      by (rule grows_try_to_handle [OF rt Suc.prems(2,3)])
    show ?thesis
    proof (cases "snd (try_to_handle_exception env x s src co rt)")
      case True
      with x ex handled show ?thesis by (simp add: catch_mode_eq)
    next
      case False
      then have "scope_catch_or_cancel (Suc n) core env s co src e safely False rt =
          (if threw \<or> env_listeners_throw env s then Some (notify_scope s e rt2, Listener_threw)
           else if env_listeners_absorb env s then Some (notify_scope s e rt2, Exception_taken)
           else if sc_parent x \<noteq> None
           then scope_catch_or_cancel n core env (the (sc_parent x)) co (Some s) e safely False (notify_scope s e rt2)
           else Some (notify_scope s e rt2, Exception_not_taken))"
        unfolding catch_mode_eq using x ex rt1(1) rt2(1) by simp
      with up rt3 show ?thesis by (cases "sc_parent x") auto
    qed
  qed
qed simp

end
