(* ===== verification/Scope_Completion.thy ===== *)
theory Scope_Completion
  imports Scope_Invariant "HOL-Library.Multiset"
begin

text \<open>
  Disposal of scopes and the end of a coroutine: both return when the bound on the depth is a
  multiple of the number of scopes, and both keep the invariant.
\<close>

subsection \<open>Disposal\<close>

lemma grows_remove_child:
  assumes core: "core_ok core" and rt: "settled B rt"
  shows "grows B rt (mod_scope p (\<lambda>y. y\<lparr>sc_children := zc_remove_child core (sc_children y) s\<rparr>) rt)"
proof -
  have sub: "set (zc_remove_child core xs s) \<subseteq> set xs" for xs using core by (simp add: core_ok_def)
  then have "zc_remove_child core [] s = []" by (metis list.set(1) set_empty subset_empty)
  then have "settled B (mod_scope p (\<lambda>y. y\<lparr>sc_children := zc_remove_child core (sc_children y) s\<rparr>) rt)"
    using sub by (intro settled_mod_scope [OF rt]) (auto simp: scope_same_def late_scope_def)
  then show ?thesis by (simp add: grows_def frame_mod_scope)
qed

lemma grows_free_scope:
  assumes "settled B rt"
  shows "grows B rt (rt\<lparr>rt_scopes := (rt_scopes rt)(s := None)\<rparr>)"
proof -
  have "settled B (rt\<lparr>rt_scopes := (rt_scopes rt)(s := None)\<rparr>)"
    using free_scope_inv [OF settledD(1) [OF assms]] settledD(2,3) [OF assms]
    by (intro settledI) (auto split: if_splits)
  with frame_free_scope show ?thesis by (simp add: grows_def)
qed

lemma children_loop_grows:
  assumes body: "\<And>rt x t. settled B rt \<Longrightarrow> rt_scopes rt s = Some x \<Longrightarrow> t \<in> set (sc_children x) \<Longrightarrow>
      \<exists>rt' b. body t rt = Some (rt', b) \<and> grows B rt rt'"
  shows "settled B rt \<Longrightarrow> \<exists>rt' b. children_loop body s k i rt = Some (rt', b) \<and> grows B rt rt'"
proof (induction k arbitrary: i rt)
  case 0
  then show ?case using grows_refl by auto
next
  case (Suc k)
  show ?case
  proof (cases "\<exists>x. rt_scopes rt s = Some x \<and> i < length (sc_children x)")
    case True
    then obtain x where x: "rt_scopes rt s = Some x" "i < length (sc_children x)" by blast
    obtain rt1 b where rt1: "body (sc_children x ! i) rt = Some (rt1, b)" "grows B rt rt1"
      using body [OF Suc.prems x(1)] x(2) by (meson nth_mem)
    obtain rt2 b2 where rt2: "children_loop body s k (Suc i) rt1 = Some (rt2, b2)" "grows B rt rt2"
      using Suc.IH [OF growsD(1) [OF rt1(2)]] grows_trans [OF rt1(2)] by blast
    show ?thesis using x rt1 rt2 by (cases b) auto
  next
    case False
    then have "children_loop body s (Suc k) i rt = Some (rt, False)"
      by (cases "rt_scopes rt s") auto
    with grows_refl [OF Suc.prems] show ?thesis by blast
  qed
qed

text \<open>\<^verbatim>\<open>scope_dispose\<close> with its stages named.\<close>

definition dispose_leave :: "zend_core \<Rightarrow> runtime_env \<Rightarrow> nat \<Rightarrow> nat option \<Rightarrow> runtime \<Rightarrow> runtime \<times> bool" where
  "dispose_leave core env s parent rt =
     (let rt = mod_scope s (\<lambda>x. x\<lparr>sc_refcount := sc_refcount x - 1\<rparr>) rt in
      if (case rt_scopes rt s of None \<Rightarrow> False | Some x \<Rightarrow> 0 < sc_refcount x)
      then (mod_scope s (\<lambda>x. x\<lparr>sc_disposing := False\<rparr>) rt, False)
      else
        let rt = (case parent of None \<Rightarrow> rt
                  | Some p \<Rightarrow> mod_scope p (\<lambda>y. y\<lparr>sc_children := zc_remove_child core (sc_children y) s\<rparr>) rt)
        in (rt\<lparr>rt_scopes := (rt_scopes rt)(s := None)\<rparr>, env_listeners_throw env s))"

definition dispose_end :: "zend_core \<Rightarrow> runtime_env \<Rightarrow> nat \<Rightarrow> nat option \<Rightarrow> runtime \<Rightarrow> runtime \<times> bool" where
  "dispose_end core env s parent rt =
     (case async_scope_call_finally_handlers env s (notify_scope s None rt) of
        (rt, True) \<Rightarrow>
          (let rt = (if env_listeners_throw env s then async_spawn_and_throw 0 s rt else rt)
           in (mod_scope s (\<lambda>x. x\<lparr>sc_disposing := False\<rparr>) rt, False))
      | (rt, False) \<Rightarrow> dispose_leave core env s parent rt)"

lemma dispose_eq:
  "scope_dispose (Suc n) core env s rt =
     (case rt_scopes rt s of
        None \<Rightarrow> Some (rt, False)
      | Some x \<Rightarrow>
          if sc_disposing x then Some (rt, False)
          else if 1 < sc_refcount x
          then Some (notify_scope s None (mod_scope s (\<lambda>x. x\<lparr>sc_refcount := sc_refcount x - 1\<rparr>) rt),
                     env_listeners_throw env s)
          else
            (case children_loop
                    (\<lambda>child rt. scope_dispose n core env child (mod_scope child (\<lambda>y. y\<lparr>sc_parent := None\<rparr>) rt))
                    s (length (sc_children x)) 0 (mod_scope s (\<lambda>x. x\<lparr>sc_refcount := 1, sc_disposing := True\<rparr>) rt) of
               None \<Rightarrow> None
             | Some (rt, threw) \<Rightarrow>
                 if threw then Some (mod_scope s (\<lambda>x. x\<lparr>sc_disposing := False\<rparr>) rt, True)
                 else Some (dispose_end core env s (sc_parent x) rt)))"
  by (auto simp: dispose_end_def dispose_leave_def Let_def split: option.split prod.split bool.split)

text \<open>What disposals leave of a scope that is itself being disposed of: its children only get fewer.\<close>

definition being_disposed :: "nat \<Rightarrow> nat set \<Rightarrow> runtime \<Rightarrow> bool" where
  "being_disposed s C rt \<longleftrightarrow> s < rt_next_scope rt \<and>
     (\<exists>x. rt_scopes rt s = Some x \<and> sc_disposing x \<and> distinct (sc_children x) \<and> set (sc_children x) \<subseteq> C)"

lemma being_disposed_same:
  "being_disposed s C rt \<Longrightarrow> rt_scopes rt' s = rt_scopes rt s \<Longrightarrow> rt_next_scope rt \<le> rt_next_scope rt' \<Longrightarrow> being_disposed s C rt'"
  by (auto simp: being_disposed_def)

lemma being_disposed_other:
  assumes "being_disposed s C rt" "t \<noteq> s"
  shows "being_disposed s C (mod_scope t f rt)"
    "being_disposed s C (fst (async_scope_call_finally_handlers env t rt))"
    "being_disposed s C (async_spawn_and_throw priority t rt)"
    "being_disposed s C (rt\<lparr>rt_scopes := (rt_scopes rt)(t := None)\<rparr>)"
proof -
  have new: "s \<noteq> rt_next_scope rt" "rt_next_scope rt \<noteq> s" using assms(1) by (auto simp: being_disposed_def)
  note simps = async_call_finally_handlers_def async_new_scope_def async_new_coroutine_def mod_scope_def enqueue_new_def
    mod_coroutine_def rt_effect_def async_scope_add_coroutine_def set_status_def Let_def
  show "being_disposed s C (mod_scope t f rt)"
    using assms by (intro being_disposed_same [OF assms(1)]) (simp_all add: mod_scope_def split: option.split)
  show "being_disposed s C (fst (async_scope_call_finally_handlers env t rt))"
    using assms new by (intro being_disposed_same [OF assms(1)]) 
      (simp_all add: async_scope_call_finally_handlers_def simps split: option.split if_split prod.split)
  show "being_disposed s C (async_spawn_and_throw priority t rt)"
    using assms new by (intro being_disposed_same [OF assms(1)]) 
      (simp_all add: async_spawn_and_throw_def simps split: option.split if_split prod.split)
  show "being_disposed s C (rt\<lparr>rt_scopes := (rt_scopes rt)(t := None)\<rparr>)"
    using assms by (intro being_disposed_same [OF assms(1)]) simp_all
qed

lemma being_disposed_any:
  assumes "being_disposed s C rt"
  shows "being_disposed s C (notify_scope t e rt)"
    "being_disposed s C (mod_scope t (\<lambda>y. y\<lparr>sc_parent := None\<rparr>) rt)"
    "core_ok core \<Longrightarrow> being_disposed s C (mod_scope t (\<lambda>y. y\<lparr>sc_children := zc_remove_child core (sc_children y) c\<rparr>) rt)"
proof -
  have sub: "core_ok core \<Longrightarrow> set (zc_remove_child core xs c) \<subseteq> set xs" for xs by (simp add: core_ok_def)
  have dist: "core_ok core \<Longrightarrow> distinct xs \<Longrightarrow> distinct (zc_remove_child core xs c)" for xs by (simp add: core_ok_def)
  show "being_disposed s C (notify_scope t e rt)"
    using assms by (simp add: being_disposed_def notify_scope_def rt_effect_def)
  show "being_disposed s C (mod_scope t (\<lambda>y. y\<lparr>sc_parent := None\<rparr>) rt)"
    using assms by (auto simp: being_disposed_def mod_scope_def split: option.split)
  show "core_ok core \<Longrightarrow> being_disposed s C (mod_scope t (\<lambda>y. y\<lparr>sc_children := zc_remove_child core (sc_children y) c\<rparr>) rt)"
    using assms dist sub by (fastforce simp: being_disposed_def mod_scope_def split: option.split)
qed

lemma being_disposed_end:
  assumes core: "core_ok core" and rt: "being_disposed s C rt" and t: "t \<noteq> s"
  shows "being_disposed s C (fst (dispose_end core env t parent rt))"
proof -
  have leave: "being_disposed s C (fst (dispose_leave core env t parent rt1))" if "being_disposed s C rt1" for rt1
    using that t core by (auto simp: dispose_leave_def Let_def split: option.split
        intro!: being_disposed_other(1) being_disposed_other(4) being_disposed_any(3))
  obtain rt2 b where fin: "async_scope_call_finally_handlers env t (notify_scope t None rt) = (rt2, b)" by fastforce
  have "being_disposed s C rt2"
    using being_disposed_other(2) [OF being_disposed_any(1) [OF rt] t, of env t None] fin by simp
  then show ?thesis
    using t by (auto simp: dispose_end_def fin Let_def split: bool.split intro!: leave being_disposed_other(1,3))
qed

lemma being_disposed_loop:
  assumes body: "\<And>t rt rt' b. body t rt = Some (rt', b) \<Longrightarrow> being_disposed s C rt \<Longrightarrow> being_disposed s C rt'"
  shows "children_loop body u k i rt = Some (rt', b) \<Longrightarrow> being_disposed s C rt \<Longrightarrow> being_disposed s C rt'"
proof (induction k arbitrary: i rt)
  case (Suc k)
  then show ?case using body by (auto split: option.splits if_splits)
qed simp

lemma being_disposed_dispose:
  assumes core: "core_ok core"
  shows "scope_dispose n core env t rt = Some (rt', b) \<Longrightarrow> being_disposed s C rt \<Longrightarrow> being_disposed s C rt'"
proof (induction n arbitrary: t rt rt' b)
  case (Suc n)
  let ?body = "\<lambda>child rt. scope_dispose n core env child (mod_scope child (\<lambda>y. y\<lparr>sc_parent := None\<rparr>) rt)"
  show ?case
  proof (cases "t = s")
    case True
    then have "rt' = rt" using Suc.prems by (auto simp: dispose_eq being_disposed_def)
    with Suc.prems show ?thesis by simp
  next
    case False
    have loop: "being_disposed s C rt2" if "children_loop ?body t k i rt1 = Some (rt2, threw)" "being_disposed s C rt1" for k i rt1 rt2 threw
      using being_disposed_loop [OF _ that] Suc.IH being_disposed_any(2) by blast
    note mods = being_disposed_other(1) [OF _ False]
    note ends = being_disposed_end [OF core _ False, where env = env]
    show ?thesis
      using Suc.prems unfolding dispose_eq
      by (auto split: option.splits if_splits prod.splits dest!: loop [OF _ mods] intro: mods being_disposed_any(1))
        (metis ends fst_conv)
  qed
qed simp

text \<open>
  The number of children at the start is enough turns for the loops of both disposals: no child is
  added to a scope while it is being disposed of.
\<close>

lemma children_loop_turns:
  assumes body: "\<And>t rt rt' b. body t rt = Some (rt', b) \<Longrightarrow> being_disposed s C rt \<Longrightarrow> being_disposed s C rt'"
    and C: "finite C"
  shows "being_disposed s C rt \<Longrightarrow> card C \<le> k + i \<Longrightarrow> children_loop body s (k + more_turns) i rt = children_loop body s k i rt"
proof (induction k arbitrary: i rt)
  case 0
  have "length (sc_children x) \<le> i" if "rt_scopes rt s = Some x" for x
  proof -
    have "distinct (sc_children x)" "set (sc_children x) \<subseteq> C" using 0(1) that by (auto simp: being_disposed_def)
    then show ?thesis using card_mono [OF C, of "set (sc_children x)"] 0(2) by (simp add: distinct_card)
  qed
  then show ?case by (cases more_turns) (simp_all split: option.split)
next
  case (Suc k)
  have "children_loop body s (k + more_turns) (Suc i) rt' = children_loop body s k (Suc i) rt'" if "body t rt = Some (rt', b)" for t rt' b
    using Suc.IH [OF body [OF that Suc.prems(1)]] Suc.prems(2) by simp
  then show ?case by (simp split: option.split)
qed

lemma disposal_turns_suffice:
  assumes core: "core_ok core" and s: "rt_scopes rt s = Some x" "s < rt_next_scope rt" "distinct (sc_children x)"
  shows "children_loop (\<lambda>child rt. scope_dispose n core env child (mod_scope child (\<lambda>y. y\<lparr>sc_parent := None\<rparr>) rt))
      s (length (sc_children x) + more_turns) 0 (mod_scope s (\<lambda>x. x\<lparr>sc_refcount := 1, sc_disposing := True\<rparr>) rt) =
    children_loop (\<lambda>child rt. scope_dispose n core env child (mod_scope child (\<lambda>y. y\<lparr>sc_parent := None\<rparr>) rt))
      s (length (sc_children x)) 0 (mod_scope s (\<lambda>x. x\<lparr>sc_refcount := 1, sc_disposing := True\<rparr>) rt)"
    "children_loop (scope_dispose n core env) s (length (sc_children x) + more_turns) 0
      (mod_scope s (\<lambda>x. x\<lparr>sc_disposing := True\<rparr>) rt) =
    children_loop (scope_dispose n core env) s (length (sc_children x)) 0 (mod_scope s (\<lambda>x. x\<lparr>sc_disposing := True\<rparr>) rt)"
  by (rule children_loop_turns [where C = "set (sc_children x)"];
      use s being_disposed_dispose [OF core] being_disposed_any(2) in
        \<open>(simp add: being_disposed_def mod_scope_def distinct_card; fail)?, blast?\<close>)+

lemma grows_dispose_leave:
  assumes core: "core_ok core" and rt: "settled B rt"
  shows "grows B rt (fst (dispose_leave core env s parent rt))"
proof -
  let ?rt = "mod_scope s (\<lambda>x. x\<lparr>sc_refcount := sc_refcount x - 1\<rparr>) rt"
  note 1 = grows_flags(7) [OF rt, of s "\<lambda>x. sc_refcount x - 1"]
  have kept: "grows B rt (mod_scope s (\<lambda>x. x\<lparr>sc_disposing := False\<rparr>) ?rt)"
    using grows_trans [OF 1 grows_flags(3) [OF growsD(1) [OF 1]]] .
  define rt2 where "rt2 = (case parent of None \<Rightarrow> ?rt
    | Some p \<Rightarrow> mod_scope p (\<lambda>y. y\<lparr>sc_children := zc_remove_child core (sc_children y) s\<rparr>) ?rt)"
  have 2: "grows B rt rt2"
    using 1 grows_trans [OF 1 grows_remove_child [OF core growsD(1) [OF 1]]] by (simp add: rt2_def split: option.split)
  have freed: "grows B rt (rt2\<lparr>rt_scopes := (rt_scopes rt2)(s := None)\<rparr>)"
    using grows_trans [OF 2 grows_free_scope [OF growsD(1) [OF 2]]] .
  show ?thesis
    using kept freed unfolding dispose_leave_def Let_def rt2_def [symmetric] by (simp only: split: if_split) simp
qed

lemma grows_dispose_end:
  assumes core: "core_ok core" and rt: "settled B rt"
  shows "grows B rt (fst (dispose_end core env s parent rt))"
proof -
  note 1 = grows_notify [OF rt, of s None]
  obtain rt2 b where fin: "async_scope_call_finally_handlers env s (notify_scope s None rt) = (rt2, b)" by fastforce
  note f = grows_scope_finally [OF growsD(1) [OF 1], of env s, unfolded fin fst_conv snd_conv]
  note 2 = grows_trans [OF 1 f(1)]
  show ?thesis
  proof (cases b)
    case True
    let ?rt = "if env_listeners_throw env s then async_spawn_and_throw 0 s rt2 else rt2"
    have 3: "grows B rt ?rt"
      using 2 grows_trans [OF 2 grows_spawn_and_throw [OF growsD(1) [OF 2] f(2) [OF True]]] by simp
    from grows_trans [OF 3 grows_flags(3) [OF growsD(1) [OF 3]]] show ?thesis
      using True fin by (simp add: dispose_end_def Let_def)
  next
    case False
    from grows_trans [OF 2 grows_dispose_leave [OF core growsD(1) [OF 2]]] False fin show ?thesis
      by (simp add: dispose_end_def)
  qed
qed

lemma dispose_returns:
  assumes core: "core_ok core"
  shows "settled B rt \<Longrightarrow> B - s < n \<Longrightarrow> \<exists>rt' b. scope_dispose n core env s rt = Some (rt', b) \<and> grows B rt rt'"
proof (induction n arbitrary: s rt)
  case (Suc n)
  note rt = Suc.prems(1)
  show ?case
  proof (cases "rt_scopes rt s")
    case None
    then have "scope_dispose (Suc n) core env s rt = Some (rt, False)" by (simp add: dispose_eq)
    with grows_refl [OF rt] show ?thesis by blast
  next
    case (Some x)
    let ?rt = "mod_scope s (\<lambda>x. x\<lparr>sc_refcount := 1, sc_disposing := True\<rparr>) rt"
    let ?body = "\<lambda>child rt. scope_dispose n core env child (mod_scope child (\<lambda>y. y\<lparr>sc_parent := None\<rparr>) rt)"
    note 1 = grows_flags(6) [OF rt, where n = "\<lambda>_. 1" and b = True and s = s]
    have "\<exists>rt' b. children_loop ?body s (length (sc_children x)) 0 ?rt = Some (rt', b) \<and> grows B ?rt rt'"
    proof (rule children_loop_grows [OF _ growsD(1) [OF 1]])
      fix rt1 y t assume child: "settled B rt1" "rt_scopes rt1 s = Some y" "t \<in> set (sc_children y)"
      note g = grows_flags(8) [OF child(1), of t]
      have "B - t < n" using settled_child [OF child] Suc.prems(2) by linarith
      with Suc.IH [OF growsD(1) [OF g]] grows_trans [OF g]
      show "\<exists>rt' b. ?body t rt1 = Some (rt', b) \<and> grows B rt1 rt'" by blast
    qed
    then obtain rt2 threw where rt2: "children_loop ?body s (length (sc_children x)) 0 ?rt = Some (rt2, threw)" "grows B rt rt2"
      using grows_trans [OF 1] by blast
    note rc = grows_flags(7) [OF rt, of s "\<lambda>x. sc_refcount x - 1"]
    note a = grows_refl [OF rt] and b = grows_trans [OF rc grows_notify [OF growsD(1) [OF rc], of s None]]
      and c = grows_trans [OF rt2(2) grows_flags(3) [OF growsD(1) [OF rt2(2)], of s False]]
      and d = grows_trans [OF rt2(2) grows_dispose_end [OF core growsD(1) [OF rt2(2)], of env s "sc_parent x"]]
    show ?thesis
    proof (cases "sc_disposing x")
      case True
      then have "scope_dispose (Suc n) core env s rt = Some (rt, False)" using Some by (simp add: dispose_eq)
      with a show ?thesis by blast
    next
      case False
      note live = this
      show ?thesis
      proof (cases "1 < sc_refcount x")
        case True
        then have "scope_dispose (Suc n) core env s rt =
          Some (notify_scope s None (mod_scope s (\<lambda>x. x\<lparr>sc_refcount := sc_refcount x - 1\<rparr>) rt), env_listeners_throw env s)"
          using Some live by (simp add: dispose_eq)
        with b show ?thesis by blast
      next
        case False
        then have "scope_dispose (Suc n) core env s rt =
          Some (if threw then (mod_scope s (\<lambda>x. x\<lparr>sc_disposing := False\<rparr>) rt2, True)
                else dispose_end core env s (sc_parent x) rt2)"
          using Some live rt2(1) by (simp add: dispose_eq del: scope_dispose.simps)
        with c d show ?thesis by (cases threw; cases "dispose_end core env s (sc_parent x) rt2") auto
      qed
    qed
  qed
qed simp

lemma try_to_dispose_returns:
  assumes core: "core_ok core" and rt: "settled B rt" and n: "B - s < n"
  shows "\<exists>rt' b. scope_try_to_dispose n core env s rt = Some (rt', b) \<and> grows B rt rt'"
proof (cases "\<exists>x. rt_scopes rt s = Some x \<and> \<not> sc_disposing x")
  case False
  then have "scope_try_to_dispose n core env s rt = Some (rt, True)"
    by (auto simp: scope_try_to_dispose_def split: option.split)
  with grows_refl [OF rt] show ?thesis by blast
next
  case True
  then obtain x where x: "rt_scopes rt s = Some x" "\<not> sc_disposing x" by blast
  obtain b where b: "scope_can_be_disposed n rt (fst (zc_can_be_disposed core)) (snd (zc_can_be_disposed core)) s = Some b"
    using can_be_disposed_returns [OF settled_tree_bound [OF rt] n] by blast
  let ?rt = "mod_scope s (\<lambda>x. x\<lparr>sc_disposing := True\<rparr>) rt"
  note 1 = grows_flags(3) [OF rt, of s True]
  have "\<exists>rt' b. children_loop (scope_dispose n core env) s (length (sc_children x)) 0 ?rt = Some (rt', b) \<and> grows B ?rt rt'"
  proof (rule children_loop_grows [OF _ growsD(1) [OF 1]])
    fix rt1 y t assume child: "settled B rt1" "rt_scopes rt1 s = Some y" "t \<in> set (sc_children y)"
    have "B - t < n" using settled_child [OF child] n by linarith
    then show "\<exists>rt' b. scope_dispose n core env t rt1 = Some (rt', b) \<and> grows B rt1 rt'"
      by (rule dispose_returns [OF core child(1)])
  qed
  then obtain rt2 threw where rt2: "children_loop (scope_dispose n core env) s (length (sc_children x)) 0 ?rt = Some (rt2, threw)"
      "grows B rt rt2"
    using grows_trans [OF 1] by blast
  note 3 = grows_trans [OF rt2(2) grows_flags(3) [OF growsD(1) [OF rt2(2)], of s False]]
  obtain rt4 b4 where rt4: "scope_dispose n core env s (mod_scope s (\<lambda>x. x\<lparr>sc_disposing := False\<rparr>) rt2) = Some (rt4, b4)"
      "grows B rt rt4"
    using dispose_returns [OF core growsD(1) [OF 3] n] grows_trans [OF 3] by blast
  have "scope_try_to_dispose n core env s rt = Some (if \<not> b then (rt, False)
      else if threw then (mod_scope s (\<lambda>x. x\<lparr>sc_disposing := False\<rparr>) rt2, False) else (rt4, True))"
    using x b rt2(1) rt4(1) by (simp add: scope_try_to_dispose_def Let_def)
  with grows_refl [OF rt] 3 rt4(2) show ?thesis by (auto split: if_splits)
qed


subsection \<open>A coroutine leaves its scope\<close>

lemma vector_index_Some: "vector_index xs c = Some i \<Longrightarrow> i < length xs \<and> xs ! i = c"
  by (induction xs arbitrary: i) (auto split: if_splits)

lemma vector_index_None: "vector_index xs c = None \<longleftrightarrow> c \<notin> set xs"
  by (induction xs) auto

lemma vector_remove_mset:
  assumes "i < length xs"
  shows "mset (vector_remove xs i) = mset xs - {#xs ! i#}"
proof -
  let ?ys = "xs[i := last xs]"
  have "xs \<noteq> []" using assms by auto
  then have "?ys \<noteq> []" "last ?ys = last xs" by (simp_all add: last_list_update)
  then have "?ys = butlast ?ys @ [last xs]" by (metis append_butlast_last_id)
  then have "mset ?ys = add_mset (last xs) (mset (butlast ?ys))" by (metis mset_append mset_single_iff_right union_mset_add_mset_right add.right_neutral mset.simps)
  moreover have "mset ?ys = add_mset (last xs) (mset xs - {#xs ! i#})" using assms by (rule mset_update)
  ultimately show ?thesis by (simp add: vector_remove_def)
qed

lemma filter_remove1_length:
  "length (filter P xs) = length (filter P (remove1 c xs)) + (if c \<in> set xs \<and> P c then 1 else 0)"
  by (induction xs) auto

lemma vector_remove_props:
  assumes "distinct xs" and "vector_index xs c = Some i"
  shows "distinct (vector_remove xs i)" and "set (vector_remove xs i) = set xs - {c}"
    and "length (filter P xs) = length (filter P (vector_remove xs i)) + (if P c then 1 else 0)"
    and "length (vector_remove xs i) < length xs"
proof -
  have i: "i < length xs" "xs ! i = c" using vector_index_Some [OF assms(2)] by auto
  then have c: "c \<in> set xs" by auto
  have m: "mset (vector_remove xs i) = mset (remove1 c xs)" using vector_remove_mset [OF i(1)] i(2) by simp
  show "distinct (vector_remove xs i)" using assms(1) mset_eq_imp_distinct_iff [OF m] by simp
  show "set (vector_remove xs i) = set xs - {c}" using mset_eq_setD [OF m] assms(1) by simp
  have "length (filter P (vector_remove xs i)) = length (filter P (remove1 c xs))"
    using m by (metis mset_filter size_mset)
  moreover have "length (filter P xs) = length (filter P (remove1 c xs)) + (if P c then 1 else 0)"
    using c filter_remove1_length [of P xs c] by simp
  ultimately show "length (filter P xs) = length (filter P (vector_remove xs i)) + (if P c then 1 else 0)" by simp
  show "length (vector_remove xs i) < length xs" using i by (simp add: vector_remove_def)
qed

text \<open>What the removal does to the scope.\<close>

definition without_coroutine :: "bool \<Rightarrow> nat \<Rightarrow> async_scope \<Rightarrow> async_scope" where
  "without_coroutine z c x =
     (case vector_index (sc_coroutines x) c of
        None \<Rightarrow> x
      | Some i \<Rightarrow>
          (let x = (if \<not> z \<and> 0 < sc_active x then x\<lparr>sc_active := sc_active x - 1\<rparr>
                    else if 0 < sc_zombies x then x\<lparr>sc_zombies := sc_zombies x - 1\<rparr>
                    else x)
           in x\<lparr>sc_coroutines := vector_remove (sc_coroutines x) i\<rparr>))"

lemma remove_coroutine_eq:
  "async_scope_remove_coroutine s c rt = mod_scope s (without_coroutine (zombie rt c) c) rt"
  by (simp add: async_scope_remove_coroutine_def without_coroutine_def [abs_def] zombie_def)

lemma without_coroutine_fields [simp]:
  "sc_children (without_coroutine z c x) = sc_children x"
  "sc_parent (without_coroutine z c x) = sc_parent x"
  "sc_finally_handlers (without_coroutine z c x) = sc_finally_handlers x"
  "sc_capacity (without_coroutine z c x) = sc_capacity x"
  by (simp_all add: without_coroutine_def Let_def split: option.split)

lemma without_coroutine_set:
  assumes "distinct (sc_coroutines x)"
  shows "set (sc_coroutines (without_coroutine z c x)) = set (sc_coroutines x) - {c}"
proof (cases "vector_index (sc_coroutines x) c")
  case None
  then have "c \<notin> set (sc_coroutines x)" using vector_index_None by fastforce
  with None show ?thesis by (simp add: without_coroutine_def)
next
  case (Some i)
  with vector_remove_props(2) [OF assms Some] show ?thesis by (simp add: without_coroutine_def Let_def)
qed

lemma without_coroutine_inv:
  assumes x: "scope_inv rt s x"
  shows "scope_inv rt s (without_coroutine (zombie rt c) c x)"
proof (cases "vector_index (sc_coroutines x) c")
  case None
  with x show ?thesis by (simp add: without_coroutine_def)
next
  case (Some i)
  have d: "distinct (sc_coroutines x)" using x by (simp add: scope_inv_def)
  let ?v = "vector_remove (sc_coroutines x) i"
  note props = vector_remove_props [OF d Some]
  have counts: "sc_active x = length (filter (\<lambda>d. \<not> zombie rt d) ?v) + (if \<not> zombie rt c then 1 else 0)"
    "sc_zombies x = length (filter (zombie rt) ?v) + (if zombie rt c then 1 else 0)"
    using x props(3) [of "\<lambda>d. \<not> zombie rt d"] props(3) [of "zombie rt"] by (simp_all add: scope_inv_def)
  then have "without_coroutine (zombie rt c) c x = x\<lparr>sc_coroutines := ?v,
      sc_active := length (filter (\<lambda>d. \<not> zombie rt d) ?v), sc_zombies := length (filter (zombie rt) ?v)\<rparr>"
    using Some by (simp add: without_coroutine_def Let_def)
  with x props(1,2,4) show ?thesis by (auto simp: scope_inv_def)
qed

lemma settled_remove_coroutine:
  assumes rt: "settled B rt" and c: "rt_coroutines rt c = Some w" "co_finished w"
  shows "settled B (async_scope_remove_coroutine s c rt)" (is "settled B ?rt")
proof (rule settledI)
  note inv = settledD(1) [OF rt]
  have scopes: "\<exists>x. rt_scopes rt t = Some x \<and> y = (if t = s then without_coroutine (zombie rt c) c x else x)"
    if "rt_scopes ?rt t = Some y" for t y
    using that by (auto simp: remove_coroutine_eq split: if_splits)
  show "runtime_inv ?rt"
  proof (rule runtime_invI)
    fix d x assume d: "rt_coroutines ?rt d = Some x"
    then have d': "rt_coroutines rt d = Some x" by (simp add: remove_coroutine_eq)
    show "coroutine_inv ?rt d x"
    proof (cases "d = c")
      case True
      with d' c runtime_invD(1) [OF inv d'] show ?thesis by (auto simp: coroutine_inv_def remove_coroutine_eq)
    next
      case False
      show ?thesis
      proof (rule coroutine_inv_cong [OF runtime_invD(1) [OF inv d'] coroutine_same_refl])
        fix t z' assume "rt_scopes ?rt t = Some z'"
        then obtain z where z: "rt_scopes rt t = Some z" "z' = (if t = s then without_coroutine (zombie rt c) c z else z)"
          using scopes by blast
        then show "\<exists>z. rt_scopes rt t = Some z \<and> (d \<in> set (sc_coroutines z) \<longrightarrow> d \<in> set (sc_coroutines z'))"
          using runtime_invD(2) [OF inv z(1)] without_coroutine_set [of z] False by (simp add: scope_inv_def)
      qed (simp_all add: remove_coroutine_eq)
    qed
  next
    fix t y assume "rt_scopes ?rt t = Some y"
    then obtain x where x: "rt_scopes rt t = Some x" "y = (if t = s then without_coroutine (zombie rt c) c x else x)"
      using scopes by blast
    then have "scope_inv rt t y" using runtime_invD(2) [OF inv x(1)] by (auto intro: without_coroutine_inv)
    then show "scope_inv ?rt t y" by (simp add: scope_inv_def remove_coroutine_eq)
  next
    show "lists_inv ?rt" using runtime_invD(3) [OF inv] by (simp add: lists_inv_def remove_coroutine_eq)
  qed
  show "B \<le> rt_next_scope ?rt" using settledD(2) [OF rt] by (simp add: remove_coroutine_eq)
  fix t y assume t: "B \<le> t" "rt_scopes ?rt t = Some y"
  then obtain x where x: "rt_scopes rt t = Some x" "y = (if t = s then without_coroutine (zombie rt c) c x else x)"
    using scopes by blast
  with settledD(3) [OF rt t(1) x(1)] show "late_scope B y" by (simp add: late_scope_def)
qed


lemma remove_coroutine_gone:
  assumes "runtime_inv rt" and "rt_coroutines rt c = Some w" and "co_scope w = Some s"
    and "rt_scopes (async_scope_remove_coroutine s c rt) t = Some y"
  shows "c \<notin> set (sc_coroutines y)"
proof (cases "t = s")
  case True
  with assms obtain x where x: "rt_scopes rt s = Some x" "y = without_coroutine (zombie rt c) c x"
    by (auto simp: remove_coroutine_eq)
  with runtime_invD(2) [OF assms(1) x(1)] without_coroutine_set [of x] show ?thesis by (simp add: scope_inv_def)
next
  case False
  with assms(4) have "rt_scopes rt t = Some y" by (simp add: remove_coroutine_eq)
  with runtime_invD(2) [OF assms(1) this] assms(2,3) False show ?thesis by (auto simp: scope_inv_def)
qed

text \<open>
  A finished coroutine that no scope lists any more: forgetting its scope, taking it off the
  registry and freeing it keep the invariant.
\<close>

lemma forget_scope_inv:
  assumes inv: "runtime_inv rt" and c: "rt_coroutines rt c = Some w" "co_finished w"
    and gone: "\<And>t y. rt_scopes rt t = Some y \<Longrightarrow> c \<notin> set (sc_coroutines y)"
  shows "runtime_inv (mod_coroutine c (\<lambda>x. x\<lparr>co_scope := None\<rparr>) rt)" (is "runtime_inv ?rt")
proof (rule runtime_invI)
  have z: "zombie ?rt = zombie rt" by (auto simp: zombie_def fun_eq_iff split: option.split)
  {
    fix d x assume d: "rt_coroutines ?rt d = Some x"
    show "coroutine_inv ?rt d x"
    proof (cases "d = c")
      case True
      with d c runtime_invD(1) [OF inv c(1)] show ?thesis by (auto simp: coroutine_inv_def queued_def)
    next
      case False
      with d have "rt_coroutines rt d = Some x" by simp
      from runtime_invD(1) [OF inv this] show ?thesis by (rule coroutine_inv_cong) auto
    qed
  next
    fix t y assume "rt_scopes ?rt t = Some y"
    then have t: "rt_scopes rt t = Some y" by simp
    from gone [OF t] runtime_invD(2) [OF inv t]
    show "scope_inv ?rt t y" by (auto simp: scope_inv_def z)
  next
    show "lists_inv ?rt" using runtime_invD(3) [OF inv] by (auto simp: lists_inv_def z)
  }
qed

lemma leave_inv:
  assumes core: "core_ok core" and inv: "runtime_inv rt" and c: "rt_coroutines rt c = Some w" "co_finished w"
  shows "runtime_inv (coroutine_leave core c rt)" (is "runtime_inv ?rt")
proof (rule runtime_invI)
  let ?l = "rt_coroutine_list rt"
  have z: "zombie ?rt = zombie rt" by (simp add: coroutine_leave_def zombie_def fun_eq_iff)
  have l: "distinct ?l" using runtime_invD(3) [OF inv] by (simp add: lists_inv_def)
  {
    fix d x assume d: "rt_coroutines ?rt d = Some x"
    then have d': "rt_coroutines rt d = Some x" by (simp add: coroutine_leave_def)
    have "d \<in> set (remove1 c ?l) \<longleftrightarrow> d \<in> set ?l \<and> d \<noteq> c" using l by auto
    then show "coroutine_inv ?rt d x"
      using runtime_invD(1) [OF inv d'] c d' by (cases "d = c") (auto simp: coroutine_inv_def coroutine_leave_def)
  next
    fix t y assume "rt_scopes ?rt t = Some y"
    then show "scope_inv ?rt t y"
      using runtime_invD(2) [OF inv, of t y] by (simp add: scope_inv_def z) (simp add: coroutine_leave_def)
  next
    have "length (filter (\<lambda>c. \<not> zombie rt c) ?l) =
        length (filter (\<lambda>c. \<not> zombie rt c) (remove1 c ?l)) + (if c \<in> set ?l \<and> \<not> zombie rt c then 1 else 0)"
      by (rule filter_remove1_length)
    then show "lists_inv ?rt"
      using runtime_invD(3) [OF inv] c(1) set_remove1_subset [of c ?l] decrease_count [OF core, of "rt_coroutine_count rt"]
      by (auto simp: lists_inv_def z) (auto simp: coroutine_leave_def zombie_def split: if_splits)
  }
qed


subsection \<open>The end of a coroutine\<close>

lemma finish_inv:
  assumes inv: "runtime_inv rt" and c: "rt_coroutines rt c = Some x" "\<not> queued x"
    and f: "co_finished (f x)" "co_scope (f x) = co_scope x" "co_zombie (f x) = co_zombie x"
      "co_started (f x) = co_started x" "\<not> queued (f x)"
  shows "runtime_inv (mod_coroutine c f rt)" (is "runtime_inv ?rt")
proof (rule runtime_invI)
  have z: "zombie ?rt = zombie rt" using c(1) f(3) by (auto simp: zombie_def fun_eq_iff split: option.split)
  {
    fix d y assume d: "rt_coroutines ?rt d = Some y"
    show "coroutine_inv ?rt d y"
    proof (cases "d = c")
      case True
      with d c f runtime_invD(1) [OF inv c(1)] show ?thesis by (auto simp: coroutine_inv_def)
    next
      case False
      with d have "rt_coroutines rt d = Some y" by simp
      from runtime_invD(1) [OF inv this] show ?thesis by (rule coroutine_inv_cong) auto
    qed
  next
    fix t y assume "rt_scopes ?rt t = Some y"
    then show "scope_inv ?rt t y"
      using runtime_invD(2) [OF inv, of t y] c(1) f(2) by (auto simp: scope_inv_def z)
  next
    show "lists_inv ?rt" using runtime_invD(3) [OF inv] by (auto simp: lists_inv_def z)
  }
qed

lemma finalize_exception_fields [simp]:
  "co_finished (finalize_exception e x) = co_finished x" "co_scope (finalize_exception e x) = co_scope x"
  "co_zombie (finalize_exception e x) = co_zombie x" "co_started (finalize_exception e x) = co_started x"
  "co_waker_status (finalize_exception e x) = co_waker_status x"
  "co_finally_handlers (finalize_exception e x) = co_finally_handlers x" "co_bailout (finalize_exception e x) = co_bailout x"
  by (simp_all add: finalize_exception_def split: option.split)

lemma grows_coroutine_finally:
  assumes rt: "settled B rt" and c: "rt_coroutines rt c = Some x" and s: "\<And>s. co_scope x = Some s \<Longrightarrow> s < B"
  shows "grows B rt (coroutine_call_finally_handlers c rt)"
proof -
  let ?rt = "mod_coroutine c (\<lambda>x. x\<lparr>co_finally_handlers := []\<rparr>) rt"
  have "runtime_inv ?rt"
    by (rule mod_coroutine_inv [OF settledD(1) [OF rt]]) (simp add: coroutine_same_def queued_def)
  then have "settled B ?rt" by (rule settled_same_tree [OF rt]) (simp add: same_tree_def)
  then have 1: "grows B rt ?rt"
    by (simp add: grows_def frame_mod_coroutine coroutine_frame_def told_def)
  show ?thesis
    using 1 grows_trans [OF 1 grows_call_finally [OF growsD(1) [OF 1] s]] c
    by (auto simp: coroutine_call_finally_handlers_def Let_def split: option.split)
qed

lemma notify_finished_returns:
  assumes core: "core_ok core" and rt: "settled B rt" and n: "2 * B < n"
    and c: "rt_coroutines rt c = Some x" "co_finished x" "co_scope x = Some s"
  shows "\<exists>rt'. async_scope_notify_coroutine_finished (dispose_if_possible n core env) n c rt = Some rt' \<and> settled B rt' \<and>
    (\<exists>y. rt_coroutines rt' c = Some y \<and> co_finished y) \<and>
    (\<forall>t y. rt_scopes rt' t = Some y \<longrightarrow> c \<notin> set (sc_coroutines y))"
proof -
  let ?rt = "async_scope_remove_coroutine s c rt"
  note rem = settled_remove_coroutine [OF rt c(1,2), of s]
  have "scope_check_completion_and_notify n True s ?rt \<noteq> None"
    using check_completion_returns [OF settled_tree_bound [OF rem]] n by simp
  then obtain l where l: "scope_check_completion_and_notify n True s ?rt = Some (?rt\<lparr>rt_log := l\<rparr>)"
    using check_completion_log by blast
  have "B - s < n" using n by linarith
  from try_to_dispose_returns [OF core _ this, of "?rt\<lparr>rt_log := l\<rparr>" env] rem obtain rt' b where
    rt': "scope_try_to_dispose n core env s (?rt\<lparr>rt_log := l\<rparr>) = Some (rt', b)" "grows B (?rt\<lparr>rt_log := l\<rparr>) rt'"
    by auto
  have c': "rt_coroutines (?rt\<lparr>rt_log := l\<rparr>) c = Some x" using c(1) by (simp add: remove_coroutine_eq)
  have "\<exists>y. rt_coroutines rt' c = Some y \<and> co_finished y"
    using frameD(1) [OF growsD(2) [OF rt'(2)] c'] c(2) by (auto simp: coroutine_frame_def)
  moreover have "c \<notin> set (sc_coroutines y)" if "rt_scopes rt' t = Some y" for t y
    using frameD(2) [OF growsD(2) [OF rt'(2)] c' that] remove_coroutine_gone [OF settledD(1) [OF rt] c(1,3)] by auto
  ultimately show ?thesis
    using c(1,3) l rt' growsD(1) [OF rt'(2)]
    by (auto simp: async_scope_notify_coroutine_finished_def dispose_if_possible_def)
qed


lemma settled_leave:
  assumes core: "core_ok core" and rt: "settled B rt" and c: "rt_coroutines rt c = Some w" "co_finished w"
    and gone: "\<And>t y. rt_scopes rt t = Some y \<Longrightarrow> c \<notin> set (sc_coroutines y)"
  shows "settled B (coroutine_leave core c (mod_coroutine c (\<lambda>x. x\<lparr>co_scope := None\<rparr>) rt))"
proof -
  let ?rt = "mod_coroutine c (\<lambda>x. x\<lparr>co_scope := None\<rparr>) rt"
  have "runtime_inv ?rt" by (rule forget_scope_inv [OF settledD(1) [OF rt] c gone])
  then have "runtime_inv (coroutine_leave core c ?rt)"
    by (rule leave_inv [OF core, where w = "w\<lparr>co_scope := None\<rparr>"]) (use c in simp_all)
  then show ?thesis by (rule settled_same_tree [OF rt]) (simp add: same_tree_def coroutine_leave_def)
qed

lemma no_status_inv:
  assumes inv: "runtime_inv rt" and c: "rt_coroutines rt c = Some x" "\<not> queued x"
  shows "runtime_inv (mod_coroutine c (\<lambda>x. x\<lparr>co_waker_status := ZEND_ASYNC_WAKER_NO_STATUS, co_waker_error := None\<rparr>) rt)"
  using c by (intro mod_coroutine_inv [OF inv]) (auto simp: coroutine_same_def queued_def)

text \<open>
  \<^verbatim>\<open>async_coroutine_finalize\<close> returns and keeps the invariant: after it the coroutine is finished, in
  no scope, not queued and not registered.
\<close>

lemma finalize_returns:
  assumes core: "core_ok core" and rt: "settled B rt" and n: "4 * B + 2 < n"
    and c: "rt_coroutines rt c = Some x" "\<not> queued x" and s: "co_scope x = Some s" "s < B"
  shows "\<exists>rt' r. async_coroutine_finalize n core env c pending handled unobserved rt = Some (rt', r) \<and> settled B rt' \<and>
    c \<notin> set (rt_coroutine_list rt') \<and> (\<exists>y. rt_coroutines rt' c = Some y \<and> co_finished y \<and> co_scope y = None)"
proof -
  let ?f = "\<lambda>x. finalize_exception pending (x\<lparr>co_finished := True\<rparr>)"
  let ?g = "\<lambda>x. x\<lparr>co_waker_status := ZEND_ASYNC_WAKER_NO_STATUS, co_waker_error := None\<rparr>"
  let ?rt1 = "mod_coroutine c ?f rt"
  define rt2 where "rt2 = (if co_finally_handlers x = [] then ?rt1 else coroutine_call_finally_handlers c ?rt1)"
  define rt3 where "rt3 = mod_coroutine c ?g rt2"
  define ex where "ex = (case (case pending of Some e \<Rightarrow> Some e | None \<Rightarrow> co_exception x) of None \<Rightarrow> None
    | Some e \<Rightarrow> if handled \<or> th_cancellation e then None else Some e)"
  have "runtime_inv ?rt1" using c by (intro finish_inv [OF settledD(1) [OF rt] c]) (auto simp: queued_def)
  then have rt1: "settled B ?rt1" by (rule settled_same_tree [OF rt]) (simp add: same_tree_def)
  have c1: "rt_coroutines ?rt1 c = Some (?f x)" using c by simp
  have "grows B ?rt1 rt2"
    using grows_refl [OF rt1] grows_coroutine_finally [OF rt1 c1] s by (simp add: rt2_def)
  moreover obtain y where y: "rt_coroutines rt2 c = Some y" "coroutine_frame (?f x) y"
    using frameD(1) [OF growsD(2) [OF calculation] c1] by blast
  ultimately have rt2: "settled B rt2" "rt_coroutines rt2 c = Some y" "co_finished y" "co_scope y = Some s"
    using growsD(1) s(1) by (auto simp: coroutine_frame_def)
  have nq: "\<not> queued y" using runtime_invD(1) [OF settledD(1) [OF rt2(1)] rt2(2)] rt2(3) by (auto simp: coroutine_inv_def)
  have "runtime_inv rt3" unfolding rt3_def by (rule no_status_inv [OF settledD(1) [OF rt2(1)] rt2(2) nq])
  then have rt3: "settled B rt3" by (rule settled_same_tree [OF rt2(1)]) (simp add: same_tree_def rt3_def)
  have c3: "rt_coroutines rt3 c = Some (?g y)" using rt2 by (simp add: rt3_def)
  define caught where "caught = (case ex of None \<Rightarrow> Some (rt3, Exception_not_taken)
    | Some e \<Rightarrow> (case co_scope x of None \<Rightarrow> Some (rt3, Exception_not_taken)
        | Some s \<Rightarrow> scope_catch_or_cancel n core env s (Some c) None (Some e)
            (case rt_scopes rt3 s of None \<Rightarrow> False | Some y \<Rightarrow> sc_dispose_safely y) False rt3))"
  have "\<exists>rt4 b. caught = Some (rt4, b) \<and> grows B rt3 rt4"
  proof (cases ex)
    case None
    with grows_refl [OF rt3] show ?thesis by (simp add: caught_def)
  next
    case (Some e)
    have "3 * B + s + 2 < n" using n s(2) by linarith
    from catch_mode_returns [OF core rt3 s(2) _ this, of None env "Some c" "Some e"] show ?thesis
      using Some s(1) by (simp add: caught_def)
  qed
  then obtain rt4 b where rt4: "caught = Some (rt4, b)" "grows B rt3 rt4" by blast
  obtain z where z: "rt_coroutines rt4 c = Some z" "co_finished z" "co_scope z = Some s"
    using frameD(1) [OF growsD(2) [OF rt4(2)] c3] rt2(3,4) by (auto simp: coroutine_frame_def)
  have "2 * B < n" using n by linarith
  from notify_finished_returns [OF core growsD(1) [OF rt4(2)] this z, of env] obtain rt5 w where
    rt5: "async_scope_notify_coroutine_finished (dispose_if_possible n core env) n c rt4 = Some rt5" "settled B rt5"
      "rt_coroutines rt5 c = Some w" "co_finished w" "\<And>t y. rt_scopes rt5 t = Some y \<Longrightarrow> c \<notin> set (sc_coroutines y)"
    by blast
  let ?rt6 = "coroutine_leave core c (mod_coroutine c (\<lambda>x. x\<lparr>co_scope := None\<rparr>) rt5)"
  have "async_coroutine_finalize n core env c pending handled unobserved rt =
      Some (?rt6, if b = Exception_taken \<or> \<not> unobserved then None else ex)"
    unfolding async_coroutine_finalize_def c(1) option.case Let_def
    unfolding rt2_def [symmetric] unfolding rt3_def [symmetric] ex_def [symmetric] prod.case
    unfolding caught_def [symmetric] rt4(1) option.case prod.case rt5(1) ..
  moreover have "c \<notin> set (rt_coroutine_list ?rt6)"
    using runtime_invD(3) [OF settledD(1) [OF rt5(2)]] by (simp add: coroutine_leave_def lists_inv_def)
  ultimately show ?thesis
    using settled_leave [OF core rt5(2-5)] rt5(3,4) by (auto simp: coroutine_leave_def)
qed

end
