(* ===== verification/Runtime_Steps.thy ===== *)
theory Runtime_Steps
  imports Scope_Completion Step_Interface
begin

text \<open>
  The runtime as a transition system: what coroutines, the scheduler and PHP code can make of it,
  in any order.  Every step keeps the invariant; the bound on the depth of the recursions that a
  step needs depends only on the number of scopes.
\<close>

definition depth_bound :: "runtime \<Rightarrow> nat" where
  "depth_bound rt = 4 * rt_next_scope rt + 3"

definition empty_runtime :: runtime where
  "empty_runtime = \<lparr>rt_scopes = (\<lambda>_. None), rt_coroutines = (\<lambda>_. None), rt_queue = [], rt_resumed = [],
     rt_coroutine_list = [], rt_coroutine_count = 0, rt_current = None, rt_scheduler_context = False,
     rt_next_scope = 0, rt_next_coroutine = 0, rt_log = []\<rparr>"

text \<open>
  Coroutines are spawned without a strategy; one that is resumed has started, has not ended and
  is not waiting to be discarded; one that ends was running.
\<close>

inductive runtime_step :: "zend_core \<Rightarrow> runtime_env \<Rightarrow> runtime \<Rightarrow> runtime \<Rightarrow> bool" for core env where
  Step_new_scope: "(\<forall>p. parent = Some p \<longrightarrow> rt_scopes rt p \<noteq> None) \<Longrightarrow> async_new_scope parent obj rt = (rt', s) \<Longrightarrow>
    runtime_step core env rt rt'"
| Step_spawn: "spawn try_to_dispose n scheduler_scope (Some s) None priority rt = Some (rt', r) \<Longrightarrow> runtime_step core env rt rt'"
| Step_enqueue: "rt_coroutines rt c = Some x \<Longrightarrow> \<not> co_finished x \<Longrightarrow>
    runtime_step core env rt (fst (async_scheduler_coroutine_enqueue core c rt))"
| Step_resume: "rt_coroutines rt c = Some x \<Longrightarrow> \<not> co_finished x \<Longrightarrow> co_started x \<Longrightarrow>
    co_waker_status x \<noteq> ZEND_ASYNC_WAKER_IGNORED \<Longrightarrow>
    runtime_step core env rt (fst (async_coroutine_resume c error rt))"
| Step_cancel: "async_coroutine_cancel core (depth_bound rt) c error safely rt = Some (rt', r) \<Longrightarrow>
    runtime_step core env rt rt'"
| Step_context: "runtime_step core env rt (rt\<lparr>rt_scheduler_context := b\<rparr>)"
| Step_protect: "runtime_step core env rt (mod_coroutine c (\<lambda>x. x\<lparr>co_protected := b\<rparr>) rt)"
| Step_suspend: "rt_current rt = Some c \<Longrightarrow> runtime_step core env rt (fst (coroutine_suspend core has_events c rt))"
| Step_dispatch: "rt_queue rt = c # q \<Longrightarrow> rt_coroutines rt c = Some x \<Longrightarrow>
    co_waker_status x = ZEND_ASYNC_WAKER_QUEUED \<Longrightarrow>
    runtime_step core env rt (fst (coroutine_enter c (rt\<lparr>rt_queue := q\<rparr>)))"
| Step_ignored: "rt_queue rt = c # q \<Longrightarrow> rt_coroutines rt c = Some x \<Longrightarrow>
    co_waker_status x = ZEND_ASYNC_WAKER_IGNORED \<Longrightarrow> co_cancelled x \<Longrightarrow>
    coroutine_execute_ignored (depth_bound rt) core env c handled last_ref (rt\<lparr>rt_queue := q\<rparr>) = Some (rt', r) \<Longrightarrow>
    runtime_step core env rt rt'"
| Step_finalize: "rt_current rt = Some c \<Longrightarrow> rt_coroutines rt c = Some x \<Longrightarrow> \<not> co_finished x \<Longrightarrow>
    \<not> zc_in_queue core (co_waker_status x) \<Longrightarrow>
    async_coroutine_finalize (depth_bound rt) core env c pending handled unobserved rt = Some (rt', r) \<Longrightarrow>
    runtime_step core env rt rt'"
| Step_scope_cancel: "scope_cancel_method (depth_bound rt) core env this e rt = Some rt' \<Longrightarrow> runtime_step core env rt rt'"
| Step_scope_dispose: "scope_dispose_method (depth_bound rt) core env this rt = Some rt' \<Longrightarrow> runtime_step core env rt rt'"
| Step_scope_disposeSafely: "scope_disposeSafely_method (depth_bound rt) core env this rt = Some rt' \<Longrightarrow>
    runtime_step core env rt rt'"
| Step_scope_destroyed: "scope_object_destroyed (depth_bound rt) core env s rt = Some rt' \<Longrightarrow>
    runtime_step core env rt rt'"
| Step_scope_finally: "runtime_step core env rt (scope_finally this h rt)"
| Step_scope_handlers: "runtime_step core env rt (scope_setExceptionHandler this rt)"
| Step_scope_child_handlers: "runtime_step core env rt (scope_setChildScopeExceptionHandler this rt)"
| Step_scope_zombies: "runtime_step core env rt (scope_allowZombies this rt)"
| Step_scope_not_safely: "runtime_step core env rt (scope_asNotSafely this rt)"

subsection \<open>Running and suspending\<close>

lemma queue_head:
  assumes inv: "runtime_inv rt" and q: "rt_queue rt = c # q" and c: "rt_coroutines rt c = Some x"
  shows "queued x" "\<not> co_finished x" "c \<notin> set q" "distinct q" "c \<in> set (rt_coroutine_list rt)"
    "\<exists>s. co_scope x = Some s \<and> s < rt_next_scope rt"
proof -
  have "c \<in> set (rt_queue rt)" using q by simp
  with queued_iff [OF inv c] show qd: "queued x" by simp
  with runtime_invD(1) [OF inv c] show fin: "\<not> co_finished x" by (auto simp: coroutine_inv_def)
  show "c \<notin> set q" "distinct q" using runtime_invD(3) [OF inv] q by (auto simp: lists_inv_def)
  show "c \<in> set (rt_coroutine_list rt)" "\<exists>s. co_scope x = Some s \<and> s < rt_next_scope rt"
    using runtime_invD(1) [OF inv c] qd fin by (auto simp: coroutine_inv_def)
qed

lemma take_off_inv:
  assumes inv: "runtime_inv rt" and q: "rt_queue rt = c # q" and c: "rt_coroutines rt c = Some x"
  shows "runtime_inv (set_status c ZEND_ASYNC_WAKER_RESULT (rt\<lparr>rt_queue := q\<rparr>))"
  using queue_head [OF inv q c] q
  by (intro requeue_inv [OF inv c]) (auto simp: queued_def)

lemma take_off_error_inv:
  assumes "runtime_inv rt" and "rt_queue rt = c # q" and "rt_coroutines rt c = Some x"
  shows "runtime_inv (mod_coroutine c (\<lambda>x. x\<lparr>co_waker_status := ZEND_ASYNC_WAKER_RESULT, co_waker_error := None\<rparr>)
    (rt\<lparr>rt_queue := q\<rparr>))"
proof -
  have "mod_coroutine c (\<lambda>x. x\<lparr>co_waker_status := ZEND_ASYNC_WAKER_RESULT, co_waker_error := None\<rparr>) (rt\<lparr>rt_queue := q\<rparr>) =
      mod_coroutine c (\<lambda>x. x\<lparr>co_waker_error := None\<rparr>) (set_status c ZEND_ASYNC_WAKER_RESULT (rt\<lparr>rt_queue := q\<rparr>))"
    using assms(3) by (simp add: mod_coroutine_def set_status_def)
  then show ?thesis using waker_error_inv [OF take_off_inv [OF assms]] by simp
qed

lemma start_inv:
  assumes inv: "runtime_inv rt" and c: "rt_coroutines rt c = Some x" and reg: "c \<in> set (rt_coroutine_list rt)"
  shows "runtime_inv (mod_coroutine c (\<lambda>x. x\<lparr>co_started := True\<rparr>) rt)" (is "runtime_inv ?rt")
proof (rule runtime_invI)
  have z: "zombie ?rt = zombie rt" by (auto simp: zombie_def fun_eq_iff split: option.split)
  {
    fix d y assume d: "rt_coroutines ?rt d = Some y"
    show "coroutine_inv ?rt d y"
    proof (cases "d = c")
      case True
      with d c reg runtime_invD(1) [OF inv c] show ?thesis by (auto simp: coroutine_inv_def queued_def)
    next
      case False
      with d have "rt_coroutines rt d = Some y" by simp
      from runtime_invD(1) [OF inv this] show ?thesis by (rule coroutine_inv_cong) auto
    qed
  next
    fix t y assume "rt_scopes ?rt t = Some y"
    then show "scope_inv ?rt t y" using runtime_invD(2) [OF inv, of t y] by (auto simp: scope_inv_def z)
  next
    show "lists_inv ?rt" using runtime_invD(3) [OF inv] by (auto simp: lists_inv_def z)
  }
qed

lemma enter_inv:
  assumes inv: "runtime_inv rt" and q: "rt_queue rt = c # q" and c: "rt_coroutines rt c = Some x"
  shows "runtime_inv (fst (coroutine_enter c (rt\<lparr>rt_queue := q\<rparr>)))"
proof -
  let ?rt = "mod_coroutine c (\<lambda>x. x\<lparr>co_waker_status := ZEND_ASYNC_WAKER_RESULT, co_waker_error := None\<rparr>) (rt\<lparr>rt_queue := q\<rparr>)"
  have "runtime_inv (mod_coroutine c (\<lambda>x. x\<lparr>co_started := True\<rparr>) ?rt)"
    by (rule start_inv [OF take_off_error_inv [OF assms], where x = "x\<lparr>co_waker_status := ZEND_ASYNC_WAKER_RESULT, co_waker_error := None\<rparr>"])
      (use c queue_head(5) [OF assms] in simp_all)
  moreover have "fst (coroutine_enter c (rt\<lparr>rt_queue := q\<rparr>)) =
      (mod_coroutine c (\<lambda>x. x\<lparr>co_started := True\<rparr>) ?rt)\<lparr>rt_current := Some c\<rparr>"
    using c by (simp add: coroutine_enter_def mod_coroutine_def Let_def)
  ultimately show ?thesis by simp
qed

lemma suspend_inv:
  assumes core: "core_ok core" and inv: "runtime_inv rt"
  shows "runtime_inv (fst (coroutine_suspend core has_events c rt))"
proof (cases "rt_coroutines rt c")
  case None
  with inv show ?thesis by (simp add: coroutine_suspend_def)
next
  case (Some x)
  show ?thesis
  proof (cases "queued x")
    case True
    with Some core inv show ?thesis by (simp add: coroutine_suspend_def core_in_queue)
  next
    case False
    have "runtime_inv (set_status c ZEND_ASYNC_WAKER_WAITING rt)"
      by (rule set_result_inv [OF inv Some False]) (simp add: queued_def)
    with no_status_inv [OF inv Some False] Some core False inv show ?thesis
      by (simp add: coroutine_suspend_def core_in_queue Let_def)
  qed
qed

lemma free_coroutine_inv:
  assumes inv: "runtime_inv rt" and c: "rt_coroutines rt c = Some x" "co_finished x" "co_scope x = None"
    and list: "c \<notin> set (rt_coroutine_list rt)"
  shows "runtime_inv (rt\<lparr>rt_coroutines := (rt_coroutines rt)(c := None)\<rparr>)" (is "runtime_inv ?rt")
proof (rule runtime_invI)
  have z: "zombie ?rt d = zombie rt d" if "d \<noteq> c" for d using that by (simp add: zombie_def)
  have filters: "filter (zombie ?rt) xs = filter (zombie rt) xs"
    "filter (\<lambda>d. \<not> zombie ?rt d) xs = filter (\<lambda>d. \<not> zombie rt d) xs" if "c \<notin> set xs" for xs
    by (rule filter_outside [OF that]; simp add: z)+
  have nq: "c \<notin> set (rt_queue rt)"
    using runtime_invD(1) [OF inv c(1)] c(2) by (auto simp: coroutine_inv_def)
  {
    fix d y assume "rt_coroutines ?rt d = Some y"
    then have "rt_coroutines rt d = Some y" by (simp split: if_splits)
    from runtime_invD(1) [OF inv this] show "coroutine_inv ?rt d y" by (rule coroutine_inv_cong) auto
  next
    fix t y assume "rt_scopes ?rt t = Some y"
    then have y: "scope_inv rt t y" using runtime_invD(2) [OF inv] by simp
    then have "c \<notin> set (sc_coroutines y)" using c by (auto simp: scope_inv_def)
    with y filters show "scope_inv ?rt t y" by (auto simp: scope_inv_def)
  next
    show "lists_inv ?rt" using runtime_invD(3) [OF inv] nq list filters [OF list] by (auto simp: lists_inv_def)
  }
qed


subsection \<open>Every step keeps the invariant\<close>

lemma spawn_inv:
  assumes inv: "runtime_inv rt" and spawn: "spawn try_to_dispose n scheduler_scope (Some s) None priority rt = Some (rt', r)"
  shows "runtime_inv rt'"
proof (cases "\<exists>x. rt_scopes rt s = Some x \<and> \<not> sc_closed x \<and> scheduler_scope \<noteq> Some s")
  case False
  with spawn inv show ?thesis by (auto simp: spawn_def split: option.splits if_splits)
next
  case True
  then obtain x where x: "rt_scopes rt s = Some x" "\<not> sc_closed x" "scheduler_scope \<noteq> Some s" by blast
  obtain rt1 c where new: "async_new_coroutine (Some s) rt = (rt1, c)" by fastforce
  with x spawn have "rt' = enqueue_new priority c rt1" by (simp add: spawn_def Let_def)
  with started_inv [OF inv new scope_id_bound [OF inv x(1)]] show ?thesis by simp
qed

text \<open>
  The operations on whole scopes, at the bound the steps use: they return a state that keeps the
  invariant.
\<close>

lemma scope_cancel_any:
  assumes core: "core_ok core" and inv: "runtime_inv rt"
  shows "\<exists>rt' r. scope_catch_or_cancel (depth_bound rt) core env s co src e safely True rt = Some (rt', r) \<and> runtime_inv rt'"
proof -
  let ?B = "rt_next_scope rt"
  have "2 * ?B + (?B - s) + 1 < depth_bound rt" by (simp add: depth_bound_def)
  from cancel_mode_returns [OF core settled_start [OF inv] this, of env co src e safely] show ?thesis
    using settledD(1) growsD(1) by blast
qed

lemma scope_methods_return:
  assumes core: "core_ok core" and inv: "runtime_inv rt"
  shows "\<exists>rt'. scope_cancel_method (depth_bound rt) core env this e rt = Some rt' \<and> runtime_inv rt'"
    and "\<exists>rt'. scope_dispose_method (depth_bound rt) core env this rt = Some rt' \<and> runtime_inv rt'"
    and "\<exists>rt'. scope_disposeSafely_method (depth_bound rt) core env this rt = Some rt' \<and> runtime_inv rt'"
  using scope_cancel_any [OF core inv, of env _ None None] inv
  by (cases this; fastforce simp: scope_cancel_method_def scope_dispose_method_def scope_disposeSafely_method_def)+

lemma scope_destroyed_returns:
  assumes core: "core_ok core" and inv: "runtime_inv rt"
  shows "\<exists>rt'. scope_object_destroyed (depth_bound rt) core env s rt = Some rt' \<and> runtime_inv rt'"
proof -
  let ?B = "rt_next_scope rt" and ?n = "depth_bound rt"
  let ?rt = "mod_scope s (\<lambda>x. x\<lparr>sc_has_object := False\<rparr>) rt"
  note 1 = grows_flags(4) [OF settled_start [OF inv], of s False]
  have n: "?B - s < ?n" "2 * ?B + (?B - s) + 1 < ?n" by (simp_all add: depth_bound_def)
  from try_to_dispose_returns [OF core growsD(1) [OF 1] n(1)] obtain rt1 b where
    rt1: "scope_try_to_dispose ?n core env s ?rt = Some (rt1, b)" "settled ?B rt1" using growsD(1) by blast
  from cancel_mode_returns [OF core rt1(2) n(2), of env None None] have
    "\<exists>rt' r. scope_catch_or_cancel ?n core env s None None e safely True rt1 = Some (rt', r) \<and> runtime_inv rt'" for e safely
    using settledD(1) growsD(1) by blast
  with rt1 settledD(1) [OF rt1(2)] show ?thesis
    by (cases b) (fastforce simp: scope_object_destroyed_def Let_def)+
qed

lemma finalize_step:
  assumes core: "core_ok core" and inv: "runtime_inv rt" and c: "rt_coroutines rt c = Some x" "\<not> co_finished x" "\<not> queued x"
  shows "\<exists>rt' r. async_coroutine_finalize (depth_bound rt) core env c pending handled unobserved rt = Some (rt', r) \<and>
    runtime_inv rt' \<and> c \<notin> set (rt_coroutine_list rt') \<and>
    (\<exists>y. rt_coroutines rt' c = Some y \<and> co_finished y \<and> co_scope y = None)"
proof -
  obtain s where s: "co_scope x = Some s" "s < rt_next_scope rt"
    using runtime_invD(1) [OF inv c(1)] c(2) by (auto simp: coroutine_inv_def)
  have "4 * rt_next_scope rt + 2 < depth_bound rt" by (simp add: depth_bound_def)
  from finalize_returns [OF core settled_start [OF inv] this c(1,3) s, of env pending handled unobserved] show ?thesis
    using settledD(1) by blast
qed

lemma execute_ignored_step:
  assumes core: "core_ok core" and inv: "runtime_inv rt" and q: "rt_queue rt = c # q"
    and c: "rt_coroutines rt c = Some x" "co_cancelled x"
  shows "\<exists>rt' r. coroutine_execute_ignored (depth_bound rt) core env c handled last_ref (rt\<lparr>rt_queue := q\<rparr>) = Some (rt', r) \<and>
    runtime_inv rt'"
proof -
  let ?f = "\<lambda>x. x\<lparr>co_waker_status := ZEND_ASYNC_WAKER_RESULT, co_waker_error := None\<rparr>"
  let ?rt = "mod_coroutine c ?f (rt\<lparr>rt_queue := q\<rparr>)"
  have inv': "runtime_inv ?rt" by (rule take_off_error_inv [OF inv q c(1)])
  have c': "rt_coroutines ?rt c = Some (?f x)" "\<not> co_finished (?f x)" "\<not> queued (?f x)"
    using c(1) queue_head(2) [OF inv q c(1)] by (simp_all add: queued_def)
  have "depth_bound ?rt = depth_bound rt" by (simp add: depth_bound_def)
  with finalize_step [OF core inv' c', of env "co_waker_error x" handled last_ref] obtain rt1 r y where
    rt1: "async_coroutine_finalize (depth_bound rt) core env c (co_waker_error x) handled last_ref ?rt = Some (rt1, r)"
      "runtime_inv rt1" "c \<notin> set (rt_coroutine_list rt1)" "rt_coroutines rt1 c = Some y" "co_finished y" "co_scope y = None"
    by auto
  have "coroutine_object_destroy (dispose_if_possible n core env) n c rt1 =
      Some (rt1\<lparr>rt_coroutines := (rt_coroutines rt1)(c := None)\<rparr>)" for n
    using rt1(4,6) by (simp add: coroutine_object_destroy_def async_scope_notify_coroutine_finished_def)
  with rt1 c free_coroutine_inv [OF rt1(2,4,5,6,3)] show ?thesis
    by (cases last_ref) (simp_all add: coroutine_execute_ignored_def)
qed

lemma scope_setters_inv:
  assumes "runtime_inv rt"
  shows "runtime_inv (scope_finally this h rt)" "runtime_inv (scope_setExceptionHandler this rt)"
    "runtime_inv (scope_setChildScopeExceptionHandler this rt)" "runtime_inv (scope_allowZombies this rt)"
    "runtime_inv (scope_asNotSafely this rt)"
  by (cases this; simp add: assms scope_finally_def scope_setExceptionHandler_def scope_setChildScopeExceptionHandler_def
      scope_allowZombies_def scope_asNotSafely_def mod_scope_inv scope_same_def)+

lemma runtime_step_inv:
  assumes core: "core_ok core" and step: "runtime_step core env rt rt'" and inv: "runtime_inv rt"
  shows "runtime_inv rt'"
  using step
proof cases
  case (Step_new_scope parent obj s)
  with new_scope_inv [OF inv Step_new_scope(2)] scope_id_bound [OF inv] show ?thesis by blast
next
  case (Step_spawn try_to_dispose n scheduler_scope s priority r)
  with spawn_inv [OF inv] show ?thesis by blast
next
  case (Step_enqueue c x)
  with enqueue_inv [OF core inv] show ?thesis by blast
next
  case (Step_resume c x error)
  with resume_inv [OF inv] show ?thesis by blast
next
  case (Step_cancel c error safely r)
  with cancel_inv [OF core inv] show ?thesis by blast
next
  case (Step_protect c b)
  with mod_coroutine_inv [OF inv] show ?thesis by (simp add: coroutine_same_def queued_def)
next
  case (Step_suspend c has_events)
  with suspend_inv [OF core inv] show ?thesis by blast
next
  case (Step_dispatch c q x)
  with enter_inv [OF inv] show ?thesis by blast
next
  case (Step_ignored c q x handled last_ref r)
  with execute_ignored_step [OF core inv, of c q x env handled last_ref] show ?thesis by auto
next
  case (Step_finalize c x pending handled unobserved r)
  with finalize_step [OF core inv, of c x env pending handled unobserved] core show ?thesis by (auto simp: core_in_queue)
next
  case (Step_scope_cancel this e)
  with scope_methods_return(1) [OF core inv, of env this e] show ?thesis by auto
next
  case (Step_scope_dispose this)
  with scope_methods_return(2) [OF core inv, of env this] show ?thesis by auto
next
  case (Step_scope_disposeSafely this)
  with scope_methods_return(3) [OF core inv, of env this] show ?thesis by auto
next
  case (Step_scope_destroyed s)
  with scope_destroyed_returns [OF core inv, of env s] show ?thesis by auto
qed (simp_all add: inv scope_setters_inv)

interpretation runtime_runs: step_system "\<lambda>rt. rt = empty_runtime" "runtime_step core env"
  "\<lambda>rt. core_ok core \<longrightarrow> runtime_inv rt" for core env
proof unfold_locales
  show "core_ok core \<longrightarrow> runtime_inv rt" if "rt = empty_runtime" for rt
    using that by (simp add: empty_runtime_def runtime_inv_def lists_inv_def)
qed (use runtime_step_inv in blast)

definition runtime_reachable :: "zend_core \<Rightarrow> runtime_env \<Rightarrow> runtime \<Rightarrow> bool" where
  "runtime_reachable core env rt \<longleftrightarrow> (runtime_step core env)\<^sup>*\<^sup>* empty_runtime rt"

lemma runtime_reachable_inv: "core_ok core \<Longrightarrow> runtime_reachable core env rt \<Longrightarrow> runtime_inv rt"
  using runtime_runs.run_good unfolding runtime_reachable_def by blast

end
