(* ===== verification/Scope_Cancellation.thy ===== *)
theory Scope_Cancellation
  imports Runtime_Steps
begin

text \<open>
  What a scope is responsible for: the coroutines of the scopes below it that are reached without
  passing a closed or cancelled scope.  A scope is finished exactly when none of them is active,
  and cancelling it tells every one of them.  A cancelled scope ends a path because
  \<^verbatim>\<open>scope_can_be_disposed\<close> answers for it without looking further (\<^verbatim>\<open>scope.c:1518\<close>); the comment of
  that function names closed scopes only.
\<close>

subsection \<open>The open part of a tree\<close>

inductive open_path :: "runtime \<Rightarrow> nat \<Rightarrow> nat \<Rightarrow> bool" for rt where
  Path_here: "rt_scopes rt s = Some x \<Longrightarrow> \<not> sc_closed x \<Longrightarrow> \<not> sc_cancelled x \<Longrightarrow> open_path rt s s"
| Path_below: "rt_scopes rt s = Some x \<Longrightarrow> \<not> sc_closed x \<Longrightarrow> \<not> sc_cancelled x \<Longrightarrow> t \<in> set (sc_children x) \<Longrightarrow>
    open_path rt t u \<Longrightarrow> open_path rt s u"

inductive_simps open_path_simp: "open_path rt s u"

lemma open_path_unfold:
  "open_path rt s u \<longleftrightarrow>
     (\<exists>x. rt_scopes rt s = Some x \<and> \<not> sc_closed x \<and> \<not> sc_cancelled x \<and>
        (u = s \<or> (\<exists>t\<in>set (sc_children x). open_path rt t u)))"
  by (subst open_path_simp) blast

lemma open_path_order:
  assumes "open_path rt s u" and "tree_bound B rt"
  shows "s \<le> u"
  using assms by (induction rule: open_path.induct) (auto dest: tree_boundD(1))

text \<open>A change that leaves the open scopes open and takes nothing from them keeps the paths.\<close>

definition keeps_open :: "runtime \<Rightarrow> runtime \<Rightarrow> bool" where
  "keeps_open rt rt' \<longleftrightarrow> (\<forall>s x. rt_scopes rt s = Some x \<and> \<not> sc_closed x \<and> \<not> sc_cancelled x \<longrightarrow>
     (\<exists>y. rt_scopes rt' s = Some y \<and> \<not> sc_closed y \<and> \<not> sc_cancelled y \<and>
        set (sc_children x) \<subseteq> set (sc_children y) \<and> set (sc_coroutines x) \<subseteq> set (sc_coroutines y)))"

lemma keeps_openD:
  assumes "keeps_open rt rt'" and "rt_scopes rt s = Some x" and "\<not> sc_closed x" and "\<not> sc_cancelled x"
  shows "\<exists>y. rt_scopes rt' s = Some y \<and> \<not> sc_closed y \<and> \<not> sc_cancelled y \<and>
    set (sc_children x) \<subseteq> set (sc_children y) \<and> set (sc_coroutines x) \<subseteq> set (sc_coroutines y)"
  using assms by (simp add: keeps_open_def)

lemma keeps_open_refl [simp]: "keeps_open rt rt"
  by (simp add: keeps_open_def)

lemma keeps_open_trans: "keeps_open a b \<Longrightarrow> keeps_open b c \<Longrightarrow> keeps_open a c"
  unfolding keeps_open_def by (meson subset_trans)

lemma keeps_open_path: "open_path rt s u \<Longrightarrow> keeps_open rt rt' \<Longrightarrow> open_path rt' s u"
proof (induction rule: open_path.induct)
  case (Path_here s x)
  then show ?case using keeps_openD [OF Path_here(4,1-3)] by (auto intro: open_path.Path_here)
next
  case (Path_below s x t u)
  then show ?case using keeps_openD [OF Path_below(7,1-3)] by (auto intro: open_path.Path_below)
qed

subsection \<open>Finished scopes\<close>

lemma all_children_True:
  assumes "\<And>x. x \<in> set xs \<Longrightarrow> f x = Some (P x)"
  shows "all_children f xs = Some (\<forall>x\<in>set xs. P x)"
  using assms by (induction xs) auto

lemma can_be_disposed_exact:
  assumes tree: "tree_bound B rt" and "B - s < n"
  shows "scope_can_be_disposed n rt wz False s =
    Some (\<forall>t x. open_path rt s t \<and> rt_scopes rt t = Some x \<longrightarrow> (if wz then sc_active x + sc_zombies x else sc_active x) = 0)"
  using assms(2)
proof (induction n arbitrary: s)
  case (Suc n)
  let ?idle = "\<lambda>x. (if wz then sc_active x + sc_zombies x else sc_active x) = 0"
  let ?done = "\<lambda>s. \<forall>t x. open_path rt s t \<and> rt_scopes rt t = Some x \<longrightarrow> ?idle x"
  show ?case
  proof (cases "\<exists>x. rt_scopes rt s = Some x \<and> \<not> sc_closed x \<and> \<not> sc_cancelled x")
    case False
    then have "?done s" using open_path_unfold [of rt s] by blast
    with False show ?thesis by (auto split: option.split)
  next
    case True
    then obtain x where x: "rt_scopes rt s = Some x" "\<not> sc_closed x" "\<not> sc_cancelled x" by blast
    have "scope_can_be_disposed n rt wz False t = Some (?done t)" if "t \<in> set (sc_children x)" for t
    proof -
      have "B - t < n" using Suc.prems tree_boundD(1) [OF tree x(1) that] by linarith
      then show ?thesis by (rule Suc.IH)
    qed
    then have all: "all_children (scope_can_be_disposed n rt wz False) (sc_children x) = Some (\<forall>t\<in>set (sc_children x). ?done t)"
      by (rule all_children_True)
    have "?done s \<longleftrightarrow> ?idle x \<and> (\<forall>t\<in>set (sc_children x). ?done t)"
      unfolding open_path_unfold [of rt s] using x by auto
    with x all show ?thesis by (cases wz) simp_all
  qed
qed simp

lemma counted_members:
  assumes "runtime_inv rt" and "rt_scopes rt s = Some x"
  shows "sc_active x = 0 \<longleftrightarrow> (\<forall>c\<in>set (sc_coroutines x). zombie rt c)"
    and "sc_active x + sc_zombies x = 0 \<longleftrightarrow> sc_coroutines x = []"
proof -
  note x = runtime_invD(2) [OF assms]
  then show active: "sc_active x = 0 \<longleftrightarrow> (\<forall>c\<in>set (sc_coroutines x). zombie rt c)"
    by (simp add: scope_inv_def filter_empty_conv)
  have "sc_zombies x = 0 \<longleftrightarrow> (\<forall>c\<in>set (sc_coroutines x). \<not> zombie rt c)"
    using x by (simp add: scope_inv_def filter_empty_conv)
  with active show "sc_active x + sc_zombies x = 0 \<longleftrightarrow> sc_coroutines x = []"
    by (cases "sc_coroutines x") auto
qed


subsection \<open>Cancellation reaches everyone\<close>

definition charges :: "runtime \<Rightarrow> nat \<Rightarrow> nat set" where
  "charges rt s = {c. \<exists>t x. open_path rt s t \<and> rt_scopes rt t = Some x \<and> c \<in> set (sc_coroutines x)}"

definition told_in :: "runtime \<Rightarrow> nat \<Rightarrow> bool" where
  "told_in rt c \<longleftrightarrow> (\<exists>y. rt_coroutines rt c = Some y \<and> told y)"

text \<open>Nobody a scope is responsible for is lost on the way from one state to the other.\<close>

definition covers :: "runtime \<Rightarrow> runtime \<Rightarrow> bool" where
  "covers rt rt' \<longleftrightarrow> (\<forall>t. charges rt t \<subseteq> charges rt' t \<union> Collect (told_in rt')) \<and>
     (\<forall>c. told_in rt c \<longrightarrow> told_in rt' c)"

lemma coversD:
  assumes "covers rt rt'"
  shows "c \<in> charges rt t \<Longrightarrow> c \<in> charges rt' t \<or> told_in rt' c" and "told_in rt c \<Longrightarrow> told_in rt' c"
  using assms unfolding covers_def by blast+

lemma covers_trans: "covers a b \<Longrightarrow> covers b c \<Longrightarrow> covers a c"
  unfolding covers_def by blast

lemma frame_told: "frame rt rt' \<Longrightarrow> told_in rt c \<Longrightarrow> told_in rt' c"
  using frameD(1) unfolding told_in_def coroutine_frame_def by blast

lemma keeps_open_charges:
  assumes "keeps_open rt rt'"
  shows "charges rt t \<subseteq> charges rt' t"
proof
  fix c assume "c \<in> charges rt t"
  then obtain u x where u: "open_path rt t u" "rt_scopes rt u = Some x" "c \<in> set (sc_coroutines x)"
    by (auto simp: charges_def)
  have "\<not> sc_closed x \<and> \<not> sc_cancelled x" using u(1,2) by (induction rule: open_path.induct) auto
  then obtain y where "rt_scopes rt' u = Some y" "c \<in> set (sc_coroutines y)"
    using keeps_openD [OF assms u(2)] u(3) by blast
  with keeps_open_path [OF u(1) assms] show "c \<in> charges rt' t" by (auto simp: charges_def)
qed

lemma covers_keeps:
  assumes "keeps_open rt rt'" and "frame rt rt'"
  shows "covers rt rt'"
  using keeps_open_charges [OF assms(1)] frame_told [OF assms(2)] by (auto simp: covers_def)

lemma covers_refl [simp]: "covers rt rt"
  by (simp add: covers_def)

lemma keeps_open_same_tree:
  assumes "same_tree rt rt'"
  shows "keeps_open rt rt'"
  unfolding keeps_open_def
proof (intro allI impI)
  fix s x assume x: "rt_scopes rt s = Some x \<and> \<not> sc_closed x \<and> \<not> sc_cancelled x"
  then obtain y where "rt_scopes rt' s = Some y" "shape y = shape x" using same_treeD2 [OF assms] by blast
  with x shape_eqD [of y x] show "\<exists>y. rt_scopes rt' s = Some y \<and> \<not> sc_closed y \<and> \<not> sc_cancelled y \<and>
    set (sc_children x) \<subseteq> set (sc_children y) \<and> set (sc_coroutines x) \<subseteq> set (sc_coroutines y)" by auto
qed

lemma cancel_covers:
  assumes "async_coroutine_cancel core n c e safely rt = Some (rt', r)"
  shows "covers rt rt'" and "rt_coroutines rt c \<noteq> None \<Longrightarrow> told_in rt' c"
proof -
  have "covers rt rt' \<and> (rt_coroutines rt c \<noteq> None \<longrightarrow> told_in rt' c)"
  proof (cases "rt_coroutines rt c")
    case None
    with assms show ?thesis by (simp add: async_coroutine_cancel_def)
  next
    case (Some x)
    note eff = cancel_effect [OF assms Some]
    have "frame rt rt'"
    proof (rule frame_same_tree)
      fix d y assume "rt_coroutines rt d = Some y"
      with eff Some show "\<exists>z. rt_coroutines rt' d = Some z \<and> coroutine_frame y z" by (cases "d = c") auto
    qed (use eff in blast)
    with eff covers_keeps [OF keeps_open_same_tree] show ?thesis by (auto simp: told_in_def)
  qed
  then show "covers rt rt'" "rt_coroutines rt c \<noteq> None \<Longrightarrow> told_in rt' c" by blast+
qed

text \<open>Changing one scope: a path either survives or leads through that scope.\<close>

lemma path_around:
  assumes "open_path rt t u" and "\<And>v. v \<noteq> s \<Longrightarrow> rt_scopes rt' v = rt_scopes rt v"
  shows "open_path rt' t u \<or> open_path rt s u"
  using assms
proof (induction rule: open_path.induct)
  case (Path_here t x)
  then show ?case by (cases "t = s") (auto intro: open_path.Path_here)
next
  case (Path_below t x v u)
  then show ?case by (cases "t = s") (auto intro: open_path.Path_below)
qed

lemma path_above:
  assumes "open_path rt t u" and "tree_bound B rt" and "s < t" and "\<And>v. v \<noteq> s \<Longrightarrow> rt_scopes rt' v = rt_scopes rt v"
  shows "open_path rt' t u"
  using assms
proof (induction rule: open_path.induct)
  case (Path_here t x)
  then show ?case by (auto intro: open_path.Path_here)
next
  case (Path_below t x v u)
  then show ?case using tree_boundD(1) [OF Path_below(7,1,4)] by (auto intro!: open_path.Path_below [of rt' t x v])
qed

text \<open>Closing or cancelling a scope loses only what it was responsible for itself.\<close>

lemma charges_around:
  assumes "\<And>v. v \<noteq> s \<Longrightarrow> rt_scopes rt' v = rt_scopes rt v"
    and "\<And>x. rt_scopes rt s = Some x \<Longrightarrow> \<exists>y. rt_scopes rt' s = Some y \<and> sc_coroutines y = sc_coroutines x"
  shows "charges rt t \<subseteq> charges rt' t \<union> charges rt s"
proof
  fix c assume "c \<in> charges rt t"
  then obtain u x where u: "open_path rt t u" "rt_scopes rt u = Some x" "c \<in> set (sc_coroutines x)"
    by (auto simp: charges_def)
  obtain y where "rt_scopes rt' u = Some y" "sc_coroutines y = sc_coroutines x"
    using assms u(2) by (cases "u = s") auto
  moreover have "open_path rt' t u \<or> open_path rt s u" by (rule path_around [OF u(1)]) (rule assms(1))
  ultimately show "c \<in> charges rt' t \<union> charges rt s" using u(2,3) by (auto simp: charges_def)
qed


lemma cancel_coroutines_covers:
  assumes "cancel_coroutines n core passed safely cs rt = Some rt'"
  shows "covers rt rt' \<and> (\<forall>c\<in>set cs. rt_coroutines rt c \<noteq> None \<longrightarrow> told_in rt' c)"
  using assms
proof (induction cs arbitrary: rt)
  case Nil
  then show ?case by (simp add: cancel_coroutines_def)
next
  case (Cons d cs)
  then obtain rt1 r where rt1: "async_coroutine_cancel core n d passed safely rt = Some (rt1, r)"
    and rest: "cancel_coroutines n core passed safely cs rt1 = Some rt'"
    by (auto simp: cancel_coroutines_def split: option.splits)
  note first = cancel_covers [OF rt1] and IH = Cons.IH [OF rest]
  have live: "rt_coroutines rt1 c \<noteq> None" if c: "rt_coroutines rt c \<noteq> None" for c
  proof (cases "rt_coroutines rt d")
    case None
    with rt1 c show ?thesis by (simp add: async_coroutine_cancel_def)
  next
    case (Some x)
    from cancel_effect [OF rt1 this] c show ?thesis by (cases "c = d") auto
  qed
  have "covers rt rt'" using covers_trans [OF first(1)] IH by blast
  moreover have "told_in rt' c" if "c \<in> set (d # cs)" "rt_coroutines rt c \<noteq> None" for c
  proof (cases "c = d")
    case True
    with first(2) that(2) IH coversD(2) show ?thesis by blast
  next
    case False
    with IH live [OF that(2)] that(1) show ?thesis by auto
  qed
  ultimately show ?case by blast
qed

text \<open>The loop over the children, given what the call for one child does.\<close>

text \<open>The flag the loop over the children carries along does not matter for the states.\<close>

lemma cancel_children_Cons:
  assumes "cancel_children n core env s co passed safely (t # ts) rt = Some (rt', b)"
  shows "\<exists>rt1 r b'. scope_catch_or_cancel n core env t co (Some s) passed safely True rt = Some (rt1, r) \<and>
    cancel_children n core env s co passed safely ts rt1 = Some (rt', b')"
proof -
  let ?body = "\<lambda>(rt, threw) child. map_option (\<lambda>(rt, r). (rt, threw \<or> r = Listener_threw))
       (scope_catch_or_cancel n core env child co (Some s) passed safely True rt)"
  have flag: "loop ?body (rt, b1) ts = Some (rt', b) \<Longrightarrow> \<exists>b'. loop ?body (rt, b2) ts = Some (rt', b')" for rt b1 b2
    by (induction ts arbitrary: rt b1 b2) (auto split: option.splits)
  from assms show ?thesis
    unfolding cancel_children_def using flag by (auto split: option.splits)
qed

lemma cancel_children_covers:
  assumes "cancel_children n core env s co passed safely ts rt = Some (rt', b)" and "settled B rt"
    and call: "\<And>rt rt' r t. t \<in> set ts \<Longrightarrow> settled B rt \<Longrightarrow>
      scope_catch_or_cancel n core env t co (Some s) passed safely True rt = Some (rt', r) \<Longrightarrow>
      grows B rt rt' \<and> covers rt rt' \<and> (\<forall>c\<in>charges rt t. told_in rt' c)"
  shows "grows B rt rt' \<and> covers rt rt' \<and> (\<forall>t\<in>set ts. \<forall>c\<in>charges rt t. told_in rt' c)"
  using assms
proof (induction ts arbitrary: rt b)
  case Nil
  then show ?case by (simp add: cancel_children_def grows_refl)
next
  case (Cons t ts)
  from cancel_children_Cons [OF Cons.prems(1)] obtain rt1 r b' where
    rt1: "scope_catch_or_cancel n core env t co (Some s) passed safely True rt = Some (rt1, r)"
    and rest: "cancel_children n core env s co passed safely ts rt1 = Some (rt', b')"
    by blast
  have first: "grows B rt rt1" "covers rt rt1" "\<forall>c\<in>charges rt t. told_in rt1 c"
    using Cons.prems(3) [OF _ Cons.prems(2) rt1] by simp_all
  have IH: "grows B rt1 rt' \<and> covers rt1 rt' \<and> (\<forall>t\<in>set ts. \<forall>c\<in>charges rt1 t. told_in rt' c)"
    by (rule Cons.IH [OF rest growsD(1) [OF first(1)]]) (rule Cons.prems(3), rule list.set_intros(2))
  have "told_in rt' c" if "u \<in> set (t # ts)" "c \<in> charges rt u" for u c
    using that first IH coversD(1) [OF first(2) that(2)] coversD(2) [of rt1 rt'] by auto
  with covers_trans [OF first(2)] grows_trans [OF first(1)] IH show ?case by blast
qed

lemma completely_done_charges:
  assumes "core_ok core" and "settled B rt" and "B - s < n"
    and "scope_can_be_disposed n rt (fst (zc_completely_done core)) (snd (zc_completely_done core)) s = Some True"
  shows "charges rt s = {}"
proof -
  have idle: "sc_active x + sc_zombies x = 0" if "open_path rt s t" "rt_scopes rt t = Some x" for t x
    using assms(1,4) can_be_disposed_exact [OF settled_tree_bound [OF assms(2)] assms(3), of True] that
    by (simp add: core_ok_def)
  have "sc_coroutines x = []" if "open_path rt s t" "rt_scopes rt t = Some x" for t x
    using idle [OF that] counted_members(2) [OF settledD(1) [OF assms(2)] that(2)] by simp
  then show ?thesis by (auto simp: charges_def)
qed

lemma keeps_open_new_scope:
  assumes "async_new_scope (Some p) obj rt = (rt', s)" and inv: "runtime_inv rt" and "p < rt_next_scope rt"
  shows "keeps_open rt rt'"
  unfolding keeps_open_def
proof (intro allI impI)
  fix t x assume x: "rt_scopes rt t = Some x \<and> \<not> sc_closed x \<and> \<not> sc_cancelled x"
  have ps: "Some p \<noteq> Some s" using assms(1,3) by (auto simp: async_new_scope_def Let_def)
  note eq = new_scope_eq [OF assms(1) ps]
  have "t \<noteq> s" using x fresh_scope_id [OF inv] eq(1) by auto
  from eq(6) [OF this] x show "\<exists>y. rt_scopes rt' t = Some y \<and> \<not> sc_closed y \<and> \<not> sc_cancelled y \<and>
    set (sc_children x) \<subseteq> set (sc_children y) \<and> set (sc_coroutines x) \<subseteq> set (sc_coroutines y)"
    by (cases "p = t") auto
qed

lemma keeps_open_new_coroutine:
  assumes inv: "runtime_inv rt" and new: "async_new_coroutine (Some s) rt = (rt', c)"
  shows "keeps_open rt (enqueue_new p c rt')"
  unfolding keeps_open_def using new_coroutine_eq(3) [OF inv new] by auto

lemma keeps_open_mod_scope:
  assumes "\<And>x. sc_closed (f x) = sc_closed x" "\<And>x. sc_cancelled (f x) = sc_cancelled x"
    "\<And>x. sc_children (f x) = sc_children x" "\<And>x. sc_coroutines (f x) = sc_coroutines x"
  shows "keeps_open rt (mod_scope s f rt)"
  unfolding keeps_open_def using assms by auto

lemma finally_covers:
  assumes rt: "settled B rt"
  shows "covers rt (fst (async_scope_call_finally_handlers env s rt))"
proof -
  have "keeps_open rt (fst (async_scope_call_finally_handlers env s rt))"
  proof (cases "\<exists>x. rt_scopes rt s = Some x \<and> sc_finally_handlers x \<noteq> [] \<and> \<not> sc_bailout x \<and> env_finally_runs env s")
    case False
    then show ?thesis
      by (auto simp: async_scope_call_finally_handlers_def Let_def keeps_open_mod_scope split: option.split)
  next
    case True
    then obtain x where x: "rt_scopes rt s = Some x" "sc_finally_handlers x \<noteq> []" "\<not> sc_bailout x" "env_finally_runs env s" by blast
    let ?rt = "rt_effect (Finally_called s (sc_finally_handlers x)) (mod_scope s (\<lambda>x. x\<lparr>sc_finally_handlers := []\<rparr>) rt)"
    have k1: "keeps_open rt ?rt" unfolding keeps_open_def by auto
    have rt1: "settled B ?rt" using settled_flags(9) [OF rt] by simp
    obtain rt2 t where new: "async_new_scope (Some s) False ?rt = (rt2, t)" by fastforce
    obtain rt3 c where co: "async_new_coroutine (Some t) rt2 = (rt3, c)" by fastforce
    have "s < rt_next_scope ?rt" using scope_id_bound [OF settledD(1) [OF rt] x(1)] by simp
    note k2 = keeps_open_new_scope [OF new settledD(1) [OF rt1] this]
    have s: "s < B" using grows_scope_finally(2) [OF rt, of env s] x by (simp add: async_scope_call_finally_handlers_def Let_def)
    note k3 = keeps_open_new_coroutine [OF settledD(1) [OF settled_new_scope(1) [OF rt1 new s]] co, of 1]
    have k4: "keeps_open (enqueue_new 1 c rt3) (mod_scope s (\<lambda>x. x\<lparr>sc_refcount := sc_refcount x + 1\<rparr>) (enqueue_new 1 c rt3))"
      by (rule keeps_open_mod_scope) simp_all
    from keeps_open_trans [OF k1 keeps_open_trans [OF k2 keeps_open_trans [OF k3 k4]]] show ?thesis
      using x new co by (simp add: async_scope_call_finally_handlers_def async_call_finally_handlers_def Let_def)
  qed
  then show ?thesis by (rule covers_keeps) (rule growsD(2) [OF grows_scope_finally(1) [OF rt]])
qed


text \<open>The two loops together, after the scope was marked.\<close>

lemma charged_told:
  assumes rt: "settled B rt" and x: "rt_scopes rt s = Some x"
    and kids: "grows B (mod_scope s (\<lambda>x. x\<lparr>sc_cancelled := True\<rparr>) rt) rt1"
      "\<forall>t\<in>set (sc_children x). \<forall>c\<in>charges (mod_scope s (\<lambda>x. x\<lparr>sc_cancelled := True\<rparr>) rt) t. told_in rt1 c"
    and rt2: "cancel_coroutines n core passed safely (sc_coroutines x) rt1 = Some rt2" and c: "c \<in> charges rt s"
  shows "told_in rt2 c"
proof -
  let ?rt = "mod_scope s (\<lambda>x. x\<lparr>sc_cancelled := True\<rparr>) rt"
  from c obtain u y where u: "open_path rt s u" "rt_scopes rt u = Some y" "c \<in> set (sc_coroutines y)"
    by (auto simp: charges_def)
  show ?thesis
  proof (cases "u = s")
    case True
    then have c: "c \<in> set (sc_coroutines x)" using u x by simp
    obtain w where "rt_coroutines ?rt c = Some w"
      using runtime_invD(2) [OF settledD(1) [OF rt] x] c by (auto simp: scope_inv_def)
    then have "rt_coroutines rt1 c \<noteq> None" using frameD(1) [OF growsD(2) [OF kids(1)]] by blast
    with cancel_coroutines_covers [OF rt2] c show ?thesis by blast
  next
    case False
    then obtain t where t: "t \<in> set (sc_children x)" "open_path rt t u"
      using u(1) x open_path_unfold [of rt s u] by auto
    have "open_path ?rt t u"
      by (rule path_above [OF t(2) settled_tree_bound [OF rt] settled_child(1) [OF rt x t(1)]]) simp
    then have "c \<in> charges ?rt t" using u(2,3) False by (auto simp: charges_def)
    with kids(2) t(1) cancel_coroutines_covers [OF rt2] coversD(2) show ?thesis by blast
  qed
qed

lemma cancel_loops_cover:
  assumes rt: "settled B rt" and x: "rt_scopes rt s = Some x"
    and kids: "grows B (mod_scope s (\<lambda>x. x\<lparr>sc_cancelled := True\<rparr>) rt) rt1"
      "covers (mod_scope s (\<lambda>x. x\<lparr>sc_cancelled := True\<rparr>) rt) rt1"
      "\<forall>t\<in>set (sc_children x). \<forall>c\<in>charges (mod_scope s (\<lambda>x. x\<lparr>sc_cancelled := True\<rparr>) rt) t. told_in rt1 c"
    and rt2: "cancel_coroutines n core passed safely (sc_coroutines x) rt1 = Some rt2"
  shows "covers rt rt2 \<and> (\<forall>c\<in>charges rt s. told_in rt2 c)"
proof -
  let ?rt = "mod_scope s (\<lambda>x. x\<lparr>sc_cancelled := True\<rparr>) rt"
  have all: "covers ?rt rt2" using covers_trans [OF kids(2)] cancel_coroutines_covers [OF rt2] by blast
  have told: "told_in rt2 c" if "c \<in> charges rt s" for c by (rule charged_told [OF rt x kids(1,3) rt2 that])
  have "c \<in> charges rt2 t \<or> told_in rt2 c" if "c \<in> charges rt t" for c t
  proof -
    have "charges rt t \<subseteq> charges ?rt t \<union> charges rt s" by (rule charges_around) (use x in auto)
    with that told coversD(1) [OF all, of c t] show ?thesis by blast
  qed
  moreover have "told_in rt2 c" if "told_in rt c" for c
    using that frame_told [OF growsD(2) [OF grows_flags(2) [OF rt]]] coversD(2) [OF all] by blast
  ultimately show ?thesis using told by (auto simp: covers_def)
qed

text \<open>A scope with nothing left to do is closed instead.\<close>

lemma closing_covers:
  assumes rt: "settled B rt" and none: "charges rt s = {}"
  shows "covers rt (fst (async_scope_call_finally_handlers env s (mod_scope s (\<lambda>x. x\<lparr>sc_closed := True\<rparr>) rt)))"
proof -
  let ?rt = "mod_scope s (\<lambda>x. x\<lparr>sc_closed := True\<rparr>) rt"
  have "charges rt t \<subseteq> charges ?rt t \<union> charges rt s" for t by (rule charges_around) auto
  then have "covers rt ?rt"
    using none frame_told [OF growsD(2) [OF grows_flags(1) [OF rt]]] by (auto simp: covers_def)
  then show ?thesis using finally_covers [OF settled_flags(1) [OF rt]] covers_trans by blast
qed

lemma cancel_mode_covers:
  assumes core: "core_ok core"
  shows "settled B rt \<Longrightarrow> 2 * B + (B - s) + 1 < n \<Longrightarrow>
    scope_catch_or_cancel n core env s co src e safely True rt = Some (rt', r) \<Longrightarrow>
    covers rt rt' \<and> (\<forall>c\<in>charges rt s. told_in rt' c)"
proof (induction n arbitrary: s src e rt rt' r)
  case (Suc n)
  note rt = Suc.prems(1)
  show ?case
  proof (cases "\<exists>x. rt_scopes rt s = Some x \<and> \<not> sc_closed x")
    case False
    then have "rt' = rt" "charges rt s = {}"
      using Suc.prems(3) by (auto simp: cancel_mode_eq charges_def open_path_unfold [of rt s] split: option.splits)
    then show ?thesis by simp
  next
    case True
    then obtain x where x: "rt_scopes rt s = Some x" "\<not> sc_closed x" by blast
    have n: "B - s < Suc n" using Suc.prems(2) by linarith
    obtain fin where fin: "scope_can_be_disposed (Suc n) rt (fst (zc_completely_done core)) (snd (zc_completely_done core)) s = Some fin"
      using can_be_disposed_returns [OF settled_tree_bound [OF rt] n] by blast
    show ?thesis
    proof (cases fin)
      case True
      have none: "charges rt s = {}" using completely_done_charges [OF core rt n] fin True by simp
      have "rt' = fst (async_scope_call_finally_handlers env s (mod_scope s (\<lambda>x. x\<lparr>sc_closed := True\<rparr>) rt))"
        using Suc.prems(3) x fin True unfolding cancel_mode_eq by simp
      with closing_covers [OF rt none] none show ?thesis by simp
    next
      case False
      let ?e = "Some (case e of None \<Rightarrow> scope_was_cancelled | Some e \<Rightarrow> e)"
      let ?rt = "mod_scope s (\<lambda>x. x\<lparr>sc_cancelled := True\<rparr>) rt"
      obtain rt1 threw rt2 where rt1: "cancel_children n core env s co ?e safely (sc_children x) ?rt = Some (rt1, threw)"
        and rt2: "cancel_coroutines n core ?e safely (sc_coroutines x) rt1 = Some rt2" and rt': "rt' = notify_scope s ?e rt2"
        using Suc.prems(3) x fin False unfolding cancel_mode_eq by (auto simp: Let_def split: option.splits)
      have "grows B ?rt rt1 \<and> covers ?rt rt1 \<and> (\<forall>t\<in>set (sc_children x). \<forall>c\<in>charges ?rt t. told_in rt1 c)"
      proof (rule cancel_children_covers [OF rt1 settled_flags(2) [OF rt]])
        fix rtk rtk' rk t assume t: "t \<in> set (sc_children x)" and k: "settled B rtk"
          and call: "scope_catch_or_cancel n core env t co (Some s) ?e safely True rtk = Some (rtk', rk)"
        have nt: "2 * B + (B - t) + 1 < n" using Suc.prems(2) settled_child [OF rt x(1) t] by linarith
        from cancel_mode_returns [OF core k nt, of env co "Some s" ?e safely] call have "grows B rtk rtk'" by auto
        with Suc.IH [OF k nt call] show "grows B rtk rtk' \<and> covers rtk rtk' \<and> (\<forall>c\<in>charges rtk t. told_in rtk' c)" by blast
      qed
      with cancel_loops_cover [OF rt x(1) _ _ _ rt2] have "covers rt rt2 \<and> (\<forall>c\<in>charges rt s. told_in rt2 c)" by blast
      moreover have "covers rt2 rt'"
        unfolding rt' by (rule covers_keeps) (simp_all add: keeps_open_def notify_scope_def)
      ultimately show ?thesis using covers_trans coversD(2) by blast
    qed
  qed
qed simp

end
