(* ===== verification/Runtime_Properties.thy ===== *)
theory Runtime_Properties
  imports Scope_Cancellation
begin

text \<open>
  What holds of the runtime in every reachable state, and three situations in which its books go
  wrong.
\<close>

subsection \<open>Where a coroutine runs\<close>

definition child_scope :: "runtime \<Rightarrow> nat \<Rightarrow> nat \<Rightarrow> bool" where
  "child_scope rt s t \<longleftrightarrow> (\<exists>x. rt_scopes rt s = Some x \<and> t \<in> set (sc_children x))"

definition runs_below :: "runtime \<Rightarrow> nat \<Rightarrow> nat \<Rightarrow> bool" where
  "runs_below rt s c \<longleftrightarrow> (\<exists>t x. (child_scope rt)\<^sup>*\<^sup>* s t \<and> rt_scopes rt t = Some x \<and> c \<in> set (sc_coroutines x))"

lemma runs_below_unfold:
  "runs_below rt s c \<longleftrightarrow> (\<exists>x. rt_scopes rt s = Some x \<and>
     (c \<in> set (sc_coroutines x) \<or> (\<exists>t\<in>set (sc_children x). runs_below rt t c)))"
proof
  assume "runs_below rt s c"
  then obtain t x where "(child_scope rt)\<^sup>*\<^sup>* s t" "rt_scopes rt t = Some x" "c \<in> set (sc_coroutines x)"
    by (auto simp: runs_below_def)
  then show "\<exists>x. rt_scopes rt s = Some x \<and> (c \<in> set (sc_coroutines x) \<or> (\<exists>t\<in>set (sc_children x). runs_below rt t c))"
    by (cases rule: converse_rtranclpE) (auto simp: child_scope_def runs_below_def)
next
  assume "\<exists>x. rt_scopes rt s = Some x \<and> (c \<in> set (sc_coroutines x) \<or> (\<exists>t\<in>set (sc_children x). runs_below rt t c))"
  then show "runs_below rt s c"
    unfolding runs_below_def child_scope_def by (metis (mono_tags, lifting) converse_rtranclp_into_rtranclp rtranclp.rtrancl_refl)
qed

lemma any_child_result:
  "(fst (any_child f xs) \<longleftrightarrow> (\<exists>x\<in>set xs. fst (f x))) \<and>
   (snd (any_child f xs) \<longrightarrow> (\<exists>x\<in>set xs. snd (f x))) \<and>
   (\<not> fst (any_child f xs) \<longrightarrow> (\<forall>x\<in>set xs. snd (f x) \<longrightarrow> snd (any_child f xs)))"
  by (induction xs) (auto split: prod.splits bool.splits)

lemma empty_scope_runs_nothing: "scope_is_empty rt t \<Longrightarrow> \<not> runs_below rt t c"
  using runs_below_unfold [of rt t c] by (auto simp: scope_is_empty_def split: option.splits)

lemma contains_within_result:
  "(fst (contains_within k rt c s) \<longrightarrow> runs_below rt s c) \<and>
   (runs_below rt s c \<longrightarrow> fst (contains_within k rt c s) \<or> snd (contains_within k rt c s)) \<and>
   (snd (contains_within k rt c s) \<longrightarrow> (\<exists>t. (child_scope rt ^^ k) s t))"
proof (induction k arbitrary: s)
  case (Suc k)
  show ?case
  proof (cases "rt_scopes rt s")
    case None
    then show ?thesis using runs_below_unfold [of rt s c] by simp
  next
    case (Some x)
    let ?kids = "filter (\<lambda>t. \<not> scope_is_empty rt t) (sc_children x)"
    note any = any_child_result [of "contains_within k rt c" ?kids]
    have down: "(child_scope rt ^^ Suc k) s u" if "t \<in> set (sc_children x)" "(child_scope rt ^^ k) t u" for t u
      using that Some by (intro relpowp_Suc_I2 [of _ s t]) (auto simp: child_scope_def)
    show ?thesis
    proof (cases "c \<in> set (sc_coroutines x)")
      case True
      with Some runs_below_unfold [of rt s c] show ?thesis by auto
    next
      case False
      then have r: "contains_within (Suc k) rt c s = any_child (contains_within k rt c) ?kids" using Some by simp
      have below: "runs_below rt s c \<longleftrightarrow> (\<exists>t\<in>set ?kids. runs_below rt t c)"
        using runs_below_unfold [of rt s c] Some False empty_scope_runs_nothing by auto
      have "\<exists>t. (child_scope rt ^^ Suc k) s t" if "snd (any_child (contains_within k rt c) ?kids)"
        using any that Suc.IH down by (meson filter_is_subset subsetD)
      then show ?thesis unfolding r below using any Suc.IH by blast
    qed
  qed
qed (simp add: runs_below_def)

subsection \<open>Completion\<close>

definition scope_finished :: "bool \<Rightarrow> runtime \<Rightarrow> nat \<Rightarrow> bool" where
  "scope_finished with_zombies rt s \<longleftrightarrow> (\<forall>t x c. open_path rt s t \<and> rt_scopes rt t = Some x \<and> c \<in> set (sc_coroutines x) \<longrightarrow>
     \<not> with_zombies \<and> zombie rt c)"

primrec lineage :: "nat \<Rightarrow> runtime \<Rightarrow> nat \<Rightarrow> nat list" where
  "lineage 0 rt s = []"
| "lineage (Suc n) rt s = s # (case Option.bind (rt_scopes rt s) sc_parent of None \<Rightarrow> [] | Some p \<Rightarrow> lineage n rt p)"

lemma scope_finished_eq:
  assumes inv: "runtime_inv rt" and n: "rt_next_scope rt - s < n"
  shows "scope_can_be_disposed n rt wz False s = Some (scope_finished wz rt s)"
proof -
  note tree = settled_tree_bound [OF settled_start [OF inv]]
  have "(if wz then sc_active x + sc_zombies x else sc_active x) = 0 \<longleftrightarrow> (\<forall>c\<in>set (sc_coroutines x). \<not> wz \<and> zombie rt c)"
    if "rt_scopes rt t = Some x" for t x
    using counted_members [OF inv that] by (cases "sc_coroutines x") auto
  then have "(\<forall>t x. open_path rt s t \<and> rt_scopes rt t = Some x \<longrightarrow> (if wz then sc_active x + sc_zombies x else sc_active x) = 0)
      \<longleftrightarrow> scope_finished wz rt s"
    unfolding scope_finished_def by blast
  with can_be_disposed_exact [OF tree n, of wz] show ?thesis by simp
qed

lemma scopes_only:
  assumes "rt_scopes rt' = rt_scopes rt" and "rt_coroutines rt' = rt_coroutines rt"
  shows "lineage n rt' s = lineage n rt s" and "scope_finished wz rt' s = scope_finished wz rt s"
proof -
  show "lineage n rt' s = lineage n rt s" using assms by (induction n arbitrary: s) (auto split: option.split)
  have "open_path rt' t u \<longleftrightarrow> open_path rt t u" for t u
    using keeps_open_path [of rt t u rt'] keeps_open_path [of rt' t u rt] assms by (auto simp: keeps_open_def)
  then show "scope_finished wz rt' s = scope_finished wz rt s"
    using assms by (simp add: scope_finished_def zombie_def)
qed

lemma notify_chain:
  assumes "runtime_inv rt" and "scope_check_completion_and_notify n wz s rt = Some rt'"
    and "rt_next_scope rt + min s (rt_next_scope rt) < n"
  shows "rt_log rt' = rt_log rt @ map (\<lambda>t. Scope_notified t None) (takeWhile (scope_finished wz rt) (lineage n rt s))"
  using assms
proof (induction n arbitrary: s rt)
  case (Suc n)
  note inv = Suc.prems(1)
  have fin: "scope_can_be_disposed (Suc n) rt wz False s = Some (scope_finished wz rt s)"
    by (rule scope_finished_eq [OF inv]) (use Suc.prems(3) in linarith)
  let ?rt = "notify_scope s None rt"
  have log: "rt_log ?rt = rt_log rt @ [Scope_notified s None]" and scopes: "rt_scopes ?rt = rt_scopes rt"
    and same: "rt_coroutines ?rt = rt_coroutines rt" and nx: "rt_next_scope ?rt = rt_next_scope rt"
    by (simp_all add: notify_scope_def)
  show ?case
  proof (cases "scope_finished wz rt s")
    case False
    with fin Suc.prems(2) show ?thesis by (simp del: scope_can_be_disposed.simps)
  next
    case True
    show ?thesis
    proof (cases "Option.bind (rt_scopes rt s) sc_parent")
      case None
      then have "rt' = ?rt"
        using fin True Suc.prems(2)
        by (auto simp: Let_def bind_eq_None_conv simp del: scope_can_be_disposed.simps split: option.splits)
      with True None log show ?thesis by simp
    next
      case (Some p)
      then obtain x where x: "rt_scopes rt s = Some x" "sc_parent x = Some p" by (auto simp: bind_eq_Some_conv)
      then have up: "scope_check_completion_and_notify n wz p ?rt = Some rt'"
        using fin True Suc.prems(2) by (auto simp: Let_def simp del: scope_can_be_disposed.simps)
      have "rt_next_scope ?rt + min p (rt_next_scope ?rt) < n"
        using settled_parent [OF settled_start [OF inv] x] Suc.prems(3) unfolding nx by linarith
      from Suc.IH [OF _ up this] inv show ?thesis
        using True Some log scopes_only [OF scopes same] by simp
    qed
  qed
qed simp


subsection \<open>A small runtime\<close>

text \<open>The engine's macros as documented, and an environment in which no handler interferes.\<close>

definition demo_core :: zend_core where
  "demo_core = \<lparr>zc_in_queue = (\<lambda>st. st = ZEND_ASYNC_WAKER_QUEUED \<or> st = ZEND_ASYNC_WAKER_IGNORED),
     zc_apply_cancellation = (\<lambda>old e. case old of Some x \<Rightarrow> if th_cancellation x then x else e | None \<Rightarrow> e),
     zc_remove_child = (\<lambda>xs c. filter (\<lambda>x. x \<noteq> c) xs), zc_completely_done = (True, False),
     zc_can_be_disposed = (True, True), zc_completed = (False, False), zc_decrease_count = (\<lambda>k. if 0 < k then k - 1 else k)\<rparr>"

definition demo_env :: runtime_env where
  "demo_env = \<lparr>env_handler_ok = (\<lambda>_. False), env_child_handler_ok = (\<lambda>_. False), env_listeners_absorb = (\<lambda>_. False),
     env_listeners_throw = (\<lambda>_. False), env_finally_runs = (\<lambda>_. False)\<rparr>"

lemma demo_core_ok: "core_ok demo_core"
  by (auto simp: core_ok_def demo_core_def)

text \<open>A scope with a child; a coroutine of the child was started, another one waits in the queue.\<close>

definition demo_tree :: runtime where
  "demo_tree = fst (async_new_scope (Some 0) True (fst (async_new_scope None True empty_runtime)))"

definition demo_spawned :: runtime where
  "demo_spawned = fst (the (spawn (\<lambda>_ rt. Some rt) 0 None (Some 1) None 0
     (fst (the (spawn (\<lambda>_ rt. Some rt) 0 None (Some 1) None 0 demo_tree)))))"

definition demo_running :: runtime where
  "demo_running = fst (coroutine_enter 0 (demo_spawned\<lparr>rt_queue := [1]\<rparr>))"

lemmas runtime_demo_defs = demo_tree_def demo_spawned_def demo_running_def empty_runtime_def async_new_scope_def Let_def
  spawn_def async_new_coroutine_def async_scope_add_coroutine_def enqueue_new_def set_status_def mod_coroutine_def
  mod_scope_def fresh_coroutine_def coroutine_enter_def


lemma runtime_reachable_step: "runtime_reachable core env rt \<Longrightarrow> runtime_step core env rt rt' \<Longrightarrow> runtime_reachable core env rt'"
  unfolding runtime_reachable_def by (rule rtranclp.rtrancl_into_rtrancl)

lemma runtime_reachable_spawn:
  assumes "runtime_reachable core env rt"
  shows "runtime_reachable core env (fst (the (spawn f n ss (Some s) None p rt)))"
proof -
  obtain rt' r where "spawn f n ss (Some s) None p rt = Some (rt', r)"
    by (fastforce simp: spawn_def Let_def split: option.split prod.split)
  with runtime_reachable_step [OF assms Step_spawn] show ?thesis by fastforce
qed

lemma demo_queue: "rt_queue demo_spawned = [0, 1]"
  "rt_coroutines demo_spawned 0 = Some (fresh_coroutine\<lparr>co_scope := Some 1, co_waker_status := ZEND_ASYNC_WAKER_QUEUED\<rparr>)"
  by (simp_all add: runtime_demo_defs)

lemma runtime_demo_reachable:
  "runtime_reachable demo_core demo_env demo_spawned" "runtime_reachable demo_core demo_env demo_running"
proof -
  let ?r = "runtime_reachable demo_core demo_env"
  have "?r empty_runtime" by (simp add: runtime_reachable_def)
  then have r0: "?r (fst (async_new_scope None True empty_runtime))"
    by (rule runtime_reachable_step [OF _ Step_new_scope [where parent = None]]) (auto simp: prod_eq_iff)
  have "?r demo_tree"
    unfolding demo_tree_def
    by (rule runtime_reachable_step [OF r0 Step_new_scope [where parent = "Some 0" and obj = True]])
      (simp_all add: async_new_scope_def empty_runtime_def Let_def prod_eq_iff)
  then show spawned: "?r demo_spawned" unfolding demo_spawned_def by (intro runtime_reachable_spawn)
  show "?r demo_running"
    unfolding demo_running_def
    by (rule runtime_reachable_step [OF spawned Step_dispatch [OF demo_queue]]) simp
qed

lemma demo_running_state:
  "rt_queue demo_running = [1]" "rt_current demo_running = Some 0" "rt_coroutine_list demo_running = [0, 1]"
  "rt_coroutine_count demo_running = 2"
  "rt_coroutines demo_running 0 = Some (fresh_coroutine\<lparr>co_scope := Some 1, co_started := True,
     co_waker_status := ZEND_ASYNC_WAKER_RESULT\<rparr>)"
  "rt_coroutines demo_running 1 = Some (fresh_coroutine\<lparr>co_scope := Some 1, co_waker_status := ZEND_ASYNC_WAKER_QUEUED\<rparr>)"
  by (simp_all add: runtime_demo_defs)

lemma demo_running_scopes:
  "\<exists>x. rt_scopes demo_running 0 = Some x \<and> sc_children x = [1] \<and> sc_coroutines x = [] \<and> \<not> sc_closed x \<and> \<not> sc_cancelled x"
  "\<exists>x. rt_scopes demo_running 1 = Some x \<and> sc_coroutines x = [0, 1] \<and> sc_parent x = Some 0 \<and> sc_active x = 2 \<and>
     \<not> sc_closed x \<and> \<not> sc_cancelled x"
  by (simp_all add: runtime_demo_defs)

subsection \<open>Properties\<close>

text \<open>
  C3.  In every reachable state the ready queue holds exactly the coroutines whose wakers say that
  they are queued, each once; none of them has ended, and each is in the registry of coroutines.
\<close>

theorem ready_queue_exact:
  assumes "core_ok core" and "runtime_reachable core env rt"
  shows "distinct (rt_queue rt) \<and>
    (\<forall>c. c \<in> set (rt_queue rt) \<longleftrightarrow> (\<exists>x. rt_coroutines rt c = Some x \<and> zc_in_queue core (co_waker_status x))) \<and>
    (\<forall>c x. c \<in> set (rt_queue rt) \<and> rt_coroutines rt c = Some x \<longrightarrow>
       \<not> co_finished x \<and> co_scope x \<noteq> None \<and> c \<in> set (rt_coroutine_list rt))"
proof -
  note inv = runtime_reachable_inv [OF assms]
  have live: "\<exists>x. rt_coroutines rt c = Some x" if "c \<in> set (rt_queue rt)" for c
    using runtime_invD(3) [OF inv] that unfolding lists_inv_def by blast
  have "\<not> co_finished x \<and> co_scope x \<noteq> None \<and> c \<in> set (rt_coroutine_list rt)"
    if "c \<in> set (rt_queue rt)" "rt_coroutines rt c = Some x" for c x
    using runtime_invD(1) [OF inv that(2)] that(1) by (auto simp: coroutine_inv_def)
  moreover have "c \<in> set (rt_queue rt) \<longleftrightarrow> (\<exists>x. rt_coroutines rt c = Some x \<and> zc_in_queue core (co_waker_status x))" for c
    using live queued_iff [OF inv] core_in_queue [OF assms(1)] by metis
  moreover have "distinct (rt_queue rt)" using runtime_invD(3) [OF inv] by (simp add: lists_inv_def)
  ultimately show ?thesis by blast
qed

theorem ready_queue_exact_witness:
  "rt_queue demo_running = [1] \<and> (\<forall>c. c \<in> set (rt_queue demo_running) \<longleftrightarrow>
     (\<exists>x. rt_coroutines demo_running c = Some x \<and> zc_in_queue demo_core (co_waker_status x)))"
  using ready_queue_exact [OF demo_core_ok runtime_demo_reachable(2)] demo_running_state(1) by blast

text \<open>
  C5.  In every reachable state the counters of a scope are exact: they are the numbers of its
  coroutines that are not zombies and that are; its vector holds each coroutine once and all
  coroutines of the scope that have not ended; and the runtime counts no more coroutines than are
  registered and not zombies.
\<close>

theorem scope_counters_exact:
  assumes "core_ok core" and "runtime_reachable core env rt"
  shows "(\<forall>s x. rt_scopes rt s = Some x \<longrightarrow> distinct (sc_coroutines x) \<and>
      sc_active x = length (filter (\<lambda>c. \<not> zombie rt c) (sc_coroutines x)) \<and>
      sc_zombies x = length (filter (zombie rt) (sc_coroutines x)) \<and>
      (\<forall>c y. rt_coroutines rt c = Some y \<and> \<not> co_finished y \<longrightarrow> (c \<in> set (sc_coroutines x) \<longleftrightarrow> co_scope y = Some s))) \<and>
    rt_coroutine_count rt \<le> int (length (filter (\<lambda>c. \<not> zombie rt c) (rt_coroutine_list rt)))"
proof -
  note inv = runtime_reachable_inv [OF assms]
  have "c \<in> set (sc_coroutines x) \<longleftrightarrow> co_scope y = Some s"
    if "rt_scopes rt s = Some x" "rt_coroutines rt c = Some y" "\<not> co_finished y" for s x c y
    using runtime_invD(1) [OF inv that(2)] runtime_invD(2) [OF inv that(1)] that
    by (auto simp: coroutine_inv_def scope_inv_def)
  moreover have "distinct (sc_coroutines x) \<and> sc_active x = length (filter (\<lambda>c. \<not> zombie rt c) (sc_coroutines x)) \<and>
      sc_zombies x = length (filter (zombie rt) (sc_coroutines x))" if "rt_scopes rt s = Some x" for s x
    using runtime_invD(2) [OF inv that] by (simp add: scope_inv_def)
  moreover have "rt_coroutine_count rt \<le> int (length (filter (\<lambda>c. \<not> zombie rt c) (rt_coroutine_list rt)))"
    using runtime_invD(3) [OF inv] by (simp add: lists_inv_def)
  ultimately show ?thesis by blast
qed

theorem scope_counters_exact_witness:
  "\<exists>x. rt_scopes demo_running 1 = Some x \<and> sc_active x = 2 \<and>
     sc_active x = length (filter (\<lambda>c. \<not> zombie demo_running c) (sc_coroutines x))"
  using scope_counters_exact [OF demo_core_ok runtime_demo_reachable(2)] demo_running_scopes(2) by blast


text \<open>
  C4.  Cancelling a scope returns and reaches every coroutine the scope is responsible for: each
  coroutine of the scope, or of a scope below it that is reached through open scopes only, has
  ended, is marked as cancelled, or holds a deferred cancellation.
\<close>

theorem scope_cancel_reaches_everyone:
  assumes core: "core_ok core" and reach: "runtime_reachable core env rt"
  shows "\<exists>rt'. scope_cancel_method (depth_bound rt) core env (Some s) e rt = Some rt' \<and>
    (\<forall>t x c. open_path rt s t \<and> rt_scopes rt t = Some x \<and> c \<in> set (sc_coroutines x) \<longrightarrow>
       (\<exists>y. rt_coroutines rt' c = Some y \<and>
          (co_finished y \<or> co_cancelled y \<or> co_deferred_cancellation y \<noteq> None)))"
proof -
  note inv = runtime_reachable_inv [OF core reach]
  let ?safely = "case rt_scopes rt s of None \<Rightarrow> False | Some x \<Rightarrow> sc_dispose_safely x"
  obtain rt' r where call: "scope_catch_or_cancel (depth_bound rt) core env s None None e ?safely True rt = Some (rt', r)"
    using scope_cancel_any [OF core inv] by blast
  have "2 * rt_next_scope rt + (rt_next_scope rt - s) + 1 < depth_bound rt" by (simp add: depth_bound_def)
  from cancel_mode_covers [OF core settled_start [OF inv] this call]
  have told: "told_in rt' c" if "c \<in> charges rt s" for c using that by blast
  have "\<exists>y. rt_coroutines rt' c = Some y \<and> (co_finished y \<or> co_cancelled y \<or> co_deferred_cancellation y \<noteq> None)"
    if "open_path rt s t \<and> rt_scopes rt t = Some x \<and> c \<in> set (sc_coroutines x)" for t x c
    using told [of c] that unfolding charges_def told_in_def told_def by blast
  moreover have "scope_cancel_method (depth_bound rt) core env (Some s) e rt = Some rt'"
    using call by (simp add: scope_cancel_method_def)
  ultimately show ?thesis by blast
qed

theorem scope_cancel_reaches_everyone_witness:
  "\<exists>rt'. scope_cancel_method (depth_bound demo_running) demo_core demo_env (Some 0) None demo_running = Some rt' \<and>
     (\<forall>c\<in>{0, 1}. \<exists>y. rt_coroutines rt' c = Some y \<and>
        (co_finished y \<or> co_cancelled y \<or> co_deferred_cancellation y \<noteq> None))"
proof -
  obtain x where x: "rt_scopes demo_running 1 = Some x" "sc_coroutines x = [0, 1]" "\<not> sc_closed x" "\<not> sc_cancelled x"
    using demo_running_scopes(2) by blast
  have "open_path demo_running 1 1" by (rule Path_here [OF x(1,3,4)])
  then have p: "open_path demo_running 0 1" using demo_running_scopes(1) by (auto intro: Path_below)
  from scope_cancel_reaches_everyone [OF demo_core_ok runtime_demo_reachable(2), of 0 None] obtain rt' where
    rt': "scope_cancel_method (depth_bound demo_running) demo_core demo_env (Some 0) None demo_running = Some rt'"
    "\<forall>t x c. open_path demo_running 0 t \<and> rt_scopes demo_running t = Some x \<and> c \<in> set (sc_coroutines x) \<longrightarrow>
       (\<exists>y. rt_coroutines rt' c = Some y \<and> (co_finished y \<or> co_cancelled y \<or> co_deferred_cancellation y \<noteq> None))"
    by blast
  have "c \<in> set (sc_coroutines x)" if "c \<in> {0, 1}" for c using that x(2) by auto
  with rt' p x(1) show ?thesis by blast
qed

text \<open>
  C6.  The end of a running coroutine always returns, and leaves nothing of it behind: it is marked as
  finished, it is in no scope, not in the ready queue and not in the registry, and the invariants
  above hold again, whatever exception it ended with and whatever its scopes make of it.
\<close>

theorem coroutine_end_leaves_nothing:
  assumes core: "core_ok core" and reach: "runtime_reachable core env rt"
    and c: "rt_coroutines rt c = Some x" "\<not> co_finished x" "\<not> zc_in_queue core (co_waker_status x)"
  shows "\<exists>rt' r. async_coroutine_finalize (depth_bound rt) core env c pending handled unobserved rt = Some (rt', r) \<and>
    runtime_inv rt' \<and> c \<notin> set (rt_coroutine_list rt') \<and> c \<notin> set (rt_queue rt') \<and>
    (\<exists>y. rt_coroutines rt' c = Some y \<and> co_finished y \<and> co_scope y = None) \<and>
    (\<forall>s z. rt_scopes rt' s = Some z \<longrightarrow> c \<notin> set (sc_coroutines z))"
proof -
  note inv = runtime_reachable_inv [OF core reach]
  have "\<not> queued x" using c(3) core_in_queue [OF core] by simp
  from finalize_step [OF core inv c(1,2) this, of env pending handled unobserved] obtain rt' r y where
    rt': "async_coroutine_finalize (depth_bound rt) core env c pending handled unobserved rt = Some (rt', r)"
      "runtime_inv rt'" "c \<notin> set (rt_coroutine_list rt')" "rt_coroutines rt' c = Some y" "co_finished y" "co_scope y = None"
    by blast
  moreover have "c \<notin> set (rt_queue rt')"
    using runtime_invD(1) [OF rt'(2,4)] rt'(5) by (auto simp: coroutine_inv_def)
  moreover have "c \<notin> set (sc_coroutines z)" if "rt_scopes rt' s = Some z" for s z
    using runtime_invD(2) [OF rt'(2) that] rt'(4,6) by (auto simp: scope_inv_def)
  ultimately show ?thesis by blast
qed

theorem coroutine_end_leaves_nothing_witness:
  "\<exists>rt' r. async_coroutine_finalize (depth_bound demo_running) demo_core demo_env 0
     (Some \<lparr>th_cancellation = False, th_id = 7\<rparr>) False True demo_running = Some (rt', r) \<and>
     0 \<notin> set (rt_coroutine_list rt') \<and> (\<forall>s z. rt_scopes rt' s = Some z \<longrightarrow> 0 \<notin> set (sc_coroutines z))"
  using coroutine_end_leaves_nothing [OF demo_core_ok runtime_demo_reachable(2) demo_running_state(5)]
  by (fastforce simp: fresh_coroutine_def demo_core_def)

text \<open>
  C8.  The recursions over the tree of scopes come to an end: in every reachable state cancelling a scope,
  disposing it, disposing it safely and destroying its object return within a depth of four times
  the number of scopes created so far and three more.
\<close>

theorem scope_recursions_terminate:
  assumes "core_ok core" and "runtime_reachable core env rt"
  shows "(\<exists>rt'. scope_cancel_method (depth_bound rt) core env this e rt = Some rt') \<and>
    (\<exists>rt'. scope_dispose_method (depth_bound rt) core env this rt = Some rt') \<and>
    (\<exists>rt'. scope_disposeSafely_method (depth_bound rt) core env this rt = Some rt') \<and>
    (\<exists>rt'. scope_object_destroyed (depth_bound rt) core env s rt = Some rt')"
  using scope_methods_return [OF assms(1) runtime_reachable_inv [OF assms], of env this]
    scope_destroyed_returns [OF assms(1) runtime_reachable_inv [OF assms], of env s] by blast

theorem scope_recursions_terminate_witness:
  "\<exists>rt'. scope_dispose_method (depth_bound demo_running) demo_core demo_env (Some 0) demo_running = Some rt'"
  using scope_recursions_terminate [OF demo_core_ok runtime_demo_reachable(2)] by blast

text \<open>
  Completion as the comment of \<^verbatim>\<open>scope_can_be_disposed\<close> words it (\<^verbatim>\<open>scope.c:1503\<close>): a scope is
  completed when it is closed, or when it has no active coroutine and all its child scopes are
  completed.  The comment does not speak of cancelled scopes.
\<close>

inductive scope_completed :: "runtime \<Rightarrow> nat \<Rightarrow> bool" for rt where
  Completed_gone: "rt_scopes rt s = None \<Longrightarrow> scope_completed rt s"
| Completed_closed: "rt_scopes rt s = Some x \<Longrightarrow> sc_closed x \<Longrightarrow> scope_completed rt s"
| Completed_idle: "rt_scopes rt s = Some x \<Longrightarrow> (\<And>c. c \<in> set (sc_coroutines x) \<Longrightarrow> zombie rt c) \<Longrightarrow>
    (\<And>t. t \<in> set (sc_children x) \<Longrightarrow> scope_completed rt t) \<Longrightarrow> scope_completed rt s"

text \<open>The scopes the comment's recursion visits: those reached without passing a closed one.\<close>

inductive unclosed_path :: "runtime \<Rightarrow> nat \<Rightarrow> nat \<Rightarrow> bool" for rt where
  Unclosed_here: "rt_scopes rt s = Some x \<Longrightarrow> \<not> sc_closed x \<Longrightarrow> unclosed_path rt s s"
| Unclosed_below: "rt_scopes rt s = Some x \<Longrightarrow> \<not> sc_closed x \<Longrightarrow> t \<in> set (sc_children x) \<Longrightarrow>
    unclosed_path rt t u \<Longrightarrow> unclosed_path rt s u"

lemma finished_unfold:
  "scope_finished wz rt s \<longleftrightarrow> (\<forall>x. rt_scopes rt s = Some x \<and> \<not> sc_closed x \<and> \<not> sc_cancelled x \<longrightarrow>
     (\<forall>c\<in>set (sc_coroutines x). \<not> wz \<and> zombie rt c) \<and> (\<forall>t\<in>set (sc_children x). scope_finished wz rt t))"
proof (cases "\<exists>x. rt_scopes rt s = Some x \<and> \<not> sc_closed x \<and> \<not> sc_cancelled x")
  case True
  then obtain x where x: "rt_scopes rt s = Some x" "\<not> sc_closed x" "\<not> sc_cancelled x" by blast
  then show ?thesis
    unfolding scope_finished_def open_path_unfold [of rt s] by auto
next
  case False
  then have "\<not> open_path rt s t" for t using open_path_unfold [of rt s t] by blast
  with False show ?thesis by (auto simp: scope_finished_def)
qed

lemma completed_is_finished: "scope_completed rt s \<Longrightarrow> scope_finished False rt s"
  by (induction rule: scope_completed.induct) (subst finished_unfold, simp)+

lemma finished_is_completed:
  assumes "tree_bound B rt" and "scope_finished False rt s"
    and "\<And>t x. unclosed_path rt s t \<Longrightarrow> rt_scopes rt t = Some x \<Longrightarrow> \<not> sc_cancelled x"
  shows "scope_completed rt s"
  using assms(2,3)
proof (induction "B - s" arbitrary: s rule: less_induct)
  case less
  show ?case
  proof (cases "\<exists>x. rt_scopes rt s = Some x \<and> \<not> sc_closed x")
    case False
    then show ?thesis by (cases "rt_scopes rt s") (auto intro: scope_completed.intros)
  next
    case True
    then obtain x where x: "rt_scopes rt s = Some x" "\<not> sc_closed x" by blast
    moreover have open_x: "\<not> sc_cancelled x" using less.prems(2) x by (blast intro: Unclosed_here)
    moreover have "scope_completed rt t" if t: "t \<in> set (sc_children x)" for t
    proof (rule less.hyps)
      show "B - t < B - s" using tree_boundD(1) [OF assms(1) x(1) t] by linarith
      show "scope_finished False rt t" using less.prems(1) x open_x t finished_unfold [of False rt s] by blast
      show "\<not> sc_cancelled y" if "unclosed_path rt t u" "rt_scopes rt u = Some y" for u y
        using less.prems(2) that x t by (blast intro: Unclosed_below)
    qed
    ultimately show ?thesis
      using less.prems(1) finished_unfold [of False rt s] by (blast intro: Completed_idle)
  qed
qed

text \<open>
  C9.  What \<^verbatim>\<open>isFinished()\<close> answers, in every reachable state.  It answers yes exactly when every
  coroutine of the scopes reached without passing a closed or a cancelled scope is a zombie.  A
  completed scope, in the sense of the comment on \<^verbatim>\<open>scope_can_be_disposed\<close>, is always reported
  finished; conversely a scope reported finished is completed in that sense as long as no scope
  below it (and not the scope itself) is cancelled without being closed.  A cancelled scope is
  reported finished whatever still runs in it: there the code, whose inner comment says ``closed or
  cancelled'', departs from the comment on the function.
\<close>

theorem scope_isFinished_exact:
  assumes core: "core_ok core" and reach: "runtime_reachable core env rt"
  shows "\<exists>answer. scope_isFinished (depth_bound rt) core (Some s) rt = Some answer
    \<and> (answer \<longleftrightarrow> (\<forall>t x c y. open_path rt s t \<and> rt_scopes rt t = Some x \<and> c \<in> set (sc_coroutines x) \<and>
            rt_coroutines rt c = Some y \<longrightarrow> co_zombie y))
    \<and> (scope_completed rt s \<longrightarrow> answer)
    \<and> (answer \<and> (\<forall>t x. unclosed_path rt s t \<and> rt_scopes rt t = Some x \<longrightarrow> \<not> sc_cancelled x) \<longrightarrow> scope_completed rt s)
    \<and> (\<forall>x. rt_scopes rt s = Some x \<and> sc_cancelled x \<longrightarrow> answer)"
proof -
  note inv = runtime_reachable_inv [OF core reach]
  have a: "scope_isFinished (depth_bound rt) core (Some s) rt = Some (scope_finished False rt s)"
    using scope_finished_eq [OF inv, of s "depth_bound rt" False] core
    by (simp add: scope_isFinished_def core_ok_def depth_bound_def)
  have "zombie rt c \<longleftrightarrow> (\<forall>y. rt_coroutines rt c = Some y \<longrightarrow> co_zombie y)"
    if "rt_scopes rt t = Some x" "c \<in> set (sc_coroutines x)" for t x c
    using runtime_invD(2) [OF inv that(1)] that(2) by (auto simp: scope_inv_def zombie_def)
  then have exact: "scope_finished False rt s \<longleftrightarrow> (\<forall>t x c y. open_path rt s t \<and> rt_scopes rt t = Some x \<and>
      c \<in> set (sc_coroutines x) \<and> rt_coroutines rt c = Some y \<longrightarrow> co_zombie y)"
    unfolding scope_finished_def by blast
  have "\<forall>x. rt_scopes rt s = Some x \<and> sc_cancelled x \<longrightarrow> scope_finished False rt s"
    by (subst finished_unfold) simp
  then show ?thesis
    using a exact completed_is_finished [of rt s]
      finished_is_completed [OF settled_tree_bound [OF settled_start [OF inv]], of s] by blast
qed

theorem scope_isFinished_exact_witness:
  "scope_isFinished (depth_bound demo_running) demo_core (Some 0) demo_running = Some False
    \<and> \<not> scope_completed demo_running 0"
proof -
  obtain x where x: "rt_scopes demo_running 1 = Some x" "sc_coroutines x = [0, 1]" "\<not> sc_closed x" "\<not> sc_cancelled x"
    using demo_running_scopes(2) by blast
  have "open_path demo_running 1 1" by (rule Path_here [OF x(1,3,4)])
  then have "open_path demo_running 0 1" using demo_running_scopes(1) by (auto intro: Path_below)
  then have no: "\<not> (\<forall>t x c y. open_path demo_running 0 t \<and> rt_scopes demo_running t = Some x \<and>
      c \<in> set (sc_coroutines x) \<and> rt_coroutines demo_running c = Some y \<longrightarrow> co_zombie y)"
    using x demo_running_state(5) by (fastforce simp: fresh_coroutine_def)
  obtain answer where a: "scope_isFinished (depth_bound demo_running) demo_core (Some 0) demo_running = Some answer"
    "answer \<longleftrightarrow> (\<forall>t x c y. open_path demo_running 0 t \<and> rt_scopes demo_running t = Some x \<and>
      c \<in> set (sc_coroutines x) \<and> rt_coroutines demo_running c = Some y \<longrightarrow> co_zombie y)"
    "scope_completed demo_running 0 \<longrightarrow> answer"
    using scope_isFinished_exact [OF demo_core_ok runtime_demo_reachable(2), of 0] by blast
  have "answer = False" unfolding a(2) using no by (simp only: eq_False not_False_eq_True)
  with a(1,3) show ?thesis by simp
qed

text \<open>
  When a coroutine ends or becomes a zombie, the listeners of its scope are told that the scope is
  finished if it is, then those of the parent, and so on upwards: exactly the finished scopes up
  to the first ancestor that is not, in this order, and nothing else changes.
\<close>

theorem completion_notifies_finished_ancestors:
  assumes core: "core_ok core" and reach: "runtime_reachable core env rt"
  shows "\<exists>rt'. scope_check_completion_and_notify (depth_bound rt) with_zombies s rt = Some rt' \<and>
    rt' = rt\<lparr>rt_log := rt_log rt @
      map (\<lambda>t. Scope_notified t None) (takeWhile (scope_finished with_zombies rt) (lineage (depth_bound rt) rt s))\<rparr>"
proof -
  note inv = runtime_reachable_inv [OF core reach]
  let ?B = "rt_next_scope rt"
  have n: "?B + min s ?B < depth_bound rt" by (simp add: depth_bound_def)
  then obtain rt' where rt': "scope_check_completion_and_notify (depth_bound rt) with_zombies s rt = Some rt'"
    using check_completion_returns [OF settled_tree_bound [OF settled_start [OF inv]] n] by blast
  from check_completion_log [OF rt'] obtain l where "rt' = rt\<lparr>rt_log := l\<rparr>" by blast
  with notify_chain [OF inv rt' n] rt' show ?thesis by simp
qed

theorem completion_notifies_finished_ancestors_witness:
  "\<exists>rt'. scope_check_completion_and_notify (depth_bound demo_running) True 1 demo_running = Some rt' \<and> rt_log rt' = []"
proof -
  obtain x where x: "rt_scopes demo_running 1 = Some x" "sc_coroutines x = [0, 1]" "\<not> sc_closed x" "\<not> sc_cancelled x"
    using demo_running_scopes(2) by blast
  have "open_path demo_running 1 1" by (rule Path_here [OF x(1,3,4)])
  then have "\<not> scope_finished True demo_running 1" using x(1,2) unfolding scope_finished_def by (metis list.set_intros(1))
  moreover have "lineage (depth_bound demo_running) demo_running 1 = 1 # tl (lineage (depth_bound demo_running) demo_running 1)"
  proof -
    have "depth_bound demo_running = Suc (4 * rt_next_scope demo_running + 2)" by (simp add: depth_bound_def)
    then show ?thesis by (simp only: lineage.simps list.sel)
  qed
  ultimately have "takeWhile (scope_finished True demo_running) (lineage (depth_bound demo_running) demo_running 1) = []"
    by (metis takeWhile.simps(2))
  moreover have "rt_log demo_running = []" by (simp add: runtime_demo_defs)
  ultimately show ?thesis
    using completion_notifies_finished_ancestors [OF demo_core_ok runtime_demo_reachable(2), of True 1] by auto
qed

text \<open>
  The test whether a coroutine runs in a scope or below it never claims that it does when it does
  not; when it denies it without raising the error about the depth it is right; and the error needs
  a chain of more than 64 nested scopes.
\<close>

theorem contains_coroutine_exact:
  "(fst (async_scope_contains_coroutine rt s c 0) \<longrightarrow> runs_below rt s c) \<and>
   (runs_below rt s c \<longrightarrow> fst (async_scope_contains_coroutine rt s c 0) \<or> snd (async_scope_contains_coroutine rt s c 0)) \<and>
   (snd (async_scope_contains_coroutine rt s c 0) \<longrightarrow> (\<exists>t. (child_scope rt ^^ 65) s t))"
  using contains_within_result [of 65 rt c s]
  by (simp add: async_scope_contains_coroutine_def ASYNC_SCOPE_MAX_RECURSION_DEPTH_def)

theorem contains_coroutine_exact_witness:
  "fst (async_scope_contains_coroutine demo_running 0 1 0) \<or> snd (async_scope_contains_coroutine demo_running 0 1 0)"
proof -
  have "runs_below demo_running 1 1" using runs_below_unfold [of demo_running 1 1] demo_running_scopes(2) by auto
  then have "runs_below demo_running 0 1" using runs_below_unfold [of demo_running 0 1] demo_running_scopes(1) by auto
  with contains_coroutine_exact [of demo_running 0 1] show ?thesis by blast
qed

subsection \<open>Where the books go wrong\<close>

text \<open>
  A coroutine that is already a zombie is counted out again by a second safe cancellation, although
  neither the registry nor the set of zombies changes: the count of active coroutines is then too
  low by one, and the coroutine is no more a zombie than before.
\<close>

lemma zombie_cancelled_again_miscounts:
  assumes "core_ok core" and "rt_coroutines rt c = Some x" and "co_started x" "\<not> co_finished x" "co_zombie x" "\<not> co_protected x"
    and "rt_current rt \<noteq> Some c" and "0 < rt_coroutine_count rt"
  shows "\<exists>rt'. async_coroutine_cancel core n c e True rt = Some (rt', True) \<and>
    rt_coroutine_count rt' = rt_coroutine_count rt - 1 \<and> rt_coroutine_list rt' = rt_coroutine_list rt \<and> zombie rt' = zombie rt"
  using assms decrease_count [OF assms(1), of "rt_coroutine_count rt"]
  by (auto simp: async_coroutine_cancel_def async_scope_mark_coroutine_zombie_def zombie_def fun_eq_iff
      split: option.split)

text \<open>
  A cancelled scope counts as completely done although its coroutines still run: cancelling it a
  second time closes it and starts its finally handlers.
\<close>

lemma cancelled_scope_closes_early:
  assumes "core_ok core" and "rt_scopes rt s = Some x" and "sc_cancelled x" and "\<not> sc_closed x"
  shows "scope_catch_or_cancel (Suc n) core env s co src e safely True rt =
    Some (fst (async_scope_call_finally_handlers env s (mod_scope s (\<lambda>x. x\<lparr>sc_closed := True\<rparr>) rt)), Exception_taken)"
  using assms by (simp add: core_ok_def)

definition demo_rejected :: runtime where
  "demo_rejected = fst (the (spawn (\<lambda>_ rt. Some rt) 0 None (Some 1) (Some (True, False)) 0 demo_tree))"

text \<open>
  A coroutine whose \<^verbatim>\<open>SpawnStrategy::afterCoroutineEnqueue\<close> failed is discarded by the scheduler without
  being finalised: its object is destroyed, but the registry keeps the pointer and the count keeps
  counting it.
\<close>

theorem rejected_spawn_stays_registered:
  "rt_queue demo_rejected = [0] \<and>
   (\<exists>rt' r. coroutine_execute_ignored 11 demo_core demo_env 0 False True (demo_rejected\<lparr>rt_queue := []\<rparr>) = Some (rt', r) \<and>
      rt_coroutines rt' 0 = None \<and> rt_coroutine_list rt' = [0] \<and> rt_coroutine_count rt' = 1)"
proof -
  have "rt_queue demo_rejected = [0]" by code_simp
  moreover have "case coroutine_execute_ignored 11 demo_core demo_env 0 False True (demo_rejected\<lparr>rt_queue := []\<rparr>) of
      None \<Rightarrow> False | Some (rt', r) \<Rightarrow> rt_coroutines rt' 0 = None \<and> rt_coroutine_list rt' = [0] \<and> rt_coroutine_count rt' = 1"
    by code_simp
  ultimately show ?thesis by (auto split: option.splits prod.splits)
qed

end
