(* ===== verification/Task_Group.thy ===== *)
theory Task_Group
  imports Runtime
begin

text \<open>
  Task groups and task sets (\<^verbatim>\<open>src/task_group.c\<close>).  A group runs closures as coroutines of one
  scope, at most \<^verbatim>\<open>concurrency\<close> at a time, keeps the others in a queue, and serves futures
  (\<^verbatim>\<open>all()\<close>, \<^verbatim>\<open>race()\<close>, \<^verbatim>\<open>any()\<close>) and iterators over the outcomes.  The world outside of the group,
  above all its scope, is a state of type \<open>'w\<close>, reached through the record \<open>group_env\<close>.
\<close>

subsection \<open>Data\<close>

text \<open>Integer keys and string keys never meet: the table is not a symbol table.\<close>

datatype task_key = Key_Long int | Key_String string

text \<open>
  An entry of the table \<^verbatim>\<open>tasks\<close>: the three states of \<^verbatim>\<open>task_entry_t\<close>, or the result itself; in a
  result \<open>None\<close> is the value null.
\<close>

datatype 'v task_entry =
    Task_Pending nat
  | Task_Running nat
  | Task_Error throwable
  | Task_Result "'v option"

datatype waiter_type =
    WAITER_TYPE_RACE
  | WAITER_TYPE_ANY
  | WAITER_TYPE_ALL
  | WAITER_TYPE_ALL_IGNORE_ERRORS
  | WAITER_TYPE_ITERATOR

text \<open>
  A coroutine suspended in \<^verbatim>\<open>spawn()\<close>: its trigger in \<^verbatim>\<open>slot_waiters\<close>, whether the trigger was fired
  since, and the arguments on its stack.
\<close>

record slot_waiter =
  sw_trigger :: nat
  sw_fired :: bool
  sw_key :: task_key
  sw_fcall :: nat

text \<open>What a future is settled with.\<close>

datatype 'v settlement =
    Resolved "'v option"
  | Resolved_all "(task_key \<times> 'v option) list"
  | Rejected throwable
  | Rejected_composite "throwable list"

datatype 'v group_effect =
    Waiter_settled nat "'v settlement"
  | Iterator_notified nat
  | Group_notified
  | Finally_started "nat list"
  | Finally_dropped "nat list"
  | Finally_called_now nat
  | Undefined_behaviour string

text \<open>
  \<^verbatim>\<open>async_task_group_t\<close>.  The waiter vector holds the identity and the type of each waiter.
  \<open>tg_callbacks\<close> are the callbacks the group has on coroutines, with their keys; \<open>tg_refcount\<close>
  counts the references of running tasks and of finally handlers to the group; \<open>tg_next_id\<close>
  numbers waiters and triggers.
\<close>

record 'v task_group =
  tg_scope :: "nat option"
  tg_scope_object :: bool
  tg_concurrency :: uint32
  tg_queue_limit :: uint32
  tg_pending_count :: uint32
  tg_active_coroutines :: "32 word"
  tg_slot_waiters :: "slot_waiter list"
  tg_tasks :: "(task_key \<times> 'v task_entry) list"
  tg_waiter_events :: "(nat \<times> waiter_type) list"
  tg_waiter_events_capacity :: nat
  tg_waiter_notify_index :: nat
  tg_finally_handlers :: "nat list option"
  tg_next_key :: uint32
  tg_completed :: bool
  tg_sealed :: bool
  tg_task_set :: bool
  tg_exception_handled :: bool
  tg_event_closed :: bool
  tg_callbacks :: "(nat \<times> task_key) list"
  tg_refcount :: nat
  tg_next_id :: nat
  tg_log :: "'v group_effect list"

text \<open>
  What the group uses of its surroundings: the scope operations of \<^verbatim>\<open>src/scope.c\<close> and
  \<^verbatim>\<open>src/async_API.c\<close>; \<open>ge_spawn\<close> answers with the coroutine and whether an exception is pending.
  \<open>ge_add_duplicate\<close> is what the engine's \<^verbatim>\<open>zend_hash_add_new\<close> does with a key that is in the table
  already, which its contract excludes.
\<close>

record ('w, 'v) group_env =
  ge_new_child :: "'w \<Rightarrow> 'w \<times> nat option"
  ge_pin :: "bool \<Rightarrow> nat \<Rightarrow> 'w \<Rightarrow> 'w"
  ge_add_ref :: "nat \<Rightarrow> 'w \<Rightarrow> 'w"
  ge_release :: "nat \<Rightarrow> 'w \<Rightarrow> 'w"
  ge_spawn :: "nat option \<Rightarrow> 'w \<Rightarrow> 'w \<times> nat option \<times> bool"
  ge_try_to_dispose :: "nat \<Rightarrow> 'w \<Rightarrow> 'w \<times> bool"
  ge_cancel :: "nat \<Rightarrow> throwable \<Rightarrow> 'w \<Rightarrow> 'w"
  ge_catch :: "nat \<Rightarrow> throwable list \<Rightarrow> 'w \<Rightarrow> 'w"
  ge_completely_done :: "nat \<Rightarrow> 'w \<Rightarrow> bool"
  ge_call_finally :: "nat option \<Rightarrow> nat list \<Rightarrow> 'w \<Rightarrow> 'w \<times> bool"
  ge_add_duplicate :: "(task_key \<times> 'v task_entry) list \<Rightarrow> task_key \<Rightarrow> 'v task_entry \<Rightarrow> (task_key \<times> 'v task_entry) list"

definition tg_effect :: "'v group_effect \<Rightarrow> 'v task_group \<Rightarrow> 'v task_group" where
  "tg_effect e g = g\<lparr>tg_log := tg_log g @ [e]\<rparr>"

subsection \<open>The waiter vector\<close>

definition task_group_waiter_add_to_vector :: "nat \<times> waiter_type \<Rightarrow> 'v task_group \<Rightarrow> 'v task_group" where
  "task_group_waiter_add_to_vector w g =
     (let cap = tg_waiter_events_capacity g;
          cap = (if length (tg_waiter_events g) = cap then (if cap = 0 then 4 else cap * 2) else cap)
      in g\<lparr>tg_waiter_events_capacity := cap, tg_waiter_events := tg_waiter_events g @ [w]\<rparr>)"

text \<open>Both constructors of waiters; the type of an iterator waiter is fixed.\<close>

definition task_group_waiter_future_new :: "waiter_type \<Rightarrow> 'v task_group \<Rightarrow> 'v task_group \<times> nat" where
  "task_group_waiter_future_new type g =
     (let w = tg_next_id g
      in (task_group_waiter_add_to_vector (w, type) (g\<lparr>tg_next_id := Suc w\<rparr>), w))"

definition task_group_waiter_iterator_new :: "'v task_group \<Rightarrow> 'v task_group \<times> nat" where
  "task_group_waiter_iterator_new g = task_group_waiter_future_new WAITER_TYPE_ITERATOR g"

text \<open>The last waiter takes the place of the removed one, and a running notification is adjusted.\<close>

definition task_group_waiter_event_remove :: "nat \<Rightarrow> 'v task_group \<Rightarrow> 'v task_group" where
  "task_group_waiter_event_remove w g =
     (case vector_index (map fst (tg_waiter_events g)) w of
        None \<Rightarrow> g
      | Some i \<Rightarrow>
          g\<lparr>tg_waiter_events := vector_remove (tg_waiter_events g) i,
            tg_waiter_notify_index :=
              (if i < tg_waiter_notify_index g then tg_waiter_notify_index g - 1 else tg_waiter_notify_index g)\<rparr>)"

text \<open>
  Dropping a future or the event of an iterator.  A waiter that was taken out of the vector has no
  group any more, and the search for it then finds nothing.
\<close>

definition waiter_future_dispose :: "nat \<Rightarrow> 'v task_group \<Rightarrow> 'v task_group" where
  "waiter_future_dispose w g = task_group_waiter_event_remove w g"

definition waiter_iterator_dispose :: "nat \<Rightarrow> 'v task_group \<Rightarrow> 'v task_group" where
  "waiter_iterator_dispose w g = task_group_waiter_event_remove w g"

subsection \<open>The table of tasks\<close>

fun task_is_pending :: "'v task_entry \<Rightarrow> bool" where
  "task_is_pending (Task_Pending f) = True"
| "task_is_pending e = False"

fun task_is_error :: "'v task_entry \<Rightarrow> bool" where
  "task_is_error (Task_Error x) = True"
| "task_is_error e = False"

fun task_is_completed :: "'v task_entry \<Rightarrow> bool" where
  "task_is_completed (Task_Result r) = True"
| "task_is_completed e = False"

definition task_group_all_settled :: "'v task_group \<Rightarrow> bool" where
  "task_group_all_settled g = (tg_active_coroutines g = 0)"

definition task_group_has_pending :: "'v task_group \<Rightarrow> bool" where
  "task_group_has_pending g = list_ex (\<lambda>(k, e). task_is_pending e) (tg_tasks g)"

definition task_group_has_errors :: "'v task_group \<Rightarrow> bool" where
  "task_group_has_errors g = list_ex (\<lambda>(k, e). task_is_error e) (tg_tasks g)"

fun task_results :: "(task_key \<times> 'v task_entry) list \<Rightarrow> (task_key \<times> 'v option) list" where
  "task_results [] = []"
| "task_results ((k, e) # ts) = (case e of Task_Result r \<Rightarrow> (k, r) # task_results ts | _ \<Rightarrow> task_results ts)"

definition task_group_collect_results :: "'v task_group \<Rightarrow> (task_key \<times> 'v option) list" where
  "task_group_collect_results g = task_results (tg_tasks g)"

fun task_errors :: "(task_key \<times> 'v task_entry) list \<Rightarrow> (task_key \<times> throwable) list" where
  "task_errors [] = []"
| "task_errors ((k, e) # ts) = (case e of Task_Error x \<Rightarrow> (k, x) # task_errors ts | _ \<Rightarrow> task_errors ts)"

definition task_group_collect_errors :: "'v task_group \<Rightarrow> (task_key \<times> throwable) list" where
  "task_group_collect_errors g = task_errors (tg_tasks g)"

definition task_group_collect_composite_exception :: "'v task_group \<Rightarrow> throwable list" where
  "task_group_collect_composite_exception g = map snd (task_errors (tg_tasks g))"

text \<open>A task set forgets what it delivered.\<close>

definition task_set_remove_entry :: "task_key \<Rightarrow> 'v task_group \<Rightarrow> 'v task_group" where
  "task_set_remove_entry k g =
     (if tg_task_set g then g\<lparr>tg_tasks := filter (\<lambda>(k', e). k' \<noteq> k) (tg_tasks g)\<rparr> else g)"

definition task_set_remove_all_entries :: "'v task_group \<Rightarrow> 'v task_group" where
  "task_set_remove_all_entries g = (if tg_task_set g then g\<lparr>tg_tasks := []\<rparr> else g)"

definition tasks_add_new :: "('w, 'v) group_env \<Rightarrow> task_key \<Rightarrow> 'v task_entry \<Rightarrow> 'v task_group \<Rightarrow> 'v task_group" where
  "tasks_add_new env k e g =
     g\<lparr>tg_tasks := (if k \<in> fst ` set (tg_tasks g) then ge_add_duplicate env (tg_tasks g) k e
                    else tg_tasks g @ [(k, e)])\<rparr>"

subsection \<open>Completion\<close>

definition settle :: "nat \<Rightarrow> 'v settlement \<Rightarrow> 'v task_group \<Rightarrow> 'v task_group" where
  "settle w r g = tg_effect (Waiter_settled w r) g"

definition settle_all :: "bool \<Rightarrow> nat \<Rightarrow> 'v task_group \<Rightarrow> 'v task_group" where
  "settle_all reject w g =
     task_group_waiter_event_remove w (task_set_remove_all_entries
       (settle w (if reject then Rejected_composite (task_group_collect_composite_exception g)
                  else Resolved_all (task_group_collect_results g)) g))"

text \<open>
  The loop of \<^verbatim>\<open>task_group_try_complete\<close> over the waiters.  A \<^verbatim>\<open>break\<close> leaves the switch and reaches
  the increment at the end of the loop body, a \<^verbatim>\<open>continue\<close> does not.
\<close>

lemma length_waiter_event_remove:
  "i < length (tg_waiter_events g) \<Longrightarrow> fst (tg_waiter_events g ! i) = w \<Longrightarrow>
   length (tg_waiter_events (task_group_waiter_event_remove w g)) < length (tg_waiter_events g)"
proof -
  assume i: "i < length (tg_waiter_events g)" "fst (tg_waiter_events g ! i) = w"
  have "vector_index xs w \<noteq> None" if "w \<in> set xs" for xs
    using that by (induction xs) (auto simp del: not_None_eq)
  moreover have "w \<in> set (map fst (tg_waiter_events g))" using i by (auto intro: imageI nth_mem)
  ultimately obtain j where "vector_index (map fst (tg_waiter_events g)) w = Some j" by blast
  then show ?thesis using i by (auto simp: task_group_waiter_event_remove_def vector_remove_def)
qed

lemma waiters_of_set_remove [simp]:
  "tg_waiter_events (task_set_remove_entry k g) = tg_waiter_events g"
  "tg_waiter_events (task_set_remove_all_entries g) = tg_waiter_events g"
  "tg_waiter_notify_index (task_set_remove_entry k g) = tg_waiter_notify_index g"
  "tg_waiter_notify_index (task_set_remove_all_entries g) = tg_waiter_notify_index g"
  by (simp_all add: task_set_remove_entry_def task_set_remove_all_entries_def)

lemma waiters_of_settle [simp]:
  "tg_waiter_events (settle w r g) = tg_waiter_events g"
  "tg_waiter_notify_index (settle w r g) = tg_waiter_notify_index g"
  by (simp_all add: settle_def tg_effect_def)

function complete_waiters :: "bool \<Rightarrow> nat \<Rightarrow> 'v task_group \<Rightarrow> 'v task_group" where
  "complete_waiters has_errors i g =
     (if i < length (tg_waiter_events g) then
        case tg_waiter_events g ! i of (w, type) \<Rightarrow>
          (case type of
             WAITER_TYPE_ALL \<Rightarrow> complete_waiters has_errors (i + 1) (settle_all has_errors w g)
           | WAITER_TYPE_ALL_IGNORE_ERRORS \<Rightarrow> complete_waiters has_errors i (settle_all False w g)
           | WAITER_TYPE_ANY \<Rightarrow>
               complete_waiters has_errors (i + 1)
                 (task_group_waiter_event_remove w
                   (settle w (Rejected_composite (task_group_collect_composite_exception g)) g))
           | WAITER_TYPE_ITERATOR \<Rightarrow> complete_waiters has_errors (i + 2) (tg_effect (Iterator_notified w) g)
           | WAITER_TYPE_RACE \<Rightarrow> complete_waiters has_errors (i + 2) g)
      else g)"
  by pat_completeness auto

lemma settle_all_shrinks:
  assumes "i < length (tg_waiter_events g)" "(w, type) = tg_waiter_events g ! i"
  shows "length (tg_waiter_events (settle_all b w g)) < length (tg_waiter_events g)"
  unfolding settle_all_def
  using length_waiter_event_remove
    [of i "task_set_remove_all_entries (settle w (if b then Rejected_composite (task_group_collect_composite_exception g)
             else Resolved_all (task_group_collect_results g)) g)" w] assms(1) assms(2) [symmetric]
  by simp

lemma settle_remove_shrinks:
  assumes "i < length (tg_waiter_events g)" "(w, type) = tg_waiter_events g ! i"
  shows "length (tg_waiter_events (task_group_waiter_event_remove w (settle w r g))) < length (tg_waiter_events g)"
  using length_waiter_event_remove [of i "settle w r g" w] assms(1) assms(2) [symmetric] by simp

termination complete_waiters
proof (relation "measure (\<lambda>(b, i, g). length (tg_waiter_events g) - i)", goal_cases)
  case (3 b i g w type)
  then show ?case
    using settle_remove_shrinks [of i g w type "Rejected_composite (task_group_collect_composite_exception g)"] by auto
next
  case (4 b i g w type)
  then show ?case using settle_all_shrinks [of i g w type b] by auto
next
  case (5 b i g w type)
  then show ?case using settle_all_shrinks [of i g w type False] by auto
qed (auto simp: tg_effect_def)

declare complete_waiters.simps [simp del]

text \<open>
  The finally handlers run in a coroutine of the group's scope, which then holds the group and the
  scope.
\<close>

definition start_finally_handlers :: "('w, 'v) group_env \<Rightarrow> 'w \<Rightarrow> 'v task_group \<Rightarrow> 'w \<times> 'v task_group" where
  "start_finally_handlers env w g =
     (case tg_finally_handlers g of
        Some (h # hs) \<Rightarrow>
          (let g = g\<lparr>tg_finally_handlers := None\<rparr> in
           case ge_call_finally env (tg_scope g) (h # hs) w of
             (w, True) \<Rightarrow>
               (let g = tg_effect (Finally_started (h # hs)) (g\<lparr>tg_refcount := tg_refcount g + 1\<rparr>)
                in case tg_scope g of
                     None \<Rightarrow> (w, tg_effect (Undefined_behaviour ''group->scope is NULL'') g)
                   | Some s \<Rightarrow> (ge_add_ref env s w, g))
           | (w, False) \<Rightarrow> (w, tg_effect (Finally_dropped (h # hs)) g))
      | _ \<Rightarrow> (w, g))"

definition task_group_try_complete :: "('w, 'v) group_env \<Rightarrow> 'w \<Rightarrow> 'v task_group \<Rightarrow> 'w \<times> 'v task_group" where
  "task_group_try_complete env w g =
     (if 0 <s tg_active_coroutines g \<or> task_group_has_pending g then (w, g)
      else
        let g = complete_waiters (task_group_has_errors g) 0 g;
            g = (if tg_sealed g then g\<lparr>tg_completed := True\<rparr> else g);
            g = (tg_effect Group_notified g)\<lparr>tg_event_closed := True\<rparr>
        in start_finally_handlers env w g)"

text \<open>The end of the coroutine with the finally handlers.\<close>

definition task_group_finally_handlers_dtor :: "'v task_group \<Rightarrow> 'v task_group" where
  "task_group_finally_handlers_dtor g = g\<lparr>tg_refcount := tg_refcount g - 1\<rparr>"

subsection \<open>Slots and the queue\<close>

text \<open>\<^verbatim>\<open>active_coroutines < (int32_t) concurrency\<close> is a signed comparison.\<close>

definition task_group_has_slot :: "'v task_group \<Rightarrow> bool" where
  "task_group_has_slot g \<longleftrightarrow> tg_concurrency g = 0 \<or> tg_active_coroutines g <s tg_concurrency g"

definition task_group_queue_is_full :: "'v task_group \<Rightarrow> bool" where
  "task_group_queue_is_full g \<longleftrightarrow> 0 < tg_queue_limit g \<and> tg_queue_limit g \<le> tg_pending_count g"

text \<open>
  Firing a trigger only tells the event loop; a trigger fired twice before its coroutine runs
  resumes it once.
\<close>

definition task_group_fire_one_slot_waiter :: "'v task_group \<Rightarrow> 'v task_group" where
  "task_group_fire_one_slot_waiter g =
     (case tg_slot_waiters g of
        [] \<Rightarrow> g
      | sw # sws \<Rightarrow> g\<lparr>tg_slot_waiters := sw\<lparr>sw_fired := True\<rparr> # sws\<rparr>)"

definition task_group_fire_all_slot_waiters :: "'v task_group \<Rightarrow> 'v task_group" where
  "task_group_fire_all_slot_waiters g =
     g\<lparr>tg_slot_waiters := map (\<lambda>sw. sw\<lparr>sw_fired := True\<rparr>) (tg_slot_waiters g)\<rparr>"

text \<open>
  \<open>pending_entry\<close> is the position of the entry that turns from pending to running, if there is one.
  The result says whether an exception is pending afterwards.
\<close>

definition task_group_spawn_coroutine ::
  "('w, 'v) group_env \<Rightarrow> task_key \<Rightarrow> nat option \<Rightarrow> 'w \<Rightarrow> 'v task_group \<Rightarrow> 'w \<times> 'v task_group \<times> bool" where
  "task_group_spawn_coroutine env key pending_entry w g =
     (case ge_spawn env (tg_scope g) w of
        (w, Some c, False) \<Rightarrow>
          (let g = (case pending_entry of
                      Some i \<Rightarrow>
                        task_group_fire_one_slot_waiter
                          (g\<lparr>tg_tasks := (tg_tasks g)[i := (key, Task_Running c)],
                             tg_pending_count := tg_pending_count g - 1\<rparr>)
                    | None \<Rightarrow> tasks_add_new env key (Task_Running c) g)
           in (w, g\<lparr>tg_callbacks := (c, key) # tg_callbacks g,
                    tg_active_coroutines := tg_active_coroutines g + 1,
                    tg_refcount := tg_refcount g + 1\<rparr>, False))
      | (w, _, threw) \<Rightarrow> (w, g, threw))"

text \<open>
  \<^verbatim>\<open>task_group_drain\<close>: the internal pointer of the table goes over the positions once.
\<close>

primrec drain_positions :: "('w, 'v) group_env \<Rightarrow> nat list \<Rightarrow> 'w \<Rightarrow> 'v task_group \<Rightarrow> 'w \<times> 'v task_group" where
  "drain_positions env [] w g = (w, g)"
| "drain_positions env (i # is) w g =
     (if \<not> task_group_has_slot g then (w, g)
      else
        case tg_tasks g ! i of (key, e) \<Rightarrow>
          if \<not> task_is_pending e then drain_positions env is w g
          else
            (case task_group_spawn_coroutine env key (Some i) w g of
               (w, g, threw) \<Rightarrow> if threw then (w, g) else drain_positions env is w g))"

definition task_group_drain :: "('w, 'v) group_env \<Rightarrow> 'w \<Rightarrow> 'v task_group \<Rightarrow> 'w \<times> 'v task_group" where
  "task_group_drain env w g =
     (if tg_scope g = None then (w, g) else drain_positions env [0..<length (tg_tasks g)] w g)"

subsection \<open>The end of a task\<close>

text \<open>
  The entry of the task takes its outcome.  An entry that is not running here would be read
  through the wrong member of the union.
\<close>

fun task_find :: "task_key \<Rightarrow> (task_key \<times> 'v task_entry) list \<Rightarrow> nat option" where
  "task_find key [] = None"
| "task_find key ((k, e) # ts) = (if k = key then Some 0 else map_option Suc (task_find key ts))"

definition record_outcome :: "task_key \<Rightarrow> 'v option + throwable \<Rightarrow> 'v task_group \<Rightarrow> 'v task_group" where
  "record_outcome key outcome g =
     (case task_find key (tg_tasks g) of
        None \<Rightarrow> g
      | Some i \<Rightarrow>
          (case snd (tg_tasks g ! i) of
             Task_Running c \<Rightarrow>
               (case outcome of
                  Inr x \<Rightarrow> g\<lparr>tg_tasks := (tg_tasks g)[i := (key, Task_Error x)], tg_exception_handled := False\<rparr>
                | Inl r \<Rightarrow> g\<lparr>tg_tasks := (tg_tasks g)[i := (key, Task_Result r)]\<rparr>)
           | _ \<Rightarrow> tg_effect (Undefined_behaviour ''task entry is not running'') g))"

fun outcome_settlement :: "'v option + throwable \<Rightarrow> 'v settlement" where
  "outcome_settlement (Inl r) = Resolved r"
| "outcome_settlement (Inr x) = Rejected x"

text \<open>The loop over the waiters, with the index kept in the group.\<close>

definition notify_one :: "task_key \<Rightarrow> 'v option + throwable \<Rightarrow> 'v task_group \<Rightarrow> 'v task_group" where
  "notify_one key outcome g =
     (case tg_waiter_events g ! tg_waiter_notify_index g of (w, type) \<Rightarrow>
        (case type of
           WAITER_TYPE_RACE \<Rightarrow>
             task_group_waiter_event_remove w
               (task_set_remove_entry key (settle w (outcome_settlement outcome) g))
         | WAITER_TYPE_ANY \<Rightarrow>
             (if isl outcome
              then task_group_waiter_event_remove w (settle w (outcome_settlement outcome) g)
              else g\<lparr>tg_waiter_notify_index := tg_waiter_notify_index g + 1\<rparr>)
         | WAITER_TYPE_ITERATOR \<Rightarrow>
             tg_effect (Iterator_notified w) (g\<lparr>tg_waiter_notify_index := tg_waiter_notify_index g + 1\<rparr>)
         | _ \<Rightarrow> g\<lparr>tg_waiter_notify_index := tg_waiter_notify_index g + 1\<rparr>))"

function notify_waiters :: "task_key \<Rightarrow> 'v option + throwable \<Rightarrow> 'v task_group \<Rightarrow> 'v task_group" where
  "notify_waiters key outcome g =
     (if tg_waiter_notify_index g < length (tg_waiter_events g)
      then notify_waiters key outcome (notify_one key outcome g) else g)"
  by pat_completeness auto

text \<open>Removing the waiter at the index shortens what is left, and moves the index by at most one.\<close>

lemma notify_index_remove:
  "tg_waiter_notify_index (task_group_waiter_event_remove w g) \<ge> tg_waiter_notify_index g - 1"
  by (auto simp: task_group_waiter_event_remove_def split: option.splits)

lemma notify_one_progress:
  assumes "tg_waiter_notify_index g < length (tg_waiter_events g)"
  shows "2 * length (tg_waiter_events (notify_one key outcome g)) - tg_waiter_notify_index (notify_one key outcome g)
       < 2 * length (tg_waiter_events g) - tg_waiter_notify_index g"
proof -
  obtain w type where wt: "tg_waiter_events g ! tg_waiter_notify_index g = (w, type)" by (cases "tg_waiter_events g ! tg_waiter_notify_index g")
  have "2 * length (tg_waiter_events (task_group_waiter_event_remove w h)) - tg_waiter_notify_index (task_group_waiter_event_remove w h)
       < 2 * length (tg_waiter_events g) - tg_waiter_notify_index g"
    if "tg_waiter_events h = tg_waiter_events g" "tg_waiter_notify_index h = tg_waiter_notify_index g" for h :: "'a task_group"
    using length_waiter_event_remove [of "tg_waiter_notify_index h" h w] notify_index_remove [of h w] assms that wt by simp
  then show ?thesis using assms wt by (cases type) (auto simp: notify_one_def tg_effect_def)
qed

termination notify_waiters
  by (relation "measure (\<lambda>(k, r, g). 2 * length (tg_waiter_events g) - tg_waiter_notify_index g)")
    (auto simp: notify_one_progress)

declare notify_waiters.simps [simp del]

definition task_group_on_coroutine_complete ::
  "('w, 'v) group_env \<Rightarrow> nat \<Rightarrow> task_key \<Rightarrow> 'v option + throwable \<Rightarrow> 'w \<Rightarrow> 'v task_group \<Rightarrow> 'w \<times> 'v task_group" where
  "task_group_on_coroutine_complete env c key outcome w g =
     (let g = record_outcome key outcome g;
          g = g\<lparr>tg_active_coroutines := tg_active_coroutines g - 1,
                tg_callbacks := remove1 (c, key) (tg_callbacks g)\<rparr>
      in case task_group_drain env w g of (w, g) \<Rightarrow>
           (case task_group_try_complete env w (notify_waiters key outcome (g\<lparr>tg_waiter_notify_index := 0\<rparr>)) of
              (w, g) \<Rightarrow> (w, g\<lparr>tg_refcount := tg_refcount g - 1\<rparr>)))"

subsection \<open>Construction\<close>

definition task_group_create_object :: "'v task_group" where
  "task_group_create_object =
     \<lparr>tg_scope = None, tg_scope_object = False, tg_concurrency = 0, tg_queue_limit = 0,
      tg_pending_count = 0, tg_active_coroutines = 0, tg_slot_waiters = [], tg_tasks = [],
      tg_waiter_events = [], tg_waiter_events_capacity = 0, tg_waiter_notify_index = 0,
      tg_finally_handlers = None, tg_next_key = 0, tg_completed = False, tg_sealed = False,
      tg_task_set = False, tg_exception_handled = False, tg_event_closed = False,
      tg_callbacks = [], tg_refcount = 0, tg_next_id = 0, tg_log = []\<rparr>"

definition task_set_create_object :: "'v task_group" where
  "task_set_create_object = task_group_create_object\<lparr>tg_task_set := True\<rparr>"

datatype group_error =
    Group_Value_Error nat
  | Group_Disposed_Scope
  | Group_No_Scope

text \<open>
  The scope: a given one, unless its object was disposed (\<open>Some None\<close>), or a new child of the current
  scope, pinned until the group is destroyed.
\<close>

definition attach_scope ::
  "('w, 'v) group_env \<Rightarrow> nat option option \<Rightarrow> 'w \<Rightarrow> 'v task_group \<Rightarrow> group_error + ('w \<times> 'v task_group)" where
  "attach_scope env scope_obj w g =
     (case scope_obj of
        Some None \<Rightarrow> Inl Group_Disposed_Scope
      | Some (Some s) \<Rightarrow> Inr (ge_add_ref env s w, g\<lparr>tg_scope_object := True, tg_scope := Some s\<rparr>)
      | None \<Rightarrow>
          (case ge_new_child env w of
             (w, None) \<Rightarrow> Inl Group_No_Scope
           | (w, Some s) \<Rightarrow> Inr (ge_add_ref env s (ge_pin env True s w), g\<lparr>tg_scope := Some s\<rparr>)))"

definition UINT32_MAX :: int where
  "UINT32_MAX = 4294967295"

definition default_queue_limit :: "uint32 \<Rightarrow> uint32" where
  "default_queue_limit concurrency =
     (if concurrency = 0 then 0
      else if 4294967295 div 2 < concurrency then 4294967295
      else concurrency * 2)"

definition task_group_construct ::
  "('w, 'v) group_env \<Rightarrow> int \<Rightarrow> int option \<Rightarrow> nat option option \<Rightarrow> 'w \<Rightarrow> 'v task_group \<Rightarrow>
   group_error + ('w \<times> 'v task_group)" where
  "task_group_construct env concurrency queue_limit scope_obj w g =
     (if concurrency < 0 \<or> UINT32_MAX < concurrency then Inl (Group_Value_Error 1)
      else
        let g = g\<lparr>tg_concurrency := of_int concurrency\<rparr> in
        case queue_limit of
          Some q \<Rightarrow>
            if q < 0 \<or> UINT32_MAX < q then Inl (Group_Value_Error 2)
            else attach_scope env scope_obj w (g\<lparr>tg_queue_limit := of_int q\<rparr>)
        | None \<Rightarrow> attach_scope env scope_obj w (g\<lparr>tg_queue_limit := default_queue_limit (tg_concurrency g)\<rparr>))"

definition async_new_group ::
  "('w, 'v) group_env \<Rightarrow> uint32 \<Rightarrow> uint32 \<Rightarrow> nat option option \<Rightarrow> 'w \<Rightarrow> group_error + ('w \<times> 'v task_group)" where
  "async_new_group env concurrency queue_limit scope_obj w =
     attach_scope env scope_obj w
       (task_group_create_object\<lparr>tg_concurrency := concurrency, tg_queue_limit := queue_limit\<rparr>)"

subsection \<open>Spawning\<close>

datatype spawn_result = Spawn_returned | Spawn_threw string | Spawn_suspended nat

text \<open>
  From the test of the queue on: suspend in a loop, then start or queue the closure.  Suspending
  ends the step, and \<open>do_spawn_resume\<close> comes back to the test.
\<close>

definition do_spawn_enter ::
  "('w, 'v) group_env \<Rightarrow> task_key \<Rightarrow> nat \<Rightarrow> 'w \<Rightarrow> 'v task_group \<Rightarrow> 'w \<times> 'v task_group \<times> spawn_result" where
  "do_spawn_enter env key fcall w g =
     (if \<not> task_group_has_slot g \<and> task_group_queue_is_full g
      then (w, g\<lparr>tg_slot_waiters := tg_slot_waiters g @
                   [\<lparr>sw_trigger = tg_next_id g, sw_fired = False, sw_key = key, sw_fcall = fcall\<rparr>],
                 tg_next_id := Suc (tg_next_id g)\<rparr>, Spawn_suspended (tg_next_id g))
      else if task_group_has_slot g
      then (case task_group_spawn_coroutine env key None w g of
              (w, g, threw) \<Rightarrow> (w, g, if threw then Spawn_threw ''spawn'' else Spawn_returned))
      else (w, (tasks_add_new env key (Task_Pending fcall) g)\<lparr>tg_pending_count := tg_pending_count g + 1\<rparr>,
            Spawn_returned))"

definition task_group_do_spawn ::
  "('w, 'v) group_env \<Rightarrow> task_key \<Rightarrow> nat \<Rightarrow> 'w \<Rightarrow> 'v task_group \<Rightarrow> 'w \<times> 'v task_group \<times> spawn_result" where
  "task_group_do_spawn env key fcall w g =
     (if tg_sealed g then (w, g, Spawn_threw ''Cannot spawn tasks on a closed TaskGroup'')
      else if tg_completed g then (w, g, Spawn_threw ''Cannot spawn tasks on a completed TaskGroup'')
      else if key \<in> fst ` set (tg_tasks g) then (w, g, Spawn_threw ''Duplicate key in TaskGroup'')
      else do_spawn_enter env key fcall w g)"

text \<open>
  After the suspension; \<open>threw\<close> says that the coroutine was resumed with an exception.  The key is
  not tested again.
\<close>

definition do_spawn_resume ::
  "('w, 'v) group_env \<Rightarrow> slot_waiter \<Rightarrow> bool \<Rightarrow> 'w \<Rightarrow> 'v task_group \<Rightarrow> 'w \<times> 'v task_group \<times> spawn_result" where
  "do_spawn_resume env sw threw w g =
     (let g = g\<lparr>tg_slot_waiters := filter (\<lambda>x. sw_trigger x \<noteq> sw_trigger sw) (tg_slot_waiters g)\<rparr> in
      if threw then (w, g, Spawn_threw ''resumed with an exception'')
      else if tg_sealed g then (w, g, Spawn_threw ''Cannot spawn tasks on a closed TaskGroup'')
      else if tg_completed g then (w, g, Spawn_threw ''Cannot spawn tasks on a completed TaskGroup'')
      else do_spawn_enter env (sw_key sw) (sw_fcall sw) w g)"

definition group_spawn ::
  "('w, 'v) group_env \<Rightarrow> nat \<Rightarrow> 'w \<Rightarrow> 'v task_group \<Rightarrow> 'w \<times> 'v task_group \<times> spawn_result" where
  "group_spawn env fcall w g =
     task_group_do_spawn env (Key_Long (uint (tg_next_key g))) fcall w (g\<lparr>tg_next_key := tg_next_key g + 1\<rparr>)"

definition group_spawnWithKey ::
  "('w, 'v) group_env \<Rightarrow> task_key \<Rightarrow> nat \<Rightarrow> 'w \<Rightarrow> 'v task_group \<Rightarrow> 'w \<times> 'v task_group \<times> spawn_result" where
  "group_spawnWithKey env key fcall w g = task_group_do_spawn env key fcall w g"

subsection \<open>Futures\<close>

definition group_settled :: "'v task_group \<Rightarrow> bool" where
  "group_settled g \<longleftrightarrow> task_group_all_settled g \<and> \<not> task_group_has_pending g"

definition group_all :: "bool \<Rightarrow> 'v task_group \<Rightarrow> 'v task_group \<times> nat" where
  "group_all ignore_errors g =
     (case task_group_waiter_future_new
             (if ignore_errors then WAITER_TYPE_ALL_IGNORE_ERRORS else WAITER_TYPE_ALL) g of
        (g, w) \<Rightarrow>
          (if group_settled g then settle_all (\<not> ignore_errors \<and> task_group_has_errors g) w g else g, w))"

text \<open>The first settled entry in the order of spawning, for \<^verbatim>\<open>race()\<close>, and the first success, for \<^verbatim>\<open>any()\<close>.\<close>

fun first_settled :: "bool \<Rightarrow> (task_key \<times> 'v task_entry) list \<Rightarrow> (task_key \<times> 'v settlement) option" where
  "first_settled with_errors [] = None"
| "first_settled with_errors ((k, e) # ts) =
     (case e of
        Task_Result r \<Rightarrow> Some (k, Resolved r)
      | Task_Error x \<Rightarrow> if with_errors then Some (k, Rejected x) else first_settled with_errors ts
      | _ \<Rightarrow> first_settled with_errors ts)"

definition group_race :: "'v task_group \<Rightarrow> 'v task_group \<times> (string + nat)" where
  "group_race g =
     (if tg_tasks g = [] then (g, Inl ''Cannot race on an empty TaskGroup'')
      else
        case task_group_waiter_future_new WAITER_TYPE_RACE g of (g, w) \<Rightarrow>
          (case first_settled True (tg_tasks g) of
             Some (k, r) \<Rightarrow> task_group_waiter_event_remove w (task_set_remove_entry k (settle w r g))
           | None \<Rightarrow> g, Inr w))"

definition group_any :: "'v task_group \<Rightarrow> 'v task_group \<times> (string + nat)" where
  "group_any g =
     (if tg_tasks g = [] then (g, Inl ''Cannot call any() on an empty TaskGroup'')
      else
        case task_group_waiter_future_new WAITER_TYPE_ANY g of (g, w) \<Rightarrow>
          (case first_settled False (tg_tasks g) of
             Some (k, r) \<Rightarrow> task_group_waiter_event_remove w (task_set_remove_entry k (settle w r g))
           | None \<Rightarrow>
               if group_settled g
               then task_group_waiter_event_remove w
                      (settle w (Rejected_composite (task_group_collect_composite_exception g)) g)
               else g, Inr w))"

subsection \<open>The other methods\<close>

definition group_getResults :: "'v task_group \<Rightarrow> (task_key \<times> 'v option) list" where
  "group_getResults g = task_group_collect_results g"

definition group_getErrors :: "'v task_group \<Rightarrow> 'v task_group \<times> (task_key \<times> throwable) list" where
  "group_getErrors g = (g\<lparr>tg_exception_handled := True\<rparr>, task_group_collect_errors g)"

definition group_suppressErrors :: "'v task_group \<Rightarrow> 'v task_group" where
  "group_suppressErrors g = g\<lparr>tg_exception_handled := True\<rparr>"

text \<open>Messages of fresh cancellation exceptions are told apart by number.\<close>

definition task_group_cancelled :: throwable where
  "task_group_cancelled = \<lparr>th_cancellation = True, th_id = 3\<rparr>"

definition task_group_disposal :: throwable where
  "task_group_disposal = \<lparr>th_cancellation = True, th_id = 4\<rparr>"

definition task_group_destruction :: throwable where
  "task_group_destruction = \<lparr>th_cancellation = True, th_id = 5\<rparr>"

definition dispose_or_cancel :: "('w, 'v) group_env \<Rightarrow> throwable \<Rightarrow> 'v task_group \<Rightarrow> 'w \<Rightarrow> 'w" where
  "dispose_or_cancel env exception g w =
     (case tg_scope g of
        None \<Rightarrow> w
      | Some s \<Rightarrow>
          (case ge_try_to_dispose env s w of
             (w, True) \<Rightarrow> w
           | (w, False) \<Rightarrow> ge_cancel env s exception w))"

definition group_cancel ::
  "('w, 'v) group_env \<Rightarrow> throwable option \<Rightarrow> 'w \<Rightarrow> 'v task_group \<Rightarrow> 'w \<times> 'v task_group" where
  "group_cancel env cancellation w g =
     (if tg_sealed g then (w, g)
      else
        let g = task_group_fire_all_slot_waiters (g\<lparr>tg_sealed := True, tg_exception_handled := True\<rparr>)
        in task_group_try_complete env
             (dispose_or_cancel env (case cancellation of Some x \<Rightarrow> x | None \<Rightarrow> task_group_cancelled) g w) g)"

definition group_close :: "('w, 'v) group_env \<Rightarrow> 'w \<Rightarrow> 'v task_group \<Rightarrow> 'w \<times> 'v task_group" where
  "group_close env w g =
     (if tg_sealed g then (w, g)
      else task_group_try_complete env w (task_group_fire_all_slot_waiters (g\<lparr>tg_sealed := True\<rparr>)))"

definition group_dispose :: "('w, 'v) group_env \<Rightarrow> 'w \<Rightarrow> 'v task_group \<Rightarrow> 'w \<times> 'v task_group" where
  "group_dispose env w g = (dispose_or_cancel env task_group_disposal g w, g)"

definition group_isFinished :: "'v task_group \<Rightarrow> bool" where
  "group_isFinished g = group_settled g"

definition group_isClosed :: "'v task_group \<Rightarrow> bool" where
  "group_isClosed g = tg_sealed g"

definition group_count :: "'v task_group \<Rightarrow> nat" where
  "group_count g = length (tg_tasks g)"

text \<open>
  \<^verbatim>\<open>awaitCompletion()\<close>: what it does at the start and, from \<open>await_retry\<close> on, after every wake-up.
\<close>

datatype group_await = Group_await_returns | Group_await_throws string | Group_await_suspends

definition await_retry :: "bool \<Rightarrow> 'v task_group \<Rightarrow> group_await" where
  "await_retry in_coroutine g =
     (if group_settled g then Group_await_returns
      else if \<not> in_coroutine
      then Group_await_throws ''TaskGroup::awaitCompletion() can only be called inside a coroutine''
      else Group_await_suspends)"

definition group_awaitCompletion :: "bool \<Rightarrow> 'v task_group \<Rightarrow> group_await" where
  "group_awaitCompletion in_coroutine g =
     (if \<not> tg_sealed g
      then Group_await_throws ''TaskGroup must be closed before calling awaitCompletion()''
      else if tg_completed g then Group_await_returns
      else await_retry in_coroutine g)"

definition task_group_replay :: "'v task_group \<Rightarrow> bool" where
  "task_group_replay g = group_settled g"

definition group_finally :: "nat \<Rightarrow> 'v task_group \<Rightarrow> 'v task_group" where
  "group_finally callback g =
     (if tg_completed g then tg_effect (Finally_called_now callback) g
      else g\<lparr>tg_finally_handlers := Some ((case tg_finally_handlers g of None \<Rightarrow> [] | Some hs \<Rightarrow> hs) @ [callback])\<rparr>)"

subsection \<open>The iterator\<close>

text \<open>\<^verbatim>\<open>task_group_iterator_t\<close>: \<open>it_current\<close> is the key with the pair of result and error.\<close>

record 'v task_group_iterator =
  it_current :: "(task_key \<times> ('v option + throwable)) option"
  it_position :: nat
  it_valid :: bool
  it_started :: bool

datatype iterator_outcome = Iterator_stands | Iterator_threw string | Iterator_waits nat

definition task_group_get_iterator :: "bool \<Rightarrow> 'v task_group \<Rightarrow> ('v task_group \<times> 'v task_group_iterator) option" where
  "task_group_get_iterator by_ref g =
     (if by_ref then None
      else Some (g\<lparr>tg_exception_handled := True\<rparr>,
                 \<lparr>it_current = None, it_position = 0, it_valid = True, it_started = False\<rparr>))"

definition task_group_iterator_set_current ::
  "task_key \<Rightarrow> 'v option + throwable \<Rightarrow> 'v task_group_iterator \<Rightarrow> 'v task_group_iterator" where
  "task_group_iterator_set_current key outcome it =
     it\<lparr>it_current := Some (key, outcome), it_position := it_position it + 1\<rparr>"

text \<open>The entry at the position of the iterator, if there is one and it is settled.\<close>

definition settled_at :: "nat \<Rightarrow> 'v task_group \<Rightarrow> (task_key \<times> ('v option + throwable)) option" where
  "settled_at p g =
     (if length (tg_tasks g) \<le> p then None
      else case tg_tasks g ! p of
             (k, Task_Result r) \<Rightarrow> Some (k, Inl r)
           | (k, Task_Error x) \<Rightarrow> Some (k, Inr x)
           | _ \<Rightarrow> None)"

text \<open>
  From the label \<^verbatim>\<open>retry\<close> to the next result, the end or the suspension.  \<open>in_coroutine\<close> says whether
  there is a current coroutine.
\<close>

definition iterator_retry ::
  "bool \<Rightarrow> 'v task_group \<Rightarrow> 'v task_group_iterator \<Rightarrow> 'v task_group \<times> 'v task_group_iterator \<times> iterator_outcome" where
  "iterator_retry in_coroutine g it =
     (case settled_at (it_position it) g of
        Some (k, outcome) \<Rightarrow>
          (let it = task_group_iterator_set_current k outcome it in
           if tg_task_set g
           then (task_set_remove_entry k g, it\<lparr>it_position := it_position it - 1, it_valid := True\<rparr>, Iterator_stands)
           else (g, it\<lparr>it_valid := True\<rparr>, Iterator_stands))
      | None \<Rightarrow>
          if length (tg_tasks g) \<le> it_position it \<and> tg_sealed g \<and> tg_active_coroutines g = 0 \<and> \<not> task_group_has_pending g
          then (g, it\<lparr>it_valid := False\<rparr>, Iterator_stands)
          else if \<not> in_coroutine
          then (g, it\<lparr>it_valid := False\<rparr>, Iterator_threw ''TaskGroup iterator can only be used inside a coroutine'')
          else (case task_group_waiter_iterator_new g of (g, w) \<Rightarrow> (g, it, Iterator_waits w)))"

definition task_group_iterator_move_forward ::
  "bool \<Rightarrow> 'v task_group \<Rightarrow> 'v task_group_iterator \<Rightarrow> 'v task_group \<times> 'v task_group_iterator \<times> iterator_outcome" where
  "task_group_iterator_move_forward in_coroutine g it = iterator_retry in_coroutine g it"

text \<open>After the suspension on the waiter \<open>w\<close>, whose event is disposed with the waker.\<close>

definition iterator_resume ::
  "nat \<Rightarrow> bool \<Rightarrow> 'v task_group \<Rightarrow> 'v task_group_iterator \<Rightarrow> 'v task_group \<times> 'v task_group_iterator \<times> iterator_outcome" where
  "iterator_resume w threw g it =
     (let g = waiter_iterator_dispose w g in
      if threw then (g, it\<lparr>it_valid := False\<rparr>, Iterator_threw ''resumed with an exception'')
      else iterator_retry True g it)"

definition task_group_iterator_rewind ::
  "bool \<Rightarrow> 'v task_group \<Rightarrow> 'v task_group_iterator \<Rightarrow> 'v task_group \<times> 'v task_group_iterator \<times> iterator_outcome" where
  "task_group_iterator_rewind in_coroutine g it =
     (if it_started it then (g, it, Iterator_stands)
      else task_group_iterator_move_forward in_coroutine g (it\<lparr>it_started := True\<rparr>))"

subsection \<open>The end of a group\<close>

definition task_group_dtor_object :: "('w, 'v) group_env \<Rightarrow> 'w \<Rightarrow> 'v task_group \<Rightarrow> 'w \<times> 'v task_group" where
  "task_group_dtor_object env w g =
     (let g = (if tg_slot_waiters g = [] then g else task_group_fire_all_slot_waiters (g\<lparr>tg_sealed := True\<rparr>))
      in case tg_scope g of
           None \<Rightarrow> (w, g\<lparr>tg_scope_object := False\<rparr>)
         | Some s \<Rightarrow>
             (let w = (if \<not> tg_exception_handled g \<and> task_group_has_errors g
                       then ge_catch env s (task_group_collect_composite_exception g) w else w);
                  w = ge_pin env False s w;
                  w = (if ge_completely_done env s w then w else ge_cancel env s task_group_destruction w)
              in (ge_release env s w, g\<lparr>tg_scope := None, tg_scope_object := False\<rparr>)))"

text \<open>
  The memory of the group: the entries that are destroyed and the waiters that are disposed.
\<close>

definition task_group_free_object ::
  "'v task_group \<Rightarrow> 'v task_group \<times> (task_key \<times> 'v task_entry) list \<times> (nat \<times> waiter_type) list" where
  "task_group_free_object g =
     (g\<lparr>tg_slot_waiters := [], tg_tasks := [], tg_waiter_events := [], tg_finally_handlers := None,
        tg_scope_object := False\<rparr>, tg_tasks g, tg_waiter_events g)"

datatype 'v gc_reference =
    Gc_fcall nat
  | Gc_coroutine nat
  | Gc_exception throwable
  | Gc_value "'v option"
  | Gc_handler nat
  | Gc_scope_object

fun gc_entry :: "task_key \<times> 'v task_entry \<Rightarrow> 'v gc_reference" where
  "gc_entry (k, Task_Pending f) = Gc_fcall f"
| "gc_entry (k, Task_Running c) = Gc_coroutine c"
| "gc_entry (k, Task_Error x) = Gc_exception x"
| "gc_entry (k, Task_Result r) = Gc_value r"

definition task_group_get_gc :: "'v task_group \<Rightarrow> 'v gc_reference list" where
  "task_group_get_gc g =
     map gc_entry (tg_tasks g) @
     (case tg_finally_handlers g of None \<Rightarrow> [] | Some hs \<Rightarrow> map Gc_handler hs) @
     (if tg_scope_object g then [Gc_scope_object] else [])"

end
