(* ===== verification/Task_Group_Invariant.thy ===== *)
theory Task_Group_Invariant
  imports Task_Group Scope_Completion "HOL-Library.Multiset"
begin

text \<open>
  The books of a task group: every running entry has one callback, the counters are exact, the
  limits are kept, and every waiter is settled at most once.  The operations are shown to keep
  them, first the loops over the waiters, then the queue, then the methods.
\<close>

subsection \<open>Waiters\<close>

fun settled_ids :: "'v group_effect list \<Rightarrow> nat list" where
  "settled_ids [] = []"
| "settled_ids (Waiter_settled w r # es) = w # settled_ids es"
| "settled_ids (e # es) = settled_ids es"

lemma settled_ids_append [simp]: "settled_ids (xs @ ys) = settled_ids xs @ settled_ids ys"
  by (induction xs rule: settled_ids.induct) auto

definition waiters_inv :: "'v task_group \<Rightarrow> bool" where
  "waiters_inv g \<longleftrightarrow>
     distinct (map fst (tg_waiter_events g) @ settled_ids (tg_log g)) \<and>
     (\<forall>w \<in> fst ` set (tg_waiter_events g) \<union> set (settled_ids (tg_log g)). w < tg_next_id g) \<and>
     length (tg_waiter_events g) \<le> tg_waiter_events_capacity g"

lemma distinct_subseteq_mset:
  assumes "mset ys \<subseteq># mset xs" "distinct xs"
  shows "distinct ys"
proof -
  from assms(1) obtain C where "mset xs = mset ys + C" by (auto simp: mset_subset_eq_exists_conv)
  moreover obtain zs where "C = mset zs" using ex_mset by metis
  ultimately have "mset xs = mset (ys @ zs)" by simp
  then show ?thesis using assms(2) mset_eq_imp_distinct_iff [of xs "ys @ zs"] by simp
qed

text \<open>All but the vector and its index stay.\<close>

lemma waiter_event_remove_frame [simp]:
  "tg_scope (task_group_waiter_event_remove w g) = tg_scope g"
  "tg_concurrency (task_group_waiter_event_remove w g) = tg_concurrency g"
  "tg_queue_limit (task_group_waiter_event_remove w g) = tg_queue_limit g"
  "tg_pending_count (task_group_waiter_event_remove w g) = tg_pending_count g"
  "tg_active_coroutines (task_group_waiter_event_remove w g) = tg_active_coroutines g"
  "tg_slot_waiters (task_group_waiter_event_remove w g) = tg_slot_waiters g"
  "tg_tasks (task_group_waiter_event_remove w g) = tg_tasks g"
  "tg_waiter_events_capacity (task_group_waiter_event_remove w g) = tg_waiter_events_capacity g"
  "tg_finally_handlers (task_group_waiter_event_remove w g) = tg_finally_handlers g"
  "tg_completed (task_group_waiter_event_remove w g) = tg_completed g"
  "tg_sealed (task_group_waiter_event_remove w g) = tg_sealed g"
  "tg_task_set (task_group_waiter_event_remove w g) = tg_task_set g"
  "tg_callbacks (task_group_waiter_event_remove w g) = tg_callbacks g"
  "tg_refcount (task_group_waiter_event_remove w g) = tg_refcount g"
  "tg_next_id (task_group_waiter_event_remove w g) = tg_next_id g"
  "tg_log (task_group_waiter_event_remove w g) = tg_log g"
  by (simp_all add: task_group_waiter_event_remove_def split: option.splits)

lemma waiter_event_remove_mset:
  assumes "distinct (map fst (tg_waiter_events g))" and "(w, type) \<in> set (tg_waiter_events g)"
  shows "mset (tg_waiter_events g) = add_mset (w, type) (mset (tg_waiter_events (task_group_waiter_event_remove w g)))"
proof -
  have "w \<in> set (map fst (tg_waiter_events g))" using assms(2) by force
  then obtain i where i: "vector_index (map fst (tg_waiter_events g)) w = Some i"
    using vector_index_None [of "map fst (tg_waiter_events g)" w] by blast
  from vector_index_Some [OF this] have il: "i < length (tg_waiter_events g)" "fst (tg_waiter_events g ! i) = w"
    by auto
  then have "tg_waiter_events g ! i = (w, type)"
    using assms by (metis eq_key_imp_eq_value nth_mem prod.collapse)
  then show ?thesis using il i vector_remove_mset [OF il(1)] nth_mem_mset [OF il(1)]
    by (simp add: task_group_waiter_event_remove_def)
qed

lemma waiter_event_remove_absent:
  "w \<notin> fst ` set (tg_waiter_events g) \<Longrightarrow> tg_waiter_events (task_group_waiter_event_remove w g) = tg_waiter_events g"
  using vector_index_None [of "map fst (tg_waiter_events g)" w] by (auto simp: task_group_waiter_event_remove_def)

lemma waiter_event_remove_subset:
  "mset (tg_waiter_events (task_group_waiter_event_remove w g)) \<subseteq># mset (tg_waiter_events g)"
proof (cases "vector_index (map fst (tg_waiter_events g)) w")
  case (Some i)
  then show ?thesis using vector_index_Some [OF Some] vector_remove_mset [of i "tg_waiter_events g"]
    by (simp add: task_group_waiter_event_remove_def)
qed (simp add: task_group_waiter_event_remove_def)

lemma waiters_inv_weaken:
  assumes "waiters_inv g" "mset (tg_waiter_events h) \<subseteq># mset (tg_waiter_events g)"
    "settled_ids (tg_log h) = settled_ids (tg_log g)" "tg_next_id g \<le> tg_next_id h"
    "tg_waiter_events_capacity h = tg_waiter_events_capacity g"
  shows "waiters_inv h"
proof -
  have sub: "set (tg_waiter_events h) \<subseteq> set (tg_waiter_events g)"
    using set_mset_mono [OF assms(2)] by simp
  have "mset (map fst (tg_waiter_events h)) \<subseteq># mset (map fst (tg_waiter_events g))"
    using image_mset_subseteq_mono [OF assms(2), of fst] by simp
  then have "distinct (map fst (tg_waiter_events h))"
    by (rule distinct_subseteq_mset) (use assms(1) in \<open>simp add: waiters_inv_def\<close>)
  moreover have "length (tg_waiter_events h) \<le> length (tg_waiter_events g)"
    using size_mset_mono [OF assms(2)] by simp
  moreover have "fst ` set (tg_waiter_events h) \<subseteq> fst ` set (tg_waiter_events g)" using sub by (rule image_mono)
  ultimately have parts: "distinct (map fst (tg_waiter_events h))"
    "length (tg_waiter_events h) \<le> length (tg_waiter_events g)"
    "fst ` set (tg_waiter_events h) \<subseteq> fst ` set (tg_waiter_events g)" by auto
  have inv: "distinct (settled_ids (tg_log g))"
    "fst ` set (tg_waiter_events g) \<inter> set (settled_ids (tg_log g)) = {}"
    "\<And>w. w \<in> fst ` set (tg_waiter_events g) \<Longrightarrow> w < tg_next_id g"
    "\<And>w. w \<in> set (settled_ids (tg_log g)) \<Longrightarrow> w < tg_next_id g"
    "length (tg_waiter_events g) \<le> tg_waiter_events_capacity g"
    using assms(1) by (auto simp: waiters_inv_def)
  have "fst ` set (tg_waiter_events h) \<inter> set (settled_ids (tg_log g)) = {}" using inv(2) parts(3) by blast
  moreover have "w < tg_next_id h" if "w \<in> fst ` set (tg_waiter_events h) \<union> set (settled_ids (tg_log g))" for w
    using that inv(3,4) parts(3) assms(4) by (meson UnE less_le_trans subsetD)
  ultimately show ?thesis using inv(1,5) parts(1,2) assms(3,5) by (simp add: waiters_inv_def)
qed

lemma waiters_inv_settle:
  assumes inv: "waiters_inv g" and w: "(w, type) \<in> set (tg_waiter_events g)"
    and h: "tg_waiter_events h = tg_waiter_events g" "tg_log h = tg_log g @ [Waiter_settled w r]"
    "tg_next_id h = tg_next_id g" "tg_waiter_events_capacity h = tg_waiter_events_capacity g"
  shows "waiters_inv (task_group_waiter_event_remove w h)"
proof -
  have d: "distinct (map fst (tg_waiter_events h))" using inv h by (simp add: waiters_inv_def)
  let ?ws = "tg_waiter_events (task_group_waiter_event_remove w h)"
  have m: "mset (tg_waiter_events h) = add_mset (w, type) (mset ?ws)"
    using waiter_event_remove_mset [OF d, of w type] w h by simp
  then have mf: "mset (map fst (tg_waiter_events g)) = mset (w # map fst ?ws)"
    by (metis h(1) image_mset_add_mset mset.simps(2) mset_map fst_conv)
  have "distinct (w # map fst ?ws)" using mset_eq_imp_distinct_iff [OF mf] d h by simp
  moreover have "set (tg_waiter_events g) = insert (w, type) (set ?ws)"
    using m h by (metis set_mset_add_mset_insert set_mset_mset)
  moreover have "length ?ws < length (tg_waiter_events g)"
    using m h by (metis lessI size_add_mset size_mset)
  ultimately show ?thesis using inv h unfolding waiters_inv_def by auto
qed

subsection \<open>The loops over the waiters\<close>

lemma complete_waiters_step:
  assumes "i < length (tg_waiter_events g)" and "tg_waiter_events g ! i = (w, t)"
  shows "complete_waiters b i g =
    (case t of
       WAITER_TYPE_ALL \<Rightarrow> complete_waiters b (i + 1) (settle_all b w g)
     | WAITER_TYPE_ALL_IGNORE_ERRORS \<Rightarrow> complete_waiters b i (settle_all False w g)
     | WAITER_TYPE_ANY \<Rightarrow>
         complete_waiters b (i + 1)
           (task_group_waiter_event_remove w
             (settle w (Rejected_composite (task_group_collect_composite_exception g)) g))
     | WAITER_TYPE_ITERATOR \<Rightarrow> complete_waiters b (i + 2) (tg_effect (Iterator_notified w) g)
     | WAITER_TYPE_RACE \<Rightarrow> complete_waiters b (i + 2) g)"
  using assms by (cases t) (simp_all add: complete_waiters.simps [of b i g])

lemma complete_waiters_end: "length (tg_waiter_events g) \<le> i \<Longrightarrow> complete_waiters b i g = g"
  by (simp add: complete_waiters.simps [of b i g])

lemma complete_waiters_keeps:
  assumes "P g"
    and all: "\<And>g w t b. P g \<Longrightarrow> (w, t) \<in> set (tg_waiter_events g) \<Longrightarrow> P (settle_all b w g)"
    and any: "\<And>g w r. P g \<Longrightarrow> (w, WAITER_TYPE_ANY) \<in> set (tg_waiter_events g) \<Longrightarrow>
      P (task_group_waiter_event_remove w (settle w r g))"
    and it: "\<And>g w. P g \<Longrightarrow> P (tg_effect (Iterator_notified w) g)"
  shows "P (complete_waiters b i g)"
  using assms(1)
proof (induction b i g rule: complete_waiters.induct)
  case (1 b i g)
  show ?case
  proof (cases "i < length (tg_waiter_events g)")
    case True
    obtain w t where wt: "tg_waiter_events g ! i = (w, t)" by fastforce
    then have mem: "(w, t) \<in> set (tg_waiter_events g)" using True nth_mem by fastforce
    note IH = 1(1-5) [OF True wt [symmetric]]
    show ?thesis
      using IH all [OF 1(6) mem] any [OF 1(6), of w] mem it [OF 1(6)] 1(6)
      by (cases t) (simp_all add: complete_waiters_step [OF True wt])
  qed (use 1 in \<open>simp add: complete_waiters_end\<close>)
qed

lemma notify_waiters_keeps:
  assumes "P g"
    and "\<And>g. P g \<Longrightarrow> tg_waiter_notify_index g < length (tg_waiter_events g) \<Longrightarrow> P (notify_one key outcome g)"
  shows "P (notify_waiters key outcome g)"
  using assms
proof (induction key outcome g rule: notify_waiters.induct)
  case (1 key outcome g)
  then show ?case using 1(3) [of g] by (simp add: notify_waiters.simps [of key outcome g])
qed

subsection \<open>The books\<close>

fun run_entry :: "task_key \<times> 'v task_entry \<Rightarrow> (nat \<times> task_key) list" where
  "run_entry (k, Task_Running c) = [(c, k)]"
| "run_entry (k, e) = []"

definition running_of :: "(task_key \<times> 'v task_entry) list \<Rightarrow> (nat \<times> task_key) list" where
  "running_of ts = concat (map run_entry ts)"

definition npending :: "(task_key \<times> 'v task_entry) list \<Rightarrow> nat" where
  "npending ts = length (filter (\<lambda>x. task_is_pending (snd x)) ts)"

lemma running_of_simps [simp]:
  "running_of [] = []" "running_of (x # ts) = run_entry x @ running_of ts" "running_of (xs @ ys) = running_of xs @ running_of ys"
  by (simp_all add: running_of_def)

lemma npending_simps [simp]:
  "npending [] = 0" "npending (x # ts) = (if task_is_pending (snd x) then 1 else 0) + npending ts"
  "npending (xs @ ys) = npending xs + npending ys"
  by (simp_all add: npending_def)

lemma has_pending_iff: "task_group_has_pending g \<longleftrightarrow> 0 < npending (tg_tasks g)"
proof -
  have "list_ex (\<lambda>(k, e). task_is_pending e) ts \<longleftrightarrow> 0 < npending ts" for ts :: "(task_key \<times> 'a task_entry) list"
    by (induction ts) auto
  then show ?thesis by (simp add: task_group_has_pending_def)
qed

lemma run_entry_iff: "(c, k) \<in> set (run_entry x) \<longleftrightarrow> x = (k, Task_Running c)"
  by (cases x rule: run_entry.cases) auto

lemma running_of_iff: "(c, k) \<in> set (running_of ts) \<longleftrightarrow> (k, Task_Running c) \<in> set ts"
  by (auto simp: running_of_def run_entry_iff)

text \<open>Replacing one entry.\<close>

lemma running_of_update:
  assumes "i < length ts"
  shows "mset (running_of (ts[i := x])) + mset (run_entry (ts ! i)) = mset (running_of ts) + mset (run_entry x)"
proof -
  have "running_of ts = running_of (take i ts) @ run_entry (ts ! i) @ running_of (drop (Suc i) ts)"
    by (metis assms id_take_nth_drop running_of_simps(2,3) append_Cons append_assoc)
  moreover have "running_of (ts[i := x]) = running_of (take i ts) @ run_entry x @ running_of (drop (Suc i) ts)"
    using assms by (simp add: upd_conv_take_nth_drop)
  ultimately show ?thesis by simp
qed

lemma npending_update:
  assumes "i < length ts"
  shows "npending (ts[i := x]) + (if task_is_pending (snd (ts ! i)) then 1 else 0)
       = npending ts + (if task_is_pending (snd x) then 1 else 0)"
proof -
  have "npending ts = npending (take i ts) + npending (ts ! i # drop (Suc i) ts)"
    by (metis assms id_take_nth_drop npending_simps(3))
  moreover have "npending (ts[i := x]) = npending (take i ts) + npending (x # drop (Suc i) ts)"
    using assms by (simp add: upd_conv_take_nth_drop)
  ultimately show ?thesis by simp
qed

text \<open>\<open>d\<close> is the number of references to the group that are not those of its running tasks.\<close>

definition books :: "nat \<Rightarrow> 'v task_group \<Rightarrow> bool" where
  "books d g \<longleftrightarrow>
     distinct (map fst (tg_tasks g)) \<and>
     mset (tg_callbacks g) = mset (running_of (tg_tasks g)) \<and>
     tg_active_coroutines g = of_nat (length (tg_callbacks g)) \<and>
     tg_pending_count g = of_nat (npending (tg_tasks g)) \<and>
     length (tg_callbacks g) < 2 ^ 31 \<and> npending (tg_tasks g) < 2 ^ 32 \<and>
     (tg_concurrency g = 0 \<longrightarrow> npending (tg_tasks g) = 0) \<and>
     (tg_concurrency g \<noteq> 0 \<longrightarrow> int (length (tg_callbacks g)) \<le> max 0 (sint (tg_concurrency g))) \<and>
     (tg_queue_limit g \<noteq> 0 \<longrightarrow> npending (tg_tasks g) \<le> unat (tg_queue_limit g)) \<and>
     length (tg_callbacks g) + d \<le> tg_refcount g"

lemma sint_of_nat_small: "n < 2 ^ 31 \<Longrightarrow> sint (of_nat n :: 32 word) = int n"
  by (simp add: signed_of_nat signed_take_bit_int_eq_self)

lemma has_slot_iff:
  assumes "books d g"
  shows "task_group_has_slot g \<longleftrightarrow> tg_concurrency g = 0 \<or> int (length (tg_callbacks g)) < sint (tg_concurrency g)"
  using assms sint_of_nat_small [of "length (tg_callbacks g)"]
  by (simp add: task_group_has_slot_def books_def word_sless_alt)

lemma unat_of_nat32: "n < 2 ^ 32 \<Longrightarrow> unat (of_nat n :: 32 word) = n"
  by (simp add: unat_of_nat take_bit_nat_eq_self)

lemma queue_is_full_iff:
  assumes "books d g"
  shows "task_group_queue_is_full g \<longleftrightarrow> tg_queue_limit g \<noteq> 0 \<and> unat (tg_queue_limit g) \<le> npending (tg_tasks g)"
  using assms unat_of_nat32 [of "npending (tg_tasks g)"]
  by (auto simp: task_group_queue_is_full_def books_def word_le_nat_alt word_neq_0_conv)

lemma settled_iff:
  assumes "books d g"
  shows "tg_active_coroutines g = 0 \<longleftrightarrow> tg_callbacks g = []"
    and "0 <s tg_active_coroutines g \<longleftrightarrow> tg_callbacks g \<noteq> []"
proof -
  have n: "length (tg_callbacks g) < 2 ^ 31" "tg_active_coroutines g = of_nat (length (tg_callbacks g))"
    using assms by (auto simp: books_def)
  show "0 <s tg_active_coroutines g \<longleftrightarrow> tg_callbacks g \<noteq> []"
    using n sint_of_nat_small [OF n(1)] by (simp add: word_sless_alt)
  have "unat (tg_active_coroutines g) = length (tg_callbacks g)"
    using n unat_of_nat32 [of "length (tg_callbacks g)"] by simp
  then show "tg_active_coroutines g = 0 \<longleftrightarrow> tg_callbacks g = []" by (metis length_0_conv unat_eq_0)
qed

lemma group_settled_iff:
  assumes "books d g"
  shows "group_settled g \<longleftrightarrow> tg_callbacks g = [] \<and> npending (tg_tasks g) = 0"
  using settled_iff [OF assms] by (simp add: group_settled_def task_group_all_settled_def has_pending_iff)

subsection \<open>The invariant\<close>

definition slots_inv :: "'v task_group \<Rightarrow> bool" where
  "slots_inv g \<longleftrightarrow> distinct (map sw_trigger (tg_slot_waiters g)) \<and> (\<forall>sw \<in> set (tg_slot_waiters g). sw_trigger sw < tg_next_id g)"

definition done_inv :: "'v task_group \<Rightarrow> bool" where
  "done_inv g \<longleftrightarrow> (tg_completed g \<longrightarrow> tg_sealed g \<and> tg_callbacks g = [] \<and> npending (tg_tasks g) = 0)"

definition defined :: "'v task_group \<Rightarrow> bool" where
  "defined g \<longleftrightarrow> tg_scope g \<noteq> None \<and> (\<forall>s. Undefined_behaviour s \<notin> set (tg_log g))"

definition group_inv :: "nat \<Rightarrow> 'v task_group \<Rightarrow> bool" where
  "group_inv d g \<longleftrightarrow> waiters_inv g \<and> books d g \<and> slots_inv g \<and> done_inv g \<and> defined g"

text \<open>What the loops over the waiters leave alone.\<close>

definition group_frame :: "'v task_group \<Rightarrow> 'v task_group \<Rightarrow> bool" where
  "group_frame g h \<longleftrightarrow>
     tg_scope h = tg_scope g \<and> tg_concurrency h = tg_concurrency g \<and> tg_queue_limit h = tg_queue_limit g \<and>
     tg_pending_count h = tg_pending_count g \<and> tg_active_coroutines h = tg_active_coroutines g \<and>
     tg_slot_waiters h = tg_slot_waiters g \<and> tg_finally_handlers h = tg_finally_handlers g \<and>
     tg_completed h = tg_completed g \<and> tg_sealed h = tg_sealed g \<and> tg_task_set h = tg_task_set g \<and>
     tg_callbacks h = tg_callbacks g \<and> tg_refcount h = tg_refcount g \<and> tg_next_id h = tg_next_id g \<and>
     tg_waiter_events_capacity h = tg_waiter_events_capacity g"

lemma group_frame_refl [simp]: "group_frame g g"
  by (simp add: group_frame_def)

lemma group_frame_trans: "group_frame g h \<Longrightarrow> group_frame h k \<Longrightarrow> group_frame g k"
  by (simp add: group_frame_def)

lemma group_frame_remove [simp]: "group_frame g (task_group_waiter_event_remove w h) = group_frame g h"
  by (simp add: group_frame_def)

lemma group_frame_effect [simp]: "group_frame g (tg_effect e h) = group_frame g h" "group_frame g (settle w r h) = group_frame g h"
  by (simp_all add: group_frame_def tg_effect_def settle_def)

lemma group_frame_set_remove [simp]:
  "group_frame g (task_set_remove_entry k h) = group_frame g h" "group_frame g (task_set_remove_all_entries h) = group_frame g h"
  by (simp_all add: group_frame_def task_set_remove_entry_def task_set_remove_all_entries_def)

lemma group_frame_index [simp]: "group_frame g (h\<lparr>tg_waiter_notify_index := i\<rparr>) = group_frame g h"
  by (simp add: group_frame_def)

text \<open>The books depend on the table only through what runs and what waits.\<close>

definition same_tasks :: "'v task_group \<Rightarrow> 'v task_group \<Rightarrow> bool" where
  "same_tasks g h \<longleftrightarrow>
     (distinct (map fst (tg_tasks g)) \<longrightarrow> distinct (map fst (tg_tasks h))) \<and>
     running_of (tg_tasks h) = running_of (tg_tasks g) \<and> npending (tg_tasks h) = npending (tg_tasks g)"

lemma same_tasks_refl [simp]: "same_tasks g g"
  by (simp add: same_tasks_def)

lemma same_tasks_trans: "same_tasks g h \<Longrightarrow> same_tasks h k \<Longrightarrow> same_tasks g k"
  by (auto simp: same_tasks_def)

lemma same_tasks_eq: "tg_tasks h = tg_tasks g \<Longrightarrow> same_tasks g h"
  by (simp add: same_tasks_def)

lemma books_frame: "books d g \<Longrightarrow> group_frame g h \<Longrightarrow> same_tasks g h \<Longrightarrow> books d h"
  by (simp add: books_def group_frame_def same_tasks_def)

lemma done_inv_frame: "done_inv g \<Longrightarrow> group_frame g h \<Longrightarrow> same_tasks g h \<Longrightarrow> done_inv h"
  by (simp add: done_inv_def group_frame_def same_tasks_def)

lemma slots_inv_frame: "slots_inv g \<Longrightarrow> group_frame g h \<Longrightarrow> slots_inv h"
  by (simp add: slots_inv_def group_frame_def)

text \<open>An effect other than undefined behaviour.\<close>

fun harmless :: "'v group_effect \<Rightarrow> bool" where
  "harmless (Undefined_behaviour s) = False"
| "harmless e = True"

lemma defined_effect [simp]: "harmless e \<Longrightarrow> defined (tg_effect e g) = defined g"
  by (cases e) (auto simp: defined_def tg_effect_def)

lemma defined_settle [simp]: "defined (settle w r g) = defined g"
  by (simp add: settle_def)

lemma defined_remove [simp]: "defined (task_group_waiter_event_remove w g) = defined g"
  by (simp add: defined_def)

lemma defined_set_remove [simp]:
  "defined (task_set_remove_entry k g) = defined g" "defined (task_set_remove_all_entries g) = defined g"
  by (simp_all add: defined_def task_set_remove_entry_def task_set_remove_all_entries_def)

lemma defined_index [simp]: "defined (g\<lparr>tg_waiter_notify_index := i\<rparr>) = defined g"
  by (simp add: defined_def)

lemmas group_invI = group_inv_def [THEN iffD2, OF conjI, OF _ conjI, OF _ _ conjI, OF _ _ _ conjI]

lemma group_inv_frame:
  assumes "group_inv d g" "group_frame g h" "same_tasks g h" "waiters_inv h" "defined h"
  shows "group_inv d h"
  using assms books_frame done_inv_frame slots_inv_frame by (auto simp: group_inv_def)

subsection \<open>Settling waiters\<close>

definition idle :: "'v task_group \<Rightarrow> bool" where
  "idle g \<longleftrightarrow> running_of (tg_tasks g) = [] \<and> npending (tg_tasks g) = 0"

lemma same_tasks_remove_all: "idle g \<Longrightarrow> same_tasks g (task_set_remove_all_entries g)"
  by (simp add: idle_def same_tasks_def task_set_remove_all_entries_def)

lemma idle_same: "same_tasks g h \<Longrightarrow> idle g \<Longrightarrow> idle h"
  by (simp add: same_tasks_def idle_def)

lemma same_tasks_settle [simp]: "same_tasks g (settle w r h) = same_tasks g h"
  by (simp add: same_tasks_def settle_def tg_effect_def)

lemma same_tasks_effect [simp]: "same_tasks g (tg_effect e h) = same_tasks g h"
  by (simp add: same_tasks_def tg_effect_def)

lemma same_tasks_remove [simp]: "same_tasks g (task_group_waiter_event_remove w h) = same_tasks g h"
  by (simp add: same_tasks_def)

lemma same_tasks_index [simp]: "same_tasks g (h\<lparr>tg_waiter_notify_index := i\<rparr>) = same_tasks g h"
  by (simp add: same_tasks_def)

lemma idle_settle [simp]: "idle (settle w r h) = idle h"
  by (simp add: idle_def settle_def tg_effect_def)

lemma tg_fields_settle [simp]:
  "tg_log (settle w r g) = tg_log g @ [Waiter_settled w r]"
  "tg_next_id (settle w r g) = tg_next_id g" "tg_waiter_events_capacity (settle w r g) = tg_waiter_events_capacity g"
  by (simp_all add: settle_def tg_effect_def)

lemma tg_fields_set_remove [simp]:
  "tg_log (task_set_remove_entry k g) = tg_log g" "tg_log (task_set_remove_all_entries g) = tg_log g"
  "tg_next_id (task_set_remove_entry k g) = tg_next_id g" "tg_next_id (task_set_remove_all_entries g) = tg_next_id g"
  "tg_waiter_events_capacity (task_set_remove_entry k g) = tg_waiter_events_capacity g"
  "tg_waiter_events_capacity (task_set_remove_all_entries g) = tg_waiter_events_capacity g"
  by (simp_all add: task_set_remove_entry_def task_set_remove_all_entries_def)

lemma group_inv_settle_all:
  assumes "group_inv d g" "idle g" "(w, t) \<in> set (tg_waiter_events g)"
  shows "group_inv d (settle_all b w g)" "group_frame g (settle_all b w g)" "same_tasks g (settle_all b w g)"
proof -
  define r where "r = (if b then Rejected_composite (task_group_collect_composite_exception g)
    else Resolved_all (task_group_collect_results g))"
  let ?h = "task_set_remove_all_entries (settle w r g)"
  have eq: "settle_all b w g = task_group_waiter_event_remove w ?h" by (simp add: settle_all_def r_def)
  show fr: "group_frame g (settle_all b w g)" by (simp add: eq)
  have "same_tasks g (settle w r g)" by simp
  moreover have "same_tasks (settle w r g) ?h" using assms(2) by (intro same_tasks_remove_all) simp
  ultimately show st: "same_tasks g (settle_all b w g)" unfolding eq same_tasks_remove by (rule same_tasks_trans)
  have "waiters_inv (settle_all b w g)"
    unfolding eq by (rule waiters_inv_settle [where g = g and type = t and r = r]) (use assms in \<open>simp_all add: group_inv_def\<close>)
  then show "group_inv d (settle_all b w g)"
    by (rule group_inv_frame [OF assms(1) fr st]) (use assms(1) in \<open>simp add: eq group_inv_def\<close>)
qed

lemma group_inv_settle_remove:
  assumes "group_inv d g" "(w, t) \<in> set (tg_waiter_events g)"
  shows "group_inv d (task_group_waiter_event_remove w (settle w r g))"
proof (rule group_inv_frame [OF assms(1)])
  show "waiters_inv (task_group_waiter_event_remove w (settle w r g))"
    by (rule waiters_inv_settle [where g = g and type = t and r = r]) (use assms in \<open>simp_all add: group_inv_def\<close>)
qed (use assms(1) in \<open>simp_all add: group_inv_def\<close>)

lemma waiters_inv_effect: "waiters_inv g \<Longrightarrow> settled_ids [e] = [] \<Longrightarrow> waiters_inv (tg_effect e g)"
  by (simp add: waiters_inv_def tg_effect_def)

lemma group_inv_effect:
  assumes "group_inv d g" "settled_ids [e] = []" "harmless e"
  shows "group_inv d (tg_effect e g)"
  by (rule group_inv_frame [OF assms(1)])
    (use assms in \<open>simp_all add: group_inv_def waiters_inv_effect\<close>)

lemma group_inv_index: "group_inv d g \<Longrightarrow> group_inv d (g\<lparr>tg_waiter_notify_index := i\<rparr>)"
  by (rule group_inv_frame [of d g]) (simp_all add: group_inv_def waiters_inv_def)

lemma complete_waiters_inv:
  assumes "group_inv d g" "idle g"
  shows "group_inv d (complete_waiters b i g) \<and> group_frame g (complete_waiters b i g) \<and> same_tasks g (complete_waiters b i g)"
proof (rule complete_waiters_keeps [where P = "\<lambda>h. group_inv d h \<and> group_frame g h \<and> same_tasks g h"])
  fix h w t b
  assume h: "group_inv d h \<and> group_frame g h \<and> same_tasks g h" and w: "(w, t) \<in> set (tg_waiter_events h)"
  then have "idle h" using assms(2) idle_same by blast
  from group_inv_settle_all [OF _ this w, of d b] h
  show "group_inv d (settle_all b w h) \<and> group_frame g (settle_all b w h) \<and> same_tasks g (settle_all b w h)"
    using group_frame_trans same_tasks_trans by blast
next
  fix h w r
  assume "group_inv d h \<and> group_frame g h \<and> same_tasks g h" and "(w, WAITER_TYPE_ANY) \<in> set (tg_waiter_events h)"
  then show "group_inv d (task_group_waiter_event_remove w (settle w r h)) \<and>
    group_frame g (task_group_waiter_event_remove w (settle w r h)) \<and> same_tasks g (task_group_waiter_event_remove w (settle w r h))"
    using group_inv_settle_remove by auto
qed (use assms(1) in \<open>auto simp: group_inv_effect\<close>)

text \<open>The entry of a task that ended is settled, so a task set may drop it.\<close>

definition settled_key :: "task_key \<Rightarrow> 'v task_group \<Rightarrow> bool" where
  "settled_key key g \<longleftrightarrow> (\<forall>e. (key, e) \<in> set (tg_tasks g) \<longrightarrow> \<not> task_is_pending e \<and> run_entry (key, e) = [])"

lemma filter_key:
  assumes "\<forall>e. (key, e) \<in> set ts \<longrightarrow> \<not> task_is_pending e \<and> run_entry (key, e) = []"
  shows "running_of (filter (\<lambda>(k, e). k \<noteq> key) ts) = running_of ts"
    and "npending (filter (\<lambda>(k, e). k \<noteq> key) ts) = npending ts"
  using assms by (induction ts) (auto simp del: run_entry.simps)

lemma same_tasks_remove_entry: "settled_key key g \<Longrightarrow> same_tasks g (task_set_remove_entry key g)"
  using filter_key [of key "tg_tasks g"]
  by (auto simp: settled_key_def same_tasks_def task_set_remove_entry_def distinct_map intro: inj_on_subset)

lemma settled_key_remove_entry: "settled_key key g \<Longrightarrow> settled_key key (task_set_remove_entry key g)"
  by (auto simp: settled_key_def task_set_remove_entry_def)

lemma settled_key_cong: "tg_tasks h = tg_tasks g \<Longrightarrow> settled_key key h = settled_key key g"
  by (simp add: settled_key_def)

lemma notify_one_inv:
  assumes "group_inv d g" "settled_key key g" "tg_waiter_notify_index g < length (tg_waiter_events g)"
  shows "group_inv d (notify_one key outcome g) \<and> group_frame g (notify_one key outcome g) \<and>
    same_tasks g (notify_one key outcome g) \<and> settled_key key (notify_one key outcome g)"
proof -
  obtain w t where wt: "tg_waiter_events g ! tg_waiter_notify_index g = (w, t)" by fastforce
  then have mem: "(w, t) \<in> set (tg_waiter_events g)" using assms(3) nth_mem by fastforce
  let ?r = "outcome_settlement outcome"
  let ?h = "task_set_remove_entry key (settle w ?r g)"
  have sk: "settled_key key (settle w ?r g)" using assms(2) by (simp add: settled_key_def settle_def tg_effect_def)
  have st: "same_tasks g ?h" using same_tasks_remove_entry [OF sk] same_tasks_trans [of g "settle w ?r g" ?h] by simp
  have race: "group_inv d (task_group_waiter_event_remove w ?h)"
  proof (rule group_inv_frame [OF assms(1)])
    show "waiters_inv (task_group_waiter_event_remove w ?h)"
      by (rule waiters_inv_settle [where g = g and type = t and r = ?r]) (use assms(1) mem in \<open>simp_all add: group_inv_def\<close>)
  qed (use assms(1) st in \<open>simp_all add: group_inv_def\<close>)
  have keep: "settled_key key (task_group_waiter_event_remove w h) = settled_key key h" for h :: "'a task_group"
    by (rule settled_key_cong) simp
  have idx: "settled_key key (g\<lparr>tg_waiter_notify_index := i\<rparr>)" for i using assms(2) by (simp add: settled_key_def)
  have eff: "settled_key key (tg_effect e h) = settled_key key h" for e and h :: "'a task_group"
    by (simp add: settled_key_def tg_effect_def)
  show ?thesis
    using wt race st group_inv_settle_remove [OF assms(1) mem] settled_key_remove_entry [OF sk] sk idx
      group_inv_index [OF assms(1)] assms(2)
    by (cases t) (auto simp: notify_one_def keep eff group_inv_effect)
qed

lemma notify_waiters_inv:
  assumes "group_inv d g" "settled_key key g"
  shows "group_inv d (notify_waiters key outcome g) \<and> group_frame g (notify_waiters key outcome g) \<and>
    same_tasks g (notify_waiters key outcome g)"
proof -
  have "group_inv d (notify_waiters key outcome g) \<and> group_frame g (notify_waiters key outcome g) \<and>
    same_tasks g (notify_waiters key outcome g) \<and> settled_key key (notify_waiters key outcome g)"
  proof (rule notify_waiters_keeps [where P = "\<lambda>h. group_inv d h \<and> group_frame g h \<and> same_tasks g h \<and> settled_key key h"])
    fix h
    assume "group_inv d h \<and> group_frame g h \<and> same_tasks g h \<and> settled_key key h"
      and "tg_waiter_notify_index h < length (tg_waiter_events h)"
    then show "group_inv d (notify_one key outcome h) \<and> group_frame g (notify_one key outcome h) \<and>
        same_tasks g (notify_one key outcome h) \<and> settled_key key (notify_one key outcome h)"
      using notify_one_inv [of d h key outcome] group_frame_trans same_tasks_trans by blast
  qed (use assms in simp)
  then show ?thesis by blast
qed

subsection \<open>Completion\<close>

lemma start_finally_inv:
  assumes "group_inv d g"
  shows "group_inv d (snd (start_finally_handlers env w g))"
proof -
  obtain s where s: "tg_scope g = Some s" using assms by (auto simp: group_inv_def defined_def)
  have 1: "group_inv d (g\<lparr>tg_finally_handlers := None, tg_refcount := n\<rparr>)" if "tg_refcount g \<le> n" for n
    using assms that
    by (simp add: group_inv_def waiters_inv_def books_def slots_inv_def done_inv_def defined_def)
  show ?thesis
    using assms s 1 [of "tg_refcount g + 1"] 1 [of "tg_refcount g"]
    by (auto simp: start_finally_handlers_def tg_effect_def [symmetric] Let_def group_inv_effect
        split: option.splits list.splits prod.splits bool.splits)
      (auto simp: group_inv_def waiters_inv_def books_def slots_inv_def done_inv_def defined_def tg_effect_def)
qed

lemma not_active_idle:
  assumes "books d g" "\<not> (0 <s tg_active_coroutines g \<or> task_group_has_pending g)"
  shows "idle g" "tg_callbacks g = []"
proof -
  show "tg_callbacks g = []" using assms settled_iff(2) [OF assms(1)] by blast
  then show "idle g" using assms by (simp add: idle_def books_def has_pending_iff)
qed

lemma try_complete_inv:
  assumes "group_inv d g"
  shows "group_inv d (snd (task_group_try_complete env w g))"
proof (cases "0 <s tg_active_coroutines g \<or> task_group_has_pending g")
  case False
  have b: "books d g" using assms by (simp add: group_inv_def)
  note id = not_active_idle [OF b False]
  define h where "h = complete_waiters (task_group_has_errors g) 0 g"
  have h: "group_inv d h" "group_frame g h" "same_tasks g h"
    using complete_waiters_inv [OF assms id(1), of "task_group_has_errors g" 0] by (auto simp: h_def)
  then have hi: "tg_callbacks h = []" "npending (tg_tasks h) = 0"
    using id by (simp_all add: group_frame_def same_tasks_def idle_def)
  define k where "k = (if tg_sealed h then h\<lparr>tg_completed := True\<rparr> else h)"
  have "group_inv d k"
    using h(1) hi by (auto simp: k_def group_inv_def waiters_inv_def books_def slots_inv_def done_inv_def defined_def)
  then have "group_inv d (tg_effect Group_notified k)" by (simp add: group_inv_effect)
  then have "group_inv d ((tg_effect Group_notified k)\<lparr>tg_event_closed := True\<rparr>)"
    by (simp add: group_inv_def waiters_inv_def books_def slots_inv_def done_inv_def defined_def)
  from start_finally_inv [OF this, of env w] show ?thesis
    using False by (simp add: task_group_try_complete_def Let_def h_def [symmetric] k_def [symmetric])
qed (use assms in \<open>simp add: task_group_try_complete_def\<close>)

subsection \<open>Starting tasks\<close>

text \<open>The part of the state that does not belong to tasks.\<close>

lemma fire_one_frame [simp]:
  "tg_scope (task_group_fire_one_slot_waiter g) = tg_scope g" "tg_concurrency (task_group_fire_one_slot_waiter g) = tg_concurrency g"
  "tg_queue_limit (task_group_fire_one_slot_waiter g) = tg_queue_limit g"
  "tg_pending_count (task_group_fire_one_slot_waiter g) = tg_pending_count g"
  "tg_active_coroutines (task_group_fire_one_slot_waiter g) = tg_active_coroutines g"
  "tg_tasks (task_group_fire_one_slot_waiter g) = tg_tasks g" "tg_callbacks (task_group_fire_one_slot_waiter g) = tg_callbacks g"
  "tg_refcount (task_group_fire_one_slot_waiter g) = tg_refcount g" "tg_completed (task_group_fire_one_slot_waiter g) = tg_completed g"
  "tg_sealed (task_group_fire_one_slot_waiter g) = tg_sealed g" "tg_log (task_group_fire_one_slot_waiter g) = tg_log g"
  "tg_waiter_events (task_group_fire_one_slot_waiter g) = tg_waiter_events g"
  "tg_waiter_events_capacity (task_group_fire_one_slot_waiter g) = tg_waiter_events_capacity g"
  "tg_next_id (task_group_fire_one_slot_waiter g) = tg_next_id g" "tg_task_set (task_group_fire_one_slot_waiter g) = tg_task_set g"
  "map sw_trigger (tg_slot_waiters (task_group_fire_one_slot_waiter g)) = map sw_trigger (tg_slot_waiters g)"
  by (auto simp: task_group_fire_one_slot_waiter_def split: list.splits)

lemma slots_inv_triggers:
  "map sw_trigger (tg_slot_waiters h) = map sw_trigger (tg_slot_waiters g) \<Longrightarrow> tg_next_id h = tg_next_id g \<Longrightarrow>
   slots_inv h = slots_inv g"
proof -
  have all: "(\<forall>sw \<in> set sws. sw_trigger sw < n) \<longleftrightarrow> (\<forall>t \<in> set (map sw_trigger sws). t < n)" for sws n by simp
  assume "map sw_trigger (tg_slot_waiters h) = map sw_trigger (tg_slot_waiters g)" "tg_next_id h = tg_next_id g"
  then show ?thesis unfolding slots_inv_def all by simp
qed

lemma waiters_inv_cong:
  "tg_waiter_events h = tg_waiter_events g \<Longrightarrow> tg_log h = tg_log g \<Longrightarrow> tg_next_id h = tg_next_id g \<Longrightarrow>
   tg_waiter_events_capacity h = tg_waiter_events_capacity g \<Longrightarrow> waiters_inv h = waiters_inv g"
  by (simp add: waiters_inv_def)

lemma books_pending:
  assumes b: "books d g" and i: "i < length (tg_tasks g)" "tg_tasks g ! i = (key, Task_Pending f)"
    and slot: "task_group_has_slot g"
    and h: "tg_tasks h = (tg_tasks g)[i := (key, Task_Running c)]" "tg_callbacks h = (c, key) # tg_callbacks g"
      "tg_pending_count h = tg_pending_count g - 1" "tg_active_coroutines h = tg_active_coroutines g + 1"
      "tg_refcount h = tg_refcount g + 1" "tg_concurrency h = tg_concurrency g" "tg_queue_limit h = tg_queue_limit g"
  shows "books d h"
proof -
  have m: "mset (running_of (tg_tasks h)) = add_mset (c, key) (mset (running_of (tg_tasks g)))"
    using running_of_update [OF i(1), of "(key, Task_Running c)"] i(2) h(1) by simp
  have n: "Suc (npending (tg_tasks h)) = npending (tg_tasks g)"
    using npending_update [OF i(1), of "(key, Task_Running c)"] i(2) h(1) by simp
  have k: "map fst (tg_tasks h) = map fst (tg_tasks g)"
    using i h(1) by (simp add: map_update list_update_same_conv)
  have conc: "tg_concurrency g \<noteq> 0" using b n by (auto simp: books_def)
  then have less: "int (length (tg_callbacks g)) < sint (tg_concurrency g)" using slot has_slot_iff [OF b] by blast
  moreover have "sint (tg_concurrency g) < 2 ^ 31" using sint_lt [of "tg_concurrency g"] by simp
  ultimately have "int (length (tg_callbacks g) + 1) < 2 ^ 31" by simp
  then have len: "length (tg_callbacks g) + 1 < 2 ^ 31" by simp
  show ?thesis unfolding books_def
  proof (intro conjI impI)
    show "tg_pending_count h = of_nat (npending (tg_tasks h))"
    proof -
      have "tg_pending_count g = of_nat (Suc (npending (tg_tasks h)))" using b unfolding n by (simp add: books_def)
      then show ?thesis using h(3) by simp
    qed
    show "int (length (tg_callbacks h)) \<le> max 0 (sint (tg_concurrency h))" using less h by simp
    show "length (tg_callbacks h) < 2 ^ 31" using len h(2) by simp
    show "npending (tg_tasks h) \<le> unat (tg_queue_limit h)" if "tg_queue_limit h \<noteq> 0"
      using b n h(7) that by (simp add: books_def)
  qed (use b m n k conc h in \<open>simp_all add: books_def\<close>)
qed

end
