(* ===== verification/Task_Group_Steps.thy ===== *)
theory Task_Group_Steps
  imports Task_Group_Invariant Step_Interface
begin

text \<open>
  Every operation of a task group keeps the invariant; the group as a transition system, together
  with the world outside of it.
\<close>

subsection \<open>Starting and queueing\<close>

lemma length_run_entry: "length (run_entry x) \<le> 1"
  by (cases x rule: run_entry.cases) auto

lemma length_running_of: "length (running_of ts) \<le> length ts"
proof (induction ts)
  case (Cons x ts)
  then show ?case using length_run_entry [of x] by simp
qed simp

lemma length_callbacks: "books d g \<Longrightarrow> length (tg_callbacks g) \<le> length (tg_tasks g)"
  using length_running_of [of "tg_tasks g"] by (metis books_def size_mset)

lemma books_added:
  assumes b: "books d g" and fresh: "key \<notin> fst ` set (tg_tasks g)"
    and h: "tg_tasks h = tg_tasks g @ [(key, Task_Running c)]" "tg_callbacks h = (c, key) # tg_callbacks g"
      "tg_pending_count h = tg_pending_count g" "tg_active_coroutines h = tg_active_coroutines g + 1"
      "tg_refcount h = tg_refcount g + 1" "tg_concurrency h = tg_concurrency g" "tg_queue_limit h = tg_queue_limit g"
    and slot: "task_group_has_slot g" and small: "length (tg_tasks g) < 2 ^ 31 - 1"
  shows "books d h"
proof -
  have len: "length (tg_callbacks g) + 1 < 2 ^ 31" using length_callbacks [OF b] small by simp
  have "int (length (tg_callbacks h)) \<le> max 0 (sint (tg_concurrency h))" if "tg_concurrency h \<noteq> 0"
    using slot has_slot_iff [OF b] that h by auto
  then show ?thesis using b fresh h len by (simp add: books_def image_iff)
qed

lemma npending_le: "npending ts \<le> length ts"
  by (simp add: npending_def)

lemma books_queued:
  assumes b: "books d g" and fresh: "key \<notin> fst ` set (tg_tasks g)"
    and h: "tg_tasks h = tg_tasks g @ [(key, Task_Pending f)]" "tg_callbacks h = tg_callbacks g"
      "tg_pending_count h = tg_pending_count g + 1" "tg_active_coroutines h = tg_active_coroutines g"
      "tg_refcount h = tg_refcount g" "tg_concurrency h = tg_concurrency g" "tg_queue_limit h = tg_queue_limit g"
    and slot: "\<not> task_group_has_slot g" and room: "\<not> task_group_queue_is_full g"
    and small: "length (tg_tasks g) < 2 ^ 31 - 1"
  shows "books d h"
proof -
  have conc: "tg_concurrency g \<noteq> 0" using slot by (simp add: task_group_has_slot_def)
  have lim: "npending (tg_tasks g) < unat (tg_queue_limit g)" if "tg_queue_limit g \<noteq> 0"
    using room that queue_is_full_iff [OF b] by simp
  have "npending (tg_tasks g) + 1 < 2 ^ 32" using small npending_le [of "tg_tasks g"] by simp
  then show ?thesis using b fresh h conc lim by (auto simp: books_def image_iff Suc_le_eq)
qed

lemma fire_all_inv: "group_inv d g \<Longrightarrow> group_inv d (task_group_fire_all_slot_waiters g)"
  by (simp add: group_inv_def waiters_inv_def books_def slots_inv_def done_inv_def defined_def
      task_group_fire_all_slot_waiters_def o_def)

text \<open>A group that has not completed may start a task.\<close>

lemma spawn_coroutine_pending:
  assumes inv: "group_inv d g" and c: "\<not> tg_completed g" and slot: "task_group_has_slot g"
    and i: "i < length (tg_tasks g)" "tg_tasks g ! i = (key, Task_Pending f)"
    and r: "task_group_spawn_coroutine env key (Some i) w g = (w', g', threw)"
  shows "group_inv d g' \<and> tg_scope g' = tg_scope g \<and> tg_completed g' = tg_completed g \<and> tg_sealed g' = tg_sealed g \<and>
    length (tg_tasks g') = length (tg_tasks g) \<and>
    (\<forall>j < length (tg_tasks g). j \<noteq> i \<longrightarrow> tg_tasks g' ! j = tg_tasks g ! j) \<and> fst (tg_tasks g' ! i) = key"
proof (cases "ge_spawn env (tg_scope g) w")
  case (fields w1 co t1)
  show ?thesis
  proof (cases "co \<noteq> None \<and> \<not> t1")
    case True
    then obtain c where co: "co = Some c" "\<not> t1" by blast
    define h where "h = task_group_fire_one_slot_waiter (g\<lparr>tg_tasks := (tg_tasks g)[i := (key, Task_Running c)],
      tg_pending_count := tg_pending_count g - 1\<rparr>)"
    have g': "g' = h\<lparr>tg_callbacks := (c, key) # tg_callbacks h, tg_active_coroutines := tg_active_coroutines h + 1,
        tg_refcount := tg_refcount h + 1\<rparr>"
      using r fields co by (simp add: task_group_spawn_coroutine_def h_def)
    have "books d g'"
      by (rule books_pending [OF _ i slot]) (use inv in \<open>simp_all add: g' h_def group_inv_def\<close>)
    moreover have "waiters_inv g'"
      using inv waiters_inv_cong [of g' g] by (simp add: g' h_def group_inv_def)
    moreover have "slots_inv g'"
      using inv slots_inv_triggers [of g' g] by (simp add: g' h_def group_inv_def)
    moreover have "done_inv g'" "defined g'"
      using inv c by (simp_all add: g' h_def group_inv_def done_inv_def defined_def)
    ultimately show ?thesis using i by (simp add: group_inv_def g' h_def)
  next
    case False
    then have "g' = g" using r fields by (auto simp: task_group_spawn_coroutine_def split: option.splits bool.splits)
    then show ?thesis using inv i by simp
  qed
qed

lemma spawn_coroutine_direct:
  assumes inv: "group_inv d g" and c: "\<not> tg_completed g" and slot: "task_group_has_slot g"
    and fresh: "key \<notin> fst ` set (tg_tasks g)" and small: "length (tg_tasks g) < 2 ^ 31 - 1"
    and r: "task_group_spawn_coroutine env key None w g = (w', g', threw)"
  shows "group_inv d g'"
proof (cases "ge_spawn env (tg_scope g) w")
  case (fields w1 co t1)
  show ?thesis
  proof (cases "co \<noteq> None \<and> \<not> t1")
    case True
    then obtain c where co: "co = Some c" "\<not> t1" by blast
    have g': "g' = g\<lparr>tg_tasks := tg_tasks g @ [(key, Task_Running c)], tg_callbacks := (c, key) # tg_callbacks g,
        tg_active_coroutines := tg_active_coroutines g + 1, tg_refcount := tg_refcount g + 1\<rparr>"
      using r fields co fresh by (simp add: task_group_spawn_coroutine_def tasks_add_new_def)
    have "books d g'"
      by (rule books_added [OF _ fresh _ _ _ _ _ _ _ slot small]) (use inv in \<open>simp_all add: g' group_inv_def\<close>)
    then show ?thesis
      using inv \<open>\<not> tg_completed g\<close> by (simp add: g' group_inv_def waiters_inv_def slots_inv_def done_inv_def defined_def)
  next
    case False
    then have "g' = g" using r fields by (auto simp: task_group_spawn_coroutine_def split: option.splits bool.splits)
    then show ?thesis using inv by simp
  qed
qed

subsection \<open>The queue is drained\<close>

text \<open>Draining changes pending entries only.\<close>

definition drained :: "'v task_group \<Rightarrow> 'v task_group \<Rightarrow> bool" where
  "drained g h \<longleftrightarrow>
     tg_scope h = tg_scope g \<and> tg_completed h = tg_completed g \<and> tg_sealed h = tg_sealed g \<and>
     map fst (tg_tasks h) = map fst (tg_tasks g) \<and>
     (\<forall>j < length (tg_tasks g). \<not> task_is_pending (snd (tg_tasks g ! j)) \<longrightarrow> tg_tasks h ! j = tg_tasks g ! j)"

lemma drained_refl [simp]: "drained g g"
  by (simp add: drained_def)

lemma drained_length: "drained g h \<Longrightarrow> length (tg_tasks h) = length (tg_tasks g)"
  unfolding drained_def by (metis length_map)

lemma drained_trans:
  assumes "drained g h" "drained h k"
  shows "drained g k"
  using assms drained_length [OF assms(1)] unfolding drained_def by simp

lemma spawn_pending_drained:
  assumes "group_inv d g" "\<not> tg_completed g" "task_group_has_slot g" "i < length (tg_tasks g)"
    "tg_tasks g ! i = (key, Task_Pending f)" "task_group_spawn_coroutine env key (Some i) w g = (w', g', threw)"
  shows "group_inv d g' \<and> drained g g'"
proof -
  note r = spawn_coroutine_pending [OF assms]
  have "map fst (tg_tasks g') = map fst (tg_tasks g)"
  proof (rule nth_equalityI)
    fix j assume "j < length (map fst (tg_tasks g'))"
    then show "map fst (tg_tasks g') ! j = map fst (tg_tasks g) ! j" using r assms(5) by (cases "j = i") auto
  qed (use r in simp)
  moreover have "tg_tasks g' ! j = tg_tasks g ! j" if "j < length (tg_tasks g)" "\<not> task_is_pending (snd (tg_tasks g ! j))" for j
    using r that assms(5) by (cases "j = i") auto
  ultimately show ?thesis using r by (simp add: drained_def)
qed

lemma drain_positions_inv:
  assumes "group_inv d g" "\<not> tg_completed g" "\<forall>i \<in> set is. i < length (tg_tasks g)"
    "drain_positions env is w g = (w', g')"
  shows "group_inv d g' \<and> drained g g'"
  using assms
proof (induction "is" arbitrary: w g)
  case (Cons i "is")
  obtain key e where e: "tg_tasks g ! i = (key, e)" by fastforce
  show ?case
  proof (cases "task_group_has_slot g \<and> task_is_pending e")
    case True
    then obtain f where f: "tg_tasks g ! i = (key, Task_Pending f)" using e by (cases e) auto
    obtain w1 g1 threw where r: "task_group_spawn_coroutine env key (Some i) w g = (w1, g1, threw)"
      by (metis prod_cases3)
    have s: "group_inv d g1" "drained g g1"
      using spawn_pending_drained [OF Cons.prems(1,2) _ _ f r] True Cons.prems(3) by auto
    show ?thesis
    proof (cases threw)
      case False
      then have "drain_positions env is w1 g1 = (w', g')" using Cons.prems(4) True e r f by simp
      moreover have "\<not> tg_completed g1" using s(2) Cons.prems(2) by (simp add: drained_def)
      ultimately have "group_inv d g' \<and> drained g1 g'"
        using Cons.IH [OF s(1)] Cons.prems(3) drained_length [OF s(2)] by simp
      then show ?thesis using drained_trans [OF s(2)] by blast
    qed (use Cons.prems(4) True e r f s in simp)
  next
    case False
    then show ?thesis using Cons e by (auto split: if_splits)
  qed
qed simp

lemma drain_inv:
  assumes "group_inv d g" "\<not> tg_completed g" "task_group_drain env w g = (w', g')"
  shows "group_inv d g' \<and> drained g g'"
  using assms drain_positions_inv [OF assms(1,2), of "[0..<length (tg_tasks g)]" env w w' g']
  by (auto simp: task_group_drain_def split: if_splits)

subsection \<open>The end of a task\<close>

lemma task_find_Some: "task_find key ts = Some i \<Longrightarrow> i < length ts \<and> fst (ts ! i) = key"
  by (induction key ts arbitrary: i rule: task_find.induct) (auto split: if_splits)

lemma task_find_None: "task_find key ts = None \<longleftrightarrow> key \<notin> fst ` set ts"
  by (induction key ts rule: task_find.induct) auto

lemma task_find_running:
  assumes "distinct (map fst ts)" "(key, Task_Running c) \<in> set ts"
  obtains i where "task_find key ts = Some i" "i < length ts" "ts ! i = (key, Task_Running c)"
proof -
  have "key \<in> fst ` set ts" using assms(2) by force
  then obtain i where i: "task_find key ts = Some i" using task_find_None [of key ts] by blast
  have "ts ! i = (key, Task_Running c)"
    using task_find_Some [OF i] assms by (metis eq_key_imp_eq_value nth_mem prod.collapse)
  then show ?thesis using that i task_find_Some [OF i] by blast
qed

text \<open>The group after the outcome was recorded and the callback is gone.\<close>

definition task_ended :: "nat \<Rightarrow> task_key \<Rightarrow> 'v option + throwable \<Rightarrow> 'v task_group \<Rightarrow> 'v task_group" where
  "task_ended c key outcome g =
     (record_outcome key outcome g)\<lparr>tg_active_coroutines := tg_active_coroutines (record_outcome key outcome g) - 1,
        tg_callbacks := remove1 (c, key) (tg_callbacks (record_outcome key outcome g))\<rparr>"

fun outcome_entry :: "'v option + throwable \<Rightarrow> 'v task_entry" where
  "outcome_entry (Inl r) = Task_Result r"
| "outcome_entry (Inr x) = Task_Error x"

lemma task_ended_tasks:
  assumes "books d g" "(c, key) \<in> set (tg_callbacks g)"
  obtains i b where "i < length (tg_tasks g)" "tg_tasks g ! i = (key, Task_Running c)"
    "task_ended c key outcome g = g\<lparr>tg_tasks := (tg_tasks g)[i := (key, outcome_entry outcome)],
       tg_exception_handled := b, tg_active_coroutines := tg_active_coroutines g - 1,
       tg_callbacks := remove1 (c, key) (tg_callbacks g)\<rparr>"
proof -
  have "(c, key) \<in> set (running_of (tg_tasks g))"
    using assms by (metis books_def set_mset_mset)
  then have "(key, Task_Running c) \<in> set (tg_tasks g)" by (simp add: running_of_iff)
  then obtain i where i: "task_find key (tg_tasks g) = Some i" "i < length (tg_tasks g)"
      "tg_tasks g ! i = (key, Task_Running c)"
    using task_find_running assms(1) unfolding books_def by metis
  show ?thesis
    by (rule that [OF i(2,3), of "case outcome of Inl _ \<Rightarrow> tg_exception_handled g | Inr _ \<Rightarrow> False"])
      (cases outcome; simp add: task_ended_def record_outcome_def i)
qed

lemma task_ended_books:
  assumes b: "books d g" and c: "(c, key) \<in> set (tg_callbacks g)"
  shows "books (d + 1) (task_ended c key outcome g)"
proof -
  obtain i bb where i: "i < length (tg_tasks g)" "tg_tasks g ! i = (key, Task_Running c)"
    and h: "task_ended c key outcome g = g\<lparr>tg_tasks := (tg_tasks g)[i := (key, outcome_entry outcome)],
       tg_exception_handled := bb, tg_active_coroutines := tg_active_coroutines g - 1,
       tg_callbacks := remove1 (c, key) (tg_callbacks g)\<rparr>"
    using task_ended_tasks [OF b c] by metis
  let ?ts = "(tg_tasks g)[i := (key, outcome_entry outcome)]"
  have o: "run_entry (key, outcome_entry outcome) = []" "\<not> task_is_pending (outcome_entry outcome)"
    by (cases outcome; simp)+
  have m: "add_mset (c, key) (mset (running_of ?ts)) = mset (tg_callbacks g)"
    using running_of_update [OF i(1), of "(key, outcome_entry outcome)"] i(2) o b by (simp add: books_def)
  have n: "npending ?ts = npending (tg_tasks g)"
    using npending_update [OF i(1), of "(key, outcome_entry outcome)"] i(2) o by simp
  have k: "map fst ?ts = map fst (tg_tasks g)" using i by (simp add: map_update list_update_same_conv)
  have len: "Suc (length (remove1 (c, key) (tg_callbacks g))) = length (tg_callbacks g)"
    using length_pos_if_in_set [OF c] by (simp add: length_remove1 c)
  then have a: "tg_active_coroutines g - 1 = of_nat (length (remove1 (c, key) (tg_callbacks g)))"
    using b by (simp add: books_def flip: len)
  have "mset (remove1 (c, key) (tg_callbacks g)) = mset (running_of ?ts)" by (simp flip: m)
  moreover have "int (length (remove1 (c, key) (tg_callbacks g))) \<le> max 0 (sint (tg_concurrency g))" if "tg_concurrency g \<noteq> 0"
  proof -
    have "int (length (tg_callbacks g)) \<le> max 0 (sint (tg_concurrency g))" using b that by (simp add: books_def)
    then show ?thesis using len by linarith
  qed
  ultimately show ?thesis using b n k a len by (simp add: h books_def)
qed

lemma task_ended_inv:
  assumes inv: "group_inv d g" and c: "(c, key) \<in> set (tg_callbacks g)"
  shows "group_inv (d + 1) (task_ended c key outcome g) \<and> settled_key key (task_ended c key outcome g) \<and>
    \<not> tg_completed (task_ended c key outcome g)"
proof -
  have b: "books d g" using inv by (simp add: group_inv_def)
  obtain i bb where i: "i < length (tg_tasks g)" "tg_tasks g ! i = (key, Task_Running c)"
    and h: "task_ended c key outcome g = g\<lparr>tg_tasks := (tg_tasks g)[i := (key, outcome_entry outcome)],
       tg_exception_handled := bb, tg_active_coroutines := tg_active_coroutines g - 1,
       tg_callbacks := remove1 (c, key) (tg_callbacks g)\<rparr>"
    using task_ended_tasks [OF b c] by metis
  have nc: "\<not> tg_completed g" using inv c by (auto simp: group_inv_def done_inv_def)
  have d: "distinct (map fst (tg_tasks (task_ended c key outcome g)))"
    using task_ended_books [OF b c] unfolding books_def by blast
  have "e = outcome_entry outcome" if "(key, e) \<in> set (tg_tasks (task_ended c key outcome g))" for e
  proof -
    have "(key, outcome_entry outcome) \<in> set (tg_tasks (task_ended c key outcome g))"
      using i(1) by (simp add: h set_update_memI)
    then show ?thesis using that d by (meson eq_key_imp_eq_value)
  qed
  moreover have "\<not> task_is_pending (outcome_entry outcome)" "run_entry (key, outcome_entry outcome) = []"
    by (cases outcome; simp)+
  ultimately have "settled_key key (task_ended c key outcome g)" unfolding settled_key_def by blast
  moreover have "group_inv (d + 1) (task_ended c key outcome g)"
    using inv nc task_ended_books [OF b c, of outcome]
    by (simp add: h group_inv_def waiters_inv_def slots_inv_def done_inv_def defined_def)
  ultimately show ?thesis using nc by (simp add: h)
qed

lemma settled_key_drained:
  assumes "settled_key key g" "drained g h"
  shows "settled_key key h"
  unfolding settled_key_def
proof (intro allI impI)
  fix e
  assume "(key, e) \<in> set (tg_tasks h)"
  then obtain j where j: "j < length (tg_tasks h)" "tg_tasks h ! j = (key, e)" by (auto simp: in_set_conv_nth)
  have len: "length (tg_tasks h) = length (tg_tasks g)" using drained_length [OF assms(2)] .
  have "fst (tg_tasks g ! j) = key"
    using assms(2) j len unfolding drained_def by (metis fst_conv nth_map)
  then obtain e' where e': "tg_tasks g ! j = (key, e')" by (metis prod.collapse)
  then have "(key, e') \<in> set (tg_tasks g)" using j(1) len nth_mem by metis
  then have "\<not> task_is_pending e' \<and> run_entry (key, e') = []" using assms(1) by (simp add: settled_key_def)
  moreover have "tg_tasks h ! j = tg_tasks g ! j"
    using assms(2) j(1) len e' calculation by (simp add: drained_def)
  ultimately show "\<not> task_is_pending e \<and> run_entry (key, e) = []" using e' j(2) by simp
qed

lemma on_coroutine_complete_eq:
  "task_group_on_coroutine_complete env c key outcome w g =
     (case task_group_drain env w (task_ended c key outcome g) of (w, g) \<Rightarrow>
        (case task_group_try_complete env w (notify_waiters key outcome (g\<lparr>tg_waiter_notify_index := 0\<rparr>)) of
           (w, g) \<Rightarrow> (w, g\<lparr>tg_refcount := tg_refcount g - 1\<rparr>)))"
  by (simp add: task_group_on_coroutine_complete_def task_ended_def Let_def)

lemma group_inv_release: "group_inv (d + 1) g \<Longrightarrow> group_inv d (g\<lparr>tg_refcount := tg_refcount g - 1\<rparr>)"
  by (auto simp: group_inv_def waiters_inv_def books_def slots_inv_def done_inv_def defined_def)

lemma on_coroutine_complete_inv:
  assumes inv: "group_inv d g" and c: "(c, key) \<in> set (tg_callbacks g)"
  shows "group_inv d (snd (task_group_on_coroutine_complete env c key outcome w g))"
proof -
  let ?g = "task_ended c key outcome g"
  note e = task_ended_inv [OF inv c, of outcome]
  obtain w1 g1 where dr: "task_group_drain env w ?g = (w1, g1)" by fastforce
  have g1: "group_inv (d + 1) g1" "drained ?g g1" using drain_inv [OF _ _ dr] e by auto
  let ?g2 = "notify_waiters key outcome (g1\<lparr>tg_waiter_notify_index := 0\<rparr>)"
  have "settled_key key g1" using settled_key_drained [OF _ g1(2)] e by blast
  then have "settled_key key (g1\<lparr>tg_waiter_notify_index := 0\<rparr>)" using settled_key_cong [of "g1\<lparr>tg_waiter_notify_index := 0\<rparr>" g1] by simp
  then have "group_inv (d + 1) ?g2"
    using notify_waiters_inv [OF group_inv_index [OF g1(1), of 0], of key outcome] by blast
  then have "group_inv (d + 1) (snd (task_group_try_complete env w1 ?g2))" by (rule try_complete_inv)
  then show ?thesis
    using group_inv_release [of d "snd (task_group_try_complete env w1 ?g2)"]
    by (simp add: on_coroutine_complete_eq dr case_prod_unfold)
qed

subsection \<open>The methods\<close>

text \<open>The table has room for one more task within the counters.\<close>

definition has_room :: "'v task_group \<Rightarrow> bool" where
  "has_room g \<longleftrightarrow> length (tg_tasks g) < 2 ^ 31 - 1"

lemma do_spawn_enter_inv:
  assumes inv: "group_inv d g" and c: "\<not> tg_sealed g" and fresh: "key \<notin> fst ` set (tg_tasks g)" and room: "has_room g"
  shows "group_inv d (fst (snd (do_spawn_enter env key fcall w g)))"
proof -
  have nc: "\<not> tg_completed g" using inv c by (auto simp: group_inv_def done_inv_def)
  consider (park) "\<not> task_group_has_slot g" "task_group_queue_is_full g" | (start) "task_group_has_slot g"
    | (queue) "\<not> task_group_has_slot g" "\<not> task_group_queue_is_full g" by blast
  then show ?thesis
  proof cases
    case park
    define h where "h = g\<lparr>tg_slot_waiters := tg_slot_waiters g @
      [\<lparr>sw_trigger = tg_next_id g, sw_fired = False, sw_key = key, sw_fcall = fcall\<rparr>], tg_next_id := Suc (tg_next_id g)\<rparr>"
    have "waiters_inv h" by (rule waiters_inv_weaken [of g]) (use inv in \<open>simp_all add: h_def group_inv_def\<close>)
    moreover have "slots_inv h"
      using inv by (fastforce simp: h_def group_inv_def slots_inv_def)
    moreover have "books d h" "done_inv h" "defined h"
      using inv by (simp_all add: h_def group_inv_def books_def done_inv_def defined_def)
    ultimately show ?thesis using park by (simp add: do_spawn_enter_def h_def group_inv_def)
  next
    case start
    obtain w' g' threw where r: "task_group_spawn_coroutine env key None w g = (w', g', threw)" by (metis prod_cases3)
    show ?thesis
      using spawn_coroutine_direct [OF inv nc start fresh _ r] room start r by (simp add: do_spawn_enter_def has_room_def)
  next
    case queue
    let ?h = "(tasks_add_new env key (Task_Pending fcall) g)\<lparr>tg_pending_count := tg_pending_count g + 1\<rparr>"
    have "books d ?h"
      by (rule books_queued [OF _ fresh _ _ _ _ _ _ _ queue])
        (use inv fresh room in \<open>simp_all add: tasks_add_new_def group_inv_def has_room_def\<close>)
    then have "group_inv d ?h"
      using inv nc by (simp add: tasks_add_new_def group_inv_def waiters_inv_def slots_inv_def done_inv_def defined_def)
    then show ?thesis using queue by (simp add: do_spawn_enter_def)
  qed
qed

lemma do_spawn_inv:
  assumes "group_inv d g" "has_room g"
  shows "group_inv d (fst (snd (task_group_do_spawn env key fcall w g)))"
  using assms do_spawn_enter_inv [of d g key env fcall w] by (simp add: task_group_do_spawn_def)

lemma do_spawn_resume_inv:
  assumes "group_inv d g" "has_room g" "sw_key sw \<notin> fst ` set (tg_tasks g)"
  shows "group_inv d (fst (snd (do_spawn_resume env sw threw w g)))"
proof -
  let ?h = "g\<lparr>tg_slot_waiters := filter (\<lambda>x. sw_trigger x \<noteq> sw_trigger sw) (tg_slot_waiters g)\<rparr>"
  have "group_inv d ?h"
    using assms(1)
    by (simp add: group_inv_def waiters_inv_def books_def slots_inv_def done_inv_def defined_def distinct_map_filter)
  then show ?thesis
    using do_spawn_enter_inv [of d ?h "sw_key sw" env "sw_fcall sw" w] assms(2,3)
    by (simp add: do_spawn_resume_def has_room_def Let_def)
qed

lemma group_spawn_inv:
  assumes "group_inv d g" "has_room g"
  shows "group_inv d (fst (snd (group_spawn env fcall w g)))"
proof -
  have "group_inv d (g\<lparr>tg_next_key := tg_next_key g + 1\<rparr>)"
    using assms(1) by (simp add: group_inv_def waiters_inv_def books_def slots_inv_def done_inv_def defined_def)
  from do_spawn_inv [OF this] show ?thesis using assms(2) by (simp add: group_spawn_def has_room_def)
qed

text \<open>A new waiter is the last of the vector and differs from all earlier ones.\<close>

lemma waiter_future_new_inv:
  assumes "group_inv d g" "task_group_waiter_future_new t g = (h, w)"
  shows "group_inv d h" "(w, t) \<in> set (tg_waiter_events h)" "tg_tasks h = tg_tasks g"
    "tg_active_coroutines h = tg_active_coroutines g" "tg_task_set h = tg_task_set g" "tg_sealed h = tg_sealed g"
    "tg_log h = tg_log g"
proof -
  have h: "h = task_group_waiter_add_to_vector (tg_next_id g, t) (g\<lparr>tg_next_id := Suc (tg_next_id g)\<rparr>)" "w = tg_next_id g"
    using assms(2) by (auto simp: task_group_waiter_future_new_def Let_def)
  show "(w, t) \<in> set (tg_waiter_events h)" "tg_tasks h = tg_tasks g" "tg_active_coroutines h = tg_active_coroutines g"
    "tg_task_set h = tg_task_set g" "tg_sealed h = tg_sealed g" "tg_log h = tg_log g"
    by (simp_all add: h task_group_waiter_add_to_vector_def Let_def)
  have i: "\<And>w. w \<in> fst ` set (tg_waiter_events g) \<Longrightarrow> w < tg_next_id g" "\<And>w. w \<in> set (settled_ids (tg_log g)) \<Longrightarrow> w < tg_next_id g"
    "length (tg_waiter_events g) \<le> tg_waiter_events_capacity g"
    using assms(1) by (auto simp: group_inv_def waiters_inv_def)
  have "waiters_inv h"
    using assms(1) i unfolding group_inv_def waiters_inv_def h task_group_waiter_add_to_vector_def Let_def
    by (auto dest: less_SucI)
  moreover have "books d h" "done_inv h" "defined h"
    using assms(1) by (simp_all add: group_inv_def books_def done_inv_def defined_def h task_group_waiter_add_to_vector_def Let_def)
  moreover have "slots_inv h"
    using assms(1) by (auto simp: group_inv_def slots_inv_def h task_group_waiter_add_to_vector_def Let_def intro: less_SucI)
  ultimately show "group_inv d h" by (simp add: group_inv_def)
qed

lemma group_settled_idle: "group_inv d g \<Longrightarrow> group_settled g \<Longrightarrow> idle g"
  using group_settled_iff [of d g] by (auto simp: group_inv_def idle_def books_def)

lemma group_all_inv:
  assumes "group_inv d g"
  shows "group_inv d (fst (group_all b g))"
proof -
  obtain h w where r: "task_group_waiter_future_new (if b then WAITER_TYPE_ALL_IGNORE_ERRORS else WAITER_TYPE_ALL) g = (h, w)"
    by fastforce
  note n = waiter_future_new_inv [OF assms r]
  show ?thesis
    using n(1) group_inv_settle_all(1) [OF n(1) _ n(2)] group_settled_idle [OF n(1)]
    by (simp add: group_all_def r)
qed

lemma first_settled_entry:
  assumes "first_settled b ts = Some (k, r)"
  shows "\<exists>e. (k, e) \<in> set ts \<and> \<not> task_is_pending e \<and> run_entry (k, e) = []"
  using assms
proof (induction ts)
  case (Cons x ts)
  obtain k' e' where x: "x = (k', e')" by fastforce
  show ?case using Cons x by (cases e') (fastforce split: if_splits)+
qed simp

lemma first_settled_key:
  assumes "books d g" "first_settled b (tg_tasks g) = Some (k, r)"
  shows "settled_key k g"
  using first_settled_entry [OF assms(2)] assms(1) unfolding settled_key_def books_def
  by (metis eq_key_imp_eq_value)

text \<open>A waiter that is settled at once with the outcome of an entry.\<close>

lemma settle_entry_inv:
  assumes inv: "group_inv d g" and w: "(w, t) \<in> set (tg_waiter_events g)" and k: "settled_key k g"
  shows "group_inv d (task_group_waiter_event_remove w (task_set_remove_entry k (settle w r g)))"
proof (rule group_inv_frame [OF inv])
  have "settled_key k (settle w r g)" using k by (simp add: settled_key_def settle_def tg_effect_def)
  from same_tasks_remove_entry [OF this]
  show "same_tasks g (task_group_waiter_event_remove w (task_set_remove_entry k (settle w r g)))"
    using same_tasks_trans [of g "settle w r g"] by simp
  show "waiters_inv (task_group_waiter_event_remove w (task_set_remove_entry k (settle w r g)))"
    by (rule waiters_inv_settle [where g = g and type = t and r = r]) (use inv w in \<open>simp_all add: group_inv_def\<close>)
qed (use inv in \<open>simp_all add: group_inv_def\<close>)

lemma group_race_inv:
  assumes "group_inv d g"
  shows "group_inv d (fst (group_race g))"
proof -
  obtain h w where r: "task_group_waiter_future_new WAITER_TYPE_RACE g = (h, w)" by fastforce
  note n = waiter_future_new_inv [OF assms r]
  have b: "books d h" using n(1) by (simp add: group_inv_def)
  show ?thesis
    using assms n(1) settle_entry_inv [OF n(1,2)] first_settled_key [OF b, of True]
    by (auto simp: group_race_def r split: option.split)
qed

lemma group_any_inv:
  assumes "group_inv d g"
  shows "group_inv d (fst (group_any g))"
proof -
  obtain h w where r: "task_group_waiter_future_new WAITER_TYPE_ANY g = (h, w)" by fastforce
  note n = waiter_future_new_inv [OF assms r]
  have b: "books d h" using n(1) by (simp add: group_inv_def)
  show ?thesis
    using assms n(1) settle_entry_inv [OF n(1,2)] first_settled_key [OF b, of False] group_inv_settle_remove [OF n(1,2)]
    by (auto simp: group_any_def r split: option.split)
qed

lemma group_inv_seal: "group_inv d g \<Longrightarrow> group_inv d (g\<lparr>tg_sealed := True\<rparr>)"
  by (simp add: group_inv_def waiters_inv_def books_def slots_inv_def done_inv_def defined_def)

lemma group_inv_handled: "group_inv d g \<Longrightarrow> group_inv d (g\<lparr>tg_exception_handled := b\<rparr>)"
  by (simp add: group_inv_def waiters_inv_def books_def slots_inv_def done_inv_def defined_def)

lemma group_close_inv: "group_inv d g \<Longrightarrow> group_inv d (snd (group_close env w g))"
  by (simp add: group_close_def try_complete_inv fire_all_inv group_inv_seal)

lemma group_cancel_inv: "group_inv d g \<Longrightarrow> group_inv d (snd (group_cancel env cancellation w g))"
  by (simp add: group_cancel_def Let_def try_complete_inv fire_all_inv group_inv_handled [OF group_inv_seal])

lemma group_finally_inv:
  assumes "group_inv d g"
  shows "group_inv d (group_finally callback g)"
proof -
  have "group_inv d (g\<lparr>tg_finally_handlers := hs\<rparr>)" for hs
    using assms by (simp add: group_inv_def waiters_inv_def books_def slots_inv_def done_inv_def defined_def)
  then show ?thesis using assms by (simp add: group_finally_def group_inv_effect)
qed

lemma waiter_dispose_inv:
  assumes "group_inv d g"
  shows "group_inv d (task_group_waiter_event_remove w g)"
proof (rule group_inv_frame [OF assms])
  show "waiters_inv (task_group_waiter_event_remove w g)"
    by (rule waiters_inv_weaken [of g])
      (use assms in \<open>simp_all add: group_inv_def waiter_event_remove_subset\<close>)
qed (use assms in \<open>simp_all add: group_inv_def\<close>)

lemma settled_at_key:
  assumes "books d g" "settled_at p g = Some (k, r)"
  shows "settled_key k g"
proof -
  have p: "p < length (tg_tasks g)" using assms(2) by (auto simp: settled_at_def split: if_splits)
  obtain e where e: "tg_tasks g ! p = (k, e)" "\<not> task_is_pending e" "run_entry (k, e) = []"
    using assms(2) p by (cases "tg_tasks g ! p" rule: run_entry.cases) (auto simp: settled_at_def)
  then have "(k, e) \<in> set (tg_tasks g)" using p nth_mem by metis
  then show ?thesis
    using e assms(1) unfolding settled_key_def books_def by (metis eq_key_imp_eq_value)
qed

lemma remove_entry_inv:
  assumes "group_inv d g" "settled_key k g"
  shows "group_inv d (task_set_remove_entry k g)"
proof (rule group_inv_frame [OF assms(1)])
  show "waiters_inv (task_set_remove_entry k g)"
    using assms(1) waiters_inv_cong [of "task_set_remove_entry k g" g] by (simp add: group_inv_def)
qed (use assms same_tasks_remove_entry in \<open>simp_all add: group_inv_def\<close>)

lemma iterator_retry_inv:
  assumes "group_inv d g"
  shows "group_inv d (fst (iterator_retry b g it))"
proof (cases "settled_at (it_position it) g")
  case None
  obtain h w where r: "task_group_waiter_future_new WAITER_TYPE_ITERATOR g = (h, w)" by fastforce
  show ?thesis
    using assms None waiter_future_new_inv(1) [OF assms r]
    by (simp add: iterator_retry_def task_group_waiter_iterator_new_def r)
next
  case (Some x)
  obtain k out where x: "x = (k, out)" by fastforce
  have "settled_key k g" by (rule settled_at_key [of d]) (use assms Some x in \<open>simp_all add: group_inv_def\<close>)
  then show ?thesis using assms Some x remove_entry_inv [OF assms, of k] by (simp add: iterator_retry_def Let_def)
qed

lemma iterator_resume_inv: "group_inv d g \<Longrightarrow> group_inv d (fst (iterator_resume w threw g it))"
  by (simp add: iterator_resume_def Let_def waiter_iterator_dispose_def waiter_dispose_inv iterator_retry_inv)

lemma finally_dtor_inv: "group_inv 0 g \<Longrightarrow> length (tg_callbacks g) < tg_refcount g \<Longrightarrow>
  group_inv 0 (task_group_finally_handlers_dtor g)"
  by (auto simp: task_group_finally_handlers_dtor_def group_inv_def waiters_inv_def books_def slots_inv_def
      done_inv_def defined_def)

subsection \<open>Runs of a group\<close>

text \<open>
  A constructed group or set.  The steps are the calls of its methods, the ends of its tasks and
  the resumptions of coroutines suspended in it; the world outside changes freely.  A coroutine
  suspended in \<^verbatim>\<open>spawn()\<close> resumes after its trigger fired or with an exception; the contract of the
  hash table asks that its key is not taken when it does.
\<close>

definition group_start :: "('w, 'v) group_env \<Rightarrow> 'w \<times> 'v task_group \<Rightarrow> bool" where
  "group_start env s \<longleftrightarrow>
     (\<exists>concurrency queue_limit scope_obj w g. g \<in> {task_group_create_object, task_set_create_object} \<and>
        task_group_construct env concurrency queue_limit scope_obj w g = Inr s) \<or>
     (\<exists>concurrency queue_limit scope_obj w. async_new_group env concurrency queue_limit scope_obj w = Inr s)"

inductive group_step :: "('w, 'v) group_env \<Rightarrow> 'w \<times> 'v task_group \<Rightarrow> 'w \<times> 'v task_group \<Rightarrow> bool" for env where
  Group_world: "group_step env (w, g) (w', g)"
| Group_spawn: "has_room g \<Longrightarrow> group_spawn env fcall w g = (w', g', r) \<Longrightarrow> group_step env (w, g) (w', g')"
| Group_spawnWithKey: "has_room g \<Longrightarrow> group_spawnWithKey env key fcall w g = (w', g', r) \<Longrightarrow>
    group_step env (w, g) (w', g')"
| Group_resume: "has_room g \<Longrightarrow> sw \<in> set (tg_slot_waiters g) \<Longrightarrow> sw_fired sw \<or> threw \<Longrightarrow>
    sw_key sw \<notin> fst ` set (tg_tasks g) \<Longrightarrow> do_spawn_resume env sw threw w g = (w', g', r) \<Longrightarrow>
    group_step env (w, g) (w', g')"
| Group_complete: "(c, key) \<in> set (tg_callbacks g) \<Longrightarrow>
    task_group_on_coroutine_complete env c key outcome w g = (w', g') \<Longrightarrow> group_step env (w, g) (w', g')"
| Group_all: "group_all ignore_errors g = (g', r) \<Longrightarrow> group_step env (w, g) (w, g')"
| Group_race: "group_race g = (g', r) \<Longrightarrow> group_step env (w, g) (w, g')"
| Group_any: "group_any g = (g', r) \<Longrightarrow> group_step env (w, g) (w, g')"
| Group_getErrors: "group_getErrors g = (g', r) \<Longrightarrow> group_step env (w, g) (w, g')"
| Group_suppressErrors: "group_step env (w, g) (w, group_suppressErrors g)"
| Group_cancel: "group_cancel env cancellation w g = (w', g') \<Longrightarrow> group_step env (w, g) (w', g')"
| Group_close: "group_close env w g = (w', g') \<Longrightarrow> group_step env (w, g) (w', g')"
| Group_dispose: "group_dispose env w g = (w', g') \<Longrightarrow> group_step env (w, g) (w', g')"
| Group_finally: "group_step env (w, g) (w, group_finally callback g)"
| Group_finally_dtor: "length (tg_callbacks g) < tg_refcount g \<Longrightarrow>
    group_step env (w, g) (w, task_group_finally_handlers_dtor g)"
| Group_dispose_waiter: "group_step env (w, g) (w, waiter_future_dispose waiter g)"
| Group_get_iterator: "task_group_get_iterator by_ref g = Some (g', it) \<Longrightarrow> group_step env (w, g) (w, g')"
| Group_move_forward: "task_group_iterator_move_forward in_coroutine g it = (g', it', r) \<Longrightarrow>
    group_step env (w, g) (w, g')"
| Group_iterator_resume: "iterator_resume waiter threw g it = (g', it', r) \<Longrightarrow> group_step env (w, g) (w, g')"

lemma attach_scope_inv:
  assumes "attach_scope env sc w g = Inr (w', g')" "\<And>b s. group_inv 0 (g\<lparr>tg_scope_object := b, tg_scope := Some s\<rparr>)"
  shows "group_inv 0 g'"
proof -
  have "g\<lparr>tg_scope := Some s\<rparr> = g\<lparr>tg_scope_object := tg_scope_object g, tg_scope := Some s\<rparr>" for s by simp
  then have "group_inv 0 (g\<lparr>tg_scope := Some s\<rparr>)" for s using assms(2) by metis
  then show ?thesis using assms by (auto simp: attach_scope_def split: option.splits prod.splits)
qed

lemma group_start_inv:
  assumes "group_start env (w, g)"
  shows "group_inv 0 g"
proof -
  have fresh: "group_inv 0 (h\<lparr>tg_concurrency := c, tg_queue_limit := q, tg_scope_object := b, tg_scope := Some s\<rparr>)"
    if "h \<in> {task_group_create_object, task_set_create_object}" for h :: "'b task_group" and c q b s
    using that by (auto simp: task_group_create_object_def task_set_create_object_def group_inv_def waiters_inv_def
        books_def slots_inv_def done_inv_def defined_def)
  from assms show ?thesis unfolding group_start_def
  proof (elim disjE exE conjE)
    fix c q sc w0 and h :: "'b task_group"
    assume h: "h \<in> {task_group_create_object, task_set_create_object}" and "task_group_construct env c q sc w0 h = Inr (w, g)"
    then obtain ql where "attach_scope env sc w0 (h\<lparr>tg_concurrency := of_int c, tg_queue_limit := ql\<rparr>) = Inr (w, g)"
      by (auto simp: task_group_construct_def Let_def split: if_splits option.splits)
    then show ?thesis by (rule attach_scope_inv) (use fresh [OF h] in simp)
  next
    fix c q sc w0
    assume "async_new_group env c q sc w0 = Inr (w, g)"
    then show ?thesis unfolding async_new_group_def by (rule attach_scope_inv) (use fresh in simp)
  qed
qed

lemma group_step_inv:
  assumes "group_step env (w, g) (w', g')" "group_inv 0 g"
  shows "group_inv 0 g'"
  using assms
proof (induction "(w, g)" "(w', g')" rule: group_step.induct)
  case (Group_spawn fcall r)
  then show ?case using group_spawn_inv [of 0 g env fcall w] by simp
next
  case (Group_spawnWithKey key fcall r)
  then show ?case using do_spawn_inv [of 0 g env key fcall w] by (simp add: group_spawnWithKey_def)
next
  case (Group_resume sw threw r)
  then show ?case using do_spawn_resume_inv [of 0 g sw env threw w] by simp
next
  case (Group_complete c key outcome)
  then show ?case using on_coroutine_complete_inv [of 0 g c key env outcome w] by simp
next
  case (Group_all ignore_errors r)
  then show ?case using group_all_inv [of 0 g ignore_errors] by simp
next
  case (Group_race r)
  then show ?case using group_race_inv [of 0 g] by simp
next
  case (Group_any r)
  then show ?case using group_any_inv [of 0 g] by simp
next
  case (Group_cancel cancellation)
  then show ?case using group_cancel_inv [of 0 g env cancellation w] by simp
next
  case Group_close
  then show ?case using group_close_inv [of 0 g env w] by simp
next
  case (Group_move_forward in_coroutine it it' r)
  then show ?case using iterator_retry_inv [of 0 g in_coroutine it] by (simp add: task_group_iterator_move_forward_def)
next
  case (Group_iterator_resume waiter threw it it' r)
  then show ?case using iterator_resume_inv [of 0 g waiter threw it] by simp
qed (auto simp: group_getErrors_def group_suppressErrors_def group_dispose_def group_inv_handled group_finally_inv
    finally_dtor_inv waiter_future_dispose_def waiter_dispose_inv task_group_get_iterator_def split: if_splits)

interpretation group_runs: step_system "group_start env" "group_step env" "\<lambda>s. group_inv 0 (snd s)" for env
proof unfold_locales
  show "group_inv 0 (snd s)" if "group_start env s" for s using group_start_inv that by (metis prod.collapse)
  show "group_inv 0 (snd s')" if "group_inv 0 (snd s)" "group_step env s s'" for s s'
    using group_step_inv that by (metis prod.collapse)
qed

definition group_reachable :: "('w, 'v) group_env \<Rightarrow> 'w \<times> 'v task_group \<Rightarrow> bool" where
  "group_reachable env s \<longleftrightarrow> (\<exists>s0. group_start env s0 \<and> (group_step env)\<^sup>*\<^sup>* s0 s)"

lemma group_reachable_inv: "group_reachable env (w, g) \<Longrightarrow> group_inv 0 g"
  using group_runs.run_good [of env _ "(w, g)"] unfolding group_reachable_def by auto

lemma group_reachable_step: "group_reachable env s \<Longrightarrow> group_step env s s' \<Longrightarrow> group_reachable env s'"
  unfolding group_reachable_def by (meson rtranclp.rtrancl_into_rtrancl)

end
