(* ===== verification/Task_Group_Progress.thy ===== *)
theory Task_Group_Progress
  imports Task_Group_Steps
begin

text \<open>
  Progress of a task group whose scope takes coroutines: queued tasks wait only while all slots are
  in use, and a single coroutine waiting in \<^verbatim>\<open>spawn()\<close> is woken by the next task that ends.  What a
  group needs of its scope is the locale \<open>group_service\<close>.
\<close>

subsection \<open>What progress depends on\<close>

definition calm :: "'v task_group \<Rightarrow> 'v task_group \<Rightarrow> bool" where
  "calm g h \<longleftrightarrow>
     tg_scope h = tg_scope g \<and> tg_concurrency h = tg_concurrency g \<and> tg_queue_limit h = tg_queue_limit g \<and>
     tg_pending_count h = tg_pending_count g \<and> tg_active_coroutines h = tg_active_coroutines g \<and>
     tg_slot_waiters h = tg_slot_waiters g \<and> npending (tg_tasks h) = npending (tg_tasks g)"

lemma calm_refl [simp]: "calm g g"
  by (simp add: calm_def)

lemma calm_trans: "calm g h \<Longrightarrow> calm h k \<Longrightarrow> calm g k"
  by (simp add: calm_def)

lemma calm_frame: "group_frame g h \<Longrightarrow> same_tasks g h \<Longrightarrow> calm g h"
  by (simp add: calm_def group_frame_def same_tasks_def)

lemma calm_slot: "calm g h \<Longrightarrow> task_group_has_slot h = task_group_has_slot g"
  by (simp add: calm_def task_group_has_slot_def)

lemma calm_full: "calm g h \<Longrightarrow> task_group_queue_is_full h = task_group_queue_is_full g"
  by (simp add: calm_def task_group_queue_is_full_def)

lemma calm_start_finally: "calm g (snd (start_finally_handlers env w g))"
  by (auto simp: start_finally_handlers_def calm_def tg_effect_def Let_def
      split: option.splits list.splits prod.splits bool.splits)

lemma calm_try_complete:
  assumes "group_inv d g"
  shows "calm g (snd (task_group_try_complete env w g))"
proof (cases "0 <s tg_active_coroutines g \<or> task_group_has_pending g")
  case False
  define h where "h = complete_waiters (task_group_has_errors g) 0 g"
  have b: "books d g" using assms by (simp add: group_inv_def)
  have "group_frame g h" "same_tasks g h"
    using complete_waiters_inv [OF assms not_active_idle(1) [OF b False], of "task_group_has_errors g" 0]
    by (simp_all add: h_def)
  then have gh: "calm g h" by (rule calm_frame)
  define k where "k = (tg_effect Group_notified (if tg_sealed h then h\<lparr>tg_completed := True\<rparr> else h))\<lparr>tg_event_closed := True\<rparr>"
  have "calm g k" using gh unfolding k_def by (simp add: calm_def tg_effect_def)
  then have "calm g (snd (start_finally_handlers env w k))" by (rule calm_trans) (rule calm_start_finally)
  then show ?thesis using False by (simp add: task_group_try_complete_def Let_def h_def [symmetric] k_def [symmetric])
qed (simp add: task_group_try_complete_def)

lemma calm_future_new: "task_group_waiter_future_new t g = (h, w) \<Longrightarrow> calm g h"
  by (auto simp: task_group_waiter_future_new_def task_group_waiter_add_to_vector_def Let_def calm_def)

lemma calm_settle_entry:
  assumes "settled_key k g"
  shows "calm g (task_group_waiter_event_remove w (task_set_remove_entry k (settle w r g)))"
proof -
  have "settled_key k (settle w r g)" using assms by (simp add: settled_key_def settle_def tg_effect_def)
  from same_tasks_remove_entry [OF this] same_tasks_trans [of g "settle w r g"]
  have "same_tasks g (task_set_remove_entry k (settle w r g))" by simp
  then show ?thesis by (intro calm_frame) simp_all
qed

lemma calm_all: "group_inv d g \<Longrightarrow> calm g (fst (group_all b g))"
proof -
  assume inv: "group_inv d g"
  obtain h w where r: "task_group_waiter_future_new (if b then WAITER_TYPE_ALL_IGNORE_ERRORS else WAITER_TYPE_ALL) g = (h, w)"
    by fastforce
  note n = waiter_future_new_inv [OF inv r]
  have "calm h (settle_all c w h)" if "group_settled h" for c
    using group_inv_settle_all(2,3) [OF n(1) group_settled_idle [OF n(1) that] n(2)] calm_frame by blast
  then show ?thesis using calm_future_new [OF r] calm_trans by (auto simp: group_all_def r)
qed

lemma calm_race: "group_inv d g \<Longrightarrow> calm g (fst (group_race g))"
proof -
  assume inv: "group_inv d g"
  obtain h w where r: "task_group_waiter_future_new WAITER_TYPE_RACE g = (h, w)" by fastforce
  have b: "books d h" using waiter_future_new_inv(1) [OF inv r] by (simp add: group_inv_def)
  show ?thesis
    using calm_future_new [OF r] calm_trans [OF calm_future_new [OF r] calm_settle_entry] first_settled_key [OF b, of True]
    by (auto simp: group_race_def r split: option.split)
qed

lemma calm_any: "group_inv d g \<Longrightarrow> calm g (fst (group_any g))"
proof -
  assume inv: "group_inv d g"
  obtain h w where r: "task_group_waiter_future_new WAITER_TYPE_ANY g = (h, w)" by fastforce
  have b: "books d h" using waiter_future_new_inv(1) [OF inv r] by (simp add: group_inv_def)
  have "calm h (task_group_waiter_event_remove w (settle w s h))" for s by (rule calm_frame) simp_all
  then show ?thesis
    using calm_future_new [OF r] calm_trans [OF calm_future_new [OF r] calm_settle_entry] first_settled_key [OF b, of False]
      calm_trans [OF calm_future_new [OF r]]
    by (auto simp: group_any_def r split: option.split)
qed

lemma calm_remove: "calm g (task_group_waiter_event_remove w g)"
  by (rule calm_frame) simp_all

lemma calm_iterator_retry: "group_inv d g \<Longrightarrow> calm g (fst (iterator_retry b g it))"
proof -
  assume inv: "group_inv d g"
  have "calm g (task_set_remove_entry k g)" if "settled_at p g = Some (k, r)" for k r p
    using settled_at_key [of d g p k r] that inv same_tasks_remove_entry [of k g]
    by (intro calm_frame) (simp_all add: group_inv_def)
  then show ?thesis
    using calm_future_new [of WAITER_TYPE_ITERATOR g]
    by (auto simp: iterator_retry_def Let_def task_group_waiter_iterator_new_def split: option.splits prod.splits)
qed

lemma calm_iterator_resume: "group_inv d g \<Longrightarrow> calm g (fst (iterator_resume w threw g it))"
  using calm_iterator_retry [OF waiter_dispose_inv [of d g w], of True it] calm_trans [OF calm_remove [of g w]]
  by (auto simp: iterator_resume_def Let_def waiter_iterator_dispose_def intro: calm_remove)

subsection \<open>A scope that takes coroutines\<close>

definition head_fired :: "'v task_group \<Rightarrow> bool" where
  "head_fired g \<longleftrightarrow> (case tg_slot_waiters g of [] \<Rightarrow> True | sw # sws \<Rightarrow> sw_fired sw)"

lemma head_fired_fire_one [simp]: "head_fired (task_group_fire_one_slot_waiter g)"
  by (simp add: head_fired_def task_group_fire_one_slot_waiter_def split: list.split)

text \<open>The slot waiters after some triggers fired.\<close>

definition woken :: "'v task_group \<Rightarrow> 'v task_group \<Rightarrow> bool" where
  "woken g h \<longleftrightarrow> map sw_trigger (tg_slot_waiters h) = map sw_trigger (tg_slot_waiters g) \<and>
     (tg_slot_waiters h = tg_slot_waiters g \<or> head_fired h)"

lemma woken_refl [simp]: "woken g g"
  by (simp add: woken_def)

lemma woken_trans: "woken g h \<Longrightarrow> woken h k \<Longrightarrow> woken g k"
  by (auto simp: woken_def head_fired_def)

locale group_service =
  fixes env :: "('w, 'v) group_env" and scope :: nat and good :: "'w \<Rightarrow> bool"
  assumes spawn_succeeds: "good w \<Longrightarrow> \<exists>w' c. ge_spawn env (Some scope) w = (w', Some c, False) \<and> good w'"
begin

lemma spawn_pending_good:
  assumes "good w" "tg_scope g = Some scope" "i < length (tg_tasks g)"
  shows "\<exists>w' g' c. task_group_spawn_coroutine env key (Some i) w g = (w', g', False) \<and> good w' \<and>
    tg_tasks g' = (tg_tasks g)[i := (key, Task_Running c)] \<and> woken g g' \<and> head_fired g' \<and> tg_scope g' = Some scope"
proof -
  obtain w' c where "ge_spawn env (Some scope) w = (w', Some c, False)" "good w'" using spawn_succeeds [OF assms(1)] by blast
  moreover have "woken g (task_group_fire_one_slot_waiter
      (g\<lparr>tg_tasks := (tg_tasks g)[i := (key, Task_Running c)], tg_pending_count := tg_pending_count g - 1\<rparr>))"
    by (auto simp: woken_def task_group_fire_one_slot_waiter_def head_fired_def split: list.splits)
  moreover have "head_fired (task_group_fire_one_slot_waiter
      (g\<lparr>tg_tasks := (tg_tasks g)[i := (key, Task_Running c)], tg_pending_count := tg_pending_count g - 1\<rparr>))"
    by (rule head_fired_fire_one)
  ultimately show ?thesis
    using assms(2) by (auto simp: task_group_spawn_coroutine_def woken_def head_fired_def)
qed

lemma drain_positions_good:
  assumes "group_inv d g" "\<not> tg_completed g" "\<forall>i \<in> set is. i < length (tg_tasks g)" "good w" "tg_scope g = Some scope"
    "drain_positions env is w g = (w', g')"
  shows "good w' \<and> woken g g' \<and> (task_group_has_slot g' \<longrightarrow> (\<forall>i \<in> set is. \<not> task_is_pending (snd (tg_tasks g' ! i)))) \<and>
    (task_group_has_slot g \<and> (\<exists>i \<in> set is. task_is_pending (snd (tg_tasks g ! i))) \<longrightarrow> head_fired g')"
  using assms
proof (induction "is" arbitrary: w g)
  case (Cons i "is")
  obtain key e where e: "tg_tasks g ! i = (key, e)" by fastforce
  have il: "i < length (tg_tasks g)" using Cons.prems(3) by simp
  show ?case
  proof (cases "task_group_has_slot g")
    case slot: True
    show ?thesis
    proof (cases "task_is_pending e")
      case True
      then obtain f where f: "tg_tasks g ! i = (key, Task_Pending f)" using e by (cases e) auto
      obtain w1 g1 c where r: "task_group_spawn_coroutine env key (Some i) w g = (w1, g1, False)" "good w1"
          "tg_tasks g1 = (tg_tasks g)[i := (key, Task_Running c)]" "woken g g1" "head_fired g1" "tg_scope g1 = Some scope"
        using spawn_pending_good [OF Cons.prems(4,5) il, of key] by blast
      have s: "group_inv d g1" "drained g g1"
        using spawn_pending_drained [OF Cons.prems(1,2) slot il f r(1)] by auto
      have nc: "\<not> tg_completed g1" using s(2) Cons.prems(2) by (simp add: drained_def)
      have ps: "\<forall>i \<in> set is. i < length (tg_tasks g1)" using Cons.prems(3) drained_length [OF s(2)] by simp
      have dr: "drain_positions env is w1 g1 = (w', g')" using Cons.prems(6) slot True e r(1) f by simp
      note IH = Cons.IH [OF s(1) nc ps r(2,6) dr]
      have "tg_tasks g' ! i = tg_tasks g1 ! i"
        using drain_positions_inv [OF s(1) nc ps dr] drained_length [OF s(2)] il r(3) by (simp add: drained_def)
      then have "\<not> task_is_pending (snd (tg_tasks g' ! i))" using r(3) il by simp
      moreover have "head_fired g'" using IH r(5) by (auto simp: woken_def head_fired_def)
      ultimately show ?thesis using IH woken_trans [OF r(4)] by auto
    next
      case False
      then have dr: "drain_positions env is w g = (w', g')" using Cons.prems(6) slot e by simp
      have ps: "\<forall>i \<in> set is. i < length (tg_tasks g)" using Cons.prems(3) by simp
      note IH = Cons.IH [OF Cons.prems(1,2) ps Cons.prems(4,5) dr]
      have "tg_tasks g' ! i = tg_tasks g ! i"
        using drain_positions_inv [OF Cons.prems(1,2) ps dr] il e False by (simp add: drained_def)
      then show ?thesis using IH e False by auto
    qed
  next
    case False
    then show ?thesis using Cons.prems(4,6) by auto
  qed
qed simp

lemma drain_positions_starts:
  assumes "group_inv d g" "\<not> tg_completed g" "\<forall>i \<in> set is. i < length (tg_tasks g)" "good w" "tg_scope g = Some scope"
    "drain_positions env is w g = (w', g')" "task_group_has_slot g" "\<exists>i \<in> set is. task_is_pending (snd (tg_tasks g ! i))"
  shows "\<exists>i < length (tg_tasks g). \<exists>k f c. tg_tasks g ! i = (k, Task_Pending f) \<and> tg_tasks g' ! i = (k, Task_Running c)"
  using assms
proof (induction "is" arbitrary: w g)
  case (Cons i "is")
  obtain key e where e: "tg_tasks g ! i = (key, e)" by fastforce
  have il: "i < length (tg_tasks g)" using Cons.prems(3) by simp
  show ?case
  proof (cases "task_is_pending e")
    case True
    then obtain f where f: "tg_tasks g ! i = (key, Task_Pending f)" using e by (cases e) auto
    obtain w1 g1 c where r: "task_group_spawn_coroutine env key (Some i) w g = (w1, g1, False)"
        "tg_tasks g1 = (tg_tasks g)[i := (key, Task_Running c)]"
      using spawn_pending_good [OF Cons.prems(4,5) il, of key] by blast
    have s: "group_inv d g1" "drained g g1" using spawn_pending_drained [OF Cons.prems(1,2,7) il f r(1)] by auto
    have nc: "\<not> tg_completed g1" using s(2) Cons.prems(2) by (simp add: drained_def)
    have dr: "drain_positions env is w1 g1 = (w', g')" using Cons.prems(6,7) True e r(1) f by simp
    have "tg_tasks g' ! i = tg_tasks g1 ! i"
      using drain_positions_inv [OF s(1) nc _ dr] Cons.prems(3) drained_length [OF s(2)] il r(2) by (simp add: drained_def)
    then show ?thesis using f r(2) il by auto
  next
    case False
    then show ?thesis using Cons e by simp
  qed
qed simp

lemma pending_position:
  "0 < npending ts \<longleftrightarrow> (\<exists>i \<in> set [0..<length ts]. task_is_pending (snd (ts ! i)))"
  by (auto simp: npending_def filter_empty_conv in_set_conv_nth Bex_def) (metis prod.collapse)

lemma drain_good:
  assumes "group_inv d g" "\<not> tg_completed g" "good w" "tg_scope g = Some scope" "task_group_drain env w g = (w', g')"
  shows "good w'" "woken g g'" "task_group_has_slot g' \<Longrightarrow> npending (tg_tasks g') = 0"
    "task_group_has_slot g \<Longrightarrow> 0 < npending (tg_tasks g) \<Longrightarrow> head_fired g'"
    "task_group_has_slot g \<Longrightarrow> 0 < npending (tg_tasks g) \<Longrightarrow>
      \<exists>k f c. (k, Task_Pending f) \<in> set (tg_tasks g) \<and> (c, k) \<in> set (running_of (tg_tasks g'))"
proof -
  have r: "drain_positions env [0..<length (tg_tasks g)] w g = (w', g')"
    using assms(4,5) by (simp add: task_group_drain_def)
  have len: "length (tg_tasks g') = length (tg_tasks g)"
    using drain_positions_inv [OF assms(1,2) _ r] drained_length by auto
  note p = drain_positions_good [OF assms(1,2) _ assms(3,4) r]
  show "good w'" "woken g g'" using p by auto
  show "npending (tg_tasks g') = 0" if "task_group_has_slot g'"
    using p that pending_position [of "tg_tasks g'"] len by auto
  show "head_fired g'" if "task_group_has_slot g" "0 < npending (tg_tasks g)"
    using p that pending_position [of "tg_tasks g"] by auto
  show "\<exists>k f c. (k, Task_Pending f) \<in> set (tg_tasks g) \<and> (c, k) \<in> set (running_of (tg_tasks g'))"
    if "task_group_has_slot g" "0 < npending (tg_tasks g)"
    using drain_positions_starts [OF assms(1,2) _ assms(3,4) r that(1)] that(2) pending_position [of "tg_tasks g"] len
    by (metis atLeastLessThan_iff nth_mem running_of_iff set_upt)
qed

end

subsection \<open>Runs while the scope takes coroutines\<close>

definition busy :: "'v task_group \<Rightarrow> bool" where
  "busy g \<longleftrightarrow> (0 < npending (tg_tasks g) \<longrightarrow> \<not> task_group_has_slot g)"

text \<open>At most one coroutine waits in \<^verbatim>\<open>spawn()\<close>, and if it was not woken it has to wait.\<close>

definition solo :: "'v task_group \<Rightarrow> bool" where
  "solo g \<longleftrightarrow> length (tg_slot_waiters g) \<le> 1 \<and>
     (\<forall>sw \<in> set (tg_slot_waiters g). \<not> sw_fired sw \<longrightarrow> \<not> task_group_has_slot g \<and> task_group_queue_is_full g)"

lemma busy_calm: "calm g h \<Longrightarrow> busy h = busy g"
  by (simp add: busy_def calm_slot) (simp add: calm_def)

lemma solo_calm: "calm g h \<Longrightarrow> solo h = solo g"
  by (simp add: solo_def calm_slot calm_full) (simp add: calm_def)

lemma fire_all_calm:
  "task_group_has_slot (task_group_fire_all_slot_waiters g) = task_group_has_slot g"
  "npending (tg_tasks (task_group_fire_all_slot_waiters g)) = npending (tg_tasks g)"
  "tg_scope (task_group_fire_all_slot_waiters g) = tg_scope g"
  "length (tg_slot_waiters (task_group_fire_all_slot_waiters g)) = length (tg_slot_waiters g)"
  "\<forall>sw \<in> set (tg_slot_waiters (task_group_fire_all_slot_waiters g)). sw_fired sw"
  by (auto simp: task_group_fire_all_slot_waiters_def task_group_has_slot_def)

lemma seal_progress:
  assumes "group_inv d g" "h = task_group_fire_all_slot_waiters (g\<lparr>tg_sealed := True, tg_exception_handled := b\<rparr>)"
    "g' = snd (task_group_try_complete env w h)"
  shows "busy g' = busy g" "tg_scope g' = tg_scope g" "length (tg_slot_waiters g') \<le> 1 \<Longrightarrow> solo g'"
proof -
  have h: "group_inv d h" unfolding assms(2) by (intro fire_all_inv group_inv_handled group_inv_seal assms(1))
  have c: "calm h g'" unfolding assms(3) by (rule calm_try_complete [OF h])
  have "busy h = busy g" "tg_scope h = tg_scope g"
    using fire_all_calm [of "g\<lparr>tg_sealed := True, tg_exception_handled := b\<rparr>"]
    by (simp_all add: assms(2) busy_def task_group_has_slot_def)
  then show "busy g' = busy g" "tg_scope g' = tg_scope g" using busy_calm [OF c] c by (simp_all add: calm_def)
  show "solo g'" if "length (tg_slot_waiters g') \<le> 1"
    using that c fire_all_calm(5) [of "g\<lparr>tg_sealed := True, tg_exception_handled := b\<rparr>"]
    by (simp add: solo_def calm_def assms(2))
qed

lemma task_ended_npending:
  assumes "books d g" "(c, key) \<in> set (tg_callbacks g)"
  shows "npending (tg_tasks (task_ended c key outcome g)) = npending (tg_tasks g)"
proof -
  obtain i bb where i: "i < length (tg_tasks g)" "tg_tasks g ! i = (key, Task_Running c)"
    and h: "task_ended c key outcome g = g\<lparr>tg_tasks := (tg_tasks g)[i := (key, outcome_entry outcome)],
       tg_exception_handled := bb, tg_active_coroutines := tg_active_coroutines g - 1,
       tg_callbacks := remove1 (c, key) (tg_callbacks g)\<rparr>"
    using task_ended_tasks [OF assms] by metis
  show ?thesis
    using npending_update [OF i(1), of "(key, outcome_entry outcome)"] i(2) unfolding h by (cases outcome) simp_all
qed

text \<open>The end of a task frees its slot.\<close>

lemma task_ended_slot:
  assumes inv: "group_inv 0 g" and c: "(c, key) \<in> set (tg_callbacks g)"
  shows "task_group_has_slot (task_ended c key outcome g)"
proof -
  have b: "books 0 g" using inv by (simp add: group_inv_def)
  have be: "books 1 (task_ended c key outcome g)" using task_ended_books [OF b c] by simp
  have t: "tg_concurrency (task_ended c key outcome g) = tg_concurrency g"
    "tg_callbacks (task_ended c key outcome g) = remove1 (c, key) (tg_callbacks g)"
    by (rule task_ended_tasks [OF b c, of outcome], simp)+
  have "int (length (tg_callbacks g)) \<le> max 0 (sint (tg_concurrency g))" if "tg_concurrency g \<noteq> 0"
    using b that by (simp add: books_def)
  moreover have "length (remove1 (c, key) (tg_callbacks g)) < length (tg_callbacks g)"
    using c length_pos_if_in_set [OF c] by (simp add: length_remove1)
  ultimately show ?thesis using has_slot_iff [OF be] by (auto simp: t)
qed

definition open_step :: "('w, 'v) group_env \<Rightarrow> ('w \<Rightarrow> bool) \<Rightarrow> 'w \<times> 'v task_group \<Rightarrow> 'w \<times> 'v task_group \<Rightarrow> bool" where
  "open_step env good s s' \<longleftrightarrow> group_step env s s' \<and> good (fst s) \<and> good (fst s')"

definition solo_step :: "('w, 'v) group_env \<Rightarrow> ('w \<Rightarrow> bool) \<Rightarrow> 'w \<times> 'v task_group \<Rightarrow> 'w \<times> 'v task_group \<Rightarrow> bool" where
  "solo_step env good s s' \<longleftrightarrow> open_step env good s s' \<and> length (tg_slot_waiters (snd s')) \<le> 1"

context group_service
begin

lemma complete_progress:
  assumes inv: "group_inv 0 g" and c: "(c, key) \<in> set (tg_callbacks g)" and w: "good w" and s: "tg_scope g = Some scope"
    and r: "task_group_on_coroutine_complete env c key outcome w g = (w', g')"
  shows "busy g'" "tg_scope g' = Some scope" "woken g g'"
    "task_group_queue_is_full g \<Longrightarrow> head_fired g'"
proof -
  let ?e = "task_ended c key outcome g"
  have b: "books 0 g" using inv by (simp add: group_inv_def)
  note e = task_ended_inv [OF inv c, of outcome]
  obtain i bb where i: "i < length (tg_tasks g)" "tg_tasks g ! i = (key, Task_Running c)"
    and h: "?e = g\<lparr>tg_tasks := (tg_tasks g)[i := (key, outcome_entry outcome)],
       tg_exception_handled := bb, tg_active_coroutines := tg_active_coroutines g - 1,
       tg_callbacks := remove1 (c, key) (tg_callbacks g)\<rparr>"
    using task_ended_tasks [OF b c] by metis
  have se: "tg_scope ?e = Some scope" "tg_slot_waiters ?e = tg_slot_waiters g" using s by (simp_all add: h)
  obtain w1 g1 where dr: "task_group_drain env w ?e = (w1, g1)" by fastforce
  have ei: "group_inv 1 ?e" "\<not> tg_completed ?e" "settled_key key ?e" using e by auto
  note d = drain_good [OF ei(1,2) w se(1) dr]
  have g1: "group_inv 1 g1" "drained ?e g1" using drain_inv [OF ei(1,2) dr] by auto
  let ?n = "notify_waiters key outcome (g1\<lparr>tg_waiter_notify_index := 0\<rparr>)"
  have sk: "settled_key key (g1\<lparr>tg_waiter_notify_index := 0\<rparr>)"
    using settled_key_drained [OF ei(3) g1(2)] settled_key_cong [of "g1\<lparr>tg_waiter_notify_index := 0\<rparr>" g1] by simp
  note n = notify_waiters_inv [OF group_inv_index [OF g1(1), of 0] sk, of outcome]
  have "calm g1 (g1\<lparr>tg_waiter_notify_index := 0\<rparr>)" by (simp add: calm_def)
  moreover have "calm (g1\<lparr>tg_waiter_notify_index := 0\<rparr>) ?n" using n by (intro calm_frame) auto
  moreover have "calm ?n (snd (task_group_try_complete env w1 ?n))" using n by (intro calm_try_complete [of 1]) auto
  ultimately have "calm g1 (snd (task_group_try_complete env w1 ?n))" by (meson calm_trans)
  then have cg: "calm g1 g'"
    using r by (auto simp: on_coroutine_complete_eq dr calm_def case_prod_unfold)
  have "busy g1" using d(3) by (auto simp: busy_def)
  then show "busy g'" using busy_calm [OF cg] by simp
  show "tg_scope g' = Some scope" using cg g1(2) se by (simp add: calm_def drained_def)
  show "woken g g'" using d(2) cg se by (simp add: woken_def head_fired_def calm_def)
  assume full: "task_group_queue_is_full g"
  have np: "npending (tg_tasks ?e) = npending (tg_tasks g)" by (rule task_ended_npending [OF b c])
  have "0 < npending (tg_tasks ?e)" using full queue_is_full_iff [OF b] np unat_gt_0 [of "tg_queue_limit g"] by linarith
  moreover have "task_group_has_slot ?e" by (rule task_ended_slot [OF inv c])
  ultimately have "head_fired g1" using d(4) by simp
  then show "head_fired g'" using cg by (simp add: head_fired_def calm_def)
qed

lemma do_spawn_enter_progress:
  assumes inv: "group_inv 0 g" and w: "good w" and s: "tg_scope g = Some scope" and b: "busy g"
    and fresh: "key \<notin> fst ` set (tg_tasks g)"
    and r: "do_spawn_enter env key fcall w g = (w', g', res)"
  shows "busy g'" "tg_scope g' = Some scope" "solo g \<Longrightarrow> length (tg_slot_waiters g') \<le> 1 \<Longrightarrow> solo g'"
proof -
  consider (park) "\<not> task_group_has_slot g" "task_group_queue_is_full g" | (start) "task_group_has_slot g"
    | (queue) "\<not> task_group_has_slot g" "\<not> task_group_queue_is_full g" by blast
  then have "busy g' \<and> tg_scope g' = Some scope \<and> (solo g \<and> length (tg_slot_waiters g') \<le> 1 \<longrightarrow> solo g')"
  proof cases
    case park
    then have g': "g' = g\<lparr>tg_slot_waiters := tg_slot_waiters g @
        [\<lparr>sw_trigger = tg_next_id g, sw_fired = False, sw_key = key, sw_fcall = fcall\<rparr>], tg_next_id := Suc (tg_next_id g)\<rparr>"
      using r by (simp add: do_spawn_enter_def)
    have "task_group_has_slot g' = task_group_has_slot g" "task_group_queue_is_full g' = task_group_queue_is_full g"
      by (simp_all add: g' task_group_has_slot_def task_group_queue_is_full_def)
    then show ?thesis using park b s by (auto simp: busy_def solo_def g')
  next
    case start
    obtain w1 c where sp: "ge_spawn env (Some scope) w = (w1, Some c, False)" using spawn_succeeds [OF w] by blast
    have g': "g' = g\<lparr>tg_tasks := tg_tasks g @ [(key, Task_Running c)], tg_callbacks := (c, key) # tg_callbacks g,
        tg_active_coroutines := tg_active_coroutines g + 1, tg_refcount := tg_refcount g + 1\<rparr>"
      using r start sp s fresh by (simp add: do_spawn_enter_def task_group_spawn_coroutine_def tasks_add_new_def)
    have "npending (tg_tasks g') = 0" using b start by (auto simp: g' busy_def)
    then show ?thesis using start s by (auto simp: busy_def solo_def g')
  next
    case queue
    then have g': "g' = g\<lparr>tg_tasks := tg_tasks g @ [(key, Task_Pending fcall)], tg_pending_count := tg_pending_count g + 1\<rparr>"
      using r fresh by (simp add: do_spawn_enter_def tasks_add_new_def)
    have "\<not> task_group_has_slot g'" using queue by (simp add: g' task_group_has_slot_def)
    then show ?thesis using queue s by (auto simp: busy_def solo_def g')
  qed
  then show "busy g'" "tg_scope g' = Some scope" "solo g \<Longrightarrow> length (tg_slot_waiters g') \<le> 1 \<Longrightarrow> solo g'" by auto
qed

definition making_progress :: "'v task_group \<Rightarrow> bool" where
  "making_progress g \<longleftrightarrow> group_inv 0 g \<and> tg_scope g = Some scope \<and> busy g"

lemma calm_progress:
  "calm g g' \<Longrightarrow> tg_scope g = Some scope \<Longrightarrow> busy g \<Longrightarrow>
   busy g' \<and> tg_scope g' = Some scope \<and> (solo g \<longrightarrow> solo g')"
  using busy_calm [of g g'] solo_calm [of g g'] by (simp add: calm_def)

lemma do_spawn_progress:
  assumes "group_inv 0 g" "good w" "tg_scope g = Some scope" "busy g"
    "task_group_do_spawn env key fcall w g = (w', g', res)"
  shows "busy g' \<and> tg_scope g' = Some scope \<and> (solo g \<and> length (tg_slot_waiters g') \<le> 1 \<longrightarrow> solo g')"
proof (cases "tg_sealed g \<or> tg_completed g \<or> key \<in> fst ` set (tg_tasks g)")
  case True
  then have "g' = g" using assms(5) by (auto simp: task_group_do_spawn_def split: if_splits)
  then show ?thesis using assms by simp
next
  case False
  then show ?thesis using do_spawn_enter_progress [OF assms(1-4), of key fcall w' g' res] assms(5)
    by (simp add: task_group_do_spawn_def)
qed

lemma resume_progress:
  assumes inv: "group_inv 0 g" and w: "good w" and s: "tg_scope g = Some scope" and b: "busy g"
    and sw: "sw \<in> set (tg_slot_waiters g)" "sw_key sw \<notin> fst ` set (tg_tasks g)"
    and r: "do_spawn_resume env sw threw w g = (w', g', res)"
  shows "busy g' \<and> tg_scope g' = Some scope \<and> (solo g \<and> length (tg_slot_waiters g') \<le> 1 \<longrightarrow> solo g')"
proof -
  define h where "h = g\<lparr>tg_slot_waiters := filter (\<lambda>x. sw_trigger x \<noteq> sw_trigger sw) (tg_slot_waiters g)\<rparr>"
  have hi: "group_inv 0 h"
    using inv by (simp add: h_def group_inv_def waiters_inv_def books_def slots_inv_def done_inv_def defined_def distinct_map_filter)
  have hb: "busy h" "tg_scope h = Some scope" using b s by (simp_all add: h_def busy_def task_group_has_slot_def)
  have solo: "solo h" if "solo g"
  proof -
    obtain x xs where "tg_slot_waiters g = x # xs" using sw(1) by (cases "tg_slot_waiters g") auto
    then have "tg_slot_waiters h = []" using sw(1) that by (auto simp: h_def solo_def)
    then show ?thesis by (simp add: solo_def)
  qed
  show ?thesis
  proof (cases "threw \<or> tg_sealed g \<or> tg_completed g")
    case True
    then have "g' = h" using r by (auto simp: do_spawn_resume_def h_def Let_def split: if_splits)
    then show ?thesis using hb solo by simp
  next
    case False
    then have "do_spawn_enter env (sw_key sw) (sw_fcall sw) w h = (w', g', res)"
      using r by (simp add: do_spawn_resume_def h_def Let_def)
    from do_spawn_enter_progress [OF hi w hb(2,1) _ this] show ?thesis using sw(2) solo by (simp add: h_def)
  qed
qed

lemma step_progress:
  assumes "group_step env (w, g) (w', g')" "group_inv 0 g" "tg_scope g = Some scope" "busy g" "good w"
  shows "busy g' \<and> tg_scope g' = Some scope \<and> (solo g \<and> length (tg_slot_waiters g') \<le> 1 \<longrightarrow> solo g')"
  using assms
proof (induction "(w, g)" "(w', g')" rule: group_step.induct)
  case (Group_spawn fcall r)
  let ?h = "g\<lparr>tg_next_key := tg_next_key g + 1\<rparr>"
  have "calm g ?h" by (simp add: calm_def)
  moreover have "group_inv 0 ?h"
    using Group_spawn(3) by (simp add: group_inv_def waiters_inv_def books_def slots_inv_def done_inv_def defined_def)
  ultimately show ?case
    using do_spawn_progress [of ?h w _ fcall w' g' r] Group_spawn calm_progress [of g ?h] by (simp add: group_spawn_def)
next
  case (Group_spawnWithKey key fcall r)
  then show ?case using do_spawn_progress [of g w key fcall w' g' r] by (simp add: group_spawnWithKey_def)
next
  case (Group_resume sw threw r)
  then show ?case using resume_progress [of g w sw threw w' g' r] by simp
next
  case (Group_complete c key outcome)
  note p = complete_progress [OF Group_complete(3,1,6,4,2)]
  have "solo g'" if "solo g" "length (tg_slot_waiters g') \<le> 1"
  proof -
    have "sw_fired sw" if sw: "sw \<in> set (tg_slot_waiters g')" for sw
    proof -
      have one: "tg_slot_waiters g' = [sw]" using sw \<open>length (tg_slot_waiters g') \<le> 1\<close>
        by (cases "tg_slot_waiters g'") auto
      have "tg_slot_waiters g' = tg_slot_waiters g \<or> head_fired g'" using p(3) by (simp add: woken_def)
      moreover have "sw_fired sw \<or> head_fired g'" if "tg_slot_waiters g' = tg_slot_waiters g"
      proof -
        have "sw \<in> set (tg_slot_waiters g)" using that one by (metis list.set_intros(1))
        then show ?thesis using \<open>solo g\<close> p(4) by (auto simp: solo_def)
      qed
      moreover have "head_fired g' \<longleftrightarrow> sw_fired sw" unfolding head_fired_def one by simp
      ultimately show ?thesis by blast
    qed
    then show ?thesis using that by (auto simp: solo_def)
  qed
  then show ?case using p by simp
next
  case (Group_all ignore_errors r)
  then show ?case using calm_all [of 0 g ignore_errors] calm_progress [of g g'] by simp
next
  case (Group_race r)
  then show ?case using calm_race [of 0 g] calm_progress [of g g'] by simp
next
  case (Group_any r)
  then show ?case using calm_any [of 0 g] calm_progress [of g g'] by simp
next
  case (Group_cancel cancellation)
  show ?case
  proof (cases "tg_sealed g")
    case False
    define w0 where "w0 = dispose_or_cancel env (case cancellation of Some x \<Rightarrow> x | None \<Rightarrow> task_group_cancelled)
      (task_group_fire_all_slot_waiters (g\<lparr>tg_sealed := True, tg_exception_handled := True\<rparr>)) w"
    have "g' = snd (task_group_try_complete env w0 (task_group_fire_all_slot_waiters (g\<lparr>tg_sealed := True, tg_exception_handled := True\<rparr>)))"
      using Group_cancel(1) False unfolding group_cancel_def w0_def Let_def by simp
    from seal_progress [OF Group_cancel(2) refl this] show ?thesis using Group_cancel(3,4) by simp
  qed (use Group_cancel in \<open>simp add: group_cancel_def\<close>)
next
  case Group_close
  show ?case
  proof (cases "tg_sealed g")
    case False
    then have "g' = snd (task_group_try_complete env w
        (task_group_fire_all_slot_waiters (g\<lparr>tg_sealed := True, tg_exception_handled := tg_exception_handled g\<rparr>)))"
      using Group_close(1) by (simp add: group_close_def)
    from seal_progress [OF Group_close(2) refl this] show ?thesis using Group_close(3,4) by simp
  qed (use Group_close in \<open>simp add: group_close_def\<close>)
next
  case (Group_finally callback)
  have "calm g (group_finally callback g)" by (simp add: group_finally_def calm_def tg_effect_def)
  then show ?case using Group_finally calm_progress [of g g'] by simp
next
  case (Group_dispose_waiter waiter)
  then show ?case using calm_remove [of g waiter] calm_progress [of g g'] by (simp add: waiter_future_dispose_def)
next
  case (Group_move_forward in_coroutine it it' r)
  then show ?case using calm_iterator_retry [of 0 g in_coroutine it] calm_progress [of g g']
    by (simp add: task_group_iterator_move_forward_def)
next
  case (Group_iterator_resume waiter threw it it' r)
  then show ?case using calm_iterator_resume [of 0 g waiter threw it] calm_progress [of g g'] by simp
next
  case (Group_get_iterator by_ref it)
  then have "calm g g'" by (auto simp: task_group_get_iterator_def calm_def split: if_splits)
  then show ?case using Group_get_iterator calm_progress [of g g'] by simp
next
  case (Group_getErrors r)
  then have "calm g g'" by (auto simp: group_getErrors_def calm_def)
  then show ?case using Group_getErrors calm_progress [of g g'] by simp
next
  case Group_suppressErrors
  have "calm g (group_suppressErrors g)" by (simp add: group_suppressErrors_def calm_def)
  then show ?case using Group_suppressErrors calm_progress [of g g'] by simp
next
  case Group_finally_dtor
  have "calm g (task_group_finally_handlers_dtor g)" by (simp add: task_group_finally_handlers_dtor_def calm_def)
  then show ?case using Group_finally_dtor calm_progress [of g g'] by simp
qed (auto simp: group_dispose_def)

end

lemma group_start_empty:
  assumes "group_start env (w, g)"
  shows "tg_tasks g = []" "tg_slot_waiters g = []"
proof -
  have a: "tg_tasks g' = tg_tasks h \<and> tg_slot_waiters g' = tg_slot_waiters h"
    if "attach_scope env sc w0 h = Inr (w', g')" for sc w0 w' and h g' :: "'b task_group"
    using that by (auto simp: attach_scope_def split: option.splits prod.splits)
  have "tg_tasks g = [] \<and> tg_slot_waiters g = []"
    using assms unfolding group_start_def
  proof (elim disjE exE conjE)
    fix c q sc w0 and h :: "'b task_group"
    assume h: "h \<in> {task_group_create_object, task_set_create_object}" and "task_group_construct env c q sc w0 h = Inr (w, g)"
    then obtain ql where "attach_scope env sc w0 (h\<lparr>tg_concurrency := of_int c, tg_queue_limit := ql\<rparr>) = Inr (w, g)"
      by (auto simp: task_group_construct_def Let_def split: if_splits option.splits)
    from a [OF this] show ?thesis using h by (auto simp: task_group_create_object_def task_set_create_object_def)
  next
    fix c q sc w0
    assume "async_new_group env c q sc w0 = Inr (w, g)"
    from a [OF this [unfolded async_new_group_def]] show ?thesis by (simp add: task_group_create_object_def)
  qed
  then show "tg_tasks g = []" "tg_slot_waiters g = []" by auto
qed

sublocale group_service \<subseteq> open_runs: step_system
  "\<lambda>s. group_start env s \<and> tg_scope (snd s) = Some scope" "open_step env good" "\<lambda>s. making_progress (snd s)"
proof unfold_locales
  show "making_progress (snd s)" if "group_start env s \<and> tg_scope (snd s) = Some scope" for s
    using that group_start_inv [of env "fst s" "snd s"] group_start_empty [of env "fst s" "snd s"]
    by (simp add: making_progress_def busy_def)
  show "making_progress (snd s')" if "making_progress (snd s)" "open_step env good s s'" for s s'
    using that step_progress [of "fst s" "snd s" "fst s'" "snd s'"] group_step_inv [of env "fst s" "snd s" "fst s'" "snd s'"]
    by (simp add: making_progress_def open_step_def)
qed

sublocale group_service \<subseteq> solo_runs: step_system
  "\<lambda>s. group_start env s \<and> tg_scope (snd s) = Some scope" "solo_step env good"
  "\<lambda>s. making_progress (snd s) \<and> solo (snd s)"
proof unfold_locales
  show "making_progress (snd s) \<and> solo (snd s)" if "group_start env s \<and> tg_scope (snd s) = Some scope" for s
    using open_runs.start_good [of s] that group_start_empty [of env "fst s" "snd s"] by (simp add: solo_def)
  show "making_progress (snd s') \<and> solo (snd s')" if "making_progress (snd s) \<and> solo (snd s)" "solo_step env good s s'" for s s'
    using that open_runs.step_good [of s s'] step_progress [of "fst s" "snd s" "fst s'" "snd s'"]
    by (simp add: making_progress_def open_step_def solo_step_def)
qed

end
