(* ===== verification/Task_Group_Runtime.thy ===== *)
theory Task_Group_Runtime
  imports Task_Group_Progress Runtime_Properties
begin

text \<open>
  Task groups on the runtime: the surroundings of a group are the scopes and coroutines of
  \<^verbatim>\<open>Runtime\<close> and \<^verbatim>\<open>Scope\<close>.  A scope that is not closed provides what a group needs.
\<close>

text \<open>
  The composite exception that the destructor of a group hands to the scope.  The coroutine with
  the finally handlers runs in a new child scope and holds the scope; without a scope the code
  reads through a null pointer, which the group records.
\<close>

definition group_errors :: throwable where
  "group_errors = \<lparr>th_cancellation = False, th_id = 6\<rparr>"

definition group_call_finally_handlers :: "nat option \<Rightarrow> nat list \<Rightarrow> runtime \<Rightarrow> runtime \<times> bool" where
  "group_call_finally_handlers sc handlers rt =
     (case sc of
        None \<Rightarrow> (rt, True)
      | Some s \<Rightarrow>
          (case async_new_scope (Some s) False rt of (rt, child) \<Rightarrow>
             case async_new_coroutine (Some child) rt of (rt, c) \<Rightarrow>
               (mod_scope s (\<lambda>x. x\<lparr>sc_refcount := sc_refcount x + 1\<rparr>)
                  (enqueue_new 0 c (rt_effect (Finally_called s handlers) rt)), True)))"

text \<open>
  \<open>current\<close> is the current scope and \<open>scheduler_scope\<close> the scope of the scheduler's coroutine.
  Parameters are the engine's release of a scope and what its hash table does with a duplicate.
\<close>

definition runtime_group_env ::
  "zend_core \<Rightarrow> runtime_env \<Rightarrow> nat option \<Rightarrow> nat option \<Rightarrow> (nat \<Rightarrow> runtime \<Rightarrow> runtime) \<Rightarrow>
   ((task_key \<times> 'v task_entry) list \<Rightarrow> task_key \<Rightarrow> 'v task_entry \<Rightarrow> (task_key \<times> 'v task_entry) list) \<Rightarrow>
   (runtime, 'v) group_env" where
  "runtime_group_env core env current scheduler_scope release add_duplicate =
     \<lparr>ge_new_child = (\<lambda>rt. case async_new_scope current False rt of (rt, s) \<Rightarrow> (rt, Some s)),
      ge_pin = (\<lambda>b s. mod_scope s (\<lambda>x. x\<lparr>sc_owner_pinned := b\<rparr>)),
      ge_add_ref = (\<lambda>s. mod_scope s (\<lambda>x. x\<lparr>sc_refcount := sc_refcount x + 1\<rparr>)),
      ge_release = release,
      ge_spawn = (\<lambda>sc rt. case spawn (dispose_if_possible (depth_bound rt) core env) (depth_bound rt) scheduler_scope sc None 0 rt of
          Some (rt', r) \<Rightarrow> (rt', r, r = None)
        | None \<Rightarrow> (rt, None, False)),
      ge_try_to_dispose = (\<lambda>s rt. case scope_try_to_dispose (depth_bound rt) core env s rt of Some r \<Rightarrow> r | None \<Rightarrow> (rt, False)),
      ge_cancel = (\<lambda>s e rt. case scope_catch_or_cancel (depth_bound rt) core env s None None (Some e)
            (case rt_scopes rt s of None \<Rightarrow> False | Some x \<Rightarrow> sc_dispose_safely x) True rt of
          Some (rt', _) \<Rightarrow> rt' | None \<Rightarrow> rt),
      ge_catch = (\<lambda>s errors rt. case scope_catch_or_cancel (depth_bound rt) core env s None None (Some group_errors) True False rt of
          Some (rt', _) \<Rightarrow> rt' | None \<Rightarrow> rt),
      ge_completely_done = (\<lambda>s rt. scope_can_be_disposed (depth_bound rt) rt (fst (zc_completely_done core))
          (snd (zc_completely_done core)) s = Some True),
      ge_call_finally = group_call_finally_handlers,
      ge_add_duplicate = add_duplicate\<rparr>"

definition takes_coroutines :: "nat option \<Rightarrow> nat \<Rightarrow> runtime \<Rightarrow> bool" where
  "takes_coroutines scheduler_scope s rt \<longleftrightarrow>
     scheduler_scope \<noteq> Some s \<and> (\<exists>x. rt_scopes rt s = Some x \<and> \<not> sc_closed x)"

lemma spawn_open_scope:
  assumes "takes_coroutines scheduler_scope s rt"
  shows "\<exists>rt' c. spawn dispose n scheduler_scope (Some s) None 0 rt = Some (rt', Some c) \<and>
    takes_coroutines scheduler_scope s rt'"
proof -
  obtain x where x: "rt_scopes rt s = Some x" "\<not> sc_closed x" "scheduler_scope \<noteq> Some s"
    using assms by (auto simp: takes_coroutines_def)
  then show ?thesis
    by (auto simp: spawn_def takes_coroutines_def async_new_coroutine_def async_scope_add_coroutine_def enqueue_new_def
        set_status_def mod_scope_def mod_coroutine_def Let_def fresh_coroutine_def)
qed

interpretation runtime_group: group_service
  "runtime_group_env core env current scheduler_scope release add_duplicate" s "takes_coroutines scheduler_scope s"
  for core env current scheduler_scope release add_duplicate s
proof unfold_locales
  fix rt
  assume "takes_coroutines scheduler_scope s rt"
  from spawn_open_scope [OF this, of "dispose_if_possible (depth_bound rt) core env" "depth_bound rt"]
  show "\<exists>w' c. ge_spawn (runtime_group_env core env current scheduler_scope release add_duplicate) (Some s) rt =
      (w', Some c, False) \<and> takes_coroutines scheduler_scope s w'"
    by (auto simp: runtime_group_env_def)
qed

end
