(* ===== verification/Task_Group_Futures.thy ===== *)
theory Task_Group_Futures
  imports Task_Group_Progress
begin

text \<open>
  Which futures of a task group the end of a task settles, and what happens to them when the last
  task ends.
\<close>

subsection \<open>Futures at the end of a task\<close>

text \<open>A waiter that the end of one task settles.\<close>

fun served :: "'v option + throwable \<Rightarrow> nat \<times> waiter_type \<Rightarrow> bool" where
  "served outcome (w, WAITER_TYPE_RACE) = True"
| "served outcome (w, WAITER_TYPE_ANY) = isl outcome"
| "served outcome (w, t) = False"

text \<open>The first waiters, up to the index, were visited and stay.\<close>

lemma remove_at_index:
  assumes "distinct (map fst (tg_waiter_events g))" "tg_waiter_notify_index g < length (tg_waiter_events g)"
    "tg_waiter_events g ! tg_waiter_notify_index g = (w, t)"
  shows "take (tg_waiter_notify_index g) (tg_waiter_events (task_group_waiter_event_remove w g)) =
      take (tg_waiter_notify_index g) (tg_waiter_events g)"
    and "tg_waiter_notify_index (task_group_waiter_event_remove w g) = tg_waiter_notify_index g"
    and "mset (tg_waiter_events g) = add_mset (w, t) (mset (tg_waiter_events (task_group_waiter_event_remove w g)))"
proof -
  let ?ws = "tg_waiter_events g" and ?i = "tg_waiter_notify_index g"
  have mem: "(w, t) \<in> set ?ws" using assms(2,3) nth_mem by metis
  then obtain j where j: "vector_index (map fst ?ws) w = Some j"
    using vector_index_None [of "map fst ?ws" w] by force
  have "j < length ?ws" "map fst ?ws ! j = map fst ?ws ! ?i"
    using vector_index_Some [OF j] assms(2,3) by auto
  then have ji: "j = ?i" using assms(1,2) by (metis length_map nth_eq_iff_index_eq)
  show "tg_waiter_notify_index (task_group_waiter_event_remove w g) = ?i"
    using j ji by (simp add: task_group_waiter_event_remove_def)
  show "take ?i (tg_waiter_events (task_group_waiter_event_remove w g)) = take ?i ?ws"
    using j ji assms(2) by (auto simp: task_group_waiter_event_remove_def vector_remove_def butlast_conv_take min_def)
  show "mset ?ws = add_mset (w, t) (mset (tg_waiter_events (task_group_waiter_event_remove w g)))"
    by (rule waiter_event_remove_mset [OF assms(1) mem])
qed

definition visited :: "'v option + throwable \<Rightarrow> 'v task_group \<Rightarrow> bool" where
  "visited outcome g \<longleftrightarrow> tg_waiter_notify_index g \<le> length (tg_waiter_events g) \<and>
     (\<forall>x \<in> set (take (tg_waiter_notify_index g) (tg_waiter_events g)). \<not> served outcome x)"

text \<open>Waiters and settlements so far account for the waiters at the start.\<close>

definition accounted :: "'v option + throwable \<Rightarrow> (nat \<times> waiter_type) multiset \<Rightarrow> 'v group_effect list \<Rightarrow> 'v task_group \<Rightarrow> bool" where
  "accounted outcome ws log g \<longleftrightarrow>
     (\<exists>es. tg_log g = log @ es \<and>
        (\<exists>gone. ws = mset (tg_waiter_events g) + gone \<and> (\<forall>x \<in># gone. served outcome x) \<and>
           (\<forall>w r. Waiter_settled w r \<in> set es \<longleftrightarrow> r = outcome_settlement outcome \<and> w \<in> fst ` set_mset gone)))"

lemma notify_one_accounted:
  assumes d: "distinct (map fst (tg_waiter_events g))" and i: "tg_waiter_notify_index g < length (tg_waiter_events g)"
    and v: "visited outcome g" and a: "accounted outcome ws log g"
  shows "visited outcome (notify_one key outcome g) \<and> accounted outcome ws log (notify_one key outcome g) \<and>
    distinct (map fst (tg_waiter_events (notify_one key outcome g)))"
proof -
  obtain w t where wt: "tg_waiter_events g ! tg_waiter_notify_index g = (w, t)" by fastforce
  obtain es gone where a': "tg_log g = log @ es" "ws = mset (tg_waiter_events g) + gone" "\<forall>x \<in># gone. served outcome x"
      "\<forall>w r. Waiter_settled w r \<in> set es \<longleftrightarrow> r = outcome_settlement outcome \<and> w \<in> fst ` set_mset gone"
    using a unfolding accounted_def by blast
  have settled: "visited outcome (task_group_waiter_event_remove w h) \<and>
      accounted outcome ws log (task_group_waiter_event_remove w h) \<and>
      distinct (map fst (tg_waiter_events (task_group_waiter_event_remove w h)))"
    if h: "tg_waiter_events h = tg_waiter_events g" "tg_waiter_notify_index h = tg_waiter_notify_index g"
      "tg_log h = tg_log g @ [Waiter_settled w (outcome_settlement outcome)]" and s: "served outcome (w, t)" for h :: "'a task_group"
  proof -
    note r = remove_at_index [of h w t, unfolded h(1,2), OF d i wt]
    let ?ws = "tg_waiter_events (task_group_waiter_event_remove w h)"
    have len: "length ?ws + 1 = length (tg_waiter_events g)" using r(3) by (metis Suc_eq_plus1 size_add_mset size_mset)
    have "visited outcome (task_group_waiter_event_remove w h)"
      using v i len by (simp add: visited_def r(1,2))
    moreover have "accounted outcome ws log (task_group_waiter_event_remove w h)"
      unfolding accounted_def
    proof (intro exI conjI)
      show "tg_log (task_group_waiter_event_remove w h) = log @ (es @ [Waiter_settled w (outcome_settlement outcome)])"
        by (simp add: h a'(1))
      show "ws = mset ?ws + (add_mset (w, t) gone)" using r(3) a'(2) by simp
    qed (use s a'(3,4) in auto)
    moreover have "distinct (map fst ?ws)"
    proof -
      have "mset (map fst (tg_waiter_events g)) = mset (w # map fst ?ws)"
        using r(3) by (metis fst_conv image_mset_add_mset mset.simps(2) mset_map)
      then show ?thesis using d mset_eq_imp_distinct_iff by fastforce
    qed
    ultimately show ?thesis by blast
  qed
  have passed: "visited outcome h \<and> accounted outcome ws log h \<and> distinct (map fst (tg_waiter_events h))"
    if h: "tg_waiter_events h = tg_waiter_events g" "tg_waiter_notify_index h = tg_waiter_notify_index g + 1"
      "tg_log h = tg_log g @ fs" "fs = [] \<or> fs = [Iterator_notified w]" and s: "\<not> served outcome (w, t)" for h :: "'a task_group" and fs
  proof -
    have "visited outcome h"
      using v i s wt by (auto simp: visited_def h take_Suc_conv_app_nth)
    moreover have "accounted outcome ws log h"
      unfolding accounted_def
    proof (intro exI conjI)
      show "tg_log h = log @ (es @ fs)" by (simp add: h a'(1))
      show "ws = mset (tg_waiter_events h) + gone" using a'(2) h(1) by simp
    qed (use a'(3,4) h(4) in auto)
    ultimately show ?thesis using d h by simp
  qed
  show ?thesis
  proof (cases t)
    case WAITER_TYPE_RACE
    then show ?thesis using settled wt by (simp add: notify_one_def)
  next
    case WAITER_TYPE_ANY
    then show ?thesis using settled passed [where fs = "[]"] wt d by (simp add: notify_one_def)
  next
    case WAITER_TYPE_ITERATOR
    then show ?thesis using passed [where fs = "[Iterator_notified w]"] wt d by (simp add: notify_one_def tg_effect_def)
  qed (use passed [where fs = "[]"] wt d in \<open>simp_all add: notify_one_def\<close>)
qed

lemma notify_waiters_index:
  "length (tg_waiter_events (notify_waiters key outcome g)) \<le> tg_waiter_notify_index (notify_waiters key outcome g)"
proof (induction key outcome g rule: notify_waiters.induct)
  case (1 key outcome g)
  then show ?case by (cases "tg_waiter_notify_index g < length (tg_waiter_events g)") (simp_all add: notify_waiters.simps [of key outcome g])
qed

lemma notify_waiters_accounted:
  assumes d: "distinct (map fst (tg_waiter_events g))" and i: "tg_waiter_notify_index g = 0"
    and h_def: "h = notify_waiters key outcome g"
  shows "mset (tg_waiter_events h) = filter_mset (\<lambda>x. \<not> served outcome x) (mset (tg_waiter_events g))"
    "\<exists>es. tg_log h = tg_log g @ es \<and> (\<forall>w r. Waiter_settled w r \<in> set es \<longleftrightarrow>
       r = outcome_settlement outcome \<and> (\<exists>t. (w, t) \<in> set (tg_waiter_events g) \<and> served outcome (w, t)))"
proof -
  let ?P = "\<lambda>k. visited outcome k \<and> accounted outcome (mset (tg_waiter_events g)) (tg_log g) k \<and>
    distinct (map fst (tg_waiter_events k))"
  have "?P h" unfolding h_def
  proof (rule notify_waiters_keeps [where P = ?P])
    show "?P g" using d i by (simp add: visited_def accounted_def)
    show "?P (notify_one key outcome k)" if "?P k" "tg_waiter_notify_index k < length (tg_waiter_events k)" for k
      using notify_one_accounted [of k outcome _ _ key] that by blast
  qed
  moreover have "length (tg_waiter_events h) \<le> tg_waiter_notify_index h" unfolding h_def by (rule notify_waiters_index)
  ultimately have rest: "\<forall>x \<in> set (tg_waiter_events h). \<not> served outcome x" by (simp add: visited_def)
  obtain es gone where a: "tg_log h = tg_log g @ es" "mset (tg_waiter_events g) = mset (tg_waiter_events h) + gone"
      "\<forall>x \<in># gone. served outcome x"
      "\<forall>w r. Waiter_settled w r \<in> set es \<longleftrightarrow> r = outcome_settlement outcome \<and> w \<in> fst ` set_mset gone"
    using \<open>?P h\<close> unfolding accounted_def by blast
  have "filter_mset (\<lambda>x. \<not> served outcome x) gone = filter_mset (\<lambda>_. False) gone"
    using a(3) by (intro filter_mset_cong) auto
  then have "filter_mset (\<lambda>x. \<not> served outcome x) gone = {#}" by simp
  moreover have "filter_mset (\<lambda>x. \<not> served outcome x) (mset (tg_waiter_events h)) = mset (tg_waiter_events h)"
    using rest by (simp add: filter_mset_eq_conv)
  ultimately show "mset (tg_waiter_events h) = filter_mset (\<lambda>x. \<not> served outcome x) (mset (tg_waiter_events g))"
    unfolding a(2) by simp
  have "set (tg_waiter_events g) = set (tg_waiter_events h) \<union> set_mset gone"
    using a(2) by (metis set_mset_mset set_mset_union)
  then have "w \<in> fst ` set_mset gone \<longleftrightarrow> (\<exists>t. (w, t) \<in> set (tg_waiter_events g) \<and> served outcome (w, t))" for w
    using rest a(3) by force
  then show "\<exists>es. tg_log h = tg_log g @ es \<and> (\<forall>w r. Waiter_settled w r \<in> set es \<longleftrightarrow>
       r = outcome_settlement outcome \<and> (\<exists>t. (w, t) \<in> set (tg_waiter_events g) \<and> served outcome (w, t)))"
    using a(1,4) by auto
qed

lemma drain_positions_waiters:
  "drain_positions env is w g = (w', g') \<Longrightarrow> tg_waiter_events g' = tg_waiter_events g \<and> tg_log g' = tg_log g"
proof (induction "is" arbitrary: w g)
  case (Cons i "is")
  have spawn: "tg_waiter_events g1 = tg_waiter_events g \<and> tg_log g1 = tg_log g"
    if "task_group_spawn_coroutine env key (Some i) w g = (w1, g1, threw)" for key w1 g1 threw
    using that by (auto simp: task_group_spawn_coroutine_def Let_def split: prod.splits option.splits bool.splits)
  show ?case using Cons spawn by (auto split: if_splits prod.splits)
qed simp

lemma drain_waiters:
  "task_group_drain env w g = (w', g') \<Longrightarrow> tg_waiter_events g' = tg_waiter_events g \<and> tg_log g' = tg_log g"
  using drain_positions_waiters [of env _ w g w' g'] by (auto simp: task_group_drain_def split: if_splits)

lemma try_complete_unsettled:
  "group_inv d g \<Longrightarrow> \<not> group_settled g \<Longrightarrow> task_group_try_complete env w g = (w, g)"
  using settled_iff [of d g]
  by (auto simp: task_group_try_complete_def group_settled_def task_group_all_settled_def group_inv_def)

lemma settled_calm: "calm g h \<Longrightarrow> group_settled h = group_settled g"
  by (simp add: calm_def group_settled_def task_group_all_settled_def has_pending_iff)

text \<open>The group when the outcome of a task was recorded, the queue drained and the waiters told.\<close>

lemma complete_stages:
  assumes inv: "group_inv 0 g" and c: "(c, key) \<in> set (tg_callbacks g)"
    and r: "task_group_on_coroutine_complete env c key outcome w g = (w', g')"
  obtains w1 g1 h where "task_group_drain env w (task_ended c key outcome g) = (w1, g1)" "group_inv 1 g1"
    "tg_waiter_events g1 = tg_waiter_events g" "tg_log g1 = tg_log g" "settled_key key g1"
    "h = notify_waiters key outcome (g1\<lparr>tg_waiter_notify_index := 0\<rparr>)" "group_inv 1 h"
    "task_group_try_complete env w1 h = (w', g'\<lparr>tg_refcount := tg_refcount (snd (task_group_try_complete env w1 h))\<rparr>)"
    "g' = (snd (task_group_try_complete env w1 h))\<lparr>tg_refcount := tg_refcount (snd (task_group_try_complete env w1 h)) - 1\<rparr>"
    "calm g1 h"
proof -
  note e = task_ended_inv [OF inv c, of outcome]
  have b: "books 0 g" using inv by (simp add: group_inv_def)
  have te: "tg_waiter_events (task_ended c key outcome g) = tg_waiter_events g" "tg_log (task_ended c key outcome g) = tg_log g"
    by (rule task_ended_tasks [OF b c, of outcome], simp)+
  obtain w1 g1 where dr: "task_group_drain env w (task_ended c key outcome g) = (w1, g1)" by fastforce
  have ei: "group_inv 1 (task_ended c key outcome g)" "\<not> tg_completed (task_ended c key outcome g)"
    "settled_key key (task_ended c key outcome g)" using e by auto
  have g1: "group_inv 1 g1" "drained (task_ended c key outcome g) g1" using drain_inv [OF ei(1,2) dr] by auto
  have sk: "settled_key key g1" using settled_key_drained [OF ei(3) g1(2)] .
  define h where "h = notify_waiters key outcome (g1\<lparr>tg_waiter_notify_index := 0\<rparr>)"
  have sk': "settled_key key (g1\<lparr>tg_waiter_notify_index := 0\<rparr>)"
    using sk settled_key_cong [of "g1\<lparr>tg_waiter_notify_index := 0\<rparr>" g1] by simp
  note n = notify_waiters_inv [OF group_inv_index [OF g1(1), of 0] sk', of outcome]
  have "calm g1 (g1\<lparr>tg_waiter_notify_index := 0\<rparr>)" by (simp add: calm_def)
  moreover have "calm (g1\<lparr>tg_waiter_notify_index := 0\<rparr>) h" using n by (auto simp: h_def intro: calm_frame)
  ultimately have "calm g1 h" by (rule calm_trans)
  moreover have "g' = (snd (task_group_try_complete env w1 h))\<lparr>tg_refcount := tg_refcount (snd (task_group_try_complete env w1 h)) - 1\<rparr>"
    and "w' = fst (task_group_try_complete env w1 h)"
    using r by (auto simp: on_coroutine_complete_eq dr h_def case_prod_unfold)
  ultimately show ?thesis
    using that [OF dr g1(1) _ _ sk h_def] n drain_waiters [OF dr] te by (auto simp: h_def prod_eq_iff)
qed

subsection \<open>The last task\<close>

lemma complete_waiters_log: "\<exists>es. tg_log (complete_waiters b i g) = tg_log g @ es"
proof (rule complete_waiters_keeps [where P = "\<lambda>h. \<exists>es. tg_log h = tg_log g @ es"])
  fix h :: "'a task_group" and w t b
  assume "\<exists>es. tg_log h = tg_log g @ es"
  moreover have "\<exists>r. tg_log (settle_all b w h) = tg_log h @ [Waiter_settled w r]"
    by (simp add: settle_all_def)
  ultimately show "\<exists>es. tg_log (settle_all b w h) = tg_log g @ es" by auto
qed (auto simp: tg_effect_def)

lemma complete_all_half:
  assumes "distinct (map fst (tg_waiter_events g))" "\<forall>x \<in> set (tg_waiter_events g). snd x = WAITER_TYPE_ALL"
    "i \<le> length (tg_waiter_events g)"
  shows "length (tg_waiter_events (complete_waiters b i g)) = i + (length (tg_waiter_events g) - i) div 2"
  using assms
proof (induction b i g rule: complete_waiters.induct)
  case (1 b i g)
  show ?case
  proof (cases "i < length (tg_waiter_events g)")
    case True
    obtain w t where wt: "tg_waiter_events g ! i = (w, t)" by fastforce
    then have mem: "(w, t) \<in> set (tg_waiter_events g)" using True nth_mem by metis
    then have t: "t = WAITER_TYPE_ALL" using 1(7) by auto
    let ?h = "settle_all b w g"
    have m: "mset (tg_waiter_events g) = add_mset (w, t) (mset (tg_waiter_events ?h))"
      using waiter_event_remove_mset [of "task_set_remove_all_entries (settle w (if b
          then Rejected_composite (task_group_collect_composite_exception g)
          else Resolved_all (task_group_collect_results g)) g)" w t] 1(6) mem
      by (simp add: settle_all_def)
    have len: "length (tg_waiter_events g) = Suc (length (tg_waiter_events ?h))" using m by (metis size_add_mset size_mset)
    have "mset (map fst (tg_waiter_events g)) = mset (w # map fst (tg_waiter_events ?h))"
      using m by (metis fst_conv image_mset_add_mset mset.simps(2) mset_map)
    then have d: "distinct (map fst (tg_waiter_events ?h))" using 1(6) mset_eq_imp_distinct_iff by fastforce
    have "set (tg_waiter_events ?h) \<subseteq> set (tg_waiter_events g)"
      using m by (metis set_mset_add_mset_insert set_mset_mset subset_insertI)
    then have a: "\<forall>x \<in> set (tg_waiter_events ?h). snd x = WAITER_TYPE_ALL" using 1(7) by auto
    show ?thesis
    proof (cases "Suc i \<le> length (tg_waiter_events ?h)")
      case le: True
      have "length (tg_waiter_events (complete_waiters b (i + 1) ?h)) = i + 1 + (length (tg_waiter_events ?h) - (i + 1)) div 2"
        using 1(3) [OF True wt [symmetric] t d a] le by simp
      moreover have "length (tg_waiter_events g) - i = (length (tg_waiter_events ?h) - (i + 1)) + 2" using len le by simp
      ultimately show ?thesis using complete_waiters_step [OF True wt, of b] t by simp
    next
      case False
      then have "length (tg_waiter_events ?h) = i" using len True by simp
      then show ?thesis using complete_waiters_step [OF True wt, of b] t complete_waiters_end [of ?h "i + 1" b] len by simp
    qed
  qed (use 1 in \<open>simp add: complete_waiters_end\<close>)
qed

lemma npending_0_iff: "npending ts = 0 \<longleftrightarrow> (\<forall>x \<in> set ts. \<not> task_is_pending (snd x))"
  by (simp add: npending_def filter_empty_conv)

lemma drain_nothing:
  assumes "npending (tg_tasks g) = 0"
  shows "task_group_drain env w g = (w, g)"
proof -
  have "drain_positions env is w g = (w, g)" if "\<forall>i \<in> set is. i < length (tg_tasks g)" for "is"
    using that
  proof (induction "is")
    case (Cons i "is")
    then have "\<not> task_is_pending (snd (tg_tasks g ! i))" using assms by (simp add: npending_0_iff)
    then show ?case using Cons by (cases "tg_tasks g ! i") simp
  qed simp
  then show ?thesis by (simp add: task_group_drain_def)
qed

lemma start_finally_waiters [simp]:
  "tg_waiter_events (snd (start_finally_handlers env w g)) = tg_waiter_events g"
  by (auto simp: start_finally_handlers_def tg_effect_def Let_def split: option.splits list.splits prod.splits bool.splits)

lemma start_finally_log: "\<exists>es. tg_log (snd (start_finally_handlers env w g)) = tg_log g @ es"
  by (auto simp: start_finally_handlers_def tg_effect_def Let_def split: option.splits list.splits prod.splits bool.splits)

text \<open>When the last task ends, the group is completed right after the waiters were told.\<close>

lemma last_task_stages:
  assumes inv: "group_inv 0 g" and last: "tg_callbacks g = [(c, key)]" "npending (tg_tasks g) = 0"
    and r: "task_group_on_coroutine_complete env c key outcome w g = (w', g')"
  obtains h where "h = notify_waiters key outcome ((task_ended c key outcome g)\<lparr>tg_waiter_notify_index := 0\<rparr>)"
    "group_inv 1 h" "tg_waiter_events g' = tg_waiter_events (complete_waiters (task_group_has_errors h) 0 h)"
    "\<exists>es. tg_log g' = tg_log (complete_waiters (task_group_has_errors h) 0 h) @ es" "group_settled g'"
proof -
  have c: "(c, key) \<in> set (tg_callbacks g)" using last by simp
  have b: "books 0 g" using inv by (simp add: group_inv_def)
  obtain w1 g1 h where st: "task_group_drain env w (task_ended c key outcome g) = (w1, g1)"
    "h = notify_waiters key outcome (g1\<lparr>tg_waiter_notify_index := 0\<rparr>)" "group_inv 1 h"
    "g' = (snd (task_group_try_complete env w1 h))\<lparr>tg_refcount := tg_refcount (snd (task_group_try_complete env w1 h)) - 1\<rparr>"
    "calm g1 h"
    by (rule complete_stages [OF inv c r]) blast
  have n0: "npending (tg_tasks (task_ended c key outcome g)) = 0" using task_ended_npending [OF b c] last(2) by simp
  have g1: "g1 = task_ended c key outcome g" using st(1) drain_nothing [OF n0, of env w] by simp
  have cb: "tg_callbacks (task_ended c key outcome g) = []"
    by (rule task_ended_tasks [OF b c, of outcome]) (simp add: last)
  have be: "books 1 (task_ended c key outcome g)" using task_ended_books [OF b c] by simp
  have sh: "group_settled h"
    using settled_calm [OF st(5)] group_settled_iff [OF be] n0 cb g1 by simp
  then have ns: "\<not> (0 <s tg_active_coroutines h \<or> task_group_has_pending h)"
    using settled_iff [of 1 h] st(3) by (auto simp: group_settled_def task_group_all_settled_def group_inv_def)
  define k where "k = complete_waiters (task_group_has_errors h) 0 h"
  have ev: "tg_waiter_events g' = tg_waiter_events k"
    using ns by (simp add: st(4) task_group_try_complete_def Let_def k_def tg_effect_def)
  obtain es where es: "tg_log g' = tg_log k @ es"
    using ns start_finally_log [of env w1 "(tg_effect Group_notified (if tg_sealed k then k\<lparr>tg_completed := True\<rparr> else k))\<lparr>tg_event_closed := True\<rparr>"]
    by (auto simp: st(4) task_group_try_complete_def Let_def k_def [symmetric] tg_effect_def split: if_splits)
  have "calm h (snd (task_group_try_complete env w1 h))" by (rule calm_try_complete [OF st(3)])
  then have "calm h g'" by (simp add: st(4) calm_def)
  then have "group_settled g'" using settled_calm sh by blast
  then show ?thesis using that [OF _ st(3)] st(2) g1 ev es unfolding k_def by blast
qed

end
