(* ===== verification/Task_Group_Waiters.thy ===== *)
theory Task_Group_Waiters
  imports Task_Group_Futures
begin

text \<open>
  No future of a group is forgotten: once made, it is among the waiters or settled, until its
  own object is dropped.  Every loop and method that takes a waiter out of the vector has
  settled it first.
\<close>

definition tracked :: "nat \<Rightarrow> 'v task_group \<Rightarrow> bool" where
  "tracked f g \<longleftrightarrow> f \<in> fst ` set (tg_waiter_events g) \<union> set (settled_ids (tg_log g))"

lemma tracked_cong: "tg_waiter_events h = tg_waiter_events g \<Longrightarrow> tg_log h = tg_log g \<Longrightarrow> tracked f h = tracked f g"
  by (simp add: tracked_def)

lemma tracked_extend:
  "tracked f g \<Longrightarrow> tg_waiter_events h = tg_waiter_events g \<Longrightarrow> tg_log h = tg_log g @ es \<Longrightarrow> tracked f h"
  by (auto simp: tracked_def)

lemma tracked_frame [simp]:
  "tracked f (g\<lparr>tg_waiter_notify_index := i\<rparr>) = tracked f g" "tracked f (g\<lparr>tg_refcount := n\<rparr>) = tracked f g"
  "tracked f (g\<lparr>tg_completed := b\<rparr>) = tracked f g" "tracked f (g\<lparr>tg_event_closed := b\<rparr>) = tracked f g"
  "tracked f (g\<lparr>tg_sealed := b\<rparr>) = tracked f g" "tracked f (g\<lparr>tg_exception_handled := b\<rparr>) = tracked f g"
  "tracked f (g\<lparr>tg_finally_handlers := hs\<rparr>) = tracked f g" "tracked f (g\<lparr>tg_next_key := k\<rparr>) = tracked f g"
  "tracked f (g\<lparr>tg_slot_waiters := sws\<rparr>) = tracked f g" "tracked f (g\<lparr>tg_next_id := m\<rparr>) = tracked f g"
  "tracked f (task_group_fire_all_slot_waiters g) = tracked f g"
  by (simp_all add: tracked_def task_group_fire_all_slot_waiters_def)

lemma set_remove_log [simp]:
  "tg_log (task_set_remove_entry k g) = tg_log g" "tg_log (task_set_remove_all_entries g) = tg_log g"
  by (simp_all add: task_set_remove_entry_def task_set_remove_all_entries_def)

lemma tracked_set_remove [simp]:
  "tracked f (task_set_remove_entry k g) = tracked f g" "tracked f (task_set_remove_all_entries g) = tracked f g"
  by (simp_all add: tracked_def)

lemma tracked_effect: "tracked f g \<Longrightarrow> tracked f (tg_effect e g)"
  by (auto simp: tracked_def tg_effect_def)

text \<open>Taking a waiter out of the vector keeps every other one.\<close>

lemma tracked_remove:
  assumes "tracked f g" and "f = w \<Longrightarrow> w \<in> set (settled_ids (tg_log g))"
  shows "tracked f (task_group_waiter_event_remove w g)"
proof (cases "vector_index (map fst (tg_waiter_events g)) w")
  case None
  with assms(1) show ?thesis by (simp add: tracked_def task_group_waiter_event_remove_def)
next
  case (Some i)
  from vector_index_Some [OF this] have i: "i < length (tg_waiter_events g)" "fst (tg_waiter_events g ! i) = w" by auto
  have "x \<in> set (vector_remove (tg_waiter_events g) i)" if "x \<in> set (tg_waiter_events g)" "fst x \<noteq> w" for x
  proof -
    have "x \<noteq> tg_waiter_events g ! i" using that(2) i(2) by auto
    then have "x \<in># mset (tg_waiter_events g) - {#tg_waiter_events g ! i#}"
      using that(1) in_diff_count by (metis count_single in_multiset_in_set count_greater_zero_iff)
    then show ?thesis using vector_remove_mset [OF i(1)] by (metis set_mset_mset)
  qed
  then show ?thesis
    using assms Some by (auto simp: tracked_def task_group_waiter_event_remove_def)
qed

text \<open>Settling a waiter and then taking it out; every caller does both.\<close>

lemma tracked_settle_remove:
  assumes "tracked f g" and "tg_waiter_events h = tg_waiter_events g" "tg_log h = tg_log g @ [Waiter_settled w r]"
  shows "tracked f (task_group_waiter_event_remove w h)"
  using assms by (intro tracked_remove) (auto simp: tracked_def)

lemma tracked_settle_all: "tracked f g \<Longrightarrow> tracked f (settle_all b w g)"
  unfolding settle_all_def by (rule tracked_settle_remove [of f g]) (simp_all add: settle_def tg_effect_def)

lemma tracked_settle_entry:
  "tracked f g \<Longrightarrow> tracked f (task_group_waiter_event_remove w (task_set_remove_entry k (settle w r g)))"
  "tracked f g \<Longrightarrow> tracked f (task_group_waiter_event_remove w (settle w r g))"
  by (rule tracked_settle_remove [of f g]; simp add: settle_def tg_effect_def)+

lemma tracked_complete_waiters: "tracked f g \<Longrightarrow> tracked f (complete_waiters b i g)"
proof (induction b i g rule: complete_waiters.induct)
  case (1 b i g)
  show ?case
  proof (cases "i < length (tg_waiter_events g)")
    case True
    obtain w t where wt: "tg_waiter_events g ! i = (w, t)" by fastforce
    show ?thesis
      using 1 True wt complete_waiters.simps [of b i g]
      by (cases t) (simp_all add: tracked_settle_all tracked_settle_entry tracked_effect)
  next
    case False
    with 1 show ?thesis by (simp add: complete_waiters.simps [of b i g])
  qed
qed

lemma tracked_notify_waiters: "tracked f g \<Longrightarrow> tracked f (notify_waiters key outcome g)"
proof (induction key outcome g rule: notify_waiters.induct)
  case (1 key outcome g)
  have "tracked f (notify_one key outcome g)"
    using 1(2) by (auto simp: notify_one_def tracked_settle_entry tracked_effect split: prod.split waiter_type.split)
  then show ?case using 1 by (simp add: notify_waiters.simps [of key outcome g])
qed

lemma tracked_try_complete: "tracked f g \<Longrightarrow> tracked f (snd (task_group_try_complete env w g))"
proof -
  assume g: "tracked f g"
  have fin: "tracked f (snd (start_finally_handlers env w h))" if "tracked f h" for h
    using start_finally_log [of env w h] tracked_extend [OF that] by fastforce
  show ?thesis
    using g by (auto simp: task_group_try_complete_def Let_def
        intro!: fin tracked_effect tracked_complete_waiters)
qed

lemma tracked_spawn_coroutine:
  "task_group_spawn_coroutine env key pos w g = (w', g', threw) \<Longrightarrow> tracked f g' = tracked f g"
  by (rule tracked_cong)
    (auto simp: task_group_spawn_coroutine_def tasks_add_new_def Let_def split: prod.splits option.splits bool.splits if_splits)

lemma tracked_spawn:
  "do_spawn_enter env key fcall w g = (w', g', r) \<Longrightarrow> tracked f g' = tracked f g"
  "task_group_do_spawn env key fcall w g = (w', g', r) \<Longrightarrow> tracked f g' = tracked f g"
proof -
  have q: "tracked f ((tasks_add_new env key e g)\<lparr>tg_pending_count := n\<rparr>) = tracked f g" for e n
    by (simp add: tracked_def tasks_add_new_def)
  show enter: "do_spawn_enter env key fcall w g = (w', g', r) \<Longrightarrow> tracked f g' = tracked f g"
    using q by (auto simp: do_spawn_enter_def dest: tracked_spawn_coroutine split: if_splits prod.splits)
  show "task_group_do_spawn env key fcall w g = (w', g', r) \<Longrightarrow> tracked f g' = tracked f g"
    using enter by (auto simp: task_group_do_spawn_def split: if_splits)
qed

text \<open>A new waiter is in the vector, and the old ones stay there.\<close>

lemma tracked_new:
  assumes "task_group_waiter_future_new t g = (h, w)"
  shows "tracked w h" "tracked f g \<Longrightarrow> tracked f h"
  using assms by (auto simp: task_group_waiter_future_new_def task_group_waiter_add_to_vector_def tracked_def Let_def)

lemma tracked_all:
  assumes "group_all b g = (h, w)"
  shows "tracked w h" "tracked f g \<Longrightarrow> tracked f h"
proof -
  let ?t = "if b then WAITER_TYPE_ALL_IGNORE_ERRORS else WAITER_TYPE_ALL"
  obtain k x where k: "task_group_waiter_future_new ?t g = (k, x)" by force
  then have "w = x" "h = k \<or> h = settle_all (\<not> b \<and> task_group_has_errors k) x k"
    using assms by (auto simp: group_all_def split: if_splits)
  then show "tracked w h" "tracked f g \<Longrightarrow> tracked f h"
    using tracked_new [OF k] tracked_settle_all by blast+
qed

lemma tracked_race:
  assumes "group_race g = (h, r)"
  shows "r = Inr w \<Longrightarrow> tracked w h" "tracked f g \<Longrightarrow> tracked f h"
proof -
  obtain k x where k: "task_group_waiter_future_new WAITER_TYPE_RACE g = (k, x)" by force
  then have "h = g \<and> (\<exists>e. r = Inl e) \<or> r = Inr x
      \<and> (h = k \<or> (\<exists>key s. h = task_group_waiter_event_remove x (task_set_remove_entry key (settle x s k))))"
    using assms by (auto simp: group_race_def split: if_splits option.splits)
  then show "r = Inr w \<Longrightarrow> tracked w h" "tracked f g \<Longrightarrow> tracked f h"
    using tracked_new [OF k] tracked_settle_entry(1) by blast+
qed

lemma tracked_any:
  assumes "group_any g = (h, r)"
  shows "r = Inr w \<Longrightarrow> tracked w h" "tracked f g \<Longrightarrow> tracked f h"
proof -
  obtain k x where k: "task_group_waiter_future_new WAITER_TYPE_ANY g = (k, x)" by force
  then have "h = g \<and> (\<exists>e. r = Inl e) \<or> r = Inr x
      \<and> (h = k \<or> (\<exists>key s. h = task_group_waiter_event_remove x (task_set_remove_entry key (settle x s k)))
         \<or> (\<exists>s. h = task_group_waiter_event_remove x (settle x s k)))"
    using assms by (auto simp: group_any_def split: if_splits option.splits)
  then show "r = Inr w \<Longrightarrow> tracked w h" "tracked f g \<Longrightarrow> tracked f h"
    using tracked_new [OF k] tracked_settle_entry by blast+
qed

lemma tracked_iterator_retry: "tracked f g \<Longrightarrow> tracked f (fst (iterator_retry b g it))"
  using tracked_new(2) [of WAITER_TYPE_ITERATOR g]
  by (auto simp: iterator_retry_def Let_def task_group_waiter_iterator_new_def split: option.split prod.split)

subsection \<open>Every step\<close>

text \<open>The two steps that drop a waiter: its object is freed, or its iterator resumes.\<close>

definition drops :: "nat \<Rightarrow> 'w \<times> 'v task_group \<Rightarrow> 'w \<times> 'v task_group \<Rightarrow> bool" where
  "drops f s s' \<longleftrightarrow> snd s' = waiter_future_dispose f (snd s)
     \<or> (\<exists>threw it it' r. iterator_resume f threw (snd s) it = (snd s', it', r))"

lemma tracked_complete:
  assumes "task_group_on_coroutine_complete env c key outcome w g = (w', g')" and "tracked f g"
  shows "tracked f g'"
proof -
  obtain w1 g1 where d: "task_group_drain env w (task_ended c key outcome g) = (w1, g1)" by force
  have "\<exists>es. tg_log (task_ended c key outcome g) = tg_log g @ es" "tg_waiter_events (task_ended c key outcome g) = tg_waiter_events g"
    by (auto simp: task_ended_def record_outcome_def tg_effect_def Let_def split: option.split task_entry.split sum.split)
  then have "tracked f (task_ended c key outcome g)" using tracked_extend [OF assms(2)] by blast
  then have "tracked f g1" using drain_waiters [OF d] tracked_cong by blast
  then have "tracked f (snd (task_group_try_complete env w1 (notify_waiters key outcome (g1\<lparr>tg_waiter_notify_index := 0\<rparr>))))"
    by (intro tracked_try_complete tracked_notify_waiters) simp
  then show ?thesis using assms(1) d by (auto simp: on_coroutine_complete_eq split: prod.splits)
qed

lemma tracked_step:
  assumes "group_step env s s'" and "tracked f (snd s)" and "\<not> drops f s s'"
  shows "tracked f (snd s')"
  using assms
proof (induction s s' rule: group_step.induct)
  case (Group_spawn g fcall w w' g' r)
  then show ?case using tracked_spawn(2) by (fastforce simp: group_spawn_def)
next
  case (Group_spawnWithKey g key fcall w w' g' r)
  then show ?case using tracked_spawn(2) by (fastforce simp: group_spawnWithKey_def)
next
  case (Group_resume g sw threw w w' g' r)
  then show ?case
    by (fastforce simp: do_spawn_resume_def Let_def dest: tracked_spawn(1) split: if_splits)
next
  case (Group_complete c key g outcome w w' g')
  then show ?case using tracked_complete by (metis snd_conv)
next
  case (Group_all ignore_errors g g' r w)
  then show ?case using tracked_all(2) by (metis snd_conv)
next
  case (Group_race g g' r w)
  then show ?case using tracked_race(2) by (metis snd_conv)
next
  case (Group_any g g' r w)
  then show ?case using tracked_any(2) by (metis snd_conv)
next
  case (Group_cancel cancellation w g w' g')
  then have "g' = g \<or> g' = snd (task_group_try_complete env
      (dispose_or_cancel env (case cancellation of Some x \<Rightarrow> x | None \<Rightarrow> task_group_cancelled)
        (task_group_fire_all_slot_waiters (g\<lparr>tg_sealed := True, tg_exception_handled := True\<rparr>)) w)
      (task_group_fire_all_slot_waiters (g\<lparr>tg_sealed := True, tg_exception_handled := True\<rparr>)))"
    by (auto simp: group_cancel_def Let_def split: if_splits)
  then show ?case using Group_cancel(2) by (auto intro!: tracked_try_complete)
next
  case (Group_close w g w' g')
  then have "g' = g \<or> g' = snd (task_group_try_complete env w (task_group_fire_all_slot_waiters (g\<lparr>tg_sealed := True\<rparr>)))"
    by (auto simp: group_close_def split: if_splits)
  then show ?case using Group_close(2) by (auto intro!: tracked_try_complete)
next
  case (Group_finally w g callback)
  then show ?case by (simp add: group_finally_def tracked_effect)
next
  case (Group_dispose_waiter w g waiter)
  then have "waiter \<noteq> f" by (auto simp: drops_def)
  then show ?case using Group_dispose_waiter(1) by (simp add: waiter_future_dispose_def tracked_remove)
next
  case (Group_move_forward in_coroutine g it g' it' r w)
  then show ?case using tracked_iterator_retry [of f g in_coroutine it] by (simp add: task_group_iterator_move_forward_def)
next
  case (Group_iterator_resume waiter threw g it g' it' r w)
  then have "waiter \<noteq> f" by (auto simp: drops_def)
  then have k: "tracked f (waiter_iterator_dispose waiter g)"
    using Group_iterator_resume(2) by (simp add: waiter_iterator_dispose_def tracked_remove)
  then show ?case
    using Group_iterator_resume(1) tracked_iterator_retry [OF k, of True it]
    by (auto simp: iterator_resume_def Let_def split: if_splits)
qed (auto simp: group_getErrors_def group_suppressErrors_def group_dispose_def task_group_finally_handlers_dtor_def
    task_group_get_iterator_def split: if_splits)

lemma tracked_run:
  assumes "(\<lambda>s s'. group_step env s s' \<and> \<not> drops f s s')\<^sup>*\<^sup>* s s'" and "tracked f (snd s)"
  shows "tracked f (snd s')"
  using assms by (induction rule: rtranclp_induct) (auto intro: tracked_step)

end
