(* ===== verification/Task_Group_Properties.thy ===== *)
theory Task_Group_Properties
  imports Task_Group_Runtime Task_Group_Waiters
begin

text \<open>
  What task groups promise: their books, the settling of futures, progress of queued tasks and
  of coroutines waiting in \<^verbatim>\<open>spawn()\<close>, iteration, and situations in which a promise is broken.
\<close>

subsection \<open>A group on a small runtime\<close>

text \<open>Groups of values that are numbers, on a runtime with one scope.\<close>

definition demo_group_env :: "(runtime, nat) group_env" where
  "demo_group_env = runtime_group_env demo_core demo_env None None (\<lambda>_ rt. rt) (\<lambda>ts _ _. ts)"

definition demo_group :: "int \<Rightarrow> int \<Rightarrow> runtime \<times> nat task_group" where
  "demo_group concurrency queue_limit = projr (task_group_construct demo_group_env concurrency (Some queue_limit)
     (Some (Some 0)) (fst (async_new_scope None True empty_runtime)) task_group_create_object)"

definition demo_spawn :: "nat \<Rightarrow> runtime \<times> nat task_group \<Rightarrow> runtime \<times> nat task_group" where
  "demo_spawn fcall s = (case group_spawn demo_group_env fcall (fst s) (snd s) of (w, g, r) \<Rightarrow> (w, g))"

definition demo_end :: "nat \<Rightarrow> int \<Rightarrow> nat option + throwable \<Rightarrow> runtime \<times> nat task_group \<Rightarrow> runtime \<times> nat task_group" where
  "demo_end c key outcome s = task_group_on_coroutine_complete demo_group_env c (Key_Long key) outcome (fst s) (snd s)"

definition demo_resume :: "runtime \<times> nat task_group \<Rightarrow> runtime \<times> nat task_group" where
  "demo_resume s = (case do_spawn_resume demo_group_env (hd (tg_slot_waiters (snd s))) False (fst s) (snd s) of
     (w, g, r) \<Rightarrow> (w, g))"

definition demo_all :: "runtime \<times> nat task_group \<Rightarrow> runtime \<times> nat task_group" where
  "demo_all s = (fst s, fst (group_all False (snd s)))"

abbreviation demo_open :: "runtime \<Rightarrow> bool" where
  "demo_open \<equiv> takes_coroutines None 0"

lemma demo_spawn_step: "has_room (snd s) \<Longrightarrow> group_step demo_group_env s (demo_spawn fcall s)"
  by (cases s) (auto simp: demo_spawn_def split: prod.splits intro: Group_spawn)

lemma demo_end_step: "(c, Key_Long key) \<in> set (tg_callbacks (snd s)) \<Longrightarrow> group_step demo_group_env s (demo_end c key outcome s)"
  using Group_complete [of c "Key_Long key" "snd s" demo_group_env outcome "fst s" "fst (demo_end c key outcome s)" "snd (demo_end c key outcome s)"]
  by (simp add: demo_end_def)

lemma demo_all_step: "group_step demo_group_env s (demo_all s)"
  using Group_all [of False "snd s" "fst (group_all False (snd s))" "snd (group_all False (snd s))" demo_group_env "fst s"]
  by (simp add: demo_all_def)

lemma demo_resume_step:
  assumes "tg_slot_waiters (snd s) = sw # sws" "sw_fired sw" "has_room (snd s)" "sw_key sw \<notin> fst ` set (tg_tasks (snd s))"
  shows "group_step demo_group_env s (demo_resume s)"
  using assms Group_resume [of "snd s" sw False demo_group_env "fst s"]
  by (cases s) (auto simp: demo_resume_def split: prod.splits)

lemma demo_group_start: "group_start demo_group_env (demo_group 1 1)"
  unfolding group_start_def
proof (intro disjI1 exI conjI)
  show "task_group_construct demo_group_env 1 (Some 1) (Some (Some 0)) (fst (async_new_scope None True empty_runtime))
      task_group_create_object = Inr (demo_group 1 1)"
    by (simp add: demo_group_def task_group_construct_def UINT32_MAX_def attach_scope_def)
qed simp

text \<open>One task runs, one is queued, and two coroutines wait for a place in the queue.\<close>

definition demo_parked_one :: "runtime \<times> nat task_group" where
  "demo_parked_one = demo_spawn 3 (demo_spawn 2 (demo_spawn 1 (demo_group 1 1)))"

definition demo_parked_two :: "runtime \<times> nat task_group" where
  "demo_parked_two = demo_spawn 4 demo_parked_one"

definition demo_stranded :: "runtime \<times> nat task_group" where
  "demo_stranded = demo_end 2 2 (Inl None) (demo_resume (demo_end 1 1 (Inl None) (demo_end 0 0 (Inl None) demo_parked_two)))"

definition open_at :: "nat \<Rightarrow> runtime \<Rightarrow> bool" where
  "open_at s rt = (case rt_scopes rt s of None \<Rightarrow> False | Some x \<Rightarrow> \<not> sc_closed x)"

lemma demo_open_iff: "takes_coroutines None s rt = open_at s rt"
  by (simp add: takes_coroutines_def open_at_def split: option.split)

lemma demo_worlds_open:
  "open_at 0 (fst (demo_group 1 1))" "open_at 0 (fst (demo_spawn 1 (demo_group 1 1)))"
  "open_at 0 (fst (demo_spawn 2 (demo_spawn 1 (demo_group 1 1))))" "open_at 0 (fst demo_parked_one)"
  "open_at 0 (fst demo_parked_two)" "open_at 0 (fst (demo_end 0 0 (Inl None) demo_parked_two))"
  "open_at 0 (fst (demo_end 1 1 (Inl None) (demo_end 0 0 (Inl None) demo_parked_two)))"
  "open_at 0 (fst (demo_resume (demo_end 1 1 (Inl None) (demo_end 0 0 (Inl None) demo_parked_two))))"
  "open_at 0 (fst demo_stranded)"
  by code_simp+

lemma has_roomI: "length (tg_tasks g) \<le> 10 \<Longrightarrow> has_room g"
  by (simp add: has_room_def)

lemma demo_rooms:
  "has_room (snd (demo_group 1 1))" "has_room (snd (demo_spawn 1 (demo_group 1 1)))"
  "has_room (snd (demo_spawn 2 (demo_spawn 1 (demo_group 1 1))))" "has_room (snd demo_parked_one)"
  "has_room (snd (demo_end 1 1 (Inl None) (demo_end 0 0 (Inl None) demo_parked_two)))"
  by (rule has_roomI, code_simp)+

lemma demo_parked_one_run: "(solo_step demo_group_env demo_open)\<^sup>*\<^sup>* (demo_group 1 1) demo_parked_one"
proof -
  have "length (tg_slot_waiters (snd (demo_spawn 1 (demo_group 1 1)))) \<le> 1"
    "length (tg_slot_waiters (snd (demo_spawn 2 (demo_spawn 1 (demo_group 1 1))))) \<le> 1"
    "length (tg_slot_waiters (snd demo_parked_one)) \<le> 1" by code_simp+
  then have "solo_step demo_group_env demo_open (demo_group 1 1) (demo_spawn 1 (demo_group 1 1))"
    "solo_step demo_group_env demo_open (demo_spawn 1 (demo_group 1 1)) (demo_spawn 2 (demo_spawn 1 (demo_group 1 1)))"
    "solo_step demo_group_env demo_open (demo_spawn 2 (demo_spawn 1 (demo_group 1 1))) demo_parked_one"
    using demo_rooms demo_worlds_open
    by (simp_all add: solo_step_def open_step_def demo_open_iff demo_spawn_step demo_parked_one_def)
  then show ?thesis by (meson converse_rtranclp_into_rtranclp rtranclp.rtrancl_refl)
qed

lemma demo_parked_one_open: "(open_step demo_group_env demo_open)\<^sup>*\<^sup>* (demo_group 1 1) demo_parked_one"
  using demo_parked_one_run by (rule rtranclp_mono [THEN predicate2D, rotated]) (auto simp: solo_step_def)

lemma demo_stranded_run: "(open_step demo_group_env demo_open)\<^sup>*\<^sup>* (demo_group 1 1) demo_stranded"
proof -
  let ?a = "demo_end 0 0 (Inl None) demo_parked_two"
  let ?b = "demo_end 1 1 (Inl None) ?a"
  have cb: "(0, Key_Long 0) \<in> set (tg_callbacks (snd demo_parked_two))" "(1, Key_Long 1) \<in> set (tg_callbacks (snd ?a))"
    "(2, Key_Long 2) \<in> set (tg_callbacks (snd (demo_resume ?b)))" by code_simp+
  have sw: "sw_fired (hd (tg_slot_waiters (snd ?b)))" "tg_slot_waiters (snd ?b) \<noteq> []"
    "sw_key (hd (tg_slot_waiters (snd ?b))) \<notin> fst ` set (tg_tasks (snd ?b))" by code_simp+
  have "group_step demo_group_env demo_parked_one demo_parked_two"
    unfolding demo_parked_two_def by (rule demo_spawn_step [OF demo_rooms(4)])
  moreover have "group_step demo_group_env demo_parked_two ?a" by (rule demo_end_step [OF cb(1)])
  moreover have "group_step demo_group_env ?a ?b" by (rule demo_end_step [OF cb(2)])
  moreover have "group_step demo_group_env ?b (demo_resume ?b)"
    by (rule demo_resume_step [of _ "hd (tg_slot_waiters (snd ?b))" "tl (tg_slot_waiters (snd ?b))"])
      (use sw demo_rooms(5) in simp_all)
  moreover have "group_step demo_group_env (demo_resume ?b) demo_stranded"
    unfolding demo_stranded_def by (rule demo_end_step [OF cb(3)])
  ultimately have "open_step demo_group_env demo_open demo_parked_one demo_parked_two"
    "open_step demo_group_env demo_open demo_parked_two ?a" "open_step demo_group_env demo_open ?a ?b"
    "open_step demo_group_env demo_open ?b (demo_resume ?b)" "open_step demo_group_env demo_open (demo_resume ?b) demo_stranded"
    using demo_worlds_open by (simp_all add: open_step_def demo_open_iff)
  then show ?thesis using demo_parked_one_open by (meson rtranclp.rtrancl_into_rtrancl)
qed

lemma open_run_reachable:
  assumes "group_start env s0" "(open_step env good)\<^sup>*\<^sup>* s0 s"
  shows "group_reachable env s"
  using assms(2)
proof (induction rule: rtranclp_induct)
  case base
  show ?case using assms(1) unfolding group_reachable_def by blast
next
  case (step y z)
  then show ?case using group_reachable_step [of env y z] by (simp add: open_step_def)
qed

subsection \<open>The books\<close>

text \<open>
  C22.  In every reachable state of a task group or task set the keys are distinct, every running
  entry has exactly one callback, \<^verbatim>\<open>active_coroutines\<close> and \<^verbatim>\<open>pending_count\<close> are exact, at most
  \<^verbatim>\<open>concurrency\<close> tasks run, at most \<^verbatim>\<open>queue_limit\<close> tasks are queued, running tasks hold the group, and
  a completed group is closed with nothing left to run.
\<close>

theorem task_group_accounting:
  assumes "group_reachable env (w, g)"
  shows "distinct (map fst (tg_tasks g)) \<and>
    mset (tg_callbacks g) = mset (running_of (tg_tasks g)) \<and>
    sint (tg_active_coroutines g) = int (length (running_of (tg_tasks g))) \<and>
    unat (tg_pending_count g) = npending (tg_tasks g) \<and>
    (tg_concurrency g \<noteq> 0 \<longrightarrow> length (running_of (tg_tasks g)) \<le> unat (tg_concurrency g)) \<and>
    (tg_queue_limit g \<noteq> 0 \<longrightarrow> npending (tg_tasks g) \<le> unat (tg_queue_limit g)) \<and>
    length (running_of (tg_tasks g)) \<le> tg_refcount g \<and>
    (tg_completed g \<longrightarrow> tg_sealed g \<and> running_of (tg_tasks g) = [] \<and> npending (tg_tasks g) = 0)"
proof -
  have inv: "group_inv 0 g" using group_reachable_inv [OF assms] .
  then have b: "books 0 g" and dn: "done_inv g" by (simp_all add: group_inv_def)
  then have len: "length (running_of (tg_tasks g)) = length (tg_callbacks g)" by (metis books_def size_mset)
  have "sint (tg_concurrency g) \<le> int (unat (tg_concurrency g))"
    using sint_uint [of "tg_concurrency g"] uint_ge_0 [of "tg_concurrency g"]
    by (simp add: signed_take_bit_int_less_eq_self_iff order.trans [of "-2147483648" 0])
  moreover have "int (length (tg_callbacks g)) \<le> max 0 (sint (tg_concurrency g))" if "tg_concurrency g \<noteq> 0"
    using b that by (simp add: books_def)
  ultimately have "length (tg_callbacks g) \<le> unat (tg_concurrency g)" if "tg_concurrency g \<noteq> 0"
    using that by (metis max.bounded_iff max_def nat_int_comparison(3) of_nat_0_le_iff order_trans)
  moreover have "running_of (tg_tasks g) = []" if "tg_callbacks g = []" using len that by simp
  ultimately show ?thesis
    using b dn len sint_of_nat_small [of "length (tg_callbacks g)"] unat_of_nat32 [of "npending (tg_tasks g)"]
    by (simp add: books_def done_inv_def)
qed

lemma demo_parked_two_reachable: "group_reachable demo_group_env (fst demo_parked_two, snd demo_parked_two)"
proof -
  have "group_reachable demo_group_env demo_parked_one" by (rule open_run_reachable [OF demo_group_start demo_parked_one_open])
  then have "group_reachable demo_group_env demo_parked_two"
    unfolding demo_parked_two_def by (rule group_reachable_step [OF _ demo_spawn_step [OF demo_rooms(4)]])
  then show ?thesis by simp
qed

theorem task_group_accounting_witness:
  "length (running_of (tg_tasks (snd demo_parked_two))) = 1 \<and> npending (tg_tasks (snd demo_parked_two)) = 1 \<and>
   sint (tg_active_coroutines (snd demo_parked_two)) = 1 \<and> unat (tg_pending_count (snd demo_parked_two)) = 1"
proof -
  have "length (running_of (tg_tasks (snd demo_parked_two))) = 1" "npending (tg_tasks (snd demo_parked_two)) = 1" by code_simp+
  then show ?thesis using task_group_accounting [OF demo_parked_two_reachable] by simp
qed

text \<open>
  C23.  A future of a group is settled exactly once.  In every reachable state no future has been
  settled twice, and a settled one is no longer among the waiters.  A future that \<^verbatim>\<open>all()\<close>, \<^verbatim>\<open>race()\<close> or
  \<^verbatim>\<open>any()\<close> returns is among the waiters or settled at once, and as long as its object is not dropped (nor,
  for the waiter of an iterator, that iterator resumed) it stays so in every later state: it is never
  taken out of the waiters without having been settled.  No operation of a reachable group reads an
  entry through the wrong member of its union or follows a null scope.
\<close>

theorem group_futures_settled_once:
  assumes "group_reachable env (w, g)"
  shows "distinct (settled_ids (tg_log g)) \<and> distinct (map fst (tg_waiter_events g)) \<and>
    set (settled_ids (tg_log g)) \<inter> fst ` set (tg_waiter_events g) = {} \<and>
    (\<forall>s. Undefined_behaviour s \<notin> set (tg_log g)) \<and>
    (\<forall>b. case group_all b g of (h, f) \<Rightarrow> tracked f h) \<and>
    (case group_race g of (h, Inr f) \<Rightarrow> tracked f h | (h, Inl _) \<Rightarrow> True) \<and>
    (case group_any g of (h, Inr f) \<Rightarrow> tracked f h | (h, Inl _) \<Rightarrow> True) \<and>
    (\<forall>f w' h. tracked f g \<and> (\<lambda>s s'. group_step env s s' \<and> \<not> drops f s s')\<^sup>*\<^sup>* (w, g) (w', h) \<longrightarrow>
       f \<in> fst ` set (tg_waiter_events h) \<or> f \<in> set (settled_ids (tg_log h)))"
proof -
  have "distinct (settled_ids (tg_log g)) \<and> distinct (map fst (tg_waiter_events g)) \<and>
      set (settled_ids (tg_log g)) \<inter> fst ` set (tg_waiter_events g) = {} \<and> (\<forall>s. Undefined_behaviour s \<notin> set (tg_log g))"
    using group_reachable_inv [OF assms] by (auto simp: group_inv_def waiters_inv_def defined_def)
  moreover have "f \<in> fst ` set (tg_waiter_events h) \<or> f \<in> set (settled_ids (tg_log h))"
    if "tracked f g" "(\<lambda>s s'. group_step env s s' \<and> \<not> drops f s s')\<^sup>*\<^sup>* (w, g) (w', h)" for f w' h
    using tracked_run [OF that(2)] that(1) by (auto simp: tracked_def)
  moreover have "case group_all b g of (h, f) \<Rightarrow> tracked f h" for b using tracked_all(1) by (auto split: prod.split)
  moreover have "case group_race g of (h, Inr f) \<Rightarrow> tracked f h | (h, Inl _) \<Rightarrow> True"
    "case group_any g of (h, Inr f) \<Rightarrow> tracked f h | (h, Inl _) \<Rightarrow> True"
    using tracked_race(1) [OF _ refl] tracked_any(1) [OF _ refl] by (auto split: prod.split sum.split)
  ultimately show ?thesis by blast
qed

definition demo_two_futures :: "runtime \<times> nat task_group" where
  "demo_two_futures = demo_all (demo_all (demo_spawn 1 (demo_group 1 1)))"

lemma demo_two_futures_reachable: "group_reachable demo_group_env demo_two_futures"
proof -
  have "group_reachable demo_group_env (demo_group 1 1)"
    using demo_group_start unfolding group_reachable_def by blast
  then show ?thesis unfolding demo_two_futures_def
    by (intro group_reachable_step [OF _ demo_all_step] group_reachable_step [OF _ demo_spawn_step [OF demo_rooms(1)]])
qed

lemma demo_two_futures_end: "group_reachable demo_group_env (demo_end 0 0 (Inl None) demo_two_futures)"
proof (rule group_reachable_step [OF demo_two_futures_reachable demo_end_step])
  show "(0, Key_Long 0) \<in> set (tg_callbacks (snd demo_two_futures))" by code_simp
qed

theorem group_futures_settled_once_witness:
  "settled_ids (tg_log (snd (demo_end 0 0 (Inl None) demo_two_futures))) = [0] \<and>
   distinct (settled_ids (tg_log (snd (demo_end 0 0 (Inl None) demo_two_futures))))"
proof -
  have "settled_ids (tg_log (snd (demo_end 0 0 (Inl None) demo_two_futures))) = [0]" by code_simp
  moreover have r: "group_reachable demo_group_env (fst (demo_end 0 0 (Inl None) demo_two_futures), snd (demo_end 0 0 (Inl None) demo_two_futures))"
    using demo_two_futures_end by simp
  ultimately show ?thesis using group_futures_settled_once [OF r] by simp
qed

subsection \<open>Futures\<close>

text \<open>
  When a task ends and others are left, exactly the pending \<^verbatim>\<open>race()\<close> futures and, after a success,
  the pending \<^verbatim>\<open>any()\<close> futures are settled, each with the outcome of the task; every other waiter
  stays.
\<close>

theorem completion_settles_race_and_any:
  assumes "group_reachable env (w, g)" and "(c, key) \<in> set (tg_callbacks g)"
    and "task_group_on_coroutine_complete env c key outcome w g = (w', g')" and "\<not> group_settled g'"
  shows "mset (tg_waiter_events g') = filter_mset (\<lambda>x. \<not> served outcome x) (mset (tg_waiter_events g)) \<and>
    (\<exists>es. tg_log g' = tg_log g @ es \<and> (\<forall>f r. Waiter_settled f r \<in> set es \<longleftrightarrow>
      r = outcome_settlement outcome \<and> (\<exists>t. (f, t) \<in> set (tg_waiter_events g) \<and> served outcome (f, t))))"
proof -
  have inv: "group_inv 0 g" using group_reachable_inv [OF assms(1)] .
  obtain w1 g1 h where st: "tg_waiter_events g1 = tg_waiter_events g" "tg_log g1 = tg_log g"
    "h = notify_waiters key outcome (g1\<lparr>tg_waiter_notify_index := 0\<rparr>)" "group_inv 1 h" "group_inv 1 g1"
    "g' = (snd (task_group_try_complete env w1 h))\<lparr>tg_refcount := tg_refcount (snd (task_group_try_complete env w1 h)) - 1\<rparr>"
    by (rule complete_stages [OF inv assms(2,3)]) blast
  have "calm h (snd (task_group_try_complete env w1 h))" by (rule calm_try_complete [OF st(4)])
  then have "calm h g'" by (simp add: st(6) calm_def)
  then have "\<not> group_settled h" using settled_calm assms(4) by blast
  then have g': "g' = h\<lparr>tg_refcount := tg_refcount h - 1\<rparr>"
    using try_complete_unsettled [OF st(4), of env w1] by (simp add: st(6))
  have "distinct (map fst (tg_waiter_events (g1\<lparr>tg_waiter_notify_index := 0\<rparr>)))"
    using st(5) by (simp add: group_inv_def waiters_inv_def)
  note n = notify_waiters_accounted [OF this _ st(3)]
  show ?thesis using n st(1,2) by (simp add: g')
qed

definition demo_race :: "runtime \<times> nat task_group" where
  "demo_race = (let s = demo_spawn 2 (demo_spawn 1 (demo_group 1 1)) in (fst s, fst (group_race (snd (demo_all s)))))"

lemma demo_race_reachable: "group_reachable demo_group_env demo_race"
proof -
  let ?s = "demo_spawn 2 (demo_spawn 1 (demo_group 1 1))"
  have "group_reachable demo_group_env (demo_group 1 1)" using demo_group_start unfolding group_reachable_def by blast
  then have "group_reachable demo_group_env (demo_all ?s)"
    by (intro group_reachable_step [OF _ demo_all_step] group_reachable_step [OF _ demo_spawn_step] demo_rooms)
  moreover have "group_step demo_group_env (demo_all ?s) demo_race"
    using Group_race [of "snd (demo_all ?s)" "fst (group_race (snd (demo_all ?s)))" _ demo_group_env "fst ?s"]
    by (simp add: demo_race_def Let_def demo_all_def prod_eq_iff)
  ultimately show ?thesis by (rule group_reachable_step)
qed

theorem completion_settles_race_and_any_witness:
  "tg_waiter_events (snd demo_race) = [(0, WAITER_TYPE_ALL), (1, WAITER_TYPE_RACE)] \<and>
   mset (tg_waiter_events (snd (demo_end 0 0 (Inl (Some 7)) demo_race))) = {#(0, WAITER_TYPE_ALL)#}"
proof -
  have ev: "tg_waiter_events (snd demo_race) = [(0, WAITER_TYPE_ALL), (1, WAITER_TYPE_RACE)]"
    and c: "(0, Key_Long 0) \<in> set (tg_callbacks (snd demo_race))"
    and ns: "\<not> group_settled (snd (demo_end 0 0 (Inl (Some 7)) demo_race))" by code_simp+
  have r: "group_reachable demo_group_env (fst demo_race, snd demo_race)" using demo_race_reachable by simp
  have e: "task_group_on_coroutine_complete demo_group_env 0 (Key_Long 0) (Inl (Some 7)) (fst demo_race) (snd demo_race) =
      (fst (demo_end 0 0 (Inl (Some 7)) demo_race), snd (demo_end 0 0 (Inl (Some 7)) demo_race))"
    by (simp add: demo_end_def)
  show ?thesis using completion_settles_race_and_any [OF r c e ns] ev by simp
qed

lemma notify_waiters_end: "length (tg_waiter_events g) \<le> tg_waiter_notify_index g \<Longrightarrow> notify_waiters key outcome g = g"
  by (simp add: notify_waiters.simps)

text \<open>The table when the task with the given key has ended.\<close>

definition with_outcome :: "task_key \<Rightarrow> 'v option + throwable \<Rightarrow> (task_key \<times> 'v task_entry) list \<Rightarrow> (task_key \<times> 'v task_entry) list" where
  "with_outcome key outcome ts = map (\<lambda>(k, e). if k = key then (k, outcome_entry outcome) else (k, e)) ts"

lemma update_with_outcome:
  assumes "distinct (map fst ts)" "i < length ts" "fst (ts ! i) = key"
  shows "ts[i := (key, outcome_entry outcome)] = with_outcome key outcome ts"
proof (rule nth_equalityI)
  fix j
  assume j: "j < length (ts[i := (key, outcome_entry outcome)])"
  have "fst (ts ! j) \<noteq> key" if "j \<noteq> i"
    using assms j that by (metis length_list_update length_map nth_eq_iff_index_eq nth_map)
  then show "ts[i := (key, outcome_entry outcome)] ! j = with_outcome key outcome ts ! j"
    using assms j by (cases "j = i") (auto simp: with_outcome_def case_prod_unfold prod_eq_iff)
qed (simp add: with_outcome_def)

lemma task_ended_table:
  assumes "books d g" "(c, key) \<in> set (tg_callbacks g)"
  shows "tg_tasks (task_ended c key outcome g) = with_outcome key outcome (tg_tasks g)"
  by (rule task_ended_tasks [OF assms, of outcome])
    (use assms(1) update_with_outcome [of "tg_tasks g"] in \<open>simp add: books_def\<close>)

text \<open>
  C25.  A lone \<^verbatim>\<open>all()\<close> future is settled when the last task ends: with the results of all tasks in the
  order of spawning, or, if any task failed, with all errors in that order.
\<close>

theorem lone_all_future_gets_everything:
  assumes "group_reachable env (w, g)" and "tg_callbacks g = [(c, key)]" and "npending (tg_tasks g) = 0"
    and "tg_waiter_events g = [(f, WAITER_TYPE_ALL)]"
    and "task_group_on_coroutine_complete env c key outcome w g = (w', g')"
  shows "tg_waiter_events g' = [] \<and>
    Waiter_settled f
      (let ts = with_outcome key outcome (tg_tasks g) in
       if list_ex (\<lambda>(k, e). task_is_error e) ts then Rejected_composite (map snd (task_errors ts))
       else Resolved_all (task_results ts)) \<in> set (tg_log g')"
proof -
  have inv: "group_inv 0 g" using group_reachable_inv [OF assms(1)] .
  have b: "books 0 g" using inv by (simp add: group_inv_def)
  have c: "(c, key) \<in> set (tg_callbacks g)" using assms(2) by simp
  let ?e = "(task_ended c key outcome g)\<lparr>tg_waiter_notify_index := 0\<rparr>"
  have ev: "tg_waiter_events ?e = [(f, WAITER_TYPE_ALL)]"
    by (rule task_ended_tasks [OF b c, of outcome]) (simp add: assms(4))
  have ts: "tg_tasks ?e = with_outcome key outcome (tg_tasks g)" using task_ended_table [OF b c] by simp
  obtain h where st: "h = notify_waiters key outcome ?e"
    "tg_waiter_events g' = tg_waiter_events (complete_waiters (task_group_has_errors h) 0 h)"
    "\<exists>es. tg_log g' = tg_log (complete_waiters (task_group_has_errors h) 0 h) @ es"
    by (rule last_task_stages [OF inv assms(2,3,5)]) blast
  have h: "h = ?e\<lparr>tg_waiter_notify_index := 1\<rparr>"
    using ev by (simp add: st(1) notify_waiters.simps [of key outcome ?e] notify_waiters_end notify_one_def)
  let ?k = "settle_all (task_group_has_errors h) f h"
  have "tg_waiter_events ?k = []" using ev by (simp add: settle_all_def task_group_waiter_event_remove_def vector_remove_def h)
  then have k: "complete_waiters (task_group_has_errors h) 0 h = ?k"
    using complete_waiters_step [of 0 h f WAITER_TYPE_ALL "task_group_has_errors h"] complete_waiters_end [of ?k 1] ev
    by (simp add: h)
  have "tg_log ?k = tg_log h @ [Waiter_settled f (if task_group_has_errors h
      then Rejected_composite (task_group_collect_composite_exception h) else Resolved_all (task_group_collect_results h))]"
    by (simp add: settle_all_def)
  moreover have "tg_tasks h = with_outcome key outcome (tg_tasks g)" using ts by (simp add: h)
  ultimately show ?thesis
    using st(2,3) k \<open>tg_waiter_events ?k = []\<close>
    by (auto simp: Let_def task_group_has_errors_def task_group_collect_composite_exception_def task_group_collect_results_def)
qed

definition demo_one_future :: "runtime \<times> nat task_group" where
  "demo_one_future = demo_all (demo_spawn 1 (demo_group 1 1))"

lemma demo_one_future_reachable: "group_reachable demo_group_env (fst demo_one_future, snd demo_one_future)"
proof -
  have "group_reachable demo_group_env (demo_group 1 1)"
    using demo_group_start unfolding group_reachable_def by blast
  then have "group_reachable demo_group_env demo_one_future" unfolding demo_one_future_def
    by (intro group_reachable_step [OF _ demo_all_step] group_reachable_step [OF _ demo_spawn_step [OF demo_rooms(1)]])
  then show ?thesis by simp
qed

theorem lone_all_future_gets_everything_witness:
  "Waiter_settled 0 (Resolved_all [(Key_Long 0, Some 7)]) \<in> set (tg_log (snd (demo_end 0 0 (Inl (Some 7)) demo_one_future)))"
proof -
  have f: "tg_callbacks (snd demo_one_future) = [(0, Key_Long 0)]" "npending (tg_tasks (snd demo_one_future)) = 0"
    "tg_waiter_events (snd demo_one_future) = [(0, WAITER_TYPE_ALL)]"
    "tg_tasks (snd demo_one_future) = [(Key_Long 0, Task_Running 0)]" by code_simp+
  have "task_group_on_coroutine_complete demo_group_env 0 (Key_Long 0) (Inl (Some 7)) (fst demo_one_future) (snd demo_one_future) =
      (fst (demo_end 0 0 (Inl (Some 7)) demo_one_future), snd (demo_end 0 0 (Inl (Some 7)) demo_one_future))"
    by (simp add: demo_end_def)
  from lone_all_future_gets_everything [OF demo_one_future_reachable f(1-3) this] show ?thesis
    by (simp add: f(4) with_outcome_def)
qed

text \<open>
  When the last task ends while several \<^verbatim>\<open>all()\<close> futures are pending, the loop over them skips every
  second one: half of them, rounded down, stay pending although the group is settled.
\<close>

theorem half_of_all_futures_left:
  assumes "group_reachable env (w, g)" and "tg_callbacks g = [(c, key)]" and "npending (tg_tasks g) = 0"
    and "\<forall>x \<in> set (tg_waiter_events g). snd x = WAITER_TYPE_ALL"
    and "task_group_on_coroutine_complete env c key outcome w g = (w', g')"
  shows "length (tg_waiter_events g') = length (tg_waiter_events g) div 2 \<and> group_isFinished g'"
proof -
  have inv: "group_inv 0 g" using group_reachable_inv [OF assms(1)] .
  have b: "books 0 g" using inv by (simp add: group_inv_def)
  have c: "(c, key) \<in> set (tg_callbacks g)" using assms(2) by simp
  let ?e = "(task_ended c key outcome g)\<lparr>tg_waiter_notify_index := 0\<rparr>"
  have ev: "tg_waiter_events ?e = tg_waiter_events g" by (rule task_ended_tasks [OF b c, of outcome]) simp
  obtain h where st: "h = notify_waiters key outcome ?e" "group_inv 1 h"
    "tg_waiter_events g' = tg_waiter_events (complete_waiters (task_group_has_errors h) 0 h)" "group_settled g'"
    by (rule last_task_stages [OF inv assms(2,3,5)]) blast
  have d: "distinct (map fst (tg_waiter_events ?e))" using inv ev by (simp add: group_inv_def waiters_inv_def)
  have "\<not> served outcome x" if "x \<in> set (tg_waiter_events g)" for x
    using assms(4) that by (cases x) auto
  then have "filter_mset (\<lambda>x. \<not> served outcome x) (mset (tg_waiter_events g)) = mset (tg_waiter_events g)"
    by (simp add: filter_mset_eq_conv)
  then have m: "mset (tg_waiter_events h) = mset (tg_waiter_events g)"
    using notify_waiters_accounted(1) [OF d _ st(1)] ev by simp
  then have "length (tg_waiter_events h) = length (tg_waiter_events g)" by (rule mset_eq_length)
  moreover have "\<forall>x \<in> set (tg_waiter_events h). snd x = WAITER_TYPE_ALL" using assms(4) mset_eq_setD [OF m] by simp
  moreover have "distinct (map fst (tg_waiter_events h))" using st(2) by (simp add: group_inv_def waiters_inv_def)
  ultimately show ?thesis
    using complete_all_half [of h 0 "task_group_has_errors h"] st(3,4) by (simp add: group_isFinished_def)
qed

theorem half_of_all_futures_left_witness:
  "length (tg_waiter_events (snd (demo_end 0 0 (Inl None) demo_two_futures))) = 1 \<and>
   group_isFinished (snd (demo_end 0 0 (Inl None) demo_two_futures))"
proof -
  have f: "tg_callbacks (snd demo_two_futures) = [(0, Key_Long 0)]" "npending (tg_tasks (snd demo_two_futures)) = 0"
    "tg_waiter_events (snd demo_two_futures) = [(0, WAITER_TYPE_ALL), (1, WAITER_TYPE_ALL)]" by code_simp+
  have r: "group_reachable demo_group_env (fst demo_two_futures, snd demo_two_futures)" using demo_two_futures_reachable by simp
  have e: "task_group_on_coroutine_complete demo_group_env 0 (Key_Long 0) (Inl None) (fst demo_two_futures) (snd demo_two_futures) =
      (fst (demo_end 0 0 (Inl None) demo_two_futures), snd (demo_end 0 0 (Inl None) demo_two_futures))"
    by (simp add: demo_end_def)
  have "\<forall>x \<in> set (tg_waiter_events (snd demo_two_futures)). snd x = WAITER_TYPE_ALL" by (simp add: f(3))
  from half_of_all_futures_left [OF r f(1,2) this e] show ?thesis by (simp add: f(3))
qed

subsection \<open>Progress\<close>

text \<open>
  C24.  While the scope of a group takes coroutines, a task stays in the queue only while all slots are
  in use.
\<close>

theorem queued_tasks_wait_only_when_busy:
  assumes "group_start (runtime_group_env core env current sched release dup) s0" and "tg_scope (snd s0) = Some s"
    and "(open_step (runtime_group_env core env current sched release dup) (takes_coroutines sched s))\<^sup>*\<^sup>* s0 (rt, g)"
    and "task_group_has_pending g"
  shows "\<not> task_group_has_slot g"
  using runtime_group.open_runs.run_good [OF _ assms(3)] assms(1,2,4)
  by (simp add: runtime_group.making_progress_def busy_def has_pending_iff)

theorem queued_tasks_wait_only_when_busy_witness:
  "task_group_has_pending (snd demo_parked_one) \<and> \<not> task_group_has_slot (snd demo_parked_one)"
proof -
  have p: "task_group_has_pending (snd demo_parked_one)" "tg_scope (snd (demo_group 1 1)) = Some 0" by code_simp+
  have "(open_step demo_group_env demo_open)\<^sup>*\<^sup>* (demo_group 1 1) (fst demo_parked_one, snd demo_parked_one)"
    using demo_parked_one_open by simp
  from queued_tasks_wait_only_when_busy [OF demo_group_start [unfolded demo_group_env_def] p(2) this [unfolded demo_group_env_def] p(1)]
  show ?thesis using p(1) by simp
qed

text \<open>
  As long as at most one coroutine at a time waits in \<^verbatim>\<open>spawn()\<close> and the scope takes coroutines, the
  waiting one is not forgotten: if its trigger has not fired, some task is running, and whichever
  task ends next fires it.
\<close>

theorem single_spawner_is_woken:
  assumes "group_start (runtime_group_env core env current sched release dup) s0" and "tg_scope (snd s0) = Some s"
    and "(solo_step (runtime_group_env core env current sched release dup) (takes_coroutines sched s))\<^sup>*\<^sup>* s0 (rt, g)"
    and "takes_coroutines sched s rt" and "tg_slot_waiters g = [sw]" and "\<not> sw_fired sw" and "0 <s tg_concurrency g"
  shows "tg_callbacks g \<noteq> [] \<and>
    (\<forall>c key outcome. (c, key) \<in> set (tg_callbacks g) \<longrightarrow>
       (\<exists>sw'. tg_slot_waiters (snd (task_group_on_coroutine_complete
            (runtime_group_env core env current sched release dup) c key outcome rt g)) = [sw'] \<and>
          sw_fired sw' \<and> sw_trigger sw' = sw_trigger sw))"
proof -
  let ?E = "runtime_group_env core env current sched release dup"
  have mp: "group_inv 0 g" "tg_scope g = Some s" "solo g"
    using runtime_group.solo_runs.run_good [OF _ assms(3)] assms(1,2) by (simp_all add: runtime_group.making_progress_def)
  then have b: "books 0 g" by (simp add: group_inv_def)
  have full: "\<not> task_group_has_slot g" "task_group_queue_is_full g" using mp(3) assms(5,6) by (simp_all add: solo_def)
  then have "sint (tg_concurrency g) \<le> int (length (tg_callbacks g))" using has_slot_iff [OF b] by simp
  then have "tg_callbacks g \<noteq> []" using assms(7) by (auto simp: word_sless_alt)
  moreover have "\<exists>sw'. tg_slot_waiters (snd (task_group_on_coroutine_complete ?E c key outcome rt g)) = [sw'] \<and>
      sw_fired sw' \<and> sw_trigger sw' = sw_trigger sw"
    if c: "(c, key) \<in> set (tg_callbacks g)" for c key outcome
  proof -
    obtain w' g' where r: "task_group_on_coroutine_complete ?E c key outcome rt g = (w', g')" by fastforce
    note p = runtime_group.complete_progress(3,4) [OF mp(1) c assms(4) mp(2) r]
    have "map sw_trigger (tg_slot_waiters g') = [sw_trigger sw]" using p(1) assms(5) by (simp add: woken_def)
    then obtain sw' where "tg_slot_waiters g' = [sw']" "sw_trigger sw' = sw_trigger sw" by auto
    moreover have "head_fired g'" using p(2) full(2) .
    ultimately show ?thesis using r by (simp add: head_fired_def)
  qed
  ultimately show ?thesis by blast
qed

theorem single_spawner_is_woken_witness:
  "map sw_fired (tg_slot_waiters (snd demo_parked_one)) = [False] \<and>
   (\<exists>sw'. tg_slot_waiters (snd (demo_end 0 0 (Inl None) demo_parked_one)) = [sw'] \<and> sw_fired sw')"
proof -
  have f: "map sw_fired (tg_slot_waiters (snd demo_parked_one)) = [False]" "tg_scope (snd (demo_group 1 1)) = Some 0"
    "0 <s tg_concurrency (snd demo_parked_one)" "(0, Key_Long 0) \<in> set (tg_callbacks (snd demo_parked_one))" by code_simp+
  obtain sw where sw: "tg_slot_waiters (snd demo_parked_one) = [sw]" "\<not> sw_fired sw" using f(1) by auto
  have r: "(solo_step demo_group_env demo_open)\<^sup>*\<^sup>* (demo_group 1 1) (fst demo_parked_one, snd demo_parked_one)"
    using demo_parked_one_run by simp
  have o: "takes_coroutines None 0 (fst demo_parked_one)" using demo_worlds_open(4) by (simp add: demo_open_iff)
  from single_spawner_is_woken [OF demo_group_start [unfolded demo_group_env_def] f(2) r [unfolded demo_group_env_def] o sw f(3)]
  have "\<exists>sw'. tg_slot_waiters (snd (demo_end 0 0 (Inl None) demo_parked_one)) = [sw'] \<and> sw_fired sw'"
    using f(4) unfolding demo_end_def demo_group_env_def by blast
  with f(1) show ?thesis by blast
qed

text \<open>
  With two coroutines waiting in \<^verbatim>\<open>spawn()\<close> a wake-up is lost.  There is a run, with the scope open
  throughout, after which no task runs and none is queued, the group counts as finished and is not
  closed, and a coroutine still waits for a place in the empty queue with its trigger not fired.
\<close>

theorem second_spawner_is_stranded:
  "group_start demo_group_env (demo_group 1 1) \<and>
   (open_step demo_group_env demo_open)\<^sup>*\<^sup>* (demo_group 1 1) demo_stranded \<and>
   tg_callbacks (snd demo_stranded) = [] \<and> group_isFinished (snd demo_stranded) \<and> \<not> tg_sealed (snd demo_stranded) \<and>
   task_group_has_slot (snd demo_stranded) \<and> \<not> task_group_queue_is_full (snd demo_stranded) \<and>
   map sw_fired (tg_slot_waiters (snd demo_stranded)) = [False]"
proof (intro conjI demo_group_start demo_stranded_run)
  show "tg_callbacks (snd demo_stranded) = []" by code_simp
  show "group_isFinished (snd demo_stranded)" by code_simp
  show "\<not> tg_sealed (snd demo_stranded)" by code_simp
  show "task_group_has_slot (snd demo_stranded)" by code_simp
  show "\<not> task_group_queue_is_full (snd demo_stranded)" by code_simp
  show "map sw_fired (tg_slot_waiters (snd demo_stranded)) = [False]" by code_simp
qed

text \<open>
  A concurrency of two to the 31 or more is accepted by the constructor and compared as a negative
  number: no task of such a group ever runs.
\<close>

lemma huge_concurrency_never_runs:
  assumes "group_reachable env (w, g)" and "2 ^ 31 \<le> unat (tg_concurrency g)"
  shows "tg_callbacks g = []"
proof -
  have "int (2 ^ 31) \<le> int (unat (tg_concurrency g))" using assms(2) by (rule of_nat_mono)
  then have "2 ^ 31 \<le> uint (tg_concurrency g)" by simp
  moreover have "uint (tg_concurrency g) < 2 * 2 ^ 31" using uint_lt2p [of "tg_concurrency g"] by simp
  ultimately have "uint (tg_concurrency g) div 2 ^ 31 = 1" by (intro int_div_pos_eq [where r = "uint (tg_concurrency g) - 2 ^ 31"]) simp_all
  then have "bit (uint (tg_concurrency g)) 31" by (simp add: bit_iff_odd)
  then have "sint (tg_concurrency g) < 0" by (simp add: sint_uint signed_take_bit_negative_iff)
  moreover have "tg_concurrency g \<noteq> 0" using assms(2) by auto
  ultimately show ?thesis using group_reachable_inv [OF assms(1)] by (simp add: group_inv_def books_def)
qed

subsection \<open>Cancelling\<close>

lemma open_spawn_keeps:
  assumes "group_inv 0 g" "(c, key) \<in> set (tg_callbacks g)" "0 < npending (tg_tasks g)" "tg_scope g = Some s"
    and "takes_coroutines sched s rt"
    and "task_group_on_coroutine_complete (runtime_group_env core env current sched release dup) c key outcome rt g = (rt', g')"
  shows "\<exists>k f c'. (k, Task_Pending f) \<in> set (tg_tasks g) \<and> (k, Task_Running c') \<in> set (tg_tasks g')"
proof -
  let ?E = "runtime_group_env core env current sched release dup"
  have b: "books 0 g" using assms(1) by (simp add: group_inv_def)
  obtain w1 g1 h where st: "task_group_drain ?E rt (task_ended c key outcome g) = (w1, g1)" "group_inv 1 g1" "settled_key key g1"
    "h = notify_waiters key outcome (g1\<lparr>tg_waiter_notify_index := 0\<rparr>)" "group_inv 1 h"
    "g' = (snd (task_group_try_complete ?E w1 h))\<lparr>tg_refcount := tg_refcount (snd (task_group_try_complete ?E w1 h)) - 1\<rparr>"
    by (rule complete_stages [OF assms(1,2,6)]) blast
  note e = task_ended_inv [OF assms(1,2), of outcome]
  have es: "tg_scope (task_ended c key outcome g) = Some s"
    by (rule task_ended_tasks [OF b assms(2), of outcome]) (simp add: assms(4))
  have "\<exists>k f c'. (k, Task_Pending f) \<in> set (tg_tasks (task_ended c key outcome g)) \<and> (c', k) \<in> set (running_of (tg_tasks g1))"
    using runtime_group.drain_good(5) [of 1 "task_ended c key outcome g" sched s rt core env current release dup w1 g1]
      e assms(3,5) es st(1) task_ended_slot [OF assms(1,2), of outcome] task_ended_npending [OF b assms(2), of outcome] by simp
  then obtain k f c' where k: "(k, Task_Pending f) \<in> set (tg_tasks (task_ended c key outcome g))"
      "(c', k) \<in> set (running_of (tg_tasks g1))" by blast
  have "(k, Task_Pending f) \<in> set (tg_tasks g)"
    using k(1) task_ended_table [OF b assms(2), of outcome] by (cases outcome) (auto simp: with_outcome_def split: if_splits)
  moreover have "same_tasks g1 h"
    using notify_waiters_inv [OF group_inv_index [OF st(2), of 0], of key outcome] st(3,4)
      settled_key_cong [of "g1\<lparr>tg_waiter_notify_index := 0\<rparr>" g1 key] by (simp add: same_tasks_def)
  then have run: "(c', k) \<in> set (running_of (tg_tasks h))" using k(2) by (simp add: same_tasks_def)
  then have "tg_callbacks h \<noteq> []" using st(5) by (auto simp: group_inv_def books_def)
  then have "\<not> group_settled h" using group_settled_iff [of 1 h] st(5) by (simp add: group_inv_def)
  then have "tg_tasks g' = tg_tasks h" using try_complete_unsettled [OF st(5), of ?E w1] st(6) by simp
  ultimately show ?thesis using run by (auto simp: running_of_iff)
qed

text \<open>
  \<^verbatim>\<open>cancel()\<close> leaves the queue as it is.  As cancelling does not close a scope in which coroutines
  still run, the end of a cancelled task starts a queued closure, although the documentation says
  that queued closures are never started.
\<close>

theorem cancelled_group_starts_queued_task:
  assumes "group_reachable (runtime_group_env core env current sched release dup) (rt, g)"
    and "\<not> tg_sealed g" and "(c, key) \<in> set (tg_callbacks g)" and "task_group_has_pending g" and "tg_scope g = Some s"
    and "group_cancel (runtime_group_env core env current sched release dup) cancellation rt g = (rt1, g1)"
    and "takes_coroutines sched s rt1"
    and "task_group_on_coroutine_complete (runtime_group_env core env current sched release dup) c key outcome rt1 g1 = (rt2, g2)"
  shows "tg_sealed g1 \<and> tg_tasks g1 = tg_tasks g \<and>
    (\<exists>k f c'. (k, Task_Pending f) \<in> set (tg_tasks g) \<and> (k, Task_Running c') \<in> set (tg_tasks g2))"
proof -
  let ?E = "runtime_group_env core env current sched release dup"
  have inv: "group_inv 0 g" using group_reachable_inv [OF assms(1)] .
  have g1: "g1 = task_group_fire_all_slot_waiters (g\<lparr>tg_sealed := True, tg_exception_handled := True\<rparr>)"
    using assms(2,4,6) by (auto simp: group_cancel_def Let_def task_group_try_complete_def task_group_has_pending_def
        task_group_fire_all_slot_waiters_def)
  have inv1: "group_inv 0 g1" unfolding g1 by (intro fire_all_inv group_inv_handled group_inv_seal inv)
  have f: "tg_sealed g1" "tg_tasks g1 = tg_tasks g" "tg_callbacks g1 = tg_callbacks g" "tg_scope g1 = tg_scope g"
    by (simp_all add: g1 task_group_fire_all_slot_waiters_def)
  have "\<exists>k f c'. (k, Task_Pending f) \<in> set (tg_tasks g1) \<and> (k, Task_Running c') \<in> set (tg_tasks g2)"
    by (rule open_spawn_keeps [OF inv1 _ _ _ assms(7,8)]) (use assms(3-5) f in \<open>simp_all add: has_pending_iff\<close>)
  then show ?thesis using f by simp
qed

definition demo_cancelled :: "runtime \<times> nat task_group" where
  "demo_cancelled = group_cancel demo_group_env None (fst demo_parked_one) (snd demo_parked_one)"

theorem cancelled_group_starts_queued_task_witness:
  "tg_sealed (snd demo_cancelled) \<and>
   (\<exists>k f c'. (k, Task_Pending f) \<in> set (tg_tasks (snd demo_parked_one)) \<and>
      (k, Task_Running c') \<in> set (tg_tasks (snd (demo_end 0 0 (Inr task_group_cancelled) demo_cancelled))))"
proof -
  have f: "\<not> tg_sealed (snd demo_parked_one)" "(0, Key_Long 0) \<in> set (tg_callbacks (snd demo_parked_one))"
    "task_group_has_pending (snd demo_parked_one)" "tg_scope (snd demo_parked_one) = Some 0"
    "open_at 0 (fst demo_cancelled)" by code_simp+
  have "group_reachable demo_group_env demo_parked_one" by (rule open_run_reachable [OF demo_group_start demo_parked_one_open])
  then have r: "group_reachable demo_group_env (fst demo_parked_one, snd demo_parked_one)" by simp
  have c: "group_cancel demo_group_env None (fst demo_parked_one) (snd demo_parked_one) = (fst demo_cancelled, snd demo_cancelled)"
    by (simp add: demo_cancelled_def)
  have o: "takes_coroutines None 0 (fst demo_cancelled)" using f(5) by (simp add: demo_open_iff)
  have e: "task_group_on_coroutine_complete demo_group_env 0 (Key_Long 0) (Inr task_group_cancelled) (fst demo_cancelled) (snd demo_cancelled) =
      (fst (demo_end 0 0 (Inr task_group_cancelled) demo_cancelled), snd (demo_end 0 0 (Inr task_group_cancelled) demo_cancelled))"
    by (simp add: demo_end_def)
  show ?thesis
    using cancelled_group_starts_queued_task [OF r [unfolded demo_group_env_def] f(1-4) c [unfolded demo_group_env_def] o
      e [unfolded demo_group_env_def]] by simp
qed

subsection \<open>Iteration\<close>

text \<open>A \<^verbatim>\<open>foreach\<close> loop of at most \<open>n\<close> turns: what it yields and the group it leaves.\<close>

primrec iterate_group :: "nat \<Rightarrow> bool \<Rightarrow> 'v task_group \<Rightarrow> 'v task_group_iterator \<Rightarrow>
    'v task_group \<times> (task_key \<times> ('v option + throwable)) list \<times> bool" where
  "iterate_group 0 b g it = (g, [], False)"
| "iterate_group (Suc n) b g it =
     (case task_group_iterator_move_forward b g it of (g, it, r) \<Rightarrow>
        if r = Iterator_stands \<and> it_valid it
        then (case iterate_group n b g it of (g, xs, ended) \<Rightarrow> (g, the (it_current it) # xs, ended))
        else (g, [], r = Iterator_stands))"

fun entry_outcome :: "task_key \<times> 'v task_entry \<Rightarrow> task_key \<times> ('v option + throwable)" where
  "entry_outcome (k, Task_Error x) = (k, Inr x)"
| "entry_outcome (k, Task_Result r) = (k, Inl r)"
| "entry_outcome (k, e) = (k, Inl None)"

lemma settled_entry:
  assumes "idle g" "x \<in> set (tg_tasks g)"
  shows "(\<exists>k e. x = (k, Task_Error e)) \<or> (\<exists>k r. x = (k, Task_Result r))"
proof -
  obtain k e where x: "x = (k, e)" by fastforce
  have "run_entry x = []" using assms by (auto simp: idle_def running_of_def)
  moreover have "\<not> task_is_pending e" using assms x by (auto simp: idle_def npending_0_iff)
  ultimately show ?thesis using x by (cases e) auto
qed

lemma settled_at_idle:
  assumes "idle g" "p < length (tg_tasks g)"
  shows "settled_at p g = Some (entry_outcome (tg_tasks g ! p))"
  using settled_entry [OF assms(1) nth_mem [OF assms(2)]] assms(2) by (auto simp: settled_at_def)

lemma fst_entry_outcome: "fst (entry_outcome x) = fst x"
  by (cases x rule: entry_outcome.cases) auto

lemma iterate_plain_group:
  assumes "idle g" "\<not> tg_task_set g" "tg_sealed g" "tg_active_coroutines g = 0" "length (tg_tasks g) - it_position it < n"
  shows "iterate_group n b g it = (g, map entry_outcome (drop (it_position it) (tg_tasks g)), True)"
  using assms(5)
proof (induction n arbitrary: it)
  case (Suc n)
  have np: "\<not> task_group_has_pending g" using assms(1) by (simp add: has_pending_iff idle_def)
  show ?case
  proof (cases "it_position it < length (tg_tasks g)")
    case True
    let ?x = "tg_tasks g ! it_position it"
    have "settled_at (it_position it) g = Some (fst (entry_outcome ?x), snd (entry_outcome ?x))"
      using settled_at_idle [OF assms(1) True] by simp
    then have m: "task_group_iterator_move_forward b g it =
        (g, (task_group_iterator_set_current (fst (entry_outcome ?x)) (snd (entry_outcome ?x)) it)\<lparr>it_valid := True\<rparr>, Iterator_stands)"
      using assms(2) by (simp add: task_group_iterator_move_forward_def iterator_retry_def Let_def case_prod_unfold)
    have "drop (it_position it) (tg_tasks g) = ?x # drop (Suc (it_position it)) (tg_tasks g)"
      using True by (simp add: Cons_nth_drop_Suc)
    then show ?thesis
      using m Suc.IH [of "(task_group_iterator_set_current (fst (entry_outcome ?x)) (snd (entry_outcome ?x)) it)\<lparr>it_valid := True\<rparr>"]
        Suc.prems True by (simp add: task_group_iterator_set_current_def)
  next
    case False
    then show ?thesis using assms np
      by (simp add: task_group_iterator_move_forward_def iterator_retry_def settled_at_def)
  qed
qed simp

lemma iterate_task_set:
  assumes "idle g" "tg_task_set g" "tg_sealed g" "tg_active_coroutines g = 0" "distinct (map fst (tg_tasks g))"
    "it_position it = 0" "length (tg_tasks g) < n"
  shows "iterate_group n b g it = (g\<lparr>tg_tasks := []\<rparr>, map entry_outcome (tg_tasks g), True)"
  using assms
proof (induction n arbitrary: g it)
  case (Suc n)
  have np: "\<not> task_group_has_pending g" using Suc.prems(1) by (simp add: has_pending_iff idle_def)
  show ?case
  proof (cases "tg_tasks g")
    case (Cons x xs)
    have s: "settled_at 0 g = Some (fst x, snd (entry_outcome x))"
      using settled_at_idle [OF Suc.prems(1), of 0] Cons by (simp add: prod_eq_iff fst_entry_outcome)
    have "filter (\<lambda>(k, e). k \<noteq> fst x) xs = xs"
      using Suc.prems(5) Cons by (auto simp: filter_id_conv image_iff)
    then have rm: "task_set_remove_entry (fst x) g = g\<lparr>tg_tasks := xs\<rparr>"
      using Cons Suc.prems(2) by (cases x) (simp add: task_set_remove_entry_def)
    have "idle (g\<lparr>tg_tasks := xs\<rparr>)" using Suc.prems(1) Cons by (simp add: idle_def)
    from Suc.IH [OF this, of "(task_group_iterator_set_current (fst x) (snd (entry_outcome x)) it)\<lparr>it_position := 0, it_valid := True\<rparr>"]
    have IH: "iterate_group n b (g\<lparr>tg_tasks := xs\<rparr>)
        ((task_group_iterator_set_current (fst x) (snd (entry_outcome x)) it)\<lparr>it_position := 0, it_valid := True\<rparr>) =
        (g\<lparr>tg_tasks := []\<rparr>, map entry_outcome xs, True)"
      using Suc.prems(2-7) Cons by simp
    obtain out where out: "entry_outcome x = (fst x, out)" using fst_entry_outcome [of x] by (metis prod.collapse)
    show ?thesis
      using s rm Suc.prems(2,6) Cons IH out
      by (simp add: task_group_iterator_move_forward_def iterator_retry_def Let_def task_group_iterator_set_current_def)
  next
    case Nil
    then show ?thesis using Suc.prems np
      by (simp add: task_group_iterator_move_forward_def iterator_retry_def settled_at_def)
  qed
qed simp

text \<open>
  C26.  A loop over a closed group or set whose tasks have all ended yields the outcome of every task
  once, in the order of spawning, and ends; a set is empty afterwards, a group is unchanged.
\<close>

theorem iteration_yields_everything_in_order:
  assumes "group_reachable env (w, g)" and "tg_sealed g" and "group_isFinished g"
    and "task_group_get_iterator False g = Some (g1, it)"
  shows "iterate_group (Suc (length (tg_tasks g))) b g1 it =
    (if tg_task_set g then g1\<lparr>tg_tasks := []\<rparr> else g1, map entry_outcome (tg_tasks g), True)"
proof -
  have inv: "group_inv 0 g" using group_reachable_inv [OF assms(1)] .
  have b: "books 0 g" using inv by (simp add: group_inv_def)
  have g1: "g1 = g\<lparr>tg_exception_handled := True\<rparr>" "it_position it = 0"
    using assms(4) by (auto simp: task_group_get_iterator_def)
  have i: "idle g1" using group_settled_idle [OF inv] assms(3) by (simp add: group_isFinished_def g1 idle_def)
  have a: "tg_active_coroutines g1 = 0" using assms(3) by (simp add: group_isFinished_def group_settled_def task_group_all_settled_def g1)
  show ?thesis
    using iterate_plain_group [OF i, of it "Suc (length (tg_tasks g))" b] iterate_task_set [OF i, of it "Suc (length (tg_tasks g))" b]
      a b g1 assms(2) by (simp add: books_def)
qed

definition demo_closed :: "runtime \<times> nat task_group" where
  "demo_closed = group_close demo_group_env (fst (demo_end 0 0 (Inl (Some 7)) demo_one_future)) (snd (demo_end 0 0 (Inl (Some 7)) demo_one_future))"

theorem iteration_yields_everything_in_order_witness:
  "fst (snd (iterate_group 2 True ((snd demo_closed)\<lparr>tg_exception_handled := True\<rparr>)
     \<lparr>it_current = None, it_position = 0, it_valid = True, it_started = False\<rparr>)) = [(Key_Long 0, Inl (Some 7))]"
proof -
  have f: "tg_sealed (snd demo_closed)" "group_isFinished (snd demo_closed)"
    "tg_tasks (snd demo_closed) = [(Key_Long 0, Task_Result (Some 7))]"
    "(0, Key_Long 0) \<in> set (tg_callbacks (snd demo_one_future))" by code_simp+
  have "group_reachable demo_group_env demo_one_future" using demo_one_future_reachable by simp
  then have "group_reachable demo_group_env (demo_end 0 0 (Inl (Some 7)) demo_one_future)"
    by (rule group_reachable_step) (rule demo_end_step [OF f(4)])
  then have "group_reachable demo_group_env demo_closed"
    by (rule group_reachable_step) (metis Group_close demo_closed_def prod.collapse)
  then have r: "group_reachable demo_group_env (fst demo_closed, snd demo_closed)" by simp
  have "task_group_get_iterator False (snd demo_closed) = Some ((snd demo_closed)\<lparr>tg_exception_handled := True\<rparr>,
      \<lparr>it_current = None, it_position = 0, it_valid = True, it_started = False\<rparr>)" by (simp add: task_group_get_iterator_def)
  from iteration_yields_everything_in_order [OF r f(1,2) this, of True] show ?thesis
    by (simp only: f(3) numeral_2_eq_2 length_Cons list.size) simp
qed

subsection \<open>Finally handlers\<close>

text \<open>
  The handlers run whenever the group is settled, also when it is still open for new tasks, and the
  scope is then held twice, by the coroutine with the handlers and by the group, of which only the
  first releases it.
\<close>

definition demo_finally :: "runtime \<times> nat task_group" where
  "demo_finally = (let s = demo_spawn 1 (demo_group 1 1) in demo_end 0 0 (Inl None) (fst s, group_finally 9 (snd s)))"

lemma finally_on_open_group:
  "\<not> tg_sealed (snd demo_finally) \<and> Finally_started [9] \<in> set (tg_log (snd demo_finally)) \<and>
   map_option sc_refcount (rt_scopes (fst (demo_group 1 1)) 0) = Some 2 \<and>
   map_option sc_refcount (rt_scopes (fst demo_finally) 0) = Some 4"
  by code_simp

text \<open>
  A coroutine that waited in \<^verbatim>\<open>spawnWithKey()\<close> adds its key without looking again: the key may have
  been taken while it waited, and the contract of the table is broken.
\<close>

definition demo_taken :: "runtime \<times> nat task_group" where
  "demo_taken =
     (let s = demo_spawn 2 (demo_spawn 1 (demo_group 1 1));
          s = (case group_spawnWithKey demo_group_env (Key_String ''a'') 3 (fst s) (snd s) of (w, g, r) \<Rightarrow> (w, g));
          s = demo_end 0 0 (Inl None) s
      in case group_spawnWithKey demo_group_env (Key_String ''a'') 4 (fst s) (snd s) of (w, g, r) \<Rightarrow> (w, g))"

lemma waiting_key_is_taken:
  "map (\<lambda>sw. (sw_fired sw, sw_key sw)) (tg_slot_waiters (snd demo_taken)) = [(True, Key_String ''a'')] \<and>
   Key_String ''a'' \<in> fst ` set (tg_tasks (snd demo_taken))"
  by code_simp

end
