(* ===== verification/Async_Iterator.thy ===== *)
theory Async_Iterator
  imports Runtime
begin

text \<open>
  The concurrent iterator (\<^verbatim>\<open>src/iterator.c\<close>) and the microtask that multiplies its coroutines
  (\<^verbatim>\<open>add_microtask\<close> in \<^verbatim>\<open>src/async_API.c\<close>, \<^verbatim>\<open>execute_microtasks\<close> in \<^verbatim>\<open>src/scheduler.c\<close>).  Several
  coroutines run \<^verbatim>\<open>iterate()\<close> on one iterator.  Every call of code that may suspend (the handler, and
  the functions of an iterator object) splits \<^verbatim>\<open>iterate()\<close>: a frame says in which call a coroutine
  stands, and the functions \<open>after_\<dots>\<close> continue when the call returns.
\<close>

subsection \<open>Data\<close>

datatype async_iterator_state =
    ASYNC_ITERATOR_INIT
  | ASYNC_ITERATOR_MOVING
  | ASYNC_ITERATOR_STARTED
  | ASYNC_ITERATOR_FINISHED

text \<open>An element of what is iterated, or an indirect slot without a value.\<close>

datatype 'v element = Element 'v | Undefined_indirect

datatype iterator_effect =
    Completion_notified "throwable option"
  | Iterator_scope_cancelled
  | Exception_released throwable
  | Exception_rethrown throwable

text \<open>
  \<open>it_queued\<close> counts the entries of the microtask in the queue of the scheduler.  \<open>it_array\<close> is the
  private copy of an iterated array, \<open>None\<close> for an iterator object.
\<close>

record ('k, 'v) async_iterator =
  it_ref_count :: nat
  it_is_cancelled :: bool
  it_queued :: nat
  it_state :: async_iterator_state
  it_concurrency :: uint32
  it_active_coroutines :: uint32
  it_exception :: "throwable option"
  it_completion_event :: bool
  it_scope_cancelled :: bool
  it_array :: "('k \<times> 'v element) list option"
  it_hash_iterator :: bool
  it_target_hash :: bool
  it_position :: nat
  it_internal_pointer :: nat
  it_has_rewind :: bool
  it_freed :: bool
  it_effects :: "iterator_effect list"

definition it_effect :: "iterator_effect \<Rightarrow> ('k, 'v) async_iterator \<Rightarrow> ('k, 'v) async_iterator" where
  "it_effect e it = it\<lparr>it_effects := e # it_effects it\<rparr>"

text \<open>
  A coroutine inside of \<^verbatim>\<open>iterate()\<close>: the call in which it stands, with the local variables that are
  needed afterwards.  The number is \<^verbatim>\<open>prev_ref_count\<close> of a block for safe moving.
\<close>

datatype ('k, 'v) iterate_frame =
    Frame_rewind nat
  | Frame_valid
  | Frame_current nat
  | Frame_skip nat
  | Frame_key "'v element" nat
  | Frame_move 'k "'v element" nat
  | Frame_handler 'k "'v element"

datatype ('k, 'v) iterate_next = Calls "('k, 'v) iterate_frame" | Leaves "throwable option"

subsection \<open>The microtask\<close>

definition add_microtask :: "('k, 'v) async_iterator \<Rightarrow> ('k, 'v) async_iterator" where
  "add_microtask it =
     (if it_is_cancelled it then it
      else it\<lparr>it_queued := it_queued it + 1, it_ref_count := it_ref_count it + 1\<rparr>)"

definition notify_completion :: "('k, 'v) async_iterator \<Rightarrow> ('k, 'v) async_iterator" where
  "notify_completion it =
     (if it_completion_event it
      then it_effect (Completion_notified (it_exception it)) (it\<lparr>it_completion_event := False\<rparr>) else it)"

definition iterator_release_coroutine :: "('k, 'v) async_iterator \<Rightarrow> ('k, 'v) async_iterator" where
  "iterator_release_coroutine it =
     (if 1 < it_active_coroutines it
      then it\<lparr>it_active_coroutines := it_active_coroutines it - 1\<rparr>
      else notify_completion (it\<lparr>it_active_coroutines := 0, it_state := ASYNC_ITERATOR_FINISHED\<rparr>))"

definition release_exception :: "('k, 'v) async_iterator \<Rightarrow> ('k, 'v) async_iterator" where
  "release_exception it =
     (case it_exception it of
        None \<Rightarrow> it
      | Some x \<Rightarrow> it_effect (Exception_released x) (it\<lparr>it_exception := None\<rparr>))"

definition iterator_dtor :: "('k, 'v) async_iterator \<Rightarrow> ('k, 'v) async_iterator" where
  "iterator_dtor it =
     (if 1 < it_ref_count it then it\<lparr>it_ref_count := it_ref_count it - 1\<rparr>
      else (release_exception (notify_completion (it\<lparr>it_ref_count := 0\<rparr>)))\<lparr>it_freed := True\<rparr>)"

text \<open>
  The handler of the microtask.  The flag says whether the scope provides a new coroutine; the
  result whether one was spawned.
\<close>

definition iterator_microtask :: "bool \<Rightarrow> ('k, 'v) async_iterator \<Rightarrow> ('k, 'v) async_iterator \<times> bool" where
  "iterator_microtask spawns it =
     (if it_state it = ASYNC_ITERATOR_FINISHED \<or>
         (0 < it_concurrency it \<and> it_concurrency it \<le> it_active_coroutines it) \<or> \<not> spawns
      then (it, False)
      else (it\<lparr>it_ref_count := it_ref_count it + 1, it_active_coroutines := it_active_coroutines it + 1\<rparr>, True))"

text \<open>One round of \<^verbatim>\<open>execute_microtasks\<close> with an entry of this iterator.\<close>

definition execute_microtask :: "bool \<Rightarrow> ('k, 'v) async_iterator \<Rightarrow> ('k, 'v) async_iterator \<times> bool" where
  "execute_microtask spawns it =
     (let it = it\<lparr>it_queued := it_queued it - 1\<rparr> in
      case (if it_is_cancelled it then (it, False) else iterator_microtask spawns it) of (it, spawned) \<Rightarrow>
        (let it = (if 0 < it_ref_count it then it\<lparr>it_ref_count := it_ref_count it - 1\<rparr> else it)
         in (if it_ref_count it = 0 then iterator_dtor it else it, spawned)))"

subsection \<open>Creation\<close>

definition async_iterator_new ::
  "('k \<times> 'v element) list option \<Rightarrow> bool \<Rightarrow> bool \<Rightarrow> uint32 \<Rightarrow> ('k, 'v) async_iterator" where
  "async_iterator_new array has_rewind scope_cancelled concurrency =
     \<lparr>it_ref_count = 1, it_is_cancelled = False, it_queued = 0, it_state = ASYNC_ITERATOR_INIT,
      it_concurrency = concurrency, it_active_coroutines = 0, it_exception = None,
      it_completion_event = False, it_scope_cancelled = scope_cancelled, it_array = array,
      it_hash_iterator = False, it_target_hash = False, it_position = 0, it_internal_pointer = 0,
      it_has_rewind = has_rewind, it_freed = False, it_effects = []\<rparr>"

text \<open>\<^verbatim>\<open>async_iterator_run_in_coroutine\<close>, with the outcome of the spawn.\<close>

definition async_iterator_run_in_coroutine :: "bool \<Rightarrow> ('k, 'v) async_iterator \<Rightarrow> ('k, 'v) async_iterator \<times> bool" where
  "async_iterator_run_in_coroutine spawns it =
     (if spawns then (it\<lparr>it_active_coroutines := it_active_coroutines it + 1\<rparr>, True) else (it, False))"

subsection \<open>The loop\<close>

text \<open>The macros \<^verbatim>\<open>ITERATOR_SAFE_MOVING_START\<close> and \<^verbatim>\<open>ITERATOR_SAFE_MOVING_END\<close>, and an exit from the loop.\<close>

definition safe_moving_start :: "(nat \<Rightarrow> ('k, 'v) iterate_frame) \<Rightarrow> ('k, 'v) async_iterator \<Rightarrow>
    ('k, 'v) async_iterator \<times> ('k, 'v) iterate_next" where
  "safe_moving_start frame it =
     (it\<lparr>it_state := ASYNC_ITERATOR_MOVING, it_is_cancelled := True\<rparr>, Calls (frame (it_ref_count it)))"

definition safe_moving_end :: "nat \<Rightarrow> ('k, 'v) async_iterator \<Rightarrow> ('k, 'v) async_iterator" where
  "safe_moving_end prev_ref_count it =
     (let it = it\<lparr>it_state := ASYNC_ITERATOR_STARTED, it_is_cancelled := False\<rparr>
      in if prev_ref_count \<noteq> it_ref_count it then add_microtask it else it)"

definition finish :: "('k, 'v) async_iterator \<Rightarrow> ('k, 'v) async_iterator" where
  "finish it = it\<lparr>it_state := ASYNC_ITERATOR_FINISHED, it_is_cancelled := True\<rparr>"

text \<open>
  The loop over an array, up to the next call of the handler.  An undefined indirect slot moves
  the internal pointer of the array, which the loop does not read.
\<close>

partial_function (option) array_loop ::
  "('k, 'v) async_iterator \<Rightarrow> (('k, 'v) async_iterator \<times> ('k, 'v) iterate_next) option" where
  "array_loop it =
     (let es = (case it_array it of Some es \<Rightarrow> es | None \<Rightarrow> []) in
      if it_state it = ASYNC_ITERATOR_FINISHED \<or> it_state it = ASYNC_ITERATOR_MOVING then Some (it, Leaves None)
      else if length es \<le> it_position it then Some (finish it, Leaves None)
      else
        case es ! it_position it of (k, e) \<Rightarrow>
          (case e of
             Undefined_indirect \<Rightarrow> array_loop (it\<lparr>it_internal_pointer := it_internal_pointer it + 1\<rparr>)
           | Element v \<Rightarrow> Some (it\<lparr>it_position := it_position it + 1\<rparr>, Calls (Frame_handler k e))))"

declare array_loop.simps [code]

definition iterate_loop ::
  "('k, 'v) async_iterator \<Rightarrow> (('k, 'v) async_iterator \<times> ('k, 'v) iterate_next) option" where
  "iterate_loop it =
     (if it_target_hash it then array_loop it
      else if it_state it = ASYNC_ITERATOR_FINISHED \<or> it_state it = ASYNC_ITERATOR_MOVING then Some (it, Leaves None)
      else Some (it, Calls Frame_valid))"

definition iterate ::
  "('k, 'v) async_iterator \<Rightarrow> (('k, 'v) async_iterator \<times> ('k, 'v) iterate_next) option" where
  "iterate it =
     (if it_state it = ASYNC_ITERATOR_MOVING then Some (it, Leaves None)
      else if it_array it \<noteq> None then
        iterate_loop ((if it_hash_iterator it then it else it\<lparr>it_hash_iterator := True, it_position := 0\<rparr>)
          \<lparr>it_target_hash := True\<rparr>)
      else if it_state it = ASYNC_ITERATOR_INIT then
        let it = it\<lparr>it_state := ASYNC_ITERATOR_STARTED, it_position := 0\<rparr>
        in if it_has_rewind it then Some (safe_moving_start Frame_rewind it) else iterate_loop it
      else iterate_loop it)"

subsection \<open>Returning from calls\<close>

definition after_rewind where
  "after_rewind prev threw it =
     (let it = safe_moving_end prev it in
      case threw of Some x \<Rightarrow> Some (finish it, Leaves (Some x)) | None \<Rightarrow> iterate_loop it)"

definition after_valid where
  "after_valid ok threw it =
     (if ok then
        case threw of Some x \<Rightarrow> Some (finish it, Leaves (Some x)) | None \<Rightarrow> Some (safe_moving_start Frame_current it)
      else Some (finish it, Leaves threw))"

definition after_current where
  "after_current prev current threw it =
     (let it = safe_moving_end prev it in
      case threw of
        Some x \<Rightarrow> Some (finish it, Leaves (Some x))
      | None \<Rightarrow>
          (case current of
             None \<Rightarrow> Some (finish it, Leaves None)
           | Some Undefined_indirect \<Rightarrow> Some (safe_moving_start Frame_skip it)
           | Some (Element v) \<Rightarrow> Some (safe_moving_start (Frame_key (Element v)) it)))"

definition after_skip where
  "after_skip prev threw it =
     (let it = safe_moving_end prev it in
      case threw of Some x \<Rightarrow> Some (finish it, Leaves (Some x)) | None \<Rightarrow> iterate_loop it)"

definition after_key where
  "after_key e prev k threw it =
     (let it = safe_moving_end prev it in
      case threw of
        Some x \<Rightarrow> Some (finish it, Leaves (Some x))
      | None \<Rightarrow> Some (safe_moving_start (Frame_move k e) it))"

definition after_move where
  "after_move k e prev threw it =
     (let it = safe_moving_end prev it in
      case threw of
        Some x \<Rightarrow> Some (finish it, Leaves (Some x))
      | None \<Rightarrow> Some (it, Calls (Frame_handler k e)))"

text \<open>The handler succeeds or fails, may return false, and may leave an exception.\<close>

definition after_handler where
  "after_handler success returned_false threw it =
     (let it = (if success \<and> returned_false then finish it else it) in
      if \<not> success \<or> threw \<noteq> None then Some (finish it, Leaves threw) else iterate_loop it)"

subsection \<open>Coroutines of the iterator\<close>

text \<open>
  Cancellations and exits stay with the coroutine, other exceptions go to the iterator, which then
  cancels its scope.  The predicate tells exits of the engine.
\<close>

definition async_apply_exception ::
  "(throwable \<Rightarrow> bool) \<Rightarrow> throwable option \<Rightarrow> throwable option \<Rightarrow> throwable option \<times> throwable option" where
  "async_apply_exception is_exit thrown to_exception =
     (case thrown of
        Some x \<Rightarrow> if th_cancellation x \<or> is_exit x then (to_exception, thrown) else (Some x, None)
      | None \<Rightarrow> (to_exception, None))"

definition async_iterator_apply_exception ::
  "(throwable \<Rightarrow> bool) \<Rightarrow> throwable option \<Rightarrow> ('k, 'v) async_iterator \<Rightarrow> ('k, 'v) async_iterator \<times> throwable option" where
  "async_iterator_apply_exception is_exit thrown it =
     (case async_apply_exception is_exit thrown (it_exception it) of (exception, thrown) \<Rightarrow>
        let it = it\<lparr>it_exception := exception\<rparr> in
        if exception = None \<or> it_scope_cancelled it then (it, thrown)
        else (it_effect Iterator_scope_cancelled (it\<lparr>it_scope_cancelled := True\<rparr>), thrown))"

text \<open>\<^verbatim>\<open>async_iterator_run\<close> up to its first call, and from the end of \<^verbatim>\<open>iterate()\<close> on.\<close>

definition async_iterator_run where
  "async_iterator_run it = iterate (add_microtask it)"

definition run_end ::
  "(throwable \<Rightarrow> bool) \<Rightarrow> throwable option \<Rightarrow> ('k, 'v) async_iterator \<Rightarrow> ('k, 'v) async_iterator \<times> throwable option" where
  "run_end is_exit thrown it =
     (case async_iterator_apply_exception is_exit thrown it of (it, thrown) \<Rightarrow>
        (if it_state it = ASYNC_ITERATOR_FINISHED \<and> it_active_coroutines it = 0
         then notify_completion it else it, thrown))"

text \<open>
  \<^verbatim>\<open>coroutine_entry\<close> after the run.  The entry takes the iterator out of \<open>extended_data\<close> before the
  run (\<^verbatim>\<open>iterator.c:535\<close>), so that neither of the dispose functions below sees it for a coroutine
  that has started: it is here that the iterator is released.  The count of references is a natural
  number; the source has 32 bits, which the bound on workers in the step relation keeps it within.
\<close>

definition entry_end where
  "entry_end is_exit thrown it =
     (case run_end is_exit thrown it of (it, thrown) \<Rightarrow> (iterator_dtor (iterator_release_coroutine it), thrown))"

text \<open>A coroutine that never started is disposed of.\<close>

definition coroutine_extended_dispose :: "('k, 'v) async_iterator \<Rightarrow> ('k, 'v) async_iterator" where
  "coroutine_extended_dispose it = iterator_dtor (iterator_release_coroutine it)"

definition coroutine_extended_dispose_with_exception :: "('k, 'v) async_iterator \<Rightarrow> ('k, 'v) async_iterator" where
  "coroutine_extended_dispose_with_exception it =
     coroutine_extended_dispose
       (case it_exception it of
          None \<Rightarrow> it
        | Some x \<Rightarrow> it_effect (Exception_rethrown x) (it\<lparr>it_exception := None\<rparr>))"

end
