(* ===== verification/Async_Iterator_Steps.thy ===== *)
theory Async_Iterator_Steps
  imports Async_Iterator Step_Interface
begin

text \<open>
  Runs of an iterator: coroutines that start, stand in calls and leave, in any order.  The
  functions \<^verbatim>\<open>valid\<close> of iterator objects neither suspend nor throw here (\<open>resolve_valid\<close> answers
  them at once and without an exception, where \<open>after_valid\<close> of the model has both branches of the
  source); all other calls may do both.
\<close>

subsection \<open>States and steps\<close>

text \<open>
  \<open>ir_workers\<close> holds the coroutines of the iterator, \<open>None\<close> for one that has not started.
  \<open>ir_holders\<close> counts references from outside, \<open>ir_cursor\<close> is the position of an iterator object.
  \<open>ir_handled\<close> records the calls of the handler, and \<open>ir_stopped\<close> whether a call failed, a handler
  returned false or a coroutine was disposed of before it started; \<open>ir_waited\<close> whether somebody waits
  for completion.
\<close>

record ('k, 'v) iteration =
  ir_iterator :: "('k, 'v) async_iterator"
  ir_workers :: "('k, 'v) iterate_frame option list"
  ir_holders :: nat
  ir_cursor :: nat
  ir_handled :: "('k \<times> 'v) list"
  ir_stopped :: bool
  ir_waited :: bool

definition as_array :: "('k \<times> 'v) list \<Rightarrow> ('k \<times> 'v element) list" where
  "as_array es = map (\<lambda>(k, v). (k, Element v)) es"

text \<open>The answer of \<^verbatim>\<open>valid\<close> at once.\<close>

definition resolve_valid where
  "resolve_valid ok r =
     (case r of
        Some (it, Calls Frame_valid) \<Rightarrow> after_valid ok None it
      | _ \<Rightarrow> r)"

fun handler_call :: "('k, 'v) iterate_next \<Rightarrow> ('k \<times> 'v) list" where
  "handler_call (Calls (Frame_handler k (Element v))) = [(k, v)]"
| "handler_call _ = []"

text \<open>A coroutine between \<open>as\<close> and \<open>bs\<close> goes on to its next call, or leaves and ends.\<close>

definition proceed where
  "proceed is_exit as bs r s =
     (case r of (it, next) \<Rightarrow>
        (case next of
           Calls f \<Rightarrow> s\<lparr>ir_iterator := it, ir_workers := as @ Some f # bs, ir_handled := ir_handled s @ handler_call next\<rparr>
         | Leaves threw \<Rightarrow> s\<lparr>ir_iterator := fst (entry_end is_exit threw it), ir_workers := as @ bs\<rparr>))"

definition room :: "('k, 'v) iteration \<Rightarrow> bool" where
  "room s \<longleftrightarrow> length (ir_workers s) < 2 ^ 32 - 1"

inductive iter_step ::
  "(throwable \<Rightarrow> bool) \<Rightarrow> ('k \<times> 'v) list \<Rightarrow> ('k, 'v) iteration \<Rightarrow> ('k, 'v) iteration \<Rightarrow> bool"
  for is_exit es where
  begin_run:
    "ir_workers s = as @ None # bs \<Longrightarrow>
     resolve_valid (ir_cursor s < length es) (async_iterator_run (ir_iterator s)) = Some r \<Longrightarrow>
     iter_step is_exit es s (proceed is_exit as bs r s)"
| rewound:
    "ir_workers s = as @ Some (Frame_rewind prev) # bs \<Longrightarrow>
     resolve_valid (0 < length es) (after_rewind prev threw (ir_iterator s)) = Some r \<Longrightarrow>
     iter_step is_exit es s
       (proceed is_exit as bs r (s\<lparr>ir_cursor := 0, ir_stopped := ir_stopped s \<or> threw \<noteq> None\<rparr>))"
| current_read:
    "ir_workers s = as @ Some (Frame_current prev) # bs \<Longrightarrow>
     after_current prev (if ir_cursor s < length es then Some (Element (snd (es ! ir_cursor s))) else None) threw
       (ir_iterator s) = Some r \<Longrightarrow>
     iter_step is_exit es s (proceed is_exit as bs r (s\<lparr>ir_stopped := ir_stopped s \<or> threw \<noteq> None\<rparr>))"
| key_read:
    "ir_workers s = as @ Some (Frame_key e prev) # bs \<Longrightarrow>
     after_key e prev (fst (es ! ir_cursor s)) threw (ir_iterator s) = Some r \<Longrightarrow>
     iter_step is_exit es s (proceed is_exit as bs r (s\<lparr>ir_stopped := ir_stopped s \<or> threw \<noteq> None\<rparr>))"
| moved:
    "ir_workers s = as @ Some (Frame_move k e prev) # bs \<Longrightarrow>
     after_move k e prev threw (ir_iterator s) = Some r \<Longrightarrow> threw = None \<longrightarrow> c = ir_cursor s + 1 \<Longrightarrow>
     iter_step is_exit es s
       (proceed is_exit as bs r (s\<lparr>ir_cursor := c, ir_stopped := ir_stopped s \<or> threw \<noteq> None\<rparr>))"
| handled:
    "ir_workers s = as @ Some (Frame_handler k e) # bs \<Longrightarrow>
     resolve_valid (ir_cursor s < length es) (after_handler success returned_false threw (ir_iterator s)) = Some r \<Longrightarrow>
     iter_step is_exit es s
       (proceed is_exit as bs r (s\<lparr>ir_stopped := ir_stopped s \<or> threw \<noteq> None \<or> \<not> success \<or> returned_false\<rparr>))"
| disposed:
    "ir_workers s = as @ None # bs \<Longrightarrow>
     it = coroutine_extended_dispose (ir_iterator s) \<or>
     it = coroutine_extended_dispose_with_exception (ir_iterator s) \<Longrightarrow>
     iter_step is_exit es s (s\<lparr>ir_iterator := it, ir_workers := as @ bs, ir_stopped := True\<rparr>)"
| microtask:
    "0 < it_queued (ir_iterator s) \<Longrightarrow> room s \<Longrightarrow>
     execute_microtask spawns (ir_iterator s) = (it, spawned) \<Longrightarrow>
     iter_step is_exit es s
       (s\<lparr>ir_iterator := it, ir_workers := ir_workers s @ (if spawned then [None] else [])\<rparr>)"
| released:
    "0 < ir_holders s \<Longrightarrow>
     iter_step is_exit es s (s\<lparr>ir_iterator := iterator_dtor (ir_iterator s), ir_holders := ir_holders s - 1\<rparr>)"

text \<open>
  A run begins as \<^verbatim>\<open>Async\\iterate()\<close> and the futures begin it: with one coroutine, which owns the
  first reference, perhaps a caller that waits for completion, and a concurrency of at least one
  or unlimited.
\<close>

definition iter_start :: "('k \<times> 'v) list \<Rightarrow> ('k, 'v) iteration \<Rightarrow> bool" where
  "iter_start es s \<longleftrightarrow>
     (\<exists>array has_rewind scope_cancelled concurrency waits cursor.
        (array = Some (as_array es) \<or> array = None \<and> (has_rewind \<or> cursor = 0)) \<and>
        s = \<lparr>ir_iterator =
               (fst (async_iterator_run_in_coroutine True
                  (async_iterator_new array has_rewind scope_cancelled concurrency)))
               \<lparr>it_completion_event := waits, it_ref_count := (if waits then 2 else 1)\<rparr>,
             ir_workers = [None], ir_holders = (if waits then 1 else 0), ir_cursor = cursor,
             ir_handled = [], ir_stopped = False, ir_waited = waits\<rparr>)"

subsection \<open>References and slots\<close>

text \<open>The loop moves references only together with entries of the queue, and no slots.\<close>

definition same_books :: "('k, 'v) async_iterator \<Rightarrow> ('k, 'v) async_iterator \<Rightarrow> bool" where
  "same_books it it' \<longleftrightarrow>
     it_ref_count it' + it_queued it = it_ref_count it + it_queued it' \<and>
     it_active_coroutines it' = it_active_coroutines it \<and> it_concurrency it' = it_concurrency it \<and>
     it_completion_event it' = it_completion_event it \<and> it_freed it' = it_freed it \<and>
     it_effects it' = it_effects it \<and> it_exception it' = it_exception it \<and> it_array it' = it_array it \<and>
     it_has_rewind it' = it_has_rewind it"

lemma same_books_refl [simp]: "same_books it it"
  by (simp add: same_books_def)

lemma same_books_trans: "same_books it it' \<Longrightarrow> same_books it' it'' \<Longrightarrow> same_books it it''"
  by (simp add: same_books_def)

lemma same_books_loop_steps [simp]:
  "same_books it (add_microtask it)" "same_books it (finish it)" "same_books it (safe_moving_end prev it)"
  "same_books it (fst (safe_moving_start f it))"
  by (simp_all add: same_books_def add_microtask_def finish_def safe_moving_end_def safe_moving_start_def Let_def)

lemma array_loop_books:
  assumes "array_loop it = Some r"
  shows "same_books it (fst r)"
proof (rule array_loop.raw_induct [where P = "\<lambda>it r. same_books it (fst r)", OF _ assms])
  fix f :: "('k, 'v) async_iterator \<Rightarrow> (('k, 'v) async_iterator \<times> ('k, 'v) iterate_next) option" and it r
  assume ih: "\<And>it r. f it = Some r \<Longrightarrow> same_books it (fst r)"
  have indirect: "f (it\<lparr>it_internal_pointer := Suc (it_internal_pointer it)\<rparr>) = Some r \<Longrightarrow> same_books it (fst r)"
    using ih [of "it\<lparr>it_internal_pointer := Suc (it_internal_pointer it)\<rparr>" r] by (simp add: same_books_def)
  have handler: "same_books it (it\<lparr>it_position := Suc (it_position it)\<rparr>)" by (simp add: same_books_def)
  assume "(let es = (case it_array it of Some es \<Rightarrow> es | None \<Rightarrow> []) in
      if it_state it = ASYNC_ITERATOR_FINISHED \<or> it_state it = ASYNC_ITERATOR_MOVING then Some (it, Leaves None)
      else if length es \<le> it_position it then Some (finish it, Leaves None)
      else
        case es ! it_position it of (k, e) \<Rightarrow>
          (case e of
             Undefined_indirect \<Rightarrow> f (it\<lparr>it_internal_pointer := it_internal_pointer it + 1\<rparr>)
           | Element v \<Rightarrow> Some (it\<lparr>it_position := it_position it + 1\<rparr>, Calls (Frame_handler k e)))) = Some r"
  then show "same_books it (fst r)"
    using handler same_books_loop_steps(2) [of it]
    by (auto simp: Let_def split: if_splits prod.split_asm element.split_asm option.split_asm intro: indirect)
qed

lemma iterate_loop_books: "iterate_loop it = Some r \<Longrightarrow> same_books it (fst r)"
  by (auto simp: iterate_loop_def array_loop_books split: if_splits)

lemma iterate_loop_after: "iterate_loop it' = Some r \<Longrightarrow> same_books it it' \<Longrightarrow> same_books it (fst r)"
  using same_books_trans iterate_loop_books by blast

lemma safe_moving_after:
  "same_books it it' \<Longrightarrow> Some (safe_moving_start f it') = Some r \<Longrightarrow> same_books it (fst r)"
  using same_books_trans same_books_loop_steps(4) by blast

lemma finish_after: "same_books it it' \<Longrightarrow> Some (finish it', x) = Some r \<Longrightarrow> same_books it (fst r)"
  using same_books_trans same_books_loop_steps(2) by fastforce

lemmas loop_books = iterate_loop_after safe_moving_after finish_after same_books_loop_steps same_books_refl

lemma iterate_books: "iterate it = Some r \<Longrightarrow> same_books it (fst r)"
proof -
  have upd: "same_books it (it\<lparr>it_state := ASYNC_ITERATOR_STARTED, it_position := 0\<rparr>)"
    "same_books it (it\<lparr>it_target_hash := True\<rparr>)"
    "same_books it (it\<lparr>it_hash_iterator := True, it_position := 0, it_target_hash := True\<rparr>)"
    by (simp_all add: same_books_def)
  assume "iterate it = Some r"
  then show ?thesis
    by (auto simp: iterate_def Let_def split: if_splits intro: iterate_loop_after [OF _ upd(1)] iterate_loop_after [OF _ upd(2)]
        iterate_loop_after [OF _ upd(3)] safe_moving_after [OF upd(1)] iterate_loop_books)
qed

lemma async_iterator_run_books: "async_iterator_run it = Some r \<Longrightarrow> same_books it (fst r)"
  using iterate_books same_books_trans same_books_loop_steps(1) unfolding async_iterator_run_def by blast

lemma after_call_books:
  "after_rewind prev threw it = Some r \<Longrightarrow> same_books it (fst r)"
  "after_valid ok threw it = Some r \<Longrightarrow> same_books it (fst r)"
  "after_current prev cur threw it = Some r \<Longrightarrow> same_books it (fst r)"
  "after_key e prev k threw it = Some r \<Longrightarrow> same_books it (fst r)"
  "after_move k e prev threw it = Some r \<Longrightarrow> same_books it (fst r)"
  "after_handler success returned_false threw it = Some r \<Longrightarrow> same_books it (fst r)"
proof -
  note mv = same_books_loop_steps(3) [of it prev]
  show "after_rewind prev threw it = Some r \<Longrightarrow> same_books it (fst r)"
    by (auto simp: after_rewind_def Let_def split: option.splits intro: iterate_loop_after [OF _ mv] finish_after [OF mv])
  show "after_valid ok threw it = Some r \<Longrightarrow> same_books it (fst r)"
    by (auto simp: after_valid_def Let_def split: option.splits if_splits intro: safe_moving_after [OF same_books_refl])
  show "after_current prev cur threw it = Some r \<Longrightarrow> same_books it (fst r)"
    by (auto simp: after_current_def Let_def split: option.splits if_splits element.splits
        intro: safe_moving_after [OF mv] finish_after [OF mv])
  show "after_key e prev k threw it = Some r \<Longrightarrow> same_books it (fst r)"
    by (auto simp: after_key_def Let_def split: option.splits intro: safe_moving_after [OF mv] finish_after [OF mv])
  show "after_move k e prev threw it = Some r \<Longrightarrow> same_books it (fst r)"
    by (auto simp: after_move_def Let_def split: option.splits intro: finish_after [OF mv])
  have ff: "same_books it (finish (finish it))" by (simp add: finish_def same_books_def)
  show "after_handler success returned_false threw it = Some r \<Longrightarrow> same_books it (fst r)"
    using ff by (auto simp: after_handler_def Let_def split: option.splits if_splits
        intro: iterate_loop_after [OF _ same_books_loop_steps(2)] iterate_loop_after [OF _ same_books_refl])
qed

lemma resolve_valid_books:
  assumes "resolve_valid ok r = Some r'" "\<And>x. r = Some x \<Longrightarrow> same_books it (fst x)"
  shows "same_books it (fst r')"
proof -
  obtain x where x: "r = Some x" using assms(1) by (cases r) (auto simp: resolve_valid_def)
  have b: "same_books it (fst x)" using assms(2) x by blast
  show ?thesis
    using assms(1) x b after_call_books(2) [of ok None "fst x" r'] same_books_trans [of it "fst x" "fst r'"]
    by (auto simp: resolve_valid_def split: prod.splits iterate_next.splits iterate_frame.splits)
qed

text \<open>
  The books of an iterator: one reference per queue entry, coroutine and holder; one slot per
  coroutine, within the limit; completion is announced at the latest by the last coroutine, and
  at most once.
\<close>

definition completions :: "('k, 'v) async_iterator \<Rightarrow> nat" where
  "completions it = length (filter (\<lambda>e. \<exists>x. e = Completion_notified x) (it_effects it))"

definition refs_ok :: "('k, 'v) async_iterator \<Rightarrow> nat \<Rightarrow> bool" where
  "refs_ok it refs \<longleftrightarrow>
     (if it_freed it then it_queued it = 0 \<and> refs = 0
      else it_ref_count it = it_queued it + refs \<and> 0 < it_ref_count it)"

definition slots_ok :: "nat \<Rightarrow> ('k, 'v) async_iterator \<Rightarrow> nat \<Rightarrow> bool" where
  "slots_ok k it workers \<longleftrightarrow>
     workers < 2 ^ 32 \<and> unat (it_active_coroutines it) = workers \<and>
     (0 < it_concurrency it \<longrightarrow> it_active_coroutines it \<le> it_concurrency it) \<and>
     (workers = 0 \<longrightarrow> \<not> it_completion_event it \<and> it_state it = ASYNC_ITERATOR_FINISHED) \<and>
     completions it + of_bool (it_completion_event it) = k"

definition books_inv :: "('k, 'v) iteration \<Rightarrow> bool" where
  "books_inv s \<longleftrightarrow>
     refs_ok (ir_iterator s) (length (ir_workers s) + ir_holders s) \<and>
     slots_ok (of_bool (ir_waited s)) (ir_iterator s) (length (ir_workers s))"

lemma same_books_keep:
  assumes "same_books it it'"
  shows "refs_ok it (Suc n) \<Longrightarrow> refs_ok it' (Suc n)" "slots_ok k it (Suc n) \<Longrightarrow> slots_ok k it' (Suc n)"
  using assms by (auto simp: same_books_def refs_ok_def slots_ok_def completions_def split: if_splits)

lemma notify_completion_simps [simp]:
  "it_ref_count (notify_completion it) = it_ref_count it" "it_queued (notify_completion it) = it_queued it"
  "it_active_coroutines (notify_completion it) = it_active_coroutines it"
  "it_concurrency (notify_completion it) = it_concurrency it"
  "\<not> it_completion_event (notify_completion it)" "it_freed (notify_completion it) = it_freed it"
  "it_state (notify_completion it) = it_state it" "it_is_cancelled (notify_completion it) = it_is_cancelled it"
  "completions (notify_completion it) = completions it + of_bool (it_completion_event it)"
  by (simp_all add: notify_completion_def it_effect_def completions_def)

lemma release_exception_simps [simp]:
  "it_queued (release_exception it) = it_queued it"
  "it_active_coroutines (release_exception it) = it_active_coroutines it"
  "it_concurrency (release_exception it) = it_concurrency it"
  "it_completion_event (release_exception it) = it_completion_event it"
  "it_state (release_exception it) = it_state it" "it_is_cancelled (release_exception it) = it_is_cancelled it"
  "completions (release_exception it) = completions it"
  by (simp_all add: release_exception_def it_effect_def completions_def split: option.split)

lemma completions_update [simp]:
  "completions (it\<lparr>it_ref_count := r\<rparr>) = completions it" "completions (it\<lparr>it_freed := b\<rparr>) = completions it"
  "completions (it\<lparr>it_active_coroutines := a\<rparr>) = completions it" "completions (it\<lparr>it_state := st\<rparr>) = completions it"
  "completions (it\<lparr>it_queued := q\<rparr>) = completions it" "completions (it\<lparr>it_exception := x\<rparr>) = completions it"
  by (simp_all add: completions_def)

lemma dtor_keeps:
  "refs_ok it (Suc n) \<Longrightarrow> refs_ok (iterator_dtor it) n"
  "slots_ok k it n \<Longrightarrow> slots_ok k (iterator_dtor it) n"
  by (auto simp: iterator_dtor_def refs_ok_def slots_ok_def split: if_splits)

lemma release_keeps:
  "refs_ok it n \<Longrightarrow> refs_ok (iterator_release_coroutine it) n"
  "slots_ok k it (Suc n) \<Longrightarrow> slots_ok k (iterator_release_coroutine it) n"
proof -
  show "refs_ok it n \<Longrightarrow> refs_ok (iterator_release_coroutine it) n"
    by (auto simp: iterator_release_coroutine_def refs_ok_def split: if_splits)
  show "slots_ok k (iterator_release_coroutine it) n" if s: "slots_ok k it (Suc n)"
  proof (cases "1 < it_active_coroutines it")
    case True
    then have "unat (it_active_coroutines it - 1) = n"
      using s by (simp add: slots_ok_def unat_sub word_le_nat_alt word_less_nat_alt)
    moreover have "0 < n" using s True by (simp add: slots_ok_def word_less_nat_alt)
    moreover have "it_active_coroutines it - 1 \<le> it_active_coroutines it"
      using True by (simp add: word_le_nat_alt word_less_nat_alt unat_sub)
    ultimately show ?thesis
      using s True by (auto simp: iterator_release_coroutine_def slots_ok_def)
  next
    case False
    then have "n = 0" using s by (auto simp: slots_ok_def word_less_nat_alt)
    then show ?thesis using s False by (auto simp: iterator_release_coroutine_def slots_ok_def)
  qed
qed

lemma apply_exception_simps [simp]:
  "it_ref_count (fst (async_iterator_apply_exception is_exit threw it)) = it_ref_count it"
  "it_queued (fst (async_iterator_apply_exception is_exit threw it)) = it_queued it"
  "it_active_coroutines (fst (async_iterator_apply_exception is_exit threw it)) = it_active_coroutines it"
  "it_concurrency (fst (async_iterator_apply_exception is_exit threw it)) = it_concurrency it"
  "it_completion_event (fst (async_iterator_apply_exception is_exit threw it)) = it_completion_event it"
  "it_freed (fst (async_iterator_apply_exception is_exit threw it)) = it_freed it"
  "it_state (fst (async_iterator_apply_exception is_exit threw it)) = it_state it"
  "it_is_cancelled (fst (async_iterator_apply_exception is_exit threw it)) = it_is_cancelled it"
  "completions (fst (async_iterator_apply_exception is_exit threw it)) = completions it"
  by (simp_all add: async_iterator_apply_exception_def Let_def it_effect_def completions_def split: prod.split)

lemma run_end_keeps:
  "refs_ok it n \<Longrightarrow> refs_ok (fst (run_end is_exit threw it)) n"
  "slots_ok k it n \<Longrightarrow> slots_ok k (fst (run_end is_exit threw it)) n"
  by (auto simp: run_end_def refs_ok_def slots_ok_def split_beta)

lemma entry_end_keeps:
  assumes "refs_ok it (Suc (n + h))" "slots_ok k it (Suc n)"
  shows "refs_ok (fst (entry_end is_exit threw it)) (n + h)" "slots_ok k (fst (entry_end is_exit threw it)) n"
  using run_end_keeps(1) [of it _ is_exit threw] run_end_keeps(2) [of k it _ is_exit threw] assms
  by (auto simp: entry_end_def split: prod.splits intro!: dtor_keeps release_keeps)

lemma dispose_keeps:
  assumes "refs_ok it (Suc (n + h))" "slots_ok k it (Suc n)"
    "it' = coroutine_extended_dispose it \<or> it' = coroutine_extended_dispose_with_exception it"
  shows "refs_ok it' (n + h)" "slots_ok k it' n"
proof -
  have plain: "refs_ok (coroutine_extended_dispose x) (n + h)" "slots_ok k (coroutine_extended_dispose x) n"
    if "refs_ok x (Suc (n + h))" "slots_ok k x (Suc n)" for x :: "('a, 'b) async_iterator"
    using that by (auto simp: coroutine_extended_dispose_def intro!: dtor_keeps release_keeps)
  have "refs_ok (case it_exception it of None \<Rightarrow> it
        | Some x \<Rightarrow> it_effect (Exception_rethrown x) (it\<lparr>it_exception := None\<rparr>)) (Suc (n + h))"
    "slots_ok k (case it_exception it of None \<Rightarrow> it
        | Some x \<Rightarrow> it_effect (Exception_rethrown x) (it\<lparr>it_exception := None\<rparr>)) (Suc n)"
    using assms by (auto simp: refs_ok_def slots_ok_def it_effect_def completions_def split: option.splits)
  then show "refs_ok it' (n + h)" "slots_ok k it' n"
    using plain assms(3) plain [OF assms(1,2)] by (auto simp: coroutine_extended_dispose_with_exception_def)
qed

lemma microtask_keeps:
  assumes "refs_ok it (n + h)" "slots_ok k it n" "0 < it_queued it" "n < 2 ^ 32 - 1"
    "execute_microtask spawns it = (it', spawned)"
  shows "refs_ok it' (n + of_bool spawned + h)" "slots_ok k it' (n + of_bool spawned)"
proof -
  have inc: "unat (it_active_coroutines it + 1) = Suc n"
    using assms(2,4) by (simp add: slots_ok_def unat_word_ariths)
  have le: "it_active_coroutines it + 1 \<le> it_concurrency it" if "\<not> it_concurrency it \<le> it_active_coroutines it"
    using that by (meson inc_le not_le)
  define m where "m = (if it_is_cancelled it then (it\<lparr>it_queued := it_queued it - 1\<rparr>, False)
    else iterator_microtask spawns (it\<lparr>it_queued := it_queued it - 1\<rparr>))"
  have m: "fst m = (if snd m then it\<lparr>it_queued := it_queued it - 1, it_ref_count := it_ref_count it + 1,
      it_active_coroutines := it_active_coroutines it + 1\<rparr> else it\<lparr>it_queued := it_queued it - 1\<rparr>)"
    "snd m \<longrightarrow> \<not> (0 < it_concurrency it \<and> it_concurrency it \<le> it_active_coroutines it)"
    by (auto simp: m_def iterator_microtask_def)
  have ex: "spawned = snd m" "it' = (if it_ref_count (fst m) \<le> 1 then iterator_dtor ((fst m)\<lparr>it_ref_count := it_ref_count (fst m) - 1\<rparr>)
      else (fst m)\<lparr>it_ref_count := it_ref_count (fst m) - 1\<rparr>)"
    using assms(1,3,5) m(1) unfolding execute_microtask_def Let_def m_def [symmetric]
    by (auto simp: split_beta refs_ok_def m_def [symmetric] split: if_splits)
  show "refs_ok it' (n + of_bool spawned + h)"
    using assms(1,3) unfolding ex m by (auto simp: refs_ok_def iterator_dtor_def split: if_splits)
  show "slots_ok k it' (n + of_bool spawned)"
    using assms(2,4) m(2) inc le unfolding ex m(1) by (auto simp: slots_ok_def iterator_dtor_def)
qed

lemma proceed_books:
  assumes "books_inv s" "length (ir_workers s) = Suc (length (as @ bs))" "same_books (ir_iterator s) (fst r)"
    "ir_iterator s' = ir_iterator s" "ir_holders s' = ir_holders s" "ir_waited s' = ir_waited s"
  shows "books_inv (proceed is_exit as bs r s')"
proof -
  obtain it nxt where r: "r = (it, nxt)" by (cases r)
  have b: "refs_ok it (Suc (length (as @ bs) + ir_holders s))" "slots_ok (of_bool (ir_waited s)) it (Suc (length (as @ bs)))"
    using same_books_keep [OF assms(3)] assms(1,2) r by (auto simp: books_inv_def)
  show ?thesis
  proof (cases nxt)
    case (Calls f)
    then show ?thesis using b assms(5,6) r by (simp add: proceed_def books_inv_def)
  next
    case (Leaves threw)
    then show ?thesis
      using entry_end_keeps [OF b, of is_exit threw] assms(5,6) r by (simp add: proceed_def books_inv_def)
  qed
qed

lemma iter_step_books: "iter_step is_exit es s s' \<Longrightarrow> books_inv s \<Longrightarrow> books_inv s'"
proof (induction rule: iter_step.induct)
  case (begin_run s as bs r)
  have "same_books (ir_iterator s) (fst r)"
    using resolve_valid_books [OF begin_run(2)] async_iterator_run_books by blast
  then show ?case using begin_run by (intro proceed_books [where s = s]) auto
next
  case (rewound s as prev bs threw r)
  have "same_books (ir_iterator s) (fst r)"
    using resolve_valid_books [OF rewound(2)] after_call_books(1) by blast
  then show ?case using rewound by (intro proceed_books [where s = s]) auto
next
  case (current_read s as prev bs threw r)
  then show ?case using after_call_books(3) [OF current_read(2)] by (intro proceed_books [where s = s]) auto
next
  case (key_read s as e prev bs threw r)
  then show ?case using after_call_books(4) [OF key_read(2)] by (intro proceed_books [where s = s]) auto
next
  case (moved s as k e prev bs threw r c)
  then show ?case using after_call_books(5) [OF moved(2)] by (intro proceed_books [where s = s]) auto
next
  case (handled s as k e bs success returned_false threw r)
  have "same_books (ir_iterator s) (fst r)"
    using resolve_valid_books [OF handled(2)] after_call_books(6) by blast
  then show ?case using handled by (intro proceed_books [where s = s]) auto
next
  case (disposed s as bs it)
  then show ?case
    using dispose_keeps [of "ir_iterator s" "length (as @ bs)" "ir_holders s" "of_bool (ir_waited s)" it] by (simp add: books_inv_def)
next
  case (microtask s spawns it spawned)
  then show ?case
    using microtask_keeps [of "ir_iterator s" "length (ir_workers s)" "ir_holders s" "of_bool (ir_waited s)" spawns it spawned]
    by (auto simp: books_inv_def room_def)
next
  case (released s)
  then show ?case
    using dtor_keeps(1) [of "ir_iterator s" "length (ir_workers s) + (ir_holders s - 1)"]
      dtor_keeps(2) [of "of_bool (ir_waited s)" "ir_iterator s" "length (ir_workers s)"] by (simp add: books_inv_def)
qed

lemma iter_start_books: "iter_start es s \<Longrightarrow> books_inv s"
  by (auto simp: iter_start_def books_inv_def refs_ok_def slots_ok_def async_iterator_run_in_coroutine_def
      async_iterator_new_def completions_def word_le_nat_alt word_less_nat_alt)

end
