(* ===== verification/Async_Iterator_Order.thy ===== *)
theory Async_Iterator_Order
  imports Async_Iterator_Steps
begin

text \<open>
  What the handler of a concurrent iterator sees: every element once and in order, however many
  coroutines iterate and wherever they suspend.
\<close>

subsection \<open>The invariant\<close>

text \<open>A coroutine that stands in a block for safe moving.\<close>

fun moving :: "('k, 'v) iterate_frame option \<Rightarrow> bool" where
  "moving (Some (Frame_rewind prev)) = True"
| "moving (Some (Frame_current prev)) = True"
| "moving (Some (Frame_skip prev)) = True"
| "moving (Some (Frame_key e prev)) = True"
| "moving (Some (Frame_move k e prev)) = True"
| "moving _ = False"

text \<open>What the local variables of a moving coroutine have to do with the cursor.\<close>

fun frame_ok :: "('k \<times> 'v) list \<Rightarrow> nat \<Rightarrow> ('k \<times> 'v) list \<Rightarrow> ('k, 'v) iterate_frame option \<Rightarrow> bool" where
  "frame_ok es c h (Some (Frame_rewind prev)) = (h = [])"
| "frame_ok es c h (Some (Frame_current prev)) = (length h = c \<and> c < length es)"
| "frame_ok es c h (Some (Frame_key e prev)) = (length h = c \<and> c < length es \<and> e = Element (snd (es ! c)))"
| "frame_ok es c h (Some (Frame_move k e prev)) =
     (length h = c \<and> c < length es \<and> k = fst (es ! c) \<and> e = Element (snd (es ! c)))"
| "frame_ok es c h _ = False"

definition plain_frames :: "('k, 'v) iterate_frame option list \<Rightarrow> bool" where
  "plain_frames ws \<longleftrightarrow> Some Frame_valid \<notin> set ws"

text \<open>\<open>c\<close> is the cursor of an iterator object, \<open>h\<close> what was handled, \<open>st\<close> whether the run was stopped.\<close>

definition array_inv where
  "array_inv es it ws h \<longleftrightarrow>
     filter moving ws = [] \<and> it_state it \<noteq> ASYNC_ITERATOR_MOVING \<and> it_target_hash it = it_hash_iterator it \<and>
     (if it_hash_iterator it then it_position it = length h else h = [] \<and> set ws \<subseteq> {None})"

definition object_inv where
  "object_inv es it ws c h st \<longleftrightarrow>
     \<not> it_target_hash it \<and>
     (case filter moving ws of
        [] \<Rightarrow> it_state it \<noteq> ASYNC_ITERATOR_MOVING \<and>
              (it_state it = ASYNC_ITERATOR_INIT \<longrightarrow> h = [] \<and> (it_has_rewind it \<or> c = 0) \<and> set ws \<subseteq> {None}) \<and>
              (it_state it = ASYNC_ITERATOR_STARTED \<longrightarrow> length h = c)
      | [f] \<Rightarrow> (it_state it = ASYNC_ITERATOR_MOVING \<or> it_state it = ASYNC_ITERATOR_FINISHED \<and> st) \<and> frame_ok es c h f
      | _ \<Rightarrow> False)"

definition order_inv where
  "order_inv es it ws c h st \<longleftrightarrow>
     take (length h) es = h \<and> plain_frames ws \<and>
     (it_state it = ASYNC_ITERATOR_FINISHED \<and> \<not> st \<longrightarrow> h = es) \<and>
     (case it_array it of
        Some a \<Rightarrow> a = as_array es \<and> array_inv es it ws h
      | None \<Rightarrow> object_inv es it ws c h st)"

lemma order_inv_stopped: "order_inv es it ws c h st \<Longrightarrow> order_inv es it ws c h (st \<or> b)"
  by (auto simp: order_inv_def object_inv_def split: option.splits list.splits)

text \<open>A coroutine that does not move may be left out.\<close>

lemma order_inv_without:
  assumes "order_inv es it (as @ f # bs) c h st" "\<not> moving f"
  shows "order_inv es it (as @ bs) c h st"
  using assms by (auto simp: order_inv_def object_inv_def array_inv_def plain_frames_def split: option.splits list.splits if_splits)

text \<open>Only these parts of the iterator matter.\<close>

lemma order_inv_cong:
  assumes "it_state it' = it_state it" "it_array it' = it_array it" "it_target_hash it' = it_target_hash it"
    "it_hash_iterator it' = it_hash_iterator it" "it_position it' = it_position it" "it_has_rewind it' = it_has_rewind it"
  shows "order_inv es it' ws c h st \<longleftrightarrow> order_inv es it ws c h st"
  unfolding order_inv_def object_inv_def array_inv_def assms by (rule refl)


subsection \<open>The loop keeps it\<close>

text \<open>
  What a coroutine may do next: leave, and then it is not the last one unless everything was
  handled or the run was stopped; or stand in a call.
\<close>

definition next_ok where
  "next_ok es as bs c h st r \<longleftrightarrow>
     (case r of (it, nxt) \<Rightarrow>
        (case nxt of
           Leaves threw \<Rightarrow> order_inv es it (as @ bs) c h st \<and> (as @ bs = [] \<longrightarrow> st \<or> h = es)
         | Calls f \<Rightarrow> order_inv es it (as @ Some f # bs) c (h @ handler_call nxt) st))"

lemma as_array_simps [simp]:
  "length (as_array es) = length es" "n < length es \<Longrightarrow> as_array es ! n = (fst (es ! n), Element (snd (es ! n)))"
  by (auto simp: as_array_def split_beta)

lemma take_snoc_nth: "take (length h) es = h \<Longrightarrow> length h < length es \<Longrightarrow> h @ [es ! length h] = take (Suc (length h)) es"
  by (metis take_Suc_conv_app_nth)

lemma take_all_handled: "take (length h) es = h \<Longrightarrow> length es \<le> length h \<Longrightarrow> h = es"
  by simp

lemma array_loop_next:
  assumes inv: "order_inv es it (as @ bs) c h st" and arr: "it_array it = Some a" "it_hash_iterator it"
    and r: "array_loop it = Some r"
  shows "next_ok es as bs c h st r"
proof -
  have i: "a = as_array es" "it_state it \<noteq> ASYNC_ITERATOR_MOVING" "it_target_hash it" "it_position it = length h"
    "take (length h) es = h" "it_state it = ASYNC_ITERATOR_FINISHED \<and> \<not> st \<longrightarrow> h = es"
    using inv arr by (auto simp: order_inv_def array_inv_def)
  consider (fin) "it_state it = ASYNC_ITERATOR_FINISHED"
    | (exhausted) "it_state it \<noteq> ASYNC_ITERATOR_FINISHED" "length es \<le> length h"
    | (element) "it_state it \<noteq> ASYNC_ITERATOR_FINISHED" "length h < length es" by linarith
  then show ?thesis
  proof cases
    case fin
    then have "r = (it, Leaves None)" using r array_loop.simps [of it] by simp
    then show ?thesis using inv fin i(6) by (auto simp: next_ok_def)
  next
    case exhausted
    then have "r = (finish it, Leaves None)" using r array_loop.simps [of it] i arr by simp
    moreover have "h = es" using i(5) exhausted(2) by (rule take_all_handled)
    ultimately show ?thesis using inv arr
      by (auto simp: next_ok_def order_inv_def array_inv_def finish_def)
  next
    case element
    then have "r = (it\<lparr>it_position := Suc (length h)\<rparr>, Calls (Frame_handler (fst (es ! length h)) (Element (snd (es ! length h)))))"
      using r array_loop.simps [of it] i arr by simp
    moreover have "h @ [es ! length h] = take (Suc (length h)) es" using i(5) element(2) by (rule take_snoc_nth)
    ultimately show ?thesis using inv arr element
      by (auto simp: next_ok_def order_inv_def array_inv_def plain_frames_def)
  qed
qed

lemma moving_not_valid [simp]: "moving (Some f) \<Longrightarrow> f \<noteq> Frame_valid"
  by auto

lemma order_inv_mover:
  assumes "order_inv es it (as @ bs) c h st" "it_array it = None" "filter moving (as @ bs) = []"
    and "moving (Some f)" "frame_ok es c h (Some f)"
  shows "order_inv es (it\<lparr>it_state := ASYNC_ITERATOR_MOVING, it_is_cancelled := b\<rparr>) (as @ Some f # bs) c h st"
proof -
  have "filter moving (as @ Some f # bs) = [Some f]" using assms(3,4) by simp
  moreover have "\<not> it_target_hash it" "take (length h) es = h" "plain_frames (as @ bs)"
    using assms(1,2) by (simp_all add: order_inv_def object_inv_def)
  moreover have "f \<noteq> Frame_valid" using assms(4) by (rule moving_not_valid)
  ultimately show ?thesis using assms(2,5) by (simp add: order_inv_def object_inv_def plain_frames_def)
qed

lemma handler_call_moving [simp]: "moving (Some f) \<Longrightarrow> handler_call (Calls f) = []"
  by (cases "Some f" rule: moving.cases) auto

lemma next_ok_mover:
  assumes "order_inv es it (as @ bs) c h st" "it_array it = None" "filter moving (as @ bs) = []"
    and "moving (Some f)" "frame_ok es c h (Some f)"
  shows "next_ok es as bs c h st (it\<lparr>it_state := ASYNC_ITERATOR_MOVING, it_is_cancelled := b\<rparr>, Calls f)"
  using order_inv_mover [OF assms] assms(4) by (simp add: next_ok_def)

lemma object_loop_cases:
  assumes "\<not> it_target_hash it"
  shows "it_state it = ASYNC_ITERATOR_FINISHED \<or> it_state it = ASYNC_ITERATOR_MOVING \<Longrightarrow>
      resolve_valid ok (iterate_loop it) = Some (it, Leaves None)"
    and "\<not> (it_state it = ASYNC_ITERATOR_FINISHED \<or> it_state it = ASYNC_ITERATOR_MOVING) \<Longrightarrow>
      resolve_valid ok (iterate_loop it) =
        (if ok then Some (it\<lparr>it_state := ASYNC_ITERATOR_MOVING, it_is_cancelled := True\<rparr>, Calls (Frame_current (it_ref_count it)))
         else Some (finish it, Leaves None))"
  using assms by (simp_all add: iterate_loop_def resolve_valid_def after_valid_def safe_moving_start_def)

lemma object_loop_next:
  assumes inv: "order_inv es it (as @ bs) c h st" and arr: "it_array it = None" "it_state it \<noteq> ASYNC_ITERATOR_INIT"
    and r: "resolve_valid (c < length es) (iterate_loop it) = Some r"
  shows "next_ok es as bs c h st r"
proof -
  have i: "\<not> it_target_hash it" "take (length h) es = h" "it_state it = ASYNC_ITERATOR_FINISHED \<and> \<not> st \<longrightarrow> h = es"
    using inv arr by (auto simp: order_inv_def object_inv_def)
  consider (leave) "it_state it = ASYNC_ITERATOR_FINISHED \<or> it_state it = ASYNC_ITERATOR_MOVING"
    | (go) "it_state it = ASYNC_ITERATOR_STARTED" using arr(2) by (cases "it_state it") auto
  then show ?thesis
  proof cases
    case leave
    then have "r = (it, Leaves None)" using r object_loop_cases(1) [OF i(1) leave] by simp
    moreover have "as @ bs = [] \<longrightarrow> it_state it \<noteq> ASYNC_ITERATOR_MOVING"
      using inv arr by (auto simp: order_inv_def object_inv_def split: list.splits)
    ultimately show ?thesis using inv leave i(3) by (auto simp: next_ok_def)
  next
    case go
    have m: "filter moving (as @ bs) = []" "length h = c"
      using inv arr go by (auto simp: order_inv_def object_inv_def split: list.splits)
    show ?thesis
    proof (cases "c < length es")
      case True
      then have "r = (it\<lparr>it_state := ASYNC_ITERATOR_MOVING, it_is_cancelled := True\<rparr>, Calls (Frame_current (it_ref_count it)))"
        using r go object_loop_cases(2) [OF i(1), of "c < length es"] by simp
      then show ?thesis using next_ok_mover [OF inv arr(1) m(1), of "Frame_current (it_ref_count it)"] m(2) True by simp
    next
      case False
      then have "r = (finish it, Leaves None)"
        using r go object_loop_cases(2) [OF i(1), of "c < length es"] by simp
      moreover have "h = es" using i(2) False m(2) by simp
      ultimately show ?thesis using inv arr m
        by (auto simp: next_ok_def order_inv_def object_inv_def finish_def)
    qed
  qed
qed

lemma loop_next:
  assumes "order_inv es it (as @ bs) c h st"
    "it_array it \<noteq> None \<longrightarrow> it_hash_iterator it" "it_array it = None \<longrightarrow> it_state it \<noteq> ASYNC_ITERATOR_INIT"
    "resolve_valid (c < length es) (iterate_loop it) = Some r"
  shows "next_ok es as bs c h st r"
proof (cases "it_array it")
  case None
  then show ?thesis using object_loop_next assms by blast
next
  case (Some a)
  have "it_target_hash it" using assms(1,2) Some by (auto simp: order_inv_def array_inv_def)
  moreover have "array_loop it = Some x \<Longrightarrow> snd x \<noteq> Calls Frame_valid" for x
    using array_loop_next [OF assms(1) Some] assms(2) Some
    by (auto simp: next_ok_def order_inv_def plain_frames_def split: prod.splits iterate_next.splits)
  ultimately have "array_loop it = Some r"
    using assms(4) by (auto simp: iterate_loop_def resolve_valid_def split: option.splits prod.splits iterate_next.splits iterate_frame.splits)
  then show ?thesis using array_loop_next [OF assms(1) Some] assms(2) Some by blast
qed


subsection \<open>The steps keep it\<close>

lemma moving_end_fields [simp]:
  "it_state (safe_moving_end prev it) = ASYNC_ITERATOR_STARTED" "it_array (safe_moving_end prev it) = it_array it"
  "it_target_hash (safe_moving_end prev it) = it_target_hash it"
  by (simp_all add: safe_moving_end_def add_microtask_def Let_def)

text \<open>The one moving coroutine stops moving.\<close>

lemma order_inv_moved:
  assumes "order_inv es it (as @ Some f # bs) c h st" "moving (Some f)"
  shows "it_array it = None" "filter moving (as @ bs) = []" "frame_ok es c h (Some f)"
    and "length h = c' \<Longrightarrow> order_inv es (safe_moving_end prev it) (as @ bs) c' h st"
    and "order_inv es (finish (safe_moving_end prev it)) (as @ bs) c' h True"
proof -
  show a: "it_array it = None" using assms by (auto simp: order_inv_def array_inv_def split: option.splits)
  have i: "\<not> it_target_hash it" "take (length h) es = h" "plain_frames (as @ Some f # bs)"
    "object_inv es it (as @ Some f # bs) c h st"
    using assms(1) a by (simp_all add: order_inv_def object_inv_def)
  show m: "filter moving (as @ bs) = []" and "frame_ok es c h (Some f)"
    using i(4) assms(2) by (auto simp: object_inv_def append_eq_Cons_conv Cons_eq_append_conv split: list.splits)
  have p: "plain_frames (as @ bs)" using i(3) by (simp add: plain_frames_def)
  show "length h = c' \<Longrightarrow> order_inv es (safe_moving_end prev it) (as @ bs) c' h st"
    using a i(1,2) p m by (simp add: order_inv_def object_inv_def)
  show "order_inv es (finish (safe_moving_end prev it)) (as @ bs) c' h True"
    using a i(1,2) p m by (simp add: order_inv_def object_inv_def finish_def)
qed

lemma next_ok_finish: "order_inv es (finish it) (as @ bs) c h True \<Longrightarrow> next_ok es as bs c h True (finish it, Leaves threw)"
  by (simp add: next_ok_def)

lemma rewound_next:
  assumes inv: "order_inv es it (as @ Some (Frame_rewind prev) # bs) c h st"
    and r: "resolve_valid (0 < length es) (after_rewind prev threw it) = Some r"
  shows "next_ok es as bs 0 h (st \<or> threw \<noteq> None) r"
proof -
  note mv = order_inv_moved [OF inv eqTrueE [OF moving.simps(1)]]
  show ?thesis
  proof (cases threw)
    case None
    have inv': "order_inv es (safe_moving_end prev it) (as @ bs) 0 h (st \<or> False)"
      using mv(3) by (intro order_inv_stopped mv(4)) simp
    have "resolve_valid (0 < length es) (iterate_loop (safe_moving_end prev it)) = Some r"
      using r None by (simp add: after_rewind_def)
    from loop_next [OF inv' _ _ this] mv(1) None show ?thesis by simp
  next
    case (Some x)
    then have "r = (finish (safe_moving_end prev it), Leaves (Some x))"
      using r by (simp add: after_rewind_def resolve_valid_def)
    then show ?thesis using next_ok_finish [OF mv(5)] Some by simp
  qed
qed

text \<open>From one block for safe moving into the next.\<close>

lemma moving_next:
  assumes inv: "order_inv es it (as @ Some f # bs) c h st" "moving (Some f)" "length h = c"
    and frames: "\<And>n. moving (Some (g n))" "\<And>n. frame_ok es c h (Some (g n))"
  shows "next_ok es as bs c h st (safe_moving_start g (safe_moving_end prev it))"
  using next_ok_mover [OF order_inv_moved(4) [OF inv(1,2,3)] _ order_inv_moved(2) [OF inv(1,2)] frames(1,2)]
    order_inv_moved(1) [OF inv(1,2)] by (simp add: safe_moving_start_def)

lemma current_next:
  assumes inv: "order_inv es it (as @ Some (Frame_current prev) # bs) c h st"
    and r: "after_current prev (if c < length es then Some (Element (snd (es ! c))) else None) threw it = Some r"
  shows "next_ok es as bs c h (st \<or> threw \<noteq> None) r"
proof -
  note mv = order_inv_moved [OF inv eqTrueE [OF moving.simps(2)]]
  show ?thesis
  proof (cases threw)
    case None
    have r': "r = safe_moving_start (Frame_key (Element (snd (es ! c)))) (safe_moving_end prev it)"
      using r mv(3) None by (simp add: after_current_def)
    show ?thesis using moving_next [OF inv, of "Frame_key (Element (snd (es ! c)))" prev] mv(3) None r' by simp
  next
    case (Some x)
    then have "r = (finish (safe_moving_end prev it), Leaves (Some x))" using r by (simp add: after_current_def)
    then show ?thesis using next_ok_finish [OF mv(5)] Some by simp
  qed
qed

lemma key_next:
  assumes inv: "order_inv es it (as @ Some (Frame_key e prev) # bs) c h st"
    and r: "after_key e prev (fst (es ! c)) threw it = Some r"
  shows "next_ok es as bs c h (st \<or> threw \<noteq> None) r"
proof -
  note mv = order_inv_moved [OF inv eqTrueE [OF moving.simps(4)]]
  show ?thesis
  proof (cases threw)
    case None
    have r': "r = safe_moving_start (Frame_move (fst (es ! c)) e) (safe_moving_end prev it)"
      using r None by (simp add: after_key_def)
    show ?thesis using moving_next [OF inv, of "Frame_move (fst (es ! c)) e" prev] mv(3) None r' by simp
  next
    case (Some x)
    then have "r = (finish (safe_moving_end prev it), Leaves (Some x))" using r by (simp add: after_key_def)
    then show ?thesis using next_ok_finish [OF mv(5)] Some by simp
  qed
qed

lemma move_next:
  assumes inv: "order_inv es it (as @ Some (Frame_move k e prev) # bs) c h st"
    and r: "after_move k e prev threw it = Some r" and c': "threw = None \<longrightarrow> c' = c + 1"
  shows "next_ok es as bs c' h (st \<or> threw \<noteq> None) r"
proof -
  note mv = order_inv_moved [OF inv eqTrueE [OF moving.simps(5)]]
  show ?thesis
  proof (cases threw)
    case None
    have r': "r = (safe_moving_end prev it, Calls (Frame_handler k e))" using r None by (simp add: after_move_def)
    have f: "length h = c" "c < length es" "k = fst (es ! c)" "e = Element (snd (es ! c))" using mv(3) by auto
    have t: "take (length h) es = h" "\<not> it_target_hash it" "plain_frames (as @ Some (Frame_move k e prev) # bs)"
      using inv mv(1) by (simp_all add: order_inv_def object_inv_def)
    have "take (Suc c) es = h @ [es ! c]" using t(1) f(1,2) by (metis take_Suc_conv_app_nth)
    then show ?thesis using mv(1,2) f t(2,3) None c' r'
      by (simp add: next_ok_def order_inv_def object_inv_def plain_frames_def)
  next
    case (Some x)
    then have "r = (finish (safe_moving_end prev it), Leaves (Some x))" using r by (simp add: after_move_def)
    then show ?thesis using next_ok_finish [OF mv(5)] Some by simp
  qed
qed

lemma order_inv_finish: "order_inv es it (as @ bs) c h st \<Longrightarrow> it_state it \<noteq> ASYNC_ITERATOR_INIT \<or> it_array it \<noteq> None \<Longrightarrow>
  order_inv es (finish it) (as @ bs) c h True"
  by (auto simp: order_inv_def object_inv_def array_inv_def finish_def split: option.splits list.splits)

lemma handler_next:
  assumes inv: "order_inv es it (as @ Some (Frame_handler k e) # bs) c h st"
    and r: "resolve_valid (c < length es) (after_handler success returned_false threw it) = Some r"
  shows "next_ok es as bs c h (st \<or> threw \<noteq> None \<or> \<not> success \<or> returned_false) r"
proof -
  have inv': "order_inv es it (as @ bs) c h st" using inv by (rule order_inv_without) simp
  have arr: "it_array it \<noteq> None \<longrightarrow> it_hash_iterator it"
    using inv by (auto simp: order_inv_def array_inv_def split: if_splits)
  have obj: "it_array it = None \<longrightarrow> it_state it \<noteq> ASYNC_ITERATOR_INIT"
    using inv by (auto simp: order_inv_def object_inv_def split: list.splits)
  have fin: "order_inv es (finish it) (as @ bs) c h True" using inv' obj by (intro order_inv_finish) auto
  consider (fails) "\<not> success \<or> threw \<noteq> None" | (stops) "success" "threw = None" "returned_false"
    | (goes_on) "success" "threw = None" "\<not> returned_false" by blast
  then show ?thesis
  proof cases
    case fails
    have "r = (finish it, Leaves threw)"
      using r fails by (auto simp: after_handler_def resolve_valid_def finish_def Let_def)
    then show ?thesis using next_ok_finish [OF fin] fails by auto
  next
    case stops
    then have "resolve_valid (c < length es) (iterate_loop (finish it)) = Some r"
      using r by (simp add: after_handler_def Let_def)
    from loop_next [OF fin _ _ this] show ?thesis using arr stops by (simp add: finish_def)
  next
    case goes_on
    then have "resolve_valid (c < length es) (iterate_loop it) = Some r"
      using r by (simp add: after_handler_def Let_def)
    from loop_next [OF inv' arr obj this] show ?thesis using goes_on by simp
  qed
qed


lemma begin_next:
  assumes inv: "order_inv es it (as @ None # bs) c h st"
    and r: "resolve_valid (c < length es) (async_iterator_run it) = Some r"
  shows "next_ok es as bs c h st r"
proof -
  define it1 where "it1 = add_microtask it"
  have f: "it_state it1 = it_state it" "it_array it1 = it_array it" "it_target_hash it1 = it_target_hash it"
    "it_hash_iterator it1 = it_hash_iterator it" "it_position it1 = it_position it" "it_has_rewind it1 = it_has_rewind it"
    by (simp_all add: it1_def add_microtask_def)
  have "order_inv es it (as @ bs) c h st" using inv by (rule order_inv_without) simp
  then have inv1: "order_inv es it1 (as @ bs) c h st" using order_inv_cong [OF f] by blast
  have r1: "resolve_valid (c < length es) (iterate it1) = Some r" using r by (simp add: async_iterator_run_def it1_def)
  consider (mv) "it_state it1 = ASYNC_ITERATOR_MOVING"
    | (arr) "it_state it1 \<noteq> ASYNC_ITERATOR_MOVING" "it_array it1 \<noteq> None"
    | (init) "it_array it1 = None" "it_state it1 = ASYNC_ITERATOR_INIT"
    | (obj) "it_state it1 \<noteq> ASYNC_ITERATOR_MOVING" "it_array it1 = None" "it_state it1 \<noteq> ASYNC_ITERATOR_INIT"
    by blast
  then show ?thesis
  proof cases
    case mv
    then have "r = (it1, Leaves None)" using r1 by (simp add: iterate_def resolve_valid_def)
    moreover have "as @ bs \<noteq> []"
      using inv1 mv by (auto simp: order_inv_def array_inv_def object_inv_def split: option.splits list.splits)
    ultimately show ?thesis using inv1 by (auto simp: next_ok_def)
  next
    case arr
    define it2 where "it2 = (if it_hash_iterator it1 then it1 else it1\<lparr>it_hash_iterator := True, it_position := 0\<rparr>)
      \<lparr>it_target_hash := True\<rparr>"
    have "order_inv es it2 (as @ bs) c h st"
      using inv1 arr by (auto simp: it2_def order_inv_def array_inv_def)
    moreover have "resolve_valid (c < length es) (iterate_loop it2) = Some r"
      using r1 arr by (simp add: iterate_def it2_def)
    moreover have "it_array it2 \<noteq> None \<longrightarrow> it_hash_iterator it2"
      "it_array it2 = None \<longrightarrow> it_state it2 \<noteq> ASYNC_ITERATOR_INIT" using arr by (auto simp: it2_def)
    ultimately show ?thesis by (metis loop_next)
  next
    case init
    have i: "h = []" "it_has_rewind it1 \<or> c = 0" "filter moving (as @ bs) = []" "\<not> it_target_hash it1" "plain_frames (as @ bs)"
      using inv1 init by (auto simp: order_inv_def object_inv_def split: list.splits)
    define it2 where "it2 = it1\<lparr>it_state := ASYNC_ITERATOR_STARTED, it_position := 0\<rparr>"
    have it2: "it_array it2 = None" "it_state it2 \<noteq> ASYNC_ITERATOR_INIT" "it_has_rewind it2 = it_has_rewind it1"
      using init by (simp_all add: it2_def)
    show ?thesis
    proof (cases "it_has_rewind it1")
      case True
      have "r = (it2\<lparr>it_state := ASYNC_ITERATOR_MOVING, it_is_cancelled := True\<rparr>, Calls (Frame_rewind (it_ref_count it2)))"
        using r1 init True by (simp add: iterate_def it2_def safe_moving_start_def resolve_valid_def)
      then show ?thesis using i init
        by (simp add: next_ok_def it2_def order_inv_def object_inv_def plain_frames_def)
    next
      case False
      then have "order_inv es it2 (as @ bs) c h st"
        using i init by (simp add: it2_def order_inv_def object_inv_def)
      moreover have "resolve_valid (c < length es) (iterate_loop it2) = Some r"
        using r1 init False by (simp add: iterate_def it2_def)
      ultimately show ?thesis using loop_next it2 by blast
    qed
  next
    case obj
    then have "resolve_valid (c < length es) (iterate_loop it1) = Some r" using r1 by (simp add: iterate_def)
    then show ?thesis using loop_next [OF inv1] obj by blast
  qed
qed

text \<open>The end of a coroutine changes the state only if it was the last one.\<close>

lemma ending_fields:
  assumes "it' = fst (entry_end is_exit threw it) \<or> it' = coroutine_extended_dispose it \<or>
    it' = coroutine_extended_dispose_with_exception it"
  shows "it_array it' = it_array it" "it_target_hash it' = it_target_hash it" "it_hash_iterator it' = it_hash_iterator it"
    "it_position it' = it_position it" "it_has_rewind it' = it_has_rewind it"
    "it_state it' = (if 1 < it_active_coroutines it then it_state it else ASYNC_ITERATOR_FINISHED)"
proof -
  have n: "it_array (notify_completion x) = it_array x \<and> it_target_hash (notify_completion x) = it_target_hash x \<and>
      it_hash_iterator (notify_completion x) = it_hash_iterator x \<and> it_position (notify_completion x) = it_position x \<and>
      it_has_rewind (notify_completion x) = it_has_rewind x" for x :: "('a, 'b) async_iterator"
    by (simp add: notify_completion_def it_effect_def)
  have e: "it_array (release_exception x) = it_array x \<and> it_target_hash (release_exception x) = it_target_hash x \<and>
      it_hash_iterator (release_exception x) = it_hash_iterator x \<and> it_position (release_exception x) = it_position x \<and>
      it_has_rewind (release_exception x) = it_has_rewind x" for x :: "('a, 'b) async_iterator"
    by (simp add: release_exception_def it_effect_def split: option.split)
  have d: "it_array (coroutine_extended_dispose x) = it_array x \<and> it_target_hash (coroutine_extended_dispose x) = it_target_hash x \<and>
      it_hash_iterator (coroutine_extended_dispose x) = it_hash_iterator x \<and>
      it_position (coroutine_extended_dispose x) = it_position x \<and> it_has_rewind (coroutine_extended_dispose x) = it_has_rewind x \<and>
      it_state (coroutine_extended_dispose x) = (if 1 < it_active_coroutines x then it_state x else ASYNC_ITERATOR_FINISHED)"
    for x :: "('a, 'b) async_iterator"
    by (simp add: coroutine_extended_dispose_def iterator_dtor_def iterator_release_coroutine_def n e)
  define x where "x = (case it_exception it of None \<Rightarrow> it
    | Some y \<Rightarrow> it_effect (Exception_rethrown y) (it\<lparr>it_exception := None\<rparr>))"
  have x: "it_array x = it_array it" "it_target_hash x = it_target_hash it" "it_hash_iterator x = it_hash_iterator it"
    "it_position x = it_position it" "it_has_rewind x = it_has_rewind it" "it_state x = it_state it"
    "it_active_coroutines x = it_active_coroutines it"
    by (simp_all add: x_def it_effect_def split: option.split)
  define y where "y = fst (run_end is_exit threw it)"
  have y: "it_array y = it_array it" "it_target_hash y = it_target_hash it" "it_hash_iterator y = it_hash_iterator it"
    "it_position y = it_position it" "it_has_rewind y = it_has_rewind it" "it_state y = it_state it"
    "it_active_coroutines y = it_active_coroutines it"
    by (simp_all add: y_def run_end_def async_iterator_apply_exception_def Let_def it_effect_def notify_completion_def split_beta)
  have "fst (entry_end is_exit threw it) = coroutine_extended_dispose y"
    by (simp add: entry_end_def coroutine_extended_dispose_def y_def split: prod.split)
  then consider "it' = coroutine_extended_dispose it" | "it' = coroutine_extended_dispose x" | "it' = coroutine_extended_dispose y"
    using assms by (auto simp: coroutine_extended_dispose_with_exception_def x_def)
  then show "it_array it' = it_array it" "it_target_hash it' = it_target_hash it" "it_hash_iterator it' = it_hash_iterator it"
    "it_position it' = it_position it" "it_has_rewind it' = it_has_rewind it"
    "it_state it' = (if 1 < it_active_coroutines it then it_state it else ASYNC_ITERATOR_FINISHED)"
    by (cases, simp_all add: d x y)+
qed

lemma ending_order:
  assumes "order_inv es it (as @ bs) c h st" "as @ bs = [] \<longrightarrow> st \<or> h = es" "slots_ok k it (Suc (length (as @ bs)))"
    and it': "it' = fst (entry_end is_exit threw it) \<or> it' = coroutine_extended_dispose it \<or>
      it' = coroutine_extended_dispose_with_exception it"
  shows "order_inv es it' (as @ bs) c h st"
proof (cases "as @ bs = []")
  case False
  then have "1 < it_active_coroutines it" using assms(3) by (auto simp: slots_ok_def word_less_nat_alt)
  then have "it_state it' = it_state it" using ending_fields(6) [OF it'] by simp
  then show ?thesis using order_inv_cong [OF _ ending_fields(1-5) [OF it']] assms(1) by blast
next
  case True
  then have "\<not> 1 < it_active_coroutines it" using assms(3) by (auto simp: slots_ok_def word_less_nat_alt)
  then have "it_state it' = ASYNC_ITERATOR_FINISHED" using ending_fields(6) [OF it'] by simp
  then show ?thesis using assms(1,2) True ending_fields(1-5) [OF it']
    by (auto simp: order_inv_def object_inv_def array_inv_def split: option.splits)
qed


subsection \<open>Every run keeps it\<close>

definition iter_inv :: "('k \<times> 'v) list \<Rightarrow> ('k, 'v) iteration \<Rightarrow> bool" where
  "iter_inv es s \<longleftrightarrow> books_inv s \<and>
     order_inv es (ir_iterator s) (ir_workers s) (ir_cursor s) (ir_handled s) (ir_stopped s)"

lemma same_books_slots:
  assumes "books_inv s" "ir_workers s = as @ w # bs" "same_books (ir_iterator s) it"
  shows "slots_ok (of_bool (ir_waited s)) it (Suc (length (as @ bs)))"
  using same_books_keep(2) [OF assms(3)] assms(1,2) by (simp add: books_inv_def)

lemma proceed_order:
  assumes "iter_inv es s" "ir_workers s = as @ w # bs" "same_books (ir_iterator s) (fst r)"
    and "next_ok es as bs (ir_cursor t) (ir_handled t) (ir_stopped t) r" and "s' = proceed is_exit as bs r t"
  shows "order_inv es (ir_iterator s') (ir_workers s') (ir_cursor s') (ir_handled s') (ir_stopped s')"
proof -
  obtain it nxt where r: "r = (it, nxt)" by (cases r)
  show ?thesis
  proof (cases nxt)
    case (Calls f)
    then show ?thesis using assms(4,5) r by (simp add: proceed_def next_ok_def)
  next
    case (Leaves threw)
    have "books_inv s" using assms(1) by (simp add: iter_inv_def)
    then have "slots_ok (of_bool (ir_waited s)) it (Suc (length (as @ bs)))" using same_books_slots assms(2,3) r by fastforce
    moreover have "order_inv es it (as @ bs) (ir_cursor t) (ir_handled t) (ir_stopped t)"
      "as @ bs = [] \<longrightarrow> ir_stopped t \<or> ir_handled t = es"
      using assms(4) r Leaves by (simp_all add: next_ok_def)
    ultimately have "order_inv es (fst (entry_end is_exit threw it)) (as @ bs) (ir_cursor t) (ir_handled t) (ir_stopped t)"
      using ending_order by blast
    then show ?thesis using assms(5) r Leaves by (simp add: proceed_def)
  qed
qed

lemma iter_step_order:
  assumes "iter_step is_exit es s s'" "iter_inv es s"
  shows "order_inv es (ir_iterator s') (ir_workers s') (ir_cursor s') (ir_handled s') (ir_stopped s')"
  using assms
proof (induction rule: iter_step.induct)
  case (begin_run s as bs r)
  have n: "next_ok es as bs (ir_cursor s) (ir_handled s) (ir_stopped s) r"
    using begin_next [OF _ begin_run(2)] begin_run(1,3) by (auto simp: iter_inv_def)
  have "same_books (ir_iterator s) (fst r)"
    using resolve_valid_books [OF begin_run(2)] async_iterator_run_books by blast
  then show ?case using proceed_order [OF begin_run(3) begin_run(1) _ n] by blast
next
  case (rewound s as prev bs threw r)
  define t where "t = s\<lparr>ir_cursor := 0, ir_stopped := ir_stopped s \<or> threw \<noteq> None\<rparr>"
  have n: "next_ok es as bs (ir_cursor t) (ir_handled t) (ir_stopped t) r"
    using rewound_next [OF _ rewound(2)] rewound(1,3) by (auto simp: iter_inv_def t_def)
  have "same_books (ir_iterator s) (fst r)"
    using resolve_valid_books [OF rewound(2)] after_call_books(1) by blast
  then show ?case using proceed_order [OF rewound(3) rewound(1) _ n] unfolding t_def by blast
next
  case (current_read s as prev bs threw r)
  define t where "t = s\<lparr>ir_stopped := ir_stopped s \<or> threw \<noteq> None\<rparr>"
  have n: "next_ok es as bs (ir_cursor t) (ir_handled t) (ir_stopped t) r"
    using current_next [OF _ current_read(2)] current_read(1,3) by (auto simp: iter_inv_def t_def)
  show ?case using proceed_order [OF current_read(3) current_read(1) after_call_books(3) [OF current_read(2)] n] unfolding t_def by blast
next
  case (key_read s as e prev bs threw r)
  define t where "t = s\<lparr>ir_stopped := ir_stopped s \<or> threw \<noteq> None\<rparr>"
  have n: "next_ok es as bs (ir_cursor t) (ir_handled t) (ir_stopped t) r"
    using key_next [OF _ key_read(2)] key_read(1,3) by (auto simp: iter_inv_def t_def)
  show ?case using proceed_order [OF key_read(3) key_read(1) after_call_books(4) [OF key_read(2)] n] unfolding t_def by blast
next
  case (moved s as k e prev bs threw r c)
  define t where "t = s\<lparr>ir_cursor := c, ir_stopped := ir_stopped s \<or> threw \<noteq> None\<rparr>"
  have n: "next_ok es as bs (ir_cursor t) (ir_handled t) (ir_stopped t) r"
    using move_next [OF _ moved(2,3)] moved(1,4) by (auto simp: iter_inv_def t_def)
  show ?case using proceed_order [OF moved(4) moved(1) after_call_books(5) [OF moved(2)] n] unfolding t_def by blast
next
  case (handled s as k e bs success returned_false threw r)
  define t where "t = s\<lparr>ir_stopped := ir_stopped s \<or> threw \<noteq> None \<or> \<not> success \<or> returned_false\<rparr>"
  have n: "next_ok es as bs (ir_cursor t) (ir_handled t) (ir_stopped t) r"
    using handler_next [OF _ handled(2)] handled(1,3) by (auto simp: iter_inv_def t_def)
  have "same_books (ir_iterator s) (fst r)"
    using resolve_valid_books [OF handled(2)] after_call_books(6) by blast
  then show ?case using proceed_order [OF handled(3) handled(1) _ n] unfolding t_def by blast
next
  case (disposed s as bs it)
  have "order_inv es (ir_iterator s) (as @ bs) (ir_cursor s) (ir_handled s) True"
    using order_inv_stopped [OF order_inv_without, of es "ir_iterator s" as None bs "ir_cursor s" "ir_handled s" "ir_stopped s" True]
      disposed(1,3) by (simp add: iter_inv_def)
  moreover have "slots_ok (of_bool (ir_waited s)) (ir_iterator s) (Suc (length (as @ bs)))"
    using same_books_slots [OF _ disposed(1) same_books_refl] disposed(3) by (simp add: iter_inv_def)
  ultimately have "order_inv es it (as @ bs) (ir_cursor s) (ir_handled s) True"
    using ending_order disposed(2) by blast
  then show ?case by simp
next
  case (microtask s spawns it spawned)
  have it: "it_state it = it_state (ir_iterator s)" "it_array it = it_array (ir_iterator s)"
    "it_target_hash it = it_target_hash (ir_iterator s)" "it_hash_iterator it = it_hash_iterator (ir_iterator s)"
    "it_position it = it_position (ir_iterator s)" "it_has_rewind it = it_has_rewind (ir_iterator s)"
    using microtask(3) by (auto simp: execute_microtask_def iterator_microtask_def iterator_dtor_def release_exception_def
        notify_completion_def it_effect_def Let_def split: if_splits option.splits)
  have "order_inv es it (ir_workers s @ (if spawned then [None] else [])) (ir_cursor s) (ir_handled s) (ir_stopped s)"
    using microtask(4) unfolding order_inv_cong [OF it]
    by (auto simp: iter_inv_def order_inv_def object_inv_def array_inv_def plain_frames_def split: option.splits list.splits)
  then show ?case by simp
next
  case (released s)
  define it where "it = iterator_dtor (ir_iterator s)"
  have it: "it_state it = it_state (ir_iterator s)" "it_array it = it_array (ir_iterator s)"
    "it_target_hash it = it_target_hash (ir_iterator s)" "it_hash_iterator it = it_hash_iterator (ir_iterator s)"
    "it_position it = it_position (ir_iterator s)" "it_has_rewind it = it_has_rewind (ir_iterator s)"
    by (simp_all add: it_def iterator_dtor_def release_exception_def notify_completion_def it_effect_def split: option.split)
  then show ?case using order_inv_cong [OF it] released(2) by (simp add: iter_inv_def it_def)
qed

lemma iter_start_order: "iter_start es s \<Longrightarrow> iter_inv es s"
  using iter_start_books [of es s]
  by (auto simp: iter_inv_def iter_start_def order_inv_def object_inv_def array_inv_def plain_frames_def
      async_iterator_run_in_coroutine_def async_iterator_new_def)

interpretation iterator_runs: step_system "iter_start es" "iter_step is_exit es" "iter_inv es" for is_exit es
proof
  show "iter_start es s \<Longrightarrow> iter_inv es s" for s by (rule iter_start_order)
  show "iter_inv es s \<Longrightarrow> iter_step is_exit es s s' \<Longrightarrow> iter_inv es s'" for s s'
    using iter_step_order iter_step_books by (auto simp: iter_inv_def)
qed

end
