(* ===== verification/Async_Iterator_Properties.thy ===== *)
theory Async_Iterator_Properties
  imports Async_Iterator_Order
begin

text \<open>The properties of the concurrent iterator, with a run of two coroutines over an array.\<close>

subsection \<open>A run\<close>

abbreviation no_exit :: "throwable \<Rightarrow> bool" where "no_exit \<equiv> \<lambda>_. False"

definition demo_elements :: "(nat \<times> nat) list" where
  "demo_elements = [(0, 10), (1, 11)]"

definition demo_iteration :: "(nat, nat) iteration" where
  "demo_iteration =
     \<lparr>ir_iterator =
        (fst (async_iterator_run_in_coroutine True (async_iterator_new (Some (as_array demo_elements)) False False 2)))
        \<lparr>it_completion_event := True, it_ref_count := 2\<rparr>,
      ir_workers = [None], ir_holders = 1, ir_cursor = 0, ir_handled = [], ir_stopped = False, ir_waited = True\<rparr>"

definition demo_begin :: "(nat, nat) iterate_frame option list \<Rightarrow> (nat, nat) iteration \<Rightarrow> (nat, nat) iteration" where
  "demo_begin as s =
     proceed no_exit as [] (the (resolve_valid (ir_cursor s < length demo_elements) (async_iterator_run (ir_iterator s)))) s"

definition demo_handled :: "(nat, nat) iterate_frame option list \<Rightarrow> (nat, nat) iteration \<Rightarrow> (nat, nat) iteration" where
  "demo_handled bs s =
     proceed no_exit [] bs
       (the (resolve_valid (ir_cursor s < length demo_elements) (after_handler True False None (ir_iterator s))))
       (s\<lparr>ir_stopped := ir_stopped s \<or> None \<noteq> (None :: throwable option) \<or> \<not> True \<or> False\<rparr>)"

definition demo_microtask :: "(nat, nat) iteration \<Rightarrow> (nat, nat) iteration" where
  "demo_microtask s =
     s\<lparr>ir_iterator := fst (execute_microtask True (ir_iterator s)),
       ir_workers := ir_workers s @ (if snd (execute_microtask True (ir_iterator s)) then [None] else [])\<rparr>"

text \<open>The first coroutine stands in the handler, a second one is spawned and stands in the handler too.\<close>

definition demo_one :: "(nat, nat) iteration" where
  "demo_one = demo_begin [] demo_iteration"

definition demo_two :: "(nat, nat) iteration" where
  "demo_two = demo_begin (butlast (ir_workers (demo_microtask demo_one))) (demo_microtask demo_one)"

definition demo_ended :: "(nat, nat) iteration" where
  "demo_ended = demo_handled [] (demo_handled (tl (ir_workers demo_two)) demo_two)"

lemma demo_start: "iter_start demo_elements demo_iteration"
  unfolding iter_start_def demo_iteration_def
  by (rule exI [of _ "Some (as_array demo_elements)"], rule exI [of _ False], rule exI [of _ False],
      rule exI [of _ 2], rule exI [of _ True], rule exI [of _ 0]) simp

lemma demo_begin_step:
  assumes "ir_workers s = as @ [None]"
    "resolve_valid (ir_cursor s < length demo_elements) (async_iterator_run (ir_iterator s)) \<noteq> None"
  shows "iter_step no_exit demo_elements s (demo_begin as s)"
  using assms unfolding demo_begin_def by (intro iter_step.begin_run) auto

lemma demo_handled_step:
  assumes "ir_workers s = Some (Frame_handler k e) # bs"
    "resolve_valid (ir_cursor s < length demo_elements) (after_handler True False None (ir_iterator s)) \<noteq> None"
  shows "iter_step no_exit demo_elements s (demo_handled bs s)"
  using assms unfolding demo_handled_def by (intro iter_step.handled) auto

lemma demo_microtask_step:
  assumes "0 < it_queued (ir_iterator s)" "length (ir_workers s) \<le> 10"
  shows "iter_step no_exit demo_elements s (demo_microtask s)"
  using assms unfolding demo_microtask_def by (intro iter_step.microtask [where spawns = True]) (auto simp: room_def)

lemma demo_evaluates:
  "ir_workers demo_iteration = [] @ [None]"
  "resolve_valid (ir_cursor demo_iteration < length demo_elements) (async_iterator_run (ir_iterator demo_iteration)) \<noteq> None"
  "0 < it_queued (ir_iterator demo_one)" "length (ir_workers demo_one) \<le> 10"
  "ir_workers (demo_microtask demo_one) = butlast (ir_workers (demo_microtask demo_one)) @ [None]"
  "resolve_valid (ir_cursor (demo_microtask demo_one) < length demo_elements)
     (async_iterator_run (ir_iterator (demo_microtask demo_one))) \<noteq> None"
  "ir_workers demo_two = [Some (Frame_handler 0 (Element 10)), Some (Frame_handler 1 (Element 11))]"
  by code_simp+

lemma demo_evaluates_end:
  "resolve_valid (ir_cursor demo_two < length demo_elements) (after_handler True False None (ir_iterator demo_two)) \<noteq> None"
  "ir_workers (demo_handled (tl (ir_workers demo_two)) demo_two) = [Some (Frame_handler 1 (Element 11))]"
  "resolve_valid (ir_cursor (demo_handled (tl (ir_workers demo_two)) demo_two) < length demo_elements)
     (after_handler True False None (ir_iterator (demo_handled (tl (ir_workers demo_two)) demo_two))) \<noteq> None"
  "ir_workers demo_ended = []" "\<not> ir_stopped demo_ended"
  by code_simp+

lemma demo_run_two: "(iter_step no_exit demo_elements)\<^sup>*\<^sup>* demo_iteration demo_two"
proof -
  have "iter_step no_exit demo_elements demo_iteration demo_one"
    unfolding demo_one_def using demo_evaluates(1,2) by (rule demo_begin_step)
  moreover have "iter_step no_exit demo_elements demo_one (demo_microtask demo_one)"
    using demo_evaluates(3,4) by (rule demo_microtask_step)
  moreover have "iter_step no_exit demo_elements (demo_microtask demo_one) demo_two"
    unfolding demo_two_def using demo_evaluates(5,6) by (rule demo_begin_step)
  ultimately show ?thesis by (meson converse_rtranclp_into_rtranclp rtranclp.rtrancl_refl)
qed

lemma demo_run_ended: "(iter_step no_exit demo_elements)\<^sup>*\<^sup>* demo_iteration demo_ended"
proof -
  have "iter_step no_exit demo_elements demo_two (demo_handled (tl (ir_workers demo_two)) demo_two)"
    using demo_evaluates(7) demo_evaluates_end(1) by (intro demo_handled_step) auto
  moreover have "iter_step no_exit demo_elements (demo_handled (tl (ir_workers demo_two)) demo_two) demo_ended"
    unfolding demo_ended_def using demo_evaluates_end(2,3) by (rule demo_handled_step)
  ultimately show ?thesis using demo_run_two by (meson rtranclp.rtrancl_into_rtrancl)
qed

subsection \<open>Properties\<close>

text \<open>
  C27. However many coroutines iterate and wherever they suspend, the handler is called for the
  elements in their order and for none twice; and when all coroutines have ended without a
  failed call, a handler that returned false or a coroutine discarded before it began, it was
  called for every element.
\<close>

theorem iteration_in_order_exactly_once:
  assumes "iter_start es s0" "(iter_step is_exit es)\<^sup>*\<^sup>* s0 s"
  shows "(\<exists>rest. es = ir_handled s @ rest) \<and> (ir_workers s = [] \<and> \<not> ir_stopped s \<longrightarrow> ir_handled s = es)"
proof -
  have inv: "iter_inv es s" by (rule iterator_runs.run_good [OF assms])
  then have "es = ir_handled s @ drop (length (ir_handled s)) es"
    by (metis iter_inv_def order_inv_def append_take_drop_id)
  then have "\<exists>rest. es = ir_handled s @ rest" by (rule exI)
  moreover have "ir_handled s = es" if "ir_workers s = [] \<and> \<not> ir_stopped s"
    using inv that by (auto simp: iter_inv_def books_inv_def slots_ok_def order_inv_def)
  ultimately show ?thesis by blast
qed

theorem iteration_in_order_exactly_once_witness:
  "(\<exists>rest. demo_elements = ir_handled demo_ended @ rest) \<and> ir_handled demo_ended = demo_elements"
  using iteration_in_order_exactly_once [OF demo_start demo_run_ended] demo_evaluates_end(4,5) by blast

text \<open>
  C28. The books of an iterator are exact: it has as many active slots as coroutines and never more
  than its concurrency; it is freed exactly when no coroutine, no queued microtask and no caller
  refers to it; and whoever waits for completion is told exactly once, at the latest when the last
  coroutine ends.
\<close>

theorem iterator_books_exact:
  assumes "iter_start es s0" "(iter_step is_exit es)\<^sup>*\<^sup>* s0 s"
  shows "unat (it_active_coroutines (ir_iterator s)) = length (ir_workers s) \<and>
    (0 < it_concurrency (ir_iterator s) \<longrightarrow> length (ir_workers s) \<le> unat (it_concurrency (ir_iterator s))) \<and>
    (it_freed (ir_iterator s) \<longleftrightarrow> ir_workers s = [] \<and> it_queued (ir_iterator s) = 0 \<and> ir_holders s = 0) \<and>
    (\<not> it_freed (ir_iterator s) \<longrightarrow>
       it_ref_count (ir_iterator s) = it_queued (ir_iterator s) + length (ir_workers s) + ir_holders s) \<and>
    completions (ir_iterator s) \<le> of_bool (ir_waited s) \<and>
    (ir_workers s = [] \<longrightarrow> completions (ir_iterator s) = of_bool (ir_waited s))"
proof -
  have inv: "refs_ok (ir_iterator s) (length (ir_workers s) + ir_holders s)"
    "slots_ok (of_bool (ir_waited s)) (ir_iterator s) (length (ir_workers s))"
    using iterator_runs.run_good [OF assms] by (simp_all add: iter_inv_def books_inv_def)
  then show ?thesis by (auto simp: refs_ok_def slots_ok_def word_le_nat_alt split: if_splits)
qed

theorem iterator_books_exact_witness:
  "unat (it_active_coroutines (ir_iterator demo_two)) = 2 \<and> \<not> it_freed (ir_iterator demo_two) \<and>
    it_ref_count (ir_iterator demo_two) = it_queued (ir_iterator demo_two) + 2 + ir_holders demo_two \<and>
    completions (ir_iterator demo_two) \<le> of_bool (ir_waited demo_two)"
  using iterator_books_exact [OF demo_start demo_run_two] demo_evaluates(7) by simp

text \<open>
  A stop is undone by a coroutine that is moving the iterator: when a handler returns false
  while another coroutine is suspended in \<^verbatim>\<open>move_forward\<close>, the iterator is finished, but the end of
  that move starts it again, and the handler is called for the next element.
\<close>

theorem stop_undone_by_move:
  assumes "it_state it = ASYNC_ITERATOR_MOVING" "it_array it = None" "\<not> it_target_hash it"
  shows "\<exists>stopped continued.
    after_handler True True None it = Some (stopped, Leaves None) \<and> it_state stopped = ASYNC_ITERATOR_FINISHED \<and>
    after_move k e prev None stopped = Some (continued, Calls (Frame_handler k e)) \<and>
    it_state continued = ASYNC_ITERATOR_STARTED \<and> \<not> it_is_cancelled continued"
  using assms
  by (simp add: after_handler_def after_move_def iterate_loop_def finish_def safe_moving_end_def add_microtask_def Let_def)

definition demo_moving :: "(nat, nat) async_iterator" where
  "demo_moving = (async_iterator_new None True False 2)\<lparr>it_state := ASYNC_ITERATOR_MOVING, it_is_cancelled := True, it_ref_count := 2\<rparr>"

theorem stop_undone_by_move_witness:
  "\<exists>stopped continued.
    after_handler True True None demo_moving = Some (stopped, Leaves None) \<and> it_state stopped = ASYNC_ITERATOR_FINISHED \<and>
    after_move 7 (Element 8) 2 None stopped = Some (continued, Calls (Frame_handler 7 (Element 8))) \<and>
    it_state continued = ASYNC_ITERATOR_STARTED \<and> \<not> it_is_cancelled continued"
  by (rule stop_undone_by_move) (simp_all add: demo_moving_def async_iterator_new_def)

subsection \<open>Other observations\<close>

text \<open>
  After \<^verbatim>\<open>valid\<close> the loop does not look at the state again: if \<^verbatim>\<open>valid\<close> suspends, it starts to move
  although another coroutine may be moving.
\<close>

lemma valid_ignores_moving:
  "it_state it = ASYNC_ITERATOR_MOVING \<Longrightarrow>
   after_valid True None it = Some (it\<lparr>it_is_cancelled := True\<rparr>, Calls (Frame_current (it_ref_count it)))"
  by (simp add: after_valid_def safe_moving_start_def)

text \<open>The loop over an array never gets past an undefined indirect slot.\<close>

lemma undefined_indirect_never_ends:
  assumes "it_array it = Some es" "it_position it < length es" "snd (es ! it_position it) = Undefined_indirect"
    "it_state it = ASYNC_ITERATOR_INIT"
  shows "array_loop it = None"
proof (rule ccontr)
  assume "array_loop it \<noteq> None"
  then obtain r where "array_loop it = Some r" by blast
  then have "\<not> (it_array it = Some es \<and> it_position it < length es \<and> snd (es ! it_position it) = Undefined_indirect \<and>
      it_state it = ASYNC_ITERATOR_INIT)"
  proof (rule array_loop.raw_induct [rotated, where P = "\<lambda>it r. \<not> (it_array it = Some es \<and> it_position it < length es \<and>
        snd (es ! it_position it) = Undefined_indirect \<and> it_state it = ASYNC_ITERATOR_INIT)"])
    fix f :: "('a, 'b) async_iterator \<Rightarrow> (('a, 'b) async_iterator \<times> ('a, 'b) iterate_next) option" and it r
    assume ih: "\<And>it r. f it = Some r \<Longrightarrow> \<not> (it_array it = Some es \<and> it_position it < length es \<and>
        snd (es ! it_position it) = Undefined_indirect \<and> it_state it = ASYNC_ITERATOR_INIT)"
    have indirect: "\<not> (it_array it = Some es \<and> it_position it < length es \<and>
        snd (es ! it_position it) = Undefined_indirect \<and> it_state it = ASYNC_ITERATOR_INIT)"
      if "f (it\<lparr>it_internal_pointer := Suc (it_internal_pointer it)\<rparr>) = Some r"
      using ih [OF that] by simp
    assume "(let es = (case it_array it of Some es \<Rightarrow> es | None \<Rightarrow> []) in
        if it_state it = ASYNC_ITERATOR_FINISHED \<or> it_state it = ASYNC_ITERATOR_MOVING then Some (it, Leaves None)
        else if length es \<le> it_position it then Some (finish it, Leaves None)
        else
          case es ! it_position it of (k, e) \<Rightarrow>
            (case e of
               Undefined_indirect \<Rightarrow> f (it\<lparr>it_internal_pointer := it_internal_pointer it + 1\<rparr>)
             | Element v \<Rightarrow> Some (it\<lparr>it_position := it_position it + 1\<rparr>, Calls (Frame_handler k e)))) = Some r"
    then show "\<not> (it_array it = Some es \<and> it_position it < length es \<and>
        snd (es ! it_position it) = Undefined_indirect \<and> it_state it = ASYNC_ITERATOR_INIT)"
      using indirect by (auto simp: split_beta)
  qed
  then show False using assms by blast
qed

end
