(* ===== verification/Future.thy ===== *)
theory Future
  imports Async_Iterator
begin

text \<open>
  Futures (\<^verbatim>\<open>src/future.c\<close>): the events \<^verbatim>\<open>zend_future_t\<close>, the PHP objects that refer to them, the chains
  made by \<^verbatim>\<open>map()\<close>, \<^verbatim>\<open>catch()\<close> and \<^verbatim>\<open>finally()\<close>, and the iterator that settles a whole chain.  Futures and
  objects are numbered; reference counts of PHP objects are left out.
\<close>

subsection \<open>Data\<close>

datatype async_future_mapper_type =
    ASYNC_FUTURE_MAPPER_SUCCESS
  | ASYNC_FUTURE_MAPPER_CATCH
  | ASYNC_FUTURE_MAPPER_FINALLY

datatype 'v fvalue = FV_undef | FV_null | FV_value 'v

type_synonym location = "string \<times> nat"

text \<open>
  A \<^verbatim>\<open>zend_future_t\<close>.  \<open>zf_callbacks\<close> are the awaiters, \<open>zf_resolve_callbacks\<close> the subscriptions of
  Future objects with the scope captured by the first \<^verbatim>\<open>map()\<close>, \<^verbatim>\<open>catch()\<close> or \<^verbatim>\<open>finally()\<close>.
\<close>

record 'v zend_future =
  zf_closed :: bool
  zf_result :: "'v fvalue"
  zf_exception :: "throwable option"
  zf_used :: bool
  zf_ignored :: bool
  zf_exception_caught :: bool
  zf_exception_handled :: bool
  zf_callbacks :: "nat list"
  zf_resolve_callbacks :: "(nat \<times> nat option) list"
  zf_created :: "location option"
  zf_completed :: "location option"

record future_object =
  fo_event :: "nat option"
  fo_children :: "nat list option"
  fo_mapper :: "nat option"
  fo_mapper_type :: async_future_mapper_type

datatype 'v future_effect =
    Awaiter_called nat "'v fvalue" "throwable option"
  | Chain_started nat "nat option"
  | Mapper_spawned nat nat
  | Unused_warning "location option"
  | Unhandled_warning throwable "location option" "location option"
  | Released_twice 'v
  | Dangling nat

text \<open>\<open>ft_thrown\<close> is the pending exception \<^verbatim>\<open>EG(exception)\<close> of the running coroutine.\<close>

record 'v futures =
  ft_futures :: "nat \<Rightarrow> 'v zend_future option"
  ft_objects :: "nat \<Rightarrow> future_object option"
  ft_next_future :: nat
  ft_next_object :: nat
  ft_thrown :: "throwable option"
  ft_effects :: "'v future_effect list"

text \<open>
  What the engine provides: how a result and an exception are stored before the future is
  resolved, whether an awaiter's callback takes care of an exception, and which values are
  reference counted.
\<close>

record 'v future_core =
  fc_complete :: "'v fvalue \<Rightarrow> 'v zend_future \<Rightarrow> 'v zend_future"
  fc_reject :: "throwable \<Rightarrow> 'v zend_future \<Rightarrow> 'v zend_future"
  fc_handles :: "nat \<Rightarrow> bool"
  fc_refcounted :: "'v \<Rightarrow> bool"

definition ft_effect :: "'v future_effect \<Rightarrow> 'v futures \<Rightarrow> 'v futures" where
  "ft_effect e h = h\<lparr>ft_effects := e # ft_effects h\<rparr>"

definition mod_future :: "nat \<Rightarrow> ('v zend_future \<Rightarrow> 'v zend_future) \<Rightarrow> 'v futures \<Rightarrow> 'v futures" where
  "mod_future f g h =
     (case ft_futures h f of
        None \<Rightarrow> ft_effect (Dangling f) h
      | Some z \<Rightarrow> h\<lparr>ft_futures := (ft_futures h)(f \<mapsto> g z)\<rparr>)"

definition mod_object :: "nat \<Rightarrow> (future_object \<Rightarrow> future_object) \<Rightarrow> 'v futures \<Rightarrow> 'v futures" where
  "mod_object ob g h =
     (case ft_objects h ob of
        None \<Rightarrow> h
      | Some x \<Rightarrow> h\<lparr>ft_objects := (ft_objects h)(ob \<mapsto> g x)\<rparr>)"

definition future_at :: "'v futures \<Rightarrow> nat option \<Rightarrow> 'v zend_future option" where
  "future_at h ev = Option.bind ev (ft_futures h)"

definition children_of :: "'v futures \<Rightarrow> nat \<Rightarrow> nat list" where
  "children_of h ob = (case ft_objects h ob of None \<Rightarrow> [] | Some x \<Rightarrow> (case fo_children x of None \<Rightarrow> [] | Some cs \<Rightarrow> cs))"

definition event_of :: "'v futures \<Rightarrow> nat \<Rightarrow> nat option" where
  "event_of h ob = Option.bind (ft_objects h ob) fo_event"

subsection \<open>Creation\<close>

definition new_zend_future :: "location option \<Rightarrow> 'v zend_future" where
  "new_zend_future loc =
     \<lparr>zf_closed = False, zf_result = FV_undef, zf_exception = None, zf_used = False, zf_ignored = False,
      zf_exception_caught = False, zf_exception_handled = False, zf_callbacks = [], zf_resolve_callbacks = [],
      zf_created = loc, zf_completed = None\<rparr>"

definition async_new_future :: "location option \<Rightarrow> 'v futures \<Rightarrow> 'v futures \<times> nat" where
  "async_new_future loc h =
     (h\<lparr>ft_futures := (ft_futures h)(ft_next_future h \<mapsto> new_zend_future loc), ft_next_future := ft_next_future h + 1\<rparr>,
      ft_next_future h)"

definition async_new_future_obj :: "nat \<Rightarrow> 'v futures \<Rightarrow> 'v futures \<times> nat" where
  "async_new_future_obj f h =
     (h\<lparr>ft_objects := (ft_objects h)(ft_next_object h \<mapsto>
          \<lparr>fo_event = Some f, fo_children = None, fo_mapper = None, fo_mapper_type = ASYNC_FUTURE_MAPPER_SUCCESS\<rparr>),
        ft_next_object := ft_next_object h + 1\<rparr>,
      ft_next_object h)"

definition async_future_obj_create :: "location option \<Rightarrow> 'v futures \<Rightarrow> 'v futures \<times> nat" where
  "async_future_obj_create loc h = (case async_new_future loc h of (h, f) \<Rightarrow> async_new_future_obj f h)"

subsection \<open>The iterator over a chain\<close>

text \<open>
  \<^verbatim>\<open>future_iterator_t\<close>: a queue of Future objects, the position in the queue (\<open>None\<close> for
  \<^verbatim>\<open>queue_hash_iter == -1\<close>), the current parent and the position in its table of children.
\<close>

record future_iterator =
  fi_queue :: "nat list"
  fi_queue_pos :: "nat option"
  fi_current_parent :: "nat option"
  fi_child_pos :: nat

definition future_iterator_create :: "nat \<Rightarrow> future_iterator" where
  "future_iterator_create first_future =
     \<lparr>fi_queue = [first_future], fi_queue_pos = None, fi_current_parent = None, fi_child_pos = 0\<rparr>"

text \<open>The position moves only from an element that exists.\<close>

definition next_queue_pos :: "future_iterator \<Rightarrow> nat" where
  "next_queue_pos fi =
     (case fi_queue_pos fi of
        None \<Rightarrow> 0
      | Some p \<Rightarrow> if p < length (fi_queue fi) then p + 1 else p)"

function future_iterator_next_parent :: "'v futures \<Rightarrow> future_iterator \<Rightarrow> future_iterator \<times> bool" where
  "future_iterator_next_parent h fi =
     (let fi = fi\<lparr>fi_current_parent := None\<rparr> in
      if fi_queue fi = [] then (fi, False)
      else
        let pos = next_queue_pos fi; fi = fi\<lparr>fi_queue_pos := Some pos\<rparr> in
        if length (fi_queue fi) \<le> pos then (fi, False)
        else
          let parent = fi_queue fi ! pos; fi = fi\<lparr>fi_current_parent := Some parent\<rparr> in
          if children_of h parent \<noteq> [] then (fi\<lparr>fi_child_pos := 0\<rparr>, True)
          else future_iterator_next_parent h fi)"
  by pat_completeness auto

termination future_iterator_next_parent
  by (relation "measure (\<lambda>(h, fi). case fi_queue_pos fi of None \<Rightarrow> Suc (length (fi_queue fi)) | Some p \<Rightarrow> length (fi_queue fi) - p)")
    (auto simp: next_queue_pos_def split: option.splits if_splits)

declare future_iterator_next_parent.simps [simp del]

definition future_iterator_get_current_data :: "'v futures \<Rightarrow> future_iterator \<Rightarrow> nat option" where
  "future_iterator_get_current_data h fi =
     (case fi_current_parent fi of
        None \<Rightarrow> None
      | Some parent \<Rightarrow>
          if fi_child_pos fi < length (children_of h parent) then Some (children_of h parent ! fi_child_pos fi) else None)"

text \<open>The loop of \<^verbatim>\<open>future_iterator_valid\<close> ends after the first parent that has children.\<close>

definition future_iterator_valid :: "'v futures \<Rightarrow> future_iterator \<Rightarrow> future_iterator \<times> bool" where
  "future_iterator_valid h fi =
     (if future_iterator_get_current_data h fi \<noteq> None then (fi, True) else future_iterator_next_parent h fi)"

definition future_iterator_move_forward :: "'v futures \<Rightarrow> future_iterator \<Rightarrow> future_iterator" where
  "future_iterator_move_forward h fi =
     (case fi_current_parent fi of
        None \<Rightarrow> fi
      | Some parent \<Rightarrow>
          if fi_child_pos fi < length (children_of h parent) then fi\<lparr>fi_child_pos := fi_child_pos fi + 1\<rparr> else fi)"

definition future_iterator_rewind :: "'v futures \<Rightarrow> future_iterator \<Rightarrow> future_iterator" where
  "future_iterator_rewind h fi =
     fst (future_iterator_next_parent h (fi\<lparr>fi_queue_pos := None, fi_current_parent := None\<rparr>))"

subsection \<open>Settling a future\<close>

text \<open>
  The subscription of a Future object: with an iterator the object joins its queue, otherwise a
  new iterator is started in a coroutine of the captured scope.
\<close>

definition async_future_callback_handler ::
  "nat \<Rightarrow> nat \<times> nat option \<Rightarrow> 'v futures \<times> future_iterator option \<Rightarrow> 'v futures \<times> future_iterator option" where
  "async_future_callback_handler f cb s =
     (case (cb, s) of ((ob, scope), (h, fi)) \<Rightarrow>
        if children_of h ob = [] then (h, fi)
        else
          (case fi of
             Some fi \<Rightarrow> (mod_future f (\<lambda>z. z\<lparr>zf_exception_handled := True\<rparr>) h, Some (fi\<lparr>fi_queue := fi_queue fi @ [ob]\<rparr>))
           | None \<Rightarrow> (ft_effect (Chain_started ob scope) h, None)))"

definition notify_awaiters :: "'v future_core \<Rightarrow> nat \<Rightarrow> 'v zend_future \<Rightarrow> 'v futures \<Rightarrow> 'v futures" where
  "notify_awaiters core f z h =
     mod_future f (\<lambda>z. z\<lparr>zf_exception_handled :=
         zf_exception_handled z \<or> zf_exception z \<noteq> None \<and> list_ex (fc_handles core) (zf_callbacks z)\<rparr>)
       (fold (\<lambda>a. ft_effect (Awaiter_called a (zf_result z) (zf_exception z))) (zf_callbacks z) h)"

definition zend_future_resolve ::
  "'v future_core \<Rightarrow> location option \<Rightarrow> nat \<Rightarrow> future_iterator option \<Rightarrow> 'v futures \<Rightarrow> 'v futures \<times> future_iterator option" where
  "zend_future_resolve core loc f fi h =
     (case ft_futures h f of
        None \<Rightarrow> (ft_effect (Dangling f) h, fi)
      | Some z \<Rightarrow>
          if zf_closed z then (h, fi)
          else
            (let h = mod_future f (\<lambda>z. z\<lparr>zf_closed := True, zf_completed := loc\<rparr>) h;
                 h = notify_awaiters core f z h
             in case fold (async_future_callback_handler f) (zf_resolve_callbacks z) (h, fi) of (h, fi) \<Rightarrow>
                  (mod_future f (\<lambda>z. z\<lparr>zf_resolve_callbacks := [],
                       zf_exception_caught := zf_exception_caught z \<or> zf_exception_handled z\<rparr>) h, fi)))"

text \<open>\<^verbatim>\<open>ZEND_FUTURE_COMPLETE\<close> and \<^verbatim>\<open>ZEND_FUTURE_REJECT\<close>, also with an iterator.\<close>

definition complete_future where
  "complete_future core loc v f fi h = zend_future_resolve core loc f fi (mod_future f (fc_complete core v) h)"

definition reject_future where
  "reject_future core loc x f fi h = zend_future_resolve core loc f fi (mod_future f (fc_reject core x) h)"

subsection \<open>Mappers\<close>

datatype 'v mapper_argument = Arg_value "'v fvalue" | Arg_exception throwable

text \<open>
  The first half of \<^verbatim>\<open>process_future_mapper\<close>: with what the mapper is called, if it is, and the
  exception that goes on if the mapper does not throw.
\<close>

definition mapper_argument :: "async_future_mapper_type \<Rightarrow> 'v zend_future \<Rightarrow> 'v mapper_argument option \<times> throwable option" where
  "mapper_argument mapper_type parent =
     (let arg = Arg_value (if zf_result parent = FV_undef then FV_null else zf_result parent) in
      case mapper_type of
        ASYNC_FUTURE_MAPPER_SUCCESS \<Rightarrow>
          (case zf_exception parent of None \<Rightarrow> (Some arg, None) | Some x \<Rightarrow> (None, Some x))
      | ASYNC_FUTURE_MAPPER_CATCH \<Rightarrow>
          (case zf_exception parent of None \<Rightarrow> (None, None) | Some x \<Rightarrow> (Some (Arg_exception x), None))
      | ASYNC_FUTURE_MAPPER_FINALLY \<Rightarrow>
          (case zf_exception parent of None \<Rightarrow> (Some arg, None) | Some x \<Rightarrow> (Some (Arg_exception x), Some x)))"

definition mapper_prepare ::
  "nat \<Rightarrow> nat \<Rightarrow> 'v futures \<Rightarrow> 'v futures \<times> ('v mapper_argument option \<times> throwable option) option" where
  "mapper_prepare parent child h =
     (case (future_at h (event_of h child), ft_futures h parent, ft_objects h child) of
        (Some c, Some p, Some x) \<Rightarrow>
          if zf_closed c then (h, None)
          else
            (if fo_mapper_type x = ASYNC_FUTURE_MAPPER_CATCH \<and> zf_exception p \<noteq> None
             then mod_future parent (\<lambda>z. z\<lparr>zf_exception_caught := True, zf_exception_handled := True\<rparr>) h else h,
             Some (mapper_argument (fo_mapper_type x) p))
      | _ \<Rightarrow> (h, None))"

text \<open>
  The second half, with the outcome of the call (\<open>None\<close> if there was none).  The result of a
  \<^verbatim>\<open>finally()\<close> mapper is released at once; unless the parent's result replaces it, it is released
  again at the end.
\<close>

definition mapper_finish ::
  "'v future_core \<Rightarrow> location option \<Rightarrow> nat \<Rightarrow> nat \<Rightarrow> throwable option \<Rightarrow> ('v fvalue + throwable) option \<Rightarrow>
   future_iterator option \<Rightarrow> 'v futures \<Rightarrow> 'v futures \<times> future_iterator option" where
  "mapper_finish core loc parent child fallback outcome fi h =
     (case (event_of h child, ft_futures h parent, ft_objects h child) of
        (Some f, Some p, Some x) \<Rightarrow>
          (let returned = (case outcome of Some (Inl v) \<Rightarrow> v | _ \<Rightarrow> FV_undef);
               is_finally = (fo_mapper_type x = ASYNC_FUTURE_MAPPER_FINALLY);
               retval = (if is_finally \<and> zf_result p \<noteq> FV_undef then zf_result p else returned);
               h = (case returned of
                      FV_value v \<Rightarrow> if is_finally \<and> zf_result p = FV_undef \<and> fc_refcounted core v
                                   then ft_effect (Released_twice v) h else h
                    | _ \<Rightarrow> h);
               fallback = (case outcome of Some (Inr y) \<Rightarrow> Some y | _ \<Rightarrow> fallback)
           in case (case fallback of
                      Some y \<Rightarrow>
                        (case reject_future core loc y f fi h of (h, fi) \<Rightarrow>
                           (case ft_futures h f of
                              Some c \<Rightarrow> if zf_exception_handled c then h else h\<lparr>ft_thrown := Some y\<rparr>
                            | None \<Rightarrow> h, fi))
                    | None \<Rightarrow>
                        complete_future core loc
                          (if retval \<noteq> FV_undef then retval
                           else if zf_result p \<noteq> FV_undef then zf_result p else FV_null) f fi h) of (h, fi) \<Rightarrow>
                (case ft_futures h f of
                   Some c \<Rightarrow> if zf_exception_caught c then mod_future parent (\<lambda>z. z\<lparr>zf_exception_caught := True\<rparr>) h else h
                 | None \<Rightarrow> h, fi))
      | _ \<Rightarrow> (h, fi))"

text \<open>The whole, for a mapper that does not suspend; \<open>call\<close> answers for the callables.\<close>

definition process_future_mapper ::
  "'v future_core \<Rightarrow> (nat \<Rightarrow> 'v mapper_argument \<Rightarrow> 'v fvalue + throwable) \<Rightarrow> location option \<Rightarrow> nat \<Rightarrow> nat \<Rightarrow>
   future_iterator option \<Rightarrow> 'v futures \<Rightarrow> 'v futures \<times> future_iterator option" where
  "process_future_mapper core call loc parent child fi h =
     (case mapper_prepare parent child h of
        (h, None) \<Rightarrow> (h, fi)
      | (h, Some (arg, fallback)) \<Rightarrow>
          (let m = (case ft_objects h child of Some x \<Rightarrow> (case fo_mapper x of Some m \<Rightarrow> m | None \<Rightarrow> 0) | None \<Rightarrow> 0)
           in mapper_finish core loc parent child fallback (map_option (call m) arg) fi h))"

definition future_mappers_handler ::
  "'v future_core \<Rightarrow> (nat \<Rightarrow> 'v mapper_argument \<Rightarrow> 'v fvalue + throwable) \<Rightarrow> location option \<Rightarrow> nat \<Rightarrow>
   future_iterator \<Rightarrow> 'v futures \<Rightarrow> 'v futures \<times> future_iterator \<times> bool" where
  "future_mappers_handler core call loc child fi h =
     (case Option.bind (fi_current_parent fi) (event_of h) of
        None \<Rightarrow> (h, fi, False)
      | Some parent \<Rightarrow>
          (case process_future_mapper core call loc parent child (Some fi) h of
             (h, Some fi) \<Rightarrow> (h, fi, True)
           | (h, None) \<Rightarrow> (h, fi, True)))"


subsection \<open>One coroutine over a chain\<close>

text \<open>
  The chain is iterated by \<^verbatim>\<open>iterate()\<close> with the functions above, none of which suspends, and with
  \<^verbatim>\<open>future_mappers_handler\<close>.  One call of the loop, for a mapper that does not suspend:
\<close>

definition chain_call ::
  "'v future_core \<Rightarrow> (nat \<Rightarrow> 'v mapper_argument \<Rightarrow> 'v fvalue + throwable) \<Rightarrow> location option \<Rightarrow>
   (unit, nat) iterate_frame \<Rightarrow> (unit, nat) async_iterator \<Rightarrow> future_iterator \<Rightarrow> 'v futures \<Rightarrow>
   ((unit, nat) async_iterator \<times> (unit, nat) iterate_next) option \<times> future_iterator \<times> 'v futures" where
  "chain_call core call loc frame it fi h =
     (case frame of
        Frame_rewind prev \<Rightarrow> (after_rewind prev None it, future_iterator_rewind h fi, h)
      | Frame_valid \<Rightarrow> (case future_iterator_valid h fi of (fi, ok) \<Rightarrow> (after_valid ok None it, fi, h))
      | Frame_current prev \<Rightarrow>
          (after_current prev (map_option Element (future_iterator_get_current_data h fi)) None it, fi, h)
      | Frame_skip prev \<Rightarrow> (after_skip prev None it, future_iterator_move_forward h fi, h)
      | Frame_key e prev \<Rightarrow> (after_key e prev () None it, fi, h)
      | Frame_move k e prev \<Rightarrow> (after_move k e prev None it, future_iterator_move_forward h fi, h)
      | Frame_handler k e \<Rightarrow>
          (case e of
             Element child \<Rightarrow>
               (case future_mappers_handler core call loc child fi h of (h, fi, success) \<Rightarrow>
                  (after_handler success False (ft_thrown h) it, fi, h\<lparr>ft_thrown := None\<rparr>))
           | Undefined_indirect \<Rightarrow> (None, fi, h)))"

partial_function (option) chain_loop ::
  "'v future_core \<Rightarrow> (nat \<Rightarrow> 'v mapper_argument \<Rightarrow> 'v fvalue + throwable) \<Rightarrow> location option \<Rightarrow>
   (unit, nat) iterate_next \<Rightarrow> (unit, nat) async_iterator \<Rightarrow> future_iterator \<Rightarrow> 'v futures \<Rightarrow>
   (throwable option \<times> (unit, nat) async_iterator \<times> future_iterator \<times> 'v futures) option" where
  "chain_loop core call loc nxt it fi h =
     (case nxt of
        Leaves threw \<Rightarrow> Some (threw, it, fi, h)
      | Calls frame \<Rightarrow>
          (case chain_call core call loc frame it fi h of (r, fi, h) \<Rightarrow>
             (case r of
                None \<Rightarrow> None
              | Some (it, nxt) \<Rightarrow> chain_loop core call loc nxt it fi h)))"

declare chain_loop.simps [code]

text \<open>
  The iterator that \<^verbatim>\<open>async_future_callback_handler\<close> starts for a Future object, and its coroutine up to
  the end of \<^verbatim>\<open>iterate()\<close>.
\<close>

definition chain_iterator :: "bool \<Rightarrow> (unit, nat) async_iterator" where
  "chain_iterator scope_cancelled =
     fst (async_iterator_run_in_coroutine True (async_iterator_new None True scope_cancelled 0))"

definition run_chain where
  "run_chain core call loc scope_cancelled ob h =
     (case async_iterator_run (chain_iterator scope_cancelled) of
        None \<Rightarrow> None
      | Some (it, nxt) \<Rightarrow> chain_loop core call loc nxt it (future_iterator_create ob) h)"

subsection \<open>Methods of Future\<close>

datatype future_error =
    Future_has_no_state
  | FutureState_destroyed
  | FutureState_completed "location option"
  | FutureState_transferred
  | Argument_not_callable
  | Spawn_failed
  | Future_exception throwable

text \<open>
  \<^verbatim>\<open>async_future_create_mapper\<close>.  Its arguments say whether the argument is callable and whether a
  coroutine can be spawned, and give the current scope and place.
\<close>

definition async_future_create_mapper ::
  "bool \<Rightarrow> bool \<Rightarrow> nat option \<Rightarrow> location option \<Rightarrow> nat \<Rightarrow> async_future_mapper_type \<Rightarrow> nat \<Rightarrow> 'v futures \<Rightarrow>
   'v futures \<times> (future_error + nat)" where
  "async_future_create_mapper is_callable spawns scope loc callable mapper_type source h =
     (if \<not> is_callable then (h, Inl Argument_not_callable)
      else
        case event_of h source of
          None \<Rightarrow> (h, Inl Future_has_no_state)
        | Some f \<Rightarrow>
            (case async_future_obj_create loc h of (h, target) \<Rightarrow>
               let h = mod_object target (\<lambda>x. x\<lparr>fo_mapper := Some callable, fo_mapper_type := mapper_type\<rparr>) h;
                   h = mod_future f (\<lambda>z. z\<lparr>zf_used := True\<rparr>) h
               in case ft_futures h f of
                    None \<Rightarrow> (h, Inl Future_has_no_state)
                  | Some z \<Rightarrow>
                      if zf_closed z then
                        if spawns then (ft_effect (Mapper_spawned target f) h, Inr target)
                        else (h\<lparr>ft_objects := (ft_objects h)(target := None)\<rparr>, Inl Spawn_failed)
                      else
                        let h = (if Option.bind (ft_objects h source) fo_children = None
                                 then mod_future f (\<lambda>z. z\<lparr>zf_resolve_callbacks := zf_resolve_callbacks z @ [(source, scope)]\<rparr>)
                                        (mod_object source (\<lambda>x. x\<lparr>fo_children := Some []\<rparr>) h)
                                 else h)
                        in (mod_object source (\<lambda>x. x\<lparr>fo_children := map_option (\<lambda>cs. cs @ [target]) (fo_children x)\<rparr>) h,
                            Inr target)))"

definition future_mapper_coroutine_entry where
  "future_mapper_coroutine_entry core call loc parent child h =
     fst (process_future_mapper core call loc parent child None h)"

definition future_construct :: "nat option \<Rightarrow> 'v futures \<Rightarrow> 'v futures \<times> (future_error + nat)" where
  "future_construct state_event h =
     (case state_event of
        None \<Rightarrow> (h, Inl FutureState_destroyed)
      | Some f \<Rightarrow> (case async_new_future_obj f h of (h, ob) \<Rightarrow> (h, Inr ob)))"

definition future_completed where
  "future_completed core loc value h =
     (case async_new_future loc h of (h, f) \<Rightarrow>
        case complete_future core loc (case value of None \<Rightarrow> FV_null | Some v \<Rightarrow> v) f None h of (h, _) \<Rightarrow>
          async_new_future_obj f h)"

definition future_failed where
  "future_failed core loc x h =
     (case async_new_future loc h of (h, f) \<Rightarrow>
        case reject_future core loc x f None h of (h, _) \<Rightarrow> async_new_future_obj f h)"

definition future_isCompleted :: "nat \<Rightarrow> 'v futures \<Rightarrow> bool" where
  "future_isCompleted ob h = (case future_at h (event_of h ob) of None \<Rightarrow> False | Some z \<Rightarrow> zf_closed z)"

definition future_isCancelled :: "nat \<Rightarrow> 'v futures \<Rightarrow> bool" where
  "future_isCancelled ob h =
     (case future_at h (event_of h ob) of
        None \<Rightarrow> False
      | Some z \<Rightarrow> zf_closed z \<and> (case zf_exception z of None \<Rightarrow> False | Some x \<Rightarrow> th_cancellation x))"

definition future_has_been_cancelled :: throwable where
  "future_has_been_cancelled = \<lparr>th_cancellation = True, th_id = 7\<rparr>"

definition future_cancel where
  "future_cancel core loc cancellation ob h =
     (case event_of h ob of
        None \<Rightarrow> (h, Inl Future_has_no_state)
      | Some f \<Rightarrow>
          (case ft_futures h f of
             None \<Rightarrow> (ft_effect (Dangling f) h, Inr ())
           | Some z \<Rightarrow>
               if zf_closed z then (h, Inr ())
               else (fst (reject_future core loc (case cancellation of None \<Rightarrow> future_has_been_cancelled | Some x \<Rightarrow> x) f None h),
                     Inr ())))"

definition future_ignore :: "nat \<Rightarrow> 'v futures \<Rightarrow> 'v futures" where
  "future_ignore ob h =
     (case event_of h ob of None \<Rightarrow> h | Some f \<Rightarrow> mod_future f (\<lambda>z. z\<lparr>zf_ignored := True\<rparr>) h)"

text \<open>
  \<^verbatim>\<open>await()\<close> of the coroutine \<open>me\<close> without a cancellation token: a settled future answers at once, for
  another one the coroutine subscribes and suspends; what it is told when the future is settled is
  the effect \<open>Awaiter_called\<close>.
\<close>

datatype 'v await_outcome = Await_returns "'v fvalue" | Await_throws future_error | Await_suspends

definition future_await :: "nat \<Rightarrow> nat \<Rightarrow> 'v futures \<Rightarrow> 'v futures \<times> 'v await_outcome" where
  "future_await me ob h =
     (case event_of h ob of
        None \<Rightarrow> (h, Await_throws Future_has_no_state)
      | Some f \<Rightarrow>
          (case ft_futures h f of
             None \<Rightarrow> (ft_effect (Dangling f) h, Await_throws Future_has_no_state)
           | Some z \<Rightarrow>
               let h = mod_future f (\<lambda>z. z\<lparr>zf_used := True\<rparr>) h in
               if zf_closed z then
                 (case zf_exception z of
                    Some x \<Rightarrow> (mod_future f (\<lambda>z. z\<lparr>zf_exception_caught := True\<rparr>) h, Await_throws (Future_exception x))
                  | None \<Rightarrow> (h, Await_returns (zf_result z)))
               else (mod_future f (\<lambda>z. z\<lparr>zf_callbacks := zf_callbacks z @ [me]\<rparr>) h, Await_suspends)))"

definition future_await_resumed :: "'v fvalue \<Rightarrow> throwable option \<Rightarrow> 'v await_outcome" where
  "future_await_resumed result exception =
     (case exception of
        Some x \<Rightarrow> Await_throws (Future_exception x)
      | None \<Rightarrow> Await_returns (if result = FV_undef then FV_null else result))"

text \<open>Late subscription and replay of a settled future.\<close>

definition zend_future_add_callback :: "nat \<Rightarrow> nat \<Rightarrow> 'v futures \<Rightarrow> 'v futures" where
  "zend_future_add_callback f a h =
     (case ft_futures h f of
        None \<Rightarrow> ft_effect (Dangling f) h
      | Some z \<Rightarrow>
          if zf_closed z then ft_effect (Awaiter_called a (zf_result z) (zf_exception z)) h
          else mod_future f (\<lambda>z. z\<lparr>zf_callbacks := zf_callbacks z @ [a]\<rparr>) h)"

definition zend_future_del_callback :: "nat \<Rightarrow> nat \<Rightarrow> 'v futures \<Rightarrow> 'v futures" where
  "zend_future_del_callback f a h = mod_future f (\<lambda>z. z\<lparr>zf_callbacks := remove1 a (zf_callbacks z)\<rparr>) h"

text \<open>The end of a future: warnings for one that nobody used and for an exception that nobody caught.\<close>

definition zend_future_dispose :: "nat \<Rightarrow> 'v futures \<Rightarrow> 'v futures" where
  "zend_future_dispose f h =
     (case ft_futures h f of
        None \<Rightarrow> ft_effect (Dangling f) h
      | Some z \<Rightarrow>
          (let h = (if \<not> zf_ignored z \<and> \<not> zf_used z then ft_effect (Unused_warning (zf_created z)) h else h);
               h = (case zf_exception z of
                      Some x \<Rightarrow>
                        if \<not> zf_exception_caught z \<and> \<not> zf_ignored z
                        then ft_effect (Unhandled_warning x (zf_created z)
                               (if zf_created z = None then None else zf_completed z)) h
                        else h
                    | None \<Rightarrow> h)
           in h\<lparr>ft_futures := (ft_futures h)(f := None)\<rparr>))"

text \<open>
  A settled future answers again: a late callback is called, and a caller without a callback gets the
  value or the exception.
\<close>

definition zend_future_replay :: "nat \<Rightarrow> nat option \<Rightarrow> 'v futures \<Rightarrow> 'v futures \<times> ('v fvalue + throwable) option" where
  "zend_future_replay f callback h =
     (case ft_futures h f of
        None \<Rightarrow> (ft_effect (Dangling f) h, None)
      | Some z \<Rightarrow>
          if \<not> zf_closed z then (h, None)
          else (case callback of
                  Some a \<Rightarrow> (ft_effect (Awaiter_called a (zf_result z) (zf_exception z)) h, None)
                | None \<Rightarrow> (h, Some (case zf_exception z of None \<Rightarrow> Inl (zf_result z) | Some x \<Rightarrow> Inr x))))"

text \<open>
  The end of a Future object, which drops its children and its mapper; \<open>last_reference\<close> tells whether
  it was the last holder of the event.
\<close>

definition async_future_object_free :: "bool \<Rightarrow> nat \<Rightarrow> 'v futures \<Rightarrow> 'v futures" where
  "async_future_object_free last_reference ob h =
     (let ev = event_of h ob; h = h\<lparr>ft_objects := (ft_objects h)(ob := None)\<rparr>
      in case ev of Some f \<Rightarrow> if last_reference then zend_future_dispose f h else h | None \<Rightarrow> h)"

datatype 'v future_gc = Gc_exception throwable | Gc_result "'v fvalue" | Gc_mapper nat | Gc_child nat

definition async_future_get_gc :: "nat \<Rightarrow> 'v futures \<Rightarrow> 'v future_gc list" where
  "async_future_get_gc ob h =
     (case ft_objects h ob of
        None \<Rightarrow> []
      | Some x \<Rightarrow>
          (case future_at h (fo_event x) of
             None \<Rightarrow> []
           | Some z \<Rightarrow> (case zf_exception z of None \<Rightarrow> [] | Some e \<Rightarrow> [Gc_exception e]) @
               (if zf_result z = FV_undef then [] else [Gc_result (zf_result z)])) @
          (case fo_mapper x of None \<Rightarrow> [] | Some m \<Rightarrow> [Gc_mapper m]) @
          (case fo_children x of None \<Rightarrow> [] | Some cs \<Rightarrow> map Gc_child cs))"

definition future_getCompletedFileAndLine :: "nat option \<Rightarrow> 'v futures \<Rightarrow> location option" where
  "future_getCompletedFileAndLine ev h = Option.bind (future_at h ev) zf_completed"

definition future_getCreatedFileAndLine :: "nat option \<Rightarrow> 'v futures \<Rightarrow> location option" where
  "future_getCreatedFileAndLine ev h = Option.bind (future_at h ev) zf_created"

end
