(* ===== verification/Future_Chain.thy ===== *)
theory Future_Chain
  imports Future
begin

text \<open>
  Chains of futures: what \<^verbatim>\<open>process_future_mapper\<close> makes of a child, and that the iterator with its
  queue settles every future below the one that was resolved.
\<close>

subsection \<open>The reference\<close>

text \<open>What a settled future stands for: a value or an exception.\<close>

definition settled_with :: "'v zend_future \<Rightarrow> 'v fvalue + throwable \<Rightarrow> bool" where
  "settled_with z y \<longleftrightarrow>
     zf_closed z \<and>
     (case y of
        Inl v \<Rightarrow> zf_exception z = None \<and> zf_result z = v \<and> v \<noteq> FV_undef
      | Inr x \<Rightarrow> zf_exception z = Some x \<and> zf_result z = FV_undef)"

definition pending :: "'v zend_future \<Rightarrow> bool" where
  "pending z \<longleftrightarrow> \<not> zf_closed z \<and> zf_result z = FV_undef \<and> zf_exception z = None \<and> \<not> zf_exception_handled z"

text \<open>The meaning of \<^verbatim>\<open>map()\<close>, \<^verbatim>\<open>catch()\<close> and \<^verbatim>\<open>finally()\<close>.\<close>

fun mapped ::
  "async_future_mapper_type \<Rightarrow> ('v mapper_argument \<Rightarrow> 'v fvalue + throwable) \<Rightarrow> 'v fvalue + throwable \<Rightarrow> 'v fvalue + throwable" where
  "mapped ASYNC_FUTURE_MAPPER_SUCCESS m (Inl v) = m (Arg_value v)"
| "mapped ASYNC_FUTURE_MAPPER_SUCCESS m (Inr x) = Inr x"
| "mapped ASYNC_FUTURE_MAPPER_CATCH m (Inl v) = Inl v"
| "mapped ASYNC_FUTURE_MAPPER_CATCH m (Inr x) = m (Arg_exception x)"
| "mapped ASYNC_FUTURE_MAPPER_FINALLY m (Inl v) = (case m (Arg_value v) of Inl _ \<Rightarrow> Inl v | Inr y \<Rightarrow> Inr y)"
| "mapped ASYNC_FUTURE_MAPPER_FINALLY m (Inr x) = (case m (Arg_exception x) of Inl _ \<Rightarrow> Inr x | Inr y \<Rightarrow> Inr y)"

definition mapper_of :: "'v futures \<Rightarrow> nat \<Rightarrow> nat" where
  "mapper_of h ob = (case ft_objects h ob of Some x \<Rightarrow> (case fo_mapper x of Some m \<Rightarrow> m | None \<Rightarrow> 0) | None \<Rightarrow> 0)"

definition mapper_type_of :: "'v futures \<Rightarrow> nat \<Rightarrow> async_future_mapper_type" where
  "mapper_type_of h ob = (case ft_objects h ob of Some x \<Rightarrow> fo_mapper_type x | None \<Rightarrow> ASYNC_FUTURE_MAPPER_SUCCESS)"

text \<open>
  What the engine documents: a result and an exception are stored in a future that is not
  settled yet.  PHP functions return a value.
\<close>

definition future_core_ok :: "'v future_core \<Rightarrow> bool" where
  "future_core_ok core \<longleftrightarrow>
     (\<forall>z v x. \<not> zf_closed z \<longrightarrow> fc_complete core v z = z\<lparr>zf_result := v\<rparr> \<and> fc_reject core x z = z\<lparr>zf_exception := Some x\<rparr>)"

definition returns_values :: "(nat \<Rightarrow> 'v mapper_argument \<Rightarrow> 'v fvalue + throwable) \<Rightarrow> bool" where
  "returns_values call \<longleftrightarrow> (\<forall>m a. call m a \<noteq> Inl FV_undef)"

subsection \<open>Settling one future\<close>

text \<open>Two states that agree on everything but some futures, the pending exception and the effects.\<close>

definition agree_but :: "nat set \<Rightarrow> 'v futures \<Rightarrow> 'v futures \<Rightarrow> bool" where
  "agree_but F h h' \<longleftrightarrow>
     ft_objects h' = ft_objects h \<and> ft_next_future h' = ft_next_future h \<and> ft_next_object h' = ft_next_object h \<and>
     (\<forall>f. f \<notin> F \<longrightarrow> ft_futures h' f = ft_futures h f)"

lemma agree_but_refl [simp]: "agree_but F h h"
  by (simp add: agree_but_def)

lemma agree_but_trans: "agree_but F h h' \<Longrightarrow> agree_but G h' h'' \<Longrightarrow> agree_but (F \<union> G) h h''"
  by (simp add: agree_but_def)

lemma agree_but_mono: "agree_but F h h' \<Longrightarrow> F \<subseteq> G \<Longrightarrow> agree_but G h h'"
  by (auto simp: agree_but_def)

lemma agree_objects:
  assumes "agree_but F h h'"
  shows "children_of h' = children_of h" "event_of h' = event_of h" "mapper_of h' = mapper_of h"
    "mapper_type_of h' = mapper_type_of h"
  using assms by (auto simp: agree_but_def children_of_def event_of_def mapper_of_def mapper_type_of_def fun_eq_iff)

lemma agree_effect [simp]: "agree_but F h (ft_effect e h)" "ft_futures (ft_effect e h) = ft_futures h"
  "ft_thrown (ft_effect e h) = ft_thrown h" "ft_objects (ft_effect e h) = ft_objects h"
  by (simp_all add: agree_but_def ft_effect_def)

lemma agree_but_step: "agree_but F h h' \<Longrightarrow> agree_but F h' h'' \<Longrightarrow> agree_but F h h''"
  by (simp add: agree_but_def)

lemma fold_effects_agree [simp]: "agree_but F h (fold (\<lambda>a. ft_effect (g a)) as h)"
proof (induction as arbitrary: h)
  case (Cons a as)
  show ?case
    using agree_but_step [OF agree_effect(1) [of F h "g a"] Cons [of "ft_effect (g a) h"]] by simp
qed simp

lemma fold_effects_same [simp]:
  "ft_futures (fold (\<lambda>a. ft_effect (g a)) as h) = ft_futures h"
  "ft_thrown (fold (\<lambda>a. ft_effect (g a)) as h) = ft_thrown h"
  by (induction as arbitrary: h) simp_all

lemma agree_mod_future:
  assumes "ft_futures h f = Some z"
  shows "agree_but {f} h (mod_future f g h)" "ft_futures (mod_future f g h) f = Some (g z)"
    "ft_thrown (mod_future f g h) = ft_thrown h" "ft_futures (mod_future f g h) = (ft_futures h)(f \<mapsto> g z)"
    "children_of (mod_future f g h) = children_of h"
  using assms by (simp_all add: agree_but_def mod_future_def children_of_def fun_eq_iff)

text \<open>
  The subscriptions of the future of a child: none, or that of the child itself.
\<close>

definition own_subscription :: "'v futures \<Rightarrow> nat \<Rightarrow> 'v zend_future \<Rightarrow> bool" where
  "own_subscription h ob z \<longleftrightarrow> map fst (zf_resolve_callbacks z) = (if children_of h ob = [] then [] else [ob])"

definition handled_after :: "'v future_core \<Rightarrow> 'v futures \<Rightarrow> nat \<Rightarrow> 'v zend_future \<Rightarrow> bool" where
  "handled_after core h ob z \<longleftrightarrow>
     zf_exception_handled z \<or> zf_exception z \<noteq> None \<and> list_ex (fc_handles core) (zf_callbacks z) \<or> children_of h ob \<noteq> []"

definition joined :: "'v futures \<Rightarrow> nat \<Rightarrow> future_iterator option \<Rightarrow> future_iterator option" where
  "joined h ob fi = map_option (\<lambda>fi. if children_of h ob = [] then fi else fi\<lparr>fi_queue := fi_queue fi @ [ob]\<rparr>) fi"

lemma resolve_with_iterator:
  assumes z: "ft_futures h f = Some z" "\<not> zf_closed z" and own: "own_subscription h ob z"
    and r: "zend_future_resolve core loc f (Some fi) h = (h', fi')"
  shows "agree_but {f} h h'" "ft_thrown h' = ft_thrown h" "fi' = joined h ob (Some fi)"
    "ft_futures h' f = Some (z\<lparr>zf_closed := True, zf_completed := loc, zf_exception_handled := handled_after core h ob z,
       zf_resolve_callbacks := [], zf_exception_caught := zf_exception_caught z \<or> handled_after core h ob z\<rparr>)"
proof -
  define h1 where "h1 = mod_future f (\<lambda>z. z\<lparr>zf_closed := True, zf_completed := loc\<rparr>) h"
  define h2 where "h2 = notify_awaiters core f z h1"
  have h1: "agree_but {f} h h1" "ft_futures h1 f = Some (z\<lparr>zf_closed := True, zf_completed := loc\<rparr>)" "ft_thrown h1 = ft_thrown h"
    using agree_mod_future [OF z(1), of "\<lambda>z. z\<lparr>zf_closed := True, zf_completed := loc\<rparr>"] by (simp_all add: h1_def)
  define h1' where "h1' = fold (\<lambda>a. ft_effect (Awaiter_called a (zf_result z) (zf_exception z))) (zf_callbacks z) h1"
  have h1': "agree_but {f} h1 h1'" "ft_futures h1' f = Some (z\<lparr>zf_closed := True, zf_completed := loc\<rparr>)" "ft_thrown h1' = ft_thrown h"
    using h1 by (simp_all add: h1'_def)
  have h2: "agree_but {f} h h2" "ft_thrown h2 = ft_thrown h"
    "ft_futures h2 f = Some (z\<lparr>zf_closed := True, zf_completed := loc, zf_exception_handled :=
         zf_exception_handled z \<or> zf_exception z \<noteq> None \<and> list_ex (fc_handles core) (zf_callbacks z)\<rparr>)"
    using agree_mod_future [OF h1'(2)] h1'(3) agree_but_step [OF agree_but_step [OF h1(1) h1'(1)] agree_mod_future(1) [OF h1'(2)]]
    by (simp_all add: h2_def notify_awaiters_def h1'_def [symmetric])
  have kids: "children_of h2 = children_of h" using agree_objects(1) [OF h2(1)] .
  have r': "(case fold (async_future_callback_handler f) (zf_resolve_callbacks z) (h2, Some fi) of (h, fi) \<Rightarrow>
      (mod_future f (\<lambda>z. z\<lparr>zf_resolve_callbacks := [],
           zf_exception_caught := zf_exception_caught z \<or> zf_exception_handled z\<rparr>) h, fi)) = (h', fi')"
    using r z by (simp add: zend_future_resolve_def Let_def h1_def h2_def)
  have "agree_but {f} h h' \<and> ft_thrown h' = ft_thrown h \<and> fi' = joined h ob (Some fi) \<and>
    ft_futures h' f = Some (z\<lparr>zf_closed := True, zf_completed := loc, zf_exception_handled := handled_after core h ob z,
       zf_resolve_callbacks := [], zf_exception_caught := zf_exception_caught z \<or> handled_after core h ob z\<rparr>)"
  proof (cases "children_of h ob = []")
    case True
    then have "zf_resolve_callbacks z = []" using own by (simp add: own_subscription_def)
    then have h': "h' = mod_future f (\<lambda>z. z\<lparr>zf_resolve_callbacks := [],
           zf_exception_caught := zf_exception_caught z \<or> zf_exception_handled z\<rparr>) h2" "fi' = Some fi"
      using r' by simp_all
    note a = agree_mod_future [OF h2(3), of "\<lambda>z. z\<lparr>zf_resolve_callbacks := [],
           zf_exception_caught := zf_exception_caught z \<or> zf_exception_handled z\<rparr>"]
    show ?thesis using agree_but_step [OF h2(1) a(1)] a(2,3) h' h2(2) True by (simp add: joined_def handled_after_def)
  next
    case False
    then obtain scope where cb: "zf_resolve_callbacks z = [(ob, scope)]" using own by (auto simp: own_subscription_def)
    define h3 where "h3 = mod_future f (\<lambda>z. z\<lparr>zf_exception_handled := True\<rparr>) h2"
    have h': "h' = mod_future f (\<lambda>z. z\<lparr>zf_resolve_callbacks := [],
           zf_exception_caught := zf_exception_caught z \<or> zf_exception_handled z\<rparr>) h3"
      "fi' = Some (fi\<lparr>fi_queue := fi_queue fi @ [ob]\<rparr>)"
      using r' cb False kids by (simp_all add: async_future_callback_handler_def h3_def)
    note b = agree_mod_future [OF h2(3), of "\<lambda>z. z\<lparr>zf_exception_handled := True\<rparr>", folded h3_def]
    note a = agree_mod_future [OF b(2), of "\<lambda>z. z\<lparr>zf_resolve_callbacks := [],
           zf_exception_caught := zf_exception_caught z \<or> zf_exception_handled z\<rparr>"]
    show ?thesis using agree_but_step [OF agree_but_step [OF h2(1) b(1)] a(1)] a(2,3) b(3) h' h2(2) False
      by (simp add: joined_def handled_after_def)
  qed
  then show "agree_but {f} h h'" "ft_thrown h' = ft_thrown h" "fi' = joined h ob (Some fi)"
    "ft_futures h' f = Some (z\<lparr>zf_closed := True, zf_completed := loc, zf_exception_handled := handled_after core h ob z,
       zf_resolve_callbacks := [], zf_exception_caught := zf_exception_caught z \<or> handled_after core h ob z\<rparr>)"
    by blast+
qed


subsection \<open>One mapper\<close>

lemma settled_with_flags [simp]:
  "settled_with (z\<lparr>zf_exception_caught := b\<rparr>) y = settled_with z y"
  "settled_with (z\<lparr>zf_exception_handled := b\<rparr>) y = settled_with z y"
  by (simp_all add: settled_with_def split: sum.split)

definition unhandled :: "'v future_core \<Rightarrow> 'v futures \<Rightarrow> nat \<Rightarrow> 'v fvalue + throwable \<Rightarrow> throwable option" where
  "unhandled core h ob y =
     (case y of
        Inl v \<Rightarrow> None
      | Inr x \<Rightarrow>
          if children_of h ob \<noteq> [] \<or>
             (case future_at h (event_of h ob) of Some z \<Rightarrow> list_ex (fc_handles core) (zf_callbacks z) | None \<Rightarrow> False)
          then None else Some x)"

text \<open>
  What is done with an outcome: the child is settled with it, joins the queue if it has children,
  and an exception that nobody handles is thrown.
\<close>

definition settles ::
  "'v future_core \<Rightarrow> nat \<Rightarrow> nat \<Rightarrow> nat \<Rightarrow> 'v fvalue + throwable \<Rightarrow> future_iterator \<Rightarrow> 'v futures \<Rightarrow>
   'v futures \<times> future_iterator option \<Rightarrow> bool" where
  "settles core co fc fp y fi h r \<longleftrightarrow>
     agree_but {fc, fp} h (fst r) \<and> snd r = joined h co (Some fi) \<and>
     (\<exists>c. ft_futures (fst r) fc = Some c \<and> settled_with c y) \<and>
     (\<exists>p p'. ft_futures h fp = Some p \<and> ft_futures (fst r) fp = Some p' \<and> (\<forall>y. settled_with p' y = settled_with p y)) \<and>
     ft_thrown (fst r) = (case unhandled core h co y of Some x \<Rightarrow> Some x | None \<Rightarrow> ft_thrown h)"

lemma unhandled_simps:
  assumes "event_of h ob = Some f" "ft_futures h f = Some z"
  shows "unhandled core h ob (Inl v) = None"
    "unhandled core h ob (Inr x) = (if children_of h ob \<noteq> [] \<or> list_ex (fc_handles core) (zf_callbacks z) then None else Some x)"
  using assms by (simp_all add: unhandled_def future_at_def)

lemma settles_complete:
  assumes ok: "future_core_ok core" and ev: "event_of h co = Some fc" and c: "ft_futures h fc = Some c" "pending c"
    and p: "ft_futures h fp = Some p" "fc \<noteq> fp" and own: "own_subscription h co c" and v: "v \<noteq> FV_undef"
  shows "settles core co fc fp (Inl v) fi h (complete_future core loc v fc (Some fi) h)"
proof -
  define h1 where "h1 = mod_future fc (fc_complete core v) h"
  note m = agree_mod_future [OF c(1), of "fc_complete core v", folded h1_def]
  have z: "ft_futures h1 fc = Some (c\<lparr>zf_result := v\<rparr>)" using m(2) ok c(2) by (simp add: future_core_ok_def pending_def)
  have own1: "own_subscription h1 co (c\<lparr>zf_result := v\<rparr>)" using own m(5) by (simp add: own_subscription_def)
  obtain h' fi' where r: "zend_future_resolve core loc fc (Some fi) h1 = (h', fi')" by fastforce
  note res = resolve_with_iterator [OF z _ own1 r]
  have open1: "\<not> zf_closed (c\<lparr>zf_result := v\<rparr>)" using c(2) by (simp add: pending_def)
  have "agree_but {fc} h h'" using agree_but_step [OF m(1) res(1) [OF open1]] .
  then have "agree_but {fc, fp} h h'" "ft_futures h' fp = Some p"
    using agree_but_mono p by (auto simp: agree_but_def)
  then show ?thesis
    using res(2,3,4) [OF open1] m(3,5) r p v c unhandled_simps(1) [OF ev c(1)]
    by (simp add: settles_def complete_future_def h1_def [symmetric] joined_def settled_with_def pending_def)
qed

lemma settles_reject:
  assumes ok: "future_core_ok core" and ev: "event_of h co = Some fc" and c: "ft_futures h fc = Some c" "pending c"
    and p: "ft_futures h fp = Some p" "fc \<noteq> fp" and own: "own_subscription h co c"
    and r: "r = (case reject_future core loc x fc (Some fi) h of (h, fi) \<Rightarrow>
      (case ft_futures h fc of Some c \<Rightarrow> if zf_exception_handled c then h else h\<lparr>ft_thrown := Some x\<rparr> | None \<Rightarrow> h, fi))"
  shows "settles core co fc fp (Inr x) fi h r"
proof -
  define h1 where "h1 = mod_future fc (fc_reject core x) h"
  note m = agree_mod_future [OF c(1), of "fc_reject core x", folded h1_def]
  have z: "ft_futures h1 fc = Some (c\<lparr>zf_exception := Some x\<rparr>)" using m(2) ok c(2) by (simp add: future_core_ok_def pending_def)
  have own1: "own_subscription h1 co (c\<lparr>zf_exception := Some x\<rparr>)" using own m(5) by (simp add: own_subscription_def)
  obtain h' fi' where res1: "zend_future_resolve core loc fc (Some fi) h1 = (h', fi')" by fastforce
  have open1: "\<not> zf_closed (c\<lparr>zf_exception := Some x\<rparr>)" using c(2) by (simp add: pending_def)
  note res = resolve_with_iterator [OF z open1 own1 res1]
  have a: "agree_but {fc} h h'" using agree_but_step [OF m(1) res(1)] .
  have fp: "ft_futures h' fp = Some p" using a p by (auto simp: agree_but_def)
  have r': "r = (if handled_after core h1 co (c\<lparr>zf_exception := Some x\<rparr>) then h' else h'\<lparr>ft_thrown := Some x\<rparr>, fi')"
    using r res1 res(4) by (simp add: reject_future_def h1_def [symmetric])
  have hd: "handled_after core h1 co (c\<lparr>zf_exception := Some x\<rparr>) \<longleftrightarrow>
      children_of h co \<noteq> [] \<or> list_ex (fc_handles core) (zf_callbacks c)"
    using c(2) m(5) by (auto simp: handled_after_def pending_def)
  have "agree_but {fc, fp} h (fst r)" using a r' by (auto simp: agree_but_def)
  moreover have "snd r = joined h co (Some fi)" using r' res(3) m(5) by (simp add: joined_def)
  moreover have "\<exists>c. ft_futures (fst r) fc = Some c \<and> settled_with c (Inr x)"
    using r' res(4) c(2) by (auto simp: settled_with_def pending_def)
  moreover have "\<exists>p p'. ft_futures h fp = Some p \<and> ft_futures (fst r) fp = Some p' \<and> (\<forall>y. settled_with p' y = settled_with p y)"
    using r' fp p by auto
  moreover have "ft_thrown (fst r) = (case unhandled core h co (Inr x) of Some x \<Rightarrow> Some x | None \<Rightarrow> ft_thrown h)"
    using r' res(2) m(3) hd unhandled_simps(2) [OF ev c(1), of core x] by simp
  ultimately show ?thesis by (simp add: settles_def)
qed


text \<open>Flags of the parent do not matter, neither before nor after.\<close>

lemma settles_from:
  assumes "agree_but {fp} h h1" "ft_futures h fp = Some p" "ft_futures h1 fp = Some p1"
    and "\<And>y. settled_with p1 y = settled_with p y" "ft_thrown h1 = ft_thrown h" "event_of h co = Some fc" "fc \<noteq> fp"
    and "settles core co fc fp y fi h1 r"
  shows "settles core co fc fp y fi h r"
proof -
  have kids: "children_of h1 = children_of h" "event_of h1 = event_of h" using agree_objects [OF assms(1)] by simp_all
  have "ft_futures h1 fc = ft_futures h fc" using assms(1,7) by (simp add: agree_but_def)
  then have "unhandled core h1 co y = unhandled core h co y"
    using kids assms(6) by (simp add: unhandled_def future_at_def split: sum.split)
  moreover have "agree_but {fc, fp} h (fst r)"
    using agree_but_step [of "{fc, fp}" h h1 "fst r"] agree_but_mono [OF assms(1), of "{fc, fp}"] assms(8) by (simp add: settles_def)
  ultimately show ?thesis using assms(2-5,8) kids by (auto simp: settles_def joined_def split: option.split)
qed

lemma settles_then:
  assumes "settles core co fc fp y fi h (h', fi')" "fc \<noteq> fp"
  shows "settles core co fc fp y fi h
    (case ft_futures h' fc of
       Some c \<Rightarrow> if zf_exception_caught c then mod_future fp (\<lambda>z. z\<lparr>zf_exception_caught := True\<rparr>) h' else h'
     | None \<Rightarrow> h', fi')"
proof -
  obtain c p' where c: "ft_futures h' fc = Some c" and p': "ft_futures h' fp = Some p'"
    using assms(1) by (auto simp: settles_def)
  note m = agree_mod_future [OF p', of "\<lambda>z. z\<lparr>zf_exception_caught := True\<rparr>"]
  have "agree_but {fc, fp} h (mod_future fp (\<lambda>z. z\<lparr>zf_exception_caught := True\<rparr>) h')"
    using agree_but_step [of "{fc, fp}" h h' "mod_future fp (\<lambda>z. z\<lparr>zf_exception_caught := True\<rparr>) h'"]
      agree_but_mono [OF m(1), of "{fc, fp}"] assms(1) by (simp add: settles_def)
  then show ?thesis using assms c p' m by (auto simp: settles_def)
qed

lemma mapper_argument_outcome:
  assumes "settled_with p y" "mapper_argument t p = (arg, fallback)" "returns_values call"
  shows "mapped t (call m) y =
    (case map_option (call m) arg of
       Some (Inr x) \<Rightarrow> Inr x
     | Some (Inl v) \<Rightarrow> (case fallback of Some x \<Rightarrow> Inr x
                      | None \<Rightarrow> Inl (if t = ASYNC_FUTURE_MAPPER_FINALLY then zf_result p else v))
     | None \<Rightarrow> (case fallback of Some x \<Rightarrow> Inr x | None \<Rightarrow> Inl (zf_result p)))"
  using assms
  by (cases y; cases t) (auto simp: settled_with_def mapper_argument_def Let_def split: sum.split)

lemma process_settles:
  assumes ok: "future_core_ok core" "returns_values call"
    and p: "ft_futures h fp = Some p" "settled_with p yp" and ne: "fc \<noteq> fp"
    and c: "event_of h co = Some fc" "ft_futures h fc = Some c" "pending c" "own_subscription h co c"
  shows "settles core co fc fp (mapped (mapper_type_of h co) (call (mapper_of h co)) yp) fi h
    (process_future_mapper core call loc fp co (Some fi) h)"
proof -
  obtain x where x: "ft_objects h co = Some x" using c(1) by (auto simp: event_of_def bind_eq_Some_conv)
  define t where "t = fo_mapper_type x"
  define m where "m = mapper_of h co"
  obtain arg fallback where af: "mapper_argument t p = (arg, fallback)" by fastforce
  define h1 where "h1 = (if t = ASYNC_FUTURE_MAPPER_CATCH \<and> zf_exception p \<noteq> None
     then mod_future fp (\<lambda>z. z\<lparr>zf_exception_caught := True, zf_exception_handled := True\<rparr>) h else h)"
  have h1: "agree_but {fp} h h1" "ft_thrown h1 = ft_thrown h"
    using agree_mod_future [OF p(1)] by (simp_all add: h1_def)
  obtain p1 where p1: "ft_futures h1 fp = Some p1" "\<And>y. settled_with p1 y = settled_with p y" "zf_result p1 = zf_result p"
    using agree_mod_future(2) [OF p(1)] p(1) by (cases "t = ASYNC_FUTURE_MAPPER_CATCH \<and> zf_exception p \<noteq> None") (auto simp: h1_def)
  have obj1: "ft_objects h1 = ft_objects h" using h1(1) by (simp add: agree_but_def)
  have prep: "mapper_prepare fp co h = (h1, Some (arg, fallback))"
    using c p x af by (simp add: mapper_prepare_def future_at_def pending_def t_def h1_def)
  define outcome where "outcome = map_option (call m) arg"
  define returned where "returned = (case outcome of Some (Inl v) \<Rightarrow> v | _ \<Rightarrow> FV_undef)"
  define h2 where "h2 = (case returned of
      FV_value v \<Rightarrow> if t = ASYNC_FUTURE_MAPPER_FINALLY \<and> zf_result p1 = FV_undef \<and> fc_refcounted core v
                   then ft_effect (Released_twice v) h1 else h1 | _ \<Rightarrow> h1)"
  have h2: "agree_but {fp} h h2" "ft_thrown h2 = ft_thrown h" "ft_futures h2 = ft_futures h1" "ft_objects h2 = ft_objects h"
    using h1 obj1 agree_but_step [OF h1(1) agree_effect(1)] by (simp_all add: h2_def split: fvalue.split)
  define y where "y = mapped t (call m) yp"
  define r where "r = (case (case outcome of Some (Inr y) \<Rightarrow> Some y | _ \<Rightarrow> fallback) of
      Some y \<Rightarrow>
        (case reject_future core loc y fc (Some fi) h2 of (h, fi) \<Rightarrow>
           (case ft_futures h fc of
              Some c \<Rightarrow> if zf_exception_handled c then h else h\<lparr>ft_thrown := Some y\<rparr>
            | None \<Rightarrow> h, fi))
    | None \<Rightarrow>
        complete_future core loc
          (if (if t = ASYNC_FUTURE_MAPPER_FINALLY \<and> zf_result p1 \<noteq> FV_undef then zf_result p1 else returned) \<noteq> FV_undef
           then (if t = ASYNC_FUTURE_MAPPER_FINALLY \<and> zf_result p1 \<noteq> FV_undef then zf_result p1 else returned)
           else if zf_result p1 \<noteq> FV_undef then zf_result p1 else FV_null) fc (Some fi) h2)"
  have x1: "ft_objects h1 co = Some x" "event_of h1 co = Some fc"
    using x obj1 c(1) by (simp_all add: event_of_def)
  have fin: "mapper_finish core loc fp co fallback outcome (Some fi) h1 =
      (case r of (h, fi) \<Rightarrow>
         (case ft_futures h fc of
            Some c \<Rightarrow> if zf_exception_caught c then mod_future fp (\<lambda>z. z\<lparr>zf_exception_caught := True\<rparr>) h else h
          | None \<Rightarrow> h, fi))"
    unfolding mapper_finish_def x1 p1(1) option.case prod.case Let_def r_def h2_def returned_def t_def by (rule refl)
  have "(case ft_objects h1 co of Some x \<Rightarrow> (case fo_mapper x of Some m \<Rightarrow> m | None \<Rightarrow> 0) | None \<Rightarrow> 0) = m"
    using x x1 by (simp add: m_def mapper_of_def)
  then have pr: "process_future_mapper core call loc fp co (Some fi) h =
      (case r of (h, fi) \<Rightarrow>
         (case ft_futures h fc of
            Some c \<Rightarrow> if zf_exception_caught c then mod_future fp (\<lambda>z. z\<lparr>zf_exception_caught := True\<rparr>) h else h
          | None \<Rightarrow> h, fi))"
    using fin by (simp add: process_future_mapper_def prep outcome_def)
  have c2: "event_of h2 co = Some fc" "ft_futures h2 fc = Some c" "own_subscription h2 co c"
    using agree_objects [OF h2(1)] c h2(1) ne by (auto simp: agree_but_def own_subscription_def)
  have p2: "ft_futures h2 fp = Some p1" using p1(1) h2(3) by simp
  have "settles core co fc fp y fi h2 r"
  proof (cases y)
    case (Inr z)
    then have "(case outcome of Some (Inr y) \<Rightarrow> Some y | _ \<Rightarrow> fallback) = Some z"
      using mapper_argument_outcome [OF p(2) af ok(2), of m]
      by (auto simp: y_def outcome_def split: option.splits sum.splits)
    then show ?thesis
      using settles_reject [OF ok(1) c2(1,2) c(3) p2 ne c2(3), where r = r and loc = loc and x = z and fi = fi] Inr by (simp add: r_def)
  next
    case (Inl v)
    have o: "(case outcome of Some (Inr y) \<Rightarrow> Some y | _ \<Rightarrow> fallback) = None"
      "v = (case outcome of Some (Inl w) \<Rightarrow> if t = ASYNC_FUTURE_MAPPER_FINALLY then zf_result p else w | _ \<Rightarrow> zf_result p)"
      using mapper_argument_outcome [OF p(2) af ok(2), of m] Inl
      by (auto simp: y_def outcome_def split: option.splits sum.splits)
    have succ: "zf_exception p = None" if "outcome = None \<or> t = ASYNC_FUTURE_MAPPER_FINALLY"
      using that o(1) af by (cases t) (auto simp: mapper_argument_def outcome_def Let_def split: option.splits sum.splits)
    then have def: "zf_result p \<noteq> FV_undef" if "outcome = None \<or> t = ASYNC_FUTURE_MAPPER_FINALLY"
      using that p(2) by (auto simp: settled_with_def split: sum.splits)
    have ret: "outcome = Some (Inl w) \<Longrightarrow> w \<noteq> FV_undef" for w
      using ok(2) by (auto simp: outcome_def returns_values_def)
    have v: "v \<noteq> FV_undef" using o(2) o(1) def ret by (auto split: option.splits sum.splits)
    have "r = complete_future core loc v fc (Some fi) h2"
      using o def ret p1(3) by (auto simp: r_def returned_def split: option.splits sum.splits)
    then show ?thesis
      using settles_complete [OF ok(1) c2(1,2) c(3) p2 ne c2(3) v, of fi loc] Inl by simp
  qed
  then have "settles core co fc fp y fi h r"
    using settles_from [OF h2(1) p(1) p2 p1(2) h2(2) c(1) ne] by blast
  then have "settles core co fc fp y fi h (process_future_mapper core call loc fp co (Some fi) h)"
    unfolding pr using settles_then [OF _ ne] by (cases r) auto
  then show ?thesis using x by (simp add: y_def m_def t_def mapper_type_of_def)
qed

end
