(* ===== verification/Future_Chain_Run.thy ===== *)
theory Future_Chain_Run
  imports Future_Chain
begin

text \<open>
  The iterator over a chain of futures as a worklist: the children still to be processed, each
  with its parent.
\<close>

subsection \<open>The worklist\<close>

definition edges :: "'v futures \<Rightarrow> nat \<Rightarrow> (nat \<times> nat) list" where
  "edges h ob = map (Pair ob) (children_of h ob)"

definition worklist :: "'v futures \<Rightarrow> future_iterator \<Rightarrow> (nat \<times> nat) list" where
  "worklist h fi =
     (case (fi_current_parent fi, fi_queue_pos fi) of
        (Some p, Some n) \<Rightarrow>
          map (Pair p) (drop (fi_child_pos fi) (children_of h p)) @ concat (map (edges h) (drop (Suc n) (fi_queue fi)))
      | _ \<Rightarrow> [])"

definition fi_ok :: "future_iterator \<Rightarrow> bool" where
  "fi_ok fi \<longleftrightarrow> (\<exists>n. fi_queue_pos fi = Some n \<and> n < length (fi_queue fi) \<and> fi_current_parent fi = Some (fi_queue fi ! n))"

text \<open>Whatever the position, the next parent is the first one behind it that has children.\<close>

definition rest_of :: "future_iterator \<Rightarrow> nat list" where
  "rest_of fi = drop (next_queue_pos fi) (fi_queue fi)"

lemma next_parent_finds:
  assumes "future_iterator_next_parent h fi = (fi', ok)"
  shows "ok = (concat (map (edges h) (rest_of fi)) \<noteq> [])"
    and "ok \<Longrightarrow> fi_ok fi' \<and> fi_child_pos fi' = 0 \<and> worklist h fi' = concat (map (edges h) (rest_of fi)) \<and>
           (\<exists>p. fi_current_parent fi' = Some p \<and> children_of h p \<noteq> [])"
proof -
  have "ok = (concat (map (edges h) (rest_of fi)) \<noteq> []) \<and>
      (ok \<longrightarrow> fi_ok fi' \<and> fi_child_pos fi' = 0 \<and> worklist h fi' = concat (map (edges h) (rest_of fi)) \<and>
         (\<exists>p. fi_current_parent fi' = Some p \<and> children_of h p \<noteq> []))"
    using assms
  proof (induction h fi rule: future_iterator_next_parent.induct)
    case (1 h fi)
    define n where "n = next_queue_pos fi"
    have n: "next_queue_pos (fi\<lparr>fi_current_parent := None\<rparr>) = n" by (simp add: n_def next_queue_pos_def split: option.split)
    consider (none) "length (fi_queue fi) \<le> n"
      | (kids) "n < length (fi_queue fi)" "children_of h (fi_queue fi ! n) \<noteq> []"
      | (skip) "n < length (fi_queue fi)" "children_of h (fi_queue fi ! n) = []" by linarith
    then show ?case
    proof cases
      case none
      then have "ok = False" "rest_of fi = []"
        using 1(2) n by (auto simp: future_iterator_next_parent.simps [of h fi] Let_def rest_of_def n_def split: if_splits)
      then show ?thesis by simp
    next
      case kids
      then have r: "ok = True" "fi' = fi\<lparr>fi_queue_pos := Some n, fi_current_parent := Some (fi_queue fi ! n), fi_child_pos := 0\<rparr>"
        using 1(2) n by (auto simp: future_iterator_next_parent.simps [of h fi] Let_def split: if_splits)
      have "rest_of fi = fi_queue fi ! n # drop (Suc n) (fi_queue fi)"
        using kids(1) by (simp add: rest_of_def n_def [symmetric] Cons_nth_drop_Suc)
      then show ?thesis using r kids by (simp add: fi_ok_def worklist_def edges_def [of h "fi_queue fi ! n"])
    next
      case skip
      define fi1 where "fi1 = fi\<lparr>fi_queue_pos := Some n, fi_current_parent := Some (fi_queue fi ! n)\<rparr>"
      have r: "future_iterator_next_parent h fi1 = (fi', ok)"
        using 1(2) n skip by (auto simp: future_iterator_next_parent.simps [of h fi] Let_def fi1_def split: if_splits)
      have q: "fi_queue fi \<noteq> []" using skip(1) by auto
      have ih: "ok = (concat (map (edges h) (rest_of fi1)) \<noteq> []) \<and>
        (ok \<longrightarrow> fi_ok fi' \<and> fi_child_pos fi' = 0 \<and> worklist h fi' = concat (map (edges h) (rest_of fi1)) \<and>
         (\<exists>p. fi_current_parent fi' = Some p \<and> children_of h p \<noteq> []))"
        using 1(1) [OF refl _ refl refl _ refl refl] n skip r q by (simp add: fi1_def)
      have "rest_of fi1 = drop (Suc n) (fi_queue fi)"
        using skip(1) by (simp add: rest_of_def next_queue_pos_def fi1_def)
      moreover have "rest_of fi = drop n (fi_queue fi)" by (simp add: rest_of_def n_def)
      ultimately have "rest_of fi = fi_queue fi ! n # rest_of fi1" using skip(1) by (simp add: Cons_nth_drop_Suc)
      then show ?thesis using ih skip(2) edges_def [of h "fi_queue fi ! n"] by simp
    qed
  qed
  then show "ok = (concat (map (edges h) (rest_of fi)) \<noteq> [])"
    and "ok \<Longrightarrow> fi_ok fi' \<and> fi_child_pos fi' = 0 \<and> worklist h fi' = concat (map (edges h) (rest_of fi)) \<and>
           (\<exists>p. fi_current_parent fi' = Some p \<and> children_of h p \<noteq> [])" by simp_all
qed

lemma worklist_current:
  assumes "fi_current_parent fi = Some p" "fi_queue_pos fi = Some n"
  shows "future_iterator_get_current_data h fi =
    (if fi_child_pos fi < length (children_of h p) then Some (children_of h p ! fi_child_pos fi) else None)"
    and "fi_child_pos fi < length (children_of h p) \<Longrightarrow>
      worklist h fi = (p, children_of h p ! fi_child_pos fi) # worklist h (future_iterator_move_forward h fi)"
  using assms
  by (simp_all add: future_iterator_get_current_data_def worklist_def future_iterator_move_forward_def Cons_nth_drop_Suc [symmetric])

lemma valid_empty:
  assumes "fi_ok fi" "worklist h fi = []"
  shows "\<exists>fi'. future_iterator_valid h fi = (fi', False)"
proof -
  obtain n p where n: "fi_queue_pos fi = Some n" "fi_current_parent fi = Some p" "n < length (fi_queue fi)"
    using assms(1) by (auto simp: fi_ok_def)
  obtain fi' ok where r: "future_iterator_next_parent h fi = (fi', ok)" by fastforce
  have "future_iterator_get_current_data h fi = None" "concat (map (edges h) (rest_of fi)) = []"
    using assms(2) n worklist_current(1) [OF n(2,1), of h] by (auto simp: worklist_def rest_of_def next_queue_pos_def)
  then show ?thesis using next_parent_finds(1) [OF r] r by (simp add: future_iterator_valid_def)
qed

lemma valid_next:
  assumes "fi_ok fi" "worklist h fi = (p, c) # W"
  shows "\<exists>fi'. future_iterator_valid h fi = (fi', True) \<and> fi_ok fi' \<and> fi_current_parent fi' = Some p \<and>
    future_iterator_get_current_data h fi' = Some c \<and> worklist h (future_iterator_move_forward h fi') = W"
proof -
  obtain n q where n: "fi_queue_pos fi = Some n" "fi_current_parent fi = Some q" "n < length (fi_queue fi)"
    using assms(1) by (auto simp: fi_ok_def)
  show ?thesis
  proof (cases "fi_child_pos fi < length (children_of h q)")
    case True
    then have "worklist h fi = (q, children_of h q ! fi_child_pos fi) # worklist h (future_iterator_move_forward h fi)"
      and cur: "future_iterator_get_current_data h fi = Some (children_of h q ! fi_child_pos fi)"
      using worklist_current [OF n(2,1), of h] by simp_all
    then have "q = p" "children_of h q ! fi_child_pos fi = c" "worklist h (future_iterator_move_forward h fi) = W"
      using assms(2) by simp_all
    then show ?thesis using assms(1) cur n(2) by (simp add: future_iterator_valid_def)
  next
    case False
    obtain fi' ok where r: "future_iterator_next_parent h fi = (fi', ok)" by fastforce
    have w: "concat (map (edges h) (rest_of fi)) = (p, c) # W"
      using assms(2) n False by (simp add: worklist_def rest_of_def next_queue_pos_def)
    then have ok: "ok" using next_parent_finds(1) [OF r] by simp
    then have v: "future_iterator_valid h fi = (fi', True)"
      using r worklist_current(1) [OF n(2,1), of h] False by (simp add: future_iterator_valid_def)
    obtain p' n' where f: "fi_ok fi'" "fi_child_pos fi' = 0" "worklist h fi' = (p, c) # W" "fi_current_parent fi' = Some p'"
      "children_of h p' \<noteq> []" "fi_queue_pos fi' = Some n'"
      using next_parent_finds(2) [OF r ok] w by (auto simp: fi_ok_def)
    have "future_iterator_get_current_data h fi' = Some (children_of h p' ! 0)"
      "worklist h fi' = (p', children_of h p' ! 0) # worklist h (future_iterator_move_forward h fi')"
      using worklist_current [OF f(4,6), of h] f(2,5) by simp_all
    moreover from this have "p' = p" "children_of h p' ! 0 = c" "worklist h (future_iterator_move_forward h fi') = W"
      using f(3) by simp_all
    ultimately show ?thesis using v f(1,4) by simp
  qed
qed

lemma move_forward_ok: "fi_ok fi \<Longrightarrow> fi_ok (future_iterator_move_forward h fi)"
  "fi_current_parent (future_iterator_move_forward h fi) = fi_current_parent fi"
  by (auto simp: fi_ok_def future_iterator_move_forward_def split: option.split)

text \<open>A future that joins the queue adds its children at the end.\<close>

lemma joined_worklist:
  assumes "fi_ok fi"
  shows "\<exists>fi'. joined h ob (Some fi) = Some fi' \<and> fi_ok fi' \<and> worklist h fi' = worklist h fi @ edges h ob"
proof (cases "children_of h ob = []")
  case True
  then show ?thesis using assms by (simp add: joined_def edges_def)
next
  case False
  then show ?thesis using assms by (auto simp: joined_def fi_ok_def worklist_def nth_append)
qed

lemma worklist_agree: "agree_but F h h' \<Longrightarrow> worklist h' fi = worklist h fi"
proof -
  assume "agree_but F h h'"
  then have "children_of h' = children_of h" by (rule agree_objects(1))
  moreover from this have "edges h' = edges h" by (simp add: edges_def fun_eq_iff)
  ultimately show ?thesis by (simp add: worklist_def split: option.split)
qed

subsection \<open>Rounds of the loop\<close>

definition going :: "(unit, nat) async_iterator \<Rightarrow> bool" where
  "going it \<longleftrightarrow> it_state it = ASYNC_ITERATOR_STARTED \<and> \<not> it_is_cancelled it \<and> it_array it = None \<and> \<not> it_target_hash it"

lemma going_moves:
  assumes "going it"
  shows "safe_moving_end (it_ref_count it) (it\<lparr>it_state := ASYNC_ITERATOR_MOVING, it_is_cancelled := True\<rparr>) = it"
  using assms by (simp add: going_def safe_moving_end_def Let_def)

lemma chain_round:
  assumes "going it" "fi_ok fi" "worklist h fi = (p, c) # W"
  shows "\<exists>fi'. chain_loop core call loc (Calls Frame_valid) it fi h =
      chain_loop core call loc (Calls (Frame_handler () (Element c))) it fi' h \<and>
    fi_ok fi' \<and> fi_current_parent fi' = Some p \<and> worklist h fi' = W"
proof -
  obtain fi1 where v: "future_iterator_valid h fi = (fi1, True)" "fi_ok fi1" "fi_current_parent fi1 = Some p"
    "future_iterator_get_current_data h fi1 = Some c" "worklist h (future_iterator_move_forward h fi1) = W"
    using valid_next [OF assms(2,3)] by blast
  define mv where "mv = it\<lparr>it_state := ASYNC_ITERATOR_MOVING, it_is_cancelled := True\<rparr>"
  have e: "safe_moving_end (it_ref_count it) mv = it" using going_moves [OF assms(1)] by (simp add: mv_def)
  have s: "safe_moving_start f it = (mv, Calls (f (it_ref_count it)))" for f :: "nat \<Rightarrow> (unit, nat) iterate_frame"
    by (simp add: safe_moving_start_def mv_def)
  have "chain_loop core call loc (Calls Frame_valid) it fi h =
      chain_loop core call loc (Calls (Frame_current (it_ref_count it))) mv fi1 h"
    by (subst chain_loop.simps) (simp add: chain_call_def v(1) after_valid_def s)
  also have "\<dots> = chain_loop core call loc (Calls (Frame_key (Element c) (it_ref_count it))) mv fi1 h"
    by (subst chain_loop.simps) (simp add: chain_call_def v(4) after_current_def e s)
  also have "\<dots> = chain_loop core call loc (Calls (Frame_move () (Element c) (it_ref_count it))) mv fi1 h"
    by (subst chain_loop.simps) (simp add: chain_call_def after_key_def e s)
  also have "\<dots> = chain_loop core call loc (Calls (Frame_handler () (Element c))) it (future_iterator_move_forward h fi1) h"
    by (subst chain_loop.simps) (simp add: chain_call_def after_move_def e)
  finally show ?thesis using v(3,5) move_forward_ok(1) [OF v(2), of h] move_forward_ok(2) [of h fi1] by metis
qed

lemma chain_end:
  assumes "fi_ok fi" "worklist h fi = []"
  shows "\<exists>fi'. chain_loop core call loc (Calls Frame_valid) it fi h = Some (None, finish it, fi', h)"
proof -
  obtain fi1 where v: "future_iterator_valid h fi = (fi1, False)" using valid_empty [OF assms] by blast
  have "chain_loop core call loc (Calls Frame_valid) it fi h = chain_loop core call loc (Leaves None) (finish it) fi1 h"
    by (subst chain_loop.simps) (simp add: chain_call_def v after_valid_def)
  then show ?thesis by (simp add: chain_loop.simps)
qed

lemma chain_handled:
  assumes "going it" "future_mappers_handler core call loc c fi h = (h', fi', True)" "ft_thrown h' = None"
  shows "chain_loop core call loc (Calls (Frame_handler () (Element c))) it fi h =
    chain_loop core call loc (Calls Frame_valid) it fi' h'"
proof -
  have same: "h'\<lparr>ft_thrown := None\<rparr> = h'" using assms(3) by (cases h') simp
  have "chain_loop core call loc (Calls (Frame_handler () (Element c))) it fi h =
      chain_loop core call loc (Calls Frame_valid) it fi' (h'\<lparr>ft_thrown := None\<rparr>)"
    using assms by (subst chain_loop.simps) (simp add: chain_call_def after_handler_def iterate_loop_def going_def)
  then show ?thesis unfolding same .
qed

lemma chain_failed:
  assumes "future_mappers_handler core call loc c fi h = (h', fi', True)" "ft_thrown h' = Some x"
  shows "chain_loop core call loc (Calls (Frame_handler () (Element c))) it fi h =
    Some (Some x, finish it, fi', h'\<lparr>ft_thrown := None\<rparr>)"
  using assms by (subst chain_loop.simps) (simp add: chain_call_def after_handler_def Let_def chain_loop.simps)

text \<open>The first call of the coroutine: it rewinds the iterator onto the future that was resolved.\<close>

lemma run_chain_begins:
  assumes "children_of h ob \<noteq> []"
  shows "\<exists>it fi. run_chain core call loc sc ob h = chain_loop core call loc (Calls Frame_valid) it fi h \<and>
    going it \<and> fi_ok fi \<and> worklist h fi = edges h ob"
proof -
  define it1 where "it1 = (add_microtask (chain_iterator sc))\<lparr>it_state := ASYNC_ITERATOR_STARTED, it_position := 0\<rparr>"
  have it1: "going it1" by (simp add: it1_def going_def chain_iterator_def async_iterator_run_in_coroutine_def async_iterator_new_def add_microtask_def)
  define mv where "mv = it1\<lparr>it_state := ASYNC_ITERATOR_MOVING, it_is_cancelled := True\<rparr>"
  have e: "safe_moving_end (it_ref_count it1) mv = it1" using going_moves [OF it1] by (simp add: mv_def)
  have run: "async_iterator_run (chain_iterator sc) = Some (mv, Calls (Frame_rewind (it_ref_count it1)))"
    by (simp add: async_iterator_run_def iterate_def it1_def mv_def safe_moving_start_def chain_iterator_def
        async_iterator_run_in_coroutine_def async_iterator_new_def add_microtask_def Let_def)
  define fi where "fi = future_iterator_rewind h (future_iterator_create ob)"
  obtain fi' ok where np: "future_iterator_next_parent h (future_iterator_create ob) = (fi', ok)" by fastforce
  have rest: "rest_of (future_iterator_create ob) = [ob]" by (simp add: rest_of_def next_queue_pos_def future_iterator_create_def)
  have ok: ok using next_parent_finds(1) [OF np] rest assms by (simp add: edges_def)
  have fi: "fi = fi'" using np by (simp add: fi_def future_iterator_rewind_def future_iterator_create_def)
  have "run_chain core call loc sc ob h =
      chain_loop core call loc (Calls (Frame_rewind (it_ref_count it1))) mv (future_iterator_create ob) h"
    by (simp add: run_chain_def run)
  also have "\<dots> = chain_loop core call loc (Calls Frame_valid) it1 fi h"
    using it1 by (subst chain_loop.simps) (simp add: chain_call_def after_rewind_def e iterate_loop_def going_def fi_def)
  finally show ?thesis using next_parent_finds(2) [OF np ok] rest it1 fi by auto
qed

end
