(* ===== verification/Future_Properties.thy ===== *)
theory Future_Properties
  imports Future_Chain_Run
begin

text \<open>
  A chain of futures as a tree, the outcome of every future of the tree by the reference, and the
  proof that one coroutine over the chain settles the whole tree accordingly; what happens to the
  rest of the tree when an exception is handled by nobody.
\<close>

subsection \<open>Chains as trees\<close>

datatype chain = Chain (chain_root: nat) (chain_below: "chain list")

fun chain_of :: "'v futures \<Rightarrow> chain \<Rightarrow> bool" where
  "chain_of h (Chain ob ts) \<longleftrightarrow> children_of h ob = map chain_root ts \<and> list_all (chain_of h) ts"

fun chain_objects :: "chain \<Rightarrow> nat list" where
  "chain_objects (Chain ob ts) = ob # concat (map chain_objects ts)"

text \<open>The outcomes of the futures of a tree whose root has a parent with the outcome \<open>y\<close>.\<close>

fun chain_outcomes ::
  "'v futures \<Rightarrow> (nat \<Rightarrow> 'v mapper_argument \<Rightarrow> 'v fvalue + throwable) \<Rightarrow> 'v fvalue + throwable \<Rightarrow> chain \<Rightarrow>
   (nat \<times> ('v fvalue + throwable)) list" where
  "chain_outcomes h call y (Chain ob ts) =
     (let y' = mapped (mapper_type_of h ob) (call (mapper_of h ob)) y
      in (ob, y') # concat (map (chain_outcomes h call y') ts))"

definition settled_at :: "'v futures \<Rightarrow> nat \<Rightarrow> 'v fvalue + throwable \<Rightarrow> bool" where
  "settled_at h ob y \<longleftrightarrow> (case future_at h (event_of h ob) of None \<Rightarrow> False | Some z \<Rightarrow> settled_with z y)"

definition waiting_at :: "'v futures \<Rightarrow> nat \<Rightarrow> bool" where
  "waiting_at h ob \<longleftrightarrow> (case future_at h (event_of h ob) of None \<Rightarrow> False | Some z \<Rightarrow> pending z \<and> own_subscription h ob z)"

lemma settled_atI: "event_of h ob = Some f \<Longrightarrow> ft_futures h f = Some z \<Longrightarrow> settled_with z y \<Longrightarrow> settled_at h ob y"
  by (simp add: settled_at_def future_at_def)

lemma settled_atE:
  assumes "settled_at h ob y"
  obtains f z where "event_of h ob = Some f" "ft_futures h f = Some z" "settled_with z y"
  using assms by (auto simp: settled_at_def future_at_def bind_eq_Some_conv split: option.splits)

lemma waiting_atE:
  assumes "waiting_at h ob"
  obtains f z where "event_of h ob = Some f" "ft_futures h f = Some z" "pending z" "own_subscription h ob z"
  using assms by (auto simp: waiting_at_def future_at_def bind_eq_Some_conv split: option.splits)

lemma pending_not_settled: "pending z \<Longrightarrow> \<not> settled_with z y"
  by (simp add: pending_def settled_with_def)

subsection \<open>Forests\<close>

text \<open>The part of a chain that is still to be done: trees, each with its parent and the parent's outcome.\<close>

type_synonym 'v forest = "(nat \<times> ('v fvalue + throwable) \<times> chain) list"

definition forest_objects :: "'v forest \<Rightarrow> nat list" where
  "forest_objects F = concat (map (\<lambda>(p, y, t). chain_objects t) F)"

definition forest_outcomes where
  "forest_outcomes h call F = concat (map (\<lambda>(p, y, t). chain_outcomes h call y t) F)"

definition forest_work :: "'v forest \<Rightarrow> (nat \<times> nat) list" where
  "forest_work F = map (\<lambda>(p, y, t). (p, chain_root t)) F"

definition forest_ok :: "'v futures \<Rightarrow> 'v forest \<Rightarrow> bool" where
  "forest_ok h F \<longleftrightarrow>
     (\<forall>(p, y, t) \<in> set F. settled_at h p y \<and> chain_of h t) \<and>
     (\<forall>ob \<in> set (forest_objects F). waiting_at h ob) \<and>
     distinct (map (event_of h) (forest_objects F))"

definition grown :: "nat \<Rightarrow> 'v fvalue + throwable \<Rightarrow> chain list \<Rightarrow> 'v forest" where
  "grown c y ts = map (\<lambda>t. (c, y, t)) ts"

lemma forest_simps [simp]:
  "forest_objects [] = []" "forest_outcomes h call [] = []" "forest_work [] = []"
  "forest_objects ((p, y, t) # F) = chain_objects t @ forest_objects F"
  "forest_outcomes h call ((p, y, t) # F) = chain_outcomes h call y t @ forest_outcomes h call F"
  "forest_work ((p, y, t) # F) = (p, chain_root t) # forest_work F"
  "forest_objects (F @ G) = forest_objects F @ forest_objects G"
  "forest_outcomes h call (F @ G) = forest_outcomes h call F @ forest_outcomes h call G"
  "forest_work (F @ G) = forest_work F @ forest_work G"
  by (simp_all add: forest_objects_def forest_outcomes_def forest_work_def)

lemma grown_simps:
  "forest_objects (grown c y ts) = concat (map chain_objects ts)"
  "forest_outcomes h call (grown c y ts) = concat (map (chain_outcomes h call y) ts)"
  "forest_work (grown c y ts) = map (Pair c) (map chain_root ts)"
  by (simp_all add: forest_objects_def forest_outcomes_def forest_work_def grown_def comp_def)

lemma chain_outcomes_agree:
  assumes "mapper_of h' = mapper_of h" "mapper_type_of h' = mapper_type_of h"
  shows "chain_outcomes h' call y t = chain_outcomes h call y t"
proof (induction t arbitrary: y)
  case (Chain ob ts)
  then show ?case by (simp add: assms Let_def cong: map_cong)
qed

lemma chain_of_agree:
  assumes "children_of h' = children_of h"
  shows "chain_of h' t = chain_of h t"
proof (induction t)
  case (Chain ob ts)
  then show ?case by (simp add: assms list_all_iff)
qed

lemma forest_outcomes_agree:
  assumes "agree_but G h h'"
  shows "forest_outcomes h' call F = forest_outcomes h call F"
  using chain_outcomes_agree [OF agree_objects(3,4) [OF assms]] by (simp add: forest_outcomes_def)

text \<open>What was settled stays settled.\<close>

definition keeps :: "'v futures \<Rightarrow> 'v futures \<Rightarrow> bool" where
  "keeps h h' \<longleftrightarrow> ft_objects h' = ft_objects h \<and>
     (\<forall>f z y. ft_futures h f = Some z \<and> settled_with z y \<longrightarrow> (\<exists>z'. ft_futures h' f = Some z' \<and> settled_with z' y))"

lemma keeps_refl [simp]: "keeps h h" by (simp add: keeps_def)

lemma keeps_trans: "keeps h h' \<Longrightarrow> keeps h' h'' \<Longrightarrow> keeps h h''"
  by (simp add: keeps_def) metis

lemma keeps_settled: "keeps h h' \<Longrightarrow> settled_at h ob y \<Longrightarrow> settled_at h' ob y"
  by (elim settled_atE) (fastforce simp: keeps_def event_of_def intro: settled_atI)

lemma settles_keeps:
  assumes "settles core co fc fp y fi h r" "ft_futures h fc = Some c" "pending c"
  shows "keeps h (fst r)"
proof -
  have "\<exists>z'. ft_futures (fst r) f = Some z' \<and> settled_with z' y'" if "ft_futures h f = Some z" "settled_with z y'" for f z y'
  proof -
    have "f \<noteq> fc" using that assms(2,3) pending_not_settled [OF assms(3)] by auto
    then show ?thesis using that assms(1) by (cases "f = fp") (auto simp: settles_def agree_but_def)
  qed
  then show ?thesis using assms(1) by (auto simp: keeps_def settles_def agree_but_def)
qed

subsection \<open>One round\<close>

lemma forest_head:
  assumes "forest_ok h ((p, y, Chain c ts) # F)"
  obtains fp zp fc zc where "event_of h p = Some fp" "ft_futures h fp = Some zp" "settled_with zp y"
    "event_of h c = Some fc" "ft_futures h fc = Some zc" "pending zc" "own_subscription h c zc" "fc \<noteq> fp"
proof -
  have s: "settled_at h p y" and w: "waiting_at h c" using assms by (simp_all add: forest_ok_def)
  from s obtain fp zp where p: "event_of h p = Some fp" "ft_futures h fp = Some zp" "settled_with zp y" by (rule settled_atE)
  from w obtain fc zc where c: "event_of h c = Some fc" "ft_futures h fc = Some zc" "pending zc" "own_subscription h c zc"
    by (rule waiting_atE)
  have "fc \<noteq> fp" using p c pending_not_settled by force
  then show thesis using that p c by blast
qed

lemma forest_untouched:
  assumes F: "forest_ok h ((p, y, Chain c ts) # F)"
    and ev: "event_of h p = Some fp" "event_of h c = Some fc" "ft_futures h fp = Some zp" "settled_with zp y"
    and ag: "agree_but {fc, fp} h h'" and ob: "ob \<in> set (forest_objects (F @ grown c y' ts))"
  shows "future_at h' (event_of h' ob) = future_at h (event_of h ob)" "waiting_at h' ob"
    "unhandled core h' ob yo = unhandled core h ob yo"
proof -
  have kids: "children_of h' = children_of h" "event_of h' = event_of h" using agree_objects [OF ag] by simp_all
  have w: "waiting_at h ob" using F ob by (auto simp: forest_ok_def grown_simps)
  then obtain f z where f: "event_of h ob = Some f" "ft_futures h f = Some z" "pending z" "own_subscription h ob z"
    by (rule waiting_atE)
  have "event_of h c \<notin> event_of h ` set (forest_objects (F @ grown c y' ts))"
    using F by (auto simp: forest_ok_def grown_simps)
  then have "event_of h ob \<noteq> event_of h c" using ob by (metis imageI)
  moreover have "f \<noteq> fp" using f ev pending_not_settled by force
  ultimately have "ft_futures h' f = ft_futures h f" using f ag ev by (simp add: agree_but_def)
  then show at: "future_at h' (event_of h' ob) = future_at h (event_of h ob)" using f kids by (simp add: future_at_def)
  have "own_subscription h' ob = own_subscription h ob" using kids by (simp add: own_subscription_def fun_eq_iff)
  then show "waiting_at h' ob" using w at by (simp add: waiting_at_def split: option.splits)
  show "unhandled core h' ob yo = unhandled core h ob yo" using at kids by (simp add: unhandled_def split: sum.split)
qed

lemma forest_grows:
  assumes F: "forest_ok h ((p, y, Chain c ts) # F)"
    and ev: "event_of h p = Some fp" "event_of h c = Some fc" "ft_futures h fp = Some zp" "settled_with zp y"
    and ag: "agree_but {fc, fp} h h'" and k: "keeps h h'" and s: "settled_at h' c y'"
  shows "forest_ok h' (F @ grown c y' ts)"
proof -
  have kids: "children_of h' = children_of h" "event_of h' = event_of h" using agree_objects [OF ag] by simp_all
  have "settled_at h' q yq \<and> chain_of h' t" if "(q, yq, t) \<in> set (F @ grown c y' ts)" for q yq t
  proof (cases "(q, yq, t) \<in> set F")
    case True
    then show ?thesis using F keeps_settled [OF k] chain_of_agree [OF kids(1)] by (auto simp: forest_ok_def)
  next
    case False
    then have "q = c" "yq = y'" "t \<in> set ts" using that by (auto simp: grown_def)
    then show ?thesis using F s chain_of_agree [OF kids(1)] by (auto simp: forest_ok_def list_all_iff)
  qed
  then have "\<forall>(q, yq, t) \<in> set (F @ grown c y' ts). settled_at h' q yq \<and> chain_of h' t" by blast
  moreover have "\<forall>ob \<in> set (forest_objects (F @ grown c y' ts)). waiting_at h' ob"
    using forest_untouched(2) [OF F ev ag] by blast
  moreover have "distinct (map (event_of h) (forest_objects (F @ grown c y' ts)))"
    using F by (simp add: forest_ok_def grown_simps Int_commute)
  ultimately show ?thesis using kids(2) by (simp only: forest_ok_def)
qed

lemma chain_step:
  assumes ok: "future_core_ok core" "returns_values call" and go: "going it" "fi_ok fi"
    and F: "forest_ok h ((p, y, Chain c ts) # F)" and W: "worklist h fi = forest_work ((p, y, Chain c ts) # F)"
    and y': "y' = mapped (mapper_type_of h c) (call (mapper_of h c)) y"
  shows "\<exists>fi1 fi2 h'. chain_loop core call loc (Calls Frame_valid) it fi h =
      chain_loop core call loc (Calls (Frame_handler () (Element c))) it fi1 h \<and>
    future_mappers_handler core call loc c fi1 h = (h', fi2, True) \<and>
    ft_thrown h' = (case unhandled core h c y' of Some x \<Rightarrow> Some x | None \<Rightarrow> ft_thrown h) \<and>
    fi_ok fi2 \<and> worklist h' fi2 = forest_work (F @ grown c y' ts) \<and> forest_ok h' (F @ grown c y' ts) \<and>
    keeps h h' \<and> settled_at h' c y' \<and> (\<exists>G. agree_but G h h') \<and>
    (\<forall>ob \<in> set (forest_objects (F @ grown c y' ts)). \<forall>yo. unhandled core h' ob yo = unhandled core h ob yo)"
proof -
  obtain fp zp fc zc where e: "event_of h p = Some fp" "ft_futures h fp = Some zp" "settled_with zp y"
    "event_of h c = Some fc" "ft_futures h fc = Some zc" "pending zc" "own_subscription h c zc" "fc \<noteq> fp"
    using forest_head [OF F] .
  have W': "worklist h fi = (p, c) # forest_work F" using W by simp
  obtain fi1 where r: "chain_loop core call loc (Calls Frame_valid) it fi h =
      chain_loop core call loc (Calls (Frame_handler () (Element c))) it fi1 h"
    "fi_ok fi1" "fi_current_parent fi1 = Some p" "worklist h fi1 = forest_work F"
    using chain_round [OF go W', of core call loc] by blast
  obtain h' fio where pr: "process_future_mapper core call loc fp c (Some fi1) h = (h', fio)" by fastforce
  have st: "settles core c fc fp y' fi1 h (h', fio)"
    using process_settles [OF ok e(2,3,8,4,5,6,7), of fi1 loc] pr y' by simp
  obtain fi2 where j: "joined h c (Some fi1) = Some fi2" "fi_ok fi2" "worklist h fi2 = worklist h fi1 @ edges h c"
    using joined_worklist [OF r(2)] by blast
  have fio: "fio = Some fi2" using st j(1) by (simp add: settles_def)
  have ag: "agree_but {fc, fp} h h'" using st by (simp add: settles_def)
  have hd: "future_mappers_handler core call loc c fi1 h = (h', fi2, True)"
    using r(3) e(1) pr fio by (simp add: future_mappers_handler_def)
  have k: "keeps h h'" using settles_keeps [OF st e(5,6)] by simp
  have s: "settled_at h' c y'"
    using st agree_objects(2) [OF ag] e(4) by (auto simp: settles_def intro: settled_atI)
  have "worklist h' fi2 = forest_work (F @ grown c y' ts)"
    using worklist_agree [OF ag] j(3) r(4) F by (simp add: grown_simps edges_def forest_ok_def)
  moreover have "forest_ok h' (F @ grown c y' ts)" using forest_grows [OF F e(1,4,2,3) ag k s] .
  moreover have "ft_thrown h' = (case unhandled core h c y' of Some x \<Rightarrow> Some x | None \<Rightarrow> ft_thrown h)"
    using st by (simp add: settles_def)
  moreover have "\<forall>ob \<in> set (forest_objects (F @ grown c y' ts)). \<forall>yo. unhandled core h' ob yo = unhandled core h ob yo"
    using forest_untouched(3) [OF F e(1,4,2,3) ag] by blast
  ultimately show ?thesis using r(1) hd j(2) k s ag by blast
qed

subsection \<open>The whole chain\<close>

definition quiet where
  "quiet core h outs \<longleftrightarrow> list_all (\<lambda>(ob, y). unhandled core h ob y = None) outs"

lemma outcome_objects: "map fst (chain_outcomes h call y t) = chain_objects t"
proof (induction t arbitrary: y)
  case (Chain ob ts)
  then show ?case by (simp add: Let_def map_concat comp_def cong: map_cong)
qed

lemma forest_outcome_objects: "map fst (forest_outcomes h call F) = forest_objects F"
  by (simp add: forest_outcomes_def forest_objects_def map_concat comp_def outcome_objects split_def)

lemma quiet_agree:
  assumes "quiet core h (forest_outcomes h call F)" "agree_but G h h'"
    "\<forall>ob \<in> set (forest_objects F). \<forall>yo. unhandled core h' ob yo = unhandled core h ob yo"
  shows "quiet core h' (forest_outcomes h' call F)"
proof -
  have "unhandled core h' ob y = None" if "(ob, y) \<in> set (forest_outcomes h call F)" for ob y
  proof -
    have "ob \<in> set (forest_objects F)" using that by (metis forest_outcome_objects fst_conv image_eqI set_map)
    then show ?thesis using assms(1,3) that by (auto simp: quiet_def list_all_iff)
  qed
  then show ?thesis unfolding forest_outcomes_agree [OF assms(2)] quiet_def list_all_iff by auto
qed

lemma forest_settled:
  assumes ok: "future_core_ok core" "returns_values call" and "going it" "fi_ok fi" "forest_ok h F"
    "worklist h fi = forest_work F" "ft_thrown h = None" "quiet core h (forest_outcomes h call F)"
  shows "\<exists>it' fi' h'. chain_loop core call loc (Calls Frame_valid) it fi h = Some (None, it', fi', h') \<and>
    keeps h h' \<and> list_all (\<lambda>(ob, y). settled_at h' ob y) (forest_outcomes h call F)"
  using assms(3-)
proof (induction "length (forest_objects F)" arbitrary: F fi h rule: less_induct)
  case less
  show ?case
  proof (cases F)
    case Nil
    then show ?thesis using chain_end [OF less(3), of h core call loc it] less(5) by auto
  next
    case (Cons i F')
    obtain p y c ts where F: "F = (p, y, Chain c ts) # F'" using Cons by (cases i; cases "snd (snd i)") auto
    define y' where "y' = mapped (mapper_type_of h c) (call (mapper_of h c)) y"
    define G where "G = F' @ grown c y' ts"
    have out: "set (forest_outcomes h call F) = insert (c, y') (set (forest_outcomes h call G))"
      by (auto simp: F G_def grown_simps y'_def Let_def)
    have q: "unhandled core h c y' = None" "quiet core h (forest_outcomes h call G)"
      using less(7) out by (auto simp: quiet_def list_all_iff)
    obtain fi1 fi2 h1 where st: "chain_loop core call loc (Calls Frame_valid) it fi h =
        chain_loop core call loc (Calls (Frame_handler () (Element c))) it fi1 h"
      "future_mappers_handler core call loc c fi1 h = (h1, fi2, True)"
      "ft_thrown h1 = (case unhandled core h c y' of Some x \<Rightarrow> Some x | None \<Rightarrow> ft_thrown h)"
      "fi_ok fi2" "worklist h1 fi2 = forest_work G" "forest_ok h1 G" "keeps h h1" "settled_at h1 c y'" "\<exists>A. agree_but A h h1"
      "\<forall>ob \<in> set (forest_objects G). \<forall>yo. unhandled core h1 ob yo = unhandled core h ob yo"
      using chain_step [OF ok less(2,3) less(4)[unfolded F] less(5)[unfolded F] y'_def, of loc] unfolding G_def by blast
    have th: "ft_thrown h1 = None" using st(3) q(1) less(6) by simp
    obtain A where A: "agree_but A h h1" using st(9) by blast
    have len: "length (forest_objects G) < length (forest_objects F)" by (simp add: F G_def grown_simps)
    obtain it' fi' h' where rest: "chain_loop core call loc (Calls Frame_valid) it fi2 h1 = Some (None, it', fi', h')"
      "keeps h1 h'" "list_all (\<lambda>(ob, y). settled_at h' ob y) (forest_outcomes h1 call G)"
      using less(1) [OF len less(2) st(4,6,5) th quiet_agree [OF q(2) A st(10)]] by blast
    have "chain_loop core call loc (Calls Frame_valid) it fi h = Some (None, it', fi', h')"
      using st(1) chain_handled [OF less(2) st(2) th] rest(1) by simp
    moreover have "list_all (\<lambda>(ob, y). settled_at h' ob y) (forest_outcomes h call F)"
      using rest(3) keeps_settled [OF rest(2) st(8)] out unfolding forest_outcomes_agree [OF A] list_all_iff by auto
    ultimately show ?thesis using keeps_trans [OF st(7) rest(2)] by blast
  qed
qed

text \<open>
  A chain that is ready: its first future is settled with \<open>y\<close>, all others wait, and no two
  share an event.
\<close>

definition chain_ready :: "'v futures \<Rightarrow> 'v fvalue + throwable \<Rightarrow> chain \<Rightarrow> bool" where
  "chain_ready h y t \<longleftrightarrow>
     chain_of h t \<and> chain_below t \<noteq> [] \<and> settled_at h (chain_root t) y \<and> ft_thrown h = None \<and>
     list_all (waiting_at h) (concat (map chain_objects (chain_below t))) \<and> distinct (map (event_of h) (chain_objects t))"

lemma ready_forest:
  assumes "chain_ready h y (Chain r ts)"
  shows "forest_ok h (grown r y ts)" "edges h r = forest_work (grown r y ts)" "children_of h r \<noteq> []" "ft_thrown h = None"
proof -
  have "\<forall>(q, yq, t) \<in> set (grown r y ts). settled_at h q yq \<and> chain_of h t"
    using assms by (auto simp: chain_ready_def grown_def list_all_iff)
  then show "forest_ok h (grown r y ts)" using assms by (simp add: chain_ready_def forest_ok_def grown_simps list_all_iff)
qed (use assms in \<open>simp_all add: chain_ready_def edges_def grown_simps\<close>)

text \<open>
  C29.  One coroutine over a chain of \<^verbatim>\<open>map()\<close>, \<^verbatim>\<open>catch()\<close> and \<^verbatim>\<open>finally()\<close> futures, however it branches, returns and
  settles every future of the chain with the outcome that the reference gives it, from that of its
  parent, provided that every exception has somebody who handles it.
\<close>

theorem mapper_chain_settles_tree:
  assumes "future_core_ok core" "returns_values call" "chain_ready h y (Chain r ts)"
    and "quiet core h (concat (map (chain_outcomes h call y) ts))"
  shows "\<exists>it fi h'. run_chain core call loc scope_cancelled r h = Some (None, it, fi, h') \<and>
    settled_at h' r y \<and> list_all (\<lambda>(ob, y'). settled_at h' ob y') (concat (map (chain_outcomes h call y) ts))"
proof -
  note rf = ready_forest [OF assms(3)]
  obtain it fi where b: "run_chain core call loc scope_cancelled r h = chain_loop core call loc (Calls Frame_valid) it fi h"
    "going it" "fi_ok fi" "worklist h fi = edges h r"
    using run_chain_begins [OF rf(3)] by blast
  have q: "quiet core h (forest_outcomes h call (grown r y ts))" using assms(4) by (simp add: grown_simps)
  have "settled_at h r y" using assms(3) by (simp add: chain_ready_def)
  then show ?thesis
    using forest_settled [OF assms(1,2) b(2,3) rf(1) _ rf(4) q, of loc] b(1,4) rf(2) keeps_settled
    by (fastforce simp: grown_simps)
qed

text \<open>
  C30.  An exception that nobody handles stops the coroutine over a chain: it is thrown, the
  iterator is finished, and every future of the siblings that come after stays pending.
\<close>

theorem unhandled_failure_strands_siblings:
  assumes "future_core_ok core" "returns_values call" "chain_ready h y (Chain r (Chain c us # ts))"
    and "unhandled core h c (mapped (mapper_type_of h c) (call (mapper_of h c)) y) = Some x"
  shows "\<exists>it fi h'. run_chain core call loc scope_cancelled r h = Some (Some x, it, fi, h') \<and>
    it_state it = ASYNC_ITERATOR_FINISHED \<and> list_all (waiting_at h') (concat (map chain_objects ts))"
proof -
  define y' where "y' = mapped (mapper_type_of h c) (call (mapper_of h c)) y"
  note rf = ready_forest [OF assms(3)]
  obtain it fi where b: "run_chain core call loc scope_cancelled r h = chain_loop core call loc (Calls Frame_valid) it fi h"
    "going it" "fi_ok fi" "worklist h fi = edges h r"
    using run_chain_begins [OF rf(3)] by blast
  have F: "grown r y (Chain c us # ts) = (r, y, Chain c us) # grown r y ts" by (simp add: grown_def)
  obtain fi1 fi2 h1 where st: "chain_loop core call loc (Calls Frame_valid) it fi h =
      chain_loop core call loc (Calls (Frame_handler () (Element c))) it fi1 h"
    "future_mappers_handler core call loc c fi1 h = (h1, fi2, True)"
    "ft_thrown h1 = (case unhandled core h c y' of Some x \<Rightarrow> Some x | None \<Rightarrow> ft_thrown h)"
    "forest_ok h1 (grown r y ts @ grown c y' us)"
    using chain_step [OF assms(1,2) b(2,3) rf(1)[unfolded F] b(4)[unfolded rf(2) F] y'_def, of loc] by blast
  have "ft_thrown h1 = Some x" using st(3) assms(4) by (simp add: y'_def)
  then have "run_chain core call loc scope_cancelled r h = Some (Some x, finish it, fi2, h1\<lparr>ft_thrown := None\<rparr>)"
    using b(1) st(1) chain_failed [OF st(2)] by simp
  moreover have "waiting_at (h1\<lparr>ft_thrown := None\<rparr>) = waiting_at h1"
    by (simp add: fun_eq_iff waiting_at_def event_of_def future_at_def own_subscription_def children_of_def split: option.split)
  moreover have "list_all (waiting_at h1) (concat (map chain_objects ts))"
    using st(4) by (simp add: list_all_iff forest_ok_def grown_simps)
  ultimately show ?thesis by (simp add: finish_def)
qed

subsection \<open>A demonstration\<close>

text \<open>
  An engine as documented, and a chain of six futures: below the first one, settled with 5, a
  \<^verbatim>\<open>map()\<close> with a \<^verbatim>\<open>catch()\<close> and a \<^verbatim>\<open>finally()\<close> below it, and a \<^verbatim>\<open>finally()\<close> with a \<^verbatim>\<open>map()\<close> below it.
\<close>

definition demo_future_core :: "(nat \<Rightarrow> bool) \<Rightarrow> nat future_core" where
  "demo_future_core handles =
     \<lparr>fc_complete = (\<lambda>v z. if zf_closed z then z else z\<lparr>zf_result := v\<rparr>),
      fc_reject = (\<lambda>x z. if zf_closed z then z else z\<lparr>zf_exception := Some x\<rparr>),
      fc_handles = handles, fc_refcounted = (\<lambda>v. True)\<rparr>"

lemma demo_future_core_ok [simp]: "future_core_ok (demo_future_core handles)"
  by (simp add: future_core_ok_def demo_future_core_def)

definition demo_error :: throwable where
  "demo_error = \<lparr>th_cancellation = False, th_id = 1\<rparr>"

text \<open>Mapper 1 throws, the others add their number.\<close>

definition demo_mapper :: "nat \<Rightarrow> nat mapper_argument \<Rightarrow> nat fvalue + throwable" where
  "demo_mapper m a =
     (if m = 1 then Inr demo_error
      else case a of Arg_value (FV_value v) \<Rightarrow> Inl (FV_value (v + m)) | _ \<Rightarrow> Inl (FV_value m))"

lemma demo_mapper_returns [simp]: "returns_values demo_mapper"
  by (simp add: returns_values_def demo_mapper_def split: mapper_argument.split fvalue.split)

definition demo_link :: "nat \<Rightarrow> async_future_mapper_type \<Rightarrow> nat \<Rightarrow> nat futures \<Rightarrow> nat futures" where
  "demo_link m t source h = fst (async_future_create_mapper True True (Some 0) None m t source h)"

definition no_futures :: "'v futures" where
  "no_futures = \<lparr>ft_futures = (\<lambda>_. None), ft_objects = (\<lambda>_. None), ft_next_future = 0, ft_next_object = 0,
     ft_thrown = None, ft_effects = []\<rparr>"

definition demo_chain :: "nat futures" where
  "demo_chain =
     (let h = fst (async_future_obj_create None no_futures);
          h = demo_link 1 ASYNC_FUTURE_MAPPER_SUCCESS 0 h;
          h = demo_link 2 ASYNC_FUTURE_MAPPER_FINALLY 0 h;
          h = demo_link 3 ASYNC_FUTURE_MAPPER_CATCH 1 h;
          h = demo_link 4 ASYNC_FUTURE_MAPPER_FINALLY 3 h;
          h = demo_link 5 ASYNC_FUTURE_MAPPER_SUCCESS 2 h
      in fst (complete_future (demo_future_core (\<lambda>_. False)) None (FV_value 5) 0 None h))"

definition demo_tree :: "chain list" where
  "demo_tree = [Chain 1 [Chain 3 [Chain 4 []]], Chain 2 [Chain 5 []]]"

lemma demo_ready: "chain_ready demo_chain (Inl (FV_value 5)) (Chain 0 demo_tree)"
  by code_simp

lemma demo_outcomes:
  "concat (map (chain_outcomes demo_chain demo_mapper (Inl (FV_value 5))) demo_tree) =
     [(1, Inr demo_error), (3, Inl (FV_value 3)), (4, Inl (FV_value 3)), (2, Inl (FV_value 5)), (5, Inl (FV_value 10))]"
  by code_simp

lemma demo_quiet:
  "quiet (demo_future_core (\<lambda>_. False)) demo_chain
     (concat (map (chain_outcomes demo_chain demo_mapper (Inl (FV_value 5))) demo_tree))"
  by code_simp

theorem mapper_chain_settles_tree_witness:
  "\<exists>it fi h'. run_chain (demo_future_core (\<lambda>_. False)) demo_mapper None False 0 demo_chain = Some (None, it, fi, h') \<and>
     settled_at h' 0 (Inl (FV_value 5)) \<and>
     list_all (\<lambda>(ob, y'). settled_at h' ob y')
       [(1, Inr demo_error), (3, Inl (FV_value 3)), (4, Inl (FV_value 3)), (2, Inl (FV_value 5)), (5, Inl (FV_value 10))]"
  using mapper_chain_settles_tree [OF demo_future_core_ok demo_mapper_returns demo_ready demo_quiet, of None False]
  unfolding demo_outcomes .

text \<open>The same two children of the first future, without the \<^verbatim>\<open>catch()\<close>.\<close>

definition demo_bare :: "nat futures" where
  "demo_bare =
     (let h = fst (async_future_obj_create None no_futures);
          h = demo_link 1 ASYNC_FUTURE_MAPPER_SUCCESS 0 h;
          h = demo_link 2 ASYNC_FUTURE_MAPPER_SUCCESS 0 h
      in fst (complete_future (demo_future_core (\<lambda>_. False)) None (FV_value 5) 0 None h))"

lemma demo_bare_ready: "chain_ready demo_bare (Inl (FV_value 5)) (Chain 0 [Chain 1 [], Chain 2 []])"
  by code_simp

lemma demo_bare_unhandled:
  "unhandled (demo_future_core (\<lambda>_. False)) demo_bare 1
     (mapped (mapper_type_of demo_bare 1) (demo_mapper (mapper_of demo_bare 1)) (Inl (FV_value 5))) = Some demo_error"
  by code_simp

theorem unhandled_failure_strands_siblings_witness:
  "\<exists>it fi h'. run_chain (demo_future_core (\<lambda>_. False)) demo_mapper None False 0 demo_bare = Some (Some demo_error, it, fi, h') \<and>
     it_state it = ASYNC_ITERATOR_FINISHED \<and> list_all (waiting_at h') [2]"
  using unhandled_failure_strands_siblings [OF demo_future_core_ok demo_mapper_returns demo_bare_ready demo_bare_unhandled, of None False]
  by simp

end
