(* ===== verification/Future_Growth.thy ===== *)
theory Future_Growth
  imports Future_Properties "HOL-Library.Multiset"
begin

text \<open>
  How chains grow: a new \<^verbatim>\<open>map()\<close>, \<^verbatim>\<open>catch()\<close> or \<^verbatim>\<open>finally()\<close> adds a leaf to a chain that waits, and settling
  the first future makes the chain ready.  Then two situations in which a chain goes wrong: a
  mapper that suspends, and a \<^verbatim>\<open>finally()\<close> mapper below a rejected future.
\<close>

subsection \<open>Waiting chains\<close>

text \<open>
  A chain whose first future is pending as well: all objects and events exist, no two futures
  share an event, and a future is subscribed exactly if it has children.
\<close>

definition bare_table :: "'v futures \<Rightarrow> nat \<Rightarrow> bool" where
  "bare_table h ob \<longleftrightarrow> Option.bind (ft_objects h ob) fo_children = Some []"

definition allocated :: "'v futures \<Rightarrow> nat \<Rightarrow> bool" where
  "allocated h ob \<longleftrightarrow> ob < ft_next_object h \<and> (case event_of h ob of Some f \<Rightarrow> f < ft_next_future h | None \<Rightarrow> False)"

definition chain_waits :: "'v futures \<Rightarrow> chain \<Rightarrow> bool" where
  "chain_waits h t \<longleftrightarrow>
     chain_of h t \<and> distinct (map (event_of h) (chain_objects t)) \<and>
     list_all (\<lambda>ob. waiting_at h ob \<and> allocated h ob \<and> \<not> bare_table h ob) (chain_objects t)"

fun add_leaf :: "nat \<Rightarrow> nat \<Rightarrow> chain \<Rightarrow> chain" where
  "add_leaf s c (Chain ob ts) = Chain ob (map (add_leaf s c) ts @ (if ob = s then [Chain c []] else []))"

lemma add_leaf_root [simp]: "chain_root (add_leaf s c t) = chain_root t"
  by (cases t) simp

lemma add_leaf_absent: "s \<notin> set (chain_objects t) \<Longrightarrow> add_leaf s c t = t"
proof (induction t)
  case (Chain ob ts)
  then have "map (add_leaf s c) ts = ts" by (intro map_idI) auto
  then show ?case using Chain by simp
qed

lemma add_leaf_mset:
  assumes "distinct (chain_objects t)" "s \<in> set (chain_objects t)"
  shows "mset (chain_objects (add_leaf s c t)) = add_mset c (mset (chain_objects t))"
  using assms
proof (induction t)
  case (Chain ob ts)
  show ?case
  proof (cases "ob = s")
    case True
    then have "s \<notin> set (chain_objects u)" if "u \<in> set ts" for u using Chain.prems that by auto
    then have "map (add_leaf s c) ts = ts" by (intro map_idI) (simp add: add_leaf_absent)
    then show ?thesis using True by simp
  next
    case False
    then obtain u where u: "u \<in> set ts" "s \<in> set (chain_objects u)" using Chain.prems by auto
    then obtain as bs where ts: "ts = as @ u # bs" by (auto simp: in_set_conv_decomp)
    have d: "distinct (chain_objects u)" "s \<notin> set (concat (map chain_objects as))" "s \<notin> set (concat (map chain_objects bs))"
      using Chain.prems(1) u(2) by (auto simp: ts)
    have "map (add_leaf s c) as = as" "map (add_leaf s c) bs = bs"
      using d(2,3) by (auto intro!: map_idI add_leaf_absent)
    then show ?thesis using Chain.IH [OF u(1) d(1) u(2)] False by (simp add: ts)
  qed
qed

lemma add_leaf_chain:
  assumes "chain_of h t" "c \<notin> set (chain_objects t)"
    and kids: "\<And>ob. ob \<noteq> c \<Longrightarrow> children_of h' ob = children_of h ob @ (if ob = s then [c] else [])" "children_of h' c = []"
  shows "chain_of h' (add_leaf s c t)"
  using assms(1,2)
proof (induction t)
  case (Chain ob ts)
  then have "ob \<noteq> c" "list_all (chain_of h' \<circ> add_leaf s c) ts" by (auto simp: list_all_iff)
  then show ?case using Chain.prems kids by (simp add: list_all_iff)
qed

subsection \<open>A new mapper\<close>

definition adds_mapper ::
  "nat \<Rightarrow> future_object \<Rightarrow> nat \<Rightarrow> 'v zend_future \<Rightarrow> nat option \<Rightarrow> location option \<Rightarrow> nat \<Rightarrow> async_future_mapper_type \<Rightarrow>
   'v futures \<Rightarrow> 'v futures \<Rightarrow> bool" where
  "adds_mapper s x f z scope loc m t h h' \<longleftrightarrow>
     ft_objects h s = Some x \<and> fo_event x = Some f \<and> ft_futures h f = Some z \<and> \<not> zf_closed z \<and>
     s < ft_next_object h \<and> f < ft_next_future h \<and>
     ft_objects h' = (ft_objects h)
       (s \<mapsto> x\<lparr>fo_children := Some (children_of h s @ [ft_next_object h])\<rparr>,
        ft_next_object h \<mapsto> \<lparr>fo_event = Some (ft_next_future h), fo_children = None, fo_mapper = Some m, fo_mapper_type = t\<rparr>) \<and>
     ft_futures h' = (ft_futures h)
       (ft_next_future h \<mapsto> new_zend_future loc,
        f \<mapsto> z\<lparr>zf_used := True, zf_resolve_callbacks := zf_resolve_callbacks z @ (if fo_children x = None then [(s, scope)] else [])\<rparr>) \<and>
     ft_next_object h' = ft_next_object h + 1 \<and> ft_next_future h' = ft_next_future h + 1 \<and> ft_thrown h' = ft_thrown h"

lemma create_mapper_adds:
  assumes "ft_objects h s = Some x" "fo_event x = Some f" "ft_futures h f = Some z" "\<not> zf_closed z"
    "s < ft_next_object h" "f < ft_next_future h"
  shows "\<exists>h'. async_future_create_mapper True spawns scope loc m t s h = (h', Inr (ft_next_object h)) \<and>
    adds_mapper s x f z scope loc m t h h'"
  using assms
  by (auto simp: adds_mapper_def async_future_create_mapper_def event_of_def async_future_obj_create_def async_new_future_def
      async_new_future_obj_def mod_object_def mod_future_def children_of_def Let_def fun_eq_iff split: option.split)

lemma adds_mapper_objects:
  assumes "adds_mapper s x f z scope loc m t h h'"
  shows "ob \<noteq> ft_next_object h \<Longrightarrow> children_of h' ob = children_of h ob @ (if ob = s then [ft_next_object h] else [])"
    "children_of h' (ft_next_object h) = []" "ob \<noteq> ft_next_object h \<Longrightarrow> event_of h' ob = event_of h ob"
    "event_of h' (ft_next_object h) = Some (ft_next_future h)" "mapper_of h' (ft_next_object h) = m"
    "mapper_type_of h' (ft_next_object h) = t" "event_of h s = Some f"
  using assms by (simp_all add: adds_mapper_def children_of_def event_of_def mapper_of_def mapper_type_of_def)

lemma adds_mapper_chain:
  assumes add: "adds_mapper s x f z scope loc m mt h h'" and waits: "chain_waits h t" and s: "s \<in> set (chain_objects t)"
  shows "chain_of h' (add_leaf s (ft_next_object h) t)"
    and "set (chain_objects (add_leaf s (ft_next_object h) t)) = insert (ft_next_object h) (set (chain_objects t))"
    and "distinct (map (event_of h') (chain_objects (add_leaf s (ft_next_object h) t)))"
proof -
  let ?c = "ft_next_object h"
  note o = adds_mapper_objects [OF add]
  have old: "ob \<noteq> ?c" "event_of h ob \<noteq> Some (ft_next_future h)" if "ob \<in> set (chain_objects t)" for ob
    using waits that by (auto simp: chain_waits_def list_all_iff allocated_def)
  then have fresh: "?c \<notin> set (chain_objects t)" by blast
  show "chain_of h' (add_leaf s ?c t)" using add_leaf_chain [OF _ fresh o(1,2)] waits by (simp add: chain_waits_def)
  have dist: "distinct (chain_objects t)" using waits by (simp add: chain_waits_def distinct_map)
  note ms = add_leaf_mset [OF dist s, of ?c]
  show "set (chain_objects (add_leaf s ?c t)) = insert ?c (set (chain_objects t))"
    using arg_cong [OF ms, of set_mset] by simp
  have "distinct (map (event_of h') (chain_objects (add_leaf s ?c t))) = distinct (map (event_of h') (?c # chain_objects t))"
    by (rule mset_eq_imp_distinct_iff) (simp add: ms)
  moreover have "map (event_of h') (chain_objects t) = map (event_of h) (chain_objects t)" using o(3) old(1) by (auto intro: map_cong)
  moreover have "Some (ft_next_future h) \<notin> event_of h ` set (chain_objects t)" using old(2) by force
  ultimately have "distinct (map (event_of h') (chain_objects (add_leaf s ?c t))) = distinct (map (event_of h) (chain_objects t))"
    using o(4) by (simp only: list.map distinct.simps set_map) (metis image_cong o(3) old(1))
  then show "distinct (map (event_of h') (chain_objects (add_leaf s ?c t)))" using waits by (simp add: chain_waits_def)
qed

lemma adds_mapper_waiting:
  assumes add: "adds_mapper s x f z scope loc m mt h h'"
    and ob: "waiting_at h ob" "allocated h ob" "\<not> bare_table h ob" "ob \<noteq> s \<Longrightarrow> event_of h ob \<noteq> event_of h s"
  shows "waiting_at h' ob \<and> allocated h' ob \<and> \<not> bare_table h' ob"
proof -
  have new: "ob \<noteq> ft_next_object h" using ob(2) by (auto simp: allocated_def)
  note o = adds_mapper_objects(1,3) [OF add new] adds_mapper_objects(7) [OF add]
  have al: "allocated h' ob" using ob(2) o(2) add by (auto simp: allocated_def adds_mapper_def split: option.splits)
  obtain f1 z1 where f1: "event_of h ob = Some f1" "ft_futures h f1 = Some z1" "pending z1" "own_subscription h ob z1"
    using ob(1) by (rule waiting_atE)
  have lt: "f1 \<noteq> ft_next_future h" using ob(2) f1(1) by (auto simp: allocated_def)
  show ?thesis
  proof (cases "ob = s")
    case False
    then have "f1 \<noteq> f" using ob(4) f1(1) o(3) by auto
    then have "ft_futures h' f1 = Some z1" "ft_objects h' ob = ft_objects h ob"
      using add lt f1(2) False new by (simp_all add: adds_mapper_def)
    then show ?thesis using f1 o al False ob(3) by (simp add: waiting_at_def future_at_def own_subscription_def bare_table_def)
  next
    case True
    then have z: "f1 = f" "z1 = z" "ft_objects h s = Some x" using f1(1,2) o(3) add by (auto simp: adds_mapper_def)
    have sub: "fo_children x = None \<longleftrightarrow> children_of h s = []" using ob(3) True z(3) by (cases "fo_children x") (auto simp: bare_table_def children_of_def)
    have "ft_futures h' f = Some (z\<lparr>zf_used := True, zf_resolve_callbacks := zf_resolve_callbacks z @ (if fo_children x = None then [(s, scope)] else [])\<rparr>)"
      "Option.bind (ft_objects h' s) fo_children = Some (children_of h s @ [ft_next_object h])"
      using add new True by (simp_all add: adds_mapper_def)
    then show ?thesis using f1 o al True z sub
      by (auto simp: waiting_at_def future_at_def own_subscription_def bare_table_def pending_def split: if_splits)
  qed
qed

lemma adds_mapper_waiting_new:
  assumes "adds_mapper s x f z scope loc m mt h h'"
  shows "waiting_at h' (ft_next_object h) \<and> allocated h' (ft_next_object h) \<and> \<not> bare_table h' (ft_next_object h)"
  using assms adds_mapper_objects(2,4) [OF assms]
  by (auto simp: adds_mapper_def waiting_at_def allocated_def bare_table_def future_at_def pending_def own_subscription_def new_zend_future_def)

text \<open>
  C34.  Calling \<^verbatim>\<open>map()\<close>, \<^verbatim>\<open>catch()\<close> or \<^verbatim>\<open>finally()\<close> on a future of a waiting chain succeeds and adds exactly one leaf
  below that future; the chain waits as before, every future with children stays subscribed
  exactly once.
\<close>

theorem mapper_extends_chain:
  assumes waits: "chain_waits h t" and s: "s \<in> set (chain_objects t)"
  shows "\<exists>h' c. async_future_create_mapper True spawns scope loc m mapper_type s h = (h', Inr c) \<and>
    chain_waits h' (add_leaf s c t) \<and> mapper_of h' c = m \<and> mapper_type_of h' c = mapper_type"
proof -
  let ?c = "ft_next_object h"
  have all: "waiting_at h ob" "allocated h ob" "\<not> bare_table h ob" if "ob \<in> set (chain_objects t)" for ob
    using waits that by (simp_all add: chain_waits_def list_all_iff)
  obtain f z where f: "event_of h s = Some f" "ft_futures h f = Some z" "pending z" using all(1) [OF s] by (rule waiting_atE)
  then obtain x where x: "ft_objects h s = Some x" "fo_event x = Some f" by (auto simp: event_of_def bind_eq_Some_conv)
  have lt: "\<not> zf_closed z" "s < ?c" "f < ft_next_future h" using all(2) [OF s] f(1,3) by (simp_all add: allocated_def pending_def)
  obtain h' where h': "async_future_create_mapper True spawns scope loc m mapper_type s h = (h', Inr ?c)"
    "adds_mapper s x f z scope loc m mapper_type h h'"
    using create_mapper_adds [OF x f(2) lt, of spawns scope loc m mapper_type] by blast
  have ne: "event_of h ob \<noteq> event_of h s" if "ob \<in> set (chain_objects t)" "ob \<noteq> s" for ob
    using waits that s by (auto simp: chain_waits_def distinct_map dest: inj_onD)
  have "waiting_at h' ob \<and> allocated h' ob \<and> \<not> bare_table h' ob" if "ob \<in> insert ?c (set (chain_objects t))" for ob
    using that adds_mapper_waiting [OF h'(2) all ne] adds_mapper_waiting_new [OF h'(2)] by blast
  then have "chain_waits h' (add_leaf s ?c t)"
    using adds_mapper_chain [OF h'(2) waits s] by (simp add: chain_waits_def list_all_iff)
  then show ?thesis using h'(1) adds_mapper_objects(5,6) [OF h'(2)] by blast
qed

definition demo_lone :: "nat futures" where
  "demo_lone = fst (async_future_obj_create None no_futures)"

theorem mapper_extends_chain_witness:
  "\<exists>h' c. async_future_create_mapper True True None None 4 ASYNC_FUTURE_MAPPER_CATCH 0 demo_lone = (h', Inr c) \<and>
    chain_waits h' (Chain 0 [Chain c []]) \<and> mapper_of h' c = 4 \<and> mapper_type_of h' c = ASYNC_FUTURE_MAPPER_CATCH"
proof -
  have "chain_waits demo_lone (Chain 0 [])" by code_simp
  then show ?thesis
    using mapper_extends_chain [of demo_lone "Chain 0 []" 0 True None None 4 ASYNC_FUTURE_MAPPER_CATCH] by simp
qed

subsection \<open>Settling the first future\<close>

lemma resolve_starts_chain:
  assumes z: "ft_futures h f = Some z" "\<not> zf_closed z" and cb: "zf_resolve_callbacks z = [(r, scope)]" "children_of h r \<noteq> []"
  shows "\<exists>h' z'. zend_future_resolve core loc f None h = (h', None) \<and> agree_but {f} h h' \<and> ft_thrown h' = ft_thrown h \<and>
    Chain_started r scope \<in> set (ft_effects h') \<and> ft_futures h' f = Some z' \<and> zf_closed z' \<and>
    zf_result z' = zf_result z \<and> zf_exception z' = zf_exception z"
proof -
  let ?close = "\<lambda>z. z\<lparr>zf_closed := True, zf_completed := loc\<rparr>"
  let ?handled = "\<lambda>z. z\<lparr>zf_exception_handled :=
         zf_exception_handled z \<or> zf_exception z \<noteq> None \<and> list_ex (fc_handles core) (zf_callbacks z)\<rparr>"
  let ?freed = "\<lambda>z. z\<lparr>zf_resolve_callbacks := [], zf_exception_caught := zf_exception_caught z \<or> zf_exception_handled z\<rparr>"
  define h1 where "h1 = mod_future f ?close h"
  define h2 where "h2 = fold (\<lambda>a. ft_effect (Awaiter_called a (zf_result z) (zf_exception z))) (zf_callbacks z) h1"
  define h3 where "h3 = mod_future f ?handled h2"
  define h4 where "h4 = ft_effect (Chain_started r scope) h3"
  define h5 where "h5 = mod_future f ?freed h4"
  note m1 = agree_mod_future [OF z(1), of ?close, folded h1_def]
  have m2: "agree_but {f} h1 h2" "ft_futures h2 f = Some (?close z)" "ft_thrown h2 = ft_thrown h" using m1 by (simp_all add: h2_def)
  note m3 = agree_mod_future [OF m2(2), of ?handled, folded h3_def]
  have f4: "ft_futures h4 f = Some (?handled (?close z))" "agree_but {f} h3 h4" "ft_thrown h4 = ft_thrown h3"
    using m3(2) by (simp_all add: h4_def)
  note m5 = agree_mod_future [OF f4(1), of ?freed, folded h5_def]
  have ag: "agree_but {f} h h5"
    by (rule agree_but_step [OF agree_but_step [OF agree_but_step [OF agree_but_step [OF m1(1) m2(1)] m3(1)] f4(2)] m5(1)])
  have "children_of h3 r \<noteq> []"
    using agree_objects(1) [OF agree_but_step [OF agree_but_step [OF m1(1) m2(1)] m3(1)]] cb(2) by simp
  then have "zend_future_resolve core loc f None h = (h5, None)"
    using z cb by (simp add: zend_future_resolve_def notify_awaiters_def async_future_callback_handler_def Let_def
        h1_def [symmetric] h2_def [symmetric] h3_def [symmetric] h4_def [symmetric] h5_def [symmetric] del: not_None_eq)
  moreover have "Chain_started r scope \<in> set (ft_effects h5)" using f4(1) by (simp add: h5_def mod_future_def h4_def ft_effect_def)
  ultimately show ?thesis using ag m5(2,3) f4(3) m3(3) m2(3) by auto
qed

text \<open>
  C35.  Settling the first future of a waiting chain that has children starts the coroutine over the
  chain, in the scope of the first mapper, and leaves the chain ready: the first future has the
  outcome, all others still wait.
\<close>

theorem settling_makes_chain_ready:
  assumes core: "future_core_ok core" and waits: "chain_waits h (Chain r ts)" "ts \<noteq> []" "ft_thrown h = None"
    and y: "y \<noteq> Inl FV_undef" and f: "event_of h r = Some f"
  shows "\<exists>h' scope. (case y of Inl v \<Rightarrow> complete_future core loc v f None h | Inr x \<Rightarrow> reject_future core loc x f None h) = (h', None) \<and>
    chain_ready h' y (Chain r ts) \<and> Chain_started r scope \<in> set (ft_effects h')"
proof -
  have "waiting_at h r" using waits(1) by (simp add: chain_waits_def)
  then obtain z where z: "ft_futures h f = Some z" "pending z" "own_subscription h r z" using f by (auto elim: waiting_atE)
  have kids: "children_of h r \<noteq> []" using waits(1,2) by (simp add: chain_waits_def)
  then obtain scope where cb: "zf_resolve_callbacks z = [(r, scope)]" using z(3) by (auto simp: own_subscription_def)
  define g where "g = (case y of Inl v \<Rightarrow> fc_complete core v | Inr x \<Rightarrow> fc_reject core x)"
  define h1 where "h1 = mod_future f g h"
  note m = agree_mod_future [OF z(1), of g, folded h1_def]
  have gz: "\<not> zf_closed (g z)" "zf_resolve_callbacks (g z) = [(r, scope)]"
    "zf_result (g z) = (case y of Inl v \<Rightarrow> v | Inr x \<Rightarrow> FV_undef)" "zf_exception (g z) = (case y of Inl v \<Rightarrow> None | Inr x \<Rightarrow> Some x)"
    using core z(2) cb by (simp_all add: g_def future_core_ok_def pending_def split: sum.split)
  obtain h' z' where h': "zend_future_resolve core loc f None h1 = (h', None)" "agree_but {f} h1 h'" "ft_thrown h' = ft_thrown h1"
    "Chain_started r scope \<in> set (ft_effects h')" "ft_futures h' f = Some z'" "zf_closed z'" "zf_result z' = zf_result (g z)"
    "zf_exception z' = zf_exception (g z)"
    using resolve_starts_chain [OF m(2) gz(1,2), of core loc] kids m(5) by auto
  have ag: "agree_but {f} h h'" using agree_but_step [OF m(1) h'(2)] .
  note o = agree_objects(1,2) [OF ag]
  have "settled_at h' r y"
    using h'(5-8) gz(3,4) o(2) f y by (intro settled_atI) (auto simp: settled_with_def split: sum.splits)
  moreover have "waiting_at h' ob" if "ob \<in> set (concat (map chain_objects ts))" for ob
  proof -
    have w: "waiting_at h ob" "event_of h ob \<noteq> Some f" using waits(1) that f by (force simp: chain_waits_def list_all_iff)+
    then have "future_at h' (event_of h ob) = future_at h (event_of h ob)"
      using ag by (cases "event_of h ob") (auto simp: future_at_def agree_but_def)
    then show ?thesis using w(1) o by (auto simp: waiting_at_def own_subscription_def split: option.splits if_splits)
  qed
  moreover have "chain_of h' (Chain r ts)" using waits(1) unfolding chain_of_agree [OF o(1)] by (simp only: chain_waits_def)
  ultimately have "chain_ready h' y (Chain r ts)"
    using waits h'(3) m(3) o(2) by (simp add: chain_ready_def chain_waits_def list_all_iff)
  moreover have "(case y of Inl v \<Rightarrow> complete_future core loc v f None h | Inr x \<Rightarrow> reject_future core loc x f None h) = (h', None)"
    using h'(1) by (simp add: complete_future_def reject_future_def h1_def g_def split: sum.splits)
  ultimately show ?thesis using h'(4) by blast
qed

definition demo_pair :: "nat futures" where
  "demo_pair = demo_link 2 ASYNC_FUTURE_MAPPER_FINALLY 0 demo_lone"

theorem settling_makes_chain_ready_witness:
  "\<exists>h' scope. reject_future (demo_future_core (\<lambda>_. False)) None demo_error 0 None demo_pair = (h', None) \<and>
    chain_ready h' (Inr demo_error) (Chain 0 [Chain 1 []]) \<and> Chain_started 0 scope \<in> set (ft_effects h')"
proof -
  have "chain_waits demo_pair (Chain 0 [Chain 1 []])" "ft_thrown demo_pair = None" "event_of demo_pair 0 = Some 0" by code_simp+
  then show ?thesis
    using settling_makes_chain_ready [OF demo_future_core_ok [of "\<lambda>_. False"], of demo_pair 0 "[Chain 1 []]" "Inr demo_error" 0 None] by simp
qed

subsection \<open>Mappers that suspend\<close>

text \<open>
  A mapper that suspends may lose the rest of the chain.  While it is suspended in the last
  child of the queue, the second coroutine of the iterator finds nothing more to do and finishes
  the iterator; the mapper then settles its child, which joins the queue, but the loop ends at
  once and every future below that child stays pending.
\<close>

theorem suspended_mapper_loses_chain:
  assumes core: "future_core_ok core" "returns_values call" and it: "going it" and fi: "fi_ok fi" "worklist h1 fi = []"
    and F: "forest_ok h [(p, y, Chain c ts)]" and p: "event_of h p = Some fp"
    and prep: "mapper_prepare fp c h = (h1, Some (arg, fallback))"
  shows "\<exists>it2 fi2 h2 fi3 it3. chain_loop core call loc (Calls Frame_valid) it fi h1 = Some (None, it2, fi2, h1) \<and>
    mapper_finish core loc fp c fallback (map_option (call (mapper_of h c)) arg) (Some fi2) h1 = (h2, Some fi3) \<and>
    settled_at h2 c (mapped (mapper_type_of h c) (call (mapper_of h c)) y) \<and>
    after_handler True False (ft_thrown h2) it2 = Some (it3, Leaves (ft_thrown h2)) \<and>
    list_all (waiting_at h2) (concat (map chain_objects ts))"
proof -
  define y' where "y' = mapped (mapper_type_of h c) (call (mapper_of h c)) y"
  obtain fi2 where l: "chain_loop core call loc (Calls Frame_valid) it fi h1 = Some (None, finish it, fi2, h1)"
    using chain_end [OF fi] by blast
  obtain fp' zp fc zc where e: "event_of h p = Some fp'" "ft_futures h fp' = Some zp" "settled_with zp y"
    "event_of h c = Some fc" "ft_futures h fc = Some zc" "pending zc" "own_subscription h c zc" "fc \<noteq> fp'"
    using forest_head [OF F] .
  have fp: "fp' = fp" using e(1) p by simp
  have ob: "ft_objects h1 = ft_objects h"
    using prep by (auto simp: mapper_prepare_def mod_future_def ft_effect_def split: option.splits if_splits)
  have pr: "process_future_mapper core call loc fp c (Some fi2) h =
      mapper_finish core loc fp c fallback (map_option (call (mapper_of h c)) arg) (Some fi2) h1"
    by (simp add: process_future_mapper_def prep mapper_of_def ob)
  obtain h2 fio where r: "mapper_finish core loc fp c fallback (map_option (call (mapper_of h c)) arg) (Some fi2) h1 = (h2, fio)" by fastforce
  have st: "settles core c fc fp y' fi2 h (h2, fio)"
    using process_settles [OF core e(2,3,8,4,5,6,7), of fi2 loc] fp pr r by (simp add: y'_def)
  obtain fi3 where fi3: "fio = Some fi3" using st by (auto simp: settles_def joined_def)
  have ag: "agree_but {fc, fp} h h2" using st by (simp add: settles_def)
  have "waiting_at h2 ob" if "ob \<in> set (concat (map chain_objects ts))" for ob
    using forest_untouched(2) [OF F p e(4) e(2)[unfolded fp] e(3) ag, of ob y'] that by (simp add: grown_simps)
  then have "list_all (waiting_at h2) (concat (map chain_objects ts))" by (simp only: list_all_iff) blast
  moreover have "settled_at h2 c y'"
    using st agree_objects(2) [OF ag] e(4) by (auto simp: settles_def intro: settled_atI)
  moreover have "\<exists>it3. after_handler True False (ft_thrown h2) (finish it) = Some (it3, Leaves (ft_thrown h2))"
    using it by (auto simp: after_handler_def Let_def iterate_loop_def finish_def going_def)
  ultimately show ?thesis using l r fi3 y'_def by blast
qed

text \<open>A chain of three futures whose first is settled; the iterator has taken the second one.\<close>

definition demo_three :: "nat futures" where
  "demo_three = fst (complete_future (demo_future_core (\<lambda>_. False)) None (FV_value 5) 0 None
     (demo_link 3 ASYNC_FUTURE_MAPPER_SUCCESS 1 (demo_link 2 ASYNC_FUTURE_MAPPER_SUCCESS 0 demo_lone)))"

definition demo_going :: "(unit, nat) async_iterator" where
  "demo_going = (chain_iterator False)\<lparr>it_state := ASYNC_ITERATOR_STARTED\<rparr>"

definition demo_taken :: future_iterator where
  "demo_taken = \<lparr>fi_queue = [0], fi_queue_pos = Some 0, fi_current_parent = Some 0, fi_child_pos = 1\<rparr>"

theorem suspended_mapper_loses_chain_witness:
  "\<exists>it2 fi2 h2 fi3 it3.
    chain_loop (demo_future_core (\<lambda>_. False)) demo_mapper None (Calls Frame_valid) demo_going demo_taken (fst (mapper_prepare 0 1 demo_three)) =
      Some (None, it2, fi2, fst (mapper_prepare 0 1 demo_three)) \<and>
    mapper_finish (demo_future_core (\<lambda>_. False)) None 0 1 None (Some (Inl (FV_value 7))) (Some fi2) (fst (mapper_prepare 0 1 demo_three)) =
      (h2, Some fi3) \<and>
    settled_at h2 1 (Inl (FV_value 7)) \<and>
    after_handler True False (ft_thrown h2) it2 = Some (it3, Leaves (ft_thrown h2)) \<and> waiting_at h2 2"
proof -
  have g: "going demo_going" by (simp add: going_def demo_going_def chain_iterator_def async_iterator_run_in_coroutine_def
      async_iterator_new_def add_microtask_def)
  have fi: "fi_ok demo_taken" by (simp add: fi_ok_def demo_taken_def)
  have w: "worklist (fst (mapper_prepare 0 1 demo_three)) demo_taken = []" by code_simp
  have F: "forest_ok demo_three [(0, Inl (FV_value 5), Chain 1 [Chain 2 []])]" by code_simp
  have e: "event_of demo_three 0 = Some 0" by code_simp
  have "snd (mapper_prepare 0 1 demo_three) = Some (Some (Arg_value (FV_value 5)), None)" by code_simp
  then have p: "mapper_prepare 0 1 demo_three = (fst (mapper_prepare 0 1 demo_three), Some (Some (Arg_value (FV_value 5)), None))"
    by (metis prod.collapse)
  have m: "mapper_of demo_three 1 = 2" "mapper_type_of demo_three 1 = ASYNC_FUTURE_MAPPER_SUCCESS"
    "demo_mapper 2 (Arg_value (FV_value 5)) = Inl (FV_value 7)" by code_simp+
  show ?thesis
    using suspended_mapper_loses_chain [OF demo_future_core_ok demo_mapper_returns g fi w F e p, where loc = None] m
    by simp
qed

subsection \<open>The result of a finally() mapper\<close>

definition logs :: "'v futures \<Rightarrow> 'v futures \<Rightarrow> bool" where
  "logs h h' \<longleftrightarrow> set (ft_effects h) \<subseteq> set (ft_effects h')"

lemma logs_trans: "logs h h' \<Longrightarrow> logs h' h'' \<Longrightarrow> logs h h''"
  by (auto simp: logs_def)

lemma logs_basic [simp]: "logs h h" "logs h (ft_effect e h)" "logs h (mod_future f g h)" "logs h (h\<lparr>ft_thrown := x\<rparr>)"
  by (auto simp: logs_def ft_effect_def mod_future_def split: option.split)

lemma logs_fold:
  assumes "\<And>a s. logs (fst s) (fst (g a s))"
  shows "logs (fst s) (fst (fold g as s))"
proof (induction as arbitrary: s)
  case (Cons a as)
  show ?case using logs_trans [OF assms [of s a] Cons [of "g a s"]] by simp
qed simp

lemma logs_notify: "logs h (notify_awaiters core f z h)"
proof -
  have "logs h (fold (\<lambda>a. ft_effect (g a)) as h)" for g as
  proof (induction as arbitrary: h)
    case (Cons a as)
    show ?case using logs_trans [OF logs_basic(2) [of h "g a"] Cons [of "ft_effect (g a) h"]] by simp
  qed simp
  then show ?thesis unfolding notify_awaiters_def by (rule logs_trans [OF _ logs_basic(3)])
qed

lemma logs_resolve: "logs h (fst (zend_future_resolve core loc f fi h))"
proof -
  have cb: "logs (fst s) (fst (async_future_callback_handler f a s))" for a s
    by (cases s; cases a) (auto simp: async_future_callback_handler_def split: option.split)
  have "logs h (fst (case fold (async_future_callback_handler f) cbs (notify_awaiters core f z (mod_future f g h), fi) of
      (h, fi) \<Rightarrow> (mod_future f g' h, fi)))" for z g g' cbs
  proof -
    let ?h1 = "notify_awaiters core f z (mod_future f g h)"
    have "logs h ?h1" by (rule logs_trans [OF logs_basic(3) logs_notify])
    moreover have "logs ?h1 (fst (fold (async_future_callback_handler f) cbs (?h1, fi)))"
      using logs_fold [OF cb, where s = "(?h1, fi)" and as = cbs] by simp
    ultimately show ?thesis
      using logs_trans [OF logs_trans logs_basic(3)] by (simp add: split_beta)
  qed
  then show ?thesis by (simp add: zend_future_resolve_def Let_def split: option.split)
qed

lemma logs_reject: "logs h (fst (reject_future core loc x f fi h))"
  unfolding reject_future_def by (rule logs_trans [OF logs_basic(3) logs_resolve])

text \<open>
  The value returned by a \<^verbatim>\<open>finally()\<close> mapper is released twice when the parent was rejected: once
  at once, and again at the end, since the parent has no result that would replace it.
\<close>

theorem finally_result_released_twice:
  assumes "ft_futures h fp = Some p" "settled_with p (Inr x)" and "event_of h c = Some fc" "ft_futures h fc = Some zc" "\<not> zf_closed zc"
    and "mapper_type_of h c = ASYNC_FUTURE_MAPPER_FINALLY" "call (mapper_of h c) (Arg_exception x) = Inl (FV_value v)" "fc_refcounted core v"
  shows "Released_twice v \<in> set (ft_effects (fst (process_future_mapper core call loc fp c fi h)))"
proof -
  obtain o1 where o: "ft_objects h c = Some o1" "fo_event o1 = Some fc" using assms(3) by (auto simp: event_of_def bind_eq_Some_conv)
  have ty: "fo_mapper_type o1 = ASYNC_FUTURE_MAPPER_FINALLY" using assms(6) o by (simp add: mapper_type_of_def)
  have p: "zf_exception p = Some x" "zf_result p = FV_undef" using assms(2) by (simp_all add: settled_with_def)
  have prep: "mapper_prepare fp c h = (h, Some (Some (Arg_exception x), Some x))"
    using assms(1,3-5) o ty p by (simp add: mapper_prepare_def future_at_def mapper_argument_def)
  define h1 where "h1 = ft_effect (Released_twice v) h"
  have r1: "Released_twice v \<in> set (ft_effects h1)" by (simp add: h1_def ft_effect_def)
  define r where "r = reject_future core loc x fc fi h1"
  have fin: "process_future_mapper core call loc fp c fi h =
      (case (case r of (h, fi) \<Rightarrow> (case ft_futures h fc of
              Some c \<Rightarrow> if zf_exception_handled c then h else h\<lparr>ft_thrown := Some x\<rparr> | None \<Rightarrow> h, fi)) of (h, fi) \<Rightarrow>
         (case ft_futures h fc of
            Some c \<Rightarrow> if zf_exception_caught c then mod_future fp (\<lambda>z. z\<lparr>zf_exception_caught := True\<rparr>) h else h
          | None \<Rightarrow> h, fi))"
    using assms(1,3,7,8) o ty p
    by (simp add: process_future_mapper_def prep mapper_finish_def Let_def r_def h1_def mapper_of_def)
  have "logs h1 (fst r)" unfolding r_def by (rule logs_reject)
  moreover define h3 where "h3 = (case ft_futures (fst r) fc of
      Some c \<Rightarrow> if zf_exception_handled c then fst r else (fst r)\<lparr>ft_thrown := Some x\<rparr> | None \<Rightarrow> fst r)"
  have "logs (fst r) h3" by (simp add: h3_def split: option.split)
  moreover have "logs h3 (fst (process_future_mapper core call loc fp c fi h))"
    unfolding fin split_beta fst_conv h3_def [symmetric] by (simp split: option.split)
  ultimately have "logs h1 (fst (process_future_mapper core call loc fp c fi h))" by (blast intro: logs_trans)
  then show ?thesis using r1 by (auto simp: logs_def)
qed

theorem finally_result_released_twice_witness:
  "Released_twice 2 \<in> set (ft_effects (fst (process_future_mapper (demo_future_core (\<lambda>_. False)) demo_mapper None 0 1 None
     (fst (reject_future (demo_future_core (\<lambda>_. False)) None demo_error 0 None demo_pair)))))"
proof -
  let ?h = "fst (reject_future (demo_future_core (\<lambda>_. False)) None demo_error 0 None demo_pair)"
  have h: "settled_at ?h 0 (Inr demo_error)" "waiting_at ?h 1" "event_of ?h 0 = Some 0" "event_of ?h 1 = Some 1"
    "mapper_type_of ?h 1 = ASYNC_FUTURE_MAPPER_FINALLY" "mapper_of ?h 1 = 2" by code_simp+
  obtain p z where p: "ft_futures ?h 0 = Some p" "settled_with p (Inr demo_error)" "ft_futures ?h 1 = Some z" "\<not> zf_closed z"
    using h(1-4) by (auto elim!: settled_atE waiting_atE simp: pending_def)
  have "demo_mapper (mapper_of ?h 1) (Arg_exception demo_error) = Inl (FV_value 2)" "fc_refcounted (demo_future_core (\<lambda>_. False)) 2"
    using h(6) by (simp_all add: demo_mapper_def demo_future_core_def)
  then show ?thesis by (rule finally_result_released_twice [OF p(1,2) h(4) p(3,4) h(5)])
qed

end
