(* ===== verification/Shared_Future.thy ===== *)
theory Shared_Future
  imports Future
begin

text \<open>
  The bridge between the futures of two threads (\<^verbatim>\<open>src/future.c\<close>, \<^verbatim>\<open>src/future.h\<close>): the shared state with its
  atomic fields, the trigger of the consumer's event loop (\<^verbatim>\<open>src/libuv_reactor.c\<close>), the remote future of
  the consumer, and \<^verbatim>\<open>FutureState\<close> objects with their transfer to another thread.  Every critical
  section of the mutex is one atomic operation; the check of \<^verbatim>\<open>completed\<close> before the lock is repeated
  inside and adds nothing.
\<close>

subsection \<open>Triggers\<close>

text \<open>
  \<open>trg_fired\<close> is a wake-up that was sent to the loop and not delivered yet; sends are merged.
\<close>

record trigger =
  trg_ref_count :: nat
  trg_loop_ref_count :: nat
  trg_fired :: bool
  trg_closed :: bool

definition libuv_new_trigger_event :: trigger where
  "libuv_new_trigger_event = \<lparr>trg_ref_count = 1, trg_loop_ref_count = 0, trg_fired = False, trg_closed = False\<rparr>"

definition libuv_trigger_event_start :: "trigger \<Rightarrow> trigger" where
  "libuv_trigger_event_start tr = tr\<lparr>trg_loop_ref_count := trg_loop_ref_count tr + 1\<rparr>"

definition libuv_trigger_event_stop :: "trigger \<Rightarrow> trigger" where
  "libuv_trigger_event_stop tr = tr\<lparr>trg_loop_ref_count := trg_loop_ref_count tr - 1\<rparr>"

text \<open>
  Closing the handle, once the last reference to the trigger goes, drops a wake-up that was not
  delivered.
\<close>

definition libuv_trigger_event_dispose :: "trigger \<Rightarrow> trigger" where
  "libuv_trigger_event_dispose tr =
     (if trg_ref_count tr > 1 then tr\<lparr>trg_ref_count := trg_ref_count tr - 1\<rparr>
      else tr\<lparr>trg_loop_ref_count := 0, trg_fired := False, trg_closed := True\<rparr>)"

subsection \<open>The shared state\<close>

text \<open>
  The fields of \<^verbatim>\<open>zend_future_shared_state_t\<close>; the trigger is the one of the bridge, \<open>ss_trigger\<close> tells
  whether the pointer to it is set.  A result or an exception is undefined until it was transferred.
  The atomic reference count is an integer without a bound.  The producer's trigger for a cancellation
  is named by a number; that the producer closes it only after unbinding it is its own duty.
\<close>

record 'v shared_state =
  ss_ref_count :: int
  ss_completed :: bool
  ss_result :: "'v fvalue"
  ss_exception :: "throwable option"
  ss_trigger :: bool
  ss_target :: "nat option"
  ss_cancel_requested :: bool
  ss_cancel_trigger :: "nat option"

text \<open>\<^verbatim>\<open>zend_future_remote_t\<close>, without the future itself.\<close>

record remote =
  rm_state :: bool
  rm_observed :: bool

datatype bridge_effect =
    Cancel_fired nat
  | Transfer_error
  | Fired_closed_trigger
  | Freed_state_used
  | Null_event_used

text \<open>
  A shared state with its consumer: \<open>br_state\<close> is \<open>None\<close> once the memory is freed, \<open>br_remote\<close> once
  the remote future is disposed (or if the target is a plain future), \<open>br_futures\<close> are the futures of
  the consumer's thread.
\<close>

record 'v bridge =
  br_state :: "'v shared_state option"
  br_trigger :: trigger
  br_remote :: "remote option"
  br_futures :: "'v futures"
  br_effects :: "bridge_effect list"

definition br_effect :: "bridge_effect \<Rightarrow> 'v bridge \<Rightarrow> 'v bridge" where
  "br_effect e b = b\<lparr>br_effects := e # br_effects b\<rparr>"

definition with_state :: "('v shared_state \<Rightarrow> 'v bridge \<Rightarrow> 'v bridge) \<Rightarrow> 'v bridge \<Rightarrow> 'v bridge" where
  "with_state g b = (case br_state b of None \<Rightarrow> br_effect Freed_state_used b | Some s \<Rightarrow> g s b)"

definition put_state :: "'v shared_state \<Rightarrow> 'v bridge \<Rightarrow> 'v bridge" where
  "put_state s b = b\<lparr>br_state := Some s\<rparr>"

definition libuv_trigger_event_trigger :: "'v bridge \<Rightarrow> 'v bridge" where
  "libuv_trigger_event_trigger b =
     (if trg_closed (br_trigger b) then br_effect Fired_closed_trigger b
      else b\<lparr>br_trigger := (br_trigger b)\<lparr>trg_fired := True\<rparr>\<rparr>)"

definition async_future_shared_state_create :: "'v shared_state" where
  "async_future_shared_state_create =
     \<lparr>ss_ref_count = 0, ss_completed = False, ss_result = FV_undef, ss_exception = None, ss_trigger = False,
      ss_target = None, ss_cancel_requested = False, ss_cancel_trigger = None\<rparr>"

text \<open>The argument \<open>created\<close> tells whether the loop gives a trigger.\<close>

definition async_future_shared_state_bind :: "bool \<Rightarrow> nat \<Rightarrow> 'v bridge \<Rightarrow> 'v bridge \<times> bool" where
  "async_future_shared_state_bind created f b =
     (if created
      then ((with_state (\<lambda>s. put_state (s\<lparr>ss_target := Some f, ss_trigger := True\<rparr>)) b)
              \<lparr>br_trigger := libuv_trigger_event_start libuv_new_trigger_event\<rparr>, True)
      else (with_state (\<lambda>s. put_state (s\<lparr>ss_target := Some f, ss_trigger := False\<rparr>)) b, False))"

definition async_future_shared_state_addref :: "'v bridge \<Rightarrow> 'v bridge" where
  "async_future_shared_state_addref = with_state (\<lambda>s. put_state (s\<lparr>ss_ref_count := ss_ref_count s + 1\<rparr>))"

definition async_future_shared_state_destroy :: "'v bridge \<Rightarrow> 'v bridge" where
  "async_future_shared_state_destroy =
     with_state (\<lambda>s b.
       (if ss_trigger s then b\<lparr>br_trigger := libuv_trigger_event_dispose (br_trigger b)\<rparr> else b)\<lparr>br_state := None\<rparr>)"

definition async_future_shared_state_delref :: "'v bridge \<Rightarrow> 'v bridge" where
  "async_future_shared_state_delref =
     with_state (\<lambda>s b.
       let b = put_state (s\<lparr>ss_ref_count := ss_ref_count s - 1\<rparr>) b
       in if ss_ref_count s = 1 then async_future_shared_state_destroy b else b)"

text \<open>
  A value is copied to persistent memory; one that cannot be copied leaves the destination
  undefined and throws in the thread of the producer.
\<close>

definition async_thread_transfer_zval :: "bool \<Rightarrow> 'a \<Rightarrow> 'a option \<times> bool" where
  "async_thread_transfer_zval transferable x = (if transferable then (Some x, False) else (None, True))"

definition async_future_shared_state_complete :: "('v fvalue \<Rightarrow> bool) \<Rightarrow> 'v fvalue \<Rightarrow> 'v bridge \<Rightarrow> 'v bridge" where
  "async_future_shared_state_complete transferable v =
     with_state (\<lambda>s b.
       if ss_completed s then b
       else
         case async_thread_transfer_zval (transferable v) v of (copy, threw) \<Rightarrow>
           let s = s\<lparr>ss_completed := True, ss_result := (case copy of Some v \<Rightarrow> v | None \<Rightarrow> FV_undef)\<rparr>;
               b = (if threw then br_effect Transfer_error (put_state s b) else put_state s b)
           in if ss_trigger s then libuv_trigger_event_trigger b else b)"

definition async_future_shared_state_reject :: "(throwable \<Rightarrow> bool) \<Rightarrow> throwable \<Rightarrow> 'v bridge \<Rightarrow> 'v bridge" where
  "async_future_shared_state_reject transferable x =
     with_state (\<lambda>s b.
       if ss_completed s then b
       else
         case async_thread_transfer_zval (transferable x) x of (copy, threw) \<Rightarrow>
           let s = s\<lparr>ss_completed := True, ss_exception := copy\<rparr>;
               b = (if threw then br_effect Transfer_error (put_state s b) else put_state s b)
           in if ss_trigger s then libuv_trigger_event_trigger b else b)"

definition async_future_shared_state_request_cancel :: "'v bridge \<Rightarrow> 'v bridge" where
  "async_future_shared_state_request_cancel =
     with_state (\<lambda>s b.
       if ss_completed s then b
       else
         let b = put_state (s\<lparr>ss_cancel_requested := True\<rparr>) b
         in case ss_cancel_trigger s of Some t \<Rightarrow> br_effect (Cancel_fired t) b | None \<Rightarrow> b)"

definition async_future_shared_state_bind_cancel :: "nat \<Rightarrow> 'v bridge \<Rightarrow> 'v bridge \<times> bool" where
  "async_future_shared_state_bind_cancel t b =
     (let bound = (case br_state b of Some s \<Rightarrow> \<not> ss_cancel_requested s | None \<Rightarrow> False)
      in (with_state (\<lambda>s b. if bound then put_state (s\<lparr>ss_cancel_trigger := Some t\<rparr>) b else b) b, bound))"

definition async_future_shared_state_unbind_cancel :: "'v bridge \<Rightarrow> 'v bridge" where
  "async_future_shared_state_unbind_cancel = with_state (\<lambda>s. put_state (s\<lparr>ss_cancel_trigger := None\<rparr>))"

definition async_future_shared_state_is_cancel_requested :: "'v bridge \<Rightarrow> bool" where
  "async_future_shared_state_is_cancel_requested b =
     (case br_state b of Some s \<Rightarrow> ss_cancel_requested s | None \<Rightarrow> False)"

text \<open>The callback on a source future, with the outcome of that future.\<close>

definition shared_state_source_cb where
  "shared_state_source_cb transferable exc_transferable result exception =
     (case exception of
        Some x \<Rightarrow> async_future_shared_state_reject exc_transferable x
      | None \<Rightarrow> async_future_shared_state_complete transferable result)"

subsection \<open>The remote future\<close>

definition remote_future_resolve ::
  "'v future_core \<Rightarrow> location option \<Rightarrow> nat \<Rightarrow> 'v bridge \<Rightarrow> 'v bridge" where
  "remote_future_resolve core loc f b =
     (let cancels = (case (br_remote b, ft_futures (br_futures b) f) of
                       (Some r, Some z) \<Rightarrow> rm_state r \<and> (case zf_exception z of Some x \<Rightarrow> th_cancellation x | None \<Rightarrow> False)
                     | _ \<Rightarrow> False);
          b = (if cancels then async_future_shared_state_request_cancel b else b)
      in b\<lparr>br_futures := fst (zend_future_resolve core loc f None (br_futures b))\<rparr>)"

text \<open>\<^verbatim>\<open>ZEND_FUTURE_COMPLETE\<close> and \<^verbatim>\<open>ZEND_FUTURE_REJECT\<close> of the target: a remote future has its own \<^verbatim>\<open>resolve\<close>.\<close>

definition settle_target where
  "settle_target core loc y f b =
     (let b = b\<lparr>br_futures := mod_future f (case y of Inl v \<Rightarrow> fc_complete core v | Inr x \<Rightarrow> fc_reject core x) (br_futures b)\<rparr>
      in if br_remote b = None
         then b\<lparr>br_futures := fst (zend_future_resolve core loc f None (br_futures b))\<rparr>
         else remote_future_resolve core loc f b)"

text \<open>
  The callback of the trigger, in the consumer's thread.  The values are loaded from persistent
  memory, which is released; loading succeeds.
\<close>

definition shared_state_trigger_cb :: "'v future_core \<Rightarrow> location option \<Rightarrow> 'v bridge \<Rightarrow> 'v bridge" where
  "shared_state_trigger_cb core loc b =
     (case br_state b of
        None \<Rightarrow> br_effect Freed_state_used b
      | Some s \<Rightarrow>
          (let settle = (\<lambda>y b. case ss_target s of Some f \<Rightarrow> settle_target core loc y f b | None \<Rightarrow> br_effect Freed_state_used b);
               b = (case ss_exception s of
                      Some x \<Rightarrow> settle (Inr x) (put_state (s\<lparr>ss_exception := None\<rparr>) b)
                    | None \<Rightarrow> settle (Inl (ss_result s)) (put_state (s\<lparr>ss_result := FV_undef\<rparr>) b))
           in b\<lparr>br_trigger := libuv_trigger_event_stop (br_trigger b)\<rparr>))"

definition on_trigger_event where
  "on_trigger_event core loc b =
     shared_state_trigger_cb core loc (b\<lparr>br_trigger := (br_trigger b)\<lparr>trg_fired := False\<rparr>\<rparr>)"

definition remote_future_start :: "'v bridge \<Rightarrow> 'v bridge" where
  "remote_future_start =
     with_state (\<lambda>s b. if ss_trigger s then b\<lparr>br_trigger := libuv_trigger_event_start (br_trigger b)\<rparr> else b)"

definition remote_future_stop :: "'v bridge \<Rightarrow> 'v bridge" where
  "remote_future_stop =
     with_state (\<lambda>s b. if ss_trigger s then b\<lparr>br_trigger := libuv_trigger_event_stop (br_trigger b)\<rparr> else b)"

text \<open>The argument \<open>took\<close> tells whether the subscription succeeded.\<close>

definition remote_future_add_callback :: "bool \<Rightarrow> nat \<Rightarrow> nat \<Rightarrow> 'v bridge \<Rightarrow> 'v bridge" where
  "remote_future_add_callback took f a b =
     (if took
      then b\<lparr>br_futures := zend_future_add_callback f a (br_futures b),
             br_remote := map_option (\<lambda>r. r\<lparr>rm_observed := True\<rparr>) (br_remote b)\<rparr>
      else b)"

definition sever :: "'v bridge \<Rightarrow> 'v bridge" where
  "sever =
     with_state (\<lambda>s b.
       if ss_trigger s
       then (put_state (s\<lparr>ss_trigger := False, ss_completed := True, ss_target := None\<rparr>) b)
              \<lparr>br_trigger := libuv_trigger_event_dispose (br_trigger b)\<rparr>
       else put_state (s\<lparr>ss_target := None\<rparr>) b)"

definition remote_future_dispose :: "nat \<Rightarrow> 'v bridge \<Rightarrow> 'v bridge" where
  "remote_future_dispose f b =
     (case (br_remote b, ft_futures (br_futures b) f) of
        (Some r, Some z) \<Rightarrow>
          (let b = (if rm_state r \<and> \<not> zf_ignored z \<and> (rm_observed r \<or> zf_resolve_callbacks z \<noteq> [])
                    then async_future_shared_state_request_cancel b else b);
               b = (if rm_state r then async_future_shared_state_delref (sever b) else b)
           in b\<lparr>br_remote := None, br_futures := (br_futures b)\<lparr>ft_futures := (ft_futures (br_futures b))(f := None)\<rparr>\<rparr>)
      | _ \<Rightarrow> b)"

text \<open>
  A new remote future in the consumer's thread.  The result of the binding is not looked at.
\<close>

definition async_new_remote_future :: "bool \<Rightarrow> 'v bridge \<Rightarrow> 'v bridge \<times> nat" where
  "async_new_remote_future created b =
     (case async_new_future None (br_futures b) of (h, f) \<Rightarrow>
        let b = async_future_shared_state_addref
                  (b\<lparr>br_futures := h, br_remote := Some \<lparr>rm_state = True, rm_observed = False\<rparr>\<rparr>)
        in (fst (async_future_shared_state_bind created f b), f))"

subsection \<open>FutureState objects\<close>

text \<open>
  \<^verbatim>\<open>async_future_state_t\<close>: the event and whether the pointer to the shared state is set.  The owner of a
  transferred state has both, the destination only the second.
\<close>

record future_state =
  fs_event :: "nat option"
  fs_shared :: bool

definition ASYNC_FUTURE_STATE_IS_OWNER :: "future_state \<Rightarrow> bool" where
  "ASYNC_FUTURE_STATE_IS_OWNER fs \<longleftrightarrow> fs_shared fs \<and> fs_event fs \<noteq> None"

definition async_future_state_object_create :: "location option \<Rightarrow> 'v bridge \<Rightarrow> 'v bridge \<times> future_state" where
  "async_future_state_object_create loc b =
     (case async_new_future loc (br_futures b) of (h, f) \<Rightarrow>
        (b\<lparr>br_futures := h\<rparr>, \<lparr>fs_event = Some f, fs_shared = False\<rparr>))"

text \<open>
  The transfer in the source thread (\<^verbatim>\<open>ZEND_OBJECT_TRANSFER\<close>): the owner, and the copy in transit with a
  reference of its own.  The code does not check the event, which every object that was not
  transferred has; a NULL pointer is dereferenced, noted as an effect.
\<close>

definition async_future_state_transfer_obj ::
  "bool \<Rightarrow> future_state \<Rightarrow> 'v bridge \<Rightarrow> 'v bridge \<times> (future_error + future_state \<times> future_state)" where
  "async_future_state_transfer_obj created src b =
     (if fs_shared src then (b, Inl FutureState_transferred)
      else
        case fs_event src of
          None \<Rightarrow> (br_effect Null_event_used b, Inr (src, src))
        | Some f \<Rightarrow>
            (let b = fst (async_future_shared_state_bind created f (put_state async_future_shared_state_create b));
                 b = b\<lparr>br_futures := mod_future f (\<lambda>z. z\<lparr>zf_used := True\<rparr>) (br_futures b)\<rparr>;
                 b = async_future_shared_state_addref (async_future_shared_state_addref b)
             in (b, Inr (src\<lparr>fs_shared := True\<rparr>, \<lparr>fs_event = None, fs_shared = True\<rparr>))))"

text \<open>
  Loading in the destination thread (\<^verbatim>\<open>ZEND_OBJECT_LOAD\<close>) moves the reference of the copy to the new
  object, whose own future is released again; the results are the object and the copy.  Releasing
  the copy (\<^verbatim>\<open>ZEND_OBJECT_TRANSFER_RELEASE\<close>) does nothing, so a copy that is dropped before it is loaded
  keeps its reference for ever.
\<close>

definition async_future_state_load_obj :: "future_state \<Rightarrow> future_state \<times> future_state" where
  "async_future_state_load_obj copy = (\<lparr>fs_event = None, fs_shared = fs_shared copy\<rparr>, copy\<lparr>fs_shared := False\<rparr>)"

definition async_future_state_release_obj :: "future_state \<Rightarrow> 'v bridge \<Rightarrow> 'v bridge" where
  "async_future_state_release_obj copy b = b"

text \<open>\<^verbatim>\<open>complete()\<close> and \<^verbatim>\<open>error()\<close> differ only in the outcome.\<close>

definition future_state_settle ::
  "'v future_core \<Rightarrow> location option \<Rightarrow> ('v fvalue \<Rightarrow> bool) \<Rightarrow> (throwable \<Rightarrow> bool) \<Rightarrow> 'v fvalue + throwable \<Rightarrow> future_state \<Rightarrow>
   'v bridge \<Rightarrow> 'v bridge \<times> (future_error + unit)" where
  "future_state_settle core loc transferable exc_transferable y fs b =
     (if fs_shared fs \<and> fs_event fs \<noteq> None then (b, Inl FutureState_transferred)
      else if fs_shared fs then
        (case br_state b of
           None \<Rightarrow> (br_effect Freed_state_used b, Inr ())
         | Some s \<Rightarrow>
             if ss_completed s then (b, Inl (FutureState_completed None))
             else (case y of
                     Inl v \<Rightarrow> (async_future_shared_state_complete transferable v b, Inr ())
                   | Inr x \<Rightarrow> (async_future_shared_state_reject exc_transferable x b, Inr ())))
      else
        case fs_event fs of
          None \<Rightarrow> (b, Inl FutureState_destroyed)
        | Some f \<Rightarrow>
            (case ft_futures (br_futures b) f of
               None \<Rightarrow> (b, Inl FutureState_destroyed)
             | Some z \<Rightarrow>
                 if zf_closed z then (b, Inl (FutureState_completed (zf_completed z)))
                 else (b\<lparr>br_futures := fst (case y of
                           Inl v \<Rightarrow> complete_future core loc v f None (br_futures b)
                         | Inr x \<Rightarrow> reject_future core loc x f None (br_futures b))\<rparr>, Inr ())))"

definition future_state_complete where
  "future_state_complete core loc transferable exc_transferable v =
     future_state_settle core loc transferable exc_transferable (Inl v)"

definition future_state_error where
  "future_state_error core loc transferable exc_transferable x =
     future_state_settle core loc transferable exc_transferable (Inr x)"

definition future_state_isCompleted :: "future_state \<Rightarrow> 'v bridge \<Rightarrow> bool" where
  "future_state_isCompleted fs b =
     (if fs_shared fs \<and> fs_event fs = None
      then (case br_state b of Some s \<Rightarrow> ss_completed s | None \<Rightarrow> False)
      else
        case fs_event fs of
          None \<Rightarrow> True
        | Some f \<Rightarrow> (case ft_futures (br_futures b) f of Some z \<Rightarrow> zf_closed z | None \<Rightarrow> True))"

definition future_state_ignore :: "future_state \<Rightarrow> 'v bridge \<Rightarrow> 'v bridge \<times> (future_error + unit)" where
  "future_state_ignore fs b =
     (case fs_event fs of
        None \<Rightarrow> (b, Inl FutureState_destroyed)
      | Some f \<Rightarrow> (b\<lparr>br_futures := mod_future f (\<lambda>z. z\<lparr>zf_ignored := True\<rparr>) (br_futures b)\<rparr>, Inr ()))"

text \<open>The argument \<open>last_reference\<close> tells whether no Future object refers to the event.\<close>

definition async_future_state_object_free :: "bool \<Rightarrow> future_state \<Rightarrow> 'v bridge \<Rightarrow> 'v bridge" where
  "async_future_state_object_free last_reference fs b =
     (let b = (if fs_shared fs
               then async_future_shared_state_delref (if ASYNC_FUTURE_STATE_IS_OWNER fs then sever b else b)
               else b)
      in case fs_event fs of
           Some f \<Rightarrow> if last_reference then b\<lparr>br_futures := zend_future_dispose f (br_futures b)\<rparr> else b
         | None \<Rightarrow> b)"

end
