(* ===== verification/Shared_Future_Steps.thy ===== *)
theory Shared_Future_Steps
  imports Shared_Future Future_Chain Step_Interface
begin

text \<open>
  Producers and one consumer on a bridge: the step relation, and what holds in every interleaving.
  The consumer's thread creates the shared state with its remote future and adds the reference of
  the producer before another thread sees it, as the thread pool does.
\<close>

subsection \<open>What settling does to the futures\<close>

definition outcome_fields :: "'v zend_future \<Rightarrow> bool \<times> 'v fvalue \<times> throwable option" where
  "outcome_fields z = (zf_closed z, zf_result z, zf_exception z)"

lemma mod_future_at: "ft_futures (mod_future f g h) f' = (if f' = f then map_option g (ft_futures h f) else ft_futures h f')"
  by (simp add: mod_future_def ft_effect_def split: option.split)

lemma mod_future_outcome:
  assumes "\<And>z. outcome_fields (g z) = outcome_fields z"
  shows "map_option outcome_fields (ft_futures (mod_future f g h) f') = map_option outcome_fields (ft_futures h f')"
  using assms by (simp add: mod_future_at option.map_comp comp_def)

lemma callback_handler_outcome:
  fixes s :: "'v futures \<times> future_iterator option"
  shows "map_option outcome_fields (ft_futures (fst (async_future_callback_handler f cb s)) f') = map_option outcome_fields (ft_futures (fst s) f')"
proof -
  have "map_option outcome_fields (ft_futures (mod_future f (\<lambda>z. z\<lparr>zf_exception_handled := True\<rparr>) h) f') =
      map_option outcome_fields (ft_futures h f')" for h :: "'v futures"
    by (rule mod_future_outcome) (simp add: outcome_fields_def)
  then show ?thesis
    by (cases s; cases cb) (simp add: async_future_callback_handler_def ft_effect_def split: option.split)
qed

lemma callbacks_outcome:
  "map_option outcome_fields (ft_futures (fst (fold (async_future_callback_handler f) cbs s)) f') =
   map_option outcome_fields (ft_futures (fst s) f')"
  by (induction cbs arbitrary: s) (simp_all add: callback_handler_outcome)

lemma notify_outcome:
  "map_option outcome_fields (ft_futures (notify_awaiters core f z h) f') = map_option outcome_fields (ft_futures h f')"
  unfolding notify_awaiters_def by (subst mod_future_outcome) (simp_all add: outcome_fields_def)

lemma resolve_outcome:
  "map_option outcome_fields (ft_futures (fst (zend_future_resolve core loc f fi h)) f') =
   (if f' = f then map_option (\<lambda>z. (True, zf_result z, zf_exception z)) (ft_futures h f)
    else map_option outcome_fields (ft_futures h f'))"
proof (cases "ft_futures h f")
  case None
  then show ?thesis by (simp add: zend_future_resolve_def ft_effect_def)
next
  case (Some z)
  show ?thesis
  proof (cases "zf_closed z")
    case True
    then show ?thesis using Some by (simp add: zend_future_resolve_def outcome_fields_def)
  next
    case False
    define h2 where "h2 = notify_awaiters core f z (mod_future f (\<lambda>z. z\<lparr>zf_closed := True, zf_completed := loc\<rparr>) h)"
    have h2: "map_option outcome_fields (ft_futures h2 f') =
        (if f' = f then Some (True, zf_result z, zf_exception z) else map_option outcome_fields (ft_futures h f'))" for f'
      using Some by (simp add: h2_def notify_outcome mod_future_at outcome_fields_def)
    obtain h3 fi3 where f3: "fold (async_future_callback_handler f) (zf_resolve_callbacks z) (h2, fi) = (h3, fi3)" by fastforce
    have h3: "map_option outcome_fields (ft_futures h3 f') = map_option outcome_fields (ft_futures h2 f')" for f'
      using callbacks_outcome [of f "zf_resolve_callbacks z" "(h2, fi)" f'] f3 by simp
    have "zend_future_resolve core loc f fi h = (mod_future f (\<lambda>z. z\<lparr>zf_resolve_callbacks := [],
        zf_exception_caught := zf_exception_caught z \<or> zf_exception_handled z\<rparr>) h3, fi3)"
      using Some False f3 by (simp add: zend_future_resolve_def h2_def)
    moreover have "map_option outcome_fields (ft_futures (mod_future f (\<lambda>z. z\<lparr>zf_resolve_callbacks := [],
        zf_exception_caught := zf_exception_caught z \<or> zf_exception_handled z\<rparr>) h3) f') =
        map_option outcome_fields (ft_futures h3 f')"
      by (rule mod_future_outcome) (simp add: outcome_fields_def)
    ultimately show ?thesis using h2 h3 Some by (simp del: map_option_eq_Some)
  qed
qed

subsection \<open>Runs\<close>

text \<open>
  A bridge in use: the remote future, the number of producers that hold a reference, and three notes
  for the statements: the first outcome a producer gave, what of it was transferred, and whether the
  consumer settled the future itself.
\<close>

record 'v bridge_run =
  bn_bridge :: "'v bridge"
  bn_future :: nat
  bn_producers :: nat
  bn_outcome :: "('v fvalue + throwable) option"
  bn_cancelled :: bool
  bn_given :: "('v fvalue + throwable) option"

text \<open>
  What is transferred of an outcome: one that cannot be copied leaves the destination undefined, so
  an exception is lost and the consumer sees a success without a value.
\<close>

definition copyable :: "('v fvalue \<Rightarrow> bool) \<Rightarrow> (throwable \<Rightarrow> bool) \<Rightarrow> 'v fvalue + throwable \<Rightarrow> bool" where
  "copyable tv tx y = (case y of Inl v \<Rightarrow> tv v | Inr x \<Rightarrow> tx x)"

definition carried :: "('v fvalue \<Rightarrow> bool) \<Rightarrow> (throwable \<Rightarrow> bool) \<Rightarrow> 'v fvalue + throwable \<Rightarrow> 'v fvalue + throwable" where
  "carried tv tx y =
     (case y of Inl v \<Rightarrow> Inl (if tv v then v else FV_undef) | Inr x \<Rightarrow> if tx x then Inr x else Inl FV_undef)"

definition note_outcome :: "'v fvalue + throwable \<Rightarrow> 'v bridge_run \<Rightarrow> ('v fvalue + throwable) option" where
  "note_outcome y r = (case bn_outcome r of None \<Rightarrow> Some y | Some y' \<Rightarrow> Some y')"

definition note_given :: "'v fvalue + throwable \<Rightarrow> 'v bridge_run \<Rightarrow> ('v fvalue + throwable) option" where
  "note_given y r = (case bn_given r of None \<Rightarrow> Some y | Some y' \<Rightarrow> Some y')"

lemma carried_copyable: "copyable tv tx y \<Longrightarrow> carried tv tx y = y"
  by (cases y) (simp_all add: copyable_def carried_def)

definition bridge_start :: "'v bridge_run \<Rightarrow> bool" where
  "bridge_start r \<longleftrightarrow>
     (\<exists>h b f. async_new_remote_future True
          \<lparr>br_state = Some async_future_shared_state_create, br_trigger = libuv_new_trigger_event, br_remote = None,
           br_futures = h, br_effects = []\<rparr> = (b, f) \<and>
        r = \<lparr>bn_bridge = async_future_shared_state_addref b, bn_future = f, bn_producers = 1, bn_outcome = None,
             bn_cancelled = False, bn_given = None\<rparr>)"

inductive bridge_step ::
  "'v future_core \<Rightarrow> ('v fvalue \<Rightarrow> bool) \<Rightarrow> (throwable \<Rightarrow> bool) \<Rightarrow> 'v bridge_run \<Rightarrow> 'v bridge_run \<Rightarrow> bool"
  for core tv tx where
  complete: "0 < bn_producers r \<Longrightarrow> bridge_step core tv tx r
    (r\<lparr>bn_bridge := async_future_shared_state_complete tv v (bn_bridge r), bn_outcome := note_outcome (carried tv tx (Inl v)) r,
       bn_given := note_given (Inl v) r\<rparr>)"
| reject: "0 < bn_producers r \<Longrightarrow> bridge_step core tv tx r
    (r\<lparr>bn_bridge := async_future_shared_state_reject tx x (bn_bridge r), bn_outcome := note_outcome (carried tv tx (Inr x)) r,
       bn_given := note_given (Inr x) r\<rparr>)"
| bind_cancel: "0 < bn_producers r \<Longrightarrow> bridge_step core tv tx r
    (r\<lparr>bn_bridge := fst (async_future_shared_state_bind_cancel t (bn_bridge r))\<rparr>)"
| unbind_cancel: "0 < bn_producers r \<Longrightarrow> bridge_step core tv tx r
    (r\<lparr>bn_bridge := async_future_shared_state_unbind_cancel (bn_bridge r)\<rparr>)"
| share: "0 < bn_producers r \<Longrightarrow> bridge_step core tv tx r
    (r\<lparr>bn_bridge := async_future_shared_state_addref (bn_bridge r), bn_producers := bn_producers r + 1\<rparr>)"
| leave: "0 < bn_producers r \<Longrightarrow> bridge_step core tv tx r
    (r\<lparr>bn_bridge := async_future_shared_state_delref (bn_bridge r), bn_producers := bn_producers r - 1\<rparr>)"
| deliver: "trg_fired (br_trigger (bn_bridge r)) \<Longrightarrow> bridge_step core tv tx r
    (r\<lparr>bn_bridge := on_trigger_event core loc (bn_bridge r)\<rparr>)"
| subscribe: "br_remote (bn_bridge r) \<noteq> None \<Longrightarrow> bridge_step core tv tx r
    (r\<lparr>bn_bridge := remote_future_add_callback took (bn_future r) a (bn_bridge r)\<rparr>)"
| start: "br_remote (bn_bridge r) \<noteq> None \<Longrightarrow> bridge_step core tv tx r
    (r\<lparr>bn_bridge := remote_future_start (bn_bridge r)\<rparr>)"
| stop: "br_remote (bn_bridge r) \<noteq> None \<Longrightarrow> bridge_step core tv tx r
    (r\<lparr>bn_bridge := remote_future_stop (bn_bridge r)\<rparr>)"
| cancel: "br_remote (bn_bridge r) \<noteq> None \<Longrightarrow> ft_futures (br_futures (bn_bridge r)) (bn_future r) = Some z \<Longrightarrow>
    \<not> zf_closed z \<Longrightarrow> bridge_step core tv tx r
    (r\<lparr>bn_bridge := settle_target core loc (Inr x) (bn_future r) (bn_bridge r), bn_cancelled := True\<rparr>)"
| dispose: "br_remote (bn_bridge r) \<noteq> None \<Longrightarrow> bridge_step core tv tx r
    (r\<lparr>bn_bridge := remote_future_dispose (bn_future r) (bn_bridge r)\<rparr>)"

subsection \<open>The invariant\<close>

definition holds_outcome :: "'v shared_state \<Rightarrow> 'v fvalue + throwable \<Rightarrow> bool" where
  "holds_outcome s y \<longleftrightarrow>
     (case y of Inl v \<Rightarrow> ss_exception s = None \<and> ss_result s = v | Inr x \<Rightarrow> ss_exception s = Some x)"

definition got_outcome :: "bool \<times> 'v fvalue \<times> throwable option \<Rightarrow> 'v fvalue + throwable \<Rightarrow> bool" where
  "got_outcome z y \<longleftrightarrow>
     (case z of (closed, result, exception) \<Rightarrow>
        closed \<and> (case y of Inl v \<Rightarrow> exception = None \<and> result = v | Inr x \<Rightarrow> exception = Some x))"

definition future_fields :: "'v bridge \<Rightarrow> nat \<Rightarrow> (bool \<times> 'v fvalue \<times> throwable option) option" where
  "future_fields b f = map_option outcome_fields (ft_futures (br_futures b) f)"

text \<open>Nothing was done to a freed state or a closed trigger, and a bound producer knows of a cancellation.\<close>

definition clean :: "'v bridge \<Rightarrow> bool" where
  "clean b \<longleftrightarrow> Fired_closed_trigger \<notin> set (br_effects b) \<and> Freed_state_used \<notin> set (br_effects b)"

definition told :: "'v shared_state \<Rightarrow> 'v bridge \<Rightarrow> bool" where
  "told s b \<longleftrightarrow> (\<forall>t. ss_cancel_requested s \<and> ss_cancel_trigger s = Some t \<longrightarrow> Cancel_fired t \<in> set (br_effects b))"

text \<open>The consumer's side while the remote future lives.\<close>

definition linked :: "'v shared_state \<Rightarrow> trigger \<Rightarrow> nat \<Rightarrow> ('v fvalue + throwable) option \<Rightarrow> bool" where
  "linked s tr f outcome \<longleftrightarrow>
     ss_trigger s \<and> ss_target s = Some f \<and> \<not> trg_closed tr \<and> trg_ref_count tr = 1 \<and> ss_completed s = (outcome \<noteq> None) \<and>
     (case outcome of
        None \<Rightarrow> \<not> trg_fired tr \<and> ss_exception s = None \<and> ss_result s = FV_undef
      | Some y \<Rightarrow> trg_fired tr \<longrightarrow> holds_outcome s y)"

definition awaits :: "(bool \<times> 'v fvalue \<times> throwable option) option \<Rightarrow> trigger \<Rightarrow> ('v fvalue + throwable) option \<Rightarrow> bool \<Rightarrow> bool" where
  "awaits z tr outcome cancelled \<longleftrightarrow>
     (case z of
        None \<Rightarrow> False
      | Some z \<Rightarrow>
          (if cancelled then fst z
           else case outcome of
                  Some y \<Rightarrow> if trg_fired tr then z = (False, FV_undef, None) else got_outcome z y
                | None \<Rightarrow> z = (False, FV_undef, None)))"

definition bridge_ok :: "'v bridge_run \<Rightarrow> bool" where
  "bridge_ok r \<longleftrightarrow>
     (let b = bn_bridge r in
      clean b \<and>
      (case br_state b of
         None \<Rightarrow> bn_producers r = 0 \<and> br_remote b = None \<and> \<not> trg_fired (br_trigger b)
       | Some s \<Rightarrow>
           ss_ref_count s = int (bn_producers r) + of_bool (br_remote b \<noteq> None) \<and> 0 < ss_ref_count s \<and> told s b \<and>
           (case br_remote b of
              None \<Rightarrow> \<not> ss_trigger s \<and> ss_target s = None \<and> ss_completed s \<and> \<not> trg_fired (br_trigger b)
            | Some m \<Rightarrow>
                rm_state m \<and> linked s (br_trigger b) (bn_future r) (bn_outcome r) \<and>
                awaits (future_fields b (bn_future r)) (br_trigger b) (bn_outcome r) (bn_cancelled r))))"

lemmas bridge_defs = bridge_ok_def Let_def clean_def told_def with_state_def put_state_def br_effect_def

lemma bridge_ok_given [simp]: "bridge_ok (r\<lparr>bn_given := y\<rparr>) = bridge_ok r"
  by (simp add: bridge_ok_def Let_def split: option.split)

lemma bridge_okE:
  assumes "bridge_ok r" "0 < bn_producers r \<or> br_remote (bn_bridge r) \<noteq> None"
  obtains s where "br_state (bn_bridge r) = Some s"
  using assms by (auto simp: bridge_ok_def Let_def split: option.splits)

subsection \<open>Every step keeps the invariant\<close>

lemma producer_settles:
  assumes "bridge_ok r" "0 < bn_producers r"
  shows "bridge_ok (r\<lparr>bn_bridge := async_future_shared_state_complete tv v (bn_bridge r), bn_outcome := note_outcome (carried tv tx (Inl v)) r\<rparr>)"
    and "bridge_ok (r\<lparr>bn_bridge := async_future_shared_state_reject tx x (bn_bridge r), bn_outcome := note_outcome (carried tv tx (Inr x)) r\<rparr>)"
proof -
  obtain s where s: "br_state (bn_bridge r) = Some s" using bridge_okE assms by blast
  show "bridge_ok (r\<lparr>bn_bridge := async_future_shared_state_complete tv v (bn_bridge r), bn_outcome := note_outcome (carried tv tx (Inl v)) r\<rparr>)"
    using assms s
    by (auto simp: bridge_defs async_future_shared_state_complete_def async_thread_transfer_zval_def libuv_trigger_event_trigger_def
        note_outcome_def carried_def linked_def holds_outcome_def awaits_def future_fields_def split: option.splits if_splits)
  show "bridge_ok (r\<lparr>bn_bridge := async_future_shared_state_reject tx x (bn_bridge r), bn_outcome := note_outcome (carried tv tx (Inr x)) r\<rparr>)"
    using assms s
    by (auto simp: bridge_defs async_future_shared_state_reject_def async_thread_transfer_zval_def libuv_trigger_event_trigger_def
        note_outcome_def carried_def linked_def holds_outcome_def awaits_def future_fields_def split: option.splits if_splits)
qed

lemma producer_binds:
  assumes "bridge_ok r" "0 < bn_producers r"
  shows "bridge_ok (r\<lparr>bn_bridge := fst (async_future_shared_state_bind_cancel t (bn_bridge r))\<rparr>)"
    and "bridge_ok (r\<lparr>bn_bridge := async_future_shared_state_unbind_cancel (bn_bridge r)\<rparr>)"
  using assms
  by (auto simp: bridge_defs async_future_shared_state_bind_cancel_def async_future_shared_state_unbind_cancel_def linked_def
      holds_outcome_def future_fields_def split: option.splits sum.splits)

lemma producer_references:
  assumes "bridge_ok r" "0 < bn_producers r"
  shows "bridge_ok (r\<lparr>bn_bridge := async_future_shared_state_addref (bn_bridge r), bn_producers := bn_producers r + 1\<rparr>)"
    and "bridge_ok (r\<lparr>bn_bridge := async_future_shared_state_delref (bn_bridge r), bn_producers := bn_producers r - 1\<rparr>)"
  using assms
  by (auto simp: bridge_defs async_future_shared_state_addref_def async_future_shared_state_delref_def
      async_future_shared_state_destroy_def linked_def holds_outcome_def future_fields_def split: option.splits sum.splits)

lemma consumer_loop:
  assumes "bridge_ok r" "br_remote (bn_bridge r) \<noteq> None"
  shows "bridge_ok (r\<lparr>bn_bridge := remote_future_start (bn_bridge r)\<rparr>)"
    and "bridge_ok (r\<lparr>bn_bridge := remote_future_stop (bn_bridge r)\<rparr>)"
  using assms
  by (auto simp: bridge_defs remote_future_start_def remote_future_stop_def libuv_trigger_event_start_def
      libuv_trigger_event_stop_def linked_def awaits_def future_fields_def split: option.splits sum.splits)

lemma add_callback_fields:
  "future_fields (remote_future_add_callback took f a b) f' = future_fields b f'"
proof -
  have "map_option outcome_fields (ft_futures (mod_future f (\<lambda>z. z\<lparr>zf_callbacks := zf_callbacks z @ [a]\<rparr>) h) f') =
      map_option outcome_fields (ft_futures h f')" for h :: "'a futures"
    by (rule mod_future_outcome) (simp add: outcome_fields_def)
  then show ?thesis
    by (simp add: future_fields_def remote_future_add_callback_def zend_future_add_callback_def ft_effect_def split: option.split)
qed

lemma consumer_subscribes:
  assumes "bridge_ok r" "br_remote (bn_bridge r) \<noteq> None"
  shows "bridge_ok (r\<lparr>bn_bridge := remote_future_add_callback took (bn_future r) a (bn_bridge r)\<rparr>)"
proof -
  let ?b = "remote_future_add_callback took (bn_future r) a (bn_bridge r)"
  have "br_state ?b = br_state (bn_bridge r)" "br_trigger ?b = br_trigger (bn_bridge r)" "br_effects ?b = br_effects (bn_bridge r)"
    "br_remote ?b = br_remote (bn_bridge r) \<or> br_remote ?b = map_option (\<lambda>r. r\<lparr>rm_observed := True\<rparr>) (br_remote (bn_bridge r))"
    by (simp_all add: remote_future_add_callback_def)
  then show ?thesis using assms add_callback_fields [of took "bn_future r" a "bn_bridge r" "bn_future r"]
    by (auto simp: bridge_defs split: option.splits)
qed

text \<open>A request to cancel changes nothing but the flag, and tells a producer that is bound.\<close>

lemma request_cancel_spec:
  assumes "br_state b = Some s"
  shows "br_trigger (async_future_shared_state_request_cancel b) = br_trigger b"
    "br_remote (async_future_shared_state_request_cancel b) = br_remote b"
    "br_futures (async_future_shared_state_request_cancel b) = br_futures b"
    "br_state (async_future_shared_state_request_cancel b) =
       Some (s\<lparr>ss_cancel_requested := ss_cancel_requested s \<or> \<not> ss_completed s\<rparr>)"
    "clean b \<Longrightarrow> clean (async_future_shared_state_request_cancel b)"
    "told s b \<Longrightarrow> told (s\<lparr>ss_cancel_requested := ss_cancel_requested s \<or> \<not> ss_completed s\<rparr>)
       (async_future_shared_state_request_cancel b)"
  using assms
  by (auto simp: async_future_shared_state_request_cancel_def bridge_defs split: option.split)

lemma settle_target_spec:
  assumes "br_state b = Some s" "br_remote b = Some m" "ft_futures (br_futures b) f = Some z"
    and "g = (case y of Inl v \<Rightarrow> fc_complete core v | Inr x \<Rightarrow> fc_reject core x)"
  shows "br_trigger (settle_target core loc y f b) = br_trigger b \<and> br_remote (settle_target core loc y f b) = Some m \<and>
    future_fields (settle_target core loc y f b) f = Some (True, zf_result (g z), zf_exception (g z)) \<and>
    (\<exists>c. br_state (settle_target core loc y f b) = Some (s\<lparr>ss_cancel_requested := c\<rparr>) \<and>
       (ss_completed s \<longrightarrow> c = ss_cancel_requested s) \<and>
       (told s b \<longrightarrow> told (s\<lparr>ss_cancel_requested := c\<rparr>) (settle_target core loc y f b))) \<and>
    (clean b \<longrightarrow> clean (settle_target core loc y f b))"
proof -
  define b1 where "b1 = b\<lparr>br_futures := mod_future f g (br_futures b)\<rparr>"
  define cancels where "cancels = (rm_state m \<and> (case zf_exception (g z) of Some x \<Rightarrow> th_cancellation x | None \<Rightarrow> False))"
  define b2 where "b2 = (if cancels then async_future_shared_state_request_cancel b1 else b1)"
  have b1: "br_state b1 = Some s" "br_remote b1 = Some m" "br_trigger b1 = br_trigger b" "clean b1 = clean b" "told s b1 = told s b"
    "ft_futures (br_futures b1) f = Some (g z)"
    using assms by (simp_all add: b1_def clean_def told_def mod_future_at)
  have st: "settle_target core loc y f b = b2\<lparr>br_futures := fst (zend_future_resolve core loc f None (br_futures b2))\<rparr>"
    using assms(2,4) b1(2,6)
    by (simp add: settle_target_def remote_future_resolve_def b2_def cancels_def b1_def Let_def)
  have fut: "br_futures b2 = br_futures b1" using request_cancel_spec(3) [OF b1(1)] by (simp add: b2_def)
  have fields: "future_fields (settle_target core loc y f b) f = Some (True, zf_result (g z), zf_exception (g z))"
    unfolding st using resolve_outcome [of core loc f None "br_futures b1" f] b1(6)
    by (simp add: future_fields_def fut del: map_option_eq_Some)
  have same: "clean (settle_target core loc y f b) = clean b2" "told s' (settle_target core loc y f b) = told s' b2" for s'
    by (simp_all add: st clean_def told_def)
  have frame: "br_trigger b2 = br_trigger b" "br_remote b2 = Some m" "clean b \<longrightarrow> clean b2"
    using request_cancel_spec(1,2,5) [OF b1(1)] b1(2-4) by (simp_all add: b2_def)
  have "\<exists>c. br_state b2 = Some (s\<lparr>ss_cancel_requested := c\<rparr>) \<and> (ss_completed s \<longrightarrow> c = ss_cancel_requested s) \<and>
       (told s b \<longrightarrow> told (s\<lparr>ss_cancel_requested := c\<rparr>) b2)"
  proof (cases cancels)
    case True
    then show ?thesis using request_cancel_spec(4,6) [OF b1(1)] b1(5)
      by (intro exI [of _ "ss_cancel_requested s \<or> \<not> ss_completed s"]) (simp add: b2_def)
  next
    case False
    then show ?thesis using b1(1,5) by (intro exI [of _ "ss_cancel_requested s"]) (simp add: b2_def)
  qed
  then show ?thesis using fields same frame by (simp add: st)
qed

lemma consumer_cancels:
  assumes "bridge_ok r" "br_remote (bn_bridge r) \<noteq> None" "ft_futures (br_futures (bn_bridge r)) (bn_future r) = Some z"
  shows "bridge_ok (r\<lparr>bn_bridge := settle_target core loc (Inr x) (bn_future r) (bn_bridge r), bn_cancelled := True\<rparr>)"
proof -
  obtain s m where s: "br_state (bn_bridge r) = Some s" "br_remote (bn_bridge r) = Some m"
    using bridge_okE [OF assms(1)] assms(2) by blast
  show ?thesis using settle_target_spec [OF s assms(3) refl, where y = "Inr x" and core = core and loc = loc] assms(1) s
    by (auto simp: bridge_ok_def Let_def linked_def holds_outcome_def awaits_def split: option.splits sum.splits)
qed

lemma consumer_delivers:
  assumes core: "future_core_ok core" and ok: "bridge_ok r" and fired: "trg_fired (br_trigger (bn_bridge r))"
  shows "bridge_ok (r\<lparr>bn_bridge := on_trigger_event core loc (bn_bridge r)\<rparr>)"
    and "\<not> bn_cancelled r \<Longrightarrow> \<exists>y z. bn_outcome r = Some y \<and>
      future_fields (on_trigger_event core loc (bn_bridge r)) (bn_future r) = Some z \<and> got_outcome z y"
proof -
  let ?b = "bn_bridge r" and ?f = "bn_future r"
  obtain s m y where s: "br_state ?b = Some s" "br_remote ?b = Some m" "bn_outcome r = Some y" "holds_outcome s y"
    using ok fired by (auto simp: bridge_ok_def Let_def linked_def split: option.splits)
  obtain z where z: "ft_futures (br_futures ?b) ?f = Some z" "bn_cancelled r \<or> outcome_fields z = (False, FV_undef, None)"
    using ok s fired by (auto simp: bridge_ok_def Let_def awaits_def future_fields_def split: option.splits if_splits)
  define s1 where "s1 = (case y of Inl v \<Rightarrow> s\<lparr>ss_result := FV_undef\<rparr> | Inr x \<Rightarrow> s\<lparr>ss_exception := None\<rparr>)"
  define b1 where "b1 = put_state s1 (?b\<lparr>br_trigger := (br_trigger ?b)\<lparr>trg_fired := False\<rparr>\<rparr>)"
  have b1: "br_state b1 = Some s1" "br_remote b1 = Some m" "ft_futures (br_futures b1) ?f = Some z"
    using s z by (simp_all add: b1_def put_state_def)
  have tgt: "ss_target s = Some ?f" using ok s by (simp add: bridge_ok_def Let_def linked_def)
  have ev: "on_trigger_event core loc ?b =
      (settle_target core loc y ?f b1)\<lparr>br_trigger := libuv_trigger_event_stop (br_trigger (settle_target core loc y ?f b1))\<rparr>"
    using s tgt by (auto simp: on_trigger_event_def shared_state_trigger_cb_def Let_def b1_def s1_def holds_outcome_def put_state_def
        split: sum.splits)
  have s1: "ss_ref_count s1 = ss_ref_count s" "ss_completed s1 = ss_completed s" "ss_trigger s1 = ss_trigger s"
    "ss_target s1 = ss_target s" "told s1 b1 = told s ?b" "clean b1 = clean ?b"
    by (simp_all add: s1_def b1_def told_def clean_def put_state_def split: sum.split)
  define g where "g = (case y of Inl v \<Rightarrow> fc_complete core v | Inr x \<Rightarrow> fc_reject core x)"
  note st = settle_target_spec [OF b1 g_def, of loc]
  have got: "got_outcome (True, zf_result (g z), zf_exception (g z)) y" if "\<not> bn_cancelled r"
    using z(2) that core by (auto simp: got_outcome_def g_def future_core_ok_def outcome_fields_def split: sum.split)
  have ff: "future_fields (on_trigger_event core loc ?b) ?f = future_fields (settle_target core loc y ?f b1) ?f"
    by (simp add: ev future_fields_def)
  have cl: "clean (on_trigger_event core loc ?b) = clean (settle_target core loc y ?f b1)"
    "told s' (on_trigger_event core loc ?b) = told s' (settle_target core loc y ?f b1)" for s'
    by (simp_all add: ev clean_def told_def)
  show "bridge_ok (r\<lparr>bn_bridge := on_trigger_event core loc ?b\<rparr>)"
    using ok s s1 st got ff cl ev
    by (auto simp: bridge_ok_def Let_def linked_def awaits_def libuv_trigger_event_stop_def b1_def put_state_def)
  show "\<exists>y z. bn_outcome r = Some y \<and> future_fields (on_trigger_event core loc ?b) ?f = Some z \<and> got_outcome z y" if "\<not> bn_cancelled r"
    using s(3) st got [OF that] ff by auto
qed

lemma sever_spec:
  assumes "br_state b = Some s" "ss_trigger s"
  shows "br_state (sever b) = Some (s\<lparr>ss_trigger := False, ss_completed := True, ss_target := None\<rparr>)"
    "br_trigger (sever b) = libuv_trigger_event_dispose (br_trigger b)" "br_effects (sever b) = br_effects b"
  using assms by (simp_all add: sever_def with_state_def put_state_def)

lemma consumer_disposes:
  assumes ok: "bridge_ok r" and rem: "br_remote (bn_bridge r) \<noteq> None"
  shows "bridge_ok (r\<lparr>bn_bridge := remote_future_dispose (bn_future r) (bn_bridge r)\<rparr>)"
proof -
  let ?b = "bn_bridge r" and ?f = "bn_future r"
  obtain s m where s: "br_state ?b = Some s" "br_remote ?b = Some m" using bridge_okE [OF ok] rem by blast
  have i: "rm_state m" "ss_trigger s" "told s ?b" "clean ?b" "ss_ref_count s = int (bn_producers r) + 1"
    "trg_ref_count (br_trigger ?b) = 1"
    using ok s by (simp_all add: bridge_ok_def Let_def linked_def)
  obtain z where z: "ft_futures (br_futures ?b) ?f = Some z"
    using ok s by (auto simp: bridge_ok_def Let_def awaits_def future_fields_def split: option.splits)
  define b1 where "b1 = (if \<not> zf_ignored z \<and> (rm_observed m \<or> zf_resolve_callbacks z \<noteq> [])
     then async_future_shared_state_request_cancel ?b else ?b)"
  have tr: "br_trigger b1 = br_trigger ?b" using request_cancel_spec(1) [OF s(1)] by (simp add: b1_def)
  obtain c where b1: "br_state b1 = Some (s\<lparr>ss_cancel_requested := c\<rparr>)" "told (s\<lparr>ss_cancel_requested := c\<rparr>) b1" "clean b1"
  proof (cases "\<not> zf_ignored z \<and> (rm_observed m \<or> zf_resolve_callbacks z \<noteq> [])")
    case True
    then show thesis using that request_cancel_spec(4-6) [OF s(1)] i by (simp add: b1_def)
  next
    case False
    have "s\<lparr>ss_cancel_requested := ss_cancel_requested s\<rparr> = s" by simp
    then show thesis using that [of "ss_cancel_requested s"] s(1) i(3,4) False by (simp add: b1_def)
  qed
  have dis: "remote_future_dispose ?f ?b = (let b = async_future_shared_state_delref (sever b1) in
      b\<lparr>br_remote := None, br_futures := (br_futures b)\<lparr>ft_futures := (ft_futures (br_futures b))(?f := None)\<rparr>\<rparr>)"
    using s z i(1) by (simp add: remote_future_dispose_def b1_def Let_def)
  have sv: "br_state (sever b1) = Some (s\<lparr>ss_cancel_requested := c, ss_trigger := False, ss_completed := True, ss_target := None\<rparr>)"
    "\<not> trg_fired (br_trigger (sever b1))" "br_effects (sever b1) = br_effects b1"
    using sever_spec [OF b1(1)] i(2,6) tr by (simp_all add: libuv_trigger_event_dispose_def)
  show ?thesis unfolding dis using sv b1(2,3) i(5)
    by (auto simp: bridge_ok_def Let_def clean_def told_def async_future_shared_state_delref_def
        async_future_shared_state_destroy_def with_state_def put_state_def)
qed

lemma bridge_step_ok: "bridge_step core tv tx r r' \<Longrightarrow> future_core_ok core \<Longrightarrow> bridge_ok r \<Longrightarrow> bridge_ok r'"
  by (induction rule: bridge_step.induct)
    (simp_all add: producer_settles producer_binds producer_references [simplified] consumer_loop consumer_subscribes consumer_cancels
      consumer_delivers(1) consumer_disposes)

lemma bridge_start_ok: "bridge_start r \<Longrightarrow> bridge_ok r"
  by (auto simp: bridge_start_def async_new_remote_future_def async_new_future_def async_future_shared_state_addref_def
      async_future_shared_state_bind_def async_future_shared_state_create_def libuv_new_trigger_event_def
      libuv_trigger_event_start_def bridge_defs linked_def awaits_def future_fields_def outcome_fields_def new_zend_future_def)

text \<open>What is transferred is what was given, as far as it can be copied.\<close>

lemma given_step:
  assumes "bridge_step core tv tx r r'" "bn_outcome r = map_option (carried tv tx) (bn_given r)"
  shows "bn_outcome r' = map_option (carried tv tx) (bn_given r')"
  using assms by (induction rule: bridge_step.induct) (auto simp: note_outcome_def note_given_def split: option.splits)

lemma given_run:
  assumes "(bridge_step core tv tx)\<^sup>*\<^sup>* r r'" "bridge_start r"
  shows "bn_outcome r' = map_option (carried tv tx) (bn_given r')"
  using assms
proof (induction rule: rtranclp_induct)
  case base
  then show ?case by (auto simp: bridge_start_def)
qed (simp add: given_step)

end
