(* ===== verification/Shared_Future_Properties.thy ===== *)
theory Shared_Future_Properties
  imports Shared_Future_Steps
begin

text \<open>
  Futures across threads: results and cancellations are not lost in any interleaving, references are
  exact, and what goes wrong with outcomes that cannot be copied and with owners that are freed early.
\<close>

definition bridge_runs where
  "bridge_runs core tv tx r r' \<longleftrightarrow> future_core_ok core \<and> bridge_step core tv tx r r'"

interpretation bridge: step_system bridge_start "bridge_runs core tv tx" bridge_ok
  by unfold_locales (auto simp: bridge_runs_def intro: bridge_start_ok bridge_step_ok)

lemma bridge_reachable:
  assumes "future_core_ok core" "bridge_start r0" "(bridge_step core tv tx)\<^sup>*\<^sup>* r0 r"
  shows "bridge_ok r"
proof -
  have "bridge_runs core tv tx = bridge_step core tv tx" using assms(1) by (simp add: bridge_runs_def fun_eq_iff)
  then show ?thesis using bridge.run_good [of r0 core tv tx r] assms(2,3) by simp
qed

subsection \<open>A demonstration\<close>

definition plain_core :: "nat future_core" where
  "plain_core =
     \<lparr>fc_complete = (\<lambda>v z. if zf_closed z then z else z\<lparr>zf_result := v\<rparr>),
      fc_reject = (\<lambda>x z. if zf_closed z then z else z\<lparr>zf_exception := Some x\<rparr>),
      fc_handles = (\<lambda>_. False), fc_refcounted = (\<lambda>_. False)\<rparr>"

lemma plain_core_ok: "future_core_ok plain_core"
  by (simp add: future_core_ok_def plain_core_def)

definition empty_bridge :: "nat bridge" where
  "empty_bridge =
     \<lparr>br_state = Some async_future_shared_state_create, br_trigger = libuv_new_trigger_event, br_remote = None,
      br_futures = \<lparr>ft_futures = (\<lambda>_. None), ft_objects = (\<lambda>_. None), ft_next_future = 0, ft_next_object = 0,
        ft_thrown = None, ft_effects = []\<rparr>, br_effects = []\<rparr>"

definition demo_bridge :: "nat bridge_run" where
  "demo_bridge =
     \<lparr>bn_bridge = async_future_shared_state_addref (fst (async_new_remote_future True empty_bridge)),
      bn_future = snd (async_new_remote_future True empty_bridge), bn_producers = 1, bn_outcome = None, bn_cancelled = False,
      bn_given = None\<rparr>"

lemma demo_bridge_start: "bridge_start demo_bridge"
  unfolding bridge_start_def demo_bridge_def empty_bridge_def by (intro exI conjI) (rule prod.collapse [symmetric], rule refl)

definition all_transfer :: "'a \<Rightarrow> bool" where
  "all_transfer x = True"

definition demo_answered :: "nat bridge_run" where
  "demo_answered = demo_bridge\<lparr>bn_bridge := async_future_shared_state_complete all_transfer (FV_value 5) (bn_bridge demo_bridge),
     bn_outcome := note_outcome (carried all_transfer all_transfer (Inl (FV_value 5))) demo_bridge,
     bn_given := note_given (Inl (FV_value 5)) demo_bridge\<rparr>"

lemma demo_answered_run: "(bridge_step plain_core all_transfer all_transfer)\<^sup>*\<^sup>* demo_bridge demo_answered"
  unfolding demo_answered_def by (rule r_into_rtranclp, rule bridge_step.complete) (simp add: demo_bridge_def)

definition demo_bound :: "nat bridge_run" where
  "demo_bound = demo_bridge\<lparr>bn_bridge := fst (async_future_shared_state_bind_cancel 7 (bn_bridge demo_bridge))\<rparr>"

lemma demo_bound_run: "(bridge_step plain_core all_transfer all_transfer)\<^sup>*\<^sup>* demo_bridge demo_bound"
  unfolding demo_bound_def by (rule r_into_rtranclp, rule bridge_step.bind_cancel) (simp add: demo_bridge_def)

definition stop_it :: throwable where
  "stop_it = \<lparr>th_cancellation = True, th_id = 3\<rparr>"

subsection \<open>Results\<close>

text \<open>
  C31.  A result is never lost.  In every interleaving, let \<open>y\<close> be the first outcome, value or exception,
  that a producer gave to the shared state, and let it be one that can be copied to the other
  thread.  As long as the remote future lives and was not cancelled by its own side, it has been
  settled with \<open>y\<close> itself, or a wake-up of its loop is under way whose delivery settles it with \<open>y\<close>.
\<close>

theorem remote_result_never_lost:
  assumes "future_core_ok core" "bridge_start r0" "(bridge_step core tv tx)\<^sup>*\<^sup>* r0 r"
    and "br_remote (bn_bridge r) \<noteq> None" "\<not> bn_cancelled r"
    and "bn_given r = Some y" "case y of Inl v \<Rightarrow> tv v | Inr x \<Rightarrow> tx x"
  shows "(\<exists>z. future_fields (bn_bridge r) (bn_future r) = Some z \<and> got_outcome z y) \<or>
    trg_fired (br_trigger (bn_bridge r)) \<and>
    (\<exists>z. future_fields (on_trigger_event core loc (bn_bridge r)) (bn_future r) = Some z \<and> got_outcome z y)"
proof -
  have ok: "bridge_ok r" using bridge_reachable [OF assms(1-3)] .
  have y: "bn_outcome r = Some y"
    using given_run [OF assms(3,2)] assms(6,7) carried_copyable [of tv tx y] by (simp add: copyable_def)
  show ?thesis
  proof (cases "trg_fired (br_trigger (bn_bridge r))")
    case True
    then show ?thesis using consumer_delivers(2) [OF assms(1) ok True assms(5), of loc] y by auto
  next
    case False
    then show ?thesis using ok assms(4,5) y
      by (auto simp: bridge_ok_def Let_def awaits_def split: option.splits)
  qed
qed

theorem remote_result_never_lost_witness:
  "(\<exists>z. future_fields (bn_bridge demo_answered) 0 = Some z \<and> got_outcome z (Inl (FV_value 5))) \<or>
    trg_fired (br_trigger (bn_bridge demo_answered)) \<and>
    (\<exists>z. future_fields (on_trigger_event plain_core None (bn_bridge demo_answered)) 0 = Some z \<and> got_outcome z (Inl (FV_value 5)))"
proof -
  have "br_remote (bn_bridge demo_answered) \<noteq> None" "bn_given demo_answered = Some (Inl (FV_value 5))"
    "\<not> bn_cancelled demo_answered" "bn_future demo_answered = 0" by code_simp+
  then show ?thesis
    using remote_result_never_lost [OF plain_core_ok demo_bridge_start demo_answered_run, of "Inl (FV_value 5)" None]
    by (simp add: all_transfer_def)
qed

subsection \<open>Cancellation\<close>

text \<open>A state whose work must not start any more.\<close>

definition refused :: "'v shared_state option \<Rightarrow> bool" where
  "refused st \<longleftrightarrow> (case st of None \<Rightarrow> True | Some s \<Rightarrow> ss_cancel_requested s)"

lemma refused_request [simp]: "refused (br_state b) \<Longrightarrow> refused (br_state (async_future_shared_state_request_cancel b))"
  by (auto simp: refused_def async_future_shared_state_request_cancel_def with_state_def put_state_def br_effect_def Let_def
      split: option.splits)

lemma refused_settle [simp]: "refused (br_state b) \<Longrightarrow> refused (br_state (settle_target core loc y f b))"
  by (simp add: settle_target_def remote_future_resolve_def Let_def)

lemma refused_deliver [simp]: "refused (br_state b) \<Longrightarrow> refused (br_state (on_trigger_event core loc b))"
proof -
  assume r: "refused (br_state b)"
  show ?thesis
  proof (cases "br_state b")
    case None
    then show ?thesis by (simp add: on_trigger_event_def shared_state_trigger_cb_def br_effect_def refused_def)
  next
    case (Some s)
    have p: "refused (br_state (put_state s' b'))" if "ss_cancel_requested s' = ss_cancel_requested s" for s' :: "'a shared_state" and b'
      using r Some that by (simp add: refused_def put_state_def)
    have e: "br_state (br_effect e b') = br_state b'" for e and b' :: "'a bridge" by (simp add: br_effect_def)
    show ?thesis using Some p
      by (simp add: on_trigger_event_def shared_state_trigger_cb_def Let_def e split: option.split)
  qed
qed

lemma refused_references [simp]:
  "refused (br_state b) \<Longrightarrow> refused (br_state (async_future_shared_state_delref b))"
  "refused (br_state b) \<Longrightarrow> refused (br_state (sever b))"
  by (simp_all add: refused_def async_future_shared_state_delref_def async_future_shared_state_destroy_def sever_def with_state_def
      put_state_def br_effect_def Let_def split: option.splits)

lemma refused_dispose [simp]: "refused (br_state b) \<Longrightarrow> refused (br_state (remote_future_dispose f b))"
  by (simp add: remote_future_dispose_def Let_def split: option.split)

lemma refused_operations [simp]:
  "refused (br_state b) \<Longrightarrow> refused (br_state (async_future_shared_state_complete tv v b))"
  "refused (br_state b) \<Longrightarrow> refused (br_state (async_future_shared_state_reject tx x b))"
  "refused (br_state b) \<Longrightarrow> refused (br_state (fst (async_future_shared_state_bind_cancel t b)))"
  "refused (br_state b) \<Longrightarrow> refused (br_state (async_future_shared_state_unbind_cancel b))"
  "refused (br_state b) \<Longrightarrow> refused (br_state (async_future_shared_state_addref b))"
  "refused (br_state b) \<Longrightarrow> refused (br_state (remote_future_start b))"
  "refused (br_state b) \<Longrightarrow> refused (br_state (remote_future_stop b))"
  "refused (br_state b) \<Longrightarrow> refused (br_state (remote_future_add_callback took f a b))"
  by (auto simp: refused_def with_state_def put_state_def br_effect_def Let_def
      async_future_shared_state_complete_def async_future_shared_state_reject_def async_thread_transfer_zval_def
      libuv_trigger_event_trigger_def async_future_shared_state_bind_cancel_def async_future_shared_state_unbind_cancel_def
      async_future_shared_state_addref_def remote_future_start_def remote_future_stop_def remote_future_add_callback_def
      split: option.splits)

lemma cancel_flag_stays:
  assumes "bridge_step core tv tx r r'" "refused (br_state (bn_bridge r))"
  shows "refused (br_state (bn_bridge r'))"
  using assms by (induction rule: bridge_step.induct) simp_all

lemma refused_for_ever:
  assumes "(bridge_step core tv tx)\<^sup>*\<^sup>* r r'" "refused (br_state (bn_bridge r))"
  shows "refused (br_state (bn_bridge r'))"
  using assms by (induction rule: rtranclp_induct) (auto intro: cancel_flag_stays)

text \<open>
  C32.  A cancellation is never lost: when the consumer cancels a remote future whose work is not
  done, the flag is raised, a producer that has bound its trigger is woken, and whatever happens
  later, a producer that only binds then is refused.
\<close>

theorem remote_cancellation_never_lost:
  assumes "future_core_ok core" "bridge_start r0" "(bridge_step core tv tx)\<^sup>*\<^sup>* r0 r"
    and "br_remote (bn_bridge r) \<noteq> None" "ft_futures (br_futures (bn_bridge r)) (bn_future r) = Some z" "\<not> zf_closed z"
    and "bn_outcome r = None" "th_cancellation x"
    and r': "r' = r\<lparr>bn_bridge := settle_target core loc (Inr x) (bn_future r) (bn_bridge r), bn_cancelled := True\<rparr>"
  shows "async_future_shared_state_is_cancel_requested (bn_bridge r') \<and>
    (case Option.bind (br_state (bn_bridge r)) ss_cancel_trigger of
       Some t \<Rightarrow> Cancel_fired t \<in> set (br_effects (bn_bridge r')) | None \<Rightarrow> True) \<and>
    (\<forall>r''. (bridge_step core tv tx)\<^sup>*\<^sup>* r' r'' \<longrightarrow> \<not> snd (async_future_shared_state_bind_cancel t' (bn_bridge r'')))"
proof -
  have ok: "bridge_ok r" using bridge_reachable [OF assms(1-3)] .
  then obtain s m where s: "br_state (bn_bridge r) = Some s" "br_remote (bn_bridge r) = Some m"
    using bridge_okE [OF ok] assms(4) by blast
  have i: "rm_state m" "\<not> ss_completed s" using ok s assms(7) by (simp_all add: bridge_ok_def Let_def linked_def)
  define b1 where "b1 = (bn_bridge r)\<lparr>br_futures := mod_future (bn_future r) (fc_reject core x) (br_futures (bn_bridge r))\<rparr>"
  have b1: "br_state b1 = Some s" "ft_futures (br_futures b1) (bn_future r) = Some (z\<lparr>zf_exception := Some x\<rparr>)"
    using s assms(1,5,6) by (simp_all add: b1_def mod_future_at future_core_ok_def)
  have eq: "bn_bridge r' = (let b = async_future_shared_state_request_cancel b1 in
      b\<lparr>br_futures := fst (zend_future_resolve core loc (bn_future r) None (br_futures b))\<rparr>)"
    using b1 s i assms(8) unfolding r' by (simp add: settle_target_def remote_future_resolve_def Let_def b1_def [symmetric])
      (simp add: b1_def)
  have st: "br_state (bn_bridge r') = Some (s\<lparr>ss_cancel_requested := True\<rparr>)"
    using request_cancel_spec(4) [OF b1(1)] i(2) by (simp add: eq Let_def)
  have "\<not> snd (async_future_shared_state_bind_cancel t' (bn_bridge r''))" if "(bridge_step core tv tx)\<^sup>*\<^sup>* r' r''" for r''
    using refused_for_ever [OF that] st
    by (auto simp: refused_def async_future_shared_state_bind_cancel_def Let_def split: option.splits)
  moreover have "case ss_cancel_trigger s of Some t \<Rightarrow> Cancel_fired t \<in> set (br_effects (bn_bridge r')) | None \<Rightarrow> True"
    using b1(1) i(2) by (simp add: eq Let_def async_future_shared_state_request_cancel_def with_state_def br_effect_def split: option.split)
  ultimately show ?thesis using st s(1) by (simp add: async_future_shared_state_is_cancel_requested_def)
qed

theorem remote_cancellation_never_lost_witness:
  "async_future_shared_state_is_cancel_requested (settle_target plain_core None (Inr stop_it) 0 (bn_bridge demo_bound)) \<and>
    Cancel_fired 7 \<in> set (br_effects (settle_target plain_core None (Inr stop_it) 0 (bn_bridge demo_bound)))"
proof -
  have h: "br_remote (bn_bridge demo_bound) \<noteq> None" "bn_outcome demo_bound = None" "th_cancellation stop_it" "bn_future demo_bound = 0"
    "Option.bind (br_state (bn_bridge demo_bound)) ss_cancel_trigger = Some 7"
    "(case ft_futures (br_futures (bn_bridge demo_bound)) 0 of Some z \<Rightarrow> \<not> zf_closed z | None \<Rightarrow> False)"
    by code_simp+
  obtain z where z: "ft_futures (br_futures (bn_bridge demo_bound)) 0 = Some z" "\<not> zf_closed z"
    using h(6) by (auto split: option.splits)
  show ?thesis
    using remote_cancellation_never_lost [OF plain_core_ok demo_bridge_start demo_bound_run h(1) _ z(2) h(2,3) refl, of None] z(1) h(4,5)
    by simp
qed

subsection \<open>References\<close>

text \<open>
  C33.  References are exact in every interleaving: the shared state is counted once per producer
  and once for the remote future, it is freed exactly when the last of them leaves, nobody uses it
  afterwards, and no trigger is fired after it was closed.
\<close>

theorem remote_references_exact:
  assumes "future_core_ok core" "bridge_start r0" "(bridge_step core tv tx)\<^sup>*\<^sup>* r0 r"
  shows "(br_state (bn_bridge r) = None \<longleftrightarrow> bn_producers r = 0 \<and> br_remote (bn_bridge r) = None) \<and>
    map_option ss_ref_count (br_state (bn_bridge r)) \<in>
      {None, Some (int (bn_producers r) + of_bool (br_remote (bn_bridge r) \<noteq> None))} \<and>
    Freed_state_used \<notin> set (br_effects (bn_bridge r)) \<and> Fired_closed_trigger \<notin> set (br_effects (bn_bridge r))"
  using bridge_reachable [OF assms] by (auto simp: bridge_ok_def Let_def clean_def split: option.splits)

theorem remote_references_exact_witness:
  "map_option ss_ref_count (br_state (bn_bridge demo_answered)) = Some 2 \<and>
    Freed_state_used \<notin> set (br_effects (bn_bridge demo_answered)) \<and>
    Fired_closed_trigger \<notin> set (br_effects (bn_bridge demo_answered))"
proof -
  have "bn_producers demo_answered = 1" "br_remote (bn_bridge demo_answered) \<noteq> None" by code_simp+
  then show ?thesis
    using remote_references_exact [OF plain_core_ok demo_bridge_start demo_answered_run] by auto
qed

subsection \<open>Outcomes that cannot be copied\<close>

text \<open>
  An exception that cannot be copied to another thread reaches the consumer as a success: the
  remote future is completed without an exception and without a value.
\<close>

theorem uncopied_exception_becomes_success:
  assumes "future_core_ok core" "bridge_start r0" "(bridge_step core tv tx)\<^sup>*\<^sup>* r0 r"
    and "0 < bn_producers r" "br_remote (bn_bridge r) \<noteq> None" "bn_outcome r = None" "\<not> bn_cancelled r" "\<not> tx x"
  shows "trg_fired (br_trigger (async_future_shared_state_reject tx x (bn_bridge r))) \<and>
    future_fields (on_trigger_event core loc (async_future_shared_state_reject tx x (bn_bridge r))) (bn_future r) =
      Some (True, FV_undef, None)"
proof -
  let ?r = "r\<lparr>bn_bridge := async_future_shared_state_reject tx x (bn_bridge r), bn_outcome := note_outcome (carried tv tx (Inr x)) r\<rparr>"
  have ok: "bridge_ok r" using bridge_reachable [OF assms(1-3)] .
  then obtain s where s: "br_state (bn_bridge r) = Some s" using bridge_okE assms(4) by blast
  have i: "\<not> ss_completed s" "ss_trigger s" "\<not> trg_closed (br_trigger (bn_bridge r))"
    using ok s assms(5,6) by (auto simp: bridge_ok_def Let_def linked_def split: option.splits)
  have fired: "trg_fired (br_trigger (bn_bridge ?r))"
    using s i assms(8) by (simp add: async_future_shared_state_reject_def with_state_def async_thread_transfer_zval_def Let_def
        put_state_def br_effect_def libuv_trigger_event_trigger_def)
  have "bridge_ok ?r" using producer_settles(2) [OF ok assms(4)] .
  moreover have "bn_outcome ?r = Some (Inl FV_undef)" using assms(6,8) by (simp add: note_outcome_def carried_def)
  ultimately show ?thesis
    using consumer_delivers(2) [OF assms(1) _ fired, of loc] fired assms(7) by (auto simp: got_outcome_def)
qed

text \<open>No exception can be copied.\<close>

definition none_transfer :: "'a \<Rightarrow> bool" where
  "none_transfer x = False"

theorem uncopied_exception_becomes_success_witness:
  "trg_fired (br_trigger (async_future_shared_state_reject none_transfer stop_it (bn_bridge demo_bridge))) \<and>
    future_fields (on_trigger_event plain_core None (async_future_shared_state_reject none_transfer stop_it (bn_bridge demo_bridge))) 0 =
      Some (True, FV_undef, None)"
proof -
  have "0 < bn_producers demo_bridge" "br_remote (bn_bridge demo_bridge) \<noteq> None" "bn_outcome demo_bridge = None"
    "\<not> bn_cancelled demo_bridge" "bn_future demo_bridge = 0" by code_simp+
  then show ?thesis
    using uncopied_exception_becomes_success [OF plain_core_ok demo_bridge_start rtranclp.rtrancl_refl, of none_transfer stop_it None]
    by (simp add: none_transfer_def)
qed

subsection \<open>Transferred FutureState objects\<close>

text \<open>The bridge made by a transfer, with the future of the owner as its target.\<close>

lemma transfer_spec:
  assumes "fs_event src = Some f" "\<not> fs_shared src" "ft_futures (br_futures b) f = Some z" "br_remote b = None"
  shows "\<exists>b'. async_future_state_transfer_obj True src b =
      (b', Inr (\<lparr>fs_event = Some f, fs_shared = True\<rparr>, \<lparr>fs_event = None, fs_shared = True\<rparr>)) \<and>
    br_state b' = Some (async_future_shared_state_create\<lparr>ss_ref_count := 2, ss_target := Some f, ss_trigger := True\<rparr>) \<and>
    br_trigger b' = \<lparr>trg_ref_count = 1, trg_loop_ref_count = 1, trg_fired = False, trg_closed = False\<rparr> \<and> br_remote b' = None \<and>
    ft_futures (br_futures b') f = Some (z\<lparr>zf_used := True\<rparr>)"
  using assms
  by (cases src) (simp add: async_future_state_transfer_obj_def async_future_shared_state_bind_def async_future_shared_state_create_def
      async_future_shared_state_addref_def with_state_def put_state_def Let_def mod_future_at libuv_trigger_event_start_def
      libuv_new_trigger_event_def)

lemma settle_plain:
  assumes "br_remote b = None" "ft_futures (br_futures b) f = Some z" "\<not> zf_closed z" "future_core_ok core"
  shows "future_fields (settle_target core loc y f b) f =
    Some (True, case y of Inl v \<Rightarrow> v | Inr x \<Rightarrow> zf_result z, case y of Inl v \<Rightarrow> zf_exception z | Inr x \<Rightarrow> Some x)"
proof -
  let ?g = "case y of Inl v \<Rightarrow> fc_complete core v | Inr x \<Rightarrow> fc_reject core x"
  have "ft_futures (mod_future f ?g (br_futures b)) f = Some (?g z)" using assms(2) by (simp add: mod_future_at)
  then show ?thesis
    using assms(1,3,4) resolve_outcome [of core loc f None "mod_future f ?g (br_futures b)" f]
    by (simp add: settle_target_def Let_def future_fields_def future_core_ok_def split: sum.split del: map_option_eq_Some)
qed

text \<open>
  What may happen to a transferred FutureState while the owner's object and the destination's are
  both alive: calls of \<^verbatim>\<open>complete()\<close>, \<^verbatim>\<open>error()\<close> and \<^verbatim>\<open>ignore()\<close> on either, further attempts to transfer
  either, the owner's loop delivering a wake-up, and any other work on futures in the owner's thread
  that does not settle this one.
\<close>

inductive state_step ::
  "'v future_core \<Rightarrow> ('v fvalue \<Rightarrow> bool) \<Rightarrow> (throwable \<Rightarrow> bool) \<Rightarrow> nat \<Rightarrow> future_state \<Rightarrow> future_state \<Rightarrow>
   'v bridge \<Rightarrow> 'v bridge \<Rightarrow> bool"
  for core tv tx f owner dest where
  state_settle: "fs \<in> {owner, dest} \<Longrightarrow>
    state_step core tv tx f owner dest b (fst (future_state_settle core loc tv tx y fs b))"
| state_ignore: "fs \<in> {owner, dest} \<Longrightarrow> state_step core tv tx f owner dest b (fst (future_state_ignore fs b))"
| state_transfer: "fs \<in> {owner, dest} \<Longrightarrow>
    state_step core tv tx f owner dest b (fst (async_future_state_transfer_obj created fs b))"
| state_deliver: "trg_fired (br_trigger b) \<Longrightarrow>
    state_step core tv tx f owner dest b (on_trigger_event core loc b)"
| state_other: "future_fields (b\<lparr>br_futures := h\<rparr>) f = future_fields b f \<Longrightarrow>
    state_step core tv tx f owner dest b (b\<lparr>br_futures := h\<rparr>)"

text \<open>The destination has settled the state with an outcome: it is on its way, or arrived.\<close>

definition state_settled :: "nat \<Rightarrow> 'v fvalue + throwable \<Rightarrow> 'v bridge \<Rightarrow> bool" where
  "state_settled f y b \<longleftrightarrow> br_remote b = None \<and>
     (\<exists>s. br_state b = Some s \<and> ss_completed s \<and> ss_target s = Some f \<and>
        (if trg_fired (br_trigger b) then holds_outcome s y \<and> future_fields b f = Some (False, FV_undef, None)
         else \<exists>z. future_fields b f = Some z \<and> got_outcome z y))"

lemma settled_delivers:
  assumes core: "future_core_ok core" and "state_settled f y b" and fired: "trg_fired (br_trigger b)"
  shows "state_settled f y (on_trigger_event core loc b) \<and> \<not> trg_fired (br_trigger (on_trigger_event core loc b))"
proof -
  obtain s where s: "br_remote b = None" "br_state b = Some s" "ss_completed s" "ss_target s = Some f" "holds_outcome s y"
    "future_fields b f = Some (False, FV_undef, None)"
    using assms(2,3) by (auto simp: state_settled_def)
  define s' where "s' = (case y of Inl v \<Rightarrow> s\<lparr>ss_result := FV_undef\<rparr> | Inr x \<Rightarrow> s\<lparr>ss_exception := None\<rparr>)"
  define c where "c = put_state s' (b\<lparr>br_trigger := (br_trigger b)\<lparr>trg_fired := False\<rparr>\<rparr>)"
  have ev: "on_trigger_event core loc b = (settle_target core loc y f c)
      \<lparr>br_trigger := libuv_trigger_event_stop (br_trigger (settle_target core loc y f c))\<rparr>"
    using s by (cases y) (simp_all add: on_trigger_event_def shared_state_trigger_cb_def Let_def c_def s'_def put_state_def holds_outcome_def)
  obtain z where z: "ft_futures (br_futures c) f = Some z" "outcome_fields z = (False, FV_undef, None)"
    using s(6) by (auto simp: future_fields_def c_def put_state_def)
  have c: "br_remote c = None" "br_state c = Some s'" "\<not> trg_fired (br_trigger c)" using s by (simp_all add: c_def put_state_def)
  have "future_fields (on_trigger_event core loc b) f = future_fields (settle_target core loc y f c) f"
    by (simp add: ev future_fields_def)
  then have got: "\<exists>z. future_fields (on_trigger_event core loc b) f = Some z \<and> got_outcome z y"
    using settle_plain [OF c(1) z(1) _ core, of loc y] z(2)
    by (auto simp: outcome_fields_def got_outcome_def split: sum.split)
  have "br_remote (on_trigger_event core loc b) = None" "br_state (on_trigger_event core loc b) = Some s'"
    "\<not> trg_fired (br_trigger (on_trigger_event core loc b))"
    using c by (simp_all add: ev settle_target_def libuv_trigger_event_stop_def Let_def)
  moreover have "ss_completed s'" "ss_target s' = Some f" using s(3,4) by (simp_all add: s'_def split: sum.split)
  ultimately show ?thesis using got by (simp add: state_settled_def)
qed

text \<open>Every other call leaves a settled state as it is.\<close>

lemma settled_refuses:
  fixes owner dest :: future_state
  assumes "state_settled f y b" and "owner = \<lparr>fs_event = Some f, fs_shared = True\<rparr>" "dest = \<lparr>fs_event = None, fs_shared = True\<rparr>"
  shows "future_state_settle core loc tv tx y' dest b = (b, Inl (FutureState_completed None))"
    "future_state_settle core loc tv tx y' owner b = (b, Inl FutureState_transferred)"
    "async_future_state_transfer_obj created owner b = (b, Inl FutureState_transferred)"
    "async_future_state_transfer_obj created dest b = (b, Inl FutureState_transferred)"
  using assms by (auto simp: state_settled_def future_state_settle_def async_future_state_transfer_obj_def)

lemma settled_arrived: "state_settled f y b \<Longrightarrow> \<not> trg_fired (br_trigger b) \<Longrightarrow> \<exists>z. future_fields b f = Some z \<and> got_outcome z y"
  by (auto simp: state_settled_def)

lemma settled_step:
  assumes "state_step core tv tx f owner dest b b'" and "state_settled f y b" and core: "future_core_ok core"
    and o: "owner = \<lparr>fs_event = Some f, fs_shared = True\<rparr>" and d: "dest = \<lparr>fs_event = None, fs_shared = True\<rparr>"
  shows "state_settled f y b'"
proof -
  note ref = settled_refuses [OF assms(2) o d]
  have other: "state_settled f y (b\<lparr>br_futures := h\<rparr>)" if "future_fields (b\<lparr>br_futures := h\<rparr>) f = future_fields b f" for h
    using assms(2) unfolding state_settled_def that by simp
  show ?thesis
    using assms(1)
  proof cases
    case (state_settle fs loc z)
    then show ?thesis using assms(2) ref(1,2) by auto
  next
    case (state_ignore fs)
    have "future_fields (b\<lparr>br_futures := mod_future f (\<lambda>z. z\<lparr>zf_ignored := True\<rparr>) (br_futures b)\<rparr>) f = future_fields b f"
      by (simp add: future_fields_def mod_future_outcome outcome_fields_def)
    then show ?thesis using state_ignore assms(2) other o d by (auto simp: future_state_ignore_def)
  next
    case (state_transfer fs created)
    then show ?thesis using assms(2) ref(3,4) by auto
  next
    case (state_deliver loc)
    then show ?thesis using settled_delivers [OF core assms(2)] by simp
  next
    case (state_other h)
    then show ?thesis using other by simp
  qed
qed

lemma settled_for_ever:
  assumes "(state_step core tv tx f owner dest)\<^sup>*\<^sup>* b b'" and "state_settled f y b" and "future_core_ok core"
    and "owner = \<lparr>fs_event = Some f, fs_shared = True\<rparr>" "dest = \<lparr>fs_event = None, fs_shared = True\<rparr>"
  shows "state_settled f y b'"
  using assms by (induction rule: rtranclp_induct) (auto intro: settled_step)

text \<open>
  C36.  A FutureState that was transferred to another thread settles the future of its owner, once.
  For an outcome that can be copied, the first \<^verbatim>\<open>complete()\<close> or \<^verbatim>\<open>error()\<close> on the loaded object succeeds; in
  every later state, whatever is called on the two objects and whenever the owner's loop runs, as
  long as both objects are alive, the owner's future has that outcome or a wake-up is under way whose
  delivery gives it that outcome, and every further settlement, in either thread, before or after
  the delivery, is refused, and so is every further transfer.
\<close>

theorem transferred_state_settles_owner:
  assumes core: "future_core_ok core" and src: "fs_event src = Some f" "\<not> fs_shared src"
    and z: "ft_futures (br_futures b) f = Some z" "outcome_fields z = (False, FV_undef, None)" "br_remote b = None"
    and y: "case y of Inl v \<Rightarrow> tv v | Inr x \<Rightarrow> tx x"
  shows "\<exists>b1 owner copy dest b2. async_future_state_transfer_obj True src b = (b1, Inr (owner, copy)) \<and>
    fst (async_future_state_load_obj copy) = dest \<and> future_state_settle core loc tv tx y dest b1 = (b2, Inr ()) \<and>
    (\<forall>b3. (state_step core tv tx f owner dest)\<^sup>*\<^sup>* b2 b3 \<longrightarrow>
       ((\<exists>z'. future_fields b3 f = Some z' \<and> got_outcome z' y) \<or>
        trg_fired (br_trigger b3) \<and> (\<forall>loc'. \<exists>z'. future_fields (on_trigger_event core loc' b3) f = Some z' \<and> got_outcome z' y)) \<and>
       (\<forall>loc' y'. future_state_settle core loc' tv tx y' dest b3 = (b3, Inl (FutureState_completed None)) \<and>
          future_state_settle core loc' tv tx y' owner b3 = (b3, Inl FutureState_transferred)) \<and>
       (\<forall>created. async_future_state_transfer_obj created owner b3 = (b3, Inl FutureState_transferred) \<and>
          async_future_state_transfer_obj created dest b3 = (b3, Inl FutureState_transferred)))"
proof -
  let ?owner = "\<lparr>fs_event = Some f, fs_shared = True\<rparr>" and ?dest = "\<lparr>fs_event = None, fs_shared = True\<rparr>"
  let ?s = "async_future_shared_state_create\<lparr>ss_ref_count := 2, ss_target := Some f, ss_trigger := True\<rparr> :: 'a shared_state"
  obtain b1 where b1: "async_future_state_transfer_obj True src b = (b1, Inr (?owner, ?dest))" "br_state b1 = Some ?s"
    "br_trigger b1 = \<lparr>trg_ref_count = 1, trg_loop_ref_count = 1, trg_fired = False, trg_closed = False\<rparr>" "br_remote b1 = None"
    "ft_futures (br_futures b1) f = Some (z\<lparr>zf_used := True\<rparr>)"
    using transfer_spec [OF src z(1,3)] by blast
  define s2 where "s2 = (case y of Inl v \<Rightarrow> ?s\<lparr>ss_completed := True, ss_result := v\<rparr> | Inr x \<Rightarrow> ?s\<lparr>ss_completed := True, ss_exception := Some x\<rparr>)"
  define b2 where "b2 = b1\<lparr>br_state := Some s2, br_trigger := (br_trigger b1)\<lparr>trg_fired := True\<rparr>\<rparr>"
  have settle: "future_state_settle core loc tv tx y ?dest b1 = (b2, Inr ())"
    using b1 y by (cases y) (simp_all add: future_state_settle_def async_future_shared_state_create_def
        async_future_shared_state_complete_def async_future_shared_state_reject_def Let_def
        with_state_def async_thread_transfer_zval_def put_state_def br_effect_def libuv_trigger_event_trigger_def b2_def s2_def)
  have fin: "state_settled f y b2"
    using b1(4,5) z(2) by (auto simp: state_settled_def b2_def s2_def holds_outcome_def async_future_shared_state_create_def
        future_fields_def outcome_fields_def split: sum.split)
  have load: "fst (async_future_state_load_obj ?dest) = ?dest" by (simp add: async_future_state_load_obj_def)
  have later: "((\<exists>z'. future_fields b3 f = Some z' \<and> got_outcome z' y) \<or>
        trg_fired (br_trigger b3) \<and> (\<forall>loc'. \<exists>z'. future_fields (on_trigger_event core loc' b3) f = Some z' \<and> got_outcome z' y))"
    if "state_settled f y b3" for b3
    using settled_arrived [OF that] settled_arrived settled_delivers [OF core that] by (cases "trg_fired (br_trigger b3)") blast+
  show ?thesis
  proof (intro exI conjI allI impI)
    show "async_future_state_transfer_obj True src b = (b1, Inr (?owner, ?dest))" by (rule b1(1))
    show "fst (async_future_state_load_obj ?dest) = ?dest" by (rule load)
    show "future_state_settle core loc tv tx y ?dest b1 = (b2, Inr ())" by (rule settle)
    fix b3 assume "(state_step core tv tx f ?owner ?dest)\<^sup>*\<^sup>* b2 b3"
    then have s3: "state_settled f y b3" by (rule settled_for_ever [OF _ fin core refl refl])
    show "(\<exists>z'. future_fields b3 f = Some z' \<and> got_outcome z' y) \<or> trg_fired (br_trigger b3) \<and>
        (\<forall>loc'. \<exists>z'. future_fields (on_trigger_event core loc' b3) f = Some z' \<and> got_outcome z' y)"
      by (rule later [OF s3])
    show "future_state_settle core loc' tv tx y' ?dest b3 = (b3, Inl (FutureState_completed None))"
      "future_state_settle core loc' tv tx y' ?owner b3 = (b3, Inl FutureState_transferred)" for loc' y'
      using settled_refuses(1,2) [OF s3 refl refl] .
    show "async_future_state_transfer_obj created ?owner b3 = (b3, Inl FutureState_transferred)"
      "async_future_state_transfer_obj created ?dest b3 = (b3, Inl FutureState_transferred)" for created
      using settled_refuses(3,4) [OF s3 refl refl] .
  qed
qed

text \<open>A FutureState in a thread of its own, and the same with the future of another thread.\<close>

definition demo_state_bridge :: "nat bridge" where
  "demo_state_bridge = fst (async_future_state_object_create None empty_bridge)"

definition demo_source :: future_state where
  "demo_source = snd (async_future_state_object_create None empty_bridge)"

lemma demo_source_fresh:
  "fs_event demo_source = Some 0" "\<not> fs_shared demo_source"
  "ft_futures (br_futures demo_state_bridge) 0 = Some (new_zend_future None)" "br_remote demo_state_bridge = None"
  by (simp_all add: demo_source_def demo_state_bridge_def async_future_state_object_create_def async_new_future_def empty_bridge_def)

theorem transferred_state_settles_owner_witness:
  "\<exists>b1 owner copy dest b2. async_future_state_transfer_obj True demo_source demo_state_bridge = (b1, Inr (owner, copy)) \<and>
    fst (async_future_state_load_obj copy) = dest \<and>
    future_state_settle plain_core None all_transfer all_transfer (Inr stop_it) dest b1 = (b2, Inr ()) \<and>
    future_state_settle plain_core None all_transfer all_transfer (Inl FV_null) dest b2 = (b2, Inl (FutureState_completed None)) \<and>
    future_state_settle plain_core None all_transfer all_transfer (Inl FV_null) owner b2 = (b2, Inl FutureState_transferred)"
proof -
  have "outcome_fields (new_zend_future None :: nat zend_future) = (False, FV_undef, None)"
    by (simp add: outcome_fields_def new_zend_future_def)
  from transferred_state_settles_owner [OF plain_core_ok demo_source_fresh(1,2,3) this demo_source_fresh(4),
      where y = "Inr stop_it" and tv = all_transfer and tx = all_transfer and loc = None]
  show ?thesis by (simp only: all_transfer_def sum.case) blast
qed

text \<open>
  If the owner's FutureState object is freed before the other thread has settled it, while a
  Future object still refers to the event, that Future is never settled: the shared state counts
  as completed, the other thread's call is refused, and the future stays as it was.
\<close>

theorem freed_owner_strands_future:
  assumes "fs_event src = Some f" "\<not> fs_shared src" "ft_futures (br_futures b) f = Some z" "br_remote b = None"
  shows "\<exists>b1 owner dest. async_future_state_transfer_obj True src b = (b1, Inr (owner, dest)) \<and>
    (let b2 = async_future_state_object_free False owner b1 in
     future_state_isCompleted dest b2 \<and>
     future_state_settle core loc tv tx y dest b2 = (b2, Inl (FutureState_completed None)) \<and>
     \<not> trg_fired (br_trigger b2) \<and> trg_closed (br_trigger b2) \<and>
     future_fields b2 f = Some (outcome_fields z))"
proof -
  obtain b1 where b1: "async_future_state_transfer_obj True src b =
      (b1, Inr (\<lparr>fs_event = Some f, fs_shared = True\<rparr>, \<lparr>fs_event = None, fs_shared = True\<rparr>))"
    "br_state b1 = Some (async_future_shared_state_create\<lparr>ss_ref_count := 2, ss_target := Some f, ss_trigger := True\<rparr>)"
    "br_trigger b1 = \<lparr>trg_ref_count = 1, trg_loop_ref_count = 1, trg_fired = False, trg_closed = False\<rparr>"
    "ft_futures (br_futures b1) f = Some (z\<lparr>zf_used := True\<rparr>)"
    using transfer_spec [OF assms] by blast
  show ?thesis
    using b1 by (simp add: async_future_state_object_free_def ASYNC_FUTURE_STATE_IS_OWNER_def sever_def with_state_def put_state_def
        async_future_shared_state_delref_def Let_def future_state_isCompleted_def future_state_settle_def future_fields_def
        libuv_trigger_event_dispose_def outcome_fields_def)
qed

theorem freed_owner_strands_future_witness:
  "\<exists>b1 owner dest. async_future_state_transfer_obj True demo_source demo_state_bridge = (b1, Inr (owner, dest)) \<and>
    (let b2 = async_future_state_object_free False owner b1 in
     future_state_isCompleted dest b2 \<and>
     future_state_settle plain_core None all_transfer all_transfer (Inl FV_null) dest b2 = (b2, Inl (FutureState_completed None)) \<and>
     \<not> trg_fired (br_trigger b2) \<and> trg_closed (br_trigger b2) \<and>
     future_fields b2 0 = Some (False, FV_undef, None))"
  using freed_owner_strands_future [OF demo_source_fresh, of plain_core None all_transfer all_transfer "Inl FV_null"]
  by (simp add: outcome_fields_def new_zend_future_def)

text \<open>
  Binding a consumer to a shared state that is completed already does not wake it: \<^verbatim>\<open>bind\<close> does not
  look at \<^verbatim>\<open>completed\<close>, so the binding has to come before the state is shown to a producer.
\<close>

lemma late_binding_is_not_woken:
  assumes "br_state b = Some s" "ss_completed s"
  shows "\<not> trg_fired (br_trigger (fst (async_future_shared_state_bind True f b))) \<and>
    async_future_shared_state_complete tv v (fst (async_future_shared_state_bind True f b)) = fst (async_future_shared_state_bind True f b)"
  using assms by (simp add: async_future_shared_state_bind_def async_future_shared_state_complete_def with_state_def put_state_def
      libuv_trigger_event_start_def libuv_new_trigger_event_def)

end
