(* ===== verification/Await.thy ===== *)
theory Await
  imports Async_Iterator
begin

text \<open>
  Waiting for several awaitables (\<^verbatim>\<open>src/async_API.c\<close>, functions in \<^verbatim>\<open>src/async.c\<close>): the context with its counters and
  tables, the callback that every awaited event calls, the loop over an array, the handler for
  iterators, and the wait at the end for what is still running.
\<close>

subsection \<open>Hash tables\<close>

datatype await_key = Key_string string | Key_index int | Key_null

record 'a hash_table =
  ht_items :: "(await_key \<times> 'a) list"
  ht_next_free :: int

definition zend_new_array :: "'a hash_table" where
  "zend_new_array = \<lparr>ht_items = [], ht_next_free = 0\<rparr>"

definition zend_hash_update :: "await_key \<Rightarrow> 'a \<Rightarrow> 'a hash_table \<Rightarrow> 'a hash_table" where
  "zend_hash_update k v t =
     t\<lparr>ht_items := (if k \<in> fst ` set (ht_items t) then map (\<lambda>(k', v'). (k', if k' = k then v else v')) (ht_items t)
                  else ht_items t @ [(k, v)]),
       ht_next_free := (case k of Key_index i \<Rightarrow> max (ht_next_free t) (i + 1) | _ \<Rightarrow> ht_next_free t)\<rparr>"

definition zend_hash_add :: "await_key \<Rightarrow> 'a \<Rightarrow> 'a hash_table \<Rightarrow> 'a hash_table" where
  "zend_hash_add k v t = (if k \<in> fst ` set (ht_items t) then t else zend_hash_update k v t)"

definition zend_hash_next_index_insert :: "'a \<Rightarrow> 'a hash_table \<Rightarrow> 'a hash_table" where
  "zend_hash_next_index_insert v t = zend_hash_update (Key_index (ht_next_free t)) v t"

text \<open>A key that is null or undefined takes the next index.\<close>

definition store_under :: "await_key \<Rightarrow> 'a \<Rightarrow> 'a hash_table \<Rightarrow> 'a hash_table" where
  "store_under k v t = (if k = Key_null then zend_hash_next_index_insert v t else zend_hash_update k v t)"

subsection \<open>The context\<close>

text \<open>A slot of the results: a value, a null that stands for a missing one, or the mark of a slot to be removed.\<close>

datatype 'v slot = Slot_value 'v | Slot_null | Slot_undefined

record 'v await_context =
  ac_ref_count :: nat
  ac_total :: nat
  ac_futures_count :: nat
  ac_waiting_count :: nat
  ac_resolved_count :: nat
  ac_success_count :: nat
  ac_ignore_errors :: bool
  ac_fill_missing_with_null :: bool
  ac_preserve_key_order :: bool
  ac_cancel_on_exit :: bool
  ac_results :: "'v slot hash_table option"
  ac_errors :: "throwable hash_table option"

record await_callback =
  cb_event :: nat
  cb_key :: await_key
  cb_coroutine :: bool

text \<open>
  A coroutine that waits: its context, the callbacks registered through its waker, whether closed
  events are just replayed to it, whether it was resumed and with which error, and whether a
  callback without a coroutine was asked to resume one.
\<close>

record 'v awaiting =
  aw_context :: "'v await_context"
  aw_callbacks :: "await_callback list"
  aw_replaying :: bool
  aw_resumed :: bool
  aw_error :: "throwable option"
  aw_null_resumed :: bool

definition AWAIT_ITERATOR_IS_FINISHED :: "'v await_context \<Rightarrow> bool" where
  "AWAIT_ITERATOR_IS_FINISHED c \<longleftrightarrow>
     0 < ac_waiting_count c \<and>
       ac_waiting_count c \<le> (if ac_ignore_errors c then ac_success_count c else ac_resolved_count c) \<or>
     ac_total c \<noteq> 0 \<and> ac_total c \<le> ac_resolved_count c"

text \<open>The events of the waker are given up: the callbacks that are left are disposed.\<close>

definition waker_clean_events :: "'v awaiting \<Rightarrow> 'v awaiting" where
  "waker_clean_events a =
     (let c = aw_context a
      in a\<lparr>aw_callbacks := [], aw_context := c\<lparr>ac_ref_count := ac_ref_count c - length (aw_callbacks a)\<rparr>\<rparr>)"

text \<open>
  \<^verbatim>\<open>ZEND_ASYNC_RESUME\<close> and \<^verbatim>\<open>ZEND_ASYNC_RESUME_WITH_ERROR\<close> of the coroutine of a callback (\<^verbatim>\<open>async_coroutine_resume\<close>).  A later
  error takes the place of an earlier one unless it is a cancellation.  During a replay the coroutine is
  the current one, which is not queued but gets the status of a result; when it has it already,
  the events of its waker are given up.  A suspended coroutine is queued, and a wait is followed
  up to this point: the events which the source gives up there (\<^verbatim>\<open>coroutine.c:857-861\<close>) are still
  listed, and their callbacks may come in after the resumption.
\<close>

definition await_resume :: "await_callback \<Rightarrow> throwable option \<Rightarrow> 'v awaiting \<Rightarrow> 'v awaiting" where
  "await_resume cb error a =
     (if \<not> cb_coroutine cb then a\<lparr>aw_null_resumed := True\<rparr>
      else
        (if aw_replaying a \<and> aw_resumed a then waker_clean_events a else a)
          \<lparr>aw_resumed := True,
           aw_error := (case (error, aw_error a) of
                          (None, e) \<Rightarrow> e
                        | (Some x, None) \<Rightarrow> Some x
                        | (Some x, Some e) \<Rightarrow> if th_cancellation x then Some e else Some x)\<rparr>)"

definition await_context_dtor :: "'v await_context \<Rightarrow> 'v await_context" where
  "await_context_dtor c = c\<lparr>ac_ref_count := ac_ref_count c - 1\<rparr>"

definition async_waiting_callback_dispose :: "'v awaiting \<Rightarrow> 'v awaiting" where
  "async_waiting_callback_dispose a = a\<lparr>aw_context := await_context_dtor (aw_context a)\<rparr>"

text \<open>What both callbacks do first: count, leave the event, note an exception.\<close>

definition note_resolved :: "await_callback \<Rightarrow> 'v + throwable \<Rightarrow> 'v awaiting \<Rightarrow> 'v awaiting" where
  "note_resolved cb y a =
     a\<lparr>aw_callbacks := remove1 cb (aw_callbacks a),
       aw_context := (aw_context a)
         \<lparr>ac_resolved_count := ac_resolved_count (aw_context a) + 1,
          ac_errors := (case y of Inl v \<Rightarrow> ac_errors (aw_context a)
                        | Inr x \<Rightarrow> map_option (store_under (cb_key cb) x) (ac_errors (aw_context a)))\<rparr>\<rparr>"

text \<open>The callback of an awaited event; \<open>has_value\<close> tells whether the event hands out a value.\<close>

definition async_waiting_callback :: "bool \<Rightarrow> await_callback \<Rightarrow> 'v + throwable \<Rightarrow> 'v awaiting \<Rightarrow> 'v awaiting" where
  "async_waiting_callback has_value cb y a =
     (let a = note_resolved cb y a; c = aw_context a in
      case y of
        Inr x \<Rightarrow>
          if \<not> ac_ignore_errors c then async_waiting_callback_dispose (await_resume cb (Some x) a)
          else async_waiting_callback_dispose
                 (if ac_total c \<noteq> 0 \<and> ac_total c \<le> ac_resolved_count c then await_resume cb None a else a)
      | Inl v \<Rightarrow>
          (let c = (if ac_results c \<noteq> None \<and> has_value
                    then c\<lparr>ac_success_count := ac_success_count c + 1,
                           ac_results := map_option (store_under (cb_key cb) (Slot_value v)) (ac_results c)\<rparr>
                    else c);
               a = a\<lparr>aw_context := c\<rparr>
           in async_waiting_callback_dispose
                (if AWAIT_ITERATOR_IS_FINISHED c \<and> cb_coroutine cb then await_resume cb None a else a)))"

definition async_waiting_cancellation_callback :: "await_callback \<Rightarrow> 'v + throwable \<Rightarrow> 'v awaiting \<Rightarrow> 'v awaiting" where
  "async_waiting_cancellation_callback cb y a =
     (let a = note_resolved cb y a; c = aw_context a in
      async_waiting_callback_dispose
        (if ac_total c \<noteq> 0 \<and> ac_total c \<le> ac_resolved_count c then await_resume cb None a else a))"

subsection \<open>Awaiting an array\<close>

datatype element_kind = Elem_null | Elem_invalid | Elem_event nat

text \<open>An event as the loop finds it: open or closed with an outcome, and whether it hands out a value.\<close>

record 'v event_info =
  ei_outcome :: "('v + throwable) option"
  ei_has_value :: bool
  ei_coroutine :: bool

definition zval_to_event :: "element_kind \<Rightarrow> nat option \<times> bool" where
  "zval_to_event e = (case e of Elem_event n \<Rightarrow> (Some n, False) | Elem_null \<Rightarrow> (None, False) | Elem_invalid \<Rightarrow> (None, True))"

text \<open>The slot made for an element before it is awaited.\<close>

definition add_placeholder :: "await_key \<Rightarrow> 'v await_context \<Rightarrow> 'v await_context" where
  "add_placeholder k c =
     (if ac_fill_missing_with_null c then c\<lparr>ac_results := map_option (zend_hash_add k Slot_null) (ac_results c)\<rparr>
      else if ac_preserve_key_order c then c\<lparr>ac_results := map_option (zend_hash_add k Slot_undefined) (ac_results c)\<rparr>
      else c)"

text \<open>
  The loop over an array.  A closed event has an outcome to replay (\<open>ei_outcome\<close>); closed events
  without a \<^verbatim>\<open>replay\<close> method are not modelled, nor is a subscription that fails (\<^verbatim>\<open>async_API.c:1052\<close>).
\<close>

fun await_array_loop ::
  "(nat \<Rightarrow> 'v event_info) \<Rightarrow> (await_key \<times> element_kind) list \<Rightarrow> 'v awaiting \<Rightarrow> 'v awaiting \<times> bool" where
  "await_array_loop ev [] a = (a, False)"
| "await_array_loop ev ((k, e) # es) a =
     (case zval_to_event e of
        (_, True) \<Rightarrow> (a\<lparr>aw_context := await_context_dtor (aw_context a)\<rparr>, True)
      | (None, False) \<Rightarrow> await_array_loop ev es a
      | (Some n, False) \<Rightarrow>
          (let cb = \<lparr>cb_event = n, cb_key = k, cb_coroutine = True\<rparr>;
               c = add_placeholder k (aw_context a);
               a = a\<lparr>aw_context := c\<lparr>ac_ref_count := ac_ref_count c + 1\<rparr>\<rparr>
           in case ei_outcome (ev n) of
                Some y \<Rightarrow>
                  (let a = async_waiting_callback (ei_has_value (ev n)) cb y a
                   in if AWAIT_ITERATOR_IS_FINISHED (aw_context a) then (a, False) else await_array_loop ev es a)
              | None \<Rightarrow> await_array_loop ev es (a\<lparr>aw_callbacks := aw_callbacks a @ [cb]\<rparr>)))"

record await_options =
  ao_count :: int
  ao_ignore_errors :: bool
  ao_errors :: bool
  ao_fill_missing_with_null :: bool
  ao_preserve_key_order :: bool
  ao_cancel_on_exit :: bool

definition new_await_context :: "await_options \<Rightarrow> nat \<Rightarrow> 'v await_context" where
  "new_await_context opt n =
     \<lparr>ac_ref_count = 1, ac_total = n, ac_futures_count = 0,
      ac_waiting_count = (if 0 < ao_count opt then nat (ao_count opt) else n),
      ac_resolved_count = 0, ac_success_count = 0, ac_ignore_errors = ao_ignore_errors opt,
      ac_fill_missing_with_null = ao_fill_missing_with_null opt, ac_preserve_key_order = ao_preserve_key_order opt,
      ac_cancel_on_exit = ao_cancel_on_exit opt, ac_results = Some zend_new_array,
      ac_errors = (if ao_errors opt then Some zend_new_array else None)\<rparr>"

text \<open>
  \<^verbatim>\<open>async_await_futures\<close> for an array, up to the point where the coroutine suspends or goes on.  An error
  found while closed events were replayed is pending from here on; the coroutine suspends all the
  same as long as callbacks are registered and the wait is not finished.
\<close>

datatype 'v await_decision =
    Wait_for_nothing
  | Wait_type_error
  | Wait_suspends "'v awaiting"
  | Wait_goes_on "'v awaiting"

definition async_await_futures ::
  "(nat \<Rightarrow> 'v event_info) \<Rightarrow> await_options \<Rightarrow> (await_key \<times> element_kind) list \<Rightarrow> 'v await_decision" where
  "async_await_futures ev opt es =
     (if es = [] then Wait_for_nothing
      else
        case await_array_loop ev es
          \<lparr>aw_context = new_await_context opt (length es), aw_callbacks = [], aw_replaying = True, aw_resumed = False, aw_error = None,
           aw_null_resumed = False\<rparr> of
          (a, True) \<Rightarrow> Wait_type_error
        | (a, False) \<Rightarrow>
            if aw_callbacks a \<noteq> [] \<and> \<not> AWAIT_ITERATOR_IS_FINISHED (aw_context a) then Wait_suspends (a\<lparr>aw_replaying := False, aw_resumed := False\<rparr>)
            else Wait_goes_on (a\<lparr>aw_replaying := False\<rparr>))"

text \<open>An awaited event is settled: every callback registered for it is called.\<close>

definition await_fire :: "bool \<Rightarrow> nat \<Rightarrow> 'v + throwable \<Rightarrow> 'v awaiting \<Rightarrow> 'v awaiting" where
  "await_fire has_value n y a =
     fold (\<lambda>cb. async_waiting_callback has_value cb y) (filter (\<lambda>cb. cb_event cb = n) (aw_callbacks a)) a"

subsection \<open>The end of the wait\<close>

text \<open>
  With \<^verbatim>\<open>cancel_on_exit\<close> the coroutine waits for the coroutines among the elements that still run, unless
  an exception is pending.  The result tells whether it suspends.
\<close>

definition async_cancel_awaited_futures ::
  "(nat \<Rightarrow> 'v event_info) \<Rightarrow> (await_key \<times> element_kind) list \<Rightarrow> 'v awaiting \<Rightarrow> 'v awaiting \<times> bool" where
  "async_cancel_awaited_futures ev es a =
     (let cbs = (if aw_error a \<noteq> None then []
                 else concat (map (\<lambda>(k, e). case e of
                        Elem_event n \<Rightarrow> if ei_coroutine (ev n) \<and> ei_outcome (ev n) = None
                                       then [\<lparr>cb_event = n, cb_key = k, cb_coroutine = True\<rparr>] else []
                      | _ \<Rightarrow> []) es));
          c = aw_context a
      in (a\<lparr>aw_callbacks := cbs, aw_resumed := False, aw_context := c\<lparr>ac_ref_count := ac_ref_count c + length cbs\<rparr>\<rparr>, cbs \<noteq> []))"

definition await_fire_end :: "nat \<Rightarrow> 'v + throwable \<Rightarrow> 'v awaiting \<Rightarrow> 'v awaiting" where
  "await_fire_end n y a =
     fold (\<lambda>cb. async_waiting_cancellation_callback cb y) (filter (\<lambda>cb. cb_event cb = n) (aw_callbacks a)) a"

text \<open>The results handed out: slots that were never filled are removed.\<close>

definition await_results :: "'v awaiting \<Rightarrow> (await_key \<times> 'v slot) list" where
  "await_results a =
     (let c = aw_context a; items = (case ac_results c of None \<Rightarrow> [] | Some t \<Rightarrow> ht_items t)
      in if ac_preserve_key_order c \<and> \<not> ac_fill_missing_with_null c
         then ht_items (fold (\<lambda>(k, v). zend_hash_update k v) (filter (\<lambda>(k, v). v \<noteq> Slot_undefined) items) zend_new_array)
         else items)"

definition await_errors :: "'v awaiting \<Rightarrow> (await_key \<times> throwable) list" where
  "await_errors a = (case ac_errors (aw_context a) of None \<Rightarrow> [] | Some t \<Rightarrow> ht_items t)"

subsection \<open>Awaiting an iterator\<close>

text \<open>
  The handler of the concurrent iterator for one element.  Its callback has no coroutine until the
  waker registers it.  The result is \<open>False\<close> for a failure.  Whether the waker holds an event already
  is whether a callback of this wait is registered on it: a waker has no other events here.  Two
  branches of the source are left out: a key of another type than \<open>await_key\<close> has, which is an
  error (\<^verbatim>\<open>async_API.c:544-548\<close>), and a closed event without a \<^verbatim>\<open>replay\<close> method, which is passed over
  without being counted (\<^verbatim>\<open>async_API.c:603-606\<close>).
\<close>

definition await_iterator_handler ::
  "(nat \<Rightarrow> 'v event_info) \<Rightarrow> await_key \<Rightarrow> element_kind \<Rightarrow> 'v awaiting \<Rightarrow> 'v awaiting \<times> bool" where
  "await_iterator_handler ev k e a =
     (case zval_to_event e of
        (_, True) \<Rightarrow> (a, False)
      | (None, False) \<Rightarrow> (a, True)
      | (Some n, False) \<Rightarrow>
          if n \<in> cb_event ` set (aw_callbacks a) then (a, True)
          else
            (let cb = \<lparr>cb_event = n, cb_key = k, cb_coroutine = False\<rparr>;
                 c = (if k = Key_null then aw_context a else add_placeholder k (aw_context a));
                 a = a\<lparr>aw_context := c\<lparr>ac_ref_count := ac_ref_count c + 1\<rparr>\<rparr>
             in case ei_outcome (ev n) of
                  Some y \<Rightarrow> (async_waiting_callback (ei_has_value (ev n)) cb y a, True)
                | None \<Rightarrow>
                    (a\<lparr>aw_callbacks := aw_callbacks a @ [cb\<lparr>cb_coroutine := True\<rparr>],
                       aw_context := (aw_context a)\<lparr>ac_futures_count := ac_futures_count (aw_context a) + 1\<rparr>\<rparr>, True)))"

text \<open>The end of the iterator: only now the number of elements is known.\<close>

definition await_iterator_dispose :: "throwable option \<Rightarrow> bool \<Rightarrow> 'v awaiting \<Rightarrow> 'v awaiting" where
  "await_iterator_dispose exception in_queue a =
     (let me = \<lparr>cb_event = 0, cb_key = Key_null, cb_coroutine = True\<rparr>;
          a = (case exception of Some x \<Rightarrow> await_resume me (Some x) a | None \<Rightarrow> a);
          c = aw_context a;
          c = c\<lparr>ac_total := ac_futures_count c + ac_resolved_count c\<rparr>;
          a = a\<lparr>aw_context := c\<rparr>
      in if (AWAIT_ITERATOR_IS_FINISHED c \<or> ac_total c = 0) \<and> \<not> in_queue then await_resume me None a else a)"

text \<open>
  The end of the coroutine that iterates; \<open>unstarted\<close> tells that it was cancelled before its first
  entry took the iterator over.
\<close>

definition iterator_coroutine_finish_callback :: "bool \<Rightarrow> throwable option \<Rightarrow> 'v awaiting \<Rightarrow> 'v awaiting" where
  "iterator_coroutine_finish_callback unstarted exception a =
     (let me = \<lparr>cb_event = 0, cb_key = Key_null, cb_coroutine = True\<rparr> in
      if \<not> unstarted then a
      else case exception of
             Some x \<Rightarrow> await_resume me (Some x) a
           | None \<Rightarrow> if AWAIT_ITERATOR_IS_FINISHED (aw_context a) then await_resume me None a else a)"

subsection \<open>The functions of PHP\<close>

text \<open>What each function asks for, and what it returns when the wait is over: an exception that is pending, or a value.\<close>

definition await_any_or_fail_options :: await_options where
  "await_any_or_fail_options = \<lparr>ao_count = 1, ao_ignore_errors = False, ao_errors = False, ao_fill_missing_with_null = False,
     ao_preserve_key_order = False, ao_cancel_on_exit = False\<rparr>"

definition await_first_success_options :: await_options where
  "await_first_success_options = \<lparr>ao_count = 1, ao_ignore_errors = True, ao_errors = True, ao_fill_missing_with_null = False,
     ao_preserve_key_order = False, ao_cancel_on_exit = True\<rparr>"

definition await_all_or_fail_options :: "bool \<Rightarrow> await_options" where
  "await_all_or_fail_options preserve = \<lparr>ao_count = 0, ao_ignore_errors = False, ao_errors = False, ao_fill_missing_with_null = True,
     ao_preserve_key_order = preserve, ao_cancel_on_exit = True\<rparr>"

definition await_all_options :: "bool \<Rightarrow> bool \<Rightarrow> await_options" where
  "await_all_options preserve fill = \<lparr>ao_count = 0, ao_ignore_errors = True, ao_errors = True, ao_fill_missing_with_null = fill,
     ao_preserve_key_order = preserve, ao_cancel_on_exit = True\<rparr>"

text \<open>The count is a 64-bit number cut to an int of 32 bits.\<close>

definition int_of_long :: "int \<Rightarrow> int" where
  "int_of_long n = (n + 2 ^ 31) mod 2 ^ 32 - 2 ^ 31"

definition await_any_of_or_fail_options :: "int \<Rightarrow> bool \<Rightarrow> await_options" where
  "await_any_of_or_fail_options count preserve = \<lparr>ao_count = int_of_long count, ao_ignore_errors = False, ao_errors = False,
     ao_fill_missing_with_null = False, ao_preserve_key_order = preserve, ao_cancel_on_exit = False\<rparr>"

definition await_any_of_options :: "int \<Rightarrow> bool \<Rightarrow> bool \<Rightarrow> await_options" where
  "await_any_of_options count preserve fill = \<lparr>ao_count = int_of_long count, ao_ignore_errors = True, ao_errors = True,
     ao_fill_missing_with_null = fill, ao_preserve_key_order = preserve, ao_cancel_on_exit = True\<rparr>"

definition first_result :: "(await_key \<times> 'v slot) list \<Rightarrow> 'v slot" where
  "first_result rs = (case rs of [] \<Rightarrow> Slot_null | (k, v) # _ \<Rightarrow> v)"

definition await_any_or_fail :: "'v awaiting \<Rightarrow> 'v slot + throwable" where
  "await_any_or_fail a = (case aw_error a of Some x \<Rightarrow> Inr x | None \<Rightarrow> Inl (first_result (await_results a)))"

definition await_first_success :: "'v awaiting \<Rightarrow> ('v slot \<times> (await_key \<times> throwable) list) + throwable" where
  "await_first_success a =
     (case aw_error a of Some x \<Rightarrow> Inr x | None \<Rightarrow> Inl (first_result (await_results a), await_errors a))"

definition await_all_or_fail :: "'v awaiting \<Rightarrow> (await_key \<times> 'v slot) list + throwable" where
  "await_all_or_fail a = (case aw_error a of Some x \<Rightarrow> Inr x | None \<Rightarrow> Inl (await_results a))"

definition await_all :: "'v awaiting \<Rightarrow> ((await_key \<times> 'v slot) list \<times> (await_key \<times> throwable) list) + throwable" where
  "await_all a = (case aw_error a of Some x \<Rightarrow> Inr x | None \<Rightarrow> Inl (await_results a, await_errors a))"

text \<open>\<^verbatim>\<open>await_any_of_or_fail\<close> does not wait at all for a count of zero.\<close>

definition await_any_of_or_fail :: "int \<Rightarrow> 'v awaiting \<Rightarrow> (await_key \<times> 'v slot) list + throwable" where
  "await_any_of_or_fail count a = (if count = 0 then Inl [] else await_all_or_fail a)"

end
