(* ===== verification/Await_Tally.thy ===== *)
theory Await_Tally
  imports Await
begin

text \<open>
  The books of a wait: how counters, callbacks and tables follow from the elements that were seen
  and the outcomes that came in, one by one.
\<close>

subsection \<open>Tables\<close>

lemma update_fresh:
  assumes "k \<notin> fst ` set (ht_items t)"
  shows "ht_items (zend_hash_update k v t) = ht_items t @ [(k, v)]"
  using assms by (simp add: zend_hash_update_def)

lemma update_present:
  assumes "k \<in> fst ` set (ht_items t)"
  shows "ht_items (zend_hash_update k v t) = map (\<lambda>(k', v'). (k', if k' = k then v else v')) (ht_items t)"
  using assms by (simp add: zend_hash_update_def)

lemma fold_update_distinct:
  assumes "distinct (map fst (ht_items t @ xs))"
  shows "ht_items (fold (\<lambda>(k, v). zend_hash_update k v) xs t) = ht_items t @ xs"
  using assms
proof (induction xs arbitrary: t)
  case (Cons x xs)
  obtain k v where x: "x = (k, v)" by fastforce
  have "ht_items (zend_hash_update k v t) = ht_items t @ [(k, v)]" using Cons.prems x by (intro update_fresh) auto
  then show ?case using Cons.IH [of "zend_hash_update k v t"] Cons.prems x by simp
qed simp

subsection \<open>The books\<close>

definition awaited :: "(await_key \<times> element_kind) list \<Rightarrow> (await_key \<times> nat) list" where
  "awaited es = concat (map (\<lambda>(k, e). case e of Elem_event n \<Rightarrow> [(k, n)] | _ \<Rightarrow> []) es)"

definition callback_for :: "await_key \<times> nat \<Rightarrow> await_callback" where
  "callback_for x = \<lparr>cb_event = snd x, cb_key = fst x, cb_coroutine = True\<rparr>"

lemma callback_for_inject [simp]: "callback_for x = callback_for y \<longleftrightarrow> x = y"
  by (cases x; cases y) (auto simp: callback_for_def)

definition slot_of :: "bool \<Rightarrow> ('v + throwable) option \<Rightarrow> 'v slot" where
  "slot_of fill y = (case y of Some (Inl v) \<Rightarrow> Slot_value v | _ \<Rightarrow> if fill then Slot_null else Slot_undefined)"

definition successes :: "(await_key \<times> ('v + throwable)) list \<Rightarrow> (await_key \<times> 'v) list" where
  "successes acc = concat (map (\<lambda>(k, y). case y of Inl v \<Rightarrow> [(k, v)] | Inr x \<Rightarrow> []) acc)"

definition failures :: "(await_key \<times> ('v + throwable)) list \<Rightarrow> (await_key \<times> throwable) list" where
  "failures acc = concat (map (\<lambda>(k, y). case y of Inl v \<Rightarrow> [] | Inr x \<Rightarrow> [(k, x)]) acc)"

lemma successes_simps [simp]: "successes [] = []" "successes (acc @ acc') = successes acc @ successes acc'"
  "successes [(k, Inl v)] = [(k, v)]" "successes [(k, Inr x)] = []"
  by (simp_all add: successes_def)

lemma failures_simps [simp]: "failures [] = []" "failures (acc @ acc') = failures acc @ failures acc'"
  "failures [(k, Inl v)] = []" "failures [(k, Inr x)] = [(k, x)]"
  by (simp_all add: failures_def)

lemma successes_keys: "fst ` set (successes acc) \<subseteq> fst ` set acc"
  by (force simp: successes_def split: sum.splits)

lemma failures_keys: "fst ` set (failures acc) \<subseteq> fst ` set acc"
  by (force simp: failures_def split: sum.splits)

text \<open>The table of results: slots in the order of the elements, or values in the order of arrival.\<close>

definition result_items :: "await_options \<Rightarrow> (await_key \<times> nat) list \<Rightarrow> (await_key \<times> ('v + throwable)) list \<Rightarrow> (await_key \<times> 'v slot) list" where
  "result_items opt es acc =
     (if ao_fill_missing_with_null opt \<or> ao_preserve_key_order opt
      then map (\<lambda>(k, n). (k, slot_of (ao_fill_missing_with_null opt) (map_of acc k))) es
      else map (\<lambda>(k, v). (k, Slot_value v)) (successes acc))"

definition context_books :: "await_options \<Rightarrow> nat \<Rightarrow> (await_key \<times> nat) list \<Rightarrow> (await_key \<times> ('v + throwable)) list \<Rightarrow> 'v await_context \<Rightarrow> bool" where
  "context_books opt n es acc c \<longleftrightarrow>
     ac_total c = n \<and> ac_waiting_count c = (if 0 < ao_count opt then nat (ao_count opt) else n) \<and>
     ac_ignore_errors c = ao_ignore_errors opt \<and> ac_fill_missing_with_null c = ao_fill_missing_with_null opt \<and>
     ac_preserve_key_order c = ao_preserve_key_order opt \<and>
     ac_resolved_count c = length acc \<and> ac_success_count c = length (successes acc) \<and>
     (\<exists>t. ac_results c = Some t \<and> ht_items t = result_items opt es acc) \<and>
     (if ao_errors opt then (\<exists>t. ac_errors c = Some t \<and> ht_items t = failures acc) else ac_errors c = None)"

definition tally :: "await_options \<Rightarrow> nat \<Rightarrow> (await_key \<times> nat) list \<Rightarrow> (await_key \<times> ('v + throwable)) list \<Rightarrow> 'v awaiting \<Rightarrow> bool" where
  "tally opt n es acc a \<longleftrightarrow>
     context_books opt n es acc (aw_context a) \<and>
     distinct (map fst es) \<and> Key_null \<notin> fst ` set es \<and> distinct (map fst acc) \<and> fst ` set acc \<subseteq> fst ` set es \<and>
     aw_callbacks a = map callback_for (filter (\<lambda>x. fst x \<notin> fst ` set acc) es) \<and>
     ac_ref_count (aw_context a) = Suc (length (aw_callbacks a)) \<and> \<not> aw_null_resumed a"

definition finished_with :: "await_options \<Rightarrow> nat \<Rightarrow> (await_key \<times> ('v + throwable)) list \<Rightarrow> bool" where
  "finished_with opt n acc \<longleftrightarrow>
     (let waiting = (if 0 < ao_count opt then nat (ao_count opt) else n) in
      0 < waiting \<and> waiting \<le> (if ao_ignore_errors opt then length (successes acc) else length acc) \<or> n \<noteq> 0 \<and> n \<le> length acc)"

lemma finished_tally: "context_books opt n es acc c \<Longrightarrow> AWAIT_ITERATOR_IS_FINISHED c = finished_with opt n acc"
  by (auto simp: context_books_def AWAIT_ITERATOR_IS_FINISHED_def finished_with_def Let_def)

subsection \<open>One outcome\<close>

lemma map_of_snoc:
  assumes "k \<notin> fst ` set acc"
  shows "map_of (acc @ [(k, y)]) k' = (if k' = k then Some y else map_of acc k')"
proof -
  have "map_of acc k = None" using assms by (simp add: map_of_eq_None_iff)
  then show ?thesis by (auto simp: map_add_def split: option.split)
qed

lemma result_items_add:
  assumes "k \<notin> fst ` set acc" "k \<in> fst ` set es" "ht_items t = result_items opt es acc"
  shows "ht_items (zend_hash_update k (Slot_value v) t) = result_items opt es (acc @ [(k, Inl v)])"
proof (cases "ao_fill_missing_with_null opt \<or> ao_preserve_key_order opt")
  case True
  note map_of_snoc [OF assms(1)]
  moreover have "k \<in> fst ` set (ht_items t)" using assms(2,3) True by (force simp: result_items_def)
  ultimately show ?thesis using assms(3) True by (auto simp: update_present result_items_def slot_of_def comp_def split_def simp del: map_of_append)
next
  case False
  then have "k \<notin> fst ` set (ht_items t)" using assms(1,3) successes_keys [of acc] by (force simp: result_items_def)
  then show ?thesis using assms(3) False by (simp add: update_fresh result_items_def)
qed

lemma result_items_failure:
  assumes "k \<notin> fst ` set acc"
  shows "result_items opt es (acc @ [(k, Inr x)]) = result_items opt es acc"
proof -
  note map_of_snoc [OF assms]
  moreover have "map_of acc k = None" using assms by (simp add: map_of_eq_None_iff)
  ultimately show ?thesis by (auto simp: result_items_def slot_of_def split_def simp del: map_of_append)
qed

lemma callbacks_without:
  assumes "distinct (map fst es)" "(k, m) \<in> set es" "k \<notin> fst ` set acc"
  shows "remove1 (callback_for (k, m)) (map callback_for (filter (\<lambda>x. fst x \<notin> fst ` set acc) es)) =
    map callback_for (filter (\<lambda>x. fst x \<notin> fst ` set (acc @ [(k, y)])) es)"
    and "Suc (length (map callback_for (filter (\<lambda>x. fst x \<notin> fst ` set (acc @ [(k, y)])) es))) =
      length (map callback_for (filter (\<lambda>x. fst x \<notin> fst ` set acc) es))"
proof -
  obtain as bs where es: "es = as @ (k, m) # bs" using assms(2) by (auto simp: in_set_conv_decomp)
  have ne: "fst x \<noteq> k" if "x \<in> set as \<union> set bs" for x using assms(1) that by (force simp: es)
  then have new: "(k, m) \<notin> set as" by force
  from ne have "filter (\<lambda>x. fst x \<notin> fst ` set (acc @ [(k, y)])) as = filter (\<lambda>x. fst x \<notin> fst ` set acc) as"
    "filter (\<lambda>x. fst x \<notin> fst ` set (acc @ [(k, y)])) bs = filter (\<lambda>x. fst x \<notin> fst ` set acc) bs"
    by (intro filter_cong refl; force)+
  then show "remove1 (callback_for (k, m)) (map callback_for (filter (\<lambda>x. fst x \<notin> fst ` set acc) es)) =
      map callback_for (filter (\<lambda>x. fst x \<notin> fst ` set (acc @ [(k, y)])) es)"
    "Suc (length (map callback_for (filter (\<lambda>x. fst x \<notin> fst ` set (acc @ [(k, y)])) es))) =
      length (map callback_for (filter (\<lambda>x. fst x \<notin> fst ` set acc) es))"
    using assms(3) new by (simp_all add: es remove1_append image_iff)
qed

text \<open>An outcome of an element that was seen and has none yet.\<close>

lemma callback_context:
  assumes "context_books opt n es acc c" "k \<notin> fst ` set acc" "k \<in> fst ` set es" "k \<noteq> Key_null"
    and "c1 = aw_context (note_resolved (callback_for (k, m)) y a)" "aw_context a = c"
  shows "context_books opt n es (acc @ [(k, y)])
    (case y of Inl v \<Rightarrow> c1\<lparr>ac_success_count := ac_success_count c1 + 1,
         ac_results := map_option (store_under k (Slot_value v)) (ac_results c1)\<rparr> | Inr x \<Rightarrow> c1)"
proof (cases y)
  case (Inl v)
  obtain t where t: "ac_results c = Some t" "ht_items t = result_items opt es acc" using assms(1) by (auto simp: context_books_def)
  have "ht_items (store_under k (Slot_value v) t) = result_items opt es (acc @ [(k, Inl v)])"
    using result_items_add [OF assms(2,3) t(2)] assms(4) by (simp add: store_under_def)
  then show ?thesis using assms(1,5,6) t(1) Inl by (auto simp: context_books_def note_resolved_def)
next
  case (Inr x)
  have "ht_items (store_under k x t) = failures acc @ [(k, x)]" if "ht_items t = failures acc" for t
  proof -
    have "k \<notin> fst ` set (ht_items t)" using that assms(2) failures_keys [of acc] by auto
    then show ?thesis using that assms(4) by (simp add: store_under_def update_fresh)
  qed
  then show ?thesis using assms(1,5,6) Inr result_items_failure [OF assms(2), of opt es x]
    by (auto simp: context_books_def note_resolved_def callback_for_def)
qed

definition ac_ref_count_free :: "'v await_context \<Rightarrow> 'v await_context" where
  "ac_ref_count_free c = c\<lparr>ac_ref_count := 0\<rparr>"

lemma resume_fields:
  "ac_ref_count_free (aw_context (await_resume cb e a)) = ac_ref_count_free (aw_context a)"
  "\<not> (aw_replaying a \<and> aw_resumed a) \<Longrightarrow> aw_context (await_resume cb e a) = aw_context a"
  "\<not> (aw_replaying a \<and> aw_resumed a) \<Longrightarrow> aw_callbacks (await_resume cb e a) = aw_callbacks a"
  "cb_coroutine cb \<Longrightarrow> aw_null_resumed (await_resume cb e a) = aw_null_resumed a"
  "cb_coroutine cb \<Longrightarrow> aw_resumed (await_resume cb e a)"
  "aw_replaying (await_resume cb e a) = aw_replaying a"
  by (auto simp: await_resume_def waker_clean_events_def Let_def ac_ref_count_free_def)

lemma callback_for_fields [simp]: "cb_event (callback_for x) = snd x" "cb_key (callback_for x) = fst x" "cb_coroutine (callback_for x)"
  by (simp_all add: callback_for_def)

lemma books_ref_count: "context_books opt n es acc (c\<lparr>ac_ref_count := r\<rparr>) = context_books opt n es acc c"
  by (simp add: context_books_def)

lemma books_ref_count_free: "context_books opt n es acc (ac_ref_count_free c) = context_books opt n es acc c"
  by (simp add: ac_ref_count_free_def books_ref_count)

definition resumes_on :: "await_options \<Rightarrow> nat \<Rightarrow> (await_key \<times> ('v + throwable)) list \<Rightarrow> await_key \<Rightarrow> 'v + throwable \<Rightarrow> bool" where
  "resumes_on opt n acc k y =
     (case y of Inl v \<Rightarrow> finished_with opt n (acc @ [(k, y)])
      | Inr x \<Rightarrow> \<not> ao_ignore_errors opt \<or> n \<noteq> 0 \<and> n \<le> length acc + 1)"

lemma outcome_tally:
  assumes t: "tally opt n es acc a" and km: "(k, m) \<in> set es" "k \<notin> fst ` set acc"
    and b: "b = async_waiting_callback True (callback_for (k, m)) y a"
  shows "context_books opt n es (acc @ [(k, y)]) (aw_context b)"
    and "\<not> (aw_replaying a \<and> aw_resumed a \<and> resumes_on opt n acc k y) \<Longrightarrow> tally opt n es (acc @ [(k, y)]) b"
    and "aw_resumed b \<longleftrightarrow> aw_resumed a \<or> resumes_on opt n acc k y"
    and "aw_error b = None \<longleftrightarrow> aw_error a = None \<and> (isl y \<or> ao_ignore_errors opt)"
    and "aw_replaying b = aw_replaying a"
proof -
  define a1 where "a1 = note_resolved (callback_for (k, m)) y a"
  define c1 where "c1 = aw_context a1"
  define c2 where "c2 = (case y of Inl v \<Rightarrow> c1\<lparr>ac_success_count := ac_success_count c1 + 1,
         ac_results := map_option (store_under k (Slot_value v)) (ac_results c1)\<rparr> | Inr x \<Rightarrow> c1)"
  have bk: "context_books opt n es acc (aw_context a)" "k \<in> fst ` set es" "k \<noteq> Key_null" "distinct (map fst es)"
    "aw_callbacks a = map callback_for (filter (\<lambda>x. fst x \<notin> fst ` set acc) es)"
    using t km(1) by (force simp: tally_def)+
  have c2: "context_books opt n es (acc @ [(k, y)]) c2"
    unfolding c2_def using callback_context [OF bk(1) km(2) bk(2,3), of c1 m y a] by (simp add: c1_def a1_def)
  have cbs: "aw_callbacks a1 = map callback_for (filter (\<lambda>x. fst x \<notin> fst ` set (acc @ [(k, y)])) es)"
    "Suc (length (aw_callbacks a1)) = length (aw_callbacks a)"
    using callbacks_without [OF bk(4) km, of y] bk(5) by (simp_all add: a1_def note_resolved_def)
  have ref: "ac_ref_count c2 = Suc (Suc (length (aw_callbacks a1)))"
    using t cbs(2) by (simp add: tally_def c2_def c1_def a1_def note_resolved_def split: sum.split)
  have keep: "aw_resumed a1 = aw_resumed a" "aw_error a1 = aw_error a" "aw_null_resumed a1 = aw_null_resumed a"
    "aw_replaying a1 = aw_replaying a"
    by (simp_all add: a1_def note_resolved_def)
  have res: "ac_results c1 \<noteq> None" "ac_ignore_errors c1 = ao_ignore_errors opt" "ac_total c1 = n" "ac_resolved_count c1 = length acc + 1"
    using bk(1) by (auto simp: c1_def a1_def note_resolved_def context_books_def)
  define err where "err = (case y of Inl v \<Rightarrow> None | Inr x \<Rightarrow> if ao_ignore_errors opt then None else Some x)"
  define a2 where
    "a2 = (if resumes_on opt n acc k y then await_resume (callback_for (k, m)) err (a1\<lparr>aw_context := c2\<rparr>) else a1\<lparr>aw_context := c2\<rparr>)"
  have same: "a1\<lparr>aw_context := c1\<rparr> = a1" by (simp add: c1_def)
  have eq: "b = async_waiting_callback_dispose a2"
    using res finished_tally [OF c2] unfolding b
    by (auto simp: async_waiting_callback_def a1_def [symmetric] c1_def [symmetric] Let_def a2_def c2_def resumes_on_def err_def same
        split: sum.splits)
  have free: "ac_ref_count_free (aw_context b) = ac_ref_count_free c2"
    by (simp add: eq async_waiting_callback_dispose_def await_context_dtor_def a2_def ac_ref_count_free_def
        await_resume_def waker_clean_events_def Let_def)
  show "context_books opt n es (acc @ [(k, y)]) (aw_context b)"
    using c2 books_ref_count_free [of opt n es "acc @ [(k, y)]"] free by metis
  have a2: "aw_null_resumed a2 = aw_null_resumed a" "aw_resumed a2 \<longleftrightarrow> aw_resumed a \<or> resumes_on opt n acc k y"
    "aw_replaying a2 = aw_replaying a"
    using keep by (auto simp: a2_def resume_fields)
  have e2: "aw_error a2 = None \<longleftrightarrow> aw_error a = None \<and> (isl y \<or> ao_ignore_errors opt)"
    using keep by (auto simp: a2_def await_resume_def err_def resumes_on_def split: sum.splits option.splits)
  show "tally opt n es (acc @ [(k, y)]) b" if "\<not> (aw_replaying a \<and> aw_resumed a \<and> resumes_on opt n acc k y)"
  proof -
    have "aw_context a2 = c2" "aw_callbacks a2 = aw_callbacks a1" using that keep by (auto simp: a2_def resume_fields)
    then show ?thesis unfolding eq using t c2 cbs ref a2(1) km bk(2)
      by (auto simp: tally_def async_waiting_callback_dispose_def await_context_dtor_def books_ref_count)
  qed
  show "aw_resumed b \<longleftrightarrow> aw_resumed a \<or> resumes_on opt n acc k y" "aw_error b = None \<longleftrightarrow> aw_error a = None \<and> (isl y \<or> ao_ignore_errors opt)"
    "aw_replaying b = aw_replaying a"
    unfolding eq using a2(2,3) e2 by (simp_all add: async_waiting_callback_dispose_def)
qed

subsection \<open>The loop over an array\<close>

definition register :: "await_key \<times> nat \<Rightarrow> 'v awaiting \<Rightarrow> 'v awaiting" where
  "register x a =
     (let c = add_placeholder (fst x) (aw_context a)
      in a\<lparr>aw_context := c\<lparr>ac_ref_count := ac_ref_count c + 1\<rparr>, aw_callbacks := aw_callbacks a @ [callback_for x]\<rparr>)"

lemma register_tally:
  assumes t: "tally opt n es acc a" and k: "k \<notin> fst ` set es" "k \<noteq> Key_null"
  shows "tally opt n (es @ [(k, m)]) acc (register (k, m) a)"
proof -
  have acc: "k \<notin> fst ` set acc" using t k(1) by (auto simp: tally_def)
  obtain tb where tb: "ac_results (aw_context a) = Some tb" "ht_items tb = result_items opt es acc"
    using t by (auto simp: tally_def context_books_def)
  have none: "map_of acc k = None" using acc by (simp add: map_of_eq_None_iff)
  have items: "ht_items (zend_hash_add k s tb) = ht_items tb @ [(k, s)]"
    if "ao_fill_missing_with_null opt \<or> ao_preserve_key_order opt" for s
  proof -
    have "k \<notin> fst ` set (ht_items tb)" using that k(1) tb(2) by (force simp: result_items_def)
    then show ?thesis by (simp add: zend_hash_add_def update_fresh)
  qed
  have "context_books opt n (es @ [(k, m)]) acc (add_placeholder k (aw_context a))"
    using t tb items none by (auto simp: tally_def context_books_def add_placeholder_def result_items_def slot_of_def)
  moreover have "ac_ref_count (add_placeholder k c) = ac_ref_count c" for c :: "'a await_context" by (simp add: add_placeholder_def)
  ultimately show ?thesis using t k acc
    by (auto simp: tally_def register_def Let_def books_ref_count)
qed

lemma register_fields [simp]:
  "aw_resumed (register x a) = aw_resumed a" "aw_error (register x a) = aw_error a" "aw_replaying (register x a) = aw_replaying a"
  by (simp_all add: register_def Let_def)

text \<open>A closed event is replayed: as if it was registered and then fired.\<close>

lemma replay_registers:
  assumes "tally opt n es acc a" "k \<notin> fst ` set es"
  shows "async_waiting_callback hv (callback_for (k, m)) y
      (a\<lparr>aw_context := (add_placeholder k (aw_context a))\<lparr>ac_ref_count := ac_ref_count (add_placeholder k (aw_context a)) + 1\<rparr>\<rparr>) =
    async_waiting_callback hv (callback_for (k, m)) y (register (k, m) a)"
proof -
  have "set (aw_callbacks a) \<subseteq> callback_for ` set es" using assms(1) by (auto simp: tally_def)
  then have "callback_for (k, m) \<notin> set (aw_callbacks a)" using assms(2) by force
  then have "note_resolved (callback_for (k, m)) y
      (a\<lparr>aw_context := (add_placeholder k (aw_context a))\<lparr>ac_ref_count := ac_ref_count (add_placeholder k (aw_context a)) + 1\<rparr>\<rparr>) =
    note_resolved (callback_for (k, m)) y (register (k, m) a)"
    by (cases y) (simp_all add: note_resolved_def register_def Let_def remove1_append remove1_idem)
  then show ?thesis by (simp add: async_waiting_callback_def)
qed

lemma loop_open:
  assumes "ei_outcome (ev m) = None"
  shows "await_array_loop ev ((k, Elem_event m) # els) a = await_array_loop ev els (register (k, m) a)"
  using assms by (simp add: zval_to_event_def register_def callback_for_def Let_def)

lemma loop_closed:
  assumes t: "tally opt n es acc a" and k: "k \<notin> fst ` set es" "k \<noteq> Key_null" and ev: "ei_outcome (ev m) = Some y" "ei_has_value (ev m)"
    and a1: "a1 = async_waiting_callback True (callback_for (k, m)) y (register (k, m) a)"
  shows "AWAIT_ITERATOR_IS_FINISHED (aw_context a1) = finished_with opt n (acc @ [(k, y)])"
    "await_array_loop ev ((k, Elem_event m) # els) a =
      (if finished_with opt n (acc @ [(k, y)]) then (a1, False) else await_array_loop ev els a1)"
    "aw_error a1 = None \<longleftrightarrow> aw_error a = None \<and> (isl y \<or> ao_ignore_errors opt)"
    "aw_resumed a1 \<longleftrightarrow> aw_resumed a \<or> resumes_on opt n acc k y"
    "\<lbrakk>\<not> finished_with opt n (acc @ [(k, y)]); isl y \<or> ao_ignore_errors opt \<or> \<not> aw_resumed a\<rbrakk> \<Longrightarrow>
      tally opt n (es @ [(k, m)]) (acc @ [(k, y)]) a1"
proof -
  have acc: "k \<notin> fst ` set acc" using t k(1) by (auto simp: tally_def)
  note o = outcome_tally [OF register_tally [OF t k, of m] _ acc a1, simplified]
  have cbf: "\<lparr>cb_event = m, cb_key = k, cb_coroutine = True\<rparr> = callback_for (k, m)" by (simp add: callback_for_def)
  show fin: "AWAIT_ITERATOR_IS_FINISHED (aw_context a1) = finished_with opt n (acc @ [(k, y)])"
    using finished_tally [OF o(1)] .
  then show "await_array_loop ev ((k, Elem_event m) # els) a =
      (if finished_with opt n (acc @ [(k, y)]) then (a1, False) else await_array_loop ev els a1)"
    using ev replay_registers [OF t k(1), of True m y]
    by (simp add: zval_to_event_def a1 Let_def cbf)
  show "aw_error a1 = None \<longleftrightarrow> aw_error a = None \<and> (isl y \<or> ao_ignore_errors opt)"
    "aw_resumed a1 \<longleftrightarrow> aw_resumed a \<or> resumes_on opt n acc k y" using o(3,4) by simp_all
  show "tally opt n (es @ [(k, m)]) (acc @ [(k, y)]) a1"
    if "\<not> finished_with opt n (acc @ [(k, y)])" "isl y \<or> ao_ignore_errors opt \<or> \<not> aw_resumed a"
  proof -
    have "\<not> (aw_resumed a \<and> resumes_on opt n acc k y)"
      using that by (auto simp: resumes_on_def finished_with_def Let_def split: sum.splits)
    then show ?thesis using o(2) by blast
  qed
qed

definition replayed :: "(nat \<Rightarrow> 'v event_info) \<Rightarrow> (await_key \<times> nat) list \<Rightarrow> (await_key \<times> ('v + throwable)) list" where
  "replayed ev es = concat (map (\<lambda>(k, m). case ei_outcome (ev m) of Some y \<Rightarrow> [(k, y)] | None \<Rightarrow> []) es)"

lemma replayed_Cons: "replayed ev ((k, m) # es) = (case ei_outcome (ev m) of Some y \<Rightarrow> [(k, y)] | None \<Rightarrow> []) @ replayed ev es"
  by (simp add: replayed_def)

lemma awaited_Cons: "awaited ((k, e) # es) = (case e of Elem_event m \<Rightarrow> [(k, m)] | _ \<Rightarrow> []) @ awaited es"
  by (simp add: awaited_def)

lemma failures_Cons: "failures ((k, y) # acc) = (case y of Inl v \<Rightarrow> [] | Inr x \<Rightarrow> [(k, x)]) @ failures acc"
  by (simp add: failures_def)

text \<open>
  The loop has stopped because the wait is finished, or it has seen all elements and the books are in
  order.
\<close>

definition loop_result ::
  "(nat \<Rightarrow> 'v event_info) \<Rightarrow> await_options \<Rightarrow> nat \<Rightarrow> (await_key \<times> nat) list \<Rightarrow> (await_key \<times> ('v + throwable)) list \<Rightarrow>
   (await_key \<times> nat) list \<Rightarrow> bool \<Rightarrow> 'v awaiting \<times> bool \<Rightarrow> bool" where
  "loop_result ev opt n es acc todo clean r \<longleftrightarrow>
     \<not> snd r \<and>
     (AWAIT_ITERATOR_IS_FINISHED (aw_context (fst r)) \<or>
      tally opt n (es @ todo) (acc @ replayed ev todo) (fst r) \<and>
      (aw_error (fst r) = None \<longleftrightarrow> clean \<and> (ao_ignore_errors opt \<or> failures (replayed ev todo) = [])))"

lemma loop_result_open:
  assumes "loop_result ev opt n (es @ [(k, m)]) acc todo clean r" "ei_outcome (ev m) = None"
  shows "loop_result ev opt n es acc ((k, m) # todo) clean r"
  using assms by (simp add: loop_result_def replayed_Cons)

lemma loop_result_closed:
  assumes "loop_result ev opt n (es @ [(k, m)]) (acc @ [(k, y)]) todo (clean \<and> (isl y \<or> ao_ignore_errors opt)) r" "ei_outcome (ev m) = Some y"
  shows "loop_result ev opt n es acc ((k, m) # todo) clean r"
  using assms by (cases y) (auto simp: loop_result_def replayed_Cons failures_Cons)

text \<open>
  Where errors are not ignored, at most one element has failed before the wait begins; a second one
  would give up the callbacks that are registered.
\<close>

definition one_failure :: "await_options \<Rightarrow> bool \<Rightarrow> (await_key \<times> ('v + throwable)) list \<Rightarrow> bool" where
  "one_failure opt resumed acc \<longleftrightarrow> ao_ignore_errors opt \<or> length (failures acc) + (if resumed then 1 else 0) \<le> 1"

lemma one_failure_Cons:
  assumes "one_failure opt (aw_resumed a) ((k, y) # acc')" "aw_resumed a1 \<longleftrightarrow> aw_resumed a \<or> resumes_on opt n acc k y"
    and "\<not> finished_with opt n (acc @ [(k, y)])"
  shows "isl y \<or> ao_ignore_errors opt \<or> \<not> aw_resumed a" "one_failure opt (aw_resumed a1) acc'"
  using assms
  by (cases y; auto simp: one_failure_def failures_Cons resumes_on_def split: if_splits)+

lemma array_loop_tally:
  assumes "tally opt n es acc a" "distinct (map fst (es @ awaited els))" "Key_null \<notin> fst ` set (awaited els)"
    "Elem_invalid \<notin> snd ` set els" "list_all (\<lambda>(k, m). ei_has_value (ev m)) (awaited els)"
    "one_failure opt (aw_resumed a) (replayed ev (awaited els))"
  shows "loop_result ev opt n es acc (awaited els) (aw_error a = None) (await_array_loop ev els a)"
  using assms
proof (induction els arbitrary: es acc a)
  case Nil
  then show ?case by (simp add: awaited_def loop_result_def replayed_def)
next
  case (Cons x els)
  obtain k e where x: "x = (k, e)" by fastforce
  show ?case
  proof (cases e)
    case Elem_null
    then show ?thesis using Cons.IH [OF Cons.prems(1)] Cons.prems(2-6) by (simp add: x awaited_Cons zval_to_event_def)
  next
    case Elem_invalid
    then show ?thesis using Cons.prems(4) by (simp add: x)
  next
    case (Elem_event m)
    have k: "k \<notin> fst ` set es" "k \<noteq> Key_null" using Cons.prems(2,3) Elem_event by (auto simp: x awaited_Cons)
    have prem: "distinct (map fst ((es @ [(k, m)]) @ awaited els))" "Key_null \<notin> fst ` set (awaited els)" "Elem_invalid \<notin> snd ` set els"
      "list_all (\<lambda>(k, m). ei_has_value (ev m)) (awaited els)"
      using Cons.prems(2-5) Elem_event by (auto simp: x awaited_Cons)
    have hv: "ei_has_value (ev m)" using Cons.prems(5) Elem_event by (simp add: x awaited_Cons)
    have aw: "awaited (x # els) = (k, m) # awaited els" using Elem_event by (simp add: x awaited_Cons)
    show ?thesis
    proof (cases "ei_outcome (ev m)")
      case None
      then have "one_failure opt (aw_resumed (register (k, m) a)) (replayed ev (awaited els))"
        using Cons.prems(6) by (simp add: aw replayed_Cons)
      then show ?thesis unfolding aw
        using Cons.IH [OF register_tally [OF Cons.prems(1) k, of m] prem] loop_result_open [where ev = ev, OF _ None]
        by (simp add: x Elem_event loop_open [where ev = ev, OF None] del: await_array_loop.simps)
    next
      case (Some y)
      define a1 where "a1 = async_waiting_callback True (callback_for (k, m)) y (register (k, m) a)"
      note c = loop_closed [where ev = ev, OF Cons.prems(1) k Some hv a1_def]
      have one: "one_failure opt (aw_resumed a) ((k, y) # replayed ev (awaited els))"
        using Cons.prems(6) Some by (simp add: aw replayed_Cons)
      have "loop_result ev opt n (es @ [(k, m)]) (acc @ [(k, y)]) (awaited els) (aw_error a1 = None) (await_array_loop ev ((k, Elem_event m) # els) a)"
      proof (cases "finished_with opt n (acc @ [(k, y)])")
        case True
        then show ?thesis unfolding c(2) using c(1) by (simp add: loop_result_def)
      next
        case False
        note f = one_failure_Cons [OF one c(4) False]
        show ?thesis unfolding c(2) using False Cons.IH [OF c(5) [OF False f(1)] prem f(2)] by simp
      qed
      then show ?thesis unfolding aw c(3) by (simp add: x Elem_event loop_result_closed [where ev = ev, OF _ Some] del: await_array_loop.simps)
    qed
  qed
qed

end
