(* ===== verification/Await_Properties.thy ===== *)
theory Await_Properties
  imports Await_Tally
begin

text \<open>
  When a wait for several events ends and what it returns, whatever the order in which the events are
  settled; and the situations in which it does not end although everything awaited was settled.
\<close>

subsection \<open>Events that are settled during the wait\<close>

definition key_of :: "(await_key \<times> nat) list \<Rightarrow> nat \<Rightarrow> await_key" where
  "key_of es m = (case map_of (map prod.swap es) m of Some k \<Rightarrow> k | None \<Rightarrow> Key_null)"

definition fired :: "(await_key \<times> nat) list \<Rightarrow> (nat \<times> ('v + throwable)) list \<Rightarrow> (await_key \<times> ('v + throwable)) list" where
  "fired es fs = map (\<lambda>(m, y). (key_of es m, y)) fs"

definition fire_all :: "(nat \<times> ('v + throwable)) list \<Rightarrow> 'v awaiting \<Rightarrow> 'v awaiting" where
  "fire_all fs a = fold (\<lambda>(m, y). await_fire True m y) fs a"

lemma key_of_mem:
  assumes "distinct (map snd es)" "(k, m) \<in> set es"
  shows "key_of es m = k"
proof -
  have "map_of (map prod.swap es) m = Some k" using assms by (intro map_of_is_SomeI) (force simp: comp_def)+
  then show ?thesis by (simp add: key_of_def)
qed

lemma fire_one:
  assumes t: "tally opt n es acc a" and d: "distinct (map snd es)" and km: "(k, m) \<in> set es" "k \<notin> fst ` set acc"
  shows "await_fire True m y a = async_waiting_callback True (callback_for (k, m)) y a"
proof -
  obtain as bs where es: "es = as @ (k, m) # bs" using km(1) by (auto simp: in_set_conv_decomp)
  have "snd x \<noteq> m" if "x \<in> set as \<union> set bs" for x using d that by (force simp: es)
  then have "filter (\<lambda>x. fst x \<notin> fst ` set acc \<and> snd x = m) as = []" "filter (\<lambda>x. fst x \<notin> fst ` set acc \<and> snd x = m) bs = []"
    by (auto simp: filter_empty_conv)
  then have "filter (\<lambda>cb. cb_event cb = m) (aw_callbacks a) = [callback_for (k, m)]"
    using t km(2) by (simp add: tally_def es filter_map comp_def)
  then show ?thesis by (simp add: await_fire_def)
qed

lemma finished_more: "finished_with opt n acc \<Longrightarrow> finished_with opt n (acc @ acc')"
  by (auto simp: finished_with_def Let_def)

lemma finished_failure:
  "ao_ignore_errors opt \<Longrightarrow> finished_with opt n (acc @ [(k, Inr x)]) \<longleftrightarrow> finished_with opt n acc \<or> n \<noteq> 0 \<and> n \<le> length acc + 1"
  by (auto simp: finished_with_def Let_def)

lemma fire_all_tally:
  assumes t: "tally opt n es acc a" "\<not> aw_resumed a" "\<not> finished_with opt n acc" "\<not> aw_replaying a" and d: "distinct (map snd es)"
    and fs: "distinct (map fst fs)" "\<forall>m \<in> fst ` set fs. \<exists>k. (k, m) \<in> set es \<and> k \<notin> fst ` set acc"
  shows "tally opt n es (acc @ fired es fs) (fire_all fs a) \<and> \<not> aw_replaying (fire_all fs a) \<and>
    (aw_resumed (fire_all fs a) \<longleftrightarrow>
      finished_with opt n (acc @ fired es fs) \<or> \<not> ao_ignore_errors opt \<and> failures (fired es fs) \<noteq> []) \<and>
    (aw_error (fire_all fs a) = None \<longleftrightarrow> aw_error a = None \<and> (ao_ignore_errors opt \<or> failures (fired es fs) = []))"
  using fs
proof (induction fs rule: rev_induct)
  case Nil
  then show ?case using t by (simp add: fired_def fire_all_def)
next
  case (snoc f fs)
  obtain m y where f: "f = (m, y)" by fastforce
  define b where "b = fire_all fs a"
  have ih: "tally opt n es (acc @ fired es fs) b" "\<not> aw_replaying b"
    "aw_resumed b \<longleftrightarrow> finished_with opt n (acc @ fired es fs) \<or> \<not> ao_ignore_errors opt \<and> failures (fired es fs) \<noteq> []"
    "aw_error b = None \<longleftrightarrow> aw_error a = None \<and> (ao_ignore_errors opt \<or> failures (fired es fs) = [])"
    using snoc by (simp_all add: b_def)
  obtain k where k: "(k, m) \<in> set es" "k \<notin> fst ` set acc" using snoc.prems(2) f by auto
  have key: "key_of es m = k" using key_of_mem [OF d k(1)] .
  have "k \<notin> fst ` set (fired es fs)"
  proof
    assume "k \<in> fst ` set (fired es fs)"
    then obtain m' where m': "m' \<in> fst ` set fs" "key_of es m' = k" by (force simp: fired_def)
    then obtain k' where k': "(k', m') \<in> set es" using snoc.prems(2) by auto
    then have "k' = k" using key_of_mem [OF d k'] m'(2) by simp
    moreover have "distinct (map fst es)" using t(1) by (simp add: tally_def)
    ultimately have "m' = m" using k' k(1) by (meson eq_key_imp_eq_value)
    then show False using m'(1) snoc.prems(1) f by auto
  qed
  then have new: "k \<notin> fst ` set (acc @ fired es fs)" using k(2) by auto
  have step: "fire_all (fs @ [f]) a = async_waiting_callback True (callback_for (k, m)) y b"
    using fire_one [OF ih(1) d k(1) new] by (simp add: fire_all_def b_def f)
  have app: "acc @ fired es (fs @ [f]) = (acc @ fired es fs) @ [(k, y)]" by (simp add: fired_def f key)
  have fl: "failures (fired es (fs @ [f])) = failures (fired es fs) @ failures [(k, y)]" by (simp add: fired_def f key)
  note o = outcome_tally [OF ih(1) k(1) new step]
  have "tally opt n es (acc @ fired es (fs @ [f])) (fire_all (fs @ [f]) a)" "\<not> aw_replaying (fire_all (fs @ [f]) a)"
    using o(2,5) ih(2) unfolding app by simp_all
  moreover have "aw_resumed (fire_all (fs @ [f]) a) \<longleftrightarrow>
      finished_with opt n (acc @ fired es (fs @ [f])) \<or> \<not> ao_ignore_errors opt \<and> failures (fired es (fs @ [f])) \<noteq> []"
    using o(3) ih(3) finished_failure [of opt n "acc @ fired es fs" k] finished_more [of opt n "acc @ fired es fs" "[(k, y)]"]
    unfolding app fl by (cases y) (auto simp: resumes_on_def)
  moreover have "aw_error (fire_all (fs @ [f]) a) = None \<longleftrightarrow>
      aw_error a = None \<and> (ao_ignore_errors opt \<or> failures (fired es (fs @ [f])) = [])"
    using o(4) ih(4) unfolding fl by (cases y) auto
  ultimately show ?case by blast
qed

subsection \<open>The beginning\<close>

lemma new_context_tally:
  "tally opt n [] [] \<lparr>aw_context = new_await_context opt n, aw_callbacks = [], aw_replaying = True, aw_resumed = False, aw_error = None, aw_null_resumed = False\<rparr>"
  by (simp add: tally_def context_books_def new_await_context_def result_items_def zend_new_array_def)

text \<open>
  Elements that can be awaited: every key once, no invalid element, every event once, and at most one
  failure at the start where errors are not ignored.
\<close>

definition elements_ok :: "(nat \<Rightarrow> 'v event_info) \<Rightarrow> await_options \<Rightarrow> (await_key \<times> element_kind) list \<Rightarrow> bool" where
  "elements_ok ev opt els \<longleftrightarrow> one_failure opt False (replayed ev (awaited els)) \<and>
     distinct (map fst els) \<and> Key_null \<notin> fst ` set els \<and> Elem_invalid \<notin> snd ` set els \<and> distinct (map snd (awaited els)) \<and>
     list_all (\<lambda>(k, m). ei_has_value (ev m)) (awaited els)"

lemma awaited_keys: "fst ` set (awaited els) \<subseteq> fst ` set els"
  by (force simp: awaited_def split: element_kind.splits)

lemma awaited_distinct: "distinct (map fst els) \<Longrightarrow> distinct (map fst (awaited els))"
proof (induction els)
  case (Cons x els)
  then show ?case using awaited_keys [of els] by (cases x) (auto simp: awaited_Cons split: element_kind.splits)
qed (simp add: awaited_def)

lemma awaited_length: "length (awaited els) + length (filter (\<lambda>x. snd x = Elem_null \<or> snd x = Elem_invalid) els) = length els"
  by (induction els) (auto simp: awaited_def split: element_kind.splits)

text \<open>A wait that suspends has seen every element, and is not finished by what was replayed.\<close>

lemma suspends_tally:
  assumes ok: "elements_ok ev opt els" and s: "async_await_futures ev opt els = Wait_suspends a"
  shows "tally opt (length els) (awaited els) (replayed ev (awaited els)) a" "\<not> aw_resumed a"
    "\<not> finished_with opt (length els) (replayed ev (awaited els))" "\<not> aw_replaying a"
    "aw_error a = None \<longleftrightarrow> ao_ignore_errors opt \<or> failures (replayed ev (awaited els)) = []"
proof -
  define a0 :: "'a awaiting" where
    "a0 = \<lparr>aw_context = new_await_context opt (length els), aw_callbacks = [], aw_replaying = True, aw_resumed = False, aw_error = None, aw_null_resumed = False\<rparr>"
  have t0: "tally opt (length els) [] [] a0" "aw_error a0 = None" "\<not> aw_resumed a0" by (simp_all add: a0_def new_context_tally)
  have k: "distinct (map fst ([] @ awaited els))" "Key_null \<notin> fst ` set (awaited els)"
    using ok awaited_distinct awaited_keys [of els] by (auto simp: elements_ok_def)
  define r where "r = await_array_loop ev els a0"
  have l: "loop_result ev opt (length els) [] [] (awaited els) (aw_error a0 = None) r"
    unfolding r_def using ok k array_loop_tally [where ev = ev and els = els, OF t0(1)] t0(3) by (simp add: elements_ok_def)
  then have "r = (fst r, False)" by (simp add: loop_result_def prod_eq_iff)
  then have a: "a = (fst r)\<lparr>aw_replaying := False, aw_resumed := False\<rparr>" "\<not> AWAIT_ITERATOR_IS_FINISHED (aw_context (fst r))"
    using s unfolding async_await_futures_def a0_def [symmetric] r_def [symmetric]
    by (simp_all split: if_splits prod.splits bool.splits)
  have t: "tally opt (length els) (awaited els) (replayed ev (awaited els)) (fst r)"
    "aw_error (fst r) = None \<longleftrightarrow> ao_ignore_errors opt \<or> failures (replayed ev (awaited els)) = []"
    using l a(2) t0(2) by (simp_all add: loop_result_def)
  then show "tally opt (length els) (awaited els) (replayed ev (awaited els)) a" "\<not> aw_resumed a" "\<not> aw_replaying a"
    "aw_error a = None \<longleftrightarrow> ao_ignore_errors opt \<or> failures (replayed ev (awaited els)) = []"
    using a by (simp_all add: tally_def)
  show "\<not> finished_with opt (length els) (replayed ev (awaited els))"
    using t(1) a(2) finished_tally unfolding tally_def by blast
qed

text \<open>The events that are settled while the coroutine waits: open ones among the elements, each once.\<close>

definition settles_open :: "(nat \<Rightarrow> 'v event_info) \<Rightarrow> (await_key \<times> element_kind) list \<Rightarrow> (nat \<times> ('v + throwable)) list \<Rightarrow> bool" where
  "settles_open ev els fs \<longleftrightarrow>
     distinct (map fst fs) \<and> list_all (\<lambda>(m, y). m \<in> snd ` set (awaited els) \<and> ei_outcome (ev m) = None) fs"

lemma wait_run:
  assumes ok: "elements_ok ev opt els" and s: "async_await_futures ev opt els = Wait_suspends a" and fs: "settles_open ev els fs"
  shows "tally opt (length els) (awaited els) (replayed ev (awaited els) @ fired (awaited els) fs) (fire_all fs a) \<and>
    \<not> aw_replaying (fire_all fs a) \<and>
    (aw_resumed (fire_all fs a) \<longleftrightarrow>
      finished_with opt (length els) (replayed ev (awaited els) @ fired (awaited els) fs) \<or>
      \<not> ao_ignore_errors opt \<and> failures (fired (awaited els) fs) \<noteq> []) \<and>
    (aw_error (fire_all fs a) = None \<longleftrightarrow> aw_error a = None \<and> (ao_ignore_errors opt \<or> failures (fired (awaited els) fs) = []))"
proof -
  note t = suspends_tally [OF ok s]
  have d: "distinct (map fst (awaited els))" using t(1) by (simp add: tally_def)
  have "\<exists>k. (k, m) \<in> set (awaited els) \<and> k \<notin> fst ` set (replayed ev (awaited els))" if m: "m \<in> fst ` set fs" for m
  proof -
    obtain k where k: "(k, m) \<in> set (awaited els)" "ei_outcome (ev m) = None"
      using m fs by (force simp: settles_open_def list_all_iff)
    have "m' = m" if "(k, m') \<in> set (awaited els)" for m' using eq_key_imp_eq_value [OF d that k(1)] .
    then have "k \<notin> fst ` set (replayed ev (awaited els))" using k(2) by (force simp: replayed_def split: option.splits)
    then show ?thesis using k(1) by blast
  qed
  then show ?thesis using fire_all_tally [OF t(1-4)] ok fs by (simp add: elements_ok_def settles_open_def)
qed

subsection \<open>Results\<close>

text \<open>What is returned for the outcomes \<open>acc\<close>, in the order of their arrival.\<close>

definition returned :: "await_options \<Rightarrow> (await_key \<times> nat) list \<Rightarrow> (await_key \<times> ('v + throwable)) list \<Rightarrow> (await_key \<times> 'v slot) list" where
  "returned opt es acc =
     (if ao_fill_missing_with_null opt then map (\<lambda>(k, m). (k, slot_of True (map_of acc k))) es
      else if ao_preserve_key_order opt
        then concat (map (\<lambda>(k, m). case map_of acc k of Some (Inl v) \<Rightarrow> [(k, Slot_value v)] | _ \<Rightarrow> []) es)
      else map (\<lambda>(k, v). (k, Slot_value v)) (successes acc))"

lemma results_tally:
  assumes "tally opt n es acc a"
  shows "await_results a = returned opt es acc" "await_errors a = (if ao_errors opt then failures acc else [])"
proof -
  obtain t where t: "ac_results (aw_context a) = Some t" "ht_items t = result_items opt es acc"
    using assms by (auto simp: tally_def context_books_def)
  have flags: "ac_preserve_key_order (aw_context a) = ao_preserve_key_order opt"
    "ac_fill_missing_with_null (aw_context a) = ao_fill_missing_with_null opt"
    using assms by (simp_all add: tally_def context_books_def)
  show "await_errors a = (if ao_errors opt then failures acc else [])"
    using assms by (auto simp: tally_def context_books_def await_errors_def split: if_splits)
  show "await_results a = returned opt es acc"
  proof (cases "ao_preserve_key_order opt \<and> \<not> ao_fill_missing_with_null opt")
    case True
    define xs where "xs = filter (\<lambda>(k, v). v \<noteq> Slot_undefined) (result_items opt es acc)"
    have "distinct (map fst (result_items opt es acc))"
      using assms True by (simp add: result_items_def tally_def comp_def split_def)
    then have "distinct (map fst xs)" by (simp add: xs_def distinct_map_filter)
    then have "await_results a = xs"
      using t flags True fold_update_distinct [of zend_new_array xs] by (simp add: await_results_def xs_def zend_new_array_def)
    also have "xs = returned opt es acc"
      using True unfolding xs_def result_items_def returned_def
      by (induction es) (auto simp: slot_of_def split: option.splits sum.splits)
    finally show ?thesis .
  next
    case False
    then show ?thesis using t flags by (auto simp: await_results_def result_items_def returned_def)
  qed
qed

text \<open>There is no more than one outcome for an awaited element.\<close>

lemma tally_length:
  assumes "tally opt n es acc a"
  shows "length acc \<le> length es"
proof -
  have "length acc = card (fst ` set acc)"
    using assms distinct_card [of "map fst acc"] by (simp add: tally_def)
  also have "\<dots> \<le> card (fst ` set es)" using assms by (simp add: tally_def card_mono)
  also have "\<dots> \<le> length es" using card_length [of "map fst es"] by simp
  finally show ?thesis .
qed

lemma successes_length: "length (successes acc) \<le> length acc"
  by (induction acc) (auto simp: successes_def split: sum.splits)

text \<open>A wait for all of \<open>n\<close> elements is finished when there are \<open>n\<close> outcomes.\<close>

lemma finished_with_all:
  assumes "ao_count opt \<le> 0" "n \<noteq> 0"
  shows "finished_with opt n acc \<longleftrightarrow> n \<le> length acc"
  using assms successes_length [of acc] by (auto simp: finished_with_def Let_def)

lemma finished_all_iff:
  assumes ok: "elements_ok ev opt els" "Elem_null \<notin> snd ` set els" and all: "ao_count opt \<le> 0"
    and s: "async_await_futures ev opt els = Wait_suspends a" and fs: "settles_open ev els fs"
  shows "finished_with opt (length els) (replayed ev (awaited els) @ fired (awaited els) fs) \<longleftrightarrow>
    length (replayed ev (awaited els) @ fired (awaited els) fs) = length els"
proof -
  have "filter (\<lambda>x. snd x = Elem_null \<or> snd x = Elem_invalid) els = []"
    using ok by (force simp: elements_ok_def filter_empty_conv)
  then have "length (awaited els) = length els" using awaited_length [of els] by simp
  then have "length (replayed ev (awaited els) @ fired (awaited els) fs) \<le> length els"
    using wait_run [OF ok(1) s fs] tally_length by fastforce
  moreover have "els \<noteq> []" using s by (auto simp: async_await_futures_def)
  ultimately show ?thesis
    using finished_with_all [OF all, of "length els" "replayed ev (awaited els) @ fired (awaited els) fs"] by auto
qed

text \<open>Waiting for all elements, with any of the options.\<close>

lemma await_all_collects:
  assumes ok: "elements_ok ev opt els" "Elem_null \<notin> snd ` set els" and all: "ao_count opt \<le> 0"
    and s: "async_await_futures ev opt els = Wait_suspends a" and fs: "settles_open ev els fs"
    and fine: "ao_ignore_errors opt \<or> failures (replayed ev (awaited els) @ fired (awaited els) fs) = []"
  shows "(aw_resumed (fire_all fs a) \<longleftrightarrow> length (replayed ev (awaited els)) + length fs = length els) \<and>
    aw_error (fire_all fs a) = None \<and>
    await_results (fire_all fs a) = returned opt (awaited els) (replayed ev (awaited els) @ fired (awaited els) fs) \<and>
    await_errors (fire_all fs a) =
      (if ao_errors opt then failures (replayed ev (awaited els) @ fired (awaited els) fs) else [])"
proof -
  let ?acc = "replayed ev (awaited els) @ fired (awaited els) fs"
  note r = wait_run [OF ok(1) s fs]
  have "finished_with opt (length els) ?acc \<longleftrightarrow> length ?acc = length els" by (rule finished_all_iff [OF ok all s fs])
  then have "aw_resumed (fire_all fs a) \<longleftrightarrow> length (replayed ev (awaited els)) + length fs = length els"
    using r fine by (auto simp: fired_def)
  moreover have "aw_error (fire_all fs a) = None" using r fine suspends_tally(5) [OF ok(1) s] by auto
  ultimately show ?thesis using results_tally r by blast
qed

subsection \<open>The functions\<close>

definition demo_events :: "nat \<Rightarrow> nat event_info" where
  "demo_events m = \<lparr>ei_outcome = (if m = 1 then Some (Inl 5) else None), ei_has_value = True, ei_coroutine = False\<rparr>"

definition demo_failure :: throwable where
  "demo_failure = \<lparr>th_cancellation = False, th_id = 3\<rparr>"

definition demo_elements :: "(await_key \<times> element_kind) list" where
  "demo_elements = [(Key_string ''a'', Elem_event 0), (Key_string ''b'', Elem_event 1), (Key_index 7, Elem_event 2)]"

definition the_suspended :: "'v await_decision \<Rightarrow> 'v awaiting option" where
  "the_suspended d = (case d of Wait_suspends a \<Rightarrow> Some a | _ \<Rightarrow> None)"

lemma the_suspendedD: "the_suspended d = Some a \<Longrightarrow> d = Wait_suspends a"
  by (simp add: the_suspended_def split: await_decision.splits)

lemmas demo_simps = demo_events_def demo_elements_def demo_failure_def awaited_def replayed_def fired_def key_of_def
  elements_ok_def one_failure_def settles_open_def successes_def failures_def

text \<open>
  C37.  \<^verbatim>\<open>await_all\<close> on an array: the coroutine that suspends is resumed by the last element that is settled and
  by none before, in whatever order they are settled and whether they fail or not; it returns
  exactly the values under their keys, in the order of the elements or of their arrival as was
  asked for, and exactly the errors under theirs.
\<close>

theorem await_all_returns:
  assumes ok: "elements_ok ev (await_all_options preserve fill) els" "Elem_null \<notin> snd ` set els"
    and s: "async_await_futures ev (await_all_options preserve fill) els = Wait_suspends a" and fs: "settles_open ev els fs"
  shows "(aw_resumed (fire_all fs a) \<longleftrightarrow> length (replayed ev (awaited els)) + length fs = length els) \<and>
    await_all (fire_all fs a) =
      Inl (returned (await_all_options preserve fill) (awaited els) (replayed ev (awaited els) @ fired (awaited els) fs),
           failures (replayed ev (awaited els) @ fired (awaited els) fs))"
  using await_all_collects [OF ok _ s fs] by (simp add: await_all_options_def await_all_def)

theorem await_all_returns_witness:
  "\<exists>a. the_suspended (async_await_futures demo_events (await_all_options True False) demo_elements) = Some a \<and>
     aw_resumed (fire_all [(2, Inl 8), (0, Inr demo_failure)] a) \<and>
     await_all (fire_all [(2, Inl 8), (0, Inr demo_failure)] a) =
       Inl ([(Key_string ''b'', Slot_value 5), (Key_index 7, Slot_value 8)], [(Key_string ''a'', demo_failure)])"
proof -
  have "\<not> Option.is_none (the_suspended (async_await_futures demo_events (await_all_options True False) demo_elements))" by code_simp
  then obtain a where a: "the_suspended (async_await_futures demo_events (await_all_options True False) demo_elements) = Some a"
    by (auto simp: Option.is_none_def)
  have "elements_ok demo_events (await_all_options True False) demo_elements" "Elem_null \<notin> snd ` set demo_elements"
    "settles_open demo_events demo_elements [(2, Inl 8), (0, Inr demo_failure)]"
    by (simp_all add: demo_simps)
  from await_all_returns [OF this(1,2) the_suspendedD [OF a] this(3)] show ?thesis
    using a by (simp add: demo_simps returned_def await_all_options_def)
qed

text \<open>
  C38.  \<^verbatim>\<open>await_all_or_fail\<close> on an array: while it is suspended, the coroutine is resumed by the first failure, and
  otherwise by the last element; without a failure it returns a value for every element, in the order
  of the elements, and with one it throws.
\<close>

theorem await_all_or_fail_returns:
  assumes ok: "elements_ok ev (await_all_or_fail_options preserve) els" "Elem_null \<notin> snd ` set els"
    and s: "async_await_futures ev (await_all_or_fail_options preserve) els = Wait_suspends a" and fs: "settles_open ev els fs"
  shows "(aw_resumed (fire_all fs a) \<longleftrightarrow>
      length (replayed ev (awaited els)) + length fs = length els \<or> failures (fired (awaited els) fs) \<noteq> []) \<and>
    (if failures (replayed ev (awaited els) @ fired (awaited els) fs) = []
     then await_all_or_fail (fire_all fs a) =
       Inl (map (\<lambda>(k, m). (k, slot_of True (map_of (replayed ev (awaited els) @ fired (awaited els) fs) k))) (awaited els))
     else (\<exists>x. await_all_or_fail (fire_all fs a) = Inr x))"
proof -
  let ?opt = "await_all_or_fail_options preserve"
  let ?acc = "replayed ev (awaited els) @ fired (awaited els) fs"
  note r = wait_run [OF ok(1) s fs] and e = suspends_tally(5) [OF ok(1) s]
  have opt: "ao_count ?opt \<le> 0" "\<not> ao_ignore_errors ?opt" "ao_fill_missing_with_null ?opt"
    by (simp_all add: await_all_or_fail_options_def)
  have fin: "finished_with ?opt (length els) ?acc \<longleftrightarrow> length (replayed ev (awaited els)) + length fs = length els"
    using finished_all_iff [OF ok opt(1) s fs] by (simp add: fired_def)
  have err: "aw_error (fire_all fs a) = None \<longleftrightarrow> failures ?acc = []" using r e opt(2) by auto
  have "await_results (fire_all fs a) = returned ?opt (awaited els) ?acc" using results_tally r by blast
  then show ?thesis using r fin err opt by (auto simp: await_all_or_fail_def returned_def)
qed

theorem await_all_or_fail_returns_witness:
  "\<exists>a. the_suspended (async_await_futures demo_events (await_all_or_fail_options True) demo_elements) = Some a \<and>
     \<not> aw_resumed (fire_all [(2, Inl 8)] a) \<and>
     await_all_or_fail (fire_all [(2, Inl 8)] a) =
       Inl [(Key_string ''a'', Slot_null), (Key_string ''b'', Slot_value 5), (Key_index 7, Slot_value 8)]"
proof -
  have "\<not> Option.is_none (the_suspended (async_await_futures demo_events (await_all_or_fail_options True) demo_elements))" by code_simp
  then obtain a where a: "the_suspended (async_await_futures demo_events (await_all_or_fail_options True) demo_elements) = Some a"
    by (auto simp: Option.is_none_def)
  have "elements_ok demo_events (await_all_or_fail_options True) demo_elements" "Elem_null \<notin> snd ` set demo_elements"
    "settles_open demo_events demo_elements [(2, Inl 8)]"
    by (simp_all add: demo_simps)
  from await_all_or_fail_returns [OF this(1,2) the_suspendedD [OF a] this(3)] show ?thesis
    using a by (simp add: demo_simps slot_of_def)
qed

text \<open>
  C39.  In general a suspended wait is resumed exactly when enough elements are settled (successfully,
  if errors are ignored) or all of them, or when one fails and errors are not ignored.
\<close>

theorem await_resumes_exactly:
  assumes "elements_ok ev opt els" "async_await_futures ev opt els = Wait_suspends a" "settles_open ev els fs"
  shows "aw_resumed (fire_all fs a) \<longleftrightarrow>
    finished_with opt (length els) (replayed ev (awaited els) @ fired (awaited els) fs) \<or>
    \<not> ao_ignore_errors opt \<and> failures (fired (awaited els) fs) \<noteq> []"
  using wait_run [OF assms] by blast

theorem await_resumes_exactly_witness:
  "\<exists>a. the_suspended (async_await_futures demo_events (await_any_of_options 2 True False) demo_elements) = Some a \<and>
     \<not> aw_resumed (fire_all [(0, Inr demo_failure)] a)"
proof -
  have "\<not> Option.is_none (the_suspended (async_await_futures demo_events (await_any_of_options 2 True False) demo_elements))" by code_simp
  then obtain a where a: "the_suspended (async_await_futures demo_events (await_any_of_options 2 True False) demo_elements) = Some a"
    by (auto simp: Option.is_none_def)
  have "elements_ok demo_events (await_any_of_options 2 True False) demo_elements" "settles_open demo_events demo_elements [(0, Inr demo_failure)]"
    by (simp_all add: demo_simps)
  from await_resumes_exactly [OF this(1) the_suspendedD [OF a] this(2)] show ?thesis
    using a by (simp add: demo_simps finished_with_def await_any_of_options_def int_of_long_def)
qed

text \<open>\<^verbatim>\<open>await_any_or_fail\<close> on an array: the first element that is settled resumes the coroutine, which returns its value or throws its error.\<close>

lemma callback_error:
  assumes "cb_coroutine cb" "\<not> ac_ignore_errors (aw_context a)" "aw_error a = None"
  shows "aw_error (async_waiting_callback hv cb (Inr x) a) = Some x"
  using assms by (simp add: async_waiting_callback_def Let_def note_resolved_def await_resume_def async_waiting_callback_dispose_def)

lemma await_any_or_fail_returns:
  assumes ok: "elements_ok ev await_any_or_fail_options els"
    and s: "async_await_futures ev await_any_or_fail_options els = Wait_suspends a" and fs: "settles_open ev els [(m, y)]"
  shows "aw_resumed (fire_all [(m, y)] a) \<and>
    await_any_or_fail (fire_all [(m, y)] a) = (case y of Inl v \<Rightarrow> Inl (Slot_value v) | Inr x \<Rightarrow> Inr x)"
proof -
  let ?opt = await_any_or_fail_options
  have opt: "ao_count ?opt = 1" "\<not> ao_ignore_errors ?opt" "\<not> ao_fill_missing_with_null ?opt" "\<not> ao_preserve_key_order ?opt"
    by (simp_all add: await_any_or_fail_options_def)
  note t = suspends_tally [OF ok s] and r = wait_run [OF ok s fs]
  have none: "replayed ev (awaited els) = []" using t(3) opt by (auto simp: finished_with_def Let_def Suc_le_eq)
  obtain k where k: "fired (awaited els) [(m, y)] = [(k, y)]" by (simp add: fired_def)
  have "finished_with ?opt (length els) [(k, y)]" using opt by (simp add: finished_with_def Let_def)
  then have resumed: "aw_resumed (fire_all [(m, y)] a)" using r by (simp add: none k)
  have start: "aw_error a = None" using t(5) by (simp add: none)
  show ?thesis
  proof (cases y)
    case (Inl v)
    have "await_results (fire_all [(m, y)] a) = [(k, Slot_value v)]"
      using results_tally(1) [OF conjunct1 [OF r]] opt k by (simp add: none Inl returned_def)
    moreover have "aw_error (fire_all [(m, y)] a) = None" using r start k by (simp add: Inl)
    ultimately show ?thesis using resumed by (simp add: await_any_or_fail_def first_result_def Inl)
  next
    case (Inr x)
    obtain k' where km: "(k', m) \<in> set (awaited els)" using fs by (auto simp: settles_open_def)
    have "fire_all [(m, y)] a = async_waiting_callback True (callback_for (k', m)) y a"
      using fire_one [OF t(1) _ km, of y] ok by (simp add: none fire_all_def elements_ok_def)
    moreover have "\<not> ac_ignore_errors (aw_context a)" using t(1) opt(2) by (simp add: tally_def context_books_def)
    ultimately have "aw_error (fire_all [(m, y)] a) = Some x" using callback_error [of "callback_for (k', m)" a True x] start by (simp add: Inr)
    then show ?thesis using resumed by (simp add: await_any_or_fail_def Inr)
  qed
qed

subsection \<open>Elements that are counted but not awaited, and failures found at the start\<close>

text \<open>
  A null among the elements is skipped but counted: none of its callbacks resumes a suspended wait
  for all elements, even when every awaited event is settled.
\<close>

lemma null_element_never_resumes:
  assumes ok: "elements_ok ev opt els" "Elem_null \<in> snd ` set els" and all: "ao_count opt \<le> 0"
    and s: "async_await_futures ev opt els = Wait_suspends a" and fs: "settles_open ev els fs"
    and fine: "ao_ignore_errors opt \<or> failures (fired (awaited els) fs) = []"
  shows "\<not> aw_resumed (fire_all fs a)"
proof -
  let ?acc = "replayed ev (awaited els) @ fired (awaited els) fs"
  note r = wait_run [OF ok(1) s fs]
  have "filter (\<lambda>x. snd x = Elem_null \<or> snd x = Elem_invalid) els \<noteq> []" using ok(2) by (force simp: filter_empty_conv)
  then have len: "length (awaited els) < length els"
    using awaited_length [of els] by (metis length_greater_0_conv less_add_same_cancel1)
  have "length ?acc < length els" using r tally_length len by fastforce
  then have "\<not> finished_with opt (length els) ?acc" using finished_with_all [OF all, of "length els" ?acc] len by force
  then show ?thesis using r fine by blast
qed

text \<open>
  An element that has failed before the wait begins does not end a wait that fails on errors: the
  error is pending, but the coroutine suspends as long as the wait is not finished and an event is open.
\<close>

lemma failed_element_waits_for_rest:
  assumes "elements_ok ev opt els" "async_await_futures ev opt els = Wait_suspends a"
    and "\<not> ao_ignore_errors opt" "failures (replayed ev (awaited els)) \<noteq> []"
  shows "aw_error a \<noteq> None \<and> \<not> aw_resumed a"
  using suspends_tally(2,5) [OF assms(1,2)] assms(3,4) by blast

definition failed_events :: "nat \<Rightarrow> nat event_info" where
  "failed_events m = \<lparr>ei_outcome = (if m = 1 then Some (Inr demo_failure) else None), ei_has_value = True, ei_coroutine = False\<rparr>"

lemma failed_element_waits_for_rest_example:
  "map_option aw_error (the_suspended (async_await_futures failed_events (await_all_or_fail_options True) demo_elements)) =
     Some (Some demo_failure)"
  by code_simp

text \<open>
  A second element that has failed before gives up the callbacks registered so far: here element 0 is
  open, but nothing waits for it any more, and when element 3 is settled the coroutine is not resumed.
\<close>

definition twice_failed_events :: "nat \<Rightarrow> nat event_info" where
  "twice_failed_events m =
     \<lparr>ei_outcome = (if m = 1 \<or> m = 2 then Some (Inr demo_failure) else None), ei_has_value = True, ei_coroutine = False\<rparr>"

lemma second_failure_drops_callbacks:
  "map_option (\<lambda>a. (map cb_event (aw_callbacks a), aw_resumed (fire_all [(3, Inl 1), (0, Inl 1)] a)))
     (the_suspended (async_await_futures twice_failed_events (await_all_or_fail_options True)
       (map (\<lambda>m. (Key_index (int m), Elem_event m)) [0, 1, 2, 3]))) = Some ([3], False)"
  by code_simp

end
