(* ===== verification/Await_Iteration.thy ===== *)
theory Await_Iteration
  imports Await_Properties
begin

text \<open>
  What the counters of a wait say where elements arrive or are awaited late: the elements of an
  iterator arrive one by one, while earlier ones are settled, and their number is computed at the end
  of the iteration; and the wait at the end for the coroutines that still run.
\<close>

subsection \<open>The iteration\<close>

text \<open>An element that the iterator hands out, open or closed with an outcome, or an event that is settled.\<close>

datatype 'v iteration_step = Step_element await_key nat "('v + throwable) option" | Step_settles nat "'v + throwable"

definition element_info :: "('v + throwable) option \<Rightarrow> 'v event_info" where
  "element_info y = \<lparr>ei_outcome = y, ei_has_value = True, ei_coroutine = False\<rparr>"

definition iteration_step :: "'v iteration_step \<Rightarrow> 'v awaiting \<Rightarrow> 'v awaiting" where
  "iteration_step s a =
     (case s of
        Step_element k m y \<Rightarrow> fst (await_iterator_handler (\<lambda>_. element_info y) k (Elem_event m) a)
      | Step_settles m y \<Rightarrow> await_fire True m y a)"

definition iterator_start :: "await_options \<Rightarrow> 'v awaiting" where
  "iterator_start opt =
     \<lparr>aw_context = new_await_context opt 0, aw_callbacks = [], aw_replaying = False, aw_resumed = False, aw_error = None, aw_null_resumed = False\<rparr>"

definition waiting_for :: "nat \<Rightarrow> 'v awaiting \<Rightarrow> nat" where
  "waiting_for m a = length (filter (\<lambda>cb. cb_event cb = m) (aw_callbacks a))"

text \<open>How many of the elements are settled after they were registered, and before the iteration ends.\<close>

primrec settled_early :: "'v iteration_step list \<Rightarrow> 'v awaiting \<Rightarrow> nat" where
  "settled_early [] a = 0"
| "settled_early (s # ss) a =
     (case s of Step_settles m y \<Rightarrow> waiting_for m a | _ \<Rightarrow> 0) + settled_early ss (iteration_step s a)"

subsection \<open>Counting\<close>

lemma fold_remove1_filter:
  "list_all (\<lambda>x. \<not> P x) as \<Longrightarrow> fold remove1 (filter P xs) (as @ xs) = as @ filter (\<lambda>x. \<not> P x) xs"
proof (induction xs arbitrary: as)
  case (Cons x xs)
  show ?case
  proof (cases "P x")
    case True
    then have "x \<notin> set as" using Cons.prems by (auto simp: list_all_iff)
    then show ?thesis using Cons True by (simp add: remove1_append)
  next
    case False
    then show ?thesis using Cons.IH [of "as @ [x]"] Cons.prems by simp
  qed
qed simp

lemma fold_remove1_all: "fold remove1 (filter P xs) xs = filter (\<lambda>x. \<not> P x) xs"
  using fold_remove1_filter [of P "[]" xs] by simp

text \<open>A callback counts itself and leaves its event, whatever the outcome.\<close>

lemma callback_counts:
  "ac_resolved_count (aw_context (async_waiting_callback hv cb y a)) = Suc (ac_resolved_count (aw_context a))"
  "ac_futures_count (aw_context (async_waiting_callback hv cb y a)) = ac_futures_count (aw_context a)"
  "ac_total (aw_context (async_waiting_callback hv cb y a)) = ac_total (aw_context a)"
  "ac_waiting_count (aw_context (async_waiting_callback hv cb y a)) = ac_waiting_count (aw_context a)"
  "aw_replaying (async_waiting_callback hv cb y a) = aw_replaying a"
  "\<not> aw_replaying a \<Longrightarrow> aw_callbacks (async_waiting_callback hv cb y a) = remove1 cb (aw_callbacks a)"
  by (cases y; simp add: async_waiting_callback_def Let_def async_waiting_callback_dispose_def await_context_dtor_def note_resolved_def
      await_resume_def waker_clean_events_def)+

lemma fold_callback_counts:
  "ac_resolved_count (aw_context (fold (\<lambda>cb. async_waiting_callback hv cb y) cbs a)) = ac_resolved_count (aw_context a) + length cbs"
  "ac_futures_count (aw_context (fold (\<lambda>cb. async_waiting_callback hv cb y) cbs a)) = ac_futures_count (aw_context a)"
  "ac_total (aw_context (fold (\<lambda>cb. async_waiting_callback hv cb y) cbs a)) = ac_total (aw_context a)"
  "ac_waiting_count (aw_context (fold (\<lambda>cb. async_waiting_callback hv cb y) cbs a)) = ac_waiting_count (aw_context a)"
  "aw_replaying (fold (\<lambda>cb. async_waiting_callback hv cb y) cbs a) = aw_replaying a"
  "\<not> aw_replaying a \<Longrightarrow> aw_callbacks (fold (\<lambda>cb. async_waiting_callback hv cb y) cbs a) = fold remove1 cbs (aw_callbacks a)"
  by (induction cbs arbitrary: a) (simp_all add: callback_counts)

lemma fire_counts:
  "ac_resolved_count (aw_context (await_fire hv m y a)) = ac_resolved_count (aw_context a) + waiting_for m a"
  "ac_futures_count (aw_context (await_fire hv m y a)) = ac_futures_count (aw_context a)"
  "ac_total (aw_context (await_fire hv m y a)) = ac_total (aw_context a)"
  "ac_waiting_count (aw_context (await_fire hv m y a)) = ac_waiting_count (aw_context a)"
  "aw_replaying (await_fire hv m y a) = aw_replaying a"
  "\<not> aw_replaying a \<Longrightarrow> aw_callbacks (await_fire hv m y a) = filter (\<lambda>cb. cb_event cb \<noteq> m) (aw_callbacks a)"
  by (simp_all add: await_fire_def fold_callback_counts waiting_for_def fold_remove1_all)

lemma waiting_for_rest: "length (filter (\<lambda>cb. cb_event cb \<noteq> m) (aw_callbacks a)) + waiting_for m a = length (aw_callbacks a)"
  using sum_length_filter_compl [of "\<lambda>cb. cb_event cb = m" "aw_callbacks a"] by (simp add: waiting_for_def)

lemma placeholder_counts [simp]:
  "ac_resolved_count (add_placeholder k c) = ac_resolved_count c" "ac_futures_count (add_placeholder k c) = ac_futures_count c"
  "ac_total (add_placeholder k c) = ac_total c" "ac_waiting_count (add_placeholder k c) = ac_waiting_count c"
  by (simp_all add: add_placeholder_def)

definition books_open :: "nat \<Rightarrow> 'v awaiting \<Rightarrow> bool" where
  "books_open early a \<longleftrightarrow>
     ac_futures_count (aw_context a) = length (aw_callbacks a) + early \<and>
     ac_total (aw_context a) = 0 \<and> ac_waiting_count (aw_context a) = 0 \<and> early \<le> ac_resolved_count (aw_context a) \<and>
     \<not> aw_replaying a \<and> distinct (map cb_event (aw_callbacks a))"

lemma handler_books:
  assumes "books_open early a"
  shows "books_open early (iteration_step (Step_element k m y) a)"
proof (cases "m \<in> cb_event ` set (aw_callbacks a) \<or> y \<noteq> None")
  case True
  have new: "remove1 cb (aw_callbacks a) = aw_callbacks a" if "cb_event cb \<notin> cb_event ` set (aw_callbacks a)" for cb
    using that by (intro remove1_idem) auto
  show ?thesis using True assms
    by (auto simp: books_open_def iteration_step_def await_iterator_handler_def zval_to_event_def element_info_def Let_def
        callback_counts new split: option.splits)
next
  case False
  then show ?thesis using assms
    by (auto simp: books_open_def iteration_step_def await_iterator_handler_def zval_to_event_def element_info_def Let_def)
qed

lemma settles_books:
  assumes "books_open early a"
  shows "books_open (early + waiting_for m a) (iteration_step (Step_settles m y) a)"
  using assms waiting_for_rest [of m a]
  by (simp add: books_open_def iteration_step_def fire_counts distinct_map_filter)

lemma iteration_books:
  "books_open early a \<Longrightarrow> books_open (early + settled_early ss a) (fold iteration_step ss a)"
proof (induction ss arbitrary: early a)
  case (Cons s ss)
  show ?case
  proof (cases s)
    case (Step_element k m y)
    then show ?thesis using Cons.IH [OF handler_books [OF Cons.prems]] by simp
  next
    case (Step_settles m y)
    then show ?thesis using Cons.IH [OF settles_books [OF Cons.prems]] by (simp add: add.assoc)
  qed
qed simp

subsection \<open>The number of elements\<close>

lemma dispose_counts:
  "ac_total (aw_context (await_iterator_dispose x q a)) = ac_futures_count (aw_context a) + ac_resolved_count (aw_context a)"
  "ac_resolved_count (aw_context (await_iterator_dispose x q a)) = ac_resolved_count (aw_context a)"
  "ac_waiting_count (aw_context (await_iterator_dispose x q a)) = ac_waiting_count (aw_context a)"
  "aw_replaying (await_iterator_dispose x q a) = aw_replaying a"
  "\<not> aw_replaying a \<Longrightarrow> aw_callbacks (await_iterator_dispose x q a) = aw_callbacks a"
  by (cases x; simp add: await_iterator_dispose_def Let_def await_resume_def waker_clean_events_def)+

lemma fire_rest_counts:
  assumes "\<not> aw_replaying a"
  shows "\<not> aw_replaying (fire_all fs a)"
  "ac_total (aw_context (fire_all fs a)) = ac_total (aw_context a)"
  "ac_waiting_count (aw_context (fire_all fs a)) = ac_waiting_count (aw_context a)"
  "ac_resolved_count (aw_context (fire_all fs a)) + length (aw_callbacks (fire_all fs a)) =
     ac_resolved_count (aw_context a) + length (aw_callbacks a)"
  "aw_callbacks (fire_all fs a) = filter (\<lambda>cb. cb_event cb \<notin> fst ` set fs) (aw_callbacks a)"
proof (induction fs rule: rev_induct)
  case (snoc f fs)
  obtain m y where f: "f = (m, y)" by fastforce
  have step: "fire_all (fs @ [f]) a = await_fire True m y (fire_all fs a)" by (simp add: fire_all_def f)
  {
    case 1
    then show ?case using snoc by (simp add: step fire_counts)
  next
    case 2
    then show ?case using snoc by (simp add: step fire_counts)
  next
    case 3
    then show ?case using snoc by (simp add: step fire_counts)
  next
    case 4
    then show ?case using snoc(1,4) waiting_for_rest [of m "fire_all fs a"] by (simp add: step fire_counts)
  next
    case 5
    then show ?case using snoc(1,5) unfolding step by (simp add: fire_counts f conj_commute)
  }
qed (simp_all add: fire_all_def assms)

text \<open>
  C40.  Awaiting all elements of an iterator: an element that is settled after it was registered and
  before the iteration ends is counted twice.  When everything is settled, the wait counts as
  finished exactly when there is no such element.
\<close>

theorem iterator_wait_finished_iff:
  assumes "ao_count opt \<le> 0" "a = fold iteration_step ss (iterator_start opt)"
    and "cb_event ` set (aw_callbacks a) \<subseteq> fst ` set fs" "0 < ac_total (aw_context (await_iterator_dispose x q a))"
  shows "AWAIT_ITERATOR_IS_FINISHED (aw_context (fire_all fs (await_iterator_dispose x q a))) \<longleftrightarrow>
    settled_early ss (iterator_start opt :: 'v awaiting) = 0"
proof -
  have "books_open 0 (iterator_start opt :: 'v awaiting)"
    using assms(1) by (simp add: books_open_def iterator_start_def new_await_context_def)
  then have b: "books_open (settled_early ss (iterator_start opt)) a" using iteration_books [of 0] assms(2) by fastforce
  let ?b = "await_iterator_dispose x q a"
  have r: "\<not> aw_replaying a" "\<not> aw_replaying ?b" using b by (simp_all add: books_open_def dispose_counts)
  note c = fire_rest_counts [OF r(2), of fs]
  have none: "aw_callbacks (fire_all fs ?b) = []"
    using assms(3) r(1) by (auto simp: c(5) dispose_counts filter_empty_conv)
  have "ac_total (aw_context ?b) = ac_resolved_count (aw_context (fire_all fs ?b)) + settled_early ss (iterator_start opt)"
    using b c(4) none r(1) by (simp add: dispose_counts books_open_def)
  then show ?thesis using assms(4) b
    by (simp add: AWAIT_ITERATOR_IS_FINISHED_def c(2,3) dispose_counts(3) books_open_def)
qed

definition demo_iteration :: "nat iteration_step list" where
  "demo_iteration = [Step_element (Key_index 0) 4 None, Step_settles 4 (Inl 1), Step_element (Key_index 1) 5 None]"

theorem iterator_wait_finished_iff_witness:
  "\<not> AWAIT_ITERATOR_IS_FINISHED (aw_context (fire_all [(5, Inl 2)]
      (await_iterator_dispose None False (fold iteration_step demo_iteration (iterator_start (await_all_or_fail_options True))))))"
proof -
  let ?o = "await_all_or_fail_options True"
  let ?a = "fold iteration_step demo_iteration (iterator_start ?o)"
  have "cb_event ` set (aw_callbacks ?a) \<subseteq> fst ` set [(5, Inl 2 :: nat + throwable)]" by code_simp
  moreover have "0 < ac_total (aw_context (await_iterator_dispose None False ?a))" by code_simp
  moreover have "settled_early demo_iteration (iterator_start ?o) \<noteq> 0" by code_simp
  moreover have "ao_count ?o \<le> 0" by (simp add: await_all_or_fail_options_def)
  ultimately show ?thesis using iterator_wait_finished_iff [of ?o ?a demo_iteration "[(5, Inl 2)]" None False] by simp
qed

subsection \<open>A closed event\<close>

text \<open>
  The handler's callback has no coroutine yet when a closed event is replayed: a failure that is
  not ignored, or the last one that is, asks to resume no coroutine at all.
\<close>

lemma replayed_failure_resumes_null:
  assumes "m \<notin> cb_event ` set (aw_callbacks a)" "\<not> ac_ignore_errors (aw_context a)"
  shows "aw_null_resumed (iteration_step (Step_element k m (Some (Inr x))) a)"
  using assms
  by (simp add: iteration_step_def await_iterator_handler_def zval_to_event_def element_info_def Let_def async_waiting_callback_def
      note_resolved_def await_resume_def async_waiting_callback_dispose_def add_placeholder_def)

subsection \<open>The wait at the end\<close>

lemma cancellation_callback_counts:
  "ac_resolved_count (aw_context (async_waiting_cancellation_callback cb y a)) = Suc (ac_resolved_count (aw_context a))"
  "ac_total (aw_context (async_waiting_cancellation_callback cb y a)) = ac_total (aw_context a)"
  "aw_replaying (async_waiting_cancellation_callback cb y a) = aw_replaying a"
  "\<not> aw_replaying a \<Longrightarrow> aw_callbacks (async_waiting_cancellation_callback cb y a) = remove1 cb (aw_callbacks a)"
  "aw_resumed (async_waiting_cancellation_callback cb y a) \<Longrightarrow>
     aw_resumed a \<or> ac_total (aw_context a) \<le> Suc (ac_resolved_count (aw_context a))"
  by (simp_all add: async_waiting_cancellation_callback_def Let_def async_waiting_callback_dispose_def await_context_dtor_def
      note_resolved_def await_resume_def waker_clean_events_def split: if_splits)

text \<open>As long as the elements that are awaited at the end do not make up the number of all, none of them resumes.\<close>

definition end_short :: "nat \<Rightarrow> 'v awaiting \<Rightarrow> bool" where
  "end_short late a \<longleftrightarrow> ac_resolved_count (aw_context a) + late < ac_total (aw_context a) \<and> \<not> aw_resumed a \<and> \<not> aw_replaying a"

lemma end_callback_short:
  assumes "end_short (Suc late) a"
  shows "end_short late (async_waiting_cancellation_callback cb y a)"
  using assms cancellation_callback_counts(5) [of cb y a] by (auto simp: end_short_def cancellation_callback_counts(1-3))

lemma end_callbacks_short:
  "end_short (length cbs + late) a \<Longrightarrow> end_short late (fold (\<lambda>cb. async_waiting_cancellation_callback cb y) cbs a)"
proof (induction cbs arbitrary: a)
  case (Cons cb cbs)
  then show ?case using end_callback_short [of "length cbs + late" a cb y] by simp
qed simp

lemma end_callbacks_left:
  "\<not> aw_replaying a \<Longrightarrow> aw_callbacks (fold (\<lambda>cb. async_waiting_cancellation_callback cb y) cbs a) = fold remove1 cbs (aw_callbacks a)"
  by (induction cbs arbitrary: a) (simp_all add: cancellation_callback_counts)

lemma end_fire_short:
  assumes "end_short (length (aw_callbacks a)) a"
  shows "end_short (length (aw_callbacks (await_fire_end m y a))) (await_fire_end m y a)"
proof -
  let ?b = "await_fire_end m y a" and ?cbs = "filter (\<lambda>cb. cb_event cb = m) (aw_callbacks a)"
  have left: "aw_callbacks ?b = filter (\<lambda>cb. cb_event cb \<noteq> m) (aw_callbacks a)"
    using assms by (simp add: await_fire_end_def end_callbacks_left fold_remove1_all end_short_def)
  have "length ?cbs + length (aw_callbacks ?b) = length (aw_callbacks a)"
    using waiting_for_rest [of m a] by (simp add: left waiting_for_def)
  then show ?thesis using end_callbacks_short [of ?cbs "length (aw_callbacks ?b)" a y] assms by (simp add: await_fire_end_def)
qed

lemma end_wait_never_resumes:
  assumes "async_cancel_awaited_futures ev els a = (b, True)" "\<not> aw_replaying a"
    and "ac_resolved_count (aw_context a) + length (aw_callbacks b) < ac_total (aw_context a)"
  shows "\<not> aw_resumed (fold (\<lambda>(m, y). await_fire_end m y) fs b)"
proof -
  have "end_short (length (aw_callbacks b)) b"
    using assms by (auto simp: async_cancel_awaited_futures_def Let_def end_short_def)
  then have "end_short (length (aw_callbacks (fold (\<lambda>(m, y). await_fire_end m y) fs b))) (fold (\<lambda>(m, y). await_fire_end m y) fs b)"
    by (induction fs arbitrary: b) (auto simp: end_fire_short)
  then show ?thesis by (simp add: end_short_def)
qed

end
